(* ===== verification/Byte_Prelude.thy ===== *)
theory Byte_Prelude
  imports Main "HOL-Library.Word"
begin

text \<open>
  Shared vocabulary of the development: the C integer types as machine words, lists of
  bytes as memory seen through a pointer, the big-endian value of a byte string and its
  inverse, and the lemmas about shifts and masks by which the word-level loops of the
  sources are read as arithmetic on natural numbers. Nothing here models a particular
  function; the components import this theory.
\<close>

unbundle bit_operations_syntax

section \<open>C types\<close>

type_synonym u8 = "8 word"
type_synonym u16 = "16 word"
type_synonym u32 = "32 word"
type_synonym u64 = "64 word"

text \<open>
  A \<open>size_t\<close> is a natural number below \<open>SIZE_LIMIT\<close> (the target is LP64). Additions
  whose overflow the code tests are written with the wrap-around; the other ones add
  lengths of objects that exist in memory.
\<close>

abbreviation SIZE_LIMIT :: nat where
  "SIZE_LIMIT \<equiv> 18446744073709551616"

named_theorems word_val \<open>values of word expressions as natural numbers\<close>
named_theorems bytes_simps \<open>lengths and values of byte strings\<close>

section \<open>Words as numbers\<close>

lemma word_eq_of_natI: "unat w = n \<Longrightarrow> w = of_nat n"
  by auto

lemma unat_u8_less [simp]: "unat (b :: u8) < 256"
  using unsigned_less [of b] by simp

lemma unat_u8_le [simp]: "unat (b :: u8) \<le> 255"
  using unat_u8_less [of b] by linarith

lemma unat_u16_less: "unat (b :: u16) < 65536"
  using unsigned_less [of b] by simp

lemma unat_u32_less: "unat (b :: u32) < 4294967296"
  using unsigned_less [of b] by simp

lemma unat_u64_less: "unat (b :: u64) < 18446744073709551616"
  using unsigned_less [of b] by simp

lemma take_bit_unat [simp]: "take_bit LENGTH('a) (unat (w :: 'a::len word)) = unat w"
  by (simp add: take_bit_nat_eq_self_iff)

lemma unat_drop_bit [word_val]: "unat (drop_bit n (w :: 'a::len word)) = unat w div 2 ^ n"
proof -
  have "unat (drop_bit n w) = drop_bit n (unat w)"
    by (simp add: unsigned_drop_bit_eq)
  then show ?thesis by (simp add: drop_bit_eq_div)
qed

lemma unat_and_mask [word_val]: "unat (w AND mask n :: 'a::len word) = unat w mod 2 ^ n"
proof -
  have "unat (take_bit n w) = take_bit n (unat w)"
    by (rule unsigned_take_bit_eq)
  then show ?thesis by (simp flip: take_bit_eq_mask take_bit_eq_mod)
qed

lemma unat_ucast_u8 [word_val]: "unat (ucast (w :: 'a::len word) :: u8) = unat w mod 256"
  by (simp add: unsigned_ucast_eq take_bit_eq_mod)

lemma unat_ucast_up [word_val]:
  "LENGTH('a) \<le> LENGTH('b) \<Longrightarrow> unat (ucast (w :: 'a::len word) :: 'b::len word) = unat w"
  by (simp add: unsigned_ucast_eq unsigned_take_bit_eq take_bit_nat_eq_self_iff)
    (meson order.strict_trans2 power_increasing unsigned_less one_le_numeral)

text \<open>
  \<open>(v << k) | b\<close> is \<open>v * 2^k + b\<close> when \<open>b\<close> fits below the shift and nothing is
  shifted out: the step of every big-endian decoding loop.
\<close>

lemma nat_push_or: "b < 2 ^ k \<Longrightarrow> push_bit k a OR b = a * 2 ^ k + (b :: nat)"
proof -
  assume "b < 2 ^ k"
  then have b: "take_bit k b = b" by (simp add: take_bit_nat_eq_self_iff)
  have "push_bit k a AND take_bit k b = 0"
    by (rule bit_eqI) (auto simp: bit_simps)
  then have "push_bit k a + b = push_bit k a OR b"
    using b by (simp add: disjunctive_add_eq_or)
  then show ?thesis by (simp add: push_bit_eq_mult)
qed

lemma unat_push_or:
  fixes v b :: "'a::len word"
  assumes "unat b < 2 ^ k" and "unat v * 2 ^ k < 2 ^ LENGTH('a)"
  shows "unat (push_bit k v OR b) = unat v * 2 ^ k + unat b"
proof -
  have "unat (push_bit k v) = push_bit k (unat v)"
    using assms(2) by (subst unsigned_push_bit_eq)
      (simp add: take_bit_nat_eq_self_iff push_bit_eq_mult [where 'a = nat])
  then show ?thesis
    using assms(1) by (simp add: unsigned_or_eq nat_push_or)
qed

lemma unat_or_disjoint:
  fixes a b :: "'a::len word"
  assumes "2 ^ k dvd unat a" and "unat b < 2 ^ k"
  shows "unat (a OR b) = unat a + unat b"
proof -
  obtain q where q: "unat a = q * 2 ^ k" using assms(1) by (auto simp: dvd_def mult.commute)
  then have "unat a = push_bit k q" by (simp add: push_bit_eq_mult)
  then show ?thesis using nat_push_or [OF assms(2), of q] q by (simp add: unsigned_or_eq)
qed

lemma unat_push_bit:
  "unat (v :: 'a::len word) * 2 ^ k < 2 ^ LENGTH('a) \<Longrightarrow> unat (push_bit k v) = unat v * 2 ^ k"
  using unat_push_or [of 0 k v] by simp

text \<open>A mask of the bits from \<open>k\<close> to \<open>k + j - 1\<close>.\<close>

lemma nat_and_mask_shifted:
  "n AND push_bit k (mask j) = (n div 2 ^ k mod 2 ^ j) * (2 ^ k :: nat)"
proof -
  have "n AND push_bit k (mask j) = push_bit k (take_bit j (drop_bit k n))"
    by (rule bit_eqI) (auto simp: bit_simps)
  then show ?thesis by (simp add: push_bit_eq_mult take_bit_eq_mod drop_bit_eq_div)
qed

text \<open>A mask of low bits given as a numeral, the way the C code writes it.\<close>

lemma unat_and_numeral_mask:
  assumes "m = mask k"
  shows "unat ((w :: 'a::len word) AND m) = unat w mod 2 ^ k"
  by (simp add: assms unat_and_mask)

lemma mask_numerals:
  "(127 :: u8) = mask 7" "(127 :: u32) = mask 7" "(127 :: u64) = mask 7"
  "(31 :: u8) = mask 5" "(255 :: u64) = mask 8" "(536870911 :: u32) = mask 29"
  "(63 :: u8) = mask 6" "(63 :: u32) = mask 6" "(15 :: u8) = mask 4" "(7 :: u8) = mask 3"
  by (simp_all add: mask_eq_exp_minus_1)

lemma unat_minus_1_u64: "unat (- 1 :: u64) = 2 ^ 64 - 1"
  by (simp add: unsigned_minus_1_eq_mask mask_eq_exp_minus_1)

lemma word_xor_eq_0_iff: "(x :: 'a::len word) XOR y = 0 \<longleftrightarrow> x = y"
proof
  assume "x XOR y = 0"
  then have "bit (x XOR y) n = bit (0 :: 'a word) n" for n by simp
  then show "x = y" by (auto simp: bit_eq_iff bit_xor_iff)
qed simp

lemma bit_word_odd: "bit (b :: 'a::len word) k \<longleftrightarrow> odd (unat b div 2 ^ k)"
proof -
  have "bit (unat b) k \<longleftrightarrow> bit b k"
    by (auto simp: bit_unsigned_iff bit_imp_le_length dest: bit_imp_le_length)
  then show ?thesis by (simp add: bit_iff_odd)
qed

lemma and_power_eq_0_iff: "(b :: 'a::len word) AND 2 ^ k = 0 \<longleftrightarrow> \<not> bit b k"
  by (cases "k < LENGTH('a)")
    (auto simp: and_exp_eq_0_iff_not_bit not_less dest: bit_imp_le_length)

lemma high_bit_clear_iff: "(b :: u8) AND 128 = 0 \<longleftrightarrow> unat b < 128"
proof -
  have p: "(2 :: u8) ^ 7 = 128" and n: "(2 :: nat) ^ 7 = 128" by simp_all
  have "b AND 128 = 0 \<longleftrightarrow> even (unat b div 128)"
    by (rule and_power_eq_0_iff [of b 7, unfolded bit_word_odd p n, simplified])
  also have "\<dots> \<longleftrightarrow> unat b < 128"
  proof -
    have "unat b div 128 = 0 \<or> unat b div 128 = 1"
      using unat_u8_less [of b] by linarith
    then show ?thesis by auto
  qed
  finally show ?thesis .
qed

lemma high_byte_mod: "128 \<le> unat (b :: u8) \<Longrightarrow> unat b mod 128 + 128 = unat b"
proof -
  assume b: "128 \<le> unat b"
  have "unat b - 128 < 128" using unat_u8_less [of b] by linarith
  then have "(unat b - 128) mod 128 = unat b - 128" by simp
  then show ?thesis using b by (simp add: le_mod_geq)
qed

section \<open>Byte strings as big-endian numbers\<close>

primrec be_val :: "u8 list \<Rightarrow> nat" where
  "be_val [] = 0"
| "be_val (b # bs) = unat b * 256 ^ length bs + be_val bs"

primrec be_bytes :: "nat \<Rightarrow> nat \<Rightarrow> u8 list" where
  "be_bytes 0 v = []"
| "be_bytes (Suc n) v = be_bytes n (v div 256) @ [of_nat v]"

lemma length_be_bytes [simp, bytes_simps]: "length (be_bytes n v) = n"
  by (induction n arbitrary: v) simp_all

lemma be_val_append [bytes_simps]: "be_val (xs @ ys) = be_val xs * 256 ^ length ys + be_val ys"
  by (induction xs) (simp_all add: algebra_simps power_add)

lemma be_val_less: "be_val bs < 256 ^ length bs"
proof (induction bs)
  case (Cons b bs)
  have "unat b * 256 ^ length bs + be_val bs < (unat b + 1) * 256 ^ length bs"
    using Cons by (simp add: algebra_simps)
  also have "\<dots> \<le> 256 * 256 ^ length bs"
    by (rule mult_right_mono) (use unat_u8_less [of b] in linarith, simp)
  finally show ?case by simp
qed simp

lemma be_val_dropWhile_0: "be_val (dropWhile (\<lambda>b. b = 0) bs) = be_val bs"
  by (induction bs) auto

lemma be_val_lower: "bs \<noteq> [] \<Longrightarrow> hd bs \<noteq> 0 \<Longrightarrow> 256 ^ (length bs - 1) \<le> be_val bs"
  by (cases bs) (auto simp: word_unat_eq_iff intro: trans_le_add1)

lemma be_val_replicate_0: "be_val (replicate k 0 @ bs) = be_val bs"
  by (induction k) auto

lemma unat_of_nat_u8 [simp]: "unat (of_nat v :: u8) = v mod 256"
  by (simp add: unsigned_of_nat take_bit_eq_mod)

lemma unat_of_nat_eq: "n < 2 ^ LENGTH('a) \<Longrightarrow> unat (of_nat n :: 'a::len word) = n"
  by (simp add: unsigned_of_nat take_bit_nat_eq_self)

lemma be_val_be_bytes [bytes_simps]: "be_val (be_bytes n v) = v mod 256 ^ n"
proof (induction n arbitrary: v)
  case (Suc n)
  have "v mod (256 * 256 ^ n) = 256 * (v div 256 mod 256 ^ n) + v mod 256"
    by (rule mod_mult2_eq)
  then show ?case by (simp add: Suc be_val_append)
qed simp

lemma be_bytes_be_val [bytes_simps]: "be_bytes (length bs) (be_val bs) = bs"
proof (induction bs rule: rev_induct)
  case (snoc b bs)
  have "(be_val bs * 256 + unat b) div 256 = be_val bs"
    using unat_u8_less [of b] by simp
  moreover have "(of_nat (be_val bs * 256 + unat b) :: u8) = b"
    by (simp add: word_unat_eq_iff del: of_nat_add of_nat_mult)
  ultimately show ?case using snoc by (simp add: be_val_append)
qed simp

lemma be_bytes_unique: "length bs = n \<Longrightarrow> be_val bs = v \<Longrightarrow> bs = be_bytes n v"
  using be_bytes_be_val [of bs] by simp

text \<open>The loop that assembles a big-endian number in a 64-bit register.\<close>

abbreviation be_load :: "u8 list \<Rightarrow> u64" where
  "be_load bs \<equiv> foldl (\<lambda>r b. push_bit 8 r OR ucast b) 0 bs"

lemma unat_be_load: "length bs \<le> 8 \<Longrightarrow> unat (be_load bs) = be_val bs"
proof (induction bs rule: rev_induct)
  case (snoc b bs)
  have "(256 :: nat) ^ length bs \<le> 256 ^ 7"
    using snoc.prems by (intro power_increasing) simp_all
  with be_val_less [of bs] have "be_val bs < 256 ^ 7" by (rule order.strict_trans2)
  then have "be_val bs * 2 ^ 8 < 2 ^ 64" by simp
  with snoc show ?case
    by (simp add: unat_push_or word_val be_val_append)
qed simp

text \<open>The eight octets of a 64-bit number, for evaluation.\<close>

lemma be_bytes_8:
  "be_bytes 8 n = map (\<lambda>k. of_nat (n div 256 ^ k)) [7, 6, 5, 4, 3, 2, 1, 0]"
proof -
  have eight: "8 = Suc (Suc (Suc (Suc (Suc (Suc (Suc (Suc 0)))))))" by simp
  have "be_bytes (Suc (Suc (Suc (Suc (Suc (Suc (Suc (Suc 0)))))))) n =
      map (\<lambda>k. of_nat (n div 256 ^ k)) [7, 6, 5, 4, 3, 2, 1, 0]"
    by (simp add: div_mult2_eq [symmetric])
  then show ?thesis unfolding eight .
qed

section \<open>Copies into a buffer\<close>

definition mem_write :: "nat \<Rightarrow> 'a list \<Rightarrow> 'a list \<Rightarrow> 'a list" where
  "mem_write pos data buf = take pos buf @ data @ drop (pos + length data) buf"

lemma length_mem_write [simp]:
  "pos + length data \<le> length buf \<Longrightarrow> length (mem_write pos data buf) = length buf"
  by (simp add: mem_write_def)

lemma take_mem_write:
  "pos + length data \<le> length buf \<Longrightarrow>
     take (pos + length data) (mem_write pos data buf) = take pos buf @ data"
  by (simp add: mem_write_def)

section \<open>Little-endian words\<close>

primrec le_load :: "u8 list \<Rightarrow> u64" where
  "le_load [] = 0"
| "le_load (b # bs) = ucast b OR push_bit 8 (le_load bs)"

definition le_bytes8 :: "u64 \<Rightarrow> u8 list" where
  "le_bytes8 v = map (\<lambda>i. ucast (drop_bit (8 * i) v)) [0..<8]"

end
