(* ===== verification/Crypto_Mem.thy ===== *)
theory Crypto_Mem
  imports Byte_Prelude
begin

text \<open>
  \<^verbatim>\<open>crypto/mem.c\<close>: the allocation wrappers and the small string helpers of libcrypto.
  A block of memory is the list of its bytes; a pointer into it is the suffix that starts
  there, so a read past the end of the object is visible (\<open>None\<close>). The system allocator
  is a parameter: \<open>sys_ok n\<close> says whether \<^verbatim>\<open>malloc(n)\<close> succeeds and \<open>sys_junk\<close> what
  the fresh bytes hold. The replacement hooks (\<^verbatim>\<open>OPENSSL_memory_alloc\<close> and its kin) are
  null pointers on the Apple targets, where weak symbols are not used.
\<close>

section \<open>Allocation\<close>

record sys_alloc =
  sys_ok :: "nat \<Rightarrow> bool"
  sys_junk :: "nat \<Rightarrow> u8"

definition OPENSSL_MALLOC_PREFIX :: nat where
  "OPENSSL_MALLOC_PREFIX = 8"

definition OPENSSL_malloc :: "sys_alloc \<Rightarrow> nat \<Rightarrow> u8 list option" where
  "OPENSSL_malloc a sz =
     (if (sz + OPENSSL_MALLOC_PREFIX) mod SIZE_LIMIT < sz then None
      else if sys_ok a (sz + OPENSSL_MALLOC_PREFIX)
      then Some (map (sys_junk a) [0..<sz]) else None)"

definition OPENSSL_realloc :: "sys_alloc \<Rightarrow> u8 list option \<Rightarrow> nat \<Rightarrow> u8 list option" where
  "OPENSSL_realloc a orig_ptr new_size =
     (case orig_ptr of
        None \<Rightarrow> OPENSSL_malloc a new_size
      | Some orig \<Rightarrow>
          (let old_size = length orig in
           case OPENSSL_malloc a new_size of
             None \<Rightarrow> None
           | Some ret \<Rightarrow>
               (let to_copy = (if old_size < new_size then old_size else new_size)
                in Some (take to_copy orig @ drop to_copy ret))))"

definition OPENSSL_memdup :: "sys_alloc \<Rightarrow> u8 list \<Rightarrow> nat \<Rightarrow> u8 list option" where
  "OPENSSL_memdup a data sz =
     (if sz = 0 then None
      else case OPENSSL_malloc a sz of
             None \<Rightarrow> None
           | Some ret \<Rightarrow> Some (take sz data @ drop sz ret))"

definition OPENSSL_cleanse :: "u8 list \<Rightarrow> nat \<Rightarrow> u8 list" where
  "OPENSSL_cleanse ptr len = replicate len 0 @ drop len ptr"

text \<open>Every allocation of the process succeeds below the address space limit.\<close>

definition never_fails :: "sys_alloc \<Rightarrow> bool" where
  "never_fails a \<longleftrightarrow> (\<forall>n. sys_ok a n)"

lemma OPENSSL_malloc_length: "OPENSSL_malloc a n = Some b \<Longrightarrow> length b = n"
  by (auto simp: OPENSSL_malloc_def split: if_splits)

lemma OPENSSL_malloc_ok:
  "never_fails a \<Longrightarrow> n + 8 < SIZE_LIMIT \<Longrightarrow> \<exists>b. OPENSSL_malloc a n = Some b \<and> length b = n"
  by (simp add: OPENSSL_malloc_def never_fails_def OPENSSL_MALLOC_PREFIX_def)

lemma OPENSSL_realloc_prefix:
  assumes "OPENSSL_realloc a (Some orig) n = Some b" and "length orig \<le> n"
  shows "length b = n \<and> take (length orig) b = orig"
  using assms OPENSSL_malloc_length
  by (fastforce simp: OPENSSL_realloc_def Let_def split: option.splits if_splits)

lemma OPENSSL_realloc_ok:
  "never_fails a \<Longrightarrow> n + 8 < SIZE_LIMIT \<Longrightarrow> \<exists>b. OPENSSL_realloc a p n = Some b"
  using OPENSSL_malloc_ok [of a n]
  by (auto simp: OPENSSL_realloc_def Let_def split: option.splits)

lemma OPENSSL_memdup_Some:
  "OPENSSL_memdup a data n = Some b \<Longrightarrow> n \<le> length data \<Longrightarrow> b = take n data \<and> 0 < n"
  by (auto simp: OPENSSL_memdup_def dest: OPENSSL_malloc_length split: if_splits option.splits)

lemma OPENSSL_memdup_ok:
  "never_fails a \<Longrightarrow> 0 < n \<Longrightarrow> n + 8 < SIZE_LIMIT \<Longrightarrow> n \<le> length data \<Longrightarrow>
     OPENSSL_memdup a data n = Some (take n data)"
  using OPENSSL_malloc_ok [of a n] by (auto simp: OPENSSL_memdup_def)

section \<open>Comparison and hashing\<close>

text \<open>The constant-time comparison: it accumulates the differences and never exits early.\<close>

fun memcmp_loop :: "u8 \<Rightarrow> u8 list \<Rightarrow> u8 list \<Rightarrow> nat \<Rightarrow> u8 option" where
  "memcmp_loop x a b 0 = Some x"
| "memcmp_loop x (a # as) (b # bs) (Suc n) = memcmp_loop (x OR (a XOR b)) as bs n"
| "memcmp_loop x _ _ (Suc n) = None"

definition CRYPTO_memcmp :: "u8 list \<Rightarrow> u8 list \<Rightarrow> nat \<Rightarrow> u8 option" where
  "CRYPTO_memcmp a b len = memcmp_loop 0 a b len"

lemma word_or_eq_0_iff: "(x :: 'a::len word) OR y = 0 \<longleftrightarrow> x = 0 \<and> y = 0"
  by (rule or_eq_0_iff)

lemma memcmp_loop_value:
  "n \<le> length a \<Longrightarrow> n \<le> length b \<Longrightarrow>
     \<exists>r. memcmp_loop x a b n = Some r \<and> (r = 0 \<longleftrightarrow> x = 0 \<and> take n a = take n b)"
  by (induction x a b n rule: memcmp_loop.induct)
    (auto simp: word_or_eq_0_iff word_xor_eq_0_iff)

lemma CRYPTO_memcmp_correct:
  "n \<le> length a \<Longrightarrow> n \<le> length b \<Longrightarrow>
     \<exists>r. CRYPTO_memcmp a b n = Some r \<and> (r = 0 \<longleftrightarrow> take n a = take n b)"
  using memcmp_loop_value [of n a b 0] by (simp add: CRYPTO_memcmp_def)

text \<open>FNV-1a.\<close>

definition OPENSSL_hash32 :: "u8 list \<Rightarrow> nat \<Rightarrow> u32" where
  "OPENSSL_hash32 p len =
     foldl (\<lambda>h b. (h XOR ucast b) * 16777619) 2166136261 (take len p)"

section \<open>C strings\<close>

text \<open>
  A \<^verbatim>\<open>char\<close> is a byte, signed on the Apple targets. \<open>cstr\<close> is the text before the
  terminating NUL, and \<open>terminated\<close> says that there is one.
\<close>

definition terminated :: "u8 list \<Rightarrow> bool" where
  "terminated s \<longleftrightarrow> 0 \<in> set s"

definition cstr :: "u8 list \<Rightarrow> u8 list" where
  "cstr s = takeWhile (\<lambda>b. b \<noteq> 0) s"

fun OPENSSL_strnlen :: "u8 list \<Rightarrow> nat \<Rightarrow> nat option" where
  "OPENSSL_strnlen s 0 = Some 0"
| "OPENSSL_strnlen [] (Suc n) = None"
| "OPENSSL_strnlen (c # s) (Suc n) =
     (if c = 0 then Some 0 else map_option Suc (OPENSSL_strnlen s n))"

fun strlen_loop :: "u8 list \<Rightarrow> nat option" where
  "strlen_loop [] = None"
| "strlen_loop (c # s) = (if c = 0 then Some 0 else map_option Suc (strlen_loop s))"

definition OPENSSL_strhash :: "u8 list \<Rightarrow> u32 option" where
  "OPENSSL_strhash s = map_option (OPENSSL_hash32 s) (strlen_loop s)"

definition OPENSSL_strdup :: "sys_alloc \<Rightarrow> u8 list option \<Rightarrow> u8 list option option" where
  \<comment> \<open>outer \<open>None\<close>: the argument is not a C string\<close>
  "OPENSSL_strdup a sp =
     (case sp of
        None \<Rightarrow> Some None
      | Some s \<Rightarrow>
          (case strlen_loop s of
             None \<Rightarrow> None
           | Some l \<Rightarrow>
               (let len = l + 1 in
                case OPENSSL_malloc a len of
                  None \<Rightarrow> Some None
                | Some ret \<Rightarrow> Some (Some (take len s @ drop len ret)))))"

definition OPENSSL_strndup :: "sys_alloc \<Rightarrow> u8 list \<Rightarrow> nat \<Rightarrow> u8 list option option" where
  "OPENSSL_strndup a str size0 =
     (case OPENSSL_strnlen str size0 of
        None \<Rightarrow> None
      | Some sz \<Rightarrow>
          (let alloc_size = (sz + 1) mod SIZE_LIMIT in
           if alloc_size < sz then Some None
           else case OPENSSL_malloc a alloc_size of
                  None \<Rightarrow> Some None
                | Some ret \<Rightarrow> Some (Some ((take sz str @ drop sz ret)[sz := 0]))))"

definition OPENSSL_tolower :: "int \<Rightarrow> int" where
  "OPENSSL_tolower c = (if 65 \<le> c \<and> c \<le> 90 then c + (97 - 65) else c)"

fun OPENSSL_strcasecmp :: "u8 list \<Rightarrow> u8 list \<Rightarrow> int option" where
  "OPENSSL_strcasecmp (a # as) (b # bs) =
     (let aa = OPENSSL_tolower (sint a); bb = OPENSSL_tolower (sint b) in
      if aa < bb then Some (-1) else if aa > bb then Some 1
      else if aa = 0 then Some 0 else OPENSSL_strcasecmp as bs)"
| "OPENSSL_strcasecmp _ _ = None"

fun OPENSSL_strncasecmp :: "u8 list \<Rightarrow> u8 list \<Rightarrow> nat \<Rightarrow> int option" where
  "OPENSSL_strncasecmp a b 0 = Some 0"
| "OPENSSL_strncasecmp (a # as) (b # bs) (Suc n) =
     (let aa = OPENSSL_tolower (sint a); bb = OPENSSL_tolower (sint b) in
      if aa < bb then Some (-1) else if aa > bb then Some 1
      else if aa = 0 then Some 0 else OPENSSL_strncasecmp as bs n)"
| "OPENSSL_strncasecmp _ _ (Suc n) = None"

text \<open>
  \<^verbatim>\<open>strlcpy\<close> writes through \<open>dst\<close>; the result is the new contents of the destination
  (the bytes it does not reach keep their value) and the length it reports.
\<close>

fun strlcpy_loop :: "nat \<Rightarrow> u8 list \<Rightarrow> u8 list \<Rightarrow> nat \<Rightarrow> (u8 list \<times> nat) option" where
  "strlcpy_loop l dst [] dst_size = None"
| "strlcpy_loop l dst (c # src) dst_size =
     (if dst_size > 1 \<and> c \<noteq> 0 then
        (case dst of
           [] \<Rightarrow> None
         | d # ds \<Rightarrow> (case strlcpy_loop (l + 1) ds src (dst_size - 1) of
                       None \<Rightarrow> None
                     | Some (ds', r) \<Rightarrow> Some (c # ds', r)))
      else
        (case strlen_loop (c # src) of
           None \<Rightarrow> None
         | Some k \<Rightarrow>
             (if dst_size > 0
              then (case dst of [] \<Rightarrow> None | d # ds \<Rightarrow> Some (0 # ds, l + k))
              else Some (dst, l + k))))"

definition OPENSSL_strlcpy :: "u8 list \<Rightarrow> u8 list \<Rightarrow> nat \<Rightarrow> (u8 list \<times> nat) option" where
  "OPENSSL_strlcpy dst src dst_size = strlcpy_loop 0 dst src dst_size"

fun strlcat_loop :: "nat \<Rightarrow> u8 list \<Rightarrow> u8 list \<Rightarrow> nat \<Rightarrow> (u8 list \<times> nat) option" where
  "strlcat_loop l dst src 0 =
     map_option (\<lambda>(d, r). (d, l + r)) (OPENSSL_strlcpy dst src 0)"
| "strlcat_loop l [] src (Suc n) = None"
| "strlcat_loop l (d # dst) src (Suc n) =
     (if d \<noteq> 0 then map_option (\<lambda>(ds, r). (d # ds, r)) (strlcat_loop (l + 1) dst src n)
      else map_option (\<lambda>(ds, r). (ds, l + r)) (OPENSSL_strlcpy (d # dst) src (Suc n)))"

definition OPENSSL_strlcat :: "u8 list \<Rightarrow> u8 list \<Rightarrow> nat \<Rightarrow> (u8 list \<times> nat) option" where
  "OPENSSL_strlcat dst src dst_size = strlcat_loop 0 dst src dst_size"

subsection \<open>What the string helpers compute\<close>

lemma terminated_simps [simp]:
  "\<not> terminated []" "terminated (c # s) \<longleftrightarrow> c = 0 \<or> terminated s"
  by (auto simp: terminated_def)

lemma cstr_simps [simp]: "cstr [] = []" "cstr (c # s) = (if c = 0 then [] else c # cstr s)"
  by (simp_all add: cstr_def)

lemma strlen_loop_correct: "terminated s \<Longrightarrow> strlen_loop s = Some (length (cstr s))"
  by (induction s) auto

lemma OPENSSL_strnlen_correct:
  "n \<le> length s \<or> terminated s \<Longrightarrow> OPENSSL_strnlen s n = Some (min n (length (cstr s)))"
  by (induction s n rule: OPENSSL_strnlen.induct) auto

lemma cstr_append_0: "0 \<notin> set xs \<Longrightarrow> cstr (xs @ 0 # r) = xs"
  by (induction xs) auto

lemma zero_notin_cstr: "0 \<notin> set (cstr s)"
  by (auto simp: cstr_def dest: set_takeWhileD)

lemma strlcpy_loop_correct:
  assumes "terminated src" and "n \<le> length dst"
  shows "strlcpy_loop l dst src n =
    Some (if n = 0 then dst
          else take (n - 1) (cstr src) @ 0 # drop (Suc (min (n - 1) (length (cstr src)))) dst,
          l + length (cstr src))"
  using assms
proof (induction src arbitrary: l dst n)
  case (Cons c src)
  show ?case
  proof (cases "n > 1 \<and> c \<noteq> 0")
    case True
    then have n: "n = Suc (Suc (n - 2))" by arith
    with Cons.prems(2) obtain d ds where dst: "dst = d # ds" by (cases dst) simp_all
    from Cons.prems(1) True have t: "terminated src" by simp
    from Cons.prems(2) dst have "n - 1 \<le> length ds" by simp
    note ih = Cons.IH [OF t this, of "l + 1"]
    have "strlcpy_loop l dst (c # src) n =
        Some (c # (take (n - 2) (cstr src) @ 0 # drop (Suc (min (n - 2) (length (cstr src)))) ds),
              l + 1 + length (cstr src))"
      using True dst ih by (simp add: numeral_2_eq_2)
    moreover have "take (n - 1) (c # cstr src) = c # take (n - 2) (cstr src)"
      using n by (metis Suc_eq_plus1 diff_Suc_1 take_Suc_Cons)
    moreover have "min (n - 1) (Suc (length (cstr src))) = Suc (min (n - 2) (length (cstr src)))"
      using n by arith
    ultimately show ?thesis using True dst by simp
  next
    case False
    have s: "strlen_loop (c # src) = Some (length (cstr (c # src)))"
      by (rule strlen_loop_correct) (rule Cons.prems(1))
    show ?thesis
    proof (cases n)
      case 0
      then show ?thesis by (simp add: s del: strlen_loop.simps)
    next
      case (Suc m)
      with Cons.prems(2) obtain d ds where "dst = d # ds" by (cases dst) simp_all
      moreover from False Suc have "m = 0 \<or> c = 0" by auto
      ultimately show ?thesis using Suc s by (elim disjE) (simp_all del: strlen_loop.simps)
    qed
  qed
qed simp

lemma OPENSSL_strlcpy_correct:
  assumes "terminated src" and "0 < n" and "n \<le> length dst"
  shows "\<exists>d. OPENSSL_strlcpy dst src n = Some (d, length (cstr src)) \<and>
         cstr d = take (n - 1) (cstr src) \<and> terminated d \<and>
         length d = length dst \<and> drop n d = drop n dst"
proof -
  let ?t = "take (n - 1) (cstr src)"
  let ?d = "?t @ 0 # drop (Suc (min (n - 1) (length (cstr src)))) dst"
  have "0 \<notin> set ?t" by (meson zero_notin_cstr in_set_takeD)
  then have c: "cstr ?d = ?t" by (rule cstr_append_0)
  have len: "length ?d = length dst" using assms by auto
  have d: "drop n ?d = drop n dst"
    using assms by (cases "n - 1 \<le> length (cstr src)") (auto simp: drop_Cons' min_def)
  have "OPENSSL_strlcpy dst src n = Some (?d, length (cstr src))"
    using assms by (simp add: OPENSSL_strlcpy_def strlcpy_loop_correct)
  moreover have "terminated ?d" by (simp add: terminated_def)
  ultimately show ?thesis using c len d by blast
qed

text \<open>A concrete allocator for examples: it always succeeds and returns zeroed memory.\<close>

definition example_alloc :: sys_alloc where
  "example_alloc = \<lparr>sys_ok = \<lambda>_. True, sys_junk = \<lambda>_. 0\<rparr>"

end
