(* ===== verification/Bytestring_Reader.thy ===== *)
theory Bytestring_Reader
  imports Crypto_Mem
begin

text \<open>
  \<^verbatim>\<open>crypto/bytestring/cbs.c\<close>: the byte-string reader on which all parsing of TLS and
  ASN.1 data rests. A \<open>CBS\<close> is a pointer and a length; the pointer is the memory from that
  address to the end of its object, so a reader that looked beyond \<open>cbs_len\<close> bytes would
  be visible in the model. A function that returns zero on failure is a function to
  \<open>'a option \<times> CBS\<close>: \<open>None\<close> is the zero return, and the second component is the reader
  afterwards, on both outcomes. Values stored through output pointers by a call that
  fails are not modelled.
\<close>

section \<open>The reader and its primitive operations\<close>

record CBS =
  cbs_data :: "u8 list"
  cbs_len :: nat

type_synonym 'a reader = "CBS \<Rightarrow> 'a option \<times> CBS"

definition cbs_bind :: "'a option \<times> CBS \<Rightarrow> ('a \<Rightarrow> 'b reader) \<Rightarrow> 'b option \<times> CBS" where
  "cbs_bind r f = (case r of (None, c) \<Rightarrow> (None, c) | (Some x, c) \<Rightarrow> f x c)"

definition CBS_init :: "u8 list \<Rightarrow> nat \<Rightarrow> CBS" where
  "CBS_init data len = \<lparr>cbs_data = data, cbs_len = len\<rparr>"

definition cbs_get :: "nat \<Rightarrow> u8 list reader" where
  "cbs_get n c =
     (if cbs_len c < n then (None, c)
      else (Some (cbs_data c), c\<lparr>cbs_data := drop n (cbs_data c), cbs_len := cbs_len c - n\<rparr>))"

definition CBS_skip :: "nat \<Rightarrow> unit reader" where
  "CBS_skip len c = cbs_bind (cbs_get len c) (\<lambda>_ c'. (Some (), c'))"

definition CBS_data :: "CBS \<Rightarrow> u8 list" where
  "CBS_data c = cbs_data c"

definition CBS_len :: "CBS \<Rightarrow> nat" where
  "CBS_len c = cbs_len c"

text \<open>
  \<open>CBS_stow\<close> gives \<open>None\<close> on failure, otherwise the new \<^verbatim>\<open>*out_ptr\<close> (\<open>None\<close> is the null
  pointer) with \<^verbatim>\<open>*out_len\<close>.
\<close>

definition CBS_stow :: "sys_alloc \<Rightarrow> CBS \<Rightarrow> (u8 list option \<times> nat) option" where
  "CBS_stow a c =
     (if cbs_len c = 0 then Some (None, 0)
      else case OPENSSL_memdup a (cbs_data c) (cbs_len c) of
             None \<Rightarrow> None
           | Some p \<Rightarrow> Some (Some p, cbs_len c))"

definition CBS_strdup :: "sys_alloc \<Rightarrow> CBS \<Rightarrow> u8 list option" where
  "CBS_strdup a c =
     (case OPENSSL_strndup a (cbs_data c) (cbs_len c) of None \<Rightarrow> None | Some p \<Rightarrow> p)"

text \<open>The C library's \<^verbatim>\<open>memchr\<close>: the index of the first occurrence within \<open>n\<close> bytes.\<close>

definition OPENSSL_memchr :: "u8 list \<Rightarrow> u8 \<Rightarrow> nat \<Rightarrow> nat option" where
  "OPENSSL_memchr s c n =
     (let i = length (takeWhile (\<lambda>b. b \<noteq> c) (take n s))
      in if i < length (take n s) then Some i else None)"

definition CBS_contains_zero_byte :: "CBS \<Rightarrow> bool" where
  "CBS_contains_zero_byte c \<longleftrightarrow> OPENSSL_memchr (cbs_data c) 0 (cbs_len c) \<noteq> None"

definition CBS_mem_equal :: "CBS \<Rightarrow> u8 list \<Rightarrow> nat \<Rightarrow> bool" where
  "CBS_mem_equal c data len \<longleftrightarrow>
     (if len \<noteq> cbs_len c then False else CRYPTO_memcmp (cbs_data c) data len = Some 0)"

section \<open>Integers\<close>

definition cbs_get_u :: "nat \<Rightarrow> u64 reader" where
  "cbs_get_u len c = cbs_bind (cbs_get len c) (\<lambda>data c'. (Some (be_load (take len data)), c'))"

definition CBS_get_u8 :: "u8 reader" where
  "CBS_get_u8 c = cbs_bind (cbs_get 1 c) (\<lambda>v c'. (Some (hd v), c'))"

definition CBS_get_u16 :: "u16 reader" where
  "CBS_get_u16 c = cbs_bind (cbs_get_u 2 c) (\<lambda>v c'. (Some (ucast v), c'))"

definition CRYPTO_bswap2 :: "u16 \<Rightarrow> u16" where
  "CRYPTO_bswap2 x = drop_bit 8 x OR push_bit 8 x"

definition CRYPTO_bswap4 :: "u32 \<Rightarrow> u32" where
  "CRYPTO_bswap4 x0 =
     (let x1 = drop_bit 16 x0 OR push_bit 16 x0;
          x2 = drop_bit 8 (x1 AND 0xff00ff00) OR push_bit 8 (x1 AND 0x00ff00ff)
      in x2)"

definition CRYPTO_bswap8 :: "u64 \<Rightarrow> u64" where
  "CRYPTO_bswap8 x =
     ucast (CRYPTO_bswap4 (ucast (drop_bit 32 x)))
       OR push_bit 32 (ucast (CRYPTO_bswap4 (ucast x)) :: u64)"

definition CBS_get_u16le :: "u16 reader" where
  "CBS_get_u16le c = cbs_bind (CBS_get_u16 c) (\<lambda>v c'. (Some (CRYPTO_bswap2 v), c'))"

definition CBS_get_u24 :: "u32 reader" where
  "CBS_get_u24 c = cbs_bind (cbs_get_u 3 c) (\<lambda>v c'. (Some (ucast v), c'))"

definition CBS_get_u32 :: "u32 reader" where
  "CBS_get_u32 c = cbs_bind (cbs_get_u 4 c) (\<lambda>v c'. (Some (ucast v), c'))"

definition CBS_get_u32le :: "u32 reader" where
  "CBS_get_u32le c = cbs_bind (CBS_get_u32 c) (\<lambda>v c'. (Some (CRYPTO_bswap4 v), c'))"

definition CBS_get_u64 :: "u64 reader" where
  "CBS_get_u64 c = cbs_get_u 8 c"

definition CBS_get_u64le :: "u64 reader" where
  "CBS_get_u64le c = cbs_bind (cbs_get_u 8 c) (\<lambda>v c'. (Some (CRYPTO_bswap8 v), c'))"

definition CBS_get_last_u8 :: "u8 reader" where
  "CBS_get_last_u8 c =
     (if cbs_len c = 0 then (None, c)
      else (Some (cbs_data c ! (cbs_len c - 1)), c\<lparr>cbs_len := cbs_len c - 1\<rparr>))"

section \<open>Byte strings and length prefixes\<close>

definition CBS_get_bytes :: "nat \<Rightarrow> CBS reader" where
  "CBS_get_bytes len c = cbs_bind (cbs_get len c) (\<lambda>v c'. (Some (CBS_init v len), c'))"

definition CBS_copy_bytes :: "nat \<Rightarrow> u8 list reader" where
  "CBS_copy_bytes len c = cbs_bind (cbs_get len c) (\<lambda>v c'. (Some (take len v), c'))"

definition cbs_get_length_prefixed :: "nat \<Rightarrow> CBS reader" where
  "cbs_get_length_prefixed len_len c =
     cbs_bind (cbs_get_u len_len c) (\<lambda>len c'. CBS_get_bytes (unat len) c')"

definition CBS_get_u8_length_prefixed :: "CBS reader" where
  "CBS_get_u8_length_prefixed = cbs_get_length_prefixed 1"

definition CBS_get_u16_length_prefixed :: "CBS reader" where
  "CBS_get_u16_length_prefixed = cbs_get_length_prefixed 2"

definition CBS_get_u24_length_prefixed :: "CBS reader" where
  "CBS_get_u24_length_prefixed = cbs_get_length_prefixed 3"

definition CBS_get_until_first :: "u8 \<Rightarrow> CBS reader" where
  "CBS_get_until_first b c =
     (case OPENSSL_memchr (CBS_data c) b (CBS_len c) of
        None \<Rightarrow> (None, c)
      | Some split \<Rightarrow> CBS_get_bytes split c)"

section \<open>ASN.1 identifiers and lengths\<close>

definition CBS_ASN1_TAG_SHIFT :: nat where "CBS_ASN1_TAG_SHIFT = 24"
definition CBS_ASN1_CONSTRUCTED :: u32 where "CBS_ASN1_CONSTRUCTED = 0x20000000"
definition CBS_ASN1_TAG_NUMBER_MASK :: u32 where "CBS_ASN1_TAG_NUMBER_MASK = 0x1fffffff"
definition CBS_ASN1_BOOLEAN :: u32 where "CBS_ASN1_BOOLEAN = 1"
definition CBS_ASN1_INTEGER :: u32 where "CBS_ASN1_INTEGER = 2"
definition CBS_ASN1_OCTETSTRING :: u32 where "CBS_ASN1_OCTETSTRING = 4"
definition CBS_ASN1_BITSTRING :: u32 where "CBS_ASN1_BITSTRING = 0x3"
definition CBS_ASN1_UTF8STRING :: u32 where "CBS_ASN1_UTF8STRING = 0xc"
definition CBS_ASN1_SEQUENCE :: u32 where "CBS_ASN1_SEQUENCE = 0x20000010"
definition CBS_ASN1_SET :: u32 where "CBS_ASN1_SET = 0x20000011"
definition CBS_ASN1_NUMERICSTRING :: u32 where "CBS_ASN1_NUMERICSTRING = 0x12"
definition CBS_ASN1_PRINTABLESTRING :: u32 where "CBS_ASN1_PRINTABLESTRING = 0x13"
definition CBS_ASN1_T61STRING :: u32 where "CBS_ASN1_T61STRING = 0x14"
definition CBS_ASN1_VIDEOTEXSTRING :: u32 where "CBS_ASN1_VIDEOTEXSTRING = 0x15"
definition CBS_ASN1_IA5STRING :: u32 where "CBS_ASN1_IA5STRING = 0x16"
definition CBS_ASN1_GRAPHICSTRING :: u32 where "CBS_ASN1_GRAPHICSTRING = 0x19"
definition CBS_ASN1_VISIBLESTRING :: u32 where "CBS_ASN1_VISIBLESTRING = 0x1a"
definition CBS_ASN1_GENERALSTRING :: u32 where "CBS_ASN1_GENERALSTRING = 0x1b"
definition CBS_ASN1_UNIVERSALSTRING :: u32 where "CBS_ASN1_UNIVERSALSTRING = 0x1c"
definition CBS_ASN1_BMPSTRING :: u32 where "CBS_ASN1_BMPSTRING = 0x1e"

text \<open>The \<^verbatim>\<open>do\<close>-\<^verbatim>\<open>while\<close> loop of \<open>parse_base128_integer\<close>; each round consumes a byte.\<close>

lemma CBS_get_u8_decreases [termination_simp]:
  "CBS_get_u8 c = (Some b, c') \<Longrightarrow> cbs_len c' < cbs_len c"
  by (auto simp: CBS_get_u8_def cbs_bind_def cbs_get_def split: if_splits)

function parse_base128_loop :: "u64 \<Rightarrow> u64 reader" where
  "parse_base128_loop v c =
     (case CBS_get_u8 c of
        (None, c') \<Rightarrow> (None, c')
      | (Some b, c') \<Rightarrow>
          (if drop_bit (64 - 7) v \<noteq> 0 then (None, c')
           else if v = 0 \<and> b = 0x80 then (None, c')
           else (let v' = push_bit 7 v OR ucast (b AND 0x7f)
                 in if b AND 0x80 \<noteq> 0 then parse_base128_loop v' c' else (Some v', c'))))"
  by pat_completeness auto
termination
  by (relation "measure (\<lambda>(v, c). cbs_len c)") (auto dest: CBS_get_u8_decreases [OF sym])

declare parse_base128_loop.simps [simp del]

definition parse_base128_integer :: "u64 reader" where
  "parse_base128_integer = parse_base128_loop 0"

definition parse_asn1_tag :: "u32 reader" where
  "parse_asn1_tag c =
     cbs_bind (CBS_get_u8 c) (\<lambda>tag_byte c1.
       (let tag = push_bit CBS_ASN1_TAG_SHIFT (ucast tag_byte AND 0xe0 :: u32);
            tag_number = (ucast (tag_byte AND 0x1f) :: u32)
        in if tag_number = 0x1f then
             cbs_bind (parse_base128_integer c1) (\<lambda>v c2.
               (if v > ucast CBS_ASN1_TAG_NUMBER_MASK \<or> v < 0x1f then (None, c2)
                else (Some (tag OR ucast v), c2)))
           else (Some (tag OR tag_number), c1)))"

text \<open>
  The element parser works on a copy of the reader and advances the caller's reader only
  in its last step. It yields the element with its header, the tag, the header's length
  and the BER flag.
\<close>

record asn1_element =
  el_out :: CBS
  el_tag :: u32
  el_header_len :: nat
  el_ber_found :: bool

definition asn1_element_take :: "nat \<Rightarrow> u32 \<Rightarrow> nat \<Rightarrow> bool \<Rightarrow> asn1_element reader" where
  "asn1_element_take len tag header_len ber c =
     cbs_bind (CBS_get_bytes len c) (\<lambda>out c'.
       (Some \<lparr>el_out = out, el_tag = tag, el_header_len = header_len, el_ber_found = ber\<rparr>, c'))"

definition cbs_get_any_asn1_element :: "bool \<Rightarrow> asn1_element reader" where
  "cbs_get_any_asn1_element ber_ok c =
     (case parse_asn1_tag c of
        (None, _) \<Rightarrow> (None, c)
      | (Some tag, header) \<Rightarrow>
     (case CBS_get_u8 header of
        (None, _) \<Rightarrow> (None, c)
      | (Some length_byte, header) \<Rightarrow>
          (let header_len = CBS_len c - CBS_len header in
           if length_byte AND 0x80 = 0 then
             asn1_element_take (unat length_byte + header_len) tag header_len False c
           else
             (let num_bytes = unat (length_byte AND 0x7f) in
              if ber_ok \<and> tag AND CBS_ASN1_CONSTRUCTED \<noteq> 0 \<and> num_bytes = 0 then
                asn1_element_take header_len tag header_len True c
              else if num_bytes = 0 \<or> num_bytes > 4 then (None, c)
              else
                (case cbs_get_u num_bytes header of
                   (None, _) \<Rightarrow> (None, c)
                 | (Some len64, _) \<Rightarrow>
                     (let long = len64 < 128 \<or> drop_bit ((num_bytes - 1) * 8) len64 = 0;
                          len = unat len64 in
                      if long \<and> \<not> ber_ok then (None, c)
                      else if (len + header_len + num_bytes) mod SIZE_LIMIT < len then (None, c)
                      else asn1_element_take (len + (header_len + num_bytes)) tag
                             (header_len + num_bytes) long c))))))"

definition CBS_get_any_asn1_element :: "asn1_element reader" where
  "CBS_get_any_asn1_element = cbs_get_any_asn1_element False"

definition CBS_get_any_ber_asn1_element :: "asn1_element reader" where
  "CBS_get_any_ber_asn1_element = cbs_get_any_asn1_element True"

definition CBS_get_any_asn1 :: "(CBS \<times> u32) reader" where
  "CBS_get_any_asn1 c =
     cbs_bind (CBS_get_any_asn1_element c) (\<lambda>e c'.
       (case CBS_skip (el_header_len e) (el_out e) of
          (None, _) \<Rightarrow> (None, c')
        | (Some _, out) \<Rightarrow> (Some (out, el_tag e), c')))"

definition cbs_get_asn1 :: "u32 \<Rightarrow> bool \<Rightarrow> CBS reader" where
  "cbs_get_asn1 tag_value skip_header c =
     cbs_bind (CBS_get_any_asn1_element c) (\<lambda>e c'.
       (if el_tag e \<noteq> tag_value then (None, c')
        else if skip_header then
          (case CBS_skip (el_header_len e) (el_out e) of
             (None, _) \<Rightarrow> (None, c')
           | (Some _, out) \<Rightarrow> (Some out, c'))
        else (Some (el_out e), c')))"

definition CBS_get_asn1 :: "u32 \<Rightarrow> CBS reader" where
  "CBS_get_asn1 tag_value = cbs_get_asn1 tag_value True"

definition CBS_get_asn1_element :: "u32 \<Rightarrow> CBS reader" where
  "CBS_get_asn1_element tag_value = cbs_get_asn1 tag_value False"

definition CBS_peek_asn1_tag :: "CBS \<Rightarrow> u32 \<Rightarrow> bool" where
  "CBS_peek_asn1_tag c tag_value \<longleftrightarrow>
     (if CBS_len c < 1 then False
      else case parse_asn1_tag c of
             (None, _) \<Rightarrow> False
           | (Some actual_tag, _) \<Rightarrow> tag_value = actual_tag)"

section \<open>ASN.1 primitive values\<close>

text \<open>\<open>None\<close>: not a valid INTEGER; otherwise \<^verbatim>\<open>*out_is_negative\<close>.\<close>

definition CBS_is_valid_asn1_integer :: "CBS \<Rightarrow> bool option" where
  "CBS_is_valid_asn1_integer c =
     (case CBS_get_u8 c of
        (None, _) \<Rightarrow> None
      | (Some first_byte, copy) \<Rightarrow>
          (let is_negative = (first_byte AND 0x80 \<noteq> 0) in
           case CBS_get_u8 copy of
             (None, _) \<Rightarrow> Some is_negative
           | (Some second_byte, _) \<Rightarrow>
               (if (first_byte = 0 \<and> second_byte AND 0x80 = 0)
                 \<or> (first_byte = 0xff \<and> second_byte AND 0x80 \<noteq> 0)
                then None else Some is_negative)))"

definition CBS_is_unsigned_asn1_integer :: "CBS \<Rightarrow> bool" where
  "CBS_is_unsigned_asn1_integer c \<longleftrightarrow> CBS_is_valid_asn1_integer c = Some False"

fun asn1_uint64_loop :: "u64 \<Rightarrow> u8 list \<Rightarrow> u64 option" where
  "asn1_uint64_loop out [] = Some out"
| "asn1_uint64_loop out (b # data) =
     (if drop_bit 56 out \<noteq> 0 then None
      else asn1_uint64_loop (push_bit 8 out OR ucast b) data)"

definition CBS_get_asn1_uint64 :: "u64 reader" where
  "CBS_get_asn1_uint64 c =
     cbs_bind (CBS_get_asn1 CBS_ASN1_INTEGER c) (\<lambda>bytes c'.
       (if \<not> CBS_is_unsigned_asn1_integer bytes then (None, c')
        else (asn1_uint64_loop 0 (take (CBS_len bytes) (CBS_data bytes)), c')))"

text \<open>The \<^verbatim>\<open>union\<close> of an \<open>int64_t\<close> with its eight bytes, on a little-endian machine: \<open>le_load\<close>.\<close>

definition CBS_get_asn1_int64 :: "u64 reader" where
  "CBS_get_asn1_int64 c =
     cbs_bind (CBS_get_asn1 CBS_ASN1_INTEGER c) (\<lambda>bytes c'.
       (case CBS_is_valid_asn1_integer bytes of
          None \<Rightarrow> (None, c')
        | Some is_negative \<Rightarrow>
            (let data = CBS_data bytes; len = CBS_len bytes in
             if len > 8 then (None, c')
             else (let u0 = replicate 8 (if is_negative then 0xff else 0);
                       u = foldl (\<lambda>u i. u[i := data ! (len - i - 1)]) u0 [0..<len]
                   in (Some (le_load u), c')))))"

definition CBS_get_asn1_bool :: "bool reader" where
  "CBS_get_asn1_bool c =
     cbs_bind (CBS_get_asn1 CBS_ASN1_BOOLEAN c) (\<lambda>bytes c'.
       (if CBS_len bytes \<noteq> 1 then (None, c')
        else (let value = hd (CBS_data bytes) in
              if value \<noteq> 0 \<and> value \<noteq> 0xff then (None, c') else (Some (value \<noteq> 0), c'))))"

text \<open>\<open>Some None\<close>: the optional element is absent; \<open>Some (Some out)\<close>: present.\<close>

definition CBS_get_optional_asn1 :: "u32 \<Rightarrow> CBS option reader" where
  "CBS_get_optional_asn1 tag c =
     (if CBS_peek_asn1_tag c tag
      then cbs_bind (CBS_get_asn1 tag c) (\<lambda>out c'. (Some (Some out), c'))
      else (Some None, c))"

definition CBS_get_optional_asn1_octet_string :: "u32 \<Rightarrow> (CBS \<times> bool) reader" where
  "CBS_get_optional_asn1_octet_string tag c =
     cbs_bind (CBS_get_optional_asn1 tag c) (\<lambda>r c'.
       (case r of
          Some child \<Rightarrow>
            (case CBS_get_asn1 CBS_ASN1_OCTETSTRING child of
               (None, _) \<Rightarrow> (None, c')
             | (Some out, child') \<Rightarrow>
                 (if CBS_len child' \<noteq> 0 then (None, c') else (Some (out, True), c')))
        | None \<Rightarrow> (Some (CBS_init [] 0, False), c')))"

definition CBS_get_optional_asn1_uint64 :: "u32 \<Rightarrow> u64 \<Rightarrow> u64 reader" where
  "CBS_get_optional_asn1_uint64 tag default_value c =
     cbs_bind (CBS_get_optional_asn1 tag c) (\<lambda>r c'.
       (case r of
          Some child \<Rightarrow>
            (case CBS_get_asn1_uint64 child of
               (None, _) \<Rightarrow> (None, c')
             | (Some out, child') \<Rightarrow>
                 (if CBS_len child' \<noteq> 0 then (None, c') else (Some out, c')))
        | None \<Rightarrow> (Some default_value, c')))"

definition CBS_get_optional_asn1_bool :: "u32 \<Rightarrow> bool \<Rightarrow> bool reader" where
  "CBS_get_optional_asn1_bool tag default_value c =
     cbs_bind (CBS_get_optional_asn1 tag c) (\<lambda>r c'.
       (case r of
          Some child \<Rightarrow>
            (case CBS_get_asn1 CBS_ASN1_BOOLEAN child of
               (None, _) \<Rightarrow> (None, c')
             | (Some child2, child') \<Rightarrow>
                 (if CBS_len child2 \<noteq> 1 \<or> CBS_len child' \<noteq> 0 then (None, c')
                  else (let boolean = CBS_data child2 ! 0 in
                        if boolean = 0 then (Some False, c')
                        else if boolean = 0xff then (Some True, c')
                        else (None, c'))))
        | None \<Rightarrow> (Some default_value, c')))"

definition CBS_is_valid_asn1_bitstring :: "CBS \<Rightarrow> bool" where
  "CBS_is_valid_asn1_bitstring c \<longleftrightarrow>
     (case CBS_get_u8 c of
        (None, _) \<Rightarrow> False
      | (Some num_unused_bits, rest) \<Rightarrow>
          (if num_unused_bits > 7 then False
           else if num_unused_bits = 0 then True
           else (case CBS_get_last_u8 rest of
                   (None, _) \<Rightarrow> False
                 | (Some lst, _) \<Rightarrow> lst AND (push_bit (unat num_unused_bits) 1 - 1) = 0)))"

definition CBS_asn1_bitstring_has_bit :: "CBS \<Rightarrow> u32 \<Rightarrow> bool" where
  "CBS_asn1_bitstring_has_bit c b \<longleftrightarrow>
     (if \<not> CBS_is_valid_asn1_bitstring c then False
      else (let byte_num = unat (drop_bit 3 b + 1); bit_num = 7 - unat (b AND 7)
            in byte_num < CBS_len c \<and> (CBS_data c ! byte_num) AND push_bit bit_num 1 \<noteq> 0))"

section \<open>The window of a reader and its consumption\<close>

definition CBS_wf :: "CBS \<Rightarrow> bool" where
  "CBS_wf c \<longleftrightarrow> cbs_len c \<le> length (cbs_data c)"

definition cbs_bytes :: "CBS \<Rightarrow> u8 list" where
  "cbs_bytes c = take (cbs_len c) (cbs_data c)"

definition cbs_drop :: "nat \<Rightarrow> CBS \<Rightarrow> CBS" where
  "cbs_drop n c = c\<lparr>cbs_data := drop n (cbs_data c), cbs_len := cbs_len c - n\<rparr>"

text \<open>\<open>consumes c bs c'\<close>: the window of \<open>c\<close> starts with \<open>bs\<close> and \<open>c'\<close> is \<open>c\<close> past it.\<close>

definition consumes :: "CBS \<Rightarrow> u8 list \<Rightarrow> CBS \<Rightarrow> bool" where
  "consumes c bs c' \<longleftrightarrow>
     CBS_wf c \<and> (\<exists>r. cbs_bytes c = bs @ r) \<and> c' = cbs_drop (length bs) c"

lemma length_cbs_bytes [simp]: "CBS_wf c \<Longrightarrow> length (cbs_bytes c) = cbs_len c"
  by (simp add: CBS_wf_def cbs_bytes_def)

lemma CBS_wf_drop [simp]: "CBS_wf c \<Longrightarrow> CBS_wf (cbs_drop n c)"
  by (simp add: CBS_wf_def cbs_drop_def)

lemma cbs_bytes_drop [simp]: "cbs_bytes (cbs_drop n c) = drop n (cbs_bytes c)"
  by (simp add: cbs_bytes_def cbs_drop_def drop_take)

lemma cbs_len_drop [simp]: "cbs_len (cbs_drop n c) = cbs_len c - n"
  by (simp add: cbs_drop_def)

lemma cbs_drop_drop [simp]: "cbs_drop m (cbs_drop n c) = cbs_drop (n + m) c"
  by (simp add: cbs_drop_def add.commute)

lemma cbs_drop_0 [simp]: "cbs_drop 0 c = c"
  by (simp add: cbs_drop_def)

lemma consumesI: "CBS_wf c \<Longrightarrow> cbs_bytes c = bs @ r \<Longrightarrow> consumes c bs (cbs_drop (length bs) c)"
  by (auto simp: consumes_def)

lemma consumesD:
  assumes "consumes c bs c'"
  shows "CBS_wf c" and "CBS_wf c'" and "cbs_bytes c = bs @ cbs_bytes c'"
    and "c' = cbs_drop (length bs) c" and "length bs \<le> cbs_len c"
    and "cbs_len c' = cbs_len c - length bs"
proof -
  from assms obtain r where r: "CBS_wf c" "cbs_bytes c = bs @ r" "c' = cbs_drop (length bs) c"
    by (auto simp: consumes_def)
  then show "CBS_wf c" "CBS_wf c'" "cbs_bytes c = bs @ cbs_bytes c'"
    "c' = cbs_drop (length bs) c" "cbs_len c' = cbs_len c - length bs" by simp_all
  from r show "length bs \<le> cbs_len c" using length_cbs_bytes [of c] by simp
qed

lemma consumes_iff:
  "CBS_wf c \<Longrightarrow> consumes c bs c' \<longleftrightarrow>
     cbs_bytes c = bs @ cbs_bytes c' \<and> c' = cbs_drop (length bs) c"
  unfolding consumes_def by (metis append_eq_conv_conj cbs_bytes_drop)

lemma consumes_trans: "consumes c a c1 \<Longrightarrow> consumes c1 b c2 \<Longrightarrow> consumes c (a @ b) c2"
  by (auto simp: consumes_def)

lemma consumes_append:
  "consumes c (a @ b) c2 \<Longrightarrow> consumes c a (cbs_drop (length a) c) \<and>
     consumes (cbs_drop (length a) c) b c2"
  by (auto simp: consumes_def)

lemma consumes_Nil: "consumes c [] c' \<longleftrightarrow> CBS_wf c \<and> c' = c"
  by (auto simp: consumes_def)

lemma consumes_unique: "consumes c a c1 \<Longrightarrow> consumes c a c2 \<Longrightarrow> c1 = c2"
  by (auto simp: consumes_def)

text \<open>A fresh reader over a whole buffer.\<close>

lemma CBS_init_window [simp]:
  "CBS_wf (CBS_init bs (length bs))" "cbs_bytes (CBS_init bs (length bs)) = bs"
  by (simp_all add: CBS_wf_def CBS_init_def cbs_bytes_def)

lemma cbs_bind_Some [simp]: "cbs_bind (Some x, c) f = f x c"
  and cbs_bind_None [simp]: "cbs_bind (None, c) f = (None, c)"
  by (simp_all add: cbs_bind_def)

lemma cbs_bind_eq_Some:
  "cbs_bind r f = (Some y, c') \<longleftrightarrow> (\<exists>x c1. r = (Some x, c1) \<and> f x c1 = (Some y, c'))"
  by (auto simp: cbs_bind_def split: prod.splits option.splits)

lemma cbs_get_eq:
  "cbs_get n c = (if cbs_len c < n then (None, c) else (Some (cbs_data c), cbs_drop n c))"
  by (simp add: cbs_get_def cbs_drop_def)

lemma cbs_get_sound:
  assumes "CBS_wf c" and "cbs_get n c = (Some p, c')"
  shows "consumes c (take n p) c'" and "length (take n p) = n" and "p = cbs_data c"
proof -
  have *: "n \<le> cbs_len c" "p = cbs_data c" "c' = cbs_drop n c"
    using assms(2) by (auto simp: cbs_get_eq split: if_splits)
  then have "take n p = take n (cbs_bytes c)" using assms(1)
    by (simp add: cbs_bytes_def min_def)
  with * assms(1) show "consumes c (take n p) c'" "length (take n p) = n" "p = cbs_data c"
    by (auto simp: consumes_def CBS_wf_def intro!: exI [of _ "drop n (cbs_bytes c)"])
qed

lemma cbs_get_complete:
  assumes "consumes c bs c'"
  shows "cbs_get (length bs) c = (Some (cbs_data c), c')" and "take (length bs) (cbs_data c) = bs"
proof -
  note D = consumesD [OF assms]
  show "cbs_get (length bs) c = (Some (cbs_data c), c')"
    using D(4,5) by (simp add: cbs_get_eq)
  have "take (length bs) (cbs_bytes c) = take (length bs) (cbs_data c)"
    using D(5) by (simp add: cbs_bytes_def min_def)
  then show "take (length bs) (cbs_data c) = bs" using D(3) by simp
qed

section \<open>The contract of a canonical reader\<close>

text \<open>
  A codec pairs a reader with the encoding it accepts: the reader accepts exactly the
  encodings of admissible values, each of them in one way only. \<open>view\<close> maps what the
  function returns (which may hold a pointer into the input) to the value.
\<close>

locale codec =
  fixes get :: "'r reader" and view :: "'r \<Rightarrow> 'a" and enc :: "'a \<Rightarrow> u8 list"
    and ok :: "'a \<Rightarrow> bool"
  assumes complete: "ok x \<Longrightarrow> consumes c (enc x) c' \<Longrightarrow> \<exists>r. get c = (Some r, c') \<and> view r = x"
    and sound: "CBS_wf c \<Longrightarrow> get c = (Some r, c') \<Longrightarrow> ok (view r) \<and> consumes c (enc (view r)) c'"
begin

lemma roundtrip:
  assumes "ok x" and "CBS_wf c" and "cbs_bytes c = enc x @ rest"
  shows "\<exists>r c'. get c = (Some r, c') \<and> view r = x \<and> CBS_wf c' \<and> cbs_bytes c' = rest"
proof -
  have con: "consumes c (enc x) (cbs_drop (length (enc x)) c)"
    using assms(2,3) by (rule consumesI)
  then obtain r where "get c = (Some r, cbs_drop (length (enc x)) c)" "view r = x"
    using complete [OF assms(1)] by blast
  moreover have "cbs_bytes (cbs_drop (length (enc x)) c) = rest"
    using assms(3) by simp
  ultimately show ?thesis using CBS_wf_drop [OF assms(2)] by blast
qed

text \<open>No admissible encoding is a prefix of another one.\<close>

lemma prefix_free:
  assumes "ok x" and "ok y" and "enc x @ r = enc y @ s"
  shows "x = y \<and> r = s"
proof -
  define c where "c = CBS_init (enc x @ r) (length (enc x @ r))"
  have wf: "CBS_wf c" and bx: "cbs_bytes c = enc x @ r"
    unfolding c_def by (rule CBS_init_window)+
  with assms(3) have by': "cbs_bytes c = enc y @ s" by simp
  obtain a c1 where a: "get c = (Some a, c1)" "view a = x" "cbs_bytes c1 = r"
    using roundtrip [OF assms(1) wf bx] by blast
  obtain b c2 where b: "get c = (Some b, c2)" "view b = y" "cbs_bytes c2 = s"
    using roundtrip [OF assms(2) wf by'] by blast
  from a b show ?thesis by simp
qed

text \<open>The reader succeeds exactly where the window starts with an admissible encoding.\<close>

lemma accepts_iff:
  assumes "CBS_wf c"
  shows "(\<exists>r c'. get c = (Some r, c')) \<longleftrightarrow> (\<exists>x rest. ok x \<and> cbs_bytes c = enc x @ rest)"
  using sound [OF assms] roundtrip [OF _ assms] consumesD(3) by blast

lemma get_iff:
  assumes "CBS_wf c"
  shows "(\<exists>r. get c = (Some r, c') \<and> view r = x) \<longleftrightarrow>
    ok x \<and> cbs_bytes c = enc x @ cbs_bytes c' \<and> c' = cbs_drop (length (enc x)) c"
  unfolding consumes_iff [OF assms, symmetric] using complete sound [OF assms] by blast

lemma window_suffix:
  assumes "CBS_wf c" and "get c = (Some r, c')"
  shows "CBS_wf c'" and "cbs_bytes c = enc (view r) @ cbs_bytes c'"
  using sound [OF assms] consumesD by blast+

end

end
