(* ===== verification/Bytestring_Codecs.thy ===== *)
theory Bytestring_Codecs
  imports Bytestring_Reader
begin

text \<open>
  The encodings the readers of \<^verbatim>\<open>cbs.c\<close> accept, each shown to be canonical by an
  interpretation of the \<open>codec\<close> contract: fixed-width big-endian integers, base-128
  integers, ASN.1 identifier octets, and whole DER elements. The encodings are written as
  mathematical functions, independent of the writer's code.
\<close>

section \<open>Fixed-width integers\<close>

lemma cbs_get_u_complete:
  assumes "n \<le> 8" and "unat v < 256 ^ n" and "consumes c (be_bytes n (unat v)) c'"
  shows "cbs_get_u n c = (Some v, c')"
proof -
  note g = cbs_get_complete [OF assms(3), simplified]
  have "unat (be_load (be_bytes n (unat v))) = unat v"
    using assms(1,2) by (simp add: unat_be_load be_val_be_bytes)
  then have "be_load (be_bytes n (unat v)) = v" by (simp add: word_unat_eq_iff)
  with g show ?thesis by (simp add: cbs_get_u_def)
qed

lemma cbs_get_u_sound:
  assumes "n \<le> 8" and "CBS_wf c" and "cbs_get_u n c = (Some v, c')"
  shows "unat v < 256 ^ n \<and> consumes c (be_bytes n (unat v)) c'"
proof -
  obtain p where p: "cbs_get n c = (Some p, c')" "v = be_load (take n p)"
    using assms(3) by (auto simp: cbs_get_u_def cbs_bind_eq_Some)
  note s = cbs_get_sound [OF assms(2) p(1)]
  have v: "unat v = be_val (take n p)"
    using assms(1) s(2) p(2) by (simp add: unat_be_load)
  with s(2) have "be_bytes n (unat v) = take n p" by (metis be_bytes_be_val)
  moreover have "unat v < 256 ^ n" using be_val_less [of "take n p"] v s(2) by simp
  ultimately show ?thesis using s(1) by simp
qed

lemma codec_cbs_get_u:
  "n \<le> 8 \<Longrightarrow> codec (cbs_get_u n) (\<lambda>v. v) (\<lambda>v. be_bytes n (unat v)) (\<lambda>v. unat v < 256 ^ n)"
  by unfold_locales (auto simp: cbs_get_u_complete dest: cbs_get_u_sound)

lemma CBS_get_u8_complete: "consumes c [b] c' \<Longrightarrow> CBS_get_u8 c = (Some b, c')"
proof -
  assume "consumes c [b] c'"
  then have "cbs_get 1 c = (Some (cbs_data c), c')" "take 1 (cbs_data c) = [b]"
    using cbs_get_complete [of c "[b]" c'] by simp_all
  then show ?thesis by (cases "cbs_data c") (simp_all add: CBS_get_u8_def)
qed

lemma CBS_get_u8_sound:
  assumes "CBS_wf c" and "CBS_get_u8 c = (Some b, c')"
  shows "consumes c [b] c'"
proof -
  obtain p where p: "cbs_get 1 c = (Some p, c')" "b = hd p"
    using assms(2) by (auto simp: CBS_get_u8_def cbs_bind_eq_Some)
  note s = cbs_get_sound [OF assms(1) p(1)]
  from s(2) p(2) have "take 1 p = [b]" by (cases p) simp_all
  with s(1) show ?thesis by simp
qed

lemma CBS_get_u8_window:
  assumes "CBS_wf c"
  shows "CBS_get_u8 c = (case cbs_bytes c of [] \<Rightarrow> (None, c) | b # _ \<Rightarrow> (Some b, cbs_drop 1 c))"
proof (cases "cbs_bytes c")
  case Nil
  then have "cbs_len c = 0" using length_cbs_bytes [OF assms] by simp
  with Nil show ?thesis by (simp add: CBS_get_u8_def cbs_get_eq)
next
  case (Cons b r)
  then have "consumes c [b] (cbs_drop 1 c)" using assms by (auto simp: consumes_def)
  with Cons show ?thesis by (simp add: CBS_get_u8_complete)
qed

lemma unat_ucast_less:
  "unat (w :: 'a::len word) < 2 ^ LENGTH('b) \<Longrightarrow> unat (ucast w :: 'b::len word) = unat w"
  by (simp add: unsigned_ucast_eq take_bit_nat_eq_self_iff)

lemma narrow_complete:
  assumes "n \<le> 8" and "LENGTH('b) \<le> 64" and "unat x < 256 ^ n"
    and "consumes c (be_bytes n (unat (x :: 'b::len word))) c'"
  shows "cbs_bind (cbs_get_u n c) (\<lambda>v c'. (Some (ucast v :: 'b word), c')) = (Some x, c')"
proof -
  have x: "unat (ucast x :: u64) = unat x" using assms(2) by (intro unat_ucast_up) simp
  then have "cbs_get_u n c = (Some (ucast x), c')"
    using assms by (intro cbs_get_u_complete) simp_all
  moreover have "ucast (ucast x :: u64) = x"
    by (simp add: word_unat_eq_iff) (metis x unat_ucast_less unsigned_less)
  ultimately show ?thesis by simp
qed

lemma narrow_sound:
  assumes "n \<le> 8" and "(256 :: nat) ^ n \<le> 2 ^ LENGTH('b)" and "CBS_wf c"
    and "cbs_bind (cbs_get_u n c) (\<lambda>v c'. (Some (ucast v :: 'b::len word), c')) = (Some x, c')"
  shows "unat x < 256 ^ n \<and> consumes c (be_bytes n (unat x)) c'"
proof -
  obtain v where v: "cbs_get_u n c = (Some v, c')" "x = ucast v"
    using assms(4) unfolding cbs_bind_eq_Some by blast
  note s = cbs_get_u_sound [OF assms(1,3) v(1)]
  have "unat v < 2 ^ LENGTH('b)" by (rule order.strict_trans2 [OF conjunct1 [OF s] assms(2)])
  then have "unat x = unat v" unfolding v(2) by (rule unat_ucast_less)
  with s show ?thesis by simp
qed

interpretation u8: codec CBS_get_u8 "\<lambda>b. b" "\<lambda>b. [b]" "\<lambda>_. True"
  by unfold_locales (blast intro: CBS_get_u8_complete CBS_get_u8_sound)+

interpretation u16: codec CBS_get_u16 "\<lambda>v. v" "\<lambda>v. be_bytes 2 (unat v)" "\<lambda>_. True"
proof unfold_locales
  fix x :: u16 and c c' assume "consumes c (be_bytes 2 (unat x)) c'"
  then show "\<exists>r. CBS_get_u16 c = (Some r, c') \<and> r = x"
    using unat_u16_less [of x] by (simp add: CBS_get_u16_def narrow_complete)
next
  fix c r c' assume "CBS_wf c" "CBS_get_u16 c = (Some r, c')"
  then show "True \<and> consumes c (be_bytes 2 (unat r)) c'"
    using narrow_sound [of 2 c r c'] by (simp add: CBS_get_u16_def)
qed

interpretation u24: codec CBS_get_u24 "\<lambda>v. v" "\<lambda>v. be_bytes 3 (unat v)" "\<lambda>v. unat v < 16777216"
proof unfold_locales
  fix x :: u32 and c c' assume "unat x < 16777216" "consumes c (be_bytes 3 (unat x)) c'"
  then show "\<exists>r. CBS_get_u24 c = (Some r, c') \<and> r = x"
    by (simp add: CBS_get_u24_def narrow_complete)
next
  fix c r c' assume "CBS_wf c" "CBS_get_u24 c = (Some r, c')"
  then show "unat r < 16777216 \<and> consumes c (be_bytes 3 (unat r)) c'"
    using narrow_sound [of 3 c r c'] by (simp add: CBS_get_u24_def)
qed

interpretation u32: codec CBS_get_u32 "\<lambda>v. v" "\<lambda>v. be_bytes 4 (unat v)" "\<lambda>_. True"
proof unfold_locales
  fix x :: u32 and c c' assume "consumes c (be_bytes 4 (unat x)) c'"
  then show "\<exists>r. CBS_get_u32 c = (Some r, c') \<and> r = x"
    using unat_u32_less [of x] by (simp add: CBS_get_u32_def narrow_complete)
next
  fix c r c' assume "CBS_wf c" "CBS_get_u32 c = (Some r, c')"
  then show "True \<and> consumes c (be_bytes 4 (unat r)) c'"
    using narrow_sound [of 4 c r c'] by (simp add: CBS_get_u32_def)
qed

interpretation u64: codec CBS_get_u64 "\<lambda>v. v" "\<lambda>v. be_bytes 8 (unat v)" "\<lambda>_. True"
proof unfold_locales
  fix x :: u64 and c c' assume "consumes c (be_bytes 8 (unat x)) c'"
  then show "\<exists>r. CBS_get_u64 c = (Some r, c') \<and> r = x"
    using unat_u64_less [of x] by (simp add: CBS_get_u64_def cbs_get_u_complete)
next
  fix c r c' assume "CBS_wf c" "CBS_get_u64 c = (Some r, c')"
  then show "True \<and> consumes c (be_bytes 8 (unat r)) c'"
    using cbs_get_u_sound [of 8 c r c'] by (simp add: CBS_get_u64_def)
qed

section \<open>Base-128 integers\<close>

text \<open>The continuation octets of a number, then the octets of the number itself.\<close>

fun base128_cont :: "nat \<Rightarrow> u8 list" where
  "base128_cont n = (if n = 0 then [] else base128_cont (n div 128) @ [of_nat (n mod 128 + 128)])"

declare base128_cont.simps [simp del]

definition base128_bytes :: "nat \<Rightarrow> u8 list" where
  "base128_bytes n = base128_cont (n div 128) @ [of_nat (n mod 128)]"

lemma base128_cont_0 [simp]: "base128_cont 0 = []"
  by (simp add: base128_cont.simps)

lemma base128_cont_snoc:
  assumes "d < 128" and "\<not> (v = 0 \<and> d = 0)"
  shows "base128_cont (v * 128 + d) = base128_cont v @ [of_nat (d + 128)]"
  using assms by (subst base128_cont.simps) simp

text \<open>One round of the loop, in terms of numbers.\<close>

lemma base128_step:
  assumes "unat (v :: u64) < 2 ^ 57"
  shows "unat (push_bit 7 v OR ucast ((b :: u8) AND 0x7f)) = unat v * 128 + unat b mod 128"
proof -
  have "unat (ucast (b AND 0x7f) :: u64) = unat b mod 128"
    using unat_and_mask [of b 7] by (simp add: unat_ucast_up mask_eq_exp_minus_1)
  moreover have "unat b mod 128 < 128" by simp
  ultimately show ?thesis
    using assms unat_push_or [of "ucast (b AND 0x7f) :: u64" 7 v] by simp
qed

lemma drop_bit_57_eq_0: "drop_bit 57 (v :: u64) = 0 \<longleftrightarrow> unat v < 2 ^ 57"
proof -
  have "drop_bit 57 v = 0 \<longleftrightarrow> unat v div 2 ^ 57 = 0"
    by (metis unat_drop_bit unsigned_eq_0_iff)
  also have "\<dots> \<longleftrightarrow> unat v < 2 ^ 57" by (simp add: div_eq_0_iff)
  finally show ?thesis .
qed

lemma parse_base128_loop_unfold:
  assumes "consumes c [b] c'" and "unat v < 2 ^ 57" and "\<not> (v = 0 \<and> b = 0x80)"
  shows "parse_base128_loop v c =
    (let v' = of_nat (unat v * 128 + unat b mod 128)
     in if unat b \<ge> 128 then parse_base128_loop v' c' else (Some v', c'))"
proof -
  have v': "push_bit 7 v OR ucast (b AND 0x7f) = of_nat (unat v * 128 + unat b mod 128)"
    unfolding base128_step [OF assms(2), symmetric] by simp
  have hb: "b AND 0x80 \<noteq> 0 \<longleftrightarrow> unat b \<ge> 128"
    by (simp add: high_bit_clear_iff not_less)
  show ?thesis
    by (subst parse_base128_loop.simps, unfold CBS_get_u8_complete [OF assms(1)])
      (use assms(2,3) in \<open>auto simp add: v' hb drop_bit_57_eq_0 Let_def simp del: of_nat_add of_nat_mult\<close>)
qed

lemma parse_base128_loop_cont:
  "m < 2 ^ 64 \<Longrightarrow> consumes c (base128_cont m) c1 \<Longrightarrow>
     parse_base128_loop 0 c = parse_base128_loop (of_nat m) c1"
proof (induction m arbitrary: c1 rule: base128_cont.induct)
  case (1 m)
  show ?case
  proof (cases "m = 0")
    case True
    with 1 show ?thesis by (simp add: consumes_Nil)
  next
    case False
    let ?b = "of_nat (m mod 128 + 128) :: u8"
    define c0 where "c0 = cbs_drop (length (base128_cont (m div 128))) c"
    have con: "consumes c (base128_cont (m div 128)) c0" "consumes c0 [?b] c1"
      using consumes_append 1(3) False unfolding c0_def by (subst (asm) base128_cont.simps; simp)+
    have b: "unat ?b = m mod 128 + 128"
      by (subst unat_of_nat_u8) (simp add: mod_less)
    have d: "m div 128 < 2 ^ 57" using 1(2) by (simp add: less_mult_imp_div_less)
    then have vd: "unat (of_nat (m div 128) :: u64) = m div 128"
      by (intro unat_of_nat_eq) simp
    have "parse_base128_loop 0 c = parse_base128_loop (of_nat (m div 128)) c0"
      using 1(1) [OF False _ con(1)] d by simp
    also have "\<dots> = parse_base128_loop (of_nat m) c1"
    proof -
      have "\<not> ((of_nat (m div 128) :: u64) = 0 \<and> ?b = 0x80)"
      proof
        assume "(of_nat (m div 128) :: u64) = 0 \<and> ?b = 0x80"
        then have "m div 128 = 0" "m mod 128 + 128 = unat (0x80 :: u8)"
          using vd b by (metis unsigned_0, metis)
        then show False using False by simp
      qed
      then show ?thesis
        by (subst parse_base128_loop_unfold [OF con(2)])
          (use b vd d in \<open>simp_all del: of_nat_add of_nat_mult\<close>)
    qed
    finally show ?thesis .
  qed
qed

lemma parse_base128_integer_complete:
  assumes "consumes c (base128_bytes (unat v)) c'"
  shows "parse_base128_integer c = (Some v, c')"
proof -
  let ?d = "unat v div 128" and ?b = "of_nat (unat v mod 128) :: u8"
  define c0 where "c0 = cbs_drop (length (base128_cont ?d)) c"
  have con: "consumes c (base128_cont ?d) c0" "consumes c0 [?b] c'"
    using consumes_append assms unfolding c0_def base128_bytes_def by blast+
  have b: "unat ?b = unat v mod 128" by (subst unat_of_nat_u8) simp
  have d: "?d < 2 ^ 57" using unat_u64_less [of v] by (simp add: less_mult_imp_div_less)
  then have vd: "unat (of_nat ?d :: u64) = ?d" by (intro unat_of_nat_eq) simp
  have "parse_base128_integer c = parse_base128_loop (of_nat ?d) c0"
    unfolding parse_base128_integer_def
    by (rule parse_base128_loop_cont [OF _ con(1)]) (use d in simp)
  also have "\<dots> = (Some v, c')"
  proof -
    have "\<not> ((of_nat ?d :: u64) = 0 \<and> ?b = 0x80)"
    proof
      assume "(of_nat ?d :: u64) = 0 \<and> ?b = 0x80"
      then have "unat ?b = unat (0x80 :: u8)" by metis
      then show False using b by simp
    qed
    moreover have "\<not> 128 \<le> unat v mod 128" by (simp add: not_le)
    ultimately show ?thesis
      by (subst parse_base128_loop_unfold [OF con(2)])
        (use b vd d in \<open>simp_all del: of_nat_add of_nat_mult\<close>)
  qed
  finally show ?thesis .
qed

lemma parse_base128_loop_sound:
  "CBS_wf c \<Longrightarrow> parse_base128_loop v c = (Some x, c') \<Longrightarrow>
     \<exists>bs. consumes c bs c' \<and> base128_cont (unat v) @ bs = base128_bytes (unat x)"
proof (induction v c rule: parse_base128_loop.induct)
  case (1 v c)
  obtain b c1 where g: "CBS_get_u8 c = (Some b, c1)"
    using 1(3) unfolding parse_base128_loop.simps [of v c]
    by (cases "CBS_get_u8 c"; cases "fst (CBS_get_u8 c)") simp_all
  have con: "consumes c [b] c1" by (rule CBS_get_u8_sound [OF 1(2) g])
  let ?v' = "push_bit 7 v OR ucast (b AND 0x7f)"
  have small: "unat v < 2 ^ 57" and nz: "\<not> (v = 0 \<and> b = 0x80)"
    using 1(3) unfolding parse_base128_loop.simps [of v c] g
    by (auto simp: drop_bit_57_eq_0 split: if_splits)
  have v': "unat ?v' = unat v * 128 + unat b mod 128" by (rule base128_step [OF small])
  have b0: "unat v = 0 \<Longrightarrow> unat b = 128 \<Longrightarrow> False"
    using nz word_unat_eq_iff [of v 0] word_unat_eq_iff [of b 128] by simp
  show ?case
  proof (cases "unat b \<ge> 128")
    case True
    then have hb: "b AND 0x80 \<noteq> 0" by (simp add: high_bit_clear_iff)
    have rec: "parse_base128_loop ?v' c1 = (Some x, c')"
      using 1(3) hb small nz unfolding parse_base128_loop.simps [of v c] g
      by (simp add: drop_bit_57_eq_0 Let_def split: if_splits)
    have g': "(Some b, c1) = CBS_get_u8 c" by (rule g [symmetric])
    have sm': "\<not> drop_bit (64 - 7) v \<noteq> 0" using small by (simp add: drop_bit_57_eq_0)
    obtain bs where bs: "consumes c1 bs c'" "base128_cont (unat ?v') @ bs = base128_bytes (unat x)"
      using 1(1) [OF g' refl sm' nz refl hb consumesD(2) [OF con] rec] by blast
    have d: "unat b mod 128 + 128 = unat b" by (rule high_byte_mod [OF True])
    have "base128_cont (unat ?v') = base128_cont (unat v) @ [of_nat (unat b mod 128 + 128)]"
      unfolding v'
    proof (rule base128_cont_snoc)
      show "\<not> (unat v = 0 \<and> unat b mod 128 = 0)" using b0 d by (metis add_0)
    qed simp
    then have "base128_cont (unat v) @ (b # bs) = base128_bytes (unat x)"
      using bs(2) by (simp add: d)
    moreover have "consumes c (b # bs) c'" using consumes_trans [OF con bs(1)] by simp
    ultimately show ?thesis by blast
  next
    case False
    then have hb: "b AND 0x80 = 0" by (simp add: high_bit_clear_iff)
    have r: "x = ?v'" "c' = c1"
      using 1(3) hb small nz unfolding parse_base128_loop.simps [of v c] g
      by (simp_all add: drop_bit_57_eq_0 Let_def split: if_splits)
    have "base128_cont (unat v) @ [b] = base128_bytes (unat x)"
      using False unfolding r v' base128_bytes_def by simp
    with con r show ?thesis by blast
  qed
qed

interpretation base128: codec parse_base128_integer "\<lambda>v. v" "\<lambda>v. base128_bytes (unat v)" "\<lambda>_. True"
proof unfold_locales
  fix x :: u64 and c c' assume "consumes c (base128_bytes (unat x)) c'"
  then show "\<exists>r. parse_base128_integer c = (Some r, c') \<and> r = x"
    by (simp add: parse_base128_integer_complete)
next
  fix c r c' assume "CBS_wf c" "parse_base128_integer c = (Some r, c')"
  then show "True \<and> consumes c (base128_bytes (unat r)) c'"
    unfolding parse_base128_integer_def by (auto dest: parse_base128_loop_sound)
qed

section \<open>Identifier octets\<close>

definition asn1_tag_bytes :: "u32 \<Rightarrow> u8 list" where
  "asn1_tag_bytes tag =
     (let d = unat tag div 2 ^ 29; m = unat tag mod 2 ^ 29
      in if m < 31 then [of_nat (d * 32 + m)] else of_nat (d * 32 + 31) # base128_bytes m)"

lemma unat_tag_class:
  "unat (push_bit CBS_ASN1_TAG_SHIFT (ucast (b :: u8) AND 0xe0 :: u32)) = unat b div 32 * 2 ^ 29"
proof -
  have m: "(224 :: nat) = push_bit 5 (mask 3)" by (simp add: mask_eq_exp_minus_1 push_bit_eq_mult)
  have "unat (ucast b AND 0xe0 :: u32) = unat b AND 224"
    by (simp add: unsigned_and_eq unat_ucast_up)
  also have "\<dots> = (unat b div 32 mod 8) * 32" unfolding m nat_and_mask_shifted by simp
  also have "unat b div 32 mod 8 = unat b div 32"
    using unat_u8_less [of b] by (intro mod_less) (simp add: less_mult_imp_div_less)
  finally have u: "unat (ucast b AND 0xe0 :: u32) = unat b div 32 * 32" .
  have "unat b div 32 < 8" using unat_u8_less [of b] by (simp add: less_mult_imp_div_less)
  then have "unat (push_bit 24 (ucast b AND 0xe0 :: u32)) = unat b div 32 * 32 * 2 ^ 24"
    using unat_push_bit [of "ucast b AND 0xe0 :: u32" 24] u by simp
  then show ?thesis by (simp add: CBS_ASN1_TAG_SHIFT_def)
qed

lemma unat_tag_number: "unat (ucast ((b :: u8) AND 0x1f) :: u32) = unat b mod 32"
  using unat_and_mask [of b 5] by (simp add: unat_ucast_up mask_eq_exp_minus_1)

lemma unat_tag_or:
  assumes "unat n < 2 ^ 29"
  shows "unat (push_bit CBS_ASN1_TAG_SHIFT (ucast (b :: u8) AND 0xe0 :: u32) OR n) =
    unat b div 32 * 2 ^ 29 + unat n"
proof -
  have "2 ^ 29 dvd unat (push_bit CBS_ASN1_TAG_SHIFT (ucast b AND 0xe0 :: u32))"
    unfolding unat_tag_class by simp
  from unat_or_disjoint [OF this assms] show ?thesis unfolding unat_tag_class .
qed

text \<open>\<open>parse_asn1_tag\<close> in terms of numbers.\<close>

lemma tag_bounds:
  "v > ucast CBS_ASN1_TAG_NUMBER_MASK \<or> v < 0x1f \<longleftrightarrow> \<not> (31 \<le> unat (v :: u64) \<and> unat v < 2 ^ 29)"
  by (simp add: word_less_nat_alt CBS_ASN1_TAG_NUMBER_MASK_def not_le) arith

lemma parse_asn1_tag_step:
  assumes "consumes c [b] c1"
  shows "parse_asn1_tag c =
    (if unat b mod 32 = 31 then
       cbs_bind (parse_base128_integer c1) (\<lambda>v c2.
         if 31 \<le> unat v \<and> unat v < 2 ^ 29
         then (Some (of_nat (unat b div 32 * 2 ^ 29 + unat v)), c2) else (None, c2))
     else (Some (of_nat (unat b div 32 * 2 ^ 29 + unat b mod 32)), c1))"
proof -
  let ?t = "push_bit CBS_ASN1_TAG_SHIFT (ucast b AND 0xe0) :: u32"
  have n: "(ucast (b AND 0x1f) :: u32) = 0x1f \<longleftrightarrow> unat b mod 32 = 31"
    by (simp add: word_unat_eq_iff unat_tag_number)
  have low: "?t OR ucast (b AND 0x1f) = of_nat (unat b div 32 * 2 ^ 29 + unat b mod 32)"
  proof -
    have "unat b mod 32 < 2 ^ 29" by (rule order.strict_trans2 [of _ 32]) simp_all
    then show ?thesis
      using unat_tag_or [of "ucast (b AND 0x1f)" b] unat_tag_number [of b]
      by (metis of_nat_unat ucast_id unat_tag_number)
  qed
  have high: "?t OR ucast v = of_nat (unat b div 32 * 2 ^ 29 + unat v)" if "unat v < 2 ^ 29" for v :: u64
  proof -
    have "unat (ucast v :: u32) = unat v" using that by (intro unat_ucast_less) simp
    then show ?thesis using unat_tag_or [of "ucast v" b] that by (metis of_nat_unat ucast_id)
  qed
  have e: "(\<lambda>(v :: u64) (c2 :: CBS). if \<not> (31 \<le> unat v \<and> unat v < 2 ^ 29) then (None, c2) else (Some (?t OR ucast v), c2))
      = (\<lambda>v c2. if 31 \<le> unat v \<and> unat v < 2 ^ 29
                then (Some (of_nat (unat b div 32 * 2 ^ 29 + unat v)), c2) else (None, c2))"
    by (intro ext) (use high in presburger)
  show ?thesis
    unfolding parse_asn1_tag_def CBS_get_u8_complete [OF assms] cbs_bind_Some Let_def n tag_bounds low e
    by (rule refl)
qed

interpretation asn1_tag: codec parse_asn1_tag "\<lambda>t. t" asn1_tag_bytes "\<lambda>_. True"
proof unfold_locales
  fix t :: u32 and c c' assume con: "consumes c (asn1_tag_bytes t) c'"
  define d m where "d = unat t div 2 ^ 29" and "m = unat t mod 2 ^ 29"
  have d8: "d < 8" using unat_u32_less [of t] by (simp add: d_def less_mult_imp_div_less)
  have t: "d * 2 ^ 29 + m = unat t" by (simp add: d_def m_def)
  have m29: "m < 2 ^ 29" by (simp add: m_def)
  show "\<exists>r. parse_asn1_tag c = (Some r, c') \<and> r = t"
  proof (cases "m < 31")
    case True
    let ?b = "of_nat (d * 32 + m) :: u8"
    have c1: "consumes c [?b] c'"
      using con True unfolding asn1_tag_bytes_def Let_def d_def [symmetric] m_def [symmetric]
      by (simp only: if_True)
    have "unat ?b = d * 32 + m" using d8 True by (intro unat_of_nat_eq) simp
    then have "unat ?b div 32 = d" "unat ?b mod 32 = m" using True by simp_all
    then show ?thesis
      using parse_asn1_tag_step [OF c1] True t by (simp del: of_nat_add of_nat_mult)
  next
    case False
    let ?b = "of_nat (d * 32 + 31) :: u8"
    have "consumes c ([?b] @ base128_bytes m) c'"
      using con False unfolding asn1_tag_bytes_def Let_def d_def [symmetric] m_def [symmetric]
      by (simp only: if_False append.simps)
    then obtain c1 where c1: "consumes c [?b] c1" "consumes c1 (base128_bytes m) c'"
      using consumes_append by blast
    have "unat ?b = d * 32 + 31" using d8 by (intro unat_of_nat_eq) simp
    then have b: "unat ?b div 32 = d" "unat ?b mod 32 = 31" by simp_all
    have um: "unat (of_nat m :: u64) = m" using m29 by (intro unat_of_nat_eq) simp
    have "parse_base128_integer c1 = (Some (of_nat m), c')"
      by (rule parse_base128_integer_complete) (simp add: um c1(2))
    then show ?thesis
      using parse_asn1_tag_step [OF c1(1)] False b t m29 um by (simp del: of_nat_add of_nat_mult)
  qed
next
  fix c r c' assume wf: "CBS_wf c" and p: "parse_asn1_tag c = (Some r, c')"
  obtain b c1 where g: "CBS_get_u8 c = (Some b, c1)"
    using p by (auto simp: parse_asn1_tag_def cbs_bind_eq_Some)
  have con: "consumes c [b] c1" by (rule CBS_get_u8_sound [OF wf g])
  have wf1: "CBS_wf c1" using consumesD(2) [OF con] .
  have d8: "unat b div 32 < 8" using unat_u8_less [of b] by (simp add: less_mult_imp_div_less)
  have "consumes c (asn1_tag_bytes r) c'"
  proof (cases "unat b mod 32 = 31")
    case True
    obtain v where v: "parse_base128_integer c1 = (Some v, c')" "31 \<le> unat v" "unat v < 2 ^ 29"
        "r = of_nat (unat b div 32 * 2 ^ 29 + unat v)"
      using p True unfolding parse_asn1_tag_step [OF con]
      by (auto simp: cbs_bind_eq_Some split: if_splits)
    have con2: "consumes c1 (base128_bytes (unat v)) c'" using base128.sound [OF wf1 v(1)] by simp
    have ur: "unat r = unat b div 32 * 2 ^ 29 + unat v"
      unfolding v(4) using d8 v(3) by (intro unat_of_nat_eq) simp
    then have "unat r div 2 ^ 29 = unat b div 32" "unat r mod 2 ^ 29 = unat v" using v(3) by simp_all
    moreover have "unat b div 32 * 32 + 31 = unat b" using True by (metis div_mult_mod_eq)
    ultimately have "asn1_tag_bytes r = b # base128_bytes (unat v)"
      using v(2) by (simp add: asn1_tag_bytes_def del: of_nat_add of_nat_mult)
    then show ?thesis using consumes_trans [OF con con2] by simp
  next
    case False
    then have r: "r = of_nat (unat b div 32 * 2 ^ 29 + unat b mod 32)" "c' = c1"
      using p unfolding parse_asn1_tag_step [OF con] by auto
    have s: "unat b mod 32 < 2 ^ 29" by (rule order.strict_trans2 [of _ 32]) simp_all
    have ur: "unat r = unat b div 32 * 2 ^ 29 + unat b mod 32"
      unfolding r using d8 s by (intro unat_of_nat_eq) simp
    then have "unat r div 2 ^ 29 = unat b div 32" "unat r mod 2 ^ 29 = unat b mod 32"
      using s by simp_all
    moreover have "unat b mod 32 < 31"
      using False mod_less_divisor [of 32 "unat b"] by simp
    ultimately have "asn1_tag_bytes r = [b]"
      by (simp add: asn1_tag_bytes_def del: of_nat_add of_nat_mult)
    then show ?thesis using con r by simp
  qed
  then show "True \<and> consumes c (asn1_tag_bytes r) c'" by simp
qed

section \<open>Elements\<close>

lemma length_base128_cont: "n < 128 ^ k \<Longrightarrow> length (base128_cont n) \<le> k"
proof (induction k arbitrary: n)
  case (Suc k)
  then have "n div 128 < 128 ^ k" by (simp add: less_mult_imp_div_less mult.commute)
  with Suc.IH [of "n div 128"] show ?case by (subst base128_cont.simps) simp
qed simp

lemma length_asn1_tag_bytes: "length (asn1_tag_bytes tag) \<le> 6" "asn1_tag_bytes tag \<noteq> []"
proof -
  let ?m = "unat tag mod 2 ^ 29"
  have "?m < 2 ^ 29" by simp
  then have "?m div 128 < 128 ^ 4" by (simp add: less_mult_imp_div_less)
  then show "length (asn1_tag_bytes tag) \<le> 6"
    using length_base128_cont [of "?m div 128" 4]
    by (simp add: asn1_tag_bytes_def Let_def base128_bytes_def)
  show "asn1_tag_bytes tag \<noteq> []" by (simp add: asn1_tag_bytes_def Let_def)
qed

lemma consumes_prefix:
  assumes "consumes c a c1" and "consumes c b c2" and "length a \<le> length b"
  shows "b = a @ drop (length a) b"
proof -
  have "a @ cbs_bytes c1 = b @ cbs_bytes c2"
    using consumesD(3) [OF assms(1)] consumesD(3) [OF assms(2)] by simp
  then have "take (length a) b = a" using assms(3) by (metis append_eq_append_conv_if)
  then show ?thesis by (metis append_take_drop_id)
qed

lemma CBS_get_bytes_complete:
  assumes "consumes c bs c'"
  shows "\<exists>out. CBS_get_bytes (length bs) c = (Some out, c') \<and> CBS_wf out \<and> cbs_bytes out = bs"
proof -
  note g = cbs_get_complete [OF assms]
  have "CBS_wf (CBS_init (cbs_data c) (length bs))"
    using g(2) by (metis CBS_init_def CBS_wf_def CBS.select_convs length_take min.cobounded1)
  moreover have "cbs_bytes (CBS_init (cbs_data c) (length bs)) = bs"
    using g(2) by (simp add: CBS_init_def cbs_bytes_def)
  ultimately show ?thesis using g(1) by (simp add: CBS_get_bytes_def)
qed

lemma CBS_get_bytes_sound:
  assumes "CBS_wf c" and "CBS_get_bytes n c = (Some out, c')"
  shows "CBS_wf out" and "consumes c (cbs_bytes out) c'" and "cbs_len out = n"
proof -
  obtain p where p: "cbs_get n c = (Some p, c')" "out = CBS_init p n"
    using assms(2) by (auto simp: CBS_get_bytes_def cbs_bind_eq_Some)
  note s = cbs_get_sound [OF assms(1) p(1)]
  show "cbs_len out = n" using p(2) by (simp add: CBS_init_def)
  show "CBS_wf out" using s(2) p(2) by (simp add: CBS_wf_def CBS_init_def)
  show "consumes c (cbs_bytes out) c'" using s(1) p(2) by (simp add: cbs_bytes_def CBS_init_def)
qed

lemma asn1_element_take_complete:
  assumes "consumes c bs c'" and "length bs = n"
  shows "\<exists>out. asn1_element_take n tag hl ber c =
    (Some \<lparr>el_out = out, el_tag = tag, el_header_len = hl, el_ber_found = ber\<rparr>, c') \<and>
    CBS_wf out \<and> cbs_bytes out = bs"
  using CBS_get_bytes_complete [OF assms(1)] assms(2) by (auto simp: asn1_element_take_def)

lemma asn1_element_take_sound:
  assumes "CBS_wf c" and "asn1_element_take n tag hl ber c = (Some e, c')"
  shows "CBS_wf (el_out e)" and "consumes c (cbs_bytes (el_out e)) c'"
    and "length (cbs_bytes (el_out e)) = n" and "el_tag e = tag" and "el_header_len e = hl"
    and "el_ber_found e = ber"
proof -
  obtain out where o: "CBS_get_bytes n c = (Some out, c')"
      "e = \<lparr>el_out = out, el_tag = tag, el_header_len = hl, el_ber_found = ber\<rparr>"
    using assms(2) by (auto simp: asn1_element_take_def cbs_bind_eq_Some)
  note s = CBS_get_bytes_sound [OF assms(1) o(1)]
  from s o(2) show "CBS_wf (el_out e)" "consumes c (cbs_bytes (el_out e)) c'"
    "length (cbs_bytes (el_out e)) = n" "el_tag e = tag" "el_header_len e = hl" "el_ber_found e = ber"
    by simp_all
qed

text \<open>
  The element parser after its two header reads: the branch on the length octet, with
  \<open>T\<close> the identifier octets that were read.
\<close>

definition element_body :: "bool \<Rightarrow> u32 \<Rightarrow> u8 \<Rightarrow> nat \<Rightarrow> CBS \<Rightarrow> asn1_element reader" where
  "element_body ber_ok tag b hl header c =
     (if unat b < 128 then asn1_element_take (unat b + hl) tag hl False c
      else (let k = unat b mod 128 in
            if ber_ok \<and> tag AND CBS_ASN1_CONSTRUCTED \<noteq> 0 \<and> k = 0
            then asn1_element_take hl tag hl True c
            else if k = 0 \<or> k > 4 then (None, c)
            else (case cbs_get_u k header of
                    (None, _) \<Rightarrow> (None, c)
                  | (Some w, _) \<Rightarrow>
                      (let long = (unat w < 128 \<or> unat w div 256 ^ (k - 1) = 0) in
                       if long \<and> \<not> ber_ok then (None, c)
                       else if (unat w + hl + k) mod SIZE_LIMIT < unat w then (None, c)
                       else asn1_element_take (unat w + (hl + k)) tag (hl + k) long c))))"

lemma cbs_get_any_asn1_element_eq:
  assumes "consumes c (asn1_tag_bytes tag) h1" and "consumes h1 [b] h2"
  shows "cbs_get_any_asn1_element ber_ok c =
    element_body ber_ok tag b (length (asn1_tag_bytes tag) + 1) h2 c"
proof -
  have p: "parse_asn1_tag c = (Some tag, h1)" using asn1_tag.complete [OF TrueI assms(1)] by simp
  have g: "CBS_get_u8 h1 = (Some b, h2)" by (rule CBS_get_u8_complete [OF assms(2)])
  have hl: "CBS_len c - CBS_len h2 = length (asn1_tag_bytes tag) + 1"
    using consumesD(5,6) [OF assms(1)] consumesD(5,6) [OF assms(2)] by (simp add: CBS_len_def)
  have k: "unat (b AND 0x7f) = unat b mod 128"
    using unat_and_mask [of b 7] by (simp add: mask_eq_exp_minus_1)
  have w1: "(w < 128) = (unat w < 128)" for w :: u64 by (simp add: word_less_nat_alt)
  have w2: "(drop_bit (n * 8) w = 0) = (unat w div 256 ^ n = 0)" for n and w :: u64
  proof -
    have "(drop_bit (n * 8) w = 0) = (unat w div 2 ^ (n * 8) = 0)"
      by (metis unat_drop_bit unsigned_eq_0_iff)
    also have "(2 :: nat) ^ (n * 8) = 256 ^ n" by (subst mult.commute) (simp add: power_mult)
    finally show ?thesis .
  qed
  show ?thesis
    unfolding cbs_get_any_asn1_element_def element_body_def p g prod.case option.case hl k
      high_bit_clear_iff Let_def w1 w2
    by (rule refl)
qed

lemma cbs_get_any_asn1_element_header:
  assumes "CBS_wf c" and "cbs_get_any_asn1_element ber_ok c = (Some e, c')"
  obtains tag b h1 h2 where "consumes c (asn1_tag_bytes tag) h1" and "consumes h1 [b] h2"
    and "element_body ber_ok tag b (length (asn1_tag_bytes tag) + 1) h2 c = (Some e, c')"
proof -
  obtain tag h1 where p: "parse_asn1_tag c = (Some tag, h1)"
    using assms(2) unfolding cbs_get_any_asn1_element_def
    by (cases "parse_asn1_tag c"; cases "fst (parse_asn1_tag c)") simp_all
  then have c1: "consumes c (asn1_tag_bytes tag) h1" using asn1_tag.sound [OF assms(1) p] by simp
  obtain b h2 where g: "CBS_get_u8 h1 = (Some b, h2)"
    using assms(2) unfolding cbs_get_any_asn1_element_def p
    by (cases "CBS_get_u8 h1"; cases "fst (CBS_get_u8 h1)") simp_all
  then have c2: "consumes h1 [b] h2" using consumesD(2) [OF c1] by (intro CBS_get_u8_sound)
  show thesis using that [OF c1 c2] cbs_get_any_asn1_element_eq [OF c1 c2] assms(2) by simp
qed

text \<open>
  Whatever is accepted, DER or BER: the element is a prefix of the window, the reader is
  advanced over exactly it, and its header is at least two octets and part of it.
\<close>

lemma cbs_get_any_asn1_element_window:
  assumes "CBS_wf c" and "cbs_get_any_asn1_element ber_ok c = (Some e, c')"
  shows "CBS_wf (el_out e)" and "consumes c (cbs_bytes (el_out e)) c'"
    and "2 \<le> el_header_len e" and "el_header_len e \<le> length (cbs_bytes (el_out e))"
proof -
  obtain tag b h1 h2 where h: "consumes c (asn1_tag_bytes tag) h1" "consumes h1 [b] h2"
    "element_body ber_ok tag b (length (asn1_tag_bytes tag) + 1) h2 c = (Some e, c')"
    by (rule cbs_get_any_asn1_element_header [OF assms])
  obtain n hl ber where tk: "asn1_element_take n tag hl ber c = (Some e, c')" "hl \<le> n"
      "length (asn1_tag_bytes tag) + 1 \<le> hl"
    using h(3) unfolding element_body_def Let_def
    by (auto split: if_splits prod.splits option.splits)
  note s = asn1_element_take_sound [OF assms(1) tk(1)]
  have "asn1_tag_bytes tag \<noteq> []" by (rule length_asn1_tag_bytes)
  then have "2 \<le> hl" using tk(3) by (cases "asn1_tag_bytes tag") simp_all
  with s tk(2) show "CBS_wf (el_out e)" "consumes c (cbs_bytes (el_out e)) c'"
    "2 \<le> el_header_len e" "el_header_len e \<le> length (cbs_bytes (el_out e))" by simp_all
qed

section \<open>The DER encoding of an element\<close>

definition length_octets :: "nat \<Rightarrow> nat" where
  "length_octets n = (if n < 256 then 1 else if n < 65536 then 2 else if n < 16777216 then 3 else 4)"

definition der_length :: "nat \<Rightarrow> u8 list" where
  "der_length n = (if n < 128 then [of_nat n]
                   else of_nat (128 + length_octets n) # be_bytes (length_octets n) n)"

definition der_element :: "u32 \<times> u8 list \<Rightarrow> u8 list" where
  "der_element x = (case x of (tag, body) \<Rightarrow> asn1_tag_bytes tag @ der_length (length body) @ body)"

text \<open>What a caller gets of an element: its tag and its contents without the header.\<close>

definition element_view :: "asn1_element \<Rightarrow> u32 \<times> u8 list" where
  "element_view e = (el_tag e, drop (el_header_len e) (cbs_bytes (el_out e)))"

lemma length_octets_minimal:
  assumes "1 \<le> k" and "k \<le> 4" and "n < 256 ^ k" and "128 \<le> n" and "n div 256 ^ (k - 1) \<noteq> 0"
  shows "length_octets n = k"
proof -
  have "k = 1 \<or> k = 2 \<or> k = 3 \<or> k = 4" using assms(1,2) by arith
  moreover have "256 ^ (k - 1) \<le> n" using assms(5) by (meson div_less not_less)
  ultimately show ?thesis using assms(3) by (auto simp: length_octets_def)
qed

lemma length_octets_bounds:
  assumes "n < 4294967296"
  shows "1 \<le> length_octets n" and "length_octets n \<le> 4" and "n < 256 ^ length_octets n"
    and "128 \<le> n \<Longrightarrow> n div 256 ^ (length_octets n - 1) \<noteq> 0"
  using assms by (auto simp: length_octets_def div_eq_0_iff)

lemma unat_long_form:
  "k \<le> 4 \<Longrightarrow> unat (of_nat (128 + k) :: u8) = 128 + k"
  by (intro unat_of_nat_eq) simp

lemma der_element_complete:
  assumes "length body < 4294967296" and "consumes c (der_element (tag, body)) c'"
  shows "\<exists>e. CBS_get_any_asn1_element c = (Some e, c') \<and> element_view e = (tag, body)"
proof -
  let ?T = "asn1_tag_bytes tag" and ?n = "length body"
  have T: "length ?T \<le> 6" by (rule length_asn1_tag_bytes)
  define b where "b = hd (der_length ?n)"
  define L where "L = tl (der_length ?n)"
  have L: "der_length ?n = b # L" by (simp add: b_def L_def der_length_def)
  have "consumes c (?T @ [b] @ (L @ body)) c'" using assms(2) by (simp add: der_element_def L)
  then obtain h1 h2 where h: "consumes c ?T h1" "consumes h1 [b] h2" "consumes h2 (L @ body) c'"
    using consumes_append by blast
  have all: "consumes c (?T @ b # L @ body) c'" using assms(2) by (simp add: der_element_def L)
  have get: "CBS_get_any_asn1_element c = element_body False tag b (length ?T + 1) h2 c"
    unfolding CBS_get_any_asn1_element_def by (rule cbs_get_any_asn1_element_eq [OF h(1,2)])
  show ?thesis
  proof (cases "?n < 128")
    case True
    then have b: "b = of_nat ?n" and [simp]: "L = []" by (simp_all add: b_def L_def der_length_def)
    then have ub: "unat b = ?n" using True by (simp add: unat_of_nat_eq)
    obtain out where "asn1_element_take (?n + (length ?T + 1)) tag (length ?T + 1) False c =
        (Some \<lparr>el_out = out, el_tag = tag, el_header_len = length ?T + 1, el_ber_found = False\<rparr>, c')"
        "cbs_bytes out = ?T @ b # body"
      using asn1_element_take_complete [OF all, of "?n + (length ?T + 1)" tag "length ?T + 1" False]
      by auto
    then show ?thesis unfolding get element_body_def ub using True by (simp add: element_view_def)
  next
    case False
    let ?k = "length_octets ?n"
    note k = length_octets_bounds [OF assms(1)]
    have b: "b = of_nat (128 + ?k)" and l: "L = be_bytes ?k ?n"
      using False by (simp_all add: b_def L_def der_length_def)
    have ub: "unat b = 128 + ?k" unfolding b by (rule unat_long_form [OF k(2)])
    then have km: "unat b mod 128 = ?k" using k(2) by simp
    have un: "unat (of_nat ?n :: u64) = ?n" using assms(1) by (intro unat_of_nat_eq) simp
    obtain h3 where "consumes h2 (be_bytes ?k ?n) h3"
      using consumes_append h(3) unfolding l by blast
    then have gu: "cbs_get_u ?k h2 = (Some (of_nat ?n), h3)"
      using k un by (intro cbs_get_u_complete) simp_all
    obtain out where "asn1_element_take (?n + (length ?T + 1 + ?k)) tag (length ?T + 1 + ?k) False c =
        (Some \<lparr>el_out = out, el_tag = tag, el_header_len = length ?T + 1 + ?k, el_ber_found = False\<rparr>, c')"
        "cbs_bytes out = ?T @ b # L @ body"
      using asn1_element_take_complete
        [OF all, of "?n + (length ?T + 1 + ?k)" tag "length ?T + 1 + ?k" False] l
      by auto
    moreover have "\<not> (?n + (length ?T + 1) + ?k) mod SIZE_LIMIT < ?n"
      using T k(2) assms(1) by simp
    ultimately show ?thesis
      unfolding get element_body_def Let_def km gu prod.case option.case un
      using k False ub l by (simp add: element_view_def)
  qed
qed

lemma der_element_sound:
  assumes "CBS_wf c" and "CBS_get_any_asn1_element c = (Some e, c')"
  shows "length (snd (element_view e)) < 4294967296 \<and> consumes c (der_element (element_view e)) c'"
proof -
  have get: "cbs_get_any_asn1_element False c = (Some e, c')"
    using assms(2) by (simp add: CBS_get_any_asn1_element_def)
  obtain tag b h1 h2 where h: "consumes c (asn1_tag_bytes tag) h1" "consumes h1 [b] h2"
    "element_body False tag b (length (asn1_tag_bytes tag) + 1) h2 c = (Some e, c')"
    by (rule cbs_get_any_asn1_element_header [OF assms(1) get])
  let ?T = "asn1_tag_bytes tag" and ?bs = "cbs_bytes (el_out e)"
  have Tb: "consumes c (?T @ [b]) h2" by (rule consumes_trans [OF h(1,2)])
  show ?thesis
  proof (cases "unat b < 128")
    case True
    with h(3) have tk: "asn1_element_take (unat b + (length ?T + 1)) tag (length ?T + 1) False c = (Some e, c')"
      by (simp add: element_body_def)
    note s = asn1_element_take_sound [OF assms(1) tk]
    have "?bs = (?T @ [b]) @ drop (length (?T @ [b])) ?bs"
      by (rule consumes_prefix [OF Tb s(2)]) (simp add: s(3))
    then have bs: "?bs = ?T @ b # drop (length ?T + 1) ?bs" by simp
    have len: "length (drop (length ?T + 1) ?bs) = unat b" using s(3) by simp
    have "der_length (unat b) = [b]" using True by (simp add: der_length_def)
    then have "der_element (element_view e) = ?bs"
      using bs len s(4,5) by (simp add: element_view_def der_element_def)
    then show ?thesis using s(2) len s(4,5) True by (simp add: element_view_def)
  next
    case False
    let ?k = "unat b mod 128"
    obtain w h3 where w: "?k \<noteq> 0" "?k \<le> 4" "cbs_get_u ?k h2 = (Some w, h3)" "128 \<le> unat w"
        "unat w div 256 ^ (?k - 1) \<noteq> 0"
        "asn1_element_take (unat w + (length ?T + 1 + ?k)) tag (length ?T + 1 + ?k) False c = (Some e, c')"
      using h(3) False unfolding element_body_def Let_def
      by (auto simp: not_less split: if_splits prod.splits option.splits)
    have wk: "unat w < 256 ^ ?k" "consumes h2 (be_bytes ?k (unat w)) h3"
      using cbs_get_u_sound [OF _ consumesD(2) [OF h(2)] w(3)] w(2) by simp_all
    have k: "length_octets (unat w) = ?k"
      using length_octets_minimal [OF _ w(2) wk(1) w(4,5)] w(1) by simp
    note s = asn1_element_take_sound [OF assms(1) w(6)]
    let ?H = "?T @ [b] @ be_bytes ?k (unat w)"
    have H: "consumes c ?H h3" using consumes_trans [OF Tb wk(2)] by simp
    have bs: "?bs = ?H @ drop (length ?H) ?bs"
      by (rule consumes_prefix [OF H s(2)]) (simp add: s(3))
    have len: "length (drop (length ?H) ?bs) = unat w" using s(3) by simp
    have "128 \<le> unat b" using False by simp
    then have "128 + ?k = unat b" using high_byte_mod [of b] by simp
    then have "der_length (unat w) = b # be_bytes ?k (unat w)"
      using w(4) k by (simp add: der_length_def del: of_nat_add)
    then have d: "der_element (element_view e) = ?bs"
      using bs len s(4,5) by (simp add: element_view_def der_element_def)
    have "(256 :: nat) ^ ?k \<le> 256 ^ 4" using w(2) by (intro power_increasing) simp_all
    then have "unat w < 4294967296" using wk(1) by simp
    then show ?thesis using s(2) d len s(4,5) by (simp add: element_view_def)
  qed
qed

interpretation der: codec CBS_get_any_asn1_element element_view der_element
  "\<lambda>x. length (snd x) < 4294967296"
proof unfold_locales
  fix x :: "u32 \<times> u8 list" and c c'
  assume "length (snd x) < 4294967296" "consumes c (der_element x) c'"
  then show "\<exists>r. CBS_get_any_asn1_element c = (Some r, c') \<and> element_view r = x"
    using der_element_complete [of "snd x" c "fst x" c'] by simp
qed (rule der_element_sound)

end
