(* ===== verification/Bytestring_Writer.thy ===== *)
theory Bytestring_Writer
  imports Bytestring_Codecs
begin

text \<open>
  \<^verbatim>\<open>crypto/bytestring/cbb.c\<close>: the byte-string builder. A top-level \<open>CBB\<close> and the chain of
  its pending children share one buffer (\<open>struct cbb_buffer_st\<close>). The model keeps the
  buffer and the chain together: entry 0 of the chain is the top-level \<open>CBB\<close>, entry
  \<open>d + 1\<close> the pending child of entry \<open>d\<close>, and an operation on a \<open>CBB\<close> is given the depth
  of that \<open>CBB\<close> in the chain. A depth beyond the chain is a \<open>CBB\<close> whose child pointer was
  cleared (its \<^verbatim>\<open>base\<close> is null), and every operation on it fails. A null \<^verbatim>\<open>buf\<close> is the empty block.
\<close>

section \<open>State\<close>

record cbb_buffer =
  bb_buf :: "u8 list"
  bb_len :: nat
  bb_cap :: nat
  bb_can_resize :: bool
  bb_error :: bool

record cbb_frame =
  fr_offset :: nat
  fr_pending_len_len :: nat
  fr_pending_is_asn1 :: bool
  fr_is_child :: bool

record CBB =
  cbb_base :: "cbb_buffer option"
  cbb_chain :: "cbb_frame list"

type_synonym 'a writer = "CBB \<Rightarrow> 'a option \<times> CBB"

definition cbb_bind :: "'a option \<times> 's \<Rightarrow> ('a \<Rightarrow> 's \<Rightarrow> 'b option \<times> 's) \<Rightarrow> 'b option \<times> 's" where
  "cbb_bind r f = (case r of (None, s) \<Rightarrow> (None, s) | (Some x, s) \<Rightarrow> f x s)"

definition zero_frame :: cbb_frame where
  "zero_frame = \<lparr>fr_offset = 0, fr_pending_len_len = 0, fr_pending_is_asn1 = False, fr_is_child = False\<rparr>"

definition CBB_zero :: CBB where
  "CBB_zero = \<lparr>cbb_base = None, cbb_chain = [zero_frame]\<rparr>"

text \<open>The \<^verbatim>\<open>cbb_buffer_st\<close> itself is allocated too: 32 bytes on an LP64 target.\<close>

definition cbb_init :: "sys_alloc \<Rightarrow> u8 list \<Rightarrow> nat \<Rightarrow> unit writer" where
  "cbb_init a buf cap s =
     (case OPENSSL_malloc a 32 of
        None \<Rightarrow> (None, s)
      | Some _ \<Rightarrow>
          (Some (), s\<lparr>cbb_base := Some \<lparr>bb_buf = buf, bb_len = 0, bb_cap = cap,
                                         bb_can_resize = True, bb_error = False\<rparr>,
                     cbb_chain := (cbb_chain s)[0 := (cbb_chain s ! 0)\<lparr>fr_is_child := False\<rparr>]\<rparr>))"

definition CBB_init :: "sys_alloc \<Rightarrow> nat \<Rightarrow> unit option \<times> CBB" where
  "CBB_init a initial_capacity =
     (let s = CBB_zero; buf = OPENSSL_malloc a initial_capacity in
      if initial_capacity > 0 \<and> buf = None then (None, s)
      else cbb_init a (case buf of None \<Rightarrow> [] | Some b \<Rightarrow> b) initial_capacity s)"

definition CBB_init_fixed :: "sys_alloc \<Rightarrow> u8 list \<Rightarrow> nat \<Rightarrow> unit option \<times> CBB" where
  "CBB_init_fixed a buf len =
     cbb_bind (cbb_init a buf len CBB_zero)
       (\<lambda>_ s. (Some (), s\<lparr>cbb_base := map_option (\<lambda>b. b\<lparr>bb_can_resize := False\<rparr>) (cbb_base s)\<rparr>))"

definition CBB_cleanup :: "nat \<Rightarrow> CBB \<Rightarrow> CBB" where
  "CBB_cleanup d s = (if d > 0 then s else s\<lparr>cbb_base := None\<rparr>)"

section \<open>The buffer\<close>

definition cbb_buffer_reserve :: "sys_alloc \<Rightarrow> nat \<Rightarrow> cbb_buffer \<Rightarrow> nat option \<times> cbb_buffer" where
  "cbb_buffer_reserve a len b =
     (let newlen = (bb_len b + len) mod SIZE_LIMIT in
      if newlen < bb_len b then (None, b\<lparr>bb_error := True\<rparr>)
      else if newlen > bb_cap b then
        (let newcap0 = (bb_cap b * 2) mod SIZE_LIMIT in
         if \<not> bb_can_resize b then (None, b\<lparr>bb_error := True\<rparr>)
         else
           (let newcap = (if newcap0 < bb_cap b \<or> newcap0 < newlen then newlen else newcap0) in
            case OPENSSL_realloc a (Some (bb_buf b)) newcap of
              None \<Rightarrow> (None, b\<lparr>bb_error := True\<rparr>)
            | Some newbuf \<Rightarrow> (Some (bb_len b), b\<lparr>bb_buf := newbuf, bb_cap := newcap\<rparr>)))
      else (Some (bb_len b), b))"

definition cbb_buffer_add :: "sys_alloc \<Rightarrow> nat \<Rightarrow> cbb_buffer \<Rightarrow> nat option \<times> cbb_buffer" where
  "cbb_buffer_add a len b =
     cbb_bind (cbb_buffer_reserve a len b) (\<lambda>out b'. (Some out, b'\<lparr>bb_len := bb_len b' + len\<rparr>))"

text \<open>The loop that stores \<open>v\<close> big-endian at \<open>pos\<close>.\<close>

fun store_be :: "nat \<Rightarrow> nat \<Rightarrow> nat \<Rightarrow> u8 list \<Rightarrow> u8 list \<times> nat" where
  "store_be pos 0 v buf = (buf, v)"
| "store_be pos (Suc k) v buf = store_be pos k (v div 256) (buf[pos + k := of_nat v])"

definition cbb_buffer_add_u :: "sys_alloc \<Rightarrow> u64 \<Rightarrow> nat \<Rightarrow> cbb_buffer \<Rightarrow> unit option \<times> cbb_buffer" where
  "cbb_buffer_add_u a v len_len b =
     (if len_len = 0 then (Some (), b)
      else cbb_bind (cbb_buffer_add a len_len b) (\<lambda>pos b'.
        (let (buf, v') = store_be pos len_len (unat v) (bb_buf b');
             b'' = b'\<lparr>bb_buf := buf\<rparr>
         in if v' \<noteq> 0 then (None, b''\<lparr>bb_error := True\<rparr>) else (Some (), b''))))"

section \<open>Flushing pending length prefixes\<close>

definition asn1_length_form :: "nat \<Rightarrow> (nat \<times> u8) option" where
  "asn1_length_form len =
     (if len > 0xfffffffe then None
      else if len > 0xffffff then Some (5, 0x84)
      else if len > 0xffff then Some (4, 0x83)
      else if len > 0xff then Some (3, 0x82)
      else if len > 0x7f then Some (2, 0x81)
      else Some (1, of_nat len))"

definition store_length :: "nat \<Rightarrow> nat \<Rightarrow> nat \<Rightarrow> cbb_buffer \<Rightarrow> unit option \<times> cbb_buffer" where
  "store_length pos k len b =
     (let (buf, len') = store_be pos k len (bb_buf b); b' = b\<lparr>bb_buf := buf\<rparr>
      in if len' \<noteq> 0 then (None, b'\<lparr>bb_error := True\<rparr>) else (Some (), b'))"

text \<open>The part of \<open>CBB_flush\<close> that writes one pending prefix into the buffer.\<close>

definition flush_prefix :: "sys_alloc \<Rightarrow> cbb_frame \<Rightarrow> cbb_buffer \<Rightarrow> unit option \<times> cbb_buffer" where
  "flush_prefix a child b =
     (let child_start = fr_offset child + fr_pending_len_len child;
          len = bb_len b - child_start in
      if fr_pending_is_asn1 child then
        (case asn1_length_form len of
           None \<Rightarrow> (None, b\<lparr>bb_error := True\<rparr>)
         | Some (len_len, initial_length_byte) \<Rightarrow>
             cbb_bind
               (if len_len \<noteq> 1 then
                  (case cbb_buffer_add a (len_len - 1) b of
                     (None, b1) \<Rightarrow> (None, b1\<lparr>bb_error := True\<rparr>)
                   | (Some _, b1) \<Rightarrow>
                       (Some (), b1\<lparr>bb_buf := mem_write (child_start + (len_len - 1))
                                     (take len (drop child_start (bb_buf b1))) (bb_buf b1)\<rparr>))
                else (Some (), b))
               (\<lambda>_ b1. store_length (fr_offset child + 1) (len_len - 1) (if len_len = 1 then 0 else len)
                         (b1\<lparr>bb_buf := (bb_buf b1)[fr_offset child := initial_length_byte]\<rparr>)))
      else store_length (fr_offset child) (fr_pending_len_len child) len b)"

function CBB_flush :: "sys_alloc \<Rightarrow> nat \<Rightarrow> unit writer" where
  "CBB_flush a d s =
     (case cbb_base s of
        None \<Rightarrow> (None, s)
      | Some b \<Rightarrow>
          (if d \<ge> length (cbb_chain s) \<or> bb_error b then (None, s)
           else if d + 1 \<ge> length (cbb_chain s)
             \<or> fr_pending_len_len (cbb_chain s ! (d + 1)) = 0 then (Some (), s)
           else
             (let child = cbb_chain s ! (d + 1);
                  child_start = (fr_offset child + fr_pending_len_len child) mod SIZE_LIMIT in
              case CBB_flush a (d + 1) s of
                (None, s') \<Rightarrow>
                  (None, s'\<lparr>cbb_base := map_option (\<lambda>b. b\<lparr>bb_error := True\<rparr>) (cbb_base s')\<rparr>)
              | (Some _, s') \<Rightarrow>
                  (case cbb_base s' of
                     None \<Rightarrow> (None, s')
                   | Some b' \<Rightarrow>
                       (if child_start < fr_offset child \<or> bb_len b' < child_start
                        then (None, s'\<lparr>cbb_base := Some (b'\<lparr>bb_error := True\<rparr>)\<rparr>)
                        else
                          (case flush_prefix a child b' of
                             (None, b'') \<Rightarrow> (None, s'\<lparr>cbb_base := Some b''\<rparr>)
                           | (Some _, b'') \<Rightarrow>
                               (Some (), s'\<lparr>cbb_base := Some b'',
                                            cbb_chain := take (d + 1) (cbb_chain s')\<rparr>)))))))"
  by pat_completeness auto
termination
  by (relation "measure (\<lambda>(a, d, s). length (cbb_chain s) - d)") auto

declare CBB_flush.simps [simp del]

text \<open>Operations that flush and then work on the buffer.\<close>

definition on_base :: "(cbb_buffer \<Rightarrow> 'a option \<times> cbb_buffer) \<Rightarrow> 'a writer" where
  "on_base f s =
     (case cbb_base s of
        None \<Rightarrow> (None, s)
      | Some b \<Rightarrow> (case f b of (r, b') \<Rightarrow> (r, s\<lparr>cbb_base := Some b'\<rparr>)))"

definition CBB_finish :: "sys_alloc \<Rightarrow> bool \<Rightarrow> nat \<Rightarrow> (u8 list \<times> nat) writer" where
  \<comment> \<open>\<open>null_out\<close>: \<^verbatim>\<open>out_data\<close> or \<^verbatim>\<open>out_len\<close> is null\<close>
  "CBB_finish a null_out d s =
     (if d > 0 then (None, s)
      else cbb_bind (CBB_flush a d s) (\<lambda>_ s'.
        (case cbb_base s' of
           None \<Rightarrow> (None, s')
         | Some b \<Rightarrow>
             (if bb_can_resize b \<and> null_out then (None, s')
              else (Some (bb_buf b, bb_len b),
                    CBB_cleanup d (s'\<lparr>cbb_base := Some (b\<lparr>bb_buf := []\<rparr>)\<rparr>))))))"

definition CBB_data :: "nat \<Rightarrow> CBB \<Rightarrow> u8 list" where
  "CBB_data d s =
     (case cbb_base s of
        None \<Rightarrow> []
      | Some b \<Rightarrow> drop (fr_offset (cbb_chain s ! d) + fr_pending_len_len (cbb_chain s ! d)) (bb_buf b))"

definition CBB_len :: "nat \<Rightarrow> CBB \<Rightarrow> nat" where
  "CBB_len d s =
     (case cbb_base s of
        None \<Rightarrow> 0
      | Some b \<Rightarrow> bb_len b - fr_offset (cbb_chain s ! d) - fr_pending_len_len (cbb_chain s ! d))"

definition push_child :: "nat \<Rightarrow> nat \<Rightarrow> nat \<Rightarrow> bool \<Rightarrow> CBB \<Rightarrow> CBB" where
  "push_child d offset len_len is_asn1 s =
     s\<lparr>cbb_chain := take (d + 1) (cbb_chain s) @
        [\<lparr>fr_offset = offset, fr_pending_len_len = len_len, fr_pending_is_asn1 = is_asn1,
          fr_is_child = True\<rparr>]\<rparr>"

definition cbb_add_length_prefixed :: "sys_alloc \<Rightarrow> nat \<Rightarrow> nat \<Rightarrow> unit writer" where
  "cbb_add_length_prefixed a d len_len s =
     cbb_bind (CBB_flush a d s) (\<lambda>_ s1.
     cbb_bind (on_base (\<lambda>b. cbb_bind (cbb_buffer_add a len_len b) (\<lambda>pos b'.
                 (Some pos, b'\<lparr>bb_buf := mem_write pos (replicate len_len 0) (bb_buf b')\<rparr>))) s1)
       (\<lambda>offset s2. (Some (), push_child d offset len_len False s2)))"

definition CBB_add_u8_length_prefixed :: "sys_alloc \<Rightarrow> nat \<Rightarrow> unit writer" where
  "CBB_add_u8_length_prefixed a d = cbb_add_length_prefixed a d 1"

definition CBB_add_u16_length_prefixed :: "sys_alloc \<Rightarrow> nat \<Rightarrow> unit writer" where
  "CBB_add_u16_length_prefixed a d = cbb_add_length_prefixed a d 2"

definition CBB_add_u24_length_prefixed :: "sys_alloc \<Rightarrow> nat \<Rightarrow> unit writer" where
  "CBB_add_u24_length_prefixed a d = cbb_add_length_prefixed a d 3"

section \<open>Adding bytes and integers\<close>

definition CBB_add_space :: "sys_alloc \<Rightarrow> nat \<Rightarrow> nat \<Rightarrow> nat writer" where
  "CBB_add_space a d len s =
     cbb_bind (CBB_flush a d s) (\<lambda>_ s1. on_base (cbb_buffer_add a len) s1)"

definition CBB_add_bytes :: "sys_alloc \<Rightarrow> nat \<Rightarrow> u8 list \<Rightarrow> unit writer" where
  "CBB_add_bytes a d data s =
     cbb_bind (CBB_flush a d s) (\<lambda>_ s1.
       on_base (\<lambda>b. cbb_bind (cbb_buffer_add a (length data) b) (\<lambda>pos b'.
         (Some (), b'\<lparr>bb_buf := mem_write pos data (bb_buf b')\<rparr>))) s1)"

definition CBB_add_zeros :: "sys_alloc \<Rightarrow> nat \<Rightarrow> nat \<Rightarrow> unit writer" where
  "CBB_add_zeros a d len s =
     cbb_bind (CBB_add_space a d len s) (\<lambda>pos s1.
       on_base (\<lambda>b. (Some (), b\<lparr>bb_buf := mem_write pos (replicate len 0) (bb_buf b)\<rparr>)) s1)"

definition CBB_reserve :: "sys_alloc \<Rightarrow> nat \<Rightarrow> nat \<Rightarrow> nat writer" where
  "CBB_reserve a d len s =
     cbb_bind (CBB_flush a d s) (\<lambda>_ s1. on_base (cbb_buffer_reserve a len) s1)"

definition CBB_did_write :: "nat \<Rightarrow> nat \<Rightarrow> unit writer" where
  "CBB_did_write d len s =
     on_base (\<lambda>b.
       (let newlen = (bb_len b + len) mod SIZE_LIMIT in
        if d + 1 < length (cbb_chain s) \<or> newlen < bb_len b \<or> newlen > bb_cap b then (None, b)
        else (Some (), b\<lparr>bb_len := newlen\<rparr>))) s"

definition add_u :: "sys_alloc \<Rightarrow> nat \<Rightarrow> u64 \<Rightarrow> nat \<Rightarrow> unit writer" where
  "add_u a d v n s = cbb_bind (CBB_flush a d s) (\<lambda>_ s1. on_base (cbb_buffer_add_u a v n) s1)"

definition CBB_add_u8 :: "sys_alloc \<Rightarrow> nat \<Rightarrow> u8 \<Rightarrow> unit writer" where
  "CBB_add_u8 a d v = add_u a d (ucast v) 1"

definition CBB_add_u16 :: "sys_alloc \<Rightarrow> nat \<Rightarrow> u16 \<Rightarrow> unit writer" where
  "CBB_add_u16 a d v = add_u a d (ucast v) 2"

definition CBB_add_u16le :: "sys_alloc \<Rightarrow> nat \<Rightarrow> u16 \<Rightarrow> unit writer" where
  "CBB_add_u16le a d v = CBB_add_u16 a d (CRYPTO_bswap2 v)"

definition CBB_add_u24 :: "sys_alloc \<Rightarrow> nat \<Rightarrow> u32 \<Rightarrow> unit writer" where
  "CBB_add_u24 a d v = add_u a d (ucast v) 3"

definition CBB_add_u32 :: "sys_alloc \<Rightarrow> nat \<Rightarrow> u32 \<Rightarrow> unit writer" where
  "CBB_add_u32 a d v = add_u a d (ucast v) 4"

definition CBB_add_u32le :: "sys_alloc \<Rightarrow> nat \<Rightarrow> u32 \<Rightarrow> unit writer" where
  "CBB_add_u32le a d v = CBB_add_u32 a d (CRYPTO_bswap4 v)"

definition CBB_add_u64 :: "sys_alloc \<Rightarrow> nat \<Rightarrow> u64 \<Rightarrow> unit writer" where
  "CBB_add_u64 a d v = add_u a d v 8"

definition CBB_add_u64le :: "sys_alloc \<Rightarrow> nat \<Rightarrow> u64 \<Rightarrow> unit writer" where
  "CBB_add_u64le a d v = CBB_add_u64 a d (CRYPTO_bswap8 v)"

definition CBB_discard_child :: "nat \<Rightarrow> CBB \<Rightarrow> CBB" where
  "CBB_discard_child d s =
     (if d + 1 \<ge> length (cbb_chain s) then s
      else s\<lparr>cbb_base := map_option (\<lambda>b. b\<lparr>bb_len := fr_offset (cbb_chain s ! (d + 1))\<rparr>) (cbb_base s),
             cbb_chain := take (d + 1) (cbb_chain s)\<rparr>)"

section \<open>ASN.1\<close>

fun base128_len_loop :: "nat \<Rightarrow> nat \<Rightarrow> nat" where
  "base128_len_loop len_len copy =
     (if copy > 0 then base128_len_loop (len_len + 1) (copy div 128) else len_len)"

declare base128_len_loop.simps [simp del]

fun add_base128_loop :: "sys_alloc \<Rightarrow> nat \<Rightarrow> u64 \<Rightarrow> nat \<Rightarrow> unit writer" where
  "add_base128_loop a d v 0 s = (Some (), s)"
| "add_base128_loop a d v (Suc i) s =
     (let byte0 = (ucast (drop_bit (7 * i) v AND 0x7f) :: u8);
          byte = (if i \<noteq> 0 then byte0 OR 0x80 else byte0)
      in cbb_bind (CBB_add_u8 a d byte s) (\<lambda>_ s1. add_base128_loop a d v i s1))"

definition add_base128_integer :: "sys_alloc \<Rightarrow> nat \<Rightarrow> u64 \<Rightarrow> unit writer" where
  "add_base128_integer a d v s =
     (let l = base128_len_loop 0 (unat v); len_len = (if l = 0 then 1 else l)
      in add_base128_loop a d v len_len s)"

definition CBB_add_asn1 :: "sys_alloc \<Rightarrow> nat \<Rightarrow> u32 \<Rightarrow> unit writer" where
  "CBB_add_asn1 a d tag s =
     cbb_bind (CBB_flush a d s) (\<lambda>_ s1.
       (let tag_bits = (ucast (drop_bit CBS_ASN1_TAG_SHIFT tag) AND 0xe0 :: u8);
            tag_number = tag AND CBS_ASN1_TAG_NUMBER_MASK
        in cbb_bind
             (if tag_number \<ge> 0x1f
              then cbb_bind (CBB_add_u8 a d (tag_bits OR 0x1f) s1)
                     (\<lambda>_ s2. add_base128_integer a d (ucast tag_number) s2)
              else CBB_add_u8 a d (tag_bits OR ucast tag_number) s1)
             (\<lambda>_ s3.
                (case cbb_base s3 of
                   None \<Rightarrow> (None, s3)
                 | Some b \<Rightarrow>
                     (let offset = bb_len b in
                      cbb_bind (CBB_add_u8 a d 0 s3)
                        (\<lambda>_ s4. (Some (), push_child d offset 1 True s4)))))))"

fun add_asn1_uint64_loop :: "sys_alloc \<Rightarrow> nat \<Rightarrow> u64 \<Rightarrow> bool \<Rightarrow> nat \<Rightarrow> bool writer" where
  \<comment> \<open>\<open>k\<close> bytes are left; the result is the final value of \<^verbatim>\<open>started\<close>\<close>
  "add_asn1_uint64_loop a d v started 0 s = (Some started, s)"
| "add_asn1_uint64_loop a d v started (Suc k) s =
     (let byte = (ucast (drop_bit (8 * k) v AND 0xff) :: u8) in
      if \<not> started \<and> byte = 0 then add_asn1_uint64_loop a d v started k s
      else cbb_bind (if \<not> started \<and> byte AND 0x80 \<noteq> 0 then CBB_add_u8 a d 0 s else (Some (), s))
             (\<lambda>_ s1. cbb_bind (CBB_add_u8 a d byte s1)
               (\<lambda>_ s2. add_asn1_uint64_loop a d v True k s2)))"

definition CBB_add_asn1_uint64 :: "sys_alloc \<Rightarrow> nat \<Rightarrow> u64 \<Rightarrow> unit writer" where
  "CBB_add_asn1_uint64 a d v s =
     cbb_bind (CBB_add_asn1 a d CBS_ASN1_INTEGER s) (\<lambda>_ s1.
     cbb_bind (add_asn1_uint64_loop a (d + 1) v False 8 s1) (\<lambda>started s2.
     cbb_bind (if \<not> started then CBB_add_u8 a (d + 1) 0 s2 else (Some (), s2)) (\<lambda>_ s3.
     CBB_flush a d s3)))"

text \<open>The two loops over the bytes of the \<^verbatim>\<open>union\<close> (\<open>le_bytes8\<close>).\<close>

fun int64_start :: "u8 list \<Rightarrow> nat \<Rightarrow> nat" where
  "int64_start u 0 = 0"
| "int64_start u (Suc k) =
     (if u ! Suc k = 0xff \<and> u ! k AND 0x80 \<noteq> 0 then int64_start u k else Suc k)"

fun add_int64_loop :: "sys_alloc \<Rightarrow> nat \<Rightarrow> u8 list \<Rightarrow> nat \<Rightarrow> unit writer" where
  "add_int64_loop a d u 0 s = (Some (), s)"
| "add_int64_loop a d u (Suc i) s =
     cbb_bind (CBB_add_u8 a d (u ! i) s) (\<lambda>_ s1. add_int64_loop a d u i s1)"

definition CBB_add_asn1_int64 :: "sys_alloc \<Rightarrow> nat \<Rightarrow> u64 \<Rightarrow> unit writer" where
  \<comment> \<open>the argument is the two's complement pattern of an \<open>int64_t\<close>\<close>
  "CBB_add_asn1_int64 a d v s =
     (if sint v \<ge> 0 then CBB_add_asn1_uint64 a d v s
      else (let u = le_bytes8 v; start = int64_start u 7 in
        cbb_bind (CBB_add_asn1 a d CBS_ASN1_INTEGER s) (\<lambda>_ s1.
        cbb_bind (add_int64_loop a (d + 1) u (start + 1) s1) (\<lambda>_ s2.
        CBB_flush a d s2))))"

definition CBB_add_asn1_octet_string :: "sys_alloc \<Rightarrow> nat \<Rightarrow> u8 list \<Rightarrow> unit writer" where
  "CBB_add_asn1_octet_string a d data s =
     cbb_bind (CBB_add_asn1 a d CBS_ASN1_OCTETSTRING s) (\<lambda>_ s1.
     cbb_bind (CBB_add_bytes a (d + 1) data s1) (\<lambda>_ s2.
     CBB_flush a d s2))"

definition CBB_add_asn1_bool :: "sys_alloc \<Rightarrow> nat \<Rightarrow> bool \<Rightarrow> unit writer" where
  "CBB_add_asn1_bool a d value s =
     cbb_bind (CBB_add_asn1 a d CBS_ASN1_BOOLEAN s) (\<lambda>_ s1.
     cbb_bind (CBB_add_u8 a (d + 1) (if value then 0xff else 0) s1) (\<lambda>_ s2.
     CBB_flush a d s2))"

end
