(* ===== verification/Bytestring_Emit.thy ===== *)
theory Bytestring_Emit
  imports Bytestring_Writer
begin

text \<open>
  What the builder's operations write. \<open>emits a op d bs x\<close> is the contract of an operation on
  the \<open>CBB\<close> at depth \<open>d\<close>: started in a well-formed state with no pending child there, it
  either succeeds with the result \<open>x\<close>, having appended exactly \<open>bs\<close> to the buffer and
  changed nothing else, or fails, and then there was no room for \<open>bs\<close> (\<open>room\<close>).
  Contracts compose along the sequencing of the code, and a child element composes into
  its header followed by its contents.
\<close>

section \<open>Well-formed builder states\<close>

definition buffer_ok :: "cbb_buffer \<Rightarrow> bool" where
  "buffer_ok b \<longleftrightarrow> \<not> bb_error b \<and> bb_len b \<le> bb_cap b \<and> length (bb_buf b) = bb_cap b
     \<and> bb_cap b < SIZE_LIMIT"

definition written :: "cbb_buffer \<Rightarrow> u8 list" where
  "written b = take (bb_len b) (bb_buf b)"

fun frames_ok :: "nat \<Rightarrow> nat \<Rightarrow> cbb_frame list \<Rightarrow> bool" where
  "frames_ok start len [] \<longleftrightarrow> start \<le> len"
| "frames_ok start len (f # fs) \<longleftrightarrow>
     start \<le> fr_offset f \<and> 1 \<le> fr_pending_len_len f \<and> fr_pending_len_len f \<le> 3
     \<and> (fr_pending_is_asn1 f \<longrightarrow> fr_pending_len_len f = 1) \<and> fr_is_child f
     \<and> frames_ok (fr_offset f + fr_pending_len_len f) len fs"

definition chain_ok :: "nat \<Rightarrow> cbb_frame list \<Rightarrow> bool" where
  "chain_ok len chain \<longleftrightarrow>
     (\<exists>f fs. chain = f # fs \<and> fr_offset f = 0 \<and> fr_pending_len_len f = 0 \<and> \<not> fr_is_child f
       \<and> frames_ok 0 len fs)"

definition CBB_wf :: "CBB \<Rightarrow> bool" where
  "CBB_wf s \<longleftrightarrow> (\<exists>b. cbb_base s = Some b \<and> buffer_ok b \<and> chain_ok (bb_len b) (cbb_chain s))"

text \<open>The \<open>CBB\<close> at depth \<open>d\<close> is the innermost one: it has no pending child.\<close>

definition CBB_top :: "nat \<Rightarrow> CBB \<Rightarrow> bool" where
  "CBB_top d s \<longleftrightarrow> CBB_wf s \<and> length (cbb_chain s) = d + 1"

text \<open>
  There is room for \<open>n\<close> more bytes: they fit into the capacity, or the buffer may be resized, the
  allocator never refuses and the doubled size does not overflow.
\<close>

definition room :: "sys_alloc \<Rightarrow> cbb_buffer \<Rightarrow> nat \<Rightarrow> bool" where
  "room a b n \<longleftrightarrow> bb_len b + n \<le> bb_cap b \<or>
     bb_can_resize b \<and> never_fails a \<and> 2 * (bb_len b + n) + 8 < SIZE_LIMIT"

definition fits :: "sys_alloc \<Rightarrow> CBB \<Rightarrow> nat \<Rightarrow> bool" where
  "fits a s n \<longleftrightarrow> (\<exists>b. cbb_base s = Some b \<and> room a b n)"

definition buffer_grows :: "cbb_buffer \<Rightarrow> u8 list \<Rightarrow> cbb_buffer \<Rightarrow> bool" where
  "buffer_grows b bs b' \<longleftrightarrow> buffer_ok b' \<and> written b' = written b @ bs \<and> bb_cap b \<le> bb_cap b'
     \<and> bb_can_resize b' = bb_can_resize b \<and> (bb_can_resize b \<or> bb_cap b' = bb_cap b)"

definition grows :: "CBB \<Rightarrow> u8 list \<Rightarrow> CBB \<Rightarrow> bool" where
  "grows s bs s' \<longleftrightarrow>
     (\<exists>b b'. cbb_base s = Some b \<and> cbb_base s' = Some b' \<and> buffer_grows b bs b'
       \<and> cbb_chain s' = cbb_chain s)"

definition emits :: "sys_alloc \<Rightarrow> 'x writer \<Rightarrow> nat \<Rightarrow> u8 list \<Rightarrow> 'x \<Rightarrow> bool" where
  "emits a op d bs x \<longleftrightarrow>
     (\<forall>s. CBB_top d s \<longrightarrow>
        (case op s of (None, _) \<Rightarrow> \<not> fits a s (length bs) | (Some y, s') \<Rightarrow> y = x \<and> grows s bs s'))"

lemma length_written [simp]: "buffer_ok b \<Longrightarrow> length (written b) = bb_len b"
  by (simp add: buffer_ok_def written_def)

lemma buffer_grows_len:
  "buffer_ok b \<Longrightarrow> buffer_grows b bs b' \<Longrightarrow> bb_len b' = bb_len b + length bs"
  by (metis buffer_grows_def length_append length_written)

lemma buffer_grows_trans:
  "buffer_grows b x b1 \<Longrightarrow> buffer_grows b1 y b2 \<Longrightarrow> buffer_grows b (x @ y) b2"
  by (auto simp: buffer_grows_def)

lemma frames_ok_mono: "frames_ok start len fs \<Longrightarrow> len \<le> len' \<Longrightarrow> frames_ok start len' fs"
  by (induction start len fs rule: frames_ok.induct) auto

lemma chain_ok_mono: "chain_ok len ch \<Longrightarrow> len \<le> len' \<Longrightarrow> chain_ok len' ch"
  by (auto simp: chain_ok_def intro: frames_ok_mono)

lemma CBB_wfE:
  assumes "CBB_wf s"
  obtains b where "cbb_base s = Some b" and "buffer_ok b" and "chain_ok (bb_len b) (cbb_chain s)"
  using assms by (auto simp: CBB_wf_def)

lemma grows_wf:
  assumes "CBB_wf s" and "grows s bs s'"
  shows "CBB_wf s'" and "cbb_chain s' = cbb_chain s"
proof -
  obtain b b' where g: "cbb_base s = Some b" "cbb_base s' = Some b'" "buffer_grows b bs b'"
      "cbb_chain s' = cbb_chain s"
    using assms(2) by (auto simp: grows_def)
  from assms(1) g(1) have ok: "buffer_ok b" "chain_ok (bb_len b) (cbb_chain s)"
    by (auto simp: CBB_wf_def)
  have "bb_len b \<le> bb_len b'" using buffer_grows_len [OF ok(1) g(3)] by simp
  then have "chain_ok (bb_len b') (cbb_chain s')" using ok(2) g(4) by (auto intro: chain_ok_mono)
  with g show "CBB_wf s'" by (auto simp: CBB_wf_def buffer_grows_def)
  show "cbb_chain s' = cbb_chain s" by (rule g(4))
qed

lemma grows_top: "CBB_top d s \<Longrightarrow> grows s bs s' \<Longrightarrow> CBB_top d s'"
  using grows_wf by (auto simp: CBB_top_def)

lemma grows_trans: "grows s x s1 \<Longrightarrow> grows s1 y s2 \<Longrightarrow> grows s (x @ y) s2"
  by (auto simp: grows_def intro: buffer_grows_trans)

lemma grows_fits:
  assumes "CBB_wf s" and "grows s bs s'" and "fits a s (length bs + n)"
  shows "fits a s' n"
proof -
  obtain b b' where g: "cbb_base s = Some b" "cbb_base s' = Some b'" "buffer_grows b bs b'"
    using assms(2) by (auto simp: grows_def)
  have "buffer_ok b" using assms(1) g(1) by (auto simp: CBB_wf_def)
  then have "bb_len b' = bb_len b + length bs" using g(3) by (rule buffer_grows_len)
  moreover have "bb_cap b \<le> bb_cap b'" "bb_can_resize b' = bb_can_resize b" using g(3) by (simp_all add: buffer_grows_def)
  ultimately show ?thesis using assms(3) g(1,2) by (auto simp: fits_def room_def)
qed

lemma fits_mono: "fits a s n \<Longrightarrow> m \<le> n \<Longrightarrow> fits a s m"
  by (auto simp: fits_def room_def)

section \<open>Composing contracts\<close>

lemma emitsI:
  assumes "\<And>s s'. CBB_top d s \<Longrightarrow> op s = (None, s') \<Longrightarrow> \<not> fits a s (length bs)"
    and "\<And>s s' y. CBB_top d s \<Longrightarrow> op s = (Some y, s') \<Longrightarrow> y = x \<and> grows s bs s'"
  shows "emits a op d bs x"
  using assms by (auto simp: emits_def split: prod.splits option.splits)

lemma emits_Some:
  "emits a op d bs x \<Longrightarrow> CBB_top d s \<Longrightarrow> op s = (Some y, s') \<Longrightarrow> y = x \<and> grows s bs s'"
  by (auto simp: emits_def)

lemma emits_None:
  "emits a op d bs x \<Longrightarrow> CBB_top d s \<Longrightarrow> op s = (None, s') \<Longrightarrow> \<not> fits a s (length bs)"
  by (auto simp: emits_def)

lemma emits_succeeds:
  assumes "emits a op d bs x" and "CBB_top d s" and "fits a s (length bs)"
  obtains s' where "op s = (Some x, s')" and "grows s bs s'" and "CBB_top d s'"
proof -
  obtain r s' where r: "op s = (r, s')" by (cases "op s")
  with emits_None [OF assms(1,2)] assms(3) obtain y where y: "r = Some y" by (cases r) auto
  from emits_Some [OF assms(1,2), of y s'] r y have "y = x" "grows s bs s'" by auto
  with that r y grows_top [OF assms(2)] show thesis by auto
qed

lemma cbb_bind_simps [simp]:
  "cbb_bind (None, s) f = (None, s)" "cbb_bind (Some x, s) f = f x s"
  by (simp_all add: cbb_bind_def)

lemma cbb_bind_assoc: "cbb_bind (cbb_bind r f) g = cbb_bind r (\<lambda>x s. cbb_bind (f x s) g)"
  by (auto simp: cbb_bind_def split: prod.splits option.splits)

lemma cbb_bind_Some:
  "cbb_bind r f = (Some y, s') \<longleftrightarrow> (\<exists>x s1. r = (Some x, s1) \<and> f x s1 = (Some y, s'))"
  by (auto simp: cbb_bind_def split: prod.splits option.splits)

lemma cbb_bind_None:
  "cbb_bind r f = (None, s') \<longleftrightarrow>
     r = (None, s') \<or> (\<exists>x s1. r = (Some x, s1) \<and> f x s1 = (None, s'))"
  by (auto simp: cbb_bind_def split: prod.splits option.splits)

lemma emits_return [simp]: "emits a (\<lambda>s. (Some x, s)) d [] x"
  by (rule emitsI)
    (auto simp: grows_def buffer_grows_def CBB_top_def CBB_wf_def)

lemma emits_bind:
  assumes "emits a op d u x" and "emits a (f x) d v y"
  shows "emits a (\<lambda>s. cbb_bind (op s) f) d (u @ v) y"
proof (rule emitsI)
  fix s s' assume top: "CBB_top d s" and n: "cbb_bind (op s) f = (None, s')"
  from n consider "op s = (None, s')" | z s1 where "op s = (Some z, s1)" "f z s1 = (None, s')"
    by (auto simp: cbb_bind_None)
  then show "\<not> fits a s (length (u @ v))"
  proof cases
    case 1
    from emits_None [OF assms(1) top this] show ?thesis using fits_mono [of a s "length (u @ v)" "length u"] by auto
  next
    case 2
    from emits_Some [OF assms(1) top 2(1)] have g: "z = x" "grows s u s1" by auto
    from emits_None [OF assms(2) grows_top [OF top g(2)]] 2(2) g(1) have "\<not> fits a s1 (length v)" by auto
    then show ?thesis using grows_fits [OF _ g(2)] top by (auto simp: CBB_top_def)
  qed
next
  fix s s' r assume top: "CBB_top d s" and b: "cbb_bind (op s) f = (Some r, s')"
  then obtain z s1 where z: "op s = (Some z, s1)" "f z s1 = (Some r, s')"
    by (auto simp: cbb_bind_Some)
  from emits_Some [OF assms(1) top z(1)] have g: "z = x" "grows s u s1" by auto
  from emits_Some [OF assms(2) grows_top [OF top g(2)]] z(2) g(1)
  have "r = y" "grows s1 v s'" by auto
  with g(2) show "r = y \<and> grows s (u @ v) s'" by (auto intro: grows_trans)
qed

lemma example_init:
  "CBB_init_fixed example_alloc buf n = (Some (), snd (CBB_init_fixed example_alloc buf n))"
  by (simp add: CBB_init_fixed_def cbb_init_def OPENSSL_malloc_def OPENSSL_MALLOC_PREFIX_def
      example_alloc_def)

section \<open>The buffer operations\<close>

lemma cbb_buffer_reserve_cases:
  assumes ok: "buffer_ok b" and n: "n < SIZE_LIMIT"
  shows "case cbb_buffer_reserve a n b of
      (None, b') \<Rightarrow> \<not> room a b n \<and> b' = b\<lparr>bb_error := True\<rparr>
    | (Some pos, b') \<Rightarrow> pos = bb_len b \<and> buffer_grows b [] b' \<and> bb_len b' = bb_len b
        \<and> bb_len b + n \<le> bb_cap b'"
proof -
  let ?newlen = "(bb_len b + n) mod SIZE_LIMIT"
  have len: "bb_len b < SIZE_LIMIT" using ok by (simp add: buffer_ok_def)
  consider (ovf) "?newlen < bb_len b" "SIZE_LIMIT \<le> bb_len b + n"
    | (fit) "?newlen = bb_len b + n" "bb_len b + n \<le> bb_cap b"
    | (grow) "?newlen = bb_len b + n" "bb_cap b < bb_len b + n"
  proof (cases "bb_len b + n < SIZE_LIMIT")
    case True
    then show ?thesis using that(2,3) by (cases "bb_len b + n \<le> bb_cap b") simp_all
  next
    case False
    then have "?newlen = bb_len b + n - SIZE_LIMIT" using len n by (simp add: le_mod_geq)
    then show ?thesis using that(1) False n by simp
  qed
  then show ?thesis
  proof cases
    case ovf
    then show ?thesis using ok by (simp add: cbb_buffer_reserve_def buffer_ok_def room_def)
  next
    case fit
    then show ?thesis using ok by (simp add: cbb_buffer_reserve_def buffer_grows_def)
  next
    case grow
    let ?nc0 = "(bb_cap b * 2) mod SIZE_LIMIT"
    let ?nc = "if ?nc0 < bb_cap b \<or> ?nc0 < ?newlen then ?newlen else ?nc0"
    have nc: "bb_len b + n \<le> ?nc" "bb_cap b \<le> ?nc" "?nc < SIZE_LIMIT"
      using grow by auto
    have eq: "cbb_buffer_reserve a n b =
      (if \<not> bb_can_resize b then (None, b\<lparr>bb_error := True\<rparr>)
       else case OPENSSL_realloc a (Some (bb_buf b)) ?nc of
              None \<Rightarrow> (None, b\<lparr>bb_error := True\<rparr>)
            | Some nb \<Rightarrow> (Some (bb_len b), b\<lparr>bb_buf := nb, bb_cap := ?nc\<rparr>))"
      using grow unfolding cbb_buffer_reserve_def Let_def by auto
    show ?thesis
    proof (cases "bb_can_resize b")
      case True
      show ?thesis
      proof (cases "OPENSSL_realloc a (Some (bb_buf b)) ?nc")
        case None
        have "?nc \<le> 2 * (bb_len b + n)" using grow by (auto simp: less_imp_le intro: order_trans [OF mod_less_eq_dividend])
        then have "\<not> room a b n" using OPENSSL_realloc_ok [of a ?nc "Some (bb_buf b)"] None grow(2)
          by (auto simp: room_def simp del: if_split)
        with True None show ?thesis unfolding eq by simp
      next
        case (Some nb)
        have p: "length nb = ?nc" "take (bb_cap b) nb = bb_buf b"
          using OPENSSL_realloc_prefix [OF Some] ok nc(2) by (simp_all add: buffer_ok_def)
        have "take (bb_len b) nb = take (bb_len b) (take (bb_cap b) nb)"
          using ok by (simp add: buffer_ok_def min_def)
        then have "take (bb_len b) nb = take (bb_len b) (bb_buf b)" using p(2) by simp
        then show ?thesis
          unfolding eq Some using True ok nc p(1)
          by (simp add: buffer_grows_def buffer_ok_def written_def del: if_not_P)
      qed
    next
      case False
      then show ?thesis unfolding eq using grow by (simp add: room_def)
    qed
  qed
qed

lemma cbb_buffer_add_Some:
  assumes "buffer_ok b" and "n < SIZE_LIMIT" and "cbb_buffer_add a n b = (Some pos, b')"
  shows "pos = bb_len b" and "buffer_ok b'" and "bb_len b' = bb_len b + n"
    and "take (bb_len b) (bb_buf b') = written b" and "bb_cap b \<le> bb_cap b'"
    and "bb_can_resize b' = bb_can_resize b" and "bb_can_resize b \<or> bb_cap b' = bb_cap b"
proof -
  obtain b1 where r: "cbb_buffer_reserve a n b = (Some pos, b1)" "b' = b1\<lparr>bb_len := bb_len b1 + n\<rparr>"
    using assms(3) by (auto simp: cbb_buffer_add_def cbb_bind_Some)
  have *: "pos = bb_len b" "buffer_grows b [] b1" "bb_len b1 = bb_len b" "bb_len b + n \<le> bb_cap b1"
    using cbb_buffer_reserve_cases [OF assms(1,2), of a] r(1) by auto
  from * r(2) show "pos = bb_len b" "buffer_ok b'" "bb_len b' = bb_len b + n"
    "take (bb_len b) (bb_buf b') = written b" "bb_cap b \<le> bb_cap b'"
    "bb_can_resize b' = bb_can_resize b" "bb_can_resize b \<or> bb_cap b' = bb_cap b"
    by (auto simp: buffer_grows_def buffer_ok_def written_def)
qed

lemma cbb_buffer_add_None:
  assumes "buffer_ok b" and "n < SIZE_LIMIT" and "cbb_buffer_add a n b = (None, b')"
  shows "\<not> room a b n" and "bb_error b'"
  using cbb_buffer_reserve_cases [OF assms(1,2), of a] assms(3)
  by (auto simp: cbb_buffer_add_def cbb_bind_None)

lemma store_be_eq:
  "pos + k \<le> length buf \<Longrightarrow>
     store_be pos k v buf = (mem_write pos (be_bytes k v) buf, v div 256 ^ k)"
proof (induction pos k v buf rule: store_be.induct)
  case (1 pos v buf)
  then show ?case by (simp add: mem_write_def)
next
  case (2 pos k v buf)
  have "mem_write pos (be_bytes k (v div 256)) (buf[pos + k := of_nat v]) =
      mem_write pos (be_bytes (Suc k) v) buf"
  proof -
    have "drop (pos + k) (buf[pos + k := of_nat v]) = of_nat v # drop (Suc (pos + k)) buf"
      using 2(2) by (metis Suc_le_lessD add_Suc_right length_list_update nth_list_update_eq
          Cons_nth_drop_Suc drop_update_cancel lessI)
    then show ?thesis by (simp add: mem_write_def)
  qed
  with 2 show ?case by (simp add: div_mult2_eq)
qed

text \<open>An operation that extends the buffer by \<open>data\<close>, whatever was in the new space.\<close>

lemma buffer_append:
  assumes "buffer_ok b" and "length data < SIZE_LIMIT"
    and "cbb_buffer_add a (length data) b = (Some pos, b')"
  shows "buffer_grows b data (b'\<lparr>bb_buf := mem_write pos data (bb_buf b')\<rparr>)"
proof -
  note A = cbb_buffer_add_Some [OF assms]
  have "pos + length data \<le> length (bb_buf b')" using A(1-3) by (simp add: buffer_ok_def)
  then show ?thesis
    using A take_mem_write [of pos data "bb_buf b'"]
    by (simp add: buffer_grows_def buffer_ok_def written_def)
qed

lemma CBB_flush_top: "CBB_top d s \<Longrightarrow> CBB_flush a d s = (Some (), s)"
  by (subst CBB_flush.simps) (auto simp: CBB_top_def CBB_wf_def buffer_ok_def)

lemma on_base_emits:
  assumes "\<And>b b'. buffer_ok b \<Longrightarrow> f b = (None, b') \<Longrightarrow> \<not> room a b (length bs)"
    and "\<And>b y b'. buffer_ok b \<Longrightarrow> f b = (Some y, b') \<Longrightarrow> y = x \<and> buffer_grows b bs b'"
  shows "emits a (\<lambda>s. cbb_bind (CBB_flush a d s) (\<lambda>_. on_base f)) d bs x"
proof (rule emitsI)
  fix s s' assume top: "CBB_top d s"
    and n: "cbb_bind (CBB_flush a d s) (\<lambda>_. on_base f) = (None, s')"
  obtain b where b: "cbb_base s = Some b" "buffer_ok b"
    using top by (auto simp: CBB_top_def CBB_wf_def)
  then obtain b' where "f b = (None, b')"
    using n by (cases "f b") (simp add: CBB_flush_top [OF top] on_base_def)
  from assms(1) [OF b(2) this] b(1) show "\<not> fits a s (length bs)" by (simp add: fits_def)
next
  fix s s' y assume top: "CBB_top d s"
    and n: "cbb_bind (CBB_flush a d s) (\<lambda>_. on_base f) = (Some y, s')"
  obtain b where b: "cbb_base s = Some b" "buffer_ok b"
    using top by (auto simp: CBB_top_def CBB_wf_def)
  then obtain b' where b': "f b = (Some y, b')" "s' = s\<lparr>cbb_base := Some b'\<rparr>"
    using n by (cases "f b") (simp add: CBB_flush_top [OF top] on_base_def)
  from assms(2) [OF b(2) b'(1)] b(1) b'(2) show "y = x \<and> grows s bs s'" by (simp add: grows_def)
qed

section \<open>Contracts of the primitive operations\<close>

lemma emits_CBB_add_bytes:
  assumes "length data < SIZE_LIMIT"
  shows "emits a (CBB_add_bytes a d data) d data ()"
  unfolding CBB_add_bytes_def
proof (rule on_base_emits)
  fix b b' :: cbb_buffer assume "buffer_ok b"
    "cbb_bind (cbb_buffer_add a (length data) b) (\<lambda>pos b'.
       (Some (), b'\<lparr>bb_buf := mem_write pos data (bb_buf b')\<rparr>)) = (None, b')"
  then show "\<not> room a b (length data)"
    using cbb_buffer_add_None [OF _ assms] by (auto simp: cbb_bind_None)
qed (auto simp: cbb_bind_Some intro: buffer_append [OF _ assms])

lemma emits_add_u:
  assumes "1 \<le> n" and "n \<le> 8" and "unat v < 256 ^ n"
  shows "emits a (add_u a d v n) d (be_bytes n (unat v)) ()"
  unfolding add_u_def
proof (rule on_base_emits)
  let ?bs = "be_bytes n (unat v)"
  have n: "length ?bs < SIZE_LIMIT" using assms(2) by simp
  have eq: "cbb_buffer_add_u a v n b =
    cbb_bind (cbb_buffer_add a (length ?bs) b) (\<lambda>pos b'. (Some (), b'\<lparr>bb_buf := mem_write pos ?bs (bb_buf b')\<rparr>))"
    if "buffer_ok b" for b
  proof (cases "cbb_buffer_add a n b")
    case (Pair r b')
    show ?thesis
    proof (cases r)
      case (Some pos)
      note A = cbb_buffer_add_Some [OF that _ Pair [unfolded Some]]
      have "pos + n \<le> length (bb_buf b')" using A(1-3) n by (simp add: buffer_ok_def)
      then show ?thesis
        using Pair Some assms by (simp add: cbb_buffer_add_u_def store_be_eq div_eq_0_iff)
    qed (use Pair assms(1) in \<open>simp add: cbb_buffer_add_u_def\<close>)
  qed
  fix b b' :: cbb_buffer assume ok: "buffer_ok b"
  {
    assume "cbb_buffer_add_u a v n b = (None, b')"
    with cbb_buffer_add_None [OF ok n] show "\<not> room a b (length ?bs)"
      unfolding eq [OF ok] by (auto simp: cbb_bind_None)
  next
    fix y assume "cbb_buffer_add_u a v n b = (Some y, b')"
    with buffer_append [OF ok n] show "y = () \<and> buffer_grows b ?bs b'"
      unfolding eq [OF ok] by (auto simp: cbb_bind_Some)
  }
qed

lemma emits_CBB_add_u8 [simp]: "emits a (CBB_add_u8 a d v) d [v] ()"
proof -
  have "unat (ucast v :: u64) = unat v" by (rule unat_ucast_up) simp
  then show ?thesis using emits_add_u [of 1 "ucast v :: u64" a d] by (simp add: CBB_add_u8_def)
qed

lemma emits_CBB_add_u16: "emits a (CBB_add_u16 a d v) d (be_bytes 2 (unat v)) ()"
proof -
  have "unat (ucast v :: u64) = unat v" by (rule unat_ucast_up) simp
  then show ?thesis
    using emits_add_u [of 2 "ucast v :: u64" a d] unat_u16_less [of v] by (simp add: CBB_add_u16_def)
qed

lemma emits_CBB_add_u24: "unat v < 16777216 \<Longrightarrow> emits a (CBB_add_u24 a d v) d (be_bytes 3 (unat v)) ()"
proof -
  assume "unat v < 16777216"
  moreover have "unat (ucast v :: u64) = unat v" by (rule unat_ucast_up) simp
  ultimately show ?thesis
    using emits_add_u [of 3 "ucast v :: u64" a d] by (simp add: CBB_add_u24_def)
qed

lemma emits_CBB_add_u32: "emits a (CBB_add_u32 a d v) d (be_bytes 4 (unat v)) ()"
proof -
  have "unat (ucast v :: u64) = unat v" by (rule unat_ucast_up) simp
  then show ?thesis
    using emits_add_u [of 4 "ucast v :: u64" a d] unat_u32_less [of v] by (simp add: CBB_add_u32_def)
qed

lemma emits_CBB_add_u64: "emits a (CBB_add_u64 a d v) d (be_bytes 8 (unat v)) ()"
  using emits_add_u [of 8 v a d] unat_u64_less [of v] by (simp add: CBB_add_u64_def)

section \<open>Base-128 integers and identifier octets\<close>

definition base128_octet :: "nat \<Rightarrow> nat \<Rightarrow> u8" where
  "base128_octet n i = of_nat (n div 128 ^ i mod 128 + (if i = 0 then 0 else 128))"

primrec base128_octets :: "nat \<Rightarrow> nat \<Rightarrow> u8 list" where
  "base128_octets n 0 = []"
| "base128_octets n (Suc i) = base128_octet n i # base128_octets n i"

lemma base128_len_loop_spec:
  "\<exists>l. base128_len_loop k n = k + l \<and> n div 128 ^ l = 0 \<and> (\<forall>j<l. n div 128 ^ j \<noteq> 0)"
proof (induction k n rule: base128_len_loop.induct)
  case (1 k n)
  show ?case
  proof (cases "n > 0")
    case True
    then obtain l where l: "base128_len_loop (k + 1) (n div 128) = k + 1 + l"
        "n div 128 div 128 ^ l = 0" "\<forall>j<l. n div 128 div 128 ^ j \<noteq> 0"
      using 1 by blast
    have "n div 128 ^ Suc l = 0" using l(2) by (simp add: div_mult2_eq)
    moreover have "n div 128 ^ j \<noteq> 0" if "j < Suc l" for j
      using that True l(3) by (cases j) (simp_all add: div_mult2_eq)
    moreover have "base128_len_loop k n = k + Suc l"
      using True l(1) by (simp add: base128_len_loop.simps [of k n])
    ultimately show ?thesis by blast
  next
    case False
    then show ?thesis by (intro exI [of _ 0]) (simp add: base128_len_loop.simps)
  qed
qed

lemma base128_octets_eq:
  assumes "1 \<le> i" and "\<And>j. 1 \<le> j \<Longrightarrow> j < i \<Longrightarrow> n div 128 ^ j \<noteq> 0"
  shows "base128_cont (n div 128 ^ i) @ base128_octets n i = base128_bytes n"
  using assms
proof (induction i rule: nat_induct_at_least)
  case base
  then show ?case by (simp add: base128_bytes_def base128_octet_def)
next
  case (Suc i)
  have "n div 128 ^ Suc i = n div 128 ^ i div 128" by (simp flip: div_mult2_eq add: mult.commute)
  then have "base128_cont (n div 128 ^ i) = base128_cont (n div 128 ^ Suc i) @ [base128_octet n i]"
    using Suc.hyps Suc.prems [of i]
    by (subst base128_cont.simps) (simp add: base128_octet_def)
  then show ?case using Suc by simp
qed

lemma ucast_base128_octet:
  "(let byte0 = (ucast (drop_bit (7 * i) (v :: u64) AND 0x7f) :: u8)
    in if i \<noteq> 0 then byte0 OR 0x80 else byte0) = base128_octet (unat v) i"
proof -
  let ?b = "ucast (drop_bit (7 * i) v AND 0x7f) :: u8"
  have "unat (drop_bit (7 * i) v AND 0x7f) = unat v div 2 ^ (7 * i) mod 128"
    using unat_and_mask [of "drop_bit (7 * i) v" 7]
    by (simp add: unat_drop_bit mask_eq_exp_minus_1)
  moreover have "(2 :: nat) ^ (7 * i) = 128 ^ i" by (simp add: power_mult)
  moreover have "unat v div 128 ^ i mod 128 < 128" by simp
  then have "unat v div 128 ^ i mod 128 mod 256 = unat v div 128 ^ i mod 128" by simp
  ultimately have b: "unat ?b = unat v div 128 ^ i mod 128" by (simp add: unat_ucast_u8)
  have "unat (0x80 OR ?b) = unat (0x80 :: u8) + unat ?b"
    by (rule unat_or_disjoint [where k = 7]) (simp_all add: b)
  then have "unat (?b OR 0x80) = unat v div 128 ^ i mod 128 + 128"
    by (simp add: or.commute b)
  then have "?b OR 0x80 = of_nat (unat v div 128 ^ i mod 128 + 128)" by (rule word_eq_of_natI)
  moreover have "?b = of_nat (unat v div 128 ^ i mod 128)" using b by (rule word_eq_of_natI)
  ultimately show ?thesis unfolding base128_octet_def Let_def by (cases "i = 0") simp_all
qed

lemma emits_add_base128_loop: "emits a (add_base128_loop a d v k) d (base128_octets (unat v) k) ()"
proof (induction k)
  case (Suc k)
  have "emits a (\<lambda>s. cbb_bind (CBB_add_u8 a d (base128_octet (unat v) k) s)
      (\<lambda>_. add_base128_loop a d v k)) d ([base128_octet (unat v) k] @ base128_octets (unat v) k) ()"
    by (rule emits_bind [OF emits_CBB_add_u8 Suc])
  then show ?case
    using ucast_base128_octet [of k v] by (simp add: Let_def)
qed simp

lemma emits_add_base128_integer: "emits a (add_base128_integer a d v) d (base128_bytes (unat v)) ()"
proof -
  obtain l where l: "base128_len_loop 0 (unat v) = l" "unat v div 128 ^ l = 0"
      "\<And>j. j < l \<Longrightarrow> unat v div 128 ^ j \<noteq> 0"
    using base128_len_loop_spec [of 0 "unat v"] by auto
  let ?k = "if l = 0 then 1 else l"
  have "unat v div 128 ^ ?k = 0" using l(2) by (cases "l = 0") auto
  moreover have "base128_cont (unat v div 128 ^ ?k) @ base128_octets (unat v) ?k = base128_bytes (unat v)"
    by (rule base128_octets_eq) (use l(3) in \<open>auto split: if_splits\<close>)
  ultimately have "base128_octets (unat v) ?k = base128_bytes (unat v)" by (simp only: base128_cont_0 append.simps)
  then show ?thesis
    using emits_add_base128_loop [of a d v ?k] unfolding add_base128_integer_def l(1) Let_def by simp
qed

definition add_asn1_identifier :: "sys_alloc \<Rightarrow> nat \<Rightarrow> u32 \<Rightarrow> unit writer" where
  "add_asn1_identifier a d tag s =
     (let tag_bits = (ucast (drop_bit CBS_ASN1_TAG_SHIFT tag) AND 0xe0 :: u8);
          tag_number = tag AND CBS_ASN1_TAG_NUMBER_MASK
      in if tag_number \<ge> 0x1f
         then cbb_bind (CBB_add_u8 a d (tag_bits OR 0x1f) s)
                (\<lambda>_ s2. add_base128_integer a d (ucast tag_number) s2)
         else CBB_add_u8 a d (tag_bits OR ucast tag_number) s)"

lemma unat_tag_bits:
  "unat (ucast (drop_bit CBS_ASN1_TAG_SHIFT (tag :: u32)) AND 0xe0 :: u8) = unat tag div 2 ^ 29 * 32"
proof -
  have m: "(224 :: nat) = push_bit 5 (mask 3)" by (simp add: mask_eq_exp_minus_1 push_bit_eq_mult)
  have "unat tag div 2 ^ 24 < 256" using unat_u32_less [of tag] by (simp add: less_mult_imp_div_less)
  then have u: "unat (ucast (drop_bit 24 tag) :: u8) = unat tag div 2 ^ 24"
    by (simp add: unat_ucast_u8 unat_drop_bit)
  have "unat (ucast (drop_bit 24 tag) AND 0xe0 :: u8) = (unat tag div 2 ^ 24) AND 224"
    by (simp add: unsigned_and_eq u)
  also have "\<dots> = (unat tag div 2 ^ 24 div 32 mod 8) * 32" unfolding m nat_and_mask_shifted by simp
  also have "unat tag div 2 ^ 24 div 32 = unat tag div 2 ^ 29" by (simp flip: div_mult2_eq)
  also have "unat tag div 2 ^ 29 mod 8 = unat tag div 2 ^ 29"
    using unat_u32_less [of tag] by (intro mod_less) (simp add: less_mult_imp_div_less)
  finally show ?thesis by (simp add: CBS_ASN1_TAG_SHIFT_def)
qed

lemma emits_add_asn1_identifier: "emits a (add_asn1_identifier a d tag) d (asn1_tag_bytes tag) ()"
proof -
  let ?bits = "ucast (drop_bit CBS_ASN1_TAG_SHIFT tag) AND 0xe0 :: u8"
  let ?num = "tag AND CBS_ASN1_TAG_NUMBER_MASK"
  let ?d = "unat tag div 2 ^ 29" and ?m = "unat tag mod 2 ^ 29"
  have num: "unat ?num = ?m"
    using unat_and_mask [of tag 29] by (simp add: CBS_ASN1_TAG_NUMBER_MASK_def mask_eq_exp_minus_1)
  have ge: "?num \<ge> 0x1f \<longleftrightarrow> \<not> ?m < 31" by (simp add: word_le_nat_alt num not_less)
  have bits_or: "?bits OR x = of_nat (?d * 32 + unat x)" if "unat x < 32" for x :: u8
  proof -
    have "unat (?bits OR x) = ?d * 32 + unat x"
      using unat_or_disjoint [where k = 5 and a = ?bits and b = x] that unat_tag_bits [of tag] by simp
    then show ?thesis by (rule word_eq_of_natI)
  qed
  show ?thesis
  proof (cases "?m < 31")
    case True
    have "unat (ucast ?num :: u8) = ?m" using True num by (simp add: unat_ucast_u8)
    then have "?bits OR ucast ?num = of_nat (?d * 32 + ?m)" using bits_or [of "ucast ?num"] True by simp
    then have "add_asn1_identifier a d tag = CBB_add_u8 a d (of_nat (?d * 32 + ?m))"
      using True ge unfolding add_asn1_identifier_def Let_def by (intro ext) simp
    then show ?thesis using True by (simp add: asn1_tag_bytes_def Let_def del: of_nat_add of_nat_mult)
  next
    case False
    have n: "unat (ucast ?num :: u64) = ?m" using num by (simp add: unat_ucast_up)
    have "?bits OR 0x1f = of_nat (?d * 32 + 31)" using bits_or [of "0x1f"] by simp
    then have eq: "add_asn1_identifier a d tag =
        (\<lambda>s. cbb_bind (CBB_add_u8 a d (of_nat (?d * 32 + 31)) s) (\<lambda>_. add_base128_integer a d (ucast ?num)))"
      using False ge unfolding add_asn1_identifier_def Let_def by (intro ext) simp
    have "emits a (add_asn1_identifier a d tag) d ([of_nat (?d * 32 + 31)] @ base128_bytes ?m) ()"
      unfolding eq
      by (rule emits_bind [OF emits_CBB_add_u8])
        (use emits_add_base128_integer [of a d "ucast ?num"] n in simp)
    then show ?thesis using False by (simp add: asn1_tag_bytes_def Let_def)
  qed
qed

section \<open>Length prefixes\<close>

lemma take_append_split:
  assumes "take m buf = W" and "length W = m"
  shows "buf = W @ drop m buf"
  using assms by (metis append_take_drop_id)

text \<open>Moving the contents along and writing the long-form header in front of them.\<close>

lemma shift_in_header:
  assumes buf: "take (j + 1 + n) buf = P @ z # C" and P: "length P = j" and C: "length C = n"
    and L: "length L = k" and len: "j + 1 + n + k \<le> length buf"
  shows "take (j + 1 + n + k)
      (mem_write (j + 1) L ((mem_write (j + 1 + k) (take n (drop (j + 1) buf)) buf)[j := i]))
      = P @ i # L @ C"
proof -
  define X where "X = drop (j + 1 + n) buf"
  have b: "buf = P @ z # C @ X"
    using take_append_split [OF buf] P C unfolding X_def by simp
  have kX: "k \<le> length X" using len b P C by simp
  have c: "take n (drop (j + 1) buf) = C" using b P C by simp
  let ?m = "mem_write (j + 1 + k) C buf"
  have m: "take (j + 1 + k) ?m = take (j + 1 + k) buf" "drop (j + 1 + k) ?m = C @ drop (j + 1 + k + n) buf"
    using len C by (simp_all add: mem_write_def)
  have "take (j + 1) (?m[j := i]) = P @ [i]"
  proof -
    have "take (j + 1) ?m = take (j + 1) (take (j + 1 + k) ?m)" by (simp add: min_def)
    also have "\<dots> = P @ [z]" unfolding m(1) using b P by simp
    finally have "(take (j + 1) ?m)[j := i] = P @ [i]" using P by (simp add: list_update_append)
    then show ?thesis by (simp add: take_update_swap)
  qed
  moreover have "drop (j + 1 + k) (?m[j := i]) = C @ drop (j + 1 + k + n) buf"
    using m(2) by simp
  ultimately have "mem_write (j + 1) L (?m[j := i]) = P @ i # L @ C @ drop (j + 1 + k + n) buf"
    using L by (simp add: mem_write_def)
  then show ?thesis unfolding c using P C L by simp
qed

lemma asn1_length_form_eq:
  assumes "n \<le> 0xfffffffe"
  defines "k \<equiv> (if n < 128 then 0 else length_octets n)"
  shows "asn1_length_form n = Some (k + 1, hd (der_length n))"
    and "der_length n = hd (der_length n) # be_bytes k (if k = 0 then 0 else n)"
    and "k \<noteq> 0 \<Longrightarrow> n < 256 ^ k" and "k \<le> 4"
  using assms(1) unfolding k_def
  by (auto simp: asn1_length_form_def der_length_def length_octets_def)

lemma flush_prefix_asn1:
  assumes ok: "buffer_ok b" and f: "fr_pending_is_asn1 f" "fr_pending_len_len f = 1"
    and start: "fr_offset f + 1 \<le> bb_len b"
    and n: "n = bb_len b - (fr_offset f + 1)" "n \<le> 0xfffffffe"
  shows "case flush_prefix a f b of
      (None, _) \<Rightarrow> \<not> room a b (length (der_length n) - 1)
    | (Some _, b') \<Rightarrow> buffer_ok b' \<and> bb_cap b \<le> bb_cap b' \<and> bb_can_resize b' = bb_can_resize b \<and>
        (bb_can_resize b \<or> bb_cap b' = bb_cap b) \<and>
        written b' = take (fr_offset f) (written b) @ der_length n @ drop (fr_offset f + 1) (written b)"
proof -
  let ?j = "fr_offset f" and ?W = "written b"
  define k where "k = (if n < 128 then 0 else length_octets n)"
  define i where "i = hd (der_length n)"
  note F = asn1_length_form_eq [OF n(2), folded k_def i_def]
  have W: "?W = take ?j ?W @ (?W ! ?j) # drop (?j + 1) ?W"
    using start ok id_take_nth_drop [of ?j ?W] by simp
  have lens: "length (take ?j ?W) = ?j" "length (drop (?j + 1) ?W) = n"
    using start ok n(1) by simp_all
  have blen: "bb_len b = ?j + 1 + n" using n(1) start by simp
  show ?thesis
  proof (cases "k = 0")
    case True
    have r: "flush_prefix a f b = (Some (), b\<lparr>bb_buf := (bb_buf b)[?j := i]\<rparr>)"
      unfolding flush_prefix_def Let_def using f F(1) True n(1)
      by (simp add: store_length_def)
    have "take (bb_len b) ((bb_buf b)[?j := i]) = ?W[?j := i]"
      by (simp add: written_def take_update_swap)
    also have "\<dots> = take ?j ?W @ i # drop (?j + 1) ?W"
      using start ok by (simp add: upd_conv_take_nth_drop)
    finally show ?thesis
      unfolding r using ok F(2) True by (simp add: buffer_ok_def written_def)
  next
    case False
    have ks: "k < SIZE_LIMIT" using F(4) by simp
    let ?mv = "\<lambda>b1. mem_write (?j + 1 + k) (take n (drop (?j + 1) (bb_buf b1))) (bb_buf b1)"
    have r: "flush_prefix a f b =
      (case cbb_buffer_add a k b of
         (None, b1) \<Rightarrow> (None, b1\<lparr>bb_error := True\<rparr>)
       | (Some _, b1) \<Rightarrow> store_length (?j + 1) k n (b1\<lparr>bb_buf := (?mv b1)[?j := i]\<rparr>))"
      unfolding flush_prefix_def Let_def using f F(1) False n(1)
      by (simp split: prod.split option.split)
    show ?thesis
    proof (cases "cbb_buffer_add a k b")
      case (Pair r1 b1)
      show ?thesis
      proof (cases r1)
        case None
        then show ?thesis
          unfolding r Pair using cbb_buffer_add_None [OF ok ks] Pair F(2) by (simp add: F(2))
      next
        case (Some pos)
        note A = cbb_buffer_add_Some [OF ok ks Pair [unfolded Some]]
        have cap: "?j + 1 + n + k \<le> length (bb_buf b1)"
          using A(2,3) blen by (simp add: buffer_ok_def)
        have t: "take (?j + 1 + n) (bb_buf b1) = take ?j ?W @ ?W ! ?j # drop (?j + 1) ?W"
          using A(4) W blen by simp
        let ?buf = "(?mv b1)[?j := i]"
        have lb: "length ?buf = length (bb_buf b1)" using cap by simp
        have "store_length (?j + 1) k n (b1\<lparr>bb_buf := ?buf\<rparr>) =
            (Some (), b1\<lparr>bb_buf := mem_write (?j + 1) (be_bytes k n) ?buf\<rparr>)"
          using store_be_eq [of "?j + 1" k ?buf n] cap lb F(3) False
          by (simp add: store_length_def div_eq_0_iff)
        moreover have "take (?j + 1 + n + k) (mem_write (?j + 1) (be_bytes k n) ?buf) =
            take ?j ?W @ i # be_bytes k n @ drop (?j + 1) ?W"
          by (rule shift_in_header [OF t lens(1,2) _ cap]) simp
        moreover have "length (mem_write (?j + 1) (be_bytes k n) ?buf) = length (bb_buf b1)"
          using cap lb by (subst length_mem_write) simp_all
        ultimately show ?thesis
          unfolding r Pair Some using A F(2) False blen
          by (simp add: buffer_ok_def written_def add.commute add.left_commute)
      qed
    qed
  qed
qed

lemma frames_ok_snoc:
  "frames_ok start len (fs @ [f]) \<longleftrightarrow>
     frames_ok start (fr_offset f) fs \<and> 1 \<le> fr_pending_len_len f \<and> fr_pending_len_len f \<le> 3
     \<and> (fr_pending_is_asn1 f \<longrightarrow> fr_pending_len_len f = 1) \<and> fr_is_child f
     \<and> fr_offset f + fr_pending_len_len f \<le> len"
  by (induction fs arbitrary: start) auto

lemma chain_ok_snoc:
  "ch \<noteq> [] \<Longrightarrow> chain_ok len (ch @ [f]) \<longleftrightarrow>
     chain_ok (fr_offset f) ch \<and> 1 \<le> fr_pending_len_len f \<and> fr_pending_len_len f \<le> 3
     \<and> (fr_pending_is_asn1 f \<longrightarrow> fr_pending_len_len f = 1) \<and> fr_is_child f
     \<and> fr_offset f + fr_pending_len_len f \<le> len"
  by (cases ch) (auto simp: chain_ok_def frames_ok_snoc)

text \<open>Flushing a \<open>CBB\<close> with exactly one pending child.\<close>

lemma CBB_flush_child:
  assumes top: "CBB_top (d + 1) s" and b: "cbb_base s = Some b"
  shows "CBB_flush a d s =
    (case flush_prefix a (cbb_chain s ! (d + 1)) b of
       (None, b') \<Rightarrow> (None, s\<lparr>cbb_base := Some b'\<rparr>)
     | (Some _, b') \<Rightarrow> (Some (), s\<lparr>cbb_base := Some b', cbb_chain := take (d + 1) (cbb_chain s)\<rparr>))"
proof -
  let ?f = "cbb_chain s ! (d + 1)"
  have len: "length (cbb_chain s) = d + 2" using top by (simp add: CBB_top_def)
  have ch: "cbb_chain s = take (d + 1) (cbb_chain s) @ [?f]"
    using len by (metis Suc_eq_plus1 add_2_eq_Suc' lessI order_refl take_Suc_conv_app_nth take_all)
  have ok: "buffer_ok b" "chain_ok (bb_len b) (cbb_chain s)"
    using top b by (auto simp: CBB_top_def CBB_wf_def)
  have ne: "take (d + 1) (cbb_chain s) \<noteq> []" using len by (cases "cbb_chain s") simp_all
  have F: "1 \<le> fr_pending_len_len ?f" "fr_offset ?f + fr_pending_len_len ?f \<le> bb_len b"
    using ok(2) chain_ok_snoc [OF ne, of "bb_len b" ?f] unfolding ch [symmetric] by blast+
  have m: "(fr_offset ?f + fr_pending_len_len ?f) mod SIZE_LIMIT = fr_offset ?f + fr_pending_len_len ?f"
    using F(2) ok(1) by (intro mod_less) (simp add: buffer_ok_def)
  show ?thesis
    unfolding CBB_flush.simps [of a d s] b CBB_flush_top [OF top]
    using len F m ok(1) by (simp add: b buffer_ok_def split: prod.split option.split)
qed

text \<open>
  \<open>opens\<close>: the identifier octets \<open>T\<close> and \<open>k\<close> reserved octets have been appended and a child
  with a pending prefix of \<open>k\<close> octets was pushed.
\<close>

definition opens :: "nat \<Rightarrow> u8 list \<Rightarrow> nat \<Rightarrow> bool \<Rightarrow> CBB \<Rightarrow> CBB \<Rightarrow> bool" where
  "opens d T k asn1 s s1 \<longleftrightarrow>
     (\<exists>b s0. cbb_base s = Some b \<and> grows s (T @ replicate k 0) s0
       \<and> s1 = push_child d (bb_len b + length T) k asn1 s0)"

lemma opens_top:
  assumes top: "CBB_top d s" and op: "opens d T k asn1 s s1"
    and k: "1 \<le> k" "k \<le> 3" "asn1 \<longrightarrow> k = 1"
  shows "CBB_top (d + 1) s1"
proof -
  obtain b s0 where o: "cbb_base s = Some b" "grows s (T @ replicate k 0) s0"
      "s1 = push_child d (bb_len b + length T) k asn1 s0"
    using op by (auto simp: opens_def)
  have top0: "CBB_top d s0" by (rule grows_top [OF top o(2)])
  obtain b0 where b0: "cbb_base s0 = Some b0" "buffer_grows b (T @ replicate k 0) b0"
      "cbb_chain s0 = cbb_chain s"
    using o(1,2) by (auto simp: grows_def)
  have okb: "buffer_ok b" "chain_ok (bb_len b) (cbb_chain s)"
    using top o(1) by (auto simp: CBB_top_def CBB_wf_def)
  have len0: "bb_len b0 = bb_len b + length T + k"
    using buffer_grows_len [OF okb(1) b0(2)] by simp
  have ch: "take (d + 1) (cbb_chain s0) = cbb_chain s" "cbb_chain s \<noteq> []"
    using top b0(3) by (auto simp: CBB_top_def)
  have "chain_ok (bb_len b + length T) (cbb_chain s)" by (rule chain_ok_mono [OF okb(2)]) simp
  then have "chain_ok (bb_len b0) (cbb_chain s1)"
    unfolding o(3) push_child_def using ch len0 k by (simp add: chain_ok_snoc)
  moreover have "buffer_ok b0" using b0(2) by (simp add: buffer_grows_def)
  ultimately show ?thesis
    using b0(1) ch top unfolding o(3) push_child_def by (auto simp: CBB_top_def CBB_wf_def)
qed

text \<open>
  A block: an operation that opens a child behind the octets \<open>T\<close> and \<open>k\<close> reserved octets,
  the child's contents, and the flush of the parent, which replaces the reserved octets by the
  header \<open>H n\<close> of contents of \<open>n\<close> octets. The ASN.1 element and the three length prefixes are
  its instances.
\<close>

locale block =
  fixes a :: sys_alloc and d :: nat and opn :: "unit writer" and T :: "u8 list" and k :: nat
    and asn1 :: bool and H :: "nat \<Rightarrow> u8 list" and bound :: nat
  assumes open_cases: "CBB_top d s \<Longrightarrow>
      case opn s of (None, _) \<Rightarrow> \<not> fits a s (length T + k) | (Some _, s1) \<Rightarrow> opens d T k asn1 s s1"
    and k_bounds: "1 \<le> k" "k \<le> 3" "asn1 \<longrightarrow> k = 1"
    and header_len: "n \<le> bound \<Longrightarrow> k \<le> length (H n)"
    and flush_header: "buffer_ok b \<Longrightarrow> fr_pending_is_asn1 f = asn1 \<Longrightarrow> fr_pending_len_len f = k \<Longrightarrow>
      fr_offset f + k \<le> bb_len b \<Longrightarrow> n = bb_len b - (fr_offset f + k) \<Longrightarrow> n \<le> bound \<Longrightarrow>
      case flush_prefix a f b of
        (None, _) \<Rightarrow> \<not> room a b (length (H n) - k)
      | (Some _, b') \<Rightarrow> buffer_ok b' \<and> bb_cap b \<le> bb_cap b' \<and> bb_can_resize b' = bb_can_resize b \<and>
          (bb_can_resize b \<or> bb_cap b' = bb_cap b) \<and>
          written b' = take (fr_offset f) (written b) @ H n @ drop (fr_offset f + k) (written b)"
begin

lemma closes:
  assumes top: "CBB_top d s" and op: "opens d T k asn1 s s1" and g: "grows s1 bs s2"
    and n: "length bs \<le> bound"
  shows "case CBB_flush a d s2 of
      (None, _) \<Rightarrow> \<not> fits a s (length (T @ H (length bs) @ bs))
    | (Some _, s') \<Rightarrow> grows s (T @ H (length bs) @ bs) s'"
proof -
  obtain b s0 where o: "cbb_base s = Some b" "grows s (T @ replicate k 0) s0"
      "s1 = push_child d (bb_len b + length T) k asn1 s0"
    using op by (auto simp: opens_def)
  obtain b0 where b0: "cbb_base s0 = Some b0" "buffer_grows b (T @ replicate k 0) b0"
      "cbb_chain s0 = cbb_chain s"
    using o(1,2) by (auto simp: grows_def)
  have top2: "CBB_top (d + 1) s2" by (rule grows_top [OF opens_top [OF top op k_bounds] g])
  obtain b2 where b2: "cbb_base s2 = Some b2" "buffer_grows b0 bs b2" "cbb_chain s2 = cbb_chain s1"
    using g b0(1) unfolding o(3) push_child_def by (auto simp: grows_def)
  have okb: "buffer_ok b" using top o(1) by (auto simp: CBB_top_def CBB_wf_def)
  have all: "buffer_grows b (T @ replicate k 0 @ bs) b2"
    using buffer_grows_trans [OF b0(2) b2(2)] by simp
  let ?j = "bb_len b + length T" and ?h = "H (length bs)"
  have len: "bb_len b2 = ?j + k + length bs" using buffer_grows_len [OF okb all] by simp
  have tk0: "take (d + 1) (cbb_chain s) = cbb_chain s" "length (cbb_chain s) = d + 1"
    using top by (simp_all add: CBB_top_def)
  define f where "f = cbb_chain s2 ! (d + 1)"
  have f: "fr_offset f = ?j" "fr_pending_len_len f = k" "fr_pending_is_asn1 f = asn1"
    and tk: "take (d + 1) (cbb_chain s2) = cbb_chain s"
    unfolding f_def b2(3) o(3) push_child_def using b0(3) tk0 by (simp_all add: nth_append)
  have P: "case flush_prefix a f b2 of
      (None, _) \<Rightarrow> \<not> room a b2 (length ?h - k)
    | (Some _, b') \<Rightarrow> buffer_ok b' \<and> bb_cap b2 \<le> bb_cap b' \<and> bb_can_resize b' = bb_can_resize b2 \<and>
        (bb_can_resize b2 \<or> bb_cap b' = bb_cap b2) \<and>
        written b' = take ?j (written b2) @ ?h @ drop (?j + k) (written b2)"
  proof -
    have "buffer_ok b2" using all by (simp add: buffer_grows_def)
    moreover have "fr_offset f + k \<le> bb_len b2" "length bs = bb_len b2 - (fr_offset f + k)"
      using f(1) len by simp_all
    ultimately show ?thesis
      using flush_header [of b2 f "length bs", OF _ f(3,2) _ _ n] unfolding f(1) by metis
  qed
  have T1: "take ?j (written b2) = written b @ T" "drop (?j + k) (written b2) = bs"
    using all okb by (simp_all add: buffer_grows_def)
  have fl: "CBB_flush a d s2 =
    (case flush_prefix a f b2 of
       (None, b') \<Rightarrow> (None, s2\<lparr>cbb_base := Some b'\<rparr>)
     | (Some _, b') \<Rightarrow> (Some (), s2\<lparr>cbb_base := Some b', cbb_chain := cbb_chain s\<rparr>))"
    using CBB_flush_child [OF top2 b2(1), of a] unfolding tk f_def .
  have cap: "bb_cap b \<le> bb_cap b2" "bb_can_resize b2 = bb_can_resize b"
    "bb_can_resize b \<or> bb_cap b2 = bb_cap b"
    using all by (simp_all add: buffer_grows_def)
  show ?thesis
  proof (cases "flush_prefix a f b2")
    case (Pair r b')
    show ?thesis
    proof (cases r)
      case None
      with Pair P len cap header_len [OF n] have "\<not> room a b (length T + length ?h + length bs)"
        by (auto simp: room_def)
      then show ?thesis unfolding fl Pair None using o(1) by (simp add: fits_def add.assoc)
    next
      case (Some u)
      with Pair P T1 cap have "buffer_grows b (T @ ?h @ bs) b'"
        by (auto simp: buffer_grows_def)
      then show ?thesis unfolding fl Pair Some using o(1) by (simp add: grows_def)
    qed
  qed
qed

text \<open>If the header, with its reserved octets only, or the contents do not fit, nothing larger fits.\<close>

lemma fails:
  assumes top: "CBB_top d s" and op: "opens d T k asn1 s s1" and "\<not> fits a s1 (length bs)"
    and n: "length bs \<le> bound"
  shows "\<not> fits a s (length (T @ H (length bs) @ bs))"
proof -
  obtain s0 and b :: cbb_buffer
    where s0: "grows s (T @ replicate k 0) s0" "s1 = push_child d (bb_len b + length T) k asn1 s0"
    using op unfolding opens_def by auto
  have "\<not> fits a s0 (length bs)" using assms(3) unfolding s0(2) by (simp add: fits_def push_child_def)
  then have "\<not> fits a s (length (T @ replicate k 0) + length bs)"
    using grows_fits [OF _ s0(1)] top by (auto simp: CBB_top_def)
  then show ?thesis
    using fits_mono [of a s "length (T @ H (length bs) @ bs)" "length (T @ replicate k 0) + length bs"]
      header_len [OF n] by auto
qed

lemma emits_block:
  assumes body: "emits a body (d + 1) bs x" and n: "length bs \<le> bound"
  shows "emits a (\<lambda>s. cbb_bind (opn s) (\<lambda>_ s1. cbb_bind (body s1) (\<lambda>_ s2. CBB_flush a d s2))) d
    (T @ H (length bs) @ bs) ()" (is "emits a ?op d ?E ()")
proof (rule emitsI)
  fix s s' assume top: "CBB_top d s"
  note C = open_cases [OF top]
  {
    assume "?op s = (None, s')"
    then consider "opn s = (None, s')" | u s1 where "opn s = (Some u, s1)" "body s1 = (None, s')"
      | u s1 y s2 where "opn s = (Some u, s1)" "body s1 = (Some y, s2)" "CBB_flush a d s2 = (None, s')"
      by (auto simp: cbb_bind_None)
    then show "\<not> fits a s (length ?E)"
    proof cases
      case 1
      then show ?thesis using C fits_mono [of a s "length ?E" "length T + k"] header_len [OF n] by auto
    next
      case 2
      then have op: "opens d T k asn1 s s1" using C by simp
      then show ?thesis
        using emits_None [OF body opens_top [OF top op k_bounds] 2(2)] by (rule fails [OF top _ _ n])
    next
      case 3
      then have op: "opens d T k asn1 s s1" using C by simp
      have "grows s1 bs s2" using emits_Some [OF body opens_top [OF top op k_bounds] 3(2)] by simp
      then show ?thesis using closes [OF top op _ n] 3(3) by fastforce
    qed
  next
    fix y assume "?op s = (Some y, s')"
    then obtain u s1 v s2 where st: "opn s = (Some u, s1)" "body s1 = (Some v, s2)"
        "CBB_flush a d s2 = (Some y, s')"
      by (auto simp: cbb_bind_Some)
    have op: "opens d T k asn1 s s1" using C st(1) by simp
    have "grows s1 bs s2" using emits_Some [OF body opens_top [OF top op k_bounds] st(2)] by simp
    then show "y = () \<and> grows s ?E s'" using closes [OF top op _ n] st(3) by fastforce
  }
qed

end

lemma CBB_add_asn1_cases:
  assumes top: "CBB_top d s"
  shows "case CBB_add_asn1 a d tag s of
      (None, _) \<Rightarrow> \<not> fits a s (length (asn1_tag_bytes tag) + 1)
    | (Some _, s1) \<Rightarrow> opens d (asn1_tag_bytes tag) 1 True s s1"
proof -
  let ?T = "asn1_tag_bytes tag"
  obtain b where b: "cbb_base s = Some b" "buffer_ok b"
    using top by (auto simp: CBB_top_def CBB_wf_def)
  have eq: "CBB_add_asn1 a d tag s =
    cbb_bind (add_asn1_identifier a d tag s) (\<lambda>_ s3.
      (case cbb_base s3 of
         None \<Rightarrow> (None, s3)
       | Some b3 \<Rightarrow> cbb_bind (CBB_add_u8 a d 0 s3) (\<lambda>_ s4. (Some (), push_child d (bb_len b3) 1 True s4))))"
    unfolding CBB_add_asn1_def CBB_flush_top [OF top] add_asn1_identifier_def Let_def by simp
  note id = emits_add_asn1_identifier [of a d tag]
  show ?thesis
  proof (cases "add_asn1_identifier a d tag s")
    case (Pair r s3)
    show ?thesis
    proof (cases r)
      case None
      with emits_None [OF id top] Pair show ?thesis
        unfolding eq using fits_mono [of a s "length ?T + 1" "length ?T"] by auto
    next
      case (Some u)
      with emits_Some [OF id top] Pair have g: "grows s ?T s3" by auto
      then obtain b3 where b3: "cbb_base s3 = Some b3" "buffer_grows b ?T b3"
        using b by (auto simp: grows_def)
      have len: "bb_len b3 = bb_len b + length ?T" by (rule buffer_grows_len [OF b(2) b3(2)])
      have top3: "CBB_top d s3" by (rule grows_top [OF top g])
      have wf: "CBB_wf s" using top by (simp add: CBB_top_def)
      show ?thesis
      proof (cases "CBB_add_u8 a d 0 s3")
        case (Pair r4 s4)
        note P4 = this
        show ?thesis
        proof (cases r4)
          case None
          with emits_None [OF emits_CBB_add_u8 top3, of a 0] P4 have "\<not> fits a s3 1" by auto
          then have "\<not> fits a s (length ?T + 1)" using grows_fits [OF wf g] by auto
          then show ?thesis
            unfolding eq \<open>add_asn1_identifier a d tag s = (r, s3)\<close> Some using b3 P4 None by simp
        next
          case (Some u4)
          with emits_Some [OF emits_CBB_add_u8 top3, of a 0] P4 have "grows s3 [0] s4" by auto
          with g have "grows s (?T @ [0]) s4" by (rule grows_trans)
          then show ?thesis
            unfolding eq \<open>add_asn1_identifier a d tag s = (r, s3)\<close> \<open>r = Some u\<close>
            using b3 P4 Some b(1) len by (auto simp: opens_def)
        qed
      qed
    qed
  qed
qed

interpretation asn1_child: block a d "CBB_add_asn1 a d tag" "asn1_tag_bytes tag" 1 True der_length 4294967294
  for a d tag
proof unfold_locales
  fix b n and f :: cbb_frame
  assume "buffer_ok b" "fr_pending_is_asn1 f = True" "fr_pending_len_len f = 1"
    "fr_offset f + 1 \<le> bb_len b" "n = bb_len b - (fr_offset f + 1)" "n \<le> 4294967294"
  then show "case flush_prefix a f b of
        (None, _) \<Rightarrow> \<not> room a b (length (der_length n) - 1)
      | (Some _, b') \<Rightarrow> buffer_ok b' \<and> bb_cap b \<le> bb_cap b' \<and> bb_can_resize b' = bb_can_resize b \<and>
          (bb_can_resize b \<or> bb_cap b' = bb_cap b) \<and>
          written b' = take (fr_offset f) (written b) @ der_length n @ drop (fr_offset f + 1) (written b)"
    by (intro flush_prefix_asn1) simp_all
qed (use CBB_add_asn1_cases in \<open>simp_all add: der_length_def\<close>)

text \<open>A whole element: header, contents, and the flush that settles the length.\<close>

definition asn1_block :: "sys_alloc \<Rightarrow> nat \<Rightarrow> u32 \<Rightarrow> 'x writer \<Rightarrow> unit writer" where
  "asn1_block a d tag body s =
     cbb_bind (CBB_add_asn1 a d tag s) (\<lambda>_ s1.
     cbb_bind (body s1) (\<lambda>_ s2. CBB_flush a d s2))"

lemma emits_asn1_block:
  assumes "emits a body (d + 1) bs x" and "length bs \<le> 0xfffffffe"
  shows "emits a (asn1_block a d tag body) d (der_element (tag, bs)) ()"
  using asn1_child.emits_block [OF assms] unfolding asn1_block_def der_element_def by simp

section \<open>Length-prefixed blocks\<close>

lemma flush_prefix_plain:
  assumes ok: "buffer_ok b" and f: "\<not> fr_pending_is_asn1 f" "fr_pending_len_len f = k"
    and start: "fr_offset f + k \<le> bb_len b" and n: "n = bb_len b - (fr_offset f + k)" "n < 256 ^ k"
  shows "\<exists>b'. flush_prefix a f b = (Some (), b') \<and> buffer_ok b' \<and> bb_cap b' = bb_cap b \<and>
    bb_can_resize b' = bb_can_resize b \<and>
    written b' = take (fr_offset f) (written b) @ be_bytes k n @ drop (fr_offset f + k) (written b)"
proof -
  let ?buf = "mem_write (fr_offset f) (be_bytes k n) (bb_buf b)"
  have k: "bb_len b = fr_offset f \<or> k \<noteq> 0" using n start by (cases k) auto
  have cap: "fr_offset f + k \<le> length (bb_buf b)" using start ok by (simp add: buffer_ok_def)
  have r: "flush_prefix a f b = (Some (), b\<lparr>bb_buf := ?buf\<rparr>)"
    using f n store_be_eq [OF cap, of n]
    by (simp add: flush_prefix_def Let_def store_length_def div_eq_0_iff)
  have "take (bb_len b) ?buf =
      take (fr_offset f) (written b) @ be_bytes k n @ drop (fr_offset f + k) (written b)"
    using start ok k by (cases "k = 0") (auto simp: mem_write_def written_def buffer_ok_def drop_take min_def)
  then show ?thesis
    unfolding r using ok cap by (simp add: buffer_ok_def written_def)
qed

lemma cbb_add_length_prefixed_cases:
  assumes top: "CBB_top d s" and k: "k \<le> 3"
  shows "case cbb_add_length_prefixed a d k s of
      (None, _) \<Rightarrow> \<not> fits a s (length [] + k) | (Some _, s1) \<Rightarrow> opens d [] k False s s1"
proof -
  let ?op = "\<lambda>s. cbb_bind (CBB_flush a d s) (\<lambda>_. on_base (\<lambda>b.
    cbb_bind (cbb_buffer_add a (length (replicate k (0 :: u8))) b) (\<lambda>pos b'.
      (Some pos, b'\<lparr>bb_buf := mem_write pos (replicate k 0) (bb_buf b')\<rparr>))))"
  obtain b where b: "cbb_base s = Some b" "buffer_ok b"
    using top by (auto simp: CBB_top_def CBB_wf_def)
  have ks: "length (replicate k (0 :: u8)) < SIZE_LIMIT" using k by simp
  have eq: "cbb_add_length_prefixed a d k s =
      cbb_bind (?op s) (\<lambda>offset s2. (Some (), push_child d offset k False s2))"
    by (simp add: cbb_add_length_prefixed_def CBB_flush_top [OF top])
  show ?thesis
  proof (cases "cbb_buffer_add a (length (replicate k (0 :: u8))) b")
    case (Pair r b')
    show ?thesis
    proof (cases r)
      case None
      then have "\<not> room a b k" using cbb_buffer_add_None [OF b(2) ks] Pair by simp
      then show ?thesis
        unfolding eq using Pair None b by (simp add: CBB_flush_top [OF top] on_base_def fits_def)
    next
      case (Some pos)
      then have "pos = bb_len b" using cbb_buffer_add_Some(1) [OF b(2) ks] Pair by blast
      then show ?thesis
        unfolding eq using Pair Some b buffer_append [OF b(2) ks Pair [unfolded Some]]
        by (auto simp: CBB_flush_top [OF top] on_base_def opens_def grows_def
            intro!: exI [of _ "s\<lparr>cbb_base := Some (b'\<lparr>bb_buf := mem_write (bb_len b) (replicate k 0) (bb_buf b')\<rparr>)\<rparr>"])
    qed
  qed
qed

lemma prefixed_block:
  assumes k: "1 \<le> k" "k \<le> 3"
  shows "block a d (cbb_add_length_prefixed a d k) [] k False (\<lambda>n. be_bytes k n) (256 ^ k - 1)"
proof unfold_locales
  show "case cbb_add_length_prefixed a d k s of
      (None, _) \<Rightarrow> \<not> fits a s (length [] + k) | (Some _, s1) \<Rightarrow> opens d [] k False s s1"
    if "CBB_top d s" for s
    using that k(2) by (rule cbb_add_length_prefixed_cases)
  fix b n and f :: cbb_frame
  assume "buffer_ok b" "fr_pending_is_asn1 f = False" "fr_pending_len_len f = k"
    "fr_offset f + k \<le> bb_len b" "n = bb_len b - (fr_offset f + k)" "n \<le> 256 ^ k - 1"
  moreover from this(6) have "n < 256 ^ k" using zero_less_power [of "256 :: nat" k] by linarith
  ultimately obtain b' where "flush_prefix a f b = (Some (), b') \<and> buffer_ok b' \<and> bb_cap b' = bb_cap b \<and>
    bb_can_resize b' = bb_can_resize b \<and>
    written b' = take (fr_offset f) (written b) @ be_bytes k n @ drop (fr_offset f + k) (written b)"
    using flush_prefix_plain [of b f k n a] by blast
  then show "case flush_prefix a f b of
        (None, _) \<Rightarrow> \<not> room a b (length (be_bytes k n) - k)
      | (Some _, b') \<Rightarrow> buffer_ok b' \<and> bb_cap b \<le> bb_cap b' \<and> bb_can_resize b' = bb_can_resize b \<and>
          (bb_can_resize b \<or> bb_cap b' = bb_cap b) \<and>
          written b' = take (fr_offset f) (written b) @ be_bytes k n @ drop (fr_offset f + k) (written b)"
    by simp
qed (use k in simp_all)

interpretation u8_child: block a d "CBB_add_u8_length_prefixed a d" "[]" 1 False "\<lambda>n. be_bytes 1 n"
  "256 ^ 1 - 1" for a d
  unfolding CBB_add_u8_length_prefixed_def by (rule prefixed_block) simp_all

interpretation u16_child: block a d "CBB_add_u16_length_prefixed a d" "[]" 2 False "\<lambda>n. be_bytes 2 n"
  "256 ^ 2 - 1" for a d
  unfolding CBB_add_u16_length_prefixed_def by (rule prefixed_block) simp_all

interpretation u24_child: block a d "CBB_add_u24_length_prefixed a d" "[]" 3 False "\<lambda>n. be_bytes 3 n"
  "256 ^ 3 - 1" for a d
  unfolding CBB_add_u24_length_prefixed_def by (rule prefixed_block) simp_all

section \<open>ASN.1 values\<close>

text \<open>The minimal two's complement contents octets of an INTEGER.\<close>

definition uint_octets :: "nat \<Rightarrow> u8 list" where
  "uint_octets n =
     (let bs = dropWhile (\<lambda>b. b = 0) (be_bytes 8 n)
      in if bs = [] then [0] else if hd bs AND 0x80 \<noteq> 0 then 0 # bs else bs)"

lemma be_bytes_Suc_front: "be_bytes (Suc k) v = of_nat (v div 256 ^ k) # be_bytes k v"
  by (induction k arbitrary: v) (simp_all add: div_mult2_eq)

lemma ucast_byte_at:
  "ucast (drop_bit (8 * k) (v :: u64) AND 0xff) = (of_nat (unat v div 256 ^ k) :: u8)"
proof (rule word_eq_of_natI [of _ "unat v div 256 ^ k mod 256", THEN trans])
  have "(2 :: nat) ^ (8 * k) = 256 ^ k" by (simp add: power_mult)
  then show "unat (ucast (drop_bit (8 * k) v AND 0xff) :: u8) = unat v div 256 ^ k mod 256"
    using unat_and_mask [of "drop_bit (8 * k) v" 8]
    by (simp add: unat_ucast_u8 unat_drop_bit mask_eq_exp_minus_1)
qed (simp add: word_unat_eq_iff)

lemma add_asn1_uint64_loop_started:
  "emits a (add_asn1_uint64_loop a d v True k) d (be_bytes k (unat v)) True"
proof (induction k)
  case (Suc k)
  let ?b = "of_nat (unat v div 256 ^ k) :: u8"
  have "emits a (\<lambda>s. cbb_bind (CBB_add_u8 a d ?b s) (\<lambda>_. add_asn1_uint64_loop a d v True k)) d
      ([?b] @ be_bytes k (unat v)) True"
    by (rule emits_bind [OF emits_CBB_add_u8 Suc])
  then show ?case
    unfolding be_bytes_Suc_front add_asn1_uint64_loop.simps Let_def ucast_byte_at by simp
qed simp

lemma emits_add_asn1_uint64_loop:
  "emits a (add_asn1_uint64_loop a d v False k) d
     (let bs = dropWhile (\<lambda>b. b = 0) (be_bytes k (unat v))
      in if bs = [] then [] else if hd bs AND 0x80 \<noteq> 0 then 0 # bs else bs)
     (dropWhile (\<lambda>b. b = 0) (be_bytes k (unat v)) \<noteq> [])"
proof (induction k)
  case (Suc k)
  let ?b = "of_nat (unat v div 256 ^ k) :: u8"
  show ?case
  proof (cases "?b = 0")
    case True
    then have "add_asn1_uint64_loop a d v False (Suc k) = add_asn1_uint64_loop a d v False k"
      by (intro ext) (simp add: Let_def ucast_byte_at)
    with Suc True show ?thesis by (simp add: be_bytes_Suc_front del: be_bytes.simps)
  next
    case False
    let ?pad = "if ?b AND 0x80 \<noteq> 0 then [0] else []"
    have rest: "emits a (\<lambda>s. cbb_bind (CBB_add_u8 a d ?b s) (\<lambda>_. add_asn1_uint64_loop a d v True k)) d
        ([?b] @ be_bytes k (unat v)) True"
      by (rule emits_bind [OF emits_CBB_add_u8 add_asn1_uint64_loop_started])
    have "emits a (\<lambda>s. if ?b AND 0x80 \<noteq> 0 then CBB_add_u8 a d 0 s else (Some (), s)) d ?pad ()"
      by (cases "?b AND 0x80 = 0") simp_all
    note pad = this
    have "emits a (\<lambda>s. cbb_bind (if ?b AND 0x80 \<noteq> 0 then CBB_add_u8 a d 0 s else (Some (), s))
        (\<lambda>_ s. cbb_bind (CBB_add_u8 a d ?b s) (\<lambda>_. add_asn1_uint64_loop a d v True k))) d
        (?pad @ [?b] @ be_bytes k (unat v)) True"
      by (rule emits_bind [OF pad rest])
    moreover have "add_asn1_uint64_loop a d v False (Suc k) =
        (\<lambda>s. cbb_bind (if ?b AND 0x80 \<noteq> 0 then CBB_add_u8 a d 0 s else (Some (), s))
        (\<lambda>_ s. cbb_bind (CBB_add_u8 a d ?b s) (\<lambda>_. add_asn1_uint64_loop a d v True k)))"
      using False by (intro ext) (simp add: Let_def ucast_byte_at)
    ultimately show ?thesis using False
      by (simp add: be_bytes_Suc_front del: be_bytes.simps add_asn1_uint64_loop.simps split: if_splits)
  qed
qed simp

lemma length_uint_octets: "length (uint_octets n) \<le> 9"
  using length_dropWhile_le [of "\<lambda>b. b = 0" "be_bytes 8 n"] by (simp add: uint_octets_def Let_def)

lemma emits_CBB_add_asn1_uint64:
  "emits a (CBB_add_asn1_uint64 a d v) d (der_element (CBS_ASN1_INTEGER, uint_octets (unat v))) ()"
proof -
  let ?bs = "dropWhile (\<lambda>b. b = 0) (be_bytes 8 (unat v))"
  let ?body = "\<lambda>s. cbb_bind (add_asn1_uint64_loop a (d + 1) v False 8 s) (\<lambda>started s2.
     if \<not> started then CBB_add_u8 a (d + 1) 0 s2 else (Some (), s2))"
  have "emits a ?body (d + 1) ((if ?bs = [] then [] else if hd ?bs AND 0x80 \<noteq> 0 then 0 # ?bs else ?bs)
      @ (if ?bs = [] then [0] else [])) ()"
  proof (rule emits_bind [OF emits_add_asn1_uint64_loop [unfolded Let_def]])
    show "emits a (\<lambda>s2. if \<not> ?bs \<noteq> [] then CBB_add_u8 a (d + 1) 0 s2 else (Some (), s2)) (d + 1)
        (if ?bs = [] then [0] else []) ()"
      by (cases "?bs = []") (simp_all del: dropWhile_eq_Nil_conv)
  qed
  then have "emits a ?body (d + 1) (uint_octets (unat v)) ()"
    by (cases "?bs = []") (simp_all add: uint_octets_def Let_def del: dropWhile_eq_Nil_conv)
  then have "emits a (asn1_block a d CBS_ASN1_INTEGER ?body) d
      (der_element (CBS_ASN1_INTEGER, uint_octets (unat v))) ()"
    by (rule emits_asn1_block) (use length_uint_octets [of "unat v"] in simp)
  moreover have "asn1_block a d CBS_ASN1_INTEGER ?body = CBB_add_asn1_uint64 a d v"
    by (intro ext)
      (simp add: asn1_block_def CBB_add_asn1_uint64_def cbb_bind_def split: prod.split option.split)
  ultimately show ?thesis by simp
qed

lemma emits_CBB_add_asn1_octet_string:
  assumes "length data \<le> 0xfffffffe"
  shows "emits a (CBB_add_asn1_octet_string a d data) d (der_element (CBS_ASN1_OCTETSTRING, data)) ()"
proof -
  have "emits a (asn1_block a d CBS_ASN1_OCTETSTRING (CBB_add_bytes a (d + 1) data)) d
      (der_element (CBS_ASN1_OCTETSTRING, data)) ()"
    by (rule emits_asn1_block [OF emits_CBB_add_bytes assms]) (use assms in simp)
  then show ?thesis unfolding asn1_block_def CBB_add_asn1_octet_string_def .
qed

lemma emits_CBB_add_asn1_bool:
  "emits a (CBB_add_asn1_bool a d v) d (der_element (CBS_ASN1_BOOLEAN, [if v then 0xff else 0])) ()"
proof -
  have "emits a (asn1_block a d CBS_ASN1_BOOLEAN (CBB_add_u8 a (d + 1) (if v then 0xff else 0))) d
      (der_element (CBS_ASN1_BOOLEAN, [if v then 0xff else 0])) ()"
    by (rule emits_asn1_block [OF emits_CBB_add_u8]) simp
  then show ?thesis unfolding asn1_block_def CBB_add_asn1_bool_def .
qed

end
