(* ===== verification/Bytestring_Asn1.thy ===== *)
theory Bytestring_Asn1
  imports Bytestring_Emit
begin

text \<open>
  The typed ASN.1 readers of \<^verbatim>\<open>cbs.c\<close> against the writers of \<^verbatim>\<open>cbb.c\<close>: INTEGER as an
  unsigned 64-bit value, BOOLEAN and OCTET STRING, each reader shown to accept exactly what
  the writer produces.
\<close>

section \<open>Elements of a given tag\<close>

lemma CBS_skip_eq: "CBS_skip n c = (if cbs_len c < n then (None, c) else (Some (), cbs_drop n c))"
  by (simp add: CBS_skip_def cbs_get_eq)

lemma CBS_get_asn1_iff:
  assumes "CBS_wf c"
  shows "CBS_get_asn1 tag c = (Some r, c') \<longleftrightarrow>
    (\<exists>e. CBS_get_any_asn1_element c = (Some e, c') \<and> el_tag e = tag
       \<and> r = cbs_drop (el_header_len e) (el_out e))"
proof -
  have "el_header_len e \<le> cbs_len (el_out e)" if "CBS_get_any_asn1_element c = (Some e, c1)" for e c1
    using cbs_get_any_asn1_element_window [OF assms that [unfolded CBS_get_any_asn1_element_def]]
    by simp
  then show ?thesis
    unfolding CBS_get_asn1_def cbs_get_asn1_def cbs_bind_eq_Some CBS_skip_eq
    by (auto split: if_splits) (metis not_less)+
qed

interpretation asn1: codec "CBS_get_asn1 tag" cbs_bytes "\<lambda>body. der_element (tag, body)"
  "\<lambda>body. length body < 4294967296" for tag
proof unfold_locales
  fix body c c' assume b: "length body < 4294967296" and con: "consumes c (der_element (tag, body)) c'"
  obtain e where e: "CBS_get_any_asn1_element c = (Some e, c')" "element_view e = (tag, body)"
    using der_element_complete [OF b con] by blast
  then show "\<exists>r. CBS_get_asn1 tag c = (Some r, c') \<and> cbs_bytes r = body"
    using consumesD(1) [OF con] by (auto simp: CBS_get_asn1_iff element_view_def)
next
  fix c r c' assume wf: "CBS_wf c" and g: "CBS_get_asn1 tag c = (Some r, c')"
  then obtain e where e: "CBS_get_any_asn1_element c = (Some e, c')" "el_tag e = tag"
      "r = cbs_drop (el_header_len e) (el_out e)"
    by (auto simp: CBS_get_asn1_iff)
  then have "element_view e = (tag, cbs_bytes r)" by (simp add: element_view_def)
  with der_element_sound [OF wf e(1)]
  show "length (cbs_bytes r) < 4294967296 \<and> consumes c (der_element (tag, cbs_bytes r)) c'" by simp
qed

lemma CBS_get_asn1_wf:
  assumes "CBS_wf c" and "CBS_get_asn1 tag c = (Some r, c')"
  shows "CBS_wf r"
proof -
  obtain e where e: "CBS_get_any_asn1_element c = (Some e, c')" "r = cbs_drop (el_header_len e) (el_out e)"
    using assms by (auto simp: CBS_get_asn1_iff)
  then show ?thesis
    using cbs_get_any_asn1_element_window(1) [OF assms(1) e(1) [unfolded CBS_get_any_asn1_element_def]]
    by simp
qed

text \<open>A reader that takes an element of a fixed tag and interprets its contents.\<close>

lemma asn1_value_codec:
  assumes get: "\<And>c. get c = cbs_bind (CBS_get_asn1 tag c) (\<lambda>r c'. (f r, c'))"
    and f: "\<And>r v. CBS_wf r \<Longrightarrow> f r = Some v \<longleftrightarrow> ok v \<and> cbs_bytes r = enc v"
    and short: "\<And>v. ok v \<Longrightarrow> length (enc v) < 4294967296"
  shows "codec get (\<lambda>v. v) (\<lambda>v. der_element (tag, enc v)) ok"
proof unfold_locales
  fix v c c' assume v: "ok v" and con: "consumes c (der_element (tag, enc v)) c'"
  obtain r where r: "CBS_get_asn1 tag c = (Some r, c')" "cbs_bytes r = enc v"
    using asn1.complete [OF short [OF v] con] by blast
  have "CBS_wf r" by (rule CBS_get_asn1_wf [OF consumesD(1) [OF con] r(1)])
  with f v r show "\<exists>x. get c = (Some x, c') \<and> x = v" by (simp add: get)
next
  fix c v c' assume wf: "CBS_wf c" and g: "get c = (Some v, c')"
  then obtain r where r: "CBS_get_asn1 tag c = (Some r, c')" "f r = Some v"
    by (auto simp: get cbs_bind_eq_Some)
  have "CBS_wf r" by (rule CBS_get_asn1_wf [OF wf r(1)])
  with f r have "ok v" "cbs_bytes r = enc v" by auto
  with asn1.sound [OF wf r(1)] show "ok v \<and> consumes c (der_element (tag, enc v)) c'" by simp
qed

section \<open>Unsigned integers\<close>

definition unsigned_octets :: "u8 list \<Rightarrow> bool" where
  "unsigned_octets bs \<longleftrightarrow>
     (case bs of
        [] \<Rightarrow> False
      | b # bs' \<Rightarrow> unat b < 128 \<and> (b = 0 \<longrightarrow> (case bs' of [] \<Rightarrow> True | b' # _ \<Rightarrow> 128 \<le> unat b')))"

lemma CBS_is_unsigned_asn1_integer_iff:
  assumes "CBS_wf c"
  shows "CBS_is_unsigned_asn1_integer c \<longleftrightarrow> unsigned_octets (cbs_bytes c)"
proof -
  have w: "CBS_wf (cbs_drop (Suc 0) c)" using assms by simp
  have ff: "\<not> unat b < 128" if "b = 255" for b :: u8 using that by simp
  show ?thesis
    unfolding CBS_is_unsigned_asn1_integer_def CBS_is_valid_asn1_integer_def
      CBS_get_u8_window [OF assms]
    by (cases "cbs_bytes c"; cases "tl (cbs_bytes c)")
      (auto simp: unsigned_octets_def CBS_get_u8_window [OF w] high_bit_clear_iff not_less
         Let_def unsigned_eq_0_iff dest: ff split: if_splits)
qed

lemma dropWhile_be_bytes:
  assumes "be_val bs < 256 ^ 8"
  shows "dropWhile (\<lambda>b. b = 0) (be_bytes 8 (be_val bs)) = dropWhile (\<lambda>b. b = 0) bs"
proof -
  let ?cs = "dropWhile (\<lambda>b. b = 0) bs"
  have hd: "?cs \<noteq> [] \<Longrightarrow> hd ?cs \<noteq> 0" using hd_dropWhile [of "\<lambda>b. b = 0" bs] by blast
  have "length ?cs \<le> 8"
  proof (rule ccontr)
    assume "\<not> length ?cs \<le> 8"
    then have l: "8 \<le> length ?cs - 1" "?cs \<noteq> []"
      by (auto simp del: dropWhile_eq_Nil_conv)
    have "(256 :: nat) ^ 8 \<le> 256 ^ (length ?cs - 1)" using l(1) by (rule power_increasing) simp
    also have "\<dots> \<le> be_val ?cs" using l(2) hd by (intro be_val_lower) blast+
    finally show False using assms by (simp add: be_val_dropWhile_0)
  qed
  then have "replicate (8 - length ?cs) 0 @ ?cs = be_bytes 8 (be_val bs)"
    by (intro be_bytes_unique) (simp_all add: be_val_replicate_0 be_val_dropWhile_0)
  moreover have "dropWhile (\<lambda>b. b = 0) (replicate k 0 @ ?cs) = ?cs" for k
    by (induction k) simp_all
  ultimately show ?thesis by metis
qed

lemma uint_octets_unique:
  assumes "unsigned_octets bs" and "be_val bs < 256 ^ 8"
  shows "uint_octets (be_val bs) = bs"
proof (cases bs)
  case (Cons b bs')
  show ?thesis
  proof (cases "b = 0")
    case False
    then have "dropWhile (\<lambda>b. b = 0) bs = bs" by (simp add: Cons)
    then show ?thesis
      using assms Cons unfolding uint_octets_def dropWhile_be_bytes [OF assms(2)]
      by (simp add: unsigned_octets_def high_bit_clear_iff)
  next
    case True
    show ?thesis
    proof (cases bs')
      case Nil
      then show ?thesis using True Cons unfolding uint_octets_def dropWhile_be_bytes [OF assms(2)] by simp
    next
      case (Cons b' r)
      with assms(1) \<open>bs = b # bs'\<close> True have b': "128 \<le> unat b'" by (simp add: unsigned_octets_def)
      then have "b' \<noteq> 0" by (auto simp: word_unat_eq_iff)
      then have "dropWhile (\<lambda>b. b = 0) bs = bs'" using \<open>bs = b # bs'\<close> True Cons by simp
      then show ?thesis
        using b' Cons \<open>bs = b # bs'\<close> True unfolding uint_octets_def dropWhile_be_bytes [OF assms(2)]
        by (simp add: high_bit_clear_iff)
    qed
  qed
qed (use assms in \<open>simp add: unsigned_octets_def\<close>)

lemma uint_octets_unsigned: "unsigned_octets (uint_octets n)"
proof -
  let ?bs = "dropWhile (\<lambda>b. b = 0) (be_bytes 8 n)"
  show ?thesis
  proof (cases ?bs)
    case (Cons b r)
    have "b \<noteq> 0" using hd_dropWhile [of "\<lambda>b. b = 0" "be_bytes 8 n"] Cons by (metis list.distinct(1) list.sel(1))
    with Cons show ?thesis
      by (auto simp: uint_octets_def unsigned_octets_def high_bit_clear_iff not_less Let_def)
  qed (simp add: uint_octets_def unsigned_octets_def)
qed

lemma be_val_uint_octets: "n < 256 ^ 8 \<Longrightarrow> be_val (uint_octets n) = n"
  using be_val_dropWhile_0 [of "be_bytes 8 n"] be_val_be_bytes [of 8 n]
  by (auto simp: uint_octets_def Let_def simp del: dropWhile_eq_Nil_conv)

lemma asn1_uint64_loop_eq:
  "asn1_uint64_loop v bs =
     (let n = unat v * 256 ^ length bs + be_val bs in if n < 2 ^ 64 then Some (of_nat n) else None)"
proof (induction bs arbitrary: v)
  case Nil
  then show ?case using unat_u64_less [of v] by simp
next
  case (Cons b bs)
  have d: "drop_bit 56 v = 0 \<longleftrightarrow> unat v < 2 ^ 56"
  proof -
    have "drop_bit 56 v = 0 \<longleftrightarrow> unat v div 2 ^ 56 = 0" by (metis unat_drop_bit unsigned_eq_0_iff)
    then show ?thesis by (simp add: div_eq_0_iff)
  qed
  show ?case
  proof (cases "unat v < 2 ^ 56")
    case True
    have "unat (push_bit 8 v OR ucast b) = unat v * 2 ^ 8 + unat (ucast b :: u64)"
      by (rule unat_push_or) (use True in \<open>simp_all add: unat_ucast_up\<close>)
    then have u: "unat (push_bit 8 v OR ucast b) = unat v * 256 + unat b" by (simp add: unat_ucast_up)
    have "(unat v * 256 + unat b) * 256 ^ length bs + be_val bs =
        unat v * (256 * 256 ^ length bs) + (unat b * 256 ^ length bs + be_val bs)"
      by (simp add: algebra_simps)
    then show ?thesis using Cons [of "push_bit 8 v OR ucast b"] True d
      by (simp add: u Let_def add.assoc del: of_nat_add of_nat_mult)
  next
    case False
    then have "2 ^ 56 \<le> unat v" by simp
    moreover have "(1 :: nat) \<le> 256 ^ length bs" by simp
    ultimately have "2 ^ 56 * (256 * 1) \<le> unat v * (256 * 256 ^ length bs)"
      by (intro mult_le_mono) simp_all
    then show ?thesis using False d by (simp add: Let_def)
  qed
qed

lemma asn1_uint64_contents:
  assumes "CBS_wf r"
  shows "(if \<not> CBS_is_unsigned_asn1_integer r then None
      else asn1_uint64_loop 0 (take (CBS_len r) (CBS_data r))) = Some v
    \<longleftrightarrow> cbs_bytes r = uint_octets (unat v)" (is "?L = Some v \<longleftrightarrow> ?R")
proof -
  have t: "take (CBS_len r) (CBS_data r) = cbs_bytes r"
    by (simp add: CBS_len_def CBS_data_def cbs_bytes_def)
  let ?n = "be_val (cbs_bytes r)"
  have L: "?L = (if unsigned_octets (cbs_bytes r) \<and> ?n < 2 ^ 64 then Some (of_nat ?n) else None)"
    unfolding CBS_is_unsigned_asn1_integer_iff [OF assms] t asn1_uint64_loop_eq by simp
  show ?thesis
  proof
    assume "?L = Some v"
    then have u: "unsigned_octets (cbs_bytes r)" "?n < 2 ^ 64" "v = of_nat ?n"
      unfolding L by (auto split: if_splits)
    then have "unat v = ?n" by (simp add: unat_of_nat_eq)
    then show ?R using uint_octets_unique [OF u(1)] u(2) by simp
  next
    assume r: ?R
    have "?n = unat v" unfolding r using unat_u64_less [of v] by (intro be_val_uint_octets) simp
    then show "?L = Some v"
      unfolding L using uint_octets_unsigned [of "unat v"] r unat_u64_less [of v] by simp
  qed
qed

interpretation asn1_uint64: codec CBS_get_asn1_uint64 "\<lambda>v. v"
  "\<lambda>v. der_element (CBS_ASN1_INTEGER, uint_octets (unat v))" "\<lambda>_. True"
proof (rule asn1_value_codec)
  show "CBS_get_asn1_uint64 c = cbs_bind (CBS_get_asn1 CBS_ASN1_INTEGER c) (\<lambda>r c'.
      (if \<not> CBS_is_unsigned_asn1_integer r then None
       else asn1_uint64_loop 0 (take (CBS_len r) (CBS_data r)), c'))" for c
    unfolding CBS_get_asn1_uint64_def by (rule arg_cong [of _ _ "cbs_bind _"]) (intro ext, simp)
  show "((if \<not> CBS_is_unsigned_asn1_integer r then None
       else asn1_uint64_loop 0 (take (CBS_len r) (CBS_data r))) = Some v) =
      (True \<and> cbs_bytes r = uint_octets (unat v))" if "CBS_wf r" for r v
    using asn1_uint64_contents [OF that, of v] by simp
  show "length (uint_octets (unat v)) < 4294967296" for v :: u64
    using length_uint_octets [of "unat v"] by simp
qed

section \<open>Booleans\<close>

interpretation asn1_bool: codec CBS_get_asn1_bool "\<lambda>v. v"
  "\<lambda>v. der_element (CBS_ASN1_BOOLEAN, [if v then 0xff else 0])" "\<lambda>_. True"
proof (rule asn1_value_codec)
  let ?f = "\<lambda>r. if CBS_len r \<noteq> 1 then None
     else if hd (CBS_data r) \<noteq> 0 \<and> hd (CBS_data r) \<noteq> 0xff then None else Some (hd (CBS_data r) \<noteq> 0)"
  show "CBS_get_asn1_bool c = cbs_bind (CBS_get_asn1 CBS_ASN1_BOOLEAN c) (\<lambda>r c'. (?f r, c'))" for c
    unfolding CBS_get_asn1_bool_def by (rule arg_cong [of _ _ "cbs_bind _"]) (intro ext, simp add: Let_def)
  show "(?f r = Some v) = (True \<and> cbs_bytes r = [if v then 0xff else 0])" if "CBS_wf r" for r v
    using that by (cases "cbs_data r"; cases "cbs_len r")
      (auto simp: CBS_len_def CBS_data_def cbs_bytes_def CBS_wf_def)
qed simp

section \<open>Length-prefixed blocks\<close>

lemma prefixed_codec:
  assumes "k \<le> 8"
  shows "codec (cbs_get_length_prefixed k) cbs_bytes (\<lambda>bs. be_bytes k (length bs) @ bs)
    (\<lambda>bs. length bs < 256 ^ k \<and> length bs < SIZE_LIMIT)"
proof unfold_locales
  fix bs c c'
  assume ok: "length bs < 256 ^ k \<and> length bs < SIZE_LIMIT"
    and con: "consumes c (be_bytes k (length bs) @ bs) c'"
  let ?v = "of_nat (length bs) :: u64" and ?c1 = "cbs_drop (length (be_bytes k (length bs))) c"
  have v: "unat ?v = length bs" using ok by (simp add: unat_of_nat_eq)
  have c1: "consumes c (be_bytes k (unat ?v)) ?c1" "consumes ?c1 bs c'"
    using consumes_append [OF con] by (simp_all only: v)
  have "cbs_get_u k c = (Some ?v, ?c1)" using assms _ c1(1) by (rule cbs_get_u_complete) (simp add: v ok)
  moreover obtain out where "CBS_get_bytes (length bs) ?c1 = (Some out, c')" "cbs_bytes out = bs"
    using CBS_get_bytes_complete [OF c1(2)] by blast
  ultimately show "\<exists>r. cbs_get_length_prefixed k c = (Some r, c') \<and> cbs_bytes r = bs"
    unfolding cbs_get_length_prefixed_def by (simp only: cbs_bind_Some v) blast
next
  fix c r c' assume wf: "CBS_wf c" and "cbs_get_length_prefixed k c = (Some r, c')"
  then obtain v c1 where g: "cbs_get_u k c = (Some v, c1)" "CBS_get_bytes (unat v) c1 = (Some r, c')"
    by (auto simp: cbs_get_length_prefixed_def cbs_bind_eq_Some)
  note u = cbs_get_u_sound [OF assms wf g(1)]
  have wf1: "CBS_wf c1" using u consumesD(2) by blast
  note b = CBS_get_bytes_sound [OF wf1 g(2)]
  have l: "length (cbs_bytes r) = unat v" using b(1,3) by simp
  show "(length (cbs_bytes r) < 256 ^ k \<and> length (cbs_bytes r) < SIZE_LIMIT) \<and>
      consumes c (be_bytes k (length (cbs_bytes r)) @ cbs_bytes r) c'"
    unfolding l using u unat_u64_less [of v] consumes_trans [OF conjunct2 [OF u] b(2)] by simp
qed

interpretation u8_prefixed: codec CBS_get_u8_length_prefixed cbs_bytes
  "\<lambda>bs. be_bytes 1 (length bs) @ bs" "\<lambda>bs. length bs < 256 ^ 1 \<and> length bs < SIZE_LIMIT"
  unfolding CBS_get_u8_length_prefixed_def by (rule prefixed_codec) simp

interpretation u16_prefixed: codec CBS_get_u16_length_prefixed cbs_bytes
  "\<lambda>bs. be_bytes 2 (length bs) @ bs" "\<lambda>bs. length bs < 256 ^ 2 \<and> length bs < SIZE_LIMIT"
  unfolding CBS_get_u16_length_prefixed_def by (rule prefixed_codec) simp

interpretation u24_prefixed: codec CBS_get_u24_length_prefixed cbs_bytes
  "\<lambda>bs. be_bytes 3 (length bs) @ bs" "\<lambda>bs. length bs < 256 ^ 3 \<and> length bs < SIZE_LIMIT"
  unfolding CBS_get_u24_length_prefixed_def by (rule prefixed_codec) simp

end
