(* ===== verification/Bytestring_Properties.thy ===== *)
theory Bytestring_Properties
  imports Bytestring_Asn1
begin

text \<open>
  The properties of the byte-string component: what the DER reader accepts, that no reader
  leaves its window, and that a document built with the writers of \<^verbatim>\<open>cbb.c\<close> is read back
  by the readers of \<^verbatim>\<open>cbs.c\<close>.
\<close>

section \<open>Whole documents\<close>

lemma CBB_init_fixed_top:
  assumes "CBB_init_fixed a buf (length buf) = (Some (), s)" and "length buf < SIZE_LIMIT"
  shows "CBB_top 0 s" and "fits a s n \<longleftrightarrow> n \<le> length buf"
    and "cbb_base s = Some \<lparr>bb_buf = buf, bb_len = 0, bb_cap = length buf, bb_can_resize = False,
           bb_error = False\<rparr>"
proof -
  have s: "s = \<lparr>cbb_base = Some \<lparr>bb_buf = buf, bb_len = 0, bb_cap = length buf,
      bb_can_resize = False, bb_error = False\<rparr>, cbb_chain = [zero_frame]\<rparr>"
    using assms(1)
    by (auto simp: CBB_init_fixed_def cbb_init_def CBB_zero_def zero_frame_def cbb_bind_Some
        split: option.splits)
  show "CBB_top 0 s"
    using assms(2) by (simp add: s CBB_top_def CBB_wf_def buffer_ok_def chain_ok_def zero_frame_def)
  show "fits a s n \<longleftrightarrow> n \<le> length buf" by (simp add: s fits_def room_def)
  show "cbb_base s = Some \<lparr>bb_buf = buf, bb_len = 0, bb_cap = length buf, bb_can_resize = False,
      bb_error = False\<rparr>" by (simp add: s)
qed

lemma CBB_finish_top:
  assumes "CBB_top 0 s" and "cbb_base s = Some b"
  shows "\<exists>s'. CBB_finish a False 0 s = (Some (bb_buf b, bb_len b), s')"
  using assms by (simp add: CBB_finish_def CBB_flush_top)

text \<open>A builder program run on a fixed buffer that is large enough, up to \<open>CBB_finish\<close>.\<close>

lemma document:
  assumes em: "emits a op 0 bs x" and init: "CBB_init_fixed a buf (length buf) = (Some (), s)"
    and lim: "length buf < SIZE_LIMIT" and len: "length bs \<le> length buf"
  obtains s1 data s2 where "op s = (Some x, s1)"
    and "CBB_finish a False 0 s1 = (Some (data, length bs), s2)" and "take (length bs) data = bs"
    and "length data = length buf"
proof -
  note I = CBB_init_fixed_top [OF init lim]
  have "fits a s (length bs)" using I(2) len by simp
  then obtain s1 where s1: "op s = (Some x, s1)" "grows s bs s1" "CBB_top 0 s1"
    by (rule emits_succeeds [OF em I(1)])
  obtain b b' where b: "cbb_base s = Some b" "cbb_base s1 = Some b'" "buffer_grows b bs b'"
    using s1(2) by (auto simp: grows_def)
  have w: "written b' = bs" "buffer_ok b'" "length (bb_buf b') = length buf"
    using b I(3) by (auto simp: buffer_grows_def written_def buffer_ok_def)
  have "bb_len b' = length bs" using length_written [OF w(2)] w(1) by simp
  moreover obtain s2 where "CBB_finish a False 0 s1 = (Some (bb_buf b', bb_len b'), s2)"
    using CBB_finish_top [OF s1(3) b(2)] by blast
  ultimately show thesis using that [OF s1(1)] w(1,3) by (simp add: written_def)
qed

section \<open>Properties\<close>

text \<open>
  C1. The DER reader is canonical: \<open>CBS_get_any_asn1_element\<close> succeeds with the tag \<open>tag\<close> and
  the contents \<open>body\<close> exactly when the window starts with the one DER encoding of that element,
  and it leaves the reader right behind it. In particular indefinite lengths, long-form
  lengths that are not minimal and tag numbers in a non-minimal form are all rejected.
\<close>

theorem der_reader_canonical:
  assumes "CBS_wf c"
  shows "(\<exists>e. CBS_get_any_asn1_element c = (Some e, c') \<and> element_view e = (tag, body)) \<longleftrightarrow>
    length body < 2 ^ 32 \<and> cbs_bytes c = der_element (tag, body) @ cbs_bytes c' \<and>
    c' = cbs_drop (length (der_element (tag, body))) c"
  using der.get_iff [OF assms] by simp

theorem der_reader_canonical_witness:
  "(\<exists>e. CBS_get_any_asn1_element (CBS_init [0x04, 0x02, 7, 8, 9] 5) = (Some e, CBS_init [9] 1)
     \<and> element_view e = (CBS_ASN1_OCTETSTRING, [7, 8]))"
  by (subst der_reader_canonical)
    (simp_all add: CBS_wf_def CBS_init_def cbs_bytes_def cbs_drop_def der_element_def
      asn1_tag_bytes_def der_length_def CBS_ASN1_OCTETSTRING_def Let_def)

text \<open>
  Neither the DER nor the BER element reader leaves its window: the element returned lies
  inside the window, its header inside the element, and the reader moves past exactly the
  element.
\<close>

theorem element_reader_stays_in_window:
  assumes "CBS_wf c" and "cbs_get_any_asn1_element ber_ok c = (Some e, c')"
  shows "CBS_wf (el_out e) \<and> CBS_wf c' \<and> cbs_bytes c = cbs_bytes (el_out e) @ cbs_bytes c' \<and>
    2 \<le> el_header_len e \<and> el_header_len e \<le> cbs_len (el_out e)"
  using cbs_get_any_asn1_element_window [OF assms] consumesD(2,3) by auto

theorem element_reader_stays_in_window_witness:
  "\<exists>e c'. cbs_get_any_asn1_element True (CBS_init [0x30, 0x80, 0, 0] 4) = (Some e, c') \<and>
     cbs_bytes (el_out e) @ cbs_bytes c' = [0x30, 0x80, 0, 0]"
proof -
  have "fst (cbs_get_any_asn1_element True (CBS_init [0x30, 0x80, 0, 0] 4)) \<noteq> None"
    by code_simp
  then obtain e c' where e: "cbs_get_any_asn1_element True (CBS_init [0x30, 0x80, 0, 0] 4) = (Some e, c')"
    by (cases "cbs_get_any_asn1_element True (CBS_init [0x30, 0x80, 0, 0] 4)") auto
  with element_reader_stays_in_window [OF _ e] show ?thesis
    by (simp add: CBS_wf_def CBS_init_def cbs_bytes_def)
qed

text \<open>
  \<open>CBS_get_asn1_uint64\<close> accepts exactly the minimal contents octets of the INTEGERs from 0
  to \<open>2^64 - 1\<close>: a negative number, a superfluous leading zero and a number that does not fit
  are rejected.
\<close>

theorem asn1_uint64_canonical:
  assumes "CBS_wf c"
  shows "CBS_get_asn1_uint64 c = (Some v, c') \<longleftrightarrow>
    cbs_bytes c = der_element (CBS_ASN1_INTEGER, uint_octets (unat v)) @ cbs_bytes c' \<and>
    c' = cbs_drop (length (der_element (CBS_ASN1_INTEGER, uint_octets (unat v)))) c"
  using asn1_uint64.get_iff [OF assms, where x = v] by simp

theorem asn1_uint64_canonical_witness:
  "CBS_get_asn1_uint64 (CBS_init [2, 2, 0, 0xff] 4) = (Some 255, CBS_init [] 0)"
proof -
  have wf: "CBS_wf (CBS_init [2, 2, 0, 0xff] 4)" by code_simp
  have e: "der_element (CBS_ASN1_INTEGER, uint_octets (unat (255 :: u64))) = [2, 2, 0, 0xff]"
    by (simp add: uint_octets_def be_bytes_8 Let_def der_element_def asn1_tag_bytes_def der_length_def
        CBS_ASN1_INTEGER_def)
  show ?thesis
    unfolding asn1_uint64_canonical [OF wf] e by (simp add: CBS_init_def cbs_bytes_def cbs_drop_def)
qed

text \<open>
  A 64-bit number written with \<open>CBB_add_asn1_uint64\<close> into a fixed buffer and finished is read
  back by \<open>CBS_get_asn1_uint64\<close>, which consumes the whole output. Both succeed whenever the
  encoding fits, for every number and every buffer, and the fixed buffer keeps its size.
\<close>

theorem uint64_document_roundtrip:
  assumes "CBB_init_fixed a buf (length buf) = (Some (), s)" and "length buf < 2 ^ 64"
    and "length (der_element (CBS_ASN1_INTEGER, uint_octets (unat v))) \<le> length buf"
  shows "\<exists>s1 data n s2 c'. CBB_add_asn1_uint64 a 0 v s = (Some (), s1) \<and>
    CBB_finish a False 0 s1 = (Some (data, n), s2) \<and> length data = length buf \<and>
    CBS_get_asn1_uint64 (CBS_init data n) = (Some v, c') \<and> cbs_bytes c' = []"
proof -
  let ?bs = "der_element (CBS_ASN1_INTEGER, uint_octets (unat v))"
  obtain s1 data s2 where d: "CBB_add_asn1_uint64 a 0 v s = (Some (), s1)"
      "CBB_finish a False 0 s1 = (Some (data, length ?bs), s2)" "take (length ?bs) data = ?bs"
      "length data = length buf"
    by (rule document [OF emits_CBB_add_asn1_uint64 assms(1) _ assms(3)]) (use assms(2) in simp)
  have "CBS_wf (CBS_init data (length ?bs))" "cbs_bytes (CBS_init data (length ?bs)) = ?bs @ []"
    using d(3,4) assms(3) by (simp_all add: CBS_wf_def CBS_init_def cbs_bytes_def)
  from asn1_uint64.roundtrip [OF TrueI this] d show ?thesis by blast
qed

theorem uint64_document_roundtrip_witness:
  "\<exists>s1 data n s2 c'.
     CBB_add_asn1_uint64 \<lparr>sys_ok = \<lambda>_. True, sys_junk = \<lambda>_. 0\<rparr> 0 300
       (snd (CBB_init_fixed \<lparr>sys_ok = \<lambda>_. True, sys_junk = \<lambda>_. 0\<rparr> [0, 0, 0, 0, 0, 0] 6)) = (Some (), s1) \<and>
     CBB_finish \<lparr>sys_ok = \<lambda>_. True, sys_junk = \<lambda>_. 0\<rparr> False 0 s1 = (Some (data, n), s2) \<and> length data = 6 \<and>
     CBS_get_asn1_uint64 (CBS_init data n) = (Some 300, c') \<and> cbs_bytes c' = []"
proof -
  let ?a = "\<lparr>sys_ok = \<lambda>_. True, sys_junk = \<lambda>_. 0\<rparr>" and ?buf = "[0, 0, 0, 0, 0, 0] :: u8 list"
  have i: "CBB_init_fixed ?a ?buf (length ?buf) = (Some (), snd (CBB_init_fixed ?a ?buf (length ?buf)))"
    by (simp add: CBB_init_fixed_def cbb_init_def OPENSSL_malloc_def OPENSSL_MALLOC_PREFIX_def)
  have l: "length (der_element (CBS_ASN1_INTEGER, uint_octets (unat (300 :: u64)))) \<le> length ?buf"
    by (simp add: uint_octets_def be_bytes_8 Let_def der_element_def asn1_tag_bytes_def der_length_def
        CBS_ASN1_INTEGER_def)
  have six: "length ?buf = 6" by simp
  show ?thesis using uint64_document_roundtrip [OF i _ l] unfolding six by simp
qed

text \<open>
  C2. Nesting: an ASN.1 element opened with \<open>CBB_add_asn1\<close>, filled by any sequence of writes whose
  contract is to emit \<open>bs\<close>, and closed by the flush of its parent, appends exactly its DER
  encoding, moving the contents along when the length needs the long form; reading the element
  back with \<open>CBS_get_asn1\<close> gives a window on \<open>bs\<close> and leaves what follows.
\<close>

theorem nested_element_roundtrip:
  assumes "emits a body (d + 1) bs x" and "length bs \<le> 0xfffffffe"
    and "CBB_top d s" and "fits a s (length (der_element (tag, bs)))"
    and "CBS_wf c" and "cbs_bytes c = der_element (tag, bs) @ rest"
  shows "(\<exists>s1 s2 s3. CBB_add_asn1 a d tag s = (Some (), s1) \<and> body s1 = (Some x, s2) \<and>
      CBB_flush a d s2 = (Some (), s3) \<and> grows s (der_element (tag, bs)) s3) \<and>
    (\<exists>r c'. CBS_get_asn1 tag c = (Some r, c') \<and> cbs_bytes r = bs \<and> cbs_bytes c' = rest)"
proof
  obtain s3 where s3: "asn1_block a d tag body s = (Some (), s3)" "grows s (der_element (tag, bs)) s3"
    using emits_succeeds [OF emits_asn1_block [OF assms(1,2)] assms(3,4)] by blast
  then obtain s1 y s2 where st: "CBB_add_asn1 a d tag s = (Some (), s1)" "body s1 = (Some y, s2)"
      "CBB_flush a d s2 = (Some (), s3)"
    by (auto simp: asn1_block_def cbb_bind_Some)
  have "opens d (asn1_tag_bytes tag) 1 True s s1" using asn1_child.open_cases [OF assms(3), where a = a and tag = tag] st(1) by simp
  then have "CBB_top (d + 1) s1" by (rule opens_top [OF assms(3)]) simp_all
  then have "y = x" using emits_Some [OF assms(1) _ st(2)] by simp
  with st s3 show "\<exists>s1 s2 s3. CBB_add_asn1 a d tag s = (Some (), s1) \<and> body s1 = (Some x, s2) \<and>
      CBB_flush a d s2 = (Some (), s3) \<and> grows s (der_element (tag, bs)) s3" by blast
  have "length bs < 4294967296" using assms(2) by simp
  from asn1.roundtrip [OF this assms(5,6)]
  show "\<exists>r c'. CBS_get_asn1 tag c = (Some r, c') \<and> cbs_bytes r = bs \<and> cbs_bytes c' = rest" by blast
qed

theorem nested_element_roundtrip_witness:
  "\<exists>s1 s2 s3. CBB_add_asn1 example_alloc 0 CBS_ASN1_SEQUENCE
       (snd (CBB_init_fixed example_alloc [0, 0, 0, 0] (length [0, 0, 0, 0 :: u8]))) = (Some (), s1) \<and>
     CBB_add_u8 example_alloc 1 7 s1 = (Some (), s2) \<and> CBB_flush example_alloc 0 s2 = (Some (), s3) \<and>
     grows (snd (CBB_init_fixed example_alloc [0, 0, 0, 0] (length [0, 0, 0, 0 :: u8])))
       (der_element (CBS_ASN1_SEQUENCE, [7])) s3"
proof -
  let ?buf = "[0, 0, 0, 0] :: u8 list"
  note I = CBB_init_fixed_top [OF example_init, of ?buf]
  have e: "der_element (CBS_ASN1_SEQUENCE, [7]) = [0x30, 1, 7]"
    by (simp add: der_element_def asn1_tag_bytes_def der_length_def CBS_ASN1_SEQUENCE_def
        Let_def)
  have em: "emits example_alloc (CBB_add_u8 example_alloc (0 + 1) 7) (0 + 1) [7] ()" by simp
  have c: "CBS_wf (CBS_init [0x30, 1, 7] 3)"
    "cbs_bytes (CBS_init [0x30, 1, 7] 3) = der_element (CBS_ASN1_SEQUENCE, [7]) @ []"
    by (simp_all add: e CBS_wf_def CBS_init_def cbs_bytes_def)
  show ?thesis
    using nested_element_roundtrip [OF em _ I(1) _ c] I(2) by (simp add: e)
qed

text \<open>
  A block with a one-, two- or three-byte length prefix (the vectors of the TLS
  presentation language) is written as its length followed by its contents, and is read back by the
  matching \<open>CBS\<close> function. The prefix width \<open>k\<close> is 1, 2 or 3 and the contents have fewer than
  \<open>256^k\<close> octets.
\<close>

theorem length_prefixed_roundtrip:
  assumes "1 \<le> k" and "k \<le> 3" and "emits a body (d + 1) bs x" and "length bs < 256 ^ k"
    and "CBB_top d s" and "fits a s (k + length bs)"
    and "CBS_wf c" and "cbs_bytes c = be_bytes k (length bs) @ bs @ rest"
  shows "(\<exists>s3. cbb_bind (cbb_add_length_prefixed a d k s)
        (\<lambda>_ s1. cbb_bind (body s1) (\<lambda>_ s2. CBB_flush a d s2)) = (Some (), s3) \<and>
      grows s (be_bytes k (length bs) @ bs) s3) \<and>
    (\<exists>r c'. cbs_get_length_prefixed k c = (Some r, c') \<and> cbs_bytes r = bs \<and> cbs_bytes c' = rest)"
proof
  have n: "length bs \<le> 256 ^ k - 1" using assms(4) by linarith
  have em: "emits a (\<lambda>s. cbb_bind (cbb_add_length_prefixed a d k s)
      (\<lambda>_ s1. cbb_bind (body s1) (\<lambda>_ s2. CBB_flush a d s2))) d (be_bytes k (length bs) @ bs) ()"
    using block.emits_block [OF prefixed_block [OF assms(1,2)] assms(3) n] by simp
  show "\<exists>s3. cbb_bind (cbb_add_length_prefixed a d k s)
      (\<lambda>_ s1. cbb_bind (body s1) (\<lambda>_ s2. CBB_flush a d s2)) = (Some (), s3) \<and>
      grows s (be_bytes k (length bs) @ bs) s3"
    using emits_succeeds [OF em assms(5)] assms(6) by (metis length_append length_be_bytes)
  have "k \<le> 8" using assms(2) by simp
  note P = codec.roundtrip [OF prefixed_codec [OF this], where x = bs and c = c and rest = rest]
  have "(256 :: nat) ^ k \<le> 256 ^ 3" using assms(2) by (rule power_increasing) simp
  with assms(4) have "length bs < SIZE_LIMIT" by simp
  with P assms(4,7,8)
  show "\<exists>r c'. cbs_get_length_prefixed k c = (Some r, c') \<and> cbs_bytes r = bs \<and> cbs_bytes c' = rest"
    by fastforce
qed

theorem length_prefixed_roundtrip_witness:
  "\<exists>r c'. cbs_get_length_prefixed 2 (CBS_init [0, 1, 7, 8] 4) = (Some r, c') \<and> cbs_bytes r = [7] \<and>
     cbs_bytes c' = [8]"
proof -
  let ?buf = "[0, 0, 0, 0] :: u8 list"
  note I = CBB_init_fixed_top [OF example_init, of ?buf]
  have em: "emits example_alloc (CBB_add_u8 example_alloc (0 + 1) 7) (0 + 1) [7] ()" by simp
  have c: "CBS_wf (CBS_init [0, 1, 7, 8] 4)"
    "cbs_bytes (CBS_init [0, 1, 7, 8] 4) = be_bytes 2 (length [7 :: u8]) @ [7] @ [8]"
    by (simp_all add: CBS_wf_def CBS_init_def cbs_bytes_def numeral_2_eq_2)
  show ?thesis
    using length_prefixed_roundtrip [OF _ _ em _ I(1) _ c] I(2) by simp
qed

end
