(* ===== verification/Bytestring_Unicode.thy ===== *)
theory Bytestring_Unicode
  imports Bytestring_Emit
begin

text \<open>
  \<^verbatim>\<open>crypto/bytestring/unicode.c\<close>: readers and writers of one code point in UTF-8, Latin-1,
  UCS-2 and UTF-32. Each reader is shown to be canonical for the encoding the matching writer
  emits; for UTF-8 this excludes overlong forms, surrogates and noncharacters.
\<close>

section \<open>Operations\<close>

definition is_valid_code_point :: "u32 \<Rightarrow> bool" where
  "is_valid_code_point v \<longleftrightarrow>
     \<not> (v > 0x10ffff \<or> v AND 0xfffe = 0xfffe \<or> (v \<ge> 0xfdd0 \<and> v \<le> 0xfdef)
        \<or> (v \<ge> 0xd800 \<and> v \<le> 0xdfff))"

definition BOTTOM_BITS :: "nat \<Rightarrow> u8" where
  "BOTTOM_BITS n = ucast (push_bit n (1 :: u32) - 1)"

definition TOP_BITS :: "nat \<Rightarrow> u8" where
  "TOP_BITS n = NOT (BOTTOM_BITS (8 - n))"

fun utf8_loop :: "nat \<Rightarrow> u32 \<Rightarrow> u32 reader" where
  "utf8_loop 0 v cbs = (Some v, cbs)"
| "utf8_loop (Suc n) v cbs =
     cbs_bind (CBS_get_u8 cbs) (\<lambda>c cbs1.
       if c AND TOP_BITS 2 \<noteq> TOP_BITS 1 then (None, cbs1)
       else utf8_loop n (push_bit 6 v OR ucast (c AND BOTTOM_BITS 6)) cbs1)"

definition utf8_tail :: "nat \<Rightarrow> u32 \<Rightarrow> u32 \<Rightarrow> u32 reader" where
  "utf8_tail len v lower_bound cbs =
     cbs_bind (utf8_loop len v cbs) (\<lambda>v' cbs1.
       if \<not> is_valid_code_point v' \<or> v' < lower_bound then (None, cbs1) else (Some v', cbs1))"

definition cbs_get_utf8 :: "u32 reader" where
  "cbs_get_utf8 cbs =
     cbs_bind (CBS_get_u8 cbs) (\<lambda>c cbs1.
       if c \<le> 0x7f then (Some (ucast c), cbs1)
       else if c AND TOP_BITS 3 = TOP_BITS 2 then utf8_tail 1 (ucast (c AND BOTTOM_BITS 5)) 0x80 cbs1
       else if c AND TOP_BITS 4 = TOP_BITS 3 then utf8_tail 2 (ucast (c AND BOTTOM_BITS 4)) 0x800 cbs1
       else if c AND TOP_BITS 5 = TOP_BITS 4 then utf8_tail 3 (ucast (c AND BOTTOM_BITS 3)) 0x10000 cbs1
       else (None, cbs1))"

definition cbs_get_latin1 :: "u32 reader" where
  "cbs_get_latin1 cbs = cbs_bind (CBS_get_u8 cbs) (\<lambda>c cbs1. (Some (ucast c), cbs1))"

definition cbs_get_ucs2_be :: "u32 reader" where
  "cbs_get_ucs2_be cbs =
     cbs_bind (CBS_get_u16 cbs) (\<lambda>c cbs1.
       if \<not> is_valid_code_point (ucast c) then (None, cbs1) else (Some (ucast c), cbs1))"

definition cbs_get_utf32_be :: "u32 reader" where
  "cbs_get_utf32_be cbs =
     cbs_bind (CBS_get_u32 cbs) (\<lambda>v cbs1.
       if is_valid_code_point v then (Some v, cbs1) else (None, cbs1))"

definition cbb_get_utf8_len :: "u32 \<Rightarrow> nat" where
  "cbb_get_utf8_len u = (if u \<le> 0x7f then 1 else if u \<le> 0x7ff then 2 else if u \<le> 0xffff then 3 else 4)"

text \<open>A byte of the encoding: the marker bits and six (or fewer) bits of the code point.\<close>

definition utf8_byte :: "nat \<Rightarrow> u32 \<Rightarrow> u8" where
  "utf8_byte n bits = ucast (ucast (TOP_BITS n) OR bits)"

definition cbb_add_utf8 :: "sys_alloc \<Rightarrow> nat \<Rightarrow> u32 \<Rightarrow> unit writer" where
  "cbb_add_utf8 a d u s =
     (let B6 = ucast (BOTTOM_BITS 6) in
      if \<not> is_valid_code_point u then (None, s)
      else if u \<le> 0x7f then CBB_add_u8 a d (ucast u) s
      else if u \<le> 0x7ff then
        cbb_bind (CBB_add_u8 a d (utf8_byte 2 (drop_bit 6 u)) s) (\<lambda>_.
          CBB_add_u8 a d (utf8_byte 1 (u AND B6)))
      else if u \<le> 0xffff then
        cbb_bind (CBB_add_u8 a d (utf8_byte 3 (drop_bit 12 u)) s) (\<lambda>_ s1.
        cbb_bind (CBB_add_u8 a d (utf8_byte 1 (drop_bit 6 u AND B6)) s1) (\<lambda>_.
          CBB_add_u8 a d (utf8_byte 1 (u AND B6))))
      else if u \<le> 0x10ffff then
        cbb_bind (CBB_add_u8 a d (utf8_byte 4 (drop_bit 18 u)) s) (\<lambda>_ s1.
        cbb_bind (CBB_add_u8 a d (utf8_byte 1 (drop_bit 12 u AND B6)) s1) (\<lambda>_ s2.
        cbb_bind (CBB_add_u8 a d (utf8_byte 1 (drop_bit 6 u AND B6)) s2) (\<lambda>_.
          CBB_add_u8 a d (utf8_byte 1 (u AND B6)))))
      else (None, s))"

definition cbb_add_latin1 :: "sys_alloc \<Rightarrow> nat \<Rightarrow> u32 \<Rightarrow> unit writer" where
  "cbb_add_latin1 a d u s = (if u \<le> 0xff then CBB_add_u8 a d (ucast u) s else (None, s))"

definition cbb_add_ucs2_be :: "sys_alloc \<Rightarrow> nat \<Rightarrow> u32 \<Rightarrow> unit writer" where
  "cbb_add_ucs2_be a d u s =
     (if u \<le> 0xffff \<and> is_valid_code_point u then CBB_add_u16 a d (ucast u) s else (None, s))"

definition cbb_add_utf32_be :: "sys_alloc \<Rightarrow> nat \<Rightarrow> u32 \<Rightarrow> unit writer" where
  "cbb_add_utf32_be a d u s = (if is_valid_code_point u then CBB_add_u32 a d u s else (None, s))"

section \<open>The marker bits\<close>

lemma TOP_BITS_values:
  "TOP_BITS 1 = 0x80" "TOP_BITS 2 = 0xc0" "TOP_BITS 3 = 0xe0" "TOP_BITS 4 = 0xf0" "TOP_BITS 5 = 0xf8"
  and BOTTOM_BITS_values:
  "BOTTOM_BITS 3 = mask 3" "BOTTOM_BITS 4 = mask 4" "BOTTOM_BITS 5 = mask 5" "BOTTOM_BITS 6 = mask 6"
  by (simp_all add: TOP_BITS_def BOTTOM_BITS_def mask_eq_exp_minus_1)

lemma unat_and_high:
  assumes "k \<le> 8" and "unat (m :: u8) = (2 ^ (8 - k) - 1) * 2 ^ k"
  shows "unat ((b :: u8) AND m) = unat b div 2 ^ k * 2 ^ k"
proof -
  have m: "unat m = push_bit k (mask (8 - k))"
    using assms(2) by (simp add: push_bit_eq_mult mask_eq_exp_minus_1)
  have "(2 :: nat) ^ k * 2 ^ (8 - k) = 256" using assms(1) by (simp flip: power_add)
  then have "unat b div 2 ^ k < 2 ^ (8 - k)"
    using unat_u8_less [of b] by (metis less_mult_imp_div_less mult.commute)
  then show ?thesis by (simp add: unsigned_and_eq m nat_and_mask_shifted)
qed

lemma marker_iffs:
  fixes c :: u8
  shows "c AND TOP_BITS 2 = TOP_BITS 1 \<longleftrightarrow> unat c div 64 = 2"
    and "c AND TOP_BITS 3 = TOP_BITS 2 \<longleftrightarrow> unat c div 32 = 6"
    and "c AND TOP_BITS 4 = TOP_BITS 3 \<longleftrightarrow> unat c div 16 = 14"
    and "c AND TOP_BITS 5 = TOP_BITS 4 \<longleftrightarrow> unat c div 8 = 30"
proof -
  have "unat (c AND 0xc0) = unat c div 64 * 64" using unat_and_high [of 6 "0xc0" c] by simp
  then show "c AND TOP_BITS 2 = TOP_BITS 1 \<longleftrightarrow> unat c div 64 = 2"
    unfolding TOP_BITS_values word_unat_eq_iff by simp
  have "unat (c AND 0xe0) = unat c div 32 * 32" using unat_and_high [of 5 "0xe0" c] by simp
  then show "c AND TOP_BITS 3 = TOP_BITS 2 \<longleftrightarrow> unat c div 32 = 6"
    unfolding TOP_BITS_values word_unat_eq_iff by simp
  have "unat (c AND 0xf0) = unat c div 16 * 16" using unat_and_high [of 4 "0xf0" c] by simp
  then show "c AND TOP_BITS 4 = TOP_BITS 3 \<longleftrightarrow> unat c div 16 = 14"
    unfolding TOP_BITS_values word_unat_eq_iff by simp
  have "unat (c AND 0xf8) = unat c div 8 * 8" using unat_and_high [of 3 "0xf8" c] by simp
  then show "c AND TOP_BITS 5 = TOP_BITS 4 \<longleftrightarrow> unat c div 8 = 30"
    unfolding TOP_BITS_values word_unat_eq_iff by simp
qed

lemma unat_payload:
  "unat (ucast ((c :: u8) AND BOTTOM_BITS 3) :: u32) = unat c mod 8"
  "unat (ucast ((c :: u8) AND BOTTOM_BITS 4) :: u32) = unat c mod 16"
  "unat (ucast ((c :: u8) AND BOTTOM_BITS 5) :: u32) = unat c mod 32"
  "unat (ucast ((c :: u8) AND BOTTOM_BITS 6) :: u32) = unat c mod 64"
  by (simp_all add: BOTTOM_BITS_values unat_ucast_up unat_and_mask)

section \<open>UTF-8\<close>

primrec utf8_cont :: "nat \<Rightarrow> nat \<Rightarrow> u8 list" where
  "utf8_cont 0 v = []"
| "utf8_cont (Suc n) v = of_nat (128 + v div 64 ^ n mod 64) # utf8_cont n v"

lemma utf8_cont_forms:
  "utf8_cont 1 v = [of_nat (128 + v mod 64)]"
  "utf8_cont 2 v = [of_nat (128 + v div 64 mod 64), of_nat (128 + v mod 64)]"
  "utf8_cont 3 v = [of_nat (128 + v div 4096 mod 64), of_nat (128 + v div 64 mod 64), of_nat (128 + v mod 64)]"
  by (simp_all add: numeral_2_eq_2 numeral_3_eq_3)

definition utf8_bytes :: "nat \<Rightarrow> u8 list" where
  "utf8_bytes u =
     (if u < 0x80 then [of_nat u]
      else if u < 0x800 then of_nat (192 + u div 64) # utf8_cont 1 u
      else if u < 0x10000 then of_nat (224 + u div 64 ^ 2) # utf8_cont 2 u
      else of_nat (240 + u div 64 ^ 3) # utf8_cont 3 u)"

lemma u8_split: "unat (c :: u8) div k = q \<Longrightarrow> c = of_nat (q * k + unat c mod k)"
  by (metis div_mult_mod_eq word_eq_of_natI)

lemma unat_marker: "q * k + r < 256 \<Longrightarrow> r < k \<Longrightarrow> unat (of_nat (q * k + r) :: u8) div k = q"
  and unat_marker_mod: "q * k + r < 256 \<Longrightarrow> r < k \<Longrightarrow> unat (of_nat (q * k + r) :: u8) mod k = r"
  by (simp_all add: unat_of_nat_u8 del: of_nat_add of_nat_mult)

lemma utf8_step:
  assumes "unat v * 64 < 2 ^ 32"
  shows "unat (push_bit 6 v OR ucast ((c :: u8) AND BOTTOM_BITS 6) :: u32) = unat v * 64 + unat c mod 64"
  using unat_push_or [of "ucast (c AND BOTTOM_BITS 6) :: u32" 6 v] assms by (simp add: unat_payload)

lemma utf8_loop_complete:
  "consumes c (utf8_cont n (unat x)) c' \<Longrightarrow> unat v = unat x div 64 ^ n \<Longrightarrow> utf8_loop n v c = (Some x, c')"
proof (induction n arbitrary: v c)
  case 0
  then show ?case by (simp add: consumes_Nil word_unat_eq_iff)
next
  case (Suc n)
  let ?r = "unat x div 64 ^ n mod 64"
  let ?b = "of_nat (2 * 64 + ?r) :: u8"
  have con: "consumes c ([?b] @ utf8_cont n (unat x)) c'" using Suc.prems(1) by simp
  let ?c1 = "cbs_drop (length [?b]) c"
  have c1: "consumes c [?b] ?c1" "consumes ?c1 (utf8_cont n (unat x)) c'"
    using consumes_append [OF con] by blast+
  have r: "?r < 64" by simp
  have b: "unat ?b div 64 = 2" "unat ?b mod 64 = ?r"
    using unat_marker [OF _ r, of 2] unat_marker_mod [OF _ r, of 2] r by linarith+
  have v: "unat v * 64 + ?r = unat x div 64 ^ n"
    using Suc.prems(2) div_mult2_eq [of "unat x" "64 ^ n" 64] by (simp add: mult.commute)
  have "unat x div 64 ^ n \<le> unat x" by (rule div_le_dividend)
  then have "unat v * 64 \<le> unat x" using v by linarith
  then have "unat v * 64 < 2 ^ 32" using unat_u32_less [of x] by simp
  then have u: "unat (push_bit 6 v OR ucast (?b AND BOTTOM_BITS 6)) = unat x div 64 ^ n"
    using utf8_step [of v ?b] unfolding b(2) v by blast
  have "utf8_loop (Suc n) v c = utf8_loop n (push_bit 6 v OR ucast (?b AND BOTTOM_BITS 6)) ?c1"
    using CBS_get_u8_complete [OF c1(1)] b(1) by (simp only: utf8_loop.simps cbs_bind_Some marker_iffs) simp
  also have "\<dots> = (Some x, c')" using c1(2) u by (rule Suc.IH)
  finally show ?case .
qed

lemma utf8_loop_sound:
  "CBS_wf c \<Longrightarrow> (unat v + 1) * 64 ^ n \<le> 2 ^ 32 \<Longrightarrow> utf8_loop n v c = (Some x, c') \<Longrightarrow>
     consumes c (utf8_cont n (unat x)) c' \<and> unat x div 64 ^ n = unat v"
proof (induction n arbitrary: v c)
  case 0
  then show ?case by (simp add: consumes_Nil)
next
  case (Suc n)
  obtain b c1 where g: "CBS_get_u8 c = (Some b, c1)" "b AND TOP_BITS 2 = TOP_BITS 1"
      "utf8_loop n (push_bit 6 v OR ucast (b AND BOTTOM_BITS 6)) c1 = (Some x, c')"
    using Suc.prems(3) by (auto simp: cbs_bind_eq_Some split: if_splits)
  have con: "consumes c [b] c1" by (rule CBS_get_u8_sound [OF Suc.prems(1) g(1)])
  have v: "unat v * 64 < 2 ^ 32"
  proof -
    have "64 \<le> (64 :: nat) ^ Suc n" by simp
    then have "(unat v + 1) * 64 \<le> (unat v + 1) * 64 ^ Suc n" by (rule mult_le_mono2)
    then have "(unat v + 1) * 64 \<le> 2 ^ 32" using Suc.prems(2) by (rule order_trans)
    then show ?thesis by simp
  qed
  let ?w = "unat v * 64 + unat b mod 64"
  note u = utf8_step [OF v, of b]
  have "?w + 1 \<le> (unat v + 1) * 64" by simp
  then have "(?w + 1) * 64 ^ n \<le> (unat v + 1) * 64 * 64 ^ n" by (rule mult_le_mono1)
  also have "\<dots> \<le> 2 ^ 32" using Suc.prems(2) by (simp add: algebra_simps)
  finally have "(?w + 1) * 64 ^ n \<le> 2 ^ 32" .
  then have ih: "consumes c1 (utf8_cont n (unat x)) c'" "unat x div 64 ^ n = ?w"
    using Suc.IH [OF consumesD(2) [OF con] _ g(3)] u by simp_all
  have "unat x div 64 ^ Suc n = ?w div 64"
    using ih(2) by (metis div_mult2_eq power_Suc2)
  moreover have "b = of_nat (128 + unat x div 64 ^ n mod 64)"
    using u8_split [of b 64 2] g(2) [unfolded marker_iffs] ih(2) by simp
  ultimately show ?case using consumes_trans [OF con ih(1)] by simp
qed

text \<open>One multi-byte form: a first byte with the marker \<open>q\<close> above \<open>k\<close> payload bits.\<close>

lemma utf8_tail_iff:
  assumes "CBS_wf c" and "unat v < m" and "m * 64 ^ n \<le> 2 ^ 32"
  shows "utf8_tail n v low c = (Some x, c') \<longleftrightarrow>
    consumes c (utf8_cont n (unat x)) c' \<and> unat x div 64 ^ n = unat v \<and>
    is_valid_code_point x \<and> unat low \<le> unat x"
proof -
  have "(unat v + 1) * 64 ^ n \<le> 2 ^ 32"
    using mult_le_mono1 [of "unat v + 1" m "64 ^ n"] assms(2,3) by linarith
  note S = utf8_loop_sound [OF assms(1) this, of x c'] and C = utf8_loop_complete [of c n x c' v]
  have "utf8_tail n v low c = (Some x, c') \<longleftrightarrow>
      utf8_loop n v c = (Some x, c') \<and> is_valid_code_point x \<and> unat low \<le> unat x"
    by (auto simp: utf8_tail_def cbs_bind_eq_Some word_less_nat_alt not_less split: if_splits)
  then show ?thesis using S C by auto
qed

lemma valid_code_point_le: "is_valid_code_point x \<Longrightarrow> unat x \<le> 0x10ffff"
  by (simp add: is_valid_code_point_def word_less_nat_alt)

lemma ascii_valid: "unat x < 0x80 \<Longrightarrow> is_valid_code_point x"
proof -
  assume x: "unat x < 0x80"
  have "unat (x AND 0xfffe) \<le> unat x" by (metis and_less_eq word_le_nat_alt word_and_le1 and.commute)
  then have "x AND 0xfffe \<noteq> 0xfffe" using x by (auto simp: word_unat_eq_iff)
  then show ?thesis using x by (simp add: is_valid_code_point_def word_less_nat_alt word_le_nat_alt)
qed

lemma cbs_get_utf8_first:
  assumes "consumes c [b] c1"
  shows "cbs_get_utf8 c =
    (if unat b < 128 then (Some (ucast b), c1)
     else if unat b div 32 = 6 then utf8_tail 1 (ucast (b AND BOTTOM_BITS 5)) 0x80 c1
     else if unat b div 16 = 14 then utf8_tail 2 (ucast (b AND BOTTOM_BITS 4)) 0x800 c1
     else if unat b div 8 = 30 then utf8_tail 3 (ucast (b AND BOTTOM_BITS 3)) 0x10000 c1
     else (None, c1))"
proof -
  have "b \<le> 0x7f \<longleftrightarrow> unat b < 128" by (simp add: word_le_nat_alt) arith
  then show ?thesis
    using CBS_get_u8_complete [OF assms] by (simp add: cbs_get_utf8_def marker_iffs)
qed

lemma cbs_get_utf8_forms:
  assumes "consumes c [b] c1"
  shows "unat b div 32 = 6 \<Longrightarrow> \<exists>v. cbs_get_utf8 c = utf8_tail 1 v 0x80 c1 \<and> unat v = unat b mod 32"
    and "unat b div 16 = 14 \<Longrightarrow> \<exists>v. cbs_get_utf8 c = utf8_tail 2 v 0x800 c1 \<and> unat v = unat b mod 16"
    and "unat b div 8 = 30 \<Longrightarrow> \<exists>v. cbs_get_utf8 c = utf8_tail 3 v 0x10000 c1 \<and> unat v = unat b mod 8"
proof -
  have E: "n div 128 = n div 32 div 4" "n div 128 = n div 16 div 8" "n div 128 = n div 8 div 16"
      "n div 32 = n div 16 div 2" "n div 32 = n div 8 div 4" "n div 16 = n div 8 div 2" for n :: nat
    by (simp_all add: div_mult2_eq [symmetric])
  have D: "n div 32 = 6 \<Longrightarrow> \<not> n < 128" "n div 16 = 14 \<Longrightarrow> \<not> n < 128 \<and> n div 32 \<noteq> 6"
    "n div 8 = 30 \<Longrightarrow> \<not> n < 128 \<and> n div 32 \<noteq> 6 \<and> n div 16 \<noteq> 14" for n :: nat
    using E [of n] div_less [of n 128] by auto
  note F = cbs_get_utf8_first [OF assms]
  show "unat b div 32 = 6 \<Longrightarrow> \<exists>v. cbs_get_utf8 c = utf8_tail 1 v 0x80 c1 \<and> unat v = unat b mod 32"
    using F D(1) [of "unat b"] unat_payload(3) [of b] by (intro exI) simp
  show "unat b div 16 = 14 \<Longrightarrow> \<exists>v. cbs_get_utf8 c = utf8_tail 2 v 0x800 c1 \<and> unat v = unat b mod 16"
    using F D(2) [of "unat b"] unat_payload(2) [of b] by (intro exI) simp
  show "unat b div 8 = 30 \<Longrightarrow> \<exists>v. cbs_get_utf8 c = utf8_tail 3 v 0x10000 c1 \<and> unat v = unat b mod 8"
    using F D(3) [of "unat b"] unat_payload(1) [of b] by (intro exI) simp
qed

lemma cbs_get_utf8_complete:
  assumes ok: "is_valid_code_point x" and con: "consumes c (utf8_bytes (unat x)) c'"
  shows "cbs_get_utf8 c = (Some x, c')"
proof -
  let ?u = "unat x"
  have U: "?u \<le> 0x10ffff" by (rule valid_code_point_le [OF ok])
  have multi: "cbs_get_utf8 c = (Some x, c')"
    if u: "utf8_bytes ?u = of_nat (q * k + ?u div 64 ^ n) # utf8_cont n ?u"
      and lt: "?u div 64 ^ n < k" "q * k + k \<le> 256"
      and first: "\<And>b c1. consumes c [b] c1 \<Longrightarrow> unat b div k = q \<Longrightarrow> unat b mod k = ?u div 64 ^ n \<Longrightarrow>
        \<exists>v. cbs_get_utf8 c = utf8_tail n v low c1 \<and> unat v = unat b mod k"
      and low: "unat low \<le> ?u" and k: "k * 64 ^ n \<le> 2 ^ 32" for q k n low
  proof -
    let ?b = "of_nat (q * k + ?u div 64 ^ n) :: u8" and ?c1 = "cbs_drop (length [of_nat (q * k + ?u div 64 ^ n) :: u8]) c"
    have "consumes c ([?b] @ utf8_cont n ?u) c'" using con u by simp
    from consumes_append [OF this]
    have c1: "consumes c [?b] ?c1" "consumes ?c1 (utf8_cont n ?u) c'" by blast+
    have s: "q * k + ?u div 64 ^ n < 256" using lt by linarith
    obtain v where v: "cbs_get_utf8 c = utf8_tail n v low ?c1" "unat v = ?u div 64 ^ n"
      using first [OF c1(1)] unat_marker [OF s lt(1)] unat_marker_mod [OF s lt(1)] by auto
    show ?thesis
      unfolding v(1) utf8_tail_iff [OF consumesD(1) [OF c1(2)] lt(1) [folded v(2)] k]
      using c1(2) v(2) ok low by simp
  qed
  consider "?u < 0x80" | "0x80 \<le> ?u" "?u < 0x800" | "0x800 \<le> ?u" "?u < 0x10000" | "0x10000 \<le> ?u"
    by linarith
  then show ?thesis
  proof cases
    case 1
    then have con1: "consumes c [of_nat ?u] c'" using con by (simp add: utf8_bytes_def)
    have b: "unat (of_nat ?u :: u8) = ?u" using 1 by (intro unat_of_nat_eq) simp
    then have "ucast (of_nat ?u :: u8) = x" by (simp add: word_unat_eq_iff unat_ucast_up)
    with 1 b show ?thesis unfolding cbs_get_utf8_first [OF con1] by simp
  next
    case 2
    show ?thesis
    proof (rule multi [of 6 32 1 "0x80"])
      show "?u div 64 ^ 1 < 32" using 2 by (simp add: less_mult_imp_div_less)
      show "\<exists>v. cbs_get_utf8 c = utf8_tail 1 v 128 c1 \<and> unat v = unat b mod 32"
        if "consumes c [b] c1" "unat b div 32 = 6" for b c1
        using that by (rule cbs_get_utf8_forms(1))
    qed (use 2 in \<open>simp_all add: utf8_bytes_def\<close>)
  next
    case 3
    show ?thesis
    proof (rule multi [of 14 16 2 "0x800"])
      show "?u div 64 ^ 2 < 16" using 3 by (simp add: less_mult_imp_div_less)
      show "\<exists>v. cbs_get_utf8 c = utf8_tail 2 v 2048 c1 \<and> unat v = unat b mod 16"
        if "consumes c [b] c1" "unat b div 16 = 14" for b c1
        using that by (rule cbs_get_utf8_forms(2))
    qed (use 3 in \<open>simp_all add: utf8_bytes_def\<close>)
  next
    case 4
    show ?thesis
    proof (rule multi [of 30 8 3 "0x10000"])
      show "?u div 64 ^ 3 < 8" using U by (simp add: less_mult_imp_div_less)
      show "\<exists>v. cbs_get_utf8 c = utf8_tail 3 v 65536 c1 \<and> unat v = unat b mod 8"
        if "consumes c [b] c1" "unat b div 8 = 30" for b c1
        using that by (rule cbs_get_utf8_forms(3))
    qed (use 4 in \<open>simp_all add: utf8_bytes_def\<close>)
  qed
qed

lemma cbs_get_utf8_sound:
  assumes wf: "CBS_wf c" and g: "cbs_get_utf8 c = (Some x, c')"
  shows "is_valid_code_point x \<and> consumes c (utf8_bytes (unat x)) c'"
proof -
  let ?u = "unat x"
  obtain b c1 where b: "CBS_get_u8 c = (Some b, c1)"
    using g by (auto simp: cbs_get_utf8_def cbs_bind_eq_Some)
  have con: "consumes c [b] c1" by (rule CBS_get_u8_sound [OF wf b])
  note F = g [unfolded cbs_get_utf8_first [OF con]] and forms = cbs_get_utf8_forms [OF con]
  have multi: "is_valid_code_point x \<and> unat low \<le> ?u \<and> ?u < k * 64 ^ n \<and>
      consumes c (of_nat (q * k + ?u div 64 ^ n) # utf8_cont n ?u) c'"
    if "cbs_get_utf8 c = utf8_tail n v low c1" "unat v = unat b mod k" "unat b div k = q" "0 < k"
      "k * 64 ^ n \<le> 2 ^ 32" for n v low k q
  proof -
    have lt: "unat v < k" using that(2,4) by simp
    have T: "consumes c1 (utf8_cont n ?u) c'" "?u div 64 ^ n = unat v" "is_valid_code_point x"
        "unat low \<le> ?u"
      using g unfolding that(1) utf8_tail_iff [OF consumesD(2) [OF con] lt that(5)] by blast+
    have "b = of_nat (q * k + ?u div 64 ^ n)" using u8_split [OF that(3)] T(2) that(2) by simp
    moreover have "?u < k * 64 ^ n" using T(2) lt by (metis div_less_iff_less_mult zero_less_numeral zero_less_power)
    ultimately show ?thesis using T(3,4) consumes_trans [OF con T(1)] by simp
  qed
  consider (a) "unat b < 128" | (two) "unat b div 32 = 6" | (three) "unat b div 16 = 14" | (four) "unat b div 8 = 30"
    using F by (auto split: if_splits)
  then show ?thesis
  proof cases
    case a
    then have "x = ucast b" "c' = c1" using F by simp_all
    then show ?thesis using a con by (simp add: unat_ucast_up utf8_bytes_def ascii_valid)
  next
    case two
    from forms(1) [OF two] obtain v where v: "cbs_get_utf8 c = utf8_tail 1 v 0x80 c1" "unat v = unat b mod 32"
      by blast
    from multi [OF v two] show ?thesis by (simp add: utf8_bytes_def)
  next
    case three
    from forms(2) [OF three] obtain v where v: "cbs_get_utf8 c = utf8_tail 2 v 0x800 c1" "unat v = unat b mod 16"
      by blast
    from multi [OF v three] show ?thesis by (simp add: utf8_bytes_def)
  next
    case four
    from forms(3) [OF four] obtain v where v: "cbs_get_utf8 c = utf8_tail 3 v 0x10000 c1" "unat v = unat b mod 8"
      by blast
    from multi [OF v four] show ?thesis by (simp add: utf8_bytes_def)
  qed
qed

interpretation utf8: codec cbs_get_utf8 "\<lambda>u. u" "\<lambda>u. utf8_bytes (unat u)" is_valid_code_point
  by unfold_locales (blast intro: cbs_get_utf8_complete dest: cbs_get_utf8_sound)+

subsection \<open>The writer\<close>

lemma utf8_byte_eq:
  assumes "unat (TOP_BITS n) = t" and "2 ^ k dvd t" and "unat bits < 2 ^ k" and "t + unat bits < 256"
  shows "utf8_byte n bits = of_nat (t + unat bits)"
proof -
  have t: "unat (ucast (TOP_BITS n) :: u32) = t" using assms(1) by (simp add: unat_ucast_up)
  have "unat (ucast (TOP_BITS n) OR bits) = t + unat bits"
    using unat_or_disjoint [of k "ucast (TOP_BITS n)" bits] assms(2,3) t by simp
  then show ?thesis
    unfolding utf8_byte_def using assms(4) by (intro word_eq_of_natI) (simp add: unat_ucast_u8)
qed

lemma utf8_cont_byte: "utf8_byte 1 (drop_bit j u AND ucast (BOTTOM_BITS 6)) = of_nat (128 + unat u div 2 ^ j mod 64)"
proof -
  have m: "(ucast (BOTTOM_BITS 6) :: u32) = mask 6" by (simp add: BOTTOM_BITS_def mask_eq_exp_minus_1)
  have v: "unat (drop_bit j u AND ucast (BOTTOM_BITS 6)) = unat u div 2 ^ j mod 64"
    unfolding m by (simp add: unat_and_mask unat_drop_bit)
  have l: "unat u div 2 ^ j mod 64 < 64" by simp
  show ?thesis using utf8_byte_eq [of 1 128 6 "drop_bit j u AND ucast (BOTTOM_BITS 6)"] l
    unfolding v TOP_BITS_values by simp
qed

lemmas emits_two = emits_bind [OF emits_CBB_add_u8 emits_CBB_add_u8]
lemmas emits_three = emits_bind [OF emits_CBB_add_u8 emits_two]
lemmas emits_four = emits_bind [OF emits_CBB_add_u8 emits_three]

lemma utf8_lead_bytes:
  "unat u < 0x800 \<Longrightarrow> utf8_byte 2 (drop_bit 6 u) = of_nat (192 + unat u div 64)"
  "unat u < 0x10000 \<Longrightarrow> utf8_byte 3 (drop_bit 12 u) = of_nat (224 + unat u div 4096)"
  "unat u < 0x200000 \<Longrightarrow> utf8_byte 4 (drop_bit 18 u) = of_nat (240 + unat u div 262144)"
proof -
  have v: "unat (drop_bit 6 u) = unat u div 64" "unat (drop_bit 12 u) = unat u div 4096"
    "unat (drop_bit 18 u) = unat u div 262144" by (simp_all add: unat_drop_bit)
  show "utf8_byte 2 (drop_bit 6 u) = of_nat (192 + unat u div 64)" if "unat u < 0x800"
  proof -
    have "unat u div 64 < 32" using that by (simp add: less_mult_imp_div_less)
    then show ?thesis using utf8_byte_eq [of 2 192 5 "drop_bit 6 u"] by (simp add: v TOP_BITS_values)
  qed
  show "utf8_byte 3 (drop_bit 12 u) = of_nat (224 + unat u div 4096)" if "unat u < 0x10000"
  proof -
    have "unat u div 4096 < 16" using that by (simp add: less_mult_imp_div_less)
    then show ?thesis using utf8_byte_eq [of 3 224 4 "drop_bit 12 u"] by (simp add: v TOP_BITS_values)
  qed
  show "utf8_byte 4 (drop_bit 18 u) = of_nat (240 + unat u div 262144)" if "unat u < 0x200000"
  proof -
    have "unat u div 262144 < 8" using that by (simp add: less_mult_imp_div_less)
    then show ?thesis using utf8_byte_eq [of 4 240 3 "drop_bit 18 u"] by (simp add: v TOP_BITS_values)
  qed
qed

lemma code_point_bounds:
  fixes u :: u32
  shows "u \<le> 0x7f \<longleftrightarrow> unat u < 0x80" "u \<le> 0x7ff \<longleftrightarrow> unat u < 0x800" "u \<le> 0xffff \<longleftrightarrow> unat u < 0x10000"
    "u \<le> 0x10ffff \<longleftrightarrow> unat u < 0x110000" "u \<le> 0xff \<longleftrightarrow> unat u < 0x100"
  by (auto simp: word_le_nat_alt)

lemma emits_cbb_add_utf8:
  assumes "is_valid_code_point u"
  shows "emits a (cbb_add_utf8 a d u) d (utf8_bytes (unat u)) ()"
proof -
  let ?n = "unat u"
  have U: "?n < 0x110000" using valid_code_point_le [OF assms] by simp
  have C: "utf8_byte 1 (u AND ucast (BOTTOM_BITS 6)) = of_nat (128 + ?n mod 64)"
    "utf8_byte 1 (drop_bit 6 u AND ucast (BOTTOM_BITS 6)) = of_nat (128 + ?n div 64 mod 64)"
    "utf8_byte 1 (drop_bit 12 u AND ucast (BOTTOM_BITS 6)) = of_nat (128 + ?n div 4096 mod 64)"
    using utf8_cont_byte [of 0 u] utf8_cont_byte [of 6 u] utf8_cont_byte [of 12 u] by simp_all
  note def = cbb_add_utf8_def Let_def code_point_bounds
  consider "?n < 0x80" | "0x80 \<le> ?n" "?n < 0x800" | "0x800 \<le> ?n" "?n < 0x10000" | "0x10000 \<le> ?n"
    by linarith
  then show ?thesis
  proof cases
    case 1
    have "cbb_add_utf8 a d u = CBB_add_u8 a d (ucast u)" using assms 1 by (intro ext) (simp add: def)
    moreover have "(ucast u :: u8) = of_nat ?n"
      by (rule word_eq_of_natI) (use 1 in \<open>simp add: unat_ucast_u8\<close>)
    moreover have "utf8_bytes ?n = [of_nat ?n]" using 1 by (simp add: utf8_bytes_def)
    ultimately show ?thesis using emits_CBB_add_u8 [of a d "of_nat ?n"] by metis
  next
    case 2
    have "cbb_add_utf8 a d u = (\<lambda>s. cbb_bind (CBB_add_u8 a d (of_nat (192 + ?n div 64)) s) (\<lambda>_.
        CBB_add_u8 a d (of_nat (128 + ?n mod 64))))"
      unfolding def C utf8_lead_bytes(1) [OF 2(2)] using assms 2 by (intro ext) simp
    then show ?thesis using 2 emits_two by (simp add: utf8_bytes_def utf8_cont_forms [unfolded One_nat_def])
  next
    case 3
    have "cbb_add_utf8 a d u = (\<lambda>s. cbb_bind (CBB_add_u8 a d (of_nat (224 + ?n div 4096)) s) (\<lambda>_ s1.
        cbb_bind (CBB_add_u8 a d (of_nat (128 + ?n div 64 mod 64)) s1) (\<lambda>_.
        CBB_add_u8 a d (of_nat (128 + ?n mod 64)))))"
      unfolding def C utf8_lead_bytes(2) [OF 3(2)] using assms 3 by (intro ext) simp
    then show ?thesis using 3 emits_three by (simp add: utf8_bytes_def utf8_cont_forms)
  next
    case 4
    have "cbb_add_utf8 a d u = (\<lambda>s. cbb_bind (CBB_add_u8 a d (of_nat (240 + ?n div 262144)) s) (\<lambda>_ s1.
        cbb_bind (CBB_add_u8 a d (of_nat (128 + ?n div 4096 mod 64)) s1) (\<lambda>_ s2.
        cbb_bind (CBB_add_u8 a d (of_nat (128 + ?n div 64 mod 64)) s2) (\<lambda>_.
        CBB_add_u8 a d (of_nat (128 + ?n mod 64))))))"
      unfolding def C utf8_lead_bytes(3) [OF less_trans [OF U], simplified] using assms 4 U by (intro ext) simp
    then show ?thesis using 4 emits_four by (simp add: utf8_bytes_def utf8_cont_forms)
  qed
qed

lemma length_utf8_bytes: "length (utf8_bytes (unat u)) = cbb_get_utf8_len u"
  by (auto simp: utf8_bytes_def cbb_get_utf8_len_def code_point_bounds utf8_cont_forms)

section \<open>Latin-1, UCS-2 and UTF-32\<close>

text \<open>A reader that keeps the code points of another one that satisfy a test.\<close>

lemma filtered_codec:
  assumes "codec get (\<lambda>v. v) enc (\<lambda>_. True)"
    and g: "\<And>v. g (f v) = v"
    and rng: "\<And>u. P u \<Longrightarrow> R u \<Longrightarrow> f (g u) = u" and R: "\<And>v. R (f v)"
  shows "codec (\<lambda>c. cbs_bind (get c) (\<lambda>v c1. if P (f v) then (Some (f v), c1) else (None, c1)))
    (\<lambda>u. u) (\<lambda>u. enc (g u)) (\<lambda>u. P u \<and> R u)"
proof unfold_locales
  fix u c c' assume u: "P u \<and> R u" and con: "consumes c (enc (g u)) c'"
  have "get c = (Some (g u), c')" using codec.complete [OF assms(1) TrueI con] by blast
  with u rng show "\<exists>r. cbs_bind (get c) (\<lambda>v c1. if P (f v) then (Some (f v), c1) else (None, c1)) =
      (Some r, c') \<and> r = u" by simp
next
  fix c r c' assume wf: "CBS_wf c"
    and "cbs_bind (get c) (\<lambda>v c1. if P (f v) then (Some (f v), c1) else (None, c1)) = (Some r, c')"
  then obtain v where v: "get c = (Some v, c')" "P (f v)" "r = f v"
    by (auto simp: cbs_bind_eq_Some split: if_splits)
  with codec.sound [OF assms(1) wf v(1)] g R show "(P r \<and> R r) \<and> consumes c (enc (g r)) c'" by simp
qed

lemma ucast_down_up:
  "LENGTH('a) \<le> LENGTH('b) \<Longrightarrow> ucast (ucast (v :: 'a::len word) :: 'b::len word) = v"
  unfolding word_unat_eq_iff
  by (subst unat_ucast_less) (simp_all add: unat_ucast_up unsigned_less)

lemma ucast_up_down:
  "unat u < 2 ^ LENGTH('a) \<Longrightarrow> ucast (ucast (u :: 'b::len word) :: 'a::len word) = u"
  unfolding word_unat_eq_iff
  by (subst unat_ucast_less) (simp_all add: unat_ucast_less unsigned_less order.strict_trans2)

interpretation latin1: codec cbs_get_latin1 "\<lambda>u. u" "\<lambda>u. [ucast u]" "\<lambda>u. True \<and> unat u < 0x100"
proof -
  have eq: "cbs_get_latin1 = (\<lambda>c. cbs_bind (CBS_get_u8 c) (\<lambda>v c1.
      if True then (Some (ucast v :: u32), c1) else (None, c1)))"
    by (intro ext) (simp add: cbs_get_latin1_def)
  show "codec cbs_get_latin1 (\<lambda>u. u) (\<lambda>u. [ucast u]) (\<lambda>u. True \<and> unat u < 0x100)"
    unfolding eq
  proof (rule filtered_codec [OF u8.codec_axioms])
    show "ucast (ucast v :: u32) = v" for v :: u8 by (rule ucast_down_up) simp
    show "ucast (ucast u :: u8) = u" if "unat u < 0x100" for u :: u32
      by (rule ucast_up_down) (use that in simp)
    show "unat (ucast v :: u32) < 0x100" for v :: u8 by (simp add: unat_ucast_up)
  qed
qed

interpretation ucs2: codec cbs_get_ucs2_be "\<lambda>u. u" "\<lambda>u. be_bytes 2 (unat (ucast u :: u16))"
  "\<lambda>u. is_valid_code_point u \<and> unat u < 0x10000"
proof -
  have eq: "cbs_get_ucs2_be = (\<lambda>c. cbs_bind (CBS_get_u16 c) (\<lambda>v c1.
      if is_valid_code_point (ucast v) then (Some (ucast v :: u32), c1) else (None, c1)))"
    by (intro ext, unfold cbs_get_ucs2_be_def) (rule arg_cong [of _ _ "cbs_bind _"], intro ext, simp)
  show "codec cbs_get_ucs2_be (\<lambda>u. u) (\<lambda>u. be_bytes 2 (unat (ucast u :: u16)))
      (\<lambda>u. is_valid_code_point u \<and> unat u < 0x10000)"
    unfolding eq
  proof (rule filtered_codec [OF u16.codec_axioms])
    show "ucast (ucast v :: u32) = v" for v :: u16 by (rule ucast_down_up) simp
    show "ucast (ucast u :: u16) = u" if "unat u < 0x10000" for u :: u32
      by (rule ucast_up_down) (use that in simp)
    show "unat (ucast v :: u32) < 0x10000" for v :: u16
      using unat_u16_less [of v] by (simp add: unat_ucast_up)
  qed
qed

interpretation utf32: codec cbs_get_utf32_be "\<lambda>u. u" "\<lambda>u. be_bytes 4 (unat u)"
  "\<lambda>u. is_valid_code_point u \<and> True"
  unfolding cbs_get_utf32_be_def by (rule filtered_codec [OF u32.codec_axioms]) simp_all

lemma emits_cbb_add_latin1: "unat u < 0x100 \<Longrightarrow> emits a (cbb_add_latin1 a d u) d [ucast u] ()"
  by (simp add: cbb_add_latin1_def [abs_def] code_point_bounds)

lemma emits_cbb_add_ucs2_be:
  "is_valid_code_point u \<Longrightarrow> unat u < 0x10000 \<Longrightarrow>
     emits a (cbb_add_ucs2_be a d u) d (be_bytes 2 (unat (ucast u :: u16))) ()"
  by (simp add: cbb_add_ucs2_be_def [abs_def] code_point_bounds emits_CBB_add_u16)

lemma emits_cbb_add_utf32_be:
  "is_valid_code_point u \<Longrightarrow> emits a (cbb_add_utf32_be a d u) d (be_bytes 4 (unat u)) ()"
  by (simp add: cbb_add_utf32_be_def [abs_def] emits_CBB_add_u32)

section \<open>Properties\<close>

text \<open>
  C3. UTF-8. \<open>cbs_get_utf8\<close> accepts a window with the code point \<open>u\<close> exactly when \<open>u\<close> is a valid
  code point and the window starts with its shortest encoding: overlong forms, surrogates,
  noncharacters and truncated sequences are rejected. \<open>cbb_add_utf8\<close> emits that same encoding,
  of the length \<open>cbb_get_utf8_len\<close> announces, and refuses every other value.
\<close>

theorem utf8_canonical:
  assumes "CBS_wf c"
  shows "(cbs_get_utf8 c = (Some u, c') \<longleftrightarrow>
      is_valid_code_point u \<and> cbs_bytes c = utf8_bytes (unat u) @ cbs_bytes c' \<and>
      c' = cbs_drop (cbb_get_utf8_len u) c) \<and>
    (if is_valid_code_point u then emits a (cbb_add_utf8 a d u) d (utf8_bytes (unat u)) ()
     else \<forall>s. cbb_add_utf8 a d u s = (None, s))"
  using utf8.get_iff [OF assms, where x = u] emits_cbb_add_utf8 [of u a d]
  by (simp add: length_utf8_bytes cbb_add_utf8_def)

theorem utf8_canonical_witness:
  "cbs_get_utf8 (CBS_init [0xc3, 0xa9, 0x41] 3) = (Some 0xe9, CBS_init [0x41] 1)"
proof -
  have wf: "CBS_wf (CBS_init [0xc3, 0xa9, 0x41] 3)" by (simp add: CBS_wf_def CBS_init_def)
  have v: "is_valid_code_point 0xe9" by (simp add: is_valid_code_point_def)
  have e: "utf8_bytes (unat (0xe9 :: u32)) = [0xc3, 0xa9]" "cbb_get_utf8_len 0xe9 = 2"
    by (simp_all add: utf8_bytes_def utf8_cont_forms [unfolded One_nat_def] cbb_get_utf8_len_def)
  have "cbs_bytes (CBS_init [0xc3, 0xa9, 0x41] 3) = [0xc3, 0xa9] @ cbs_bytes (CBS_init [0x41] 1)"
    "CBS_init [0x41] 1 = cbs_drop 2 (CBS_init [0xc3, 0xa9, 0x41] 3)"
    by (simp_all add: CBS_init_def cbs_bytes_def cbs_drop_def)
  then show ?thesis
    using utf8_canonical [OF wf, of "0xe9" "CBS_init [0x41] 1"] v unfolding e by blast
qed

end
