(* ===== verification/Bytestring_Ber.thy ===== *)
theory Bytestring_Ber
  imports Bytestring_Asn1
begin

text \<open>
  \<^verbatim>\<open>crypto/bytestring/ber.c\<close>: the conversion of BER to DER. The walk that looks for BER and the
  conversion recurse into constructed elements; both are total because every element takes at
  least two octets. What the conversion produces is described by \<open>der_items\<close>: a sequence of DER
  elements in which the contents of every constructed element is again such a sequence and no
  string is constructed. What the walk bases its answer on is less than that, and is described by
  \<open>der_seen\<close>: it forgets what it found inside an element as soon as it reads the next one.
\<close>

section \<open>Every element shortens the reader\<close>

lemma parse_base128_loop_len: "parse_base128_loop v c = (Some x, c') \<Longrightarrow> cbs_len c' < cbs_len c"
proof (induction v c rule: parse_base128_loop.induct)
  case (1 v c)
  show ?case
  proof (cases "CBS_get_u8 c")
    case (Pair r c1)
    with 1 CBS_get_u8_decreases [of c] show ?thesis
      by (cases r) (auto simp: parse_base128_loop.simps Let_def split: if_splits dest: less_trans)
  qed
qed

lemma parse_asn1_tag_len: "parse_asn1_tag c = (Some t, c') \<Longrightarrow> cbs_len c' < cbs_len c"
  by (auto simp: parse_asn1_tag_def Let_def parse_base128_integer_def cbs_bind_eq_Some
      split: prod.splits option.splits if_splits
      dest!: CBS_get_u8_decreases parse_base128_loop_len)

lemma asn1_element_take_len:
  assumes "asn1_element_take n tag hl ber c = (Some e, c')"
  shows "n \<le> cbs_len c" and "cbs_len (el_out e) = n" and "cbs_len c' = cbs_len c - n"
    and "el_header_len e = hl"
  using assms
  by (auto simp: asn1_element_take_def cbs_bind_eq_Some CBS_get_bytes_def cbs_get_eq CBS_init_def
      split: if_splits)

lemma cbs_get_any_asn1_element_len:
  assumes "cbs_get_any_asn1_element ber_ok c = (Some e, c')"
  shows "2 \<le> el_header_len e" and "el_header_len e \<le> cbs_len (el_out e)"
    and "cbs_len (el_out e) \<le> cbs_len c" and "cbs_len c' = cbs_len c - cbs_len (el_out e)"
proof -
  obtain tag h1 b h2 where h: "parse_asn1_tag c = (Some tag, h1)" "CBS_get_u8 h1 = (Some b, h2)"
    using assms unfolding cbs_get_any_asn1_element_def
    by (auto split: prod.splits option.splits)
  have hl: "2 \<le> CBS_len c - CBS_len h2"
    using parse_asn1_tag_len [OF h(1)] CBS_get_u8_decreases [OF h(2)] by (simp add: CBS_len_def)
  obtain n hl ber where t: "asn1_element_take n tag hl ber c = (Some e, c')" "hl \<le> n" "2 \<le> hl"
    using assms hl unfolding cbs_get_any_asn1_element_def h prod.case option.case Let_def
    by (auto split: prod.splits option.splits if_splits)
  from asn1_element_take_len [OF t(1)] t(2,3)
  show "2 \<le> el_header_len e" "el_header_len e \<le> cbs_len (el_out e)"
    "cbs_len (el_out e) \<le> cbs_len c" "cbs_len c' = cbs_len c - cbs_len (el_out e)" by auto
qed

lemmas ber_element_len = cbs_get_any_asn1_element_len [where ber_ok = True, folded CBS_get_any_ber_asn1_element_def]

lemma ber_element_decreases:
  "(Some e, c1) = CBS_get_any_ber_asn1_element c \<Longrightarrow> cbs_len c1 < cbs_len c"
  using ber_element_len [of c e c1] by simp

lemma ber_contents_decrease:
  assumes "(Some e, c1) = CBS_get_any_ber_asn1_element c"
    and "(Some u, c2) = CBS_skip (el_header_len e) (el_out e)"
  shows "cbs_len c2 < cbs_len c"
proof -
  have "cbs_len c2 = cbs_len (el_out e) - el_header_len e"
    using assms(2) by (auto simp: CBS_skip_def cbs_get_eq split: if_splits)
  then show ?thesis using ber_element_len [OF assms(1) [symmetric]] by linarith
qed

lemma CBS_get_any_ber_None: "CBS_get_any_ber_asn1_element c = (None, c1) \<Longrightarrow> c1 = c"
  unfolding CBS_get_any_ber_asn1_element_def cbs_get_any_asn1_element_def Let_def asn1_element_take_def
    CBS_get_bytes_def cbs_get_eq
  by (auto split: prod.splits option.splits if_splits simp: cbs_bind_def)

section \<open>Operations\<close>

definition kMaxDepth :: nat where "kMaxDepth = 2048"

definition is_string_type :: "u32 \<Rightarrow> bool" where
  "is_string_type tag \<longleftrightarrow>
     tag AND NOT CBS_ASN1_CONSTRUCTED \<in> {CBS_ASN1_OCTETSTRING, CBS_ASN1_UTF8STRING,
       CBS_ASN1_NUMERICSTRING, CBS_ASN1_PRINTABLESTRING, CBS_ASN1_T61STRING,
       CBS_ASN1_VIDEOTEXSTRING, CBS_ASN1_IA5STRING, CBS_ASN1_GRAPHICSTRING,
       CBS_ASN1_VISIBLESTRING, CBS_ASN1_GENERALSTRING, CBS_ASN1_UNIVERSALSTRING,
       CBS_ASN1_BMPSTRING}"

text \<open>
  \<open>None\<close> is the error return; \<open>Some f\<close> leaves \<open>f\<close> in \<^verbatim>\<open>*ber_found\<close>. The argument \<open>ber_found\<close> is what the flag holds at
  the head of the loop: reading an element overwrites it, and so does the call for the contents of a constructed one,
  whose outcome the loop does not look at before it goes on. The depth does not change in the loop, so that
  testing it again in every round is without effect.
\<close>

function find_ber_loop :: "CBS \<Rightarrow> bool \<Rightarrow> nat \<Rightarrow> bool option" where
  "find_ber_loop cin ber_found depth =
     (if depth > kMaxDepth then None
      else if CBS_len cin = 0 then Some ber_found
      else
        (case CBS_get_any_ber_asn1_element cin of
           (None, _) \<Rightarrow> None
         | (Some e, cin1) \<Rightarrow>
             (if el_ber_found e then Some True
              else if el_tag e AND CBS_ASN1_CONSTRUCTED \<noteq> 0 then
                (if is_string_type (el_tag e) then Some True
                 else
                   (case CBS_skip (el_header_len e) (el_out e) of
                      (None, _) \<Rightarrow> None
                    | (Some _, contents) \<Rightarrow>
                        (case find_ber_loop contents False (depth + 1) of
                           None \<Rightarrow> None
                         | Some f \<Rightarrow> find_ber_loop cin1 f depth)))
              else find_ber_loop cin1 False depth)))"
  by pat_completeness auto

termination
  by (relation "measure (\<lambda>(c, _). cbs_len c)")
    (auto dest: ber_element_decreases ber_contents_decrease)

declare find_ber_loop.simps [simp del]

definition cbs_find_ber :: "CBS \<Rightarrow> nat \<Rightarrow> bool option" where
  "cbs_find_ber orig_in depth = find_ber_loop orig_in False depth"

definition is_eoc :: "nat \<Rightarrow> CBS \<Rightarrow> bool" where
  "is_eoc header_len contents \<longleftrightarrow>
     header_len = 2 \<and> CBS_len contents = 2 \<and> take 2 (CBS_data contents) = [0, 0]"

text \<open>
  The conversion reads from \<open>cin\<close> and writes to the builder \<open>out\<close> at depth \<open>d\<close>; the element
  it opens is the child at depth \<open>d + 1\<close>, except inside a constructed string, whose
  fragments are appended to \<open>out\<close> itself. A constructed string becomes a primitive one and its
  children are told to concatenate their contents.
\<close>

definition constructed_tag :: "u32 \<Rightarrow> bool" where
  "constructed_tag tag \<longleftrightarrow> tag AND CBS_ASN1_CONSTRUCTED \<noteq> 0"

definition ber_out_tag :: "u32 \<Rightarrow> u32" where
  "ber_out_tag tag =
     (if constructed_tag tag \<and> is_string_type tag then tag AND NOT CBS_ASN1_CONSTRUCTED else tag)"

definition ber_child_string_tag :: "u32 \<Rightarrow> u32 \<Rightarrow> u32" where
  "ber_child_string_tag string_tag tag =
     (if string_tag = 0 \<and> constructed_tag tag \<and> is_string_type tag then ber_out_tag tag else string_tag)"

text \<open>Opening the output element; the result is the depth of \<^verbatim>\<open>out_contents\<close>.\<close>

definition ber_begin :: "sys_alloc \<Rightarrow> u32 \<Rightarrow> nat \<Rightarrow> u32 \<Rightarrow> nat writer" where
  "ber_begin a string_tag d tag out =
     (if string_tag \<noteq> 0 then
        (if tag AND NOT CBS_ASN1_CONSTRUCTED \<noteq> string_tag then (None, out) else (Some d, out))
      else cbb_bind (CBB_add_asn1 a d (ber_out_tag tag) out) (\<lambda>_ out1. (Some (d + 1), out1)))"

definition is_indefinite :: "asn1_element \<Rightarrow> bool" where
  "is_indefinite e \<longleftrightarrow> CBS_len (el_out e) = el_header_len e \<and> el_header_len e > 0
     \<and> CBS_data (el_out e) ! (el_header_len e - 1) = 0x80"

text \<open>Each further round of the loop is a tail call.\<close>

function cbs_convert_ber ::
  "sys_alloc \<Rightarrow> u32 \<Rightarrow> bool \<Rightarrow> nat \<Rightarrow> nat \<Rightarrow> CBS \<Rightarrow> CBB \<Rightarrow> unit option \<times> CBS \<times> CBB" where
  "cbs_convert_ber a string_tag looking_for_eoc depth d cin out =
     (if depth > kMaxDepth then (None, cin, out)
      else if CBS_len cin = 0 then (if looking_for_eoc then None else Some (), cin, out)
      else
        (case CBS_get_any_ber_asn1_element cin of
           (None, cin1) \<Rightarrow> (None, cin1, out)
         | (Some e, cin1) \<Rightarrow>
             (if is_eoc (el_header_len e) (el_out e)
              then (if looking_for_eoc then Some () else None, cin1, out)
              else
                (case ber_begin a string_tag d (el_tag e) out of
                   (None, out1) \<Rightarrow> (None, cin1, out1)
                 | (Some d1, out1) \<Rightarrow>
                     (case
                        (if is_indefinite e then
                           cbs_convert_ber a (ber_child_string_tag string_tag (el_tag e)) True
                             (depth + 1) d1 cin1 out1
                         else
                           (case CBS_skip (el_header_len e) (el_out e) of
                              (None, _) \<Rightarrow> (None, cin1, out1)
                            | (Some _, contents) \<Rightarrow>
                                (if constructed_tag (el_tag e) then
                                   (case cbs_convert_ber a (ber_child_string_tag string_tag (el_tag e))
                                           False (depth + 1) d1 contents out1 of
                                      (r, _, out2) \<Rightarrow> (r, cin1, out2))
                                 else
                                   (case CBB_add_bytes a d1 (take (CBS_len contents) (CBS_data contents))
                                           out1 of
                                      (r, out2) \<Rightarrow> (r, cin1, out2))))) of
                        (None, cin2, out2) \<Rightarrow> (None, cin2, out2)
                      | (Some _, cin2, out2) \<Rightarrow>
                          (case CBB_flush a d out2 of
                             (None, out3) \<Rightarrow> (None, cin2, out3)
                           | (Some _, out3) \<Rightarrow>
                               cbs_convert_ber a string_tag looking_for_eoc depth d cin2 out3))))))"
  by pat_completeness auto

text \<open>
  The nested call returns a reader that is not longer than the one it was given, so the loop
  goes on with a reader that is shorter by at least one element.
\<close>

lemma cbs_convert_ber_len_partial:
  "cbs_convert_ber_dom (a, st, look, depth, d, cin, out) \<Longrightarrow>
     cbs_len (fst (snd (cbs_convert_ber a st look depth d cin out))) \<le> cbs_len cin"
proof (induction a st look depth d cin out rule: cbs_convert_ber.pinduct)
  case (1 a st look depth d cin out)
  note unf = cbs_convert_ber.psimps [OF 1(1)]
  show ?case
  proof (cases "depth > kMaxDepth \<or> CBS_len cin = 0")
    case False
    then have nd: "\<not> kMaxDepth < depth" "CBS_len cin \<noteq> 0" by auto
    show ?thesis
    proof (cases "CBS_get_any_ber_asn1_element cin")
      case (Pair r c1)
      show ?thesis
      proof (cases r)
        case None
        then show ?thesis unfolding unf using nd Pair CBS_get_any_ber_None [of cin c1] by simp
      next
        case (Some e)
        note el = Pair [unfolded Some]
        have c1: "cbs_len c1 \<le> cbs_len cin" using ber_element_decreases [OF el [symmetric]] by simp
        note ih = 1(2-4) [OF nd el [symmetric] refl]
        show ?thesis
        proof (cases "is_eoc (el_header_len e) (el_out e)")
          case True
          then show ?thesis unfolding unf using nd el c1 by simp
        next
          case eoc: False
          show ?thesis
          proof (cases "ber_begin a st d (el_tag e) out")
            case (Pair rb out1)
            show ?thesis
            proof (cases rb)
              case None
              then show ?thesis unfolding unf using nd el eoc Pair c1 by simp
            next
              case (Some d1)
              note b = Pair [unfolded Some]
              note ih' = ih [OF eoc b [symmetric] refl]
              define child where "child = (if is_indefinite e
                then cbs_convert_ber a (ber_child_string_tag st (el_tag e)) True (depth + 1) d1 c1 out1
                else case CBS_skip (el_header_len e) (el_out e) of
                  (None, _) \<Rightarrow> (None, c1, out1)
                | (Some _, contents) \<Rightarrow> if constructed_tag (el_tag e)
                    then case cbs_convert_ber a (ber_child_string_tag st (el_tag e)) False (depth + 1) d1
                           contents out1 of (r, _, out2) \<Rightarrow> (r, c1, out2)
                    else case CBB_add_bytes a d1 (take (CBS_len contents) (CBS_data contents)) out1 of
                           (r, out2) \<Rightarrow> (r, c1, out2))"
              have ch: "cbs_len (fst (snd child)) \<le> cbs_len c1"
                unfolding child_def using ih'(1) by (auto split: prod.split option.split)
              have eq: "cbs_convert_ber a st look depth d cin out =
                (case child of (None, cin2, out2) \<Rightarrow> (None, cin2, out2)
                 | (Some _, cin2, out2) \<Rightarrow> (case CBB_flush a d out2 of (None, out3) \<Rightarrow> (None, cin2, out3)
                    | (Some _, out3) \<Rightarrow> cbs_convert_ber a st look depth d cin2 out3))"
                unfolding unf child_def using nd el eoc b by simp
              obtain rc c2 out2 where child: "child = (rc, c2, out2)" by (cases child) auto
              obtain rf out3 where fl: "CBB_flush a d out2 = (rf, out3)" by (cases "CBB_flush a d out2")
              have "cbs_len (fst (snd (cbs_convert_ber a st look depth d c2 out3))) \<le> cbs_len c2"
                if "rc = Some ()" "rf = Some ()"
                by (rule ih'(3) [OF _ that(1) refl fl [symmetric] that(2)])
                  (use child child_def in simp)
              then show ?thesis unfolding eq child using ch c1 fl child
                by (cases rc; cases rf) auto
            qed
          qed
        qed
      qed
    qed
  qed (auto simp: unf)
qed

lemma cbs_convert_ber_total: "All cbs_convert_ber_dom"
proof (relation "measure (\<lambda>(a, st, look, depth, d, cin, out). cbs_len cin)", goal_cases)
  case (4 a st look depth d cin out x y x2 xa ya x2a xb yb x2b xc yc xd yd x2c)
  have y: "cbs_len y < cbs_len cin" using 4(3,4) by (auto dest: ber_element_decreases)
  have "cbs_len xc \<le> cbs_len y"
  proof (cases "is_indefinite x2")
    case True
    then show ?thesis using cbs_convert_ber_len_partial [OF 4(14)] 4(8,10) by (metis fst_conv snd_conv)
  next
    case False
    then have "fst yb = y" using 4(8) by (auto split: prod.splits option.splits if_splits)
    then show ?thesis using 4(10) by (metis fst_conv order_refl)
  qed
  with y show ?case by simp
qed (auto dest: ber_element_decreases ber_contents_decrease)

termination cbs_convert_ber
  by (rule cbs_convert_ber_total)

declare cbs_convert_ber.simps [simp del]

text \<open>
  The result is the window of the output element and, when a conversion was needed, the block
  that was allocated for it.
\<close>

definition CBS_asn1_ber_to_der :: "sys_alloc \<Rightarrow> (CBS \<times> u8 list option) reader" where
  "CBS_asn1_ber_to_der a cin =
     (case cbs_find_ber cin 0 of
        None \<Rightarrow> (None, cin)
      | Some conversion_needed \<Rightarrow>
          (if \<not> conversion_needed then
             cbs_bind (CBS_get_any_asn1_element cin) (\<lambda>e cin1. (Some (el_out e, None), cin1))
           else
             (case CBB_init a (CBS_len cin) of
                (None, _) \<Rightarrow> (None, cin)
              | (Some _, cbb) \<Rightarrow>
                  (case cbs_convert_ber a 0 False 0 0 cin cbb of
                     (None, cin1, _) \<Rightarrow> (None, cin1)
                   | (Some _, cin1, cbb1) \<Rightarrow>
                       (case CBB_finish a False 0 cbb1 of
                          (None, _) \<Rightarrow> (None, cin1)
                        | (Some (out_storage, len), _) \<Rightarrow>
                            (Some (CBS_init out_storage len, Some out_storage), cin1))))))"

function implicit_string_loop :: "sys_alloc \<Rightarrow> u32 \<Rightarrow> CBS \<Rightarrow> unit writer" where
  "implicit_string_loop a inner_tag child result =
     (if CBS_len child = 0 then (Some (), result)
      else
        (case CBS_get_asn1 inner_tag child of
           (None, _) \<Rightarrow> (None, result)
         | (Some chunk, child1) \<Rightarrow>
             cbb_bind (CBB_add_bytes a 0 (take (CBS_len chunk) (CBS_data chunk)) result)
               (\<lambda>_ result1. implicit_string_loop a inner_tag child1 result1)))"
  by pat_completeness auto

lemma CBS_get_asn1_decreases:
  assumes "(Some r, c') = CBS_get_asn1 tag c"
  shows "cbs_len c' < cbs_len c"
proof -
  obtain e c1 where e: "cbs_get_any_asn1_element False c = (Some e, c1)" "c' = c1"
    using assms [symmetric] unfolding CBS_get_asn1_def cbs_get_asn1_def CBS_get_any_asn1_element_def
    by (auto simp: cbs_bind_eq_Some split: if_splits prod.splits option.splits)
  then show ?thesis using cbs_get_any_asn1_element_len [OF e(1)] by simp
qed

termination implicit_string_loop
  by (relation "measure (\<lambda>(a, t, c, s). cbs_len c)") (auto dest: CBS_get_asn1_decreases)

declare implicit_string_loop.simps [simp del]

definition CBS_get_asn1_implicit_string ::
  "sys_alloc \<Rightarrow> u32 \<Rightarrow> u32 \<Rightarrow> (CBS \<times> u8 list option) reader" where
  "CBS_get_asn1_implicit_string a outer_tag inner_tag cin =
     (if CBS_peek_asn1_tag cin outer_tag
      then cbs_bind (CBS_get_asn1 outer_tag cin) (\<lambda>out cin1. (Some (out, None), cin1))
      else
        (case CBB_init a (CBS_len cin) of
           (None, _) \<Rightarrow> (None, cin)
         | (Some _, result) \<Rightarrow>
             cbs_bind (CBS_get_asn1 (outer_tag OR CBS_ASN1_CONSTRUCTED) cin) (\<lambda>child cin1.
               (case implicit_string_loop a inner_tag child result of
                  (None, _) \<Rightarrow> (None, cin1)
                | (Some _, result1) \<Rightarrow>
                    (case CBB_finish a False 0 result1 of
                       (None, _) \<Rightarrow> (None, cin1)
                     | (Some (data, len), _) \<Rightarrow> (Some (CBS_init data len, Some data), cin1))))))"

section \<open>Sequences of DER elements\<close>

inductive der_items :: "u8 list \<Rightarrow> bool" where
  der_Nil: "der_items []"
| der_primitive:
    "\<not> constructed_tag tag \<Longrightarrow> length body < 4294967296 \<Longrightarrow> der_items rest \<Longrightarrow>
       der_items (der_element (tag, body) @ rest)"
| der_constructed:
    "constructed_tag tag \<Longrightarrow> \<not> is_string_type tag \<Longrightarrow> length body < 4294967296 \<Longrightarrow>
       der_items body \<Longrightarrow> der_items rest \<Longrightarrow> der_items (der_element (tag, body) @ rest)"

lemma der_items_append: "der_items x \<Longrightarrow> der_items y \<Longrightarrow> der_items (x @ y)"
  by (induction rule: der_items.induct) (auto intro: der_items.intros)

lemma der_element_ne: "der_element x \<noteq> []"
  using length_asn1_tag_bytes(2) by (auto simp: der_element_def split: prod.splits)

text \<open>The contents of a constructed element of a sequence are such a sequence.\<close>

lemma der_items_contents:
  assumes "der_items (der_element (tag, body) @ rest)" and "constructed_tag tag" and "length body < 4294967296"
  shows "der_items body"
  using assms(1)
proof cases
  case der_Nil
  then show ?thesis using der_element_ne by simp
next
  case (der_primitive tag' body' rest')
  have "(tag', body') = (tag, body)"
    using der.prefix_free [of "(tag', body')" "(tag, body)" rest' rest] der_primitive assms(3) by simp
  then show ?thesis using der_primitive(2) assms(2) by simp
next
  case (der_constructed tag' body' rest')
  have "(tag', body') = (tag, body)"
    using der.prefix_free [of "(tag', body')" "(tag, body)" rest' rest] der_constructed assms(3) by simp
  then show ?thesis using der_constructed(5) by simp
qed

section \<open>What the BER element reader yields\<close>

lemma ber_element_definite:
  assumes wf: "CBS_wf c" and g: "CBS_get_any_ber_asn1_element c = (Some e, c')"
    and nb: "\<not> el_ber_found e"
  shows "CBS_get_any_asn1_element c = (Some e, c')"
proof -
  obtain tag b h1 h2 where h: "consumes c (asn1_tag_bytes tag) h1" "consumes h1 [b] h2"
    "element_body True tag b (length (asn1_tag_bytes tag) + 1) h2 c = (Some e, c')"
    by (rule cbs_get_any_asn1_element_header [OF wf g [unfolded CBS_get_any_ber_asn1_element_def]])
  have ber: "el_ber_found e = f" if "asn1_element_take n t hl f c = (Some e, c')" for n t hl f
    by (rule asn1_element_take_sound(6) [OF wf that])
  have "element_body False tag b (length (asn1_tag_bytes tag) + 1) h2 c = (Some e, c')"
    using h(3) nb unfolding element_body_def Let_def
    by (auto split: if_splits prod.splits option.splits dest: ber)
  then show ?thesis
    unfolding CBS_get_any_asn1_element_def cbs_get_any_asn1_element_eq [OF h(1,2)] .
qed

lemma ber_contents:
  assumes wf: "CBS_wf c" and g: "CBS_get_any_ber_asn1_element c = (Some e, c1)"
    and sk: "CBS_skip (el_header_len e) (el_out e) = (Some u, contents)"
  shows "CBS_wf contents" and "cbs_bytes contents = snd (element_view e)"
    and "cbs_len contents < cbs_len c"
proof -
  have "contents = cbs_drop (el_header_len e) (el_out e)"
    using sk by (auto simp: CBS_skip_eq split: if_splits)
  then show "CBS_wf contents" "cbs_bytes contents = snd (element_view e)"
    using cbs_get_any_asn1_element_window(1) [OF wf g [unfolded CBS_get_any_ber_asn1_element_def]]
    by (simp_all add: element_view_def)
  show "cbs_len contents < cbs_len c" by (rule ber_contents_decrease [OF g [symmetric] sk [symmetric]])
qed

lemma ber_element_wf:
  assumes "CBS_wf c" and "CBS_get_any_ber_asn1_element c = (Some e, c1)"
  shows "CBS_wf c1" and "cbs_len c1 < cbs_len c"
  using cbs_get_any_asn1_element_window(2) [OF assms(1) assms(2) [unfolded CBS_get_any_ber_asn1_element_def]]
    ber_element_decreases [OF assms(2) [symmetric]] consumesD(2) by blast+

text \<open>
  What the answer of the walk rests on: the headers of all elements of the input and, of the last one only, those
  of its contents. What is in the elements before the last has been overwritten by then.
\<close>

inductive der_seen :: "u8 list \<Rightarrow> bool" where
  seen_Nil: "der_seen []"
| seen_primitive:
    "\<not> constructed_tag tag \<Longrightarrow> length body < 4294967296 \<Longrightarrow> der_seen rest \<Longrightarrow>
       der_seen (der_element (tag, body) @ rest)"
| seen_inner:
    "constructed_tag tag \<Longrightarrow> \<not> is_string_type tag \<Longrightarrow> length body < 4294967296 \<Longrightarrow>
       rest \<noteq> [] \<Longrightarrow> der_seen rest \<Longrightarrow> der_seen (der_element (tag, body) @ rest)"
| seen_last:
    "constructed_tag tag \<Longrightarrow> \<not> is_string_type tag \<Longrightarrow> length body < 4294967296 \<Longrightarrow>
       der_seen body \<Longrightarrow> der_seen (der_element (tag, body))"

lemma der_items_seen: "der_items bs \<Longrightarrow> der_seen bs"
proof (induction rule: der_items.induct)
  case (der_constructed tag body rest)
  then show ?case by (cases "rest = []") (auto intro: seen_inner seen_last)
qed (auto intro: der_seen.intros)

lemma cbs_bytes_Nil: "CBS_wf c \<Longrightarrow> cbs_bytes c = [] \<longleftrightarrow> CBS_len c = 0"
  by (auto simp: CBS_len_def CBS_wf_def cbs_bytes_def)

lemma find_ber_loop_seen:
  "CBS_wf c \<Longrightarrow> find_ber_loop c f depth = Some False \<Longrightarrow> cbs_bytes c = [] \<and> \<not> f \<or> cbs_bytes c \<noteq> [] \<and> der_seen (cbs_bytes c)"
proof (induction c f depth rule: find_ber_loop.induct)
  case (1 c f depth)
  note res = "1.prems"(2) [unfolded find_ber_loop.simps [of c f depth]]
  show ?case
  proof (cases "CBS_len c = 0")
    case True
    then show ?thesis using res "1.prems"(1) by (simp add: cbs_bytes_Nil split: if_splits)
  next
    case ne: False
    obtain e c1 where g: "CBS_get_any_ber_asn1_element c = (Some e, c1)"
      using res ne by (auto split: if_splits prod.splits option.splits)
    have nd: "\<not> depth > kMaxDepth" and nb: "\<not> el_ber_found e"
      using res ne g by (auto split: if_splits)
    have s: "length (snd (element_view e)) < 4294967296" "consumes c (der_element (element_view e)) c1"
      using der_element_sound [OF "1.prems"(1) ber_element_definite [OF "1.prems"(1) g nb]] by blast+
    have view: "element_view e = (el_tag e, snd (element_view e))" by (simp add: element_view_def)
    have split: "cbs_bytes c = der_element (el_tag e, snd (element_view e)) @ cbs_bytes c1"
      using consumesD(3) [OF s(2)] view by simp
    have wf1: "CBS_wf c1" by (rule ber_element_wf [OF "1.prems"(1) g])
    have "der_seen (cbs_bytes c)"
    proof (cases "constructed_tag (el_tag e)")
      case False
      then have "find_ber_loop c1 False depth = Some False"
        using res nd ne g nb by (simp add: constructed_tag_def)
      then have "der_seen (cbs_bytes c1)"
        using "1.IH"(3) [OF nd ne g [symmetric] refl nb] wf1 False seen_Nil by (auto simp: constructed_tag_def)
      with False s(1) show ?thesis unfolding split by (rule seen_primitive)
    next
      case True
      then have str: "\<not> is_string_type (el_tag e)"
        using res nd ne g nb by (auto simp: constructed_tag_def split: if_splits)
      obtain u contents where sk: "CBS_skip (el_header_len e) (el_out e) = (Some u, contents)"
        using res nd ne g nb True str
        by (auto simp: constructed_tag_def split: if_splits prod.splits option.splits)
      note ct = ber_contents [OF "1.prems"(1) g sk]
      obtain f1 where fb: "find_ber_loop contents False (depth + 1) = Some f1" "find_ber_loop c1 f1 depth = Some False"
        using res nd ne g nb True str sk
        by (auto simp: constructed_tag_def split: if_splits option.splits)
      have T: "el_tag e AND CBS_ASN1_CONSTRUCTED \<noteq> 0" using True by (simp add: constructed_tag_def)
      have rest: "cbs_bytes c1 = [] \<and> \<not> f1 \<or> cbs_bytes c1 \<noteq> [] \<and> der_seen (cbs_bytes c1)"
        by (rule "1.IH"(2) [OF nd ne g [symmetric] refl nb T str sk [symmetric] refl fb(1) wf1 fb(2)])
      show ?thesis
      proof (cases "cbs_bytes c1 = []")
        case last: True
        then have "find_ber_loop contents False (depth + 1) = Some False" using rest fb(1) by simp
        then have "der_seen (cbs_bytes contents)"
          using "1.IH"(1) [OF nd ne g [symmetric] refl nb T str sk [symmetric] refl ct(1)] seen_Nil by auto
        then show ?thesis unfolding split last using True str s(1) ct(2) by (auto intro: seen_last)
      next
        case False
        then show ?thesis unfolding split using True str s(1) rest by (auto intro: seen_inner)
      qed
    qed
    then show ?thesis using ne "1.prems"(1) by (simp add: cbs_bytes_Nil)
  qed
qed

section \<open>What the conversion writes\<close>

lemma grows_refl: "CBB_wf s \<Longrightarrow> grows s [] s"
  by (auto simp: grows_def buffer_grows_def CBB_wf_def)

lemma flush_bound:
  assumes top: "CBB_top d s" and op: "opens d T 1 True s s1" and g: "grows s1 bs s2"
    and fl: "CBB_flush a d s2 = (Some u, s3)"
  shows "length bs \<le> 0xfffffffe"
proof -
  obtain b s0 where o: "cbb_base s = Some b" "grows s (T @ replicate 1 0) s0"
      "s1 = push_child d (bb_len b + length T) 1 True s0"
    using op by (auto simp: opens_def)
  have top1: "CBB_top (d + 1) s1" by (rule opens_top [OF top op]) simp_all
  obtain b0 where b0: "cbb_base s0 = Some b0" "buffer_grows b (T @ replicate 1 0) b0" "cbb_chain s0 = cbb_chain s"
    using o(1,2) by (auto simp: grows_def)
  obtain b2 where b2: "cbb_base s2 = Some b2" "buffer_grows b0 bs b2" "cbb_chain s2 = cbb_chain s1"
    using g b0(1) unfolding o(3) push_child_def by (auto simp: grows_def)
  have okb: "buffer_ok b" using top o(1) by (auto simp: CBB_top_def CBB_wf_def)
  have len: "bb_len b2 = bb_len b + length T + 1 + length bs"
    using buffer_grows_len [OF okb buffer_grows_trans [OF b0(2) b2(2)]] by simp
  let ?f = "cbb_chain s2 ! (d + 1)"
  have f: "fr_offset ?f = bb_len b + length T" "fr_pending_len_len ?f = 1" "fr_pending_is_asn1 ?f"
    unfolding b2(3) o(3) push_child_def using b0(3) top by (simp_all add: nth_append CBB_top_def)
  have "fst (flush_prefix a ?f b2) \<noteq> None"
    using fl CBB_flush_child [OF grows_top [OF top1 g] b2(1), of a]
    by (auto split: prod.splits option.splits)
  then have "asn1_length_form (length bs) \<noteq> None"
    unfolding flush_prefix_def Let_def f(1,2) using f(3) len by (auto split: option.splits)
  then show ?thesis by (simp add: asn1_length_form_def split: if_splits)
qed

lemma constructed_and_not: "\<not> constructed_tag (tag AND NOT CBS_ASN1_CONSTRUCTED)"
  by (simp add: constructed_tag_def and.assoc)

lemma ber_begin_cases:
  assumes "ber_begin a st d tag out = (Some d1, out1)" and "CBB_top d out"
  shows "CBB_top d1 out1"
    and "st = 0 \<Longrightarrow> d1 = d + 1 \<and> opens d (asn1_tag_bytes (ber_out_tag tag)) 1 True out out1"
    and "st \<noteq> 0 \<Longrightarrow> d1 = d \<and> out1 = out"
proof -
  show z: "st = 0 \<Longrightarrow> d1 = d + 1 \<and> opens d (asn1_tag_bytes (ber_out_tag tag)) 1 True out out1"
    using assms(1) asn1_child.open_cases [OF assms(2), where a = a and tag = "ber_out_tag tag"]
    by (auto simp: ber_begin_def cbb_bind_Some)
  show nz: "st \<noteq> 0 \<Longrightarrow> d1 = d \<and> out1 = out"
    using assms(1) by (auto simp: ber_begin_def split: if_splits)
  show "CBB_top d1 out1"
  proof (cases "st = 0")
    case True
    with z have "d1 = d + 1" "opens d (asn1_tag_bytes (ber_out_tag tag)) 1 True out out1" by auto
    with opens_top [OF assms(2)] show ?thesis by simp
  qed (use nz assms(2) in simp)
qed

text \<open>One round of the loop: an element opened, its contents \<open>bs\<close> written, the parent flushed.\<close>

lemma ber_round:
  assumes top: "CBB_top d out" and b: "ber_begin a st d tag out = (Some d1, out1)"
    and g: "grows out1 bs out2" and fl: "CBB_flush a d out2 = (Some u, out3)"
    and items: "ber_child_string_tag st tag = 0 \<Longrightarrow> constructed_tag tag \<Longrightarrow> der_items bs"
  shows "\<exists>bs'. grows out bs' out3 \<and> (st = 0 \<longrightarrow> der_items bs')"
proof (cases "st = 0")
  case True
  let ?t = "ber_out_tag tag"
  note B = ber_begin_cases [OF b top]
  have op: "opens d (asn1_tag_bytes ?t) 1 True out out1" using B(2) True by blast
  have n: "length bs \<le> 0xfffffffe" by (rule flush_bound [OF top op g fl])
  have gr: "grows out (der_element (?t, bs)) out3"
    using asn1_child.closes [OF top op g, of a] n fl by (simp add: der_element_def)
  have len: "length bs < 4294967296" using n by simp
  have "der_items (der_element (?t, bs) @ [])"
  proof (cases "constructed_tag ?t")
    case False
    then show ?thesis using len der_Nil by (rule der_primitive)
  next
    case True
    then have t: "?t = tag" "constructed_tag tag" "\<not> is_string_type tag"
      using constructed_and_not by (auto simp: ber_out_tag_def split: if_splits)
    then have "der_items bs" using items \<open>st = 0\<close> by (simp add: ber_child_string_tag_def)
    then show ?thesis unfolding t(1) by (rule der_constructed [OF t(2,3) len _ der_Nil])
  qed
  with gr show ?thesis by auto
next
  case False
  then have "out1 = out" using ber_begin_cases(3) [OF b top] by blast
  moreover have "out3 = out2"
    using CBB_flush_top [OF grows_top [OF top g [unfolded calculation]]] fl by simp
  ultimately show ?thesis using g False by auto
qed

lemma cbs_convert_ber_len: "cbs_len (fst (snd (cbs_convert_ber a st look depth d cin out))) \<le> cbs_len cin"
  by (rule cbs_convert_ber_len_partial) (rule allE [OF cbs_convert_ber_total])

lemma cbs_convert_ber_der:
  "CBB_top d out \<Longrightarrow> CBS_wf cin \<Longrightarrow> cbs_len cin < SIZE_LIMIT \<Longrightarrow>
     cbs_convert_ber a st look depth d cin out = (Some u, cin', out') \<Longrightarrow>
     CBS_wf cin' \<and> (\<exists>bs. grows out bs out' \<and> (st = 0 \<longrightarrow> der_items bs))"
proof (induction a st look depth d cin out arbitrary: u cin' out' rule: cbs_convert_ber.induct)
  case (1 a st look depth d cin out)
  note top = "1.prems"(1) and wf = "1.prems"(2) and lim = "1.prems"(3)
  note res = "1.prems"(4) [unfolded cbs_convert_ber.simps [of a st look depth d cin out]]
  have idle: "\<exists>bs. grows out bs out \<and> (st = 0 \<longrightarrow> der_items bs)"
    using grows_refl der_Nil top by (auto simp: CBB_top_def)
  have nd: "\<not> kMaxDepth < depth" using res by auto
  show ?case
  proof (cases "CBS_len cin = 0")
    case True
    then have eq: "cin' = cin" "out' = out" using res nd by (auto split: if_splits)
    show ?thesis unfolding eq by (intro conjI wf idle)
  next
    case ne: False
    obtain e c1 where el: "CBS_get_any_ber_asn1_element cin = (Some e, c1)"
      using res nd ne by (auto split: prod.splits option.splits)
    note w1 = ber_element_wf [OF wf el]
    show ?thesis
    proof (cases "is_eoc (el_header_len e) (el_out e)")
      case True
      then have eq: "cin' = c1" "out' = out" using res nd ne el by (auto split: if_splits)
      show ?thesis unfolding eq by (intro conjI w1(1) idle)
    next
      case eoc: False
      obtain d1 out1 where b: "ber_begin a st d (el_tag e) out = (Some d1, out1)"
        using res nd ne el eoc by (auto split: prod.splits option.splits)
      have top1: "CBB_top d1 out1" by (rule ber_begin_cases(1) [OF b top])
      note ih = "1.IH" [OF nd ne el [symmetric] refl eoc b [symmetric] refl]
      let ?cst = "ber_child_string_tag st (el_tag e)"
      define child where "child = (if is_indefinite e
        then cbs_convert_ber a ?cst True (depth + 1) d1 c1 out1
        else case CBS_skip (el_header_len e) (el_out e) of
          (None, _) \<Rightarrow> (None, c1, out1)
        | (Some _, contents) \<Rightarrow> if constructed_tag (el_tag e)
            then case cbs_convert_ber a ?cst False (depth + 1) d1 contents out1 of
                   (r, _, out2) \<Rightarrow> (r, c1, out2)
            else case CBB_add_bytes a d1 (take (CBS_len contents) (CBS_data contents)) out1 of
                   (r, out2) \<Rightarrow> (r, c1, out2))"
      obtain v c2 out2 w out3 where ch: "child = (Some v, c2, out2)" "CBB_flush a d out2 = (Some w, out3)"
          "cbs_convert_ber a st look depth d c2 out3 = (Some u, cin', out')"
        using res nd ne el eoc b by (auto simp: child_def [symmetric] split: prod.splits option.splits)
      have "CBS_wf c2 \<and> cbs_len c2 \<le> cbs_len c1 \<and>
          (\<exists>bs. grows out1 bs out2 \<and> (?cst = 0 \<longrightarrow> constructed_tag (el_tag e) \<longrightarrow> der_items bs))"
      proof (cases "is_indefinite e")
        case True
        then have c: "cbs_convert_ber a ?cst True (depth + 1) d1 c1 out1 = (Some v, c2, out2)"
          using ch(1) by (simp add: child_def)
        then have "cbs_len c2 \<le> cbs_len c1"
          using cbs_convert_ber_len [of a ?cst True "depth + 1" d1 c1 out1] by simp
        moreover have "cbs_len c1 < SIZE_LIMIT" using w1(2) lim by linarith
        ultimately show ?thesis using ih(1) [OF True top1 w1(1) _ c] by blast
      next
        case ni: False
        obtain x contents where sk: "CBS_skip (el_header_len e) (el_out e) = (Some x, contents)"
          using ch(1) ni by (auto simp: child_def split: prod.splits option.splits)
        note ct = ber_contents [OF wf el sk]
        have lc: "cbs_len contents < SIZE_LIMIT" using ct(3) lim by linarith
        show ?thesis
        proof (cases "constructed_tag (el_tag e)")
          case True
          then obtain c3 where c: "cbs_convert_ber a ?cst False (depth + 1) d1 contents out1 = (Some v, c3, out2)"
              "c2 = c1"
            using ch(1) ni sk by (auto simp: child_def split: prod.splits)
          from ih(2) [OF ni sk [symmetric] refl True top1 ct(1) lc c(1)] w1(1) c(2) show ?thesis by blast
        next
          case False
          have c: "CBB_add_bytes a d1 (cbs_bytes contents) out1 = (Some v, out2)" "c2 = c1"
            using ch(1) ni sk False
            by (auto simp: child_def cbs_bytes_def CBS_len_def CBS_data_def split: prod.splits)
          have "length (cbs_bytes contents) < SIZE_LIMIT" using ct(1) lc by simp
          from emits_Some [OF emits_CBB_add_bytes [OF this] top1 c(1)] False w1(1) c(2)
          show ?thesis by auto
        qed
      qed
      then obtain bs where C: "CBS_wf c2" "cbs_len c2 \<le> cbs_len c1" "grows out1 bs out2"
          "?cst = 0 \<Longrightarrow> constructed_tag (el_tag e) \<Longrightarrow> der_items bs" by blast
      obtain bs1 where r1: "grows out bs1 out3" "st = 0 \<longrightarrow> der_items bs1"
        using ber_round [OF top b C(3) ch(2) C(4)] by blast
      have "CBS_wf cin' \<and> (\<exists>bs. grows out3 bs out' \<and> (st = 0 \<longrightarrow> der_items bs))"
      proof (rule ih(3) [OF _ refl refl ch(2) [symmetric] refl])
        show "(Some v, c2, out2) = (if is_indefinite e
            then cbs_convert_ber a ?cst True (depth + 1) d1 c1 out1
            else case CBS_skip (el_header_len e) (el_out e) of
              (None, _) \<Rightarrow> (None, c1, out1)
            | (Some _, contents) \<Rightarrow> if constructed_tag (el_tag e)
                then case cbs_convert_ber a ?cst False (depth + 1) d1 contents out1 of
                       (r, _, out2) \<Rightarrow> (r, c1, out2)
                else case CBB_add_bytes a d1 (take (CBS_len contents) (CBS_data contents)) out1 of
                       (r, out2) \<Rightarrow> (r, c1, out2))"
          using ch(1) unfolding child_def by simp
        show "CBB_top d out3" by (rule grows_top [OF top r1(1)])
        show "cbs_len c2 < SIZE_LIMIT" using C(2) w1(2) lim by linarith
      qed (use C(1) ch(3) in auto)
      then show ?thesis using r1 grows_trans der_items_append by blast
    qed
  qed
qed

lemma CBB_init_top:
  assumes "CBB_init a n = (Some u, s)" and "n < SIZE_LIMIT"
  shows "CBB_top 0 s" and "\<exists>b. cbb_base s = Some b \<and> written b = []"
proof -
  obtain buf where b: "length buf = n" "s = \<lparr>cbb_base = Some \<lparr>bb_buf = buf, bb_len = 0, bb_cap = n,
      bb_can_resize = True, bb_error = False\<rparr>, cbb_chain = [zero_frame]\<rparr>"
    using assms(1) OPENSSL_malloc_length [of a n]
    by (cases "OPENSSL_malloc a n")
      (auto simp: CBB_init_def cbb_init_def CBB_zero_def zero_frame_def Let_def
        split: option.splits if_splits)
  then show "CBB_top 0 s" "\<exists>b. cbb_base s = Some b \<and> written b = []"
    using assms(2)
    by (simp_all add: CBB_top_def CBB_wf_def buffer_ok_def chain_ok_def zero_frame_def written_def)
qed

lemma CBB_finish_written:
  assumes "CBB_top 0 s" and "cbb_base s = Some b" and "CBB_finish a False 0 s = (Some (data, n), s')"
  shows "CBS_wf (CBS_init data n)" and "cbs_bytes (CBS_init data n) = written b"
proof -
  have "data = bb_buf b" "n = bb_len b"
    using assms by (auto simp: CBB_finish_def CBB_flush_top)
  moreover have "buffer_ok b" using assms(1,2) by (auto simp: CBB_top_def CBB_wf_def)
  ultimately show "CBS_wf (CBS_init data n)" "cbs_bytes (CBS_init data n) = written b"
    by (simp_all add: CBS_wf_def CBS_init_def cbs_bytes_def written_def buffer_ok_def)
qed

section \<open>DER input\<close>

text \<open>A sequence of DER elements nested at most \<open>k\<close> deep.\<close>

inductive der_nested :: "nat \<Rightarrow> u8 list \<Rightarrow> bool" where
  nested_Nil: "der_nested k []"
| nested_primitive:
    "\<not> constructed_tag tag \<Longrightarrow> length body < 4294967296 \<Longrightarrow> der_nested k rest \<Longrightarrow>
       der_nested k (der_element (tag, body) @ rest)"
| nested_constructed:
    "constructed_tag tag \<Longrightarrow> \<not> is_string_type tag \<Longrightarrow> length body < 4294967296 \<Longrightarrow>
       der_nested k body \<Longrightarrow> der_nested (Suc k) rest \<Longrightarrow>
       der_nested (Suc k) (der_element (tag, body) @ rest)"

lemma der_element_by_ber_reader:
  assumes wf: "CBS_wf c" and g: "CBS_get_any_asn1_element c = (Some e, c')"
  shows "CBS_get_any_ber_asn1_element c = (Some e, c')" and "\<not> el_ber_found e"
proof -
  obtain tag b h1 h2 where h: "consumes c (asn1_tag_bytes tag) h1" "consumes h1 [b] h2"
    "element_body False tag b (length (asn1_tag_bytes tag) + 1) h2 c = (Some e, c')"
    by (rule cbs_get_any_asn1_element_header [OF wf g [unfolded CBS_get_any_asn1_element_def]])
  have ber: "el_ber_found e = f" if "asn1_element_take n t hl f c = (Some e, c')" for n t hl f
    by (rule asn1_element_take_sound(6) [OF wf that])
  have "element_body True tag b (length (asn1_tag_bytes tag) + 1) h2 c = (Some e, c')"
    using h(3) unfolding element_body_def Let_def
    by (auto split: if_splits prod.splits option.splits)
  then show "CBS_get_any_ber_asn1_element c = (Some e, c')"
    unfolding CBS_get_any_ber_asn1_element_def cbs_get_any_asn1_element_eq [OF h(1,2)] .
  show "\<not> el_ber_found e"
    using h(3) unfolding element_body_def Let_def
    by (auto split: if_splits prod.splits option.splits dest: ber)
qed

lemma read_der_element:
  assumes "CBS_wf c" and "cbs_bytes c = der_element (tag, body) @ rest" and "length body < 4294967296"
  obtains e c1 contents where "CBS_get_any_ber_asn1_element c = (Some e, c1)" and "\<not> el_ber_found e"
    and "el_tag e = tag" and "CBS_skip (el_header_len e) (el_out e) = (Some (), contents)"
    and "CBS_wf contents" and "cbs_bytes contents = body" and "CBS_wf c1" and "cbs_bytes c1 = rest"
    and "CBS_get_any_asn1_element c = (Some e, c1)" and "CBS_len c \<noteq> 0"
proof -
  obtain e c1 where e: "CBS_get_any_asn1_element c = (Some e, c1)" "element_view e = (tag, body)"
      "CBS_wf c1" "cbs_bytes c1 = rest"
    using der.roundtrip [of "(tag, body)" c rest] assms by auto
  note B = der_element_by_ber_reader [OF assms(1) e(1)]
  have "el_header_len e \<le> cbs_len (el_out e)" by (rule ber_element_len(2) [OF B(1)])
  then have sk: "CBS_skip (el_header_len e) (el_out e) = (Some (), cbs_drop (el_header_len e) (el_out e))"
    by (simp add: CBS_skip_eq)
  note ct = ber_contents [OF assms(1) B(1) sk]
  have "CBS_len c \<noteq> 0" using ct(3) by (simp add: CBS_len_def)
  then show thesis using that B sk ct e by (simp add: element_view_def)
qed

lemma find_ber_loop_primitive:
  assumes "CBS_wf c" and "cbs_bytes c = der_element (tag, body) @ rest" and "length body < 4294967296" and "\<not> constructed_tag tag"
  obtains c1 where "CBS_wf c1" and "cbs_bytes c1 = rest"
    and "\<And>f depth. depth \<le> kMaxDepth \<Longrightarrow> find_ber_loop c f depth = find_ber_loop c1 False depth"
proof -
  obtain e c1 where e: "CBS_get_any_ber_asn1_element c = (Some e, c1)" "\<not> el_ber_found e" "el_tag e = tag"
      "CBS_wf c1" "cbs_bytes c1 = rest" "CBS_len c \<noteq> 0"
    by (rule read_der_element [OF assms(1,2,3)])
  have "find_ber_loop c f depth = find_ber_loop c1 False depth" if "depth \<le> kMaxDepth" for f depth
    using e that assms(4) by (subst find_ber_loop.simps) (simp add: constructed_tag_def)
  then show thesis using that e(4,5) by blast
qed

lemma find_ber_loop_constructed:
  assumes "CBS_wf c" and "cbs_bytes c = der_element (tag, body) @ rest" and "length body < 4294967296"
    and "constructed_tag tag" and "\<not> is_string_type tag"
  obtains contents c1 where "CBS_wf contents" and "cbs_bytes contents = body" and "CBS_wf c1" and "cbs_bytes c1 = rest"
    and "\<And>f depth. depth \<le> kMaxDepth \<Longrightarrow> find_ber_loop c f depth =
      (case find_ber_loop contents False (depth + 1) of None \<Rightarrow> None | Some g \<Rightarrow> find_ber_loop c1 g depth)"
proof -
  obtain e c1 contents where e: "CBS_get_any_ber_asn1_element c = (Some e, c1)" "\<not> el_ber_found e" "el_tag e = tag"
      "CBS_skip (el_header_len e) (el_out e) = (Some (), contents)" "CBS_wf contents" "cbs_bytes contents = body"
      "CBS_wf c1" "cbs_bytes c1 = rest" "CBS_len c \<noteq> 0"
    by (rule read_der_element [OF assms(1,2,3)])
  have "find_ber_loop c f depth =
      (case find_ber_loop contents False (depth + 1) of None \<Rightarrow> None | Some g \<Rightarrow> find_ber_loop c1 g depth)"
    if "depth \<le> kMaxDepth" for f depth
    using e that assms(4,5) by (subst find_ber_loop.simps) (simp add: constructed_tag_def)
  then show thesis using that e(5-8) by blast
qed

lemma find_ber_loop_Nil: "CBS_wf c \<Longrightarrow> cbs_bytes c = [] \<Longrightarrow> depth \<le> kMaxDepth \<Longrightarrow> find_ber_loop c f depth = Some f"
  by (subst find_ber_loop.simps) (simp add: cbs_bytes_Nil)

lemma cbs_find_ber_none:
  "der_nested k bs \<Longrightarrow> CBS_wf c \<Longrightarrow> cbs_bytes c = bs \<Longrightarrow> depth + k \<le> kMaxDepth \<Longrightarrow>
     find_ber_loop c False depth = Some False"
proof (induction arbitrary: c depth rule: der_nested.induct)
  case (nested_Nil k)
  then show ?case by (simp add: find_ber_loop_Nil)
next
  case (nested_primitive tag body k rest)
  obtain c1 where "CBS_wf c1" "cbs_bytes c1 = rest" "find_ber_loop c False depth = find_ber_loop c1 False depth"
    by (rule find_ber_loop_primitive [OF nested_primitive.prems(1,2) nested_primitive.hyps(2,1)])
      (use nested_primitive.prems(3) in simp)
  then show ?case using nested_primitive by simp
next
  case (nested_constructed tag body k rest)
  obtain contents c1 where "CBS_wf contents" "cbs_bytes contents = body" "CBS_wf c1" "cbs_bytes c1 = rest"
      "find_ber_loop c False depth =
        (case find_ber_loop contents False (depth + 1) of None \<Rightarrow> None | Some g \<Rightarrow> find_ber_loop c1 g depth)"
    by (rule find_ber_loop_constructed [OF nested_constructed.prems(1,2) nested_constructed.hyps(3,1,2)])
      (use nested_constructed.prems(3) in simp)
  then show ?case using nested_constructed by simp
qed

text \<open>Nothing is found in an input whose seen headers are those of DER.\<close>

lemma find_ber_loop_depth: "find_ber_loop c f depth = Some g \<Longrightarrow> depth \<le> kMaxDepth"
  by (subst (asm) find_ber_loop.simps) (simp split: if_splits)

lemma find_ber_loop_seen_False:
  "der_seen bs \<Longrightarrow> CBS_wf c \<Longrightarrow> cbs_bytes c = bs \<Longrightarrow> find_ber_loop c f depth = Some g \<Longrightarrow> g = (f \<and> bs = [])"
proof (induction arbitrary: c f depth g rule: der_seen.induct)
  case seen_Nil
  then show ?case using find_ber_loop_Nil find_ber_loop_depth [OF seen_Nil(3)] by simp
next
  case (seen_primitive tag body rest)
  obtain c1 where "CBS_wf c1" "cbs_bytes c1 = rest" "find_ber_loop c f depth = find_ber_loop c1 False depth"
    by (rule find_ber_loop_primitive [OF seen_primitive.prems(1,2) seen_primitive.hyps(2,1)])
      (use find_ber_loop_depth [OF seen_primitive.prems(3)] in simp)
  then show ?case using seen_primitive.IH [of c1 False depth g] seen_primitive.prems(3) by (simp add: der_element_ne)
next
  case (seen_inner tag body rest)
  obtain contents c1 where "CBS_wf c1" "cbs_bytes c1 = rest" "find_ber_loop c f depth =
        (case find_ber_loop contents False (depth + 1) of None \<Rightarrow> None | Some g \<Rightarrow> find_ber_loop c1 g depth)"
    by (rule find_ber_loop_constructed [OF seen_inner.prems(1,2) seen_inner.hyps(3,1,2)])
      (use find_ber_loop_depth [OF seen_inner.prems(3)] in simp)
  moreover from this(3) obtain f1 where "find_ber_loop c1 f1 depth = Some g"
    using seen_inner.prems(3) by (auto split: option.splits)
  ultimately show ?case using seen_inner.IH [of c1 f1 depth g] seen_inner.hyps(4) by (simp add: der_element_ne)
next
  case (seen_last tag body)
  have "cbs_bytes c = der_element (tag, body) @ []" using seen_last.prems(2) by simp
  then obtain contents c1 where "CBS_wf contents" "cbs_bytes contents = body" "CBS_wf c1" "cbs_bytes c1 = []"
      "find_ber_loop c f depth =
        (case find_ber_loop contents False (depth + 1) of None \<Rightarrow> None | Some g \<Rightarrow> find_ber_loop c1 g depth)"
    by (rule find_ber_loop_constructed [OF seen_last.prems(1) _ seen_last.hyps(3,1,2)])
      (use find_ber_loop_depth [OF seen_last.prems(3)] in simp)
  then show ?case
    using seen_last.IH seen_last.prems(3) find_ber_loop_Nil [of c1 depth] find_ber_loop_depth [OF seen_last.prems(3)]
    by (auto simp: der_element_ne split: option.splits)
qed

lemma cbs_find_ber_iff:
  assumes "CBS_wf c" and "cbs_find_ber c depth = Some f"
  shows "f \<longleftrightarrow> \<not> der_seen (cbs_bytes c)"
proof
  show "\<not> der_seen (cbs_bytes c)" if f
    using find_ber_loop_seen_False [OF _ assms(1) refl, of False depth f] assms(2) that by (auto simp: cbs_find_ber_def)
  show f if "\<not> der_seen (cbs_bytes c)"
    using find_ber_loop_seen [OF assms(1), of False depth] assms(2) that seen_Nil by (cases f) (auto simp: cbs_find_ber_def)
qed

section \<open>Properties\<close>


lemmas ber_eval =
  cbs_find_ber_def find_ber_loop.simps CBS_get_any_ber_asn1_element_def cbs_get_any_asn1_element_def parse_asn1_tag_def
  CBS_get_u8_def cbs_get_def CBS_init_def CBS_len_def Let_def kMaxDepth_def asn1_element_take_def
  CBS_get_bytes_def CBS_ASN1_TAG_SHIFT_def CBS_ASN1_CONSTRUCTED_def CBS_asn1_ber_to_der_def
  CBB_init_def OPENSSL_malloc_def OPENSSL_MALLOC_PREFIX_def example_alloc_def cbb_init_def
  CBB_zero_def zero_frame_def cbs_convert_ber.simps is_eoc_def ber_begin_def CBS_data_def
  ber_out_tag_def constructed_tag_def is_string_type_def ber_child_string_tag_def CBB_add_asn1_def
  CBB_flush.simps on_base_def CBB_add_u8_def add_u_def cbb_buffer_add_u_def cbb_buffer_add_def
  cbb_buffer_reserve_def CBB_add_bytes_def push_child_def CBS_ASN1_OCTETSTRING_def
  CBS_ASN1_TAG_NUMBER_MASK_def CBS_skip_def is_indefinite_def flush_prefix_def asn1_length_form_def
  store_length_def mem_write_def CBB_finish_def



text \<open>
  C6. An input that is DER already, nested at most 2048 deep, is not converted: the first element is
  returned as a window on the input, nothing is allocated, and the reader is left behind it.
\<close>

theorem ber_to_der_keeps_der:
  assumes "CBS_wf c" and "length body < 2 ^ 32"
    and "cbs_bytes c = der_element (tag, body) @ rest" and "der_nested 2048 (cbs_bytes c)"
  shows "\<exists>out c'. CBS_asn1_ber_to_der a c = (Some (out, None), c') \<and>
    cbs_bytes out = der_element (tag, body) \<and> cbs_bytes c' = rest"
proof -
  have n: "length body < 4294967296" using assms(2) by simp
  have fb: "cbs_find_ber c 0 = Some False"
    unfolding cbs_find_ber_def by (rule cbs_find_ber_none [OF assms(4,1) refl]) (simp add: kMaxDepth_def)
  obtain e c1 where e: "CBS_get_any_asn1_element c = (Some e, c1)" "cbs_bytes c1 = rest"
    by (rule read_der_element [OF assms(1,3) n])
  have "cbs_bytes c = cbs_bytes (el_out e) @ cbs_bytes c1"
    using cbs_get_any_asn1_element_window(2) [OF assms(1) e(1) [unfolded CBS_get_any_asn1_element_def]]
    by (rule consumesD(3))
  then have "cbs_bytes (el_out e) = der_element (tag, body)" using assms(3) e(2) by simp
  then show ?thesis using fb e by (simp add: CBS_asn1_ber_to_der_def)
qed

theorem ber_to_der_keeps_der_witness:
  "\<exists>out c'. CBS_asn1_ber_to_der example_alloc (CBS_init [0x30, 3, 4, 1, 7, 9] 5) = (Some (out, None), c') \<and>
     cbs_bytes out = [0x30, 3, 4, 1, 7] \<and> cbs_bytes c' = []"
proof -
  let ?c = "CBS_init [0x30, 3, 4, 1, 7, 9] 5"
  have e: "der_element (CBS_ASN1_OCTETSTRING, [7]) = [4, 1, 7]"
      "der_element (CBS_ASN1_SEQUENCE, [4, 1, 7]) = [0x30, 3, 4, 1, 7]"
    by (simp_all add: der_element_def asn1_tag_bytes_def der_length_def CBS_ASN1_SEQUENCE_def
        CBS_ASN1_OCTETSTRING_def Let_def)
  have t: "constructed_tag CBS_ASN1_SEQUENCE" "\<not> is_string_type CBS_ASN1_SEQUENCE"
    "\<not> constructed_tag CBS_ASN1_OCTETSTRING"
    by (simp_all add: constructed_tag_def is_string_type_def CBS_ASN1_SEQUENCE_def
        CBS_ASN1_CONSTRUCTED_def CBS_ASN1_OCTETSTRING_def CBS_ASN1_UTF8STRING_def CBS_ASN1_NUMERICSTRING_def
        CBS_ASN1_PRINTABLESTRING_def CBS_ASN1_T61STRING_def CBS_ASN1_VIDEOTEXSTRING_def
        CBS_ASN1_IA5STRING_def CBS_ASN1_GRAPHICSTRING_def CBS_ASN1_VISIBLESTRING_def
        CBS_ASN1_GENERALSTRING_def CBS_ASN1_UNIVERSALSTRING_def CBS_ASN1_BMPSTRING_def)
  have "der_nested 2047 (der_element (CBS_ASN1_OCTETSTRING, [7]) @ [])"
    by (rule nested_primitive [OF t(3) _ nested_Nil]) simp
  then have i: "der_nested 2047 [4, 1, 7]" by (simp add: e(1))
  have "der_nested (Suc 2047) (der_element (CBS_ASN1_SEQUENCE, [4, 1, 7]) @ [])"
    by (rule nested_constructed [OF t(1,2) _ i nested_Nil]) simp
  moreover have c: "cbs_bytes ?c = der_element (CBS_ASN1_SEQUENCE, [4, 1, 7]) @ []"
    unfolding e by (simp add: cbs_bytes_def CBS_init_def)
  ultimately have n: "der_nested 2048 (cbs_bytes ?c)" by simp
  have "CBS_wf ?c" "length [4, 1, 7 :: u8] < 2 ^ 32" by (simp_all add: CBS_wf_def CBS_init_def)
  from ber_to_der_keeps_der [OF this c n, of example_alloc] show ?thesis unfolding e .
qed

end
