(* ===== verification/Comparison.thy ===== *)
theory Comparison
  imports Byte_Prelude "HOL-Library.Multiset"
begin

text \<open>
  The contract between a container and the comparison function its caller supplies, the
  contract of the C library's \<^verbatim>\<open>qsort\<close>, and the refinement of an abstract data type. The
  components that sort, search or keep their elements in order rest on these.
\<close>

section \<open>Comparison functions\<close>

text \<open>A C comparison function: the sign of its result orders the arguments.\<close>

locale comparator =
  fixes cmp :: "'a \<Rightarrow> 'a \<Rightarrow> int"
  assumes flip: "sgn (cmp x y) = - sgn (cmp y x)"
    and trans: "cmp x y \<le> 0 \<Longrightarrow> cmp y z \<le> 0 \<Longrightarrow> cmp x z \<le> 0"
begin

lemma flip_less: "cmp x y < 0 \<longleftrightarrow> 0 < cmp y x"
  using flip [of x y] by (simp add: sgn_if split: if_splits)

lemma flip_le: "cmp x y \<le> 0 \<longleftrightarrow> 0 \<le> cmp y x"
  using flip [of x y] by (auto simp: sgn_if split: if_splits)

lemma flip_eq: "cmp x y = 0 \<longleftrightarrow> cmp y x = 0"
  using flip [of x y] by (auto simp: sgn_if split: if_splits)

lemma refl_eq [simp]: "cmp x x = 0"
  using flip [of x x] by (simp add: sgn_if split: if_splits)

lemma less_le_trans: "cmp x y < 0 \<Longrightarrow> cmp y z \<le> 0 \<Longrightarrow> cmp x z < 0"
  using trans [of y z x] flip_less [of x y] flip_le [of x z] flip_less [of x z] by force

lemma le_less_trans: "cmp x y \<le> 0 \<Longrightarrow> cmp y z < 0 \<Longrightarrow> cmp x z < 0"
  using trans [of z x y] flip_less [of y z] flip_le [of z x] flip_less [of x z] by force

lemma eq_le: "cmp x y = 0 \<Longrightarrow> cmp y z \<le> 0 \<Longrightarrow> cmp x z \<le> 0"
  using trans [of x y z] by simp

end

text \<open>The same contract as a predicate, for comparison functions that are arguments.\<close>

definition comparator_ok :: "('a \<Rightarrow> 'a \<Rightarrow> int) \<Rightarrow> bool" where
  "comparator_ok cmp \<longleftrightarrow> (\<forall>x y. sgn (cmp x y) = - sgn (cmp y x))
     \<and> (\<forall>x y z. cmp x y \<le> 0 \<longrightarrow> cmp y z \<le> 0 \<longrightarrow> cmp x z \<le> 0)"

lemma comparator_ok_iff: "comparator_ok cmp \<longleftrightarrow> comparator cmp"
  by (auto simp: comparator_ok_def comparator_def)

definition ascending :: "('a \<Rightarrow> 'a \<Rightarrow> int) \<Rightarrow> 'a list \<Rightarrow> bool" where
  "ascending cmp = sorted_wrt (\<lambda>x y. cmp x y \<le> 0)"

lemma ascending_nth:
  assumes "comparator cmp" and "ascending cmp xs" and "i \<le> j" "j < length xs"
  shows "cmp (xs ! i) (xs ! j) \<le> 0"
proof (cases "i = j")
  case True
  then show ?thesis by (simp add: comparator.refl_eq [OF assms(1)])
next
  case False
  then show ?thesis using assms by (simp add: ascending_def sorted_wrt_iff_nth_less)
qed

lemma ascending_append:
  "ascending cmp (xs @ ys) \<longleftrightarrow>
     ascending cmp xs \<and> ascending cmp ys \<and> (\<forall>x\<in>set xs. \<forall>y\<in>set ys. cmp x y \<le> 0)"
  by (simp add: ascending_def sorted_wrt_append)

lemma ascending_delete:
  assumes "ascending cmp xs" shows "ascending cmp (take i xs @ drop (Suc i) xs)"
proof -
  have "ascending cmp (take i xs @ drop i xs)" using assms by simp
  then have "ascending cmp (take i xs)" "ascending cmp (drop i xs)" "\<forall>x\<in>set (take i xs). \<forall>y\<in>set (drop i xs). cmp x y \<le> 0"
    unfolding ascending_append by simp_all
  moreover have "drop (Suc i) xs = tl (drop i xs)" by (simp add: drop_Suc tl_drop)
  ultimately show ?thesis
    by (cases "drop i xs") (auto simp: ascending_def sorted_wrt_append)
qed

lemma ascending_short: "length xs < 2 \<Longrightarrow> ascending cmp xs"
  by (cases xs; cases "tl xs") (auto simp: ascending_def)

lemma ascending_unique:
  assumes "comparator cmp" and antisym: "\<And>x y. cmp x y = 0 \<Longrightarrow> x = y"
  shows "mset xs = mset ys \<Longrightarrow> ascending cmp xs \<Longrightarrow> ascending cmp ys \<Longrightarrow> xs = ys"
proof (induction xs arbitrary: ys)
  case (Cons x xs)
  then obtain y ys' where ys: "ys = y # ys'" by (cases ys) auto
  have "x \<in> set ys" "y \<in> set (x # xs)" using Cons.prems(1) ys mset_eq_setD by fastforce+
  then have "cmp y x \<le> 0" "cmp x y \<le> 0"
    using Cons.prems(2,3) ys comparator.refl_eq [OF assms(1)] by (auto simp: ascending_def)
  then have "x = y" using comparator.flip_le [OF assms(1), of y x] antisym [of x y] by simp
  then show ?case using Cons ys by (auto simp: ascending_def)
qed simp

section \<open>Sorting in the C library\<close>

text \<open>
  \<^verbatim>\<open>qsort\<close> leaves the elements in ascending order; the order of elements that compare equal is
  unspecified, so the function itself is a parameter.
\<close>

type_synonym 'a qsort = "('a \<Rightarrow> 'a \<Rightarrow> int) \<Rightarrow> 'a list \<Rightarrow> 'a list"

definition qsort_ok :: "'a qsort \<Rightarrow> bool" where
  "qsort_ok qsort \<longleftrightarrow> (\<forall>cmp xs. mset (qsort cmp xs) = mset xs \<and> (comparator_ok cmp \<longrightarrow> ascending cmp (qsort cmp xs)))"

lemma qsort_ok_mset: "qsort_ok qsort \<Longrightarrow> mset (qsort cmp xs) = mset xs"
  by (simp add: qsort_ok_def)

lemma qsort_ok_length: "qsort_ok qsort \<Longrightarrow> length (qsort cmp xs) = length xs"
  by (metis qsort_ok_mset size_mset)

lemma qsort_ok_ascending: "qsort_ok qsort \<Longrightarrow> comparator_ok cmp \<Longrightarrow> ascending cmp (qsort cmp xs)"
  by (simp add: qsort_ok_def)

text \<open>A function that meets the contract.\<close>

fun insert_by :: "('a \<Rightarrow> 'a \<Rightarrow> int) \<Rightarrow> 'a \<Rightarrow> 'a list \<Rightarrow> 'a list" where
  "insert_by cmp x [] = [x]"
| "insert_by cmp x (y # ys) = (if cmp x y \<le> 0 then x # y # ys else y # insert_by cmp x ys)"

definition insertion_sort :: "'a qsort" where
  "insertion_sort cmp xs = foldr (insert_by cmp) xs []"

lemma mset_insert_by: "mset (insert_by cmp x ys) = {#x#} + mset ys"
  by (induction ys) auto

lemma ascending_insert_by:
  assumes "comparator cmp" shows "ascending cmp ys \<Longrightarrow> ascending cmp (insert_by cmp x ys)"
proof (induction ys)
  case (Cons y ys)
  have "set (insert_by cmp x ys) = insert x (set ys)"
    using mset_insert_by [of cmp x ys, THEN arg_cong [where f = set_mset]] by simp
  with Cons show ?case
    using comparator.trans [OF assms, of x y] comparator.flip_le [OF assms, of y x]
    by (auto simp: ascending_def)
qed (simp add: ascending_def)

lemma insertion_sort_ok: "qsort_ok insertion_sort"
proof -
  have "mset (foldr (insert_by cmp) xs []) = mset xs" for cmp :: "'a \<Rightarrow> 'a \<Rightarrow> int" and xs
    by (induction xs) (simp_all add: mset_insert_by)
  moreover have "ascending cmp (foldr (insert_by cmp) xs [])" if "comparator cmp" for cmp :: "'a \<Rightarrow> 'a \<Rightarrow> int" and xs
    by (induction xs) (simp_all add: ascending_insert_by that, simp add: ascending_def)
  ultimately show ?thesis by (simp add: qsort_ok_def insertion_sort_def comparator_ok_iff)
qed

section \<open>Data refinement\<close>

text \<open>
  An implementation \<open>step\<close> with an invariant and an abstraction, and the specification \<open>spec\<close> of
  the effect and the result of each operation on abstract values. A history of operations on the
  implementation is then a history of the specification.
\<close>

fun run :: "('o \<Rightarrow> 's \<Rightarrow> 'r \<times> 's) \<Rightarrow> 'o list \<Rightarrow> 's \<Rightarrow> 'r list \<times> 's" where
  "run step [] s = ([], s)"
| "run step (op # ops) s =
     (case step op s of (r, s1) \<Rightarrow> (case run step ops s1 of (rs, s2) \<Rightarrow> (r # rs, s2)))"

fun history :: "('o \<Rightarrow> 'a \<Rightarrow> 'r \<Rightarrow> 'a \<Rightarrow> bool) \<Rightarrow> 'o list \<Rightarrow> 'a \<Rightarrow> 'r list \<Rightarrow> 'a \<Rightarrow> bool" where
  "history spec [] a [] a' \<longleftrightarrow> a' = a"
| "history spec (op # ops) a (r # rs) a' \<longleftrightarrow> (\<exists>b. spec op a r b \<and> history spec ops b rs a')"
| "history spec _ _ _ _ \<longleftrightarrow> False"

locale refinement =
  fixes step :: "'o \<Rightarrow> 's \<Rightarrow> 'r \<times> 's" and inv :: "'s \<Rightarrow> bool" and abs :: "'s \<Rightarrow> 'a"
    and spec :: "'o \<Rightarrow> 'a \<Rightarrow> 'r \<Rightarrow> 'a \<Rightarrow> bool"
  assumes keeps: "inv s \<Longrightarrow> step op s = (r, s') \<Longrightarrow> inv s'"
    and simulates: "inv s \<Longrightarrow> step op s = (r, s') \<Longrightarrow> spec op (abs s) r (abs s')"
begin

lemma run_keeps: "inv s \<Longrightarrow> run step ops s = (rs, s') \<Longrightarrow> inv s'"
  by (induction ops arbitrary: s rs) (auto split: prod.splits dest: keeps)

lemma run_history: "inv s \<Longrightarrow> run step ops s = (rs, s') \<Longrightarrow> history spec ops (abs s) rs (abs s')"
proof (induction ops arbitrary: s rs)
  case (Cons op ops)
  obtain r s1 rs1 where s: "step op s = (r, s1)" "run step ops s1 = (rs1, s')" "rs = r # rs1"
    using Cons.prems(2) by (auto split: prod.splits)
  show ?case using simulates [OF Cons.prems(1) s(1)] Cons.IH [OF keeps [OF Cons.prems(1) s(1)] s(2)] s(3) by auto
qed simp

end

end
