(* ===== verification/Bytestring_Set.thy ===== *)
theory Bytestring_Set
  imports Bytestring_Ber Comparison
begin

text \<open>
  The last part of \<^verbatim>\<open>crypto/bytestring/cbb.c\<close>: the DER encoding of a SET OF orders the elements
  by their encodings (X.690, 11.6). \<open>CBB_flush_asn1_set_of\<close> parses the contents of a builder,
  sorts the elements and writes them back over the old contents. \<^verbatim>\<open>qsort\<close> is a parameter.
\<close>

section \<open>The comparison\<close>

definition leading_byte :: "u8 list \<Rightarrow> u8" where
  "leading_byte p = (case p of [] \<Rightarrow> 0 | b # _ \<Rightarrow> b)"

text \<open>
  \<^verbatim>\<open>memcmp\<close> compares the bytes as unsigned numbers, the first difference decides. The callers
  never pass more than the two blocks hold; bytes past the end of a block are read as 0 here.
\<close>

fun OPENSSL_memcmp :: "u8 list \<Rightarrow> u8 list \<Rightarrow> nat \<Rightarrow> int" where
  "OPENSSL_memcmp p q 0 = 0"
| "OPENSSL_memcmp p q (Suc n) =
     (if leading_byte p = leading_byte q then OPENSSL_memcmp (tl p) (tl q) n
      else int (unat (leading_byte p)) - int (unat (leading_byte q)))"

definition compare_set_of_element :: "CBS \<Rightarrow> CBS \<Rightarrow> int" where
  "compare_set_of_element a b =
     (let a_len = CBS_len a; b_len = CBS_len b;
          min_len = (if a_len < b_len then a_len else b_len);
          ret = OPENSSL_memcmp (CBS_data a) (CBS_data b) min_len in
      if ret \<noteq> 0 then ret
      else if a_len = b_len then 0
      else if a_len < b_len then - 1 else 1)"

section \<open>Sorting the contents\<close>

lemma element_decreases:
  assumes "(Some e, c1) = CBS_get_any_asn1_element c" shows "cbs_len c1 < cbs_len c"
  using cbs_get_any_asn1_element_len [OF assms [unfolded CBS_get_any_asn1_element_def, symmetric]] by simp

function count_children :: "nat \<Rightarrow> CBS \<Rightarrow> nat option" where
  "count_children num_children cbs =
     (if CBS_len cbs \<noteq> 0 then
        (case CBS_get_any_asn1_element cbs of
           (None, _) \<Rightarrow> None
         | (Some _, cbs1) \<Rightarrow> count_children (num_children + 1) cbs1)
      else Some num_children)"
  by pat_completeness auto

termination count_children
  by (relation "measure (\<lambda>(_, c). cbs_len c)") (auto dest: element_decreases)

declare count_children.simps [simp del]

fun read_children :: "nat \<Rightarrow> CBS \<Rightarrow> CBS list option" where
  "read_children 0 cbs = Some []"
| "read_children (Suc n) cbs =
     (case CBS_get_any_asn1_element cbs of
        (None, _) \<Rightarrow> None
      | (Some e, cbs1) \<Rightarrow>
          (case read_children n cbs1 of None \<Rightarrow> None | Some children \<Rightarrow> Some (el_out e # children)))"

fun add_children :: "sys_alloc \<Rightarrow> nat \<Rightarrow> CBS list \<Rightarrow> unit writer" where
  "add_children a d [] s = (Some (), s)"
| "add_children a d (c # children) s =
     cbb_bind (CBB_add_bytes a d (take (CBS_len c) (CBS_data c)) s) (\<lambda>_ s1. add_children a d children s1)"

text \<open>The child's start, where its contents begin behind the pending length octets.\<close>

definition contents_start :: "nat \<Rightarrow> CBB \<Rightarrow> nat" where
  "contents_start d s = fr_offset (cbb_chain s ! d) + fr_pending_len_len (cbb_chain s ! d)"

definition rewind :: "nat \<Rightarrow> CBB \<Rightarrow> CBB" where
  "rewind d s = s\<lparr>cbb_base := map_option (\<lambda>b. b\<lparr>bb_len := contents_start d s\<rparr>) (cbb_base s)\<rparr>"

text \<open>16 is the size of a \<open>CBS\<close>. The copies are freed on every path.\<close>

definition CBB_flush_asn1_set_of :: "sys_alloc \<Rightarrow> CBS qsort \<Rightarrow> nat \<Rightarrow> unit writer" where
  "CBB_flush_asn1_set_of a qsort d s =
     cbb_bind (CBB_flush a d s) (\<lambda>_ s1.
       (case count_children 0 (CBS_init (CBB_data d s1) (CBB_len d s1)) of
          None \<Rightarrow> (None, s1)
        | Some num_children \<Rightarrow>
            (if num_children < 2 then (Some (), s1)
             else if num_children > (SIZE_LIMIT - 1) div 16 then (None, s1)
             else
               (let buf_len = CBB_len d s1;
                    buf = OPENSSL_memdup a (CBB_data d s1) buf_len;
                    children = OPENSSL_malloc a (num_children * 16) in
                case (buf, children) of
                  (Some b, Some _) \<Rightarrow>
                    (case read_children num_children (CBS_init b buf_len) of
                       None \<Rightarrow> (None, s1)
                     | Some cs \<Rightarrow> add_children a d (qsort compare_set_of_element cs) (rewind d s1))
                | _ \<Rightarrow> (None, s1)))))"

section \<open>The comparison orders encodings\<close>

fun lexcmp :: "u8 list \<Rightarrow> u8 list \<Rightarrow> int" where
  "lexcmp [] [] = 0"
| "lexcmp [] (_ # _) = - 1"
| "lexcmp (_ # _) [] = 1"
| "lexcmp (x # xs) (y # ys) = (if x = y then lexcmp xs ys else int (unat x) - int (unat y))"

text \<open>The bytes a comparison of \<open>c\<close> may read.\<close>

fun window :: "nat \<Rightarrow> u8 list \<Rightarrow> u8 list" where
  "window 0 p = []"
| "window (Suc n) p = leading_byte p # window n (tl p)"

lemma uint_u8_eq_iff: "uint (x :: u8) = uint y \<longleftrightarrow> x = y"
  by (simp add: word_uint_eq_iff)

lemma window_take: "n \<le> length p \<Longrightarrow> window n p = take n p"
proof (induction n p rule: window.induct)
  case (2 n p)
  then show ?case by (cases p) (simp_all add: leading_byte_def)
qed simp

lemma lexcmp_window:
  "lexcmp (window m p) (window n q) =
     (let r = OPENSSL_memcmp p q (min m n) in if r \<noteq> 0 then r else if m = n then 0 else if m < n then - 1 else 1)"
proof (induction m arbitrary: n p q)
  case 0
  then show ?case by (cases n) simp_all
next
  case (Suc m)
  then show ?case by (cases n) (auto simp: Let_def uint_u8_eq_iff)
qed

lemma compare_set_of_element_eq:
  "compare_set_of_element a b = lexcmp (window (CBS_len a) (CBS_data a)) (window (CBS_len b) (CBS_data b))"
  unfolding lexcmp_window compare_set_of_element_def Let_def by (simp add: min_def not_less)

lemma lexcmp_eq_0: "lexcmp xs ys = 0 \<longleftrightarrow> xs = ys"
  by (induction xs ys rule: lexcmp.induct) (auto simp: uint_u8_eq_iff)

lemma lexcmp_flip: "sgn (lexcmp xs ys) = - sgn (lexcmp ys xs)"
  by (induction xs ys rule: lexcmp.induct) (simp_all, simp add: sgn_if)

lemma lexcmp_trans: "lexcmp xs ys \<le> 0 \<Longrightarrow> lexcmp ys zs \<le> 0 \<Longrightarrow> lexcmp xs zs \<le> 0"
proof (induction xs ys arbitrary: zs rule: lexcmp.induct)
  case (4 x xs y ys)
  then show ?case by (cases zs) (auto simp: uint_u8_eq_iff split: if_splits)
next
  case (2 y ys)
  then show ?case by (cases zs) simp_all
qed simp_all

interpretation lex: comparator lexcmp
  by unfold_locales (fact lexcmp_flip, fact lexcmp_trans)

interpretation set_of: comparator compare_set_of_element
  unfolding compare_set_of_element_eq
  by unfold_locales (fact lexcmp_flip, erule lexcmp_trans)

lemma compare_set_of_element_wf:
  "CBS_wf a \<Longrightarrow> CBS_wf b \<Longrightarrow> compare_set_of_element a b = lexcmp (cbs_bytes a) (cbs_bytes b)"
  by (simp add: compare_set_of_element_eq window_take CBS_wf_def CBS_len_def CBS_data_def cbs_bytes_def)

section \<open>The loops\<close>

type_synonym asn1_item = "u32 \<times> u8 list"

definition elements :: "asn1_item list \<Rightarrow> u8 list" where
  "elements items = concat (map der_element items)"

definition encodable :: "asn1_item list \<Rightarrow> bool" where
  "encodable items \<longleftrightarrow> (\<forall>x\<in>set items. length (snd x) < 4294967296)"

lemma elements_simps [simp]: "elements [] = []" "elements (x # xs) = der_element x @ elements xs"
  by (simp_all add: elements_def)

lemma encodable_simps [simp]:
  "encodable []" "encodable (x # xs) \<longleftrightarrow> length (snd x) < 4294967296 \<and> encodable xs"
  by (auto simp: encodable_def)

lemma read_item:
  assumes "CBS_wf c" and "cbs_bytes c = der_element x @ rest" and "length (snd x) < 4294967296"
  obtains e c1 where "CBS_get_any_asn1_element c = (Some e, c1)" and "CBS_wf c1" and "cbs_bytes c1 = rest"
    and "CBS_wf (el_out e)" and "cbs_bytes (el_out e) = der_element x" and "CBS_len c \<noteq> 0"
proof -
  obtain e c1 where e: "CBS_get_any_asn1_element c = (Some e, c1)" "CBS_wf c1" "cbs_bytes c1 = rest" "CBS_len c \<noteq> 0"
    using read_der_element [of c "fst x" "snd x" rest] assms by (metis prod.collapse)
  note w = cbs_get_any_asn1_element_window(1,2) [OF assms(1) e(1) [unfolded CBS_get_any_asn1_element_def]]
  have "cbs_bytes (el_out e) = der_element x" using consumesD(3) [OF w(2)] assms(2) e(3) by simp
  with that e w(1) show thesis by blast
qed

lemma count_children_complete:
  "encodable items \<Longrightarrow> CBS_wf c \<Longrightarrow> cbs_bytes c = elements items \<Longrightarrow>
     count_children n c = Some (n + length items)"
proof (induction items arbitrary: n c)
  case Nil
  then have "CBS_len c = 0" using length_cbs_bytes [of c] by (simp add: CBS_len_def)
  then show ?case by (simp add: count_children.simps)
next
  case (Cons x items)
  then obtain e c1 where "CBS_get_any_asn1_element c = (Some e, c1)" "CBS_wf c1" "cbs_bytes c1 = elements items"
      "CBS_len c \<noteq> 0"
    by (elim read_item [of c x "elements items"]) auto
  then show ?case using Cons.IH [of c1 "Suc n"] Cons.prems(1) by (simp add: count_children.simps [of n c])
qed

lemma count_children_sound:
  "CBS_wf c \<Longrightarrow> count_children n c = Some m \<Longrightarrow> \<exists>items. encodable items \<and> cbs_bytes c = elements items"
proof (induction n c rule: count_children.induct)
  case (1 n c)
  show ?case
  proof (cases "CBS_len c = 0")
    case True
    then have "cbs_bytes c = elements []" by (simp add: CBS_len_def cbs_bytes_def)
    then show ?thesis using encodable_simps(1) by blast
  next
    case False
    with 1(3) obtain e c1 where g: "CBS_get_any_asn1_element c = (Some e, c1)" "count_children (n + 1) c1 = Some m"
      by (subst (asm) count_children.simps) (auto split: prod.splits option.splits)
    have s: "length (snd (element_view e)) < 4294967296" "consumes c (der_element (element_view e)) c1"
      using der_element_sound [OF 1(2) g(1)] by blast+
    have "\<exists>items. encodable items \<and> cbs_bytes c1 = elements items"
      using 1(1) False g consumesD(2) [OF s(2)] by fastforce
    then obtain items where "encodable items" "cbs_bytes c1 = elements items" by blast
    then have "encodable (element_view e # items)" "cbs_bytes c = elements (element_view e # items)"
      using s consumesD(3) [OF s(2)] by simp_all
    then show ?thesis by blast
  qed
qed

lemma read_children_complete:
  "encodable items \<Longrightarrow> CBS_wf c \<Longrightarrow> cbs_bytes c = elements items \<Longrightarrow>
     \<exists>cs. read_children (length items) c = Some cs \<and> map cbs_bytes cs = map der_element items \<and> (\<forall>x\<in>set cs. CBS_wf x)"
proof (induction items arbitrary: c)
  case (Cons x items)
  then obtain e c1 where e: "CBS_get_any_asn1_element c = (Some e, c1)" "CBS_wf c1" "cbs_bytes c1 = elements items"
      "CBS_wf (el_out e)" "cbs_bytes (el_out e) = der_element x"
    by (elim read_item [of c x "elements items"]) auto
  with Cons.IH [of c1] Cons.prems(1) show ?case by auto
qed simp

lemma emits_add_children:
  "\<forall>c\<in>set cs. CBS_wf c \<and> cbs_len c < SIZE_LIMIT \<Longrightarrow>
     emits a (add_children a d cs) d (concat (map cbs_bytes cs)) ()"
proof (induction cs)
  case (Cons c cs)
  have "length (take (CBS_len c) (CBS_data c)) < SIZE_LIMIT" using Cons.prems by (simp add: CBS_len_def min.strict_coboundedI2)
  then have "emits a (CBB_add_bytes a d (take (CBS_len c) (CBS_data c))) d (take (CBS_len c) (CBS_data c)) ()"
    by (rule emits_CBB_add_bytes)
  from emits_bind [OF this, of "\<lambda>_. add_children a d cs"] Cons show ?case
    by (simp add: cbs_bytes_def CBS_len_def CBS_data_def)
qed (use emits_return [of a "()"] in \<open>simp add: emits_def\<close>)

section \<open>Contents of the builder\<close>

definition cbb_contents :: "nat \<Rightarrow> CBB \<Rightarrow> u8 list" where
  "cbb_contents d s = (case cbb_base s of None \<Rightarrow> [] | Some b \<Rightarrow> drop (contents_start d s) (written b))"

definition cbb_before :: "nat \<Rightarrow> CBB \<Rightarrow> u8 list" where
  "cbb_before d s = (case cbb_base s of None \<Rightarrow> [] | Some b \<Rightarrow> take (contents_start d s) (bb_buf b))"

lemma top_rewind:
  assumes "CBB_top d s" and "cbb_base s = Some b"
  shows "contents_start d s \<le> bb_len b" and "CBB_top d (rewind d s)"
proof -
  have ok: "buffer_ok b" "chain_ok (bb_len b) (cbb_chain s)" "length (cbb_chain s) = d + 1"
    using assms by (auto simp: CBB_top_def CBB_wf_def)
  let ?f = "cbb_chain s ! d"
  have ch: "cbb_chain s = take d (cbb_chain s) @ [?f]"
    using ok(3) take_Suc_conv_app_nth [of d "cbb_chain s"] by simp
  have "contents_start d s \<le> bb_len b \<and> chain_ok (contents_start d s) (cbb_chain s)"
  proof (cases "d = 0")
    case True
    then show ?thesis using ok(2,3) by (auto simp: chain_ok_def contents_start_def)
  next
    case False
    then have ne: "take d (cbb_chain s) \<noteq> []" using ok(3) by auto
    have "fr_offset ?f + fr_pending_len_len ?f \<le> bb_len b"
      using ok(2) chain_ok_snoc [OF ne, of "bb_len b" ?f] unfolding ch [symmetric] by blast
    moreover have "chain_ok (fr_offset ?f + fr_pending_len_len ?f) (take d (cbb_chain s) @ [?f])"
      using ok(2) chain_ok_snoc [OF ne, of _ ?f] unfolding ch [symmetric] by blast
    ultimately show ?thesis unfolding contents_start_def ch [symmetric] by blast
  qed
  then show "contents_start d s \<le> bb_len b" "CBB_top d (rewind d s)"
    using ok assms(2) by (simp_all add: CBB_top_def CBB_wf_def rewind_def buffer_ok_def)
qed

lemma contents_window:
  assumes "CBB_top d s"
  shows "CBS_wf (CBS_init (CBB_data d s) (CBB_len d s))"
    and "cbs_bytes (CBS_init (CBB_data d s) (CBB_len d s)) = cbb_contents d s"
    and "length (cbb_contents d s) = CBB_len d s" and "CBB_len d s < SIZE_LIMIT"
    and "CBB_len d s \<le> length (CBB_data d s)"
proof -
  obtain b where b: "cbb_base s = Some b" "buffer_ok b" using assms by (auto simp: CBB_top_def CBB_wf_def)
  note st = top_rewind(1) [OF assms b(1)]
  have len: "CBB_len d s = bb_len b - contents_start d s"
    using b(1) by (simp add: CBB_len_def contents_start_def)
  have data: "CBB_data d s = drop (contents_start d s) (bb_buf b)"
    using b(1) by (simp add: CBB_data_def contents_start_def)
  show "CBS_wf (CBS_init (CBB_data d s) (CBB_len d s))" "CBB_len d s \<le> length (CBB_data d s)"
    using b st by (simp_all add: CBS_wf_def CBS_init_def len data buffer_ok_def diff_le_mono)
  show "cbs_bytes (CBS_init (CBB_data d s) (CBB_len d s)) = cbb_contents d s"
    using b by (simp add: cbs_bytes_def CBS_init_def len data cbb_contents_def written_def drop_take)
  show "length (cbb_contents d s) = CBB_len d s" "CBB_len d s < SIZE_LIMIT"
    using b by (auto simp: cbb_contents_def len buffer_ok_def)
qed

lemma rewound_contents:
  assumes "CBB_top d s" and "grows (rewind d s) bs s'"
  shows "cbb_contents d s' = bs" and "cbb_before d s' = cbb_before d s" and "cbb_chain s' = cbb_chain s"
proof -
  obtain b where b: "cbb_base s = Some b" "buffer_ok b" using assms(1) by (auto simp: CBB_top_def CBB_wf_def)
  note st = top_rewind(1) [OF assms(1) b(1)]
  let ?k = "contents_start d s"
  obtain b' where g: "cbb_base s' = Some b'" "cbb_chain s' = cbb_chain s" "buffer_ok b'"
      "written b' = take ?k (bb_buf b) @ bs"
    using assms(2) b(1) by (auto simp: grows_def rewind_def buffer_grows_def written_def)
  have k: "contents_start d s' = ?k" using g(2) by (simp add: contents_start_def)
  have l: "length (take ?k (bb_buf b)) = ?k" using b(2) st by (simp add: buffer_ok_def)
  have "take ?k (written b') = take ?k (bb_buf b)" using g(4) l by simp
  moreover have "?k \<le> bb_len b'" using g(3,4) l by (metis length_append length_written le_add1)
  ultimately have "take ?k (bb_buf b') = take ?k (bb_buf b)" by (simp add: written_def min_def)
  then show "cbb_before d s' = cbb_before d s" using g(1) b(1) by (simp add: cbb_before_def k)
  show "cbb_contents d s' = bs" using g(1,4) l by (simp add: cbb_contents_def k)
  show "cbb_chain s' = cbb_chain s" by (rule g(2))
qed

lemma sorted_children:
  assumes "qsort_ok qsort" and "map cbs_bytes cs = es" and "\<forall>c\<in>set cs. CBS_wf c"
  shows "mset (map cbs_bytes (qsort compare_set_of_element cs)) = mset es"
    and "ascending lexcmp (map cbs_bytes (qsort compare_set_of_element cs))"
    and "set (qsort compare_set_of_element cs) = set cs"
proof -
  let ?q = "qsort compare_set_of_element cs"
  note m = qsort_ok_mset [OF assms(1), of compare_set_of_element cs]
  show s: "set ?q = set cs" using m by (rule mset_eq_setD)
  show "mset (map cbs_bytes ?q) = mset es" using m assms(2) by (metis mset_map)
  have "ascending compare_set_of_element ?q"
    using assms(1) set_of.comparator_axioms by (simp add: qsort_ok_ascending comparator_ok_iff)
  then show "ascending lexcmp (map cbs_bytes ?q)"
    using s assms(3) by (auto simp: ascending_def sorted_wrt_map compare_set_of_element_wf elim!: sorted_wrt_mono_rel [rotated])
qed

lemma rewrite_children:
  assumes "CBB_top d s" and "qsort_ok qsort" and "encodable items" and "cbb_contents d s = elements items"
    and "OPENSSL_memdup a (CBB_data d s) (CBB_len d s) = Some buf"
  obtains cs s1 where "read_children (length items) (CBS_init buf (CBB_len d s)) = Some cs"
    and "add_children a d (qsort compare_set_of_element cs) (rewind d s) = (Some (), s1)" and "CBB_top d s1"
    and "cbb_before d s1 = cbb_before d s" and "mset (map cbs_bytes (qsort compare_set_of_element cs)) = mset (map der_element items)"
    and "ascending lexcmp (map cbs_bytes (qsort compare_set_of_element cs))"
    and "cbb_contents d s1 = concat (map cbs_bytes (qsort compare_set_of_element cs))"
proof -
  note W = contents_window [OF assms(1)]
  have buf: "buf = take (CBB_len d s) (CBB_data d s)" using OPENSSL_memdup_Some [OF assms(5) W(5)] by simp
  have bw: "CBS_wf (CBS_init buf (CBB_len d s))" "cbs_bytes (CBS_init buf (CBB_len d s)) = elements items"
    using W(2,3,5) assms(4) by (auto simp: buf CBS_wf_def CBS_init_def cbs_bytes_def)
  obtain cs where cs: "read_children (length items) (CBS_init buf (CBB_len d s)) = Some cs"
      "map cbs_bytes cs = map der_element items" "\<forall>c\<in>set cs. CBS_wf c"
    using read_children_complete [OF assms(3) bw] by blast
  let ?q = "qsort compare_set_of_element cs"
  note q = sorted_children [OF assms(2) cs(2,3)]
  have len: "length (concat (map cbs_bytes ?q)) = CBB_len d s"
    using q(1) W(3) assms(4) by (metis length_concat mset_map sum_mset_sum_list elements_def)
  have "cbs_len c < SIZE_LIMIT" if "c \<in> set ?q" for c
    using member_le_sum_list [of "length (cbs_bytes c)" "map length (map cbs_bytes ?q)"] that q(3) cs(3) len W(4)
    by (auto simp: length_concat simp flip: length_cbs_bytes)
  then have em: "emits a (add_children a d ?q) d (concat (map cbs_bytes ?q)) ()"
    using q(3) cs(3) by (intro emits_add_children) auto
  obtain b where b: "cbb_base s = Some b" "buffer_ok b" using assms(1) by (auto simp: CBB_top_def CBB_wf_def)
  note top = top_rewind [OF assms(1) b(1)]
  have "fits a (rewind d s) (length (concat (map cbs_bytes ?q)))"
    using top(1) b unfolding len by (simp add: fits_def room_def rewind_def CBB_len_def contents_start_def buffer_ok_def)
  then obtain s1 where s1: "add_children a d ?q (rewind d s) = (Some (), s1)"
      "grows (rewind d s) (concat (map cbs_bytes ?q)) s1" "CBB_top d s1"
    by (rule emits_succeeds [OF em top(2)])
  then show thesis using that cs(1) q(1,2) rewound_contents [OF assms(1) s1(2)] by blast
qed

section \<open>Properties\<close>

text \<open>
  C7. \<open>CBB_flush_asn1_set_of\<close> on a builder that holds a sequence of DER elements: it leaves the same
  elements, in ascending order of their encodings, and changes nothing in front of them. The
  order does not depend on which sorting function the C library has. It fails only where one of
  its two allocations fails or the size of the second overflows, and then nothing has changed.
\<close>

theorem set_of_sorts_elements:
  assumes "CBB_top d s" and "qsort_ok qsort" and "encodable items" and "cbb_contents d s = elements items"
    and "CBB_flush_asn1_set_of a qsort d s = (r, s')"
  shows "r = Some () \<and> CBB_top d s' \<and> cbb_before d s' = cbb_before d s \<and>
      (\<exists>es. mset es = mset (map der_element items) \<and> ascending lexcmp es \<and> cbb_contents d s' = concat es) \<or>
    r = None \<and> s' = s \<and> 2 \<le> length items \<and>
      (OPENSSL_memdup a (CBB_data d s) (CBB_len d s) = None \<or> OPENSSL_malloc a (length items * 16) = None \<or>
       (2 ^ 64 - 1) div 16 < length items)"
proof -
  note W = contents_window [OF assms(1)]
  have count: "count_children 0 (CBS_init (CBB_data d s) (CBB_len d s)) = Some (length items)"
    using count_children_complete [OF assms(3) W(1)] W(2) assms(4) by simp
  note eq = assms(5) [unfolded CBB_flush_asn1_set_of_def CBB_flush_top [OF assms(1)] cbb_bind_simps count option.case Let_def]
  consider (few) "length items < 2" | (big) "2 \<le> length items" "(2 ^ 64 - 1) div 16 < length items"
    | (nomem) "2 \<le> length items" "OPENSSL_memdup a (CBB_data d s) (CBB_len d s) = None \<or> OPENSSL_malloc a (length items * 16) = None"
        "\<not> (2 ^ 64 - 1) div 16 < length items"
    | (work) buf ptr where "2 \<le> length items" "OPENSSL_memdup a (CBB_data d s) (CBB_len d s) = Some buf"
        "OPENSSL_malloc a (length items * 16) = Some ptr" "\<not> (2 ^ 64 - 1) div 16 < length items"
    by (metis not_less option.exhaust)
  then show ?thesis
  proof cases
    case few
    then have "ascending lexcmp (map der_element items)" by (simp add: ascending_short)
    moreover have "r = Some () \<and> s' = s" using few eq by simp
    ultimately show ?thesis using assms(1,4) elements_def by metis
  next
    case big
    then show ?thesis using eq by simp
  next
    case nomem
    then show ?thesis using eq by (auto split: option.splits)
  next
    case work
    obtain cs s1 where w: "read_children (length items) (CBS_init buf (CBB_len d s)) = Some cs"
        "add_children a d (qsort compare_set_of_element cs) (rewind d s) = (Some (), s1)" "CBB_top d s1"
        "cbb_before d s1 = cbb_before d s" "mset (map cbs_bytes (qsort compare_set_of_element cs)) = mset (map der_element items)"
        "ascending lexcmp (map cbs_bytes (qsort compare_set_of_element cs))"
        "cbb_contents d s1 = concat (map cbs_bytes (qsort compare_set_of_element cs))"
      by (rule rewrite_children [OF assms(1-4) work(2)])
    then have "r = Some () \<and> s' = s1" using eq work by simp
    then show ?thesis using w(3-7) by blast
  qed
qed

lemma set_of_order_unique:
  "mset es = mset fs \<Longrightarrow> ascending lexcmp es \<Longrightarrow> ascending lexcmp fs \<Longrightarrow> es = fs"
  by (rule ascending_unique [OF lex.comparator_axioms]) (simp_all add: lexcmp_eq_0)

text \<open>Two INTEGERs, 5 and 3, in a builder on a fixed buffer.\<close>

definition example_set :: CBB where
  "example_set = \<lparr>cbb_base = Some \<lparr>bb_buf = [2, 1, 5, 2, 1, 3], bb_len = 6, bb_cap = 6, bb_can_resize = False,
     bb_error = False\<rparr>, cbb_chain = [zero_frame]\<rparr>"

lemma example_set_top: "CBB_top 0 example_set"
  by (simp add: example_set_def CBB_top_def CBB_wf_def buffer_ok_def chain_ok_def zero_frame_def)

theorem set_of_sorts_elements_witness:
  "\<exists>s'. CBB_flush_asn1_set_of example_alloc insertion_sort 0 example_set = (Some (), s') \<and>
     cbb_contents 0 s' = [2, 1, 3, 2, 1, 5]"
proof -
  let ?items = "[(CBS_ASN1_INTEGER, [5]), (CBS_ASN1_INTEGER, [3])]"
  have e: "map der_element ?items = [[2, 1, 5], [2, 1, 3]]"
    by (simp add: der_element_def asn1_tag_bytes_def der_length_def CBS_ASN1_INTEGER_def Let_def)
  obtain r s' where f: "CBB_flush_asn1_set_of example_alloc insertion_sort 0 example_set = (r, s')" by fastforce
  have c: "cbb_contents 0 example_set = elements ?items"
    unfolding elements_def e by (simp add: cbb_contents_def example_set_def written_def contents_start_def zero_frame_def)
  have "OPENSSL_memdup example_alloc (CBB_data 0 example_set) (CBB_len 0 example_set) \<noteq> None"
      "OPENSSL_malloc example_alloc (length ?items * 16) \<noteq> None"
    by (simp_all add: OPENSSL_memdup_def OPENSSL_malloc_def OPENSSL_MALLOC_PREFIX_def example_alloc_def CBB_len_def
        example_set_def zero_frame_def)
  with set_of_sorts_elements [OF example_set_top insertion_sort_ok _ c f]
  obtain es where es: "r = Some ()" "mset es = mset [[2, 1, 5], [2, 1, 3]]" "ascending lexcmp es" "cbb_contents 0 s' = concat es"
    unfolding e by auto
  have "es = [[2, 1, 3], [2, 1, 5]]"
    by (rule set_of_order_unique [OF _ es(3)]) (simp_all add: es(2) ascending_def)
  with es f show ?thesis by simp
qed

text \<open>
  Contents that are not a sequence of DER elements, such as a truncated element or one with a
  non-minimal length, are refused, and the builder is left as it was.
\<close>

theorem set_of_refuses_malformed:
  assumes "CBB_top d s" and "\<nexists>items. encodable items \<and> cbb_contents d s = elements items"
  shows "CBB_flush_asn1_set_of a qsort d s = (None, s)"
proof -
  note W = contents_window [OF assms(1)]
  have "count_children 0 (CBS_init (CBB_data d s) (CBB_len d s)) = None"
    using count_children_sound [OF W(1)] W(2) assms(2) by (cases "count_children 0 (CBS_init (CBB_data d s) (CBB_len d s))") auto
  then show ?thesis by (simp add: CBB_flush_asn1_set_of_def CBB_flush_top [OF assms(1)])
qed

theorem set_of_refuses_malformed_witness:
  "let s = example_set\<lparr>cbb_base := map_option (\<lambda>b. b\<lparr>bb_len := 1\<rparr>) (cbb_base example_set)\<rparr> in
   CBB_flush_asn1_set_of example_alloc insertion_sort 0 s = (None, s)"
proof -
  let ?s = "example_set\<lparr>cbb_base := map_option (\<lambda>b. b\<lparr>bb_len := 1\<rparr>) (cbb_base example_set)\<rparr>"
  have "CBB_top 0 ?s"
    by (simp add: example_set_def CBB_top_def CBB_wf_def buffer_ok_def chain_ok_def zero_frame_def)
  moreover have "cbb_contents 0 ?s = [2]"
    by (simp add: example_set_def cbb_contents_def contents_start_def written_def zero_frame_def)
  moreover have l: "2 \<le> length (der_element x)" for x
    using length_asn1_tag_bytes(2) [of "fst x"] by (cases "asn1_tag_bytes (fst x)") (auto simp: der_element_def der_length_def split: prod.split)
  have "elements items \<noteq> [2]" for items using l [of "hd items"] by (cases items) (auto simp: append_eq_Cons_conv)
  ultimately show ?thesis using set_of_refuses_malformed [of 0 ?s example_alloc insertion_sort] by (metis (no_types))
qed

end
