(* ===== verification/Number_Text.thy ===== *)
theory Number_Text
  imports Byte_Prelude
begin

text \<open>
  The texts of numbers the sources print and parse: decimal, lower-case hexadecimal, and lists of numbers
  separated by a character. Shared by the object identifiers and the network addresses.
\<close>

section \<open>Decimal\<close>

text \<open>The decimal digits \<^verbatim>\<open>BIO_snprintf\<close> writes for \<^verbatim>\<open>PRIu64\<close> and \<^verbatim>\<open>snprintf\<close> for \<^verbatim>\<open>%u\<close>.\<close>

fun decimal :: "nat \<Rightarrow> u8 list" where
  "decimal n = (if n < 10 then [of_nat (48 + n)] else decimal (n div 10) @ [of_nat (48 + n mod 10)])"

declare decimal.simps [simp del]

lemma decimal_ne [simp]: "decimal n \<noteq> []"
  by (subst decimal.simps) simp

lemma decimal_snoc: "v \<noteq> 0 \<Longrightarrow> d < 10 \<Longrightarrow> decimal (v * 10 + d) = decimal v @ [of_nat (48 + d)]"
  by (subst decimal.simps) simp

lemma decimal_digit: "d < 10 \<Longrightarrow> decimal d = [of_nat (48 + d)]"
  by (subst decimal.simps) simp

lemma unat_digit: "d < 10 \<Longrightarrow> unat (of_nat (48 + d) :: u8) = 48 + d"
  by (intro unat_of_nat_eq) simp

lemma decimal_no_zero: "0 \<notin> set (decimal n)"
proof (induction n rule: decimal.induct)
  case (1 n)
  have "of_nat (48 + d) \<noteq> (0 :: u8)" if "d < 10" for d
    using unat_digit [OF that] by (metis unsigned_0 add_is_0 zero_neq_numeral)
  then show ?case using 1 by (subst decimal.simps) simp
qed

lemma decimal_length: "n < 10 ^ Suc k \<Longrightarrow> length (decimal n) \<le> Suc k"
proof (induction k arbitrary: n)
  case (Suc k)
  then have "n div 10 < 10 ^ Suc k" by (simp add: less_mult_imp_div_less mult.commute)
  with Suc.IH [of "n div 10"] show ?case by (subst decimal.simps) simp
qed (simp add: decimal_digit)

lemma decimal_bound: "u \<in> set (decimal n) \<Longrightarrow> \<exists>d<10. u = of_nat (48 + d)"
proof (induction n rule: decimal.induct)
  case (1 n)
  show ?case
  proof (cases "n < 10")
    case False
    then consider "u \<in> set (decimal (n div 10))" | "u = of_nat (48 + n mod 10)" using 1(2) by (auto simp: decimal.simps [of n])
    then show ?thesis using 1(1) [OF False] by cases (blast, metis mod_less_divisor zero_less_numeral)
  qed (use 1(2) in \<open>auto simp: decimal_digit\<close>)
qed

section \<open>Hexadecimal\<close>

definition hex_digit :: "nat \<Rightarrow> u8" where
  "hex_digit d = of_nat (if d < 10 then 48 + d else 87 + d)"

fun hexadecimal :: "nat \<Rightarrow> u8 list" where
  "hexadecimal n = (if n < 16 then [hex_digit n] else hexadecimal (n div 16) @ [hex_digit (n mod 16)])"

declare hexadecimal.simps [simp del]

lemma hexadecimal_ne [simp]: "hexadecimal n \<noteq> []"
  by (subst hexadecimal.simps) simp

lemma hexadecimal_length: "n < 16 ^ Suc k \<Longrightarrow> length (hexadecimal n) \<le> Suc k"
proof (induction k arbitrary: n)
  case (Suc k)
  then have "n div 16 < 16 ^ Suc k" by (simp add: less_mult_imp_div_less mult.commute)
  with Suc.IH [of "n div 16"] show ?case by (subst hexadecimal.simps) simp
qed (simp add: hexadecimal.simps)

section \<open>Separated lists\<close>

fun dotted :: "nat list \<Rightarrow> u8 list" where
  "dotted [] = []"
| "dotted [n] = decimal n"
| "dotted (n # ns) = decimal n @ 0x2e # dotted ns"

lemma dotted_eq_Nil [simp]: "dotted ns = [] \<longleftrightarrow> ns = []"
  by (cases ns rule: dotted.cases) simp_all

lemma dotted_Cons: "dotted (n # ns) = decimal n @ (if ns = [] then [] else 0x2e # dotted ns)"
  by (cases ns) simp_all

end
