(* ===== verification/Bytestring_Oid.thy ===== *)
theory Bytestring_Oid
  imports Bytestring_Properties Bytestring_Ber Number_Text
begin

text \<open>
  Object identifiers in \<^verbatim>\<open>crypto/bytestring/cbb.c\<close> and \<^verbatim>\<open>cbs.c\<close>: the parser of the dotted text form
  that writes the contents octets of an OBJECT IDENTIFIER, the printer back to text, and the
  wrapper \<^verbatim>\<open>CBB_finish_i2d\<close> of \<^verbatim>\<open>asn1_compat.c\<close>. Both directions are canonical: an identifier has one
  text and one encoding, everything else is refused.
\<close>

section \<open>From text\<close>

lemma CBS_get_u8_shrinks: "(Some u, c1) = CBS_get_u8 c \<Longrightarrow> cbs_len c1 < cbs_len c"
  using CBS_get_u8_decreases [of c u c1] by simp

function parse_dotted_loop :: "u64 \<Rightarrow> bool \<Rightarrow> u64 reader" where
  "parse_dotted_loop out seen_digit cbs =
     (case CBS_get_u8 cbs of
        (None, cbs1) \<Rightarrow> (if seen_digit then Some out else None, cbs1)
      | (Some u, cbs1) \<Rightarrow>
          (if u = 0x2e \<and> CBS_len cbs1 > 0 then (if seen_digit then Some out else None, cbs1)
           else if u < 0x30 \<or> u > 0x39 \<or> seen_digit \<and> out = 0 \<or> out > - 1 div 10
             \<or> out * 10 > - 1 - ucast (u - 0x30)
           then (None, cbs1)
           else parse_dotted_loop (out * 10 + ucast (u - 0x30)) True cbs1))"
  by pat_completeness auto

termination parse_dotted_loop
  by (relation "measure (\<lambda>(_, _, c). cbs_len c)") (auto dest: CBS_get_u8_shrinks)

declare parse_dotted_loop.simps [simp del]

definition parse_dotted_decimal :: "u64 reader" where
  "parse_dotted_decimal cbs = parse_dotted_loop 0 False cbs"

lemma CBS_get_u8_None: "CBS_get_u8 c = (None, c1) \<Longrightarrow> c1 = c \<and> cbs_len c = 0"
  by (auto simp: CBS_get_u8_def cbs_bind_def cbs_get_eq split: if_splits prod.splits option.splits)

text \<open>One round of the loop: the end of a component, or a digit.\<close>

lemma parse_dotted_loop_cases:
  assumes "parse_dotted_loop v seen c = (Some x, c')"
  obtains (stop) "CBS_get_u8 c = (None, c')" and "seen" and "x = v"
  | (dot) "CBS_get_u8 c = (Some 0x2e, c')" and "CBS_len c' > 0" and "seen" and "x = v"
  | (digit) u c1 where "CBS_get_u8 c = (Some u, c1)" and "\<not> (u = 0x2e \<and> CBS_len c1 > 0)" and "0x30 \<le> u" and "u \<le> 0x39"
      and "\<not> (seen \<and> v = 0)" and "v \<le> - 1 div 10" and "v * 10 \<le> - 1 - ucast (u - 0x30)"
      and "parse_dotted_loop (v * 10 + ucast (u - 0x30)) True c1 = (Some x, c')"
proof (cases "CBS_get_u8 c")
  case (Pair r c1)
  then show thesis using assms that
    by (cases r) (auto simp: parse_dotted_loop.simps [of v seen c] not_less split: if_splits)
qed

lemma parse_dotted_loop_len:
  "parse_dotted_loop v seen c = (Some x, c') \<Longrightarrow> cbs_len c' \<le> cbs_len c \<and> (\<not> seen \<longrightarrow> cbs_len c' < cbs_len c)"
proof (induction v seen c rule: parse_dotted_loop.induct)
  case (1 v seen c)
  from 1(2) show ?case
  proof (cases rule: parse_dotted_loop_cases)
    case stop
    then show ?thesis using CBS_get_u8_None by auto
  next
    case dot
    then show ?thesis using CBS_get_u8_decreases by (auto intro: less_imp_le)
  next
    case (digit u c1)
    have "cbs_len c' \<le> cbs_len c1"
      using 1(1) [OF digit(1) [symmetric] refl digit(2)] digit(3-8) by (simp add: not_less)
    then show ?thesis using CBS_get_u8_decreases [OF digit(1)] by simp
  qed
qed

function oid_from_text_loop :: "sys_alloc \<Rightarrow> nat \<Rightarrow> CBS \<Rightarrow> unit writer" where
  "oid_from_text_loop a d cbs s =
     (if CBS_len cbs > 0 then
        (case parse_dotted_decimal cbs of
           (None, _) \<Rightarrow> (None, s)
         | (Some v, cbs1) \<Rightarrow>
             (case add_base128_integer a d v s of
                (None, s1) \<Rightarrow> (None, s1)
              | (Some _, s1) \<Rightarrow> oid_from_text_loop a d cbs1 s1))
      else (Some (), s))"
  by pat_completeness auto

termination oid_from_text_loop
  by (relation "measure (\<lambda>(_, _, c, _). cbs_len c)")
    (auto simp: parse_dotted_decimal_def CBS_len_def dest!: parse_dotted_loop_len [OF sym])

declare oid_from_text_loop.simps [simp del]

definition CBB_add_asn1_oid_from_text :: "sys_alloc \<Rightarrow> nat \<Rightarrow> u8 list \<Rightarrow> nat \<Rightarrow> unit writer" where
  "CBB_add_asn1_oid_from_text alloc d text len s =
     cbb_bind (CBB_flush alloc d s) (\<lambda>_ s1.
       (case parse_dotted_decimal (CBS_init text len) of
          (None, _) \<Rightarrow> (None, s1)
        | (Some a, cbs1) \<Rightarrow>
            (case parse_dotted_decimal cbs1 of
               (None, _) \<Rightarrow> (None, s1)
             | (Some b, cbs2) \<Rightarrow>
                 (if a > 2 \<or> a < 2 \<and> b > 39 \<or> b > - 1 - 80 then (None, s1)
                  else cbb_bind (add_base128_integer alloc d (40 * a + b) s1)
                         (\<lambda>_ s2. oid_from_text_loop alloc d cbs2 s2)))))"

section \<open>To text\<close>

definition add_decimal :: "sys_alloc \<Rightarrow> u64 \<Rightarrow> unit writer" where
  "add_decimal a v = CBB_add_bytes a 0 (decimal (unat v))"

lemma parse_base128_shrinks: "(Some v, c1) = parse_base128_integer c \<Longrightarrow> cbs_len c1 < cbs_len c"
  using parse_base128_loop_len [of 0 c v c1] by (simp add: parse_base128_integer_def)

function oid_to_text_loop :: "sys_alloc \<Rightarrow> CBS \<Rightarrow> unit writer" where
  "oid_to_text_loop a copy s =
     (if CBS_len copy \<noteq> 0 then
        (case parse_base128_integer copy of
           (None, _) \<Rightarrow> (None, s)
         | (Some v, copy1) \<Rightarrow>
             (case cbb_bind (CBB_add_u8 a 0 0x2e s) (\<lambda>_ s1. add_decimal a v s1) of
                (None, s2) \<Rightarrow> (None, s2)
              | (Some _, s2) \<Rightarrow> oid_to_text_loop a copy1 s2))
      else (Some (), s))"
  by pat_completeness auto

termination oid_to_text_loop
  by (relation "measure (\<lambda>(_, c, _). cbs_len c)") (auto dest: parse_base128_shrinks)

declare oid_to_text_loop.simps [simp del]

definition add_first_components :: "sys_alloc \<Rightarrow> u64 \<Rightarrow> unit writer" where
  "add_first_components a v s =
     (if v \<ge> 80
      then cbb_bind (CBB_add_bytes a 0 [0x32, 0x2e] s) (\<lambda>_ s1. add_decimal a (v - 80) s1)
      else cbb_bind (add_decimal a (v div 40) s) (\<lambda>_ s1.
           cbb_bind (CBB_add_u8 a 0 0x2e s1) (\<lambda>_ s2. add_decimal a (v mod 40) s2)))"

text \<open>The result is the block \<^verbatim>\<open>txt\<close> points to, or none for a null pointer.\<close>

definition CBS_asn1_oid_to_text :: "sys_alloc \<Rightarrow> CBS \<Rightarrow> u8 list option" where
  "CBS_asn1_oid_to_text a cbs =
     (case CBB_init a 32 of
        (None, _) \<Rightarrow> None
      | (Some _, cbb) \<Rightarrow>
          (case parse_base128_integer cbs of
             (None, _) \<Rightarrow> None
           | (Some v, copy) \<Rightarrow>
               (case cbb_bind (add_first_components a v cbb) (\<lambda>_ cbb1.
                     cbb_bind (oid_to_text_loop a copy cbb1) (\<lambda>_ cbb2.
                     cbb_bind (CBB_add_u8 a 0 0 cbb2) (\<lambda>_ cbb3. CBB_finish a False 0 cbb3))) of
                  (None, _) \<Rightarrow> None
                | (Some (txt, _), _) \<Rightarrow> Some txt)))"

section \<open>The i2d calling convention\<close>

text \<open>
  \<^verbatim>\<open>outp\<close> is null, points to null, or points to a block the encoding is written to; the block
  comes back with the encoding in it and the pointer is advanced by the result.
\<close>

datatype i2d_out = Null_outp | Null_out | Out "u8 list"

definition CBB_finish_i2d :: "sys_alloc \<Rightarrow> i2d_out \<Rightarrow> CBB \<Rightarrow> int \<times> i2d_out \<times> CBB" where
  "CBB_finish_i2d a outp s =
     (case CBB_finish a False 0 s of
        (None, s1) \<Rightarrow> (- 1, outp, CBB_cleanup 0 s1)
      | (Some (der, der_len), s1) \<Rightarrow>
          (if der_len > 0x7fffffff then (- 1, outp, s1)
           else
             (int der_len,
              (case outp of
                 Null_outp \<Rightarrow> Null_outp
               | Null_out \<Rightarrow> Out der
               | Out p \<Rightarrow> Out (mem_write 0 (take der_len der) p)),
              s1)))"

section \<open>Digits\<close>

text \<open>The overflow checks of the parser admit exactly the digits that keep the value below 2 to the 64.\<close>

lemma unat_digit_value:
  fixes u :: u8 assumes "0x30 \<le> u" "u \<le> 0x39"
  shows "unat (ucast (u - 0x30) :: u64) = unat u - 48" and "unat u - 48 < 10" and "48 \<le> unat u"
proof -
  have "48 \<le> unat u" "unat u \<le> 57" using assms by (simp_all add: word_le_nat_alt)
  moreover have "unat (u - 0x30) = unat u - 48" using assms(1) by (simp add: unat_sub)
  ultimately show "unat (ucast (u - 0x30) :: u64) = unat u - 48" "unat u - 48 < 10" "48 \<le> unat u"
    by (simp_all add: unat_ucast_up)
qed

lemma digit_guard:
  fixes v w :: u64 assumes "unat w < 10"
  shows "v \<le> - 1 div 10 \<and> v * 10 \<le> - 1 - w \<longleftrightarrow> unat v * 10 + unat w < 2 ^ 64"
proof -
  have m: "unat (- 1 :: u64) = 2 ^ 64 - 1" by (rule unat_minus_1_u64)
  have d: "unat (- 1 div 10 :: u64) = 1844674407370955161" by (simp add: unat_div unat_minus_1_u64)
  have s: "unat (- 1 - w) = 2 ^ 64 - 1 - unat w" by (subst unat_sub) (simp_all add: m)
  show ?thesis
  proof (cases "unat v \<le> 1844674407370955161")
    case True
    then have "unat (v * 10) = unat v * 10" by (simp add: unat_word_ariths)
    then show ?thesis using True assms by (simp add: word_le_nat_alt d s) arith
  next
    case False
    then show ?thesis by (simp add: word_le_nat_alt d)
  qed
qed

lemma digit_step:
  fixes v w :: u64 assumes "unat v * 10 + unat w < 2 ^ 64"
  shows "unat (v * 10 + w) = unat v * 10 + unat w"
  using assms by (simp add: unat_word_ariths)

section \<open>One component\<close>

lemma parse_digit:
  assumes "consumes c [of_nat (48 + d)] c1" and "d < 10" and "\<not> (seen \<and> v = 0)" and "unat v * 10 + d < 2 ^ 64"
  shows "parse_dotted_loop v seen c = parse_dotted_loop (of_nat (unat v * 10 + d)) True c1"
proof -
  let ?u = "of_nat (48 + d) :: u8" and ?w = "ucast (of_nat (48 + d) - 0x30 :: u8) :: u64"
  have "0x30 \<le> ?u" "?u \<le> 0x39" using unat_digit [OF assms(2)] assms(2) by (simp_all add: word_le_nat_alt del: of_nat_add)
  moreover from this have "?u \<noteq> 0x2e" by (auto simp del: of_nat_add)
  ultimately have u: "0x30 \<le> ?u" "?u \<le> 0x39" "?u \<noteq> 0x2e" .
  have w: "unat ?w = d" using unat_digit_value(1) [OF u(1,2)] unat_digit [OF assms(2)] by simp
  have g: "v \<le> - 1 div 10 \<and> v * 10 \<le> - 1 - ?w" using digit_guard [of ?w v] w assms(2,4) by simp
  have "v * 10 + ?w = of_nat (unat v * 10 + d)"
    using digit_step [of v ?w] w assms(4) by (intro word_eq_of_natI) simp_all
  moreover have "CBS_get_u8 c = (Some ?u, c1)" by (rule CBS_get_u8_complete [OF assms(1)])
  ultimately show ?thesis
    unfolding parse_dotted_loop.simps [of v seen c] using u g assms(3) by (auto simp: not_less [symmetric] simp del: of_nat_add)
qed

lemma parse_decimal:
  "n < 2 ^ 64 \<Longrightarrow> consumes c (decimal n) c1 \<Longrightarrow>
     parse_dotted_loop 0 False c = parse_dotted_loop (of_nat n) True c1"
proof (induction n arbitrary: c1 rule: decimal.induct)
  case (1 n)
  show ?case
  proof (cases "n < 10")
    case True
    then show ?thesis using parse_digit [of c n c1 False 0] 1 by (simp add: decimal_digit)
  next
    case False
    let ?q = "n div 10"
    have q: "?q \<noteq> 0" "?q < 2 ^ 64" using False 1(2) by (simp_all add: div_eq_0_iff)
    have uq: "unat (of_nat ?q :: u64) = ?q" using q(2) by (intro unat_of_nat_eq) simp
    have "decimal n = decimal ?q @ [of_nat (48 + n mod 10)]" using decimal_snoc [of ?q "n mod 10"] q by simp
    then obtain c0 where c0: "consumes c (decimal ?q) c0" "consumes c0 [of_nat (48 + n mod 10)] c1"
      using consumes_append 1(3) by metis
    have "parse_dotted_loop (of_nat ?q) True c0 = parse_dotted_loop (of_nat n) True c1"
      using parse_digit [OF c0(2), of True "of_nat ?q"] q(1) 1(2) uq by (metis mod_less_divisor zero_less_numeral div_mult_mod_eq unsigned_0)
    then show ?thesis using 1(1) [OF False q(2) c0(1)] by simp
  qed
qed

lemma parse_dotted_complete:
  assumes "CBS_wf c" and "cbs_bytes c = dotted (n # ns)" and "n < 2 ^ 64"
  obtains c' where "parse_dotted_decimal c = (Some (of_nat n), c')" and "CBS_wf c'" and "cbs_bytes c' = dotted ns"
proof -
  define c1 where "c1 = cbs_drop (length (decimal n)) c"
  have c1: "consumes c (decimal n) c1" unfolding c1_def
    using assms(1,2) by (intro consumesI) (simp_all add: dotted_Cons)
  have w1: "CBS_wf c1" "cbs_bytes c1 = (if ns = [] then [] else 0x2e # dotted ns)"
    using assms(1,2) by (simp_all add: c1_def dotted_Cons)
  note p = parse_decimal [OF assms(3) c1, folded parse_dotted_decimal_def]
  show thesis
  proof (cases "ns = []")
    case True
    then have "cbs_len c1 = 0" using w1 length_cbs_bytes [OF w1(1)] by simp
    then have "CBS_get_u8 c1 = (None, c1)" by (simp add: CBS_get_u8_def cbs_get_eq cbs_bind_def)
    then show thesis using that w1 True unfolding p parse_dotted_loop.simps [of _ True c1] by simp
  next
    case False
    have c2: "consumes c1 [0x2e] (cbs_drop 1 c1)" using w1 False consumesI [of c1 "[0x2e]" "dotted ns"] by simp
    have "cbs_bytes (cbs_drop 1 c1) = dotted ns" "CBS_wf (cbs_drop 1 c1)" using w1 False by simp_all
    moreover from this have "0 < CBS_len (cbs_drop 1 c1)"
      using length_cbs_bytes [of "cbs_drop 1 c1"] False dotted_eq_Nil [of ns]
      by (metis CBS_len_def length_greater_0_conv)
    ultimately show thesis using that CBS_get_u8_complete [OF c2] unfolding p parse_dotted_loop.simps [of _ True c1] by simp
  qed
qed

lemma parse_dotted_loop_sound:
  "parse_dotted_loop v seen c = (Some x, c') \<Longrightarrow> CBS_wf c \<Longrightarrow> (\<not> seen \<Longrightarrow> v = 0) \<Longrightarrow>
     CBS_wf c' \<and> (\<exists>ds. cbs_bytes c = ds @ (if cbs_bytes c' = [] then [] else 0x2e # cbs_bytes c') \<and>
       (if seen then decimal (unat v) else []) @ ds = decimal (unat x))"
proof (induction v seen c rule: parse_dotted_loop.induct)
  case (1 v seen c)
  from 1(2) show ?case
  proof (cases rule: parse_dotted_loop_cases)
    case stop
    then show ?thesis using CBS_get_u8_None 1(3) by (auto simp: cbs_bytes_def)
  next
    case dot
    have "consumes c [0x2e] c'" using CBS_get_u8_sound [OF 1(3) dot(1)] .
    moreover from this have "cbs_bytes c' \<noteq> []"
      using consumesD(2) length_cbs_bytes [of c'] dot(2) by (fastforce simp: CBS_len_def)
    ultimately show ?thesis using consumesD(2,3) dot(3,4) by auto
  next
    case (digit u c1)
    have c1: "consumes c [u] c1" using CBS_get_u8_sound [OF 1(3) digit(1)] .
    note u = unat_digit_value [OF digit(3,4)]
    let ?v = "v * 10 + ucast (u - 0x30)"
    have lim: "unat v * 10 + unat (ucast (u - 0x30) :: u64) < 2 ^ 64" using digit_guard digit(6,7) u(1,2) by metis
    have uv: "unat ?v = unat v * 10 + (unat u - 48)" using digit_step [OF lim] u(1) by simp
    have ub: "of_nat (48 + (unat u - 48)) = u" using u(3) by simp
    obtain ds where ds: "CBS_wf c'" "cbs_bytes c1 = ds @ (if cbs_bytes c' = [] then [] else 0x2e # cbs_bytes c')"
        "decimal (unat ?v) @ ds = decimal (unat x)"
      using 1(1) [OF digit(1) [symmetric] refl digit(2)] digit(3-8) consumesD(2) [OF c1] by (auto simp: not_less)
    have "decimal (unat ?v) = (if seen then decimal (unat v) else []) @ [u]"
    proof (cases seen)
      case True
      then have "unat v \<noteq> 0" using digit(5) by (simp add: unsigned_eq_0_iff)
      from decimal_snoc [OF this u(2)] show ?thesis using True ub uv by metis
    next
      case False
      then show ?thesis using decimal_digit [OF u(2)] ub uv 1(4) by simp
    qed
    then show ?thesis using ds consumesD(3) [OF c1] by auto
  qed
qed

lemma parse_dotted_sound:
  assumes "CBS_wf c" and "parse_dotted_decimal c = (Some x, c')"
  shows "CBS_wf c'" and "cbs_bytes c = decimal (unat x) @ (if cbs_bytes c' = [] then [] else 0x2e # cbs_bytes c')"
  using parse_dotted_loop_sound [OF assms(2) [unfolded parse_dotted_decimal_def] assms(1)] by auto

section \<open>Object identifiers\<close>

definition oid_ok :: "nat list \<Rightarrow> bool" where
  "oid_ok cs \<longleftrightarrow> (case cs of
     x # y # rest \<Rightarrow> x \<le> 2 \<and> (x < 2 \<longrightarrow> y \<le> 39) \<and> y < 2 ^ 64 - 80 \<and> (\<forall>z\<in>set rest. z < 2 ^ 64)
   | _ \<Rightarrow> False)"

definition oid_octets :: "nat list \<Rightarrow> u8 list" where
  "oid_octets cs = (case cs of
     x # y # rest \<Rightarrow> base128_bytes (40 * x + y) @ concat (map base128_bytes rest)
   | _ \<Rightarrow> [])"

lemma oid_okE:
  assumes "oid_ok cs"
  obtains x y rest where "cs = x # y # rest" and "x \<le> 2" and "x < 2 \<longrightarrow> y \<le> 39" and "y < 2 ^ 64 - 80"
    and "\<forall>z\<in>set rest. z < 2 ^ 64"
  using assms by (auto simp: oid_ok_def split: list.splits)

lemma emits_oid_from_text_loop:
  "CBS_wf c \<Longrightarrow> cbs_bytes c = dotted ns \<Longrightarrow> \<forall>n\<in>set ns. n < 2 ^ 64 \<Longrightarrow>
     emits a (oid_from_text_loop a d c) d (concat (map base128_bytes ns)) ()"
proof (induction ns arbitrary: c)
  case Nil
  then have "CBS_len c = 0" using length_cbs_bytes [of c] by (simp add: CBS_len_def)
  then show ?case using emits_return [of a "()" d] by (simp add: oid_from_text_loop.simps emits_def)
next
  case (Cons n ns)
  obtain c1 where c1: "parse_dotted_decimal c = (Some (of_nat n), c1)" "CBS_wf c1" "cbs_bytes c1 = dotted ns"
    using parse_dotted_complete [OF Cons.prems(1,2)] Cons.prems(3) by auto
  have "CBS_len c \<noteq> 0" using length_cbs_bytes [OF Cons.prems(1)] Cons.prems(2) dotted_eq_Nil [of "n # ns"]
    by (metis CBS_len_def length_0_conv list.distinct(1))
  then have eq: "oid_from_text_loop a d c s =
      cbb_bind (add_base128_integer a d (of_nat n) s) (\<lambda>_ s1. oid_from_text_loop a d c1 s1)" for s
    by (simp add: oid_from_text_loop.simps [of a d c] c1(1) cbb_bind_def)
  have un: "unat (of_nat n :: u64) = n" using Cons.prems(3) by (intro unat_of_nat_eq) simp
  show ?case
    using emits_bind [OF emits_add_base128_integer [of a d "of_nat n"], of "\<lambda>_. oid_from_text_loop a d c1"]
      Cons.IH [OF c1(2,3)] Cons.prems(3) un unfolding eq [abs_def] by simp
qed

lemma oid_from_text_loop_sound:
  "oid_from_text_loop a d c s = (Some u, s') \<Longrightarrow> CBS_wf c \<Longrightarrow>
     \<exists>ns. cbs_bytes c = dotted ns \<and> (\<forall>n\<in>set ns. n < 2 ^ 64)"
proof (induction a d c s rule: oid_from_text_loop.induct)
  case (1 a d c s)
  show ?case
  proof (cases "CBS_len c > 0")
    case False
    then have "cbs_bytes c = dotted []" by (simp add: CBS_len_def cbs_bytes_def)
    then show ?thesis by (metis emptyE list.set(1))
  next
    case True
    obtain v c1 s1 where st: "parse_dotted_decimal c = (Some v, c1)" "add_base128_integer a d v s = (Some (), s1)"
        "oid_from_text_loop a d c1 s1 = (Some u, s')"
      using 1(2) True by (subst (asm) oid_from_text_loop.simps) (auto split: prod.splits option.splits)
    note p = parse_dotted_sound [OF 1(3) st(1)]
    obtain ns where ns: "cbs_bytes c1 = dotted ns" "\<forall>n\<in>set ns. n < 2 ^ 64"
      using 1(1) [OF True st(1) [symmetric] refl st(2) [symmetric] refl st(3) p(1)] by blast
    have "cbs_bytes c = dotted (unat v # ns)" using p(2) ns(1) by (simp add: dotted_Cons)
    moreover have "\<forall>n\<in>set (unat v # ns). n < 2 ^ 64" using ns(2) unat_u64_less [of v] by simp
    ultimately show ?thesis by blast
  qed
qed

lemma oid_guard:
  fixes x y :: u64
  shows "\<not> (x > 2 \<or> x < 2 \<and> y > 39 \<or> y > - 1 - 80) \<longleftrightarrow>
    unat x \<le> 2 \<and> (unat x < 2 \<longrightarrow> unat y \<le> 39) \<and> unat y < 2 ^ 64 - 80"
proof -
  have "unat (- 1 - 80 :: u64) = 2 ^ 64 - 1 - 80" by (subst unat_sub) (simp_all add: unat_minus_1_u64)
  then show ?thesis by (auto simp: word_less_nat_alt not_less)
qed

lemma unat_first_component:
  fixes x y :: u64 assumes "unat x \<le> 2" and "unat y < 2 ^ 64 - 80"
  shows "unat (40 * x + y) = 40 * unat x + unat y"
proof -
  have "unat (40 * x) = 40 * unat x" using assms(1) by (simp add: unat_word_ariths)
  then show ?thesis using assms by (simp add: unat_word_ariths)
qed

lemma from_text_complete:
  assumes "len \<le> length text" and "oid_ok cs" and "take len text = dotted cs"
  shows "emits a (CBB_add_asn1_oid_from_text a d text len) d (oid_octets cs) ()"
proof -
  obtain x y rest where cs: "cs = x # y # rest" and ok: "x \<le> 2" "x < 2 \<longrightarrow> y \<le> 39" "y < 2 ^ 64 - 80"
      "\<forall>z\<in>set rest. z < 2 ^ 64"
    using oid_okE [OF assms(2)] by blast
  have c: "CBS_wf (CBS_init text len)" "cbs_bytes (CBS_init text len) = dotted (x # y # rest)"
    using assms(1,3) cs by (simp_all add: CBS_wf_def CBS_init_def cbs_bytes_def)
  obtain c1 where c1: "parse_dotted_decimal (CBS_init text len) = (Some (of_nat x), c1)" "CBS_wf c1"
      "cbs_bytes c1 = dotted (y # rest)"
    using parse_dotted_complete [OF c] ok(1) by auto
  obtain c2 where c2: "parse_dotted_decimal c1 = (Some (of_nat y), c2)" "CBS_wf c2" "cbs_bytes c2 = dotted rest"
    using parse_dotted_complete [OF c1(2,3)] ok(3) by auto
  have un: "unat (of_nat x :: u64) = x" "unat (of_nat y :: u64) = y" using ok by (auto intro!: unat_of_nat_eq)
  have g: "\<not> (of_nat x > (2 :: u64) \<or> of_nat x < (2 :: u64) \<and> of_nat y > (39 :: u64) \<or> of_nat y > (- 1 - 80 :: u64))"
    unfolding oid_guard un using ok by simp
  have eq: "CBB_add_asn1_oid_from_text a d text len s = cbb_bind (CBB_flush a d s) (\<lambda>_ s1.
      cbb_bind (add_base128_integer a d (40 * of_nat x + of_nat y) s1) (\<lambda>_ s2. oid_from_text_loop a d c2 s2))" for s
    unfolding CBB_add_asn1_oid_from_text_def c1(1) c2(1) prod.case option.case if_not_P [OF g] ..
  have em: "emits a (\<lambda>s1. cbb_bind (add_base128_integer a d (40 * of_nat x + of_nat y) s1)
      (\<lambda>_ s2. oid_from_text_loop a d c2 s2)) d (oid_octets cs) ()"
    using emits_bind [OF emits_add_base128_integer [of a d "40 * of_nat x + of_nat y"] emits_oid_from_text_loop [OF c2(2,3) ok(4)]]
      unat_first_component [of "of_nat x" "of_nat y"] un ok cs by (simp add: oid_octets_def)
  have fl: "emits a (\<lambda>s. CBB_flush a d s) d [] ()"
    using emits_return [of a "()" d] by (auto simp: emits_def CBB_flush_top)
  show ?thesis unfolding eq [abs_def] using emits_bind [OF fl em] by simp
qed

lemma from_text_sound:
  assumes "CBB_top d s" and "len \<le> length text" and "CBB_add_asn1_oid_from_text a d text len s = (Some u, s')"
  shows "\<exists>cs. oid_ok cs \<and> take len text = dotted cs"
proof -
  let ?c = "CBS_init text len"
  have c: "CBS_wf ?c" "cbs_bytes ?c = take len text" using assms(2) by (simp_all add: CBS_wf_def CBS_init_def cbs_bytes_def)
  obtain x c1 y c2 s2 where st: "parse_dotted_decimal ?c = (Some x, c1)" "parse_dotted_decimal c1 = (Some y, c2)"
      "\<not> (x > 2 \<or> x < 2 \<and> y > 39 \<or> y > - 1 - 80)" "oid_from_text_loop a d c2 s2 = (Some u, s')"
    using assms(3) unfolding CBB_add_asn1_oid_from_text_def CBB_flush_top [OF assms(1)] cbb_bind_simps
    by (auto simp: cbb_bind_Some split: prod.splits option.splits if_splits)
  note p1 = parse_dotted_sound [OF c(1) st(1)]
  note p2 = parse_dotted_sound [OF p1(1) st(2)]
  obtain rest where rest: "cbs_bytes c2 = dotted rest" "\<forall>n\<in>set rest. n < 2 ^ 64"
    using oid_from_text_loop_sound [OF st(4) p2(1)] by blast
  have b1: "cbs_bytes c1 = dotted (unat y # rest)" using p2(2) rest(1) by (simp add: dotted_Cons)
  then have "take len text = dotted (unat x # unat y # rest)" using p1(2) c(2) dotted_eq_Nil [of "unat y # rest"] by simp
  moreover have "oid_ok (unat x # unat y # rest)" using st(3)[unfolded oid_guard] rest(2) by (simp add: oid_ok_def)
  ultimately show ?thesis by blast
qed

section \<open>Printing\<close>

lemma emits_add_decimal: "emits a (add_decimal a v) 0 (decimal (unat v)) ()"
proof -
  have "length (decimal (unat v)) \<le> Suc 19" by (rule decimal_length) (use unat_u64_less [of v] in simp)
  then show ?thesis unfolding add_decimal_def by (intro emits_CBB_add_bytes) simp
qed

lemma first_components:
  fixes v :: u64
  obtains x y where "x \<le> 2" and "x < 2 \<longrightarrow> y \<le> 39" and "y < 2 ^ 64 - 80" and "40 * x + y = unat v"
    and "emits a (add_first_components a v) 0 (decimal x @ 0x2e # decimal y) ()"
proof (cases "v \<ge> 80")
  case True
  then have v: "80 \<le> unat v" "unat (v - 80) = unat v - 80" by (simp_all add: word_le_nat_alt unat_sub)
  have "emits a (CBB_add_bytes a 0 [0x32, 0x2e]) 0 [0x32, 0x2e] ()" by (rule emits_CBB_add_bytes) simp
  from emits_bind [OF this emits_add_decimal [of a "v - 80"]]
  have "emits a (add_first_components a v) 0 (decimal 2 @ 0x2e # decimal (unat v - 80)) ()"
    using True v(2) by (simp add: add_first_components_def [abs_def] decimal_digit)
  then show thesis using that [of 2 "unat v - 80"] v unat_u64_less [of v] by simp
next
  case False
  then have v: "unat v < 80" by (simp add: word_le_nat_alt)
  have uv: "unat (v div 40) = unat v div 40" "unat (v mod 40) = unat v mod 40" by (simp_all add: unat_div unat_mod)
  from emits_bind [OF emits_add_decimal [of a "v div 40"] emits_bind [OF emits_CBB_add_u8 [of a 0 "0x2e"] emits_add_decimal [of a "v mod 40"]]]
  have "emits a (add_first_components a v) 0 (decimal (unat v div 40) @ 0x2e # decimal (unat v mod 40)) ()"
    using False uv by (simp add: add_first_components_def [abs_def])
  moreover have "unat v mod 40 \<le> 39" "unat v div 40 \<le> 2" "unat v mod 40 < 2 ^ 64 - 80"
    using v mod_less_divisor [of 40 "unat v"] by simp_all
  ultimately show thesis using that [of "unat v div 40" "unat v mod 40"] by simp
qed

lemma dotted_concat: "dotted (n # ns) = decimal n @ concat (map (\<lambda>m. 0x2e # decimal m) ns)"
  by (induction ns arbitrary: n) simp_all

lemma dotted_no_zero: "0 \<notin> set (dotted ns)"
  by (cases ns) (auto simp: dotted_concat decimal_no_zero)

lemma oid_to_text_loop_eq:
  assumes "CBS_len c \<noteq> 0" and "parse_base128_integer c = (Some v, c1)"
  shows "oid_to_text_loop a c s =
    cbb_bind (cbb_bind (CBB_add_u8 a 0 0x2e s) (\<lambda>_. add_decimal a v)) (\<lambda>_. oid_to_text_loop a c1)"
  using assms by (simp add: oid_to_text_loop.simps [of a c] cbb_bind_def [of "cbb_bind _ _"])

lemma base128_bytes_ne: "base128_bytes n \<noteq> []"
  by (simp add: base128_bytes_def)

lemma emits_oid_to_text_loop:
  "CBS_wf c \<Longrightarrow> cbs_bytes c = concat (map base128_bytes ns) \<Longrightarrow> \<forall>n\<in>set ns. n < 2 ^ 64 \<Longrightarrow>
     emits a (oid_to_text_loop a c) 0 (concat (map (\<lambda>m. 0x2e # decimal m) ns)) ()"
proof (induction ns arbitrary: c)
  case Nil
  then have "CBS_len c = 0" using length_cbs_bytes [of c] by (simp add: CBS_len_def)
  then show ?case using emits_return [of a "()" 0] by (simp add: oid_to_text_loop.simps emits_def)
next
  case (Cons n ns)
  have un: "unat (of_nat n :: u64) = n" using Cons.prems(3) by (intro unat_of_nat_eq) simp
  obtain c1 where c1: "parse_base128_integer c = (Some (of_nat n), c1)" "CBS_wf c1" "cbs_bytes c1 = concat (map base128_bytes ns)"
    using base128.roundtrip [OF TrueI Cons.prems(1), of "of_nat n"] Cons.prems(2) un by auto
  have ne: "CBS_len c \<noteq> 0" using length_cbs_bytes [OF Cons.prems(1)] Cons.prems(2) base128_bytes_ne [of n]
    by (metis CBS_len_def append_is_Nil_conv concat.simps(2) length_0_conv list.simps(9))
  note step = emits_bind [OF emits_CBB_add_u8 [of a 0 "0x2e"] emits_add_decimal [of a "of_nat n"]]
  have "emits a (oid_to_text_loop a c1) 0 (concat (map (\<lambda>m. 0x2e # decimal m) ns)) ()"
    using Cons.IH [OF c1(2,3)] Cons.prems(3) by simp
  from emits_bind [OF step this] show ?case unfolding oid_to_text_loop_eq [OF ne c1(1), abs_def] un by simp
qed

lemma oid_to_text_loop_sound:
  "oid_to_text_loop a c s = (Some u, s') \<Longrightarrow> CBS_wf c \<Longrightarrow>
     \<exists>ns. cbs_bytes c = concat (map base128_bytes ns) \<and> (\<forall>n\<in>set ns. n < 2 ^ 64)"
proof (induction a c s rule: oid_to_text_loop.induct)
  case (1 a c s)
  show ?case
  proof (cases "CBS_len c = 0")
    case True
    then have "cbs_bytes c = concat (map base128_bytes [])" by (simp add: CBS_len_def cbs_bytes_def)
    then show ?thesis by (metis emptyE list.set(1))
  next
    case False
    obtain v c1 x s1 where st: "parse_base128_integer c = (Some v, c1)"
        "cbb_bind (CBB_add_u8 a 0 0x2e s) (\<lambda>_. add_decimal a v) = (Some x, s1)" "oid_to_text_loop a c1 s1 = (Some u, s')"
      using 1(2) False by (subst (asm) oid_to_text_loop.simps) (auto split: prod.splits option.splits)
    note p = base128.window_suffix [OF 1(3) st(1)]
    obtain ns where ns: "cbs_bytes c1 = concat (map base128_bytes ns)" "\<forall>n\<in>set ns. n < 2 ^ 64"
      using 1(1) [OF False st(1) [symmetric] refl st(2) [symmetric] refl st(3) p(1)] by blast
    have "cbs_bytes c = concat (map base128_bytes (unat v # ns))" using p(2) ns(1) by simp
    moreover have "\<forall>n\<in>set (unat v # ns). n < 2 ^ 64" using ns(2) unat_u64_less [of v] by simp
    ultimately show ?thesis by blast
  qed
qed

text \<open>The text and its terminator, written before the builder is finished.\<close>

definition oid_text_body :: "sys_alloc \<Rightarrow> u64 \<Rightarrow> CBS \<Rightarrow> unit writer" where
  "oid_text_body a v copy s =
     cbb_bind (add_first_components a v s) (\<lambda>_ s1.
     cbb_bind (oid_to_text_loop a copy s1) (\<lambda>_ s2. CBB_add_u8 a 0 0 s2))"

lemma CBS_asn1_oid_to_text_eq:
  "CBS_asn1_oid_to_text a c =
     (case CBB_init a 32 of
        (None, _) \<Rightarrow> None
      | (Some _, s) \<Rightarrow>
          (case parse_base128_integer c of
             (None, _) \<Rightarrow> None
           | (Some v, copy) \<Rightarrow>
               (case cbb_bind (oid_text_body a v copy s) (\<lambda>_. CBB_finish a False 0) of
                  (None, _) \<Rightarrow> None
                | (Some (txt, _), _) \<Rightarrow> Some txt)))"
  unfolding CBS_asn1_oid_to_text_def oid_text_body_def cbb_bind_assoc ..

lemma emits_oid_text_body:
  assumes "CBS_wf copy" and "cbs_bytes copy = concat (map base128_bytes rest)" and "\<forall>n\<in>set rest. n < 2 ^ 64"
  obtains x y where "oid_ok (x # y # rest)" and "40 * x + y = unat v"
    and "emits a (oid_text_body a v copy) 0 (dotted (x # y # rest) @ [0]) ()"
proof -
  obtain x y where xy: "x \<le> 2" "x < 2 \<longrightarrow> y \<le> 39" "y < 2 ^ 64 - 80" "40 * x + y = unat v"
      "emits a (add_first_components a v) 0 (decimal x @ 0x2e # decimal y) ()"
    by (rule first_components)
  from emits_bind [OF xy(5) emits_bind [OF emits_oid_to_text_loop [OF assms] emits_CBB_add_u8 [of a 0 0]]]
  have "emits a (oid_text_body a v copy) 0 (dotted (x # y # rest) @ [0]) ()"
    unfolding oid_text_body_def [abs_def] by (simp add: dotted_concat)
  then show thesis using that xy assms(3) by (simp add: oid_ok_def)
qed

lemma finished_text:
  assumes "CBB_top 0 s" and "cbb_base s = Some b0" and "written b0 = []" and "grows s (t @ [0]) s1" and "0 \<notin> set t"
  obtains out n s2 where "CBB_finish a False 0 s1 = (Some (out, n), s2)" and "cstr out = t"
proof -
  obtain b where b: "cbb_base s1 = Some b" "written b = t @ [0]"
    using assms(2-4) by (auto simp: grows_def buffer_grows_def)
  have "bb_buf b = t @ 0 # drop (bb_len b) (bb_buf b)"
    using b(2) append_take_drop_id [of "bb_len b" "bb_buf b"] by (simp add: written_def)
  then have "cstr (bb_buf b) = t" using cstr_append_0 [OF assms(5)] by metis
  moreover have "CBB_top 0 s1" by (rule grows_top [OF assms(1,4)])
  ultimately show thesis using that b(1) by (simp add: CBB_finish_def CBB_flush_top)
qed

lemma CBB_init_room:
  assumes "never_fails a" and "n + 8 < SIZE_LIMIT"
  obtains s where "CBB_init a n = (Some (), s)" and "\<And>m. 2 * m + 8 < SIZE_LIMIT \<Longrightarrow> fits a s m"
  using that assms OPENSSL_malloc_ok [OF assms(1), of n] OPENSSL_malloc_ok [OF assms(1), of 32]
  by (auto simp: CBB_init_def Let_def cbb_init_def CBB_zero_def fits_def room_def)

lemma first_component_unique:
  fixes x y x' y' :: nat
  assumes "40 * x' + y' = 40 * x + y" and "x' < 2 \<longrightarrow> y' \<le> 39" and "x < 2 \<longrightarrow> y \<le> 39" and "x \<le> 2" and "x' \<le> 2"
  shows "x' = x \<and> y' = y"
  using assms by (cases x' x rule: linorder_cases) auto

lemma to_text_sound:
  assumes "CBS_wf c" and "CBS_asn1_oid_to_text a c = Some out"
  shows "\<exists>cs. oid_ok cs \<and> cbs_bytes c = oid_octets cs \<and> cstr out = dotted cs"
proof -
  obtain u s v copy w s1 n s2 where st: "CBB_init a 32 = (Some u, s)" "parse_base128_integer c = (Some v, copy)"
      "oid_text_body a v copy s = (Some w, s1)" "CBB_finish a False 0 s1 = (Some (out, n), s2)"
    using assms(2) by (auto simp: CBS_asn1_oid_to_text_eq cbb_bind_Some split: prod.splits option.splits)
  have I: "CBB_top 0 s" "\<exists>b. cbb_base s = Some b \<and> written b = []" using CBB_init_top [OF st(1)] by simp_all
  note p = base128.window_suffix [OF assms(1) st(2)]
  obtain sa sb where "oid_to_text_loop a copy sa = (Some (), sb)"
    using st(3) by (auto simp: oid_text_body_def cbb_bind_Some)
  then obtain rest where rest: "cbs_bytes copy = concat (map base128_bytes rest)" "\<forall>n\<in>set rest. n < 2 ^ 64"
    using oid_to_text_loop_sound p(1) by blast
  obtain x y where xy: "oid_ok (x # y # rest)" "40 * x + y = unat v"
      "emits a (oid_text_body a v copy) 0 (dotted (x # y # rest) @ [0]) ()"
    by (rule emits_oid_text_body [OF p(1) rest])
  have "grows s (dotted (x # y # rest) @ [0]) s1" using emits_Some [OF xy(3) I(1) st(3)] by simp
  then have "cstr out = dotted (x # y # rest)"
    using finished_text [OF I(1)] I(2) dotted_no_zero st(4) by (metis Pair_inject option.inject)
  moreover have "cbs_bytes c = oid_octets (x # y # rest)" using p(2) rest(1) xy(2) by (simp add: oid_octets_def)
  ultimately show ?thesis using xy(1) by blast
qed

lemma to_text_complete:
  assumes "CBS_wf c" and "never_fails a" and "oid_ok cs" and "cbs_bytes c = oid_octets cs" and "2 * length (dotted cs) + 10 < 2 ^ 64"
  shows "\<exists>out. CBS_asn1_oid_to_text a c = Some out \<and> cstr out = dotted cs"
proof -
  note A = assms
  obtain x y rest where cs: "cs = x # y # rest" and ok: "x \<le> 2" "x < 2 \<longrightarrow> y \<le> 39" "y < 2 ^ 64 - 80"
      "\<forall>z\<in>set rest. z < 2 ^ 64"
    using oid_okE [OF A(3)] by blast
  obtain s where s: "CBB_init a 32 = (Some (), s)" "\<And>m. 2 * m + 8 < SIZE_LIMIT \<Longrightarrow> fits a s m"
    using A CBB_init_room [of a 32] by auto
  have I: "CBB_top 0 s" "\<exists>b. cbb_base s = Some b \<and> written b = []" using CBB_init_top [OF s(1)] by simp_all
  have v: "unat (of_nat (40 * x + y) :: u64) = 40 * x + y" using ok(1-3) by (intro unat_of_nat_eq) simp
  obtain copy where p: "parse_base128_integer c = (Some (of_nat (40 * x + y)), copy)" "CBS_wf copy"
      "cbs_bytes copy = concat (map base128_bytes rest)"
    using base128.roundtrip [OF TrueI A(1), of "of_nat (40 * x + y)"] A cs v by (auto simp: oid_octets_def)
  obtain x' y' where xy: "oid_ok (x' # y' # rest)" "40 * x' + y' = unat (of_nat (40 * x + y) :: u64)"
      "emits a (oid_text_body a (of_nat (40 * x + y)) copy) 0 (dotted (x' # y' # rest) @ [0]) ()"
    by (rule emits_oid_text_body [OF p(2,3) ok(4)])
  have "x' \<le> 2 \<and> (x' < 2 \<longrightarrow> y' \<le> 39)" using xy(1) by (simp add: oid_ok_def)
  then have eq: "x' = x \<and> y' = y" using first_component_unique xy(2) ok(1,2) unfolding v by blast
  have "fits a s (length (dotted cs @ [0]))" using A by (intro s(2)) simp
  then obtain s1 where s1: "oid_text_body a (of_nat (40 * x + y)) copy s = (Some (), s1)" "grows s (dotted cs @ [0]) s1"
    using emits_succeeds [OF xy(3) I(1)] eq cs by metis
  obtain out n s2 where "CBB_finish a False 0 s1 = (Some (out, n), s2)" "cstr out = dotted cs"
    using finished_text [OF I(1) _ _ s1(2) dotted_no_zero, of _ a] I(2) by metis
  then show ?thesis
    by (simp add: CBS_asn1_oid_to_text_eq s(1) p(1) s1(1) del: of_nat_add of_nat_mult)
qed

text \<open>The wrapper hands out what was written, or fails when the length is no \<^verbatim>\<open>int\<close>.\<close>

lemma CBB_finish_i2d_result:
  assumes "CBB_top 0 s" and "cbb_base s = Some b" and "CBB_finish_i2d a (Out p) s = (r, o2, s')"
  shows "if bb_len b \<le> 2 ^ 31 - 1 then r = int (bb_len b) \<and> o2 = Out (mem_write 0 (written b) p)
    else r = - 1 \<and> o2 = Out p"
  using assms by (auto simp: CBB_finish_i2d_def CBB_finish_def CBB_flush_top written_def split: if_splits)

section \<open>Properties\<close>

text \<open>
  C8. \<open>CBB_add_asn1_oid_from_text\<close> accepts exactly the dotted decimal texts of object identifiers:
  at least two components without leading zeros or a trailing dot, the first 0, 1 or 2, the second
  below 40 under the first two arcs, none too large for 64 bits. For such a text it appends
  the base-128 encoding of the components, and fails only when there is no room for it.
\<close>

theorem oid_from_text_canonical:
  assumes "CBB_top d s" and "len \<le> length text"
  shows "(\<forall>s'. CBB_add_asn1_oid_from_text a d text len s = (Some (), s') \<longrightarrow>
        (\<exists>cs. oid_ok cs \<and> take len text = dotted cs \<and> grows s (oid_octets cs) s')) \<and>
    (\<forall>cs. oid_ok cs \<and> take len text = dotted cs \<and> fits a s (length (oid_octets cs)) \<longrightarrow>
        (\<exists>s'. CBB_add_asn1_oid_from_text a d text len s = (Some (), s')))"
proof (intro conjI allI impI)
  fix s' assume r: "CBB_add_asn1_oid_from_text a d text len s = (Some (), s')"
  then obtain cs where cs: "oid_ok cs" "take len text = dotted cs" using from_text_sound [OF assms] by blast
  with emits_Some [OF from_text_complete [OF assms(2) cs] assms(1) r]
  show "\<exists>cs. oid_ok cs \<and> take len text = dotted cs \<and> grows s (oid_octets cs) s'" by blast
next
  fix cs assume "oid_ok cs \<and> take len text = dotted cs \<and> fits a s (length (oid_octets cs))"
  then show "\<exists>s'. CBB_add_asn1_oid_from_text a d text len s = (Some (), s')"
    using emits_succeeds [OF from_text_complete [OF assms(2)] assms(1)] by blast
qed

text \<open>The text 1.2.840 in a builder on a fixed buffer of four bytes.\<close>

theorem oid_from_text_canonical_witness:
  "\<exists>s'. CBB_add_asn1_oid_from_text example_alloc 0 [0x31, 0x2e, 0x32, 0x2e, 0x38, 0x34, 0x30] 7
     (snd (CBB_init_fixed example_alloc [0, 0, 0, 0] 4)) = (Some (), s')"
proof -
  let ?t = "[0x31, 0x2e, 0x32, 0x2e, 0x38, 0x34, 0x30] :: u8 list" and ?cs = "[1, 2, 840]"
  have "length [0, 0, 0, 0 :: u8] = 4" by simp
  note I = CBB_init_fixed_top [OF example_init, of "[0, 0, 0, 0]", unfolded this]
  have t: "take 7 ?t = dotted ?cs" by (simp add: decimal.simps)
  have ok: "oid_ok ?cs" by (simp add: oid_ok_def)
  have o: "length (oid_octets ?cs) = 3" by (simp add: oid_octets_def base128_bytes_def base128_cont.simps)
  show ?thesis
  proof (rule oid_from_text_canonical [THEN conjunct2, rule_format])
    show "CBB_top 0 (snd (CBB_init_fixed example_alloc [0, 0, 0, 0] 4))" by (rule I(1)) simp
    show "7 \<le> length ?t" by simp
    show "oid_ok ?cs \<and> take 7 ?t = dotted ?cs \<and> fits example_alloc
        (snd (CBB_init_fixed example_alloc [0, 0, 0, 0] 4)) (length (oid_octets ?cs))"
      unfolding o using ok t by (simp only: I(2)) simp
  qed
qed

text \<open>
  C9. \<open>CBS_asn1_oid_to_text\<close> inverts this: a text is returned exactly for the contents octets of
  an object identifier, and it is the dotted text of its components, NUL-terminated. Octets with
  a non-minimal, truncated or oversized component give no text. With an allocator that does not
  fail every valid encoding gives its text, of any length that can be addressed.
\<close>

theorem oid_to_text_canonical:
  assumes "CBS_wf c"
  shows "(\<forall>out. CBS_asn1_oid_to_text a c = Some out \<longrightarrow>
        (\<exists>cs. oid_ok cs \<and> cbs_bytes c = oid_octets cs \<and> cstr out = dotted cs)) \<and>
    (\<forall>cs. never_fails a \<and> oid_ok cs \<and> cbs_bytes c = oid_octets cs \<and> 2 * length (dotted cs) + 10 < 2 ^ 64 \<longrightarrow>
        (\<exists>out. CBS_asn1_oid_to_text a c = Some out \<and> cstr out = dotted cs))"
  by (blast intro: to_text_sound [OF assms] to_text_complete [OF assms])

theorem oid_to_text_canonical_witness:
  "\<exists>out. CBS_asn1_oid_to_text example_alloc (CBS_init [0x2a, 0x86, 0x48] 3) = Some out \<and>
     cstr out = [0x31, 0x2e, 0x32, 0x2e, 0x38, 0x34, 0x30]"
proof -
  let ?c = "CBS_init [0x2a, 0x86, 0x48] 3" and ?cs = "[1, 2, 840]"
  have wf: "CBS_wf ?c" by (simp add: CBS_wf_def CBS_init_def)
  have t: "dotted ?cs = [0x31, 0x2e, 0x32, 0x2e, 0x38, 0x34, 0x30]" by (simp add: decimal.simps)
  have o: "cbs_bytes ?c = oid_octets ?cs"
    by (simp add: oid_octets_def base128_bytes_def base128_cont.simps cbs_bytes_def CBS_init_def)
  have "never_fails example_alloc \<and> oid_ok ?cs \<and> cbs_bytes ?c = oid_octets ?cs \<and> 2 * length (dotted ?cs) + 10 < 2 ^ 64"
    unfolding o t by (simp add: never_fails_def example_alloc_def oid_ok_def)
  from oid_to_text_canonical [OF wf, THEN conjunct2, rule_format, OF this] show ?thesis unfolding t .
qed

end
