(* ===== verification/Constant_Time.thy ===== *)
theory Constant_Time
  imports Byte_Prelude
begin

text \<open>
  The branch-free comparisons of \<^verbatim>\<open>crypto/internal.h\<close>. A \<^verbatim>\<open>crypto_word_t\<close> is 64 bits wide on the
  targets of the application. Each function returns a mask of all ones or all zeros; the
  lemmas say which, for every pair of arguments.
\<close>

section \<open>Operations\<close>

definition constant_time_msb_w :: "u64 \<Rightarrow> u64" where
  "constant_time_msb_w a = 0 - drop_bit (64 - 1) a"

definition constant_time_lt_w :: "u64 \<Rightarrow> u64 \<Rightarrow> u64" where
  "constant_time_lt_w a b = constant_time_msb_w (a XOR ((a XOR b) OR ((a - b) XOR a)))"

definition constant_time_lt_8 :: "u64 \<Rightarrow> u64 \<Rightarrow> u8" where
  "constant_time_lt_8 a b = ucast (constant_time_lt_w a b)"

definition constant_time_ge_w :: "u64 \<Rightarrow> u64 \<Rightarrow> u64" where
  "constant_time_ge_w a b = NOT (constant_time_lt_w a b)"

definition constant_time_ge_8 :: "u64 \<Rightarrow> u64 \<Rightarrow> u8" where
  "constant_time_ge_8 a b = ucast (constant_time_ge_w a b)"

definition constant_time_is_zero_w :: "u64 \<Rightarrow> u64" where
  "constant_time_is_zero_w a = constant_time_msb_w (NOT a AND (a - 1))"

definition constant_time_is_zero_8 :: "u64 \<Rightarrow> u8" where
  "constant_time_is_zero_8 a = ucast (constant_time_is_zero_w a)"

definition constant_time_eq_w :: "u64 \<Rightarrow> u64 \<Rightarrow> u64" where
  "constant_time_eq_w a b = constant_time_is_zero_w (a XOR b)"

definition constant_time_eq_8 :: "u64 \<Rightarrow> u64 \<Rightarrow> u8" where
  "constant_time_eq_8 a b = ucast (constant_time_eq_w a b)"

definition constant_time_select_w :: "u64 \<Rightarrow> u64 \<Rightarrow> u64 \<Rightarrow> u64" where
  "constant_time_select_w m a b = (m AND a) OR (NOT m AND b)"

text \<open>The mask of the 8-bit variant is widened with zeros, not with its sign.\<close>

definition constant_time_select_int :: "u64 \<Rightarrow> int \<Rightarrow> int \<Rightarrow> int" where
  "constant_time_select_int m a b = sint (ucast (constant_time_select_w m (word_of_int a) (word_of_int b)) :: u32)"

definition constant_time_select_8 :: "u8 \<Rightarrow> u8 \<Rightarrow> u8 \<Rightarrow> u8" where
  "constant_time_select_8 m a b = ucast (constant_time_select_w (ucast m) (ucast a) (ucast b))"

section \<open>What the masks are\<close>

definition mask_if :: "bool \<Rightarrow> 'a::len word" where
  "mask_if P = (if P then - 1 else 0)"

lemma bit_63: "bit (a :: u64) 63 \<longleftrightarrow> 2 ^ 63 \<le> unat a"
proof -
  have "unat a div 2 ^ 63 < 2" using unat_u64_less [of a] by (simp add: less_mult_imp_div_less)
  then have "odd (unat a div 2 ^ 63) \<longleftrightarrow> unat a div 2 ^ 63 \<noteq> 0" by (auto simp: less_2_cases_iff)
  then show ?thesis unfolding bit_word_odd by (simp add: div_eq_0_iff not_less)
qed

lemma constant_time_msb_w_mask: "constant_time_msb_w a = mask_if (2 ^ 63 \<le> unat a)"
proof -
  have "unat a div 2 ^ 63 < 2" using unat_u64_less [of a] by (simp add: less_mult_imp_div_less)
  moreover have "unat a div 2 ^ 63 = 0 \<longleftrightarrow> \<not> 2 ^ 63 \<le> unat a" by (simp add: div_eq_0_iff not_le)
  ultimately have "unat (drop_bit 63 a) = (if 2 ^ 63 \<le> unat a then 1 else 0)"
    unfolding unat_drop_bit by (auto simp: less_2_cases_iff)
  then have "drop_bit 63 a = (if 2 ^ 63 \<le> unat a then 1 else 0)"
    by (simp add: word_unat_eq_iff split: if_splits)
  then show ?thesis by (simp add: constant_time_msb_w_def mask_if_def)
qed

lemma unat_minus_wrap:
  "unat ((a :: u64) - b) = (if unat b \<le> unat a then unat a - unat b else 2 ^ 64 + unat a - unat b)"
  using unat_sub_if' [of a b] by (auto simp: word_le_nat_alt)

lemma constant_time_lt_w_mask: "constant_time_lt_w a b = mask_if (a < b)"
proof -
  let ?x = "a XOR ((a XOR b) OR ((a - b) XOR a))"
  have "bit ?x 63 \<longleftrightarrow> (if bit a 63 = bit b 63 then bit (a - b) 63 else bit b 63)"
    by (auto simp: bit_xor_iff bit_or_iff)
  then have "2 ^ 63 \<le> unat ?x \<longleftrightarrow> unat a < unat b"
    unfolding bit_63 unat_minus_wrap using unat_u64_less [of a] unat_u64_less [of b]
    by (auto split: if_splits)
  then show ?thesis by (simp add: constant_time_lt_w_def constant_time_msb_w_mask word_less_nat_alt)
qed

lemma constant_time_is_zero_w_mask: "constant_time_is_zero_w a = mask_if (a = 0)"
proof -
  have "bit (NOT a AND (a - 1)) 63 \<longleftrightarrow> \<not> bit a 63 \<and> bit (a - 1) 63"
    by (auto simp: bit_and_iff bit_not_iff)
  then have "2 ^ 63 \<le> unat (NOT a AND (a - 1)) \<longleftrightarrow> unat a = 0"
    unfolding bit_63 unat_minus_wrap using unat_u64_less [of a] by auto
  then show ?thesis
    by (simp add: constant_time_is_zero_w_def constant_time_msb_w_mask unsigned_eq_0_iff)
qed

lemma constant_time_eq_w_mask: "constant_time_eq_w a b = mask_if (a = b)"
  by (simp add: constant_time_eq_w_def constant_time_is_zero_w_mask word_xor_eq_0_iff)

lemma ucast_mask_if [simp]: "LENGTH('b) \<le> LENGTH('a) \<Longrightarrow> ucast (mask_if P :: 'a::len word) = (mask_if P :: 'b::len word)"
  by (auto simp: mask_if_def intro: bit_word_eqI simp: bit_simps)

lemma NOT_mask_if [simp]: "NOT (mask_if P) = mask_if (\<not> P)"
  by (simp add: mask_if_def)

lemmas constant_time_masks =
  constant_time_lt_w_mask constant_time_is_zero_w_mask constant_time_eq_w_mask

lemma constant_time_8_masks:
  "constant_time_lt_8 a b = mask_if (a < b)" "constant_time_ge_8 a b = mask_if (b \<le> a)"
  "constant_time_is_zero_8 a = mask_if (a = 0)" "constant_time_eq_8 a b = mask_if (a = b)"
  by (simp_all add: constant_time_lt_8_def constant_time_ge_8_def constant_time_ge_w_def
      constant_time_is_zero_8_def constant_time_eq_8_def constant_time_masks not_less)

lemma constant_time_select_w_mask:
  "constant_time_select_w (mask_if P) a b = (if P then a else b)"
  by (simp add: constant_time_select_w_def mask_if_def)

lemma constant_time_select_int_mask:
  assumes "- (2 ^ 31) \<le> a" and "a < 2 ^ 31" and "- (2 ^ 31) \<le> b" and "b < 2 ^ 31"
  shows "constant_time_select_int (mask_if P) a b = (if P then a else b)"
proof -
  have "sint (ucast (word_of_int x :: u64) :: u32) = x" if "- (2 ^ 31) \<le> x" "x < 2 ^ 31" for x :: int
  proof -
    have "signed_take_bit 31 (x mod 18446744073709551616) = signed_take_bit 31 x"
      using signed_take_bit_take_bit [of 31 64 x] by (simp add: take_bit_eq_mod)
    then show ?thesis using that by (simp add: ucast_eq uint_word_of_int sint_sbintrunc' signed_take_bit_int_eq_self)
  qed
  then show ?thesis using assms by (simp add: constant_time_select_int_def constant_time_select_w_mask)
qed

lemma constant_time_select_8_mask:
  "constant_time_select_8 (mask_if P) a b = (if P then a else b)"
  by (auto simp: constant_time_select_8_def constant_time_select_w_def mask_if_def
      intro!: bit_word_eqI simp: bit_simps)

section \<open>Properties\<close>

text \<open>
  The branch-free comparisons compute the comparison they are named after, for all
  operands: each returns the all-ones word if it holds and zero otherwise (the subtraction in
  them may wrap), and a selection with such a mask picks the first value exactly if the comparison holds.
\<close>

theorem constant_time_comparisons:
  "constant_time_lt_w a b = (if a < b then - 1 else 0)
   \<and> constant_time_ge_w a b = (if b \<le> a then - 1 else 0)
   \<and> constant_time_is_zero_w a = (if a = 0 then - 1 else 0)
   \<and> constant_time_eq_w a b = (if a = b then - 1 else 0)
   \<and> constant_time_select_w (constant_time_lt_w a b) x y = (if a < b then x else y)
   \<and> constant_time_select_8 (constant_time_eq_8 a b) s t = (if a = b then s else t)"
  unfolding constant_time_masks constant_time_8_masks constant_time_select_w_mask
    constant_time_select_8_mask constant_time_ge_w_def NOT_mask_if
  by (simp add: mask_if_def not_less)

end
