(* ===== verification/Base64.thy ===== *)
theory Base64
  imports Constant_Time
begin

text \<open>
  \<^verbatim>\<open>crypto/base64/base64.c\<close>: one-shot and streaming base64. An input pointer with its length is the list of
  the bytes. The encoders return the bytes they write, without the NUL that follows them (except
  for \<open>EVP_EncodeBlock\<close>, whose list includes it); a decoder returns \<open>None\<close> where the C function
  reports an error.
\<close>

section \<open>Operations\<close>

definition constant_time_lt_args_8 :: "u8 \<Rightarrow> u8 \<Rightarrow> u8" where
  "constant_time_lt_args_8 a b = ucast (constant_time_msb_w (ucast a - ucast b))"

definition constant_time_in_range_8 :: "u8 \<Rightarrow> u8 \<Rightarrow> u8 \<Rightarrow> u8" where
  "constant_time_in_range_8 a mn mx = (let a = a - mn in constant_time_lt_args_8 a (mx - mn + 1))"

subsection \<open>Encoding\<close>

definition conv_bin2ascii :: "u8 \<Rightarrow> u8" where
  "conv_bin2ascii a0 =
     (let a = a0 AND 0x3f;
          ret = constant_time_select_8 (constant_time_eq_8 (ucast a) 62) 43 47;
          ret = constant_time_select_8 (constant_time_lt_args_8 a 62) (a - 52 + 48) ret;
          ret = constant_time_select_8 (constant_time_lt_args_8 a 52) (a - 26 + 97) ret;
          ret = constant_time_select_8 (constant_time_lt_args_8 a 26) (a + 65) ret
      in ret)"

definition EVP_EncodedLength :: "nat \<Rightarrow> nat option" where
  "EVP_EncodedLength len0 =
     (let len1 = (len0 + 2) mod SIZE_LIMIT in
      if len1 < len0 then None
      else (let len2 = len1 div 3; len3 = (len2 * 4) mod SIZE_LIMIT in
        if len3 div 4 \<noteq> len2 then None
        else if (len3 + 1) mod SIZE_LIMIT < len3 then None
        else Some ((len3 + 1) mod SIZE_LIMIT)))"

record EVP_ENCODE_CTX =
  data_used :: nat
  ctx_data :: "u8 list"
  eof_seen :: bool
  error_encountered :: bool

definition EVP_EncodeInit :: EVP_ENCODE_CTX where
  "EVP_EncodeInit = \<lparr>data_used = 0, ctx_data = replicate 48 0, eof_seen = False, error_encountered = False\<rparr>"

fun encode_block_loop :: "u8 list \<Rightarrow> u8 list \<times> nat" where
  "encode_block_loop [] = ([0], 0)"
| "encode_block_loop [s0] =
     (let l = (push_bit 16 (ucast s0) :: u32) in
      ([conv_bin2ascii (ucast (drop_bit 18 l)), conv_bin2ascii (ucast (drop_bit 12 l)), 61, 61, 0], 4))"
| "encode_block_loop [s0, s1] =
     (let l = (push_bit 16 (ucast s0) OR push_bit 8 (ucast s1) :: u32) in
      ([conv_bin2ascii (ucast (drop_bit 18 l)), conv_bin2ascii (ucast (drop_bit 12 l)),
        conv_bin2ascii (ucast (drop_bit 6 l)), 61, 0], 4))"
| "encode_block_loop (s0 # s1 # s2 # src) =
     (let l = (push_bit 16 (ucast s0) OR push_bit 8 (ucast s1) OR ucast s2 :: u32);
          (dst, ret) = encode_block_loop src
      in ([conv_bin2ascii (ucast (drop_bit 18 l)), conv_bin2ascii (ucast (drop_bit 12 l)),
           conv_bin2ascii (ucast (drop_bit 6 l)), conv_bin2ascii (ucast l)] @ dst, ret + 4))"

definition EVP_EncodeBlock :: "u8 list \<Rightarrow> u8 list \<times> nat" where
  "EVP_EncodeBlock src = encode_block_loop src"

text \<open>
  The loop over full 48-byte lines: what is written, the input that is left, the running total
  and whether the total overflowed.
\<close>

function encode_update_loop :: "u8 list \<Rightarrow> nat \<Rightarrow> u8 list \<times> u8 list \<times> nat \<times> bool" where
  "encode_update_loop inp tot =
     (if length inp \<ge> 48 then
        (let (dst, encoded) = EVP_EncodeBlock (take 48 inp);
             line = take encoded dst @ [10]
         in if (tot + encoded + 1) mod SIZE_LIMIT < tot then (line, drop 48 inp, tot, True)
            else (let (out, rest, tot', ovf) = encode_update_loop (drop 48 inp)
                        ((tot + (encoded + 1)) mod SIZE_LIMIT)
                  in (line @ out, rest, tot', ovf)))
      else ([], inp, tot, False))"
  by pat_completeness auto
termination
  by (relation "measure (\<lambda>(inp, _). length inp)") auto

declare encode_update_loop.simps [simp del]

abbreviation INT_MAX :: nat where "INT_MAX \<equiv> 2147483647"

definition EVP_EncodeUpdate :: "EVP_ENCODE_CTX \<Rightarrow> u8 list \<Rightarrow> EVP_ENCODE_CTX \<times> u8 list \<times> nat" where
  "EVP_EncodeUpdate ctx inp =
     (if length inp = 0 then (ctx, [], 0)
      else if 48 - data_used ctx > length inp then
        (ctx\<lparr>ctx_data := mem_write (data_used ctx) inp (ctx_data ctx),
             data_used := data_used ctx + length inp\<rparr>, [], 0)
      else
        (let (ctx1, out1, inp1, tot1) =
           (if data_used ctx \<noteq> 0 then
              (let todo = 48 - data_used ctx;
                   d = mem_write (data_used ctx) (take todo inp) (ctx_data ctx);
                   (dst, encoded) = EVP_EncodeBlock d
               in (ctx\<lparr>ctx_data := d, data_used := 0\<rparr>, take encoded dst @ [10], drop todo inp, encoded + 1))
            else (ctx, [], inp, 0));
             (out2, rest, tot2, ovf) = encode_update_loop inp1 tot1
         in if ovf then (ctx1, out1 @ out2, 0)
            else (ctx1\<lparr>ctx_data := (if length rest \<noteq> 0 then mem_write 0 rest (ctx_data ctx1) else ctx_data ctx1),
                       data_used := length rest\<rparr>,
                  out1 @ out2, if tot2 > INT_MAX then 0 else tot2)))"

definition EVP_EncodeFinal :: "EVP_ENCODE_CTX \<Rightarrow> EVP_ENCODE_CTX \<times> u8 list \<times> nat" where
  "EVP_EncodeFinal ctx =
     (if data_used ctx = 0 then (ctx, [], 0)
      else (let (dst, encoded) = EVP_EncodeBlock (take (data_used ctx) (ctx_data ctx))
            in (ctx\<lparr>data_used := 0\<rparr>, take encoded dst @ [10], encoded + 1)))"

subsection \<open>Decoding\<close>

definition EVP_DecodedLength :: "nat \<Rightarrow> nat option" where
  "EVP_DecodedLength len = (if len mod 4 \<noteq> 0 then None else Some (len div 4 * 3))"

definition EVP_DecodeInit :: EVP_ENCODE_CTX where
  "EVP_DecodeInit = \<lparr>data_used = 0, ctx_data = replicate 48 0, eof_seen = False, error_encountered = False\<rparr>"

definition base64_ascii_to_bin :: "u8 \<Rightarrow> u8" where
  "base64_ascii_to_bin a =
     (let is_upper = constant_time_in_range_8 a 65 90;
          is_lower = constant_time_in_range_8 a 97 122;
          is_digit = constant_time_in_range_8 a 48 57;
          is_plus = constant_time_eq_8 (ucast a) 43;
          is_slash = constant_time_eq_8 (ucast a) 47;
          is_equals = constant_time_eq_8 (ucast a) 61;
          ret = (is_upper AND (a - 65)) OR (is_lower AND (a - 97 + 26)) OR (is_digit AND (a - 48 + 52))
                OR (is_plus AND 62) OR (is_slash AND 63);
          is_valid = is_upper OR is_lower OR is_digit OR is_plus OR is_slash OR is_equals
      in ret OR NOT is_valid)"

definition base64_decode_quad :: "u8 \<Rightarrow> u8 \<Rightarrow> u8 \<Rightarrow> u8 \<Rightarrow> u8 list option" where
  "base64_decode_quad i0 i1 i2 i3 =
     (let a = base64_ascii_to_bin i0; b = base64_ascii_to_bin i1;
          c = base64_ascii_to_bin i2; d = base64_ascii_to_bin i3
      in if a = 0xff \<or> b = 0xff \<or> c = 0xff \<or> d = 0xff then None
         else
           (let v = (push_bit 18 (ucast a) OR push_bit 12 (ucast b) OR push_bit 6 (ucast c) OR ucast d :: u32)
            in case (i0 = 61, i1 = 61, i2 = 61, i3 = 61) of
                 (False, False, False, False) \<Rightarrow>
                   Some [ucast (drop_bit 16 v), ucast (drop_bit 8 v), ucast v]
               | (False, False, False, True) \<Rightarrow> Some [ucast (drop_bit 16 v), ucast (drop_bit 8 v)]
               | (False, False, True, True) \<Rightarrow> Some [ucast (drop_bit 16 v)]
               | _ \<Rightarrow> None))"

definition is_space :: "u8 \<Rightarrow> bool" where
  "is_space c \<longleftrightarrow> c = 32 \<or> c = 9 \<or> c = 13 \<or> c = 10"

text \<open>The loop of \<open>EVP_DecodeUpdate\<close>: \<open>None\<close> as result is the early return of -1.\<close>

fun decode_update_loop :: "EVP_ENCODE_CTX \<Rightarrow> u8 list \<Rightarrow> EVP_ENCODE_CTX \<times> u8 list option" where
  "decode_update_loop ctx [] = (ctx, Some [])"
| "decode_update_loop ctx (c # inp) =
     (if is_space c then decode_update_loop ctx inp
      else if eof_seen ctx then (ctx\<lparr>error_encountered := True\<rparr>, None)
      else
        (let ctx1 = ctx\<lparr>ctx_data := (ctx_data ctx)[data_used ctx := c], data_used := data_used ctx + 1\<rparr>
         in if data_used ctx1 = 4 then
              (case base64_decode_quad (ctx_data ctx1 ! 0) (ctx_data ctx1 ! 1) (ctx_data ctx1 ! 2)
                      (ctx_data ctx1 ! 3) of
                 None \<Rightarrow> (ctx1\<lparr>error_encountered := True\<rparr>, None)
               | Some bytes \<Rightarrow>
                   (let ctx2 = ctx1\<lparr>data_used := 0\<rparr>;
                        ctx3 = (if length bytes < 3 then ctx2\<lparr>eof_seen := True\<rparr> else ctx2);
                        (ctx4, r) = decode_update_loop ctx3 inp
                    in (ctx4, map_option (\<lambda>out. bytes @ out) r)))
            else decode_update_loop ctx1 inp))"

text \<open>The result: the context, the bytes with \<^verbatim>\<open>*out_len\<close>, and the return value.\<close>

definition EVP_DecodeUpdate :: "EVP_ENCODE_CTX \<Rightarrow> u8 list \<Rightarrow> EVP_ENCODE_CTX \<times> u8 list \<times> int" where
  "EVP_DecodeUpdate ctx inp =
     (if error_encountered ctx then (ctx, [], -1)
      else
        (case decode_update_loop ctx inp of
           (ctx1, None) \<Rightarrow> (ctx1, [], -1)
         | (ctx1, Some out) \<Rightarrow>
             (if length out > INT_MAX then (ctx1\<lparr>error_encountered := True\<rparr>, [], -1)
              else (ctx1, out, if eof_seen ctx1 then 0 else 1))))"

definition EVP_DecodeFinal :: "EVP_ENCODE_CTX \<Rightarrow> int" where
  "EVP_DecodeFinal ctx = (if error_encountered ctx \<or> data_used ctx \<noteq> 0 then -1 else 1)"

fun decode_base64_loop :: "u8 list \<Rightarrow> u8 list option" where
  "decode_base64_loop (i0 # i1 # i2 # i3 # inp) =
     (case base64_decode_quad i0 i1 i2 i3 of
        None \<Rightarrow> None
      | Some bytes \<Rightarrow>
          (if length bytes \<noteq> 3 \<and> inp \<noteq> [] then None
           else map_option (\<lambda>out. bytes @ out) (decode_base64_loop inp)))"
| "decode_base64_loop _ = Some []"

definition EVP_DecodeBase64 :: "nat \<Rightarrow> u8 list \<Rightarrow> u8 list option" where
  "EVP_DecodeBase64 max_out inp =
     (if length inp mod 4 \<noteq> 0 then None
      else
        (case EVP_DecodedLength (length inp) of
           None \<Rightarrow> None
         | Some max_len \<Rightarrow> if max_out < max_len then None else decode_base64_loop inp))"

definition EVP_DecodeBlock :: "u8 list \<Rightarrow> u8 list option" where
  "EVP_DecodeBlock src0 =
     (let src1 = dropWhile (\<lambda>c. c = 32 \<or> c = 9) src0;
          src = rev (dropWhile is_space (rev src1))
      in case EVP_DecodedLength (length src) of
           None \<Rightarrow> None
         | Some dst_len \<Rightarrow>
             (if dst_len > INT_MAX then None
              else (case EVP_DecodeBase64 dst_len src of
                      None \<Rightarrow> None
                    | Some dst \<Rightarrow> Some (dst @ replicate ((3 - length dst mod 3) mod 3) 0))))"

section \<open>The alphabet\<close>

lemma constant_time_lt_args_8_mask: "constant_time_lt_args_8 a b = mask_if (a < b)"
proof -
  have u: "unat (ucast a :: u64) = unat a" "unat (ucast b :: u64) = unat b"
    by (simp_all add: unat_ucast_up)
  have "2 ^ 63 \<le> (if y \<le> x then x - y else 2 ^ 64 + x - y) \<longleftrightarrow> x < y"
    if "x < 256" "y < 256" for x y :: nat using that by auto
  then have "2 ^ 63 \<le> unat (ucast a - ucast b :: u64) \<longleftrightarrow> unat a < unat b"
    unfolding unat_minus_wrap u using unat_u8_less by blast
  then show ?thesis
    by (simp add: constant_time_lt_args_8_def constant_time_msb_w_mask word_less_nat_alt)
qed

lemma unat_u8_diff: "unat ((a :: u8) - b) = (if unat b \<le> unat a then unat a - unat b else 256 + unat a - unat b)"
  using unat_sub_if' [of a b] by (auto simp: word_le_nat_alt)

lemma constant_time_in_range_8_mask:
  assumes "unat mn \<le> unat mx" and "unat mx < 255"
  shows "constant_time_in_range_8 a mn mx = mask_if (unat mn \<le> unat a \<and> unat a \<le> unat mx)"
proof -
  have "unat (mx - mn) = unat mx - unat mn" using assms(1) by (simp add: unat_u8_diff)
  then have "unat (mx - mn + 1) = unat mx - unat mn + 1"
    using assms by (subst unat_add_lem [THEN iffD1]) simp_all
  then have "a - mn < mx - mn + 1 \<longleftrightarrow> unat mn \<le> unat a \<and> unat a \<le> unat mx"
    using assms unat_u8_less [of a] by (auto simp: word_less_nat_alt unat_u8_diff)
  then show ?thesis by (simp add: constant_time_in_range_8_def constant_time_lt_args_8_mask)
qed

definition b64_char :: "nat \<Rightarrow> u8" where
  "b64_char i = (if i < 26 then of_nat (i + 65) else if i < 52 then of_nat (i + 71)
                 else if i < 62 then of_nat (i - 4) else if i = 62 then 43 else 47)"

lemma unat_and_3f: "unat ((a :: u8) AND 0x3f) = unat a mod 64"
  using unat_and_mask [of a 6] by (simp add: mask_eq_exp_minus_1)

lemma conv_bin2ascii_char: "conv_bin2ascii a = b64_char (unat a mod 64)"
proof -
  let ?a = "a AND 0x3f"
  let ?i = "unat a mod 64"
  have i: "unat ?a = ?i" "?i < 64" by (simp_all add: unat_and_3f)
  have eq62: "(ucast ?a :: u64) = 62 \<longleftrightarrow> ?i = 62"
    by (simp add: word_unat_eq_iff unat_ucast_up i(1))
  have lt: "?a < 62 \<longleftrightarrow> ?i < 62" "?a < 52 \<longleftrightarrow> ?i < 52" "?a < 26 \<longleftrightarrow> ?i < 26"
    by (simp_all add: word_less_nat_alt i(1))
  have a: "?a = of_nat ?i" by (rule word_eq_of_natI [OF i(1)])
  have d: "(of_nat ?i :: u8) - 52 + 48 = of_nat (?i - 4)" if "52 \<le> ?i"
    using that by (simp add: of_nat_diff)
  show ?thesis
    unfolding conv_bin2ascii_def Let_def constant_time_lt_args_8_mask constant_time_8_masks
      constant_time_select_8_mask eq62 lt
    unfolding a b64_char_def using d by auto
qed

lemma base64_ascii_to_bin_cases:
  "base64_ascii_to_bin a =
     (let n = unat a in
      if 65 \<le> n \<and> n \<le> 90 then of_nat (n - 65) else if 97 \<le> n \<and> n \<le> 122 then of_nat (n - 71)
      else if 48 \<le> n \<and> n \<le> 57 then of_nat (n + 4) else if n = 43 then 62 else if n = 47 then 63
      else if n = 61 then 0 else 0xff)"
proof -
  have eq: "(ucast a :: u64) = 43 \<longleftrightarrow> unat a = 43" "(ucast a :: u64) = 47 \<longleftrightarrow> unat a = 47"
    "(ucast a :: u64) = 61 \<longleftrightarrow> unat a = 61"
    by (simp_all add: word_unat_eq_iff unat_ucast_up)
  have r: "constant_time_in_range_8 a 65 90 = mask_if (65 \<le> unat a \<and> unat a \<le> 90)"
    "constant_time_in_range_8 a 97 122 = mask_if (97 \<le> unat a \<and> unat a \<le> 122)"
    "constant_time_in_range_8 a 48 57 = mask_if (48 \<le> unat a \<and> unat a \<le> 57)"
    using constant_time_in_range_8_mask [of 65 90 a] constant_time_in_range_8_mask [of 97 122 a]
      constant_time_in_range_8_mask [of 48 57 a] by simp_all
  have d: "a - 65 = of_nat (unat a - 65)" if "65 \<le> unat a" using that by (simp add: of_nat_diff)
  have d': "a - 97 + 26 = of_nat (unat a - 71)" if "97 \<le> unat a" using that by (simp add: of_nat_diff)
  have d'': "a - 48 + 52 = of_nat (unat a + 4)" by simp
  show ?thesis
    unfolding base64_ascii_to_bin_def Let_def r constant_time_8_masks eq
    using d d' d'' by (auto simp: mask_if_def)
qed

lemma b64_char_decode:
  assumes "i < 64"
  shows "base64_ascii_to_bin (b64_char i) = of_nat i" and "b64_char i \<noteq> 61" and "\<not> is_space (b64_char i)"
proof -
  have u: "unat (of_nat n :: u8) = n" if "n < 256" for n using that by (intro unat_of_nat_eq) simp
  have C: "i < 26 \<or> 26 \<le> i \<and> i < 52 \<or> 52 \<le> i \<and> i < 62 \<or> i = 62 \<or> i = 63" using assms by linarith
  then have n: "unat (b64_char i) =
      (if i < 26 then i + 65 else if i < 52 then i + 71 else if i < 62 then i - 4 else if i = 62 then 43 else 47)"
    by (elim disjE conjE) (simp_all add: b64_char_def u del: of_nat_add of_nat_diff)
  from C show "base64_ascii_to_bin (b64_char i) = of_nat i"
    unfolding base64_ascii_to_bin_cases Let_def n by (elim disjE conjE) auto
  from n show "b64_char i \<noteq> 61" "\<not> is_space (b64_char i)"
    by (auto simp: is_space_def word_unat_eq_iff split: if_splits)
qed

section \<open>Blocks\<close>

text \<open>The encoding by sextets of the 24-bit number of a group.\<close>

fun b64 :: "u8 list \<Rightarrow> u8 list" where
  "b64 [] = []"
| "b64 [x] = (let l = unat x * 65536 in [b64_char (l div 262144), b64_char (l div 4096 mod 64), 61, 61])"
| "b64 [x, y] =
     (let l = unat x * 65536 + unat y * 256
      in [b64_char (l div 262144), b64_char (l div 4096 mod 64), b64_char (l div 64 mod 64), 61])"
| "b64 (x # y # z # bs) =
     (let l = unat x * 65536 + unat y * 256 + unat z
      in [b64_char (l div 262144), b64_char (l div 4096 mod 64), b64_char (l div 64 mod 64), b64_char (l mod 64)]
         @ b64 bs)"

lemma unat_group:
  "unat (push_bit 16 (ucast x) OR push_bit 8 (ucast y) OR ucast z :: u32) =
     unat (x :: u8) * 65536 + unat (y :: u8) * 256 + unat (z :: u8)"
proof -
  have u: "unat (ucast x :: u32) = unat x" "unat (ucast y :: u32) = unat y" "unat (ucast z :: u32) = unat z"
    by (simp_all add: unat_ucast_up)
  have lt: "unat x < 256" "unat y < 256" "unat z < 256" by simp_all
  have le: "unat b < k" if "256 \<le> k" for b :: u8 and k using that unat_u8_less [of b] by linarith
  have yz: "unat (push_bit 8 (ucast y) OR ucast z :: u32) = unat y * 256 + unat z"
    by (subst unat_push_or) (simp_all add: u le)
  have "unat y * 256 + unat z < 65536" using lt by linarith
  then have "unat (push_bit 16 (ucast x) OR (push_bit 8 (ucast y) OR ucast z) :: u32) =
      unat x * 2 ^ 16 + (unat y * 256 + unat z)"
    by (subst unat_push_or) (simp_all add: u yz le)
  then show ?thesis by (simp add: or.assoc)
qed

lemma sextet: "conv_bin2ascii (ucast (drop_bit k (l :: u32))) = b64_char (unat l div 2 ^ k mod 64)"
  and sextet_0: "conv_bin2ascii (ucast (l :: u32)) = b64_char (unat l mod 64)"
proof -
  have m: "n mod 256 mod 64 = n mod 64" for n :: nat by (simp add: mod_mod_cancel)
  show "conv_bin2ascii (ucast (drop_bit k l)) = b64_char (unat l div 2 ^ k mod 64)"
    "conv_bin2ascii (ucast l) = b64_char (unat l mod 64)"
    by (simp_all add: conv_bin2ascii_char unat_ucast_u8 unat_drop_bit m)
qed

lemma top_sextet: "x < 256 \<Longrightarrow> y < 256 \<Longrightarrow> z < 256 \<Longrightarrow>
    (x * 65536 + y * 256 + z) div 262144 mod 64 = (x * 65536 + y * 256 + z) div (262144 :: nat)"
  by (intro mod_less) (simp add: less_mult_imp_div_less)

lemma EVP_EncodeBlock_eq: "EVP_EncodeBlock src = (b64 src @ [0], length (b64 src))"
  unfolding EVP_EncodeBlock_def
proof (induction src rule: b64.induct)
  case (2 x)
  have "unat (push_bit 16 (ucast x) :: u32) = unat x * 65536" using unat_group [of x 0 0] by simp
  then show ?case using top_sextet [of "unat x" 0 0] by (simp add: sextet Let_def)
next
  case (3 x y)
  have "unat (push_bit 16 (ucast x) OR push_bit 8 (ucast y) :: u32) = unat x * 65536 + unat y * 256"
    using unat_group [of x y 0] by simp
  then show ?case using top_sextet [of "unat x" "unat y" 0] by (simp add: sextet Let_def)
next
  case (4 x y z bs)
  then show ?case using top_sextet [of "unat x" "unat y" "unat z"]
    unfolding encode_block_loop.simps(4) b64.simps(4) Let_def sextet
    unfolding sextet_0 unat_group by simp
qed simp

lemma length_b64: "length (b64 bs) = (length bs + 2) div 3 * 4"
proof (induction bs rule: b64.induct)
  case (4 x y z bs)
  have "(length (x # y # z # bs) + 2) div 3 = (length bs + 2) div 3 + 1"
    using div_add_self2 [of 3 "length bs + 2"] by simp
  then show ?case using 4 by (simp add: Let_def)
qed (simp_all add: Let_def)

text \<open>The inverse on one quad.\<close>

lemma unat_quad:
  assumes "unat a < 64" "unat b < 64" "unat c < 64" "unat (d :: u8) < 64"
  shows "unat (push_bit 18 (ucast (a :: u8)) OR push_bit 12 (ucast (b :: u8)) OR push_bit 6 (ucast (c :: u8))
      OR ucast d :: u32) = unat a * 262144 + unat b * 4096 + unat c * 64 + unat d"
proof -
  have u: "unat (ucast a :: u32) = unat a" "unat (ucast b :: u32) = unat b" "unat (ucast c :: u32) = unat c"
    "unat (ucast d :: u32) = unat d" by (simp_all add: unat_ucast_up)
  have cd: "unat (push_bit 6 (ucast c) OR ucast d :: u32) = unat c * 64 + unat d"
    by (subst unat_push_or) (use assms in \<open>simp_all add: u\<close>)
  have lcd: "unat c * 64 + unat d < 4096" using assms by linarith
  have bcd: "unat (push_bit 12 (ucast b) OR (push_bit 6 (ucast c) OR ucast d) :: u32) =
      unat b * 4096 + (unat c * 64 + unat d)"
    by (subst unat_push_or) (use assms lcd in \<open>simp_all add: u cd\<close>)
  have "unat b * 4096 + (unat c * 64 + unat d) < 262144" using assms lcd by linarith
  then have "unat (push_bit 18 (ucast a) OR (push_bit 12 (ucast b) OR (push_bit 6 (ucast c) OR ucast d)) :: u32) =
      unat a * 262144 + (unat b * 4096 + (unat c * 64 + unat d))"
    by (subst unat_push_or) (use assms in \<open>simp_all add: u bcd\<close>)
  then show ?thesis by (simp add: or.assoc)
qed

lemma b64_char_word: "i < 64 \<Longrightarrow> unat (base64_ascii_to_bin (b64_char i)) = i"
  by (simp add: b64_char_decode unat_of_nat_eq)

lemma not_ff: "unat (a :: u8) < 64 \<Longrightarrow> a \<noteq> 0xff"
  by auto

lemma b64_pad_word: "base64_ascii_to_bin 61 = 0"
  by (simp add: base64_ascii_to_bin_cases Let_def)

definition group_bytes :: "nat \<Rightarrow> u8 list" where
  "group_bytes v = [of_nat (v div 65536), of_nat (v div 256), of_nat v]"

lemma base64_decode_quad_full:
  assumes "i < 64" "j < 64" "k < 64" "l < 64"
  defines "v \<equiv> i * 262144 + j * 4096 + k * 64 + l"
  shows "base64_decode_quad (b64_char i) (b64_char j) (b64_char k) (b64_char l) = Some (group_bytes v)"
    and "base64_decode_quad (b64_char i) (b64_char j) (b64_char k) 61 = Some (take 2 (group_bytes (v - l)))"
    and "base64_decode_quad (b64_char i) (b64_char j) 61 61 = Some (take 1 (group_bytes (v - l - k * 64)))"
proof -
  note W = b64_char_word [OF assms(1)] b64_char_word [OF assms(2)] b64_char_word [OF assms(3)]
    b64_char_word [OF assms(4)]
  have ff: "base64_ascii_to_bin (b64_char x) \<noteq> 0xff" if "x < 64" for x
    using b64_char_word [OF that] that by auto
  have byte: "(ucast (drop_bit n (w :: u32)) :: u8) = of_nat (unat w div 2 ^ n)" for n w
    by (simp add: word_unat_eq_iff unat_ucast_u8 unat_drop_bit unat_of_nat_u8)
  have byte0: "(ucast (w :: u32) :: u8) = of_nat (unat w)" for w by simp
  have q: "unat (push_bit 18 (ucast a) OR push_bit 12 (ucast b) OR push_bit 6 (ucast c) OR ucast d :: u32) =
      unat a * 262144 + unat b * 4096 + unat c * 64 + unat d"
    if "unat a < 64" "unat b < 64" "unat c < 64" "unat d < 64" for a b c d :: u8
    using that by (rule unat_quad)
  show "base64_decode_quad (b64_char i) (b64_char j) (b64_char k) (b64_char l) = Some (group_bytes v)"
    unfolding base64_decode_quad_def Let_def byte unfolding byte0
    using q [of "base64_ascii_to_bin (b64_char i)" "base64_ascii_to_bin (b64_char j)"
        "base64_ascii_to_bin (b64_char k)" "base64_ascii_to_bin (b64_char l)"] W assms(1-4) ff b64_char_decode(2)
    by (simp add: v_def group_bytes_def del: of_nat_add of_nat_mult)
  show "base64_decode_quad (b64_char i) (b64_char j) (b64_char k) 61 = Some (take 2 (group_bytes (v - l)))"
    unfolding base64_decode_quad_def Let_def byte unfolding byte0
    using q [of "base64_ascii_to_bin (b64_char i)" "base64_ascii_to_bin (b64_char j)"
        "base64_ascii_to_bin (b64_char k)" 0] W assms(1-4) ff b64_char_decode(2)
    by (simp add: v_def group_bytes_def b64_pad_word del: of_nat_add of_nat_mult)
  show "base64_decode_quad (b64_char i) (b64_char j) 61 61 = Some (take 1 (group_bytes (v - l - k * 64)))"
    unfolding base64_decode_quad_def Let_def byte unfolding byte0
    using q [of "base64_ascii_to_bin (b64_char i)" "base64_ascii_to_bin (b64_char j)" 0 0] W assms(1-4) ff
      b64_char_decode(2)
    by (simp add: v_def group_bytes_def b64_pad_word del: of_nat_add of_nat_mult)
qed

lemma sextets_sum:
  fixes l :: nat
  assumes "l < 16777216"
  shows "l div 262144 < 64"
    and "l div 262144 * 262144 + l div 4096 mod 64 * 4096 + l div 64 mod 64 * 64 + l mod 64 = l"
proof -
  show "l div 262144 < 64" using assms by (simp add: less_mult_imp_div_less)
  have "l = l div 64 * 64 + l mod 64" by simp
  moreover have "l div 64 = l div 4096 * 64 + l div 64 mod 64"
    using div_mult_mod_eq [of "l div 64" 64] by (simp add: div_mult2_eq [symmetric])
  moreover have "l div 4096 = l div 262144 * 64 + l div 4096 mod 64"
    using div_mult_mod_eq [of "l div 4096" 64] by (simp add: div_mult2_eq [symmetric])
  ultimately show "l div 262144 * 262144 + l div 4096 mod 64 * 4096 + l div 64 mod 64 * 64 + l mod 64 = l"
    by linarith
qed

lemma group_bytes_eq:
  fixes x y z :: u8
  shows "group_bytes (unat x * 65536 + unat y * 256 + unat z) = [x, y, z]"
proof -
  have "(a * 65536 + b * 256 + c) div 65536 = a \<and> (a * 65536 + b * 256 + c) div 256 = a * 256 + b
      \<and> (a * 65536 + b * 256 + c) mod 256 = c"
    if "b < 256" "c < 256" for a b c :: nat
  proof -
    have "b * 256 + c < 65536" using that by linarith
    then have "(a * 65536 + (b * 256 + c)) div 65536 = a" by simp
    moreover have "((a * 256 + b) * 256 + c) div 256 = a * 256 + b" "((a * 256 + b) * 256 + c) mod 256 = c"
      using that by (simp, subst mod_mult_self3) (use that in simp)
    moreover have "(a * 256 + b) * 256 + c = a * 65536 + b * 256 + c" by simp
    ultimately show ?thesis by (metis add.assoc)
  qed
  then have d: "(unat x * 65536 + unat y * 256 + unat z) div 65536 = unat x"
    "(unat x * 65536 + unat y * 256 + unat z) div 256 = unat x * 256 + unat y"
    "(unat x * 65536 + unat y * 256 + unat z) mod 256 = unat z"
    using unat_u8_less by blast+
  show ?thesis
    unfolding group_bytes_def d
    by (simp add: word_unat_eq_iff unat_of_nat_u8 d(3) del: of_nat_add of_nat_mult)
qed

lemma group_less: "unat (x :: u8) * 65536 + unat (y :: u8) * 256 + unat (z :: u8) < 16777216"
  using unat_u8_less [of x] unat_u8_less [of y] unat_u8_less [of z] by linarith

text \<open>The three shapes of a group, decoded.\<close>

lemma decode_group:
  fixes x y z :: u8
  shows "\<exists>a b c d. b64 (x # y # z # bs) = a # b # c # d # b64 bs \<and> base64_decode_quad a b c d = Some [x, y, z]
      \<and> \<not> is_space a \<and> \<not> is_space b \<and> \<not> is_space c \<and> \<not> is_space d"
    and "\<exists>a b c d. b64 [x, y] = [a, b, c, d] \<and> base64_decode_quad a b c d = Some [x, y]
      \<and> \<not> is_space a \<and> \<not> is_space b \<and> \<not> is_space c \<and> \<not> is_space d"
    and "\<exists>a b c d. b64 [x] = [a, b, c, d] \<and> base64_decode_quad a b c d = Some [x]
      \<and> \<not> is_space a \<and> \<not> is_space b \<and> \<not> is_space c \<and> \<not> is_space d"
proof -
  have pad: "\<not> is_space 61" by (simp add: is_space_def)
  have sp: "\<not> is_space (b64_char (l div 262144))" "\<not> is_space (b64_char (l div 4096 mod 64))"
      "\<not> is_space (b64_char (l div 64 mod 64))" "\<not> is_space (b64_char (l mod 64))"
    if "l < 16777216" for l :: nat
    using sextets_sum(1) [OF that] by (simp_all add: b64_char_decode)
  have m: "l div 4096 mod 64 < 64" "l div 64 mod 64 < 64" "l mod 64 < 64" for l :: nat by simp_all
  have Q: "base64_decode_quad (b64_char (l div 262144)) (b64_char (l div 4096 mod 64))
      (b64_char (l div 64 mod 64)) (b64_char (l mod 64)) = Some (group_bytes l)"
    "l mod 64 = 0 \<Longrightarrow> base64_decode_quad (b64_char (l div 262144)) (b64_char (l div 4096 mod 64))
      (b64_char (l div 64 mod 64)) 61 = Some (take 2 (group_bytes l))"
    "l mod 64 = 0 \<Longrightarrow> l div 64 mod 64 = 0 \<Longrightarrow> base64_decode_quad (b64_char (l div 262144))
      (b64_char (l div 4096 mod 64)) 61 61 = Some (take 1 (group_bytes l))"
    if "l < 16777216" for l
    using base64_decode_quad_full [OF sextets_sum(1) [OF that] m [of l]]
    unfolding sextets_sum(2) [OF that] by simp_all
  let ?l = "unat x * 65536 + unat y * 256 + unat z"
  have "base64_decode_quad (b64_char (?l div 262144)) (b64_char (?l div 4096 mod 64))
      (b64_char (?l div 64 mod 64)) (b64_char (?l mod 64)) = Some [x, y, z]"
    using Q(1) [OF group_less [of x y z]] unfolding group_bytes_eq .
  then show "\<exists>a b c d. b64 (x # y # z # bs) = a # b # c # d # b64 bs \<and> base64_decode_quad a b c d = Some [x, y, z]
      \<and> \<not> is_space a \<and> \<not> is_space b \<and> \<not> is_space c \<and> \<not> is_space d"
    using sp [OF group_less [of x y z]] by (auto simp: Let_def)
  let ?l = "unat x * 65536 + unat y * 256"
  have g: "?l < 16777216" using group_less [of x y 0] by simp
  have z: "?l mod 64 = 0" by presburger
  show "\<exists>a b c d. b64 [x, y] = [a, b, c, d] \<and> base64_decode_quad a b c d = Some [x, y]
      \<and> \<not> is_space a \<and> \<not> is_space b \<and> \<not> is_space c \<and> \<not> is_space d"
    using Q(2) [OF g z] sp [OF g] pad group_bytes_eq [of x y 0] unfolding b64.simps Let_def
    by - (intro exI conjI, rule refl, simp_all)
  let ?l = "unat x * 65536"
  have g: "?l < 16777216" using group_less [of x 0 0] by simp
  have l: "?l = 64 * (64 * (unat x * 16))" by simp
  have z: "?l mod 64 = 0" "?l div 64 mod 64 = 0" unfolding l
    by (simp_all only: mod_mult_self1_is_0 nonzero_mult_div_cancel_left)
  show "\<exists>a b c d. b64 [x] = [a, b, c, d] \<and> base64_decode_quad a b c d = Some [x]
      \<and> \<not> is_space a \<and> \<not> is_space b \<and> \<not> is_space c \<and> \<not> is_space d"
    using Q(3) [OF g z] sp [OF g] pad group_bytes_eq [of x 0 0] unfolding b64.simps Let_def
    by - (intro exI conjI, rule refl, simp_all)
qed

lemma decode_base64_loop_b64: "decode_base64_loop (b64 bs) = Some bs"
proof (induction bs rule: b64.induct)
  case (2 x)
  then show ?case using decode_group(3) [of x] by auto
next
  case (3 x y)
  then show ?case using decode_group(2) [of x y] by auto
next
  case (4 x y z bs)
  then show ?case using decode_group(1) [of x y z bs] by auto
qed simp

section \<open>Streaming\<close>

text \<open>Full 48-byte lines, each with its newline, and what is left of the input.\<close>

function b64_lines :: "u8 list \<Rightarrow> u8 list" where
  "b64_lines bs = (if length bs \<ge> 48 then b64 (take 48 bs) @ [10] @ b64_lines (drop 48 bs) else [])"
  by pat_completeness auto
termination
  by (relation "measure length") auto

declare b64_lines.simps [simp del]

definition line_rest :: "u8 list \<Rightarrow> u8 list" where
  "line_rest bs = drop (length bs div 48 * 48) bs"

lemma b64_lines_short: "length bs < 48 \<Longrightarrow> b64_lines bs = [] \<and> line_rest bs = bs"
  by (simp add: b64_lines.simps line_rest_def)

lemma b64_lines_step:
  assumes "48 \<le> length bs"
  shows "b64_lines bs = b64 (take 48 bs) @ [10] @ b64_lines (drop 48 bs)"
    and "line_rest bs = line_rest (drop 48 bs)"
proof -
  show "b64_lines bs = b64 (take 48 bs) @ [10] @ b64_lines (drop 48 bs)"
    using assms by (subst b64_lines.simps) simp
  have "length bs div 48 = Suc ((length bs - 48) div 48)" using assms by (simp add: le_div_geq)
  then show "line_rest bs = line_rest (drop 48 bs)" by (simp add: line_rest_def add.commute)
qed

lemma length_line_rest: "length (line_rest bs) < 48"
  by (simp add: line_rest_def minus_div_mult_eq_mod)

lemma b64_lines_append:
  "b64_lines (xs @ ys) = b64_lines xs @ b64_lines (line_rest xs @ ys)
   \<and> line_rest (xs @ ys) = line_rest (line_rest xs @ ys)"
proof (induction xs rule: b64_lines.induct)
  case (1 xs)
  show ?case
  proof (cases "48 \<le> length xs")
    case True
    then have "48 \<le> length (xs @ ys)" by simp
    from b64_lines_step [OF this] b64_lines_step [OF True] 1 [OF True] True show ?thesis by simp
  next
    case False
    then show ?thesis using b64_lines_short [of xs] by simp
  qed
qed

lemma encode_update_loop_eq:
  "encode_update_loop inp tot = (out, rest, tot', ovf) \<Longrightarrow>
     tot + (length inp div 48) * 65 < SIZE_LIMIT \<Longrightarrow>
     out = b64_lines inp \<and> rest = line_rest inp \<and> tot' = tot + length out \<and> \<not> ovf"
proof (induction inp tot arbitrary: out rest tot' ovf rule: encode_update_loop.induct)
  case (1 inp tot)
  show ?case
  proof (cases "48 \<le> length inp")
    case True
    have l: "length (b64 (take 48 inp)) = 64" using True by (simp add: length_b64)
    have d: "length inp div 48 = Suc ((length inp - 48) div 48)" using True by (simp add: le_div_geq)
    then have lim: "tot + 65 + (length (drop 48 inp) div 48) * 65 < SIZE_LIMIT" using "1.prems"(2) by simp
    then have m: "(tot + 64 + 1) mod SIZE_LIMIT = tot + 65" "(tot + (64 + 1)) mod SIZE_LIMIT = tot + 65"
      by simp_all
    obtain o1 r1 t1 v1 where rec: "encode_update_loop (drop 48 inp) (tot + 65) = (o1, r1, t1, v1)"
      by (cases "encode_update_loop (drop 48 inp) (tot + 65)") auto
    have "encode_update_loop inp tot = ((b64 (take 48 inp) @ [10]) @ o1, r1, t1, v1)"
      using True rec m
      by (subst encode_update_loop.simps) (simp add: EVP_EncodeBlock_eq l Let_def)
    with "1.prems"(1) have o: "out = (b64 (take 48 inp) @ [10]) @ o1" "rest = r1" "tot' = t1" "ovf = v1" by auto
    have "o1 = b64_lines (drop 48 inp) \<and> r1 = line_rest (drop 48 inp) \<and> t1 = tot + 65 + length o1 \<and> \<not> v1"
      using "1.IH" [OF True refl EVP_EncodeBlock_eq [symmetric] refl] m rec lim l by simp
    then show ?thesis using o l b64_lines_step [OF True] by simp
  next
    case False
    then show ?thesis using "1.prems"(1) b64_lines_short [of inp]
      by (simp add: encode_update_loop.simps [of inp])
  qed
qed

definition ctx_ok :: "EVP_ENCODE_CTX \<Rightarrow> bool" where
  "ctx_ok ctx \<longleftrightarrow> data_used ctx < 48 \<and> length (ctx_data ctx) = 48"

definition pending :: "EVP_ENCODE_CTX \<Rightarrow> u8 list" where
  "pending ctx = take (data_used ctx) (ctx_data ctx)"

lemma EVP_EncodeInit_ok: "ctx_ok EVP_EncodeInit" "pending EVP_EncodeInit = []"
  by (simp_all add: ctx_ok_def pending_def EVP_EncodeInit_def)

lemma take_mem_write_prefix:
  "pos + length xs \<le> length buf \<Longrightarrow> take (pos + length xs) (mem_write pos xs buf) = take pos buf @ xs"
  by (rule take_mem_write)

lemma EVP_EncodeUpdate_spec:
  assumes ok: "ctx_ok ctx" and lim: "length inp < 2 ^ 62"
    and up: "EVP_EncodeUpdate ctx inp = (ctx', out, n)"
  shows "ctx_ok ctx' \<and> out = b64_lines (pending ctx @ inp) \<and> pending ctx' = line_rest (pending ctx @ inp)
    \<and> n = (if length out > INT_MAX then 0 else length out)"
proof -
  have used: "data_used ctx < 48" "length (ctx_data ctx) = 48" "length (pending ctx) = data_used ctx"
    using ok by (auto simp: ctx_ok_def pending_def)
  consider (empty) "inp = []" | (short) "inp \<noteq> []" "length inp < 48 - data_used ctx"
    | (full) "inp \<noteq> []" "48 - data_used ctx \<le> length inp" by linarith
  then show ?thesis
  proof cases
    case empty
    then show ?thesis using up used ok b64_lines_short [of "pending ctx"] by (auto simp: EVP_EncodeUpdate_def)
  next
    case short
    have l: "data_used ctx + length inp \<le> length (ctx_data ctx)" using short used by linarith
    have "ctx' = ctx\<lparr>ctx_data := mem_write (data_used ctx) inp (ctx_data ctx),
        data_used := data_used ctx + length inp\<rparr>" "out = []" "n = 0"
      using up short by (auto simp: EVP_EncodeUpdate_def)
    then show ?thesis
      using short used l b64_lines_short [of "pending ctx @ inp"] take_mem_write_prefix [OF l]
      by (simp add: ctx_ok_def pending_def)
  next
    case full
    let ?p = "pending ctx" and ?todo = "48 - data_used ctx"
    define inp1 where "inp1 = (if data_used ctx \<noteq> 0 then drop ?todo inp else inp)"
    define out1 where "out1 = (if data_used ctx \<noteq> 0 then b64 (?p @ take ?todo inp) @ [10] else [])"
    define d where "d = (if data_used ctx \<noteq> 0
      then mem_write (data_used ctx) (take ?todo inp) (ctx_data ctx) else ctx_data ctx)"
    have l48: "length (?p @ take ?todo inp) = 48" using full used by simp
    have ld: "length d = 48" using full used by (simp add: d_def)
    have dw: "d = ?p @ take ?todo inp" if "data_used ctx \<noteq> 0"
    proof -
      have "data_used ctx + length (take ?todo inp) = 48" using full used by simp
      then have "take 48 d = ?p @ take ?todo inp"
        using take_mem_write_prefix [of "data_used ctx" "take ?todo inp" "ctx_data ctx"] used that
        by (simp add: d_def pending_def)
      then show ?thesis using ld by simp
    qed
    have lines: "b64_lines (?p @ inp) = out1 @ b64_lines inp1" "line_rest (?p @ inp) = line_rest inp1"
    proof -
      have "48 \<le> length (?p @ inp)" using full used by simp
      from b64_lines_step [OF this] used full
      have "b64_lines (?p @ inp) = b64 (?p @ take ?todo inp) @ [10] @ b64_lines (drop ?todo inp)"
        "line_rest (?p @ inp) = line_rest (drop ?todo inp)" by simp_all
      then show "b64_lines (?p @ inp) = out1 @ b64_lines inp1" "line_rest (?p @ inp) = line_rest inp1"
        using used by (auto simp: out1_def inp1_def)
    qed
    obtain out2 rest tot2 ovf where lp: "encode_update_loop inp1 (length out1) = (out2, rest, tot2, ovf)"
      by (cases "encode_update_loop inp1 (length out1)") auto
    have lo1: "length out1 \<le> 65" using l48 by (simp add: out1_def length_b64)
    have k: "length inp1 div 48 * 48 \<le> length inp1" by (rule div_times_less_eq_dividend)
    have "length inp1 \<le> length inp" by (simp add: inp1_def)
    then have "length out1 + length inp1 div 48 * 65 < SIZE_LIMIT" using k lo1 lim by simp
    note L = encode_update_loop_eq [OF lp this]
    have up': "EVP_EncodeUpdate ctx inp =
        (let c1 = (if data_used ctx \<noteq> 0 then ctx\<lparr>ctx_data := d, data_used := 0\<rparr> else ctx)
         in (c1\<lparr>ctx_data := (if length rest \<noteq> 0 then mem_write 0 rest (ctx_data c1) else ctx_data c1),
                 data_used := length rest\<rparr>, out1 @ out2, if tot2 > INT_MAX then 0 else tot2))"
    proof (cases "data_used ctx = 0")
      case True
      then show ?thesis using full lp L used
        by (simp add: EVP_EncodeUpdate_def out1_def inp1_def Let_def)
    next
      case False
      have e: "EVP_EncodeBlock d = (b64 (?p @ take ?todo inp) @ [0], 64)"
        using dw [OF False] l48 by (simp add: EVP_EncodeBlock_eq length_b64)
      have b: "length (b64 (?p @ take ?todo inp)) = 64" using l48 by (simp add: length_b64)
      show ?thesis using False full lp L used e b
        by (simp add: EVP_EncodeUpdate_def out1_def inp1_def Let_def d_def)
    qed
    have lr: "length rest < 48" using L length_line_rest [of inp1] by simp
    have "ctx_ok ctx' \<and> pending ctx' = rest \<and> out = out1 @ out2 \<and> n = (if tot2 > INT_MAX then 0 else tot2)"
      using up [unfolded up'] lr ld used take_mem_write_prefix [of 0 rest]
      by (auto simp: Let_def ctx_ok_def pending_def)
    then show ?thesis using L lines by simp
  qed
qed

lemma EVP_EncodeFinal_spec:
  assumes "ctx_ok ctx" and "EVP_EncodeFinal ctx = (ctx', out, n)"
  shows "out = (if pending ctx = [] then [] else b64 (pending ctx) @ [10]) \<and> n = length out"
proof -
  have e: "pending ctx = [] \<longleftrightarrow> data_used ctx = 0" using assms(1) by (auto simp: pending_def ctx_ok_def)
  show ?thesis
    using assms(2) unfolding e
    by (auto simp: EVP_EncodeFinal_def EVP_EncodeBlock_eq pending_def Let_def split: if_splits)
qed

text \<open>A caller that feeds chunks and collects \<^verbatim>\<open>out_len\<close> bytes of each call.\<close>

fun encode_chunks :: "EVP_ENCODE_CTX \<Rightarrow> u8 list list \<Rightarrow> u8 list" where
  "encode_chunks ctx [] = (case EVP_EncodeFinal ctx of (_, out, n) \<Rightarrow> take n out)"
| "encode_chunks ctx (chunk # chunks) =
     (case EVP_EncodeUpdate ctx chunk of (ctx1, out, n) \<Rightarrow> take n out @ encode_chunks ctx1 chunks)"

definition b64_text :: "u8 list \<Rightarrow> u8 list" where
  "b64_text bs = b64_lines bs @ (if line_rest bs = [] then [] else b64 (line_rest bs) @ [10])"

lemma length_b64_lines: "length (b64_lines bs) = length bs div 48 * 65"
proof (induction bs rule: b64_lines.induct)
  case (1 bs)
  show ?case
  proof (cases "48 \<le> length bs")
    case True
    have "length bs div 48 = Suc ((length bs - 48) div 48)" using True by (simp add: le_div_geq)
    then show ?thesis using 1 [OF True] b64_lines_step(1) [OF True] True by (simp add: length_b64)
  next
    case False
    then show ?thesis using b64_lines_short [of bs] by simp
  qed
qed

lemma encode_chunks_text:
  assumes "ctx_ok ctx" and "\<And>chunk. chunk \<in> set chunks \<Longrightarrow> length chunk < 2 ^ 30"
  shows "encode_chunks ctx chunks = b64_text (pending ctx @ concat chunks)"
  using assms
proof (induction chunks arbitrary: ctx)
  case Nil
  obtain c o' n where f: "EVP_EncodeFinal ctx = (c, o', n)" by (cases "EVP_EncodeFinal ctx") auto
  have "length (pending ctx) < 48" using Nil(1) by (simp add: pending_def ctx_ok_def)
  then show ?case using EVP_EncodeFinal_spec [OF Nil(1) f] f b64_lines_short [of "pending ctx"]
    by (simp add: b64_text_def)
next
  case (Cons chunk chunks)
  have l: "length chunk < 2 ^ 30" using Cons.prems(2) by simp
  obtain c1 o1 n where u: "EVP_EncodeUpdate ctx chunk = (c1, o1, n)" by (cases "EVP_EncodeUpdate ctx chunk") auto
  have S: "ctx_ok c1" "o1 = b64_lines (pending ctx @ chunk)" "pending c1 = line_rest (pending ctx @ chunk)"
      "n = (if length o1 > INT_MAX then 0 else length o1)"
    using EVP_EncodeUpdate_spec [OF Cons.prems(1) _ u] l by auto
  have "length (pending ctx @ chunk) < 2 ^ 30 + 48"
    using l Cons.prems(1) by (simp add: pending_def ctx_ok_def)
  then have "length (pending ctx @ chunk) div 48 * 65 \<le> INT_MAX" by simp
  then have n: "n = length o1" using S(2,4) length_b64_lines by simp
  have "encode_chunks c1 chunks = b64_text (pending c1 @ concat chunks)"
    by (rule Cons.IH [OF S(1)]) (use Cons.prems(2) in simp)
  then show ?case
    using u n S(2,3) b64_lines_append [of "pending ctx @ chunk" "concat chunks"]
    by (simp add: b64_text_def)
qed

section \<open>Decoding a stream\<close>

text \<open>One byte of the loop either stops it, is only recorded, or completes a quad.\<close>

lemma decode_step:
  obtains (stop) ctx1 where "\<And>zs. decode_update_loop ctx (c # zs) = (ctx1, None)"
  | (skip) ctx1 where "\<And>zs. decode_update_loop ctx (c # zs) = decode_update_loop ctx1 zs"
      "error_encountered ctx1 = error_encountered ctx"
  | (quad) ctx1 bytes where "\<And>zs. decode_update_loop ctx (c # zs) =
      (case decode_update_loop ctx1 zs of (ctx2, r) \<Rightarrow> (ctx2, map_option (\<lambda>out. bytes @ out) r))"
      "error_encountered ctx1 = error_encountered ctx"
proof -
  let ?ctx1 = "ctx\<lparr>ctx_data := (ctx_data ctx)[data_used ctx := c], data_used := data_used ctx + 1\<rparr>"
  let ?quad = "base64_decode_quad (ctx_data ?ctx1 ! 0) (ctx_data ?ctx1 ! 1) (ctx_data ?ctx1 ! 2) (ctx_data ?ctx1 ! 3)"
  consider "is_space c" | "\<not> is_space c" "eof_seen ctx"
    | "\<not> is_space c" "\<not> eof_seen ctx" "data_used ?ctx1 \<noteq> 4"
    | "\<not> is_space c" "\<not> eof_seen ctx" "data_used ?ctx1 = 4" "?quad = None"
    | bytes where "\<not> is_space c" "\<not> eof_seen ctx" "data_used ?ctx1 = 4" "?quad = Some bytes"
    by blast
  then show thesis
  proof cases
    case 1
    then show thesis by (intro skip [of ctx]) simp_all
  next
    case 2
    then show thesis by (intro stop [of "ctx\<lparr>error_encountered := True\<rparr>"]) simp
  next
    case 3
    then show thesis by (intro skip [of ?ctx1]) (simp_all add: Let_def)
  next
    case 4
    then show thesis by (intro stop [of "?ctx1\<lparr>error_encountered := True\<rparr>"]) (simp add: Let_def)
  next
    case 5
    then show thesis
      by (intro quad [of bytes "if length bytes < 3 then ?ctx1\<lparr>data_used := 0, eof_seen := True\<rparr>
          else ?ctx1\<lparr>data_used := 0\<rparr>"]) (simp_all add: Let_def)
  qed
qed

lemma decode_update_loop_append:
  "decode_update_loop ctx (xs @ ys) =
     (case decode_update_loop ctx xs of
        (ctx1, None) \<Rightarrow> (ctx1, None)
      | (ctx1, Some out) \<Rightarrow>
          (case decode_update_loop ctx1 ys of (ctx2, r) \<Rightarrow> (ctx2, map_option (\<lambda>o2. out @ o2) r)))"
proof (induction xs arbitrary: ctx)
  case Nil
  obtain c2 r where "decode_update_loop ctx ys = (c2, r)" by (cases "decode_update_loop ctx ys")
  then show ?case by (cases r) simp_all
next
  case (Cons c inp)
  show ?case
  proof (cases rule: decode_step [of ctx c])
    case (quad ctx1 bytes)
    obtain c1 r1 where r1: "decode_update_loop ctx1 inp = (c1, r1)" by fastforce
    obtain c2 r2 where r2: "decode_update_loop c1 ys = (c2, r2)" by fastforce
    show ?thesis unfolding append_Cons quad(1) Cons.IH r1 by (cases r1; cases r2) (simp_all add: r2)
  qed (simp_all add: Cons.IH del: decode_update_loop.simps)
qed

lemma decode_update_loop_error:
  "decode_update_loop ctx inp = (ctx', Some out) \<Longrightarrow> error_encountered ctx' = error_encountered ctx"
proof (induction inp arbitrary: ctx out)
  case (Cons c inp)
  show ?case
    by (cases rule: decode_step [of ctx c])
      (use Cons in \<open>auto simp del: decode_update_loop.simps split: prod.splits\<close>)
qed simp

text \<open>Between two quads, with more data expected.\<close>

definition idle :: "EVP_ENCODE_CTX \<Rightarrow> bool" where
  "idle ctx \<longleftrightarrow> data_used ctx = 0 \<and> \<not> eof_seen ctx \<and> \<not> error_encountered ctx \<and> 4 \<le> length (ctx_data ctx)"

lemma decode_quad_step:
  assumes "idle ctx" and "\<not> is_space a" "\<not> is_space b" "\<not> is_space c" "\<not> is_space d"
    and q: "base64_decode_quad a b c d = Some bytes"
  obtains ctx' where "decode_update_loop ctx (a # b # c # d # rest) =
      (case decode_update_loop ctx' rest of (ctx2, r) \<Rightarrow> (ctx2, map_option (\<lambda>o2. bytes @ o2) r))"
    and "length bytes = 3 \<Longrightarrow> idle ctx'" and "length bytes < 3 \<Longrightarrow> eof_seen ctx'"
    and "data_used ctx' = 0" and "\<not> error_encountered ctx'"
proof -
  have l: "4 \<le> length (ctx_data ctx)" "data_used ctx = 0" "\<not> eof_seen ctx" "\<not> error_encountered ctx"
    using assms(1) by (auto simp: idle_def)
  let ?d = "(ctx_data ctx)[0 := a, 1 := b, 2 := c, 3 := d]"
  let ?c = "ctx\<lparr>ctx_data := ?d, data_used := 0\<rparr>"
  have "0 < length (ctx_data ctx)" "1 < length (ctx_data ctx)" using l(1) by linarith+
  then have n: "?d ! 0 = a" "?d ! 1 = b" "?d ! 2 = c" "?d ! 3 = d" using l(1) by simp_all
  show thesis
  proof (rule that [of "if length bytes < 3 then ?c\<lparr>eof_seen := True\<rparr> else ?c"])
    show "decode_update_loop ctx (a # b # c # d # rest) =
      (case decode_update_loop (if length bytes < 3 then ?c\<lparr>eof_seen := True\<rparr> else ?c) rest of
         (ctx2, r) \<Rightarrow> (ctx2, map_option (\<lambda>o2. bytes @ o2) r))"
      using assms l n q by (simp add: numeral_2_eq_2 numeral_3_eq_3 Let_def)
  qed (use l in \<open>auto simp: idle_def\<close>)
qed

lemma decode_b64_full:
  "idle ctx \<Longrightarrow> length bs mod 3 = 0 \<Longrightarrow> \<exists>ctx'. decode_update_loop ctx (b64 bs) = (ctx', Some bs) \<and> idle ctx'"
proof (induction bs arbitrary: ctx rule: b64.induct)
  case (4 x y z bs)
  have m: "length bs mod 3 = 0" using 4(3) by (simp add: mod_Suc split: if_splits)
  obtain a b c d where g: "b64 (x # y # z # bs) = a # b # c # d # b64 bs" "base64_decode_quad a b c d = Some [x, y, z]"
      "\<not> is_space a" "\<not> is_space b" "\<not> is_space c" "\<not> is_space d"
    using decode_group(1) [of x y z bs] by blast
  obtain ctx1 where c1: "decode_update_loop ctx (a # b # c # d # b64 bs) =
      (case decode_update_loop ctx1 (b64 bs) of (ctx2, r) \<Rightarrow> (ctx2, map_option (\<lambda>o2. [x, y, z] @ o2) r))"
      "length [x, y, z] = 3 \<Longrightarrow> idle ctx1"
    using decode_quad_step [OF 4(2) g(3-6,2), where rest = "b64 bs"] by blast
  have "idle ctx1" using c1(2) by simp
  from 4(1) [OF _ this m] c1(1) g(1) show ?case by (auto simp: Let_def)
qed auto

lemma decode_b64_last:
  assumes "idle ctx" and "bs \<noteq> []"
  shows "\<exists>ctx'. decode_update_loop ctx (b64 bs) = (ctx', Some bs) \<and> data_used ctx' = 0 \<and> \<not> error_encountered ctx'"
proof -
  define k where "k = length bs div 3 * 3"
  have split: "bs = take k bs @ drop k bs" "length (take k bs) mod 3 = 0" "length (drop k bs) < 3"
    unfolding k_def by (simp_all add: minus_div_mult_eq_mod min_absorb2 div_times_less_eq_dividend)
  have app: "length xs mod 3 = 0 \<Longrightarrow> b64 (xs @ ys) = b64 xs @ b64 ys" for xs ys
  proof (induction xs rule: b64.induct)
    case (4 x y z xs)
    then show ?case by (simp add: Let_def mod_Suc split: if_splits)
  qed auto
  obtain c1 where c1: "decode_update_loop ctx (b64 (take k bs)) = (c1, Some (take k bs))" "idle c1"
    using decode_b64_full [OF assms(1) split(2)] by blast
  have "\<exists>ctx'. decode_update_loop c1 (b64 (drop k bs)) = (ctx', Some (drop k bs)) \<and> data_used ctx' = 0
      \<and> \<not> error_encountered ctx'"
  proof -
    consider "drop k bs = []" | x where "drop k bs = [x]" | x y where "drop k bs = [x, y]"
      using split(3) by (cases "drop k bs" rule: b64.cases) auto
    then show ?thesis
    proof cases
      case 1
      then show ?thesis using c1(2) by (simp add: idle_def)
    next
      case 2
      obtain a b c d where g: "b64 [x] = [a, b, c, d]" "base64_decode_quad a b c d = Some [x]"
          "\<not> is_space a" "\<not> is_space b" "\<not> is_space c" "\<not> is_space d"
        using decode_group(3) [of x] by blast
      obtain c2 where "decode_update_loop c1 [a, b, c, d] =
          (case decode_update_loop c2 [] of (ctx2, r) \<Rightarrow> (ctx2, map_option (\<lambda>o2. [x] @ o2) r))"
          "data_used c2 = 0" "\<not> error_encountered c2"
        using decode_quad_step [OF c1(2) g(3-6,2), where rest = "[]"] by blast
      then show ?thesis using 2 g(1) by (simp del: b64.simps)
    next
      case 3
      obtain a b c d where g: "b64 [x, y] = [a, b, c, d]" "base64_decode_quad a b c d = Some [x, y]"
          "\<not> is_space a" "\<not> is_space b" "\<not> is_space c" "\<not> is_space d"
        using decode_group(2) [of x y] by blast
      obtain c2 where "decode_update_loop c1 [a, b, c, d] =
          (case decode_update_loop c2 [] of (ctx2, r) \<Rightarrow> (ctx2, map_option (\<lambda>o2. [x, y] @ o2) r))"
          "data_used c2 = 0" "\<not> error_encountered c2"
        using decode_quad_step [OF c1(2) g(3-6,2), where rest = "[]"] by blast
      then show ?thesis using 3 g(1) by (simp del: b64.simps)
    qed
  qed
  then show ?thesis
    using c1(1) app [OF split(2), of "drop k bs"] split(1)
    by (auto simp: decode_update_loop_append)
qed

lemma decode_newline: "decode_update_loop ctx (10 # xs) = decode_update_loop ctx xs"
  by (simp add: is_space_def)

lemma decode_lines:
  "idle ctx \<Longrightarrow> \<exists>ctx'. decode_update_loop ctx (b64_lines bs) = (ctx', Some (take (length bs div 48 * 48) bs)) \<and> idle ctx'"
proof (induction bs arbitrary: ctx rule: b64_lines.induct)
  case (1 bs)
  show ?case
  proof (cases "48 \<le> length bs")
    case True
    obtain c1 where c1: "decode_update_loop ctx (b64 (take 48 bs)) = (c1, Some (take 48 bs))" "idle c1"
      using decode_b64_full [OF "1.prems", of "take 48 bs"] True by auto
    obtain c2 where c2: "decode_update_loop c1 (b64_lines (drop 48 bs)) =
        (c2, Some (take (length (drop 48 bs) div 48 * 48) (drop 48 bs)))" "idle c2"
      using "1.IH" [OF True c1(2)] by blast
    have d: "length bs div 48 * 48 = 48 + length (drop 48 bs) div 48 * 48" using True by (simp add: le_div_geq)
    have "take (length bs div 48 * 48) bs = take 48 bs @ take (length (drop 48 bs) div 48 * 48) (drop 48 bs)"
      unfolding d by (rule take_add)
    then show ?thesis
      using c1 c2 b64_lines_step(1) [OF True] by (simp add: decode_update_loop_append decode_newline del: decode_update_loop.simps)
  next
    case False
    then show ?thesis using "1.prems" b64_lines_short [of bs] by simp
  qed
qed

lemma decode_text:
  assumes "idle ctx"
  shows "\<exists>ctx'. decode_update_loop ctx (b64_text bs) = (ctx', Some bs) \<and> data_used ctx' = 0
    \<and> \<not> error_encountered ctx'"
proof -
  obtain c1 where c1: "decode_update_loop ctx (b64_lines bs) = (c1, Some (take (length bs div 48 * 48) bs))" "idle c1"
    using decode_lines [OF assms] by blast
  show ?thesis
  proof (cases "line_rest bs = []")
    case True
    then have "take (length bs div 48 * 48) bs = bs" by (simp add: line_rest_def)
    then show ?thesis using c1 True by (simp add: b64_text_def idle_def)
  next
    case False
    obtain c2 where c2: "decode_update_loop c1 (b64 (line_rest bs)) = (c2, Some (line_rest bs))"
        "data_used c2 = 0" "\<not> error_encountered c2"
      using decode_b64_last [OF c1(2) False] by blast
    have "take (length bs div 48 * 48) bs @ line_rest bs = bs" by (simp add: line_rest_def)
    then show ?thesis
      using c1(1) c2 False by (simp add: b64_text_def decode_update_loop_append decode_newline decode_update_loop.simps(1)
        del: decode_update_loop.simps(2))
  qed
qed

text \<open>A caller that feeds the chunks of a text to the decoder and checks every return value.\<close>

fun decode_chunks :: "EVP_ENCODE_CTX \<Rightarrow> u8 list list \<Rightarrow> u8 list option" where
  "decode_chunks ctx [] = (if EVP_DecodeFinal ctx = 1 then Some [] else None)"
| "decode_chunks ctx (chunk # chunks) =
     (case EVP_DecodeUpdate ctx chunk of
        (ctx1, out, ret) \<Rightarrow>
          (if ret = -1 then None else map_option (\<lambda>o2. out @ o2) (decode_chunks ctx1 chunks)))"

lemma decode_chunks_loop:
  assumes "decode_update_loop ctx (concat chunks) = (ctx', Some out)"
    and "\<not> error_encountered ctx" "data_used ctx' = 0" "length out \<le> INT_MAX"
  shows "decode_chunks ctx chunks = Some out"
  using assms
proof (induction chunks arbitrary: ctx out)
  case Nil
  then show ?case by (simp add: EVP_DecodeFinal_def)
next
  case (Cons chunk chunks)
  obtain c1 r1 where r1: "decode_update_loop ctx chunk = (c1, r1)" by fastforce
  obtain c2 r2 where r2: "decode_update_loop c1 (concat chunks) = (c2, r2)" by fastforce
  obtain o1 o2 where o: "r1 = Some o1" "r2 = Some o2" "c2 = ctx'" "out = o1 @ o2"
    using Cons.prems(1) by (auto simp: decode_update_loop_append r1 r2 split: option.splits)
  have e: "\<not> error_encountered c1" using decode_update_loop_error r1 o(1) Cons.prems(2) by blast
  have "decode_chunks c1 chunks = Some o2"
    using Cons.IH [OF _ e Cons.prems(3)] r2 o Cons.prems(4) by simp
  then show ?case using r1 o Cons.prems(2,4) by (simp add: EVP_DecodeUpdate_def)
qed

lemma decode_base64_loop_length:
  "decode_base64_loop inp = Some out \<Longrightarrow> length out \<le> length inp div 4 * 3"
proof (induction inp arbitrary: out rule: decode_base64_loop.induct)
  case (1 i0 i1 i2 i3 inp)
  have q: "base64_decode_quad i0 i1 i2 i3 = Some bytes \<Longrightarrow> length bytes \<le> 3" for bytes
    by (auto simp: base64_decode_quad_def Let_def split: if_splits bool.splits)
  obtain bytes where b: "base64_decode_quad i0 i1 i2 i3 = Some bytes" using 1(2) by (auto split: option.splits)
  obtain o2 where "decode_base64_loop inp = Some o2" "out = bytes @ o2" "length o2 \<le> length inp div 4 * 3"
    using 1 b by (auto split: if_splits)
  then show ?case using q [OF b] div_add_self1 [of 4 "length inp"] by simp
qed auto

section \<open>Properties\<close>

text \<open>
  C10. The streaming encoder does not depend on how its caller cuts the input: whatever the
  chunks (each below 2^30 bytes, so that no call overflows the \<^verbatim>\<open>int\<close> it returns), the bytes of
  all \<open>EVP_EncodeUpdate\<close> calls and of \<open>EVP_EncodeFinal\<close> together are the base64 text of the whole
  input: a line for every 48 bytes, each ended by a newline, and a last line for the rest.
\<close>

theorem base64_encode_chunking:
  assumes "\<And>chunk. chunk \<in> set chunks \<Longrightarrow> length chunk < 2 ^ 30"
  shows "encode_chunks EVP_EncodeInit chunks = b64_text (concat chunks)"
  using encode_chunks_text [OF _ assms, of EVP_EncodeInit]
  by (simp add: EVP_EncodeInit_def ctx_ok_def pending_def)

theorem base64_encode_chunking_witness:
  "encode_chunks EVP_EncodeInit [[77], [97, 110]] = b64_text [77, 97, 110]"
  by (subst base64_encode_chunking) auto

text \<open>
  C11. Streamed base64 survives the way back for any cutting of the input and of the text: if the
  chunks \<open>texts\<close> put together are what the encoder wrote for \<open>chunks\<close>, then every
  \<open>EVP_DecodeUpdate\<close> call on them and \<open>EVP_DecodeFinal\<close> succeed and the bytes they return are the
  original input.
\<close>

theorem base64_stream_roundtrip:
  assumes "\<And>chunk. chunk \<in> set chunks \<Longrightarrow> length chunk < 2 ^ 30"
    and "concat texts = encode_chunks EVP_EncodeInit chunks"
    and "length (concat chunks) \<le> INT_MAX"
  shows "decode_chunks EVP_DecodeInit texts = Some (concat chunks)"
proof -
  have t: "encode_chunks EVP_EncodeInit chunks = b64_text (concat chunks)"
    using encode_chunks_text [OF _ assms(1), of EVP_EncodeInit]
    by (simp add: EVP_EncodeInit_def ctx_ok_def pending_def)
  have "idle EVP_DecodeInit" by (simp add: idle_def EVP_DecodeInit_def)
  then obtain ctx' where "decode_update_loop EVP_DecodeInit (b64_text (concat chunks)) =
      (ctx', Some (concat chunks))" "data_used ctx' = 0"
    using decode_text by blast
  then show ?thesis
    using decode_chunks_loop [where chunks = texts] assms(2,3) t
    by (simp add: EVP_DecodeInit_def)
qed

theorem base64_stream_roundtrip_witness:
  "decode_chunks EVP_DecodeInit [encode_chunks EVP_EncodeInit [[77], [97, 110, 255]]] = Some [77, 97, 110, 255]"
proof -
  have l: "length chunk < 2 ^ 30" if "chunk \<in> set [[77], [97, 110, 255 :: u8]]" for chunk
    using that by auto
  show ?thesis
    using base64_stream_roundtrip [where chunks = "[[77], [97, 110, 255]]" and texts = "[encode_chunks EVP_EncodeInit [[77], [97, 110, 255]]]", OF l]
    by (simp del: encode_chunks.simps decode_chunks.simps)
qed

text \<open>
  The one-shot functions: \<open>EVP_EncodeBlock\<close> writes exactly the \<open>EVP_EncodedLength\<close> bytes a
  caller allocates (the final NUL included) and returns one less, and \<open>EVP_DecodeBase64\<close> turns the
  text back into the input whenever the output buffer has the \<open>EVP_DecodedLength\<close> of the text.
\<close>

theorem base64_block_roundtrip:
  assumes "length src < 2 ^ 62" and "length src + 2 \<le> max_out"
  shows "EVP_EncodedLength (length src) = Some (length (fst (EVP_EncodeBlock src)))
    \<and> snd (EVP_EncodeBlock src) + 1 = length (fst (EVP_EncodeBlock src))
    \<and> EVP_DecodeBase64 max_out (take (snd (EVP_EncodeBlock src)) (fst (EVP_EncodeBlock src))) = Some src"
proof (intro conjI)
  have n: "length src + 2 < SIZE_LIMIT" "(length src + 2) div 3 * 4 + 1 < SIZE_LIMIT" using assms(1) by simp_all
  then show "EVP_EncodedLength (length src) = Some (length (fst (EVP_EncodeBlock src)))"
    by (simp add: EVP_EncodedLength_def EVP_EncodeBlock_eq length_b64 Let_def)
  show "snd (EVP_EncodeBlock src) + 1 = length (fst (EVP_EncodeBlock src))" by (simp add: EVP_EncodeBlock_eq)
  have "(length src + 2) div 3 * 3 \<le> max_out" using assms(2) by linarith
  then show "EVP_DecodeBase64 max_out (take (snd (EVP_EncodeBlock src)) (fst (EVP_EncodeBlock src))) = Some src"
    by (simp add: EVP_EncodeBlock_eq EVP_DecodeBase64_def EVP_DecodedLength_def length_b64 decode_base64_loop_b64)
qed

theorem base64_block_roundtrip_witness:
  "EVP_DecodeBase64 6 (take (snd (EVP_EncodeBlock [77, 97, 110, 0])) (fst (EVP_EncodeBlock [77, 97, 110, 0])))
     = Some [77, 97, 110, 0]"
  using base64_block_roundtrip [of "[77, 97, 110, 0]" 6] by simp

text \<open>
  The decoder stays inside the buffer it was given: what \<open>EVP_DecodeBase64\<close> returns is never
  longer than \<open>max_out\<close>, nor than the \<open>EVP_DecodedLength\<close> of its input, whatever the input.
\<close>

theorem base64_decode_in_bounds:
  assumes "EVP_DecodeBase64 max_out inp = Some out"
  shows "length out \<le> max_out \<and> (\<exists>n. EVP_DecodedLength (length inp) = Some n \<and> length out \<le> n)"
  using assms decode_base64_loop_length [of inp out]
  by (auto simp: EVP_DecodeBase64_def EVP_DecodedLength_def split: if_splits)

theorem base64_decode_in_bounds_witness:
  "length [77 :: u8, 97] \<le> 5 \<and> (\<exists>n. EVP_DecodedLength (length [84 :: u8, 87, 69, 61]) = Some n \<and> length [77 :: u8, 97] \<le> n)"
proof (rule base64_decode_in_bounds)
  have "base64_decode_quad 84 87 69 61 = Some [77, 97]"
    by (simp add: base64_decode_quad_def base64_ascii_to_bin_cases Let_def)
  then show "EVP_DecodeBase64 5 [84, 87, 69, 61] = Some [77, 97]"
    by (simp add: EVP_DecodeBase64_def EVP_DecodedLength_def)
qed

end
