(* ===== verification/Stack.thy ===== *)
theory Stack
  imports Crypto_Mem Comparison
begin

text \<open>
  \<^verbatim>\<open>crypto/stack/stack.c\<close>: the growable array of pointers behind every \<^verbatim>\<open>STACK_OF(T)\<close>. An element is
  a \<^verbatim>\<open>void *\<close>: \<open>None\<close> is NULL. The function pointer \<^verbatim>\<open>comp\<close> is a name \<open>'f\<close>, which can be compared, and
  \<open>call_cmp\<close> calls it, as \<^verbatim>\<open>call_cmp_func\<close> does. A \<^verbatim>\<open>_STACK *\<close> that may be NULL is an option. The
  array has \<^verbatim>\<open>num_alloc\<close> cells; the cells of a fresh block hold \<open>junk\<close>.
\<close>

section \<open>Operations\<close>

record ('a, 'f) STACK =
  num :: nat
  data :: "'a option list"
  sorted_flag :: bool
  num_alloc :: nat
  comp :: "'f option"

definition kMinSize :: nat where
  "kMinSize = 4"

text \<open>An array of pointers, 8 bytes each, in a block from \<open>OPENSSL_malloc\<close> or \<open>OPENSSL_realloc\<close>.\<close>

definition malloc_ptrs :: "sys_alloc \<Rightarrow> (nat \<Rightarrow> 'a option) \<Rightarrow> nat \<Rightarrow> 'a option list option" where
  "malloc_ptrs a junk sz = (if OPENSSL_malloc a sz = None then None else Some (map junk [0..<sz div 8]))"

definition realloc_ptrs :: "sys_alloc \<Rightarrow> (nat \<Rightarrow> 'a option) \<Rightarrow> 'a option list \<Rightarrow> nat \<Rightarrow> 'a option list option" where
  "realloc_ptrs a junk orig sz =
     (case malloc_ptrs a junk sz of
        None \<Rightarrow> None
      | Some ret \<Rightarrow> Some (take (length ret) orig @ drop (length orig) ret))"

definition sk_new :: "sys_alloc \<Rightarrow> (nat \<Rightarrow> 'a option) \<Rightarrow> 'f option \<Rightarrow> ('a, 'f) STACK option" where
  "sk_new a junk cmp =
     (case OPENSSL_malloc a 40 of
        None \<Rightarrow> None
      | Some _ \<Rightarrow>
          (case malloc_ptrs a junk (8 * kMinSize) of
             None \<Rightarrow> None
           | Some d \<Rightarrow>
               Some \<lparr>num = 0, data = map (\<lambda>_. None) d, sorted_flag = False, num_alloc = kMinSize, comp = cmp\<rparr>))"

definition sk_new_null :: "sys_alloc \<Rightarrow> (nat \<Rightarrow> 'a option) \<Rightarrow> ('a, 'f) STACK option" where
  "sk_new_null a junk = sk_new a junk None"

definition sk_num :: "('a, 'f) STACK option \<Rightarrow> nat" where
  "sk_num sk = (case sk of None \<Rightarrow> 0 | Some s \<Rightarrow> num s)"

definition sk_zero :: "('a, 'f) STACK option \<Rightarrow> ('a, 'f) STACK option" where
  "sk_zero sk =
     (case sk of
        None \<Rightarrow> None
      | Some s \<Rightarrow>
          (if num s = 0 then sk
           else Some (s\<lparr>data := mem_write 0 (replicate (num s) None) (data s), num := 0, sorted_flag := False\<rparr>)))"

definition sk_value :: "('a, 'f) STACK option \<Rightarrow> nat \<Rightarrow> 'a option" where
  "sk_value sk i = (case sk of None \<Rightarrow> None | Some s \<Rightarrow> if i \<ge> num s then None else data s ! i)"

definition sk_set :: "('a, 'f) STACK option \<Rightarrow> nat \<Rightarrow> 'a option \<Rightarrow> 'a option \<times> ('a, 'f) STACK option" where
  "sk_set sk i v =
     (case sk of
        None \<Rightarrow> (None, None)
      | Some s \<Rightarrow> if i \<ge> num s then (None, sk) else (v, Some (s\<lparr>data := (data s)[i := v]\<rparr>)))"

text \<open>The pointers passed to the caller's free function, in order; then the stack itself is freed.\<close>

definition sk_pop_free_ex :: "('a, 'f) STACK option \<Rightarrow> 'a list" where
  "sk_pop_free_ex sk =
     (case sk of
        None \<Rightarrow> []
      | Some s \<Rightarrow> concat (map (\<lambda>i. case data s ! i of None \<Rightarrow> [] | Some p \<Rightarrow> [p]) [0..<num s]))"

definition grow_overflows :: "nat \<Rightarrow> nat \<Rightarrow> bool" where
  "grow_overflows new_alloc old \<longleftrightarrow> new_alloc < old \<or> (new_alloc * 8) mod SIZE_LIMIT div 8 \<noteq> new_alloc"

definition sk_grow :: "sys_alloc \<Rightarrow> (nat \<Rightarrow> 'a option) \<Rightarrow> ('a, 'f) STACK \<Rightarrow> ('a, 'f) STACK option" where
  "sk_grow a junk s =
     (if num_alloc s \<le> (num s + 1) mod SIZE_LIMIT then
        (let doubled = (num_alloc s * 2) mod SIZE_LIMIT;
             new_alloc = (if grow_overflows doubled (num_alloc s) then (num_alloc s + 1) mod SIZE_LIMIT else doubled)
         in if grow_overflows new_alloc (num_alloc s) then None
            else (case realloc_ptrs a junk (data s) ((new_alloc * 8) mod SIZE_LIMIT) of
                    None \<Rightarrow> None
                  | Some d \<Rightarrow> Some (s\<lparr>data := d, num_alloc := new_alloc\<rparr>)))
      else Some s)"

definition sk_insert :: "sys_alloc \<Rightarrow> (nat \<Rightarrow> 'a option) \<Rightarrow> ('a, 'f) STACK option \<Rightarrow> 'a option \<Rightarrow> nat
    \<Rightarrow> nat \<times> ('a, 'f) STACK option" where
  "sk_insert a junk sk p w =
     (case sk of
        None \<Rightarrow> (0, None)
      | Some s0 \<Rightarrow>
          (case sk_grow a junk s0 of
             None \<Rightarrow> (0, sk)
           | Some s \<Rightarrow>
               (let d = (if w \<ge> num s then (data s)[num s := p]
                         else (mem_write (w + 1) (take (num s - w) (drop w (data s))) (data s))[w := p]);
                    s' = s\<lparr>data := d, num := (num s + 1) mod SIZE_LIMIT, sorted_flag := False\<rparr>
                in (num s', Some s'))))"

definition sk_delete :: "('a, 'f) STACK option \<Rightarrow> nat \<Rightarrow> 'a option \<times> ('a, 'f) STACK option" where
  "sk_delete sk w =
     (case sk of
        None \<Rightarrow> (None, None)
      | Some s \<Rightarrow>
          (if w \<ge> num s then (None, sk)
           else (let d = (if w \<noteq> num s - 1 then mem_write w (take (num s - w - 1) (drop (w + 1) (data s))) (data s)
                          else data s)
                 in (data s ! w, Some (s\<lparr>data := d, num := num s - 1\<rparr>)))))"

text \<open>The loops that look for the first cell in \<open>i, i+1, ..., n-1\<close> with some property.\<close>

function scan_loop :: "('a option \<Rightarrow> bool) \<Rightarrow> 'a option list \<Rightarrow> nat \<Rightarrow> nat \<Rightarrow> nat option" where
  "scan_loop P d i n = (if i < n then if P (d ! i) then Some i else scan_loop P d (i + 1) n else None)"
  by pat_completeness auto
termination
  by (relation "measure (\<lambda>(P, d, i, n). n - i)") auto

declare scan_loop.simps [simp del]

definition sk_delete_ptr :: "('a, 'f) STACK option \<Rightarrow> 'a option \<Rightarrow> 'a option \<times> ('a, 'f) STACK option" where
  "sk_delete_ptr sk p =
     (case sk of
        None \<Rightarrow> (None, None)
      | Some s \<Rightarrow>
          (case scan_loop (\<lambda>x. x = p) (data s) 0 (num s) of None \<Rightarrow> (None, sk) | Some i \<Rightarrow> sk_delete sk i))"

definition sk_is_sorted :: "('a, 'f) STACK option \<Rightarrow> bool" where
  "sk_is_sorted sk = (case sk of None \<Rightarrow> True | Some s \<Rightarrow> sorted_flag s)"

text \<open>The binary search; \<open>r\<close> is the result of comparing the key with the sampled element.\<close>

function bsearch_loop :: "('a option \<Rightarrow> int) \<Rightarrow> 'a option list \<Rightarrow> nat \<Rightarrow> nat \<Rightarrow> nat option" where
  "bsearch_loop cmp_p d lo hi =
     (if lo < hi then
        (let mid = lo + (hi - lo - 1) div 2; r = cmp_p (d ! mid) in
         if r > 0 then bsearch_loop cmp_p d (mid + 1) hi
         else if r < 0 then bsearch_loop cmp_p d lo mid
         else if hi - lo = 1 then Some mid
         else bsearch_loop cmp_p d lo (mid + 1))
      else None)"
  by pat_completeness auto
termination
  by (relation "measure (\<lambda>(cmp_p, d, lo, hi). hi - lo)") auto

declare bsearch_loop.simps [simp del]

text \<open>\<open>None\<close> is the return value 0; \<open>Some i\<close> is 1 with the index in \<^verbatim>\<open>*out_index\<close>.\<close>

definition sk_find :: "('f \<Rightarrow> 'a option \<Rightarrow> 'a option \<Rightarrow> int) \<Rightarrow> ('a, 'f) STACK option \<Rightarrow> 'a option \<Rightarrow> nat option" where
  "sk_find call_cmp sk p =
     (case sk of
        None \<Rightarrow> None
      | Some s \<Rightarrow>
          (case comp s of
             None \<Rightarrow> scan_loop (\<lambda>x. x = p) (data s) 0 (num s)
           | Some f \<Rightarrow>
               (if p = None then None
                else if \<not> sk_is_sorted sk then scan_loop (\<lambda>x. call_cmp f p x = 0) (data s) 0 (num s)
                else bsearch_loop (call_cmp f p) (data s) 0 (num s))))"

definition sk_shift :: "('a, 'f) STACK option \<Rightarrow> 'a option \<times> ('a, 'f) STACK option" where
  "sk_shift sk =
     (case sk of None \<Rightarrow> (None, None) | Some s \<Rightarrow> if num s = 0 then (None, sk) else sk_delete sk 0)"

text \<open>\<^verbatim>\<open>sk_push\<close> reads \<^verbatim>\<open>sk->num\<close> first: its stack is not NULL.\<close>

definition sk_push :: "sys_alloc \<Rightarrow> (nat \<Rightarrow> 'a option) \<Rightarrow> ('a, 'f) STACK \<Rightarrow> 'a option
    \<Rightarrow> nat \<times> ('a, 'f) STACK option" where
  "sk_push a junk s p = sk_insert a junk (Some s) p (num s)"

definition sk_pop :: "('a, 'f) STACK option \<Rightarrow> 'a option \<times> ('a, 'f) STACK option" where
  "sk_pop sk =
     (case sk of None \<Rightarrow> (None, None) | Some s \<Rightarrow> if num s = 0 then (None, sk) else sk_delete sk (num s - 1))"

definition sk_dup :: "sys_alloc \<Rightarrow> (nat \<Rightarrow> 'a option) \<Rightarrow> ('a, 'f) STACK option \<Rightarrow> ('a, 'f) STACK option" where
  "sk_dup a junk sk =
     (case sk of
        None \<Rightarrow> None
      | Some s \<Rightarrow>
          (case OPENSSL_malloc a 40 of
             None \<Rightarrow> None
           | Some _ \<Rightarrow>
               (case malloc_ptrs a junk ((8 * num_alloc s) mod SIZE_LIMIT) of
                  None \<Rightarrow> None
                | Some d \<Rightarrow>
                    Some \<lparr>num = num s, data = mem_write 0 (take (num s) (data s)) d, sorted_flag = sorted_flag s,
                          num_alloc = num_alloc s, comp = comp s\<rparr>)))"

definition sk_sort :: "'a option qsort \<Rightarrow> ('f \<Rightarrow> 'a option \<Rightarrow> 'a option \<Rightarrow> int) \<Rightarrow> ('a, 'f) STACK option
    \<Rightarrow> ('a, 'f) STACK option" where
  "sk_sort qsort call_cmp sk =
     (case sk of
        None \<Rightarrow> None
      | Some s \<Rightarrow>
          (case comp s of
             None \<Rightarrow> sk
           | Some f \<Rightarrow>
               (if sorted_flag s then sk
                else Some (s\<lparr>data := (if num s \<ge> 2 then mem_write 0 (qsort (call_cmp f) (take (num s) (data s))) (data s)
                                      else data s),
                             sorted_flag := True\<rparr>))))"

definition sk_set_cmp_func :: "('a, 'f) STACK \<Rightarrow> 'f option \<Rightarrow> 'f option \<times> ('a, 'f) STACK" where
  "sk_set_cmp_func s f =
     (comp s, s\<lparr>sorted_flag := (if comp s \<noteq> f then False else sorted_flag s), comp := f\<rparr>)"

text \<open>
  The copy loop: on success the copied cells, on failure the pointers freed again. \<open>copy\<close> calls
  \<^verbatim>\<open>copy_func\<close>; NULL from it is a failure.
\<close>

function deep_copy_loop :: "('a \<Rightarrow> 'a option) \<Rightarrow> 'a option list \<Rightarrow> nat \<Rightarrow> nat \<Rightarrow> 'a list + 'a option list" where
  "deep_copy_loop copy d i n =
     (if i < n then
        (case d ! i of
           None \<Rightarrow> deep_copy_loop copy d (i + 1) n
         | Some p \<Rightarrow>
             (case copy p of
                None \<Rightarrow> Inl (concat (map (\<lambda>j. case d ! j of None \<Rightarrow> [] | Some q \<Rightarrow> [q]) [0..<i]))
              | Some q \<Rightarrow> deep_copy_loop copy (d[i := Some q]) (i + 1) n))
      else Inr d)"
  by pat_completeness auto
termination
  by (relation "measure (\<lambda>(copy, d, i, n). n - i)") auto

declare deep_copy_loop.simps [simp del]

definition sk_deep_copy :: "sys_alloc \<Rightarrow> (nat \<Rightarrow> 'a option) \<Rightarrow> ('a \<Rightarrow> 'a option) \<Rightarrow> ('a, 'f) STACK option
    \<Rightarrow> ('a, 'f) STACK option \<times> 'a list" where
  "sk_deep_copy a junk copy sk =
     (case sk_dup a junk sk of
        None \<Rightarrow> (None, [])
      | Some r \<Rightarrow>
          (case deep_copy_loop copy (data r) 0 (num r) of
             Inl freed \<Rightarrow> (None, freed)
           | Inr d \<Rightarrow> (Some (r\<lparr>data := d\<rparr>), [])))"

section \<open>Searching\<close>

fun first_index :: "('a \<Rightarrow> bool) \<Rightarrow> 'a list \<Rightarrow> nat option" where
  "first_index P [] = None"
| "first_index P (x # xs) = (if P x then Some 0 else map_option Suc (first_index P xs))"

text \<open>A search is right if what it finds is the first match and it only fails without any.\<close>

definition finds_first :: "('a \<Rightarrow> bool) \<Rightarrow> 'a list \<Rightarrow> nat option \<Rightarrow> bool" where
  "finds_first P xs r \<longleftrightarrow>
     (case r of Some i \<Rightarrow> i < length xs \<and> P (xs ! i) \<and> (\<forall>j<i. \<not> P (xs ! j))
      | None \<Rightarrow> \<forall>i<length xs. \<not> P (xs ! i))"

lemma first_index_finds: "finds_first P xs (first_index P xs)"
proof (induction xs)
  case (Cons x xs)
  then show ?case
    by (cases "first_index P xs") (auto simp: finds_first_def nth_Cons split: nat.splits)
qed (simp add: finds_first_def)

lemma finds_first_unique: "finds_first P xs r \<Longrightarrow> finds_first P xs r' \<Longrightarrow> r = r'"
  by (auto simp: finds_first_def split: option.splits) (meson linorder_neqE_nat)

lemma finds_first_iff: "finds_first P xs r \<longleftrightarrow> r = first_index P xs"
  using first_index_finds finds_first_unique by blast

lemma scan_loop_first:
  assumes "\<forall>j<i. \<not> P (d ! j)" and "n \<le> length d"
  shows "scan_loop P d i n = first_index P (take n d)"
  unfolding finds_first_iff [symmetric] using assms
proof (induction P d i n rule: scan_loop.induct)
  case (1 P d i n)
  show ?case
    using 1 by (subst scan_loop.simps) (auto simp: finds_first_def less_Suc_eq)
qed

text \<open>
  The invariant of the binary search: everything below \<open>lo\<close> is too small, and either everything
  from \<open>hi\<close> on is too large or the element just below \<open>hi\<close> matches.
\<close>

lemma bsearch_loop_first:
  assumes c: "comparator cmp" and asc: "ascending cmp xs"
    and "lo \<le> hi" "hi \<le> length xs" and "\<forall>i<lo. 0 < cmp p (xs ! i)"
    and "(\<forall>i<length xs. hi \<le> i \<longrightarrow> cmp p (xs ! i) < 0) \<or> (lo < hi \<and> cmp p (xs ! (hi - 1)) = 0)"
  shows "finds_first (\<lambda>x. cmp p x = 0) xs (bsearch_loop (cmp p) xs lo hi)"
  using assms(2-)
proof (induction "cmp p" xs lo hi rule: bsearch_loop.induct)
  case (1 xs lo hi)
  let ?mid = "lo + (hi - lo - 1) div 2"
  show ?case
  proof (cases "lo < hi")
    case False
    with 1 show ?thesis
      by (subst bsearch_loop.simps) (force simp: finds_first_def not_less)
  next
    case True
    have m: "lo \<le> ?mid" "?mid < hi" "hi - lo \<noteq> 1 \<Longrightarrow> ?mid + 1 < hi" using True by linarith+
    have le: "cmp (xs ! i) (xs ! j) \<le> 0" if "i \<le> j" "j < length xs" for i j
      using ascending_nth [OF c "1.prems"(1) that] .
    have up: "cmp p (xs ! j) < 0" if "cmp p (xs ! ?mid) < 0" "?mid \<le> j" "j < length xs" for j
      using comparator.less_le_trans [OF c that(1) le [OF that(2,3)]] .
    have down: "0 < cmp p (xs ! i)" if "0 < cmp p (xs ! ?mid)" "i \<le> ?mid" for i
      using comparator.le_less_trans [OF c le [OF that(2)], of p] that(1) m(2) "1.prems"(3)
      by (simp add: comparator.flip_less [OF c])
    have step: "bsearch_loop (cmp p) xs lo hi =
        (if cmp p (xs ! ?mid) > 0 then bsearch_loop (cmp p) xs (?mid + 1) hi
         else if cmp p (xs ! ?mid) < 0 then bsearch_loop (cmp p) xs lo ?mid
         else if hi - lo = 1 then Some ?mid else bsearch_loop (cmp p) xs lo (?mid + 1))"
      using True by (subst bsearch_loop.simps) (simp add: Let_def)
    consider (low) "cmp p (xs ! ?mid) > 0" | (high) "cmp p (xs ! ?mid) < 0"
      | (one) "cmp p (xs ! ?mid) = 0" "hi - lo = 1" | (more) "cmp p (xs ! ?mid) = 0" "hi - lo \<noteq> 1"
      by linarith
    then show ?thesis
    proof cases
      case low
      have "?mid \<noteq> hi - 1" if "cmp p (xs ! (hi - 1)) = 0" using that low by (metis less_irrefl)
      then have "lo < hi \<and> cmp p (xs ! (hi - 1)) = 0 \<Longrightarrow> ?mid + 1 < hi" using m(2) by fastforce
      then show ?thesis
        unfolding step using low "1.hyps"(1) [OF True refl refl low] "1.prems" m(2) down [OF low]
        by (auto simp: less_Suc_eq_le)
    next
      case high
      then have h: "\<not> 0 < cmp p (xs ! ?mid)" by simp
      have "\<forall>i<length xs. ?mid \<le> i \<longrightarrow> cmp p (xs ! i) < 0" using up [OF high] by blast
      then show ?thesis
        unfolding step if_not_P [OF h] if_P [OF high]
        using "1.hyps"(2) [OF True refl refl h high] "1.prems" m(1,2) by simp
    next
      case one
      then have "?mid = lo" by simp
      then show ?thesis
        unfolding step using one "1.prems" m(2) by (auto simp: finds_first_def)
    next
      case more
      then show ?thesis
        unfolding step using "1.hyps"(3) [OF True refl refl] "1.prems" m by auto
    qed
  qed
qed

lemma bsearch_loop_take: "hi \<le> n \<Longrightarrow> bsearch_loop c (take n d) lo hi = bsearch_loop c d lo hi"
proof (induction c d lo hi rule: bsearch_loop.induct)
  case (1 c d lo hi)
  let ?mid = "lo + (hi - lo - 1) div 2"
  show ?case
  proof (cases "lo < hi")
    case True
    then have "?mid < n" "?mid + 1 \<le> n" using "1.prems" by linarith+
    then show ?thesis
      using 1 True by (subst (1 2) bsearch_loop.simps) (simp add: Let_def)
  next
    case False
    then show ?thesis by (subst (1 2) bsearch_loop.simps) simp
  qed
qed

section \<open>The stack as a list\<close>

definition sk_wf :: "('a, 'f) STACK \<Rightarrow> bool" where
  "sk_wf s \<longleftrightarrow> num s \<le> num_alloc s \<and> length (data s) = num_alloc s \<and> num_alloc s * 8 < SIZE_LIMIT
     \<and> kMinSize \<le> num_alloc s"

definition sk_list :: "('a, 'f) STACK \<Rightarrow> 'a option list" where
  "sk_list s = take (num s) (data s)"

lemma length_sk_list: "sk_wf s \<Longrightarrow> length (sk_list s) = num s"
  by (simp add: sk_wf_def sk_list_def)

lemma sk_wf_num: "sk_wf s \<Longrightarrow> num s < 2 ^ 61"
  by (simp add: sk_wf_def)

lemma not_grow_overflows: "\<not> grow_overflows n old \<Longrightarrow> old \<le> n \<and> n * 8 < SIZE_LIMIT"
proof -
  assume "\<not> grow_overflows n old"
  then have "old \<le> n" "(n * 8) mod SIZE_LIMIT div 8 = n" by (auto simp: grow_overflows_def)
  moreover have "(n * 8) mod SIZE_LIMIT div 8 < 2 ^ 61" by (simp add: less_mult_imp_div_less)
  ultimately show ?thesis by simp
qed

lemma grow_overflows_small: "old \<le> n \<Longrightarrow> n * 8 < SIZE_LIMIT \<Longrightarrow> \<not> grow_overflows n old"
  by (simp add: grow_overflows_def)

lemma realloc_ptrs_Some:
  assumes "realloc_ptrs a junk d (n * 8) = Some d'" and "length d \<le> n"
  shows "length d' = n \<and> take (length d) d' = d"
  using assms by (auto simp: realloc_ptrs_def malloc_ptrs_def split: option.splits if_splits)

lemma sk_grow_keeps:
  assumes wf: "sk_wf s" and g: "sk_grow a junk s = Some s'"
  shows "sk_wf s'" and "sk_list s' = sk_list s" and "num s' = num s" and "comp s' = comp s" and "num s' < num_alloc s'"
proof -
  have n: "(num s + 1) mod SIZE_LIMIT = num s + 1" using sk_wf_num [OF wf] by simp
  have "sk_wf s' \<and> sk_list s' = sk_list s \<and> num s' = num s \<and> comp s' = comp s \<and> num s' < num_alloc s'"
  proof (cases "num_alloc s \<le> num s + 1")
    case False
    then show ?thesis using g wf n by (simp add: sk_grow_def)
  next
    case True
    let ?dbl = "(num_alloc s * 2) mod SIZE_LIMIT"
    define na where "na = (if grow_overflows ?dbl (num_alloc s) then (num_alloc s + 1) mod SIZE_LIMIT else ?dbl)"
    have lim: "num_alloc s < 2 ^ 61" "4 \<le> num_alloc s" using wf by (simp_all add: sk_wf_def kMinSize_def)
    obtain d where d: "\<not> grow_overflows na (num_alloc s)" "realloc_ptrs a junk (data s) ((na * 8) mod SIZE_LIMIT) = Some d"
        "s' = s\<lparr>data := d, num_alloc := na\<rparr>"
      using g True n unfolding sk_grow_def Let_def na_def [symmetric]
      by (auto split: if_splits option.splits)
    have na: "num_alloc s \<le> na" "na * 8 < SIZE_LIMIT" using not_grow_overflows [OF d(1)] by auto
    have "na \<noteq> num_alloc s" unfolding na_def using lim by auto
    then have lt: "num_alloc s < na" using na(1) by simp
    have l: "length (data s) = num_alloc s" "num s \<le> num_alloc s" using wf by (auto simp: sk_wf_def)
    have "length d = na \<and> take (length (data s)) d = data s"
      using realloc_ptrs_Some [of a junk "data s" na d] d(2) na l by simp
    moreover from this have "take (num s) d = take (num s) (data s)"
      using l by (metis min.absorb1 take_take)
    ultimately show ?thesis using d(3) lt l na lim by (simp add: sk_wf_def sk_list_def kMinSize_def)
  qed
  then show "sk_wf s'" "sk_list s' = sk_list s" "num s' = num s" "comp s' = comp s" "num s' < num_alloc s'" by auto
qed

lemma sk_grow_ok:
  assumes wf: "sk_wf s" and ok: "never_fails a" and small: "num s < 2 ^ 59"
  shows "sk_grow a junk s \<noteq> None"
proof -
  have n: "(num s + 1) mod SIZE_LIMIT = num s + 1" using small by simp
  show ?thesis
  proof (cases "num_alloc s \<le> num s + 1")
    case False
    then show ?thesis using n by (simp add: sk_grow_def)
  next
    case True
    then have l: "num_alloc s \<le> 2 ^ 59" using small by simp
    then have d: "(num_alloc s * 2) mod SIZE_LIMIT = num_alloc s * 2" "16 * num_alloc s + 8 < SIZE_LIMIT"
        "\<not> grow_overflows (num_alloc s * 2) (num_alloc s)"
      by (simp_all add: grow_overflows_def)
    have "OPENSSL_malloc a (16 * num_alloc s) \<noteq> None" using OPENSSL_malloc_ok [OF ok d(2)] by auto
    then show ?thesis using True n d by (simp add: sk_grow_def Let_def realloc_ptrs_def malloc_ptrs_def)
  qed
qed

lemma sk_insert_spec:
  assumes wf: "sk_wf s" and ins: "sk_insert a junk (Some s) p w = (r, sk')"
  shows "(r = 0 \<and> sk' = Some s \<and> sk_grow a junk s = None) \<or>
    (\<exists>s'. sk' = Some s' \<and> sk_wf s' \<and> r = num s + 1 \<and> sk_list s' = take w (sk_list s) @ p # drop w (sk_list s)
      \<and> comp s' = comp s \<and> \<not> sorted_flag s')"
proof (cases "sk_grow a junk s")
  case None
  then show ?thesis using ins by (simp add: sk_insert_def)
next
  case (Some t)
  note g = sk_grow_keeps [OF wf Some]
  have l: "length (data t) = num_alloc t" "num t < length (data t)" "num t < 2 ^ 61" "num t * 8 < SIZE_LIMIT"
    using g(1,5) by (auto simp: sk_wf_def)
  define e where "e = (if w \<ge> num t then (data t)[num t := p]
      else (mem_write (w + 1) (take (num t - w) (drop w (data t))) (data t))[w := p])"
  let ?s' = "t\<lparr>data := e, num := num t + 1, sorted_flag := False\<rparr>"
  have d: "length e = length (data t) \<and> take (num t + 1) e = take w (sk_list t) @ p # drop w (sk_list t)"
  proof (cases "w \<ge> num t")
    case True
    then show ?thesis using l by (simp add: e_def sk_list_def take_Suc_conv_app_nth)
  next
    case False
    have "drop w (data t) = data t ! w # drop (w + 1) (data t)" using False l by (simp add: Cons_nth_drop_Suc)
    let ?m = "take (num t - w) (drop w (data t))"
    have lm: "length ?m = num t - w" using False l by simp
    have "mem_write (w + 1) ?m (data t) = take w (data t) @ data t ! w # ?m @ drop (num t + 1) (data t)"
      using False l lm by (simp add: mem_write_def take_Suc_conv_app_nth)
    then have "(mem_write (w + 1) ?m (data t))[w := p] = take w (data t) @ p # ?m @ drop (num t + 1) (data t)"
      using False l by (simp add: list_update_append)
    moreover have "Suc (num t) - w = Suc (num t - w)" using False by simp
    ultimately show ?thesis using False l lm by (simp add: e_def sk_list_def drop_take min_def)
  qed
  have "r = num t + 1" "sk' = Some ?s'"
    using ins Some l(3) by (auto simp: sk_insert_def e_def Let_def)
  moreover have "sk_list ?s' = take w (sk_list s) @ p # drop w (sk_list s)"
    unfolding sk_list_def [of ?s'] using d g(2) by simp
  moreover have "sk_wf ?s'" using d g(1) l by (simp add: sk_wf_def)
  ultimately show ?thesis using g(3,4) by auto
qed

lemma sk_delete_spec:
  assumes wf: "sk_wf s" and del: "sk_delete (Some s) w = (r, sk')"
  shows "(num s \<le> w \<and> r = None \<and> sk' = Some s) \<or>
    (\<exists>s'. w < num s \<and> sk' = Some s' \<and> sk_wf s' \<and> r = sk_list s ! w
      \<and> sk_list s' = take w (sk_list s) @ drop (Suc w) (sk_list s) \<and> comp s' = comp s \<and> sorted_flag s' = sorted_flag s)"
proof (cases "num s \<le> w")
  case True
  then show ?thesis using del by (simp add: sk_delete_def)
next
  case False
  have l: "length (data s) = num_alloc s" "num s \<le> length (data s)" using wf by (auto simp: sk_wf_def)
  let ?d = "if w \<noteq> num s - 1 then mem_write w (take (num s - w - 1) (drop (w + 1) (data s))) (data s) else data s"
  have "length ?d = length (data s) \<and> take (num s - 1) ?d = take w (sk_list s) @ drop (Suc w) (sk_list s)"
  proof (cases "w = num s - 1")
    case True
    then show ?thesis using False by (simp add: sk_list_def min_def)
  next
    case neq: False
    have "w + length (take (num s - w - 1) (drop (w + 1) (data s))) = num s - 1" using False l neq by simp
    then show ?thesis
      using False l neq take_mem_write [of w "take (num s - w - 1) (drop (w + 1) (data s))" "data s"]
      by (simp add: sk_list_def drop_take min_def)
  qed
  then show ?thesis using del False wf l by (auto simp: sk_delete_def Let_def sk_wf_def sk_list_def)
qed

section \<open>Histories of operations\<close>

datatype ('a, 'f) sk_op =
    Insert "'a option" nat | Push "'a option" | SetAt nat "'a option" | Delete nat | DeletePtr "'a option"
  | Shift | Pop | Zero | Value nat | Find "'a option" | Sort | SetCmp "'f option" | Num

datatype ('a, 'f) sk_result =
  RNum nat | RPtr "'a option" | RIndex "nat option" | RCmp "'f option" | RUnit

fun sk_step :: "sys_alloc \<Rightarrow> (nat \<Rightarrow> 'a option) \<Rightarrow> 'a option qsort \<Rightarrow> ('f \<Rightarrow> 'a option \<Rightarrow> 'a option \<Rightarrow> int)
    \<Rightarrow> ('a, 'f) sk_op \<Rightarrow> ('a, 'f) STACK \<Rightarrow> ('a, 'f) sk_result \<times> ('a, 'f) STACK" where
  "sk_step a junk qsort call_cmp (Insert p w) s = map_prod RNum the (sk_insert a junk (Some s) p w)"
| "sk_step a junk qsort call_cmp (Push p) s = map_prod RNum the (sk_push a junk s p)"
| "sk_step a junk qsort call_cmp (SetAt i v) s = map_prod RPtr the (sk_set (Some s) i v)"
| "sk_step a junk qsort call_cmp (Delete w) s = map_prod RPtr the (sk_delete (Some s) w)"
| "sk_step a junk qsort call_cmp (DeletePtr p) s = map_prod RPtr the (sk_delete_ptr (Some s) p)"
| "sk_step a junk qsort call_cmp Shift s = map_prod RPtr the (sk_shift (Some s))"
| "sk_step a junk qsort call_cmp Pop s = map_prod RPtr the (sk_pop (Some s))"
| "sk_step a junk qsort call_cmp Zero s = (RUnit, the (sk_zero (Some s)))"
| "sk_step a junk qsort call_cmp (Value i) s = (RPtr (sk_value (Some s) i), s)"
| "sk_step a junk qsort call_cmp (Find p) s = (RIndex (sk_find call_cmp (Some s) p), s)"
| "sk_step a junk qsort call_cmp Sort s = (RUnit, the (sk_sort qsort call_cmp (Some s)))"
| "sk_step a junk qsort call_cmp (SetCmp f) s = map_prod RCmp id (sk_set_cmp_func s f)"
| "sk_step a junk qsort call_cmp Num s = (RNum (sk_num (Some s)), s)"

text \<open>The abstract state: the elements, the comparison function and the sorted mark.\<close>

type_synonym ('a, 'f) sk_abs = "'a option list \<times> 'f option \<times> bool"

definition sk_abs :: "('a, 'f) STACK \<Rightarrow> ('a, 'f) sk_abs" where
  "sk_abs s = (sk_list s, comp s, sorted_flag s)"

definition removes :: "nat \<Rightarrow> ('a, 'f) sk_abs \<Rightarrow> ('a, 'f) sk_result \<Rightarrow> ('a, 'f) sk_abs \<Rightarrow> bool" where
  "removes i x r x' \<longleftrightarrow>
     (case x of (l, c, srt) \<Rightarrow>
        if i < length l then r = RPtr (l ! i) \<and> x' = (take i l @ drop (Suc i) l, c, srt)
        else r = RPtr None \<and> x' = x)"

fun sk_spec :: "('f \<Rightarrow> 'a option \<Rightarrow> 'a option \<Rightarrow> int)
    \<Rightarrow> ('a, 'f) sk_op \<Rightarrow> ('a, 'f) sk_abs \<Rightarrow> ('a, 'f) sk_result \<Rightarrow> ('a, 'f) sk_abs \<Rightarrow> bool" where
  "sk_spec call_cmp (Insert p w) (l, c, srt) r x \<longleftrightarrow>
     (r = RNum 0 \<and> x = (l, c, srt)) \<or> (r = RNum (length l + 1) \<and> x = (take w l @ p # drop w l, c, False))"
| "sk_spec call_cmp (Push p) (l, c, srt) r x \<longleftrightarrow>
     (r = RNum 0 \<and> x = (l, c, srt)) \<or> (r = RNum (length l + 1) \<and> x = (l @ [p], c, False))"
| "sk_spec call_cmp (SetAt i v) (l, c, srt) r x \<longleftrightarrow>
     (if i < length l then r = RPtr v \<and> x = (l[i := v], c, srt) else r = RPtr None \<and> x = (l, c, srt))"
| "sk_spec call_cmp (Delete i) y r x \<longleftrightarrow> removes i y r x"
| "sk_spec call_cmp (DeletePtr p) (l, c, srt) r x \<longleftrightarrow>
     (case first_index (\<lambda>q. q = p) l of
        None \<Rightarrow> r = RPtr None \<and> x = (l, c, srt) | Some i \<Rightarrow> removes i (l, c, srt) r x)"
| "sk_spec call_cmp Shift y r x \<longleftrightarrow> removes 0 y r x"
| "sk_spec call_cmp Pop (l, c, srt) r x \<longleftrightarrow> removes (length l - 1) (l, c, srt) r x"
| "sk_spec call_cmp Zero (l, c, srt) r x \<longleftrightarrow> r = RUnit \<and> x = ([], c, srt \<and> l = [])"
| "sk_spec call_cmp (Value i) (l, c, srt) r x \<longleftrightarrow>
     r = RPtr (if i < length l then l ! i else None) \<and> x = (l, c, srt)"
| "sk_spec call_cmp (Find p) (l, c, srt) r x \<longleftrightarrow> x = (l, c, srt) \<and>
     (case c of
        None \<Rightarrow> r = RIndex (first_index (\<lambda>q. q = p) l)
      | Some f \<Rightarrow>
          if p = None then r = RIndex None
          else srt \<and> \<not> ascending (call_cmp f) l \<or> r = RIndex (first_index (\<lambda>q. call_cmp f p q = 0) l))"
| "sk_spec call_cmp Sort (l, c, srt) r x \<longleftrightarrow> r = RUnit \<and>
     (case c of
        None \<Rightarrow> x = (l, c, srt)
      | Some f \<Rightarrow> if srt then x = (l, c, srt)
                  else \<exists>l'. x = (l', c, True) \<and> mset l' = mset l \<and> ascending (call_cmp f) l')"
| "sk_spec call_cmp (SetCmp f) (l, c, srt) r x \<longleftrightarrow> r = RCmp c \<and> x = (l, f, srt \<and> c = f)"
| "sk_spec call_cmp Num (l, c, srt) r x \<longleftrightarrow> r = RNum (length l) \<and> x = (l, c, srt)"

definition stack_env :: "'a option qsort \<Rightarrow> ('f \<Rightarrow> 'a option \<Rightarrow> 'a option \<Rightarrow> int) \<Rightarrow> bool" where
  "stack_env qsort call_cmp \<longleftrightarrow> qsort_ok qsort \<and> (\<forall>f. comparator_ok (call_cmp f))"

definition sk_inv :: "'a option qsort \<Rightarrow> ('f \<Rightarrow> 'a option \<Rightarrow> 'a option \<Rightarrow> int) \<Rightarrow> ('a, 'f) STACK \<Rightarrow> bool" where
  "sk_inv qsort call_cmp s \<longleftrightarrow> sk_wf s \<and> stack_env qsort call_cmp"

lemma sk_delete_removes:
  assumes "sk_wf s" and "map_prod RPtr the (sk_delete (Some s) i) = (r, s')"
  shows "sk_wf s' \<and> removes i (sk_abs s) r (sk_abs s')"
proof -
  obtain q sk' where "sk_delete (Some s) i = (q, sk')" by fastforce
  then show ?thesis
    using sk_delete_spec [OF assms(1)] assms length_sk_list [OF assms(1)]
    by (fastforce simp: removes_def sk_abs_def)
qed

lemma sk_insert_inserts:
  assumes "sk_wf s" and "map_prod RNum the (sk_insert a junk (Some s) p w) = (r, s')"
  shows "sk_wf s' \<and> sk_spec call_cmp (Insert p w) (sk_abs s) r (sk_abs s')"
proof -
  obtain q sk' where "sk_insert a junk (Some s) p w = (q, sk')" by fastforce
  then show ?thesis
    using sk_insert_spec [OF assms(1)] assms length_sk_list [OF assms(1)]
    by (fastforce simp: sk_abs_def)
qed

lemma sk_find_first:
  assumes "sk_wf s" and "\<And>f. comparator_ok (call_cmp f)"
  shows "sk_spec call_cmp (Find p) (sk_abs s) (RIndex (sk_find call_cmp (Some s) p)) (sk_abs s)"
proof -
  have l: "num s \<le> length (data s)" using assms(1) by (auto simp: sk_wf_def)
  have scan: "scan_loop P (data s) 0 (num s) = first_index P (sk_list s)" for P
    using scan_loop_first [of 0 P "data s" "num s"] l by (simp add: sk_list_def)
  have bs: "bsearch_loop (call_cmp f p) (data s) 0 (num s) = bsearch_loop (call_cmp f p) (sk_list s) 0 (num s)" for f
    using bsearch_loop_take [of "num s" "num s" "call_cmp f p" "data s" 0] by (simp add: sk_list_def)
  have "bsearch_loop (call_cmp f p) (sk_list s) 0 (num s) = first_index (\<lambda>q. call_cmp f p q = 0) (sk_list s)"
    if "ascending (call_cmp f) (sk_list s)" for f
    using bsearch_loop_first [of "call_cmp f" "sk_list s" 0 "num s" p] that assms l length_sk_list [OF assms(1)]
    by (simp add: finds_first_iff comparator_ok_iff)
  then show ?thesis
    by (auto simp: sk_find_def sk_abs_def scan bs sk_is_sorted_def split: option.splits)
qed

lemma sk_sort_sorts:
  assumes "sk_wf s" and "qsort_ok qsort" and "\<And>f. comparator_ok (call_cmp f)"
  obtains s' where "sk_sort qsort call_cmp (Some s) = Some s'" and "sk_wf s'"
    and "sk_spec call_cmp Sort (sk_abs s) RUnit (sk_abs s')"
proof (cases "comp s = None \<or> sorted_flag s")
  case True
  then show thesis using assms(1) by (intro that [of s]) (auto simp: sk_sort_def sk_abs_def split: option.splits)
next
  case False
  then obtain f where f: "comp s = Some f" "\<not> sorted_flag s" by auto
  have l: "num s \<le> length (data s)" using assms(1) by (auto simp: sk_wf_def)
  let ?q = "qsort (call_cmp f) (sk_list s)"
  let ?d = "if num s \<ge> 2 then mem_write 0 ?q (data s) else data s"
  have q: "length ?q = num s" using qsort_ok_length [OF assms(2)] length_sk_list [OF assms(1)] by simp
  have "take (num s) (mem_write 0 ?q (data s)) = ?q" using take_mem_write [of 0 ?q "data s"] q l by simp
  then have t: "length ?d = length (data s)" "take (num s) ?d = (if num s \<ge> 2 then ?q else sk_list s)"
    using q l by (simp_all add: sk_list_def)
  let ?s' = "s\<lparr>data := ?d, sorted_flag := True\<rparr>"
  have "sk_sort qsort call_cmp (Some s) = Some ?s'" using f by (simp add: sk_sort_def sk_list_def)
  moreover have "sk_wf ?s'" using assms(1) t(1) by (simp add: sk_wf_def)
  moreover have "sk_list ?s' = (if num s \<ge> 2 then ?q else sk_list s)" using t(2) by (simp add: sk_list_def)
  ultimately show thesis
    using that [of ?s'] f qsort_ok_mset [OF assms(2)] qsort_ok_ascending [OF assms(2,3)]
      ascending_short [of "sk_list s"] length_sk_list [OF assms(1)]
    by (auto simp: sk_abs_def)
qed

lemma sk_step_refines:
  assumes "sk_inv qsort call_cmp s" and "sk_step a junk qsort call_cmp op s = (r, s')"
  shows "sk_inv qsort call_cmp s' \<and> sk_spec call_cmp op (sk_abs s) r (sk_abs s')"
proof -
  have wf: "sk_wf s" and env: "qsort_ok qsort" "\<And>f. comparator_ok (call_cmp f)" and E: "stack_env qsort call_cmp"
    using assms(1) by (auto simp: sk_inv_def stack_env_def)
  have l: "length (sk_list s) = num s" "num s \<le> length (data s)" using wf by (auto simp: length_sk_list sk_wf_def)
  have scan: "scan_loop P (data s) 0 (num s) = first_index P (sk_list s)" for P
    using scan_loop_first [of 0 P "data s" "num s"] l by (simp add: sk_list_def)
  have "sk_wf s' \<and> sk_spec call_cmp op (sk_abs s) r (sk_abs s')"
  proof (cases op)
    case (Insert p w)
    then show ?thesis using assms(2) sk_insert_inserts [OF wf] by simp
  next
    case (Push p)
    have "sk_wf s' \<and> sk_spec call_cmp (Insert p (num s)) (sk_abs s) r (sk_abs s')"
      using Push assms(2) sk_insert_inserts [OF wf] by (simp add: sk_push_def)
    then show ?thesis using Push l by (simp add: sk_abs_def)
  next
    case (SetAt i v)
    have "take (num s) ((data s)[i := v]) = (sk_list s)[i := v]" by (simp add: sk_list_def take_update_swap)
    then show ?thesis using SetAt assms(2) wf l
      by (auto simp: sk_set_def sk_abs_def sk_wf_def sk_list_def [of "s\<lparr>data := (data s)[i := v]\<rparr>"])
  next
    case (Delete i)
    then show ?thesis using assms(2) sk_delete_removes [OF wf] by simp
  next
    case (DeletePtr p)
    show ?thesis
    proof (cases "first_index (\<lambda>q. q = p) (sk_list s)")
      case None
      then show ?thesis using DeletePtr assms(2) wf by (auto simp: sk_delete_ptr_def scan sk_abs_def)
    next
      case (Some i)
      then show ?thesis using DeletePtr assms(2) sk_delete_removes [OF wf, of i r s']
        by (simp add: sk_delete_ptr_def scan sk_abs_def)
    qed
  next
    case Shift
    then show ?thesis using assms(2) wf l sk_delete_removes [OF wf, of 0 r s']
      by (auto simp: sk_shift_def sk_abs_def removes_def split: if_splits)
  next
    case Pop
    then show ?thesis using assms(2) wf l sk_delete_removes [OF wf, of "num s - 1" r s']
      by (auto simp: sk_pop_def sk_abs_def removes_def split: if_splits)
  next
    case Zero
    then show ?thesis using assms(2) wf l
      by (cases "num s = 0") (auto simp: sk_zero_def sk_abs_def sk_wf_def sk_list_def)
  next
    case (Value i)
    then show ?thesis using assms(2) wf l by (auto simp: sk_value_def sk_abs_def sk_list_def)
  next
    case (Find p)
    then show ?thesis using assms(2) wf sk_find_first [OF wf env(2)] by auto
  next
    case Sort
    obtain t where "sk_sort qsort call_cmp (Some s) = Some t" "sk_wf t" "sk_spec call_cmp Sort (sk_abs s) RUnit (sk_abs t)"
      by (rule sk_sort_sorts [OF wf env])
    then show ?thesis using Sort assms(2) by auto
  next
    case (SetCmp f)
    then show ?thesis using assms(2) wf by (auto simp: sk_set_cmp_func_def sk_abs_def sk_wf_def sk_list_def split: if_splits)
  next
    case Num
    then show ?thesis using assms(2) wf l by (auto simp: sk_num_def sk_abs_def)
  qed
  then show ?thesis using E by (simp add: sk_inv_def)
qed

interpretation stack: refinement "sk_step a junk qsort call_cmp" "sk_inv qsort call_cmp" sk_abs "sk_spec call_cmp"
  by unfold_locales (use sk_step_refines in blast)+

text \<open>Only \<open>sk_set\<close> can leave the sorted mark on a stack that is not in order.\<close>

definition honest :: "('f \<Rightarrow> 'a option \<Rightarrow> 'a option \<Rightarrow> int) \<Rightarrow> ('a, 'f) sk_abs \<Rightarrow> bool" where
  "honest call_cmp x \<longleftrightarrow>
     (case x of (l, c, srt) \<Rightarrow> \<forall>f. c = Some f \<longrightarrow> srt \<longrightarrow> ascending (call_cmp f) l)"

fun is_set :: "('a, 'f) sk_op \<Rightarrow> bool" where
  "is_set (SetAt _ _) = True"
| "is_set _ = False"

lemma removes_honest: "removes i x r x' \<Longrightarrow> honest call_cmp x \<Longrightarrow> honest call_cmp x'"
  by (auto simp: removes_def honest_def intro: ascending_delete split: if_splits)

lemma sk_spec_honest:
  assumes "sk_spec call_cmp op x r x'" and "honest call_cmp x" and "\<not> is_set op"
  shows "honest call_cmp x'"
proof (cases "\<exists>i. removes i x r x'")
  case True
  then show ?thesis using removes_honest assms(2) by blast
next
  case False
  obtain l c srt where x: "x = (l, c, srt)" by (cases x)
  have "ascending (call_cmp f) []" for f by (simp add: ascending_def)
  then show ?thesis
    using assms False unfolding x
    by (cases op) (auto simp: honest_def split: option.splits if_splits)
qed

lemma history_honest:
  "history (sk_spec call_cmp) ops x rs x' \<Longrightarrow> honest call_cmp x \<Longrightarrow> \<forall>op\<in>set ops. \<not> is_set op \<Longrightarrow> honest call_cmp x'"
  by (induction "sk_spec call_cmp" ops x rs x' rule: history.induct) (auto dest: sk_spec_honest)

lemma sk_new_inv:
  assumes "sk_new a junk c = Some s" and "stack_env qsort call_cmp"
  shows "sk_inv qsort call_cmp s" and "sk_abs s = ([], c, False)"
  using assms
  by (auto simp: sk_new_def malloc_ptrs_def sk_inv_def sk_wf_def sk_abs_def sk_list_def kMinSize_def
      split: option.splits if_splits)

text \<open>The pointers of a list of cells, without the NULLs.\<close>

definition somes :: "'a option list \<Rightarrow> 'a list" where
  "somes xs = concat (map (\<lambda>x. case x of None \<Rightarrow> [] | Some p \<Rightarrow> [p]) xs)"

definition copy_fails :: "('a \<Rightarrow> 'a option) \<Rightarrow> 'a option \<Rightarrow> bool" where
  "copy_fails copy x \<longleftrightarrow> x \<noteq> None \<and> Option.bind x copy = None"

lemma copy_fails_simps [simp]: "\<not> copy_fails copy None" "copy_fails copy (Some p) \<longleftrightarrow> copy p = None"
  by (simp_all add: copy_fails_def)

lemma somes_nth: "n \<le> length d \<Longrightarrow> concat (map (\<lambda>i. case d ! i of None \<Rightarrow> [] | Some p \<Rightarrow> [p]) [0..<n]) = somes (take n d)"
proof -
  assume "n \<le> length d"
  then have "map ((!) d) [0..<n] = take n d" by (intro nth_equalityI) auto
  then have "somes (take n d) = concat (map (\<lambda>x. case x of None \<Rightarrow> [] | Some p \<Rightarrow> [p]) (map ((!) d) [0..<n]))"
    by (simp add: somes_def)
  then show ?thesis by (simp add: o_def)
qed

lemma deep_copy_loop_spec:
  assumes "i \<le> n" "n \<le> length d"
  shows "deep_copy_loop copy d i n =
    (case first_index (copy_fails copy) (drop i (take n d)) of
       None \<Rightarrow> Inr (take i d @ map (\<lambda>x. Option.bind x copy) (drop i (take n d)) @ drop n d)
     | Some k \<Rightarrow> Inl (somes (take i d @ map (\<lambda>x. Option.bind x copy) (take k (drop i d)))))"
  using assms
proof (induction copy d i n rule: deep_copy_loop.induct)
  case (1 copy d i n)
  show ?case
  proof (cases "i < n")
    case False
    then show ?thesis using 1 by (subst deep_copy_loop.simps) simp
  next
    case True
    have c: "drop i (take n d) = d ! i # drop (Suc i) (take n d)" "drop i d = d ! i # drop (Suc i) d"
        "take (Suc i) d = take i d @ [d ! i]"
      using True "1.prems" by (simp_all add: Cons_nth_drop_Suc [symmetric] take_Suc_conv_app_nth)
    consider "d ! i = None" | p where "d ! i = Some p" "copy p = None" | p q where "d ! i = Some p" "copy p = Some q"
      by (cases "d ! i"; cases "copy (the (d ! i))") auto
    then show ?thesis
    proof cases
      case 1
      then show ?thesis using True "1.IH"(1) [OF True 1] "1.prems"
        by (subst deep_copy_loop.simps) (simp add: c split: option.splits)
    next
      case 2
      then show ?thesis using True "1.prems" somes_nth [of i d]
        by (subst deep_copy_loop.simps) (simp add: c)
    next
      case 3
      have u: "take (Suc i) (d[i := Some q]) = take i d @ [Some q]"
        "drop (Suc i) (take n (d[i := Some q])) = drop (Suc i) (take n d)"
        "drop (Suc i) (d[i := Some q]) = drop (Suc i) d" "drop n (d[i := Some q]) = drop n d"
        using True "1.prems" by (simp_all add: take_Suc_conv_app_nth take_update_swap list_update_append)
      show ?thesis using 3 True "1.IH"(2) [OF True 3] "1.prems"
        by (subst deep_copy_loop.simps) (simp add: c u split: option.splits)
    qed
  qed
qed

lemma sk_dup_copy:
  assumes "sk_wf s" and "sk_dup a junk (Some s) = Some t"
  shows "sk_wf t \<and> sk_abs t = sk_abs s"
proof -
  have n: "num_alloc s * 8 mod SIZE_LIMIT = num_alloc s * 8" "num s \<le> length (data s)" "num s \<le> num_alloc s"
    using assms(1) by (auto simp: sk_wf_def)
  obtain d where d: "t = \<lparr>num = num s, data = mem_write 0 (take (num s) (data s)) d, sorted_flag = sorted_flag s,
      num_alloc = num_alloc s, comp = comp s\<rparr>" "length d = num_alloc s"
    using assms(2) n(1) by (auto simp: sk_dup_def malloc_ptrs_def mult.commute split: option.splits if_splits)
  have "take (num s) (mem_write 0 (take (num s) (data s)) d) = take (num s) (data s)"
    using take_mem_write [of 0 "take (num s) (data s)" d] n d(2) by simp
  then show ?thesis using d n assms(1) by (simp add: sk_wf_def sk_abs_def sk_list_def)
qed

lemma sk_deep_copy_spec:
  assumes wf: "sk_wf s" and "sk_deep_copy a junk copy (Some s) = (res, freed)"
  shows "case res of
      Some t \<Rightarrow> sk_wf t \<and> freed = [] \<and> (\<forall>x\<in>set (sk_list s). \<not> copy_fails copy x)
        \<and> sk_abs t = (map (\<lambda>x. Option.bind x copy) (sk_list s), comp s, sorted_flag s)
    | None \<Rightarrow> (freed = [] \<and> sk_dup a junk (Some s) = None) \<or>
        (\<exists>k. first_index (copy_fails copy) (sk_list s) = Some k \<and>
          freed = somes (map (\<lambda>x. Option.bind x copy) (take k (sk_list s))))"
proof (cases "sk_dup a junk (Some s)")
  case None
  then show ?thesis using assms(2) by (auto simp: sk_deep_copy_def)
next
  case (Some r)
  have r: "sk_wf r" "sk_list r = sk_list s" "comp r = comp s" "sorted_flag r = sorted_flag s"
    using sk_dup_copy [OF wf Some] by (auto simp: sk_abs_def)
  have l: "num r \<le> length (data r)" using r(1) by (auto simp: sk_wf_def)
  note L = deep_copy_loop_spec [of 0 "num r" "data r" copy, folded sk_list_def, simplified, OF l]
  show ?thesis
  proof (cases "first_index (copy_fails copy) (sk_list s)")
    case None
    then have "finds_first (copy_fails copy) (sk_list s) None" by (simp add: finds_first_iff)
    then have "\<forall>x\<in>set (sk_list s). \<not> copy_fails copy x" by (auto simp: finds_first_def in_set_conv_nth)
    moreover have "length (sk_list s) = num r" using length_sk_list [OF r(1)] r(2) by simp
    moreover have "sk_list (r\<lparr>data := xs @ ys\<rparr>) = xs" if "length xs = num r" for xs ys
      using that by (simp add: sk_list_def)
    ultimately show ?thesis using assms(2) Some None L r
      by (auto simp: sk_deep_copy_def sk_abs_def sk_wf_def)
  next
    case (Some k)
    have "finds_first (copy_fails copy) (sk_list s) (Some k)" using Some by (simp add: finds_first_iff)
    then have "k < num r" using length_sk_list [OF r(1)] r(2) by (simp add: finds_first_def)
    then have "take k (data r) = take k (sk_list s)" unfolding r(2) [symmetric] by (simp add: sk_list_def min_def)
    then show ?thesis using assms(2) \<open>sk_dup a junk _ = Some r\<close> Some L r
      by (auto simp: sk_deep_copy_def)
  qed
qed

section \<open>Properties\<close>

text \<open>
  C12. A stack is a list of pointers: any history of operations on a stack from \<open>sk_new\<close>, whatever
  the allocator does, has the results and the effect of the same history on a list. An insertion
  either fails with the stack unchanged or puts the element where it was asked for, a removal
  returns the element it takes out, and memory is only accessed inside the array.
\<close>

theorem stack_refines_list:
  assumes "sk_new a junk c = Some s" and "stack_env qsort call_cmp"
    and "run (sk_step a junk qsort call_cmp) ops s = (rs, s')"
  shows "sk_wf s' \<and> history (sk_spec call_cmp) ops ([], c, False) rs (sk_abs s')"
  using stack.run_keeps [OF sk_new_inv(1) [OF assms(1,2)] assms(3)]
    stack.run_history [OF sk_new_inv(1) [OF assms(1,2)] assms(3)] sk_new_inv(2) [OF assms(1,2)]
  by (simp add: sk_inv_def)

definition int_cmp :: "unit \<Rightarrow> int option \<Rightarrow> int option \<Rightarrow> int" where
  "int_cmp _ x y = (case (x, y) of (None, None) \<Rightarrow> 0 | (None, _) \<Rightarrow> -1 | (_, None) \<Rightarrow> 1 | (Some a, Some b) \<Rightarrow> a - b)"

lemma int_cmp_env: "stack_env insertion_sort int_cmp"
  by (auto simp: stack_env_def insertion_sort_ok comparator_ok_def int_cmp_def sgn_if split: option.splits)

definition empty_stack :: "'f option \<Rightarrow> ('a, 'f) STACK" where
  "empty_stack c = \<lparr>num = 0, data = [None, None, None, None], sorted_flag = False, num_alloc = 4, comp = c\<rparr>"

lemma example_stack: "sk_new example_alloc junk c = Some (empty_stack c)"
  by (simp add: sk_new_def malloc_ptrs_def OPENSSL_malloc_def OPENSSL_MALLOC_PREFIX_def example_alloc_def
      kMinSize_def empty_stack_def upt_rec [of _ "numeral n" for n])

lemmas stack_eval = map_prod_simp sk_push_def sk_insert_def sk_grow_def empty_stack_def sk_sort_def
  insertion_sort_def mem_write_def sk_find_def sk_is_sorted_def bsearch_loop.simps int_cmp_def
  sk_set_def sk_value_def sk_abs_def sk_list_def Let_def

theorem stack_refines_list_witness:
  "history (sk_spec int_cmp) [Push (Some 7), Push (Some 3), Sort, Find (Some 7)] ([], Some (), False)
     [RNum 1, RNum 2, RUnit, RIndex (Some 1)] ([Some 3, Some 7], Some (), True)"
proof -
  obtain s' where r: "run (sk_step example_alloc (\<lambda>_. None) insertion_sort int_cmp)
      [Push (Some 7), Push (Some 3), Sort, Find (Some 7)] (empty_stack (Some ())) =
        ([RNum 1, RNum 2, RUnit, RIndex (Some 1)], s')" and a: "sk_abs s' = ([Some 3, Some 7], Some (), True)"
    by (simp add: stack_eval numeral_2_eq_2)
  show ?thesis using stack_refines_list [OF example_stack int_cmp_env r] a by simp
qed

text \<open>
  C13. \<open>sk_find\<close> returns the first element that matches, on every stack that operations other
  than \<open>sk_set\<close> can produce: whether it scans or searches the sorted array in halves, it finds a
  match exactly if there is one, and never one after the first.
\<close>

theorem sk_find_finds_first:
  assumes "sk_new a junk (Some f) = Some s" and "stack_env qsort call_cmp"
    and "run (sk_step a junk qsort call_cmp) ops s = (rs, s')" and "\<forall>op\<in>set ops. \<not> is_set op"
    and "comp s' = Some f'" and "p \<noteq> None"
  shows "case sk_find call_cmp (Some s') p of
      Some i \<Rightarrow> i < num s' \<and> call_cmp f' p (data s' ! i) = 0 \<and> (\<forall>j<i. call_cmp f' p (data s' ! j) \<noteq> 0)
    | None \<Rightarrow> \<forall>j<num s'. call_cmp f' p (data s' ! j) \<noteq> 0"
proof -
  note inv = sk_new_inv [OF assms(1,2)]
  have "history (sk_spec call_cmp) ops ([], Some f, False) rs (sk_abs s')"
    using stack.run_history [OF inv(1) assms(3)] inv(2) by simp
  then have h: "honest call_cmp (sk_abs s')"
    by (rule history_honest) (use assms(4) in \<open>auto simp: honest_def\<close>)
  have wf: "sk_wf s'" using stack.run_keeps [OF inv(1) assms(3)] by (simp add: sk_inv_def)
  have "finds_first (\<lambda>q. call_cmp f' p q = 0) (sk_list s') (sk_find call_cmp (Some s') p)"
    using sk_find_first [OF wf, of call_cmp p] assms(2,5,6) h
    by (auto simp: sk_abs_def honest_def finds_first_iff stack_env_def)
  then show ?thesis
    using length_sk_list [OF wf] by (auto simp: finds_first_def sk_list_def split: option.splits)
qed

theorem sk_find_finds_first_witness:
  "case sk_find int_cmp (Some (snd (run (sk_step example_alloc (\<lambda>_. None) insertion_sort int_cmp)
      [Push (Some 7), Push (Some 3), Sort] (empty_stack (Some ()))))) (Some 3) of
     Some i \<Rightarrow> int_cmp () (Some 3) ([Some 3, Some 7] ! i) = 0 | None \<Rightarrow> False"
proof -
  obtain s' rs where r: "run (sk_step example_alloc (\<lambda>_. None) insertion_sort int_cmp)
      [Push (Some 7), Push (Some 3), Sort] (empty_stack (Some ())) = (rs, s')"
      and d: "data s' = [Some 3, Some 7, None, None]" "num s' = 2" "comp s' = Some ()"
    by (simp add: stack_eval numeral_2_eq_2)
  have "int_cmp () (Some 3) (data s' ! 0) = 0" using d by (simp add: int_cmp_def)
  with sk_find_finds_first [OF example_stack int_cmp_env r _ d(3), of "Some 3"] show ?thesis
    unfolding r using d by (auto split: option.splits simp: less_Suc_eq numeral_eq_Suc)
qed

text \<open>
  \<open>sk_set\<close> on a sorted stack keeps the mark although the elements need no longer be in
  order: \<open>sk_find\<close> then misses an element that is in the stack, here the 0 in \<open>[1, 0]\<close>.
\<close>

theorem sk_set_keeps_stale_mark:
  "\<exists>s'. run (sk_step example_alloc (\<lambda>_. None) insertion_sort int_cmp)
      [Push (Some 1), Push (Some 2), Sort, SetAt 1 (Some 0), Value 1, Find (Some 0)] (empty_stack (Some ())) =
        ([RNum 1, RNum 2, RUnit, RPtr (Some 0), RPtr (Some 0), RIndex None], s') \<and> sk_list s' = [Some 1, Some 0]"
  by (simp add: stack_eval numeral_2_eq_2)

text \<open>
  C14. A deep copy copies everything or nothing: on success the new stack holds the copy of every
  element (and NULL for NULL) under the same comparison function and mark, and if a copy fails,
  exactly the copies made so far are freed, each once, and NULL is returned.
\<close>

theorem sk_deep_copy_all_or_nothing:
  assumes "sk_wf s" and "sk_deep_copy a junk copy (Some s) = (res, freed)"
  shows "case res of
      Some t \<Rightarrow> sk_wf t \<and> freed = [] \<and> (\<forall>x\<in>set (sk_list s). \<not> copy_fails copy x)
        \<and> sk_abs t = (map (\<lambda>x. Option.bind x copy) (sk_list s), comp s, sorted_flag s)
    | None \<Rightarrow> (freed = [] \<and> sk_dup a junk (Some s) = None) \<or>
        (\<exists>k. first_index (copy_fails copy) (sk_list s) = Some k \<and>
          freed = somes (map (\<lambda>x. Option.bind x copy) (take k (sk_list s))))"
  using sk_deep_copy_spec [OF assms] .

theorem sk_deep_copy_all_or_nothing_witness:
  "snd (sk_deep_copy example_alloc (\<lambda>_. None) (\<lambda>p. if p = 3 then None else Some (p + 10))
     (Some (\<lparr>num = 3, data = [Some 1, None, Some 3, None], sorted_flag = False, num_alloc = 4, comp = None\<rparr> ::
       (int, unit) STACK))) = [11]"
proof -
  let ?copy = "\<lambda>p :: int. if p = 3 then None else Some (p + 10)"
  let ?s = "\<lparr>num = 3, data = [Some 1, None, Some 3, None], sorted_flag = False, num_alloc = 4, comp = None\<rparr> ::
    (int, unit) STACK"
  obtain res freed where r: "sk_deep_copy example_alloc (\<lambda>_. None) ?copy (Some ?s) = (res, freed)" by fastforce
  have "sk_wf ?s" by (simp add: sk_wf_def kMinSize_def)
  note d = sk_deep_copy_all_or_nothing [OF this r]
  have "copy_fails ?copy (Some 3)" by simp
  moreover have l: "sk_list ?s = [Some 1, None, Some 3]" by (simp add: sk_list_def)
  ultimately have "res = None" using d by (auto split: option.splits)
  moreover have "sk_dup example_alloc (\<lambda>_. None) (Some ?s) \<noteq> None"
    by (simp add: sk_dup_def malloc_ptrs_def OPENSSL_malloc_def OPENSSL_MALLOC_PREFIX_def example_alloc_def)
  ultimately show ?thesis using d r l by (auto simp: somes_def numeral_2_eq_2)
qed

end
