(* ===== verification/Lhash.thy ===== *)
theory Lhash
  imports Crypto_Mem Comparison
begin

text \<open>
  \<^verbatim>\<open>crypto/lhash/lhash.c\<close>: the chained hash table. A chain is the list of its items, a
  \<^verbatim>\<open>LHASH_ITEM **\<close> into a chain is the bucket with the position in it (the position behind the last
  item is the pointer to the NULL). The function pointers \<^verbatim>\<open>hash\<close> and \<^verbatim>\<open>comp\<close> are functions on the
  caller's data, which is never NULL, so that \<open>None\<close> is a returned NULL.
\<close>

section \<open>Operations\<close>

record 'a LHASH_ITEM =
  item_data :: 'a
  item_hash :: u32

record 'a LHASH =
  num_items :: nat
  buckets :: "'a LHASH_ITEM list list"
  num_buckets :: nat
  callback_depth :: nat
  lh_comp :: "'a \<Rightarrow> 'a \<Rightarrow> int"
  lh_hash :: "'a \<Rightarrow> u32"

definition kMinNumBuckets :: nat where
  "kMinNumBuckets = 16"

definition kMaxAverageChainLength :: nat where
  "kMaxAverageChainLength = 2"

definition kMinAverageChainLength :: nat where
  "kMinAverageChainLength = 1"

definition OPENSSL_lh_new :: "sys_alloc \<Rightarrow> ('a \<Rightarrow> u32) \<Rightarrow> ('a \<Rightarrow> 'a \<Rightarrow> int) \<Rightarrow> 'a LHASH option" where
  "OPENSSL_lh_new a hash cmp =
     (case OPENSSL_malloc a 48 of
        None \<Rightarrow> None
      | Some _ \<Rightarrow>
          (case OPENSSL_malloc a (8 * kMinNumBuckets) of
             None \<Rightarrow> None
           | Some _ \<Rightarrow>
               Some \<lparr>num_items = 0, buckets = replicate kMinNumBuckets [], num_buckets = kMinNumBuckets,
                     callback_depth = 0, lh_comp = cmp, lh_hash = hash\<rparr>))"

definition OPENSSL_lh_num_items :: "'a LHASH \<Rightarrow> nat" where
  "OPENSSL_lh_num_items lh = num_items lh"

text \<open>The position of the first item that matches, or the end of the chain.\<close>

fun chain_pos :: "('a \<Rightarrow> bool) \<Rightarrow> 'a LHASH_ITEM list \<Rightarrow> nat" where
  "chain_pos match [] = 0"
| "chain_pos match (cur # chain) = (if match (item_data cur) then 0 else chain_pos match chain + 1)"

definition get_next_ptr_and_hash :: "'a LHASH \<Rightarrow> 'a \<Rightarrow> nat \<times> nat \<times> u32" where
  "get_next_ptr_and_hash lh data =
     (let hash = lh_hash lh data;
          b = unat hash mod num_buckets lh
      in (b, chain_pos (\<lambda>x. lh_comp lh x data = 0) (buckets lh ! b), hash))"

definition get_next_ptr_by_key :: "'a LHASH \<Rightarrow> 'k \<Rightarrow> u32 \<Rightarrow> ('k \<Rightarrow> 'a \<Rightarrow> int) \<Rightarrow> nat \<times> nat" where
  "get_next_ptr_by_key lh key key_hash cmp_key =
     (let b = unat key_hash mod num_buckets lh
      in (b, chain_pos (\<lambda>x. cmp_key key x = 0) (buckets lh ! b)))"

text \<open>\<^verbatim>\<open>*next_ptr\<close>, \<open>None\<close> for NULL.\<close>

definition item_at :: "'a LHASH \<Rightarrow> nat \<Rightarrow> nat \<Rightarrow> 'a LHASH_ITEM option" where
  "item_at lh b i = (if i < length (buckets lh ! b) then Some (buckets lh ! b ! i) else None)"

definition OPENSSL_lh_retrieve :: "'a LHASH \<Rightarrow> 'a \<Rightarrow> 'a option" where
  "OPENSSL_lh_retrieve lh data =
     (case get_next_ptr_and_hash lh data of (b, i, _) \<Rightarrow> map_option item_data (item_at lh b i))"

definition OPENSSL_lh_retrieve_key :: "'a LHASH \<Rightarrow> 'k \<Rightarrow> u32 \<Rightarrow> ('k \<Rightarrow> 'a \<Rightarrow> int) \<Rightarrow> 'a option" where
  "OPENSSL_lh_retrieve_key lh key key_hash cmp_key =
     (case get_next_ptr_by_key lh key key_hash cmp_key of (b, i) \<Rightarrow> map_option item_data (item_at lh b i))"

definition push_item :: "nat \<Rightarrow> 'a LHASH_ITEM \<Rightarrow> 'a LHASH_ITEM list list \<Rightarrow> 'a LHASH_ITEM list list" where
  "push_item n cur bs = (let b = unat (item_hash cur) mod n in bs[b := cur # bs ! b])"

definition lh_rebucket :: "sys_alloc \<Rightarrow> 'a LHASH \<Rightarrow> nat \<Rightarrow> 'a LHASH" where
  "lh_rebucket a lh new_num_buckets =
     (let alloc_size = (8 * new_num_buckets) mod SIZE_LIMIT in
      if alloc_size div 8 \<noteq> new_num_buckets then lh
      else if OPENSSL_malloc a alloc_size = None then lh
      else lh\<lparr>buckets := fold (fold (push_item new_num_buckets)) (buckets lh) (replicate new_num_buckets []),
              num_buckets := new_num_buckets\<rparr>)"

definition lh_maybe_resize :: "sys_alloc \<Rightarrow> 'a LHASH \<Rightarrow> 'a LHASH" where
  "lh_maybe_resize a lh =
     (if callback_depth lh > 0 then lh
      else
        (let avg_chain_length = num_items lh div num_buckets lh in
         if avg_chain_length > kMaxAverageChainLength then
           (let new_num_buckets = (num_buckets lh * 2) mod SIZE_LIMIT in
            if new_num_buckets > num_buckets lh then lh_rebucket a lh new_num_buckets else lh)
         else if avg_chain_length < kMinAverageChainLength \<and> num_buckets lh > kMinNumBuckets then
           (let half = num_buckets lh div 2;
                new_num_buckets = (if half < kMinNumBuckets then kMinNumBuckets else half)
            in lh_rebucket a lh new_num_buckets)
         else lh))"

text \<open>The return value, \<^verbatim>\<open>*old_data\<close> and the table.\<close>

definition OPENSSL_lh_insert :: "sys_alloc \<Rightarrow> 'a LHASH \<Rightarrow> 'a \<Rightarrow> nat \<times> 'a option \<times> 'a LHASH" where
  "OPENSSL_lh_insert a lh data =
     (case get_next_ptr_and_hash lh data of (b, i, hash) \<Rightarrow>
        (case item_at lh b i of
           Some item \<Rightarrow>
             (1, Some (item_data item),
              lh\<lparr>buckets := (buckets lh)[b := (buckets lh ! b)[i := item\<lparr>item_data := data\<rparr>]]\<rparr>)
         | None \<Rightarrow>
             (if OPENSSL_malloc a 24 = None then (0, None, lh)
              else (1, None,
                    lh_maybe_resize a
                      (lh\<lparr>buckets := (buckets lh)[b := buckets lh ! b @ [\<lparr>item_data = data, item_hash = hash\<rparr>]],
                          num_items := (num_items lh + 1) mod SIZE_LIMIT\<rparr>)))))"

definition OPENSSL_lh_delete :: "sys_alloc \<Rightarrow> 'a LHASH \<Rightarrow> 'a \<Rightarrow> 'a option \<times> 'a LHASH" where
  "OPENSSL_lh_delete a lh data =
     (case get_next_ptr_and_hash lh data of (b, i, _) \<Rightarrow>
        (case item_at lh b i of
           None \<Rightarrow> (None, lh)
         | Some item \<Rightarrow>
             (Some (item_data item),
              lh_maybe_resize a
                (lh\<lparr>buckets := (buckets lh)[b := take i (buckets lh ! b) @ drop (i + 1) (buckets lh ! b)],
                    num_items := (num_items lh + SIZE_LIMIT - 1) mod SIZE_LIMIT\<rparr>))))"

abbreviation UINT_MAX :: nat where "UINT_MAX \<equiv> 4294967295"

text \<open>Iteration with a callback that does not change the table; \<open>arg\<close> is the state it works on.\<close>

definition OPENSSL_lh_doall_arg :: "sys_alloc \<Rightarrow> 'a LHASH \<Rightarrow> ('a \<Rightarrow> 'b \<Rightarrow> 'b) \<Rightarrow> 'b \<Rightarrow> 'b \<times> 'a LHASH" where
  "OPENSSL_lh_doall_arg a lh func arg =
     (let d1 = (if callback_depth lh < UINT_MAX then callback_depth lh + 1 else callback_depth lh);
          arg' = fold (fold (\<lambda>cur. func (item_data cur))) (buckets lh) arg;
          d2 = (if d1 < UINT_MAX then d1 - 1 else d1)
      in (arg', lh_maybe_resize a (lh\<lparr>callback_depth := d2\<rparr>)))"

section \<open>The table as a collection\<close>

definition lh_items :: "'a LHASH \<Rightarrow> 'a LHASH_ITEM list" where
  "lh_items lh = concat (buckets lh)"

definition lh_contents :: "'a LHASH \<Rightarrow> 'a multiset" where
  "lh_contents lh = image_mset item_data (mset (lh_items lh))"

text \<open>Every item sits in the bucket of its cached hash.\<close>

definition placed :: "nat \<Rightarrow> 'a LHASH_ITEM list list \<Rightarrow> bool" where
  "placed n bs \<longleftrightarrow> length bs = n \<and> (\<forall>b<n. \<forall>item\<in>set (bs ! b). unat (item_hash item) mod n = b)"

text \<open>What the table relies on: \<^verbatim>\<open>comp\<close> decides an equivalence, and equal data has equal hashes.\<close>

definition lh_keys_ok :: "'a LHASH \<Rightarrow> bool" where
  "lh_keys_ok lh \<longleftrightarrow> equivp (\<lambda>x y. lh_comp lh x y = 0) \<and> (\<forall>x y. lh_comp lh x y = 0 \<longrightarrow> lh_hash lh x = lh_hash lh y)"

definition lh_unique :: "'a LHASH \<Rightarrow> bool" where
  "lh_unique lh \<longleftrightarrow> (\<forall>x. size {#y \<in># lh_contents lh. lh_comp lh y x = 0#} \<le> 1)"

definition lh_wf :: "'a LHASH \<Rightarrow> bool" where
  "lh_wf lh \<longleftrightarrow> kMinNumBuckets \<le> num_buckets lh \<and> placed (num_buckets lh) (buckets lh)
     \<and> (\<forall>item\<in>set (lh_items lh). item_hash item = lh_hash lh (item_data item))
     \<and> num_items lh = size (lh_contents lh) mod SIZE_LIMIT \<and> lh_keys_ok lh \<and> lh_unique lh"

lemma placed_bucket: "placed n bs \<Longrightarrow> 0 < n \<Longrightarrow> unat h mod n < length bs"
  by (simp add: placed_def)

lemma mset_concat_update:
  "b < length bs \<Longrightarrow> mset (concat (bs[b := c])) + mset (bs ! b) = mset (concat bs) + mset c"
proof (induction bs arbitrary: b)
  case (Cons x bs)
  then show ?case by (cases b) (auto simp: ac_simps)
qed simp

lemma set_concat_push:
  assumes "b < length bs"
  shows "mset (concat (bs[b := x # bs ! b])) = add_mset x (mset (concat bs))"
proof -
  have "mset (concat (bs[b := x # bs ! b])) + mset (bs ! b) = add_mset x (mset (concat bs)) + mset (bs ! b)"
    using mset_concat_update [OF assms, of "x # bs ! b"] by simp
  then show ?thesis by simp
qed

lemma push_item_placed: "placed n bs \<Longrightarrow> 0 < n \<Longrightarrow> placed n (push_item n x bs)"
  by (auto simp: placed_def push_item_def Let_def nth_list_update split: if_splits)

lemma push_item_mset: "placed n bs \<Longrightarrow> 0 < n \<Longrightarrow> mset (concat (push_item n x bs)) = add_mset x (mset (concat bs))"
  unfolding push_item_def Let_def by (rule set_concat_push) (rule placed_bucket)

lemma push_items:
  "placed n bs \<Longrightarrow> 0 < n \<Longrightarrow> placed n (fold (push_item n) xs bs)
     \<and> mset (concat (fold (push_item n) xs bs)) = mset xs + mset (concat bs)"
  by (induction xs arbitrary: bs) (simp_all add: push_item_placed push_item_mset)

lemma rebucket_items:
  "placed n bs \<Longrightarrow> 0 < n \<Longrightarrow> placed n (fold (fold (push_item n)) old bs)
     \<and> mset (concat (fold (fold (push_item n)) old bs)) = mset (concat old) + mset (concat bs)"
proof (induction old arbitrary: bs)
  case (Cons xs old)
  then show ?case using push_items [of n bs xs] by (simp add: ac_simps)
qed simp

lemma lh_rebucket_wf:
  assumes "lh_wf lh" and "kMinNumBuckets \<le> n"
  shows "lh_wf (lh_rebucket a lh n)" and "lh_contents (lh_rebucket a lh n) = lh_contents lh"
    and "lh_comp (lh_rebucket a lh n) = lh_comp lh" and "lh_hash (lh_rebucket a lh n) = lh_hash lh"
proof -
  have "placed n (replicate n [])" "0 < n" using assms(2) by (simp_all add: placed_def kMinNumBuckets_def)
  note R = rebucket_items [OF this, of "buckets lh"]
  let ?bs = "fold (fold (push_item n)) (buckets lh) (replicate n [])"
  have m: "mset (concat ?bs) = mset (concat (buckets lh))" using R by (simp add: concat_replicate_trivial)
  have c: "lh_contents (lh\<lparr>buckets := ?bs, num_buckets := n\<rparr>) = lh_contents lh"
    using m by (simp add: lh_contents_def lh_items_def)
  have s: "set (concat ?bs) = set (concat (buckets lh))" using m by (metis set_mset_mset)
  have "lh_wf (lh\<lparr>buckets := ?bs, num_buckets := n\<rparr>)"
    using assms R s c by (simp add: lh_wf_def lh_items_def lh_unique_def lh_keys_ok_def del: set_concat)
  then show "lh_wf (lh_rebucket a lh n)" "lh_contents (lh_rebucket a lh n) = lh_contents lh"
    "lh_comp (lh_rebucket a lh n) = lh_comp lh" "lh_hash (lh_rebucket a lh n) = lh_hash lh"
    using assms(1) c by (simp_all add: lh_rebucket_def Let_def)
qed

lemma lh_maybe_resize_wf:
  assumes "lh_wf lh"
  shows "lh_wf (lh_maybe_resize a lh)" and "lh_contents (lh_maybe_resize a lh) = lh_contents lh"
    and "lh_comp (lh_maybe_resize a lh) = lh_comp lh" and "lh_hash (lh_maybe_resize a lh) = lh_hash lh"
proof -
  have "kMinNumBuckets \<le> num_buckets lh" using assms by (simp add: lh_wf_def)
  then have "lh_wf (lh_maybe_resize a lh) \<and> lh_contents (lh_maybe_resize a lh) = lh_contents lh
      \<and> lh_comp (lh_maybe_resize a lh) = lh_comp lh \<and> lh_hash (lh_maybe_resize a lh) = lh_hash lh"
    using assms lh_rebucket_wf [OF assms] by (auto simp: lh_maybe_resize_def Let_def)
  then show "lh_wf (lh_maybe_resize a lh)" "lh_contents (lh_maybe_resize a lh) = lh_contents lh"
    "lh_comp (lh_maybe_resize a lh) = lh_comp lh" "lh_hash (lh_maybe_resize a lh) = lh_hash lh" by auto
qed

lemma chain_pos_match:
  "chain_pos P c \<le> length c" "chain_pos P c < length c \<Longrightarrow> P (item_data (c ! chain_pos P c))"
  "chain_pos P c = length c \<Longrightarrow> item \<in> set c \<Longrightarrow> \<not> P (item_data item)"
  by (induction c) (auto split: if_splits)

lemma lh_wf_equiv:
  assumes "lh_wf lh"
  shows "lh_comp lh x x = 0" "lh_comp lh x y = 0 \<longleftrightarrow> lh_comp lh y x = 0"
    "lh_comp lh x y = 0 \<Longrightarrow> lh_comp lh x z = 0 \<longleftrightarrow> lh_comp lh y z = 0"
    "lh_comp lh x y = 0 \<Longrightarrow> lh_hash lh x = lh_hash lh y"
proof -
  have k: "equivp (\<lambda>x y. lh_comp lh x y = 0)" using assms by (simp add: lh_wf_def lh_keys_ok_def)
  show "lh_comp lh x x = 0" "lh_comp lh x y = 0 \<longleftrightarrow> lh_comp lh y x = 0"
    "lh_comp lh x y = 0 \<Longrightarrow> lh_comp lh x z = 0 \<longleftrightarrow> lh_comp lh y z = 0"
    using equivp_reflp [OF k] equivp_symp [OF k] equivp_transp [OF k] by blast+
  show "lh_comp lh x y = 0 \<Longrightarrow> lh_hash lh x = lh_hash lh y"
    using assms by (simp add: lh_wf_def lh_keys_ok_def)
qed

lemma lh_wf_bucket:
  assumes "lh_wf lh" shows "unat h mod num_buckets lh < length (buckets lh)"
  using assms by (auto simp: lh_wf_def kMinNumBuckets_def placed_def)

text \<open>The pointer search finds the one item that matches, if there is one.\<close>

lemma located:
  assumes wf: "lh_wf lh" and g: "get_next_ptr_and_hash lh x = (b, i, h)"
  shows "b < length (buckets lh)" and "h = lh_hash lh x" and "b = unat h mod num_buckets lh"
    and "item_at lh b i = Some item \<Longrightarrow> i < length (buckets lh ! b) \<and> item = buckets lh ! b ! i \<and> lh_comp lh (item_data item) x = 0"
    and "item_at lh b i = None \<Longrightarrow> y \<in># lh_contents lh \<Longrightarrow> lh_comp lh y x \<noteq> 0"
proof -
  let ?m = "\<lambda>y. lh_comp lh y x = 0"
  have e: "h = lh_hash lh x" "b = unat h mod num_buckets lh" "i = chain_pos ?m (buckets lh ! b)"
    using g by (auto simp: get_next_ptr_and_hash_def Let_def)
  show "b < length (buckets lh)" "h = lh_hash lh x" "b = unat h mod num_buckets lh"
    using e lh_wf_bucket [OF wf] by auto
  show "i < length (buckets lh ! b) \<and> item = buckets lh ! b ! i \<and> lh_comp lh (item_data item) x = 0"
    if "item_at lh b i = Some item"
    using that chain_pos_match(2) [of ?m "buckets lh ! b"] unfolding item_at_def e(3) by (auto split: if_splits)
  show "lh_comp lh y x \<noteq> 0" if n: "item_at lh b i = None" and y: "y \<in># lh_contents lh"
  proof
    assume eq: "lh_comp lh y x = 0"
    obtain b' item where it: "b' < length (buckets lh)" "item \<in> set (buckets lh ! b')" "y = item_data item"
      using y by (auto simp: lh_contents_def lh_items_def in_set_conv_nth [of _ "buckets lh"])
    have "item_hash item = lh_hash lh y" "unat (item_hash item) mod num_buckets lh = b'"
      using it wf by (auto simp: lh_wf_def lh_items_def placed_def dest: nth_mem)
    then have "b' = b" using e lh_wf_equiv(4) [OF wf eq] by simp
    then show False
      using n it eq chain_pos_match(1) [of ?m "buckets lh ! b"] chain_pos_match(3) [of ?m "buckets lh ! b" item] e(3)
      by (auto simp: item_at_def split: if_splits)
  qed
qed

lemma contents_update:
  assumes "b < length (buckets lh)"
  shows "lh_contents (lh\<lparr>buckets := (buckets lh)[b := c]\<rparr>) + image_mset item_data (mset (buckets lh ! b)) =
    lh_contents lh + image_mset item_data (mset c)"
  using arg_cong [OF mset_concat_update [OF assms, of c], of "image_mset item_data"]
  by (simp add: lh_contents_def lh_items_def)

text \<open>A bucket replaced, with the items of the new chain in their place.\<close>

lemma lh_wf_update:
  assumes wf: "lh_wf lh" and b: "b < length (buckets lh)"
    and c: "\<And>item. item \<in> set c \<Longrightarrow> item_hash item = lh_hash lh (item_data item) \<and> unat (item_hash item) mod num_buckets lh = b"
    and lh': "lh' = lh\<lparr>buckets := (buckets lh)[b := c], num_items := n\<rparr>"
    and n: "n = size (lh_contents lh') mod SIZE_LIMIT" and u: "lh_unique lh'"
  shows "lh_wf lh'"
proof -
  have "set (lh_items lh') \<subseteq> set (lh_items lh) \<union> set c"
    unfolding lh' using set_update_subset_insert [of "buckets lh" b c] by (auto simp: lh_items_def)
  then have "\<forall>item\<in>set (lh_items lh'). item_hash item = lh_hash lh (item_data item)"
    using wf c by (auto simp: lh_wf_def)
  moreover have "\<forall>item\<in>set c. unat (item_hash item) mod num_buckets lh = b" using c by blast
  then have "placed (num_buckets lh') (buckets lh')"
    using wf b unfolding lh' by (auto simp: lh_wf_def placed_def nth_list_update)
  moreover have "lh_comp lh' = lh_comp lh" "lh_hash lh' = lh_hash lh" "num_buckets lh' = num_buckets lh" "num_items lh' = n"
    by (simp_all add: lh')
  ultimately show ?thesis
    using wf n u unfolding lh_wf_def lh_keys_ok_def by simp
qed

lemma lh_wf_item:
  assumes "lh_wf lh" "b < length (buckets lh)" "item \<in> set (buckets lh ! b)"
  shows "item_hash item = lh_hash lh (item_data item) \<and> unat (item_hash item) mod num_buckets lh = b"
  using assms by (auto simp: lh_wf_def lh_items_def placed_def dest: nth_mem)

section \<open>Histories of operations\<close>

datatype 'a lh_op = LInsert 'a | LRetrieve 'a | LDelete 'a | LNum

datatype 'a lh_result = LStored nat "'a option" | LData "'a option" | LSize nat

fun lh_step :: "sys_alloc \<Rightarrow> 'a lh_op \<Rightarrow> 'a LHASH \<Rightarrow> 'a lh_result \<times> 'a LHASH" where
  "lh_step a (LInsert x) lh = (case OPENSSL_lh_insert a lh x of (r, old, lh') \<Rightarrow> (LStored r old, lh'))"
| "lh_step a (LRetrieve x) lh = (LData (OPENSSL_lh_retrieve lh x), lh)"
| "lh_step a (LDelete x) lh = (case OPENSSL_lh_delete a lh x of (r, lh') \<Rightarrow> (LData r, lh'))"
| "lh_step a LNum lh = (LSize (OPENSSL_lh_num_items lh), lh)"

text \<open>
  The specification, on the collection of the stored data: \<open>eq y x\<close> says that \<open>y\<close> is stored under
  the key \<open>x\<close>.
\<close>

fun lh_spec :: "('a \<Rightarrow> 'a \<Rightarrow> bool) \<Rightarrow> 'a lh_op \<Rightarrow> 'a multiset \<Rightarrow> 'a lh_result \<Rightarrow> 'a multiset \<Rightarrow> bool" where
  "lh_spec eq (LInsert x) m r m' \<longleftrightarrow>
     (\<exists>y. y \<in># m \<and> eq y x \<and> r = LStored 1 (Some y) \<and> m' = add_mset x (m - {#y#})) \<or>
     ((\<forall>y. y \<in># m \<longrightarrow> \<not> eq y x) \<and>
       ((r = LStored 0 None \<and> m' = m) \<or> (r = LStored 1 None \<and> m' = add_mset x m)))"
| "lh_spec eq (LRetrieve x) m r m' \<longleftrightarrow> m' = m \<and>
     ((\<exists>y. y \<in># m \<and> eq y x \<and> r = LData (Some y)) \<or> ((\<forall>y. y \<in># m \<longrightarrow> \<not> eq y x) \<and> r = LData None))"
| "lh_spec eq (LDelete x) m r m' \<longleftrightarrow>
     (\<exists>y. y \<in># m \<and> eq y x \<and> r = LData (Some y) \<and> m' = m - {#y#}) \<or>
     ((\<forall>y. y \<in># m \<longrightarrow> \<not> eq y x) \<and> r = LData None \<and> m' = m)"
| "lh_spec eq LNum m r m' \<longleftrightarrow> m' = m \<and> r = LSize (size m mod SIZE_LIMIT)"

definition lh_inv :: "('a \<Rightarrow> 'a \<Rightarrow> int) \<Rightarrow> 'a LHASH \<Rightarrow> bool" where
  "lh_inv cmp lh \<longleftrightarrow> lh_wf lh \<and> lh_comp lh = cmp"

lemma lh_unique_size: "lh_wf lh \<Longrightarrow> size {#y \<in># lh_contents lh. lh_comp lh y x = 0#} \<le> 1"
  by (simp add: lh_wf_def lh_unique_def)

lemma lh_replace:
  assumes wf: "lh_wf lh" and g: "get_next_ptr_and_hash lh x = (b, i, h)" and it: "item_at lh b i = Some item"
    and lh': "lh' = lh\<lparr>buckets := (buckets lh)[b := (buckets lh ! b)[i := item\<lparr>item_data := x\<rparr>]]\<rparr>"
  shows "lh_wf lh' \<and> item_data item \<in># lh_contents lh \<and> lh_contents lh' = add_mset x (lh_contents lh - {#item_data item#})"
proof -
  note L = located [OF wf g]
  have i: "i < length (buckets lh ! b)" "item = buckets lh ! b ! i" "lh_comp lh (item_data item) x = 0"
    using L(4) [OF it] by auto
  let ?c = "(buckets lh ! b)[i := item\<lparr>item_data := x\<rparr>]"
  have mem: "item \<in> set (buckets lh ! b)" using i by simp
  then have y: "item_data item \<in># lh_contents lh"
    using L(1) by (auto simp: lh_contents_def lh_items_def dest: nth_mem)
  have c: "mset ?c = add_mset (item\<lparr>item_data := x\<rparr>) (mset (buckets lh ! b) - {#item#})" using i by (simp add: mset_update)
  have "image_mset item_data (mset ?c) =
      add_mset x (image_mset item_data (mset (buckets lh ! b)) - {#item_data item#})"
    using c mem by (simp add: image_mset_Diff)
  then have "lh_contents lh' + image_mset item_data (mset (buckets lh ! b)) =
      add_mset x (lh_contents lh - {#item_data item#}) + image_mset item_data (mset (buckets lh ! b))"
    using contents_update [OF L(1), of ?c] mem y unfolding lh' by simp
  then have C: "lh_contents lh' = add_mset x (lh_contents lh - {#item_data item#})" by simp
  obtain m where m: "lh_contents lh = add_mset (item_data item) m" using y by (blast dest: multi_member_split)
  have "size {#z \<in># lh_contents lh'. lh_comp lh z w = 0#} = size {#z \<in># lh_contents lh. lh_comp lh z w = 0#}" for w
    using lh_wf_equiv(3) [OF wf i(3), of w] by (simp add: C m)
  then have u: "lh_unique lh'" using wf by (simp add: lh_wf_def lh_unique_def lh')
  have "lh_wf lh'"
  proof (rule lh_wf_update [OF wf L(1)])
    show "item_hash it = lh_hash lh (item_data it) \<and> unat (item_hash it) mod num_buckets lh = b"
      if "it \<in> set ?c" for it
      using that set_update_subset_insert [of "buckets lh ! b" i "item\<lparr>item_data := x\<rparr>"] lh_wf_item [OF wf L(1)]
        mem lh_wf_equiv(4) [OF wf i(3)] by fastforce
    show "lh' = lh\<lparr>buckets := (buckets lh)[b := ?c], num_items := num_items lh\<rparr>" by (simp add: lh')
    show "num_items lh = size (lh_contents lh') mod SIZE_LIMIT"
      using wf by (simp add: lh_wf_def C m)
  qed (rule u)
  then show ?thesis using C y by simp
qed

lemma lh_append:
  assumes wf: "lh_wf lh" and g: "get_next_ptr_and_hash lh x = (b, i, h)" and it: "item_at lh b i = None"
    and lh': "lh' = lh\<lparr>buckets := (buckets lh)[b := buckets lh ! b @ [\<lparr>item_data = x, item_hash = h\<rparr>]],
      num_items := (num_items lh + 1) mod SIZE_LIMIT\<rparr>"
  shows "lh_wf lh' \<and> lh_contents lh' = add_mset x (lh_contents lh)"
proof -
  note L = located [OF wf g]
  let ?c = "buckets lh ! b @ [\<lparr>item_data = x, item_hash = h\<rparr>]"
  have "lh_contents lh' + image_mset item_data (mset (buckets lh ! b)) =
      add_mset x (lh_contents lh) + image_mset item_data (mset (buckets lh ! b))"
    using contents_update [OF L(1), of ?c] unfolding lh' by (simp add: lh_contents_def lh_items_def)
  then have C: "lh_contents lh' = add_mset x (lh_contents lh)" by simp
  have "size {#z \<in># lh_contents lh'. lh_comp lh z w = 0#} \<le> 1" for w
  proof (cases "lh_comp lh x w = 0")
    case True
    have "\<forall>z. z \<in># lh_contents lh \<longrightarrow> lh_comp lh z w \<noteq> 0"
      using L(5) [OF it] True lh_wf_equiv [OF wf] by metis
    then have "{#z \<in># lh_contents lh. lh_comp lh z w = 0#} = {#}" by simp
    then show ?thesis using True C by simp
  qed (use lh_unique_size [OF wf] C in simp)
  then have u: "lh_unique lh'" by (simp add: lh_unique_def lh')
  have "lh_wf lh'"
  proof (rule lh_wf_update [OF wf L(1) _ lh' _ u])
    show "item_hash it = lh_hash lh (item_data it) \<and> unat (item_hash it) mod num_buckets lh = b"
      if "it \<in> set ?c" for it
      using that lh_wf_item [OF wf L(1)] L(2,3) by auto
    show "(num_items lh + 1) mod SIZE_LIMIT = size (lh_contents lh') mod SIZE_LIMIT"
      using wf C by (simp add: lh_wf_def mod_Suc_eq)
  qed
  then show ?thesis using C by simp
qed

lemma mod_pred: "0 < l \<Longrightarrow> (Suc m mod l + l - 1) mod l = m mod (l :: nat)"
proof (cases "Suc (m mod l) = l")
  case True
  moreover assume "0 < l"
  ultimately have "l - 1 = m mod l" "m mod l < l" by simp_all
  then show ?thesis using True by (simp add: mod_Suc)
qed (simp add: mod_Suc)

lemma lh_remove:
  assumes wf: "lh_wf lh" and g: "get_next_ptr_and_hash lh x = (b, i, h)" and it: "item_at lh b i = Some item"
    and lh': "lh' = lh\<lparr>buckets := (buckets lh)[b := take i (buckets lh ! b) @ drop (i + 1) (buckets lh ! b)],
      num_items := (num_items lh + SIZE_LIMIT - 1) mod SIZE_LIMIT\<rparr>"
  shows "lh_wf lh' \<and> item_data item \<in># lh_contents lh \<and> lh_contents lh' = lh_contents lh - {#item_data item#}"
proof -
  note L = located [OF wf g]
  have i: "i < length (buckets lh ! b)" "item = buckets lh ! b ! i" using L(4) [OF it] by auto
  let ?c = "take i (buckets lh ! b) @ drop (i + 1) (buckets lh ! b)"
  have e: "buckets lh ! b = take i (buckets lh ! b) @ item # drop (i + 1) (buckets lh ! b)"
    using i by (simp add: id_take_nth_drop)
  then have m: "mset (buckets lh ! b) = add_mset item (mset ?c)"
    by (metis mset_append mset.simps(2) union_mset_add_mset_right)
  have y: "item_data item \<in># lh_contents lh"
    using L(1) i by (auto simp: lh_contents_def lh_items_def dest: nth_mem)
  have "lh_contents lh' + image_mset item_data (mset (buckets lh ! b)) =
      (lh_contents lh - {#item_data item#}) + image_mset item_data (mset (buckets lh ! b))"
    using contents_update [OF L(1), of ?c] y unfolding lh' m
    by (simp add: lh_contents_def lh_items_def)
  then have C: "lh_contents lh' = lh_contents lh - {#item_data item#}" by simp
  have "size {#z \<in># lh_contents lh'. lh_comp lh z w = 0#} \<le> size {#z \<in># lh_contents lh. lh_comp lh z w = 0#}" for w
    unfolding C by (intro size_mset_mono multiset_filter_mono) simp
  then have u: "lh_unique lh'" using lh_unique_size [OF wf] unfolding lh_unique_def lh' by (auto intro: order_trans)
  have "size (lh_contents lh) = Suc (size (lh_contents lh'))" using C y by (simp add: size_Suc_Diff1)
  then have n: "(num_items lh + SIZE_LIMIT - 1) mod SIZE_LIMIT = size (lh_contents lh') mod SIZE_LIMIT"
    using wf mod_pred [of SIZE_LIMIT "size (lh_contents lh')"] by (simp add: lh_wf_def)
  have "lh_wf lh'"
  proof (rule lh_wf_update [OF wf L(1) _ lh' n u])
    show "item_hash it = lh_hash lh (item_data it) \<and> unat (item_hash it) mod num_buckets lh = b"
      if "it \<in> set ?c" for it
      using that lh_wf_item [OF wf L(1), of it] by (auto dest: in_set_takeD in_set_dropD)
  qed
  then show ?thesis using C y by simp
qed

lemma lh_step_refines:
  assumes "lh_inv cmp lh" and "lh_step a op lh = (r, lh')"
  shows "lh_inv cmp lh' \<and> lh_spec (\<lambda>y x. cmp y x = 0) op (lh_contents lh) r (lh_contents lh')"
proof -
  have wf: "lh_wf lh" and cmp: "lh_comp lh = cmp" using assms(1) by (auto simp: lh_inv_def)
  have bucket: "y \<in># lh_contents lh" if "b < length (buckets lh)" "i < length (buckets lh ! b)" "y = item_data (buckets lh ! b ! i)" for y b i
    using that by (auto simp: lh_contents_def lh_items_def dest!: nth_mem)
  show ?thesis
  proof (cases op)
    case (LInsert x)
    obtain b i h where g: "get_next_ptr_and_hash lh x = (b, i, h)" by (cases "get_next_ptr_and_hash lh x")
    note L = located [OF wf g]
    show ?thesis
    proof (cases "item_at lh b i")
      case None
      then show ?thesis
        using LInsert assms(2) g wf cmp lh_append [OF wf g None refl] L(5) [OF None]
        by (auto simp: OPENSSL_lh_insert_def lh_inv_def lh_maybe_resize_wf split: if_splits)
    next
      case (Some item)
      then show ?thesis
        using LInsert assms(2) g cmp lh_replace [OF wf g Some refl] L(4) [OF Some]
        by (auto simp: OPENSSL_lh_insert_def lh_inv_def)
    qed
  next
    case (LRetrieve x)
    obtain b i h where g: "get_next_ptr_and_hash lh x = (b, i, h)" by (cases "get_next_ptr_and_hash lh x")
    note L = located [OF wf g]
    show ?thesis
      using LRetrieve assms g cmp L(1,4,5) bucket
      by (cases "item_at lh b i") (auto simp: OPENSSL_lh_retrieve_def)
  next
    case (LDelete x)
    obtain b i h where g: "get_next_ptr_and_hash lh x = (b, i, h)" by (cases "get_next_ptr_and_hash lh x")
    note L = located [OF wf g]
    show ?thesis
    proof (cases "item_at lh b i")
      case None
      then show ?thesis
        using LDelete assms g cmp L(5) [OF None] by (auto simp: OPENSSL_lh_delete_def)
    next
      case (Some item)
      then show ?thesis
        using LDelete assms(2) g cmp lh_remove [OF wf g Some refl] L(4) [OF Some]
        by (auto simp: OPENSSL_lh_delete_def lh_inv_def lh_maybe_resize_wf)
    qed
  next
    case LNum
    then show ?thesis using assms wf by (auto simp: OPENSSL_lh_num_items_def lh_wf_def)
  qed
qed

interpretation lhash: refinement "lh_step a" "lh_inv cmp" lh_contents "lh_spec (\<lambda>y x. cmp y x = 0)"
  by unfold_locales (use lh_step_refines in blast)+

lemma OPENSSL_lh_new_inv:
  assumes "OPENSSL_lh_new a hash cmp = Some lh" and "equivp (\<lambda>x y. cmp x y = 0)" and "\<And>x y. cmp x y = 0 \<Longrightarrow> hash x = hash y"
  shows "lh_inv cmp lh" and "lh_contents lh = {#}"
proof -
  have e: "lh = \<lparr>num_items = 0, buckets = replicate 16 [], num_buckets = 16, callback_depth = 0, lh_comp = cmp, lh_hash = hash\<rparr>"
    using assms(1) by (auto simp: OPENSSL_lh_new_def kMinNumBuckets_def split: option.splits)
  show c: "lh_contents lh = {#}" by (simp add: e lh_contents_def lh_items_def concat_replicate_trivial)
  show "lh_inv cmp lh"
    using assms(2,3) c
    by (auto simp: lh_inv_def lh_wf_def lh_unique_def lh_keys_ok_def placed_def kMinNumBuckets_def lh_items_def e)
qed

text \<open>
  How full the table may get: with a resize that cannot fail the chains stay at three items or fewer
  on average, and the table shrinks to its least size when it empties.
\<close>

lemma lh_rebucket_ok:
  "never_fails a \<Longrightarrow> n < 2 ^ 60 \<Longrightarrow> num_buckets (lh_rebucket a lh n) = n \<and> num_items (lh_rebucket a lh n) = num_items lh"
  using OPENSSL_malloc_ok [of a "8 * n"] by (auto simp: lh_rebucket_def Let_def)

lemma lh_maybe_resize_load:
  assumes ok: "never_fails a" and d: "callback_depth lh = 0" and nb: "kMinNumBuckets \<le> num_buckets lh"
    and small: "num_items lh < 2 ^ 60" and load: "num_items lh \<le> 3 * num_buckets lh"
  shows "num_items (lh_maybe_resize a lh) < 3 * num_buckets (lh_maybe_resize a lh)"
proof -
  let ?n = "num_items lh" and ?b = "num_buckets lh"
  have b: "16 \<le> ?b" using nb by (simp add: kMinNumBuckets_def)
  consider (grow) "?n = 3 * ?b" | (shrink) "?n < ?b" "16 < ?b" | (stay) "?n < 3 * ?b" "?b \<le> ?n \<or> ?b = 16"
    using load b by linarith
  then show ?thesis
  proof cases
    case grow
    then have "?b * 2 mod SIZE_LIMIT = ?b * 2" "?n div ?b = 3" "?b * 2 < 2 ^ 60" using small b by simp_all
    then show ?thesis
      using grow b d lh_rebucket_ok [OF ok, of "?b * 2" lh]
      by (simp add: lh_maybe_resize_def kMaxAverageChainLength_def Let_def)
  next
    case shrink
    let ?m = "if ?b div 2 < 16 then 16 else ?b div 2"
    show ?thesis
    proof (cases "?m < 2 ^ 60")
      case True
      then show ?thesis
        using shrink d lh_rebucket_ok [OF ok True, of lh]
        by (auto simp: lh_maybe_resize_def kMaxAverageChainLength_def kMinAverageChainLength_def kMinNumBuckets_def Let_def)
    next
      case False
      have "num_items (lh_rebucket a lh ?m) = ?n" "?m \<le> num_buckets (lh_rebucket a lh ?m) \<or> num_buckets (lh_rebucket a lh ?m) = ?b"
        by (auto simp: lh_rebucket_def Let_def)
      then show ?thesis
        using shrink d small False
        by (auto simp: lh_maybe_resize_def kMaxAverageChainLength_def kMinAverageChainLength_def kMinNumBuckets_def Let_def
            split: if_splits)
    qed
  next
    case stay
    have "?n div ?b < 3" by (rule less_mult_imp_div_less) (use stay(1) in simp)
    moreover have "?n div ?b \<noteq> 0 \<or> ?b = 16" using stay(2) b div_greater_zero_iff [of ?n ?b] by auto
    ultimately show ?thesis
      using stay d
      by (auto simp: lh_maybe_resize_def kMaxAverageChainLength_def kMinAverageChainLength_def kMinNumBuckets_def Let_def)
  qed
qed

lemma lh_rebucket_depth: "callback_depth (lh_rebucket a lh n) = callback_depth lh"
  by (simp add: lh_rebucket_def Let_def)

lemma lh_maybe_resize_depth: "callback_depth (lh_maybe_resize a lh) = callback_depth lh"
  by (simp add: lh_maybe_resize_def lh_rebucket_depth Let_def)

definition lh_loaded :: "('a \<Rightarrow> 'a \<Rightarrow> int) \<Rightarrow> nat \<Rightarrow> 'a LHASH \<Rightarrow> bool" where
  "lh_loaded cmp k lh \<longleftrightarrow> lh_inv cmp lh \<and> callback_depth lh = 0 \<and> size (lh_contents lh) \<le> k
     \<and> num_items lh < 3 * num_buckets lh"

lemma lh_loaded_resize:
  assumes ok: "never_fails a" and wf: "lh_wf lh" "callback_depth lh = 0" and k: "size (lh_contents lh) < 2 ^ 60"
    and load: "size (lh_contents lh) \<le> 3 * num_buckets lh"
  shows "num_items (lh_maybe_resize a lh) < 3 * num_buckets (lh_maybe_resize a lh)"
    and "callback_depth (lh_maybe_resize a lh) = 0"
proof -
  have n: "num_items lh = size (lh_contents lh)" "kMinNumBuckets \<le> num_buckets lh"
    using wf(1) k by (simp_all add: lh_wf_def)
  show "num_items (lh_maybe_resize a lh) < 3 * num_buckets (lh_maybe_resize a lh)"
    by (rule lh_maybe_resize_load [OF ok wf(2) n(2)]) (use k load n in simp_all)
  show "callback_depth (lh_maybe_resize a lh) = 0" using wf(2) by (simp add: lh_maybe_resize_depth)
qed

lemma lh_loaded_step:
  assumes ok: "never_fails a" and l: "lh_loaded cmp k lh" and k: "k + 1 < 2 ^ 60" and st: "lh_step a op lh = (r, lh')"
  shows "lh_loaded cmp (k + 1) lh'"
proof -
  have inv: "lh_inv cmp lh" and wf: "lh_wf lh" and d: "callback_depth lh = 0" and sz: "size (lh_contents lh) \<le> k"
    and ld: "num_items lh < 3 * num_buckets lh" and n: "num_items lh = size (lh_contents lh)"
    using l k by (auto simp: lh_loaded_def lh_inv_def lh_wf_def)
  note R = lh_step_refines [OF inv st]
  have "size (lh_contents lh') \<le> k + 1"
    using R sz by (cases op) (auto simp: size_Diff_singleton intro: le_trans)
  moreover have "num_items lh' < 3 * num_buckets lh' \<and> callback_depth lh' = 0"
  proof (cases op)
    case (LInsert x)
    obtain b i h where g: "get_next_ptr_and_hash lh x = (b, i, h)" by (cases "get_next_ptr_and_hash lh x")
    show ?thesis
    proof (cases "item_at lh b i")
      case None
      then show ?thesis
        using LInsert st g d ld sz k n lh_append [OF wf g None refl]
        by (auto simp: OPENSSL_lh_insert_def lh_loaded_resize [OF ok] split: if_splits)
    qed (use LInsert st g d ld in \<open>auto simp: OPENSSL_lh_insert_def\<close>)
  next
    case (LDelete x)
    obtain b i h where g: "get_next_ptr_and_hash lh x = (b, i, h)" by (cases "get_next_ptr_and_hash lh x")
    show ?thesis
    proof (cases "item_at lh b i")
      case (Some item)
      have "size (lh_contents lh - {#item_data item#}) \<le> size (lh_contents lh)" by (simp add: size_mset_mono)
      then show ?thesis
        using Some LDelete st g d ld sz k n lh_remove [OF wf g Some refl]
        by (auto simp: OPENSSL_lh_delete_def lh_loaded_resize [OF ok])
    qed (use LDelete st g d ld in \<open>auto simp: OPENSSL_lh_delete_def\<close>)
  qed (use st d ld in auto)
  ultimately show ?thesis using R by (simp add: lh_loaded_def)
qed

lemma lh_loaded_run:
  assumes ok: "never_fails a"
  shows "lh_loaded cmp k lh \<Longrightarrow> k + length ops < 2 ^ 60 \<Longrightarrow> run (lh_step a) ops lh = (rs, lh') \<Longrightarrow>
    lh_loaded cmp (k + length ops) lh'"
proof (induction ops arbitrary: k lh rs)
  case (Cons op ops)
  obtain r lh1 rs1 where s: "lh_step a op lh = (r, lh1)" "run (lh_step a) ops lh1 = (rs1, lh')"
    using Cons.prems(3) by (auto split: prod.splits)
  have "lh_loaded cmp (k + 1) lh1" by (rule lh_loaded_step [OF ok Cons.prems(1) _ s(1)]) (use Cons.prems(2) in simp)
  then show ?case using Cons.IH [of "k + 1", OF _ _ s(2)] Cons.prems(2) by simp
qed simp

section \<open>Properties\<close>

text \<open>
  C15. The hash table is a collection with at most one entry per key. Any history of insertions,
  look-ups, deletions and size queries on a new table, with whatever allocations failing, gives the
  results the collection gives: an insertion returns the entry it replaces or reports that memory
  ran out and changes nothing, a look-up and a deletion find the entry with an equal key exactly if
  there is one. Growing and shrinking the bucket array is invisible.
\<close>

theorem lhash_refines_collection:
  assumes "OPENSSL_lh_new a hash cmp = Some lh"
    and "equivp (\<lambda>x y. cmp x y = 0)" and "\<And>x y. cmp x y = 0 \<Longrightarrow> hash x = hash y"
    and "run (lh_step a) ops lh = (rs, lh')"
  shows "history (lh_spec (\<lambda>y x. cmp y x = 0)) ops {#} rs (lh_contents lh')
    \<and> size {#y \<in># lh_contents lh'. cmp y x = 0#} \<le> 1"
proof
  note inv = OPENSSL_lh_new_inv [OF assms(1-3)]
  show "history (lh_spec (\<lambda>y x. cmp y x = 0)) ops {#} rs (lh_contents lh')"
    using lhash.run_history [OF inv(1) assms(4)] inv(2) by simp
  show "size {#y \<in># lh_contents lh'. cmp y x = 0#} \<le> 1"
    using lhash.run_keeps [OF inv(1) assms(4)] lh_unique_size [of lh' x] by (auto simp: lh_inv_def)
qed

lemma int_keys: "equivp (\<lambda>x y. x - y = (0 :: int))"
  by (auto intro!: equivpI reflpI sympI transpI)

lemma example_table: "\<exists>lh. OPENSSL_lh_new example_alloc (\<lambda>x :: int. of_int x) (\<lambda>x y. x - y) = Some lh"
  by (simp add: OPENSSL_lh_new_def OPENSSL_malloc_def OPENSSL_MALLOC_PREFIX_def example_alloc_def kMinNumBuckets_def)

theorem lhash_refines_collection_witness:
  "\<exists>lh rs lh'. OPENSSL_lh_new example_alloc (\<lambda>x :: int. of_int x) (\<lambda>x y. x - y) = Some lh
     \<and> run (lh_step example_alloc) [LInsert 5, LInsert 21, LRetrieve 21] lh = (rs, lh')
     \<and> history (lh_spec (\<lambda>y x. y - x = 0)) [LInsert 5, LInsert 21, LRetrieve 21] {#} rs (lh_contents lh')"
proof -
  obtain lh where lh: "OPENSSL_lh_new example_alloc (\<lambda>x :: int. of_int x) (\<lambda>x y. x - y) = Some lh"
    using example_table by blast
  obtain rs lh' where r: "run (lh_step example_alloc) [LInsert 5, LInsert 21, LRetrieve 21] lh = (rs, lh')" by fastforce
  from lhash_refines_collection [OF lh int_keys _ r] lh r show ?thesis by auto
qed

text \<open>
  Look-ups stay fast: as long as allocations succeed, a table that started empty has, after
  any fewer than 2^60 operations, less than three entries per bucket on average.
\<close>

theorem lhash_load_bounded:
  assumes "OPENSSL_lh_new a hash cmp = Some lh"
    and "equivp (\<lambda>x y. cmp x y = 0)" and "\<And>x y. cmp x y = 0 \<Longrightarrow> hash x = hash y"
    and "never_fails a" and "length ops < 2 ^ 60" and "run (lh_step a) ops lh = (rs, lh')"
  shows "num_items lh' < 3 * num_buckets lh' \<and> kMinNumBuckets \<le> num_buckets lh'
    \<and> num_items lh' = size (lh_contents lh')"
proof -
  note inv = OPENSSL_lh_new_inv [OF assms(1-3)]
  have "callback_depth lh = 0" "num_items lh = 0" "0 < num_buckets lh"
    using assms(1) by (auto simp: OPENSSL_lh_new_def kMinNumBuckets_def split: option.splits)
  then have "lh_loaded cmp 0 lh" using inv by (simp add: lh_loaded_def)
  then have "lh_loaded cmp (0 + length ops) lh'"
    by (rule lh_loaded_run [OF assms(4) _ _ assms(6)]) (use assms(5) in simp)
  then show ?thesis using assms(5) by (auto simp: lh_loaded_def lh_inv_def lh_wf_def)
qed

theorem lhash_load_bounded_witness:
  "\<exists>lh rs lh'. OPENSSL_lh_new example_alloc (\<lambda>x :: int. of_int x) (\<lambda>x y. x - y) = Some lh
     \<and> run (lh_step example_alloc) (map LInsert [1..100]) lh = (rs, lh') \<and> num_items lh' < 3 * num_buckets lh'"
proof -
  obtain lh where lh: "OPENSSL_lh_new example_alloc (\<lambda>x :: int. of_int x) (\<lambda>x y. x - y) = Some lh"
    using example_table by blast
  obtain rs lh' where r: "run (lh_step example_alloc) (map LInsert [1..100]) lh = (rs, lh')" by fastforce
  have n: "never_fails example_alloc" by (simp add: never_fails_def example_alloc_def)
  have "num_items lh' < 3 * num_buckets lh'"
    using lhash_load_bounded [OF lh int_keys _ n _ r] by simp
  then show ?thesis using lh r by blast
qed

end
