(* ===== verification/Uv_Heap.thy ===== *)
theory Uv_Heap
  imports Byte_Prelude
begin

text \<open>
  \<^verbatim>\<open>libuv: src/heap-inl.h\<close>, the intrusive binary heap behind the timers. A node is an address, the
  store \<open>nodes\<close> holds the three pointers of each node, \<open>None\<close> is NULL. A \<^verbatim>\<open>struct heap_node **\<close> is a
  \<open>slot\<close>: the root pointer of the heap, or one of the child pointers of a node. The loops are
  partial functions: \<open>None\<close> is a NULL that would be dereferenced or a loop that does not end.
\<close>

section \<open>Operations\<close>

type_synonym node = nat

record heap_node =
  left :: "node option"
  right :: "node option"
  parent :: "node option"

record heap =
  heap_root :: "node option"
  nelts :: nat
  nodes :: "node \<Rightarrow> heap_node"

datatype slot = Root | LeftOf node | RightOf node

definition heap_init :: "heap \<Rightarrow> heap" where
  "heap_init h = h\<lparr>heap_root := None, nelts := 0\<rparr>"

definition heap_min :: "heap \<Rightarrow> node option" where
  "heap_min h = heap_root h"

definition set_left :: "node \<Rightarrow> node option \<Rightarrow> heap \<Rightarrow> heap" where
  "set_left x v h = h\<lparr>nodes := (nodes h)(x := (nodes h x)\<lparr>left := v\<rparr>)\<rparr>"

definition set_right :: "node \<Rightarrow> node option \<Rightarrow> heap \<Rightarrow> heap" where
  "set_right x v h = h\<lparr>nodes := (nodes h)(x := (nodes h x)\<lparr>right := v\<rparr>)\<rparr>"

definition set_parent :: "node \<Rightarrow> node option \<Rightarrow> heap \<Rightarrow> heap" where
  "set_parent x v h = h\<lparr>nodes := (nodes h)(x := (nodes h x)\<lparr>parent := v\<rparr>)\<rparr>"

text \<open>\<^verbatim>\<open>if (p != NULL) p->parent = v\<close>\<close>

definition set_parent_opt :: "node option \<Rightarrow> node \<Rightarrow> heap \<Rightarrow> heap" where
  "set_parent_opt p v h = (case p of None \<Rightarrow> h | Some x \<Rightarrow> set_parent x (Some v) h)"

text \<open>The pointer that leads to \<open>old\<close> from its parent \<open>p\<close>, or from the root, is set to \<open>new\<close>.\<close>

definition relink :: "node option \<Rightarrow> node \<Rightarrow> node \<Rightarrow> heap \<Rightarrow> heap" where
  "relink p old new h =
     (case p of
        None \<Rightarrow> h\<lparr>heap_root := Some new\<rparr>
      | Some g \<Rightarrow> if left (nodes h g) = Some old then set_left g (Some new) h else set_right g (Some new) h)"

definition heap_node_swap :: "heap \<Rightarrow> node \<Rightarrow> node \<Rightarrow> heap" where
  "heap_node_swap h p c =
     (let h1 = h\<lparr>nodes := (nodes h)(p := nodes h c, c := nodes h p)\<rparr>;
          h2 = set_parent p (Some c) h1;
          (h3, sibling) =
            (if left (nodes h2 c) = Some c then (set_left c (Some p) h2, right (nodes h2 c))
             else (set_right c (Some p) h2, left (nodes h2 c)));
          h4 = set_parent_opt sibling c h3;
          h5 = set_parent_opt (left (nodes h4 p)) p h4;
          h6 = set_parent_opt (right (nodes h5 p)) p h5
      in relink (parent (nodes h6 c)) p c h6)"

text \<open>The path from the root to the \<open>n\<close>-th node in level order, lowest bit first; the number of steps.\<close>

fun path_loop :: "nat \<Rightarrow> nat \<Rightarrow> nat \<Rightarrow> nat \<times> nat" where
  "path_loop n k path =
     (if n \<ge> 2 then path_loop (n div 2) (k + 1) ((path * 2) mod 2 ^ 32 + n mod 2) else (k, path))"

declare path_loop.simps [simp del]

definition read_slot :: "heap \<Rightarrow> slot \<Rightarrow> node option" where
  "read_slot h s = (case s of Root \<Rightarrow> heap_root h | LeftOf x \<Rightarrow> left (nodes h x) | RightOf x \<Rightarrow> right (nodes h x))"

definition write_slot :: "slot \<Rightarrow> node option \<Rightarrow> heap \<Rightarrow> heap" where
  "write_slot s v h =
     (case s of Root \<Rightarrow> h\<lparr>heap_root := v\<rparr> | LeftOf x \<Rightarrow> set_left x v h | RightOf x \<Rightarrow> set_right x v h)"

fun walk :: "heap \<Rightarrow> nat \<Rightarrow> nat \<Rightarrow> slot \<times> slot \<Rightarrow> (slot \<times> slot) option" where
  "walk h 0 path ps = Some ps"
| "walk h (Suc k) path (par, child) =
     (case read_slot h child of
        None \<Rightarrow> None
      | Some x \<Rightarrow> walk h k (path div 2) (child, if odd path then RightOf x else LeftOf x))"

partial_function (option) heap_up :: "(node \<Rightarrow> node \<Rightarrow> bool) \<Rightarrow> heap \<Rightarrow> node \<Rightarrow> heap option" where
  "heap_up lt h x =
     (case parent (nodes h x) of
        None \<Rightarrow> Some h
      | Some p \<Rightarrow> if lt x p then heap_up lt (heap_node_swap h p x) x else Some h)"

definition smallest :: "(node \<Rightarrow> node \<Rightarrow> bool) \<Rightarrow> heap \<Rightarrow> node \<Rightarrow> node" where
  "smallest lt h child =
     (let s = child;
          s = (case left (nodes h child) of Some l \<Rightarrow> if lt l s then l else s | None \<Rightarrow> s)
      in (case right (nodes h child) of Some r \<Rightarrow> if lt r s then r else s | None \<Rightarrow> s))"

partial_function (option) heap_down :: "(node \<Rightarrow> node \<Rightarrow> bool) \<Rightarrow> heap \<Rightarrow> node \<Rightarrow> heap option" where
  "heap_down lt h child =
     (let s = smallest lt h child in
      if s = child then Some h else heap_down lt (heap_node_swap h child s) child)"

definition heap_insert :: "(node \<Rightarrow> node \<Rightarrow> bool) \<Rightarrow> heap \<Rightarrow> node \<Rightarrow> heap option" where
  "heap_insert lt h newnode =
     (let h1 = h\<lparr>nodes := (nodes h)(newnode := \<lparr>left = None, right = None, parent = None\<rparr>)\<rparr>;
          (k, path) = path_loop ((1 + nelts h) mod 2 ^ 32) 0 0
      in case walk h1 k path (Root, Root) of
           None \<Rightarrow> None
         | Some (par, child) \<Rightarrow>
             (let h2 = set_parent newnode (read_slot h1 par) h1;
                  h3 = write_slot child (Some newnode) h2;
                  h4 = h3\<lparr>nelts := (nelts h3 + 1) mod 2 ^ 32\<rparr>
              in heap_up lt h4 newnode))"

definition heap_remove :: "(node \<Rightarrow> node \<Rightarrow> bool) \<Rightarrow> heap \<Rightarrow> node \<Rightarrow> heap option" where
  "heap_remove lt h x =
     (if nelts h = 0 then Some h
      else
        (let (k, path) = path_loop (nelts h) 0 0 in
         case walk h k path (Root, Root) of
           None \<Rightarrow> None
         | Some (_, mx) \<Rightarrow>
             (let h1 = h\<lparr>nelts := nelts h - 1\<rparr> in
              case read_slot h1 mx of
                None \<Rightarrow> None
              | Some child \<Rightarrow>
                  (let h2 = write_slot mx None h1 in
                   if child = x then
                     Some (if heap_root h2 = Some child then h2\<lparr>heap_root := None\<rparr> else h2)
                   else
                     (let h3 = h2\<lparr>nodes := (nodes h2)(child := nodes h2 x)\<rparr>;
                          h4 = set_parent_opt (left (nodes h3 child)) child h3;
                          h5 = set_parent_opt (right (nodes h4 child)) child h4;
                          h6 = relink (parent (nodes h5 x)) x child h5
                      in case heap_down lt h6 child of
                           None \<Rightarrow> None
                         | Some h7 \<Rightarrow> heap_up lt h7 child)))))"

definition heap_dequeue :: "(node \<Rightarrow> node \<Rightarrow> bool) \<Rightarrow> heap \<Rightarrow> heap option" where
  "heap_dequeue lt h = (case heap_min h of None \<Rightarrow> if nelts h = 0 then Some h else None | Some m \<Rightarrow> heap_remove lt h m)"

section \<open>The tree in level order\<close>

text \<open>
  The shape: the nodes are \<open>f 1, ..., f n\<close> in level order, and every pointer is the one that a
  complete binary tree with this numbering has.
\<close>

definition at_index :: "(nat \<Rightarrow> node) \<Rightarrow> nat \<Rightarrow> nat \<Rightarrow> node option" where
  "at_index f n k = (if k \<le> n then Some (f k) else None)"

definition shape :: "heap \<Rightarrow> (nat \<Rightarrow> node) \<Rightarrow> nat \<Rightarrow> bool" where
  "shape h f n \<longleftrightarrow> nelts h = n \<and> heap_root h = at_index f n 1 \<and> inj_on f {1..n} \<and>
     (\<forall>k. 1 \<le> k \<longrightarrow> k \<le> n \<longrightarrow> left (nodes h (f k)) = at_index f n (2 * k)
        \<and> right (nodes h (f k)) = at_index f n (2 * k + 1)
        \<and> parent (nodes h (f k)) = (if k = 1 then None else Some (f (k div 2))))"

lemma shape_inj: "shape h f n \<Longrightarrow> 1 \<le> a \<Longrightarrow> a \<le> n \<Longrightarrow> 1 \<le> b \<Longrightarrow> b \<le> n \<Longrightarrow> f a = f b \<longleftrightarrow> a = b"
  unfolding shape_def by (metis atLeastAtMost_iff inj_on_eq_iff)

lemma shape_nodes:
  assumes "shape h f n" "1 \<le> k" "k \<le> n"
  shows "left (nodes h (f k)) = at_index f n (2 * k)" "right (nodes h (f k)) = at_index f n (2 * k + 1)"
    "parent (nodes h (f k)) = (if k = 1 then None else Some (f (k div 2)))"
  using assms unfolding shape_def by blast+

subsection \<open>Swapping a node with its child\<close>

lemma set_parent_opt_fields [simp]:
  "left (nodes (set_parent_opt q v h) x) = left (nodes h x)"
  "right (nodes (set_parent_opt q v h) x) = right (nodes h x)"
  "parent (nodes (set_parent_opt q v h) x) = (if q = Some x then Some v else parent (nodes h x))"
  "heap_root (set_parent_opt q v h) = heap_root h" "nelts (set_parent_opt q v h) = nelts h"
  by (simp_all add: set_parent_opt_def set_parent_def split: option.splits)

lemma set_parent_other [simp]: "nelts (set_parent x v h) = nelts h" "heap_root (set_parent x v h) = heap_root h"
  by (simp_all add: set_parent_def)

lemma relink_fields [simp]:
  "left (nodes (relink q old new h) x) = (if q = Some x \<and> left (nodes h x) = Some old then Some new else left (nodes h x))"
  "right (nodes (relink q old new h) x) = (if q = Some x \<and> left (nodes h x) \<noteq> Some old then Some new else right (nodes h x))"
  "parent (nodes (relink q old new h) x) = parent (nodes h x)"
  "heap_root (relink q old new h) = (if q = None then Some new else heap_root h)" "nelts (relink q old new h) = nelts h"
  by (simp_all add: relink_def set_left_def set_right_def split: option.splits)

text \<open>The exchange of the two nodes, before the pointers of their neighbours are mended.\<close>

definition exchanged :: "heap \<Rightarrow> node \<Rightarrow> node \<Rightarrow> heap" where
  "exchanged h p c =
     (let h1 = set_parent p (Some c) (h\<lparr>nodes := (nodes h)(p := nodes h c, c := nodes h p)\<rparr>)
      in if left (nodes h p) = Some c then set_left c (Some p) h1 else set_right c (Some p) h1)"

lemma exchanged_fields [simp]:
  assumes "p \<noteq> c"
  shows "left (nodes (exchanged h p c) x) =
      (if x = p then left (nodes h c) else if x = c then if left (nodes h p) = Some c then Some p else left (nodes h p)
       else left (nodes h x))"
    "right (nodes (exchanged h p c) x) =
      (if x = p then right (nodes h c) else if x = c then if left (nodes h p) = Some c then right (nodes h p) else Some p
       else right (nodes h x))"
    "parent (nodes (exchanged h p c) x) =
      (if x = p then Some c else if x = c then parent (nodes h p) else parent (nodes h x))"
    "heap_root (exchanged h p c) = heap_root h" "nelts (exchanged h p c) = nelts h"
  using assms by (simp_all add: exchanged_def set_parent_def set_left_def set_right_def Let_def)

definition sibling :: "heap \<Rightarrow> node \<Rightarrow> node \<Rightarrow> node option" where
  "sibling h p c = (if left (nodes h p) = Some c then right (nodes h p) else left (nodes h p))"

lemma heap_node_swap_eq:
  assumes "p \<noteq> c"
  shows "heap_node_swap h p c =
    (let h4 = set_parent_opt (sibling h p c) c (exchanged h p c);
         h6 = set_parent_opt (right (nodes h c)) p (set_parent_opt (left (nodes h c)) p h4)
     in relink (parent (nodes h6 c)) p c h6)"
  using assms by (auto simp: heap_node_swap_def exchanged_def sibling_def Let_def set_parent_def set_left_def set_right_def)

text \<open>What a swap does to each node, when the nodes around the edge are different ones.\<close>

lemma heap_node_swap_effect:
  assumes pc: "p \<noteq> c"
    and d: "sibling h p c \<noteq> Some p" "sibling h p c \<noteq> Some c" "left (nodes h c) \<noteq> Some p" "left (nodes h c) \<noteq> Some c"
      "right (nodes h c) \<noteq> Some p" "right (nodes h c) \<noteq> Some c"
      "parent (nodes h p) \<noteq> Some p" "parent (nodes h p) \<noteq> Some c"
  shows "nelts (heap_node_swap h p c) = nelts h"
    and "heap_root (heap_node_swap h p c) = (if parent (nodes h p) = None then Some c else heap_root h)"
    and "left (nodes (heap_node_swap h p c) x) =
      (if x = p then left (nodes h c) else if x = c then if left (nodes h p) = Some c then Some p else left (nodes h p)
       else if parent (nodes h p) = Some x \<and> left (nodes h x) = Some p then Some c else left (nodes h x))"
    and "right (nodes (heap_node_swap h p c) x) =
      (if x = p then right (nodes h c) else if x = c then if left (nodes h p) = Some c then right (nodes h p) else Some p
       else if parent (nodes h p) = Some x \<and> left (nodes h x) \<noteq> Some p then Some c else right (nodes h x))"
    and "parent (nodes (heap_node_swap h p c) x) =
      (if x = p then Some c else if x = c then parent (nodes h p)
       else if left (nodes h c) = Some x \<or> right (nodes h c) = Some x then Some p
       else if sibling h p c = Some x then Some c else parent (nodes h x))"
  using assms by (simp_all add: heap_node_swap_eq Let_def)

lemma at_index_eq:
  assumes "shape h f n" "1 \<le> m" "1 \<le> a" "a \<le> n"
  shows "at_index f n m = Some (f a) \<longleftrightarrow> m = a"
  using shape_inj [OF assms(1,2) _ assms(3,4)] assms(4) by (auto simp: at_index_def)

lemma parent_eq:
  assumes "shape h f n" "1 \<le> k" "k \<le> n" "1 \<le> a" "a \<le> n"
  shows "parent (nodes h (f k)) = Some (f a) \<longleftrightarrow> 2 \<le> k \<and> k div 2 = a"
proof (cases "k = 1")
  case False
  then have "1 \<le> k div 2" "k div 2 \<le> n" using assms(2,3) by linarith+
  then show ?thesis using False assms shape_nodes(3) [OF assms(1-3)] shape_inj [OF assms(1) _ _ assms(4,5)] by auto
qed (use shape_nodes(3) [OF assms(1-3)] in simp)

lemma inj_on_exchange:
  assumes "inj_on f S" "i \<in> S" "c \<in> S" shows "inj_on (f(i := f c, c := f i)) S"
  using assms unfolding inj_on_def by (auto split: if_splits)

lemma shape_swap:
  assumes sh: "shape h f n" and i: "1 \<le> i" and c: "c = 2 * i \<or> c = 2 * i + 1" "c \<le> n"
  defines "f' \<equiv> f(i := f c, c := f i)"
  shows "shape (heap_node_swap h (f i) (f c)) f' n"
proof -
  let ?h' = "heap_node_swap h (f i) (f c)"
  have r: "i \<le> n" "1 \<le> c" "i \<noteq> c" "c div 2 = i" using i c by auto
  note N = shape_nodes [OF sh] and I = shape_inj [OF sh] and A = at_index_eq [OF sh] and P = parent_eq [OF sh]
  have lf: "left (nodes h (f i)) = Some (f c) \<longleftrightarrow> c = 2 * i"
    using N(1) [OF i r(1)] A [of "2 * i" c] r c(2) i by auto
  have sb: "sibling h (f i) (f c) = at_index f n (if c = 2 * i then 2 * i + 1 else 2 * i)"
    using N(1,2) [OF i r(1)] lf by (simp add: sibling_def)
  have pc: "f i \<noteq> f c" using I [OF i r(1) r(2) c(2)] r(3) by simp
  have D: "sibling h (f i) (f c) \<noteq> Some (f i)" "sibling h (f i) (f c) \<noteq> Some (f c)"
    "left (nodes h (f c)) \<noteq> Some (f i)" "left (nodes h (f c)) \<noteq> Some (f c)"
    "right (nodes h (f c)) \<noteq> Some (f i)" "right (nodes h (f c)) \<noteq> Some (f c)"
    "parent (nodes h (f i)) \<noteq> Some (f i)" "parent (nodes h (f i)) \<noteq> Some (f c)"
    unfolding sb N(1,2) [OF r(2) c(2)]
    using A P [OF i r(1)] i r c by auto
  note E = heap_node_swap_effect [OF pc D]
  have "left (nodes ?h' (f' k)) = at_index f' n (2 * k) \<and> right (nodes ?h' (f' k)) = at_index f' n (2 * k + 1)
      \<and> parent (nodes ?h' (f' k)) = (if k = 1 then None else Some (f' (k div 2)))" if k: "1 \<le> k" "k \<le> n" for k
  proof -
    consider "k = i" | "k = c" | "k \<noteq> i" "k \<noteq> c" by blast
    then show ?thesis
    proof cases
      case 1
      have "at_index f' n (2 * i) = (if c = 2 * i then Some (f i) else at_index f n (2 * i))"
        "at_index f' n (2 * i + 1) = (if c = 2 * i then at_index f n (2 * i + 1) else Some (f i))"
        "i \<noteq> 1 \<Longrightarrow> f' (i div 2) = f (i div 2)" "f' i = f c"
        using c i r by (auto simp: at_index_def f'_def)
      then show ?thesis using 1 pc lf N [OF i r(1)] by (simp add: E)
    next
      case 2
      have "at_index f' n (2 * c) = at_index f n (2 * c)" "at_index f' n (2 * c + 1) = at_index f n (2 * c + 1)"
        "f' (c div 2) = f c" "f' c = f i" "c \<noteq> 1"
        using c i r by (auto simp: at_index_def f'_def)
      then show ?thesis using 2 N(1,2) [OF r(2) c(2)] by (simp add: E)
    next
      case 3
      then have ne: "f k \<noteq> f i" "f k \<noteq> f c" using I k i r c(2) by auto
      have F: "f' k = f k" using 3 by (simp add: f'_def)
      have g: "parent (nodes h (f i)) = Some (f k) \<longleftrightarrow> 2 \<le> i \<and> i div 2 = k" using P [OF i r(1) k] .
      have lk: "left (nodes h (f k)) = Some (f i) \<longleftrightarrow> 2 * k = i" using N(1) [OF k] A [of "2 * k" i] k i r(1) by simp
      have a: "2 * k \<noteq> c" "2 * k + 1 \<noteq> c" using c(1) 3(1) by presburger+
      have ar: "2 \<le> i \<and> i div 2 = k \<and> 2 * k = i \<longleftrightarrow> 2 * k = i" "2 \<le> i \<and> i div 2 = k \<and> 2 * k \<noteq> i \<longleftrightarrow> 2 * k + 1 = i"
        using k(1) by presburger+
      have "left (nodes ?h' (f k)) = (if 2 * k = i then Some (f c) else at_index f n (2 * k))"
        "right (nodes ?h' (f k)) = (if 2 * k + 1 = i then Some (f c) else at_index f n (2 * k + 1))"
        unfolding E(3,4) g lk conj_assoc ar unfolding N(1,2) [OF k] using ne by simp_all
      then have "left (nodes ?h' (f k)) = at_index f' n (2 * k)" "right (nodes ?h' (f k)) = at_index f' n (2 * k + 1)"
        using a r(1) by (auto simp: f'_def at_index_def)
      moreover have "parent (nodes ?h' (f k)) = (if k = 1 then None else Some (f' (k div 2)))"
      proof -
        have a: "at_index f n (2 * m) = Some (f k) \<longleftrightarrow> 2 * m = k" "at_index f n (2 * m + 1) = Some (f k) \<longleftrightarrow> 2 * m + 1 = k"
          if "1 \<le> m" for m using that A [OF _ k] by simp_all
        have "left (nodes h (f c)) = Some (f k) \<or> right (nodes h (f c)) = Some (f k) \<longleftrightarrow> k div 2 = c"
          unfolding N(1,2) [OF r(2) c(2)] a [OF r(2)] by presburger
        moreover have "sibling h (f i) (f c) = Some (f k) \<longleftrightarrow> k div 2 = i"
          unfolding sb if_distrib [of "\<lambda>m. at_index f n m = Some (f k)"] a [OF i] using 3(2) c(1) by presburger
        ultimately show ?thesis
          unfolding E(5) N(3) [OF k] using ne i r by (auto simp: f'_def)
      qed
      ultimately show ?thesis by (simp add: F)
    qed
  qed
  moreover have "inj_on f' {1..n}"
    using sh i r c(2) unfolding f'_def shape_def by (intro inj_on_exchange) auto
  moreover have "nelts ?h' = n" using E(1) sh by (simp add: shape_def)
  moreover have "heap_root ?h' = at_index f' n 1"
    using E(2) sh N(3) [OF i r(1)] c i r by (auto simp: shape_def f'_def at_index_def)
  ultimately show ?thesis by (simp add: shape_def)
qed

subsection \<open>The path to a position\<close>

fun depth :: "nat \<Rightarrow> nat" where
  "depth m = (if m < 2 then 0 else Suc (depth (m div 2)))"

fun turns :: "nat \<Rightarrow> nat" where
  "turns m = (if m < 2 then 0 else (m mod 2) * 2 ^ depth (m div 2) + turns (m div 2))"

declare depth.simps [simp del] turns.simps [simp del]

definition slot_of :: "(nat \<Rightarrow> node) \<Rightarrow> nat \<Rightarrow> slot" where
  "slot_of f m = (if m < 2 then Root else if even m then LeftOf (f (m div 2)) else RightOf (f (m div 2)))"

lemma power_depth: "1 \<le> m \<Longrightarrow> 2 ^ depth m \<le> m"
proof (induction m rule: depth.induct)
  case (1 m)
  show ?case
  proof (cases "m < 2")
    case False
    then have "2 ^ depth (m div 2) \<le> m div 2" using 1 by simp
    then show ?thesis using False by (simp add: depth.simps [of m])
  qed (use 1 in \<open>simp add: depth.simps [of m]\<close>)
qed

lemma path_loop_turns:
  "(p + 1) * 2 ^ depth m \<le> 2 ^ 32 \<Longrightarrow> path_loop m k p = (k + depth m, p * 2 ^ depth m + turns m)"
proof (induction m arbitrary: k p rule: depth.induct)
  case (1 m)
  show ?case
  proof (cases "m < 2")
    case True
    then show ?thesis by (simp add: path_loop.simps depth.simps [of m] turns.simps [of m])
  next
    case False
    let ?d = "depth (m div 2)" and ?p = "2 * p + m mod 2"
    have d: "depth m = Suc ?d" "turns m = (m mod 2) * 2 ^ ?d + turns (m div 2)"
      using False by (simp_all add: depth.simps [of m] turns.simps [of m])
    have "(?p + 1) * 2 ^ ?d \<le> (2 * p + 2) * 2 ^ ?d" by (intro mult_right_mono) auto
    also have "\<dots> = (p + 1) * 2 ^ depth m" by (simp add: d(1) algebra_simps)
    finally have b: "(?p + 1) * 2 ^ ?d \<le> 2 ^ 32" using 1(2) by linarith
    have "(?p + 1) * 1 \<le> (?p + 1) * 2 ^ ?d" by (intro mult_left_mono) auto
    from order_trans [OF this b] have "?p + 1 \<le> 2 ^ 32" by simp
    then have "2 * p < 2 ^ 32" by linarith
    then show ?thesis
      using 1(1) [OF False b, of "Suc k"] False d by (simp add: path_loop.simps [of m] algebra_simps)
  qed
qed

lemma path_loop_start: "m < 2 ^ 32 \<Longrightarrow> path_loop m 0 0 = (depth m, turns m)"
  using path_loop_turns [of 0 m 0] power_depth [of m] by (cases "m = 0") (auto simp: depth.simps [of 0])

lemma walk_slot:
  assumes "\<And>j. 1 \<le> j \<Longrightarrow> j \<le> n \<Longrightarrow> read_slot h (slot_of f j) = Some (f j)" and "m div 2 \<le> n"
  shows "walk h (depth m + r) (turns m + e * 2 ^ depth m) (Root, Root) = walk h r e (slot_of f (m div 2), slot_of f m)"
  using assms(2)
proof (induction m arbitrary: r e rule: depth.induct)
  case (1 m)
  show ?case
  proof (cases "m < 2")
    case True
    then show ?thesis by (simp add: depth.simps [of m] turns.simps [of m] slot_of_def)
  next
    case False
    let ?i = "m div 2"
    have i: "1 \<le> ?i" "?i div 2 \<le> n" using False 1(2) by auto
    have e: "depth m + r = depth ?i + Suc r" "turns m + e * 2 ^ depth m = turns ?i + (2 * e + m mod 2) * 2 ^ depth ?i"
      using False by (simp_all add: depth.simps [of m] turns.simps [of m] algebra_simps)
    have s: "slot_of f m = (if odd (2 * e + m mod 2) then RightOf (f ?i) else LeftOf (f ?i))"
      "(2 * e + m mod 2) div 2 = e"
      using False by (auto simp: slot_of_def)
    show ?thesis
      unfolding e 1(1) [OF False i(2)] walk.simps assms(1) [OF i(1) 1(2)] s by simp
  qed
qed

lemma shape_slot:
  assumes "shape h f n" "1 \<le> j" "j \<le> n" shows "read_slot h (slot_of f j) = Some (f j)"
proof (cases "j < 2")
  case True
  then have "j = 1" using assms(2) by simp
  then show ?thesis using assms by (simp add: slot_of_def read_slot_def shape_def at_index_def)
next
  case False
  then have i: "1 \<le> j div 2" "j div 2 \<le> n" using assms(3) by linarith+
  show ?thesis using False shape_nodes [OF assms(1) i] assms(3)
    by (auto simp: slot_of_def read_slot_def at_index_def elim!: evenE oddE)
qed

lemma write_slot_fields [simp]:
  "left (nodes (write_slot s v h) x) = (if s = LeftOf x then v else left (nodes h x))"
  "right (nodes (write_slot s v h) x) = (if s = RightOf x then v else right (nodes h x))"
  "parent (nodes (write_slot s v h) x) = parent (nodes h x)"
  "heap_root (write_slot s v h) = (if s = Root then v else heap_root h)" "nelts (write_slot s v h) = nelts h"
  by (auto simp: write_slot_def set_left_def set_right_def split: slot.splits)

lemma slot_of_eq:
  assumes "inj_on f {1..n}" "1 \<le> k" "k \<le> n" "m div 2 \<le> n"
  shows "slot_of f m = LeftOf (f k) \<longleftrightarrow> m = 2 * k" "slot_of f m = RightOf (f k) \<longleftrightarrow> m = 2 * k + 1"
    "slot_of f m = Root \<longleftrightarrow> m < 2"
proof -
  have "f (m div 2) = f k \<longleftrightarrow> m div 2 = k" if "2 \<le> m"
    using that assms inj_on_eq_iff [OF assms(1), of "m div 2" k] by auto
  then show "slot_of f m = LeftOf (f k) \<longleftrightarrow> m = 2 * k" "slot_of f m = RightOf (f k) \<longleftrightarrow> m = 2 * k + 1"
    "slot_of f m = Root \<longleftrightarrow> m < 2"
    using assms(2) by (auto simp: slot_of_def)
qed

subsection \<open>Linking and unlinking\<close>

lemma shape_append:
  assumes sh: "shape h f n" and x: "x \<notin> f ` {1..n}"
    and root: "heap_root h' = (if n = 0 then Some x else heap_root h)" and cnt: "nelts h' = n + 1"
    and L: "\<And>y. left (nodes h' y) = (if y = x then None else if slot_of f (n + 1) = LeftOf y then Some x else left (nodes h y))"
    and R: "\<And>y. right (nodes h' y) = (if y = x then None else if slot_of f (n + 1) = RightOf y then Some x else right (nodes h y))"
    and P: "\<And>y. parent (nodes h' y) = (if y = x then if n = 0 then None else Some (f ((n + 1) div 2)) else parent (nodes h y))"
  shows "shape h' (f(n + 1 := x)) (n + 1)"
proof -
  let ?f = "f(n + 1 := x)"
  have inj: "inj_on f {1..n}" using sh by (simp add: shape_def)
  have "inj_on ?f {1..n}" using inj x by (intro inj_on_fun_updI)
  moreover have "?f ` {1..n} = f ` {1..n}" by (intro image_cong) auto
  moreover have "{1..n + 1} = insert (n + 1) {1..n}" by auto
  ultimately have i2: "inj_on ?f {1..n + 1}" using x by (simp add: inj_on_insert)
  have "left (nodes h' (?f k)) = at_index ?f (n + 1) (2 * k) \<and> right (nodes h' (?f k)) = at_index ?f (n + 1) (2 * k + 1)
      \<and> parent (nodes h' (?f k)) = (if k = 1 then None else Some (?f (k div 2)))" if k: "1 \<le> k" "k \<le> n + 1" for k
  proof (cases "k = n + 1")
    case True
    then have "(n + 1) div 2 \<le> n" using k(1) by linarith
    then show ?thesis using True k by (auto simp: L R P at_index_def)
  next
    case False
    then have k': "k \<le> n" and fk: "f k \<noteq> x" "?f k = f k" using k x by auto
    have m: "(n + 1) div 2 \<le> n" using k' k(1) by linarith
    note S = slot_of_eq [OF inj k(1) k' m]
    have "k div 2 \<noteq> n + 1" using k' by linarith
    then show ?thesis
      unfolding fk(2) L R P S shape_nodes [OF sh k(1) k'] using fk k' by (auto simp: at_index_def)
  qed
  moreover have "heap_root h' = at_index ?f (n + 1) 1"
    using root sh by (auto simp: shape_def at_index_def)
  ultimately show ?thesis using cnt i2 by (simp add: shape_def)
qed

lemma shape_unlink:
  assumes sh: "shape h f n" and n: "1 \<le> n"
  shows "shape (write_slot (slot_of f n) None (h\<lparr>nelts := n - 1\<rparr>)) f (n - 1)"
proof -
  let ?h = "write_slot (slot_of f n) None (h\<lparr>nelts := n - 1\<rparr>)"
  have inj: "inj_on f {1..n}" using sh by (simp add: shape_def)
  then have i2: "inj_on f {1..n - 1}" by (rule inj_on_subset) auto
  have "left (nodes ?h (f k)) = at_index f (n - 1) (2 * k) \<and> right (nodes ?h (f k)) = at_index f (n - 1) (2 * k + 1)
      \<and> parent (nodes ?h (f k)) = (if k = 1 then None else Some (f (k div 2)))" if k: "1 \<le> k" "k \<le> n - 1" for k
  proof -
    have k': "k \<le> n" "n div 2 \<le> n" using k by linarith+
    note S = slot_of_eq [OF inj k(1) k']
    have "at_index f (n - 1) m = (if m = n then None else at_index f n m)" if "1 \<le> m" for m
      using that n by (auto simp: at_index_def)
    then show ?thesis using shape_nodes [OF sh k(1) k'(1)] S k(1) by auto
  qed
  moreover have "heap_root ?h = at_index f (n - 1) 1"
    using sh n slot_of_eq(3) [OF inj, of 1 n] by (auto simp: shape_def at_index_def)
  ultimately show ?thesis using i2 by (simp add: shape_def)
qed

lemma shape_replace:
  assumes sh: "shape h f n" and j: "1 \<le> j" "j \<le> n" and y: "y \<notin> f ` {1..n}"
    and h3: "h3 = h\<lparr>nodes := (nodes h)(y := nodes h (f j))\<rparr>"
  shows "shape (relink (parent (nodes h (f j))) (f j) y
      (set_parent_opt (right (nodes h (f j))) y (set_parent_opt (left (nodes h (f j))) y h3))) (f(j := y)) n"
proof -
  let ?f = "f(j := y)" and ?x = "f j"
  let ?h = "relink (parent (nodes h ?x)) ?x y (set_parent_opt (right (nodes h ?x)) y (set_parent_opt (left (nodes h ?x)) y h3))"
  have inj: "inj_on f {1..n}" using sh by (simp add: shape_def)
  have i2: "inj_on ?f {1..n}" using inj y by (intro inj_on_fun_updI)
  note N = shape_nodes [OF sh] and A = at_index_eq [OF sh] and P = parent_eq [OF sh]
  have "left (nodes ?h (?f k)) = at_index ?f n (2 * k) \<and> right (nodes ?h (?f k)) = at_index ?f n (2 * k + 1)
      \<and> parent (nodes ?h (?f k)) = (if k = 1 then None else Some (?f (k div 2)))" if k: "1 \<le> k" "k \<le> n" for k
  proof (cases "k = j")
    case True
    have "left (nodes h ?x) \<noteq> Some y" "right (nodes h ?x) \<noteq> Some y"
      unfolding N(1,2) [OF j] using y j by (auto simp: at_index_def)
    moreover have "parent (nodes h ?x) \<noteq> Some y"
    proof (cases "j = 1")
      case False
      then have "1 \<le> j div 2" "j div 2 \<le> n" using j by linarith+
      then show ?thesis using N(3) [OF j] False y by auto
    qed (use N(3) [OF j] in simp)
    moreover have "at_index ?f n (2 * j) = at_index f n (2 * j)" "at_index ?f n (2 * j + 1) = at_index f n (2 * j + 1)"
      "j \<noteq> 1 \<Longrightarrow> ?f (j div 2) = f (j div 2)"
      using j by (auto simp: at_index_def)
    ultimately show ?thesis using True N [OF j] by (simp add: h3)
  next
    case False
    then have ky: "f k \<noteq> y" "?f k = f k" using y k by auto
    have g: "parent (nodes h ?x) = Some (f k) \<longleftrightarrow> 2 \<le> j \<and> j div 2 = k" using P [OF j k] .
    have lk: "left (nodes h (f k)) = Some ?x \<longleftrightarrow> 2 * k = j" using N(1) [OF k] A [of "2 * k" j] k j by simp
    have c: "left (nodes h ?x) = Some (f k) \<longleftrightarrow> k = 2 * j" "right (nodes h ?x) = Some (f k) \<longleftrightarrow> k = 2 * j + 1"
      using N(1,2) [OF j] A [of "2 * j" k] A [of "2 * j + 1" k] k j by auto
    have ar: "2 \<le> j \<and> j div 2 = k \<and> 2 * k = j \<longleftrightarrow> 2 * k = j" "2 \<le> j \<and> j div 2 = k \<and> 2 * k \<noteq> j \<longleftrightarrow> 2 * k + 1 = j"
      using k(1) by presburger+
    have "left (nodes ?h (f k)) = (if 2 * k = j then Some y else left (nodes h (f k)))"
      "right (nodes ?h (f k)) = (if 2 * k + 1 = j then Some y else right (nodes h (f k)))"
      using ky(1) g lk ar by (auto simp: h3)
    moreover have "parent (nodes ?h (f k)) = (if k div 2 = j then Some y else parent (nodes h (f k)))"
      using ky(1) c by (auto simp: h3)
    ultimately show ?thesis using N [OF k] ky(2) j k by (auto simp: at_index_def)
  qed
  moreover have "heap_root ?h = at_index ?f n 1"
    using sh j N(3) [OF j] by (auto simp: h3 shape_def at_index_def)
  moreover have "nelts ?h = n" using sh by (simp add: h3 shape_def)
  ultimately show ?thesis using i2 by (simp add: shape_def)
qed

section \<open>The order of the heap\<close>

text \<open>The edge from \<open>k\<close> to its parent is in order.\<close>

definition edge_ok :: "(node \<Rightarrow> node \<Rightarrow> bool) \<Rightarrow> (nat \<Rightarrow> node) \<Rightarrow> nat \<Rightarrow> bool" where
  "edge_ok lt f k \<longleftrightarrow> \<not> lt (f k) (f (k div 2))"

definition ordered :: "(node \<Rightarrow> node \<Rightarrow> bool) \<Rightarrow> (nat \<Rightarrow> node) \<Rightarrow> nat \<Rightarrow> bool" where
  "ordered lt f n \<longleftrightarrow> (\<forall>k. 2 \<le> k \<longrightarrow> k \<le> n \<longrightarrow> edge_ok lt f k)"

text \<open>
  In order but for the edge above \<open>j\<close> (and, in the second case, the edges below it); the children
  of \<open>j\<close> are in order with its parent.
\<close>

definition spans :: "(node \<Rightarrow> node \<Rightarrow> bool) \<Rightarrow> (nat \<Rightarrow> node) \<Rightarrow> nat \<Rightarrow> nat \<Rightarrow> bool" where
  "spans lt f n j \<longleftrightarrow> (\<forall>k. k div 2 = j \<longrightarrow> 2 \<le> j \<longrightarrow> k \<le> n \<longrightarrow> \<not> lt (f k) (f (j div 2)))"

definition up_ok :: "(node \<Rightarrow> node \<Rightarrow> bool) \<Rightarrow> (nat \<Rightarrow> node) \<Rightarrow> nat \<Rightarrow> nat \<Rightarrow> bool" where
  "up_ok lt f n j \<longleftrightarrow> (\<forall>k. 2 \<le> k \<longrightarrow> k \<le> n \<longrightarrow> k \<noteq> j \<longrightarrow> edge_ok lt f k) \<and> spans lt f n j"

definition down_ok :: "(node \<Rightarrow> node \<Rightarrow> bool) \<Rightarrow> (nat \<Rightarrow> node) \<Rightarrow> nat \<Rightarrow> nat \<Rightarrow> bool" where
  "down_ok lt f n j \<longleftrightarrow> (\<forall>k. 2 \<le> k \<longrightarrow> k \<le> n \<longrightarrow> k \<noteq> j \<longrightarrow> k div 2 \<noteq> j \<longrightarrow> edge_ok lt f k) \<and> spans lt f n j"

text \<open>The heap holds exactly the nodes of \<open>S\<close>, in the shape and the order of a binary heap.\<close>

definition heap_repr :: "(node \<Rightarrow> node \<Rightarrow> bool) \<Rightarrow> heap \<Rightarrow> node set \<Rightarrow> bool" where
  "heap_repr lt h S \<longleftrightarrow> (\<exists>f. shape h f (nelts h) \<and> f ` {1..nelts h} = S \<and> ordered lt f (nelts h))"

locale weak_order =
  fixes lt :: "node \<Rightarrow> node \<Rightarrow> bool"
  assumes asym: "lt a b \<Longrightarrow> \<not> lt b a"
    and le_trans: "\<not> lt b a \<Longrightarrow> \<not> lt c b \<Longrightarrow> \<not> lt c a"
begin

lemma root_least: "ordered lt f n \<Longrightarrow> 1 \<le> k \<Longrightarrow> k \<le> n \<Longrightarrow> \<not> lt (f k) (f 1)"
proof (induction k rule: less_induct)
  case (less k)
  show ?case
  proof (cases "k = 1")
    case False
    then have "k div 2 < k" "1 \<le> k div 2" "k div 2 \<le> n" "2 \<le> k" using less.prems by linarith+
    then show ?thesis
      using less le_trans [of "f (k div 2)" "f 1" "f k"] by (auto simp: ordered_def edge_ok_def)
  qed (use asym in blast)
qed

lemma up_ok_swap:
  assumes up: "up_ok lt f n j" and j: "2 \<le> j" "j \<le> n" and lt: "lt (f j) (f (j div 2))"
  defines "f' \<equiv> f(j div 2 := f j, j := f (j div 2))"
  shows "up_ok lt f' n (j div 2)"
proof -
  let ?i = "j div 2"
  have i: "?i \<noteq> j" "1 \<le> ?i" "?i \<le> n" using j by linarith+
  have e: "\<not> lt (f k) (f (k div 2))" if "2 \<le> k" "k \<le> n" "k \<noteq> j" for k
    using up that by (auto simp: up_ok_def edge_ok_def)
  have sp: "\<not> lt (f k) (f ?i)" if "k div 2 = j" "k \<le> n" for k
    using up that j by (auto simp: up_ok_def spans_def)
  have "edge_ok lt f' k" if k: "2 \<le> k" "k \<le> n" "k \<noteq> ?i" for k
  proof -
    consider "k = j" | "k \<noteq> j" "k div 2 = ?i" | "k \<noteq> j" "k div 2 = j" | "k \<noteq> j" "k div 2 \<noteq> ?i" "k div 2 \<noteq> j" by blast
    then show ?thesis
    proof cases
      case 1
      then show ?thesis using asym [OF lt] i by (simp add: edge_ok_def f'_def)
    next
      case 2
      then show ?thesis
        using le_trans [OF asym [OF lt], of "f k"] e [OF k(1,2) 2(1)] k i by (simp add: edge_ok_def f'_def)
    next
      case 3
      then show ?thesis using sp k i by (simp add: edge_ok_def f'_def)
    next
      case 4
      then show ?thesis using e [OF k(1,2)] k by (simp add: edge_ok_def f'_def)
    qed
  qed
  moreover have "\<not> lt (f' k) (f' (?i div 2))" if k: "k div 2 = ?i" "2 \<le> ?i" "k \<le> n" for k
  proof -
    have g: "?i div 2 \<noteq> ?i" "?i div 2 \<noteq> j" "k \<noteq> ?i" "2 \<le> k" using k i by linarith+
    have ei: "\<not> lt (f ?i) (f (?i div 2))" using e [of ?i] k(2) i by simp
    then show ?thesis
      using le_trans [OF ei, of "f k"] e [of k] g k by (auto simp: f'_def)
  qed
  ultimately show ?thesis by (auto simp: up_ok_def spans_def)
qed

lemma heap_up_ordered:
  assumes "shape h f n" "1 \<le> j" "j \<le> n" "up_ok lt f n j"
  shows "\<exists>h' f'. heap_up lt h (f j) = Some h' \<and> shape h' f' n \<and> f' ` {1..n} = f ` {1..n} \<and> ordered lt f' n"
  using assms
proof (induction j arbitrary: h f rule: less_induct)
  case (less j)
  note sh = less.prems(1) and j = less.prems(2,3) and up = less.prems(4)
  have p: "parent (nodes h (f j)) = (if j = 1 then None else Some (f (j div 2)))" using shape_nodes(3) [OF sh j] .
  have fin: "ordered lt f n" if "j = 1 \<or> \<not> lt (f j) (f (j div 2))"
    using up that unfolding ordered_def up_ok_def by (auto simp: edge_ok_def)
  show ?case
  proof (cases "j = 1 \<or> \<not> lt (f j) (f (j div 2))")
    case True
    then show ?thesis using sh fin p by (subst heap_up.simps) auto
  next
    case False
    let ?i = "j div 2" and ?f = "f(j div 2 := f j, j := f (j div 2))"
    have i: "?i < j" "1 \<le> ?i" "?i \<le> n" "j = 2 * ?i \<or> j = 2 * ?i + 1" "2 \<le> j" using False j by linarith+
    have s: "shape (heap_node_swap h (f ?i) (f j)) ?f n" using shape_swap [OF sh i(2) i(4) j(2)] .
    have u: "up_ok lt ?f n ?i" using up_ok_swap [OF up i(5) j(2)] False by simp
    have fi: "?f ?i = f j" using i(1) by simp
    have im: "?f ` {1..n} = f ` {1..n}" using i j by (auto simp: image_iff)
    have "heap_up lt h (f j) = heap_up lt (heap_node_swap h (f ?i) (f j)) (f j)"
      using False p by (subst heap_up.simps) simp
    then show ?thesis using less.IH [OF i(1) s i(2,3) u] fi im by simp
  qed
qed

lemma smallest_cases:
  assumes sh: "shape h f n" and j: "1 \<le> j" "j \<le> n"
  obtains (stop) "smallest lt h (f j) = f j" "\<And>k. k div 2 = j \<Longrightarrow> k \<le> n \<Longrightarrow> \<not> lt (f k) (f j)"
  | (move) c where "smallest lt h (f j) = f c" "c = 2 * j \<or> c = 2 * j + 1" "c \<le> n" "lt (f c) (f j)"
      "\<And>k. k div 2 = j \<Longrightarrow> k \<le> n \<Longrightarrow> \<not> lt (f k) (f c)"
proof -
  note N = shape_nodes [OF sh j]
  have kids: "k = 2 * j \<or> k = 2 * j + 1" if "k div 2 = j" for k using that by presburger
  have irrefl: "\<not> lt a a" for a using asym by blast
  let ?l = "2 * j \<le> n \<and> lt (f (2 * j)) (f j)"
  let ?s = "if ?l then f (2 * j) else f j"
  have S: "smallest lt h (f j) = (if 2 * j + 1 \<le> n \<and> lt (f (2 * j + 1)) ?s then f (2 * j + 1) else ?s)"
    unfolding smallest_def N at_index_def by auto
  consider (r) "2 * j + 1 \<le> n" "lt (f (2 * j + 1)) ?s" | (l) "\<not> (2 * j + 1 \<le> n \<and> lt (f (2 * j + 1)) ?s)" ?l
    | (n) "\<not> (2 * j + 1 \<le> n \<and> lt (f (2 * j + 1)) ?s)" "\<not> ?l" by blast
  then show thesis
  proof cases
    case r
    have s: "\<not> lt (f j) ?s" "\<not> lt (f (2 * j)) ?s" using r(1) asym irrefl by auto
    have "\<not> lt ?s (f (2 * j + 1))" using asym r(2) by blast
    then have "\<not> lt (f k) (f (2 * j + 1))" if "k div 2 = j" "k \<le> n" for k
      using kids [OF that(1)] s irrefl le_trans [of ?s "f (2 * j + 1)" "f (2 * j)"] by auto
    moreover have "lt (f (2 * j + 1)) (f j)" using r s le_trans [of ?s "f (2 * j + 1)" "f j"]
      le_trans [of "f j" ?s "f (2 * j + 1)"] by (metis asym)
    ultimately show thesis using move [of "2 * j + 1"] r S by auto
  next
    case l
    then have "\<not> lt (f k) (f (2 * j))" if "k div 2 = j" "k \<le> n" for k
      using kids [OF that(1)] that(2) irrefl by auto
    moreover have "smallest lt h (f j) = f (2 * j)" using S l(1) unfolding if_P [OF l(2)] by (auto split: if_splits)
    ultimately show thesis using move [of "2 * j"] l(2) by blast
  next
    case n
    then have "\<not> lt (f k) (f j)" if "k div 2 = j" "k \<le> n" for k
      using kids [OF that(1)] that(2) by auto
    moreover have "smallest lt h (f j) = f j" using S n(1) unfolding if_not_P [OF n(2)] by (auto split: if_splits)
    ultimately show thesis using stop by blast
  qed
qed

lemma down_ok_swap:
  assumes dn: "down_ok lt f n j" and j: "1 \<le> j" and c: "c = 2 * j \<or> c = 2 * j + 1" "c \<le> n"
    and least: "\<And>k. k div 2 = j \<Longrightarrow> k \<le> n \<Longrightarrow> \<not> lt (f k) (f c)"
  defines "f' \<equiv> f(j := f c, c := f j)"
  shows "down_ok lt f' n c"
proof -
  have cj: "c div 2 = j" "c \<noteq> j" using c j by linarith+
  have e: "\<not> lt (f k) (f (k div 2))" if "2 \<le> k" "k \<le> n" "k \<noteq> j" "k div 2 \<noteq> j" for k
    using dn that by (auto simp: down_ok_def edge_ok_def)
  have "edge_ok lt f' k" if k: "2 \<le> k" "k \<le> n" "k \<noteq> c" "k div 2 \<noteq> c" for k
  proof -
    consider "k = j" | "k \<noteq> j" "k div 2 = j" | "k \<noteq> j" "k div 2 \<noteq> j" by blast
    then show ?thesis
    proof cases
      case 1
      then have "k div 2 \<noteq> j" using j by linarith
      moreover have "\<not> lt (f c) (f (j div 2))" using dn cj(1) c(2) k 1 by (auto simp: down_ok_def spans_def)
      ultimately show ?thesis using 1 k cj by (simp add: edge_ok_def f'_def)
    next
      case 2
      then show ?thesis using least [OF 2(2) k(2)] k cj by (simp add: edge_ok_def f'_def)
    next
      case 3
      then show ?thesis using e [OF k(1,2)] k by (simp add: edge_ok_def f'_def)
    qed
  qed
  moreover have "\<not> lt (f' k) (f' (c div 2))" if k: "k div 2 = c" "k \<le> n" for k
  proof -
    have "2 \<le> k" "k \<noteq> j" "k \<noteq> c" "k div 2 \<noteq> j" using k cj c j by linarith+
    then show ?thesis using e [of k] k cj by (simp add: f'_def)
  qed
  ultimately show ?thesis by (auto simp: down_ok_def spans_def)
qed

lemma heap_down_ordered:
  assumes "shape h f n" "1 \<le> j" "j \<le> n" "down_ok lt f n j"
  shows "\<exists>h' f' j'. heap_down lt h (f j) = Some h' \<and> shape h' f' n \<and> f' ` {1..n} = f ` {1..n}
    \<and> 1 \<le> j' \<and> j' \<le> n \<and> f' j' = f j \<and> up_ok lt f' n j'"
  using assms
proof (induction "n - j" arbitrary: h f j rule: less_induct)
  case (less j h f)
  note sh = less.prems(1) and j = less.prems(2,3) and dn = less.prems(4)
  show ?case
  proof (rule smallest_cases [OF sh j], goal_cases stop move)
    case stop
    have "up_ok lt f n j"
      using dn stop(2) unfolding up_ok_def down_ok_def by (auto simp: edge_ok_def)
    then show ?thesis using stop sh j by (subst heap_down.simps) auto
  next
    case (move c)
    let ?f = "f(j := f c, c := f j)"
    have c: "n - c < n - j" "1 \<le> c" "c \<noteq> j" using move(2,3) j by linarith+
    have s: "shape (heap_node_swap h (f j) (f c)) ?f n" using shape_swap [OF sh j(1) move(2,3)] .
    have d: "down_ok lt ?f n c" using down_ok_swap [OF dn j(1) move(2,3,5)] .
    have im: "?f ` {1..n} = f ` {1..n}" using c j move(3) by (auto simp: image_iff)
    have ne: "f c \<noteq> f j" using shape_inj [OF sh c(2) move(3) j] c(3) by simp
    have "heap_down lt h (f j) = heap_down lt (heap_node_swap h (f j) (f c)) (f j)"
      using move(1) ne by (subst heap_down.simps) (simp add: Let_def)
    then show ?thesis using less.hyps [OF c(1) s c(2) move(3) d] im by simp
  qed
qed

lemma heap_repr_min:
  assumes "heap_repr lt h S"
  shows "heap_min h = None \<longleftrightarrow> S = {}" and "heap_min h = Some m \<Longrightarrow> m \<in> S \<and> (\<forall>x\<in>S. \<not> lt x m)"
proof -
  obtain f where f: "shape h f (nelts h)" "f ` {1..nelts h} = S" "ordered lt f (nelts h)"
    using assms by (auto simp: heap_repr_def)
  have r: "heap_min h = (if 1 \<le> nelts h then Some (f 1) else None)"
    using f(1) by (simp add: shape_def at_index_def heap_min_def)
  show "heap_min h = None \<longleftrightarrow> S = {}" using r f(2) by auto
  show "m \<in> S \<and> (\<forall>x\<in>S. \<not> lt x m)" if "heap_min h = Some m"
    using that r f(2) root_least [OF f(3)] by (auto split: if_splits)
qed

lemma heap_insert_repr:
  assumes hr: "heap_repr lt h S" and x: "x \<notin> S" and lim: "nelts h + 1 < 2 ^ 32"
  shows "\<exists>h'. heap_insert lt h x = Some h' \<and> heap_repr lt h' (insert x S) \<and> nelts h' = nelts h + 1"
proof -
  define n where "n = nelts h"
  obtain f where f: "shape h f n" "f ` {1..n} = S" "ordered lt f n" using hr by (auto simp: heap_repr_def n_def)
  let ?h1 = "h\<lparr>nodes := (nodes h)(x := \<lparr>left = None, right = None, parent = None\<rparr>)\<rparr>"
  have ne: "f k \<noteq> x" if "1 \<le> k" "k \<le> n" for k using x f(2) that by auto
  have read: "read_slot ?h1 (slot_of f j) = Some (f j)" if j: "1 \<le> j" "j \<le> n" for j
  proof -
    have "2 \<le> j \<Longrightarrow> f (j div 2) \<noteq> x" using ne [of "j div 2"] j by linarith
    then have "read_slot ?h1 (slot_of f j) = read_slot h (slot_of f j)"
      by (auto simp: read_slot_def slot_of_def)
    then show ?thesis using shape_slot [OF f(1) j] by simp
  qed
  have m: "(n + 1) div 2 \<le> n \<or> n = 0" by linarith
  let ?par = "slot_of f ((n + 1) div 2)" and ?child = "slot_of f (n + 1)"
  have w: "walk ?h1 (depth (n + 1)) (turns (n + 1)) (Root, Root) = Some (?par, ?child)"
    using walk_slot [where r = 0 and e = 0, OF read, of n "n + 1"] by fastforce
  have par: "read_slot ?h1 ?par = (if n = 0 then None else Some (f ((n + 1) div 2)))"
  proof (cases "n = 0")
    case True
    then show ?thesis using f(1) by (simp add: slot_of_def read_slot_def shape_def at_index_def)
  next
    case False
    then have "1 \<le> (n + 1) div 2" "(n + 1) div 2 \<le> n" by linarith+
    then show ?thesis using read False by simp
  qed
  let ?h4 = "(write_slot ?child (Some x) (set_parent x (read_slot ?h1 ?par) ?h1))\<lparr>nelts := n + 1\<rparr>"
  have sx: "?child \<noteq> LeftOf x" "?child \<noteq> RightOf x"
  proof -
    have "n = 0 \<or> f ((n + 1) div 2) \<noteq> x" using ne [of "(n + 1) div 2"] by (cases "n = 0") simp_all
    then show "?child \<noteq> LeftOf x" "?child \<noteq> RightOf x" by (auto simp: slot_of_def)
  qed
  have root: "?child = Root \<longleftrightarrow> n = 0" by (auto simp: slot_of_def)
  have "shape ?h4 (f(n + 1 := x)) (n + 1)"
    by (rule shape_append [OF f(1)]) (use x f(2) sx root par in \<open>auto simp: set_parent_def\<close>)
  moreover have "up_ok lt (f(n + 1 := x)) (n + 1) (n + 1)"
    using f(3) unfolding up_ok_def spans_def ordered_def by (auto simp: edge_ok_def)
  ultimately obtain h' f' where h': "heap_up lt ?h4 x = Some h'" "shape h' f' (n + 1)"
      "f' ` {1..n + 1} = f(n + 1 := x) ` {1..n + 1}" "ordered lt f' (n + 1)"
    using heap_up_ordered [of ?h4 "f(n + 1 := x)" "n + 1" "n + 1"] by auto
  have "heap_insert lt h x = heap_up lt ?h4 x"
    using lim w path_loop_start [of "n + 1"] unfolding heap_insert_def Let_def n_def by simp
  moreover have "f(n + 1 := x) ` {1..n + 1} = insert x S"
  proof -
    have "{1..n + 1} = insert (n + 1) {1..n}" by auto
    moreover have "{1..n} \<inter> {k. k \<noteq> n + 1} = {1..n}" by auto
    ultimately show ?thesis using f(2) by simp
  qed
  moreover have "nelts h' = n + 1" using h'(2) by (simp add: shape_def)
  ultimately show ?thesis using h' unfolding heap_repr_def n_def by auto
qed

lemma heap_remove_repr:
  assumes hr: "heap_repr lt h S" and x: "x \<in> S" and lim: "nelts h < 2 ^ 32"
  shows "\<exists>h'. heap_remove lt h x = Some h' \<and> heap_repr lt h' (S - {x}) \<and> nelts h' = nelts h - 1"
proof -
  define n where "n = nelts h"
  obtain f where f: "shape h f n" "f ` {1..n} = S" "ordered lt f n" using hr by (auto simp: heap_repr_def n_def)
  obtain j where j: "1 \<le> j" "j \<le> n" "f j = x" using x f(2) by auto
  have inj: "inj_on f {1..n}" using f(1) by (simp add: shape_def)
  have n1: "1 \<le> n" using j by simp
  let ?mx = "slot_of f n"
  have w: "walk h (depth n) (turns n) (Root, Root) = Some (slot_of f (n div 2), ?mx)"
    using walk_slot [where r = 0 and e = 0, OF shape_slot [OF f(1)], of n n] by simp
  have rd: "read_slot h ?mx = Some (f n)" using shape_slot [OF f(1) n1] by simp
  let ?h2 = "write_slot ?mx None (h\<lparr>nelts := n - 1\<rparr>)"
  have rd1: "read_slot (h\<lparr>nelts := n - 1\<rparr>) ?mx = Some (f n)"
    using rd by (simp add: read_slot_def split: slot.splits)
  have s2: "shape ?h2 f (n - 1)" using shape_unlink [OF f(1) n1] .
  have fn: "f n \<notin> f ` {1..n - 1}" using inj_on_image_mem_iff [OF inj, of n "{1..n - 1}"] n1 by auto
  have im: "f ` {1..n - 1} = S - {f n}" 
  proof -
    have "{1..n} = insert n {1..n - 1}" using n1 by auto
    then have "S = insert (f n) (f ` {1..n - 1})" using f(2) by simp
    then show ?thesis using fn by simp
  qed
  have o2: "ordered lt f (n - 1)" using f(3) by (auto simp: ordered_def)
  have R: "heap_remove lt h x =
      (if f n = x then Some (if heap_root ?h2 = Some (f n) then ?h2\<lparr>heap_root := None\<rparr> else ?h2)
       else (let h3 = ?h2\<lparr>nodes := (nodes ?h2)(f n := nodes ?h2 x)\<rparr>;
                 h4 = set_parent_opt (left (nodes h3 (f n))) (f n) h3;
                 h5 = set_parent_opt (right (nodes h4 (f n))) (f n) h4;
                 h6 = relink (parent (nodes h5 x)) x (f n) h5
             in case heap_down lt h6 (f n) of None \<Rightarrow> None | Some h7 \<Rightarrow> heap_up lt h7 (f n)))"
    using lim w rd1 n1 path_loop_start [of n] unfolding heap_remove_def n_def [symmetric] by (simp add: Let_def)
  show ?thesis
  proof (cases "j = n")
    case True
    have "heap_root ?h2 = at_index f (n - 1) 1" using s2 unfolding shape_def by blast
    moreover have "at_index f (n - 1) 1 \<noteq> Some (f n)"
    proof (cases "1 \<le> n - 1")
      case True
      then have "f 1 \<in> f ` {1..n - 1}" by (intro imageI) simp
      then show ?thesis using fn True by (metis at_index_def option.inject)
    qed (simp add: at_index_def)
    ultimately have "heap_root ?h2 \<noteq> Some (f n)" by simp
    then have "heap_remove lt h x = Some ?h2" using R True j(3) by simp
    moreover have "nelts ?h2 = n - 1" by simp
    ultimately show ?thesis using s2 o2 im True j(3) unfolding heap_repr_def n_def by auto
  next
    case False
    then have j': "j \<le> n - 1" and xn: "f n \<noteq> x" using j inj_on_eq_iff [OF inj, of n j] n1 by auto
    let ?h3 = "?h2\<lparr>nodes := (nodes ?h2)(f n := nodes ?h2 x)\<rparr>"
    let ?h6 = "relink (parent (nodes ?h2 (f j))) (f j) (f n)
      (set_parent_opt (right (nodes ?h2 (f j))) (f n) (set_parent_opt (left (nodes ?h2 (f j))) (f n) ?h3))"
    let ?f = "f(j := f n)"
    have s6: "shape ?h6 ?f (n - 1)" by (rule shape_replace [OF s2 j(1) j' fn]) (simp add: j(3))
    have e: "\<not> lt (f k) (f (k div 2))" if "2 \<le> k" "k \<le> n" for k
      using f(3) that by (auto simp: ordered_def edge_ok_def)
    have "\<not> lt (?f k) (?f (j div 2))" if k: "k div 2 = j" "2 \<le> j" "k \<le> n - 1" for k
    proof -
      have "2 \<le> k" "k \<le> n" "k \<noteq> j" "j div 2 \<noteq> j" using k by linarith+
      then show ?thesis using le_trans [OF e [OF k(2) j(2)], of "f k"] e [of k] k(1) by simp
    qed
    then have "down_ok lt ?f (n - 1) j"
      using o2 unfolding down_ok_def spans_def ordered_def by (auto simp: edge_ok_def)
    then obtain h7 f7 j7 where d: "heap_down lt ?h6 (f n) = Some h7" "shape h7 f7 (n - 1)"
        "f7 ` {1..n - 1} = ?f ` {1..n - 1}" "1 \<le> j7" "j7 \<le> n - 1" "f7 j7 = f n" "up_ok lt f7 (n - 1) j7"
      using heap_down_ordered [OF s6 j(1) j'] by auto
    obtain h8 f8 where u: "heap_up lt h7 (f n) = Some h8" "shape h8 f8 (n - 1)"
        "f8 ` {1..n - 1} = f7 ` {1..n - 1}" "ordered lt f8 (n - 1)"
      using heap_up_ordered [OF d(2,4,5,7)] d(6) by auto
    have "heap_remove lt h x = Some h8"
    proof -
      have "parent (nodes (set_parent_opt (right (nodes ?h2 x)) (f n) (set_parent_opt (left (nodes ?h2 x)) (f n) ?h3)) x)
          = parent (nodes ?h2 x)"
      proof -
        have "left (nodes ?h2 x) \<noteq> Some x" "right (nodes ?h2 x) \<noteq> Some x"
          using shape_nodes(1,2) [OF s2 j(1) j'] at_index_eq [OF s2 _ j(1) j', of "2 * j"]
            at_index_eq [OF s2 _ j(1) j', of "2 * j + 1"] j by auto
        then show ?thesis using xn by simp
      qed
      then have "heap_remove lt h x = (case heap_down lt ?h6 (f n) of None \<Rightarrow> None | Some h7 \<Rightarrow> heap_up lt h7 (f n))"
        unfolding R Let_def using xn j(3) by simp
      then show ?thesis using d(1) u(1) by simp
    qed
    moreover have "?f ` {1..n - 1} = S - {x}"
    proof -
      have "f ` ({1..n - 1} - {j}) = f ` {1..n - 1} - {x}"
      proof -
        have "{1..n - 1} - {j} \<subseteq> {1..n}" "{j} \<subseteq> {1..n}" using j by auto
        from inj_on_image_set_diff [OF inj this] show ?thesis using j(3) by simp
      qed
      moreover have "f n \<in> S" using f(2) n1 by auto
      ultimately show ?thesis using im j(1) j' xn by (auto simp: fun_upd_image)
    qed
    moreover have "nelts h8 = n - 1" using u(2) by (simp add: shape_def)
    ultimately show ?thesis using u d(3) unfolding heap_repr_def n_def by auto
  qed
qed

end

end
