(* ===== verification/Uv_Timer.thy ===== *)
theory Uv_Timer
  imports Uv_Heap
begin

text \<open>
  \<^verbatim>\<open>libuv: src/timer.c\<close> with the handle macros of \<^verbatim>\<open>src/uv-common.h\<close> it uses. A timer handle is named by
  the address of its heap node. The loop record has the fields of \<^verbatim>\<open>uv_loop_t\<close> that timers touch, and
  the store of the timer handles. A callback is a name \<open>'cb\<close> that the parameter \<open>call\<close> of
  \<open>uv__run_timers\<close> runs on the loop; \<open>callback\<close> is the instance in which it is a sequence of calls of the functions of
  this file. \<open>None\<close> is a step that does not return.
\<close>

section \<open>Operations\<close>

record 'cb uv_timer =
  flags :: u32
  timer_cb :: "'cb option"
  timeout :: u64
  repeat :: u64
  start_id :: u64

record 'cb uv_loop =
  loop_time :: u64
  timer_counter :: u64
  active_handles :: u32
  timer_heap :: heap
  timers :: "node \<Rightarrow> 'cb uv_timer"

definition UV_HANDLE_CLOSING :: u32 where "UV_HANDLE_CLOSING = 1"

definition UV_HANDLE_CLOSED :: u32 where "UV_HANDLE_CLOSED = 2"

definition UV_HANDLE_ACTIVE :: u32 where "UV_HANDLE_ACTIVE = 4"

definition UV_HANDLE_REF :: u32 where "UV_HANDLE_REF = 8"

definition UV_EINVAL :: int where "UV_EINVAL = -22"

definition uv__is_active :: "'cb uv_timer \<Rightarrow> bool" where
  "uv__is_active t \<longleftrightarrow> flags t AND UV_HANDLE_ACTIVE \<noteq> 0"

definition uv__is_closing :: "'cb uv_timer \<Rightarrow> bool" where
  "uv__is_closing t \<longleftrightarrow> flags t AND (UV_HANDLE_CLOSING OR UV_HANDLE_CLOSED) \<noteq> 0"

definition set_timer :: "node \<Rightarrow> 'cb uv_timer \<Rightarrow> 'cb uv_loop \<Rightarrow> 'cb uv_loop" where
  "set_timer x t L = L\<lparr>timers := (timers L)(x := t)\<rparr>"

definition uv__handle_start :: "node \<Rightarrow> 'cb uv_loop \<Rightarrow> 'cb uv_loop" where
  "uv__handle_start x L =
     (let t = timers L x in
      if flags t AND UV_HANDLE_ACTIVE \<noteq> 0 then L
      else (let t' = t\<lparr>flags := flags t OR UV_HANDLE_ACTIVE\<rparr>;
                L' = set_timer x t' L
            in if flags t' AND UV_HANDLE_REF \<noteq> 0 then L'\<lparr>active_handles := active_handles L' + 1\<rparr> else L'))"

definition uv__handle_stop :: "node \<Rightarrow> 'cb uv_loop \<Rightarrow> 'cb uv_loop" where
  "uv__handle_stop x L =
     (let t = timers L x in
      if flags t AND UV_HANDLE_ACTIVE = 0 then L
      else (let t' = t\<lparr>flags := flags t AND NOT UV_HANDLE_ACTIVE\<rparr>;
                L' = set_timer x t' L
            in if flags t' AND UV_HANDLE_REF \<noteq> 0 then L'\<lparr>active_handles := active_handles L' - 1\<rparr> else L'))"

definition timer_less_than :: "(node \<Rightarrow> 'cb uv_timer) \<Rightarrow> node \<Rightarrow> node \<Rightarrow> bool" where
  "timer_less_than tm ha hb =
     (let a = tm ha; b = tm hb in
      if timeout a < timeout b then True
      else if timeout b < timeout a then False
      else start_id a < start_id b)"

text \<open>The handle queue of the loop, which \<^verbatim>\<open>uv__handle_init\<close> also enters, is not part of the model.\<close>

definition uv_timer_init :: "node \<Rightarrow> 'cb uv_loop \<Rightarrow> int \<times> 'cb uv_loop" where
  "uv_timer_init x L = (0, set_timer x ((timers L x)\<lparr>flags := UV_HANDLE_REF, timer_cb := None, repeat := 0\<rparr>) L)"

definition uv_timer_stop :: "node \<Rightarrow> 'cb uv_loop \<Rightarrow> (int \<times> 'cb uv_loop) option" where
  "uv_timer_stop x L =
     (if \<not> uv__is_active (timers L x) then Some (0, L)
      else (case heap_remove (timer_less_than (timers L)) (timer_heap L) x of
              None \<Rightarrow> None
            | Some h \<Rightarrow> Some (0, uv__handle_stop x (L\<lparr>timer_heap := h\<rparr>))))"

definition uv_timer_start :: "node \<Rightarrow> 'cb option \<Rightarrow> u64 \<Rightarrow> u64 \<Rightarrow> 'cb uv_loop \<Rightarrow> (int \<times> 'cb uv_loop) option" where
  "uv_timer_start x cb tmo rpt L0 =
     (if uv__is_closing (timers L0 x) \<or> cb = None then Some (UV_EINVAL, L0)
      else
        (case (if uv__is_active (timers L0 x) then uv_timer_stop x L0 else Some (0, L0)) of
           None \<Rightarrow> None
         | Some (_, L) \<Rightarrow>
             (let sum = loop_time L + tmo;
                  clamped_timeout = (if sum < tmo then - 1 else sum);
                  L1 = set_timer x ((timers L x)\<lparr>timer_cb := cb, timeout := clamped_timeout, repeat := rpt,
                         start_id := timer_counter L\<rparr>) (L\<lparr>timer_counter := timer_counter L + 1\<rparr>)
              in case heap_insert (timer_less_than (timers L1)) (timer_heap L1) x of
                   None \<Rightarrow> None
                 | Some h \<Rightarrow> Some (0, uv__handle_start x (L1\<lparr>timer_heap := h\<rparr>)))))"

definition uv_timer_again :: "node \<Rightarrow> 'cb uv_loop \<Rightarrow> (int \<times> 'cb uv_loop) option" where
  "uv_timer_again x L =
     (if timer_cb (timers L x) = None then Some (UV_EINVAL, L)
      else if repeat (timers L x) \<noteq> 0 then
        (case uv_timer_stop x L of
           None \<Rightarrow> None
         | Some (_, L1) \<Rightarrow>
             (case uv_timer_start x (timer_cb (timers L1 x)) (repeat (timers L1 x)) (repeat (timers L1 x)) L1 of
                None \<Rightarrow> None
              | Some (_, L2) \<Rightarrow> Some (0, L2)))
      else Some (0, L))"

definition uv_timer_set_repeat :: "node \<Rightarrow> u64 \<Rightarrow> 'cb uv_loop \<Rightarrow> 'cb uv_loop" where
  "uv_timer_set_repeat x rpt L = set_timer x ((timers L x)\<lparr>repeat := rpt\<rparr>) L"

definition uv_timer_get_repeat :: "node \<Rightarrow> 'cb uv_loop \<Rightarrow> u64" where
  "uv_timer_get_repeat x L = repeat (timers L x)"

definition uv__next_timeout :: "'cb uv_loop \<Rightarrow> int" where
  "uv__next_timeout L =
     (case heap_min (timer_heap L) of
        None \<Rightarrow> -1
      | Some x \<Rightarrow>
          (if timeout (timers L x) \<le> loop_time L then 0
           else (let diff = timeout (timers L x) - loop_time L;
                     diff = (if diff > 2147483647 then 2147483647 else diff)
                 in uint diff)))"

text \<open>The loop that runs the timers that are due; the handles whose callbacks ran, in order, are kept as a trace.\<close>

partial_function (option) uv__run_timers ::
    "('cb \<Rightarrow> node \<Rightarrow> 'cb uv_loop \<Rightarrow> 'cb uv_loop option) \<Rightarrow> 'cb uv_loop \<Rightarrow> (node list \<times> 'cb uv_loop) option" where
  "uv__run_timers call L =
     (case heap_min (timer_heap L) of
        None \<Rightarrow> Some ([], L)
      | Some x \<Rightarrow>
          (if timeout (timers L x) > loop_time L then Some ([], L)
           else
             Option.bind (uv_timer_stop x L) (\<lambda>(_, L1).
             Option.bind (uv_timer_again x L1) (\<lambda>(_, L2).
             Option.bind (timer_cb (timers L2 x)) (\<lambda>cb.
             Option.bind (call cb x L2) (\<lambda>L3.
             Option.bind (uv__run_timers call L3) (\<lambda>(tr, L4).
             Some (x # tr, L4))))))))"

definition uv__timer_close :: "node \<Rightarrow> 'cb uv_loop \<Rightarrow> 'cb uv_loop option" where
  "uv__timer_close x L = (case uv_timer_stop x L of None \<Rightarrow> None | Some (_, L1) \<Rightarrow> Some L1)"

text \<open>
  A callback is code of the application, which acts on the timers through the functions above. Which of them it calls, on
  which handles and with which arguments may depend on everything there is when it is called: \<open>prog\<close> gives the calls for a callback, its
  handle and the loop.
\<close>

datatype 'cb timer_op =
  Start node "'cb option" u64 u64
| Stop node
| Again node
| Set_repeat node u64

fun exec_timer_op :: "'cb timer_op \<Rightarrow> 'cb uv_loop \<Rightarrow> 'cb uv_loop option" where
  "exec_timer_op (Start x cb tmo rpt) L = map_option snd (uv_timer_start x cb tmo rpt L)"
| "exec_timer_op (Stop x) L = map_option snd (uv_timer_stop x L)"
| "exec_timer_op (Again x) L = map_option snd (uv_timer_again x L)"
| "exec_timer_op (Set_repeat x rpt) L = Some (uv_timer_set_repeat x rpt L)"

fun exec_timer_ops :: "'cb timer_op list \<Rightarrow> 'cb uv_loop \<Rightarrow> 'cb uv_loop option" where
  "exec_timer_ops [] L = Some L"
| "exec_timer_ops (p # ps) L = Option.bind (exec_timer_op p L) (exec_timer_ops ps)"

definition callback :: "('cb \<Rightarrow> node \<Rightarrow> 'cb uv_loop \<Rightarrow> 'cb timer_op list) \<Rightarrow> 'cb \<Rightarrow> node \<Rightarrow> 'cb uv_loop \<Rightarrow> 'cb uv_loop option" where
  "callback prog cb x L = exec_timer_ops (prog cb x L) L"

fun op_handle :: "'cb timer_op \<Rightarrow> node" where
  "op_handle (Start x cb tmo rpt) = x"
| "op_handle (Stop x) = x"
| "op_handle (Again x) = x"
| "op_handle (Set_repeat x rpt) = x"

text \<open>A call that does not start a timer with a delay of zero.\<close>

fun delayed :: "'cb timer_op \<Rightarrow> bool" where
  "delayed (Start x cb tmo rpt) \<longleftrightarrow> tmo \<noteq> 0"
| "delayed _ \<longleftrightarrow> True"

section \<open>The timers of a loop\<close>

interpretation timer: weak_order "timer_less_than tm"
  by unfold_locales (auto simp: timer_less_than_def Let_def split: if_splits)

definition active_timers :: "'cb uv_loop \<Rightarrow> node set" where
  "active_timers L = {x. uv__is_active (timers L x)}"

text \<open>
  The heap holds the active timers; each has a callback and was numbered before the
  next number, with no number given twice.
\<close>

definition timers_ok :: "'cb uv_loop \<Rightarrow> bool" where
  "timers_ok L \<longleftrightarrow> heap_repr (timer_less_than (timers L)) (timer_heap L) (active_timers L)
     \<and> (\<forall>x\<in>active_timers L. timer_cb (timers L x) \<noteq> None \<and> start_id (timers L x) < timer_counter L)
     \<and> inj_on (\<lambda>x. start_id (timers L x)) (active_timers L)"

lemma flag_bit: "(f :: u32) AND UV_HANDLE_ACTIVE = 0 \<longleftrightarrow> \<not> bit f 2"
  using and_exp_eq_0_iff_not_bit [of f 2] by (simp add: UV_HANDLE_ACTIVE_def)

lemma flag_set: "((f :: u32) OR UV_HANDLE_ACTIVE) AND UV_HANDLE_ACTIVE \<noteq> 0"
  "((f :: u32) AND NOT UV_HANDLE_ACTIVE) AND UV_HANDLE_ACTIVE = 0"
proof -
  have b: "bit UV_HANDLE_ACTIVE 2"
    using bit_exp_iff [where 'a = "32 word", of 2 2] by (simp add: UV_HANDLE_ACTIVE_def)
  show "((f :: u32) OR UV_HANDLE_ACTIVE) AND UV_HANDLE_ACTIVE \<noteq> 0"
    unfolding flag_bit bit_or_iff using b by simp
  show "((f :: u32) AND NOT UV_HANDLE_ACTIVE) AND UV_HANDLE_ACTIVE = 0"
    unfolding flag_bit bit_and_iff bit_not_iff using b by simp
qed

lemma heap_repr_card: "heap_repr lt h S \<Longrightarrow> nelts h = card S \<and> finite S"
  by (auto simp: heap_repr_def shape_def card_image)

lemma heap_repr_cong:
  assumes "heap_repr lt h S" and "\<And>a b. a \<in> S \<Longrightarrow> b \<in> S \<Longrightarrow> lt a b = lt' a b"
  shows "heap_repr lt' h S"
proof -
  obtain f where f: "shape h f (nelts h)" "f ` {1..nelts h} = S" "ordered lt f (nelts h)"
    using assms(1) by (auto simp: heap_repr_def)
  have "edge_ok lt' f k" if k: "2 \<le> k" "k \<le> nelts h" for k
  proof -
    have "1 \<le> k div 2" "k div 2 \<le> nelts h" using k by linarith+
    then have "f k \<in> S" "f (k div 2) \<in> S" using k by (auto simp: f(2) [symmetric])
    from assms(2) [OF this] show ?thesis using f(3) k by (simp add: ordered_def edge_ok_def)
  qed
  then have "ordered lt' f (nelts h)" by (simp add: ordered_def)
  then show ?thesis using f by (auto simp: heap_repr_def)
qed

lemma set_timer_fields [simp]:
  "timers (set_timer x t L) = (timers L)(x := t)" "loop_time (set_timer x t L) = loop_time L"
  "timer_counter (set_timer x t L) = timer_counter L" "timer_heap (set_timer x t L) = timer_heap L"
  "active_handles (set_timer x t L) = active_handles L"
  by (simp_all add: set_timer_def)

text \<open>What the two macros do to the handle.\<close>

lemma uv__handle_stop_fields:
  assumes "uv__is_active (timers L x)"
  shows "timers (uv__handle_stop x L) = (timers L)(x := (timers L x)\<lparr>flags := flags (timers L x) AND NOT UV_HANDLE_ACTIVE\<rparr>)"
    "loop_time (uv__handle_stop x L) = loop_time L" "timer_counter (uv__handle_stop x L) = timer_counter L"
    "timer_heap (uv__handle_stop x L) = timer_heap L"
  using assms by (auto simp: uv__handle_stop_def uv__is_active_def Let_def)

lemma uv__handle_start_fields:
  assumes "\<not> uv__is_active (timers L x)"
  shows "timers (uv__handle_start x L) = (timers L)(x := (timers L x)\<lparr>flags := flags (timers L x) OR UV_HANDLE_ACTIVE\<rparr>)"
    "loop_time (uv__handle_start x L) = loop_time L" "timer_counter (uv__handle_start x L) = timer_counter L"
    "timer_heap (uv__handle_start x L) = timer_heap L"
  using assms by (auto simp: uv__handle_start_def uv__is_active_def Let_def)

text \<open>\<open>L'\<close> is \<open>L\<close> with the timer \<open>x\<close> stopped.\<close>

definition stopped :: "node \<Rightarrow> 'cb uv_loop \<Rightarrow> 'cb uv_loop \<Rightarrow> bool" where
  "stopped x L L' \<longleftrightarrow> timers_ok L' \<and> active_timers L' = active_timers L - {x} \<and> loop_time L' = loop_time L
     \<and> timer_counter L' = timer_counter L \<and> (\<forall>y. y \<noteq> x \<longrightarrow> timers L' y = timers L y)
     \<and> timer_cb (timers L' x) = timer_cb (timers L x) \<and> repeat (timers L' x) = repeat (timers L x)
     \<and> uv__is_closing (timers L' x) = uv__is_closing (timers L x)"

lemma closing_active: "((f :: u32) AND NOT UV_HANDLE_ACTIVE) AND (UV_HANDLE_CLOSING OR UV_HANDLE_CLOSED) =
    f AND (UV_HANDLE_CLOSING OR UV_HANDLE_CLOSED)"
proof -
  have "NOT UV_HANDLE_ACTIVE AND (UV_HANDLE_CLOSING OR UV_HANDLE_CLOSED) = UV_HANDLE_CLOSING OR UV_HANDLE_CLOSED"
    by (simp add: UV_HANDLE_ACTIVE_def UV_HANDLE_CLOSING_def UV_HANDLE_CLOSED_def)
  then show ?thesis by (simp add: and.assoc)
qed

lemma uv_timer_stop_ok:
  assumes ok: "timers_ok L" and lim: "card (active_timers L) < 2 ^ 32"
  shows "\<exists>L'. uv_timer_stop x L = Some (0, L') \<and> stopped x L L'"
proof (cases "uv__is_active (timers L x)")
  case False
  then show ?thesis using ok by (auto simp: uv_timer_stop_def stopped_def active_timers_def)
next
  case True
  have hr: "heap_repr (timer_less_than (timers L)) (timer_heap L) (active_timers L)" using ok by (simp add: timers_ok_def)
  obtain h where h: "heap_remove (timer_less_than (timers L)) (timer_heap L) x = Some h"
      "heap_repr (timer_less_than (timers L)) h (active_timers L - {x})"
    using timer.heap_remove_repr [OF hr, of x] True lim heap_repr_card [OF hr] by (auto simp: active_timers_def)
  let ?L = "uv__handle_stop x (L\<lparr>timer_heap := h\<rparr>)"
  note F = uv__handle_stop_fields [of "L\<lparr>timer_heap := h\<rparr>" x, simplified, OF True]
  have act: "active_timers ?L = active_timers L - {x}"
    by (auto simp: active_timers_def F uv__is_active_def flag_set split: if_splits)
  have "heap_repr (timer_less_than (timers ?L)) h (active_timers L - {x})"
    by (rule heap_repr_cong [OF h(2)]) (auto simp: F timer_less_than_def Let_def)
  then have "timers_ok ?L"
    using ok unfolding timers_ok_def act by (auto simp: F inj_on_def)
  moreover have "uv__is_closing (timers ?L x) = uv__is_closing (timers L x)"
    by (simp add: F uv__is_closing_def closing_active)
  ultimately have "stopped x L ?L" using act by (simp add: stopped_def F)
  moreover have "uv_timer_stop x L = Some (0, ?L)" using True h(1) by (simp add: uv_timer_stop_def)
  ultimately show ?thesis by blast
qed

definition saturated_deadline :: "u64 \<Rightarrow> u64 \<Rightarrow> nat" where
  "saturated_deadline now tmo = min (unat now + unat tmo) (2 ^ 64 - 1)"

lemma clamped: "unat (if now + tmo < tmo then - 1 else now + tmo :: u64) = saturated_deadline now tmo"
proof -
  have l: "unat now < 2 ^ 64" "unat tmo < 2 ^ 64" using unat_u64_less by simp_all
  have s: "unat (now + tmo) = (if unat now + unat tmo < 2 ^ 64 then unat now + unat tmo else unat now + unat tmo - 2 ^ 64)"
    by (simp add: unat_plus_if')
  have m: "unat (- 1 :: u64) = 2 ^ 64 - 1" by (rule unat_minus_1_u64)
  show ?thesis
    using l s m by (auto simp: word_less_nat_alt saturated_deadline_def min_def)
qed

text \<open>\<open>L'\<close> is \<open>L\<close> with the timer \<open>x\<close> started.\<close>

definition started :: "node \<Rightarrow> 'cb option \<Rightarrow> u64 \<Rightarrow> u64 \<Rightarrow> 'cb uv_loop \<Rightarrow> 'cb uv_loop \<Rightarrow> bool" where
  "started x cb tmo rpt L L' \<longleftrightarrow> timers_ok L' \<and> active_timers L' = insert x (active_timers L)
     \<and> loop_time L' = loop_time L \<and> timer_counter L' = timer_counter L + 1
     \<and> (\<forall>y. y \<noteq> x \<longrightarrow> timers L' y = timers L y)
     \<and> timer_cb (timers L' x) = cb \<and> repeat (timers L' x) = rpt \<and> start_id (timers L' x) = timer_counter L
     \<and> unat (timeout (timers L' x)) = saturated_deadline (loop_time L) tmo"

lemma uv_timer_start_ok:
  assumes ok: "timers_ok L0" and lim: "card (insert x (active_timers L0)) < 2 ^ 32"
    and cnt: "timer_counter L0 \<noteq> - 1" and cb: "cb \<noteq> None" and cl: "\<not> uv__is_closing (timers L0 x)"
  shows "\<exists>L'. uv_timer_start x cb tmo rpt L0 = Some (0, L') \<and> started x cb tmo rpt L0 L'"
proof -
  have fin: "finite (active_timers L0)" using ok heap_repr_card by (auto simp: timers_ok_def)
  have lim0: "card (active_timers L0) < 2 ^ 32" using lim fin card_insert_le by (metis le_less_trans)
  obtain L where L: "(if uv__is_active (timers L0 x) then uv_timer_stop x L0 else Some (0, L0)) = Some (0, L)" "stopped x L0 L"
  proof (cases "uv__is_active (timers L0 x)")
    case True
    then show thesis using that uv_timer_stop_ok [OF ok lim0, of x] by auto
  next
    case False
    then show thesis using that [of L0] ok by (auto simp: stopped_def active_timers_def)
  qed
  have okL: "timers_ok L" and act: "active_timers L = active_timers L0 - {x}" and tm: "loop_time L = loop_time L0"
    and c0: "timer_counter L = timer_counter L0" and oth: "\<And>y. y \<noteq> x \<Longrightarrow> timers L y = timers L0 y"
    using L(2) by (auto simp: stopped_def)
  let ?t = "if loop_time L + tmo < tmo then - 1 else loop_time L + tmo"
  let ?L1 = "set_timer x ((timers L x)\<lparr>timer_cb := cb, timeout := ?t, repeat := rpt, start_id := timer_counter L\<rparr>)
      (L\<lparr>timer_counter := timer_counter L + 1\<rparr>)"
  have hr: "heap_repr (timer_less_than (timers L)) (timer_heap L) (active_timers L)" using okL by (simp add: timers_ok_def)
  have hr1: "heap_repr (timer_less_than (timers ?L1)) (timer_heap L) (active_timers L)"
    by (rule heap_repr_cong [OF hr]) (auto simp: act timer_less_than_def Let_def)
  have xn: "x \<notin> active_timers L" using act by simp
  have "nelts (timer_heap L) + 1 < 2 ^ 32"
    using heap_repr_card [OF hr] xn lim act fin by (metis Suc_eq_plus1 card.insert_remove)
  then obtain h where h: "heap_insert (timer_less_than (timers ?L1)) (timer_heap L) x = Some h"
      "heap_repr (timer_less_than (timers ?L1)) h (insert x (active_timers L))"
    using timer.heap_insert_repr [OF hr1 xn] by blast
  let ?L = "uv__handle_start x (?L1\<lparr>timer_heap := h\<rparr>)"
  have na: "\<not> uv__is_active (timers (?L1\<lparr>timer_heap := h\<rparr>) x)" using xn by (simp add: active_timers_def uv__is_active_def)
  note F = uv__handle_start_fields [OF na, simplified]
  have actL: "active_timers ?L = insert x (active_timers L0)"
    using act oth UV_HANDLE_ACTIVE_def by (auto simp: active_timers_def F uv__is_active_def split: if_splits)
  have "heap_repr (timer_less_than (timers ?L)) h (insert x (active_timers L0))"
  proof -
    have e: "insert x (active_timers L) = insert x (active_timers L0)" using act by auto
    show ?thesis by (rule heap_repr_cong [OF h(2) [unfolded e]]) (auto simp: F timer_less_than_def Let_def)
  qed
  moreover have "start_id (timers L y) < timer_counter L \<and> timer_cb (timers L y) \<noteq> None" if "y \<in> active_timers L" for y
    using okL that by (simp add: timers_ok_def)
  moreover have "\<forall>y\<in>active_timers L. start_id (timers L y) \<noteq> timer_counter L"
    using okL by (auto simp: timers_ok_def)
  moreover have "inj_on (\<lambda>y. start_id (timers L y)) (active_timers L)" using okL by (simp add: timers_ok_def)
  moreover have "unat (timer_counter L + 1) = Suc (unat (timer_counter L))"
    using unatSuc [of "timer_counter L"] cnt c0 by (simp add: add.commute add_eq_0_iff)
  then have "a < timer_counter L \<Longrightarrow> a < timer_counter L + 1" "timer_counter L < timer_counter L + 1" for a
    by (simp_all add: word_less_nat_alt)
  ultimately have okL': "timers_ok ?L"
    unfolding timers_ok_def actL using act cb
    by (auto simp: F inj_on_def split: if_splits)
  then have "started x cb tmo rpt L0 ?L"
    unfolding started_def actL F using oth tm c0 clamped [of "loop_time L" tmo] by simp
  moreover have "uv_timer_start x cb tmo rpt L0 = Some (0, ?L)"
    using L(1) cb cl h(1) by (auto simp: uv_timer_start_def Let_def)
  ultimately show ?thesis by blast
qed

section \<open>Running the timers\<close>

definition due :: "'cb uv_loop \<Rightarrow> node set" where
  "due L = {x \<in> active_timers L. timeout (timers L x) \<le> loop_time L}"

lemma timers_ok_min:
  assumes "timers_ok L"
  shows "heap_min (timer_heap L) = None \<longleftrightarrow> active_timers L = {}"
    and "heap_min (timer_heap L) = Some x \<Longrightarrow> x \<in> active_timers L \<and> (\<forall>y\<in>active_timers L. \<not> timer_less_than (timers L) y x)"
  using timer.heap_repr_min [of "timers L" "timer_heap L" "active_timers L"] assms by (simp_all add: timers_ok_def)

lemma less_than_timeout: "\<not> timer_less_than tm y x \<Longrightarrow> timeout (tm x) \<le> timeout (tm y)"
  by (auto simp: timer_less_than_def Let_def split: if_splits)

text \<open>Once the earliest timer is not due, none is.\<close>

lemma none_due:
  assumes "timers_ok L" and "heap_min (timer_heap L) = Some x" "loop_time L < timeout (timers L x)"
  shows "due L = {}"
proof -
  have "timeout (timers L x) \<le> timeout (timers L y)" if "y \<in> active_timers L" for y
    using timers_ok_min(2) [OF assms(1,2)] less_than_timeout that by blast
  then show ?thesis using assms(3) by (fastforce simp: due_def)
qed

text \<open>A delay other than zero puts the deadline after the current time.\<close>

lemma late_deadline:
  assumes "loop_time L \<noteq> - 1" and "tmo \<noteq> 0"
  shows "unat (loop_time L) < saturated_deadline (loop_time L) tmo"
proof -
  have "unat tmo \<noteq> 0" using assms(2) by (simp add: unsigned_eq_0_iff)
  moreover have "unat (loop_time L) \<noteq> 2 ^ 64 - 1" using assms(1) by (metis unat_minus_1_u64 word_unat_eq_iff)
  moreover have "unat (loop_time L) < 2 ^ 64" using unat_u64_less by simp
  ultimately show ?thesis by (simp add: saturated_deadline_def)
qed

text \<open>Stopping a timer and, if it repeats, starting it anew: it is no longer due.\<close>

definition rearmed :: "node \<Rightarrow> 'cb uv_loop \<Rightarrow> 'cb uv_loop \<Rightarrow> bool" where
  "rearmed x L L' \<longleftrightarrow> timers_ok L' \<and> loop_time L' = loop_time L \<and> (\<forall>y. y \<noteq> x \<longrightarrow> timers L' y = timers L y)
     \<and> timer_cb (timers L' x) = timer_cb (timers L x) \<and> active_timers L' \<subseteq> active_timers L
     \<and> active_timers L - {x} \<subseteq> active_timers L' \<and> due L' = due L - {x}
     \<and> unat (timer_counter L') \<le> unat (timer_counter L) + 1"

lemma uv_timer_again_rearms:
  assumes ok: "timers_ok L" and x: "x \<in> active_timers L" and lim: "card (active_timers L) < 2 ^ 32"
    and cnt: "timer_counter L \<noteq> - 1" and time: "loop_time L \<noteq> - 1"
  shows "\<exists>L1 L2. uv_timer_stop x L = Some (0, L1) \<and> uv_timer_again x L1 = Some (0, L2) \<and> rearmed x L L2"
proof -
  obtain L1 where L1: "uv_timer_stop x L = Some (0, L1)" "stopped x L L1" using uv_timer_stop_ok [OF ok lim] by blast
  have ok1: "timers_ok L1" and act1: "active_timers L1 = active_timers L - {x}" and t1: "loop_time L1 = loop_time L"
    and c1: "timer_counter L1 = timer_counter L" and oth: "\<And>y. y \<noteq> x \<Longrightarrow> timers L1 y = timers L y"
    and cb1: "timer_cb (timers L1 x) = timer_cb (timers L x)"
    using L1(2) by (auto simp: stopped_def)
  have cb: "timer_cb (timers L1 x) \<noteq> None" using ok x cb1 by (simp add: timers_ok_def)
  have due1: "due L1 = due L - {x}" using act1 t1 oth by (auto simp: due_def)
  have fin: "finite (active_timers L)" using ok heap_repr_card by (auto simp: timers_ok_def)
  have ins: "insert x (active_timers L1) = active_timers L" using act1 x by auto
  have l1: "card (active_timers L1) < 2 ^ 32" using lim act1 fin by (metis card_Diff1_le le_less_trans)
  show ?thesis
  proof (cases "repeat (timers L1 x) = 0 \<or> uv__is_closing (timers L1 x)")
    case True
    have "uv_timer_again x L1 = Some (0, L1)"
    proof (cases "repeat (timers L1 x) = 0")
      case False
      have "uv_timer_stop x L1 = Some (0, L1)" using act1 by (auto simp: uv_timer_stop_def active_timers_def)
      then show ?thesis using True False cb by (auto simp: uv_timer_again_def uv_timer_start_def)
    qed (use cb in \<open>auto simp: uv_timer_again_def\<close>)
    moreover have "rearmed x L L1" using ok1 act1 t1 c1 oth cb1 due1 by (auto simp: rearmed_def)
    ultimately show ?thesis using L1(1) by blast
  next
    case False
    have st: "uv_timer_stop x L1 = Some (0, L1)" using act1 by (auto simp: uv_timer_stop_def active_timers_def)
    obtain L2 where L2: "uv_timer_start x (timer_cb (timers L1 x)) (repeat (timers L1 x)) (repeat (timers L1 x)) L1 = Some (0, L2)"
        "started x (timer_cb (timers L1 x)) (repeat (timers L1 x)) (repeat (timers L1 x)) L1 L2"
      using uv_timer_start_ok [OF ok1 _ _ cb, of x "repeat (timers L1 x)" "repeat (timers L1 x)"] ins lim c1 cnt False
      by auto
    have "saturated_deadline (loop_time L1) (repeat (timers L1 x)) > unat (loop_time L1)"
      by (rule late_deadline) (use time t1 False in auto)
    then have late: "\<not> timeout (timers L2 x) \<le> loop_time L2"
      using L2(2) by (simp add: started_def word_le_nat_alt)
    have "due L2 = due L - {x}"
      using L2(2) late due1 oth t1 unfolding due_def started_def by (auto simp: act1)
    moreover have "unat (timer_counter L2) \<le> unat (timer_counter L) + 1"
      using L2(2) c1 unat_plus_if' [of "timer_counter L" 1] by (auto simp: started_def split: if_splits)
    ultimately have "rearmed x L L2"
      using L2(2) t1 oth cb1 ins by (auto simp: rearmed_def started_def act1)
    moreover have "uv_timer_again x L1 = Some (0, L2)" using False cb st L2(1) by (auto simp: uv_timer_again_def)
    ultimately show ?thesis using L1(1) by blast
  qed
qed

text \<open>
  What the calls of a callback leave of the timers that are due: \<open>H\<close> are handles the calls are for. The time stands still, timers only
  cease to be due, and only those in \<open>H\<close> do; one that is still due has its deadline, its number and its callback.
\<close>

definition settles :: "node set \<Rightarrow> nat \<Rightarrow> 'cb uv_loop \<Rightarrow> 'cb uv_loop \<Rightarrow> bool" where
  "settles H n L L' \<longleftrightarrow> timers_ok L' \<and> loop_time L' = loop_time L \<and> active_timers L' \<subseteq> active_timers L \<union> H
     \<and> due L' \<subseteq> due L \<and> due L - H \<subseteq> due L' \<and> unat (timer_counter L') \<le> unat (timer_counter L) + n
     \<and> (\<forall>x\<in>due L'. timeout (timers L' x) = timeout (timers L x) \<and> start_id (timers L' x) = start_id (timers L x))"

lemma settles_refl: "timers_ok L \<Longrightarrow> settles H n L L"
  by (simp add: settles_def)

lemma settles_trans: "settles G m L L1 \<Longrightarrow> settles H n L1 L2 \<Longrightarrow> settles (G \<union> H) (m + n) L L2"
  unfolding settles_def by (intro conjI ballI) (simp_all, auto)

lemma settles_mono: "settles G m L L' \<Longrightarrow> G \<subseteq> H \<Longrightarrow> m \<le> n \<Longrightarrow> settles H n L L'"
  unfolding settles_def by (intro conjI ballI) (simp_all, auto)

lemma stopped_settles: "stopped x L L' \<Longrightarrow> settles {x} 0 L L'"
  by (auto simp: stopped_def settles_def due_def)

lemma started_settles:
  assumes "started x cb tmo rpt L L'" and "loop_time L \<noteq> - 1" and "tmo \<noteq> 0" and "timer_counter L \<noteq> - 1"
  shows "settles {x} 1 L L'"
proof -
  have "x \<notin> due L'"
    using assms(1) late_deadline [OF assms(2,3)] by (simp add: started_def due_def word_le_nat_alt)
  moreover have "unat (timer_counter L') \<le> unat (timer_counter L) + 1"
    using assms(1) unat_plus_if' [of "timer_counter L" 1] by (auto simp: started_def split: if_splits)
  ultimately show ?thesis using assms(1) by (auto simp: settles_def started_def due_def)
qed

lemma timer_op_settles:
  assumes ok: "timers_ok L" and lim: "card (insert (op_handle p) (active_timers L)) < 2 ^ 32" and d: "delayed p"
    and cnt: "timer_counter L \<noteq> - 1" and time: "loop_time L \<noteq> - 1"
  shows "\<exists>L'. exec_timer_op p L = Some L' \<and> settles {op_handle p} 1 L L'"
proof -
  have fin: "finite (active_timers L)" using ok heap_repr_card by (auto simp: timers_ok_def)
  have lim0: "card (active_timers L) < 2 ^ 32" using lim fin card_insert_le by (metis le_less_trans)
  have start: "\<exists>L'. map_option snd (uv_timer_start x cb tmo rpt L) = Some L' \<and> settles {x} 1 L L'"
    if "x = op_handle p" "tmo \<noteq> 0" for x cb tmo rpt
  proof (cases "cb = None \<or> uv__is_closing (timers L x)")
    case True
    then show ?thesis using ok by (auto simp: uv_timer_start_def intro: settles_refl)
  next
    case False
    then show ?thesis
      using uv_timer_start_ok [OF ok, of x cb tmo rpt] lim cnt that started_settles [OF _ time that(2) cnt] by fastforce
  qed
  have stop: "\<exists>L'. uv_timer_stop x L = Some (0, L') \<and> stopped x L L'" for x by (rule uv_timer_stop_ok [OF ok lim0])
  show ?thesis
  proof (cases p)
    case (Start x cb tmo rpt)
    then show ?thesis using start d by simp
  next
    case (Stop x)
    then show ?thesis using stop [of x] settles_mono [OF stopped_settles] by fastforce
  next
    case (Again x)
    show ?thesis
    proof (cases "timer_cb (timers L x) = None \<or> repeat (timers L x) = 0")
      case True
      then show ?thesis using Again ok by (auto simp: uv_timer_again_def intro: settles_refl)
    next
      case False
      obtain L1 where L1: "uv_timer_stop x L = Some (0, L1)" "stopped x L L1" using stop by blast
      have f: "timer_cb (timers L1 x) = timer_cb (timers L x)" "repeat (timers L1 x) = repeat (timers L x)" "timers_ok L1"
        "timer_counter L1 = timer_counter L" "loop_time L1 = loop_time L" "active_timers L1 \<subseteq> active_timers L"
        using L1(2) by (auto simp: stopped_def)
      have "\<exists>r L2. uv_timer_start x (timer_cb (timers L1 x)) (repeat (timers L1 x)) (repeat (timers L1 x)) L1 = Some (r, L2) \<and> settles {x} 1 L1 L2"
      proof (cases "uv__is_closing (timers L1 x)")
        case True
        then show ?thesis using f(3) by (auto simp: uv_timer_start_def intro: settles_refl)
      next
        case can: False
        have "card (insert x (active_timers L1)) < 2 ^ 32"
          using lim Again f(6) fin by (metis (no_types, lifting) card_mono finite_insert insert_mono le_less_trans op_handle.simps(3))
        then show ?thesis
          using uv_timer_start_ok [OF f(3) _ _ _ can] started_settles False f cnt time by (metis (no_types, lifting))
      qed
      then obtain r L2 where "uv_timer_start x (timer_cb (timers L1 x)) (repeat (timers L1 x)) (repeat (timers L1 x)) L1 = Some (r, L2)"
          "settles {x} 1 L1 L2" by blast
      then show ?thesis
        using L1 False Again settles_trans [OF stopped_settles [OF L1(2)]] by (fastforce simp: uv_timer_again_def)
    qed
  next
    case (Set_repeat x rpt)
    let ?L = "uv_timer_set_repeat x rpt L"
    have f: "flags (timers ?L y) = flags (timers L y)" "timer_cb (timers ?L y) = timer_cb (timers L y)"
      "timeout (timers ?L y) = timeout (timers L y)" "start_id (timers ?L y) = start_id (timers L y)" for y
      by (simp_all add: uv_timer_set_repeat_def)
    have a: "active_timers ?L = active_timers L" by (simp add: active_timers_def uv__is_active_def f)
    have "timer_less_than (timers ?L) = timer_less_than (timers L)" by (intro ext) (simp add: timer_less_than_def Let_def f)
    then have "timers_ok ?L" using ok by (simp add: timers_ok_def a f) (simp add: uv_timer_set_repeat_def)
    moreover have "due ?L = due L" by (simp add: due_def a f) (simp add: uv_timer_set_repeat_def)
    ultimately have "settles {x} 1 L ?L" using a by (auto simp: settles_def f) (simp_all add: uv_timer_set_repeat_def)
    then show ?thesis using Set_repeat by simp
  qed
qed

text \<open>\<open>H\<close> bounds the handles of the loop, whose number an \<^verbatim>\<open>unsigned int\<close> can hold.\<close>

lemma timer_ops_settle:
  assumes "timers_ok L" and "active_timers L \<subseteq> H" and "finite H" and "card H < 2 ^ 32" and "loop_time L \<noteq> - 1"
    and "op_handle ` set ps \<subseteq> H" and "\<forall>p\<in>set ps. delayed p" and "unat (timer_counter L) + length ps < 2 ^ 64"
  shows "\<exists>L'. exec_timer_ops ps L = Some L' \<and> settles (op_handle ` set ps) (length ps) L L'"
  using assms(1,2,5-8)
proof (induction ps arbitrary: L)
  case Nil
  then show ?case by (simp add: settles_refl)
next
  case (Cons p ps)
  have "card (insert (op_handle p) (active_timers L)) < 2 ^ 32"
    using Cons.prems(2,4) assms(3,4) by (metis card_mono image_subset_iff insert_subset le_less_trans list.set_intros(1))
  moreover have "timer_counter L \<noteq> - 1" using Cons.prems(6) unat_minus_1_u64 by auto
  ultimately obtain L1 where L1: "exec_timer_op p L = Some L1" "settles {op_handle p} 1 L L1"
    using timer_op_settles [OF Cons.prems(1), of p] Cons.prems(3,5) by auto
  have "timers_ok L1" "active_timers L1 \<subseteq> H" "loop_time L1 \<noteq> - 1" "unat (timer_counter L1) + length ps < 2 ^ 64"
    using L1(2) Cons.prems by (auto simp: settles_def)
  then obtain L2 where "exec_timer_ops ps L1 = Some L2" "settles (op_handle ` set ps) (length ps) L1 L2"
    using Cons.IH [of L1] Cons.prems(4,5) by auto
  then show ?case using L1 settles_trans [OF L1(2)] by fastforce
qed

lemma rearmed_settles:
  assumes "rearmed x L L'"
  shows "settles {x} 1 L L'" and "due L' = due L - {x}"
proof -
  show d: "due L' = due L - {x}" using assms by (simp add: rearmed_def)
  have "timers L' y = timers L y" if "y \<in> due L'" for y using that assms unfolding d by (auto simp: rearmed_def)
  then show "settles {x} 1 L L'" using assms d by (auto simp: settles_def rearmed_def)
qed

text \<open>Programs of callbacks that make at most \<open>n\<close> calls, on their own handle or on handles in \<open>H\<close>, and without a delay of zero.\<close>

definition delaying :: "node set \<Rightarrow> nat \<Rightarrow> ('cb \<Rightarrow> node \<Rightarrow> 'cb uv_loop \<Rightarrow> 'cb timer_op list) \<Rightarrow> bool" where
  "delaying H n prog \<longleftrightarrow> (\<forall>cb x L. length (prog cb x L) \<le> n \<and> (\<forall>p\<in>set (prog cb x L). op_handle p \<in> insert x H \<and> delayed p))"

text \<open>One round of the loop.\<close>

lemma run_timers_round:
  assumes ok: "timers_ok L" and act: "active_timers L \<subseteq> H" and H: "finite H" "card H < 2 ^ 32" and time: "loop_time L \<noteq> - 1"
    and prog: "delaying H n prog" and cnt: "unat (timer_counter L) + (n + 1) < 2 ^ 64"
    and x: "heap_min (timer_heap L) = Some x" "timeout (timers L x) \<le> loop_time L"
  obtains cb L2 L3 where "uv__run_timers (callback prog) L = Option.bind (uv__run_timers (callback prog) L3) (\<lambda>(tr, L4). Some (x # tr, L4))"
    and "due L2 = due L - {x}" and "settles (op_handle ` set (prog cb x L2)) n L2 L3" and "settles H (n + 1) L L3"
proof -
  note mn = timers_ok_min(2) [OF ok x(1)]
  have lim: "card (active_timers L) < 2 ^ 32" using card_mono [OF H(1) act] H(2) by simp
  have c: "timer_counter L \<noteq> - 1" using cnt unat_minus_1_u64 by auto
  obtain L1 L2 where s: "uv_timer_stop x L = Some (0, L1)" "uv_timer_again x L1 = Some (0, L2)" "rearmed x L L2"
    using uv_timer_again_rearms [OF ok conjunct1 [OF mn] lim c time] by blast
  obtain cb where cb: "timer_cb (timers L2 x) = Some cb"
    using ok mn s(3) by (auto simp: timers_ok_def rearmed_def)
  note r = rearmed_settles [OF s(3)]
  have p: "op_handle ` set (prog cb x L2) \<subseteq> H" "\<forall>p\<in>set (prog cb x L2). delayed p" "length (prog cb x L2) \<le> n"
    using prog act mn by (fastforce simp: delaying_def)+
  have "timers_ok L2" "active_timers L2 \<subseteq> H" "loop_time L2 \<noteq> - 1" "unat (timer_counter L2) + length (prog cb x L2) < 2 ^ 64"
    using r(1) act time cnt mn p(3) by (auto simp: settles_def)
  then obtain L3 where L3: "exec_timer_ops (prog cb x L2) L2 = Some L3" "settles (op_handle ` set (prog cb x L2)) (length (prog cb x L2)) L2 L3"
    using timer_ops_settle [OF _ _ H _ p(1,2)] by blast
  show thesis
  proof
    show "uv__run_timers (callback prog) L = Option.bind (uv__run_timers (callback prog) L3) (\<lambda>(tr, L4). Some (x # tr, L4))"
      using x s(1,2) cb L3(1) by (subst uv__run_timers.simps) (auto simp: callback_def dest: leD)
    show "due L2 = due L - {x}" by (rule r(2))
    show "settles (op_handle ` set (prog cb x L2)) n L2 L3" by (rule settles_mono [OF L3(2) order_refl p(3)])
    show "settles H (n + 1) L L3"
      by (rule settles_mono [OF settles_trans [OF r(1) L3(2)]]) (use p act mn in auto)
  qed
qed

lemma less_than_sorted:
  assumes "timers_ok L" and "heap_min (timer_heap L) = Some x" and "y \<in> active_timers L" and "y \<noteq> x"
  shows "timer_less_than (timers L) x y"
proof -
  note mn = timers_ok_min(2) [OF assms(1,2)]
  have "start_id (timers L x) \<noteq> start_id (timers L y)"
    using assms(1,3,4) mn by (auto simp: timers_ok_def inj_on_def)
  then show ?thesis using mn assms(3) by (auto simp: timer_less_than_def Let_def split: if_splits)
qed

lemma less_than_settled:
  "settles H n L L' \<Longrightarrow> x \<in> due L' \<Longrightarrow> y \<in> due L' \<Longrightarrow> timer_less_than (timers L') x y = timer_less_than (timers L) x y"
  by (simp add: settles_def timer_less_than_def Let_def)

text \<open>
  The loop ends. A timer that was due and did not run was taken out by the callback of one before it.
\<close>

definition withdrawn :: "('cb \<Rightarrow> node \<Rightarrow> 'cb uv_loop \<Rightarrow> 'cb timer_op list) \<Rightarrow> 'cb uv_loop \<Rightarrow> node list \<Rightarrow> node \<Rightarrow> bool" where
  "withdrawn prog L tr x \<longleftrightarrow>
     (\<exists>y\<in>set tr. timer_less_than (timers L) y x \<and> (\<exists>cb L1. x \<in> op_handle ` set (prog cb y L1)))"

lemma run_timers_due:
  assumes H: "finite H" "card H < 2 ^ 32" and prog: "delaying H n prog"
    and "timers_ok L" and "active_timers L \<subseteq> H" and "loop_time L \<noteq> - 1" and "unat (timer_counter L) + card (due L) * (n + 1) < 2 ^ 64"
  shows "\<exists>tr L'. uv__run_timers (callback prog) L = Some (tr, L') \<and> timers_ok L' \<and> due L' = {} \<and> distinct tr \<and> set tr \<subseteq> due L
    \<and> sorted_wrt (timer_less_than (timers L)) tr \<and> (\<forall>x\<in>due L - set tr. withdrawn prog L tr x)"
  using assms(4-)
proof (induction "card (due L)" arbitrary: L rule: less_induct)
  case less
  note ok = less.prems(1)
  have fin: "finite (due L)" using ok heap_repr_card by (auto simp: timers_ok_def due_def)
  show ?case
  proof (cases "heap_min (timer_heap L)")
    case None
    then have "due L = {}" using timers_ok_min(1) [OF ok] by (simp add: due_def)
    then show ?thesis using None ok by (subst uv__run_timers.simps) simp
  next
    case (Some x)
    note mn = timers_ok_min(2) [OF ok Some]
    show ?thesis
    proof (cases "timeout (timers L x) > loop_time L")
      case True
      then have "due L = {}" using none_due [OF ok Some] by simp
      then show ?thesis using Some True ok by (subst uv__run_timers.simps) simp
    next
      case False
      then have xd: "x \<in> due L" using mn by (simp add: due_def)
      then have "0 < card (due L)" using fin by (auto simp: card_gt_0_iff)
      then obtain m where m: "card (due L) = Suc m" using gr0_implies_Suc by blast
      have cnt: "unat (timer_counter L) + (n + 1) < 2 ^ 64" "unat (timer_counter L) + (n + 1) + m * (n + 1) < 2 ^ 64"
        using less.prems(4) by (simp_all add: m)
      obtain cb L2 L3 where run: "uv__run_timers (callback prog) L = Option.bind (uv__run_timers (callback prog) L3) (\<lambda>(tr, L4). Some (x # tr, L4))"
        and L2: "due L2 = due L - {x}" "settles (op_handle ` set (prog cb x L2)) n L2 L3" and L3: "settles H (n + 1) L L3"
        using run_timers_round [OF ok less.prems(2) H less.prems(3) prog cnt(1) Some] False by (metis not_less)
      have sub: "due L3 \<subseteq> due L - {x}" "due L - {x} - op_handle ` set (prog cb x L2) \<subseteq> due L3"
        using L2 by (auto simp: settles_def)
      have d3: "card (due L3) \<le> m" using card_mono [OF _ sub(1)] fin xd m by simp
      have less_card: "card (due L3) < card (due L)" using d3 m by simp
      have "m * (n + 1) \<ge> card (due L3) * (n + 1)" using d3 by (rule mult_le_mono1)
      then have s3: "timers_ok L3" "active_timers L3 \<subseteq> H" "loop_time L3 \<noteq> - 1" "unat (timer_counter L3) + card (due L3) * (n + 1) < 2 ^ 64"
        using L3 less.prems(2,3) cnt(2) by (auto simp: settles_def)
      obtain tr L' where t: "uv__run_timers (callback prog) L3 = Some (tr, L')" "timers_ok L'" "due L' = {}" "distinct tr" "set tr \<subseteq> due L3"
          "sorted_wrt (timer_less_than (timers L3)) tr" "\<forall>x\<in>due L3 - set tr. withdrawn prog L3 tr x"
        using less.hyps [OF less_card s3] by blast
      have first: "timer_less_than (timers L) x y" if "y \<in> due L" "y \<noteq> x" for y
        using less_than_sorted [OF ok Some _ that(2)] that(1) by (simp add: due_def)
      have "sorted_wrt (timer_less_than (timers L)) tr"
        using t(6) by (rule sorted_wrt_mono_rel [rotated]) (use t(5) less_than_settled [OF L3] in blast)
      then have "sorted_wrt (timer_less_than (timers L)) (x # tr)" using first t(5) sub(1) by auto
      moreover have "withdrawn prog L (x # tr) y" if y: "y \<in> due L" "y \<notin> set (x # tr)" for y
      proof (cases "y \<in> due L3")
        case True
        then have "withdrawn prog L3 tr y" using t(7) y(2) by simp
        then show ?thesis using less_than_settled [OF L3 _ True] t(5) unfolding withdrawn_def by (metis list.set_intros(2) subsetD)
      next
        case False
        then have "y \<in> op_handle ` set (prog cb x L2)" using sub(2) y by auto
        then show ?thesis using first [OF y(1)] y(2) unfolding withdrawn_def by auto
      qed
      moreover have "uv__run_timers (callback prog) L = Some (x # tr, L')" "distinct (x # tr)" "set (x # tr) \<subseteq> due L"
        using run t(1,4,5) sub(1) xd by auto
      ultimately show ?thesis using t(2,3) by blast
    qed
  qed
qed

section \<open>Properties\<close>

text \<open>A loop without active timers.\<close>

definition idle_loop :: "u64 \<Rightarrow> 'cb uv_loop" where
  "idle_loop now = \<lparr>loop_time = now, timer_counter = 0, active_handles = 0,
     timer_heap = \<lparr>heap_root = None, nelts = 0, nodes = \<lambda>_. \<lparr>left = None, right = None, parent = None\<rparr>\<rparr>,
     timers = \<lambda>_. \<lparr>flags = UV_HANDLE_REF, timer_cb = None, timeout = 0, repeat = 0, start_id = 0\<rparr>\<rparr>"

lemma empty_repr: "nelts h = 0 \<Longrightarrow> heap_root h = None \<Longrightarrow> heap_repr lt h {}"
  by (auto simp: heap_repr_def shape_def at_index_def ordered_def)

lemma idle_loop_ok: "timers_ok (idle_loop now)" "active_timers (idle_loop now) = {}"
    "\<not> uv__is_closing (timers (idle_loop now) x)" "timer_counter (idle_loop now) = 0" "loop_time (idle_loop now) = now"
proof -
  show a: "active_timers (idle_loop now) = {}"
    by (simp add: active_timers_def idle_loop_def uv__is_active_def UV_HANDLE_REF_def UV_HANDLE_ACTIVE_def)
  show "timers_ok (idle_loop now)" unfolding timers_ok_def a by (simp add: empty_repr idle_loop_def)
  show "\<not> uv__is_closing (timers (idle_loop now) x)"
    by (simp add: idle_loop_def uv__is_closing_def UV_HANDLE_REF_def UV_HANDLE_CLOSING_def UV_HANDLE_CLOSED_def)
qed (simp_all add: idle_loop_def)

text \<open>
  C16. The pointer heap is a priority queue: inserting a node that is not in it and removing one
  that is both end, without following a NULL pointer, and leave a complete binary tree in heap order
  with exactly the expected nodes, whose root is a least one. Every parent, child and root pointer
  is part of the representation.
\<close>

theorem timer_heap_priority_queue:
  assumes "heap_repr (timer_less_than tm) h S" and "nelts h + 1 < 2 ^ 32"
  shows "(x \<notin> S \<longrightarrow> (\<exists>h'. heap_insert (timer_less_than tm) h x = Some h' \<and> heap_repr (timer_less_than tm) h' (insert x S)))
    \<and> (x \<in> S \<longrightarrow> (\<exists>h'. heap_remove (timer_less_than tm) h x = Some h' \<and> heap_repr (timer_less_than tm) h' (S - {x})))
    \<and> (heap_min h = None \<longleftrightarrow> S = {})
    \<and> (\<forall>m. heap_min h = Some m \<longrightarrow> m \<in> S \<and> (\<forall>y\<in>S. \<not> timer_less_than tm y m))"
  using timer.heap_insert_repr [OF assms(1) _ assms(2), of x] timer.heap_remove_repr [OF assms(1), of x] assms(2)
    timer.heap_repr_min [OF assms(1)] by auto

theorem timer_heap_priority_queue_witness:
  "\<exists>h'. heap_insert (timer_less_than (timers (idle_loop 7 :: unit uv_loop))) (timer_heap (idle_loop 7 :: unit uv_loop)) 5 = Some h'
     \<and> heap_repr (timer_less_than (timers (idle_loop 7 :: unit uv_loop))) h' {5}"
proof -
  have "heap_repr (timer_less_than (timers (idle_loop 7 :: unit uv_loop))) (timer_heap (idle_loop 7 :: unit uv_loop)) {}"
    by (rule empty_repr) (simp_all add: idle_loop_def)
  from timer_heap_priority_queue [OF this, of 5] show ?thesis by (simp add: idle_loop_def)
qed

text \<open>
  C17. Starting and stopping timers keeps the timers of a loop consistent: the heap holds exactly
  the active timers. A start on a handle that may be started always succeeds, puts the deadline at the loop time plus
  the timeout or, where that does not fit 64 bits, at the last instant (never in the past), numbers the
  timer after all running ones and leaves every other timer alone. A stop only takes its timer out.
\<close>

theorem timers_stay_consistent:
  assumes "timers_ok L" and "card (insert x (active_timers L)) < 2 ^ 32" and "timer_counter L \<noteq> - 1"
  shows "(if cb = None \<or> uv__is_closing (timers L x)
      then uv_timer_start x cb tmo rpt L = Some (UV_EINVAL, L)
      else \<exists>L'. uv_timer_start x cb tmo rpt L = Some (0, L') \<and> started x cb tmo rpt L L')
    \<and> (\<exists>L'. uv_timer_stop x L = Some (0, L') \<and> stopped x L L')"
proof
  have "finite (active_timers L)" using assms(1) heap_repr_card by (auto simp: timers_ok_def)
  then have "card (active_timers L) < 2 ^ 32" using assms(2) card_insert_le by (metis le_less_trans)
  then show "\<exists>L'. uv_timer_stop x L = Some (0, L') \<and> stopped x L L'" by (rule uv_timer_stop_ok [OF assms(1)])
  show "if cb = None \<or> uv__is_closing (timers L x)
      then uv_timer_start x cb tmo rpt L = Some (UV_EINVAL, L)
      else \<exists>L'. uv_timer_start x cb tmo rpt L = Some (0, L') \<and> started x cb tmo rpt L L'"
    using uv_timer_start_ok [OF assms, of cb tmo rpt] by (auto simp: uv_timer_start_def)
qed

theorem timers_stay_consistent_witness:
  "\<exists>L'. uv_timer_start 5 (Some ''cb'') 10 0 (idle_loop 7) = Some (0, L') \<and> started 5 (Some ''cb'') 10 0 (idle_loop 7) L'"
  using timers_stay_consistent [OF idle_loop_ok(1), of 5 7 "Some ''cb''" 10 0] by (simp add: idle_loop_ok)

text \<open>
  \<open>uv__next_timeout\<close> tells the loop how long it may block: for ever exactly if no timer is
  active, otherwise until the earliest deadline, not at all if that has passed, and never longer
  than an \<^verbatim>\<open>int\<close> can say.
\<close>

theorem next_timeout_correct:
  assumes "timers_ok L"
  shows "if active_timers L = {} then uv__next_timeout L = -1
    else \<exists>x\<in>active_timers L. (\<forall>y\<in>active_timers L. timeout (timers L x) \<le> timeout (timers L y))
      \<and> uv__next_timeout L = min (max 0 (uint (timeout (timers L x)) - uint (loop_time L))) 2147483647"
proof (cases "active_timers L = {}")
  case True
  then show ?thesis using timers_ok_min(1) [OF assms] by (simp add: uv__next_timeout_def)
next
  case ne: False
  then obtain x where x: "heap_min (timer_heap L) = Some x" using timers_ok_min(1) [OF assms] by auto
  note mn = timers_ok_min(2) [OF assms x]
  let ?d = "timeout (timers L x) - loop_time L"
  have "uv__next_timeout L = min (max 0 (uint (timeout (timers L x)) - uint (loop_time L))) 2147483647"
  proof (cases "timeout (timers L x) \<le> loop_time L")
    case True
    then show ?thesis using x by (simp add: uv__next_timeout_def word_le_def)
  next
    case False
    then have "uint ?d = uint (timeout (timers L x)) - uint (loop_time L)" by (simp add: uint_sub_if' word_le_def)
    then show ?thesis using x False by (auto simp: uv__next_timeout_def Let_def word_le_def word_less_def)
  qed
  moreover have "\<forall>y\<in>active_timers L. timeout (timers L x) \<le> timeout (timers L y)"
    using mn less_than_timeout by blast
  ultimately show ?thesis unfolding if_not_P [OF ne] using mn by blast
qed

theorem next_timeout_correct_witness:
  "\<exists>L. uv_timer_start 5 (Some ''cb'') 10 0 (idle_loop 7) = Some (0, L) \<and> uv__next_timeout L = 10"
proof -
  obtain L where L: "uv_timer_start 5 (Some ''cb'') 10 0 (idle_loop 7) = Some (0, L)" "started 5 (Some ''cb'') 10 0 (idle_loop 7) L"
    using uv_timer_start_ok [of "idle_loop 7" 5 "Some ''cb''" 10 0] by (auto simp: idle_loop_ok)
  have a: "active_timers L = {5}" "timers_ok L" "loop_time L = 7" "unat (timeout (timers L 5)) = 17"
    using L(2) by (auto simp: started_def idle_loop_ok saturated_deadline_def)
  then have "uint (timeout (timers L 5)) = 17" by (metis of_nat_numeral uint_nat)
  then have "uv__next_timeout L = 10" using next_timeout_correct [OF a(2)] a by simp
  then show ?thesis using L(1) by blast
qed

text \<open>
  C18. Running the timers ends although the callbacks start, stop, restart and change timers themselves, their own and those of
  others, provided that they never ask for a delay of zero, which would make a timer due again at once. Each timer that was due runs at most
  once, in the order of the deadlines and, for equal deadlines, in the order they were started; one that does not run was acted on by the
  callback of an earlier one. Nothing else runs, and afterwards no timer is due.
\<close>

theorem run_timers_in_order:
  assumes "timers_ok L" and "active_timers L \<subseteq> H" and "finite H" and "card H < 2 ^ 32" and "loop_time L \<noteq> - 1"
    and "delaying H n prog" and "unat (timer_counter L) + card (due L) * (n + 1) < 2 ^ 64"
  shows "\<exists>tr L'. uv__run_timers (callback prog) L = Some (tr, L') \<and> timers_ok L' \<and> due L' = {} \<and> distinct tr \<and> set tr \<subseteq> due L
    \<and> sorted_wrt (timer_less_than (timers L)) tr \<and> (\<forall>x\<in>due L - set tr. withdrawn prog L tr x)"
  using run_timers_due [OF assms(3,4,6,1,2,5,7)] .

text \<open>Two timers that are due; the first one's callback stops the other and starts itself anew.\<close>

theorem run_timers_in_order_witness:
  "\<exists>L L0 tr L'. uv_timer_start 5 (Some ''cb'') 0 3 (idle_loop 7) = Some (0, L0) \<and> uv_timer_start 6 (Some ''cb'') 0 0 L0 = Some (0, L)
     \<and> due L = {5, 6} \<and> uv__run_timers (callback (\<lambda>cb x L. [Stop 6, Start x (Some cb) 10 0])) L = Some (tr, L') \<and> 5 \<in> set tr \<and> due L' = {}"
proof -
  let ?prog = "\<lambda>cb x L. [Stop 6, Start x (Some cb) 10 0] :: string timer_op list"
  obtain L0 where L0: "uv_timer_start 5 (Some ''cb'') 0 3 (idle_loop 7) = Some (0, L0)" "started 5 (Some ''cb'') 0 3 (idle_loop 7) L0"
    using uv_timer_start_ok [of "idle_loop 7" 5 "Some ''cb''" 0 3] by (auto simp: idle_loop_ok)
  have a: "active_timers L0 = {5}" "timers_ok L0" "loop_time L0 = 7" "timer_counter L0 = 1" "unat (timeout (timers L0 5)) = 7"
    "timers L0 6 = timers (idle_loop 7) 6"
    using L0(2) by (auto simp: started_def idle_loop_ok saturated_deadline_def)
  obtain L where L: "uv_timer_start 6 (Some ''cb'') 0 0 L0 = Some (0, L)" "started 6 (Some ''cb'') 0 0 L0 L"
    using uv_timer_start_ok [of L0 6 "Some ''cb''" 0 0] a by (auto simp: idle_loop_ok)
  have b: "active_timers L = {5, 6}" "timers_ok L" "loop_time L = 7" "timer_counter L = 2" "unat (timeout (timers L 5)) = 7"
    "unat (timeout (timers L 6)) = 7" "start_id (timers L 6) = 1" "start_id (timers L 5) = 0"
    using L0(2) L(2) a by (auto simp: started_def idle_loop_ok saturated_deadline_def)
  then have d: "due L = {5, 6}" by (auto simp: due_def word_le_nat_alt)
  have p: "delaying {5, 6} 2 ?prog" by (simp add: delaying_def)
  obtain tr L' where t: "uv__run_timers (callback ?prog) L = Some (tr, L')" "due L' = {}" "set tr \<subseteq> {5, 6}"
      "\<forall>x\<in>{5, 6} - set tr. withdrawn ?prog L tr x"
  proof -
    have "\<exists>tr L'. uv__run_timers (callback ?prog) L = Some (tr, L') \<and> timers_ok L' \<and> due L' = {} \<and> distinct tr \<and> set tr \<subseteq> due L
      \<and> sorted_wrt (timer_less_than (timers L)) tr \<and> (\<forall>x\<in>due L - set tr. withdrawn ?prog L tr x)"
      by (rule run_timers_in_order [where H = "{5, 6}" and n = 2]) (use b d p in simp_all)
    then show thesis using that unfolding d by blast
  qed
  have first: "\<not> timer_less_than (timers L) y 5" if "y \<in> {5, 6}" for y
    using that b(5-8) by (auto simp: timer_less_than_def Let_def word_less_nat_alt)
  have "5 \<in> set tr"
  proof (rule ccontr)
    assume "5 \<notin> set tr"
    then obtain y where "y \<in> set tr" "timer_less_than (timers L) y 5" using t(4) by (auto simp: withdrawn_def)
    then show False using first t(3) by blast
  qed
  then show ?thesis using L0(1) L(1) d t(1,2) by blast
qed

end
