(* ===== verification/Byte_Memory.thy ===== *)
theory Byte_Memory
  imports Byte_Prelude
begin

text \<open>
  One address space for code whose input and output buffers may overlap: memory is a list of
  bytes, a pointer an index into it. The word-sized loads and stores of \<^verbatim>\<open>crypto/internal.h\<close>, the
  loops that XOR a key stream into a buffer a word or a byte at a time, and the laws of
  reading and writing that the block cipher modes rest on, and what it means for a mode that
  works in words and blocks to process a buffer one byte at a time.
\<close>

section \<open>Reading and writing\<close>

definition mem_read :: "nat \<Rightarrow> nat \<Rightarrow> u8 list \<Rightarrow> u8 list" where
  "mem_read p n mem = take n (drop p mem)"

lemma length_mem_read [simp]: "p + n \<le> length mem \<Longrightarrow> length (mem_read p n mem) = n"
  by (simp add: mem_read_def)

lemma mem_read_0 [simp]: "mem_read p 0 mem = []"
  by (simp add: mem_read_def)

lemma mem_write_Nil [simp]: "mem_write p [] mem = mem"
  by (simp add: mem_write_def)

lemma mem_read_append: "mem_read p (m + n) mem = mem_read p m mem @ mem_read (p + m) n mem"
  by (simp add: mem_read_def take_add ac_simps)

lemma mem_read_Suc: "p < length mem \<Longrightarrow> mem_read p (Suc n) mem = mem ! p # mem_read (Suc p) n mem"
  by (simp add: mem_read_def Cons_nth_drop_Suc [symmetric])

lemma mem_read_mem_read: "n + k \<le> m \<Longrightarrow> mem_read n k (mem_read p m mem) = mem_read (p + n) k mem"
  by (simp add: mem_read_def take_drop add.commute)

lemma nth_mem_read: "p + n \<le> length mem \<Longrightarrow> j < n \<Longrightarrow> mem_read p n mem ! j = mem ! (p + j)"
  by (simp add: mem_read_def)

lemma nth_mem_write:
  assumes "q + length d \<le> length mem" and "j < length mem"
  shows "mem_write q d mem ! j = (if q \<le> j \<and> j < q + length d then d ! (j - q) else mem ! j)"
  using assms by (auto simp: mem_write_def nth_append min_def)

lemma mem_read_write_other:
  assumes "p + n \<le> q \<or> q + length d \<le> p" and "q + length d \<le> length mem" and "p + n \<le> length mem"
  shows "mem_read p n (mem_write q d mem) = mem_read p n mem"
  using assms by (intro nth_equalityI) (auto simp: nth_mem_read nth_mem_write)

lemma mem_read_write_same:
  assumes "q + length d \<le> length mem" shows "mem_read q (length d) (mem_write q d mem) = d"
  using assms by (intro nth_equalityI) (auto simp: nth_mem_read nth_mem_write)

lemma mem_write_twice: "length a = length b \<Longrightarrow> q + length b \<le> length mem \<Longrightarrow> mem_write q a (mem_write q b mem) = mem_write q a mem"
  by (intro nth_equalityI) (auto simp: nth_mem_write)

lemma mem_write_append:
  assumes "q + length a + length b \<le> length mem"
  shows "mem_write (q + length a) b (mem_write q a mem) = mem_write q (a @ b) mem"
  using assms by (intro nth_equalityI) (auto simp: nth_mem_write nth_append)

lemma mem_write_single: "q < length mem \<Longrightarrow> mem[q := x] = mem_write q [x] mem"
  by (intro nth_equalityI) (auto simp: nth_mem_write nth_list_update)

lemma mem_write_Cons:
  assumes "p + length (x # d) \<le> length mem"
  shows "mem_write (Suc p) d (mem[p := x]) = mem_write p (x # d) mem"
  using assms mem_write_append [of p "[x]" d mem] by (simp add: mem_write_single)

lemma mem_read_update [simp]: "p < q \<Longrightarrow> mem_read q n (mem[p := x]) = mem_read q n mem"
  by (simp add: mem_read_def)

section \<open>Words\<close>

definition CRYPTO_load_word_le :: "nat \<Rightarrow> u8 list \<Rightarrow> u64" where
  "CRYPTO_load_word_le p mem = le_load (mem_read p 8 mem)"

definition CRYPTO_store_word_le :: "nat \<Rightarrow> u64 \<Rightarrow> u8 list \<Rightarrow> u8 list" where
  "CRYPTO_store_word_le p v mem = mem_write p (le_bytes8 v) mem"

definition CRYPTO_load_u32_be :: "nat \<Rightarrow> u8 list \<Rightarrow> u32" where
  "CRYPTO_load_u32_be p mem = of_nat (be_val (mem_read p 4 mem))"

definition CRYPTO_store_u32_be :: "nat \<Rightarrow> u32 \<Rightarrow> u8 list \<Rightarrow> u8 list" where
  "CRYPTO_store_u32_be p v mem = mem_write p (be_bytes 4 (unat v)) mem"

definition CRYPTO_load_u32_le :: "nat \<Rightarrow> u8 list \<Rightarrow> u32" where
  "CRYPTO_load_u32_le p mem = of_nat (be_val (rev (mem_read p 4 mem)))"

definition CRYPTO_store_u32_le :: "nat \<Rightarrow> u32 \<Rightarrow> u8 list \<Rightarrow> u8 list" where
  "CRYPTO_store_u32_le p v mem = mem_write p (rev (be_bytes 4 (unat v))) mem"

definition CRYPTO_load_u64_be :: "nat \<Rightarrow> u8 list \<Rightarrow> u64" where
  "CRYPTO_load_u64_be p mem = of_nat (be_val (mem_read p 8 mem))"

definition CRYPTO_store_u64_be :: "nat \<Rightarrow> u64 \<Rightarrow> u8 list \<Rightarrow> u8 list" where
  "CRYPTO_store_u64_be p v mem = mem_write p (be_bytes 8 (unat v)) mem"

lemma be_bytes_mod: "be_bytes n (v mod 256 ^ n) = be_bytes n v"
proof -
  have "be_bytes n (be_val (be_bytes n v)) = be_bytes n v"
    using be_bytes_be_val [of "be_bytes n v"] by simp
  then show ?thesis by (simp add: be_val_be_bytes)
qed

text \<open>A big-endian number in two halves.\<close>

lemma be_bytes_split: "be_bytes (m + n) v = be_bytes m (v div 256 ^ n) @ be_bytes n v"
  by (induction n arbitrary: v) (simp_all add: div_mult2_eq)

definition xor_bytes :: "u8 list \<Rightarrow> u8 list \<Rightarrow> u8 list" where
  "xor_bytes = map2 (XOR)"

lemma length_xor_bytes [simp]: "length (xor_bytes a b) = min (length a) (length b)"
  by (simp add: xor_bytes_def)

lemma xor_bytes_simps [simp]:
  "xor_bytes [] ks = []" "xor_bytes (x # xs) (k # ks) = (x XOR k) # xor_bytes xs ks"
  by (simp_all add: xor_bytes_def)

lemma nth_xor_bytes: "j < length a \<Longrightarrow> j < length b \<Longrightarrow> xor_bytes a b ! j = a ! j XOR b ! j"
  by (simp add: xor_bytes_def)

lemma xor_bytes_append:
  "length a = length b \<Longrightarrow> xor_bytes (a @ a') (b @ b') = xor_bytes a b @ xor_bytes a' b'"
  by (simp add: xor_bytes_def)

lemma xor_bytes_cancel: "length a \<le> length k \<Longrightarrow> xor_bytes (xor_bytes a k) k = a"
  by (intro nth_equalityI) (auto simp: nth_xor_bytes xor.assoc)

lemma xor_bytes_commute: "xor_bytes a b = xor_bytes b a"
  by (intro nth_equalityI) (auto simp: nth_xor_bytes xor.commute)

lemma bit_le_load:
  "bit (le_load bs) n \<longleftrightarrow> n < 64 \<and> n < 8 * length bs \<and> bit (bs ! (n div 8)) (n mod 8)"
proof (induction bs arbitrary: n)
  case (Cons b bs)
  show ?case
  proof (cases "n < 8")
    case True
    then show ?thesis by (simp add: bit_or_iff bit_push_bit_iff bit_ucast_iff)
  next
    case False
    then obtain m where n: "n = m + 8" by (metis add.commute le_Suc_ex not_less)
    have "\<not> bit b n" using False bit_imp_le_length [of b n] by auto
    moreover have "(m + 8) div 8 = Suc (m div 8)" by simp
    ultimately show ?thesis using Cons [of m] n by (auto simp: bit_or_iff bit_push_bit_iff bit_ucast_iff)
  qed
qed simp

lemma le_bytes8_xor:
  assumes "length xs = 8" and "length ys = 8"
  shows "le_bytes8 (le_load xs XOR le_load ys) = xor_bytes xs ys"
proof (intro nth_equalityI)
  fix i assume "i < length (le_bytes8 (le_load xs XOR le_load ys))"
  then have i: "i < 8" by (simp add: le_bytes8_def)
  have "bit (le_bytes8 (le_load xs XOR le_load ys) ! i) k \<longleftrightarrow> bit (xs ! i XOR ys ! i) k" if "k < 8" for k
  proof -
    have "(8 * i + k) div 8 = i" "(8 * i + k) mod 8 = k" "8 * i + k < 64" using that i by auto
    then show ?thesis using i that assms
      by (simp add: le_bytes8_def bit_ucast_iff bit_drop_bit_eq bit_xor_iff bit_le_load add.commute)
  qed
  then show "le_bytes8 (le_load xs XOR le_load ys) ! i = xor_bytes xs ys ! i"
    using i assms by (intro bit_word_eqI) (simp add: nth_xor_bytes)
qed (simp add: le_bytes8_def assms)

lemma le_bytes8_load: "length xs = 8 \<Longrightarrow> le_bytes8 (le_load xs) = xs"
proof -
  assume l: "length xs = 8"
  have "le_load (replicate 8 0) = 0" by (simp add: eval_nat_numeral)
  moreover have "xor_bytes xs (replicate 8 0) = xs" using l by (intro nth_equalityI) (simp_all add: nth_xor_bytes)
  ultimately show ?thesis using le_bytes8_xor [OF l, of "replicate 8 0"] by simp
qed

section \<open>XOR loops\<close>

text \<open>
  \<open>ks\<close> is the array the code indexes with \<open>n\<close>. The first loop uses up what is left of a block of
  key stream, the second treats a whole block in words, the third the bytes at the end.
\<close>

function xor_head :: "u8 list \<Rightarrow> nat \<Rightarrow> nat \<Rightarrow> nat \<Rightarrow> nat \<Rightarrow> u8 list \<Rightarrow> nat \<times> nat \<times> nat \<times> nat \<times> u8 list" where
  "xor_head ks n inp out len mem =
     (if n \<noteq> 0 \<and> len \<noteq> 0
      then xor_head ks ((n + 1) mod 16) (inp + 1) (out + 1) (len - 1) (mem[out := mem ! inp XOR ks ! n])
      else (n, inp, out, len, mem))"
  by pat_completeness auto
termination
  by (relation "measure (\<lambda>(ks, n, inp, out, len, mem). len)") auto

function xor_words :: "u8 list \<Rightarrow> nat \<Rightarrow> nat \<Rightarrow> nat \<Rightarrow> u8 list \<Rightarrow> u8 list" where
  "xor_words ks n inp out mem =
     (if n < 16
      then xor_words ks (n + 8) inp out
             (CRYPTO_store_word_le (out + n) (CRYPTO_load_word_le (inp + n) mem XOR CRYPTO_load_word_le n ks) mem)
      else mem)"
  by pat_completeness auto
termination
  by (relation "measure (\<lambda>(ks, n, inp, out, mem). 16 - n)") auto

fun xor_tail :: "u8 list \<Rightarrow> nat \<Rightarrow> nat \<Rightarrow> nat \<Rightarrow> nat \<Rightarrow> u8 list \<Rightarrow> u8 list \<times> nat" where
  "xor_tail ks n inp out 0 mem = (mem, n)"
| "xor_tail ks n inp out (Suc len) mem =
     xor_tail ks (n + 1) inp out len (mem[out + n := mem ! (inp + n) XOR ks ! n])"

declare xor_head.simps [simp del] xor_words.simps [simp del]

text \<open>
  Two regions of memory between which a loop may copy upwards: the output does not start inside
  the input, past its start.
\<close>

definition regions :: "nat \<Rightarrow> nat \<Rightarrow> nat \<Rightarrow> u8 list \<Rightarrow> bool" where
  "regions inp out len mem \<longleftrightarrow>
     inp + len \<le> length mem \<and> out + len \<le> length mem \<and> (out \<le> inp \<or> inp + len \<le> out)"

lemma regions_prefix: "regions inp out n mem \<Longrightarrow> m \<le> n \<Longrightarrow> regions inp out m mem"
  by (auto simp: regions_def)

lemma regions_suffix:
  "regions inp out n mem \<Longrightarrow> m \<le> n \<Longrightarrow> length mem' = length mem \<Longrightarrow> regions (inp + m) (out + m) (n - m) mem'"
  by (auto simp: regions_def)

lemma rest_unchanged:
  assumes "regions inp out n mem" and "length d \<le> n"
  shows "mem_read (inp + length d) (n - length d) (mem_write out d mem) = mem_read (inp + length d) (n - length d) mem"
  using assms by (intro mem_read_write_other) (auto simp: regions_def)

lemma xor_word:
  assumes "inp + 8 \<le> length mem" and "n + 8 \<le> length ks"
  shows "CRYPTO_store_word_le out (CRYPTO_load_word_le inp mem XOR CRYPTO_load_word_le n ks) mem =
    mem_write out (xor_bytes (mem_read inp 8 mem) (mem_read n 8 ks)) mem"
  using assms by (simp add: CRYPTO_store_word_le_def CRYPTO_load_word_le_def le_bytes8_xor)

lemma xor_words_eq:
  assumes "regions inp out 16 mem" and "length ks = 16"
  shows "xor_words ks 0 inp out mem = mem_write out (xor_bytes (mem_read inp 16 mem) ks) mem"
proof -
  let ?a = "xor_bytes (mem_read inp 8 mem) (mem_read 0 8 ks)" and ?b = "xor_bytes (mem_read (inp + 8) 8 mem) (mem_read 8 8 ks)"
  have r: "inp + 16 \<le> length mem" "out + 16 \<le> length mem" using assms(1) by (simp_all add: regions_def)
  have la: "length ?a = 8" using r assms(2) by simp
  have rest: "mem_read (inp + 8) 8 (mem_write out ?a mem) = mem_read (inp + 8) 8 mem"
    using rest_unchanged [OF assms(1), of ?a] la by simp
  have "xor_words ks 0 inp out mem = mem_write (out + 8) ?b (mem_write out ?a mem)"
    using r assms(2) la rest by (simp add: xor_words.simps xor_word)
  also have "\<dots> = mem_write out (?a @ ?b) mem"
    using mem_write_append [of out ?a ?b mem] r la by simp
  also have "?a @ ?b = xor_bytes (mem_read inp 8 mem @ mem_read (inp + 8) 8 mem) (mem_read 0 8 ks @ mem_read 8 8 ks)"
    using r assms(2) by (subst xor_bytes_append) simp_all
  also have "\<dots> = xor_bytes (mem_read inp 16 mem) ks"
    using mem_read_append [of inp 8 8 mem] mem_read_append [of 0 8 8 ks] assms(2) by (simp add: mem_read_def)
  finally show ?thesis .
qed

lemma xor_tail_eq:
  assumes "n + len \<le> length ks"
  shows "regions (inp + n) (out + n) len mem \<Longrightarrow>
    xor_tail ks n inp out len mem =
      (mem_write (out + n) (xor_bytes (mem_read (inp + n) len mem) (mem_read n len ks)) mem, n + len)"
  using assms
proof (induction ks n inp out len mem rule: xor_tail.induct)
  case (2 ks n inp out len mem)
  let ?x = "mem ! (inp + n) XOR ks ! n" and ?p = "inp + n" and ?q = "out + n"
  have r: "?p < length mem" "?q < length mem" "?q + Suc len \<le> length mem" "n < length ks" "?p + Suc len \<le> length mem"
    using 2(2,3) by (auto simp: regions_def)
  have rest: "mem_read (Suc ?p) len (mem_write ?q [?x] mem) = mem_read (Suc ?p) len mem"
    using rest_unchanged [OF 2(2), of "[?x]"] by simp
  have "regions (inp + (n + 1)) (out + (n + 1)) len (mem[?q := ?x])"
    using regions_suffix [OF 2(2), of 1 "mem[?q := ?x]"] by (simp add: add.assoc)
  from 2(1) [OF this] 2(3) have "xor_tail ks n inp out (Suc len) mem =
      (mem_write (Suc ?q) (xor_bytes (mem_read (Suc ?p) len (mem[?q := ?x])) (mem_read (Suc n) len ks)) (mem[?q := ?x]), n + Suc len)"
    by simp
  also have "\<dots> = (mem_write ?q ([?x] @ xor_bytes (mem_read (Suc ?p) len mem) (mem_read (Suc n) len ks)) mem, n + Suc len)"
    using mem_write_append [of ?q "[?x]" "xor_bytes (mem_read (Suc ?p) len mem) (mem_read (Suc n) len ks)" mem] r 2(3) rest
    by (simp add: mem_write_single)
  finally show ?case using r by (simp add: mem_read_Suc xor_bytes_def)
qed (simp add: xor_bytes_def)

section \<open>A mode one byte at a time\<close>

fun run_mode :: "('s \<Rightarrow> 'b \<Rightarrow> 'b \<times> 's) \<Rightarrow> 's \<Rightarrow> 'b list \<Rightarrow> 'b list \<times> 's" where
  "run_mode step s [] = ([], s)"
| "run_mode step s (b # bs) =
     (case step s b of (c, s1) \<Rightarrow> (case run_mode step s1 bs of (cs, s2) \<Rightarrow> (c # cs, s2)))"

lemma run_mode_append:
  "run_mode step s (xs @ ys) =
     (case run_mode step s xs of (us, s1) \<Rightarrow> (case run_mode step s1 ys of (vs, s2) \<Rightarrow> (us @ vs, s2)))"
  by (induction xs arbitrary: s) (simp_all split: prod.split)

lemma length_run_mode [simp]: "length (fst (run_mode step s xs)) = length xs"
  by (induction xs arbitrary: s) (simp_all split: prod.split, metis fst_conv)

text \<open>\<open>k\<close> bytes at \<open>inp\<close> are replaced by what the mode makes of them, at \<open>out\<close>.\<close>

definition processes :: "('s \<Rightarrow> u8 \<Rightarrow> u8 \<times> 's) \<Rightarrow> nat \<Rightarrow> nat \<Rightarrow> nat \<Rightarrow> 's \<times> u8 list \<Rightarrow> 's \<times> u8 list \<Rightarrow> bool" where
  "processes step inp out k = (\<lambda>(s, mem) (s', mem').
     \<exists>ys. run_mode step s (mem_read inp k mem) = (ys, s') \<and> mem' = mem_write out ys mem)"

lemma processesI:
  "run_mode step s (mem_read inp k mem) = (ys, s') \<Longrightarrow> processes step inp out k (s, mem) (s', mem_write out ys mem)"
  by (simp add: processes_def)

lemma processesE:
  assumes "processes step inp out k (s, mem) (s', mem')" and "regions inp out k mem"
  obtains ys where "run_mode step s (mem_read inp k mem) = (ys, s')" and "mem' = mem_write out ys mem"
    and "length ys = k" and "length mem' = length mem"
proof -
  obtain ys where ys: "run_mode step s (mem_read inp k mem) = (ys, s')" "mem' = mem_write out ys mem"
    using assms(1) by (auto simp: processes_def)
  moreover have "length ys = k" using length_run_mode [of step s "mem_read inp k mem"] ys(1) assms(2) by (simp add: regions_def)
  ultimately show thesis using that assms(2) by (simp add: regions_def)
qed

lemma processes_0 [simp]: "processes step inp out 0 (s, mem) (s, mem)"
  by (simp add: processes_def)

lemma processes_trans:
  assumes r: "regions inp out (m + n) mem"
    and 1: "processes step inp out m (s, mem) (s1, mem1)"
    and 2: "processes step (inp + m) (out + m) n (s1, mem1) (s2, mem2)"
  shows "processes step inp out (m + n) (s, mem) (s2, mem2)"
proof -
  obtain us where u: "run_mode step s (mem_read inp m mem) = (us, s1)" "mem1 = mem_write out us mem" "length us = m"
      "length mem1 = length mem"
    by (rule processesE [OF 1 regions_prefix [OF r]]) simp_all
  have "regions (inp + m) (out + m) n mem1" using regions_suffix [OF r _ u(4), of m] by simp
  then obtain vs where v: "run_mode step s1 (mem_read (inp + m) n mem1) = (vs, s2)" "mem2 = mem_write (out + m) vs mem1"
      "length vs = n"
    by (rule processesE [OF 2])
  have "mem_read (inp + m) n mem1 = mem_read (inp + m) n mem"
    using rest_unchanged [OF r, of us] u by simp
  then have "run_mode step s (mem_read inp (m + n) mem) = (us @ vs, s2)"
    using u(1) v(1) by (simp add: mem_read_append run_mode_append)
  moreover have "mem2 = mem_write out (us @ vs) mem"
    using mem_write_append [of out us vs mem] u(2,3) v(2,3) r by (simp add: regions_def)
  ultimately show ?thesis using processesI by metis
qed

text \<open>Two calls on adjacent pieces do what one call on both does.\<close>

lemma processes_unique:
  "processes step inp out k (s, mem) (s1, mem1) \<Longrightarrow> processes step inp out k (s, mem) (s2, mem2) \<Longrightarrow>
     s1 = s2 \<and> mem1 = mem2"
  by (auto simp: processes_def)

section \<open>Block ciphers\<close>

type_synonym block_cipher = "u8 list \<Rightarrow> u8 list"

text \<open>The block cipher maps blocks to blocks.\<close>

definition block_ok :: "block_cipher \<Rightarrow> bool" where
  "block_ok block \<longleftrightarrow> (\<forall>b. length b = 16 \<longrightarrow> length (block b) = 16)"

lemma block_okD [simp]: "block_ok block \<Longrightarrow> length b = 16 \<Longrightarrow> length (block b) = 16"
  by (simp add: block_ok_def)

text \<open>One for the examples, its own inverse.\<close>

definition example_cipher :: block_cipher where
  "example_cipher b = rev (map (\<lambda>x. x XOR 0x5a) b)"

lemma example_cipher_ok: "block_ok example_cipher"
  by (simp add: block_ok_def example_cipher_def)

lemma example_cipher_inverse: "example_cipher (example_cipher b) = b"
  by (simp add: example_cipher_def rev_map [symmetric] comp_def xor.assoc)

end
