(* ===== verification/Stream_Modes.thy ===== *)
theory Stream_Modes
  imports Byte_Memory
begin

text \<open>
  \<^verbatim>\<open>crypto/fipsmodule/modes/ofb.c\<close> and \<^verbatim>\<open>ctr.c\<close>: the block cipher modes that XOR a key stream into
  the data. The block cipher is a parameter, a function from 16 bytes to 16 bytes. Input and
  output are regions of one memory, which may be the same. The reference is the mode
  one byte at a time; the code, which works in words and keeps an offset into a block between calls,
  computes the same, so that a message may be cut into calls anywhere.
\<close>

section \<open>The code\<close>

function ofb_blocks :: "block_cipher \<Rightarrow> u8 list \<Rightarrow> nat \<Rightarrow> nat \<Rightarrow> nat \<Rightarrow> nat \<Rightarrow> u8 list
    \<Rightarrow> u8 list \<times> nat \<times> nat \<times> nat \<times> nat \<times> u8 list" where
  "ofb_blocks block ivec n inp out len mem =
     (if len \<ge> 16
      then (let ivec = block ivec
            in ofb_blocks block ivec 0 (inp + 16) (out + 16) (len - 16) (xor_words ivec n inp out mem))
      else (ivec, n, inp, out, len, mem))"
  by pat_completeness auto
termination
  by (relation "measure (\<lambda>(block, ivec, n, inp, out, len, mem). len)") auto

text \<open>The result is the memory, \<^verbatim>\<open>ivec\<close> and \<^verbatim>\<open>*num\<close>.\<close>

definition CRYPTO_ofb128_encrypt :: "block_cipher \<Rightarrow> nat \<Rightarrow> nat \<Rightarrow> nat \<Rightarrow> u8 list \<Rightarrow> nat \<Rightarrow> u8 list
    \<Rightarrow> u8 list \<times> u8 list \<times> nat" where
  "CRYPTO_ofb128_encrypt block inp out len ivec num mem =
     (let (n, inp, out, len, mem) = xor_head ivec num inp out len mem;
          (ivec, n, inp, out, len, mem) = ofb_blocks block ivec n inp out len mem
      in if len \<noteq> 0
         then (let ivec = block ivec; (mem, n) = xor_tail ivec n inp out len mem in (mem, ivec, n))
         else (mem, ivec, n))"

text \<open>The loop of \<^verbatim>\<open>ctr128_inc\<close> and \<^verbatim>\<open>ctr96_inc\<close>, with the carry in \<open>c\<close>.\<close>

fun counter_inc_loop :: "u32 \<Rightarrow> nat \<Rightarrow> u8 list \<Rightarrow> u8 list" where
  "counter_inc_loop c 0 counter = counter"
| "counter_inc_loop c (Suc n) counter =
     (let c = c + ucast (counter ! n)
      in counter_inc_loop (drop_bit 8 c) n (counter[n := ucast c]))"

definition ctr128_inc :: "u8 list \<Rightarrow> u8 list" where
  "ctr128_inc counter = counter_inc_loop 1 16 counter"

definition ctr96_inc :: "u8 list \<Rightarrow> u8 list" where
  "ctr96_inc counter = counter_inc_loop 1 12 counter"

function ctr_blocks :: "block_cipher \<Rightarrow> u8 list \<Rightarrow> u8 list \<Rightarrow> nat \<Rightarrow> nat \<Rightarrow> nat \<Rightarrow> nat \<Rightarrow> u8 list
    \<Rightarrow> u8 list \<times> u8 list \<times> nat \<times> nat \<times> nat \<times> nat \<times> u8 list" where
  "ctr_blocks block ivec ecount_buf n inp out len mem =
     (if len \<ge> 16
      then (let ecount_buf = block ivec; ivec = ctr128_inc ivec
            in ctr_blocks block ivec ecount_buf 0 (inp + 16) (out + 16) (len - 16) (xor_words ecount_buf 0 inp out mem))
      else (ivec, ecount_buf, n, inp, out, len, mem))"
  by pat_completeness auto
termination
  by (relation "measure (\<lambda>(block, ivec, ecount_buf, n, inp, out, len, mem). len)") auto

declare ofb_blocks.simps [simp del] ctr_blocks.simps [simp del]

text \<open>The result is the memory, \<^verbatim>\<open>ivec\<close>, \<^verbatim>\<open>ecount_buf\<close> and \<^verbatim>\<open>*num\<close>.\<close>

definition CRYPTO_ctr128_encrypt :: "block_cipher \<Rightarrow> nat \<Rightarrow> nat \<Rightarrow> nat \<Rightarrow> u8 list \<Rightarrow> u8 list \<Rightarrow> nat \<Rightarrow> u8 list
    \<Rightarrow> u8 list \<times> u8 list \<times> u8 list \<times> nat" where
  "CRYPTO_ctr128_encrypt block inp out len ivec ecount_buf num mem =
     (let (n, inp, out, len, mem) = xor_head ecount_buf num inp out len mem;
          (ivec, ecount_buf, n, inp, out, len, mem) = ctr_blocks block ivec ecount_buf n inp out len mem
      in if len \<noteq> 0
         then (let ecount_buf = block ivec; ivec = ctr128_inc ivec;
                   (mem, n) = xor_tail ecount_buf n inp out len mem
               in (mem, ivec, ecount_buf, n))
         else (mem, ivec, ecount_buf, n))"

section \<open>Key streams\<close>

text \<open>
  A mode whose state is a register \<open>k\<close> and an offset into a block: at offset 0 the register moves on,
  then the byte at the offset of \<open>ks k\<close> is XORed into the data.
\<close>

locale keystream =
  fixes step :: "'s \<Rightarrow> u8 \<Rightarrow> u8 \<times> 's" and mk :: "'k \<Rightarrow> nat \<Rightarrow> 's" and ks :: "'k \<Rightarrow> u8 list" and refresh :: "'k \<Rightarrow> 'k"
  assumes step_0: "step (mk k 0) b = (b XOR ks (refresh k) ! 0, mk (refresh k) 1)"
    and step_n: "0 < n \<Longrightarrow> n < 16 \<Longrightarrow> step (mk k n) b = (b XOR ks k ! n, mk k ((n + 1) mod 16))"
begin

lemma run_rest:
  "0 < n \<Longrightarrow> n < 16 \<Longrightarrow> n + length xs \<le> 16 \<Longrightarrow> length (ks k) = 16 \<Longrightarrow>
     run_mode step (mk k n) xs = (xor_bytes xs (drop n (ks k)), mk k ((n + length xs) mod 16))"
proof (induction xs arbitrary: n)
  case Nil
  then show ?case by (simp add: xor_bytes_def)
next
  case (Cons x xs)
  note n = Cons.prems(2)
  have d: "drop n (ks k) = ks k ! n # drop (Suc n) (ks k)" using n Cons.prems(4) by (simp add: Cons_nth_drop_Suc)
  show ?case
  proof (cases "xs = []")
    case True
    then show ?thesis using step_n [OF Cons.prems(1) n] d by (simp add: xor_bytes_def)
  next
    case False
    then have "n + 1 < 16" using Cons.prems(3) by (cases xs) simp_all
    then show ?thesis using step_n [OF Cons.prems(1) n, of k x] Cons.IH [of "n + 1"] Cons.prems d by (simp add: xor_bytes_def)
  qed
qed

lemma run_block:
  assumes "xs \<noteq> []" and "length xs \<le> 16" and "length (ks (refresh k)) = 16"
  shows "run_mode step (mk k 0) xs = (xor_bytes xs (ks (refresh k)), mk (refresh k) (length xs mod 16))"
proof -
  obtain x ys where xs: "xs = x # ys" using assms(1) by (cases xs) auto
  have d: "ks (refresh k) = ks (refresh k) ! 0 # drop 1 (ks (refresh k))"
    using assms(3) by (metis Cons_nth_drop_Suc One_nat_def drop0 zero_less_numeral)
  have "run_mode step (mk (refresh k) 1) ys = (xor_bytes ys (drop 1 (ks (refresh k))), mk (refresh k) ((1 + length ys) mod 16))"
    using run_rest [of 1 ys] assms xs by simp
  moreover have "xor_bytes (x # ys) (ks (refresh k)) = (x XOR ks (refresh k) ! 0) # xor_bytes ys (drop 1 (ks (refresh k)))"
    by (subst d) (simp add: xor_bytes_def)
  ultimately show ?thesis unfolding xs by (simp add: step_0)
qed

lemma head:
  "xor_head (ks k) n inp out len mem = (n', inp', out', len', mem') \<Longrightarrow> n < 16 \<Longrightarrow> length (ks k) = 16 \<Longrightarrow>
     regions inp out len mem \<Longrightarrow>
     \<exists>j. len = j + len' \<and> inp' = inp + j \<and> out' = out + j \<and> n' < 16 \<and> (n' = 0 \<or> len' = 0) \<and>
       processes step inp out j (mk k n, mem) (mk k n', mem')"
proof (induction "ks k" n inp out len mem rule: xor_head.induct)
  case (1 n inp out len mem)
  show ?case
  proof (cases "n \<noteq> 0 \<and> len \<noteq> 0")
    case False
    then show ?thesis using 1(2,3) by (subst (asm) xor_head.simps) (auto intro!: exI [of _ 0])
  next
    case True
    let ?mem = "mem[out := mem ! inp XOR ks k ! n]"
    have r: "inp < length mem" "out < length mem" using 1(5) True by (auto simp: regions_def)
    have eq: "xor_head (ks k) ((n + 1) mod 16) (inp + 1) (out + 1) (len - 1) ?mem = (n', inp', out', len', mem')"
      using 1(2) True by (subst (asm) xor_head.simps) simp
    have "regions (inp + 1) (out + 1) (len - 1) ?mem" using 1(5) True by (intro regions_suffix) auto
    with 1(1) [OF True eq _ 1(4)] obtain j where j: "len - 1 = j + len'" "inp' = inp + 1 + j" "out' = out + 1 + j" "n' < 16"
        "n' = 0 \<or> len' = 0" "processes step (inp + 1) (out + 1) j (mk k ((n + 1) mod 16), ?mem) (mk k n', mem')" by auto
    have "run_mode step (mk k n) (mem_read inp 1 mem) = ([mem ! inp XOR ks k ! n], mk k ((n + 1) mod 16))"
      using step_n [of n k] True 1(3) r by (simp add: mem_read_Suc)
    from processesI [OF this, of out] True r
    have "processes step inp out 1 (mk k n, mem) (mk k ((n + 1) mod 16), ?mem)" by (simp add: mem_write_single)
    moreover have "regions inp out (1 + j) mem" using 1(5) j(1) True by (intro regions_prefix [OF 1(5)]) auto
    ultimately have "processes step inp out (1 + j) (mk k n, mem) (mk k n', mem')" using processes_trans j(6) by metis
    with j True show ?thesis by (intro exI [of _ "1 + j"]) auto
  qed
qed

lemma words:
  assumes "regions inp out 16 mem" and "length (ks (refresh k)) = 16"
  shows "processes step inp out 16 (mk k 0, mem) (mk (refresh k) 0, xor_words (ks (refresh k)) 0 inp out mem)"
proof -
  have "length (mem_read inp 16 mem) = 16" using assms(1) by (simp add: regions_def)
  then have "run_mode step (mk k 0) (mem_read inp 16 mem) = (xor_bytes (mem_read inp 16 mem) (ks (refresh k)), mk (refresh k) 0)"
    using run_block [of "mem_read inp 16 mem" k] assms(2) by (cases "mem_read inp 16 mem") simp_all
  from processesI [OF this] show ?thesis unfolding xor_words_eq [OF assms] .
qed

lemma tail:
  assumes "regions inp out len mem" and "length (ks (refresh k)) = 16" and "0 < len" and "len < 16"
  shows "\<exists>mem'. xor_tail (ks (refresh k)) 0 inp out len mem = (mem', len) \<and>
    processes step inp out len (mk k 0, mem) (mk (refresh k) len, mem')"
proof -
  let ?ks = "ks (refresh k)" and ?xs = "mem_read inp len mem"
  have len: "length ?xs = len" using assms(1) by (simp add: regions_def)
  have "xor_bytes ?xs ?ks = xor_bytes ?xs (mem_read 0 len ?ks)"
    using len assms by (intro nth_equalityI) (auto simp: nth_xor_bytes nth_mem_read)
  moreover have "run_mode step (mk k 0) ?xs = (xor_bytes ?xs ?ks, mk (refresh k) len)"
    using run_block [of ?xs k] assms(2-4) len by (cases ?xs) simp_all
  ultimately show ?thesis
    using xor_tail_eq [of 0 len ?ks inp out mem] processesI [of step "mk k 0" inp len mem] assms(1,2,4) by simp
qed

text \<open>Byte \<open>j\<close> of the data meets byte \<open>j mod 16\<close> of the key stream block \<open>j div 16\<close>.\<close>

definition after :: "'k \<Rightarrow> nat \<Rightarrow> 's" where
  "after k j = mk ((refresh ^^ (if j mod 16 = 0 then j div 16 else j div 16 + 1)) k) (j mod 16)"

lemma step_after:
  "step (after k j) b = (b XOR ks ((refresh ^^ (j div 16 + 1)) k) ! (j mod 16), after k (j + 1))"
proof -
  define q m where "q = j div 16" and "m = j mod 16"
  have j: "j = 16 * q + m" "m < 16" by (simp_all add: q_def m_def)
  consider "m = 0" | "0 < m" "m < 15" | "m = 15" using j(2) by linarith
  then show ?thesis
  proof cases
    case 1
    then have "j = 16 * q" "(j + 1) mod 16 = 1" "(j + 1) div 16 = q" using j by simp_all
    then show ?thesis using step_0 [of "(refresh ^^ q) k" b] by (simp add: after_def)
  next
    case 2
    then have "j div 16 = q" "j mod 16 = m" "(j + 1) mod 16 = m + 1" "(j + 1) div 16 = q" using j by simp_all
    then show ?thesis using step_n [of m "(refresh ^^ (q + 1)) k" b] 2 by (simp add: after_def)
  next
    case 3
    then have "j = 16 * q + 15" "(j + 1) mod 16 = 0" "(j + 1) div 16 = q + 1" using j by simp_all
    then show ?thesis using step_n [of 15 "(refresh ^^ (q + 1)) k" b] by (simp add: after_def)
  qed
qed

lemma run_closed:
  "run_mode step (after k 0) xs =
     (map (\<lambda>j. xs ! j XOR ks ((refresh ^^ (j div 16 + 1)) k) ! (j mod 16)) [0..<length xs], after k (length xs))"
proof (induction xs rule: rev_induct)
  case (snoc x xs)
  have "map (\<lambda>j. (xs @ [x]) ! j XOR ks ((refresh ^^ (j div 16 + 1)) k) ! (j mod 16)) [0..<length xs] =
      map (\<lambda>j. xs ! j XOR ks ((refresh ^^ (j div 16 + 1)) k) ! (j mod 16)) [0..<length xs]"
    by (simp add: nth_append)
  then show ?case using snoc step_after [of k "length xs" x] by (simp add: run_mode_append)
qed simp

text \<open>Applied to its own output from the same state, the mode gives the data back.\<close>

lemma step_twice: "n < 16 \<Longrightarrow> step (mk k n) b = (c, s) \<Longrightarrow> step (mk k n) c = (b, s)"
  using step_0 [of k] step_n [of n k] by (cases "n = 0") (auto simp: xor.assoc)

lemma step_state: "n < 16 \<Longrightarrow> step (mk k n) b = (c, s) \<Longrightarrow> \<exists>k' n'. s = mk k' n' \<and> n' < 16"
  using step_0 [of k b] step_n [of n k b] mod_less_divisor [of 16 "n + 1"]
  by (cases "n = 0") (force, fastforce)

lemma run_twice:
  "n < 16 \<Longrightarrow> run_mode step (mk k n) xs = (ys, s) \<Longrightarrow> run_mode step (mk k n) ys = (xs, s)"
proof (induction xs arbitrary: k n ys)
  case (Cons x xs)
  obtain c s1 us where st: "step (mk k n) x = (c, s1)" "run_mode step s1 xs = (us, s)" "ys = c # us"
    using Cons.prems(2) by (auto split: prod.splits)
  obtain k1 n1 where k1: "s1 = mk k1 n1" "n1 < 16" using step_state [OF Cons.prems(1) st(1)] by blast
  show ?case using step_twice [OF Cons.prems(1) st(1)] Cons.IH [OF k1(2), of k1 us] st k1(1) by simp
qed simp

end

section \<open>Output feedback\<close>

definition ofb_step :: "block_cipher \<Rightarrow> u8 list \<times> nat \<Rightarrow> u8 \<Rightarrow> u8 \<times> (u8 list \<times> nat)" where
  "ofb_step block s b =
     (case s of (iv, n) \<Rightarrow>
       (let iv' = (if n = 0 then block iv else iv) in (b XOR iv' ! n, (iv', (n + 1) mod 16))))"

interpretation ofb: keystream "ofb_step block" Pair "\<lambda>iv. iv" block for block
  by unfold_locales (simp_all add: ofb_step_def Let_def)

lemma ofb_blocks_processes:
  "ofb_blocks block iv n inp out len mem = (iv', n', inp', out', len', mem') \<Longrightarrow> block_ok block \<Longrightarrow> length iv = 16 \<Longrightarrow>
     n < 16 \<Longrightarrow> n = 0 \<or> len = 0 \<Longrightarrow> regions inp out len mem \<Longrightarrow>
     \<exists>j. len = j + len' \<and> inp' = inp + j \<and> out' = out + j \<and> len' < 16 \<and> n' < 16 \<and> (n' = 0 \<or> len' = 0) \<and> length iv' = 16 \<and>
       length mem' = length mem \<and> processes (ofb_step block) inp out j ((iv, n), mem) ((iv', n'), mem')"
proof (induction block iv n inp out len mem rule: ofb_blocks.induct)
  case (1 block iv n inp out len mem)
  show ?case
  proof (cases "len \<ge> 16")
    case False
    then show ?thesis using 1(2-6) by (subst (asm) ofb_blocks.simps) (auto intro!: exI [of _ 0])
  next
    case True
    let ?iv = "block iv" let ?mem = "xor_words (block iv) n inp out mem"
    have n: "n = 0" using 1(6) True by auto
    have iv: "length ?iv = 16" using 1(3,4) by simp
    have r16: "regions inp out 16 mem" by (rule regions_prefix [OF 1(7) True])
    have first: "processes (ofb_step block) inp out 16 ((iv, n), mem) ((?iv, 0), ?mem)"
      using ofb.words [OF r16] iv n by simp
    obtain ys where "length ?mem = length mem" by (rule processesE [OF first r16])
    then have "regions (inp + 16) (out + 16) (len - 16) ?mem" by (rule regions_suffix [OF 1(7) True])
    moreover have "ofb_blocks block ?iv 0 (inp + 16) (out + 16) (len - 16) ?mem = (iv', n', inp', out', len', mem')"
      using 1(2) True by (simp add: ofb_blocks.simps [of block iv n inp out len mem] Let_def)
    ultimately obtain j where j: "len - 16 = j + len'" "inp' = inp + 16 + j" "out' = out + 16 + j" "len' < 16" "n' < 16"
        "n' = 0 \<or> len' = 0" "length iv' = 16" "length mem' = length ?mem"
        "processes (ofb_step block) (inp + 16) (out + 16) j ((?iv, 0), ?mem) ((iv', n'), mem')"
      using 1(1) [OF True refl _ 1(3) iv] by auto
    have "regions inp out (16 + j) mem" using 1(7) j(1) True by (intro regions_prefix [OF 1(7)]) auto
    then have "processes (ofb_step block) inp out (16 + j) ((iv, n), mem) ((iv', n'), mem')"
      using processes_trans first j(9) by metis
    then show ?thesis using j True \<open>length ?mem = length mem\<close> by (intro exI [of _ "16 + j"]) auto
  qed
qed

lemma ofb_processes:
  assumes "block_ok block" and "length ivec = 16" and "num < 16" and r: "regions inp out len mem"
    and "CRYPTO_ofb128_encrypt block inp out len ivec num mem = (mem', ivec', num')"
  shows "num' < 16 \<and> length ivec' = 16 \<and> processes (ofb_step block) inp out len ((ivec, num), mem) ((ivec', num'), mem')"
proof -
  obtain n1 i1 o1 l1 m1 where h: "xor_head ivec num inp out len mem = (n1, i1, o1, l1, m1)" by (metis prod_cases5)
  obtain j1 where j1: "len = j1 + l1" "i1 = inp + j1" "o1 = out + j1" "n1 < 16" "n1 = 0 \<or> l1 = 0"
      "processes (ofb_step block) inp out j1 ((ivec, num), mem) ((ivec, n1), m1)"
    using ofb.head [OF h assms(3,2) r, of block] by auto
  have rp: "regions inp out j1 mem" using regions_prefix [OF r] j1(1) by simp
  obtain us where lm1: "length m1 = length mem" by (rule processesE [OF j1(6) rp])
  have r1: "regions i1 o1 l1 m1" using regions_suffix [OF r _ lm1, of j1] j1(1-3) by simp
  obtain iv2 n2 i2 o2 l2 m2 where b: "ofb_blocks block ivec n1 i1 o1 l1 m1 = (iv2, n2, i2, o2, l2, m2)" by (metis prod_cases6)
  obtain j2 where j2: "l1 = j2 + l2" "i2 = i1 + j2" "o2 = o1 + j2" "l2 < 16" "n2 < 16" "n2 = 0 \<or> l2 = 0" "length iv2 = 16"
      "length m2 = length m1" "processes (ofb_step block) i1 o1 j2 ((ivec, n1), m1) ((iv2, n2), m2)"
    using ofb_blocks_processes [OF b assms(1,2) j1(4,5) r1] by auto
  have "regions inp out (j1 + j2) mem" using regions_prefix [OF r] j1(1) j2(1) by simp
  then have p12: "processes (ofb_step block) inp out (j1 + j2) ((ivec, num), mem) ((iv2, n2), m2)"
    using processes_trans [OF _ j1(6)] j2(9) j1(2,3) by simp
  note res = assms(5) [unfolded CRYPTO_ofb128_encrypt_def h b prod.case Let_def]
  show ?thesis
  proof (cases "l2 = 0")
    case True
    then have "mem' = m2 \<and> ivec' = iv2 \<and> num' = n2" using res by simp
    then show ?thesis using True j1(1) j2(1,5,7) p12 by simp
  next
    case False
    have r2: "regions i2 o2 l2 m2" using regions_suffix [OF r1 _ j2(8), of j2] j2(1-3) by simp
    obtain m3 where m3: "xor_tail (block iv2) 0 i2 o2 l2 m2 = (m3, l2)"
        "processes (ofb_step block) i2 o2 l2 ((iv2, 0), m2) ((block iv2, l2), m3)"
      using ofb.tail [OF r2, of block iv2] False j2(4,7) assms(1) by auto
    have "n2 = 0" using j2(6) False by simp
    then have "mem' = m3 \<and> ivec' = block iv2 \<and> num' = l2" using res False m3(1) by simp
    moreover have "processes (ofb_step block) inp out (j1 + j2 + l2) ((ivec, num), mem) ((block iv2, l2), m3)"
      using processes_trans [OF _ p12] m3(2) r j1(1-3) j2(1-3) \<open>n2 = 0\<close> by (simp add: add.assoc)
    ultimately show ?thesis using j1(1) j2(1,4,7) assms(1) by (simp add: add.assoc)
  qed
qed

section \<open>Counter mode\<close>

lemma length_counter_inc_loop [simp]: "length (counter_inc_loop c n counter) = length counter"
  by (induction c n counter rule: counter_inc_loop.induct) (simp_all add: Let_def)

lemma length_ctr128_inc [simp]: "length (ctr128_inc counter) = length counter"
  by (simp add: ctr128_inc_def)

definition ctr_step :: "block_cipher \<Rightarrow> (u8 list \<times> u8 list) \<times> nat \<Rightarrow> u8 \<Rightarrow> u8 \<times> ((u8 list \<times> u8 list) \<times> nat)" where
  "ctr_step block s b =
     (case s of ((iv, ec), n) \<Rightarrow>
       (let (iv', ec') = (if n = 0 then (ctr128_inc iv, block iv) else (iv, ec))
        in (b XOR ec' ! n, ((iv', ec'), (n + 1) mod 16))))"

interpretation ctr: keystream "ctr_step block" Pair snd "\<lambda>(iv, ec). (ctr128_inc iv, block iv)" for block
  by unfold_locales (auto simp: ctr_step_def Let_def)

lemma ctr_blocks_processes:
  "ctr_blocks block iv ec n inp out len mem = (iv', ec', n', inp', out', len', mem') \<Longrightarrow> block_ok block \<Longrightarrow> length iv = 16 \<Longrightarrow>
     length ec = 16 \<Longrightarrow> n < 16 \<Longrightarrow> n = 0 \<or> len = 0 \<Longrightarrow> regions inp out len mem \<Longrightarrow>
     \<exists>j. len = j + len' \<and> inp' = inp + j \<and> out' = out + j \<and> len' < 16 \<and> n' < 16 \<and> (n' = 0 \<or> len' = 0) \<and> length iv' = 16 \<and>
       length ec' = 16 \<and> length mem' = length mem \<and> processes (ctr_step block) inp out j (((iv, ec), n), mem) (((iv', ec'), n'), mem')"
proof (induction block iv ec n inp out len mem rule: ctr_blocks.induct)
  case (1 block iv ec n inp out len mem)
  show ?case
  proof (cases "len \<ge> 16")
    case False
    then show ?thesis using 1(2-7) by (subst (asm) ctr_blocks.simps) (auto intro!: exI [of _ 0])
  next
    case True
    let ?ec = "block iv" let ?iv = "ctr128_inc iv" let ?mem = "xor_words (block iv) 0 inp out mem"
    have n: "n = 0" using 1(7) True by auto
    have iv: "length ?iv = 16" using 1(4) by simp
    have r16: "regions inp out 16 mem" by (rule regions_prefix [OF 1(8) True])
    have first: "processes (ctr_step block) inp out 16 (((iv, ec), n), mem) (((?iv, ?ec), 0), ?mem)"
      using ctr.words [OF r16, of block "(iv, ec)"] 1(3,4) n by simp
    obtain ys where "length ?mem = length mem" by (rule processesE [OF first r16])
    then have "regions (inp + 16) (out + 16) (len - 16) ?mem" by (rule regions_suffix [OF 1(8) True])
    moreover have "ctr_blocks block ?iv ?ec 0 (inp + 16) (out + 16) (len - 16) ?mem = (iv', ec', n', inp', out', len', mem')"
      using 1(2) True by (simp add: ctr_blocks.simps [of block iv ec n inp out len mem] Let_def)
    ultimately obtain j where j: "len - 16 = j + len'" "inp' = inp + 16 + j" "out' = out + 16 + j" "len' < 16" "n' < 16"
        "n' = 0 \<or> len' = 0" "length iv' = 16" "length ec' = 16" "length mem' = length ?mem"
        "processes (ctr_step block) (inp + 16) (out + 16) j (((?iv, ?ec), 0), ?mem) (((iv', ec'), n'), mem')"
      using 1(1) [OF True refl refl _ 1(3) iv] 1(3,4) by auto
    have "regions inp out (16 + j) mem" using 1(8) j(1) True by (intro regions_prefix [OF 1(8)]) auto
    then have "processes (ctr_step block) inp out (16 + j) (((iv, ec), n), mem) (((iv', ec'), n'), mem')"
      using processes_trans first j(10) by metis
    then show ?thesis using j True \<open>length ?mem = length mem\<close> by (intro exI [of _ "16 + j"]) auto
  qed
qed

lemma ctr_processes:
  assumes "block_ok block" and "length ivec = 16" and "length ec = 16" and "num < 16" and r: "regions inp out len mem"
    and "CRYPTO_ctr128_encrypt block inp out len ivec ec num mem = (mem', ivec', ec', num')"
  shows "num' < 16 \<and> length ivec' = 16 \<and> length ec' = 16 \<and> processes (ctr_step block) inp out len (((ivec, ec), num), mem) (((ivec', ec'), num'), mem')"
proof -
  obtain n1 i1 o1 l1 m1 where h: "xor_head ec num inp out len mem = (n1, i1, o1, l1, m1)" by (metis prod_cases5)
  obtain j1 where j1: "len = j1 + l1" "i1 = inp + j1" "o1 = out + j1" "n1 < 16" "n1 = 0 \<or> l1 = 0"
      "processes (ctr_step block) inp out j1 (((ivec, ec), num), mem) (((ivec, ec), n1), m1)"
    using ctr.head [of "(ivec, ec)", OF _ assms(4) _ r, of _ _ _ _ _ block] h assms(3) by auto
  have rp: "regions inp out j1 mem" using regions_prefix [OF r] j1(1) by simp
  obtain us where lm1: "length m1 = length mem" by (rule processesE [OF j1(6) rp])
  have r1: "regions i1 o1 l1 m1" using regions_suffix [OF r _ lm1, of j1] j1(1-3) by simp
  obtain iv2 ec2 n2 i2 o2 l2 m2 where b: "ctr_blocks block ivec ec n1 i1 o1 l1 m1 = (iv2, ec2, n2, i2, o2, l2, m2)" by (metis prod_cases7)
  obtain j2 where j2: "l1 = j2 + l2" "i2 = i1 + j2" "o2 = o1 + j2" "l2 < 16" "n2 < 16" "n2 = 0 \<or> l2 = 0" "length iv2 = 16"
      "length ec2 = 16" "length m2 = length m1" "processes (ctr_step block) i1 o1 j2 (((ivec, ec), n1), m1) (((iv2, ec2), n2), m2)"
    using ctr_blocks_processes [OF b assms(1-3) j1(4,5) r1] by auto
  have "regions inp out (j1 + j2) mem" using regions_prefix [OF r] j1(1) j2(1) by simp
  then have p12: "processes (ctr_step block) inp out (j1 + j2) (((ivec, ec), num), mem) (((iv2, ec2), n2), m2)"
    using processes_trans [OF _ j1(6)] j2(10) j1(2,3) by simp
  note res = assms(6) [unfolded CRYPTO_ctr128_encrypt_def h b prod.case Let_def]
  show ?thesis
  proof (cases "l2 = 0")
    case True
    then have "mem' = m2 \<and> ivec' = iv2 \<and> ec' = ec2 \<and> num' = n2" using res by simp
    then show ?thesis using True j1(1) j2(1,5,7,8) p12 by simp
  next
    case False
    have r2: "regions i2 o2 l2 m2" using regions_suffix [OF r1 _ j2(9), of j2] j2(1-3) by simp
    obtain m3 where m3: "xor_tail (block iv2) 0 i2 o2 l2 m2 = (m3, l2)"
        "processes (ctr_step block) i2 o2 l2 (((iv2, ec2), 0), m2) (((ctr128_inc iv2, block iv2), l2), m3)"
      using ctr.tail [OF r2, of block "(iv2, ec2)"] False j2(4,7) assms(1) by auto
    have "n2 = 0" using j2(6) False by simp
    then have "mem' = m3 \<and> ivec' = ctr128_inc iv2 \<and> ec' = block iv2 \<and> num' = l2" using res False m3(1) by simp
    moreover have "processes (ctr_step block) inp out (j1 + j2 + l2) (((ivec, ec), num), mem) (((ctr128_inc iv2, block iv2), l2), m3)"
      using processes_trans [OF _ p12] m3(2) r j1(1-3) j2(1-3) \<open>n2 = 0\<close> by (simp add: add.assoc)
    ultimately show ?thesis using j1(1) j2(1,4,7) assms(1) by (simp add: add.assoc)
  qed
qed

text \<open>The counter is a big-endian number, which wraps around.\<close>

lemma counter_inc_loop_value:
  "n \<le> length counter \<Longrightarrow> unat c \<le> 1 \<Longrightarrow>
     counter_inc_loop c n counter = be_bytes n (be_val (take n counter) + unat c) @ drop n counter"
proof (induction c n counter rule: counter_inc_loop.induct)
  case (2 c n counter)
  let ?x = "counter ! n" and ?c = "c + ucast (counter ! n) :: u32"
  have x: "unat (ucast ?x :: u32) = unat ?x" by (rule unat_ucast_up) simp
  have "unat c + unat ?x < 4294967296" using 2(3) unat_u8_less [of ?x] by linarith
  then have uc: "unat ?c = unat c + unat ?x" by (simp add: unat_word_ariths x)
  have d: "unat (drop_bit 8 ?c) = (unat c + unat ?x) div 256" using uc by (simp add: unat_drop_bit)
  have b: "(ucast ?c :: u8) = of_nat (unat c + unat ?x)" by (simp add: word_unat_eq_iff unat_ucast_u8 unat_of_nat uc del: of_nat_add)
  have tk: "take (Suc n) counter = take n counter @ [?x]" using 2(2) by (simp add: take_Suc_conv_app_nth)
  have le: "unat (drop_bit 8 ?c) \<le> 1" 
  proof -
    have "unat c + unat ?x \<le> 256" using 2(3) unat_u8_less [of ?x] by linarith
    then show ?thesis using div_le_mono [of "unat c + unat ?x" 256 256] unfolding d by simp
  qed
  have v: "be_val (take (Suc n) counter) + unat c = be_val (take n counter) * 256 + (unat c + unat ?x)"
    unfolding tk by (simp add: be_val_append)
  then have hi: "(be_val (take (Suc n) counter) + unat c) div 256 = be_val (take n counter) + (unat c + unat ?x) div 256"
    by simp
  have lo: "(of_nat (be_val (take (Suc n) counter) + unat c) :: u8) = of_nat (unat c + unat ?x)"
    unfolding v by (simp add: word_unat_eq_iff unat_of_nat del: of_nat_add of_nat_mult)
  have "counter_inc_loop c (Suc n) counter = counter_inc_loop (drop_bit 8 ?c) n (counter[n := ucast ?c])" by (simp add: Let_def)
  also have "\<dots> = be_bytes n (be_val (take n counter) + (unat c + unat ?x) div 256) @ drop n (counter[n := ucast ?c])"
    using 2(1) [OF refl] 2(2) le d by simp
  also have "drop n (counter[n := ucast ?c]) = of_nat (unat c + unat ?x) # drop (Suc n) counter"
    using 2(2) b by (simp add: Cons_nth_drop_Suc [symmetric])
  finally show ?case using hi lo by simp
qed simp

lemma ctr128_inc_value: "length counter = 16 \<Longrightarrow> ctr128_inc counter = be_bytes 16 (be_val counter + 1)"
  by (simp add: ctr128_inc_def counter_inc_loop_value)

lemma ctr96_inc_value:
  "length counter = 16 \<Longrightarrow> ctr96_inc counter = be_bytes 12 (be_val (take 12 counter) + 1) @ drop 12 counter"
  by (simp add: ctr96_inc_def counter_inc_loop_value)

text \<open>The key stream, with the counter of the first block at \<open>v\<close>.\<close>

definition ctr_key_byte :: "block_cipher \<Rightarrow> nat \<Rightarrow> nat \<Rightarrow> u8" where
  "ctr_key_byte block v j = block (be_bytes 16 (v + j div 16)) ! (j mod 16)"

definition ctr_xor :: "block_cipher \<Rightarrow> nat \<Rightarrow> u8 list \<Rightarrow> u8 list" where
  "ctr_xor block v xs = map (\<lambda>j. xs ! j XOR ctr_key_byte block v j) [0..<length xs]"

lemma length_ctr_xor [simp]: "length (ctr_xor block v xs) = length xs"
  by (simp add: ctr_xor_def)

lemma be_bytes_mod_add: "be_bytes n (v mod 256 ^ n + w) = be_bytes n (v + w)"
  by (metis be_bytes_mod mod_add_left_eq)

lemma ctr128_inc_be_bytes: "ctr128_inc (be_bytes 16 v) = be_bytes 16 (v + 1)"
proof -
  have "ctr128_inc (be_bytes 16 v) = be_bytes 16 (be_val (be_bytes 16 v) + 1)" by (rule ctr128_inc_value) simp
  then show ?thesis unfolding be_val_be_bytes be_bytes_mod_add .
qed

lemma ctr_registers_any:
  "((\<lambda>(iv, ec). (ctr128_inc iv, block iv)) ^^ i) (be_bytes 16 v, ec) =
     (be_bytes 16 (v + i), if i = 0 then ec else block (be_bytes 16 (v + i - 1)))"
proof (induction i)
  case (Suc i)
  then show ?case using ctr128_inc_be_bytes [of "v + i"] by simp
qed simp

lemma ctr_registers:
  fixes block :: block_cipher and ec :: "u8 list"
  shows "((\<lambda>(iv, ec). (ctr128_inc iv, block iv)) ^^ (i + 1)) (be_bytes 16 v, ec) =
    (be_bytes 16 (v + i + 1), block (be_bytes 16 (v + i)))"
  unfolding ctr_registers_any by (simp add: add.assoc)

lemma blocks_round_up: "(if n mod 16 = 0 then n div 16 else n div 16 + 1) = (n + 15) div (16 :: nat)"
proof -
  obtain q m where n: "n = m + q * 16" "m < 16"
    using mod_less_divisor [of 16 n] div_mult_mod_eq [of n 16] by (metis add.commute zero_less_numeral)
  have "(m + q * 16 + 15) div 16 = (m + 15) div 16 + q" by (simp add: add.commute add.left_commute)
  moreover have "(m + 15) div 16 = (if m = 0 then 0 else 1)" using n(2) by (simp add: div_nat_eqI)
  moreover have "(m + q * 16) mod 16 = m" "(m + q * 16) div 16 = q" using n(2) by simp_all
  ultimately show ?thesis unfolding n(1) by simp
qed

lemma ctr_after: "\<exists>ec'. ctr.after block (be_bytes 16 v, ec) n = ((be_bytes 16 (v + (n + 15) div 16), ec'), n mod 16)"
proof (cases "(n + 15) div 16")
  case 0
  then show ?thesis unfolding ctr.after_def blocks_round_up 0 by simp
next
  case (Suc j)
  then show ?thesis unfolding ctr.after_def blocks_round_up
    using ctr_registers [where i = j and v = v and block = block and ec = ec] by simp
qed

lemma run_ctr:
  obtains ec' where "run_mode (ctr_step block) ((be_bytes 16 v, ec), 0) xs =
    (ctr_xor block v xs, ((be_bytes 16 (v + (length xs + 15) div 16), ec'), length xs mod 16))"
proof -
  let ?refresh = "\<lambda>(iv, ec). (ctr128_inc iv, block iv)"
  have key: "snd ((?refresh ^^ (i + 1)) (be_bytes 16 v, ec)) = block (be_bytes 16 (v + i))" for i
    unfolding ctr_registers by simp
  have out: "map (\<lambda>j. xs ! j XOR snd ((?refresh ^^ (j div 16 + 1)) (be_bytes 16 v, ec)) ! (j mod 16)) [0..<length xs] = ctr_xor block v xs"
    unfolding key by (simp add: ctr_xor_def ctr_key_byte_def)
  obtain ec' where af: "ctr.after block (be_bytes 16 v, ec) (length xs) =
      ((be_bytes 16 (v + (length xs + 15) div 16), ec'), length xs mod 16)"
    using ctr_after by blast
  have "ctr.after block (be_bytes 16 v, ec) 0 = ((be_bytes 16 v, ec), 0)" by (simp add: ctr.after_def)
  with ctr.run_closed [of block "(be_bytes 16 v, ec)" xs] out
  have "run_mode (ctr_step block) ((be_bytes 16 v, ec), 0) xs = (ctr_xor block v xs, ctr.after block (be_bytes 16 v, ec) (length xs))"
    by (simp only:)
  then show thesis using that af by simp
qed

section \<open>Counter mode with a 32-bit function\<close>

text \<open>
  \<^verbatim>\<open>ctr128_f\<close>, usually assembly, is a parameter: it gets the memory, the pointers, the number of blocks
  and \<^verbatim>\<open>ivec\<close>.
\<close>

type_synonym ctr128_f = "nat \<Rightarrow> nat \<Rightarrow> nat \<Rightarrow> u8 list \<Rightarrow> u8 list \<Rightarrow> u8 list"

text \<open>The number of blocks of one call, and the 32-bit counter after it.\<close>

definition ctr32_chunk :: "nat \<Rightarrow> u32 \<Rightarrow> nat \<times> u32" where
  "ctr32_chunk len ctr32 =
     (let blocks = len div 16;
          blocks = (if blocks > 2 ^ 28 then 2 ^ 28 else blocks);
          ctr32 = ctr32 + of_nat blocks
      in if unat ctr32 < blocks then (blocks - unat ctr32, 0) else (blocks, ctr32))"

lemma ctr32_chunk_bounds:
  assumes "16 \<le> len" and "ctr32_chunk len c = (b, c')"
  shows "0 < b" and "16 * b \<le> len" and "b \<le> 2 ^ 28"
proof -
  have "0 < len div 16" using assms(1) by (simp add: div_greater_zero_iff)
  moreover have "16 * (len div 16) \<le> len" by simp
  ultimately show "0 < b" "16 * b \<le> len" "b \<le> 2 ^ 28"
    using assms(2) by (auto simp: ctr32_chunk_def Let_def split: if_splits)
qed

lemma ctr32_chunk_shrinks: "16 \<le> len \<Longrightarrow> (b, c') = ctr32_chunk len c \<Longrightarrow> len - b * 16 < len"
  using ctr32_chunk_bounds [of len c b c'] by simp

definition set_counter32 :: "u32 \<Rightarrow> u8 list \<Rightarrow> u8 list" where
  "set_counter32 ctr32 ivec =
     (let ivec = CRYPTO_store_u32_be 12 ctr32 ivec in if ctr32 = 0 then ctr96_inc ivec else ivec)"

function ctr32_blocks :: "ctr128_f \<Rightarrow> u8 list \<Rightarrow> u32 \<Rightarrow> nat \<Rightarrow> nat \<Rightarrow> nat \<Rightarrow> u8 list
    \<Rightarrow> u8 list \<times> u32 \<times> nat \<times> nat \<times> nat \<times> u8 list" where
  "ctr32_blocks func ivec ctr32 inp out len mem =
     (if len \<ge> 16
      then (case ctr32_chunk len ctr32 of (blocks, ctr32) \<Rightarrow>
              (let mem = func inp out blocks ivec mem; ivec = set_counter32 ctr32 ivec; n = blocks * 16
               in ctr32_blocks func ivec ctr32 (inp + n) (out + n) (len - n) mem))
      else (ivec, ctr32, inp, out, len, mem))"
  by pat_completeness auto
termination
  by (relation "measure (\<lambda>(func, ivec, ctr32, inp, out, len, mem). len)") (auto intro: ctr32_chunk_shrinks)

declare ctr32_blocks.simps [simp del]

definition CRYPTO_ctr128_encrypt_ctr32 :: "ctr128_f \<Rightarrow> nat \<Rightarrow> nat \<Rightarrow> nat \<Rightarrow> u8 list \<Rightarrow> u8 list \<Rightarrow> nat \<Rightarrow> u8 list
    \<Rightarrow> u8 list \<times> u8 list \<times> u8 list \<times> nat" where
  "CRYPTO_ctr128_encrypt_ctr32 func inp out len ivec ecount_buf num mem =
     (let (n, inp, out, len, mem) = xor_head ecount_buf num inp out len mem;
          ctr32 = CRYPTO_load_u32_be 12 ivec;
          (ivec, ctr32, inp, out, len, mem) = ctr32_blocks func ivec ctr32 inp out len mem
      in if len \<noteq> 0
         then (let ecount_buf = replicate 16 0;
                   ecount_buf = func 0 0 1 ivec ecount_buf;
                   ivec = set_counter32 (ctr32 + 1) ivec;
                   (mem, n) = xor_tail ecount_buf n inp out len mem
               in (mem, ivec, ecount_buf, n))
         else (mem, ivec, ecount_buf, n))"

text \<open>
  What the function promises: it XORs in the key stream, counting in the last four bytes of
  \<^verbatim>\<open>ivec\<close> only.
\<close>

definition ctr32_counter :: "u8 list \<Rightarrow> nat \<Rightarrow> u8 list" where
  "ctr32_counter ivec i = take 12 ivec @ be_bytes 4 (be_val (drop 12 ivec) + i)"

definition ctr32_reference :: "block_cipher \<Rightarrow> ctr128_f" where
  "ctr32_reference block inp out blocks ivec mem =
     mem_write out (map (\<lambda>j. mem ! (inp + j) XOR block (ctr32_counter ivec (j div 16)) ! (j mod 16)) [0..<16 * blocks]) mem"

definition ctr128_f_ok :: "block_cipher \<Rightarrow> ctr128_f \<Rightarrow> bool" where
  "ctr128_f_ok block func \<longleftrightarrow>
     (\<forall>inp out blocks ivec mem. length ivec = 16 \<longrightarrow> regions inp out (16 * blocks) mem \<longrightarrow>
        func inp out blocks ivec mem = ctr32_reference block inp out blocks ivec mem)"

text \<open>While the 32-bit counter does not wrap, it is the 128-bit counter.\<close>

lemma be_bytes_16: "be_bytes 16 v = be_bytes 12 (v div 2 ^ 32) @ be_bytes 4 v"
  using be_bytes_split [of 12 4 v] by simp

lemma counter_low: "be_val (drop 12 (be_bytes 16 v)) = v mod 2 ^ 32"
  by (simp add: be_bytes_16 be_val_be_bytes)

lemma div_add_low:
  fixes v i m :: nat assumes "v mod m + i < m" shows "(v + i) div m = v div m"
proof -
  have v: "v + i = (v mod m + i) + v div m * m" using div_mult_mod_eq [of v m] by linarith
  have "m \<noteq> 0" using assms by simp
  then show ?thesis unfolding v using assms by (subst div_mult_self1) simp_all
qed

lemma div_add_carry:
  fixes v i m :: nat assumes "v mod m + i = m" and "m \<noteq> 0" shows "(v + i) div m = v div m + 1"
proof -
  have v: "v + i = m + v div m * m" using div_mult_mod_eq [of v m] assms(1) by linarith
  show ?thesis unfolding v using assms(2) by (subst div_mult_self1) simp_all
qed

lemma ctr32_counter_be_bytes:
  assumes "v mod 2 ^ 32 + i < 2 ^ 32"
  shows "ctr32_counter (be_bytes 16 v) i = be_bytes 16 (v + i)"
proof -
  have d: "(v + i) div 2 ^ 32 = v div 2 ^ 32" using assms by (rule div_add_low)
  have "be_bytes 4 (v mod 2 ^ 32 + i) = be_bytes 4 (v + i)" using be_bytes_mod_add [of 4 v i] by simp
  then show ?thesis unfolding ctr32_counter_def counter_low be_bytes_16 [of "v + i"] d
    by (simp add: be_bytes_16 [of v])
qed

lemma set_counter32_be_bytes:
  assumes "0 < i" and "v mod 2 ^ 32 + i \<le> 2 ^ 32" and "unat c = (v mod 2 ^ 32 + i) mod 2 ^ 32"
  shows "set_counter32 c (be_bytes 16 v) = be_bytes 16 (v + i)"
proof -
  let ?h = "v div 2 ^ 32" and ?l = "v mod 2 ^ 32"
  have st: "CRYPTO_store_u32_be 12 c (be_bytes 16 v) = be_bytes 12 ?h @ be_bytes 4 (unat c)"
    by (simp add: CRYPTO_store_u32_be_def mem_write_def be_bytes_16)
  have lo: "be_bytes 4 (unat c) = be_bytes 4 (v + i)"
    unfolding assms(3) using be_bytes_mod_add [of 4 v i] be_bytes_mod [of 4 "v mod 2 ^ 32 + i"] by simp
  show ?thesis
  proof (cases "?l + i = 2 ^ 32")
    case True
    then have c: "c = 0" using assms(3) by (simp add: unsigned_eq_0_iff)
    have "(v + i) div 2 ^ 32 = ?h + 1" using True by (rule div_add_carry) simp
    moreover have "ctr96_inc (be_bytes 12 ?h @ be_bytes 4 (unat c)) = be_bytes 12 (?h + 1) @ be_bytes 4 (unat c)"
      using be_bytes_mod_add [of 12 ?h 1] by (simp add: ctr96_inc_value be_val_be_bytes)
    ultimately show ?thesis unfolding set_counter32_def st Let_def be_bytes_16 [of "v + i"] lo [symmetric] using c by simp
  next
    case False
    then have l: "?l + i < 2 ^ 32" using assms(2) by simp
    then have "unat c \<noteq> 0" using assms(1,3) by simp
    then have "c \<noteq> 0" by auto
    moreover have "(v + i) div 2 ^ 32 = ?h" using l by (rule div_add_low)
    ultimately show ?thesis unfolding set_counter32_def st Let_def be_bytes_16 [of "v + i"] lo [symmetric] by simp
  qed
qed

lemma ctr32_chunk_value:
  assumes "16 \<le> len" and "ctr32_chunk len c = (b, c')"
  shows "unat c + b \<le> 2 ^ 32" and "unat c' = (unat c + b) mod 2 ^ 32"
proof -
  define bl where "bl = (if len div 16 > 2 ^ 28 then 2 ^ 28 else len div 16)"
  have bl: "bl \<le> 2 ^ 28" "0 < bl" using assms(1) by (auto simp: bl_def div_greater_zero_iff)
  have "unat (of_nat bl :: u32) = bl" using bl(1) by (intro unat_of_nat_eq) simp
  then have sum: "unat (c + of_nat bl) = (unat c + bl) mod 2 ^ 32" by (simp add: unat_word_ariths)
  have c: "unat c < 2 ^ 32" using unat_u32_less [of c] by simp
  have bc: "(b, c') = (if unat (c + of_nat bl) < bl then (bl - unat (c + of_nat bl), 0) else (bl, c + of_nat bl))"
    using assms(2) unfolding ctr32_chunk_def Let_def bl_def [symmetric] by simp
  have "unat c + b \<le> 2 ^ 32 \<and> unat c' = (unat c + b) mod 2 ^ 32"
  proof (cases "unat c + bl < 2 ^ 32")
    case True
    then have s: "unat (c + of_nat bl) = unat c + bl" using sum by simp
    then have "b = bl \<and> c' = c + of_nat bl" using bc by simp
    then show ?thesis using True s by simp
  next
    case False
    then have "unat (c + of_nat bl) = unat c + bl - 2 ^ 32" using sum c bl(1) by (simp add: le_mod_geq)
    then have "b = 2 ^ 32 - unat c \<and> c' = 0" using bc c False by (auto split: if_splits)
    then show ?thesis using c by simp
  qed
  then show "unat c + b \<le> 2 ^ 32" "unat c' = (unat c + b) mod 2 ^ 32" by simp_all
qed

lemma ctr32_reference_eq:
  assumes "v mod 2 ^ 32 + b \<le> 2 ^ 32" and "regions inp out (16 * b) mem"
  shows "ctr32_reference block inp out b (be_bytes 16 v) mem = mem_write out (ctr_xor block v (mem_read inp (16 * b) mem)) mem"
proof -
  have "ctr32_counter (be_bytes 16 v) (j div 16) = be_bytes 16 (v + j div 16)" if "j < 16 * b" for j
  proof (rule ctr32_counter_be_bytes)
    have "j div 16 < b" using that by (simp add: less_mult_imp_div_less mult.commute)
    then show "v mod 2 ^ 32 + j div 16 < 2 ^ 32" using assms(1) by linarith
  qed
  moreover have "inp + 16 * b \<le> length mem" using assms(2) by (simp add: regions_def)
  ultimately have "map (\<lambda>j. mem ! (inp + j) XOR block (ctr32_counter (be_bytes 16 v) (j div 16)) ! (j mod 16)) [0..<16 * b] =
      ctr_xor block v (mem_read inp (16 * b) mem)"
    by (intro nth_equalityI) (simp_all add: ctr_xor_def ctr_key_byte_def nth_mem_read)
  then show ?thesis by (simp add: ctr32_reference_def)
qed

lemma ctr32_chunk_processes:
  assumes "ctr128_f_ok block func" and "v mod 2 ^ 32 + b \<le> 2 ^ 32" and "regions inp out (16 * b) mem" and "0 < b"
  obtains ec' where "processes (ctr_step block) inp out (16 * b) (((be_bytes 16 v, ec), 0), mem)
    (((be_bytes 16 (v + b), ec'), 0), func inp out b (be_bytes 16 v) mem)"
proof -
  have f: "func inp out b (be_bytes 16 v) mem = mem_write out (ctr_xor block v (mem_read inp (16 * b) mem)) mem"
    using assms(1,3) ctr32_reference_eq [OF assms(2,3)] by (simp add: ctr128_f_ok_def)
  have "length (mem_read inp (16 * b) mem) = 16 * b" using assms(3) by (simp add: regions_def)
  moreover have "(16 * b + 15) div 16 = b" by simp
  ultimately obtain ec' where "run_mode (ctr_step block) ((be_bytes 16 v, ec), 0) (mem_read inp (16 * b) mem) =
      (ctr_xor block v (mem_read inp (16 * b) mem), ((be_bytes 16 (v + b), ec'), 0))"
    using run_ctr [of block v ec "mem_read inp (16 * b) mem"] by (metis mod_mult_self1_is_0)
  from processesI [OF this] that show thesis unfolding f by blast
qed

lemma mod_add_step: "(v mod m + i) mod m = (v + i) mod (m :: nat)"
  by (rule mod_add_left_eq)

lemma ctr32_blocks_processes:
  "ctr32_blocks func iv c inp out len mem = (iv', c', inp', out', len', mem') \<Longrightarrow> ctr128_f_ok block func \<Longrightarrow>
     iv = be_bytes 16 v \<Longrightarrow> unat c = v mod 2 ^ 32 \<Longrightarrow> regions inp out len mem \<Longrightarrow>
     \<exists>b ec'. len = 16 * b + len' \<and> inp' = inp + 16 * b \<and> out' = out + 16 * b \<and> len' < 16 \<and> iv' = be_bytes 16 (v + b) \<and>
       unat c' = (v + b) mod 2 ^ 32 \<and> length mem' = length mem \<and>
       processes (ctr_step block) inp out (16 * b) (((be_bytes 16 v, ec), 0), mem) (((be_bytes 16 (v + b), ec'), 0), mem')"
proof (induction func iv c inp out len mem arbitrary: v ec rule: ctr32_blocks.induct)
  case (1 func iv c inp out len mem)
  show ?case
  proof (cases "len \<ge> 16")
    case False
    have "processes (ctr_step block) inp out (16 * 0) (((be_bytes 16 v, ec), 0), mem) (((be_bytes 16 (v + 0), ec), 0), mem)" by simp
    then show ?thesis using 1(2,4,5) False by (subst (asm) ctr32_blocks.simps) (intro exI [of _ 0] exI [of _ ec], auto)
  next
    case True
    obtain b c1 where ch: "ctr32_chunk len c = (b, c1)" by (cases "ctr32_chunk len c")
    note B = ctr32_chunk_bounds [OF True ch] and V = ctr32_chunk_value [OF True ch, unfolded 1(5)]
    let ?mem = "func inp out b iv mem" and ?iv = "set_counter32 c1 iv"
    have iv: "?iv = be_bytes 16 (v + b)" unfolding 1(4) using B(1) V by (rule set_counter32_be_bytes)
    have rb: "regions inp out (16 * b) mem" by (rule regions_prefix [OF 1(6) B(2)])
    obtain e1 where first: "processes (ctr_step block) inp out (16 * b) (((be_bytes 16 v, ec), 0), mem) (((be_bytes 16 (v + b), e1), 0), ?mem)"
      using ctr32_chunk_processes [OF 1(3) V(1) rb B(1), of ec] unfolding 1(4) by blast
    obtain ys where lm: "length ?mem = length mem" by (rule processesE [OF first rb])
    have r2: "regions (inp + b * 16) (out + b * 16) (len - b * 16) ?mem"
      using regions_suffix [OF 1(6) B(2) lm] by (simp add: mult.commute)
    have eq: "ctr32_blocks func ?iv c1 (inp + b * 16) (out + b * 16) (len - b * 16) ?mem = (iv', c', inp', out', len', mem')"
      using 1(2) True ch by (simp add: ctr32_blocks.simps [of func iv c inp out len mem] Let_def)
    have c1: "unat c1 = (v + b) mod 2 ^ 32" using V(2) by (simp add: mod_add_step)
    obtain b' ec' where j: "len - b * 16 = 16 * b' + len'" "inp' = inp + b * 16 + 16 * b'" "out' = out + b * 16 + 16 * b'" "len' < 16"
        "iv' = be_bytes 16 (v + b + b')" "unat c' = (v + b + b') mod 2 ^ 32" "length mem' = length ?mem"
        "processes (ctr_step block) (inp + b * 16) (out + b * 16) (16 * b') (((be_bytes 16 (v + b), e1), 0), ?mem)
           (((be_bytes 16 (v + b + b'), ec'), 0), mem')"
      using 1(1) [OF True ch [symmetric] refl refl refl eq 1(3) iv c1 r2, of e1] by blast
    have "regions inp out (16 * b + 16 * b') mem" using j(1) B(2) by (intro regions_prefix [OF 1(6)]) simp
    from processes_trans [OF this first] j(8)
    have "processes (ctr_step block) inp out (16 * (b + b')) (((be_bytes 16 v, ec), 0), mem) (((be_bytes 16 (v + (b + b')), ec'), 0), mem')"
      by (simp add: mult.commute distrib_left add.assoc)
    then show ?thesis using j lm B(2) by (intro exI [of _ "b + b'"] exI [of _ ec']) (simp add: add.assoc)
  qed
qed

lemma ctr32_one_block:
  assumes "ctr128_f_ok block func" and "block_ok block"
  shows "func 0 0 1 (be_bytes 16 v) (replicate 16 0) = block (be_bytes 16 v)"
proof -
  have "v mod 2 ^ 32 < 2 ^ 32" by simp
  then have c: "v mod 2 ^ 32 + 1 \<le> 2 ^ 32" by linarith
  have r: "regions 0 0 (16 * 1) (replicate 16 0)" by (simp add: regions_def)
  have l: "length (block (be_bytes 16 v)) = 16" using assms(2) by simp
  have "ctr_xor block v (replicate 16 0) = block (be_bytes 16 v)"
    by (intro nth_equalityI) (simp_all add: ctr_xor_def ctr_key_byte_def l)
  then show ?thesis
    using assms(1) r ctr32_reference_eq [OF c r] l by (simp add: ctr128_f_ok_def mem_write_def mem_read_def)
qed

lemma ctr32_processes:
  assumes ok: "ctr128_f_ok block func" "block_ok block" and iv: "length ivec = 16" and ec: "length ec = 16" "num < 16"
    and r: "regions inp out len mem"
    and call: "CRYPTO_ctr128_encrypt_ctr32 func inp out len ivec ec num mem = (mem', ivec', ec', num')"
  obtains ecx where "processes (ctr_step block) inp out len (((ivec, ec), num), mem) (((ivec', ecx), num'), mem')"
    and "num' \<noteq> 0 \<Longrightarrow> ecx = ec'"
proof -
  define v where "v = be_val ivec"
  have ivv: "ivec = be_bytes 16 v" using iv by (simp add: v_def be_bytes_unique)
  obtain n1 i1 o1 l1 m1 where h: "xor_head ec num inp out len mem = (n1, i1, o1, l1, m1)" by (metis prod_cases5)
  obtain j1 where j1: "len = j1 + l1" "i1 = inp + j1" "o1 = out + j1" "n1 < 16" "n1 = 0 \<or> l1 = 0"
      "processes (ctr_step block) inp out j1 (((ivec, ec), num), mem) (((ivec, ec), n1), m1)"
    using ctr.head [of "(ivec, ec)", OF _ ec(2) _ r, of _ _ _ _ _ block] h ec(1) by auto
  have rp: "regions inp out j1 mem" using regions_prefix [OF r] j1(1) by simp
  obtain us where lm1: "length m1 = length mem" by (rule processesE [OF j1(6) rp])
  have r1: "regions i1 o1 l1 m1" using regions_suffix [OF r _ lm1, of j1] j1(1-3) by simp
  let ?c = "CRYPTO_load_u32_be 12 ivec"
  have c: "unat ?c = v mod 2 ^ 32" using counter_low [of v] unfolding ivv
    by (simp add: CRYPTO_load_u32_be_def mem_read_def unat_of_nat)
  obtain iv2 c2 i2 o2 l2 m2 where b: "ctr32_blocks func ivec ?c i1 o1 l1 m1 = (iv2, c2, i2, o2, l2, m2)" by (metis prod_cases6)
  obtain q e2 where j2: "l1 = 16 * q + l2" "i2 = i1 + 16 * q" "o2 = o1 + 16 * q" "l2 < 16" "iv2 = be_bytes 16 (v + q)"
      "unat c2 = (v + q) mod 2 ^ 32" "length m2 = length m1"
      "processes (ctr_step block) i1 o1 (16 * q) (((ivec, ec), 0), m1) (((be_bytes 16 (v + q), e2), 0), m2)"
    using ctr32_blocks_processes [OF b ok(1) ivv c r1, of ec] unfolding ivv by blast
  note res = call [unfolded CRYPTO_ctr128_encrypt_ctr32_def h b prod.case Let_def]
  show thesis
  proof (cases "n1 = 0")
    case False
    then have "l1 = 0" using j1(5) by simp
    then have "q = 0 \<and> l2 = 0" using j2(1) by simp
    moreover have "iv2 = ivec \<and> m2 = m1" using b \<open>l1 = 0\<close> by (simp add: ctr32_blocks.simps)
    ultimately have "mem' = m1 \<and> ivec' = ivec \<and> ec' = ec \<and> num' = n1" using res by simp
    then show thesis using that j1(1,6) \<open>l1 = 0\<close> by simp
  next
    case True
    have "regions inp out (j1 + 16 * q) mem" using regions_prefix [OF r] j1(1) j2(1) by simp
    then have p12: "processes (ctr_step block) inp out (j1 + 16 * q) (((ivec, ec), num), mem) (((iv2, e2), 0), m2)"
      using processes_trans [OF _ j1(6)] j2(5,8) j1(2,3) True by simp
    show thesis
    proof (cases "l2 = 0")
      case l2: True
      then have "mem' = m2 \<and> ivec' = iv2 \<and> num' = 0" using res True by simp
      then show thesis using that p12 j1(1) j2(1) l2 by simp
    next
      case False
      have r2: "regions i2 o2 l2 m2" using regions_suffix [OF r1 _ j2(7), of "16 * q"] j2(1-3) by simp
      have l: "length (block iv2) = 16" using ok(2) j2(5) by simp
      have set: "set_counter32 (c2 + 1) iv2 = ctr128_inc iv2"
      proof -
        have "(v + q) mod 2 ^ 32 < 2 ^ 32" by simp
        then have "(v + q) mod 2 ^ 32 + 1 \<le> 2 ^ 32" by linarith
        moreover have "unat (c2 + 1) = ((v + q) mod 2 ^ 32 + 1) mod 2 ^ 32" using j2(6) by (simp add: unat_word_ariths)
        ultimately show ?thesis unfolding j2(5) ctr128_inc_be_bytes by (intro set_counter32_be_bytes) simp_all
      qed
      have one: "func 0 0 1 iv2 (replicate 16 0) = block iv2" unfolding j2(5) by (rule ctr32_one_block [OF ok])
      obtain m3 where m3: "xor_tail (block iv2) 0 i2 o2 l2 m2 = (m3, l2)"
          "processes (ctr_step block) i2 o2 l2 (((iv2, e2), 0), m2) (((ctr128_inc iv2, block iv2), l2), m3)"
        using ctr.tail [OF r2, of block "(iv2, e2)"] False j2(4) l by auto
      have e: "mem' = m3 \<and> ivec' = ctr128_inc iv2 \<and> ec' = block iv2 \<and> num' = l2"
        using res [unfolded one set] False m3(1) True by simp
      have "processes (ctr_step block) inp out (j1 + 16 * q + l2) (((ivec, ec), num), mem) (((ctr128_inc iv2, block iv2), l2), m3)"
        using processes_trans [OF _ p12] m3(2) r j1(1-3) j2(1-3) by (simp add: add.assoc)
      then show thesis using that e j1(1) j2(1) by (simp add: add.assoc)
    qed
  qed
qed

section \<open>Properties\<close>

lemma be_val_ff: "be_val (replicate n 0xff) = 256 ^ n - 1"
proof (induction n)
  case (Suc n)
  have "(1 :: nat) \<le> 256 ^ n" by simp
  moreover have "unat (0xff :: u8) = 255" by (simp add: word_val)
  ultimately show ?case using Suc by simp
qed simp

lemma example_regions: "regions 0 0 20 (replicate 20 7)" "regions 20 0 20 (replicate 40 7)"
  by (simp_all add: regions_def)

text \<open>
  C19. Counter mode from the start of a block: byte \<open>j\<close> of the input is XORed with byte \<open>j mod 16\<close> of the
  encrypted counter \<open>j div 16\<close> blocks further on, modulo 2 to the 128; nothing else in memory changes.
  Input and output may be the same region, disjoint, or overlap with the output in front.
\<close>

theorem ctr_xors_key_stream:
  assumes "block_ok block" and "length ivec = 16" and "length ecount_buf = 16" and "regions inp out len mem"
    and "CRYPTO_ctr128_encrypt block inp out len ivec ecount_buf 0 mem = (mem', ivec', ecount_buf', num')"
  shows "mem' = mem_write out (ctr_xor block (be_val ivec) (mem_read inp len mem)) mem \<and>
    ivec' = be_bytes 16 (be_val ivec + (len + 15) div 16) \<and> num' = len mod 16"
proof -
  have iv: "ivec = be_bytes 16 (be_val ivec)" using assms(2) by (simp add: be_bytes_unique)
  have p: "processes (ctr_step block) inp out len (((ivec, ecount_buf), 0), mem) (((ivec', ecount_buf'), num'), mem')"
    using ctr_processes [OF assms(1-3) _ assms(4,5)] by simp
  obtain ys where ys: "run_mode (ctr_step block) ((ivec, ecount_buf), 0) (mem_read inp len mem) = (ys, (ivec', ecount_buf'), num')"
      "mem' = mem_write out ys mem"
    by (rule processesE [OF p assms(4)])
  obtain ec where "run_mode (ctr_step block) ((ivec, ecount_buf), 0) (mem_read inp len mem) =
      (ctr_xor block (be_val ivec) (mem_read inp len mem),
       ((be_bytes 16 (be_val ivec + (length (mem_read inp len mem) + 15) div 16), ec), length (mem_read inp len mem) mod 16))"
    using run_ctr [of block "be_val ivec" ecount_buf "mem_read inp len mem"] iv by metis
  then show ?thesis using ys assms(4) by (simp add: regions_def)
qed

theorem ctr_xors_key_stream_witness:
  "\<exists>iv ec n. CRYPTO_ctr128_encrypt example_cipher 0 0 20 (replicate 16 0xff) (replicate 16 0) 0 (replicate 20 7) =
     (ctr_xor example_cipher (2 ^ 128 - 1) (replicate 20 7), iv, ec, n) \<and> iv = be_bytes 16 1 \<and> n = 4"
proof -
  let ?iv = "replicate 16 0xff :: u8 list"
  have "be_val ?iv = 256 ^ 16 - 1" by (rule be_val_ff)
  then have v: "be_val ?iv = 2 ^ 128 - 1" by simp
  obtain mem' iv ec n where c: "CRYPTO_ctr128_encrypt example_cipher 0 0 20 ?iv (replicate 16 0) 0 (replicate 20 7) = (mem', iv, ec, n)"
    by (metis prod_cases4)
  have "(2 :: nat) ^ 128 - 1 + (20 + 15) div 16 = 2 ^ 128 + 1" by simp
  moreover have "be_bytes 16 (2 ^ 128 + 1) = be_bytes 16 1" using be_bytes_mod [of 16 "2 ^ 128 + 1"] by simp
  ultimately show ?thesis
    using ctr_xors_key_stream [OF example_cipher_ok _ _ example_regions(1) c] c v by (simp add: mem_read_def mem_write_def)
qed

text \<open>
  A message may be cut into calls anywhere: two calls on adjacent pieces, the second with the state the
  first left behind, write the same bytes and end in the same state as one call on the whole.
\<close>

theorem ctr_calls_compose:
  assumes "block_ok block" and "length ivec = 16" and "length ecount_buf = 16" and "num < 16" and "regions inp out (m + n) mem"
    and "CRYPTO_ctr128_encrypt block inp out m ivec ecount_buf num mem = (mem1, ivec1, ecount_buf1, num1)"
  shows "CRYPTO_ctr128_encrypt block (inp + m) (out + m) n ivec1 ecount_buf1 num1 mem1 =
    CRYPTO_ctr128_encrypt block inp out (m + n) ivec ecount_buf num mem"
proof -
  have rm: "regions inp out m mem" by (rule regions_prefix [OF assms(5)]) simp
  note A = ctr_processes [OF assms(1-4) rm assms(6)]
  obtain ys where l1: "length mem1 = length mem" using processesE [OF _ rm] A by metis
  have rn: "regions (inp + m) (out + m) n mem1" using regions_suffix [OF assms(5) _ l1, of m] by simp
  obtain mem2 iv2 ec2 n2 where b: "CRYPTO_ctr128_encrypt block (inp + m) (out + m) n ivec1 ecount_buf1 num1 mem1 = (mem2, iv2, ec2, n2)"
    by (metis prod_cases4)
  obtain mem3 iv3 ec3 n3 where c: "CRYPTO_ctr128_encrypt block inp out (m + n) ivec ecount_buf num mem = (mem3, iv3, ec3, n3)"
    by (metis prod_cases4)
  have "processes (ctr_step block) (inp + m) (out + m) n (((ivec1, ecount_buf1), num1), mem1) (((iv2, ec2), n2), mem2)"
    using ctr_processes [OF assms(1) _ _ _ rn b] A by simp
  then have "processes (ctr_step block) inp out (m + n) (((ivec, ecount_buf), num), mem) (((iv2, ec2), n2), mem2)"
    using processes_trans [OF assms(5)] A by metis
  moreover have "processes (ctr_step block) inp out (m + n) (((ivec, ecount_buf), num), mem) (((iv3, ec3), n3), mem3)"
    using ctr_processes [OF assms(1-5) c] by simp
  ultimately show ?thesis using processes_unique b c by fastforce
qed

theorem ctr_calls_compose_witness:
  "\<exists>mem1 iv1 ec1 n1. CRYPTO_ctr128_encrypt example_cipher 0 0 5 (replicate 16 1) (replicate 16 0) 0 (replicate 20 7) = (mem1, iv1, ec1, n1) \<and>
     CRYPTO_ctr128_encrypt example_cipher 5 5 15 iv1 ec1 n1 mem1 =
     CRYPTO_ctr128_encrypt example_cipher 0 0 20 (replicate 16 1) (replicate 16 0) 0 (replicate 20 7)"
proof -
  obtain mem1 iv1 ec1 n1 where c: "CRYPTO_ctr128_encrypt example_cipher 0 0 5 (replicate 16 1) (replicate 16 0) 0 (replicate 20 7) = (mem1, iv1, ec1, n1)"
    by (metis prod_cases4)
  have "regions 0 0 (5 + 15) (replicate 20 (7 :: u8))" by (simp add: regions_def)
  from ctr_calls_compose [OF example_cipher_ok _ _ _ this c] c show ?thesis by simp
qed

text \<open>
  C20. The variant on a 32-bit counter function does what the plain one does: the same memory, counter and
  offset, and the same key stream block whenever part of it is still to be used. This rests on
  the handling of the wrap-around of the 32-bit counter, which splits a call at the wrap and
  carries into the upper 96 bits.
\<close>

theorem ctr32_agrees:
  assumes "ctr128_f_ok block func" and "block_ok block" and "length ivec = 16" and "length ecount_buf = 16" and "num < 16"
    and "regions inp out len mem"
    and "CRYPTO_ctr128_encrypt_ctr32 func inp out len ivec ecount_buf num mem = (mem1, ivec1, ecount_buf1, num1)"
    and "CRYPTO_ctr128_encrypt block inp out len ivec ecount_buf num mem = (mem2, ivec2, ecount_buf2, num2)"
  shows "mem1 = mem2 \<and> ivec1 = ivec2 \<and> num1 = num2 \<and> (num1 \<noteq> 0 \<longrightarrow> ecount_buf1 = ecount_buf2)"
proof -
  obtain ecx where x: "processes (ctr_step block) inp out len (((ivec, ecount_buf), num), mem) (((ivec1, ecx), num1), mem1)"
      "num1 \<noteq> 0 \<Longrightarrow> ecx = ecount_buf1"
    using ctr32_processes [OF assms(1-7)] by blast
  have "processes (ctr_step block) inp out len (((ivec, ecount_buf), num), mem) (((ivec2, ecount_buf2), num2), mem2)"
    using ctr_processes [OF assms(2-6,8)] by simp
  then show ?thesis using processes_unique [OF x(1)] x(2) by blast
qed

text \<open>The counter is one short of the wrap-around of its lower half.\<close>

theorem ctr32_agrees_witness:
  "\<exists>ec ec'. CRYPTO_ctr128_encrypt_ctr32 (ctr32_reference example_cipher) 20 0 20 (replicate 12 1 @ replicate 4 0xff) (replicate 16 0) 0
       (replicate 40 7) = (fst (CRYPTO_ctr128_encrypt example_cipher 20 0 20 (replicate 12 1 @ replicate 4 0xff) (replicate 16 0) 0 (replicate 40 7)),
         ec, ec')"
proof -
  let ?iv = "replicate 12 1 @ replicate 4 0xff :: u8 list"
  obtain m1 i1 e1 n1 where a: "CRYPTO_ctr128_encrypt_ctr32 (ctr32_reference example_cipher) 20 0 20 ?iv (replicate 16 0) 0 (replicate 40 7) =
      (m1, i1, e1, n1)" by (metis prod_cases4)
  obtain m2 i2 e2 n2 where b: "CRYPTO_ctr128_encrypt example_cipher 20 0 20 ?iv (replicate 16 0) 0 (replicate 40 7) = (m2, i2, e2, n2)"
    by (metis prod_cases4)
  have f: "ctr128_f_ok example_cipher (ctr32_reference example_cipher)" by (simp add: ctr128_f_ok_def)
  have "length ?iv = 16" "length (replicate 16 (0 :: u8)) = 16" "(0 :: nat) < 16" by simp_all
  from ctr32_agrees [OF f example_cipher_ok this example_regions(2) a b] show ?thesis unfolding a b by simp
qed

text \<open>
  Output feedback decrypts with the function that encrypts: applied in place to what it wrote, from the
  state it started in, it gives the input back and ends in the same state.
\<close>

theorem ofb_decrypts_itself:
  assumes "block_ok block" and "length ivec = 16" and "num < 16" and "regions inp out len mem"
    and "CRYPTO_ofb128_encrypt block inp out len ivec num mem = (mem1, ivec1, num1)"
    and "CRYPTO_ofb128_encrypt block out out len ivec num mem1 = (mem2, ivec2, num2)"
  shows "mem_read out len mem2 = mem_read inp len mem \<and> ivec2 = ivec1 \<and> num2 = num1"
proof -
  have p: "processes (ofb_step block) inp out len ((ivec, num), mem) ((ivec1, num1), mem1)"
    using ofb_processes [OF assms(1-5)] by simp
  obtain ys where ys: "run_mode (ofb_step block) (ivec, num) (mem_read inp len mem) = (ys, ivec1, num1)"
      "mem1 = mem_write out ys mem" "length ys = len" "length mem1 = length mem"
    by (rule processesE [OF p assms(4)])
  have r: "regions out out len mem1" using assms(4) ys(4) by (simp add: regions_def)
  have rd: "mem_read out len mem1 = ys" using mem_read_write_same [of out ys mem] ys(2,3) assms(4) by (simp add: regions_def)
  have q: "processes (ofb_step block) out out len ((ivec, num), mem1) ((ivec2, num2), mem2)"
    using ofb_processes [OF assms(1-3) r assms(6)] by simp
  obtain zs where zs: "run_mode (ofb_step block) (ivec, num) ys = (zs, ivec2, num2)" "mem2 = mem_write out zs mem1" "length zs = len"
    by (rule processesE [OF q r]) (simp add: rd)
  have "zs = mem_read inp len mem \<and> (ivec2, num2) = (ivec1, num1)" using ofb.run_twice [OF assms(3) ys(1)] zs(1) by simp
  then show ?thesis using mem_read_write_same [of out zs mem1] zs(2,3) r by (simp add: regions_def)
qed

theorem ofb_decrypts_itself_witness:
  "\<exists>mem1 iv1 n1. CRYPTO_ofb128_encrypt example_cipher 20 0 20 (replicate 16 1) 3 (replicate 40 7) = (mem1, iv1, n1) \<and>
     mem_read 0 20 (fst (CRYPTO_ofb128_encrypt example_cipher 0 0 20 (replicate 16 1) 3 mem1)) = replicate 20 7"
proof -
  obtain m1 i1 n1 where a: "CRYPTO_ofb128_encrypt example_cipher 20 0 20 (replicate 16 1) 3 (replicate 40 7) = (m1, i1, n1)"
    by (metis prod_cases3)
  obtain m2 i2 n2 where b: "CRYPTO_ofb128_encrypt example_cipher 0 0 20 (replicate 16 1) 3 m1 = (m2, i2, n2)" by (metis prod_cases3)
  from ofb_decrypts_itself [OF example_cipher_ok _ _ example_regions(2) a b] a b show ?thesis by (simp add: mem_read_def)
qed

end
