(* ===== verification/Feedback_Modes.thy ===== *)
theory Feedback_Modes
  imports Byte_Memory
begin

text \<open>
  \<^verbatim>\<open>crypto/fipsmodule/modes/cfb.c\<close>: cipher feedback with 128, 8 and 1 bits, where the
  register takes up the ciphertext. Input and output are regions of one memory; the register is an array
  of its own. As for the key stream modes, the reference is the mode one byte, or one bit, at a time.
\<close>

section \<open>The code\<close>

text \<open>
  The code for encryption and for decryption has the same three loops, with these bodies.
\<close>

definition cfb_byte :: "bool \<Rightarrow> u8 list \<Rightarrow> nat \<Rightarrow> nat \<Rightarrow> nat \<Rightarrow> u8 list \<Rightarrow> u8 list \<times> u8 list" where
  "cfb_byte enc ivec n inp out mem =
     (if enc
      then (let x = ivec ! n XOR mem ! inp in (ivec[n := x], mem[out := x]))
      else (let c = mem ! inp in (ivec[n := c], mem[out := ivec ! n XOR c])))"

definition cfb_word :: "bool \<Rightarrow> u8 list \<Rightarrow> nat \<Rightarrow> nat \<Rightarrow> nat \<Rightarrow> u8 list \<Rightarrow> u8 list \<times> u8 list" where
  "cfb_word enc ivec n inp out mem =
     (if enc
      then (let tmp = CRYPTO_load_word_le n ivec XOR CRYPTO_load_word_le inp mem
            in (CRYPTO_store_word_le n tmp ivec, CRYPTO_store_word_le out tmp mem))
      else (let t = CRYPTO_load_word_le inp mem
            in (CRYPTO_store_word_le n t ivec, CRYPTO_store_word_le out (CRYPTO_load_word_le n ivec XOR t) mem)))"

function cfb_head :: "bool \<Rightarrow> u8 list \<Rightarrow> nat \<Rightarrow> nat \<Rightarrow> nat \<Rightarrow> nat \<Rightarrow> u8 list
    \<Rightarrow> u8 list \<times> nat \<times> nat \<times> nat \<times> nat \<times> u8 list" where
  "cfb_head enc ivec n inp out len mem =
     (if n \<noteq> 0 \<and> len \<noteq> 0
      then (case cfb_byte enc ivec n inp out mem of (ivec, mem) \<Rightarrow>
              cfb_head enc ivec ((n + 1) mod 16) (inp + 1) (out + 1) (len - 1) mem)
      else (ivec, n, inp, out, len, mem))"
  by pat_completeness auto
termination
  by (relation "measure (\<lambda>(enc, ivec, n, inp, out, len, mem). len)") auto

function cfb_words :: "bool \<Rightarrow> u8 list \<Rightarrow> nat \<Rightarrow> nat \<Rightarrow> nat \<Rightarrow> u8 list \<Rightarrow> u8 list \<times> u8 list" where
  "cfb_words enc ivec n inp out mem =
     (if n < 16
      then (case cfb_word enc ivec n (inp + n) (out + n) mem of (ivec, mem) \<Rightarrow> cfb_words enc ivec (n + 8) inp out mem)
      else (ivec, mem))"
  by pat_completeness auto
termination
  by (relation "measure (\<lambda>(enc, ivec, n, inp, out, mem). 16 - n)") auto

function cfb_blocks :: "bool \<Rightarrow> block_cipher \<Rightarrow> u8 list \<Rightarrow> nat \<Rightarrow> nat \<Rightarrow> nat \<Rightarrow> nat \<Rightarrow> u8 list
    \<Rightarrow> u8 list \<times> nat \<times> nat \<times> nat \<times> nat \<times> u8 list" where
  "cfb_blocks enc block ivec n inp out len mem =
     (if len \<ge> 16
      then (case cfb_words enc (block ivec) n inp out mem of (ivec, mem) \<Rightarrow>
              cfb_blocks enc block ivec 0 (inp + 16) (out + 16) (len - 16) mem)
      else (ivec, n, inp, out, len, mem))"
  by pat_completeness auto
termination
  by (relation "measure (\<lambda>(enc, block, ivec, n, inp, out, len, mem). len)") auto

fun cfb_tail :: "bool \<Rightarrow> u8 list \<Rightarrow> nat \<Rightarrow> nat \<Rightarrow> nat \<Rightarrow> nat \<Rightarrow> u8 list \<Rightarrow> u8 list \<times> nat \<times> u8 list" where
  "cfb_tail enc ivec n inp out 0 mem = (ivec, n, mem)"
| "cfb_tail enc ivec n inp out (Suc len) mem =
     (case cfb_byte enc ivec n (inp + n) (out + n) mem of (ivec, mem) \<Rightarrow> cfb_tail enc ivec (n + 1) inp out len mem)"

declare cfb_head.simps [simp del] cfb_words.simps [simp del] cfb_blocks.simps [simp del]

text \<open>The result is the memory, \<^verbatim>\<open>ivec\<close> and \<^verbatim>\<open>*num\<close>.\<close>

definition CRYPTO_cfb128_encrypt :: "block_cipher \<Rightarrow> nat \<Rightarrow> nat \<Rightarrow> nat \<Rightarrow> u8 list \<Rightarrow> nat \<Rightarrow> bool \<Rightarrow> u8 list
    \<Rightarrow> u8 list \<times> u8 list \<times> nat" where
  "CRYPTO_cfb128_encrypt block inp out len ivec num enc mem =
     (let (ivec, n, inp, out, len, mem) = cfb_head enc ivec num inp out len mem;
          (ivec, n, inp, out, len, mem) = cfb_blocks enc block ivec n inp out len mem
      in if len \<noteq> 0
         then (case cfb_tail enc (block ivec) n inp out len mem of (ivec, n, mem) \<Rightarrow> (mem, ivec, n))
         else (mem, ivec, n))"

text \<open>
  One step of the modes with fewer bits: \<open>nbits\<close> bits at \<open>inp\<close>, in the upper bits of the last byte. \<open>ovec\<close> holds
  the old register followed by the ciphertext, and is shifted left; the code never reads what is behind.
\<close>

fun cfbr_bytes :: "bool \<Rightarrow> u8 list \<Rightarrow> nat \<Rightarrow> nat \<Rightarrow> nat \<Rightarrow> nat \<Rightarrow> u8 list \<Rightarrow> u8 list \<Rightarrow> u8 list \<times> u8 list" where
  "cfbr_bytes enc ivec n inp out 0 ovec mem = (ovec, mem)"
| "cfbr_bytes enc ivec n inp out (Suc k) ovec mem =
     (if enc
      then (let x = mem ! (inp + n) XOR ivec ! n in cfbr_bytes enc ivec (n + 1) inp out k (ovec @ [x]) (mem[out + n := x]))
      else (let c = mem ! (inp + n) in cfbr_bytes enc ivec (n + 1) inp out k (ovec @ [c]) (mem[out + n := c XOR ivec ! n])))"

definition cfbr_shift :: "nat \<Rightarrow> u8 list \<Rightarrow> u8 list" where
  "cfbr_shift nbits ovec =
     (let rem = nbits mod 8; num = nbits div 8
      in if rem = 0 then mem_read num 16 ovec
         else map (\<lambda>n. push_bit rem (ovec ! (n + num)) OR drop_bit (8 - rem) (ovec ! (n + num + 1))) [0..<16])"

definition cfbr_encrypt_block :: "block_cipher \<Rightarrow> nat \<Rightarrow> nat \<Rightarrow> nat \<Rightarrow> u8 list \<Rightarrow> bool \<Rightarrow> u8 list \<Rightarrow> u8 list \<times> u8 list" where
  "cfbr_encrypt_block block inp out nbits ivec enc mem =
     (if nbits = 0 \<or> nbits > 128 then (mem, ivec)
      else (case cfbr_bytes enc (block ivec) 0 inp out ((nbits + 7) div 8) ivec mem of (ovec, mem) \<Rightarrow>
              (mem, cfbr_shift nbits ovec)))"

text \<open>The result is the memory and \<^verbatim>\<open>ivec\<close>; \<^verbatim>\<open>*num\<close> is 0 and stays so.\<close>

fun cfb128_1_loop :: "block_cipher \<Rightarrow> nat \<Rightarrow> nat \<Rightarrow> nat \<Rightarrow> nat \<Rightarrow> u8 list \<Rightarrow> bool \<Rightarrow> u8 list \<Rightarrow> u8 list \<times> u8 list" where
  "cfb128_1_loop block inp out n 0 ivec enc mem = (mem, ivec)"
| "cfb128_1_loop block inp out n (Suc k) ivec enc mem =
     (let c = (if bit (mem ! (inp + n div 8)) (7 - n mod 8) then 0x80 else 0);
          (cd, ivec) = cfbr_encrypt_block block 0 1 1 ivec enc [c, 0];
          p = out + n div 8
      in cfb128_1_loop block inp out (n + 1) k ivec enc
           (mem[p := mem ! p AND NOT (push_bit (7 - n mod 8) 1) OR drop_bit (n mod 8) (cd ! 1 AND 0x80)]))"

definition CRYPTO_cfb128_1_encrypt :: "block_cipher \<Rightarrow> nat \<Rightarrow> nat \<Rightarrow> nat \<Rightarrow> u8 list \<Rightarrow> bool \<Rightarrow> u8 list \<Rightarrow> u8 list \<times> u8 list" where
  "CRYPTO_cfb128_1_encrypt block inp out bits ivec enc mem = cfb128_1_loop block inp out 0 bits ivec enc mem"

fun cfb128_8_loop :: "block_cipher \<Rightarrow> nat \<Rightarrow> nat \<Rightarrow> nat \<Rightarrow> nat \<Rightarrow> u8 list \<Rightarrow> bool \<Rightarrow> u8 list \<Rightarrow> u8 list \<times> u8 list" where
  "cfb128_8_loop block inp out n 0 ivec enc mem = (mem, ivec)"
| "cfb128_8_loop block inp out n (Suc k) ivec enc mem =
     (case cfbr_encrypt_block block (inp + n) (out + n) 8 ivec enc mem of (mem, ivec) \<Rightarrow>
        cfb128_8_loop block inp out (n + 1) k ivec enc mem)"

definition CRYPTO_cfb128_8_encrypt :: "block_cipher \<Rightarrow> nat \<Rightarrow> nat \<Rightarrow> nat \<Rightarrow> u8 list \<Rightarrow> bool \<Rightarrow> u8 list \<Rightarrow> u8 list \<times> u8 list" where
  "CRYPTO_cfb128_8_encrypt block inp out len ivec enc mem = cfb128_8_loop block inp out 0 len ivec enc mem"

section \<open>Feedback one byte at a time\<close>

definition cfb_step :: "bool \<Rightarrow> block_cipher \<Rightarrow> u8 list \<times> nat \<Rightarrow> u8 \<Rightarrow> u8 \<times> (u8 list \<times> nat)" where
  "cfb_step enc block s b =
     (case s of (iv, n) \<Rightarrow>
       (let iv = (if n = 0 then block iv else iv); c = b XOR iv ! n
        in (c, (iv[n := if enc then c else b], (n + 1) mod 16))))"

text \<open>What goes into the register, of the input \<open>xs\<close> and the output \<open>ys\<close>.\<close>

definition fed_back :: "bool \<Rightarrow> u8 list \<Rightarrow> u8 list \<Rightarrow> u8 list" where
  "fed_back enc xs ys = (if enc then ys else xs)"

lemma length_fed_back [simp]: "length xs = length ys \<Longrightarrow> length (fed_back enc xs ys) = length xs"
  by (simp add: fed_back_def)

lemma fed_back_Cons: "fed_back enc (x # xs) (y # ys) = (if enc then y else x) # fed_back enc xs ys"
  by (simp add: fed_back_def)

lemma cfb_run_rest:
  "0 < n \<Longrightarrow> n + length xs \<le> 16 \<Longrightarrow> length iv = 16 \<Longrightarrow> n < 16 \<Longrightarrow>
     run_mode (cfb_step enc block) (iv, n) xs =
       (xor_bytes xs (mem_read n (length xs) iv),
        (mem_write n (fed_back enc xs (xor_bytes xs (mem_read n (length xs) iv))) iv, (n + length xs) mod 16))"
proof (induction xs arbitrary: iv n)
  case (Cons x xs)
  let ?c = "x XOR iv ! n" let ?iv = "iv[n := if enc then ?c else x]"
  have st: "cfb_step enc block (iv, n) x = (?c, (?iv, (n + 1) mod 16))" using Cons.prems by (simp add: cfb_step_def Let_def)
  have rd: "mem_read n (length (x # xs)) iv = iv ! n # mem_read (Suc n) (length xs) iv" using Cons.prems by (simp add: mem_read_Suc)
  have w: "mem_write (Suc n) d ?iv = mem_write n ((if enc then ?c else x) # d) iv" if "length d = length xs" for d
    using mem_write_Cons [of n _ d iv] Cons.prems that by simp
  show ?case
  proof (cases "xs = []")
    case True
    then show ?thesis using st rd Cons.prems by (simp add: xor_bytes_def fed_back_def mem_write_single)
  next
    case False
    then have "Suc n < 16" using Cons.prems(2) by (cases xs) simp_all
    then show ?thesis using st rd w Cons.IH [of "Suc n" ?iv] Cons.prems by (simp add: xor_bytes_def fed_back_Cons)
  qed
qed (simp add: xor_bytes_def fed_back_def)

lemma cfb_run_block:
  assumes "xs \<noteq> []" and "length xs \<le> 16" and "length (block iv) = 16"
  shows "run_mode (cfb_step enc block) (iv, 0) xs =
    (xor_bytes xs (mem_read 0 (length xs) (block iv)),
     (mem_write 0 (fed_back enc xs (xor_bytes xs (mem_read 0 (length xs) (block iv)))) (block iv), length xs mod 16))"
proof -
  obtain x ys where xs: "xs = x # ys" using assms(1) by (cases xs) auto
  let ?k = "block iv" let ?c = "x XOR ?k ! 0" let ?iv = "?k[0 := if enc then ?c else x]"
  have st: "cfb_step enc block (iv, 0) x = (?c, (?iv, 1))" by (simp add: cfb_step_def Let_def)
  have rd: "mem_read 0 (length (x # ys)) ?k = ?k ! 0 # mem_read (Suc 0) (length ys) ?k" using assms(3) by (simp add: mem_read_Suc)
  have w: "mem_write (Suc 0) d ?iv = mem_write 0 ((if enc then ?c else x) # d) ?k" if "length d = length ys" for d
    using mem_write_Cons [of 0 _ d ?k] assms xs that by simp
  have "run_mode (cfb_step enc block) (?iv, 1) ys =
      (xor_bytes ys (mem_read 1 (length ys) ?iv),
       (mem_write 1 (fed_back enc ys (xor_bytes ys (mem_read 1 (length ys) ?iv))) ?iv, (1 + length ys) mod 16))"
    using cfb_run_rest [of 1 ys ?iv] assms xs by simp
  then show ?thesis using st rd w assms(2,3) unfolding xs by (simp add: fed_back_Cons split del: if_split)
qed

section \<open>The loops\<close>

lemma cfb_word_eq:
  assumes "n + 8 \<le> length ivec" and "inp + 8 \<le> length mem"
  shows "cfb_word enc ivec n inp out mem =
    (let xs = mem_read inp 8 mem; ys = xor_bytes xs (mem_read n 8 ivec)
     in (mem_write n (fed_back enc xs ys) ivec, mem_write out ys mem))"
  using assms le_bytes8_xor [of "mem_read inp 8 mem" "mem_read n 8 ivec"]
  by (simp add: cfb_word_def CRYPTO_load_word_le_def CRYPTO_store_word_le_def fed_back_def le_bytes8_load Let_def xor.commute)

lemma cfb_words_eq:
  assumes "regions inp out 16 mem" and "length ivec = 16"
  shows "cfb_words enc ivec 0 inp out mem =
    (let xs = mem_read inp 16 mem; ys = xor_bytes xs ivec in (fed_back enc xs ys, mem_write out ys mem))"
proof -
  let ?xa = "mem_read inp 8 mem" and ?xb = "mem_read (inp + 8) 8 mem" and ?ka = "mem_read 0 8 ivec" and ?kb = "mem_read 8 8 ivec"
  let ?a = "xor_bytes ?xa ?ka" and ?b = "xor_bytes ?xb ?kb"
  let ?iv = "mem_write 0 (fed_back enc ?xa ?a) ivec" and ?mem = "mem_write out ?a mem"
  have r: "inp + 16 \<le> length mem" "out + 16 \<le> length mem" using assms(1) by (simp_all add: regions_def)
  have l: "length ?xa = 8" "length ?xb = 8" "length ?a = 8" "length ?b = 8" using r assms(2) by simp_all
  have f: "length (fed_back enc ?xa ?a) = 8" "length (fed_back enc ?xb ?b) = 8" using l by simp_all
  have liv: "length ?iv = 16" using f assms(2) by simp
  have rest: "mem_read (inp + 8) 8 ?mem = ?xb" using rest_unchanged [OF assms(1), of ?a] l by simp
  have kb: "mem_read 8 8 ?iv = ?kb" using mem_read_write_other [of 8 8 0 "fed_back enc ?xa ?a" ivec] f assms(2) by simp
  have "cfb_words enc ivec 0 inp out mem = (mem_write 8 (fed_back enc ?xb ?b) ?iv, mem_write (out + 8) ?b ?mem)"
    using r assms(2) l liv rest kb by (simp add: cfb_words.simps cfb_word_eq Let_def)
  also have "mem_write (out + 8) ?b ?mem = mem_write out (?a @ ?b) mem"
    using mem_write_append [of out ?a ?b mem] r l by simp
  also have "mem_write 8 (fed_back enc ?xb ?b) ?iv = mem_write 0 (fed_back enc ?xa ?a @ fed_back enc ?xb ?b) ivec"
    using mem_write_append [of 0 "fed_back enc ?xa ?a" "fed_back enc ?xb ?b" ivec] f assms(2) by simp
  also have "\<dots> = fed_back enc ?xa ?a @ fed_back enc ?xb ?b" using f assms(2) by (simp add: mem_write_def)
  also have "\<dots> = fed_back enc (?xa @ ?xb) (?a @ ?b)" by (simp add: fed_back_def)
  also have "?a @ ?b = xor_bytes (?xa @ ?xb) (?ka @ ?kb)" using l assms(2) by (subst xor_bytes_append) simp_all
  also have "?xa @ ?xb = mem_read inp 16 mem" using mem_read_append [of inp 8 8 mem] by simp
  also have "?ka @ ?kb = ivec" using mem_read_append [of 0 8 8 ivec] assms(2) by (simp add: mem_read_def)
  finally show ?thesis by (simp add: Let_def)
qed

lemma cfb_tail_eq:
  "regions (inp + n) (out + n) len mem \<Longrightarrow> n + len \<le> length ivec \<Longrightarrow>
     cfb_tail enc ivec n inp out len mem =
       (let xs = mem_read (inp + n) len mem; ys = xor_bytes xs (mem_read n len ivec)
        in (mem_write n (fed_back enc xs ys) ivec, n + len, mem_write (out + n) ys mem))"
proof (induction enc ivec n inp out len mem rule: cfb_tail.induct)
  case (2 enc ivec n inp out len mem)
  let ?c = "mem ! (inp + n)" let ?x = "?c XOR ivec ! n"
  let ?iv = "ivec[n := if enc then ?x else ?c]" and ?mem = "mem[out + n := ?x]"
  have r: "inp + n < length mem" "out + n < length mem" "n < length ivec" using 2(2,3) by (auto simp: regions_def)
  have b: "cfb_byte enc ivec n (inp + n) (out + n) mem = (?iv, ?mem)"
    by (simp add: cfb_byte_def Let_def xor.commute)
  have r': "regions (inp + (n + 1)) (out + (n + 1)) len ?mem"
    using regions_suffix [OF 2(2), of 1 ?mem] by (simp add: add.assoc)
  have rest: "mem_read (Suc (inp + n)) len ?mem = mem_read (Suc (inp + n)) len mem"
    using rest_unchanged [OF 2(2), of "[?x]"] r by (simp add: mem_write_single)
  have rx: "mem_read (inp + n) (Suc len) mem = ?c # mem_read (Suc (inp + n)) len mem" using r by (simp add: mem_read_Suc)
  have rk: "mem_read n (Suc len) ivec = ivec ! n # mem_read (Suc n) len ivec" using r by (simp add: mem_read_Suc)
  let ?xs = "mem_read (Suc (inp + n)) len mem" let ?ys = "xor_bytes ?xs (mem_read (Suc n) len ivec)"
  have l: "length ?xs = len" "length ?ys = len" using 2(2,3) by (simp_all add: regions_def)
  have "mem_write (Suc n) (fed_back enc ?xs ?ys) ?iv = mem_write n (fed_back enc (?c # ?xs) (?x # ?ys)) ivec"
    using mem_write_Cons [of n "if enc then ?x else ?c" "fed_back enc ?xs ?ys" ivec] l 2(3) by (simp add: fed_back_Cons)
  moreover have "mem_write (Suc (out + n)) ?ys ?mem = mem_write (out + n) (?x # ?ys) mem"
    using mem_write_Cons [of "out + n" ?x ?ys mem] l 2(2) by (simp add: regions_def)
  ultimately show ?case
    using 2(1) [OF b [symmetric] r'] 2(3) b rest rx rk r by (simp add: Let_def)
qed (simp add: fed_back_def)

text \<open>The state of the mode: the register, and the offset into it.\<close>

lemma cfb_head_processes:
  "cfb_head enc iv n inp out len mem = (iv', n', inp', out', len', mem') \<Longrightarrow> length iv = 16 \<Longrightarrow> n < 16 \<Longrightarrow>
     regions inp out len mem \<Longrightarrow>
     \<exists>j. len = j + len' \<and> inp' = inp + j \<and> out' = out + j \<and> n' < 16 \<and> (n' = 0 \<or> len' = 0) \<and> length iv' = 16 \<and>
       length mem' = length mem \<and> processes (cfb_step enc block) inp out j ((iv, n), mem) ((iv', n'), mem')"
proof (induction enc iv n inp out len mem rule: cfb_head.induct)
  case (1 enc iv n inp out len mem)
  show ?case
  proof (cases "n \<noteq> 0 \<and> len \<noteq> 0")
    case False
    then show ?thesis using 1(2-4) by (subst (asm) cfb_head.simps) (auto intro!: exI [of _ 0])
  next
    case True
    let ?c = "mem ! inp" let ?x = "?c XOR iv ! n"
    let ?iv = "iv[n := if enc then ?x else ?c]" and ?mem = "mem[out := ?x]"
    have r: "inp < length mem" "out < length mem" using 1(5) True by (auto simp: regions_def)
    have b: "cfb_byte enc iv n inp out mem = (?iv, ?mem)" by (simp add: cfb_byte_def Let_def xor.commute)
    have eq: "cfb_head enc ?iv ((n + 1) mod 16) (inp + 1) (out + 1) (len - 1) ?mem = (iv', n', inp', out', len', mem')"
      using 1(2) True b by (simp add: cfb_head.simps [of enc iv n inp out len mem])
    have "regions (inp + 1) (out + 1) (len - 1) ?mem" using 1(5) True by (intro regions_suffix) auto
    with 1(1) [OF True b [symmetric] eq] 1(3) obtain j where j: "len - 1 = j + len'" "inp' = inp + 1 + j" "out' = out + 1 + j"
        "n' < 16" "n' = 0 \<or> len' = 0" "length iv' = 16" "length mem' = length mem"
        "processes (cfb_step enc block) (inp + 1) (out + 1) j ((?iv, (n + 1) mod 16), ?mem) ((iv', n'), mem')" by auto
    have "run_mode (cfb_step enc block) (iv, n) (mem_read inp 1 mem) = ([?x], (?iv, (n + 1) mod 16))"
      using r True 1(4) by (simp add: mem_read_Suc cfb_step_def Let_def)
    from processesI [OF this, of out] r
    have "processes (cfb_step enc block) inp out 1 ((iv, n), mem) ((?iv, (n + 1) mod 16), ?mem)" by (simp add: mem_write_single)
    moreover have "regions inp out (1 + j) mem" using 1(5) j(1) True by (intro regions_prefix [OF 1(5)]) auto
    ultimately have "processes (cfb_step enc block) inp out (1 + j) ((iv, n), mem) ((iv', n'), mem')"
      using processes_trans j(8) by metis
    with j True show ?thesis by (intro exI [of _ "1 + j"]) auto
  qed
qed

lemma cfb_words_processes:
  assumes "regions inp out 16 mem" and "length (block iv) = 16"
    and "cfb_words enc (block iv) 0 inp out mem = (iv', mem')"
  shows "length iv' = 16 \<and> processes (cfb_step enc block) inp out 16 ((iv, 0), mem) ((iv', 0), mem')"
proof -
  let ?xs = "mem_read inp 16 mem"
  have l: "length ?xs = 16" using assms(1) by (simp add: regions_def)
  have "mem_read 0 16 (block iv) = block iv" using assms(2) by (simp add: mem_read_def)
  moreover have "mem_write 0 (fed_back enc ?xs (xor_bytes ?xs (block iv))) (block iv) = fed_back enc ?xs (xor_bytes ?xs (block iv))"
    using l assms(2) by (simp add: mem_write_def)
  ultimately have "run_mode (cfb_step enc block) (iv, 0) ?xs =
      (xor_bytes ?xs (block iv), (fed_back enc ?xs (xor_bytes ?xs (block iv)), 0))"
    using cfb_run_block [of ?xs block iv enc] l assms(2) by (cases "?xs = []") simp_all
  from processesI [OF this, of out] assms l show ?thesis by (auto simp: cfb_words_eq Let_def)
qed

lemma cfb_tail_processes:
  assumes "regions inp out len mem" and "length (block iv) = 16" and "0 < len" and "len < 16"
    and "cfb_tail enc (block iv) 0 inp out len mem = (iv', n', mem')"
  shows "n' = len \<and> length iv' = 16 \<and> processes (cfb_step enc block) inp out len ((iv, 0), mem) ((iv', len), mem')"
proof -
  let ?xs = "mem_read inp len mem"
  have l: "length ?xs = len" using assms(1) by (simp add: regions_def)
  have "run_mode (cfb_step enc block) (iv, 0) ?xs =
      (xor_bytes ?xs (mem_read 0 len (block iv)), (mem_write 0 (fed_back enc ?xs (xor_bytes ?xs (mem_read 0 len (block iv)))) (block iv), len))"
    using cfb_run_block [of ?xs block iv enc] l assms(2-4) by (cases "?xs = []") simp_all
  from processesI [OF this, of out] assms l cfb_tail_eq [of inp 0 out len mem "block iv" enc]
  show ?thesis by (auto simp: Let_def)
qed

lemma cfb_blocks_processes:
  "cfb_blocks enc block iv n inp out len mem = (iv', n', inp', out', len', mem') \<Longrightarrow> block_ok block \<Longrightarrow> length iv = 16 \<Longrightarrow>
     n < 16 \<Longrightarrow> n = 0 \<or> len = 0 \<Longrightarrow> regions inp out len mem \<Longrightarrow>
     \<exists>j. len = j + len' \<and> inp' = inp + j \<and> out' = out + j \<and> len' < 16 \<and> n' < 16 \<and> (n' = 0 \<or> len' = 0) \<and> length iv' = 16 \<and>
       length mem' = length mem \<and> processes (cfb_step enc block) inp out j ((iv, n), mem) ((iv', n'), mem')"
proof (induction enc block iv n inp out len mem rule: cfb_blocks.induct)
  case (1 enc block iv n inp out len mem)
  show ?case
  proof (cases "len \<ge> 16")
    case False
    then show ?thesis using 1(2-6) by (subst (asm) cfb_blocks.simps) (auto intro!: exI [of _ 0])
  next
    case True
    have n: "n = 0" using 1(6) True by auto
    obtain iv1 mem1 where w: "cfb_words enc (block iv) n inp out mem = (iv1, mem1)" by fastforce
    have r16: "regions inp out 16 mem" by (rule regions_prefix [OF 1(7) True])
    have first: "length iv1 = 16" "processes (cfb_step enc block) inp out 16 ((iv, n), mem) ((iv1, 0), mem1)"
      using cfb_words_processes [OF r16, of block iv enc iv1 mem1] w 1(3,4) n by auto
    obtain ys where l1: "length mem1 = length mem" by (rule processesE [OF first(2) r16])
    then have "regions (inp + 16) (out + 16) (len - 16) mem1" by (rule regions_suffix [OF 1(7) True])
    moreover have "cfb_blocks enc block iv1 0 (inp + 16) (out + 16) (len - 16) mem1 = (iv', n', inp', out', len', mem')"
      using 1(2) True w by (simp add: cfb_blocks.simps [of enc block iv n inp out len mem])
    ultimately obtain j where j: "len - 16 = j + len'" "inp' = inp + 16 + j" "out' = out + 16 + j" "len' < 16" "n' < 16"
        "n' = 0 \<or> len' = 0" "length iv' = 16" "length mem' = length mem1"
        "processes (cfb_step enc block) (inp + 16) (out + 16) j ((iv1, 0), mem1) ((iv', n'), mem')"
      using 1(1) [OF True w [symmetric] _ 1(3) first(1)] by auto
    have "regions inp out (16 + j) mem" using 1(7) j(1) True by (intro regions_prefix [OF 1(7)]) auto
    then have "processes (cfb_step enc block) inp out (16 + j) ((iv, n), mem) ((iv', n'), mem')"
      using processes_trans first(2) j(9) by metis
    then show ?thesis using j True l1 by (intro exI [of _ "16 + j"]) auto
  qed
qed

lemma cfb_processes:
  assumes "block_ok block" and "length ivec = 16" and "num < 16" and r: "regions inp out len mem"
    and "CRYPTO_cfb128_encrypt block inp out len ivec num enc mem = (mem', ivec', num')"
  shows "num' < 16 \<and> length ivec' = 16 \<and> processes (cfb_step enc block) inp out len ((ivec, num), mem) ((ivec', num'), mem')"
proof -
  obtain iv1 n1 i1 o1 l1 m1 where h: "cfb_head enc ivec num inp out len mem = (iv1, n1, i1, o1, l1, m1)" by (metis prod_cases6)
  obtain j1 where j1: "len = j1 + l1" "i1 = inp + j1" "o1 = out + j1" "n1 < 16" "n1 = 0 \<or> l1 = 0" "length iv1 = 16"
      "length m1 = length mem" "processes (cfb_step enc block) inp out j1 ((ivec, num), mem) ((iv1, n1), m1)"
    using cfb_head_processes [OF h assms(2,3) r, of block] by auto
  have r1: "regions i1 o1 l1 m1" using regions_suffix [OF r _ j1(7), of j1] j1(1-3) by simp
  obtain iv2 n2 i2 o2 l2 m2 where b: "cfb_blocks enc block iv1 n1 i1 o1 l1 m1 = (iv2, n2, i2, o2, l2, m2)" by (metis prod_cases6)
  obtain j2 where j2: "l1 = j2 + l2" "i2 = i1 + j2" "o2 = o1 + j2" "l2 < 16" "n2 < 16" "n2 = 0 \<or> l2 = 0" "length iv2 = 16"
      "length m2 = length m1" "processes (cfb_step enc block) i1 o1 j2 ((iv1, n1), m1) ((iv2, n2), m2)"
    using cfb_blocks_processes [OF b assms(1) j1(6,4,5) r1] by auto
  have "regions inp out (j1 + j2) mem" using regions_prefix [OF r] j1(1) j2(1) by simp
  then have p12: "processes (cfb_step enc block) inp out (j1 + j2) ((ivec, num), mem) ((iv2, n2), m2)"
    using processes_trans [OF _ j1(8)] j2(9) j1(2,3) by simp
  note res = assms(5) [unfolded CRYPTO_cfb128_encrypt_def h b prod.case Let_def]
  show ?thesis
  proof (cases "l2 = 0")
    case True
    then have "mem' = m2 \<and> ivec' = iv2 \<and> num' = n2" using res by simp
    then show ?thesis using True j1(1) j2(1,5,7) p12 by simp
  next
    case False
    have r2: "regions i2 o2 l2 m2" using regions_suffix [OF r1 _ j2(8), of j2] j2(1-3) by simp
    have n2: "n2 = 0" using j2(6) False by simp
    obtain iv3 n3 m3 where t: "cfb_tail enc (block iv2) 0 i2 o2 l2 m2 = (iv3, n3, m3)" by (metis prod_cases3)
    have m3: "n3 = l2 \<and> length iv3 = 16 \<and> processes (cfb_step enc block) i2 o2 l2 ((iv2, 0), m2) ((iv3, l2), m3)"
      using cfb_tail_processes [where block = block and iv = iv2, OF r2 _ _ j2(4) t] False assms(1) j2(7) by simp
    have "mem' = m3 \<and> ivec' = iv3 \<and> num' = n3" using res False t n2 by simp
    moreover have "processes (cfb_step enc block) inp out (j1 + j2 + l2) ((ivec, num), mem) ((iv3, l2), m3)"
      using processes_trans [OF _ p12] m3 r j1(1-3) j2(1-3) n2 by (simp add: add.assoc)
    ultimately show ?thesis using j1(1) j2(1,4) m3 by (simp add: add.assoc)
  qed
qed

text \<open>Decryption undoes encryption, byte for byte.\<close>

lemma cfb_step_inverse:
  "cfb_step True block (iv, n) b = (c, s) \<Longrightarrow> cfb_step False block (iv, n) c = (b, s)"
  by (auto simp: cfb_step_def Let_def xor.assoc)

lemma cfb_run_inverse:
  "run_mode (cfb_step True block) s xs = (ys, s') \<Longrightarrow> run_mode (cfb_step False block) s ys = (xs, s')"
proof (induction xs arbitrary: s ys)
  case (Cons x xs)
  obtain c s1 us where st: "cfb_step True block s x = (c, s1)" "run_mode (cfb_step True block) s1 xs = (us, s')" "ys = c # us"
    using Cons.prems by (auto split: prod.splits)
  show ?case using cfb_step_inverse [of block "fst s" "snd s" x c s1] Cons.IH [OF st(2)] st by simp
qed simp

section \<open>Feedback of eight bits and of one\<close>

definition cfb8_step :: "bool \<Rightarrow> block_cipher \<Rightarrow> u8 list \<Rightarrow> u8 \<Rightarrow> u8 \<times> u8 list" where
  "cfb8_step enc block iv b = (let c = b XOR block iv ! 0 in (c, tl iv @ [if enc then c else b]))"

lemma cfbr_encrypt_block_8:
  assumes "length iv = 16"
  shows "cfbr_encrypt_block block inp out 8 iv enc mem =
    (case cfb8_step enc block iv (mem ! inp) of (c, iv') \<Rightarrow> (mem[out := c], iv'))"
proof -
  have "cfbr_shift 8 (iv @ [x]) = tl iv @ [x]" for x
    using assms by (cases iv) (simp_all add: cfbr_shift_def mem_read_def)
  then show ?thesis by (simp add: cfbr_encrypt_block_def cfb8_step_def Let_def)
qed

lemma cfb8_step_length: "length iv = 16 \<Longrightarrow> cfb8_step enc block iv b = (c, iv') \<Longrightarrow> length iv' = 16"
  by (auto simp: cfb8_step_def Let_def)

lemma cfb8_loop_processes:
  "regions (inp + n) (out + n) k mem \<Longrightarrow> length iv = 16 \<Longrightarrow> cfb128_8_loop block inp out n k iv enc mem = (mem', iv') \<Longrightarrow>
     processes (cfb8_step enc block) (inp + n) (out + n) k (iv, mem) (iv', mem')"
proof (induction k arbitrary: n iv mem)
  case (Suc k)
  obtain c iv1 where st: "cfb8_step enc block iv (mem ! (inp + n)) = (c, iv1)" by fastforce
  have r: "inp + n < length mem" "out + n < length mem" using Suc.prems(1) by (auto simp: regions_def)
  have "run_mode (cfb8_step enc block) iv (mem_read (inp + n) 1 mem) = ([c], iv1)" using st r by (simp add: mem_read_Suc)
  from processesI [OF this, of "out + n"] r
  have one: "processes (cfb8_step enc block) (inp + n) (out + n) 1 (iv, mem) (iv1, mem[out + n := c])" by (simp add: mem_write_single)
  have "regions (inp + n + 1) (out + n + 1) k (mem[out + n := c])" using regions_suffix [OF Suc.prems(1), of 1 "mem[out + n := c]"] by simp
  moreover have "cfb128_8_loop block inp out (n + 1) k iv1 enc (mem[out + n := c]) = (mem', iv')"
    using Suc.prems(2,3) st by (simp add: cfbr_encrypt_block_8)
  ultimately have "processes (cfb8_step enc block) (inp + n + 1) (out + n + 1) k (iv1, mem[out + n := c]) (iv', mem')"
    using Suc.IH [of "n + 1" "mem[out + n := c]" iv1] cfb8_step_length [OF Suc.prems(2) st] by (simp add: add.assoc)
  then show ?case using processes_trans [OF _ one] Suc.prems(1) by simp
qed simp

lemma cfb8_run_inverse:
  "run_mode (cfb8_step True block) s xs = (ys, s') \<Longrightarrow> run_mode (cfb8_step False block) s ys = (xs, s')"
proof (induction xs arbitrary: s ys)
  case (Cons x xs)
  obtain c s1 us where st: "cfb8_step True block s x = (c, s1)" "run_mode (cfb8_step True block) s1 xs = (us, s')" "ys = c # us"
    using Cons.prems by (auto split: prod.splits)
  have "cfb8_step False block s c = (x, s1)" using st(1) by (auto simp: cfb8_step_def Let_def xor.assoc)
  then show ?case using Cons.IH [OF st(2)] st by simp
qed simp

text \<open>The bits of memory, each byte from its top; the register one bit further on.\<close>

definition mem_bit :: "u8 list \<Rightarrow> nat \<Rightarrow> bool" where
  "mem_bit mem i = bit (mem ! (i div 8)) (7 - i mod 8)"

definition shift_in :: "u8 list \<Rightarrow> bool \<Rightarrow> u8 list" where
  "shift_in iv b = map (\<lambda>n. push_bit 1 (iv ! n) OR (if n = 15 then of_bool b else drop_bit 7 (iv ! (n + 1)))) [0..<16]"

definition cfb1_step :: "bool \<Rightarrow> block_cipher \<Rightarrow> u8 list \<Rightarrow> bool \<Rightarrow> bool \<times> u8 list" where
  "cfb1_step enc block iv b = (let c = (b \<noteq> bit (block iv ! 0) 7) in (c, shift_in iv (if enc then c else b)))"

lemma drop_bit_7: "drop_bit 7 (x :: u8) = of_bool (bit x 7)"
proof (intro bit_word_eqI)
  fix n assume "n < LENGTH(8)"
  then show "bit (drop_bit 7 x) n = bit (of_bool (bit x 7) :: u8) n"
    by (cases "n = 0") (auto simp: bit_drop_bit_eq bit_of_bool_iff dest: bit_imp_le_length)
qed

lemma cfbr_shift_1: "length iv = 16 \<Longrightarrow> cfbr_shift 1 (iv @ [x]) = shift_in iv (bit x 7)"
  by (auto simp: cfbr_shift_def shift_in_def nth_append drop_bit_7 Let_def)

lemma cfbr_encrypt_block_1:
  assumes "length iv = 16" and "cfbr_encrypt_block block 0 1 1 iv enc [if b then 0x80 else 0, 0] = (cd, iv')"
  shows "(bit (cd ! 1) 7, iv') = cfb1_step enc block iv b"
proof -
  have "bit (if b then 0x80 else 0 :: u8) 7 = b" by simp
  then show ?thesis
    using assms by (auto simp: cfbr_encrypt_block_def cfb1_step_def cfbr_shift_1 [unfolded One_nat_def] bit_xor_iff Let_def split: if_splits)
qed

lemma set_bit_of_byte:
  assumes "m < 8" and "k < 8"
  shows "bit ((x :: u8) AND NOT (push_bit (7 - m) 1) OR drop_bit m (d AND 0x80)) k = (if k = 7 - m then bit d 7 else bit x k)"
proof -
  have "(0x80 :: u8) = push_bit 7 1" by simp
  then have top: "bit (0x80 :: u8) j \<longleftrightarrow> j = 7" for j by (simp only: bit_push_bit_iff bit_1_iff) auto
  show ?thesis
  proof (cases "k = 7 - m")
    case True
    then have "m + k = 7" using assms by simp
    then show ?thesis using True by (simp only: bit_or_iff bit_and_iff bit_not_iff bit_push_bit_iff bit_drop_bit_eq bit_1_iff comp_apply top) simp
  next
    case False
    then have "m + k \<noteq> 7" using assms by simp
    then show ?thesis using False assms
      by (simp only: bit_or_iff bit_and_iff bit_not_iff bit_push_bit_iff bit_drop_bit_eq bit_1_iff comp_apply top) auto
  qed
qed

lemma mem_bit_write:
  assumes "p < length mem" and "m < 8"
  shows "mem_bit (mem[p := mem ! p AND NOT (push_bit (7 - m) 1) OR drop_bit m (d AND 0x80)]) i =
    (if i = 8 * p + m then bit d 7 else mem_bit mem i)"
proof (cases "i div 8 = p")
  case True
  have "7 - i mod 8 = 7 - m \<longleftrightarrow> i mod 8 = m" using assms(2) mod_less_divisor [of 8 i] by linarith
  moreover have "i = 8 * p + m \<longleftrightarrow> i mod 8 = m" 
  proof
    assume "i = 8 * p + m"
    then show "i mod 8 = m" using assms(2) by (metis mod_less mod_mult_self4)
  next
    assume "i mod 8 = m"
    then show "i = 8 * p + m" using True mult_div_mod_eq [of 8 i] by simp
  qed
  ultimately show ?thesis using set_bit_of_byte [OF assms(2), of "7 - i mod 8" "mem ! p" d] True assms(1) by (simp add: mem_bit_def)
next
  case False
  then show ?thesis using assms(2) by (auto simp: mem_bit_def)
qed

text \<open>Bit \<open>n\<close> of the data onwards, \<open>k\<close> bits of it.\<close>

definition bits_at :: "nat \<Rightarrow> nat \<Rightarrow> nat \<Rightarrow> u8 list \<Rightarrow> bool list" where
  "bits_at p n k mem = map (\<lambda>i. mem_bit mem (8 * p + i)) [n..<n + k]"

lemma length_bits_at [simp]: "length (bits_at p n k mem) = k"
  by (simp add: bits_at_def)

lemma bits_at_Suc: "bits_at p n (Suc k) mem = mem_bit mem (8 * p + n) # bits_at p (n + 1) k mem"
  using upt_conv_Cons [of n "n + Suc k"] by (simp add: bits_at_def del: upt_Suc)

definition bits_written :: "nat \<Rightarrow> nat \<Rightarrow> bool list \<Rightarrow> u8 list \<Rightarrow> u8 list \<Rightarrow> bool" where
  "bits_written p n ys mem mem' \<longleftrightarrow> length mem' = length mem \<and>
     (\<forall>i. mem_bit mem' i = (if 8 * p + n \<le> i \<and> i < 8 * p + n + length ys then ys ! (i - (8 * p + n)) else mem_bit mem i))"

lemma bits_at_written: "bits_written p n ys mem mem' \<Longrightarrow> bits_at p n (length ys) mem' = ys"
  by (intro nth_equalityI) (auto simp: bits_written_def bits_at_def)

lemma cfb1_step_length: "cfb1_step enc block iv b = (c, iv') \<Longrightarrow> length iv' = 16"
  by (auto simp: cfb1_step_def Let_def shift_in_def)

lemma cfb1_loop:
  "length iv = 16 \<Longrightarrow> cfb128_1_loop block inp out n k iv enc mem = (mem', iv') \<Longrightarrow>
     8 * inp + n + k \<le> 8 * length mem \<Longrightarrow> 8 * out + n + k \<le> 8 * length mem \<Longrightarrow> out \<le> inp \<or> 8 * inp + n + k \<le> 8 * out + n \<Longrightarrow>
     \<exists>ys. run_mode (cfb1_step enc block) iv (bits_at inp n k mem) = (ys, iv') \<and> bits_written out n ys mem mem'"
proof (induction k arbitrary: n iv mem)
  case (Suc k)
  let ?b = "mem_bit mem (8 * inp + n)" and ?p = "out + n div 8"
  obtain cd iv1 where e: "cfbr_encrypt_block block 0 1 1 iv enc [if ?b then 0x80 else 0, 0] = (cd, iv1)" by fastforce
  have st: "cfb1_step enc block iv ?b = (bit (cd ! 1) 7, iv1)" using cfbr_encrypt_block_1 [OF Suc.prems(1) e] by simp
  let ?mem = "mem[?p := mem ! ?p AND NOT (push_bit (7 - n mod 8) 1) OR drop_bit (n mod 8) (cd ! 1 AND 0x80)]"
  have p: "?p < length mem" "8 * ?p + n mod 8 = 8 * out + n" using Suc.prems(4) by auto
  have w: "mem_bit ?mem i = (if i = 8 * out + n then bit (cd ! 1) 7 else mem_bit mem i)" for i
    using mem_bit_write [OF p(1), of "n mod 8" "cd ! 1" i] p(2) by simp
  have b: "bit (mem ! (inp + n div 8)) (7 - n mod 8) = ?b" by (simp add: mem_bit_def)
  have "cfb128_1_loop block inp out (n + 1) k iv1 enc ?mem = (mem', iv')"
    using Suc.prems(2) e unfolding cfb128_1_loop.simps b Let_def by simp
  with Suc.IH [of iv1 "n + 1" ?mem] cfb1_step_length [OF st] Suc.prems(3-5)
  obtain ys where ys: "run_mode (cfb1_step enc block) iv1 (bits_at inp (n + 1) k ?mem) = (ys, iv')"
      "bits_written out (n + 1) ys ?mem mem'" by auto
  have "bits_at inp (n + 1) k ?mem = bits_at inp (n + 1) k mem"
    unfolding bits_at_def using w Suc.prems(5) by auto
  then have run: "run_mode (cfb1_step enc block) iv (bits_at inp n (Suc k) mem) = (bit (cd ! 1) 7 # ys, iv')"
    using ys(1) st by (simp add: bits_at_Suc)
  have "bits_written out n (bit (cd ! 1) 7 # ys) mem mem'"
    using ys(2) w unfolding bits_written_def by (auto simp: nth_Cons' Suc_diff_Suc)
  then show ?case using run by blast
qed (auto simp: bits_at_def bits_written_def)

lemma cfb1_run_inverse:
  "run_mode (cfb1_step True block) s xs = (ys, s') \<Longrightarrow> run_mode (cfb1_step False block) s ys = (xs, s')"
proof (induction xs arbitrary: s ys)
  case (Cons x xs)
  obtain c s1 us where st: "cfb1_step True block s x = (c, s1)" "run_mode (cfb1_step True block) s1 xs = (us, s')" "ys = c # us"
    using Cons.prems by (auto split: prod.splits)
  have "cfb1_step False block s c = (x, s1)" using st(1) by (auto simp: cfb1_step_def Let_def)
  then show ?case using Cons.IH [OF st(2)] st by simp
qed simp

section \<open>Properties\<close>

text \<open>
  C21. Decrypting in place what the 128-bit mode encrypted, from the register and offset encryption
  started with, gives the plaintext back and ends in the same state, for every length, every
  offset into the block and every legal overlap of the buffers.
\<close>

theorem cfb128_decrypts:
  assumes "block_ok block" and "length ivec = 16" and "num < 16" and "regions inp out len mem"
    and "CRYPTO_cfb128_encrypt block inp out len ivec num True mem = (mem1, ivec1, num1)"
    and "CRYPTO_cfb128_encrypt block out out len ivec num False mem1 = (mem2, ivec2, num2)"
  shows "mem_read out len mem2 = mem_read inp len mem \<and> ivec2 = ivec1 \<and> num2 = num1"
proof -
  have p: "processes (cfb_step True block) inp out len ((ivec, num), mem) ((ivec1, num1), mem1)"
    using cfb_processes [OF assms(1-5)] by simp
  obtain ys where ys: "run_mode (cfb_step True block) (ivec, num) (mem_read inp len mem) = (ys, ivec1, num1)"
      "mem1 = mem_write out ys mem" "length ys = len" "length mem1 = length mem"
    by (rule processesE [OF p assms(4)])
  have r: "regions out out len mem1" using assms(4) ys(4) by (simp add: regions_def)
  have rd: "mem_read out len mem1 = ys" using mem_read_write_same [of out ys mem] ys(2,3) assms(4) by (simp add: regions_def)
  have q: "processes (cfb_step False block) out out len ((ivec, num), mem1) ((ivec2, num2), mem2)"
    using cfb_processes [OF assms(1-3) r assms(6)] by simp
  obtain zs where zs: "run_mode (cfb_step False block) (ivec, num) ys = (zs, ivec2, num2)" "mem2 = mem_write out zs mem1" "length zs = len"
    by (rule processesE [OF q r]) (simp add: rd)
  have "zs = mem_read inp len mem \<and> (ivec2, num2) = (ivec1, num1)" using cfb_run_inverse [OF ys(1)] zs(1) by simp
  then show ?thesis using mem_read_write_same [of out zs mem1] zs(2,3) r by (simp add: regions_def)
qed

theorem cfb128_decrypts_witness:
  "\<exists>mem1 iv1 n1. CRYPTO_cfb128_encrypt example_cipher 20 0 20 (replicate 16 1) 3 True (replicate 40 7) = (mem1, iv1, n1) \<and>
     mem_read 0 20 (fst (CRYPTO_cfb128_encrypt example_cipher 0 0 20 (replicate 16 1) 3 False mem1)) = replicate 20 7"
proof -
  obtain m1 i1 n1 where a: "CRYPTO_cfb128_encrypt example_cipher 20 0 20 (replicate 16 1) 3 True (replicate 40 7) = (m1, i1, n1)"
    by (metis prod_cases3)
  obtain m2 i2 n2 where b: "CRYPTO_cfb128_encrypt example_cipher 0 0 20 (replicate 16 1) 3 False m1 = (m2, i2, n2)" by (metis prod_cases3)
  have "regions 20 0 20 (replicate 40 (7 :: u8))" by (simp add: regions_def)
  from cfb128_decrypts [OF example_cipher_ok _ _ this a b] a b show ?thesis by (simp add: mem_read_def)
qed

text \<open>The same for the mode with eight bits.\<close>

theorem cfb8_decrypts:
  assumes "length ivec = 16" and "regions inp out len mem"
    and "CRYPTO_cfb128_8_encrypt block inp out len ivec True mem = (mem1, ivec1)"
    and "CRYPTO_cfb128_8_encrypt block out out len ivec False mem1 = (mem2, ivec2)"
  shows "mem_read out len mem2 = mem_read inp len mem \<and> ivec2 = ivec1"
proof -
  have p: "processes (cfb8_step True block) inp out len (ivec, mem) (ivec1, mem1)"
    using cfb8_loop_processes [of inp 0 out len mem ivec block True] assms by (simp add: CRYPTO_cfb128_8_encrypt_def)
  obtain ys where ys: "run_mode (cfb8_step True block) ivec (mem_read inp len mem) = (ys, ivec1)"
      "mem1 = mem_write out ys mem" "length ys = len" "length mem1 = length mem"
    by (rule processesE [OF p assms(2)])
  have r: "regions out out len mem1" using assms(2) ys(4) by (simp add: regions_def)
  have rd: "mem_read out len mem1 = ys" using mem_read_write_same [of out ys mem] ys(2,3) assms(2) by (simp add: regions_def)
  have q: "processes (cfb8_step False block) out out len (ivec, mem1) (ivec2, mem2)"
    using cfb8_loop_processes [of out 0 out len mem1 ivec block False] r assms by (simp add: CRYPTO_cfb128_8_encrypt_def)
  obtain zs where zs: "run_mode (cfb8_step False block) ivec ys = (zs, ivec2)" "mem2 = mem_write out zs mem1" "length zs = len"
    by (rule processesE [OF q r]) (simp add: rd)
  have "zs = mem_read inp len mem \<and> ivec2 = ivec1" using cfb8_run_inverse [OF ys(1)] zs(1) by simp
  then show ?thesis using mem_read_write_same [of out zs mem1] zs(2,3) r by (simp add: regions_def)
qed

text \<open>
  With one bit of feedback: encrypting a number of bits that need not fill its last byte and decrypting
  them in place gives the bits back, and leaves every other bit of memory, those of
  the last byte included, as it was.
\<close>

theorem cfb1_decrypts:
  assumes "length ivec = 16" and "regions inp out ((bits + 7) div 8) mem"
    and "CRYPTO_cfb128_1_encrypt block inp out bits ivec True mem = (mem1, ivec1)"
    and "CRYPTO_cfb128_1_encrypt block out out bits ivec False mem1 = (mem2, ivec2)"
  shows "bits_written out 0 (bits_at inp 0 bits mem) mem mem2 \<and> ivec2 = ivec1"
proof -
  have b: "bits \<le> 8 * ((bits + 7) div 8)" by simp
  then have r: "8 * inp + bits \<le> 8 * length mem" "8 * out + bits \<le> 8 * length mem" "out \<le> inp \<or> 8 * inp + bits \<le> 8 * out"
    using assms(2) unfolding regions_def by linarith+
  obtain ys where ys: "run_mode (cfb1_step True block) ivec (bits_at inp 0 bits mem) = (ys, ivec1)" "bits_written out 0 ys mem mem1"
    using cfb1_loop [of ivec block inp out 0 bits True mem mem1 ivec1] assms(1,3) r by (auto simp: CRYPTO_cfb128_1_encrypt_def)
  have l: "length mem1 = length mem" "length ys = bits"
    using ys length_run_mode [of "cfb1_step True block" ivec "bits_at inp 0 bits mem"] by (simp_all add: bits_written_def)
  have rd: "bits_at out 0 bits mem1 = ys" using bits_at_written [OF ys(2)] l by simp
  obtain zs where zs: "run_mode (cfb1_step False block) ivec ys = (zs, ivec2)" "bits_written out 0 zs mem1 mem2"
    using cfb1_loop [of ivec block out out 0 bits False mem1 mem2 ivec2] assms(1,4) r l rd by (auto simp: CRYPTO_cfb128_1_encrypt_def)
  have z: "zs = bits_at inp 0 bits mem \<and> ivec2 = ivec1" using cfb1_run_inverse [OF ys(1)] zs(1) by simp
  moreover have "bits_written out 0 zs mem mem2" using ys(2) zs(2) l z by (simp add: bits_written_def)
  ultimately show ?thesis by simp
qed

theorem cfb1_decrypts_witness:
  "\<exists>mem1 iv1. CRYPTO_cfb128_1_encrypt example_cipher 1 0 11 (replicate 16 1) True [0, 0x5a, 0xc3] = (mem1, iv1) \<and>
     bits_written 0 0 (bits_at 1 0 11 [0, 0x5a, 0xc3]) [0, 0x5a, 0xc3]
       (fst (CRYPTO_cfb128_1_encrypt example_cipher 0 0 11 (replicate 16 1) False mem1))"
proof -
  obtain m1 i1 where a: "CRYPTO_cfb128_1_encrypt example_cipher 1 0 11 (replicate 16 1) True [0, 0x5a, 0xc3] = (m1, i1)" by fastforce
  obtain m2 i2 where b: "CRYPTO_cfb128_1_encrypt example_cipher 0 0 11 (replicate 16 1) False m1 = (m2, i2)" by fastforce
  have "regions 1 0 ((11 + 7) div 8) [0, 0x5a, 0xc3 :: u8]" by (simp add: regions_def)
  from cfb1_decrypts [OF _ this a b] a b show ?thesis by simp
qed

end
