(* ===== verification/Cbc_Mode.thy ===== *)
theory Cbc_Mode
  imports Byte_Memory
begin

text \<open>
  \<^verbatim>\<open>crypto/fipsmodule/modes/cbc.c\<close>: cipher block chaining. The code chains through a pointer that first
  points to \<^verbatim>\<open>ivec\<close> and then to a block of the input or output, and decryption takes one of two
  paths depending on how the buffers lie; both are modelled on the one memory that holds the buffers.
\<close>

section \<open>The chaining pointer\<close>

datatype iv_ptr = Ivec | Mem nat

definition iv_word :: "iv_ptr \<Rightarrow> u8 list \<Rightarrow> u8 list \<Rightarrow> nat \<Rightarrow> u64" where
  "iv_word iv ivec mem n =
     (case iv of Ivec \<Rightarrow> CRYPTO_load_word_le n ivec | Mem p \<Rightarrow> CRYPTO_load_word_le (p + n) mem)"

definition iv_byte :: "iv_ptr \<Rightarrow> u8 list \<Rightarrow> u8 list \<Rightarrow> nat \<Rightarrow> u8" where
  "iv_byte iv ivec mem n = (case iv of Ivec \<Rightarrow> ivec ! n | Mem p \<Rightarrow> mem ! (p + n))"

definition iv_block :: "iv_ptr \<Rightarrow> u8 list \<Rightarrow> u8 list \<Rightarrow> u8 list" where
  "iv_block iv ivec mem = (case iv of Ivec \<Rightarrow> ivec | Mem p \<Rightarrow> mem_read p 16 mem)"

section \<open>Encryption\<close>

function cbc_words :: "iv_ptr \<Rightarrow> u8 list \<Rightarrow> nat \<Rightarrow> nat \<Rightarrow> nat \<Rightarrow> u8 list \<Rightarrow> u8 list" where
  "cbc_words iv ivec n inp out mem =
     (if n < 16
      then cbc_words iv ivec (n + 8) inp out
             (CRYPTO_store_word_le (out + n) (CRYPTO_load_word_le (inp + n) mem XOR iv_word iv ivec mem n) mem)
      else mem)"
  by pat_completeness auto
termination
  by (relation "measure (\<lambda>(iv, ivec, n, inp, out, mem). 16 - n)") auto

declare cbc_words.simps [simp del]

definition call_block :: "block_cipher \<Rightarrow> nat \<Rightarrow> nat \<Rightarrow> u8 list \<Rightarrow> u8 list" where
  "call_block block inp out mem = mem_write out (block (mem_read inp 16 mem)) mem"

function cbc_enc_blocks :: "block_cipher \<Rightarrow> iv_ptr \<Rightarrow> u8 list \<Rightarrow> nat \<Rightarrow> nat \<Rightarrow> nat \<Rightarrow> u8 list
    \<Rightarrow> iv_ptr \<times> nat \<times> nat \<times> nat \<times> u8 list" where
  "cbc_enc_blocks block iv ivec inp out len mem =
     (if len \<ge> 16
      then cbc_enc_blocks block (Mem out) ivec (inp + 16) (out + 16) (len - 16)
             (call_block block out out (cbc_words iv ivec 0 inp out mem))
      else (iv, inp, out, len, mem))"
  by pat_completeness auto
termination
  by (relation "measure (\<lambda>(block, iv, ivec, inp, out, len, mem). len)") auto

declare cbc_enc_blocks.simps [simp del]

function cbc_enc_bytes :: "iv_ptr \<Rightarrow> u8 list \<Rightarrow> nat \<Rightarrow> nat \<Rightarrow> nat \<Rightarrow> nat \<Rightarrow> u8 list \<Rightarrow> nat \<times> u8 list" where
  "cbc_enc_bytes iv ivec n inp out len mem =
     (if n < 16 \<and> n < len
      then cbc_enc_bytes iv ivec (n + 1) inp out len (mem[out + n := mem ! (inp + n) XOR iv_byte iv ivec mem n])
      else (n, mem))"
  by pat_completeness auto
termination
  by (relation "measure (\<lambda>(iv, ivec, n, inp, out, len, mem). 16 - n)") auto

declare cbc_enc_bytes.simps [simp del]

function cbc_enc_pad :: "iv_ptr \<Rightarrow> u8 list \<Rightarrow> nat \<Rightarrow> nat \<Rightarrow> u8 list \<Rightarrow> u8 list" where
  "cbc_enc_pad iv ivec n out mem =
     (if n < 16 then cbc_enc_pad iv ivec (n + 1) out (mem[out + n := iv_byte iv ivec mem n]) else mem)"
  by pat_completeness auto
termination
  by (relation "measure (\<lambda>(iv, ivec, n, out, mem). 16 - n)") auto

declare cbc_enc_pad.simps [simp del]

function cbc_enc_tail :: "block_cipher \<Rightarrow> iv_ptr \<Rightarrow> u8 list \<Rightarrow> nat \<Rightarrow> nat \<Rightarrow> nat \<Rightarrow> u8 list \<Rightarrow> iv_ptr \<times> u8 list" where
  "cbc_enc_tail block iv ivec inp out len mem =
     (if len = 0 then (iv, mem)
      else (case cbc_enc_bytes iv ivec 0 inp out len mem of (n, mem) \<Rightarrow>
              (let mem = call_block block out out (cbc_enc_pad iv ivec n out mem); iv = Mem out
               in if len \<le> 16 then (iv, mem)
                  else cbc_enc_tail block iv ivec (inp + 16) (out + 16) (len - 16) mem)))"
  by pat_completeness auto
termination
  by (relation "measure (\<lambda>(block, iv, ivec, inp, out, len, mem). len)") auto

declare cbc_enc_tail.simps [simp del]

text \<open>The result is the memory and \<^verbatim>\<open>ivec\<close>.\<close>

definition CRYPTO_cbc128_encrypt :: "block_cipher \<Rightarrow> nat \<Rightarrow> nat \<Rightarrow> nat \<Rightarrow> u8 list \<Rightarrow> u8 list \<Rightarrow> u8 list \<times> u8 list" where
  "CRYPTO_cbc128_encrypt block inp out len ivec mem =
     (if len = 0 then (mem, ivec)
      else (let (iv, inp, out, len, mem) = cbc_enc_blocks block Ivec ivec inp out len mem;
                (iv, mem) = cbc_enc_tail block iv ivec inp out len mem
            in (mem, iv_block iv ivec mem)))"

section \<open>Decryption\<close>

function cbc_dec_apart :: "block_cipher \<Rightarrow> iv_ptr \<Rightarrow> u8 list \<Rightarrow> nat \<Rightarrow> nat \<Rightarrow> nat \<Rightarrow> u8 list
    \<Rightarrow> iv_ptr \<times> nat \<times> nat \<times> nat \<times> u8 list" where
  "cbc_dec_apart block iv ivec inp out len mem =
     (if len \<ge> 16
      then cbc_dec_apart block (Mem inp) ivec (inp + 16) (out + 16) (len - 16)
             (cbc_words iv ivec 0 out out (call_block block inp out mem))
      else (iv, inp, out, len, mem))"
  by pat_completeness auto
termination
  by (relation "measure (\<lambda>(block, iv, ivec, inp, out, len, mem). len)") auto

declare cbc_dec_apart.simps [simp del]

function cbc_dec_words :: "u8 list \<Rightarrow> u8 list \<Rightarrow> nat \<Rightarrow> nat \<Rightarrow> nat \<Rightarrow> u8 list \<Rightarrow> u8 list \<times> u8 list" where
  "cbc_dec_words tmp ivec n inp out mem =
     (if n < 16
      then (let c = CRYPTO_load_word_le (inp + n) mem;
                mem = CRYPTO_store_word_le (out + n) (CRYPTO_load_word_le n tmp XOR CRYPTO_load_word_le n ivec) mem;
                ivec = CRYPTO_store_word_le n c ivec
            in cbc_dec_words tmp ivec (n + 8) inp out mem)
      else (ivec, mem))"
  by pat_completeness auto
termination
  by (relation "measure (\<lambda>(tmp, ivec, n, inp, out, mem). 16 - n)") auto

declare cbc_dec_words.simps [simp del]

function cbc_dec_close :: "block_cipher \<Rightarrow> u8 list \<Rightarrow> nat \<Rightarrow> nat \<Rightarrow> nat \<Rightarrow> u8 list
    \<Rightarrow> u8 list \<times> nat \<times> nat \<times> nat \<times> u8 list" where
  "cbc_dec_close block ivec inp out len mem =
     (if len \<ge> 16
      then (case cbc_dec_words (block (mem_read inp 16 mem)) ivec 0 inp out mem of (ivec, mem) \<Rightarrow>
              cbc_dec_close block ivec (inp + 16) (out + 16) (len - 16) mem)
      else (ivec, inp, out, len, mem))"
  by pat_completeness auto
termination
  by (relation "measure (\<lambda>(block, ivec, inp, out, len, mem). len)") auto

declare cbc_dec_close.simps [simp del]

function cbc_dec_bytes :: "u8 list \<Rightarrow> u8 list \<Rightarrow> nat \<Rightarrow> nat \<Rightarrow> nat \<Rightarrow> nat \<Rightarrow> u8 list \<Rightarrow> nat \<times> u8 list \<times> u8 list" where
  "cbc_dec_bytes tmp ivec n inp out len mem =
     (if n < 16 \<and> n < len
      then (let c = mem ! (inp + n); mem = mem[out + n := tmp ! n XOR ivec ! n]; ivec = ivec[n := c]
            in cbc_dec_bytes tmp ivec (n + 1) inp out len mem)
      else (n, ivec, mem))"
  by pat_completeness auto
termination
  by (relation "measure (\<lambda>(tmp, ivec, n, inp, out, len, mem). 16 - n)") auto

declare cbc_dec_bytes.simps [simp del]

function cbc_fill_iv :: "u8 list \<Rightarrow> nat \<Rightarrow> nat \<Rightarrow> u8 list \<Rightarrow> u8 list" where
  "cbc_fill_iv ivec n inp mem = (if n < 16 then cbc_fill_iv (ivec[n := mem ! (inp + n)]) (n + 1) inp mem else ivec)"
  by pat_completeness auto
termination
  by (relation "measure (\<lambda>(ivec, n, inp, mem). 16 - n)") auto

declare cbc_fill_iv.simps [simp del]

function cbc_dec_tail :: "block_cipher \<Rightarrow> u8 list \<Rightarrow> nat \<Rightarrow> nat \<Rightarrow> nat \<Rightarrow> u8 list \<Rightarrow> u8 list \<times> u8 list" where
  "cbc_dec_tail block ivec inp out len mem =
     (if len = 0 then (ivec, mem)
      else (case cbc_dec_bytes (block (mem_read inp 16 mem)) ivec 0 inp out len mem of (n, ivec, mem) \<Rightarrow>
              if len \<le> 16 then (cbc_fill_iv ivec n inp mem, mem)
              else cbc_dec_tail block ivec (inp + 16) (out + 16) (len - 16) mem))"
  by pat_completeness auto
termination
  by (relation "measure (\<lambda>(block, ivec, inp, out, len, mem). len)") auto

declare cbc_dec_tail.simps [simp del]

text \<open>
  If the output is at least two blocks behind the input, or in front of it, blocks are decrypted straight
  into the output; otherwise through a temporary block.
\<close>

definition CRYPTO_cbc128_decrypt :: "block_cipher \<Rightarrow> nat \<Rightarrow> nat \<Rightarrow> nat \<Rightarrow> u8 list \<Rightarrow> u8 list \<Rightarrow> u8 list \<times> u8 list" where
  "CRYPTO_cbc128_decrypt block inp out len ivec mem =
     (if len = 0 then (mem, ivec)
      else (let (ivec, inp, out, len, mem) =
                  (if inp \<ge> 32 \<and> out \<le> inp - 32 \<or> inp < out
                   then (case cbc_dec_apart block Ivec ivec inp out len mem of (iv, inp, out, len, mem) \<Rightarrow>
                           (iv_block iv ivec mem, inp, out, len, mem))
                   else cbc_dec_close block ivec inp out len mem);
                (ivec, mem) = cbc_dec_tail block ivec inp out len mem
            in (mem, ivec)))"

section \<open>Chaining on lists\<close>

text \<open>The mode itself; a last block that is not full is filled up with zeros.\<close>

function cbc_enc :: "block_cipher \<Rightarrow> u8 list \<Rightarrow> u8 list \<Rightarrow> u8 list \<times> u8 list" where
  "cbc_enc block iv xs =
     (if xs = [] then ([], iv)
      else (let c = block (xor_bytes (take 16 xs @ replicate (16 - length xs) 0) iv)
            in (case cbc_enc block c (drop 16 xs) of (cs, iv') \<Rightarrow> (c @ cs, iv'))))"
  by pat_completeness auto
termination
  by (relation "measure (\<lambda>(block, iv, xs). length xs)") auto

declare cbc_enc.simps [simp del]

function cbc_dec :: "block_cipher \<Rightarrow> u8 list \<Rightarrow> u8 list \<Rightarrow> u8 list \<times> u8 list" where
  "cbc_dec block iv xs =
     (if xs = [] then ([], iv)
      else (case cbc_dec block (take 16 xs) (drop 16 xs) of (ps, iv') \<Rightarrow>
              (xor_bytes (block (take 16 xs)) iv @ ps, iv')))"
  by pat_completeness auto
termination
  by (relation "measure (\<lambda>(block, iv, xs). length xs)") auto

declare cbc_dec.simps [simp del]

lemma cbc_enc_Nil [simp]: "cbc_enc block iv [] = ([], iv)"
  by (simp add: cbc_enc.simps)

lemma cbc_dec_Nil [simp]: "cbc_dec block iv [] = ([], iv)"
  by (simp add: cbc_dec.simps)

text \<open>The number of bytes of the blocks that hold \<open>len\<close> bytes.\<close>

definition whole :: "nat \<Rightarrow> nat" where
  "whole len = 16 * ((len + 15) div 16)"

lemma whole_bounds: "len \<le> whole len" "whole len < len + 16"
  unfolding whole_def by linarith+

lemma whole_0 [simp]: "whole 0 = 0"
  by (simp add: whole_def)

lemma whole_step: "0 < len \<Longrightarrow> whole len = 16 + whole (len - 16)"
proof (cases "16 \<le> len")
  case True
  then obtain k where "len = 16 + k" using le_Suc_ex by blast
  moreover have "(31 + k) div 16 = (k + 15) div 16 + 1" using div_add_self2 [of 16 "k + 15"] by (simp add: add.commute)
  ultimately show ?thesis by (simp add: whole_def)
next
  case False
  assume "0 < len"
  then have "(len + 15) div 16 = 1" using False by (simp add: div_nat_eqI)
  then show ?thesis using False by (simp add: whole_def)
qed

lemma length_cbc_enc: "block_ok block \<Longrightarrow> length iv = 16 \<Longrightarrow> length (fst (cbc_enc block iv xs)) = whole (length xs)"
proof (induction block iv xs rule: cbc_enc.induct)
  case (1 block iv xs)
  show ?case
  proof (cases "xs = []")
    case False
    let ?c = "block (xor_bytes (take 16 xs @ replicate (16 - length xs) 0) iv)"
    have c: "length ?c = 16" using 1(2,3) by simp
    have "length (fst (cbc_enc block ?c (drop 16 xs))) = whole (length xs - 16)" using 1(1) [OF False refl 1(2) c] by simp
    then show ?thesis using c False whole_step [of "length xs"] 
      by (cases "cbc_enc block ?c (drop 16 xs)") (simp add: cbc_enc.simps [of block iv xs] Let_def)
  qed simp
qed

text \<open>What decryption with the inverse of the block cipher gives back.\<close>

lemma cbc_dec_enc:
  "(\<And>b. length b = 16 \<Longrightarrow> dec (block b) = b) \<Longrightarrow> block_ok block \<Longrightarrow> length iv = 16 \<Longrightarrow> cbc_enc block iv xs = (cs, iv') \<Longrightarrow>
    cbc_dec dec iv cs = (xs @ replicate (whole (length xs) - length xs) 0, iv')"
proof (induction block iv xs arbitrary: cs iv' rule: cbc_enc.induct)
  case (1 block iv xs)
  show ?case
  proof (cases "xs = []")
    case False
    let ?x = "take 16 xs @ replicate (16 - length xs) 0"
    let ?c = "block (xor_bytes ?x iv)"
    have l: "length (xor_bytes ?x iv) = 16" using 1(4) by simp
    have c: "length ?c = 16" using 1(3) l by simp
    then have c_Nil: "?c \<noteq> []" by (metis list.size(3) zero_neq_numeral)
    obtain ds where ds: "cbc_enc block ?c (drop 16 xs) = (ds, iv')" "cs = ?c @ ds"
      using 1(5) False by (auto simp: cbc_enc.simps [of block iv xs] Let_def split: prod.splits)
    have "cbc_dec dec ?c ds = (drop 16 xs @ replicate (whole (length xs - 16) - (length xs - 16)) 0, iv')"
      using 1(1) [OF False refl 1(2,3) c ds(1)] by simp
    moreover have "xor_bytes (dec ?c) iv = ?x" using 1(2) [OF l] 1(4) xor_bytes_cancel [of ?x iv] by simp
    ultimately have "cbc_dec dec iv cs = (?x @ drop 16 xs @ replicate (whole (length xs - 16) - (length xs - 16)) 0, iv')"
      using c ds(2) False by (simp add: cbc_dec.simps [of dec iv "?c @ ds"] c_Nil)
    moreover have "?x @ drop 16 xs @ replicate (whole (length xs - 16) - (length xs - 16)) 0 = xs @ replicate (whole (length xs) - length xs) 0"
    proof (cases "16 \<le> length xs")
      case True
      then show ?thesis using whole_step [of "length xs"] \<open>xs \<noteq> []\<close> by (simp add: append_assoc [symmetric] del: append_assoc)
    next
      case False
      then show ?thesis using whole_step [of "length xs"] \<open>xs \<noteq> []\<close> by simp
    qed
    ultimately show ?thesis by simp
  qed (use 1(5) in simp)
qed

section \<open>The loops over a block\<close>

text \<open>A block the chaining pointer may point to while the code writes at \<open>out\<close>.\<close>

definition iv_ok :: "iv_ptr \<Rightarrow> u8 list \<Rightarrow> nat \<Rightarrow> u8 list \<Rightarrow> bool" where
  "iv_ok iv ivec out mem \<longleftrightarrow> length ivec = 16 \<and>
     (case iv of Ivec \<Rightarrow> True | Mem p \<Rightarrow> p + 16 \<le> length mem \<and> (p + 16 \<le> out \<or> out + 16 \<le> p))"

lemma length_iv_block: "iv_ok iv ivec out mem \<Longrightarrow> length (iv_block iv ivec mem) = 16"
  by (auto simp: iv_ok_def iv_block_def split: iv_ptr.splits)

lemma iv_word_eq:
  assumes "iv_ok iv ivec out mem" and "n + 8 \<le> 16"
  shows "iv_word iv ivec mem n = le_load (mem_read n 8 (iv_block iv ivec mem))"
  using assms by (auto simp: iv_word_def iv_block_def CRYPTO_load_word_le_def mem_read_mem_read split: iv_ptr.splits)

lemma iv_block_write:
  assumes "iv_ok iv ivec out mem" and "out \<le> q" and "q + length d \<le> out + 16" and "out + 16 \<le> length mem"
  shows "iv_block iv ivec (mem_write q d mem) = iv_block iv ivec mem"
  using assms by (auto simp: iv_ok_def iv_block_def intro!: mem_read_write_other split: iv_ptr.splits)

lemma iv_ok_write:
  "iv_ok iv ivec out mem \<Longrightarrow> q + length d \<le> length mem \<Longrightarrow> iv_ok iv ivec out (mem_write q d mem)"
  by (auto simp: iv_ok_def split: iv_ptr.splits)

lemma iv_byte_eq:
  assumes "iv_ok iv ivec out mem" and "n < 16"
  shows "iv_byte iv ivec mem n = iv_block iv ivec mem ! n"
  using assms by (auto simp: iv_ok_def iv_byte_def iv_block_def nth_mem_read split: iv_ptr.splits)

lemma cbc_words_eq:
  assumes "regions inp out 16 mem" and "iv_ok iv ivec out mem"
  shows "cbc_words iv ivec 0 inp out mem = mem_write out (xor_bytes (mem_read inp 16 mem) (iv_block iv ivec mem)) mem"
proof -
  let ?k = "iv_block iv ivec mem"
  let ?a = "xor_bytes (mem_read inp 8 mem) (mem_read 0 8 ?k)" and ?b = "xor_bytes (mem_read (inp + 8) 8 mem) (mem_read 8 8 ?k)"
  have r: "inp + 16 \<le> length mem" "out + 16 \<le> length mem" using assms(1) by (simp_all add: regions_def)
  have k: "length ?k = 16" using length_iv_block [OF assms(2)] .
  have la: "length ?a = 8" using r k by simp
  have w0: "CRYPTO_store_word_le out (CRYPTO_load_word_le inp mem XOR iv_word iv ivec mem 0) mem = mem_write out ?a mem"
    using r k iv_word_eq [OF assms(2), of 0] by (simp add: CRYPTO_store_word_le_def CRYPTO_load_word_le_def le_bytes8_xor)
  have ok: "iv_ok iv ivec out (mem_write out ?a mem)" using iv_ok_write [OF assms(2)] r la by simp
  have kb: "iv_block iv ivec (mem_write out ?a mem) = ?k" using iv_block_write [OF assms(2)] r la by simp
  have rest: "mem_read (inp + 8) 8 (mem_write out ?a mem) = mem_read (inp + 8) 8 mem"
    using rest_unchanged [OF assms(1), of ?a] la by simp
  have w8: "CRYPTO_store_word_le (out + 8)
      (CRYPTO_load_word_le (inp + 8) (mem_write out ?a mem) XOR iv_word iv ivec (mem_write out ?a mem) 8) (mem_write out ?a mem) =
      mem_write (out + 8) ?b (mem_write out ?a mem)"
    using r k la iv_word_eq [OF ok, of 8] kb rest by (simp add: CRYPTO_store_word_le_def CRYPTO_load_word_le_def le_bytes8_xor)
  have "cbc_words iv ivec 0 inp out mem = mem_write (out + 8) ?b (mem_write out ?a mem)"
    by (simp add: cbc_words.simps w0 w8)
  also have "\<dots> = mem_write out (?a @ ?b) mem" using mem_write_append [of out ?a ?b mem] r la k by simp
  also have "?a @ ?b = xor_bytes (mem_read inp 8 mem @ mem_read (inp + 8) 8 mem) (mem_read 0 8 ?k @ mem_read 8 8 ?k)"
    using r k by (subst xor_bytes_append) simp_all
  also have "\<dots> = xor_bytes (mem_read inp 16 mem) ?k"
    using mem_read_append [of inp 8 8 mem] mem_read_append [of 0 8 8 ?k] k by (simp add: mem_read_def)
  finally show ?thesis .
qed

lemma cbc_dec_words_eq:
  assumes "regions inp out 16 mem" and "length tmp = 16" and "length ivec = 16"
  shows "cbc_dec_words tmp ivec 0 inp out mem = (mem_read inp 16 mem, mem_write out (xor_bytes tmp ivec) mem)"
proof -
  let ?xa = "mem_read inp 8 mem" and ?xb = "mem_read (inp + 8) 8 mem"
  let ?a = "xor_bytes (mem_read 0 8 tmp) (mem_read 0 8 ivec)" and ?b = "xor_bytes (mem_read 8 8 tmp) (mem_read 8 8 ivec)"
  have r: "inp + 16 \<le> length mem" "out + 16 \<le> length mem" using assms(1) by (simp_all add: regions_def)
  have l: "length ?xa = 8" "length ?xb = 8" "length ?a = 8" "length ?b = 8" using r assms(2,3) by simp_all
  have rest: "mem_read (inp + 8) 8 (mem_write out ?a mem) = ?xb"
    using rest_unchanged [OF assms(1), of ?a] l by simp
  have iv8: "mem_read 8 8 (mem_write 0 ?xa ivec) = mem_read 8 8 ivec"
    using mem_read_write_other [of 8 8 0 ?xa ivec] l assms(3) by simp
  have "cbc_dec_words tmp ivec 0 inp out mem = (mem_write 8 ?xb (mem_write 0 ?xa ivec), mem_write (out + 8) ?b (mem_write out ?a mem))"
    using r assms(2,3) l rest iv8
    by (simp add: cbc_dec_words.simps CRYPTO_store_word_le_def CRYPTO_load_word_le_def le_bytes8_xor le_bytes8_load Let_def)
  also have "mem_write 8 ?xb (mem_write 0 ?xa ivec) = mem_write 0 (?xa @ ?xb) ivec"
    using mem_write_append [of 0 ?xa ?xb ivec] l assms(3) by simp
  also have "\<dots> = mem_read inp 16 mem"
    using mem_read_append [of inp 8 8 mem] l assms(3) by (simp add: mem_write_def)
  also have "mem_write (out + 8) ?b (mem_write out ?a mem) = mem_write out (?a @ ?b) mem"
    using mem_write_append [of out ?a ?b mem] r l by simp
  also have "?a @ ?b = xor_bytes (mem_read 0 8 tmp @ mem_read 8 8 tmp) (mem_read 0 8 ivec @ mem_read 8 8 ivec)"
    using assms(2,3) by (subst xor_bytes_append) simp_all
  also have "\<dots> = xor_bytes tmp ivec"
    using mem_read_append [of 0 8 8 tmp] mem_read_append [of 0 8 8 ivec] assms(2,3) by (simp add: mem_read_def)
  finally show ?thesis .
qed

lemma cbc_enc_bytes_eq:
  "iv_ok iv ivec out mem \<Longrightarrow> regions (inp + n) (out + n) (len - n) mem \<Longrightarrow> n \<le> len \<Longrightarrow> len \<le> 16 \<Longrightarrow> out + 16 \<le> length mem \<Longrightarrow>
     cbc_enc_bytes iv ivec n inp out len mem =
       (len, mem_write (out + n) (xor_bytes (mem_read (inp + n) (len - n) mem) (mem_read n (len - n) (iv_block iv ivec mem))) mem)"
proof (induction iv ivec n inp out len mem rule: cbc_enc_bytes.induct)
  case (1 iv ivec n inp out len mem)
  show ?case
  proof (cases "n < len")
    case False
    then show ?thesis using 1(4) by (simp add: cbc_enc_bytes.simps)
  next
    case True
    let ?k = "iv_block iv ivec mem" let ?x = "mem ! (inp + n) XOR ?k ! n" let ?mem = "mem[out + n := ?x]"
    have k: "length ?k = 16" using length_iv_block [OF 1(2)] .
    have b: "iv_byte iv ivec mem n = ?k ! n" using iv_byte_eq [OF 1(2)] True 1(5) by simp
    have r: "inp + n < length mem" "out + n < length mem" "n < 16" using 1(3,5,6) True by (auto simp: regions_def)
    have w: "?mem = mem_write (out + n) [?x] mem" using r by (simp add: mem_write_single)
    have kb: "iv_block iv ivec ?mem = ?k" unfolding w using iv_block_write [OF 1(2)] r 1(6) by simp
    have ok: "iv_ok iv ivec out ?mem" unfolding w using iv_ok_write [OF 1(2)] r by simp
    have r1: "regions (inp + (n + 1)) (out + (n + 1)) (len - (n + 1)) ?mem"
      using regions_suffix [OF 1(3), of 1 ?mem] True by (simp add: add.assoc)
    have rest: "mem_read (Suc (inp + n)) (len - Suc n) ?mem = mem_read (Suc (inp + n)) (len - Suc n) mem"
      using rest_unchanged [OF 1(3), of "[?x]"] w True by simp
    obtain l where l: "len - n = Suc l" "len - Suc n = l" using True by (metis Suc_diff_Suc)
    let ?d = "xor_bytes (mem_read (Suc (inp + n)) l mem) (mem_read (Suc n) l ?k)"
    have ld: "length ?d = l" using r(3) l 1(3,5) k True by (auto simp: regions_def)
    have wr: "mem_write (Suc (out + n)) ?d ?mem = mem_write (out + n) (?x # ?d) mem"
      using mem_write_Cons [of "out + n" ?x ?d mem] ld 1(3) l by (simp add: regions_def)
    have "cbc_enc_bytes iv ivec n inp out len mem = cbc_enc_bytes iv ivec (n + 1) inp out len ?mem"
      using True r(3) by (simp add: cbc_enc_bytes.simps [of iv ivec n inp out len mem] b)
    also have "\<dots> = (len, mem_write (Suc (out + n)) ?d ?mem)"
      using 1(1) [OF conjI [OF r(3) True]] ok r1 True 1(5,6) kb rest l by (simp add: b)
    finally show ?thesis using wr r k l by (simp add: mem_read_Suc)
  qed
qed

lemma cbc_enc_pad_eq:
  "iv_ok iv ivec out mem \<Longrightarrow> n \<le> 16 \<Longrightarrow> out + 16 \<le> length mem \<Longrightarrow>
     cbc_enc_pad iv ivec n out mem = mem_write (out + n) (drop n (iv_block iv ivec mem)) mem"
proof (induction iv ivec n out mem rule: cbc_enc_pad.induct)
  case (1 iv ivec n out mem)
  let ?k = "iv_block iv ivec mem" let ?mem = "mem[out + n := ?k ! n]"
  have k: "length ?k = 16" using length_iv_block [OF 1(2)] .
  show ?case
  proof (cases "n < 16")
    case False
    then show ?thesis using k by (simp add: cbc_enc_pad.simps)
  next
    case True
    have b: "iv_byte iv ivec mem n = ?k ! n" using iv_byte_eq [OF 1(2)] True by simp
    have w: "?mem = mem_write (out + n) [?k ! n] mem" using True 1(4) by (simp add: mem_write_single)
    have kb: "iv_block iv ivec ?mem = ?k" unfolding w using iv_block_write [OF 1(2)] True 1(4) by simp
    have ok: "iv_ok iv ivec out ?mem" unfolding w using iv_ok_write [OF 1(2)] True 1(4) by simp
    have "cbc_enc_pad iv ivec n out mem = cbc_enc_pad iv ivec (n + 1) out ?mem"
      using True by (simp add: cbc_enc_pad.simps [of iv ivec n out mem] b)
    also have "\<dots> = mem_write (Suc (out + n)) (drop (Suc n) ?k) ?mem"
      using 1(1) [OF True] ok True 1(4) kb by (simp add: b)
    also have "\<dots> = mem_write (out + n) (?k ! n # drop (Suc n) ?k) mem"
      using mem_write_Cons [of "out + n" "?k ! n" "drop (Suc n) ?k" mem] k True 1(4) by simp
    finally show ?thesis using True k by (simp add: Cons_nth_drop_Suc)
  qed
qed

lemma xor_padded:
  assumes "length xs \<le> 16" and "length k = 16"
  shows "xor_bytes (xs @ replicate (16 - length xs) 0) k = xor_bytes xs (take (length xs) k) @ drop (length xs) k"
  using assms by (intro nth_equalityI) (auto simp: nth_xor_bytes nth_append)

lemma call_block_written:
  assumes "length d = 16" and "out + 16 \<le> length mem" and "block_ok block"
  shows "call_block block out out (mem_write out d mem) = mem_write out (block d) mem"
  using assms mem_read_write_same [of out d mem] mem_write_twice [of "block d" d out mem] by (simp add: call_block_def)

section \<open>The whole of encryption\<close>

lemma cbc_enc_blocks_eq:
  "cbc_enc_blocks block iv ivec inp out len mem = (iv', inp', out', len', mem') \<Longrightarrow> block_ok block \<Longrightarrow>
     iv_ok iv ivec out mem \<Longrightarrow> regions inp out len mem \<Longrightarrow>
     \<exists>cs. length cs + len' = len \<and> whole (length cs) = length cs \<and> len' < 16 \<and> inp' = inp + length cs \<and> out' = out + length cs \<and>
       mem' = mem_write out cs mem \<and> iv_ok iv' ivec out' mem' \<and>
       cbc_enc block (iv_block iv ivec mem) (mem_read inp len mem) =
         (case cbc_enc block (iv_block iv' ivec mem') (mem_read inp' len' mem') of (ds, k) \<Rightarrow> (cs @ ds, k))"
proof (induction block iv ivec inp out len mem rule: cbc_enc_blocks.induct)
  case (1 block iv ivec inp out len mem)
  show ?case
  proof (cases "16 \<le> len")
    case False
    then show ?thesis using 1(2,4) by (auto simp: cbc_enc_blocks.simps intro!: exI [of _ "[]"] split: prod.split)
  next
    case True
    let ?x = "mem_read inp 16 mem" let ?d = "xor_bytes ?x (iv_block iv ivec mem)" let ?c = "block ?d"
    have r: "inp + len \<le> length mem" "out + len \<le> length mem" using 1(5) by (simp_all add: regions_def)
    have k: "length (iv_block iv ivec mem) = 16" using length_iv_block [OF 1(4)] .
    have ld: "length ?d = 16" using r True k by simp
    have lc: "length ?c = 16" using 1(3) ld by simp
    have "cbc_words iv ivec 0 inp out mem = mem_write out ?d mem" using cbc_words_eq [OF regions_prefix [OF 1(5) True] 1(4)] .
    then have step: "call_block block out out (cbc_words iv ivec 0 inp out mem) = mem_write out ?c mem"
      using call_block_written [OF ld _ 1(3)] r True by simp
    let ?mem = "mem_write out ?c mem"
    have lm: "length ?mem = length mem" using lc r True by simp
    have ok: "iv_ok (Mem out) ivec (out + 16) ?mem" using 1(4) lm r True by (simp add: iv_ok_def)
    have kb: "iv_block (Mem out) ivec ?mem = ?c" using mem_read_write_same [of out ?c mem] lc r True by (simp add: iv_block_def)
    have rg: "regions (inp + 16) (out + 16) (len - 16) ?mem" using regions_suffix [OF 1(5) True lm] .
    have rest: "mem_read (inp + 16) (len - 16) ?mem = mem_read (inp + 16) (len - 16) mem"
      using rest_unchanged [OF 1(5), of ?c] lc True by simp
    have eq: "cbc_enc_blocks block (Mem out) ivec (inp + 16) (out + 16) (len - 16) ?mem = (iv', inp', out', len', mem')"
      using 1(2) True step by (simp add: cbc_enc_blocks.simps [of block iv ivec inp out len mem])
    from 1(1) [OF True] step eq 1(3) ok rg obtain cs where cs: "length cs + len' = len - 16" "whole (length cs) = length cs" "len' < 16"
        "inp' = inp + 16 + length cs" "out' = out + 16 + length cs" "mem' = mem_write (out + 16) cs ?mem" "iv_ok iv' ivec out' mem'"
        "cbc_enc block ?c (mem_read (inp + 16) (len - 16) mem) =
          (case cbc_enc block (iv_block iv' ivec mem') (mem_read inp' len' mem') of (ds, k) \<Rightarrow> (cs @ ds, k))"
      by (auto simp: kb rest)
    have m: "mem' = mem_write out (?c @ cs) mem"
      using mem_write_append [of out ?c cs mem] cs(1,6) lc r True by simp
    have x: "take 16 (mem_read inp len mem) = ?x" "drop 16 (mem_read inp len mem) = mem_read (inp + 16) (len - 16) mem"
      using mem_read_append [of inp 16 "len - 16" mem] True r by simp_all
    have lx: "length (mem_read inp len mem) = len" using r by simp
    then have "mem_read inp len mem \<noteq> []" using True by (metis le_zero_eq list.size(3) zero_neq_numeral)
    then have e: "cbc_enc block (iv_block iv ivec mem) (mem_read inp len mem) =
        (case cbc_enc block ?c (mem_read (inp + 16) (len - 16) mem) of (cs, k) \<Rightarrow> (?c @ cs, k))"
      using True x lx by (simp add: cbc_enc.simps [of block _ "mem_read inp len mem"] Let_def)
    have "whole (16 + length cs) = 16 + length cs" using whole_step [of "16 + length cs"] cs(2) by simp
    moreover have "cbc_enc block (iv_block iv ivec mem) (mem_read inp len mem) =
        (case cbc_enc block (iv_block iv' ivec mem') (mem_read inp' len' mem') of (ds, k) \<Rightarrow> ((?c @ cs) @ ds, k))"
      unfolding e cs(8) by (simp split: prod.split)
    ultimately show ?thesis using cs(1,3-5,7) m lc True by (intro exI [of _ "?c @ cs"]) simp
  qed
qed

lemma cbc_enc_tail_eq:
  assumes "block_ok block" and "iv_ok iv ivec out mem" and "regions inp out len mem" and "out + 16 \<le> length mem"
    and "0 < len" and "len < 16"
  shows "\<exists>c. length c = 16 \<and> cbc_enc_tail block iv ivec inp out len mem = (Mem out, mem_write out c mem) \<and>
    cbc_enc block (iv_block iv ivec mem) (mem_read inp len mem) = (c, c)"
proof -
  let ?k = "iv_block iv ivec mem" let ?xs = "mem_read inp len mem"
  let ?a = "xor_bytes ?xs (take len ?k)" let ?m1 = "mem_write out ?a mem"
  let ?d = "xor_bytes (?xs @ replicate (16 - len) 0) ?k"
  have k: "length ?k = 16" using length_iv_block [OF assms(2)] .
  have lx: "length ?xs = len" using assms(3) by (simp add: regions_def)
  have la: "length ?a = len" using lx k assms(6) by simp
  have ld: "length ?d = 16" using lx k assms(6) by simp
  have tk: "mem_read 0 len ?k = take len ?k" by (simp add: mem_read_def)
  have bytes: "cbc_enc_bytes iv ivec 0 inp out len mem = (len, ?m1)"
    using cbc_enc_bytes_eq [OF assms(2), of inp 0 len] assms(3,4,6) by (simp add: tk)
  have ok: "iv_ok iv ivec out ?m1" using iv_ok_write [OF assms(2)] la assms(4,6) by simp
  have kb: "iv_block iv ivec ?m1 = ?k" using iv_block_write [OF assms(2)] la assms(4,6) by simp
  have "cbc_enc_pad iv ivec len out ?m1 = mem_write (out + len) (drop len ?k) ?m1"
    using cbc_enc_pad_eq [OF ok, of len] assms(4,6) la kb by simp
  also have "\<dots> = mem_write out (?a @ drop len ?k) mem"
    using mem_write_append [of out ?a "drop len ?k" mem] la k assms(4,6) by simp
  also have "?a @ drop len ?k = ?d" using xor_padded [of ?xs ?k] lx k assms(6) by simp
  finally have "call_block block out out (cbc_enc_pad iv ivec len out ?m1) = mem_write out (block ?d) mem"
    using call_block_written [OF ld assms(4,1)] by simp
  then have "cbc_enc_tail block iv ivec inp out len mem = (Mem out, mem_write out (block ?d) mem)"
    using assms(5,6) by (simp add: cbc_enc_tail.simps [of block iv ivec inp out len mem] bytes Let_def)
  moreover have "?xs \<noteq> []" using lx assms(5) by auto
  then have "cbc_enc block ?k ?xs = (block ?d, block ?d)" using lx assms(6) by (simp add: cbc_enc.simps [of block ?k ?xs] Let_def)
  ultimately show ?thesis using ld assms(1) by (intro exI [of _ "block ?d"]) simp
qed

lemma cbc_encrypt_eq:
  assumes "block_ok block" and "length ivec = 16" and "regions inp out len mem" and "out + whole len \<le> length mem"
  shows "CRYPTO_cbc128_encrypt block inp out len ivec mem =
    (case cbc_enc block ivec (mem_read inp len mem) of (cs, iv) \<Rightarrow> (mem_write out cs mem, iv))"
proof (cases "len = 0")
  case False
  obtain iv' inp' out' len' mem' where b: "cbc_enc_blocks block Ivec ivec inp out len mem = (iv', inp', out', len', mem')"
    by (metis prod_cases5)
  have ok: "iv_ok Ivec ivec out mem" using assms(2) by (simp add: iv_ok_def)
  obtain cs where cs: "length cs + len' = len" "whole (length cs) = length cs" "len' < 16" "inp' = inp + length cs"
      "out' = out + length cs" "mem' = mem_write out cs mem" "iv_ok iv' ivec out' mem'"
      "cbc_enc block ivec (mem_read inp len mem) =
        (case cbc_enc block (iv_block iv' ivec mem') (mem_read inp' len' mem') of (ds, k) \<Rightarrow> (cs @ ds, k))"
    using cbc_enc_blocks_eq [OF b assms(1) ok assms(3)] by (auto simp: iv_block_def)
  have lm: "length mem' = length mem" using cs(1,6) assms(3) by (simp add: regions_def)
  show ?thesis
  proof (cases "len' = 0")
    case True
    then show ?thesis using \<open>len \<noteq> 0\<close> b cs by (simp add: CRYPTO_cbc128_encrypt_def cbc_enc_tail.simps)
  next
    case part: False
    have "len - length cs = len'" "length cs \<le> len" using cs(1) by simp_all
    then have r: "regions inp' out' len' mem'" using regions_suffix [OF assms(3) _ lm, of "length cs"] cs(4,5) by simp
    have "whole len = length cs + 16"
    proof -
      obtain q where q: "length cs = 16 * q" using cs(2) by (metis whole_def)
      have "(16 * q + len' + 15) div 16 = q + 1" using cs(3) part by (intro div_nat_eqI) simp_all
      then show ?thesis using q cs(1) by (simp add: whole_def)
    qed
    then have o: "out' + 16 \<le> length mem'" using assms(4) cs(5) lm by simp
    obtain c where c: "length c = 16" "cbc_enc_tail block iv' ivec inp' out' len' mem' = (Mem out', mem_write out' c mem')"
        "cbc_enc block (iv_block iv' ivec mem') (mem_read inp' len' mem') = (c, c)"
      using cbc_enc_tail_eq [OF assms(1) cs(7) r o _ cs(3)] part by auto
    have "mem_write out' c mem' = mem_write out (cs @ c) mem"
      using mem_write_append [of out cs c mem] cs(5,6) c(1) o lm by simp
    moreover have "iv_block (Mem out') ivec (mem_write out' c mem') = c"
      using mem_read_write_same [of out' c mem'] c(1) o by (simp add: iv_block_def)
    ultimately show ?thesis using False b c(2,3) cs(8) by (simp add: CRYPTO_cbc128_encrypt_def)
  qed
qed (simp add: CRYPTO_cbc128_encrypt_def)

section \<open>The whole of decryption\<close>

text \<open>
  Decryption reads whole blocks. The output may start at the input, behind it, or
  past its last block.
\<close>

definition dec_regions :: "nat \<Rightarrow> nat \<Rightarrow> nat \<Rightarrow> u8 list \<Rightarrow> bool" where
  "dec_regions inp out len mem \<longleftrightarrow> inp + whole len \<le> length mem \<and> out + len \<le> length mem \<and> (out \<le> inp \<or> inp + whole len \<le> out)"

lemma dec_regions_16: "dec_regions inp out len mem \<Longrightarrow> 16 \<le> len \<Longrightarrow> regions inp out 16 mem"
  using whole_bounds(1) [of len] by (auto simp: dec_regions_def regions_def)

lemma dec_regions_step:
  assumes "dec_regions inp out len mem" and "16 \<le> len" and "length p = 16"
  shows "dec_regions (inp + 16) (out + 16) (len - 16) (mem_write out p mem)"
    and "mem_read (inp + 16) (whole (len - 16)) (mem_write out p mem) = mem_read (inp + 16) (whole (len - 16)) mem"
proof -
  have w: "whole len = 16 + whole (len - 16)" using whole_step [of len] assms(2) by simp
  show "dec_regions (inp + 16) (out + 16) (len - 16) (mem_write out p mem)" using assms w by (auto simp: dec_regions_def)
  show "mem_read (inp + 16) (whole (len - 16)) (mem_write out p mem) = mem_read (inp + 16) (whole (len - 16)) mem"
    using assms w by (intro mem_read_write_other) (auto simp: dec_regions_def)
qed

text \<open>What the loops over blocks have done when they end, \<open>k\<close> being the chaining value.\<close>

definition cbc_progress :: "block_cipher \<Rightarrow> u8 list \<Rightarrow> nat \<Rightarrow> nat \<Rightarrow> nat \<Rightarrow> u8 list \<Rightarrow> u8 list \<Rightarrow> nat \<Rightarrow> nat \<Rightarrow> nat \<Rightarrow> u8 list \<Rightarrow> bool" where
  "cbc_progress dec k inp out len mem k' inp' out' len' mem' \<longleftrightarrow>
     (\<exists>ps. length ps + len' = len \<and> whole len = length ps + whole len' \<and> len' < 16 \<and> inp' = inp + length ps \<and> out' = out + length ps \<and>
       mem' = mem_write out ps mem \<and> length k' = 16 \<and> dec_regions inp' out' len' mem' \<and>
       cbc_dec dec k (mem_read inp (whole len) mem) =
         (case cbc_dec dec k' (mem_read inp' (whole len') mem') of (ds, iv) \<Rightarrow> (ps @ ds, iv)))"

lemma cbc_progress_stop:
  "len < 16 \<Longrightarrow> length k = 16 \<Longrightarrow> dec_regions inp out len mem \<Longrightarrow> cbc_progress dec k inp out len mem k inp out len mem"
  unfolding cbc_progress_def by (intro exI [of _ "[]"]) (simp split: prod.split)

lemma cbc_progress_step:
  assumes "16 \<le> len" and r: "dec_regions inp out len mem" and "block_ok dec" and "length k = 16"
    and p: "p = xor_bytes (dec (mem_read inp 16 mem)) k"
    and g: "cbc_progress dec (mem_read inp 16 mem) (inp + 16) (out + 16) (len - 16) (mem_write out p mem) k' inp' out' len' mem'"
  shows "cbc_progress dec k inp out len mem k' inp' out' len' mem'"
proof -
  let ?x = "mem_read inp 16 mem"
  have lx: "length ?x = 16" using dec_regions_16 [OF r assms(1)] by (simp add: regions_def)
  have lp: "length p = 16" using p lx assms(3,4) by simp
  have w: "whole len = 16 + whole (len - 16)" using whole_step [of len] assms(1) by simp
  obtain ps where ps: "length ps + len' = len - 16" "whole (len - 16) = length ps + whole len'" "len' < 16" "inp' = inp + 16 + length ps"
      "out' = out + 16 + length ps" "mem' = mem_write (out + 16) ps (mem_write out p mem)" "length k' = 16" "dec_regions inp' out' len' mem'"
      "cbc_dec dec ?x (mem_read (inp + 16) (whole (len - 16)) mem) =
        (case cbc_dec dec k' (mem_read inp' (whole len') mem') of (ds, iv) \<Rightarrow> (ps @ ds, iv))"
    using g unfolding cbc_progress_def dec_regions_step(2) [OF r assms(1) lp] by auto
  have "out + 16 + length ps \<le> length mem" using ps(1) r assms(1) unfolding dec_regions_def by linarith
  then have m: "mem' = mem_write out (p @ ps) mem" using mem_write_append [of out p ps mem] ps(6) lp by simp
  have rd: "mem_read inp (whole len) mem = ?x @ mem_read (inp + 16) (whole (len - 16)) mem" unfolding w by (rule mem_read_append)
  have "?x \<noteq> []" using lx by auto
  then have e: "cbc_dec dec k (mem_read inp (whole len) mem) =
      (case cbc_dec dec ?x (mem_read (inp + 16) (whole (len - 16)) mem) of (ps, iv) \<Rightarrow> (p @ ps, iv))"
    unfolding rd using lx p by (simp add: cbc_dec.simps [of dec k "?x @ _"])
  have "cbc_dec dec k (mem_read inp (whole len) mem) =
      (case cbc_dec dec k' (mem_read inp' (whole len') mem') of (ds, iv) \<Rightarrow> ((p @ ps) @ ds, iv))"
    unfolding e ps(9) by (simp split: prod.split)
  then show ?thesis unfolding cbc_progress_def
    using ps(1-5,7,8) m lp assms(1) w by (intro exI [of _ "p @ ps"]) simp
qed

lemma cbc_dec_close_progress:
  "cbc_dec_close dec ivec inp out len mem = (ivec', inp', out', len', mem') \<Longrightarrow> block_ok dec \<Longrightarrow> length ivec = 16 \<Longrightarrow>
     dec_regions inp out len mem \<Longrightarrow> cbc_progress dec ivec inp out len mem ivec' inp' out' len' mem'"
proof (induction dec ivec inp out len mem rule: cbc_dec_close.induct)
  case (1 dec ivec inp out len mem)
  show ?case
  proof (cases "16 \<le> len")
    case False
    then show ?thesis using 1(2,4,5) by (auto simp: cbc_dec_close.simps intro: cbc_progress_stop)
  next
    case True
    let ?x = "mem_read inp 16 mem" let ?p = "xor_bytes (dec ?x) ivec"
    have r: "regions inp out 16 mem" using dec_regions_16 [OF 1(5) True] .
    have lx: "length ?x = 16" "length (dec ?x) = 16" using r 1(3) by (simp_all add: regions_def)
    have w: "cbc_dec_words (dec ?x) ivec 0 inp out mem = (?x, mem_write out ?p mem)"
      using cbc_dec_words_eq [OF r lx(2) 1(4)] .
    have "cbc_dec_close dec ?x (inp + 16) (out + 16) (len - 16) (mem_write out ?p mem) = (ivec', inp', out', len', mem')"
      using 1(2) True w by (simp add: cbc_dec_close.simps [of dec ivec inp out len mem])
    then have "cbc_progress dec ?x (inp + 16) (out + 16) (len - 16) (mem_write out ?p mem) ivec' inp' out' len' mem'"
      using 1(1) [OF True w [symmetric] _ 1(3) lx(1)] dec_regions_step(1) [OF 1(5) True, of ?p] lx 1(4) by simp
    then show ?thesis by (rule cbc_progress_step [OF True 1(5,3,4) refl])
  qed
qed

text \<open>The condition under which the code decrypts straight into the output.\<close>

lemma cbc_dec_apart_progress:
  "cbc_dec_apart dec iv ivec inp out len mem = (iv', inp', out', len', mem') \<Longrightarrow> block_ok dec \<Longrightarrow> iv_ok iv ivec out mem \<Longrightarrow>
     dec_regions inp out len mem \<Longrightarrow> out + 32 \<le> inp \<or> inp < out \<Longrightarrow>
     cbc_progress dec (iv_block iv ivec mem) inp out len mem (iv_block iv' ivec mem') inp' out' len' mem'"
proof (induction dec iv ivec inp out len mem rule: cbc_dec_apart.induct)
  case (1 dec iv ivec inp out len mem)
  show ?case
  proof (cases "16 \<le> len")
    case False
    then show ?thesis using 1(2,4,5) length_iv_block [OF 1(4)] by (auto simp: cbc_dec_apart.simps intro: cbc_progress_stop)
  next
    case True
    let ?x = "mem_read inp 16 mem" let ?k = "iv_block iv ivec mem" let ?p = "xor_bytes (dec ?x) ?k"
    let ?m1 = "mem_write out (dec ?x) mem"
    have w: "16 \<le> whole len" using whole_bounds(1) [of len] True by linarith
    have r: "inp + 16 \<le> length mem" "out + 16 \<le> length mem" "out + 32 \<le> inp \<or> inp + 16 \<le> out"
      using 1(5,6) True w by (auto simp: dec_regions_def)
    have lx: "length ?x = 16" "length (dec ?x) = 16" "length ?k = 16" using r 1(3) length_iv_block [OF 1(4)] by simp_all
    have lp: "length ?p = 16" using lx by simp
    have ok1: "iv_ok iv ivec out ?m1" using iv_ok_write [OF 1(4)] lx r by simp
    have k1: "iv_block iv ivec ?m1 = ?k" using iv_block_write [OF 1(4)] lx r by simp
    have "mem_read out 16 ?m1 = dec ?x" using mem_read_write_same [of out "dec ?x" mem] lx r by simp
    moreover have "regions out out 16 ?m1" using r lx by (simp add: regions_def)
    ultimately have "cbc_words iv ivec 0 out out ?m1 = mem_write out ?p ?m1" using cbc_words_eq [OF _ ok1, of out] k1 by simp
    then have step: "cbc_words iv ivec 0 out out (call_block dec inp out mem) = mem_write out ?p mem"
      using mem_write_twice [of ?p "dec ?x" out mem] lx lp r by (simp add: call_block_def)
    have ok: "iv_ok (Mem inp) ivec (out + 16) (mem_write out ?p mem)" using 1(4) r lp by (auto simp: iv_ok_def)
    have kx: "iv_block (Mem inp) ivec (mem_write out ?p mem) = ?x"
      using mem_read_write_other [of inp 16 out ?p mem] r lp by (auto simp: iv_block_def)
    have "cbc_dec_apart dec (Mem inp) ivec (inp + 16) (out + 16) (len - 16) (mem_write out ?p mem) = (iv', inp', out', len', mem')"
      using 1(2) True step by (simp add: cbc_dec_apart.simps [of dec iv ivec inp out len mem])
    then have "cbc_progress dec ?x (inp + 16) (out + 16) (len - 16) (mem_write out ?p mem) (iv_block iv' ivec mem') inp' out' len' mem'"
      using 1(1) [OF True, unfolded step, OF _ 1(3) ok dec_regions_step(1) [OF 1(5) True lp]] 1(6) kx by auto
    then show ?thesis by (rule cbc_progress_step [OF True 1(5,3) lx(3) refl])
  qed
qed

lemma cbc_dec_bytes_eq:
  "regions (inp + n) (out + n) (len - n) mem \<Longrightarrow> n \<le> len \<Longrightarrow> len \<le> 16 \<Longrightarrow> length ivec = 16 \<Longrightarrow> length tmp = 16 \<Longrightarrow>
     cbc_dec_bytes tmp ivec n inp out len mem =
       (len, mem_write n (mem_read (inp + n) (len - n) mem) ivec,
        mem_write (out + n) (xor_bytes (mem_read n (len - n) tmp) (mem_read n (len - n) ivec)) mem)"
proof (induction tmp ivec n inp out len mem rule: cbc_dec_bytes.induct)
  case (1 tmp ivec n inp out len mem)
  show ?case
  proof (cases "n < len")
    case False
    then show ?thesis using 1(3) by (simp add: cbc_dec_bytes.simps)
  next
    case True
    let ?c = "mem ! (inp + n)" let ?x = "tmp ! n XOR ivec ! n" let ?mem = "mem[out + n := ?x]" let ?iv = "ivec[n := ?c]"
    obtain l where l: "len - n = Suc l" "len - Suc n = l" using True by (metis Suc_diff_Suc)
    have r: "inp + n < length mem" "out + n < length mem" "n < 16" using 1(2,4) True by (auto simp: regions_def)
    have r1: "regions (inp + (n + 1)) (out + (n + 1)) (len - (n + 1)) ?mem"
      using regions_suffix [OF 1(2), of 1 ?mem] True by (simp add: add.assoc)
    have rest: "mem_read (Suc (inp + n)) l ?mem = mem_read (Suc (inp + n)) l mem"
      using rest_unchanged [OF 1(2), of "[?x]"] r True l by (simp add: mem_write_single)
    have rc: "length (mem_read (Suc (inp + n)) l mem) = l" using 1(2) l by (auto simp: regions_def)
    have ld: "length (xor_bytes (mem_read (Suc n) l tmp) (mem_read (Suc n) l ivec)) = l" using 1(4-6) l True by simp
    have wi: "mem_write (Suc n) (mem_read (Suc (inp + n)) l mem) ?iv = mem_write n (?c # mem_read (Suc (inp + n)) l mem) ivec"
      using rc l 1(4,5) True by (intro mem_write_Cons) simp
    have wm: "mem_write (Suc (out + n)) (xor_bytes (mem_read (Suc n) l tmp) (mem_read (Suc n) l ivec)) ?mem =
        mem_write (out + n) (?x # xor_bytes (mem_read (Suc n) l tmp) (mem_read (Suc n) l ivec)) mem"
      using ld 1(2) l by (intro mem_write_Cons) (simp add: regions_def)
    have "cbc_dec_bytes tmp ivec n inp out len mem = cbc_dec_bytes tmp ?iv (n + 1) inp out len ?mem"
      using True r(3) by (simp add: cbc_dec_bytes.simps [of tmp ivec n inp out len mem] Let_def)
    also have "\<dots> = (len, mem_write (Suc n) (mem_read (Suc (inp + n)) l mem) ?iv,
        mem_write (Suc (out + n)) (xor_bytes (mem_read (Suc n) l tmp) (mem_read (Suc n) l ivec)) ?mem)"
      using 1(1) [OF conjI [OF r(3) True] refl refl refl] r1 True 1(4-6) rest l by simp
    finally show ?thesis using wi wm r 1(5,6) l by (simp add: mem_read_Suc)
  qed
qed

lemma cbc_fill_iv_eq:
  "n \<le> 16 \<Longrightarrow> length ivec = 16 \<Longrightarrow> inp + 16 \<le> length mem \<Longrightarrow>
     cbc_fill_iv ivec n inp mem = mem_write n (mem_read (inp + n) (16 - n) mem) ivec"
proof (induction ivec n inp mem rule: cbc_fill_iv.induct)
  case (1 ivec n inp mem)
  show ?case
  proof (cases "n < 16")
    case False
    then show ?thesis using 1(2) by (simp add: cbc_fill_iv.simps)
  next
    case True
    obtain l where l: "16 - n = Suc l" "16 - Suc n = l" using True by (metis Suc_diff_Suc)
    let ?c = "mem ! (inp + n)" let ?d = "mem_read (Suc (inp + n)) l mem"
    have ld: "length ?d = l" using 1(4) l by simp
    have "cbc_fill_iv ivec n inp mem = cbc_fill_iv (ivec[n := ?c]) (n + 1) inp mem"
      using True by (simp add: cbc_fill_iv.simps [of ivec n inp mem])
    also have "\<dots> = mem_write (Suc n) ?d (ivec[n := ?c])" using 1(1) [OF True] True 1(3,4) l by simp
    also have "\<dots> = mem_write n (?c # ?d) ivec" using ld l 1(3) by (intro mem_write_Cons) simp
    finally show ?thesis using l True 1(4) by (simp add: mem_read_Suc)
  qed
qed

lemma cbc_dec_tail_eq:
  assumes "dec_regions inp out len mem" and "block_ok dec" and "length ivec = 16" and "0 < len" and "len < 16"
  shows "cbc_dec_tail dec ivec inp out len mem =
    (case cbc_dec dec ivec (mem_read inp (whole len) mem) of (ps, iv) \<Rightarrow> (iv, mem_write out (take len ps) mem))"
proof -
  let ?x = "mem_read inp 16 mem" let ?t = "dec ?x" let ?p = "xor_bytes ?t ivec"
  have w: "whole len = 16" using whole_step [OF assms(4)] assms(5) by simp
  have b: "inp + 16 \<le> length mem" "out + len \<le> length mem" "out \<le> inp \<or> inp + 16 \<le> out"
    using assms(1) w by (simp_all add: dec_regions_def)
  have lx: "length ?x = 16" "length ?t = 16" using b(1) assms(2) by simp_all
  have r: "regions inp out len mem" using b assms(5) by (auto simp: regions_def)
  let ?d = "xor_bytes (mem_read 0 len ?t) (mem_read 0 len ivec)" let ?m = "mem_write out ?d mem"
  have ld: "length ?d = len" using lx assms(3,5) by simp
  have d: "?d = take len ?p" using lx assms(3,5) by (intro nth_equalityI) (auto simp: nth_xor_bytes nth_mem_read)
  have bytes: "cbc_dec_bytes ?t ivec 0 inp out len mem = (len, mem_write 0 (mem_read inp len mem) ivec, ?m)"
    using cbc_dec_bytes_eq [of inp 0 out len mem ivec ?t] r assms(3,5) lx by simp
  have rest: "mem_read (inp + len) (16 - len) ?m = mem_read (inp + len) (16 - len) mem"
    using b ld assms(5) by (intro mem_read_write_other) auto
  have "cbc_fill_iv (mem_write 0 (mem_read inp len mem) ivec) len inp ?m =
      mem_write len (mem_read (inp + len) (16 - len) mem) (mem_write 0 (mem_read inp len mem) ivec)"
    using cbc_fill_iv_eq [of len "mem_write 0 (mem_read inp len mem) ivec" inp ?m] assms(3,5) b ld rest by simp
  also have "\<dots> = mem_write 0 (mem_read inp len mem @ mem_read (inp + len) (16 - len) mem) ivec"
    using mem_write_append [of 0 "mem_read inp len mem" "mem_read (inp + len) (16 - len) mem" ivec] b assms(3,5) by simp
  also have "mem_read inp len mem @ mem_read (inp + len) (16 - len) mem = ?x"
    using mem_read_append [of inp len "16 - len" mem] assms(5) by simp
  finally have iv: "cbc_fill_iv (mem_write 0 (mem_read inp len mem) ivec) len inp ?m = ?x"
    using lx assms(3) by (simp add: mem_write_def)
  have "?x \<noteq> []" using lx by auto
  then have "cbc_dec dec ivec (mem_read inp (whole len) mem) = (?p, ?x)" using lx w by (simp add: cbc_dec.simps [of dec ivec ?x])
  then show ?thesis using assms(4,5) bytes iv d by (simp add: cbc_dec_tail.simps [of dec ivec inp out len mem])
qed

lemma length_cbc_dec: "block_ok dec \<Longrightarrow> length iv = 16 \<Longrightarrow> length xs = whole m \<Longrightarrow> length (fst (cbc_dec dec iv xs)) = whole m"
proof (induction dec iv xs arbitrary: m rule: cbc_dec.induct)
  case (1 dec iv xs)
  show ?case
  proof (cases "xs = []")
    case False
    then have m: "whole m = 16 + whole (m - 16)" using 1(4) by (intro whole_step) (cases "m = 0", auto)
    then have "length (fst (cbc_dec dec (take 16 xs) (drop 16 xs))) = whole (m - 16)"
      using 1(1) [OF False 1(2), of "m - 16"] 1(4) by simp
    then show ?thesis using m False 1(2-4)
      by (cases "cbc_dec dec (take 16 xs) (drop 16 xs)") (simp add: cbc_dec.simps [of dec iv xs])
  qed (use 1(4) in simp)
qed

lemma cbc_decrypt_eq:
  assumes "block_ok dec" and "length ivec = 16" and "dec_regions inp out len mem"
  shows "CRYPTO_cbc128_decrypt dec inp out len ivec mem =
    (case cbc_dec dec ivec (mem_read inp (whole len) mem) of (ps, iv) \<Rightarrow> (mem_write out (take len ps) mem, iv))"
proof (cases "len = 0")
  case False
  obtain ivec' inp' out' len' mem' where b: "(if inp \<ge> 32 \<and> out \<le> inp - 32 \<or> inp < out
       then (case cbc_dec_apart dec Ivec ivec inp out len mem of (iv, inp, out, len, mem) \<Rightarrow> (iv_block iv ivec mem, inp, out, len, mem))
       else cbc_dec_close dec ivec inp out len mem) = (ivec', inp', out', len', mem')"
    by (rule prod_cases5)
  have "cbc_progress dec ivec inp out len mem ivec' inp' out' len' mem'"
  proof (cases "inp \<ge> 32 \<and> out \<le> inp - 32 \<or> inp < out")
    case True
    then obtain iv where iv: "cbc_dec_apart dec Ivec ivec inp out len mem = (iv, inp', out', len', mem')" "ivec' = iv_block iv ivec mem'"
      using b by (auto split: prod.splits)
    have "iv_ok Ivec ivec out mem" using assms(2) by (simp add: iv_ok_def)
    moreover have "out + 32 \<le> inp \<or> inp < out" using True by linarith
    ultimately show ?thesis using cbc_dec_apart_progress [OF iv(1) assms(1) _ assms(3)] iv(2) by (simp add: iv_block_def)
  next
    case False
    then show ?thesis using b cbc_dec_close_progress [OF _ assms] by auto
  qed
  then obtain ps where ps: "length ps + len' = len" "len' < 16" "out' = out + length ps" "mem' = mem_write out ps mem" "length ivec' = 16"
      "dec_regions inp' out' len' mem'" "cbc_dec dec ivec (mem_read inp (whole len) mem) =
        (case cbc_dec dec ivec' (mem_read inp' (whole len') mem') of (ds, iv) \<Rightarrow> (ps @ ds, iv))"
    unfolding cbc_progress_def by auto
  have lm: "length mem' = length mem" using ps(1,4) assms(3) by (simp add: dec_regions_def)
  obtain ds iv where ds: "cbc_dec dec ivec' (mem_read inp' (whole len') mem') = (ds, iv)" by fastforce
  have t: "cbc_dec_tail dec ivec' inp' out' len' mem' = (iv, mem_write out' (take len' ds) mem')"
  proof (cases "len' = 0")
    case True
    then show ?thesis using ds by (simp add: cbc_dec_tail.simps)
  next
    case False
    then show ?thesis using cbc_dec_tail_eq [OF ps(6) assms(1) ps(5) _ ps(2)] ds by simp
  qed
  have "length (mem_read inp' (whole len') mem') = whole len'" using ps(6) by (simp add: dec_regions_def)
  then have "length ds = whole len'" using length_cbc_dec [OF assms(1) ps(5), of _ len'] ds by (metis fst_conv)
  then have "length (take len' ds) = len'" using whole_bounds(1) [of len'] by simp
  then have "mem_write out' (take len' ds) mem' = mem_write out (ps @ take len' ds) mem"
    using mem_write_append [of out ps "take len' ds" mem] ps(1,3,4) assms(3) by (simp add: dec_regions_def)
  moreover have "take len (ps @ ds) = ps @ take len' ds" unfolding ps(1) [symmetric] by simp
  moreover have "CRYPTO_cbc128_decrypt dec inp out len ivec mem = (mem_write out' (take len' ds) mem', iv)"
    unfolding CRYPTO_cbc128_decrypt_def b using False t by simp
  ultimately show ?thesis using ps(7) ds by simp
qed (simp add: CRYPTO_cbc128_decrypt_def)

section \<open>Properties\<close>



end
