(* ===== verification/Md32.thy ===== *)
theory Md32
  imports Byte_Memory
begin

text \<open>
  \<^verbatim>\<open>crypto/fipsmodule/digest/md32_common.h\<close>: the collector that MD4, MD5, SHA-1 and SHA-256 share. It cuts
  a message that arrives in pieces into blocks for a block function, counts its bits and pads it.
  The block function is the interface: a hash that provides one with the law of the locale below
  computes the chain of its compression function over the padded message, however the message is cut.
\<close>

section \<open>Rotations\<close>

definition CRYPTO_rotl_u32 :: "u32 \<Rightarrow> nat \<Rightarrow> u32" where
  "CRYPTO_rotl_u32 value shift = push_bit shift value OR drop_bit ((32 - shift) mod 32) value"

definition CRYPTO_rotr_u32 :: "u32 \<Rightarrow> nat \<Rightarrow> u32" where
  "CRYPTO_rotr_u32 value shift = drop_bit shift value OR push_bit ((32 - shift) mod 32) value"

definition CRYPTO_rotr_u64 :: "u64 \<Rightarrow> nat \<Rightarrow> u64" where
  "CRYPTO_rotr_u64 value shift = drop_bit shift value OR push_bit ((64 - shift) mod 64) value"

lemma rotr_bits:
  assumes "0 < s" and "s < LENGTH('a)"
  shows "drop_bit s w OR push_bit (LENGTH('a) - s) w = word_rotr s (w :: 'a::len word)"
proof (intro bit_word_eqI)
  fix n assume n: "n < LENGTH('a)"
  show "bit (drop_bit s w OR push_bit (LENGTH('a) - s) w) n = bit (word_rotr s w) n"
  proof (cases "s + n < LENGTH('a)")
    case True
    then have "\<not> LENGTH('a) - s \<le> n" by linarith
    then show ?thesis using True assms n
      by (simp add: bit_or_iff bit_drop_bit_eq bit_push_bit_iff bit_word_rotr_iff add.commute)
  next
    case False
    then have "(s + n) mod LENGTH('a) = s + n - LENGTH('a)" using assms n by (simp add: le_mod_geq)
    moreover have "LENGTH('a) - s \<le> n" using False by linarith
    moreover have "\<not> bit w (s + n)" using False bit_imp_le_length by fastforce
    ultimately show ?thesis using assms n False
      by (simp add: bit_or_iff bit_drop_bit_eq bit_push_bit_iff bit_word_rotr_iff add.commute)
  qed
qed

lemma CRYPTO_rotr_u32_eq: "0 < s \<Longrightarrow> s < 32 \<Longrightarrow> CRYPTO_rotr_u32 w s = word_rotr s w"
  using rotr_bits [of s w] by (simp add: CRYPTO_rotr_u32_def)

lemma CRYPTO_rotr_u64_eq: "0 < s \<Longrightarrow> s < 64 \<Longrightarrow> CRYPTO_rotr_u64 w s = word_rotr s w"
  using rotr_bits [of s w] by (simp add: CRYPTO_rotr_u64_def)

lemma CRYPTO_rotl_u32_eq: "0 < s \<Longrightarrow> s < 32 \<Longrightarrow> CRYPTO_rotl_u32 w s = word_rotl s w"
  using rotr_bits [of "32 - s" w] by (simp add: CRYPTO_rotl_u32_def word_rotl_eq_word_rotr or.commute)

section \<open>The collector\<close>

record md32_ctx =
  md_h :: "u32 list"
  md_Nl :: u32
  md_Nh :: u32
  md_data :: "u8 list"
  md_num :: nat

text \<open>The state, the data from the start of the blocks, and the number of blocks.\<close>

type_synonym 's block_func = "'s \<Rightarrow> u8 list \<Rightarrow> nat \<Rightarrow> 's"

text \<open>The blocks in the input, then the bytes left over.\<close>

definition md32_absorb :: "u32 list block_func \<Rightarrow> nat \<Rightarrow> u8 list \<Rightarrow> 'a md32_ctx_scheme \<Rightarrow> 'a md32_ctx_scheme" where
  "md32_absorb block_func block_size inp c =
     (let n = length inp div block_size;
          c = (if n > 0 then c\<lparr>md_h := block_func (md_h c) inp n\<rparr> else c);
          inp = drop (n * block_size) inp
      in if length inp \<noteq> 0
         then c\<lparr>md_num := length inp, md_data := mem_write 0 inp (md_data c)\<rparr>
         else c)"

definition crypto_md32_update :: "u32 list block_func \<Rightarrow> nat \<Rightarrow> u8 list \<Rightarrow> 'a md32_ctx_scheme \<Rightarrow> 'a md32_ctx_scheme" where
  "crypto_md32_update block_func block_size inp c =
     (let len = length inp in
      if len = 0 then c
      else
        let l = md_Nl c + push_bit 3 (of_nat len);
            c = (if l < md_Nl c then c\<lparr>md_Nh := md_Nh c + 1\<rparr> else c);
            c = c\<lparr>md_Nh := md_Nh c + of_nat (drop_bit 29 len)\<rparr>;
            c = c\<lparr>md_Nl := l\<rparr>;
            n = md_num c
        in if n \<noteq> 0
           then if len \<ge> block_size \<or> len + n \<ge> block_size
                then let data = mem_write n (take (block_size - n) inp) (md_data c);
                         c = c\<lparr>md_h := block_func (md_h c) data 1, md_num := 0, md_data := replicate block_size 0\<rparr>
                     in md32_absorb block_func block_size (drop (block_size - n) inp) c
                else c\<lparr>md_data := mem_write n inp (md_data c), md_num := md_num c + len\<rparr>
           else md32_absorb block_func block_size inp c)"

definition crypto_md32_final :: "u32 list block_func \<Rightarrow> nat \<Rightarrow> bool \<Rightarrow> 'a md32_ctx_scheme \<Rightarrow> 'a md32_ctx_scheme" where
  "crypto_md32_final block_func block_size is_big_endian c =
     (let n = md_num c;
          data = (md_data c)[n := 0x80];
          n = n + 1;
          (n, data, h) =
            (if n > block_size - 8
             then let data = mem_write n (replicate (block_size - n) 0) data in (0, data, block_func (md_h c) data 1)
             else (n, data, md_h c));
          data = mem_write n (replicate (block_size - 8 - n) 0) data;
          data =
            (if is_big_endian
             then CRYPTO_store_u32_be (block_size - 4) (md_Nl c) (CRYPTO_store_u32_be (block_size - 8) (md_Nh c) data)
             else CRYPTO_store_u32_le (block_size - 4) (md_Nh c) (CRYPTO_store_u32_le (block_size - 8) (md_Nl c) data))
      in c\<lparr>md_h := block_func h data 1, md_num := 0, md_data := replicate block_size 0\<rparr>)"

section \<open>Chains over padded messages\<close>

function chain :: "('s \<Rightarrow> u8 list \<Rightarrow> 's) \<Rightarrow> nat \<Rightarrow> 's \<Rightarrow> u8 list \<Rightarrow> 's" where
  "chain compress bs h xs =
     (if bs = 0 \<or> length xs < bs then h else chain compress bs (compress h (take bs xs)) (drop bs xs))"
  by pat_completeness auto
termination
  by (relation "measure (\<lambda>(compress, bs, h, xs). length xs)") auto

declare chain.simps [simp del]

definition count_octets :: "bool \<Rightarrow> nat \<Rightarrow> nat \<Rightarrow> u8 list" where
  "count_octets is_big_endian k bits = (if is_big_endian then be_bytes k bits else rev (be_bytes k bits))"

text \<open>A one bit, zeros, and the number of bits in \<open>k\<close> bytes, up to a multiple of the block size.\<close>

definition padded :: "nat \<Rightarrow> nat \<Rightarrow> bool \<Rightarrow> u8 list \<Rightarrow> u8 list" where
  "padded bs k is_big_endian msg =
     msg @ 0x80 # replicate ((bs - (length msg + 1 + k) mod bs) mod bs) 0 @ count_octets is_big_endian k (8 * length msg)"

lemma chain_short [simp]: "length xs < bs \<Longrightarrow> chain compress bs h xs = h"
  by (simp add: chain.simps)

lemma chain_append:
  assumes "0 < bs"
  shows "length xs = q * bs \<Longrightarrow> chain compress bs h (xs @ ys) = chain compress bs (chain compress bs h xs) ys"
proof (induction q arbitrary: h xs)
  case (Suc q)
  then have l: "bs \<le> length xs" by simp
  have "chain compress bs h (xs @ ys) = chain compress bs (compress h (take bs xs)) (drop bs xs @ ys)"
    using l assms by (simp add: chain.simps [of compress bs h "xs @ ys"])
  also have "\<dots> = chain compress bs (chain compress bs (compress h (take bs xs)) (drop bs xs)) ys"
    using Suc.IH [of "drop bs xs"] Suc.prems by simp
  also have "chain compress bs (compress h (take bs xs)) (drop bs xs) = chain compress bs h xs"
    using l assms by (simp add: chain.simps [of compress bs h xs])
  finally show ?case .
qed (use assms in simp)

lemma chain_one: "length xs = bs \<Longrightarrow> 0 < bs \<Longrightarrow> chain compress bs h xs = compress h xs"
  by (simp add: chain.simps [of compress bs h xs])

lemma chain_whole_blocks:
  assumes "0 < bs"
  shows "chain compress bs h xs = chain compress bs h (take (bs * (length xs div bs)) xs)"
proof -
  let ?n = "bs * (length xs div bs)"
  have "length (take ?n xs) = (length xs div bs) * bs" by (simp add: mult.commute)
  then have "chain compress bs h (take ?n xs @ drop ?n xs) = chain compress bs (chain compress bs h (take ?n xs)) (drop ?n xs)"
    by (rule chain_append [OF assms])
  moreover have "length (drop ?n xs) < bs" using assms by (simp add: minus_mult_div_eq_mod)
  ultimately show ?thesis by simp
qed

lemma chain_rest:
  assumes "0 < bs"
  shows "chain compress bs (chain compress bs h msg) (drop (bs * (length msg div bs)) msg @ x) = chain compress bs h (msg @ x)"
proof -
  let ?q = "length msg div bs"
  have "chain compress bs (chain compress bs h (take (bs * ?q) msg)) (drop (bs * ?q) msg @ x) =
      chain compress bs h (take (bs * ?q) msg @ drop (bs * ?q) msg @ x)"
    by (rule chain_append [OF assms, symmetric, where q = ?q]) (simp add: mult.commute)
  then show ?thesis by (simp flip: chain_whole_blocks [OF assms] append_assoc)
qed

lemma length_chain:
  assumes "\<And>H M. length (compress H M) = n"
  shows "length H = n \<Longrightarrow> length (chain compress bs H xs) = n"
proof (induction xs arbitrary: H rule: length_induct)
  case (1 xs)
  show ?case
  proof (cases "bs = 0 \<or> length xs < bs")
    case True
    then show ?thesis using 1(2) by (simp add: chain.simps [of compress bs H xs])
  next
    case False
    then have "length (drop bs xs) < length xs" by auto
    then show ?thesis using 1(1) assms False by (simp add: chain.simps [of compress bs H xs])
  qed
qed

text \<open>Where the padding falls: in the block of the bytes left over, or over one more.\<close>

lemma padded_eq:
  assumes "n = length msg mod bs" and k: "k + 1 \<le> bs"
  shows "padded bs k b msg =
    msg @ 0x80 # replicate (if n + (k + 1) > bs then 2 * bs - n - (k + 1) else bs - n - (k + 1)) 0 @ count_octets b k (8 * length msg)"
proof -
  have n: "n < bs" using assms by simp
  have e: "(length msg + 1 + k) mod bs = (n + (k + 1)) mod bs" unfolding assms(1) mod_add_left_eq by (simp add: mod_add_left_eq add.assoc add.commute [of k 1])
  consider "n + (k + 1) < bs" | "n + (k + 1) = bs" | "bs < n + (k + 1)" by linarith
  then have "(bs - (n + (k + 1)) mod bs) mod bs = (if n + (k + 1) > bs then 2 * bs - n - (k + 1) else bs - n - (k + 1))"
  proof cases
    case 3
    then have "(n + (k + 1)) mod bs = n + (k + 1) - bs" using n k by (simp add: le_mod_geq)
    then show ?thesis using 3 n k by simp
  qed simp_all
  then show ?thesis unfolding padded_def e by simp
qed

lemma mem_write_rest: "length r = n \<Longrightarrow> length x = m \<Longrightarrow> mem_write n x (r @ replicate m 0) = r @ x"
  by (simp add: mem_write_def)

lemma mem_write_zeros:
  assumes "length r = n" and "k \<le> m" shows "mem_write n (replicate k z) (r @ replicate m z) = r @ replicate m z"
  using assms by (intro nth_equalityI) (auto simp: nth_mem_write nth_append)

lemma length_count_octets [simp]: "length (count_octets b k n) = k"
  by (simp add: count_octets_def)

section \<open>What a context stands for\<close>

text \<open>
  A context that has taken in \<open>msg\<close>: the chain over its whole blocks, the bytes left over followed by zeros,
  their number, and the number of bits in two words.
\<close>

definition md32_blocks :: "(u32 list \<Rightarrow> u8 list \<Rightarrow> u32 list) \<Rightarrow> nat \<Rightarrow> u32 list \<Rightarrow> u8 list \<Rightarrow> 'a md32_ctx_scheme \<Rightarrow> bool" where
  "md32_blocks compress bs h0 msg c \<longleftrightarrow>
     md_h c = chain compress bs h0 msg \<and> md_num c = length msg mod bs \<and>
     md_data c = drop (bs * (length msg div bs)) msg @ replicate (bs - length msg mod bs) 0"

definition md32_bits :: "u8 list \<Rightarrow> 'a md32_ctx_scheme \<Rightarrow> bool" where
  "md32_bits msg c \<longleftrightarrow> unat (md_Nh c) * 2 ^ 32 + unat (md_Nl c) = 8 * length msg mod 2 ^ 64"

definition md32_holds :: "(u32 list \<Rightarrow> u8 list \<Rightarrow> u32 list) \<Rightarrow> nat \<Rightarrow> u32 list \<Rightarrow> u8 list \<Rightarrow> 'a md32_ctx_scheme \<Rightarrow> bool" where
  "md32_holds compress bs h0 msg c \<longleftrightarrow> md32_blocks compress bs h0 msg c \<and> md32_bits msg c"

text \<open>The two words of a counter count bits modulo the square of their range, with the carry from the lower to the upper.\<close>

lemma count_words:
  fixes Nl Nh :: "'a::len word"
  assumes w: "3 < LENGTH('a)" and nt: "unat Nh * 2 ^ LENGTH('a) + unat Nl = t mod (2 ^ LENGTH('a) * 2 ^ LENGTH('a))"
    and l: "l = Nl + push_bit 3 (of_nat len)" and h: "h = (if l < Nl then Nh + 1 else Nh) + of_nat (drop_bit (LENGTH('a) - 3) len)"
  shows "unat h * 2 ^ LENGTH('a) + unat l = (t + 8 * len) mod (2 ^ LENGTH('a) * 2 ^ LENGTH('a))"
proof -
  define S :: nat where "S = 2 ^ LENGTH('a)"
  define P :: nat where "P = 2 ^ (LENGTH('a) - 3)"
  define a where "a = 8 * (len mod P)"
  define q where "q = len div P"
  have SP: "S = 8 * P"
  proof -
    have "(2 :: nat) ^ (3 + (LENGTH('a) - 3)) = 2 ^ 3 * P" unfolding P_def power_add ..
    then show ?thesis using w by (simp add: S_def)
  qed
  have P0: "0 < P" by (simp add: P_def)
  have "q * P + len mod P = len" unfolding q_def by (rule div_mult_mod_eq)
  then have "8 * (q * P + len mod P) = 8 * len" by (simp only:)
  then have len: "8 * len = q * S + a" unfolding a_def SP by (simp add: distrib_left del: mult_cancel1 mult_cancel_left)
  have aS: "a < S" using P0 by (simp add: a_def SP)
  have "push_bit 3 (of_nat len) = (of_nat (8 * len) :: 'a word)" by (simp add: push_bit_eq_mult)
  then have "unat (push_bit 3 (of_nat len) :: 'a word) = (8 * len) mod S"
    by (simp only: unsigned_of_nat take_bit_eq_mod S_def of_nat_id)
  then have al: "unat (push_bit 3 (of_nat len) :: 'a word) = a" unfolding len using aS by simp
  have d: "drop_bit (LENGTH('a) - 3) len = q" by (simp add: q_def P_def drop_bit_eq_div)
  have nl: "unat Nl < S" using unsigned_less [of Nl] by (simp add: S_def)
  define cy where "cy = (if unat Nl + a < S then 0 else 1 :: nat)"
  have "unat l = (unat Nl + a) mod S" unfolding l by (simp only: unat_word_ariths al S_def)
  then have ul: "unat l + cy * S = unat Nl + a" using aS nl by (auto simp: cy_def le_mod_geq)
  have "l < Nl \<longleftrightarrow> cy = 1" using ul aS nl by (auto simp: word_less_nat_alt cy_def)
  then have "h = Nh + of_nat (cy + q)" unfolding h d by (auto simp: cy_def)
  then have uh: "unat h = (unat Nh + cy + q) mod S"
    by (simp add: unat_word_ariths unsigned_of_nat take_bit_eq_mod mod_simps add.assoc S_def)
  define X where "X = unat Nh + cy + q"
  have ll: "unat l < S" using unsigned_less [of l] by (simp add: S_def)
  have "(t + 8 * len) mod (S * S) = (unat Nh * S + unat Nl + 8 * len) mod (S * S)"
    using nt unfolding S_def by (metis mod_add_left_eq)
  also have "unat Nh * S + unat Nl + 8 * len = S * X + unat l"
    using ul unfolding len X_def by (simp add: algebra_simps)
  also have "(S * X + unat l) mod (S * S) = S * (X mod S) + unat l"
    unfolding mod_mult2_eq using ll by simp
  finally show ?thesis using uh by (simp add: X_def S_def mult.commute)
qed

lemma count_bits:
  fixes Nl Nh :: u32
  assumes "unat Nh * 2 ^ 32 + unat Nl = t mod 2 ^ 64"
    and "l = Nl + push_bit 3 (of_nat len)" and "h = (if l < Nl then Nh + 1 else Nh) + of_nat (drop_bit 29 len)"
  shows "unat h * 2 ^ 32 + unat l = (t + 8 * len) mod 2 ^ 64"
  using count_words [of Nh Nl t l len h] assms by simp

locale md32_hash =
  fixes block_func :: "u32 list block_func" and compress :: "u32 list \<Rightarrow> u8 list \<Rightarrow> u32 list" and bs :: nat
  assumes block_func_chain: "0 < n \<Longrightarrow> n * bs \<le> length d \<Longrightarrow> block_func h d n = chain compress bs h (take (n * bs) d)"
    and bs: "8 < bs"
begin

lemma absorb:
  assumes "md32_blocks compress bs h0 msg c" and "length msg mod bs = 0"
  shows "md32_blocks compress bs h0 (msg @ inp) (md32_absorb block_func bs inp c)"
proof -
  define n where "n = length inp div bs"
  obtain q where q: "length msg = q * bs" using assms(2) by (metis mod_0_imp_dvd dvd_def mult.commute)
  have lm: "(length msg + length inp) mod bs = length inp mod bs" "(length msg + length inp) div bs = q + n"
    using q bs by (simp_all add: n_def)
  have ch: "chain compress bs h0 (msg @ inp) = chain compress bs (md_h c) inp"
    using chain_append [OF _ q] assms(1) bs by (simp add: md32_blocks_def)
  have st: "(if n > 0 then block_func (md_h c) inp n else md_h c) = chain compress bs (md_h c) inp"
  proof (cases "n = 0")
    case True
    then have "length inp < bs" using bs by (simp add: n_def div_eq_0_iff)
    then show ?thesis using True by simp
  next
    case False
    have "n * bs \<le> length inp" by (simp add: n_def)
    then show ?thesis using block_func_chain [of n inp "md_h c"] False chain_whole_blocks [of bs compress "md_h c" inp] bs
      by (simp add: n_def mult.commute)
  qed
  have rest: "drop (bs * (q + n)) (msg @ inp) = drop (n * bs) inp" using q by (simp add: algebra_simps)
  have lr: "length (drop (n * bs) inp) = length inp mod bs" by (simp add: n_def minus_div_mult_eq_mod)
  have z: "md_data c = replicate bs 0" "md_num c = 0" using assms q by (simp_all add: md32_blocks_def mult.commute)
  have w: "mem_write 0 r (replicate bs 0) = r @ replicate (bs - length r) 0" if "length r < bs" for r :: "u8 list"
    using that by (simp add: mem_write_def)
  show ?thesis
  proof (cases "length inp mod bs = 0")
    case True
    then show ?thesis using st ch lm rest lr z by (simp add: md32_absorb_def md32_blocks_def n_def [symmetric] Let_def split: if_splits)
  next
    case False
    have "length inp mod bs < bs" using bs by simp
    then show ?thesis using False st ch lm rest lr z w [of "drop (n * bs) inp"]
      by (simp add: md32_absorb_def md32_blocks_def n_def [symmetric] Let_def split: if_splits)
  qed
qed

lemma absorb_bits [simp]:
  "md_Nh (md32_absorb block_func bs inp c) = md_Nh c" "md_Nl (md32_absorb block_func bs inp c) = md_Nl c"
  by (simp_all add: md32_absorb_def Let_def)

lemma rest_block:
  assumes "md32_blocks compress bs h0 msg c" and x: "length x = bs - length msg mod bs"
  shows "block_func (md_h c) (drop (bs * (length msg div bs)) msg @ x) 1 = chain compress bs h0 (msg @ x)"
proof -
  let ?r = "drop (bs * (length msg div bs)) msg"
  have b: "0 < bs" "length msg mod bs < bs" using bs by simp_all
  have "length ?r = length msg mod bs" by (simp add: minus_mult_div_eq_mod)
  then have "block_func (md_h c) (?r @ x) 1 = chain compress bs (md_h c) (?r @ x)"
    using block_func_chain [of 1 "?r @ x" "md_h c"] x b by simp
  then show ?thesis using assms(1) chain_rest [OF b(1)] by (simp add: md32_blocks_def)
qed

lemma fill_block:
  assumes "md32_blocks compress bs h0 msg c" and x: "length x = bs - length msg mod bs"
  shows "block_func (md_h c) (mem_write (md_num c) x (md_data c)) 1 = chain compress bs h0 (msg @ x)"
proof -
  have "mem_write (md_num c) x (md_data c) = drop (bs * (length msg div bs)) msg @ x"
    using assms mem_write_rest [of "drop (bs * (length msg div bs)) msg" "length msg mod bs" x]
    by (simp add: md32_blocks_def minus_mult_div_eq_mod)
  then show ?thesis using rest_block [OF assms] by simp
qed

lemma blocks_filled:
  assumes "md32_blocks compress bs h0 msg c" and "length msg mod bs \<noteq> 0" and x: "length x = bs - length msg mod bs"
  shows "md32_blocks compress bs h0 (msg @ x)
    (c'\<lparr>md_h := block_func (md_h c) (mem_write (md_num c) x (md_data c)) 1, md_num := 0, md_data := replicate bs 0\<rparr>)"
    and "(length msg + length x) mod bs = 0"
proof -
  have b: "length msg mod bs < bs" using bs by simp
  have "length msg + length x = bs * (length msg div bs) + bs"
    using x b mult_div_mod_eq [of bs "length msg"] by linarith
  then have l: "(length msg + length x) mod bs = 0" "(length msg + length x) div bs = length msg div bs + 1" using bs by simp_all
  then show "(length msg + length x) mod bs = 0" by simp
  have "bs * (length msg div bs + 1) = length msg + length x" using l bs by (metis add.right_neutral mult_div_mod_eq)
  then show "md32_blocks compress bs h0 (msg @ x)
      (c'\<lparr>md_h := block_func (md_h c) (mem_write (md_num c) x (md_data c)) 1, md_num := 0, md_data := replicate bs 0\<rparr>)"
    using fill_block [OF assms(1,3)] l by (simp add: md32_blocks_def)
qed

lemma update_blocks:
  assumes "md32_blocks compress bs h0 msg c"
  shows "md32_blocks compress bs h0 (msg @ inp) (crypto_md32_update block_func bs inp c)"
proof (cases "inp = []")
  case True
  then show ?thesis using assms by (simp add: crypto_md32_update_def)
next
  case False
  define c1 where "c1 = (let l = md_Nl c + push_bit 3 (of_nat (length inp));
      c = (if l < md_Nl c then c\<lparr>md_Nh := md_Nh c + 1\<rparr> else c);
      c = c\<lparr>md_Nh := md_Nh c + of_nat (drop_bit 29 (length inp))\<rparr> in c\<lparr>md_Nl := l\<rparr>)"
  have c1: "md_h c1 = md_h c" "md_data c1 = md_data c" "md_num c1 = md_num c" by (simp_all add: c1_def Let_def)
  have blocks: "md32_blocks compress bs h0 msg c1" using assms c1 by (simp add: md32_blocks_def)
  let ?n = "length msg mod bs"
  have num: "md_num c1 = ?n" using blocks by (simp add: md32_blocks_def)
  have unfolded: "crypto_md32_update block_func bs inp c =
      (if ?n \<noteq> 0
       then if length inp \<ge> bs \<or> length inp + ?n \<ge> bs
            then md32_absorb block_func bs (drop (bs - ?n) inp)
                   (c1\<lparr>md_h := block_func (md_h c1) (mem_write (md_num c1) (take (bs - ?n) inp) (md_data c1)) 1,
                       md_num := 0, md_data := replicate bs 0\<rparr>)
            else c1\<lparr>md_data := mem_write ?n inp (md_data c1), md_num := ?n + length inp\<rparr>
       else md32_absorb block_func bs inp c1)"
    using False num by (simp add: crypto_md32_update_def c1_def Let_def)
  show ?thesis
  proof -
    consider "?n = 0" | "?n \<noteq> 0" "bs \<le> length inp + ?n" | "?n \<noteq> 0" "length inp + ?n < bs" by linarith
    then show ?thesis
    proof cases
      case 1
      then show ?thesis using absorb [OF blocks] by (simp add: unfolded)
    next
      case 2
      have l: "length (take (bs - ?n) inp) = bs - ?n" using 2(2) by simp
      show ?thesis
        using absorb [OF blocks_filled(1) [OF blocks 2(1) l], of "drop (bs - ?n) inp"] blocks_filled(2) [OF blocks 2(1) l] 2
        by (simp add: unfolded)
    next
      case 3
      let ?q = "length msg div bs"
      have e: "length msg + length inp = bs * ?q + (?n + length inp)" by simp
      have m: "(length msg + length inp) mod bs = ?n + length inp" unfolding e mod_mult_self4 using 3(2) by simp
      have "(length msg + length inp) div bs = ?q + (?n + length inp) div bs"
        unfolding e using bs by (intro div_mult_self4) simp
      then have m2: "(length msg + length inp) div bs = ?q" using 3(2) by simp
      have lr: "length (drop (bs * ?q) msg) = ?n" by (simp add: minus_mult_div_eq_mod)
      have "chain compress bs h0 (msg @ inp) = chain compress bs h0 (take (bs * ?q) (msg @ inp))"
        using chain_whole_blocks [of bs compress h0 "msg @ inp"] m2 bs by simp
      also have "take (bs * ?q) (msg @ inp) = take (bs * ?q) msg" by simp
      also have "chain compress bs h0 \<dots> = chain compress bs h0 msg" using chain_whole_blocks [of bs compress h0 msg] bs by simp
      finally have ch: "chain compress bs h0 (msg @ inp) = md_h c1" using blocks by (simp add: md32_blocks_def)
      have data: "mem_write ?n inp (md_data c1) = drop (bs * ?q) (msg @ inp) @ replicate (bs - (?n + length inp)) 0"
        using blocks lr 3(2) by (simp add: md32_blocks_def mem_write_def)
      show ?thesis using 3 ch data m m2 by (simp add: unfolded md32_blocks_def add.commute)
    qed
  qed
qed

lemma update_counts:
  "md_Nh (crypto_md32_update block_func bs inp c) =
     (if md_Nl c + push_bit 3 (of_nat (length inp)) < md_Nl c then md_Nh c + 1 else md_Nh c) + of_nat (drop_bit 29 (length inp))"
  "md_Nl (crypto_md32_update block_func bs inp c) = md_Nl c + push_bit 3 (of_nat (length inp))"
  by (simp_all add: crypto_md32_update_def Let_def)

theorem update:
  assumes "md32_holds compress bs h0 msg c"
  shows "md32_holds compress bs h0 (msg @ inp) (crypto_md32_update block_func bs inp c)"
proof -
  have "unat (md_Nh (crypto_md32_update block_func bs inp c)) * 2 ^ 32 + unat (md_Nl (crypto_md32_update block_func bs inp c)) =
      (8 * length msg + 8 * length inp) mod 2 ^ 64"
    by (rule count_bits [of "md_Nh c" "md_Nl c"]) (use assms in \<open>simp_all add: md32_holds_def md32_bits_def update_counts\<close>)
  then show ?thesis using assms update_blocks [of h0 msg c inp] by (simp add: md32_holds_def md32_bits_def distrib_left)
qed

lemma updates:
  "md32_holds compress bs h0 msg c \<Longrightarrow>
     md32_holds compress bs h0 (msg @ concat chunks) (foldl (\<lambda>c inp. crypto_md32_update block_func bs inp c) c chunks)"
proof (induction chunks arbitrary: c msg)
  case (Cons x chunks)
  then show ?case using Cons.IH [OF update [OF Cons.prems, of x]] by simp
qed simp

text \<open>A new context, and the fields no operation changes.\<close>

lemma new_context:
  "md_h c = h0 \<Longrightarrow> md_num c = 0 \<Longrightarrow> md_data c = replicate bs 0 \<Longrightarrow> md_Nh c = 0 \<Longrightarrow> md_Nl c = 0 \<Longrightarrow> md32_holds compress bs h0 [] c"
  using bs by (simp add: md32_holds_def md32_blocks_def md32_bits_def)

lemma padding:
  "n = length msg mod bs \<Longrightarrow> padded bs 8 b msg =
     msg @ 0x80 # replicate (if n + 9 > bs then 2 * bs - n - 9 else bs - n - 9) 0 @ count_octets b 8 (8 * length msg)"
  using padded_eq [of n msg bs 8 b] bs by simp

lemma final_data:
  assumes "md32_bits msg c" and "length d = bs"
  shows "(if b then CRYPTO_store_u32_be (bs - 4) (md_Nl c) (CRYPTO_store_u32_be (bs - 8) (md_Nh c) d)
      else CRYPTO_store_u32_le (bs - 4) (md_Nh c) (CRYPTO_store_u32_le (bs - 8) (md_Nl c) d)) =
    take (bs - 8) d @ count_octets b 8 (8 * length msg)"
proof -
  let ?t = "8 * length msg"
  have t: "unat (md_Nh c) * 2 ^ 32 + unat (md_Nl c) = ?t mod 2 ^ 64" using assms(1) by (simp add: md32_bits_def)
  have nl: "unat (md_Nl c) < 2 ^ 32" using unsigned_less [of "md_Nl c"] by simp
  have "be_bytes 8 ?t = be_bytes 8 (unat (md_Nh c) * 2 ^ 32 + unat (md_Nl c))"
    using be_bytes_mod [of 8 ?t] t by simp
  also have "\<dots> = be_bytes 4 (unat (md_Nh c)) @ be_bytes 4 (unat (md_Nl c))"
    using be_bytes_split [of 4 4 "unat (md_Nh c) * 2 ^ 32 + unat (md_Nl c)"] nl
      be_bytes_mod [of 4 "unat (md_Nh c) * 2 ^ 32 + unat (md_Nl c)"] be_bytes_mod [of 4 "unat (md_Nl c)"] by simp
  finally have o: "be_bytes 8 ?t = be_bytes 4 (unat (md_Nh c)) @ be_bytes 4 (unat (md_Nl c))" .
  have w: "mem_write (bs - 4) y (mem_write (bs - 8) x d) = take (bs - 8) d @ x @ y" if "length x = 4" "length y = 4" for x y :: "u8 list"
  proof -
    have "bs - 4 = bs - 8 + length x" using bs that by simp
    then have "mem_write (bs - 4) y (mem_write (bs - 8) x d) = mem_write (bs - 8) (x @ y) d"
      using mem_write_append [of "bs - 8" x y d] bs assms(2) that by simp
    then show ?thesis using assms(2) bs that by (simp add: mem_write_def)
  qed
  show ?thesis using w o
    by (simp add: CRYPTO_store_u32_be_def CRYPTO_store_u32_le_def count_octets_def)
qed

theorem final:
  assumes "md32_holds compress bs h0 msg c"
  shows "md_h (crypto_md32_final block_func bs b c) = chain compress bs h0 (padded bs 8 b msg)"
    and "md_num (crypto_md32_final block_func bs b c) = 0"
    and "md_data (crypto_md32_final block_func bs b c) = replicate bs 0"
proof -
  let ?n = "length msg mod bs" let ?r = "drop (bs * (length msg div bs)) msg" let ?L = "count_octets b 8 (8 * length msg)"
  have blocks: "md32_blocks compress bs h0 msg c" and bits: "md32_bits msg c" using assms by (simp_all add: md32_holds_def)
  have n: "?n < bs" using bs by simp
  have lr: "length ?r = ?n" by (simp add: minus_mult_div_eq_mod)
  have num: "md_num c = ?n" using blocks by (simp add: md32_blocks_def)
  have zs: "replicate (bs - ?n) (0 :: u8) = 0 # replicate (bs - ?n - 1) 0" using n by (metis Suc_diff_1 replicate_Suc zero_less_diff)
  have d1: "(md_data c)[?n := 0x80] = ?r @ 0x80 # replicate (bs - ?n - 1) 0"
    using blocks lr by (simp add: md32_blocks_def zs list_update_append)
  show "md_h (crypto_md32_final block_func bs b c) = chain compress bs h0 (padded bs 8 b msg)"
  proof (cases "bs < ?n + 9")
    case True
    let ?x = "0x80 # replicate (bs - ?n - 1) (0 :: u8)" let ?y = "replicate (bs - 8) 0 @ ?L"
    have d2: "mem_write (?n + 1) (replicate (bs - (?n + 1)) 0) (?r @ ?x) = ?r @ ?x" using lr n by (simp add: mem_write_def)
    have h1: "block_func (md_h c) (?r @ ?x) 1 = chain compress bs h0 (msg @ ?x)" by (rule rest_block [OF blocks]) (use n in simp)
    have cond: "bs - 8 < Suc ?n" using True bs by linarith
    let ?d = "mem_write 0 (replicate (bs - 8) 0) (?r @ ?x)"
    have ld: "length ?d = bs" using lr n by simp
    have tk: "take (bs - 8) ?d = replicate (bs - 8) 0" by (simp add: mem_write_def)
    have "md_h (crypto_md32_final block_func bs b c) =
        block_func (block_func (md_h c) (mem_write (?n + 1) (replicate (bs - (?n + 1)) 0) ((md_data c)[?n := 0x80])) 1)
          (let d = mem_write 0 (replicate (bs - 8) 0) (mem_write (?n + 1) (replicate (bs - (?n + 1)) 0) ((md_data c)[?n := 0x80])) in
           if b then CRYPTO_store_u32_be (bs - 4) (md_Nl c) (CRYPTO_store_u32_be (bs - 8) (md_Nh c) d)
           else CRYPTO_store_u32_le (bs - 4) (md_Nh c) (CRYPTO_store_u32_le (bs - 8) (md_Nl c) d)) 1"
      using cond by (simp add: crypto_md32_final_def num Let_def)
    also have "\<dots> = block_func (chain compress bs h0 (msg @ ?x)) ?y 1"
      unfolding d1 d2 h1 Let_def final_data [OF bits ld] tk ..
    also have "\<dots> = chain compress bs (chain compress bs h0 (msg @ ?x)) ?y" using block_func_chain [of 1 ?y] bs by simp
    also have "\<dots> = chain compress bs h0 ((msg @ ?x) @ ?y)"
    proof (rule chain_append [symmetric])
      have "length msg + (bs - ?n) = bs * (length msg div bs) + bs" using n mult_div_mod_eq [of bs "length msg"] by linarith
      then show "length (msg @ ?x) = (length msg div bs + 1) * bs" using n by (simp add: algebra_simps)
    qed (use bs in simp)
    also have "(msg @ ?x) @ ?y = padded bs 8 b msg"
    proof -
      have z: "2 * bs - ?n - 9 = (bs - ?n - 1) + (bs - 8)" using True n bs by linarith
      show ?thesis using True unfolding padding [OF refl] z by (simp add: replicate_add)
    qed
    finally show ?thesis .
  next
    case False
    let ?x = "0x80 # replicate (bs - ?n - 9) 0 @ ?L"
    let ?d = "?r @ 0x80 # replicate (bs - ?n - 1) (0 :: u8)"
    have d2: "mem_write (?n + 1) (replicate (bs - 8 - (?n + 1)) 0) ?d = ?d"
      using mem_write_zeros [of "?r @ [0x80]" "?n + 1" "bs - 8 - (?n + 1)" "bs - ?n - 1" 0] lr by simp
    have cond: "\<not> bs - 8 < Suc ?n" using False by linarith
    have tk: "take (bs - 8) ?d = ?r @ 0x80 # replicate (bs - ?n - 9) 0" using lr False by (auto simp: take_Cons' min_def add.commute [of 9])
    have ld: "length ?d = bs" using lr n by simp
    have "md_h (crypto_md32_final block_func bs b c) =
        block_func (md_h c)
          (let d = mem_write (?n + 1) (replicate (bs - 8 - (?n + 1)) 0) ((md_data c)[?n := 0x80]) in
           if b then CRYPTO_store_u32_be (bs - 4) (md_Nl c) (CRYPTO_store_u32_be (bs - 8) (md_Nh c) d)
           else CRYPTO_store_u32_le (bs - 4) (md_Nh c) (CRYPTO_store_u32_le (bs - 8) (md_Nl c) d)) 1"
      using cond by (simp add: crypto_md32_final_def num Let_def)
    also have "\<dots> = block_func (md_h c) (?r @ ?x) 1"
      unfolding d1 d2 Let_def final_data [OF bits ld] tk by simp
    also have "\<dots> = chain compress bs h0 (msg @ ?x)" by (rule rest_block [OF blocks]) (use n False in simp)
    finally show ?thesis using False by (simp add: padding)
  qed
qed (simp_all add: crypto_md32_final_def Let_def split: prod.split)

end

section \<open>A schedule in sixteen words\<close>

text \<open>
  The block functions keep the last sixteen words of a schedule \<open>W\<close> in a ring: \<open>X\<close> holds the words before \<open>i\<close>.
\<close>

definition word_ring :: "'w list \<Rightarrow> (nat \<Rightarrow> 'w) \<Rightarrow> nat \<Rightarrow> bool" where
  "word_ring X W i \<longleftrightarrow> length X = 16 \<and> (\<forall>j<i. i \<le> j + 16 \<longrightarrow> X ! (j mod 16) = W j)"

lemma word_ring_0: "length X = 16 \<Longrightarrow> word_ring X W 0"
  by (simp add: word_ring_def)

lemma word_ring_put: "word_ring X W i \<Longrightarrow> word_ring (X[i mod 16 := W i]) W (i + 1)"
proof -
  assume w: "word_ring X W i"
  have "X[i mod 16 := W i] ! (j mod 16) = W j" if "j < i + 1" "i + 1 \<le> j + 16" for j
  proof (cases "j = i")
    case True
    then show ?thesis using w by (simp add: word_ring_def)
  next
    case False
    then have "j mod 16 \<noteq> i mod 16"
      using that mod_eq_dvd_iff_nat [of j i 16] by (auto dest: dvd_imp_le)
    then show ?thesis using False that w by (simp add: word_ring_def)
  qed
  then show ?thesis using w by (simp add: word_ring_def)
qed

lemma word_ring_nth: "word_ring X W i \<Longrightarrow> 16 \<le> i \<Longrightarrow> k < 16 \<Longrightarrow> X ! ((i + k) mod 16) = W (i + k - 16)"
proof -
  assume "word_ring X W i" "16 \<le> i" "k < 16"
  moreover have "(i + k) mod 16 = (i + k - 16) mod 16" using \<open>16 \<le> i\<close> by (simp add: le_mod_geq)
  ultimately show ?thesis by (simp add: word_ring_def)
qed

end
