(* ===== verification/Sha256.thy ===== *)
theory Sha256
  imports Md32
begin

text \<open>
  \<^verbatim>\<open>crypto/fipsmodule/sha/sha256.c\<close>: SHA-256 and SHA-224. The block function keeps the message schedule in a
  ring of sixteen words and turns the names of its eight registers from round to round; it is shown
  to compute the compression function of FIPS 180-4, and the streaming interface on top of the
  collector the hash of the whole message.
\<close>

section \<open>The block function\<close>

text \<open>A literal of the code with its suffix.\<close>

definition UL :: "u32 \<Rightarrow> u32" where
  "UL x = x"

definition K256 :: "u32 list" where
  "K256 =
    [UL 0x428a2f98, UL 0x71374491, UL 0xb5c0fbcf, UL 0xe9b5dba5, UL 0x3956c25b,
     UL 0x59f111f1, UL 0x923f82a4, UL 0xab1c5ed5, UL 0xd807aa98, UL 0x12835b01,
     UL 0x243185be, UL 0x550c7dc3, UL 0x72be5d74, UL 0x80deb1fe, UL 0x9bdc06a7,
     UL 0xc19bf174, UL 0xe49b69c1, UL 0xefbe4786, UL 0x0fc19dc6, UL 0x240ca1cc,
     UL 0x2de92c6f, UL 0x4a7484aa, UL 0x5cb0a9dc, UL 0x76f988da, UL 0x983e5152,
     UL 0xa831c66d, UL 0xb00327c8, UL 0xbf597fc7, UL 0xc6e00bf3, UL 0xd5a79147,
     UL 0x06ca6351, UL 0x14292967, UL 0x27b70a85, UL 0x2e1b2138, UL 0x4d2c6dfc,
     UL 0x53380d13, UL 0x650a7354, UL 0x766a0abb, UL 0x81c2c92e, UL 0x92722c85,
     UL 0xa2bfe8a1, UL 0xa81a664b, UL 0xc24b8b70, UL 0xc76c51a3, UL 0xd192e819,
     UL 0xd6990624, UL 0xf40e3585, UL 0x106aa070, UL 0x19a4c116, UL 0x1e376c08,
     UL 0x2748774c, UL 0x34b0bcb5, UL 0x391c0cb3, UL 0x4ed8aa4a, UL 0x5b9cca4f,
     UL 0x682e6ff3, UL 0x748f82ee, UL 0x78a5636f, UL 0x84c87814, UL 0x8cc70208,
     UL 0x90befffa, UL 0xa4506ceb, UL 0xbef9a3f7, UL 0xc67178f2]"

definition Sigma0 :: "u32 \<Rightarrow> u32" where
  "Sigma0 x = CRYPTO_rotr_u32 x 2 XOR CRYPTO_rotr_u32 x 13 XOR CRYPTO_rotr_u32 x 22"

definition Sigma1 :: "u32 \<Rightarrow> u32" where
  "Sigma1 x = CRYPTO_rotr_u32 x 6 XOR CRYPTO_rotr_u32 x 11 XOR CRYPTO_rotr_u32 x 25"

definition sigma0 :: "u32 \<Rightarrow> u32" where
  "sigma0 x = CRYPTO_rotr_u32 x 7 XOR CRYPTO_rotr_u32 x 18 XOR drop_bit 3 x"

definition sigma1 :: "u32 \<Rightarrow> u32" where
  "sigma1 x = CRYPTO_rotr_u32 x 17 XOR CRYPTO_rotr_u32 x 19 XOR drop_bit 10 x"

definition Ch :: "'a::len word \<Rightarrow> 'a word \<Rightarrow> 'a word \<Rightarrow> 'a word" where
  "Ch x y z = (x AND y) XOR (NOT x AND z)"

definition Maj :: "'a::len word \<Rightarrow> 'a word \<Rightarrow> 'a word \<Rightarrow> 'a word" where
  "Maj x y z = (x AND y) XOR (x AND z) XOR (y AND z)"

text \<open>The registers in the order a round has them as arguments; the next round has the last one first.\<close>

type_synonym 'w regs = "'w \<times> 'w \<times> 'w \<times> 'w \<times> 'w \<times> 'w \<times> 'w \<times> 'w"

fun turn :: "'w regs \<Rightarrow> 'w regs" where
  "turn (a, b, c, d, e, f, g, h) = (h, a, b, c, d, e, f, g)"

fun sha256_ROUND_00_15 :: "nat \<Rightarrow> u32 \<Rightarrow> u32 regs \<Rightarrow> u32 regs" where
  "sha256_ROUND_00_15 i T1 (a, b, c, d, e, f, g, h) =
     (let T1 = T1 + (h + Sigma1 e + Ch e f g + K256 ! i);
          h = Sigma0 a + Maj a b c;
          d = d + T1;
          h = h + T1
      in (a, b, c, d, e, f, g, h))"

fun sha256_first :: "u8 list \<Rightarrow> nat \<Rightarrow> u32 list \<times> u32 regs \<Rightarrow> u32 list \<times> u32 regs" where
  "sha256_first data i (X, r) =
     (let T1 = CRYPTO_load_u32_be (4 * i) data in (X[i := T1], turn (sha256_ROUND_00_15 i T1 r)))"

fun sha256_ROUND_16_63 :: "nat \<Rightarrow> u32 list \<times> u32 regs \<Rightarrow> u32 list \<times> u32 regs" where
  "sha256_ROUND_16_63 i (X, r) =
     (let s0 = sigma0 (X ! ((i + 1) mod 16));
          s1 = sigma1 (X ! ((i + 14) mod 16));
          T1 = X ! (i mod 16) + (s0 + s1 + X ! ((i + 9) mod 16))
      in (X[i mod 16 := T1], turn (sha256_ROUND_00_15 i T1 r)))"

definition regs_of :: "'w list \<Rightarrow> 'w regs" where
  "regs_of s = (s ! 0, s ! 1, s ! 2, s ! 3, s ! 4, s ! 5, s ! 6, s ! 7)"

fun add_regs :: "'w::len word list \<Rightarrow> 'w word regs \<Rightarrow> 'w word list" where
  "add_regs s (a, b, c, d, e, f, g, h) =
     [s ! 0 + a, s ! 1 + b, s ! 2 + c, s ! 3 + d, s ! 4 + e, s ! 5 + f, s ! 6 + g, s ! 7 + h]"

text \<open>Each word of the ring, here zero at first, is written before it is read.\<close>

definition sha256_block :: "u32 list \<Rightarrow> u8 list \<Rightarrow> u32 list" where
  "sha256_block state data =
     (let Xr = fold (sha256_first data) [0..<16] (replicate 16 0, regs_of state);
          Xr = fold sha256_ROUND_16_63 [16..<64] Xr
      in add_regs state (snd Xr))"

primrec sha256_blocks :: "nat \<Rightarrow> u32 list \<Rightarrow> u8 list \<Rightarrow> u32 list" where
  "sha256_blocks 0 state data = state"
| "sha256_blocks (Suc num) state data = sha256_blocks num (sha256_block state data) (drop 64 data)"

definition sha256_block_data_order :: "u32 list \<Rightarrow> u8 list \<Rightarrow> nat \<Rightarrow> u32 list" where
  "sha256_block_data_order state data num = sha256_blocks num state data"

section \<open>The hash functions\<close>

record sha256_ctx = md32_ctx +
  md_len :: nat

definition SHA256_DIGEST_LENGTH :: nat where
  "SHA256_DIGEST_LENGTH = 32"

definition SHA224_DIGEST_LENGTH :: nat where
  "SHA224_DIGEST_LENGTH = 28"

definition sha256_zeroed :: sha256_ctx where
  "sha256_zeroed = \<lparr>md_h = replicate 8 0, md_Nl = 0, md_Nh = 0, md_data = replicate 64 0, md_num = 0, md_len = 0\<rparr>"

definition SHA224_Init :: sha256_ctx where
  "SHA224_Init = sha256_zeroed\<lparr>md_h := [0xc1059ed8, 0x367cd507, 0x3070dd17, 0xf70e5939, 0xffc00b31, 0x68581511, 0x64f98fa7, 0xbefa4fa4],
     md_len := SHA224_DIGEST_LENGTH\<rparr>"

definition SHA256_Init :: sha256_ctx where
  "SHA256_Init = sha256_zeroed\<lparr>md_h := [0x6a09e667, 0xbb67ae85, 0x3c6ef372, 0xa54ff53a, 0x510e527f, 0x9b05688c, 0x1f83d9ab, 0x5be0cd19],
     md_len := SHA256_DIGEST_LENGTH\<rparr>"

definition SHA256_Transform :: "sha256_ctx \<Rightarrow> u8 list \<Rightarrow> sha256_ctx" where
  "SHA256_Transform c data = c\<lparr>md_h := sha256_block_data_order (md_h c) data 1\<rparr>"

definition SHA256_Update :: "sha256_ctx \<Rightarrow> u8 list \<Rightarrow> sha256_ctx" where
  "SHA256_Update c data = crypto_md32_update sha256_block_data_order 64 data c"

definition SHA224_Update :: "sha256_ctx \<Rightarrow> u8 list \<Rightarrow> sha256_ctx" where
  "SHA224_Update c data = SHA256_Update c data"

definition SHA256_TransformBlocks :: "u32 list \<Rightarrow> u8 list \<Rightarrow> nat \<Rightarrow> u32 list" where
  "SHA256_TransformBlocks state data num_blocks = sha256_block_data_order state data num_blocks"

text \<open>The words written to \<^verbatim>\<open>out\<close> one after the other, or None when the length in the context is too large.\<close>

definition sha256_final_impl :: "sha256_ctx \<Rightarrow> u8 list option \<times> sha256_ctx" where
  "sha256_final_impl c =
     (let c = crypto_md32_final sha256_block_data_order 64 True c
      in if md_len c > SHA256_DIGEST_LENGTH then (None, c)
         else (Some (concat (map (\<lambda>i. be_bytes 4 (unat (md_h c ! i))) [0..<md_len c div 4])), c))"

definition SHA256_Final :: "sha256_ctx \<Rightarrow> u8 list option \<times> sha256_ctx" where
  "SHA256_Final c = sha256_final_impl c"

definition SHA224_Final :: "sha256_ctx \<Rightarrow> u8 list option \<times> sha256_ctx" where
  "SHA224_Final c = sha256_final_impl c"

definition SHA256 :: "u8 list \<Rightarrow> u8 list option" where
  "SHA256 data = fst (SHA256_Final (SHA256_Update SHA256_Init data))"

definition SHA224 :: "u8 list \<Rightarrow> u8 list option" where
  "SHA224 data = fst (SHA224_Final (SHA224_Update SHA224_Init data))"

section \<open>The standard\<close>

text \<open>
  The compression function as FIPS 180-4 has it: a schedule of 64 words, and 64 steps on eight working variables.
\<close>

definition fips_small0 :: "u32 \<Rightarrow> u32" where
  "fips_small0 x = word_rotr 7 x XOR word_rotr 18 x XOR drop_bit 3 x"

definition fips_small1 :: "u32 \<Rightarrow> u32" where
  "fips_small1 x = word_rotr 17 x XOR word_rotr 19 x XOR drop_bit 10 x"

definition fips_big0 :: "u32 \<Rightarrow> u32" where
  "fips_big0 x = word_rotr 2 x XOR word_rotr 13 x XOR word_rotr 22 x"

definition fips_big1 :: "u32 \<Rightarrow> u32" where
  "fips_big1 x = word_rotr 6 x XOR word_rotr 11 x XOR word_rotr 25 x"

fun fips_W :: "u8 list \<Rightarrow> nat \<Rightarrow> u32" where
  "fips_W M t =
     (if t < 16 then of_nat (be_val (take 4 (drop (4 * t) M)))
      else fips_small1 (fips_W M (t - 2)) + fips_W M (t - 7) + fips_small0 (fips_W M (t - 15)) + fips_W M (t - 16))"

declare fips_W.simps [simp del]

fun fips_step :: "u8 list \<Rightarrow> nat \<Rightarrow> u32 regs \<Rightarrow> u32 regs" where
  "fips_step M t (a, b, c, d, e, f, g, h) =
     (let T1 = h + fips_big1 e + Ch e f g + K256 ! t + fips_W M t;
          T2 = fips_big0 a + Maj a b c
      in (T1 + T2, a, b, c, d + T1, e, f, g))"

definition fips_compress :: "u32 list \<Rightarrow> u8 list \<Rightarrow> u32 list" where
  "fips_compress H M = add_regs H (fold (fips_step M) [0..<64] (regs_of H))"

text \<open>The hash of a message shorter than \<open>2 ^ 61\<close> bytes; beyond, its length is taken modulo \<open>2 ^ 64\<close> bits.\<close>

definition fips_hash :: "u32 list \<Rightarrow> nat \<Rightarrow> u8 list \<Rightarrow> u8 list" where
  "fips_hash H0 words msg =
     concat (map (be_bytes 4 \<circ> unat) (take words (chain fips_compress 64 H0 (padded 64 8 True msg))))"

section \<open>The block function is the compression function\<close>

lemma sigmas: "sigma0 = fips_small0" "sigma1 = fips_small1" "Sigma0 = fips_big0" "Sigma1 = fips_big1"
  by (intro ext, simp add: sigma0_def sigma1_def Sigma0_def Sigma1_def fips_small0_def fips_small1_def fips_big0_def fips_big1_def
      CRYPTO_rotr_u32_eq)+

lemma round_is_step: "turn (sha256_ROUND_00_15 i (fips_W M i) r) = fips_step M i r"
  by (cases r rule: turn.cases) (simp add: Let_def sigmas algebra_simps)

lemma schedule_step:
  assumes "word_ring X (fips_W M) i" and "16 \<le> i"
  shows "X ! (i mod 16) + (sigma0 (X ! ((i + 1) mod 16)) + sigma1 (X ! ((i + 14) mod 16)) + X ! ((i + 9) mod 16)) = fips_W M i"
proof -
  have "X ! (i mod 16) = fips_W M (i - 16)" using word_ring_nth [OF assms, of 0] by simp
  moreover have "X ! ((i + 1) mod 16) = fips_W M (i - 15)" "X ! ((i + 14) mod 16) = fips_W M (i - 2)" "X ! ((i + 9) mod 16) = fips_W M (i - 7)"
    using word_ring_nth [OF assms, of 1] word_ring_nth [OF assms, of 14] word_ring_nth [OF assms, of 9] assms(2) by simp_all
  ultimately show ?thesis using assms(2) by (simp add: fips_W.simps [of M i] sigmas algebra_simps)
qed

lemma first_rounds:
  "n \<le> 16 \<Longrightarrow> \<exists>X. fold (sha256_first M) [0..<n] (replicate 16 0, r) = (X, fold (fips_step M) [0..<n] r) \<and> word_ring X (fips_W M) n"
proof (induction n)
  case (Suc n)
  then obtain X where X: "fold (sha256_first M) [0..<n] (replicate 16 0, r) = (X, fold (fips_step M) [0..<n] r)" "word_ring X (fips_W M) n"
    by auto
  have w: "CRYPTO_load_u32_be (4 * n) M = fips_W M n" using Suc.prems by (simp add: fips_W.simps CRYPTO_load_u32_be_def mem_read_def)
  have "word_ring (X[n := fips_W M n]) (fips_W M) (Suc n)" using word_ring_put [OF X(2)] Suc.prems by simp
  then show ?case using X(1) w by (simp add: round_is_step)
qed (simp add: word_ring_0)

lemma later_rounds:
  assumes "word_ring X (fips_W M) 16"
  shows "16 \<le> n \<Longrightarrow> \<exists>X'. fold sha256_ROUND_16_63 [16..<n] (X, r) = (X', fold (fips_step M) [16..<n] r) \<and> word_ring X' (fips_W M) n"
proof (induction n rule: nat_induct_at_least)
  case base
  then show ?case using assms by simp
next
  case (Suc n)
  then obtain Y where Y: "fold sha256_ROUND_16_63 [16..<n] (X, r) = (Y, fold (fips_step M) [16..<n] r)" "word_ring Y (fips_W M) n" by auto
  have w: "Y ! (n mod 16) + (sigma0 (Y ! ((n + 1) mod 16)) + sigma1 (Y ! ((n + 14) mod 16)) + Y ! ((n + 9) mod 16)) = fips_W M n"
    by (rule schedule_step [OF Y(2)]) (use Suc in simp)
  have "sha256_ROUND_16_63 n (Y, fold (fips_step M) [16..<n] r) = (Y[n mod 16 := fips_W M n], fips_step M n (fold (fips_step M) [16..<n] r))"
    unfolding sha256_ROUND_16_63.simps Let_def w round_is_step ..
  moreover have "word_ring (Y[n mod 16 := fips_W M n]) (fips_W M) (Suc n)" using word_ring_put [OF Y(2)] by simp
  ultimately show ?case using Y(1) Suc.hyps by simp
qed

lemma sha256_block_eq: "sha256_block H M = fips_compress H M"
proof -
  obtain X where X: "fold (sha256_first M) [0..<16] (replicate 16 0, regs_of H) = (X, fold (fips_step M) [0..<16] (regs_of H))"
      "word_ring X (fips_W M) 16"
    using first_rounds [of 16 M "regs_of H", OF order_refl] by blast
  have "(16 :: nat) \<le> 64" by simp
  then obtain Y where Y: "fold sha256_ROUND_16_63 [16..<64] (X, fold (fips_step M) [0..<16] (regs_of H)) =
      (Y, fold (fips_step M) [16..<64] (fold (fips_step M) [0..<16] (regs_of H)))"
    using later_rounds [OF X(2)] by blast
  have "fold (fips_step M) [0..<64] r = fold (fips_step M) [16..<64] (fold (fips_step M) [0..<16] r)" for r
  proof -
    have "[0..<64] = [0..<16] @ [16..<64 :: nat]" using upt_add_eq_append [of 0 16 48] by (simp del: upt_rec_numeral)
    then show ?thesis by (simp only: fold_append comp_apply)
  qed
  then show ?thesis unfolding sha256_block_def fips_compress_def X(1) Y Let_def by (simp only: snd_conv)
qed

lemma fips_W_prefix: "64 \<le> length M \<Longrightarrow> fips_W (take 64 M) t = fips_W M t"
proof (induction t rule: less_induct)
  case (less t)
  show ?case
  proof (cases "t < 16")
    case True
    then have "take 4 (drop (4 * t) (take 64 M)) = take 4 (drop (4 * t) M)" by (simp add: drop_take min_def)
    then show ?thesis using True by (simp add: fips_W.simps)
  next
    case False
    then show ?thesis using less by (simp add: fips_W.simps [of _ t])
  qed
qed

lemma fips_compress_prefix: "64 \<le> length M \<Longrightarrow> fips_compress H (take 64 M) = fips_compress H M"
proof -
  assume "64 \<le> length M"
  then have "fips_step (take 64 M) t r = fips_step M t r" for t r by (cases r rule: turn.cases) (simp add: fips_W_prefix)
  then have "fips_step (take 64 M) = fips_step M" by blast
  then show ?thesis by (simp add: fips_compress_def)
qed

lemma sha256_blocks_chain: "n * 64 \<le> length d \<Longrightarrow> sha256_blocks n H d = chain fips_compress 64 H (take (n * 64) d)"
proof (induction n arbitrary: H d)
  case (Suc n)
  have "chain fips_compress 64 H (take (Suc n * 64) d) = chain fips_compress 64 (fips_compress H (take 64 d)) (take (n * 64) (drop 64 d))"
    using Suc.prems by (simp add: chain.simps [of fips_compress 64 H] drop_take)
  then show ?case using Suc by (simp add: sha256_block_eq fips_compress_prefix)
qed simp

interpretation sha256: md32_hash sha256_block_data_order fips_compress 64
  by unfold_locales (simp_all add: sha256_block_data_order_def sha256_blocks_chain)

section \<open>Contexts\<close>

text \<open>What every operation relies on and keeps.\<close>

definition sha256_wf :: "sha256_ctx \<Rightarrow> bool" where
  "sha256_wf c \<longleftrightarrow> length (md_h c) = 8 \<and> md_num c < 64 \<and> length (md_data c) = 64 \<and>
     drop (md_num c) (md_data c) = replicate (64 - md_num c) 0 \<and> md_len c \<in> {SHA224_DIGEST_LENGTH, SHA256_DIGEST_LENGTH}"

lemma length_add_regs [simp]: "length (add_regs s r) = 8"
  by (cases r rule: turn.cases) simp

lemma length_chain_compress: "length H = 8 \<Longrightarrow> length (chain fips_compress 64 H xs) = 8"
  by (rule length_chain) (simp_all add: fips_compress_def)

lemma md_len_update [simp]: "md_len (SHA256_Update c inp) = md_len c"
  by (simp add: SHA256_Update_def crypto_md32_update_def md32_absorb_def Let_def)

lemma md_len_final [simp]: "md_len (crypto_md32_final f bs b c) = md_len c"
  by (simp add: crypto_md32_final_def Let_def split: prod.split)

lemma sha256_wf_blocks: "sha256_wf c \<Longrightarrow> md32_blocks fips_compress 64 (md_h c) (take (md_num c) (md_data c)) c"
  by (simp add: sha256_wf_def md32_blocks_def) (metis append_take_drop_id)

lemma sha256_blocks_wf:
  assumes "md32_blocks fips_compress 64 h0 msg c" and "length h0 = 8" and "md_len c \<in> {SHA224_DIGEST_LENGTH, SHA256_DIGEST_LENGTH}"
  shows "sha256_wf c"
  using assms length_chain_compress [of h0 msg] by (simp add: sha256_wf_def md32_blocks_def minus_mult_div_eq_mod)

lemma sha256_update_wf: "sha256_wf c \<Longrightarrow> sha256_wf (SHA256_Update c inp)"
  using sha256.update_blocks [OF sha256_wf_blocks, of c inp] sha256_blocks_wf [of "md_h c" _ "SHA256_Update c inp"]
  by (simp add: SHA256_Update_def [symmetric]) (simp add: sha256_wf_def)

lemma sha256_init_wf: "sha256_wf SHA256_Init" "sha256_wf SHA224_Init"
  by (simp_all add: sha256_wf_def SHA256_Init_def SHA224_Init_def sha256_zeroed_def)

lemma final_digest:
  assumes "md32_holds fips_compress 64 h0 msg c" and "length h0 = 8" and "md_len c \<le> 32" and "4 * n = md_len c"
  shows "fst (sha256_final_impl c) = Some (fips_hash h0 n msg)"
proof -
  have "md_len c div 4 = n" using assms(4) by simp
  moreover have "n \<le> 8" using assms(3,4) by simp
  moreover have "map (\<lambda>i. be_bytes 4 (unat (H ! i))) [0..<n] = map (be_bytes 4 \<circ> unat) (take n H)" if "length H = 8" "n \<le> 8" for H :: "u32 list"
    using that by (intro nth_equalityI) simp_all
  ultimately show ?thesis
    using sha256.final(1) [OF assms(1), of True] length_chain_compress [OF assms(2)] assms(3)
    by (simp add: sha256_final_impl_def SHA256_DIGEST_LENGTH_def fips_hash_def Let_def)
qed

lemma sha256_stream:
  assumes "md_h c = h0" and "md_num c = 0" and "md_data c = replicate 64 0" and "md_Nh c = 0" and "md_Nl c = 0"
    and "length h0 = 8" and "md_len c \<le> 32" and "4 * n = md_len c"
  shows "fst (sha256_final_impl (foldl SHA256_Update c chunks)) = Some (fips_hash h0 n (concat chunks))"
proof -
  have "md_len (foldl SHA256_Update c chunks) = md_len c" by (induction chunks arbitrary: c) simp_all
  moreover have "md32_holds fips_compress 64 h0 (concat chunks) (foldl SHA256_Update c chunks)"
    using sha256.updates [OF sha256.new_context, of c h0 chunks] assms(1-5) by (simp add: SHA256_Update_def [abs_def])
  ultimately show ?thesis using final_digest [OF _ assms(6), of "concat chunks" _ n] assms(7,8) by simp
qed

section \<open>Properties\<close>

text \<open>
  C23. Fed a message in any pieces, empty ones included, SHA-256 and SHA-224 give the digest FIPS 180-4 defines for the
  whole message. This covers the ring the block function keeps its schedule in, the buffering and bit count of the collector
  and both ways the padding can fall.
\<close>

theorem sha256_is_fips:
  "fst (SHA256_Final (foldl SHA256_Update SHA256_Init chunks)) = Some (fips_hash (md_h SHA256_Init) 8 (concat chunks)) \<and>
   fst (SHA224_Final (foldl SHA224_Update SHA224_Init chunks)) = Some (fips_hash (md_h SHA224_Init) 7 (concat chunks))"
proof -
  have "SHA224_Update = SHA256_Update" by (simp add: fun_eq_iff SHA224_Update_def)
  then show ?thesis
    using sha256_stream [of SHA256_Init "md_h SHA256_Init" 8 chunks] sha256_stream [of SHA224_Init "md_h SHA224_Init" 7 chunks]
    by (simp add: SHA256_Final_def SHA224_Final_def SHA256_Init_def SHA224_Init_def sha256_zeroed_def
        SHA256_DIGEST_LENGTH_def SHA224_DIGEST_LENGTH_def)
qed

text \<open>
  A context keeps its shape: after any update, transform or final its state has eight words, it holds fewer bytes than a block,
  its buffer has the size of a block and is zero behind those bytes, and its digest length is the one it had before; a final leaves
  no byte of the message in it. Both initialisations establish the shape, each with its own digest length.
\<close>

theorem sha256_context_shape:
  assumes "sha256_wf c"
  shows "sha256_wf SHA256_Init \<and> sha256_wf SHA224_Init \<and> sha256_wf (SHA256_Update c inp) \<and> sha256_wf (snd (SHA256_Final c)) \<and>
    (64 \<le> length block \<longrightarrow> sha256_wf (SHA256_Transform c block)) \<and>
    md_len SHA256_Init = SHA256_DIGEST_LENGTH \<and> md_len SHA224_Init = SHA224_DIGEST_LENGTH \<and> md_len (SHA256_Update c inp) = md_len c \<and>
    md_len (SHA256_Transform c block) = md_len c \<and> md_len (snd (SHA256_Final c)) = md_len c \<and>
    md_num (snd (SHA256_Final c)) = 0 \<and> md_data (snd (SHA256_Final c)) = replicate 64 0"
proof -
  let ?d = "crypto_md32_final sha256_block_data_order 64 True c"
  have len: "n * 64 \<le> length d \<Longrightarrow> length (sha256_block_data_order h d n) = 8" if "length h = 8" for n h d
    using that by (simp add: sha256_block_data_order_def sha256_blocks_chain length_chain_compress)
  have "length (md_h ?d) = 8"
    using assms len by (simp add: crypto_md32_final_def sha256_wf_def CRYPTO_store_u32_be_def Let_def split: prod.split)
  moreover have d: "md_num ?d = 0" "md_data ?d = replicate 64 0" by (simp_all add: crypto_md32_final_def Let_def split: prod.split)
  ultimately have "sha256_wf ?d" using assms by (simp add: sha256_wf_def)
  moreover have "sha256_wf (SHA256_Transform c block)" if "64 \<le> length block"
    using assms len [of "md_h c" 1 block] that by (simp add: SHA256_Transform_def sha256_wf_def)
  ultimately show ?thesis using d sha256_update_wf [OF assms] sha256_init_wf
    by (simp add: SHA256_Final_def sha256_final_impl_def Let_def SHA256_Transform_def SHA256_Init_def SHA224_Init_def sha256_zeroed_def)
qed

theorem sha256_context_shape_witness: "sha256_wf (snd (SHA256_Final SHA256_Init))"
  using sha256_context_shape [OF sha256_init_wf(1)] by simp

end
