(* ===== verification/Sha512.thy ===== *)
theory Sha512
  imports Sha256
begin

text \<open>
  \<^verbatim>\<open>crypto/fipsmodule/sha/sha512.c\<close>: SHA-384, SHA-512 and SHA-512/256. The file has a collector of its own: it leaves stale
  bytes behind the ones it holds, an initialisation leaves the buffer of the context as it is, and a final can fail.
  The block function goes over its ring of sixteen words in rounds of sixteen.
\<close>

section \<open>The block function\<close>

definition UINT64_C :: "u64 \<Rightarrow> u64" where
  "UINT64_C x = x"

definition K512 :: "u64 list" where
  "K512 =
    [UINT64_C 0x428a2f98d728ae22, UINT64_C 0x7137449123ef65cd,
     UINT64_C 0xb5c0fbcfec4d3b2f, UINT64_C 0xe9b5dba58189dbbc,
     UINT64_C 0x3956c25bf348b538, UINT64_C 0x59f111f1b605d019,
     UINT64_C 0x923f82a4af194f9b, UINT64_C 0xab1c5ed5da6d8118,
     UINT64_C 0xd807aa98a3030242, UINT64_C 0x12835b0145706fbe,
     UINT64_C 0x243185be4ee4b28c, UINT64_C 0x550c7dc3d5ffb4e2,
     UINT64_C 0x72be5d74f27b896f, UINT64_C 0x80deb1fe3b1696b1,
     UINT64_C 0x9bdc06a725c71235, UINT64_C 0xc19bf174cf692694,
     UINT64_C 0xe49b69c19ef14ad2, UINT64_C 0xefbe4786384f25e3,
     UINT64_C 0x0fc19dc68b8cd5b5, UINT64_C 0x240ca1cc77ac9c65,
     UINT64_C 0x2de92c6f592b0275, UINT64_C 0x4a7484aa6ea6e483,
     UINT64_C 0x5cb0a9dcbd41fbd4, UINT64_C 0x76f988da831153b5,
     UINT64_C 0x983e5152ee66dfab, UINT64_C 0xa831c66d2db43210,
     UINT64_C 0xb00327c898fb213f, UINT64_C 0xbf597fc7beef0ee4,
     UINT64_C 0xc6e00bf33da88fc2, UINT64_C 0xd5a79147930aa725,
     UINT64_C 0x06ca6351e003826f, UINT64_C 0x142929670a0e6e70,
     UINT64_C 0x27b70a8546d22ffc, UINT64_C 0x2e1b21385c26c926,
     UINT64_C 0x4d2c6dfc5ac42aed, UINT64_C 0x53380d139d95b3df,
     UINT64_C 0x650a73548baf63de, UINT64_C 0x766a0abb3c77b2a8,
     UINT64_C 0x81c2c92e47edaee6, UINT64_C 0x92722c851482353b,
     UINT64_C 0xa2bfe8a14cf10364, UINT64_C 0xa81a664bbc423001,
     UINT64_C 0xc24b8b70d0f89791, UINT64_C 0xc76c51a30654be30,
     UINT64_C 0xd192e819d6ef5218, UINT64_C 0xd69906245565a910,
     UINT64_C 0xf40e35855771202a, UINT64_C 0x106aa07032bbd1b8,
     UINT64_C 0x19a4c116b8d2d0c8, UINT64_C 0x1e376c085141ab53,
     UINT64_C 0x2748774cdf8eeb99, UINT64_C 0x34b0bcb5e19b48a8,
     UINT64_C 0x391c0cb3c5c95a63, UINT64_C 0x4ed8aa4ae3418acb,
     UINT64_C 0x5b9cca4f7763e373, UINT64_C 0x682e6ff3d6b2b8a3,
     UINT64_C 0x748f82ee5defb2fc, UINT64_C 0x78a5636f43172f60,
     UINT64_C 0x84c87814a1f0ab72, UINT64_C 0x8cc702081a6439ec,
     UINT64_C 0x90befffa23631e28, UINT64_C 0xa4506cebde82bde9,
     UINT64_C 0xbef9a3f7b2c67915, UINT64_C 0xc67178f2e372532b,
     UINT64_C 0xca273eceea26619c, UINT64_C 0xd186b8c721c0c207,
     UINT64_C 0xeada7dd6cde0eb1e, UINT64_C 0xf57d4f7fee6ed178,
     UINT64_C 0x06f067aa72176fba, UINT64_C 0x0a637dc5a2c898a6,
     UINT64_C 0x113f9804bef90dae, UINT64_C 0x1b710b35131c471b,
     UINT64_C 0x28db77f523047d84, UINT64_C 0x32caab7b40c72493,
     UINT64_C 0x3c9ebe0a15c9bebc, UINT64_C 0x431d67c49c100d4c,
     UINT64_C 0x4cc5d4becb3e42b6, UINT64_C 0x597f299cfc657e2a,
     UINT64_C 0x5fcb6fab3ad6faec, UINT64_C 0x6c44198c4a475817]"

definition sha512_Sigma0 :: "u64 \<Rightarrow> u64" where
  "sha512_Sigma0 x = CRYPTO_rotr_u64 x 28 XOR CRYPTO_rotr_u64 x 34 XOR CRYPTO_rotr_u64 x 39"

definition sha512_Sigma1 :: "u64 \<Rightarrow> u64" where
  "sha512_Sigma1 x = CRYPTO_rotr_u64 x 14 XOR CRYPTO_rotr_u64 x 18 XOR CRYPTO_rotr_u64 x 41"

definition sha512_sigma0 :: "u64 \<Rightarrow> u64" where
  "sha512_sigma0 x = CRYPTO_rotr_u64 x 1 XOR CRYPTO_rotr_u64 x 8 XOR drop_bit 7 x"

definition sha512_sigma1 :: "u64 \<Rightarrow> u64" where
  "sha512_sigma1 x = CRYPTO_rotr_u64 x 19 XOR CRYPTO_rotr_u64 x 61 XOR drop_bit 6 x"

fun sha512_ROUND_00_15 :: "nat \<Rightarrow> u64 \<Rightarrow> u64 regs \<Rightarrow> u64 regs" where
  "sha512_ROUND_00_15 i T1 (a, b, c, d, e, f, g, h) =
     (let T1 = T1 + (h + sha512_Sigma1 e + Ch e f g + K512 ! i);
          h = sha512_Sigma0 a + Maj a b c;
          d = d + T1;
          h = h + T1
      in (a, b, c, d, e, f, g, h))"

fun sha512_first :: "u8 list \<Rightarrow> nat \<Rightarrow> u64 list \<times> u64 regs \<Rightarrow> u64 list \<times> u64 regs" where
  "sha512_first inp i (X, r) =
     (let T1 = CRYPTO_load_u64_be (i * 8) inp in (X[i := T1], turn (sha512_ROUND_00_15 i T1 r)))"

fun sha512_ROUND_16_80 :: "nat \<Rightarrow> nat \<Rightarrow> u64 list \<times> u64 regs \<Rightarrow> u64 list \<times> u64 regs" where
  "sha512_ROUND_16_80 i j (X, r) =
     (let s0 = sha512_sigma0 (X ! ((j + 1) mod 16));
          s1 = sha512_sigma1 (X ! ((j + 14) mod 16));
          T1 = X ! (j mod 16) + (s0 + s1 + X ! ((j + 9) mod 16))
      in (X[j mod 16 := T1], turn (sha512_ROUND_00_15 (i + j) T1 r)))"

text \<open>Each word of the ring, here zero at first, is written before it is read.\<close>

definition sha512_block :: "u64 list \<Rightarrow> u8 list \<Rightarrow> u64 list" where
  "sha512_block state inp =
     (let Xr = fold (sha512_first inp) [0..<16] (replicate 16 0, regs_of state);
          Xr = fold (\<lambda>i. fold (sha512_ROUND_16_80 i) [0..<16]) [16, 32, 48, 64] Xr
      in add_regs state (snd Xr))"

primrec sha512_blocks :: "nat \<Rightarrow> u64 list \<Rightarrow> u8 list \<Rightarrow> u64 list" where
  "sha512_blocks 0 state inp = state"
| "sha512_blocks (Suc num) state inp = sha512_blocks num (sha512_block state inp) (drop (16 * 8) inp)"

definition sha512_block_data_order :: "u64 list \<Rightarrow> u8 list \<Rightarrow> nat \<Rightarrow> u64 list" where
  "sha512_block_data_order state inp num = sha512_blocks num state inp"

section \<open>The hash functions\<close>

record sha512_ctx =
  sh_h :: "u64 list"
  sh_Nl :: u64
  sh_Nh :: u64
  sh_p :: "u8 list"
  sh_num :: nat
  sh_md_len :: nat

definition SHA384_DIGEST_LENGTH :: nat where
  "SHA384_DIGEST_LENGTH = 48"

definition SHA512_DIGEST_LENGTH :: nat where
  "SHA512_DIGEST_LENGTH = 64"

definition SHA512_256_DIGEST_LENGTH :: nat where
  "SHA512_256_DIGEST_LENGTH = 32"

definition SHA384_Init :: "sha512_ctx \<Rightarrow> sha512_ctx" where
  "SHA384_Init sha = sha\<lparr>sh_h := [0xcbbb9d5dc1059ed8, 0x629a292a367cd507, 0x9159015a3070dd17, 0x152fecd8f70e5939, 0x67332667ffc00b31, 0x8eb44a8768581511, 0xdb0c2e0d64f98fa7, 0x47b5481dbefa4fa4],
     sh_Nl := 0, sh_Nh := 0, sh_num := 0, sh_md_len := SHA384_DIGEST_LENGTH\<rparr>"

definition SHA512_Init :: "sha512_ctx \<Rightarrow> sha512_ctx" where
  "SHA512_Init sha = sha\<lparr>sh_h := [0x6a09e667f3bcc908, 0xbb67ae8584caa73b, 0x3c6ef372fe94f82b, 0xa54ff53a5f1d36f1, 0x510e527fade682d1, 0x9b05688c2b3e6c1f, 0x1f83d9abfb41bd6b, 0x5be0cd19137e2179],
     sh_Nl := 0, sh_Nh := 0, sh_num := 0, sh_md_len := SHA512_DIGEST_LENGTH\<rparr>"

definition SHA512_256_Init :: "sha512_ctx \<Rightarrow> sha512_ctx" where
  "SHA512_256_Init sha = sha\<lparr>sh_h := [0x22312194fc2bf72c, 0x9f555fa3c84c64c2, 0x2393b86b6f53b151, 0x963877195940eabd, 0x96283ee2a88effe3, 0xbe5e1e2553863992, 0x2b0199fc2c85b8aa, 0x0eb72ddc81c52ca2],
     sh_Nl := 0, sh_Nh := 0, sh_num := 0, sh_md_len := SHA512_256_DIGEST_LENGTH\<rparr>"

definition SHA512_Transform :: "sha512_ctx \<Rightarrow> u8 list \<Rightarrow> sha512_ctx" where
  "SHA512_Transform c block = c\<lparr>sh_h := sha512_block_data_order (sh_h c) block 1\<rparr>"

text \<open>The blocks in the input, then the bytes left over.\<close>

definition sha512_absorb :: "u8 list \<Rightarrow> sha512_ctx \<Rightarrow> sha512_ctx" where
  "sha512_absorb inp c =
     (let len = length inp;
          (c, inp) =
            (if len \<ge> 128 then (c\<lparr>sh_h := sha512_block_data_order (sh_h c) inp (len div 128)\<rparr>, drop (len - len mod 128) inp)
             else (c, inp));
          len = length inp
      in if len \<noteq> 0 then c\<lparr>sh_p := mem_write 0 inp (sh_p c), sh_num := len\<rparr> else c)"

definition SHA512_Update :: "sha512_ctx \<Rightarrow> u8 list \<Rightarrow> sha512_ctx" where
  "SHA512_Update c inp =
     (let len = length inp in
      if len = 0 then c
      else
        let l = sh_Nl c + push_bit 3 (of_nat len);
            c = (if l < sh_Nl c then c\<lparr>sh_Nh := sh_Nh c + 1\<rparr> else c);
            c = c\<lparr>sh_Nh := sh_Nh c + of_nat (drop_bit 61 len)\<rparr>;
            c = c\<lparr>sh_Nl := l\<rparr>
        in if sh_num c \<noteq> 0
           then let n = 128 - sh_num c in
             if len < n then c\<lparr>sh_p := mem_write (sh_num c) inp (sh_p c), sh_num := sh_num c + len\<rparr>
             else
               let c = c\<lparr>sh_p := mem_write (sh_num c) (take n inp) (sh_p c), sh_num := 0\<rparr>;
                   inp = drop n inp;
                   c = c\<lparr>sh_h := sha512_block_data_order (sh_h c) (sh_p c) 1\<rparr>
               in sha512_absorb inp c
           else sha512_absorb inp c)"

definition SHA384_Update :: "sha512_ctx \<Rightarrow> u8 list \<Rightarrow> sha512_ctx" where
  "SHA384_Update sha inp = SHA512_Update sha inp"

definition SHA512_256_Update :: "sha512_ctx \<Rightarrow> u8 list \<Rightarrow> sha512_ctx" where
  "SHA512_256_Update sha inp = SHA512_Update sha inp"

text \<open>The digest, or None when \<^verbatim>\<open>out\<close> is \<^verbatim>\<open>NULL\<close>: the context is processed all the same.\<close>

definition sha512_final_impl :: "bool \<Rightarrow> sha512_ctx \<Rightarrow> u8 list option \<times> sha512_ctx" where
  "sha512_final_impl out_null sha =
     (let n = sh_num sha;
          sha = sha\<lparr>sh_p := (sh_p sha)[n := 0x80]\<rparr>;
          n = n + 1;
          (n, sha) =
            (if n > 128 - 16
             then let sha = sha\<lparr>sh_p := mem_write n (replicate (128 - n) 0) (sh_p sha)\<rparr>
                  in (0, sha\<lparr>sh_h := sha512_block_data_order (sh_h sha) (sh_p sha) 1\<rparr>)
             else (n, sha));
          sha = sha\<lparr>sh_p := mem_write n (replicate (128 - 16 - n) 0) (sh_p sha)\<rparr>;
          sha = sha\<lparr>sh_p := CRYPTO_store_u64_be (128 - 16) (sh_Nh sha) (sh_p sha)\<rparr>;
          sha = sha\<lparr>sh_p := CRYPTO_store_u64_be (128 - 8) (sh_Nl sha) (sh_p sha)\<rparr>;
          sha = sha\<lparr>sh_h := sha512_block_data_order (sh_h sha) (sh_p sha) 1\<rparr>
      in if out_null then (None, sha)
         else (Some (concat (map (\<lambda>i. be_bytes 8 (unat (sh_h sha ! i))) [0..<sh_md_len sha div 8])), sha))"

definition SHA512_Final :: "bool \<Rightarrow> sha512_ctx \<Rightarrow> u8 list option \<times> sha512_ctx" where
  "SHA512_Final out_null sha = sha512_final_impl out_null sha"

definition SHA384_Final :: "sha512_ctx \<Rightarrow> u8 list option \<times> sha512_ctx" where
  "SHA384_Final sha = sha512_final_impl False sha"

definition SHA512_256_Final :: "sha512_ctx \<Rightarrow> u8 list option \<times> sha512_ctx" where
  "SHA512_256_Final sha = sha512_final_impl False sha"

text \<open>The one-shot functions, on a context of their own whose buffer holds whatever was there.\<close>

definition SHA384 :: "sha512_ctx \<Rightarrow> u8 list \<Rightarrow> u8 list option" where
  "SHA384 ctx inp = fst (SHA384_Final (SHA384_Update (SHA384_Init ctx) inp))"

definition SHA512 :: "sha512_ctx \<Rightarrow> u8 list \<Rightarrow> u8 list option" where
  "SHA512 ctx inp = fst (SHA512_Final False (SHA512_Update (SHA512_Init ctx) inp))"

definition SHA512_256 :: "sha512_ctx \<Rightarrow> u8 list \<Rightarrow> u8 list option" where
  "SHA512_256 ctx inp = fst (SHA512_256_Final (SHA512_256_Update (SHA512_256_Init ctx) inp))"

section \<open>The standard\<close>

definition fips512_small0 :: "u64 \<Rightarrow> u64" where
  "fips512_small0 x = word_rotr 1 x XOR word_rotr 8 x XOR drop_bit 7 x"

definition fips512_small1 :: "u64 \<Rightarrow> u64" where
  "fips512_small1 x = word_rotr 19 x XOR word_rotr 61 x XOR drop_bit 6 x"

definition fips512_big0 :: "u64 \<Rightarrow> u64" where
  "fips512_big0 x = word_rotr 28 x XOR word_rotr 34 x XOR word_rotr 39 x"

definition fips512_big1 :: "u64 \<Rightarrow> u64" where
  "fips512_big1 x = word_rotr 14 x XOR word_rotr 18 x XOR word_rotr 41 x"

fun fips512_W :: "u8 list \<Rightarrow> nat \<Rightarrow> u64" where
  "fips512_W M t =
     (if t < 16 then of_nat (be_val (take 8 (drop (8 * t) M)))
      else fips512_small1 (fips512_W M (t - 2)) + fips512_W M (t - 7) + fips512_small0 (fips512_W M (t - 15)) + fips512_W M (t - 16))"

declare fips512_W.simps [simp del]

fun fips512_step :: "u8 list \<Rightarrow> nat \<Rightarrow> u64 regs \<Rightarrow> u64 regs" where
  "fips512_step M t (a, b, c, d, e, f, g, h) =
     (let T1 = h + fips512_big1 e + Ch e f g + K512 ! t + fips512_W M t;
          T2 = fips512_big0 a + Maj a b c
      in (T1 + T2, a, b, c, d + T1, e, f, g))"

definition fips512_compress :: "u64 list \<Rightarrow> u8 list \<Rightarrow> u64 list" where
  "fips512_compress H M = add_regs H (fold (fips512_step M) [0..<80] (regs_of H))"

text \<open>The hash of a message shorter than \<open>2 ^ 125\<close> bytes; beyond, its length is taken modulo \<open>2 ^ 128\<close> bits.\<close>

definition fips512_hash :: "u64 list \<Rightarrow> nat \<Rightarrow> u8 list \<Rightarrow> u8 list" where
  "fips512_hash H0 words msg =
     concat (map (be_bytes 8 \<circ> unat) (take words (chain fips512_compress 128 H0 (padded 128 16 True msg))))"

section \<open>The block function is the compression function\<close>

lemma sha512_sigmas:
  "sha512_sigma0 = fips512_small0" "sha512_sigma1 = fips512_small1" "sha512_Sigma0 = fips512_big0" "sha512_Sigma1 = fips512_big1"
  by (intro ext, simp add: sha512_sigma0_def sha512_sigma1_def sha512_Sigma0_def sha512_Sigma1_def fips512_small0_def
      fips512_small1_def fips512_big0_def fips512_big1_def CRYPTO_rotr_u64_eq)+

lemma round_is_step512: "turn (sha512_ROUND_00_15 i (fips512_W M i) r) = fips512_step M i r"
  by (cases r rule: turn.cases) (simp add: Let_def sha512_sigmas algebra_simps)

lemma schedule_step512:
  assumes "word_ring X (fips512_W M) (i + j)" and "16 \<le> i" and "i mod 16 = 0"
  shows "X ! (j mod 16) + (sha512_sigma0 (X ! ((j + 1) mod 16)) + sha512_sigma1 (X ! ((j + 14) mod 16)) + X ! ((j + 9) mod 16)) =
    fips512_W M (i + j)"
proof -
  have nth: "X ! ((j + k) mod 16) = fips512_W M (i + j + k - 16)" if "k < 16" for k
    using word_ring_nth [OF assms(1) _ that] assms(2,3) mod_add_left_eq [of i 16 "j + k"] by (simp add: add.assoc)
  have "X ! (j mod 16) = fips512_W M (i + j - 16)" using nth [of 0] by simp
  moreover have "X ! ((j + 1) mod 16) = fips512_W M (i + j - 15)" "X ! ((j + 14) mod 16) = fips512_W M (i + j - 2)"
      "X ! ((j + 9) mod 16) = fips512_W M (i + j - 7)"
    using nth [of 1] nth [of 14] nth [of 9] assms(2) by simp_all
  ultimately show ?thesis using assms(2) by (simp add: fips512_W.simps [of M "i + j"] sha512_sigmas algebra_simps)
qed

lemma first_rounds512:
  "n \<le> 16 \<Longrightarrow>
     \<exists>X. fold (sha512_first M) [0..<n] (replicate 16 0, r) = (X, fold (fips512_step M) [0..<n] r) \<and> word_ring X (fips512_W M) n"
proof (induction n)
  case (Suc n)
  then obtain X where X: "fold (sha512_first M) [0..<n] (replicate 16 0, r) = (X, fold (fips512_step M) [0..<n] r)"
      "word_ring X (fips512_W M) n"
    by auto
  have w: "CRYPTO_load_u64_be (n * 8) M = fips512_W M n"
    using Suc.prems by (simp add: fips512_W.simps CRYPTO_load_u64_be_def mem_read_def mult.commute)
  have "word_ring (X[n := fips512_W M n]) (fips512_W M) (Suc n)" using word_ring_put [OF X(2)] Suc.prems by simp
  then show ?case using X(1) w by (simp add: round_is_step512)
qed (simp add: word_ring_0)

lemma sixteen_rounds:
  assumes "word_ring X (fips512_W M) i" and i: "16 \<le> i" "i mod 16 = 0"
  shows "\<exists>X'. fold (sha512_ROUND_16_80 i) [0..<n] (X, r) = (X', fold (fips512_step M) [i..<i + n] r) \<and> word_ring X' (fips512_W M) (i + n)"
proof (induction n)
  case 0
  then show ?case using assms(1) by simp
next
  case (Suc n)
  then obtain Y where Y: "fold (sha512_ROUND_16_80 i) [0..<n] (X, r) = (Y, fold (fips512_step M) [i..<i + n] r)"
      "word_ring Y (fips512_W M) (i + n)"
    by auto
  have "sha512_ROUND_16_80 i n (Y, fold (fips512_step M) [i..<i + n] r) =
      (Y[n mod 16 := fips512_W M (i + n)], fips512_step M (i + n) (fold (fips512_step M) [i..<i + n] r))"
    unfolding sha512_ROUND_16_80.simps Let_def schedule_step512 [OF Y(2) i] round_is_step512 ..
  moreover have "word_ring (Y[n mod 16 := fips512_W M (i + n)]) (fips512_W M) (i + Suc n)"
    using word_ring_put [OF Y(2)] i(2) mod_add_left_eq [of i 16 n] by simp
  ultimately show ?case using Y(1) by simp
qed

lemma fold_steps: "i \<le> j \<Longrightarrow> j \<le> k \<Longrightarrow> fold f [j..<k] (fold f [i..<j] r) = fold f [i..<k] r" for i j k :: nat
  using upt_add_eq_append [of i j "k - j"] by (simp only: fold_append comp_apply le_add_diff_inverse)

lemma sha512_block_eq: "sha512_block H M = fips512_compress H M"
proof -
  let ?s = "\<lambda>i j. fold (fips512_step M) [i..<j]" let ?R = "\<lambda>i. fold (sha512_ROUND_16_80 i) [0..<16]"
  obtain X where X: "fold (sha512_first M) [0..<16] (replicate 16 0, regs_of H) = (X, ?s 0 16 (regs_of H))" "word_ring X (fips512_W M) 16"
    using first_rounds512 [of 16 M "regs_of H", OF order_refl] by blast
  have go: "\<exists>X'. ?R i (X, r) = (X', ?s i j r) \<and> word_ring X' (fips512_W M) j"
    if "word_ring X (fips512_W M) i" "16 \<le> i" "i mod 16 = 0" "j = i + 16" for i j X r
    unfolding that(4) by (rule sixteen_rounds [OF that(1-3)])
  obtain X1 where X1: "?R 16 (X, ?s 0 16 (regs_of H)) = (X1, ?s 16 32 (?s 0 16 (regs_of H)))" "word_ring X1 (fips512_W M) 32"
    using go [OF X(2), of 32] by fastforce
  obtain X2 where X2: "?R 32 (X1, ?s 16 32 (?s 0 16 (regs_of H))) = (X2, ?s 32 48 (?s 16 32 (?s 0 16 (regs_of H))))"
      "word_ring X2 (fips512_W M) 48"
    using go [OF X1(2), of 48] by fastforce
  obtain X3 where X3: "?R 48 (X2, ?s 32 48 (?s 16 32 (?s 0 16 (regs_of H)))) = (X3, ?s 48 64 (?s 32 48 (?s 16 32 (?s 0 16 (regs_of H)))))"
      "word_ring X3 (fips512_W M) 64"
    using go [OF X2(2), of 64] by fastforce
  obtain X4 where X4: "?R 64 (X3, ?s 48 64 (?s 32 48 (?s 16 32 (?s 0 16 (regs_of H))))) =
      (X4, ?s 64 80 (?s 48 64 (?s 32 48 (?s 16 32 (?s 0 16 (regs_of H))))))"
    using go [OF X3(2), of 80] by fastforce
  have "fold (\<lambda>i. ?R i) [16, 32, 48, 64] Xr = ?R 64 (?R 48 (?R 32 (?R 16 Xr)))" for Xr
    by (simp del: upt_rec_numeral)
  moreover have "?s 64 80 (?s 48 64 (?s 32 48 (?s 16 32 (?s 0 16 (regs_of H))))) = ?s 0 80 (regs_of H)"
    by (simp add: fold_steps del: upt_rec_numeral)
  ultimately show ?thesis
    unfolding sha512_block_def fips512_compress_def X(1) Let_def by (simp only: X1(1) X2(1) X3(1) X4 snd_conv)
qed

lemma fips512_W_prefix: "128 \<le> length M \<Longrightarrow> fips512_W (take 128 M) t = fips512_W M t"
proof (induction t rule: less_induct)
  case (less t)
  show ?case
  proof (cases "t < 16")
    case True
    then have "take 8 (drop (8 * t) (take 128 M)) = take 8 (drop (8 * t) M)" by (simp add: drop_take min_def)
    then show ?thesis using True by (simp add: fips512_W.simps)
  next
    case False
    then show ?thesis using less by (simp add: fips512_W.simps [of _ t])
  qed
qed

lemma fips512_compress_prefix: "128 \<le> length M \<Longrightarrow> fips512_compress H (take 128 M) = fips512_compress H M"
proof -
  assume "128 \<le> length M"
  then have "fips512_step (take 128 M) t r = fips512_step M t r" for t r
    by (cases r rule: turn.cases) (simp add: fips512_W_prefix)
  then have "fips512_step (take 128 M) = fips512_step M" by blast
  then show ?thesis by (simp add: fips512_compress_def)
qed

lemma sha512_block_func: "n * 128 \<le> length d \<Longrightarrow> sha512_block_data_order H d n = chain fips512_compress 128 H (take (n * 128) d)"
  unfolding sha512_block_data_order_def
proof (induction n arbitrary: H d)
  case (Suc n)
  have "chain fips512_compress 128 H (take (Suc n * 128) d) = chain fips512_compress 128 (fips512_compress H (take 128 d)) (take (n * 128) (drop 128 d))"
    using Suc.prems by (simp add: chain.simps [of fips512_compress 128 H] drop_take)
  then show ?case using Suc by (simp add: sha512_block_eq fips512_compress_prefix)
qed simp

lemma sha512_one_block: "length d = 128 \<Longrightarrow> sha512_block_data_order H d 1 = chain fips512_compress 128 H d"
  using sha512_block_func [of 1 d H] by simp

section \<open>Contexts\<close>

lemma up_to_block: "0 < bs \<Longrightarrow> m + (bs - m mod bs) = (m div bs + 1) * bs" for m bs :: nat
  using div_mult_mod_eq [of m bs] mod_less_divisor [of bs m] unfolding distrib_right by linarith

lemma same_block:
  fixes m bs k :: nat
  assumes "m mod bs + k < bs"
  shows "(m + k) mod bs = m mod bs + k" and "(m + k) div bs = m div bs"
proof -
  have e: "m + k = bs * (m div bs) + (m mod bs + k)" by simp
  show "(m + k) mod bs = m mod bs + k" unfolding e mod_mult_self4 using assms by simp
  show "(m + k) div bs = m div bs" unfolding e using assms by (subst div_mult_self4) simp_all
qed

text \<open>
  A context that has taken in \<open>msg\<close>. Only the bytes it holds matter: what is behind them in the buffer is stale.
\<close>

definition sha512_holds :: "u64 list \<Rightarrow> u8 list \<Rightarrow> sha512_ctx \<Rightarrow> bool" where
  "sha512_holds h0 msg c \<longleftrightarrow>
     sh_h c = chain fips512_compress 128 h0 msg \<and> sh_num c = length msg mod 128 \<and> length (sh_p c) = 128 \<and>
     take (sh_num c) (sh_p c) = drop (128 * (length msg div 128)) msg"

definition sha512_bits :: "u8 list \<Rightarrow> sha512_ctx \<Rightarrow> bool" where
  "sha512_bits msg c \<longleftrightarrow> unat (sh_Nh c) * 2 ^ 64 + unat (sh_Nl c) = 8 * length msg mod 2 ^ 128"

lemma sha512_absorb_holds:
  assumes "sh_h c = chain fips512_compress 128 h0 msg" and "length msg mod 128 = 0" and "sh_num c = 0" and "length (sh_p c) = 128"
  shows "sha512_holds h0 (msg @ inp) (sha512_absorb inp c)"
proof -
  let ?n = "length inp div 128" let ?r = "drop (?n * 128) inp"
  obtain q where q: "length msg = q * 128" using assms(2) by (metis mod_0_imp_dvd dvd_def mult.commute)
  have ch: "chain fips512_compress 128 h0 (msg @ inp) = chain fips512_compress 128 (sh_h c) inp"
    using chain_append [OF _ q, of fips512_compress h0 inp] assms(1) by simp
  have blocks: "sha512_block_data_order (sh_h c) inp ?n = chain fips512_compress 128 (sh_h c) inp"
    using sha512_block_func [of ?n inp "sh_h c"] chain_whole_blocks [of 128 fips512_compress "sh_h c" inp] by (simp add: mult.commute)
  have lr: "length ?r = length inp mod 128" by (simp add: minus_div_mult_eq_mod)
  have rest: "drop (128 * ((length msg + length inp) div 128)) (msg @ inp) = ?r" using q by (simp add: algebra_simps)
  have m: "(length msg + length inp) mod 128 = length inp mod 128" using q by simp
  have d: "length inp - length inp mod 128 = ?n * 128" by (simp add: minus_mod_eq_div_mult)
  show ?thesis
  proof (cases "128 \<le> length inp")
    case True
    have w: "take (length x) (mem_write 0 x p) = x" for x p :: "u8 list" by (simp add: mem_write_def)
    have "length (mem_write 0 ?r (sh_p c)) = 128" using assms(4) lr by simp
    moreover have "length inp \<le> ?n * 128 \<longrightarrow> length inp mod 128 = 0" using div_mult_mod_eq [of "length inp" 128] by linarith
    ultimately show ?thesis
      using True assms ch blocks rest m lr w [of ?r "sh_p c"]
      by (simp add: sha512_absorb_def sha512_holds_def d Let_def)
  next
    case False
    then have "?n = 0" by simp
    then show ?thesis using False assms ch rest m
      by (simp add: sha512_absorb_def sha512_holds_def mem_write_def Let_def)
  qed
qed

lemma sha512_update_holds:
  assumes "sha512_holds h0 msg c"
  shows "sha512_holds h0 (msg @ inp) (SHA512_Update c inp)"
proof (cases "inp = []")
  case True
  then show ?thesis using assms by (simp add: SHA512_Update_def)
next
  case False
  let ?n = "length msg mod 128" let ?q = "length msg div 128" let ?r = "drop (128 * ?q) msg"
  define c1 where "c1 = (let l = sh_Nl c + push_bit 3 (of_nat (length inp));
      c = (if l < sh_Nl c then c\<lparr>sh_Nh := sh_Nh c + 1\<rparr> else c);
      c = c\<lparr>sh_Nh := sh_Nh c + of_nat (drop_bit 61 (length inp))\<rparr> in c\<lparr>sh_Nl := l\<rparr>)"
  have c1: "sh_h c1 = chain fips512_compress 128 h0 msg" "sh_num c1 = ?n" "length (sh_p c1) = 128" "take ?n (sh_p c1) = ?r"
    using assms by (auto simp: c1_def sha512_holds_def Let_def)
  have lr: "length ?r = ?n" by (simp add: minus_mult_div_eq_mod)
  have unfolded: "SHA512_Update c inp =
      (if ?n \<noteq> 0
       then if length inp < 128 - ?n then c1\<lparr>sh_p := mem_write ?n inp (sh_p c1), sh_num := ?n + length inp\<rparr>
            else sha512_absorb (drop (128 - ?n) inp)
              (c1\<lparr>sh_p := mem_write ?n (take (128 - ?n) inp) (sh_p c1), sh_num := 0,
                 sh_h := sha512_block_data_order (sh_h c1) (mem_write ?n (take (128 - ?n) inp) (sh_p c1)) 1\<rparr>)
       else sha512_absorb inp c1)"
    using False c1(2) by (simp add: SHA512_Update_def c1_def Let_def)
  consider "?n = 0" | "?n \<noteq> 0" "\<not> length inp < 128 - ?n" | "?n \<noteq> 0" "length inp < 128 - ?n" by blast
  then show ?thesis
  proof cases
    case 1
    then show ?thesis using sha512_absorb_holds [OF c1(1) _ _ c1(3)] c1(2) by (simp add: unfolded)
  next
    case 2
    let ?x = "take (128 - ?n) inp"
    have lx: "length ?x = 128 - ?n" using 2(2) by simp
    have w: "mem_write ?n ?x (sh_p c1) = ?r @ ?x" using c1(3,4) lx by (simp add: mem_write_def)
    have lb: "length (?r @ ?x) = 128" using lr lx mod_less_divisor [of 128 "length msg"] by simp
    have b: "sha512_block_data_order (sh_h c1) (?r @ ?x) 1 = chain fips512_compress 128 h0 (msg @ ?x)"
      unfolding sha512_one_block [OF lb] c1(1) by (rule chain_rest) simp
    have "length (msg @ ?x) = (?q + 1) * 128" unfolding length_append lx by (rule up_to_block) simp
    then have "length (msg @ ?x) mod 128 = 0" by (simp only: mod_mult_self2_is_0)
    then have "sha512_holds h0 ((msg @ ?x) @ drop (128 - ?n) inp) (SHA512_Update c inp)"
      using 2 b lb by (simp only: unfolded if_True if_False not_False_eq_True w) (rule sha512_absorb_holds; simp)
    then show ?thesis by simp
  next
    case 3
    have "?n + length inp < 128" using 3(2) by linarith
    then have m: "length (msg @ inp) mod 128 = ?n + length inp" "length (msg @ inp) div 128 = ?q"
      unfolding length_append by (rule same_block)+
    have "length (?r @ inp) < 128" using lr 3(2) by simp
    then have "chain fips512_compress 128 h0 (msg @ inp) = sh_h c1"
      using chain_rest [of 128 fips512_compress h0 msg inp] c1(1) by simp
    moreover have "drop (128 * ?q) (msg @ inp) = ?r @ inp" by simp
    moreover have "length (mem_write ?n inp (sh_p c1)) = 128" using c1(3) 3(2) by simp
    moreover have "take (?n + length inp) (mem_write ?n inp (sh_p c1)) = ?r @ inp" using c1(3,4) lr by (simp add: mem_write_def)
    ultimately show ?thesis using 3 m c1 by (simp add: unfolded sha512_holds_def)
  qed
qed

lemma sha512_absorb_counts [simp]:
  "sh_Nh (sha512_absorb inp c) = sh_Nh c" "sh_Nl (sha512_absorb inp c) = sh_Nl c" "sh_md_len (sha512_absorb inp c) = sh_md_len c"
  by (simp_all add: sha512_absorb_def Let_def)

lemma sha512_counts:
  "sh_Nh (SHA512_Update c inp) =
     (if sh_Nl c + push_bit 3 (of_nat (length inp)) < sh_Nl c then sh_Nh c + 1 else sh_Nh c) + of_nat (drop_bit 61 (length inp))"
  "sh_Nl (SHA512_Update c inp) = sh_Nl c + push_bit 3 (of_nat (length inp))"
  "sh_md_len (SHA512_Update c inp) = sh_md_len c"
  by (simp_all add: SHA512_Update_def Let_def)

lemma sha512_update_bits: "sha512_bits msg c \<Longrightarrow> sha512_bits (msg @ inp) (SHA512_Update c inp)"
  using count_words [of "sh_Nh c" "sh_Nl c" "8 * length msg" "sh_Nl (SHA512_Update c inp)" "length inp" "sh_Nh (SHA512_Update c inp)"]
  by (simp add: sha512_bits_def sha512_counts distrib_left)

lemma sha512_updates:
  "sha512_holds h0 msg c \<and> sha512_bits msg c \<Longrightarrow>
     sha512_holds h0 (msg @ concat chunks) (foldl SHA512_Update c chunks) \<and> sha512_bits (msg @ concat chunks) (foldl SHA512_Update c chunks) \<and>
     sh_md_len (foldl SHA512_Update c chunks) = sh_md_len c"
proof (induction chunks arbitrary: c msg)
  case (Cons x chunks)
  then show ?case
    using Cons.IH [of "msg @ x" "SHA512_Update c x"] sha512_update_holds [of h0 msg c x] sha512_update_bits [of msg c x]
    by (simp add: sha512_counts)
qed simp

lemma sha512_init_holds:
  "length (sh_p ctx) = 128 \<Longrightarrow> sh_h c = h0 \<Longrightarrow> sh_num c = 0 \<Longrightarrow> sh_p c = sh_p ctx \<Longrightarrow> sh_Nh c = 0 \<Longrightarrow> sh_Nl c = 0 \<Longrightarrow>
     sha512_holds h0 [] c \<and> sha512_bits [] c"
  by (simp add: sha512_holds_def sha512_bits_def)

lemma sha512_final_length:
  assumes "sha512_bits msg c" and "length d = 128"
  shows "CRYPTO_store_u64_be 120 (sh_Nl c) (CRYPTO_store_u64_be 112 (sh_Nh c) d) = take 112 d @ count_octets True 16 (8 * length msg)"
proof -
  let ?t = "8 * length msg" let ?v = "unat (sh_Nh c) * 2 ^ 64 + unat (sh_Nl c)"
  have nl: "unat (sh_Nl c) < 2 ^ 64" using unsigned_less [of "sh_Nl c"] by simp
  have "be_bytes 16 ?t = be_bytes 16 ?v" using be_bytes_mod [of 16 ?t] assms(1) by (simp add: sha512_bits_def)
  also have "\<dots> = be_bytes 8 (unat (sh_Nh c)) @ be_bytes 8 (unat (sh_Nl c))"
    using be_bytes_split [of 8 8 ?v] nl be_bytes_mod [of 8 ?v] be_bytes_mod [of 8 "unat (sh_Nl c)"] by simp
  finally have o: "be_bytes 16 ?t = be_bytes 8 (unat (sh_Nh c)) @ be_bytes 8 (unat (sh_Nl c))" .
  have w: "mem_write 120 y (mem_write 112 x d) = take 112 d @ x @ y" if "length x = 8" "length y = 8" for x y :: "u8 list"
    using that assms(2) mem_write_append [of 112 x y d] by (simp add: mem_write_def)
  show ?thesis using w o by (simp add: CRYPTO_store_u64_be_def count_octets_def)
qed

lemma sha512_final_holds:
  assumes "sha512_holds h0 msg c" and "sha512_bits msg c"
  shows "sh_h (snd (sha512_final_impl out_null c)) = chain fips512_compress 128 h0 (padded 128 16 True msg)"
proof -
  let ?n = "length msg mod 128" let ?r = "drop (128 * (length msg div 128)) msg" let ?L = "count_octets True 16 (8 * length msg)"
  have n: "?n < 128" by simp
  have lr: "length ?r = ?n" by (simp add: minus_mult_div_eq_mod)
  have num: "sh_num c = ?n" and h: "sh_h c = chain fips512_compress 128 h0 msg" and lp: "length (sh_p c) = 128" "take ?n (sh_p c) = ?r"
    using assms(1) by (auto simp: sha512_holds_def)
  obtain t where p: "sh_p c = ?r @ t" "length t = 128 - ?n"
    using append_take_drop_id [of ?n "sh_p c"] lp lr by (metis length_drop)
  define y where "y = drop 1 t"
  have ly: "length y = 127 - ?n" using p(2) by (simp add: y_def)
  have p1: "(sh_p c)[?n := 0x80] = ?r @ 0x80 # y"
    using p n lr by (cases t) (simp_all add: y_def list_update_append)
  have store: "CRYPTO_store_u64_be 120 (sh_Nl c) (CRYPTO_store_u64_be 112 (sh_Nh c) d) = take 112 d @ ?L" if "length d = 128" for d
    by (rule sha512_final_length [OF assms(2) that])
  have zeros: "mem_write (?n + 1) (replicate m 0) (?r @ 0x80 # y) = (?r @ 0x80 # replicate m 0) @ drop m y" if "m \<le> 127 - ?n" for m
    using lr that by (simp add: mem_write_def)
  show ?thesis
  proof (cases "?n + 17 > 128")
    case True
    let ?x = "0x80 # replicate (127 - ?n) (0 :: u8)" let ?d = "replicate 112 0 @ drop 112 (?r @ ?x)"
    have lx: "length (?r @ ?x) = 128" using lr n by simp
    have p2: "mem_write (?n + 1) (replicate (128 - (?n + 1)) 0) ((sh_p c)[?n := 0x80]) = ?r @ ?x"
      unfolding p1 using zeros [of "127 - ?n"] ly by simp
    have h1: "sha512_block_data_order (sh_h c) (?r @ ?x) 1 = chain fips512_compress 128 h0 (msg @ ?x)"
      unfolding sha512_one_block [OF lx] h by (rule chain_rest) simp
    have w0: "mem_write 0 (replicate 112 0) (?r @ ?x) = ?d" using lx by (simp add: mem_write_def)
    have zl: "length (replicate 112 0 @ drop 112 z) = 128" and zt: "take 112 (replicate 112 0 @ drop 112 z) = replicate 112 0"
      if "length z = 128" for z :: "u8 list"
      using that by simp_all
    have "sh_h (snd (sha512_final_impl out_null c)) =
        sha512_block_data_order (sha512_block_data_order (sh_h c) (mem_write (?n + 1) (replicate (128 - (?n + 1)) 0) ((sh_p c)[?n := 0x80])) 1)
          (CRYPTO_store_u64_be 120 (sh_Nl c) (CRYPTO_store_u64_be 112 (sh_Nh c)
            (mem_write 0 (replicate 112 0) (mem_write (?n + 1) (replicate (128 - (?n + 1)) 0) ((sh_p c)[?n := 0x80]))))) 1"
      using True by (simp add: sha512_final_impl_def num Let_def)
    also have "\<dots> = sha512_block_data_order (chain fips512_compress 128 h0 (msg @ ?x)) (replicate 112 0 @ ?L) 1"
      unfolding p2 h1 w0 store [OF zl [OF lx]] zt [OF lx] ..
    also have "\<dots> = chain fips512_compress 128 (chain fips512_compress 128 h0 (msg @ ?x)) (replicate 112 0 @ ?L)"
      by (rule sha512_one_block) simp
    also have "\<dots> = chain fips512_compress 128 h0 ((msg @ ?x) @ replicate 112 0 @ ?L)"
    proof (rule chain_append [symmetric, where q = "length msg div 128 + 1"])
      have "length (msg @ ?x) = length msg + (128 - ?n)" using n by simp
      also have "\<dots> = (length msg div 128 + 1) * 128" by (rule up_to_block) simp
      finally show "length (msg @ ?x) = (length msg div 128 + 1) * 128" .
    qed simp
    also have "(msg @ ?x) @ replicate 112 0 @ ?L = padded 128 16 True msg"
    proof -
      have z: "239 - ?n = (127 - ?n) + 112" using True n by linarith
      have z: "replicate (239 - ?n) 0 = replicate (127 - ?n) (0 :: u8) @ replicate 112 0" unfolding z replicate_add ..
      have c: "?n + (16 + 1) > 128" using True by simp
      show ?thesis unfolding padded_eq [OF refl, of 16 128, simplified] using z c by simp
    qed
    finally show ?thesis .
  next
    case False
    let ?d = "(?r @ 0x80 # replicate (111 - ?n) 0) @ drop (111 - ?n) y"
    have la: "length (?r @ 0x80 # replicate (111 - ?n) (0 :: u8)) = 112" using lr False by simp
    have tk: "take 112 ?d = ?r @ 0x80 # replicate (111 - ?n) 0" unfolding la [symmetric] append_eq_conv_conj [symmetric] by simp
    have p2: "mem_write (?n + 1) (replicate (112 - (?n + 1)) 0) ((sh_p c)[?n := 0x80]) = ?d"
      unfolding p1 using zeros [of "111 - ?n"] by simp
    have ld: "length ?d = 128" using lr ly False by simp
    have lb: "length (?r @ 0x80 # replicate (111 - ?n) 0 @ ?L) = 128" using lr False by simp
    have "sh_h (snd (sha512_final_impl out_null c)) =
        sha512_block_data_order (sh_h c)
          (CRYPTO_store_u64_be 120 (sh_Nl c) (CRYPTO_store_u64_be 112 (sh_Nh c)
            (mem_write (?n + 1) (replicate (112 - (?n + 1)) 0) ((sh_p c)[?n := 0x80])))) 1"
      using False by (simp add: sha512_final_impl_def num Let_def)
    also have "\<dots> = sha512_block_data_order (sh_h c) (?r @ 0x80 # replicate (111 - ?n) 0 @ ?L) 1"
      unfolding p2 store [OF ld] tk by simp
    also have "\<dots> = chain fips512_compress 128 h0 (msg @ 0x80 # replicate (111 - ?n) 0 @ ?L)"
      unfolding sha512_one_block [OF lb] h by (rule chain_rest) simp
    finally show ?thesis using False padded_eq [OF refl, of 16 128 True msg] by simp
  qed
qed

lemma length_chain_compress512: "length H = 8 \<Longrightarrow> length (chain fips512_compress 128 H xs) = 8"
  by (rule length_chain) (simp_all add: fips512_compress_def)

lemma sha512_final_keeps [simp]: "sh_md_len (snd (sha512_final_impl out_null c)) = sh_md_len c"
  by (simp add: sha512_final_impl_def Let_def)

lemma sha512_final_null: "fst (sha512_final_impl True c) = None"
  by (simp add: sha512_final_impl_def Let_def)

lemma sha512_final_out:
  "fst (sha512_final_impl False c) =
     Some (concat (map (\<lambda>i. be_bytes 8 (unat (sh_h (snd (sha512_final_impl False c)) ! i))) [0..<sh_md_len c div 8]))"
  by (simp add: sha512_final_impl_def Let_def)

lemma words_out:
  "n \<le> length H \<Longrightarrow> map (\<lambda>i. be_bytes k (unat (H ! i))) [0..<n] = map (be_bytes k \<circ> unat) (take n H)"
  by (intro nth_equalityI) simp_all

lemma sha512_stream:
  assumes c: "length (sh_p ctx) = 128" "sh_h c = h0" "sh_num c = 0" "sh_p c = sh_p ctx" "sh_Nh c = 0" "sh_Nl c = 0"
    and h0: "length h0 = 8" and n: "sh_md_len c = 8 * n" "n \<le> 8"
  shows "fst (sha512_final_impl False (foldl SHA512_Update c chunks)) = Some (fips512_hash h0 n (concat chunks))"
proof -
  have "sha512_holds h0 (concat chunks) (foldl SHA512_Update c chunks)" "sha512_bits (concat chunks) (foldl SHA512_Update c chunks)"
      "sh_md_len (foldl SHA512_Update c chunks) = sh_md_len c"
    using sha512_updates [of h0 "[]" c chunks] sha512_init_holds [OF c] by simp_all
  then have h: "sh_h (snd (sha512_final_impl False (foldl SHA512_Update c chunks))) = chain fips512_compress 128 h0 (padded 128 16 True (concat chunks))"
    and m: "sh_md_len (foldl SHA512_Update c chunks) = 8 * n"
    using sha512_final_holds n(1) by simp_all
  have l: "n \<le> length (chain fips512_compress 128 h0 (padded 128 16 True (concat chunks)))"
    using length_chain_compress512 [OF h0] n(2) by simp
  then show ?thesis unfolding sha512_final_out h m fips512_hash_def using words_out [OF l, of 8] by simp
qed

section \<open>Properties\<close>

text \<open>
  C24. Whatever the buffer of the context held before, fed a message in any pieces, SHA-512, SHA-384 and SHA-512/256 give
  the digest FIPS 180-4 defines for the whole message; given no place to write it they fail.
\<close>

theorem sha512_is_fips:
  assumes "length (sh_p ctx) = 128"
  shows "fst (SHA512_Final False (foldl SHA512_Update (SHA512_Init ctx) chunks)) =
      Some (fips512_hash (sh_h (SHA512_Init ctx)) 8 (concat chunks)) \<and>
    fst (SHA384_Final (foldl SHA384_Update (SHA384_Init ctx) chunks)) =
      Some (fips512_hash (sh_h (SHA384_Init ctx)) 6 (concat chunks)) \<and>
    fst (SHA512_256_Final (foldl SHA512_256_Update (SHA512_256_Init ctx) chunks)) =
      Some (fips512_hash (sh_h (SHA512_256_Init ctx)) 4 (concat chunks)) \<and>
    fst (SHA512_Final True ctx) = None"
proof -
  have "SHA384_Update = SHA512_Update" "SHA512_256_Update = SHA512_Update"
    by (simp_all add: fun_eq_iff SHA384_Update_def SHA512_256_Update_def)
  then show ?thesis
    using sha512_stream [OF assms, of "SHA512_Init ctx" _ 8 chunks] sha512_stream [OF assms, of "SHA384_Init ctx" _ 6 chunks]
      sha512_stream [OF assms, of "SHA512_256_Init ctx" _ 4 chunks]
    by (simp add: SHA512_Final_def SHA384_Final_def SHA512_256_Final_def SHA512_Init_def SHA384_Init_def SHA512_256_Init_def
        SHA512_DIGEST_LENGTH_def SHA384_DIGEST_LENGTH_def SHA512_256_DIGEST_LENGTH_def sha512_final_null)
qed

theorem sha512_is_fips_witness:
  "\<exists>h0. fst (SHA512_Final False (foldl SHA512_Update
      (SHA512_Init \<lparr>sh_h = [], sh_Nl = 7, sh_Nh = 7, sh_p = replicate 128 3, sh_num = 9, sh_md_len = 0\<rparr>) [[0x61], [], [0x62, 0x63]])) =
    Some (fips512_hash h0 8 [0x61, 0x62, 0x63])"
  using sha512_is_fips [of "\<lparr>sh_h = [], sh_Nl = 7, sh_Nh = 7, sh_p = replicate 128 3, sh_num = 9, sh_md_len = 0\<rparr>" "[[0x61], [], [0x62, 0x63]]"]
  by auto

end
