(* ===== verification/Sha1.thy ===== *)
theory Sha1
  imports Md32
begin

text \<open>
  \<^verbatim>\<open>crypto/fipsmodule/sha/sha1.c\<close>: SHA-1. Eighty rounds with six register names that turn, a schedule in sixteen words
  and the simplified round functions; shown to compute the compression function of FIPS 180-4.
\<close>

section \<open>The block function\<close>

definition Xupdate :: "u32 \<Rightarrow> u32 \<Rightarrow> u32 \<Rightarrow> u32 \<Rightarrow> u32" where
  "Xupdate ia ib ic id' = CRYPTO_rotl_u32 (ia XOR ib XOR ic XOR id') 1"

definition K_00_19 :: u32 where
  "K_00_19 = 0x5a827999"

definition K_20_39 :: u32 where
  "K_20_39 = 0x6ed9eba1"

definition K_40_59 :: u32 where
  "K_40_59 = 0x8f1bbcdc"

definition K_60_79 :: u32 where
  "K_60_79 = 0xca62c1d6"

definition F_00_19 :: "u32 \<Rightarrow> u32 \<Rightarrow> u32 \<Rightarrow> u32" where
  "F_00_19 b c d = ((c XOR d) AND b) XOR d"

definition F_20_39 :: "u32 \<Rightarrow> u32 \<Rightarrow> u32 \<Rightarrow> u32" where
  "F_20_39 b c d = b XOR c XOR d"

definition F_40_59 :: "u32 \<Rightarrow> u32 \<Rightarrow> u32 \<Rightarrow> u32" where
  "F_40_59 b c d = (b AND c) OR ((b OR c) AND d)"

definition F_60_79 :: "u32 \<Rightarrow> u32 \<Rightarrow> u32 \<Rightarrow> u32" where
  "F_60_79 b c d = F_20_39 b c d"

text \<open>The registers in the order a round has them as arguments; \<open>f\<close> is the one it sets.\<close>

type_synonym sha1_regs = "u32 \<times> u32 \<times> u32 \<times> u32 \<times> u32 \<times> u32"

fun sha1_turn :: "sha1_regs \<Rightarrow> sha1_regs" where
  "sha1_turn (a, b, c, d, e, f) = (f, a, b, c, d, e)"

fun BODY_00_15 :: "u32 \<Rightarrow> sha1_regs \<Rightarrow> sha1_regs" where
  "BODY_00_15 xi (a, b, c, d, e, f) =
     (let f = xi + e + K_00_19 + CRYPTO_rotl_u32 a 5 + F_00_19 b c d; b = CRYPTO_rotl_u32 b 30 in (a, b, c, d, e, f))"

text \<open>The other bodies, after their update of the schedule; \<open>x\<close> is its result.\<close>

fun BODY_16_19 :: "u32 \<Rightarrow> sha1_regs \<Rightarrow> sha1_regs" where
  "BODY_16_19 x (a, b, c, d, e, f) =
     (let f = x; f = f + (e + K_00_19 + CRYPTO_rotl_u32 a 5 + F_00_19 b c d); b = CRYPTO_rotl_u32 b 30 in (a, b, c, d, e, f))"

fun BODY_20_39 :: "u32 \<Rightarrow> sha1_regs \<Rightarrow> sha1_regs" where
  "BODY_20_39 x (a, b, c, d, e, f) =
     (let f = x; f = f + (e + K_20_39 + CRYPTO_rotl_u32 a 5 + F_20_39 b c d); b = CRYPTO_rotl_u32 b 30 in (a, b, c, d, e, f))"

fun BODY_40_59 :: "u32 \<Rightarrow> sha1_regs \<Rightarrow> sha1_regs" where
  "BODY_40_59 x (a, b, c, d, e, f) =
     (let f = x; f = f + (e + K_40_59 + CRYPTO_rotl_u32 a 5 + F_40_59 b c d); b = CRYPTO_rotl_u32 b 30 in (a, b, c, d, e, f))"

fun BODY_60_79 :: "u32 \<Rightarrow> sha1_regs \<Rightarrow> sha1_regs" where
  "BODY_60_79 x (a, b, c, d, e, f) =
     (let f = x + e + K_60_79 + CRYPTO_rotl_u32 a 5 + F_60_79 b c d; b = CRYPTO_rotl_u32 b 30 in (a, b, c, d, e, f))"

fun sha1_first :: "u8 list \<Rightarrow> nat \<Rightarrow> u32 list \<times> sha1_regs \<Rightarrow> u32 list \<times> sha1_regs" where
  "sha1_first data i (X, r) =
     (let x = CRYPTO_load_u32_be (4 * i) data in (X[i := x], sha1_turn (BODY_00_15 x r)))"

fun sha1_later :: "nat \<Rightarrow> u32 list \<times> sha1_regs \<Rightarrow> u32 list \<times> sha1_regs" where
  "sha1_later i (X, r) =
     (let x = Xupdate (X ! (i mod 16)) (X ! ((i + 2) mod 16)) (X ! ((i + 8) mod 16)) (X ! ((i + 13) mod 16));
          r = (if i < 20 then BODY_16_19 x r else if i < 40 then BODY_20_39 x r else if i < 60 then BODY_40_59 x r else BODY_60_79 x r)
      in (X[i mod 16 := x], sha1_turn r))"

text \<open>The sixth register and the ring, here zero at first, are written before they are read.\<close>

definition sha1_block :: "u32 list \<Rightarrow> u8 list \<Rightarrow> u32 list" where
  "sha1_block state data =
     (let Xr = fold (sha1_first data) [0..<16] (replicate 16 0, (state ! 0, state ! 1, state ! 2, state ! 3, state ! 4, 0));
          Xr = fold sha1_later [16..<80] Xr
      in (case snd Xr of (a, b, c, d, e, f) \<Rightarrow> [state ! 0 + a, state ! 1 + b, state ! 2 + c, state ! 3 + d, state ! 4 + e]))"

text \<open>The loop tests at its end; it is never entered without a block.\<close>

fun sha1_block_data_order :: "u32 list \<Rightarrow> u8 list \<Rightarrow> nat \<Rightarrow> u32 list" where
  "sha1_block_data_order state data num =
     (let state = sha1_block state data; num = num - 1
      in if num = 0 then state else sha1_block_data_order state (drop 64 data) num)"

declare sha1_block_data_order.simps [simp del]

section \<open>The hash function\<close>

definition SHA1_Init :: md32_ctx where
  "SHA1_Init = \<lparr>md_h = [0x67452301, 0xefcdab89, 0x98badcfe, 0x10325476, 0xc3d2e1f0], md_Nl = 0, md_Nh = 0,
     md_data = replicate 64 0, md_num = 0\<rparr>"

definition SHA1_Transform :: "md32_ctx \<Rightarrow> u8 list \<Rightarrow> md32_ctx" where
  "SHA1_Transform c data = c\<lparr>md_h := sha1_block_data_order (md_h c) data 1\<rparr>"

definition SHA1_Update :: "md32_ctx \<Rightarrow> u8 list \<Rightarrow> md32_ctx" where
  "SHA1_Update c data = crypto_md32_update sha1_block_data_order 64 data c"

definition SHA1_Final :: "md32_ctx \<Rightarrow> u8 list \<times> md32_ctx" where
  "SHA1_Final c =
     (let c = crypto_md32_final sha1_block_data_order 64 True c;
          out = replicate 20 0;
          out = CRYPTO_store_u32_be 0 (md_h c ! 0) out;
          out = CRYPTO_store_u32_be 4 (md_h c ! 1) out;
          out = CRYPTO_store_u32_be 8 (md_h c ! 2) out;
          out = CRYPTO_store_u32_be 12 (md_h c ! 3) out;
          out = CRYPTO_store_u32_be 16 (md_h c ! 4) out
      in (out, c))"

definition SHA1 :: "u8 list \<Rightarrow> u8 list" where
  "SHA1 data = fst (SHA1_Final (SHA1_Update SHA1_Init data))"

section \<open>The standard\<close>

fun sha1_W :: "u8 list \<Rightarrow> nat \<Rightarrow> u32" where
  "sha1_W M t =
     (if t < 16 then of_nat (be_val (take 4 (drop (4 * t) M)))
      else word_rotl 1 (sha1_W M (t - 3) XOR sha1_W M (t - 8) XOR sha1_W M (t - 14) XOR sha1_W M (t - 16)))"

declare sha1_W.simps [simp del]

definition sha1_f :: "nat \<Rightarrow> u32 \<Rightarrow> u32 \<Rightarrow> u32 \<Rightarrow> u32" where
  "sha1_f t x y z =
     (if t < 20 then (x AND y) XOR (NOT x AND z)
      else if 40 \<le> t \<and> t < 60 then (x AND y) XOR (x AND z) XOR (y AND z)
      else x XOR y XOR z)"

definition sha1_K :: "nat \<Rightarrow> u32" where
  "sha1_K t = (if t < 20 then 0x5a827999 else if t < 40 then 0x6ed9eba1 else if t < 60 then 0x8f1bbcdc else 0xca62c1d6)"

fun sha1_step :: "u8 list \<Rightarrow> nat \<Rightarrow> u32 \<times> u32 \<times> u32 \<times> u32 \<times> u32 \<Rightarrow> u32 \<times> u32 \<times> u32 \<times> u32 \<times> u32" where
  "sha1_step M t (a, b, c, d, e) =
     (word_rotl 5 a + sha1_f t b c d + e + sha1_K t + sha1_W M t, a, word_rotl 30 b, c, d)"

definition sha1_compress :: "u32 list \<Rightarrow> u8 list \<Rightarrow> u32 list" where
  "sha1_compress H M =
     (case fold (sha1_step M) [0..<80] (H ! 0, H ! 1, H ! 2, H ! 3, H ! 4) of
        (a, b, c, d, e) \<Rightarrow> [H ! 0 + a, H ! 1 + b, H ! 2 + c, H ! 3 + d, H ! 4 + e])"

definition sha1_hash :: "u8 list \<Rightarrow> u8 list" where
  "sha1_hash msg = concat (map (be_bytes 4 \<circ> unat) (chain sha1_compress 64 (md_h SHA1_Init) (padded 64 8 True msg)))"

section \<open>The block function is the compression function\<close>

lemma F_is_f:
  "t < 20 \<Longrightarrow> F_00_19 b c d = sha1_f t b c d"
  "20 \<le> t \<Longrightarrow> t < 40 \<Longrightarrow> F_20_39 b c d = sha1_f t b c d"
  "40 \<le> t \<Longrightarrow> t < 60 \<Longrightarrow> F_40_59 b c d = sha1_f t b c d"
  "60 \<le> t \<Longrightarrow> F_60_79 b c d = sha1_f t b c d"
  by (intro bit_word_eqI; auto simp: sha1_f_def F_00_19_def F_20_39_def F_40_59_def F_60_79_def bit_simps)+

text \<open>The first five registers are the working variables.\<close>

fun first5 :: "sha1_regs \<Rightarrow> u32 \<times> u32 \<times> u32 \<times> u32 \<times> u32" where
  "first5 (a, b, c, d, e, f) = (a, b, c, d, e)"

lemma sha1_rotl: "CRYPTO_rotl_u32 a 5 = word_rotl 5 a" "CRYPTO_rotl_u32 a 30 = word_rotl 30 a" "CRYPTO_rotl_u32 a 1 = word_rotl 1 a"
  by (simp_all add: CRYPTO_rotl_u32_eq)

lemma first_is_step: "t < 16 \<Longrightarrow> first5 (sha1_turn (BODY_00_15 (sha1_W M t) r)) = sha1_step M t (first5 r)"
  by (cases r rule: sha1_turn.cases) (simp add: F_is_f(1) sha1_rotl K_00_19_def sha1_K_def Let_def ac_simps)

lemma later_is_step:
  assumes "16 \<le> t"
  shows "first5 (sha1_turn (if t < 20 then BODY_16_19 (sha1_W M t) r else if t < 40 then BODY_20_39 (sha1_W M t) r
    else if t < 60 then BODY_40_59 (sha1_W M t) r else BODY_60_79 (sha1_W M t) r)) = sha1_step M t (first5 r)"
proof -
  obtain a b c d e f where r: "r = (a, b, c, d, e, f)" by (cases r rule: sha1_turn.cases)
  consider "t < 20" | "20 \<le> t" "t < 40" | "40 \<le> t" "t < 60" | "60 \<le> t" by linarith
  then show ?thesis
    by cases (simp_all add: r F_is_f sha1_rotl K_00_19_def K_20_39_def K_40_59_def K_60_79_def sha1_K_def Let_def ac_simps)
qed

lemma sha1_schedule_step:
  assumes "word_ring X (sha1_W M) i" and "16 \<le> i"
  shows "Xupdate (X ! (i mod 16)) (X ! ((i + 2) mod 16)) (X ! ((i + 8) mod 16)) (X ! ((i + 13) mod 16)) = sha1_W M i"
proof -
  have "X ! (i mod 16) = sha1_W M (i - 16)" using word_ring_nth [OF assms, of 0] by simp
  moreover have "X ! ((i + 2) mod 16) = sha1_W M (i - 14)" "X ! ((i + 8) mod 16) = sha1_W M (i - 8)" "X ! ((i + 13) mod 16) = sha1_W M (i - 3)"
    using word_ring_nth [OF assms, of 2] word_ring_nth [OF assms, of 8] word_ring_nth [OF assms, of 13] assms(2) by simp_all
  ultimately show ?thesis using assms(2) by (simp add: sha1_W.simps [of M i] Xupdate_def sha1_rotl [unfolded One_nat_def] ac_simps)
qed

lemma sha1_first_rounds:
  "n \<le> 16 \<Longrightarrow> \<exists>X r'. fold (sha1_first M) [0..<n] (replicate 16 0, r) = (X, r') \<and> first5 r' = fold (sha1_step M) [0..<n] (first5 r) \<and>
     word_ring X (sha1_W M) n"
proof (induction n)
  case (Suc n)
  then obtain X r' where X: "fold (sha1_first M) [0..<n] (replicate 16 0, r) = (X, r')"
      "first5 r' = fold (sha1_step M) [0..<n] (first5 r)" "word_ring X (sha1_W M) n" by auto
  have w: "CRYPTO_load_u32_be (4 * n) M = sha1_W M n" using Suc.prems by (simp add: sha1_W.simps CRYPTO_load_u32_be_def mem_read_def)
  have "word_ring (X[n := sha1_W M n]) (sha1_W M) (Suc n)" using word_ring_put [OF X(3)] Suc.prems by simp
  moreover have "fold (sha1_first M) [0..<Suc n] (replicate 16 0, r) = (X[n := sha1_W M n], sha1_turn (BODY_00_15 (sha1_W M n) r'))"
    using X(1) w by (simp add: Let_def)
  moreover have "first5 (sha1_turn (BODY_00_15 (sha1_W M n) r')) = fold (sha1_step M) [0..<Suc n] (first5 r)"
    using first_is_step [of n M r'] X(2) Suc.prems by simp
  ultimately show ?case by blast
qed (simp add: word_ring_0)

lemma sha1_later_rounds:
  assumes "word_ring X (sha1_W M) 16"
  shows "16 \<le> n \<Longrightarrow> \<exists>X' r'. fold sha1_later [16..<n] (X, r) = (X', r') \<and> first5 r' = fold (sha1_step M) [16..<n] (first5 r) \<and>
    word_ring X' (sha1_W M) n"
proof (induction n rule: nat_induct_at_least)
  case base
  then show ?case using assms by simp
next
  case (Suc n)
  then obtain Y r' where Y: "fold sha1_later [16..<n] (X, r) = (Y, r')" "first5 r' = fold (sha1_step M) [16..<n] (first5 r)"
      "word_ring Y (sha1_W M) n" by auto
  note w = sha1_schedule_step [OF Y(3) Suc.hyps]
  have "word_ring (Y[n mod 16 := sha1_W M n]) (sha1_W M) (Suc n)" using word_ring_put [OF Y(3)] by simp
  moreover have "fold sha1_later [16..<Suc n] (X, r) = sha1_later n (Y, r')" using Y(1) Suc.hyps by simp
  moreover have "first5 (snd (sha1_later n (Y, r'))) = fold (sha1_step M) [16..<Suc n] (first5 r)"
    "fst (sha1_later n (Y, r')) = Y[n mod 16 := sha1_W M n]"
    unfolding sha1_later.simps Let_def w snd_conv fst_conv later_is_step [OF Suc.hyps] Y(2) using Suc.hyps by simp_all
  ultimately show ?case by (cases "sha1_later n (Y, r')") (auto simp del: sha1_later.simps)
qed

lemma sha1_block_eq: "sha1_block H M = sha1_compress H M"
proof -
  let ?r = "(H ! 0, H ! 1, H ! 2, H ! 3, H ! 4, 0)"
  obtain X r1 where X: "fold (sha1_first M) [0..<16] (replicate 16 0, ?r) = (X, r1)" "first5 r1 = fold (sha1_step M) [0..<16] (first5 ?r)"
      "word_ring X (sha1_W M) 16"
    using sha1_first_rounds [of 16 M ?r, OF order_refl] by blast
  have "(16 :: nat) \<le> 80" by simp
  then obtain Y r2 where Y: "fold sha1_later [16..<80] (X, r1) = (Y, r2)" "first5 r2 = fold (sha1_step M) [16..<80] (first5 r1)"
    using sha1_later_rounds [OF X(3)] by blast
  have "[0..<80] = [0..<16] @ [16..<80 :: nat]" using upt_add_eq_append [of 0 16 64] by (simp del: upt_rec_numeral)
  then have "first5 r2 = fold (sha1_step M) [0..<80] (H ! 0, H ! 1, H ! 2, H ! 3, H ! 4)"
    unfolding Y(2) X(2) by (simp only: fold_append comp_apply first5.simps)
  moreover have "(case r2 of (a, b, c, d, e, f) \<Rightarrow> [H ! 0 + a, H ! 1 + b, H ! 2 + c, H ! 3 + d, H ! 4 + e]) =
      (case first5 r2 of (a, b, c, d, e) \<Rightarrow> [H ! 0 + a, H ! 1 + b, H ! 2 + c, H ! 3 + d, H ! 4 + e])"
    by (cases r2 rule: sha1_turn.cases) simp
  ultimately show ?thesis unfolding sha1_block_def sha1_compress_def X(1) Y(1) Let_def by (simp only: snd_conv)
qed

lemma sha1_W_prefix: "64 \<le> length M \<Longrightarrow> sha1_W (take 64 M) t = sha1_W M t"
proof (induction t rule: less_induct)
  case (less t)
  show ?case
  proof (cases "t < 16")
    case True
    then have "take 4 (drop (4 * t) (take 64 M)) = take 4 (drop (4 * t) M)" by (simp add: drop_take min_def)
    then show ?thesis using True by (simp add: sha1_W.simps)
  next
    case False
    then show ?thesis using less by (simp add: sha1_W.simps [of _ t])
  qed
qed

lemma sha1_compress_prefix: "64 \<le> length M \<Longrightarrow> sha1_compress H (take 64 M) = sha1_compress H M"
proof -
  assume "64 \<le> length M"
  then have "sha1_step (take 64 M) t r = sha1_step M t r" for t r by (cases r) (simp add: sha1_W_prefix)
  then have "sha1_step (take 64 M) = sha1_step M" by blast
  then show ?thesis by (simp add: sha1_compress_def)
qed

lemma sha1_blocks_chain: "0 < n \<Longrightarrow> n * 64 \<le> length d \<Longrightarrow> sha1_block_data_order H d n = chain sha1_compress 64 H (take (n * 64) d)"
proof (induction n arbitrary: H d)
  case (Suc n)
  have "chain sha1_compress 64 H (take (Suc n * 64) d) = chain sha1_compress 64 (sha1_compress H (take 64 d)) (take (n * 64) (drop 64 d))"
    using Suc.prems by (simp add: chain.simps [of sha1_compress 64 H] drop_take)
  then show ?case using Suc
    by (cases "n = 0") (simp_all add: sha1_block_data_order.simps [of H d] sha1_block_eq sha1_compress_prefix Let_def)
qed simp

interpretation sha1: md32_hash sha1_block_data_order sha1_compress 64
  by unfold_locales (simp_all add: sha1_blocks_chain)

lemma length_chain_sha1: "length H = 5 \<Longrightarrow> length (chain sha1_compress 64 H xs) = 5"
  by (rule length_chain) (simp_all add: sha1_compress_def split: prod.split)

lemma five_words:
  fixes H :: "u32 list"
  assumes "length H = 5"
  shows "CRYPTO_store_u32_be 16 (H ! 4) (CRYPTO_store_u32_be 12 (H ! 3) (CRYPTO_store_u32_be 8 (H ! 2)
    (CRYPTO_store_u32_be 4 (H ! 1) (CRYPTO_store_u32_be 0 (H ! 0) (replicate 20 0))))) = concat (map (be_bytes 4 \<circ> unat) H)"
proof -
  obtain a b c d e where H: "H = [a, b, c, d, e]" using assms by (auto simp: length_Suc_conv numeral_eq_Suc)
  show ?thesis by (simp add: H CRYPTO_store_u32_be_def mem_write_def)
qed

lemma sha1_stream: "fst (SHA1_Final (foldl SHA1_Update SHA1_Init chunks)) = sha1_hash (concat chunks)"
proof -
  have "md32_holds sha1_compress 64 (md_h SHA1_Init) (concat chunks) (foldl SHA1_Update SHA1_Init chunks)"
    using sha1.updates [OF sha1.new_context, of SHA1_Init "md_h SHA1_Init" chunks] by (simp add: SHA1_Update_def [abs_def] SHA1_Init_def)
  note f = sha1.final(1) [OF this, of True]
  have "length (md_h SHA1_Init) = 5" by (simp add: SHA1_Init_def)
  from five_words [OF length_chain_sha1 [OF this]] show ?thesis by (simp add: SHA1_Final_def f sha1_hash_def Let_def)
qed

end
