(* ===== verification/Md4_Md5.thy ===== *)
theory Md4_Md5
  imports Md32
begin

text \<open>
  \<^verbatim>\<open>crypto/fipsmodule/md5/md5.c\<close> and \<^verbatim>\<open>md4/md4.c\<close>: the two hashes that count and store in little-endian. Their block functions
  are unrolled sequences of rounds; the lists below hold the index, shift and constant of each, in the order of the
  code. They are shown to compute the functions of RFC 1321 and RFC 1320 with their formulas for indices and shifts.
\<close>

section \<open>MD5\<close>

definition md5_F :: "u32 \<Rightarrow> u32 \<Rightarrow> u32 \<Rightarrow> u32" where
  "md5_F b c d = ((c XOR d) AND b) XOR d"

definition md5_G :: "u32 \<Rightarrow> u32 \<Rightarrow> u32 \<Rightarrow> u32" where
  "md5_G b c d = ((b XOR c) AND d) XOR c"

definition md5_H :: "u32 \<Rightarrow> u32 \<Rightarrow> u32 \<Rightarrow> u32" where
  "md5_H b c d = b XOR c XOR d"

definition md5_I :: "u32 \<Rightarrow> u32 \<Rightarrow> u32 \<Rightarrow> u32" where
  "md5_I b c d = (NOT d OR b) XOR c"

text \<open>The four round macros differ in the function \<open>f\<close> only. The next round has its last register first.\<close>

type_synonym md_regs = "u32 \<times> u32 \<times> u32 \<times> u32"

fun md_turn :: "md_regs \<Rightarrow> md_regs" where
  "md_turn (a, b, c, d) = (d, a, b, c)"

fun md5_R :: "(u32 \<Rightarrow> u32 \<Rightarrow> u32 \<Rightarrow> u32) \<Rightarrow> u32 list \<Rightarrow> nat \<times> nat \<times> u32 \<Rightarrow> md_regs \<Rightarrow> md_regs" where
  "md5_R f X (k, s, t) (a, b, c, d) =
     (let a = a + (X ! k + t + f b c d); a = CRYPTO_rotl_u32 a s; a = a + b in (a, b, c, d))"

definition md5_round0 :: "(nat \<times> nat \<times> u32) list" where
  "md5_round0 =
    [(0, 7, 0xd76aa478), (1, 12, 0xe8c7b756), (2, 17, 0x242070db), (3, 22, 0xc1bdceee),
     (4, 7, 0xf57c0faf), (5, 12, 0x4787c62a), (6, 17, 0xa8304613), (7, 22, 0xfd469501),
     (8, 7, 0x698098d8), (9, 12, 0x8b44f7af), (10, 17, 0xffff5bb1), (11, 22, 0x895cd7be),
     (12, 7, 0x6b901122), (13, 12, 0xfd987193), (14, 17, 0xa679438e), (15, 22, 0x49b40821)]"

definition md5_round1 :: "(nat \<times> nat \<times> u32) list" where
  "md5_round1 =
    [(1, 5, 0xf61e2562), (6, 9, 0xc040b340), (11, 14, 0x265e5a51), (0, 20, 0xe9b6c7aa),
     (5, 5, 0xd62f105d), (10, 9, 0x02441453), (15, 14, 0xd8a1e681), (4, 20, 0xe7d3fbc8),
     (9, 5, 0x21e1cde6), (14, 9, 0xc33707d6), (3, 14, 0xf4d50d87), (8, 20, 0x455a14ed),
     (13, 5, 0xa9e3e905), (2, 9, 0xfcefa3f8), (7, 14, 0x676f02d9), (12, 20, 0x8d2a4c8a)]"

definition md5_round2 :: "(nat \<times> nat \<times> u32) list" where
  "md5_round2 =
    [(5, 4, 0xfffa3942), (8, 11, 0x8771f681), (11, 16, 0x6d9d6122), (14, 23, 0xfde5380c),
     (1, 4, 0xa4beea44), (4, 11, 0x4bdecfa9), (7, 16, 0xf6bb4b60), (10, 23, 0xbebfbc70),
     (13, 4, 0x289b7ec6), (0, 11, 0xeaa127fa), (3, 16, 0xd4ef3085), (6, 23, 0x04881d05),
     (9, 4, 0xd9d4d039), (12, 11, 0xe6db99e5), (15, 16, 0x1fa27cf8), (2, 23, 0xc4ac5665)]"

definition md5_round3 :: "(nat \<times> nat \<times> u32) list" where
  "md5_round3 =
    [(0, 6, 0xf4292244), (7, 10, 0x432aff97), (14, 15, 0xab9423a7), (5, 21, 0xfc93a039),
     (12, 6, 0x655b59c3), (3, 10, 0x8f0ccc92), (10, 15, 0xffeff47d), (1, 21, 0x85845dd1),
     (8, 6, 0x6fa87e4f), (15, 10, 0xfe2ce6e0), (6, 15, 0xa3014314), (13, 21, 0x4e0811a1),
     (4, 6, 0xf7537e82), (11, 10, 0xbd3af235), (2, 15, 0x2ad7d2bb), (9, 21, 0xeb86d391)]"

definition load_words :: "u8 list \<Rightarrow> u32 list" where
  "load_words data = map (\<lambda>i. CRYPTO_load_u32_le (4 * i) data) [0..<16]"

definition md5_block :: "u32 list \<Rightarrow> u8 list \<Rightarrow> u32 list" where
  "md5_block state data =
     (let X = load_words data;
          r = (state ! 0, state ! 1, state ! 2, state ! 3);
          r = fold (\<lambda>e r. md_turn (md5_R md5_F X e r)) md5_round0 r;
          r = fold (\<lambda>e r. md_turn (md5_R md5_G X e r)) md5_round1 r;
          r = fold (\<lambda>e r. md_turn (md5_R md5_H X e r)) md5_round2 r;
          r = fold (\<lambda>e r. md_turn (md5_R md5_I X e r)) md5_round3 r
      in (case r of (a, b, c, d) \<Rightarrow> [state ! 0 + a, state ! 1 + b, state ! 2 + c, state ! 3 + d]))"

primrec md5_blocks :: "nat \<Rightarrow> u32 list \<Rightarrow> u8 list \<Rightarrow> u32 list" where
  "md5_blocks 0 state data = state"
| "md5_blocks (Suc num) state data = md5_blocks num (md5_block state data) (drop 64 data)"

definition md5_block_data_order :: "u32 list \<Rightarrow> u8 list \<Rightarrow> nat \<Rightarrow> u32 list" where
  "md5_block_data_order state data num = md5_blocks num state data"

definition MD5_Init :: md32_ctx where
  "MD5_Init = \<lparr>md_h = [0x67452301, 0xefcdab89, 0x98badcfe, 0x10325476], md_Nl = 0, md_Nh = 0, md_data = replicate 64 0, md_num = 0\<rparr>"

definition MD5_Transform :: "md32_ctx \<Rightarrow> u8 list \<Rightarrow> md32_ctx" where
  "MD5_Transform c data = c\<lparr>md_h := md5_block_data_order (md_h c) data 1\<rparr>"

definition MD5_Update :: "md32_ctx \<Rightarrow> u8 list \<Rightarrow> md32_ctx" where
  "MD5_Update c data = crypto_md32_update md5_block_data_order 64 data c"

text \<open>The four words of the state, as both hashes store them.\<close>

definition store_words :: "u32 list \<Rightarrow> u8 list" where
  "store_words h =
     CRYPTO_store_u32_le 12 (h ! 3) (CRYPTO_store_u32_le 8 (h ! 2)
       (CRYPTO_store_u32_le 4 (h ! 1) (CRYPTO_store_u32_le 0 (h ! 0) (replicate 16 0))))"

definition MD5_Final :: "md32_ctx \<Rightarrow> u8 list \<times> md32_ctx" where
  "MD5_Final c = (let c = crypto_md32_final md5_block_data_order 64 False c in (store_words (md_h c), c))"

definition MD5 :: "u8 list \<Rightarrow> u8 list" where
  "MD5 data = fst (MD5_Final (MD5_Update MD5_Init data))"

section \<open>MD4\<close>

definition md4_G :: "u32 \<Rightarrow> u32 \<Rightarrow> u32 \<Rightarrow> u32" where
  "md4_G b c d = (b AND c) OR (b AND d) OR (c AND d)"

fun md4_R :: "(u32 \<Rightarrow> u32 \<Rightarrow> u32 \<Rightarrow> u32) \<Rightarrow> u32 list \<Rightarrow> nat \<times> nat \<times> u32 \<Rightarrow> md_regs \<Rightarrow> md_regs" where
  "md4_R f X (k, s, t) (a, b, c, d) = (let a = a + (X ! k + t + f b c d); a = CRYPTO_rotl_u32 a s in (a, b, c, d))"

definition md4_round0 :: "(nat \<times> nat \<times> u32) list" where
  "md4_round0 =
    [(0, 3, 0), (1, 7, 0), (2, 11, 0), (3, 19, 0),
     (4, 3, 0), (5, 7, 0), (6, 11, 0), (7, 19, 0),
     (8, 3, 0), (9, 7, 0), (10, 11, 0), (11, 19, 0),
     (12, 3, 0), (13, 7, 0), (14, 11, 0), (15, 19, 0)]"

definition md4_round1 :: "(nat \<times> nat \<times> u32) list" where
  "md4_round1 =
    [(0, 3, 0x5A827999), (4, 5, 0x5A827999), (8, 9, 0x5A827999), (12, 13, 0x5A827999),
     (1, 3, 0x5A827999), (5, 5, 0x5A827999), (9, 9, 0x5A827999), (13, 13, 0x5A827999),
     (2, 3, 0x5A827999), (6, 5, 0x5A827999), (10, 9, 0x5A827999), (14, 13, 0x5A827999),
     (3, 3, 0x5A827999), (7, 5, 0x5A827999), (11, 9, 0x5A827999), (15, 13, 0x5A827999)]"

definition md4_round2 :: "(nat \<times> nat \<times> u32) list" where
  "md4_round2 =
    [(0, 3, 0x6ED9EBA1), (8, 9, 0x6ED9EBA1), (4, 11, 0x6ED9EBA1), (12, 15, 0x6ED9EBA1),
     (2, 3, 0x6ED9EBA1), (10, 9, 0x6ED9EBA1), (6, 11, 0x6ED9EBA1), (14, 15, 0x6ED9EBA1),
     (1, 3, 0x6ED9EBA1), (9, 9, 0x6ED9EBA1), (5, 11, 0x6ED9EBA1), (13, 15, 0x6ED9EBA1),
     (3, 3, 0x6ED9EBA1), (11, 9, 0x6ED9EBA1), (7, 11, 0x6ED9EBA1), (15, 15, 0x6ED9EBA1)]"

definition md4_block :: "u32 list \<Rightarrow> u8 list \<Rightarrow> u32 list" where
  "md4_block state data =
     (let X = load_words data;
          r = (state ! 0, state ! 1, state ! 2, state ! 3);
          r = fold (\<lambda>e r. md_turn (md4_R md5_F X e r)) md4_round0 r;
          r = fold (\<lambda>e r. md_turn (md4_R md4_G X e r)) md4_round1 r;
          r = fold (\<lambda>e r. md_turn (md4_R md5_H X e r)) md4_round2 r
      in (case r of (a, b, c, d) \<Rightarrow> [state ! 0 + a, state ! 1 + b, state ! 2 + c, state ! 3 + d]))"

primrec md4_blocks :: "nat \<Rightarrow> u32 list \<Rightarrow> u8 list \<Rightarrow> u32 list" where
  "md4_blocks 0 state data = state"
| "md4_blocks (Suc num) state data = md4_blocks num (md4_block state data) (drop 64 data)"

definition md4_block_data_order :: "u32 list \<Rightarrow> u8 list \<Rightarrow> nat \<Rightarrow> u32 list" where
  "md4_block_data_order state data num = md4_blocks num state data"

definition MD4_Init :: md32_ctx where
  "MD4_Init = \<lparr>md_h = [0x67452301, 0xefcdab89, 0x98badcfe, 0x10325476], md_Nl = 0, md_Nh = 0, md_data = replicate 64 0, md_num = 0\<rparr>"

definition MD4_Transform :: "md32_ctx \<Rightarrow> u8 list \<Rightarrow> md32_ctx" where
  "MD4_Transform c data = c\<lparr>md_h := md4_block_data_order (md_h c) data 1\<rparr>"

definition MD4_Update :: "md32_ctx \<Rightarrow> u8 list \<Rightarrow> md32_ctx" where
  "MD4_Update c data = crypto_md32_update md4_block_data_order 64 data c"

definition MD4_Final :: "md32_ctx \<Rightarrow> u8 list \<times> md32_ctx" where
  "MD4_Final c = (let c = crypto_md32_final md4_block_data_order 64 False c in (store_words (md_h c), c))"

definition MD4 :: "u8 list \<Rightarrow> u8 list" where
  "MD4 data = fst (MD4_Final (MD4_Update MD4_Init data))"

section \<open>The standards\<close>

text \<open>
  Step \<open>i\<close> works on the registers of its position in a cycle of four. The table of MD5, the whole parts of
  \<open>2 ^ 32\<close> times the absolute sines of 1 to 64, is taken from the code.
\<close>

definition rfc_word :: "u8 list \<Rightarrow> nat \<Rightarrow> u32" where
  "rfc_word M k = of_nat (be_val (rev (take 4 (drop (4 * k) M))))"

definition rfc1321_T :: "u32 list" where
  "rfc1321_T = map (\<lambda>(k, s, t). t) (md5_round0 @ md5_round1 @ md5_round2 @ md5_round3)"

definition rfc1321_f :: "nat \<Rightarrow> u32 \<Rightarrow> u32 \<Rightarrow> u32 \<Rightarrow> u32" where
  "rfc1321_f i x y z =
     (if i < 16 then (x AND y) OR (NOT x AND z)
      else if i < 32 then (x AND z) OR (y AND NOT z)
      else if i < 48 then x XOR y XOR z
      else y XOR (x OR NOT z))"

definition rfc1321_k :: "nat \<Rightarrow> nat" where
  "rfc1321_k i = (if i < 16 then i else if i < 32 then 5 * i + 1 else if i < 48 then 3 * i + 5 else 7 * i) mod 16"

definition rfc1321_s :: "nat \<Rightarrow> nat" where
  "rfc1321_s i = [7, 12, 17, 22, 5, 9, 14, 20, 4, 11, 16, 23, 6, 10, 15, 21] ! (i div 16 * 4 + i mod 4)"

fun rfc1321_step :: "u8 list \<Rightarrow> nat \<Rightarrow> md_regs \<Rightarrow> md_regs" where
  "rfc1321_step M i (a, b, c, d) =
     (d, b + word_rotl (rfc1321_s i) (a + rfc1321_f i b c d + rfc_word M (rfc1321_k i) + rfc1321_T ! i), b, c)"

definition add_words :: "u32 list \<Rightarrow> md_regs \<Rightarrow> u32 list" where
  "add_words H r = (case r of (a, b, c, d) \<Rightarrow> [H ! 0 + a, H ! 1 + b, H ! 2 + c, H ! 3 + d])"

definition rfc1321_compress :: "u32 list \<Rightarrow> u8 list \<Rightarrow> u32 list" where
  "rfc1321_compress H M = add_words H (fold (rfc1321_step M) [0..<64] (H ! 0, H ! 1, H ! 2, H ! 3))"

definition rfc1320_f :: "nat \<Rightarrow> u32 \<Rightarrow> u32 \<Rightarrow> u32 \<Rightarrow> u32" where
  "rfc1320_f i x y z =
     (if i < 16 then (x AND y) OR (NOT x AND z)
      else if i < 32 then (x AND y) OR (x AND z) OR (y AND z)
      else x XOR y XOR z)"

definition rfc1320_k :: "nat \<Rightarrow> nat" where
  "rfc1320_k i =
     (if i < 16 then i else if i < 32 then 4 * (i mod 4) + i mod 16 div 4
      else [0, 8, 4, 12] ! (i mod 4) + [0, 2, 1, 3] ! (i mod 16 div 4))"

definition rfc1320_s :: "nat \<Rightarrow> nat" where
  "rfc1320_s i = [3, 7, 11, 19, 3, 5, 9, 13, 3, 9, 11, 15] ! (i div 16 * 4 + i mod 4)"

definition rfc1320_T :: "nat \<Rightarrow> u32" where
  "rfc1320_T i = (if i < 16 then 0 else if i < 32 then 0x5a827999 else 0x6ed9eba1)"

fun rfc1320_step :: "u8 list \<Rightarrow> nat \<Rightarrow> md_regs \<Rightarrow> md_regs" where
  "rfc1320_step M i (a, b, c, d) =
     (d, word_rotl (rfc1320_s i) (a + rfc1320_f i b c d + rfc_word M (rfc1320_k i) + rfc1320_T i), b, c)"

definition rfc1320_compress :: "u32 list \<Rightarrow> u8 list \<Rightarrow> u32 list" where
  "rfc1320_compress H M = add_words H (fold (rfc1320_step M) [0..<48] (H ! 0, H ! 1, H ! 2, H ! 3))"

definition rfc_hash :: "(u32 list \<Rightarrow> u8 list \<Rightarrow> u32 list) \<Rightarrow> u8 list \<Rightarrow> u8 list" where
  "rfc_hash compress msg =
     concat (map (\<lambda>w. rev (be_bytes 4 (unat w)))
       (chain compress 64 [0x67452301, 0xefcdab89, 0x98badcfe, 0x10325476] (padded 64 8 False msg)))"

section \<open>The block functions are the compression functions\<close>

definition rfc1321_entry :: "nat \<Rightarrow> nat \<times> nat \<times> u32" where
  "rfc1321_entry i = (rfc1321_k i, rfc1321_s i, rfc1321_T ! i)"

definition rfc1320_entry :: "nat \<Rightarrow> nat \<times> nat \<times> u32" where
  "rfc1320_entry i = (rfc1320_k i, rfc1320_s i, rfc1320_T i)"

lemma md5_tables:
  "md5_round0 = map rfc1321_entry [0..<16]" "md5_round1 = map rfc1321_entry [16..<32]"
  "md5_round2 = map rfc1321_entry [32..<48]" "md5_round3 = map rfc1321_entry [48..<64]"
  by code_simp+

lemma md4_tables:
  "md4_round0 = map rfc1320_entry [0..<16]" "md4_round1 = map rfc1320_entry [16..<32]" "md4_round2 = map rfc1320_entry [32..<48]"
  by code_simp+

lemma load_words_nth: "k < 16 \<Longrightarrow> load_words M ! k = rfc_word M k"
  by (simp add: load_words_def rfc_word_def CRYPTO_load_u32_le_def mem_read_def)

lemma md_functions:
  "i < 16 \<Longrightarrow> md5_F b c d = rfc1321_f i b c d" "16 \<le> i \<Longrightarrow> i < 32 \<Longrightarrow> md5_G b c d = rfc1321_f i b c d"
  "32 \<le> i \<Longrightarrow> i < 48 \<Longrightarrow> md5_H b c d = rfc1321_f i b c d" "48 \<le> i \<Longrightarrow> md5_I b c d = rfc1321_f i b c d"
  "i < 16 \<Longrightarrow> md5_F b c d = rfc1320_f i b c d" "16 \<le> i \<Longrightarrow> i < 32 \<Longrightarrow> md4_G b c d = rfc1320_f i b c d"
  "32 \<le> i \<Longrightarrow> md5_H b c d = rfc1320_f i b c d"
  by (intro bit_word_eqI; auto simp: md5_F_def md5_G_def md5_H_def md5_I_def md4_G_def rfc1321_f_def rfc1320_f_def bit_simps)+

lemma shifts_bounded:
  "i < 64 \<Longrightarrow> 0 < rfc1321_s i \<and> rfc1321_s i < 32" "i < 48 \<Longrightarrow> 0 < rfc1320_s i \<and> rfc1320_s i < 32"
proof -
  have "\<forall>i \<in> set [0..<64]. 0 < rfc1321_s i \<and> rfc1321_s i < 32" "\<forall>i \<in> set [0..<48]. 0 < rfc1320_s i \<and> rfc1320_s i < 32"
    by code_simp+
  then show "i < 64 \<Longrightarrow> 0 < rfc1321_s i \<and> rfc1321_s i < 32" "i < 48 \<Longrightarrow> 0 < rfc1320_s i \<and> rfc1320_s i < 32" by auto
qed

lemma indices_bounded: "rfc1321_k i < 16" "i < 48 \<Longrightarrow> rfc1320_k i < 16"
proof -
  show "rfc1321_k i < 16" by (simp add: rfc1321_k_def)
  have "\<forall>i \<in> set [0..<48]. rfc1320_k i < 16" by code_simp
  then show "i < 48 \<Longrightarrow> rfc1320_k i < 16" by auto
qed

lemma md5_R_step:
  assumes "i < 64" and "\<And>b c d. f b c d = rfc1321_f i b c d"
  shows "md_turn (md5_R f (load_words M) (rfc1321_entry i) r) = rfc1321_step M i r"
proof -
  obtain a b c d where r: "r = (a, b, c, d)" by (cases r rule: md_turn.cases)
  have "load_words M ! rfc1321_k i = rfc_word M (rfc1321_k i)" by (rule load_words_nth) (rule indices_bounded)
  then show ?thesis using shifts_bounded(1) [OF assms(1)]
    by (simp add: r rfc1321_entry_def assms(2) CRYPTO_rotl_u32_eq Let_def ac_simps)
qed

lemma md4_R_step:
  assumes "i < 48" and "\<And>b c d. f b c d = rfc1320_f i b c d"
  shows "md_turn (md4_R f (load_words M) (rfc1320_entry i) r) = rfc1320_step M i r"
proof -
  obtain a b c d where r: "r = (a, b, c, d)" by (cases r rule: md_turn.cases)
  have "load_words M ! rfc1320_k i = rfc_word M (rfc1320_k i)" using assms(1) by (intro load_words_nth indices_bounded)
  then show ?thesis using shifts_bounded(2) [OF assms(1)]
    by (simp add: r rfc1320_entry_def assms(2) CRYPTO_rotl_u32_eq Let_def ac_simps)
qed

text \<open>A group of rounds over a table is the steps over its indices.\<close>

lemma fold_rounds:
  assumes "\<And>i r. m \<le> i \<Longrightarrow> i < n \<Longrightarrow> g (entry i) r = step i r"
  shows "fold g (map entry [m..<n]) r = fold step [m..<n] r"
  unfolding fold_map using assms by (intro fold_cong) (auto simp: fun_eq_iff)

lemma fold_split: "m \<le> n \<Longrightarrow> fold f [m..<n] (fold f [0..<m] r) = fold f [0..<n] r"
  using upt_add_eq_append [of 0 m "n - m"] by (simp del: upt_rec_numeral add: fold_append [symmetric, unfolded comp_def])

lemma md5_block_eq: "md5_block H M = rfc1321_compress H M"
proof -
  let ?X = "load_words M" and ?s = "rfc1321_step M"
  have "fold (\<lambda>e r. md_turn (md5_R md5_F ?X e r)) md5_round0 r = fold ?s [0..<16] r"
    "fold (\<lambda>e r. md_turn (md5_R md5_G ?X e r)) md5_round1 r = fold ?s [16..<32] r"
    "fold (\<lambda>e r. md_turn (md5_R md5_H ?X e r)) md5_round2 r = fold ?s [32..<48] r"
    "fold (\<lambda>e r. md_turn (md5_R md5_I ?X e r)) md5_round3 r = fold ?s [48..<64] r" for r
    unfolding md5_tables by (rule fold_rounds, rule md5_R_step; simp add: md_functions(1-4))+
  moreover have "fold ?s [48..<64] (fold ?s [32..<48] (fold ?s [16..<32] (fold ?s [0..<16] r))) = fold ?s [0..<64] r" for r
  proof -
    have "(16 :: nat) \<le> 32" "(32 :: nat) \<le> 48" "(48 :: nat) \<le> 64" by simp_all
    then show ?thesis by (simp only: fold_split)
  qed
  ultimately show ?thesis unfolding md5_block_def rfc1321_compress_def add_words_def Let_def by (simp only:)
qed

lemma md4_block_eq: "md4_block H M = rfc1320_compress H M"
proof -
  let ?X = "load_words M" and ?s = "rfc1320_step M"
  have "fold (\<lambda>e r. md_turn (md4_R md5_F ?X e r)) md4_round0 r = fold ?s [0..<16] r"
    "fold (\<lambda>e r. md_turn (md4_R md4_G ?X e r)) md4_round1 r = fold ?s [16..<32] r"
    "fold (\<lambda>e r. md_turn (md4_R md5_H ?X e r)) md4_round2 r = fold ?s [32..<48] r" for r
    unfolding md4_tables by (rule fold_rounds, rule md4_R_step; simp add: md_functions(5-7))+
  moreover have "fold ?s [32..<48] (fold ?s [16..<32] (fold ?s [0..<16] r)) = fold ?s [0..<48] r" for r
  proof -
    have "(16 :: nat) \<le> 32" "(32 :: nat) \<le> 48" by simp_all
    then show ?thesis by (simp only: fold_split)
  qed
  ultimately show ?thesis unfolding md4_block_def rfc1320_compress_def add_words_def Let_def by (simp only:)
qed

lemma rfc_word_prefix: "k < 16 \<Longrightarrow> 64 \<le> length M \<Longrightarrow> rfc_word (take 64 M) k = rfc_word M k"
  by (simp add: rfc_word_def drop_take min_def)

lemma rfc_compress_prefix:
  assumes "64 \<le> length M"
  shows "rfc1321_compress H (take 64 M) = rfc1321_compress H M" "rfc1320_compress H (take 64 M) = rfc1320_compress H M"
proof -
  have "rfc1321_step (take 64 M) i r = rfc1321_step M i r" for i r
    using assms indices_bounded(1) by (cases r rule: md_turn.cases) (simp add: rfc_word_prefix)
  then have "rfc1321_step (take 64 M) = rfc1321_step M" by blast
  then show "rfc1321_compress H (take 64 M) = rfc1321_compress H M" by (simp add: rfc1321_compress_def)
  have "rfc1320_step (take 64 M) i r = rfc1320_step M i r" if "i < 48" for i r
    using assms indices_bounded(2) [OF that] by (cases r rule: md_turn.cases) (simp add: rfc_word_prefix)
  then have "fold (rfc1320_step (take 64 M)) [0..<48] r = fold (rfc1320_step M) [0..<48] r" for r
    by (intro fold_cong) (auto simp: fun_eq_iff)
  then show "rfc1320_compress H (take 64 M) = rfc1320_compress H M" by (simp only: rfc1320_compress_def)
qed

lemma md5_blocks_chain: "n * 64 \<le> length d \<Longrightarrow> md5_blocks n H d = chain rfc1321_compress 64 H (take (n * 64) d)"
proof (induction n arbitrary: H d)
  case (Suc n)
  have "chain rfc1321_compress 64 H (take (Suc n * 64) d) = chain rfc1321_compress 64 (rfc1321_compress H (take 64 d)) (take (n * 64) (drop 64 d))"
    using Suc.prems by (simp add: chain.simps [of rfc1321_compress 64 H] drop_take)
  then show ?case using Suc by (simp add: md5_block_eq rfc_compress_prefix)
qed simp

lemma md4_blocks_chain: "n * 64 \<le> length d \<Longrightarrow> md4_blocks n H d = chain rfc1320_compress 64 H (take (n * 64) d)"
proof (induction n arbitrary: H d)
  case (Suc n)
  have "chain rfc1320_compress 64 H (take (Suc n * 64) d) = chain rfc1320_compress 64 (rfc1320_compress H (take 64 d)) (take (n * 64) (drop 64 d))"
    using Suc.prems by (simp add: chain.simps [of rfc1320_compress 64 H] drop_take)
  then show ?case using Suc by (simp add: md4_block_eq rfc_compress_prefix)
qed simp

interpretation md5: md32_hash md5_block_data_order rfc1321_compress 64
  by unfold_locales (simp_all add: md5_block_data_order_def md5_blocks_chain)

interpretation md4: md32_hash md4_block_data_order rfc1320_compress 64
  by unfold_locales (simp_all add: md4_block_data_order_def md4_blocks_chain)

lemma four_words:
  fixes H :: "u32 list"
  assumes "length H = 4"
  shows "store_words H = concat (map (\<lambda>w. rev (be_bytes 4 (unat w))) H)"
proof -
  obtain a b c d where H: "H = [a, b, c, d]" using assms by (auto simp: length_Suc_conv numeral_eq_Suc)
  show ?thesis by (simp add: H store_words_def CRYPTO_store_u32_le_def mem_write_def)
qed

lemma length_add_words [simp]: "length (add_words H r) = 4"
  by (simp add: add_words_def split: prod.split)

lemma md5_stream: "fst (MD5_Final (foldl MD5_Update MD5_Init chunks)) = rfc_hash rfc1321_compress (concat chunks)"
proof -
  have "md32_holds rfc1321_compress 64 (md_h MD5_Init) (concat chunks) (foldl MD5_Update MD5_Init chunks)"
    using md5.updates [OF md5.new_context, of MD5_Init "md_h MD5_Init" chunks] by (simp add: MD5_Update_def [abs_def] MD5_Init_def)
  note f = md5.final(1) [OF this, of False]
  have h: "md_h MD5_Init = [0x67452301, 0xefcdab89, 0x98badcfe, 0x10325476]" by (simp add: MD5_Init_def)
  have "length (chain rfc1321_compress 64 (md_h MD5_Init) xs) = 4" for xs
    by (rule length_chain) (simp_all add: rfc1321_compress_def h)
  then show ?thesis using four_words by (simp add: MD5_Final_def f rfc_hash_def h Let_def)
qed

lemma md4_stream: "fst (MD4_Final (foldl MD4_Update MD4_Init chunks)) = rfc_hash rfc1320_compress (concat chunks)"
proof -
  have "md32_holds rfc1320_compress 64 (md_h MD4_Init) (concat chunks) (foldl MD4_Update MD4_Init chunks)"
    using md4.updates [OF md4.new_context, of MD4_Init "md_h MD4_Init" chunks] by (simp add: MD4_Update_def [abs_def] MD4_Init_def)
  note f = md4.final(1) [OF this, of False]
  have h: "md_h MD4_Init = [0x67452301, 0xefcdab89, 0x98badcfe, 0x10325476]" by (simp add: MD4_Init_def)
  have "length (chain rfc1320_compress 64 (md_h MD4_Init) xs) = 4" for xs
    by (rule length_chain) (simp_all add: rfc1320_compress_def h)
  then show ?thesis using four_words by (simp add: MD4_Final_def f rfc_hash_def h Let_def)
qed

end
