(* ===== verification/Bio.thy ===== *)
theory Bio
  imports Byte_Memory "HOL-Library.Monad_Syntax"
begin

text \<open>
  \<^verbatim>\<open>crypto/bio/bio.c\<close>: the objects every BIO is made of and the operations that dispatch to the methods of
  its kind. A kind keeps private data of type \<open>'p\<close> in its objects. Objects live at addresses of
  a world; an address is the serial number of the allocation that made it. A function that
  does not return, because it loops or aborts, has the value None.
\<close>

section \<open>Objects\<close>

record 'p bio =
  bio_method :: "nat option"
  bio_init :: bool
  bio_shutdown :: int
  bio_flags :: u32
  bio_retry_reason :: int
  bio_num :: int
  bio_references :: u32
  bio_ptr :: "'p option"
  bio_next :: "nat option"
  bio_num_read :: u64
  bio_num_write :: u64

record 'p world =
  bios :: "nat \<rightharpoonup> 'p bio"
  serial :: nat

text \<open>The allocator: whether allocation \<open>k\<close> of \<open>n\<close> bytes succeeds, and what the fresh bytes hold.\<close>

record allocator =
  al_ok :: "nat \<Rightarrow> nat \<Rightarrow> bool"
  al_junk :: "nat \<Rightarrow> nat \<Rightarrow> u8"

definition allocate :: "allocator \<Rightarrow> nat \<Rightarrow> 'p world \<Rightarrow> nat option \<times> 'p world" where
  "allocate al n w = (if al_ok al (serial w) n then Some (serial w) else None, w\<lparr>serial := serial w + 1\<rparr>)"

definition allocate_bytes :: "allocator \<Rightarrow> nat \<Rightarrow> 'p world \<Rightarrow> u8 list option \<times> 'p world" where
  "allocate_bytes al n w =
     (if al_ok al (serial w) n then Some (map (al_junk al (serial w)) [0..<n]) else None, w\<lparr>serial := serial w + 1\<rparr>)"

definition obj :: "'p world \<Rightarrow> nat \<Rightarrow> 'p bio" where
  "obj w b = the (bios w b)"

definition upd :: "nat \<Rightarrow> ('p bio \<Rightarrow> 'p bio) \<Rightarrow> 'p world \<Rightarrow> 'p world" where
  "upd b f w = w\<lparr>bios := (bios w)(b \<mapsto> f (obj w b))\<rparr>"

lemma obj_upd [simp]: "obj (upd b f w) c = (if c = b then f (obj w b) else obj w c)"
  by (simp add: obj_def upd_def)

lemma bios_upd [simp]: "bios (upd b f w) c = (if c = b then Some (f (obj w b)) else bios w c)"
  by (simp add: upd_def)

lemma serial_upd [simp]: "serial (upd b f w) = serial w"
  by (simp add: upd_def)

lemma upd_upd [simp]: "upd b f (upd b g w) = upd b (f \<circ> g) w"
  by (simp add: upd_def obj_def)

section \<open>Methods\<close>

text \<open>A member that is a null pointer is None. A read fills a prefix of the buffer it is given.\<close>

record 'p bio_method =
  bm_type :: u32
  bm_bwrite :: "(nat \<Rightarrow> u8 list option \<Rightarrow> nat \<Rightarrow> 'p world \<Rightarrow> (int \<times> 'p world) option) option"
  bm_bread :: "(nat \<Rightarrow> u8 list option \<Rightarrow> nat \<Rightarrow> 'p world \<Rightarrow> (int \<times> u8 list option \<times> 'p world) option) option"
  bm_ctrl :: "(nat \<Rightarrow> nat \<Rightarrow> int \<Rightarrow> nat option \<Rightarrow> 'p world \<Rightarrow> (int \<times> 'p world) option) option"
  bm_create :: "(nat \<Rightarrow> 'p world \<Rightarrow> (int \<times> 'p world) option) option"
  bm_destroy :: "(nat \<Rightarrow> 'p world \<Rightarrow> (int \<times> 'p world) option) option"

type_synonym 'p methods = "nat \<Rightarrow> 'p bio_method"

text \<open>Counts that reach their maximum stay there; releasing what has no reference aborts.\<close>

definition CRYPTO_REFCOUNT_MAX :: u32 where
  "CRYPTO_REFCOUNT_MAX = 0xffffffff"

definition CRYPTO_refcount_inc :: "u32 \<Rightarrow> u32" where
  "CRYPTO_refcount_inc n = (if n < CRYPTO_REFCOUNT_MAX then n + 1 else n)"

definition CRYPTO_refcount_dec_and_test_zero :: "u32 \<Rightarrow> (bool \<times> u32) option" where
  "CRYPTO_refcount_dec_and_test_zero n =
     (if n = 0 then None
      else let n = (if n < CRYPTO_REFCOUNT_MAX then n - 1 else n) in Some (n = 0, n))"

definition sizeof_BIO :: nat where
  "sizeof_BIO = 64"

definition new_bio :: "nat \<Rightarrow> 'p bio" where
  "new_bio method =
     \<lparr>bio_method = Some method, bio_init = False, bio_shutdown = 1, bio_flags = 0, bio_retry_reason = 0, bio_num = 0,
      bio_references = 1, bio_ptr = None, bio_next = None, bio_num_read = 0, bio_num_write = 0\<rparr>"

definition BIO_new :: "'p methods \<Rightarrow> allocator \<Rightarrow> nat \<Rightarrow> 'p world \<Rightarrow> (nat option \<times> 'p world) option" where
  "BIO_new methods al method w =
     (case allocate al sizeof_BIO w of
        (None, w) \<Rightarrow> Some (None, w)
      | (Some ret, w) \<Rightarrow>
          let w = w\<lparr>bios := (bios w)(ret \<mapsto> new_bio method)\<rparr> in
          (case bm_create (methods method) of
             None \<Rightarrow> Some (Some ret, w)
           | Some create \<Rightarrow>
               do {
                 (ok, w) \<leftarrow> create ret w;
                 if ok = 0 then Some (None, w\<lparr>bios := (bios w)(ret := None)\<rparr>) else Some (Some ret, w)
               }))"

definition BIO_pop :: "nat option \<Rightarrow> 'p world \<Rightarrow> nat option \<times> 'p world" where
  "BIO_pop bio w =
     (case bio of
        None \<Rightarrow> (None, w)
      | Some b \<Rightarrow> (bio_next (obj w b), upd b (\<lambda>x. x\<lparr>bio_next := None\<rparr>) w))"

partial_function (option) BIO_free :: "'p methods \<Rightarrow> nat option \<Rightarrow> 'p world \<Rightarrow> (int \<times> 'p world) option" where
  "BIO_free methods bio w =
     (case bio of
        None \<Rightarrow> Some (1, w)
      | Some b \<Rightarrow>
          do {
            (zero, n) \<leftarrow> CRYPTO_refcount_dec_and_test_zero (bio_references (obj w b));
            let w = upd b (\<lambda>x. x\<lparr>bio_references := n\<rparr>) w;
            if \<not> zero then Some (0, w)
            else do {
              let (next_bio, w) = BIO_pop (Some b) w;
              (r, w) \<leftarrow> (case bio_method (obj w b) of
                          None \<Rightarrow> Some (1, w)
                        | Some m \<Rightarrow> (case bm_destroy (methods m) of None \<Rightarrow> Some (1, w) | Some destroy \<Rightarrow> destroy b w));
              BIO_free methods next_bio (w\<lparr>bios := (bios w)(b := None)\<rparr>)
            }
          })"

definition BIO_up_ref :: "nat \<Rightarrow> 'p world \<Rightarrow> int \<times> 'p world" where
  "BIO_up_ref b w = (1, upd b (\<lambda>x. x\<lparr>bio_references := CRYPTO_refcount_inc (bio_references x)\<rparr>) w)"

section \<open>Reading and writing\<close>

definition BIO_read :: "'p methods \<Rightarrow> nat option \<Rightarrow> u8 list option \<Rightarrow> int \<Rightarrow> 'p world \<Rightarrow> (int \<times> u8 list option \<times> 'p world) option" where
  "BIO_read methods bio buf len w =
     (case Option.bind bio (\<lambda>b. Option.bind (bio_method (obj w b)) (\<lambda>m. map_option (\<lambda>f. (b, f)) (bm_bread (methods m)))) of
        None \<Rightarrow> Some (- 2, buf, w)
      | Some (b, bread) \<Rightarrow>
          if \<not> bio_init (obj w b) then Some (- 2, buf, w)
          else if len \<le> 0 then Some (0, buf, w)
          else do {
            (ret, buf, w) \<leftarrow> bread b buf (nat len) w;
            Some (ret, buf, if ret > 0 then upd b (\<lambda>x. x\<lparr>bio_num_read := bio_num_read x + of_int ret\<rparr>) w else w)
          })"

definition BIO_write :: "'p methods \<Rightarrow> nat option \<Rightarrow> u8 list option \<Rightarrow> int \<Rightarrow> 'p world \<Rightarrow> (int \<times> 'p world) option" where
  "BIO_write methods bio inp inl w =
     (case Option.bind bio (\<lambda>b. Option.bind (bio_method (obj w b)) (\<lambda>m. map_option (\<lambda>f. (b, f)) (bm_bwrite (methods m)))) of
        None \<Rightarrow> Some (- 2, w)
      | Some (b, bwrite) \<Rightarrow>
          if \<not> bio_init (obj w b) then Some (- 2, w)
          else if inl \<le> 0 then Some (0, w)
          else do {
            (ret, w) \<leftarrow> bwrite b inp (nat inl) w;
            Some (ret, if ret > 0 then upd b (\<lambda>x. x\<lparr>bio_num_write := bio_num_write x + of_int ret\<rparr>) w else w)
          })"

definition INT_MAX :: nat where
  "INT_MAX = 2147483647"

text \<open>A method that returned more than it was given would move past the data; its length is what counts.\<close>

partial_function (option) BIO_write_all :: "'p methods \<Rightarrow> nat option \<Rightarrow> u8 list \<Rightarrow> 'p world \<Rightarrow> (int \<times> 'p world) option" where
  "BIO_write_all methods bio data w =
     (let len = length data in
      if len > 0
      then do {
        (ret, w) \<leftarrow> BIO_write methods bio (Some data) (if len > INT_MAX then int INT_MAX else int len) w;
        if ret \<le> 0 then Some (0, w) else BIO_write_all methods bio (drop (nat ret) data) w
      }
      else Some (1, w))"

definition BIO_ctrl :: "'p methods \<Rightarrow> nat option \<Rightarrow> nat \<Rightarrow> int \<Rightarrow> nat option \<Rightarrow> 'p world \<Rightarrow> (int \<times> 'p world) option" where
  "BIO_ctrl methods bio cmd larg parg w =
     (case bio of
        None \<Rightarrow> Some (0, w)
      | Some b \<Rightarrow>
          (case Option.bind (bio_method (obj w b)) (\<lambda>m. bm_ctrl (methods m)) of
             None \<Rightarrow> Some (- 2, w)
           | Some ctrl \<Rightarrow> ctrl b cmd larg parg w))"

definition BIO_CTRL_RESET :: nat where "BIO_CTRL_RESET = 1"
definition BIO_CTRL_EOF :: nat where "BIO_CTRL_EOF = 2"
definition BIO_CTRL_GET_CLOSE :: nat where "BIO_CTRL_GET_CLOSE = 8"
definition BIO_CTRL_SET_CLOSE :: nat where "BIO_CTRL_SET_CLOSE = 9"
definition BIO_CTRL_PENDING :: nat where "BIO_CTRL_PENDING = 10"
definition BIO_CTRL_FLUSH :: nat where "BIO_CTRL_FLUSH = 11"
definition BIO_CTRL_WPENDING :: nat where "BIO_CTRL_WPENDING = 13"

definition BIO_flush :: "'p methods \<Rightarrow> nat option \<Rightarrow> 'p world \<Rightarrow> (int \<times> 'p world) option" where
  "BIO_flush methods bio w = BIO_ctrl methods bio BIO_CTRL_FLUSH 0 None w"

definition BIO_reset :: "'p methods \<Rightarrow> nat option \<Rightarrow> 'p world \<Rightarrow> (int \<times> 'p world) option" where
  "BIO_reset methods bio w = BIO_ctrl methods bio BIO_CTRL_RESET 0 None w"

definition BIO_eof :: "'p methods \<Rightarrow> nat option \<Rightarrow> 'p world \<Rightarrow> (int \<times> 'p world) option" where
  "BIO_eof methods bio w = BIO_ctrl methods bio BIO_CTRL_EOF 0 None w"

definition BIO_set_close :: "'p methods \<Rightarrow> nat option \<Rightarrow> int \<Rightarrow> 'p world \<Rightarrow> (int \<times> 'p world) option" where
  "BIO_set_close methods bio close_flag w = BIO_ctrl methods bio BIO_CTRL_SET_CLOSE close_flag None w"

definition BIO_pending :: "'p methods \<Rightarrow> nat option \<Rightarrow> 'p world \<Rightarrow> (u64 \<times> 'p world) option" where
  "BIO_pending methods bio w =
     do { (r, w) \<leftarrow> BIO_ctrl methods bio BIO_CTRL_PENDING 0 None w; Some (if r < 0 then 0 else of_int r, w) }"

definition BIO_ctrl_pending :: "'p methods \<Rightarrow> nat option \<Rightarrow> 'p world \<Rightarrow> (u64 \<times> 'p world) option" where
  "BIO_ctrl_pending methods bio w = BIO_pending methods bio w"

definition BIO_wpending :: "'p methods \<Rightarrow> nat option \<Rightarrow> 'p world \<Rightarrow> (u64 \<times> 'p world) option" where
  "BIO_wpending methods bio w =
     do { (r, w) \<leftarrow> BIO_ctrl methods bio BIO_CTRL_WPENDING 0 None w; Some (if r < 0 then 0 else of_int r, w) }"

definition BIO_number_read :: "nat \<Rightarrow> 'p world \<Rightarrow> u64" where
  "BIO_number_read b w = bio_num_read (obj w b)"

definition BIO_number_written :: "nat \<Rightarrow> 'p world \<Rightarrow> u64" where
  "BIO_number_written b w = bio_num_write (obj w b)"

section \<open>Flags\<close>

definition BIO_FLAGS_READ :: u32 where "BIO_FLAGS_READ = 1"
definition BIO_FLAGS_WRITE :: u32 where "BIO_FLAGS_WRITE = 2"
definition BIO_FLAGS_IO_SPECIAL :: u32 where "BIO_FLAGS_IO_SPECIAL = 4"
definition BIO_FLAGS_RWS :: u32 where "BIO_FLAGS_RWS = BIO_FLAGS_READ OR BIO_FLAGS_WRITE OR BIO_FLAGS_IO_SPECIAL"
definition BIO_FLAGS_SHOULD_RETRY :: u32 where "BIO_FLAGS_SHOULD_RETRY = 8"

definition BIO_set_flags :: "nat \<Rightarrow> u32 \<Rightarrow> 'p world \<Rightarrow> 'p world" where
  "BIO_set_flags b flags w = upd b (\<lambda>x. x\<lparr>bio_flags := bio_flags x OR flags\<rparr>) w"

definition BIO_test_flags :: "nat \<Rightarrow> u32 \<Rightarrow> 'p world \<Rightarrow> u32" where
  "BIO_test_flags b flags w = bio_flags (obj w b) AND flags"

definition BIO_should_read :: "nat \<Rightarrow> 'p world \<Rightarrow> u32" where
  "BIO_should_read b w = BIO_test_flags b BIO_FLAGS_READ w"

definition BIO_should_write :: "nat \<Rightarrow> 'p world \<Rightarrow> u32" where
  "BIO_should_write b w = BIO_test_flags b BIO_FLAGS_WRITE w"

definition BIO_should_retry :: "nat \<Rightarrow> 'p world \<Rightarrow> u32" where
  "BIO_should_retry b w = BIO_test_flags b BIO_FLAGS_SHOULD_RETRY w"

definition BIO_should_io_special :: "nat \<Rightarrow> 'p world \<Rightarrow> u32" where
  "BIO_should_io_special b w = BIO_test_flags b BIO_FLAGS_IO_SPECIAL w"

definition BIO_get_retry_reason :: "nat \<Rightarrow> 'p world \<Rightarrow> int" where
  "BIO_get_retry_reason b w = bio_retry_reason (obj w b)"

definition BIO_set_retry_reason :: "nat \<Rightarrow> int \<Rightarrow> 'p world \<Rightarrow> 'p world" where
  "BIO_set_retry_reason b reason w = upd b (\<lambda>x. x\<lparr>bio_retry_reason := reason\<rparr>) w"

definition BIO_clear_flags :: "nat \<Rightarrow> u32 \<Rightarrow> 'p world \<Rightarrow> 'p world" where
  "BIO_clear_flags b flags w = upd b (\<lambda>x. x\<lparr>bio_flags := bio_flags x AND NOT flags\<rparr>) w"

definition BIO_set_retry_read :: "nat \<Rightarrow> 'p world \<Rightarrow> 'p world" where
  "BIO_set_retry_read b w = upd b (\<lambda>x. x\<lparr>bio_flags := bio_flags x OR (BIO_FLAGS_READ OR BIO_FLAGS_SHOULD_RETRY)\<rparr>) w"

definition BIO_set_retry_write :: "nat \<Rightarrow> 'p world \<Rightarrow> 'p world" where
  "BIO_set_retry_write b w = upd b (\<lambda>x. x\<lparr>bio_flags := bio_flags x OR (BIO_FLAGS_WRITE OR BIO_FLAGS_SHOULD_RETRY)\<rparr>) w"

definition BIO_set_retry_special :: "nat \<Rightarrow> 'p world \<Rightarrow> 'p world" where
  "BIO_set_retry_special b w = upd b (\<lambda>x. x\<lparr>bio_flags := bio_flags x OR (BIO_FLAGS_READ OR BIO_FLAGS_IO_SPECIAL)\<rparr>) w"

definition kRetryFlags :: u32 where
  "kRetryFlags = BIO_FLAGS_RWS OR BIO_FLAGS_SHOULD_RETRY"

definition BIO_get_retry_flags :: "nat \<Rightarrow> 'p world \<Rightarrow> u32" where
  "BIO_get_retry_flags b w = bio_flags (obj w b) AND kRetryFlags"

definition BIO_clear_retry_flags :: "nat \<Rightarrow> 'p world \<Rightarrow> 'p world" where
  "BIO_clear_retry_flags b w = upd b (\<lambda>x. x\<lparr>bio_flags := bio_flags x AND NOT kRetryFlags, bio_retry_reason := 0\<rparr>) w"

definition BIO_copy_next_retry :: "nat \<Rightarrow> 'p world \<Rightarrow> 'p world" where
  "BIO_copy_next_retry b w =
     (let w = BIO_clear_retry_flags b w;
          w = BIO_set_flags b (BIO_get_retry_flags (the (bio_next (obj w b))) w) w
      in upd b (\<lambda>x. x\<lparr>bio_retry_reason := bio_retry_reason (obj w (the (bio_next x)))\<rparr>) w)"

section \<open>Chains\<close>

partial_function (option) last_bio :: "nat \<Rightarrow> 'p world \<Rightarrow> nat option" where
  "last_bio b w = (case bio_next (obj w b) of None \<Rightarrow> Some b | Some n \<Rightarrow> last_bio n w)"

definition BIO_push :: "nat option \<Rightarrow> nat option \<Rightarrow> 'p world \<Rightarrow> (nat option \<times> 'p world) option" where
  "BIO_push bio appended_bio w =
     (case bio of
        None \<Rightarrow> Some (None, w)
      | Some b \<Rightarrow> do { l \<leftarrow> last_bio b w; Some (Some b, upd l (\<lambda>x. x\<lparr>bio_next := appended_bio\<rparr>) w) })"

definition BIO_next :: "nat option \<Rightarrow> 'p world \<Rightarrow> nat option" where
  "BIO_next bio w = (case bio of None \<Rightarrow> None | Some b \<Rightarrow> bio_next (obj w b))"

partial_function (option) find_type_loop :: "'p methods \<Rightarrow> nat \<Rightarrow> u32 \<Rightarrow> 'p world \<Rightarrow> nat option option" where
  "find_type_loop methods b type w =
     (let msk = type AND 0xff;
          found = (case bio_method (obj w b) of
                     None \<Rightarrow> False
                   | Some m \<Rightarrow> (if msk = 0 then bm_type (methods m) AND type \<noteq> 0 else bm_type (methods m) = type))
      in if found then Some (Some b)
         else (case bio_next (obj w b) of None \<Rightarrow> Some None | Some n \<Rightarrow> find_type_loop methods n type w))"

definition BIO_find_type :: "'p methods \<Rightarrow> nat option \<Rightarrow> u32 \<Rightarrow> 'p world \<Rightarrow> nat option option" where
  "BIO_find_type methods bio type w = (case bio of None \<Rightarrow> Some None | Some b \<Rightarrow> find_type_loop methods b type w)"

end
