(* ===== verification/Bio_Pair.thy ===== *)
theory Bio_Pair
  imports Bio Comparison
begin

text \<open>
  \<^verbatim>\<open>crypto/bio/pair.c\<close>: two BIOs joined back to back, each writing into a ring buffer the other reads from.
  The rings are shown to be bounded queues of bytes and a pair to be two of them.
\<close>

section \<open>State\<close>

record bio_bio =
  pr_peer :: "nat option"
  pr_closed :: bool
  pr_len :: nat
  pr_offset :: nat
  pr_size :: nat
  pr_buf :: "u8 list option"
  pr_request :: nat

type_synonym pair_world = "bio_bio world"

definition pair_data :: "nat \<Rightarrow> pair_world \<Rightarrow> bio_bio" where
  "pair_data b w = the (bio_ptr (obj w b))"

definition set_pair :: "nat \<Rightarrow> (bio_bio \<Rightarrow> bio_bio) \<Rightarrow> pair_world \<Rightarrow> pair_world" where
  "set_pair b f w = upd b (\<lambda>x. x\<lparr>bio_ptr := Some (f (the (bio_ptr x)))\<rparr>) w"

definition sizeof_bio_bio :: nat where
  "sizeof_bio_bio = 56"

definition bio_new :: "allocator \<Rightarrow> nat \<Rightarrow> pair_world \<Rightarrow> (int \<times> pair_world) option" where
  "bio_new al b w =
     (case allocate al sizeof_bio_bio w of
        (None, w) \<Rightarrow> Some (0, w)
      | (Some _, w) \<Rightarrow>
          Some (1, upd b (\<lambda>x. x\<lparr>bio_ptr := Some \<lparr>pr_peer = None, pr_closed = False, pr_len = 0, pr_offset = 0, pr_size = 17 * 1024,
            pr_buf = None, pr_request = 0\<rparr>\<rparr>) w))"

definition bio_destroy_pair :: "nat \<Rightarrow> pair_world \<Rightarrow> pair_world" where
  "bio_destroy_pair b w =
     (case bio_ptr (obj w b) of
        None \<Rightarrow> w
      | Some d \<Rightarrow>
          (case pr_peer d of
             None \<Rightarrow> w
           | Some peer_bio \<Rightarrow>
               let w = set_pair peer_bio (\<lambda>r. r\<lparr>pr_peer := None\<rparr>) w;
                   w = upd peer_bio (\<lambda>x. x\<lparr>bio_init := False\<rparr>) w;
                   w = set_pair peer_bio (\<lambda>r. r\<lparr>pr_len := 0, pr_offset := 0\<rparr>) w;
                   w = set_pair b (\<lambda>r. r\<lparr>pr_peer := None\<rparr>) w;
                   w = upd b (\<lambda>x. x\<lparr>bio_init := False\<rparr>) w
               in set_pair b (\<lambda>r. r\<lparr>pr_len := 0, pr_offset := 0\<rparr>) w))"

text \<open>The private data goes with the object; \<^verbatim>\<open>BIO_free\<close> drops that.\<close>

definition bio_free :: "nat \<Rightarrow> pair_world \<Rightarrow> (int \<times> pair_world) option" where
  "bio_free b w = Some (1, if pr_peer (pair_data b w) \<noteq> None then bio_destroy_pair b w else w)"

section \<open>Reading and writing\<close>

text \<open>The two loops copy up to the end of the ring and go on at its start. \<open>p\<close> is the place in the caller's buffer.\<close>

partial_function (option) ring_read :: "nat \<Rightarrow> nat \<Rightarrow> u8 list \<Rightarrow> bio_bio \<Rightarrow> (u8 list \<times> bio_bio) option" where
  "ring_read rest p buf r =
     (let chunk = (if pr_offset r + rest \<le> pr_size r then rest else pr_size r - pr_offset r);
          buf = mem_write p (take chunk (drop (pr_offset r) (the (pr_buf r)))) buf;
          r = r\<lparr>pr_len := pr_len r - chunk\<rparr>;
          (r, p) =
            (if pr_len r \<noteq> 0
             then let r = r\<lparr>pr_offset := pr_offset r + chunk\<rparr>;
                      r = (if pr_offset r = pr_size r then r\<lparr>pr_offset := 0\<rparr> else r)
                  in (r, p + chunk)
             else (r\<lparr>pr_offset := 0\<rparr>, p));
          rest = rest - chunk
      in if rest \<noteq> 0 then ring_read rest p buf r else Some (buf, r))"

definition bio_read :: "nat \<Rightarrow> u8 list option \<Rightarrow> nat \<Rightarrow> pair_world \<Rightarrow> (int \<times> u8 list option \<times> pair_world) option" where
  "bio_read b buf size' w =
     (let w = BIO_clear_retry_flags b w in
      if \<not> bio_init (obj w b) then Some (0, buf, w)
      else
        let peer = the (pr_peer (pair_data b w));
            w = set_pair peer (\<lambda>r. r\<lparr>pr_request := 0\<rparr>) w;
            peer_b = pair_data peer w
        in if buf = None \<or> size' = 0 then Some (0, buf, w)
        else if pr_len peer_b = 0
        then if pr_closed peer_b then Some (0, buf, w)
             else let w = BIO_set_retry_read b w
                  in Some (- 1, buf, set_pair peer (\<lambda>r. r\<lparr>pr_request := (if size' \<le> pr_size r then size' else pr_size r)\<rparr>) w)
        else
          let size' = (if pr_len peer_b < size' then pr_len peer_b else size')
          in do {
            (buf, r) \<leftarrow> ring_read size' 0 (the buf) peer_b;
            Some (int size', Some buf, set_pair peer (\<lambda>_. r) w)
          })"

partial_function (option) ring_write :: "nat \<Rightarrow> u8 list \<Rightarrow> bio_bio \<Rightarrow> bio_bio option" where
  "ring_write rest buf r =
     (let write_offset = pr_offset r + pr_len r;
          write_offset = (if write_offset \<ge> pr_size r then write_offset - pr_size r else write_offset);
          chunk = (if write_offset + rest \<le> pr_size r then rest else pr_size r - write_offset);
          r = r\<lparr>pr_buf := Some (mem_write write_offset (take chunk buf) (the (pr_buf r)))\<rparr>;
          r = r\<lparr>pr_len := pr_len r + chunk\<rparr>;
          rest = rest - chunk;
          buf = drop chunk buf
      in if rest \<noteq> 0 then ring_write rest buf r else Some r)"

definition bio_write :: "nat \<Rightarrow> u8 list option \<Rightarrow> nat \<Rightarrow> pair_world \<Rightarrow> (int \<times> pair_world) option" where
  "bio_write b buf num' w =
     (let w = BIO_clear_retry_flags b w in
      if \<not> bio_init (obj w b) \<or> buf = None \<or> num' = 0 then Some (0, w)
      else
        let w = set_pair b (\<lambda>r. r\<lparr>pr_request := 0\<rparr>) w;
            r = pair_data b w
        in if pr_closed r then Some (- 1, w)
        else if pr_len r = pr_size r then Some (- 1, BIO_set_retry_write b w)
        else
          let num' = (if num' > pr_size r - pr_len r then pr_size r - pr_len r else num')
          in do {
            r \<leftarrow> ring_write num' (the buf) r;
            Some (int num', set_pair b (\<lambda>_. r) w)
          })"

section \<open>Pairs\<close>

text \<open>The buffer of one half, allocated unless it has one.\<close>

definition pair_buffer :: "allocator \<Rightarrow> nat \<Rightarrow> nat \<Rightarrow> pair_world \<Rightarrow> bool \<times> pair_world" where
  "pair_buffer al b writebuf_len w =
     (if pr_buf (pair_data b w) \<noteq> None then (True, w)
      else
        let w = (if writebuf_len \<noteq> 0 then set_pair b (\<lambda>r. r\<lparr>pr_size := writebuf_len\<rparr>) w else w)
        in (case allocate_bytes al (pr_size (pair_data b w)) w of
              (None, w) \<Rightarrow> (False, w)
            | (Some buf, w) \<Rightarrow> (True, set_pair b (\<lambda>r. r\<lparr>pr_buf := Some buf, pr_len := 0, pr_offset := 0\<rparr>) w)))"

definition bio_make_pair :: "allocator \<Rightarrow> nat \<Rightarrow> nat \<Rightarrow> nat \<Rightarrow> nat \<Rightarrow> pair_world \<Rightarrow> int \<times> pair_world" where
  "bio_make_pair al bio1 bio2 writebuf1_len writebuf2_len w =
     (if pr_peer (pair_data bio1 w) \<noteq> None \<or> pr_peer (pair_data bio2 w) \<noteq> None then (0, w)
      else case pair_buffer al bio1 writebuf1_len w of
        (False, w) \<Rightarrow> (0, w)
      | (True, w) \<Rightarrow>
          (case pair_buffer al bio2 writebuf2_len w of
             (False, w) \<Rightarrow> (0, w)
           | (True, w) \<Rightarrow>
               let w = set_pair bio1 (\<lambda>r. r\<lparr>pr_peer := Some bio2, pr_closed := False, pr_request := 0\<rparr>) w;
                   w = set_pair bio2 (\<lambda>r. r\<lparr>pr_peer := Some bio1, pr_closed := False, pr_request := 0\<rparr>) w;
                   w = upd bio1 (\<lambda>x. x\<lparr>bio_init := True\<rparr>) w
               in (1, upd bio2 (\<lambda>x. x\<lparr>bio_init := True\<rparr>) w)))"

definition BIO_C_GET_WRITE_BUF_SIZE :: nat where "BIO_C_GET_WRITE_BUF_SIZE = 137"
definition BIO_C_GET_WRITE_GUARANTEE :: nat where "BIO_C_GET_WRITE_GUARANTEE = 140"
definition BIO_C_GET_READ_REQUEST :: nat where "BIO_C_GET_READ_REQUEST = 141"
definition BIO_C_SHUTDOWN_WR :: nat where "BIO_C_SHUTDOWN_WR = 142"
definition BIO_C_RESET_READ_REQUEST :: nat where "BIO_C_RESET_READ_REQUEST = 147"

text \<open>Sizes are below \<open>2 ^ 63\<close>, as objects in memory are; \<open>num\<close> is cut down to an \<^verbatim>\<open>int\<close>.\<close>

definition bio_ctrl :: "nat \<Rightarrow> nat \<Rightarrow> int \<Rightarrow> nat option \<Rightarrow> pair_world \<Rightarrow> (int \<times> pair_world) option" where
  "bio_ctrl bio cmd num' ptr w =
     (let b = pair_data bio w in
      if cmd = BIO_C_GET_WRITE_BUF_SIZE then Some (int (pr_size b), w)
      else if cmd = BIO_C_GET_WRITE_GUARANTEE
      then Some (if pr_peer b = None \<or> pr_closed b then 0 else int (pr_size b) - int (pr_len b), w)
      else if cmd = BIO_C_GET_READ_REQUEST then Some (int (pr_request b), w)
      else if cmd = BIO_C_RESET_READ_REQUEST then Some (1, set_pair bio (\<lambda>r. r\<lparr>pr_request := 0\<rparr>) w)
      else if cmd = BIO_C_SHUTDOWN_WR then Some (1, set_pair bio (\<lambda>r. r\<lparr>pr_closed := True\<rparr>) w)
      else if cmd = BIO_CTRL_GET_CLOSE then Some (bio_shutdown (obj w bio), w)
      else if cmd = BIO_CTRL_SET_CLOSE then Some (1, upd bio (\<lambda>x. x\<lparr>bio_shutdown := signed_take_bit 31 num'\<rparr>) w)
      else if cmd = BIO_CTRL_PENDING
      then Some (case pr_peer b of None \<Rightarrow> 0 | Some peer \<Rightarrow> int (pr_len (pair_data peer w)), w)
      else if cmd = BIO_CTRL_WPENDING then Some (if pr_buf b \<noteq> None then int (pr_len b) else 0, w)
      else if cmd = BIO_CTRL_FLUSH then Some (1, w)
      else if cmd = BIO_CTRL_EOF
      then Some (case ptr of
             None \<Rightarrow> 1
           | Some other \<Rightarrow> (if pr_len (pair_data other w) = 0 \<and> pr_closed (pair_data other w) then 1 else 0), w)
      else Some (0, w))"

definition BIO_TYPE_BIO :: u32 where
  "BIO_TYPE_BIO = 19 OR 0x0400"

text \<open>The method table; \<^verbatim>\<open>methods_biop\<close> has every address, as the other kinds are not part of the model.\<close>

definition methods_biop :: "allocator \<Rightarrow> bio_bio bio_method" where
  "methods_biop al =
     \<lparr>bm_type = BIO_TYPE_BIO, bm_bwrite = Some bio_write, bm_bread = Some bio_read, bm_ctrl = Some bio_ctrl,
      bm_create = Some (bio_new al), bm_destroy = Some bio_free\<rparr>"

definition pair_methods :: "allocator \<Rightarrow> bio_bio methods" where
  "pair_methods al = (\<lambda>_. methods_biop al)"

definition bio_s_bio :: nat where
  "bio_s_bio = 0"

definition BIO_new_bio_pair :: "allocator \<Rightarrow> nat \<Rightarrow> nat \<Rightarrow> pair_world \<Rightarrow> (int \<times> nat option \<times> nat option \<times> pair_world) option" where
  "BIO_new_bio_pair al writebuf1_len writebuf2_len w =
     do {
       (bio1, w) \<leftarrow> BIO_new (pair_methods al) al bio_s_bio w;
       (bio2, w) \<leftarrow> BIO_new (pair_methods al) al bio_s_bio w;
       (ok, w) \<leftarrow> Some (if bio1 = None \<or> bio2 = None then (0, w)
                         else bio_make_pair al (the bio1) (the bio2) writebuf1_len writebuf2_len w);
       if ok = 0
       then do {
         (r, w) \<leftarrow> BIO_free (pair_methods al) bio1 w;
         (r, w) \<leftarrow> BIO_free (pair_methods al) bio2 w;
         Some (0, None, None, w)
       }
       else Some (1, bio1, bio2, w)
     }"

definition BIO_ctrl_get_read_request :: "allocator \<Rightarrow> nat option \<Rightarrow> pair_world \<Rightarrow> (u64 \<times> pair_world) option" where
  "BIO_ctrl_get_read_request al bio w =
     do { (r, w) \<leftarrow> BIO_ctrl (pair_methods al) bio BIO_C_GET_READ_REQUEST 0 None w; Some (of_int r, w) }"

definition BIO_ctrl_get_write_guarantee :: "allocator \<Rightarrow> nat option \<Rightarrow> pair_world \<Rightarrow> (u64 \<times> pair_world) option" where
  "BIO_ctrl_get_write_guarantee al bio w =
     do { (r, w) \<leftarrow> BIO_ctrl (pair_methods al) bio BIO_C_GET_WRITE_GUARANTEE 0 None w; Some (of_int r, w) }"

definition BIO_shutdown_wr :: "allocator \<Rightarrow> nat option \<Rightarrow> pair_world \<Rightarrow> (int \<times> pair_world) option" where
  "BIO_shutdown_wr al bio w = BIO_ctrl (pair_methods al) bio BIO_C_SHUTDOWN_WR 0 None w"

section \<open>A ring is a bounded queue\<close>

definition ring_ok :: "bio_bio \<Rightarrow> bool" where
  "ring_ok r \<longleftrightarrow>
     (\<exists>B. pr_buf r = Some B \<and> length B = pr_size r) \<and> pr_len r \<le> pr_size r \<and> pr_offset r < pr_size r \<and>
     (pr_len r = 0 \<longrightarrow> pr_offset r = 0)"

definition ring_bytes :: "bio_bio \<Rightarrow> u8 list" where
  "ring_bytes r = map (\<lambda>i. the (pr_buf r) ! ((pr_offset r + i) mod pr_size r)) [0..<pr_len r]"

text \<open>What the loops leave alone.\<close>

definition same_half :: "bio_bio \<Rightarrow> bio_bio \<Rightarrow> bool" where
  "same_half r r' \<longleftrightarrow> pr_peer r' = pr_peer r \<and> pr_closed r' = pr_closed r \<and> pr_size r' = pr_size r \<and> pr_request r' = pr_request r"

lemma length_ring_bytes [simp]: "length (ring_bytes r) = pr_len r"
  by (simp add: ring_bytes_def)

lemma ring_mod: "off < sz \<Longrightarrow> i \<le> sz \<Longrightarrow> (off + i) mod sz = (if off + i < sz then off + i else off + i - sz)" for off sz :: nat
  by (simp add: le_mod_geq)

lemma write_chunk:
  assumes ok: "ring_ok r" and B: "pr_buf r = Some B" and k: "0 < length d" "length d \<le> pr_size r - pr_len r"
    and wo: "wo = (if pr_offset r + pr_len r < pr_size r then pr_offset r + pr_len r else pr_offset r + pr_len r - pr_size r)"
    and fits: "wo + length d \<le> pr_size r"
  defines "r' \<equiv> r\<lparr>pr_buf := Some (mem_write wo d B), pr_len := pr_len r + length d\<rparr>"
  shows "ring_ok r' \<and> ring_bytes r' = ring_bytes r @ d"
proof -
  let ?off = "pr_offset r" and ?len = "pr_len r" and ?sz = "pr_size r"
  have b: "length B = ?sz" "?off < ?sz" "?len \<le> ?sz" using ok B by (auto simp: ring_ok_def)
  have lw: "length (mem_write wo d B) = ?sz" using b(1) fits by simp
  then have ok': "ring_ok r'" using b k by (auto simp: ring_ok_def r'_def)
  have "ring_bytes r' = ring_bytes r @ d"
  proof (intro nth_equalityI)
    fix i assume "i < length (ring_bytes r')"
    then have i: "i < ?len + length d" by (simp add: r'_def)
    let ?j = "(?off + i) mod ?sz"
    have "ring_bytes r' ! i = mem_write wo d B ! ?j" using i by (simp add: ring_bytes_def r'_def)
    moreover have j: "?j < ?sz" using b by simp
    moreover have je: "?j = (if ?off + i < ?sz then ?off + i else ?off + i - ?sz)" by (rule ring_mod) (use i k b in linarith)+
    ultimately have e: "ring_bytes r' ! i = (if wo \<le> ?j \<and> ?j < wo + length d then d ! (?j - wo) else B ! ?j)"
      using nth_mem_write [of wo d B ?j] fits b(1) by simp
    show "ring_bytes r' ! i = (ring_bytes r @ d) ! i"
    proof (cases "i < ?len")
      case True
      then have "\<not> (wo \<le> ?j \<and> ?j < wo + length d)" using je wo k b by (auto split: if_splits)
      then have "ring_bytes r' ! i = B ! ?j" using e by (simp only: if_False)
      also have "\<dots> = (ring_bytes r @ d) ! i" using True B by (simp add: nth_append ring_bytes_def)
      finally show ?thesis .
    next
      case False
      then have "?j = wo + (i - ?len)" using i k b fits je wo by (auto split: if_splits)
      moreover have "wo \<le> wo + (i - ?len)" "wo + (i - ?len) < wo + length d" using False i by linarith+
      ultimately have "ring_bytes r' ! i = d ! (i - ?len)" using e by simp
      then show ?thesis using False by (simp add: nth_append)
    qed
  qed (simp add: r'_def)
  then show ?thesis using ok' by simp
qed

lemma read_chunk:
  assumes ok: "ring_ok r" and B: "pr_buf r = Some B" and k: "k \<le> pr_len r" "pr_offset r + k \<le> pr_size r" "0 < k"
  defines "r' \<equiv> (if pr_len r - k \<noteq> 0
      then r\<lparr>pr_len := pr_len r - k, pr_offset := (if pr_offset r + k = pr_size r then 0 else pr_offset r + k)\<rparr>
      else r\<lparr>pr_len := pr_len r - k, pr_offset := 0\<rparr>)"
  shows "ring_ok r' \<and> ring_bytes r' = drop k (ring_bytes r) \<and> take k (drop (pr_offset r) B) = take k (ring_bytes r)"
proof -
  let ?off = "pr_offset r" and ?len = "pr_len r" and ?sz = "pr_size r"
  have b: "length B = ?sz" "?off < ?sz" "?len \<le> ?sz" using ok B by (auto simp: ring_ok_def)
  have ok': "ring_ok r'" using b B k by (auto simp: ring_ok_def r'_def)
  have "ring_bytes r' = drop k (ring_bytes r)"
  proof (intro nth_equalityI)
    fix i assume "i < length (ring_bytes r')"
    then have i: "i < ?len - k" by (simp add: r'_def split: if_splits)
    then have "((if ?off + k = ?sz then 0 else ?off + k) + i) mod ?sz = (?off + (k + i)) mod ?sz"
      by (auto simp: mod_simps add.assoc [symmetric])
    then show "ring_bytes r' ! i = drop k (ring_bytes r) ! i" using i B by (simp add: ring_bytes_def r'_def)
  qed (simp add: r'_def)
  moreover have "take k (drop ?off B) = take k (ring_bytes r)"
    using b B k by (intro nth_equalityI) (auto simp: ring_bytes_def)
  ultimately show ?thesis using ok' by blast
qed

lemma ring_write_once:
  assumes "ring_ok r" and "0 < n" and "n \<le> pr_size r - pr_len r" and "n \<le> length d"
    and "(if pr_offset r + pr_len r < pr_size r then pr_offset r + pr_len r else pr_offset r + pr_len r - pr_size r) + n \<le> pr_size r"
  shows "\<exists>r'. ring_write n d r = Some r' \<and> ring_ok r' \<and> ring_bytes r' = ring_bytes r @ take n d \<and> same_half r r'"
proof -
  let ?wo = "if pr_offset r + pr_len r < pr_size r then pr_offset r + pr_len r else pr_offset r + pr_len r - pr_size r"
  obtain B where B: "pr_buf r = Some B" using assms(1) by (auto simp: ring_ok_def)
  have wo: "(if pr_size r \<le> pr_offset r + pr_len r then pr_offset r + pr_len r - pr_size r else pr_offset r + pr_len r) = ?wo"
    by auto
  let ?r = "r\<lparr>pr_buf := Some (mem_write ?wo (take n d) B), pr_len := pr_len r + n\<rparr>"
  have "ring_write n d r = Some ?r"
    using assms(5) by (subst ring_write.simps) (simp add: Let_def wo B)
  moreover have "ring_ok ?r \<and> ring_bytes ?r = ring_bytes r @ take n d"
    using write_chunk [OF assms(1) B, of "take n d" ?wo] assms by simp
  moreover have "same_half r ?r" by (simp add: same_half_def)
  ultimately show ?thesis by blast
qed

theorem ring_write_ok:
  assumes "ring_ok r" and "0 < n" and "n \<le> pr_size r - pr_len r" and "n \<le> length d"
  shows "\<exists>r'. ring_write n d r = Some r' \<and> ring_ok r' \<and> ring_bytes r' = ring_bytes r @ take n d \<and> same_half r r'"
proof -
  let ?wo = "if pr_offset r + pr_len r < pr_size r then pr_offset r + pr_len r else pr_offset r + pr_len r - pr_size r"
  obtain B where B: "pr_buf r = Some B" "length B = pr_size r" using assms(1) by (auto simp: ring_ok_def)
  have b: "pr_offset r < pr_size r" "pr_len r \<le> pr_size r" using assms(1) by (auto simp: ring_ok_def)
  show ?thesis
  proof (cases "?wo + n \<le> pr_size r")
    case True
    then show ?thesis by (rule ring_write_once [OF assms])
  next
    case False
    then have wrap: "pr_offset r + pr_len r < pr_size r" using assms(3) b by (auto split: if_splits)
    define c where "c = pr_size r - (pr_offset r + pr_len r)"
    have c: "0 < c" "c < n" "c \<le> pr_size r - pr_len r" using False wrap by (auto simp: c_def)
    let ?r = "r\<lparr>pr_buf := Some (mem_write (pr_offset r + pr_len r) (take c d) B), pr_len := pr_len r + c\<rparr>"
    have first: "ring_ok ?r \<and> ring_bytes ?r = ring_bytes r @ take c d"
    proof -
      have "d \<noteq> []" "length (take c d) = c" "pr_offset r + pr_len r + c \<le> pr_size r" using c assms wrap by (auto simp: c_def)
      then show ?thesis using write_chunk [OF assms(1) B(1), of "take c d" "pr_offset r + pr_len r"] c wrap by simp
    qed
    have "ring_write n d r = ring_write (n - c) (drop c d) ?r"
      using False wrap c by (subst ring_write.simps) (simp add: Let_def B c_def)
    moreover have "\<exists>r'. ring_write (n - c) (drop c d) ?r = Some r' \<and> ring_ok r' \<and>
        ring_bytes r' = ring_bytes ?r @ take (n - c) (drop c d) \<and> same_half ?r r'"
      by (rule ring_write_once) (use first c assms wrap b in \<open>auto simp: c_def\<close>)
    moreover have "take c d @ take (n - c) (drop c d) = take n d" using take_add [of c "n - c" d] c by simp
    ultimately show ?thesis using first by (auto simp: same_half_def)
  qed
qed

lemma ring_read_once:
  assumes "ring_ok r" and "0 < n" and "n \<le> pr_len r" and "pr_offset r + n \<le> pr_size r"
  shows "\<exists>r'. ring_read n p buf r = Some (mem_write p (take n (ring_bytes r)) buf, r') \<and> ring_ok r' \<and>
    ring_bytes r' = drop n (ring_bytes r) \<and> same_half r r'"
proof -
  obtain B where B: "pr_buf r = Some B" using assms(1) by (auto simp: ring_ok_def)
  let ?r = "if pr_len r - n \<noteq> 0
      then r\<lparr>pr_len := pr_len r - n, pr_offset := (if pr_offset r + n = pr_size r then 0 else pr_offset r + n)\<rparr>
      else r\<lparr>pr_len := pr_len r - n, pr_offset := 0\<rparr>"
  note chunk = read_chunk [OF assms(1) B assms(3,4,2)]
  have "ring_read n p buf r = Some (mem_write p (take n (drop (pr_offset r) B)) buf, ?r)"
    using assms(4) by (subst ring_read.simps) (simp add: Let_def B)
  moreover have "same_half r ?r" by (simp add: same_half_def)
  ultimately show ?thesis using chunk by auto
qed

theorem ring_read_ok:
  assumes "ring_ok r" and "0 < n" and "n \<le> pr_len r" and "p + n \<le> length buf"
  shows "\<exists>r'. ring_read n p buf r = Some (mem_write p (take n (ring_bytes r)) buf, r') \<and> ring_ok r' \<and>
    ring_bytes r' = drop n (ring_bytes r) \<and> same_half r r'"
proof (cases "pr_offset r + n \<le> pr_size r")
  case True
  then show ?thesis by (rule ring_read_once [OF assms(1-3)])
next
  case False
  obtain B where B: "pr_buf r = Some B" "length B = pr_size r" using assms(1) by (auto simp: ring_ok_def)
  have b: "pr_offset r < pr_size r" "pr_len r \<le> pr_size r" using assms(1) by (auto simp: ring_ok_def)
  define c where "c = pr_size r - pr_offset r"
  have c: "0 < c" "c < n" "c \<le> pr_len r" "pr_offset r + c = pr_size r" using False b assms(3) by (auto simp: c_def)
  let ?r = "r\<lparr>pr_len := pr_len r - c, pr_offset := 0\<rparr>"
  have chunk: "ring_ok ?r" "ring_bytes ?r = drop c (ring_bytes r)" "take c (drop (pr_offset r) B) = take c (ring_bytes r)"
    using read_chunk [OF assms(1) B(1) c(3) _ c(1)] c assms(3) by (simp_all split: if_splits)
  have "ring_read n p buf r = ring_read (n - c) (p + c) (mem_write p (take c (ring_bytes r)) buf) ?r"
    using False c assms(3) chunk(3) by (subst ring_read.simps) (simp add: Let_def B c_def [symmetric])
  moreover have "\<exists>r'. ring_read (n - c) (p + c) (mem_write p (take c (ring_bytes r)) buf) ?r =
      Some (mem_write (p + c) (take (n - c) (ring_bytes ?r)) (mem_write p (take c (ring_bytes r)) buf), r') \<and> ring_ok r' \<and>
      ring_bytes r' = drop (n - c) (ring_bytes ?r) \<and> same_half ?r r'"
    by (rule ring_read_once) (use chunk c assms(3) b in auto)
  moreover have "mem_write (p + c) (take (n - c) (ring_bytes ?r)) (mem_write p (take c (ring_bytes r)) buf) =
      mem_write p (take n (ring_bytes r)) buf"
    using mem_write_append [of p "take c (ring_bytes r)" "take (n - c) (drop c (ring_bytes r))" buf] chunk(2) c assms(3,4)
      take_add [of c "n - c" "ring_bytes r"] by (simp add: min_absorb2)
  ultimately show ?thesis using chunk(2) c by (auto simp: same_half_def)
qed

section \<open>What a pair promises\<close>

text \<open>
  A pair is two halves, each a bounded queue of the bytes its side has written and the other has not read. An operation
  has a result, the bytes a read delivers, and whether the caller is told to try again.
\<close>

record half =
  hf_queue :: "u8 list"
  hf_cap :: nat
  hf_closed :: bool
  hf_request :: nat
  hf_close :: int

definition spec_write :: "u8 list \<Rightarrow> half \<Rightarrow> (int \<times> u8 list \<times> bool) \<times> half" where
  "spec_write d me =
     (if d = [] then ((0, [], False), me)
      else
        let me = me\<lparr>hf_request := 0\<rparr>; n = min (length d) (hf_cap me - length (hf_queue me))
        in if hf_closed me then ((- 1, [], False), me)
           else if length (hf_queue me) = hf_cap me then ((- 1, [], True), me)
           else ((int n, [], False), me\<lparr>hf_queue := hf_queue me @ take n d\<rparr>))"

definition spec_read :: "nat \<Rightarrow> half \<Rightarrow> (int \<times> u8 list \<times> bool) \<times> half" where
  "spec_read n other =
     (if n = 0 then ((0, [], False), other)
      else
        let other = other\<lparr>hf_request := 0\<rparr>; k = min n (length (hf_queue other))
        in if hf_queue other = []
           then if hf_closed other then ((0, [], False), other)
                else ((- 1, [], True), other\<lparr>hf_request := min n (hf_cap other)\<rparr>)
           else ((int k, take k (hf_queue other), False), other\<lparr>hf_queue := drop k (hf_queue other)\<rparr>))"

definition abs_half :: "pair_world \<Rightarrow> nat \<Rightarrow> half" where
  "abs_half w b =
     \<lparr>hf_queue = ring_bytes (pair_data b w), hf_cap = pr_size (pair_data b w), hf_closed = pr_closed (pair_data b w),
      hf_request = pr_request (pair_data b w), hf_close = bio_shutdown (obj w b)\<rparr>"

text \<open>Two objects joined as the comments on the struct have it.\<close>

definition half_ok :: "nat \<Rightarrow> nat \<Rightarrow> pair_world \<Rightarrow> bool" where
  "half_ok b peer w \<longleftrightarrow>
     bios w b \<noteq> None \<and> bio_method (obj w b) = Some bio_s_bio \<and> bio_init (obj w b) \<and> bio_ptr (obj w b) \<noteq> None \<and>
     pr_peer (pair_data b w) = Some peer \<and> ring_ok (pair_data b w)"

definition pair_ok :: "nat \<Rightarrow> nat \<Rightarrow> pair_world \<Rightarrow> bool" where
  "pair_ok x y w \<longleftrightarrow> x \<noteq> y \<and> half_ok x y w \<and> half_ok y x w"

lemma pair_data_simps [simp]:
  "pair_data c (set_pair b f w) = (if c = b then f (pair_data b w) else pair_data c w)"
  "pair_data c (BIO_clear_retry_flags b w) = pair_data c w"
  "pair_data c (BIO_set_retry_read b w) = pair_data c w"
  "pair_data c (BIO_set_retry_write b w) = pair_data c w"
  by (simp_all add: pair_data_def set_pair_def BIO_clear_retry_flags_def BIO_set_retry_read_def BIO_set_retry_write_def)

lemma pair_data_counts [simp]:
  "pair_data c (upd b (\<lambda>x. x\<lparr>bio_num_write := f x\<rparr>) w) = pair_data c w"
  "pair_data c (upd b (\<lambda>x. x\<lparr>bio_num_read := f x\<rparr>) w) = pair_data c w"
  "pair_data c (upd b (\<lambda>x. x\<lparr>bio_shutdown := v\<rparr>) w) = pair_data c w"
  by (simp_all add: pair_data_def)

lemmas obj_changes = set_pair_def BIO_clear_retry_flags_def BIO_set_retry_read_def BIO_set_retry_write_def

lemma obj_simps [simp]:
  "bio_method (obj (set_pair b f w) c) = bio_method (obj w c)" "bio_init (obj (set_pair b f w) c) = bio_init (obj w c)"
  "bio_method (obj (BIO_clear_retry_flags b w) c) = bio_method (obj w c)"
  "bio_init (obj (BIO_clear_retry_flags b w) c) = bio_init (obj w c)"
  "bio_method (obj (BIO_set_retry_read b w) c) = bio_method (obj w c)"
  "bio_init (obj (BIO_set_retry_read b w) c) = bio_init (obj w c)"
  "bio_method (obj (BIO_set_retry_write b w) c) = bio_method (obj w c)"
  "bio_shutdown (obj (set_pair b f w) c) = bio_shutdown (obj w c)"
  "bio_shutdown (obj (BIO_clear_retry_flags b w) c) = bio_shutdown (obj w c)"
  "bio_shutdown (obj (BIO_set_retry_read b w) c) = bio_shutdown (obj w c)"
  "bio_shutdown (obj (BIO_set_retry_write b w) c) = bio_shutdown (obj w c)"
  "bio_init (obj (BIO_set_retry_write b w) c) = bio_init (obj w c)"
  by (simp_all add: obj_changes)

lemma ptr_simps [simp]:
  "bio_ptr (obj (set_pair b f w) c) = None \<longleftrightarrow> c \<noteq> b \<and> bio_ptr (obj w c) = None"
  "bio_ptr (obj (BIO_clear_retry_flags b w) c) = bio_ptr (obj w c)"
  "bio_ptr (obj (BIO_set_retry_read b w) c) = bio_ptr (obj w c)"
  "bio_ptr (obj (BIO_set_retry_write b w) c) = bio_ptr (obj w c)"
  by (simp_all add: obj_changes)

lemma bios_simps [simp]:
  "bios (set_pair b f w) c = None \<longleftrightarrow> c \<noteq> b \<and> bios w c = None"
  "bios (BIO_clear_retry_flags b w) c = None \<longleftrightarrow> c \<noteq> b \<and> bios w c = None"
  "bios (BIO_set_retry_read b w) c = None \<longleftrightarrow> c \<noteq> b \<and> bios w c = None"
  "bios (BIO_set_retry_write b w) c = None \<longleftrightarrow> c \<noteq> b \<and> bios w c = None"
  by (simp_all add: obj_changes)

lemma bios_other [simp]:
  "c \<noteq> b \<Longrightarrow> bios (set_pair b f w) c = bios w c"
  "c \<noteq> b \<Longrightarrow> bios (BIO_clear_retry_flags b w) c = bios w c"
  "c \<noteq> b \<Longrightarrow> bios (BIO_set_retry_read b w) c = bios w c"
  "c \<noteq> b \<Longrightarrow> bios (BIO_set_retry_write b w) c = bios w c"
  by (simp_all add: obj_changes)

lemma should_retry [simp]:
  "BIO_should_retry b (BIO_set_retry_read b w) \<noteq> 0" "BIO_should_retry b (BIO_set_retry_write b w) \<noteq> 0"
  "BIO_should_retry b (BIO_clear_retry_flags b w) = 0"
  "c \<noteq> b \<Longrightarrow> BIO_should_retry b (set_pair c f w) = BIO_should_retry b w"
  "BIO_should_retry b (set_pair b f w) = BIO_should_retry b w"
proof -
  have "(v OR (m OR 8)) AND 8 = (8 :: u32)" for v m by (simp add: word_ao_dist word_bw_assocs)
  then show "BIO_should_retry b (BIO_set_retry_read b w) \<noteq> 0" "BIO_should_retry b (BIO_set_retry_write b w) \<noteq> 0"
    by (simp_all add: BIO_should_retry_def BIO_test_flags_def BIO_set_retry_read_def BIO_set_retry_write_def BIO_FLAGS_SHOULD_RETRY_def)
  have "(NOT 15 :: u32) AND 8 = 0" by simp
  then have "(v AND NOT 15) AND 8 = (0 :: u32)" for v by (simp add: word_bw_assocs)
  then show "BIO_should_retry b (BIO_clear_retry_flags b w) = 0"
    by (simp add: BIO_should_retry_def BIO_test_flags_def BIO_clear_retry_flags_def kRetryFlags_def BIO_FLAGS_RWS_def
        BIO_FLAGS_READ_def BIO_FLAGS_WRITE_def BIO_FLAGS_IO_SPECIAL_def BIO_FLAGS_SHOULD_RETRY_def)
qed (simp_all add: BIO_should_retry_def BIO_test_flags_def set_pair_def)

text \<open>A call that ends as the specification says, with the caller's object \<open>b\<close>, and touches nothing but the two objects.\<close>

definition call_ok :: "nat \<Rightarrow> nat \<Rightarrow> nat \<Rightarrow> int \<Rightarrow> bool \<Rightarrow> half \<Rightarrow> half \<Rightarrow> pair_world \<Rightarrow> pair_world \<Rightarrow> bool" where
  "call_ok b x y ret retry hx hy w w' \<longleftrightarrow>
     pair_ok x y w' \<and> abs_half w' x = hx \<and> abs_half w' y = hy \<and> (ret < 0 \<longrightarrow> (BIO_should_retry b w' \<noteq> 0) = retry) \<and>
     (\<forall>c. c \<noteq> x \<and> c \<noteq> y \<longrightarrow> bios w' c = bios w c)"

lemma ring_ok_request [simp]:
  "ring_ok (r\<lparr>pr_request := n\<rparr>) = ring_ok r" "ring_bytes (r\<lparr>pr_request := n\<rparr>) = ring_bytes r"
  "ring_ok (r\<lparr>pr_peer := p\<rparr>) = ring_ok r" "ring_bytes (r\<lparr>pr_peer := p\<rparr>) = ring_bytes r"
  "ring_ok (r\<lparr>pr_closed := c\<rparr>) = ring_ok r" "ring_bytes (r\<lparr>pr_closed := c\<rparr>) = ring_bytes r"
  by (simp_all add: ring_ok_def ring_bytes_def)

lemma ring_bytes_empty [simp]: "ring_bytes r = [] \<longleftrightarrow> pr_len r = 0"
  by (simp add: ring_bytes_def)

lemma bio_write_ok:
  assumes ok: "pair_ok x y w" and d: "d \<noteq> []" and spec: "spec_write d (abs_half w x) = ((ret, bs, retry), hx)"
  shows "\<exists>w'. bio_write x (Some d) (length d) w = Some (ret, w') \<and> call_ok x x y ret retry hx (abs_half w y) w w'"
proof -
  let ?r = "(pair_data x w)\<lparr>pr_request := 0\<rparr>"
  have o: "x \<noteq> y" "bio_init (obj w x)" "ring_ok (pair_data x w)" using ok by (simp_all add: pair_ok_def half_ok_def)
  have len: "pr_len (pair_data x w) \<le> pr_size (pair_data x w)" using o(3) by (simp add: ring_ok_def)
  consider "pr_closed (pair_data x w)" | "\<not> pr_closed (pair_data x w)" "pr_len (pair_data x w) = pr_size (pair_data x w)"
    | "\<not> pr_closed (pair_data x w)" "pr_len (pair_data x w) < pr_size (pair_data x w)" using len by linarith
  then show ?thesis
  proof cases
    case 1
    then show ?thesis using ok spec d
      by (auto simp: bio_write_def spec_write_def abs_half_def call_ok_def pair_ok_def half_ok_def Let_def simp del: not_None_eq)
  next
    case 2
    then show ?thesis using ok spec d
      by (auto simp: bio_write_def spec_write_def abs_half_def call_ok_def pair_ok_def half_ok_def Let_def simp del: not_None_eq)
  next
    case 3
    let ?n = "if pr_size (pair_data x w) - pr_len (pair_data x w) < length d then pr_size (pair_data x w) - pr_len (pair_data x w) else length d"
    have n: "0 < ?n" "?n \<le> pr_size ?r - pr_len ?r" "?n \<le> length d" using 3 d by auto
    have m: "min (length d) (pr_size (pair_data x w) - pr_len (pair_data x w)) = ?n" by auto
    obtain r' where r': "ring_write ?n d ?r = Some r'" "ring_ok r'" "ring_bytes r' = ring_bytes (pair_data x w) @ take ?n d" "same_half ?r r'"
      using ring_write_ok [of ?r ?n d] o(3) n by auto
    let ?w = "set_pair x (\<lambda>_. r') (set_pair x (\<lambda>r. r\<lparr>pr_request := 0\<rparr>) (BIO_clear_retry_flags x w))"
    have "bio_write x (Some d) (length d) w = Some (int ?n, ?w)"
      using o 3 d r'(1)
      by (cases "pr_size (pair_data x w) - pr_len (pair_data x w) < length d") (simp_all add: bio_write_def Let_def)
    moreover have "pair_ok x y ?w" using ok r'(2,4) by (auto simp: pair_ok_def half_ok_def same_half_def simp del: not_None_eq)
    moreover have s: "ret = int ?n" "hx = (abs_half w x)\<lparr>hf_request := 0, hf_queue := ring_bytes (pair_data x w) @ take ?n d\<rparr>"
      using spec d 3 by (auto simp: spec_write_def abs_half_def Let_def m)
    moreover have "abs_half ?w x = hx" using r'(3,4) by (simp add: s(2) abs_half_def same_half_def)
    moreover have "abs_half ?w y = abs_half w y" using o(1) by (simp add: abs_half_def)
    moreover have "\<forall>c. c \<noteq> x \<and> c \<noteq> y \<longrightarrow> bios ?w c = bios w c" by simp
    ultimately show ?thesis by (auto simp: call_ok_def)
  qed
qed

lemma bio_read_ok:
  assumes ok: "pair_ok x y w" and n: "n \<noteq> 0" and buf: "n \<le> length buf"
    and spec: "spec_read n (abs_half w y) = ((ret, bs, retry), hy)"
  shows "\<exists>w'. bio_read x (Some buf) n w = Some (ret, Some (mem_write 0 bs buf), w') \<and> call_ok x x y ret retry (abs_half w x) hy w w'"
proof -
  let ?r = "(pair_data y w)\<lparr>pr_request := 0\<rparr>"
  have o: "x \<noteq> y" "bio_init (obj w x)" "ring_ok (pair_data y w)" "pr_peer (pair_data x w) = Some y"
    using ok by (simp_all add: pair_ok_def half_ok_def)
  consider "pr_len (pair_data y w) = 0" "pr_closed (pair_data y w)" | "pr_len (pair_data y w) = 0" "\<not> pr_closed (pair_data y w)"
    | "0 < pr_len (pair_data y w)" by blast
  then show ?thesis
  proof cases
    case 1
    then show ?thesis using ok spec n o
      by (auto simp: bio_read_def spec_read_def abs_half_def call_ok_def pair_ok_def half_ok_def Let_def simp del: not_None_eq)
  next
    case 2
    let ?w = "set_pair y (\<lambda>r. r\<lparr>pr_request := (if n \<le> pr_size r then n else pr_size r)\<rparr>)
        (BIO_set_retry_read x (set_pair y (\<lambda>r. r\<lparr>pr_request := 0\<rparr>) (BIO_clear_retry_flags x w)))"
    have "bio_read x (Some buf) n w = Some (- 1, Some buf, ?w)" using 2 n o by (simp add: bio_read_def Let_def)
    moreover have "ret = - 1" "bs = []" "retry" "hy = (abs_half w y)\<lparr>hf_request := min n (pr_size (pair_data y w))\<rparr>"
      using 2 spec n by (auto simp: spec_read_def abs_half_def Let_def)
    moreover have "pair_ok x y ?w" using ok by (auto simp: pair_ok_def half_ok_def simp del: not_None_eq)
    ultimately show ?thesis using o(1) by (auto simp: call_ok_def abs_half_def)
  next
    case 3
    let ?k = "if pr_len (pair_data y w) < n then pr_len (pair_data y w) else n"
    have k: "0 < ?k" "?k \<le> pr_len ?r" "?k \<le> length buf" using 3 n buf by auto
    have m: "min n (pr_len (pair_data y w)) = ?k" by auto
    obtain r' where r': "ring_read ?k 0 buf ?r = Some (mem_write 0 (take ?k (ring_bytes (pair_data y w))) buf, r')" "ring_ok r'"
        "ring_bytes r' = drop ?k (ring_bytes (pair_data y w))" "same_half ?r r'"
      using ring_read_ok [of ?r ?k 0 buf] o(3) k by auto
    let ?w = "set_pair y (\<lambda>_. r') (set_pair y (\<lambda>r. r\<lparr>pr_request := 0\<rparr>) (BIO_clear_retry_flags x w))"
    have "bio_read x (Some buf) n w = Some (int ?k, Some (mem_write 0 (take ?k (ring_bytes (pair_data y w))) buf), ?w)"
      using o 3 n r'(1)
      by (cases "pr_len (pair_data y w) < n") (simp_all add: bio_read_def Let_def)
    moreover have s: "ret = int ?k" "bs = take ?k (ring_bytes (pair_data y w))"
        "hy = (abs_half w y)\<lparr>hf_request := 0, hf_queue := drop ?k (ring_bytes (pair_data y w))\<rparr>"
      using spec n 3 by (auto simp: spec_read_def abs_half_def Let_def m)
    moreover have "pair_ok x y ?w" using ok r'(2,4) by (auto simp: pair_ok_def half_ok_def same_half_def simp del: not_None_eq)
    moreover have "abs_half ?w y = hy" using r'(3,4) by (simp add: s(3) abs_half_def same_half_def)
    moreover have "abs_half ?w x = abs_half w x" using o(1) by (simp add: abs_half_def)
    moreover have "\<forall>c. c \<noteq> x \<and> c \<noteq> y \<longrightarrow> bios ?w c = bios w c" by simp
    ultimately show ?thesis by (auto simp: call_ok_def)
  qed
qed

section \<open>Histories of calls\<close>

datatype pair_op =
    PWrite "u8 list"
  | PRead nat
  | PCtrl nat int

text \<open>A call on \<open>x\<close>, whose peer is \<open>y\<close>. A read is given a buffer of the size it asks for.\<close>

definition pair_call :: "allocator \<Rightarrow> nat \<Rightarrow> nat \<Rightarrow> pair_op \<Rightarrow> pair_world \<Rightarrow> ((int \<times> u8 list \<times> bool) \<times> pair_world) option" where
  "pair_call al x y op w =
     (case op of
        PWrite d \<Rightarrow> do {
          (r, w) \<leftarrow> BIO_write (pair_methods al) (Some x) (Some d) (int (length d)) w;
          Some ((r, [], r < 0 \<and> BIO_should_retry x w \<noteq> 0), w)
        }
      | PRead n \<Rightarrow> do {
          (r, buf, w) \<leftarrow> BIO_read (pair_methods al) (Some x) (Some (replicate n 0)) (int n) w;
          Some ((r, take (nat r) (the buf), r < 0 \<and> BIO_should_retry x w \<noteq> 0), w)
        }
      | PCtrl cmd larg \<Rightarrow> do {
          (r, w) \<leftarrow> BIO_ctrl (pair_methods al) (Some x) cmd larg (Some y) w;
          Some ((r, [], False), w)
        })"

text \<open>A history on both sides; \<open>True\<close> is the first BIO. A call that does not return has no result.\<close>

definition pair_step :: "allocator \<Rightarrow> nat \<Rightarrow> nat \<Rightarrow> bool \<times> pair_op \<Rightarrow> pair_world \<Rightarrow> (int \<times> u8 list \<times> bool) option \<times> pair_world" where
  "pair_step al x y e w =
     (case (if fst e then pair_call al x y (snd e) w else pair_call al y x (snd e) w) of
        None \<Rightarrow> (None, w)
      | Some (r, w) \<Rightarrow> (Some r, w))"

definition spec_ctrl :: "nat \<Rightarrow> int \<Rightarrow> half \<Rightarrow> half \<Rightarrow> int \<times> half" where
  "spec_ctrl cmd larg me other =
     (if cmd = BIO_C_GET_WRITE_BUF_SIZE then (int (hf_cap me), me)
      else if cmd = BIO_C_GET_WRITE_GUARANTEE then (if hf_closed me then 0 else int (hf_cap me - length (hf_queue me)), me)
      else if cmd = BIO_C_GET_READ_REQUEST then (int (hf_request me), me)
      else if cmd = BIO_C_RESET_READ_REQUEST then (1, me\<lparr>hf_request := 0\<rparr>)
      else if cmd = BIO_C_SHUTDOWN_WR then (1, me\<lparr>hf_closed := True\<rparr>)
      else if cmd = BIO_CTRL_GET_CLOSE then (hf_close me, me)
      else if cmd = BIO_CTRL_SET_CLOSE then (1, me\<lparr>hf_close := signed_take_bit 31 larg\<rparr>)
      else if cmd = BIO_CTRL_PENDING then (int (length (hf_queue other)), me)
      else if cmd = BIO_CTRL_WPENDING then (int (length (hf_queue me)), me)
      else if cmd = BIO_CTRL_FLUSH then (1, me)
      else if cmd = BIO_CTRL_EOF then (if hf_queue other = [] \<and> hf_closed other then 1 else 0, me)
      else (0, me))"

definition spec_call :: "pair_op \<Rightarrow> half \<times> half \<Rightarrow> (int \<times> u8 list \<times> bool) \<times> half \<times> half" where
  "spec_call op a =
     (case a of (me, other) \<Rightarrow>
        (case op of
           PWrite d \<Rightarrow> (case spec_write d me of (r, me) \<Rightarrow> (r, me, other))
         | PRead n \<Rightarrow> (case spec_read n other of (r, other) \<Rightarrow> (r, me, other))
         | PCtrl cmd larg \<Rightarrow> (case spec_ctrl cmd larg me other of (r, me) \<Rightarrow> ((r, [], False), me, other))))"

definition spec_step :: "bool \<times> pair_op \<Rightarrow> half \<times> half \<Rightarrow> (int \<times> u8 list \<times> bool) option \<times> half \<times> half" where
  "spec_step e a =
     (case a of (hx, hy) \<Rightarrow>
        if fst e then (case spec_call (snd e) (hx, hy) of (r, hx, hy) \<Rightarrow> (Some r, hx, hy))
        else (case spec_call (snd e) (hy, hx) of (r, hy, hx) \<Rightarrow> (Some r, hx, hy)))"

definition abs_pair :: "nat \<Rightarrow> nat \<Rightarrow> pair_world \<Rightarrow> half \<times> half" where
  "abs_pair x y w = (abs_half w x, abs_half w y)"

lemma pair_methods_simps [simp]:
  "bm_bwrite (pair_methods al m) = Some bio_write" "bm_bread (pair_methods al m) = Some bio_read"
  "bm_ctrl (pair_methods al m) = Some bio_ctrl" "bm_create (pair_methods al m) = Some (bio_new al)"
  "bm_destroy (pair_methods al m) = Some bio_free"
  by (simp_all add: pair_methods_def methods_biop_def)

lemma pair_ok_commute: "pair_ok x y w \<longleftrightarrow> pair_ok y x w"
  by (auto simp: pair_ok_def)

lemma call_ok_counts:
  assumes "call_ok b x y ret retry hx hy w w'" and "c = x \<or> c = y"
  shows "call_ok b x y ret retry hx hy w (upd c (\<lambda>x. x\<lparr>bio_num_read := f x\<rparr>) w')"
    and "call_ok b x y ret retry hx hy w (upd c (\<lambda>x. x\<lparr>bio_num_write := f x\<rparr>) w')"
  using assms by (auto simp: call_ok_def pair_ok_def half_ok_def abs_half_def BIO_should_retry_def BIO_test_flags_def simp del: not_None_eq)

lemma spec_read_length: "spec_read n other = ((ret, bs, retry), other') \<Longrightarrow> ret \<ge> 0 \<Longrightarrow> nat ret = length bs"
  by (auto simp: spec_read_def Let_def split: if_splits)

lemma spec_read_bound: "spec_read n other = ((ret, bs, retry), other') \<Longrightarrow> length bs \<le> n \<and> (ret < 0 \<longrightarrow> bs = []) \<and> (retry \<longrightarrow> ret < 0)"
  by (auto simp: spec_read_def Let_def split: if_splits)

lemma spec_write_shape: "spec_write d me = ((ret, bs, retry), me') \<Longrightarrow> bs = [] \<and> (retry \<longrightarrow> ret < 0)"
  by (auto simp: spec_write_def Let_def split: if_splits)

definition effect_ok :: "nat \<Rightarrow> nat \<Rightarrow> half \<Rightarrow> half \<Rightarrow> pair_world \<Rightarrow> pair_world \<Rightarrow> bool" where
  "effect_ok x y hx hy w w' \<longleftrightarrow>
     pair_ok x y w' \<and> abs_half w' x = hx \<and> abs_half w' y = hy \<and> (\<forall>c. c \<noteq> x \<and> c \<noteq> y \<longrightarrow> bios w' c = bios w c)"

lemma BIO_write_ok:
  assumes ok: "pair_ok x y w" and spec: "spec_write d (abs_half w x) = ((ret, bs, retry), hx)"
  shows "\<exists>w'. BIO_write (pair_methods al) (Some x) (Some d) (int (length d)) w = Some (ret, w') \<and>
    (ret < 0 \<and> BIO_should_retry x w' \<noteq> 0 \<longleftrightarrow> retry) \<and> effect_ok x y hx (abs_half w y) w w'"
proof (cases "d = []")
  case True
  then show ?thesis using ok spec by (auto simp: BIO_write_def spec_write_def effect_ok_def pair_ok_def half_ok_def)
next
  case False
  have x: "bio_method (obj w x) = Some bio_s_bio" "bio_init (obj w x)" using ok by (simp_all add: pair_ok_def half_ok_def)
  obtain w1 where w1: "bio_write x (Some d) (length d) w = Some (ret, w1)" "call_ok x x y ret retry hx (abs_half w y) w w1"
    using bio_write_ok [OF ok False spec] by blast
  let ?w = "if ret > 0 then upd x (\<lambda>x. x\<lparr>bio_num_write := bio_num_write x + of_int ret\<rparr>) w1 else w1"
  have "BIO_write (pair_methods al) (Some x) (Some d) (int (length d)) w = Some (ret, ?w)"
    using False x w1(1) by (simp add: BIO_write_def)
  moreover have "call_ok x x y ret retry hx (abs_half w y) w ?w" using w1(2) call_ok_counts(2) [of x x y ret retry hx _ w w1 x] by simp
  ultimately show ?thesis using spec_write_shape [OF spec] by (auto simp: call_ok_def effect_ok_def)
qed

lemma BIO_read_ok:
  assumes ok: "pair_ok x y w" and buf: "n \<le> length buf" and spec: "spec_read n (abs_half w y) = ((ret, bs, retry), hy)"
  shows "\<exists>w'. BIO_read (pair_methods al) (Some x) (Some buf) (int n) w = Some (ret, Some (mem_write 0 bs buf), w') \<and>
    (ret < 0 \<and> BIO_should_retry x w' \<noteq> 0 \<longleftrightarrow> retry) \<and> effect_ok x y (abs_half w x) hy w w'"
proof (cases "n = 0")
  case True
  then show ?thesis using ok spec by (auto simp: BIO_read_def spec_read_def effect_ok_def pair_ok_def half_ok_def)
next
  case False
  have x: "bio_method (obj w x) = Some bio_s_bio" "bio_init (obj w x)" using ok by (simp_all add: pair_ok_def half_ok_def)
  obtain w1 where w1: "bio_read x (Some buf) n w = Some (ret, Some (mem_write 0 bs buf), w1)"
      "call_ok x x y ret retry (abs_half w x) hy w w1"
    using bio_read_ok [OF ok False buf spec] by blast
  let ?w = "if ret > 0 then upd x (\<lambda>x. x\<lparr>bio_num_read := bio_num_read x + of_int ret\<rparr>) w1 else w1"
  have "BIO_read (pair_methods al) (Some x) (Some buf) (int n) w = Some (ret, Some (mem_write 0 bs buf), ?w)"
    using False x w1(1) by (simp add: BIO_read_def)
  moreover have "call_ok x x y ret retry (abs_half w x) hy w ?w" using w1(2) call_ok_counts(1) [of x x y ret retry _ hy w w1 x] by simp
  ultimately show ?thesis using spec_read_bound [OF spec] by (auto simp: call_ok_def effect_ok_def)
qed

lemma BIO_ctrl_ok:
  assumes ok: "pair_ok x y w" and spec: "spec_ctrl cmd larg (abs_half w x) (abs_half w y) = (ret, hx)"
  shows "\<exists>w'. BIO_ctrl (pair_methods al) (Some x) cmd larg (Some y) w = Some (ret, w') \<and> effect_ok x y hx (abs_half w y) w w'"
proof -
  have x: "bio_method (obj w x) = Some bio_s_bio" "pr_peer (pair_data x w) = Some y" "x \<noteq> y" "pr_buf (pair_data x w) \<noteq> None"
      "pr_len (pair_data x w) \<le> pr_size (pair_data x w)"
    using ok by (auto simp: pair_ok_def half_ok_def ring_ok_def)
  have ctrl: "BIO_ctrl (pair_methods al) (Some x) cmd larg (Some y) w = bio_ctrl x cmd larg (Some y) w"
    using x(1) by (simp add: BIO_ctrl_def)
  have keep: "effect_ok x y (abs_half w x) (abs_half w y) w w" using ok by (simp add: effect_ok_def)
  have set1: "effect_ok x y ((abs_half w x)\<lparr>hf_request := 0\<rparr>) (abs_half w y) w (set_pair x (\<lambda>r. r\<lparr>pr_request := 0\<rparr>) w)"
    "effect_ok x y ((abs_half w x)\<lparr>hf_closed := True\<rparr>) (abs_half w y) w (set_pair x (\<lambda>r. r\<lparr>pr_closed := True\<rparr>) w)"
    "effect_ok x y ((abs_half w x)\<lparr>hf_close := v\<rparr>) (abs_half w y) w (upd x (\<lambda>x. x\<lparr>bio_shutdown := v\<rparr>) w)" for v
    using ok by (simp_all add: effect_ok_def pair_ok_def half_ok_def abs_half_def del: not_None_eq)
  have abs: "hf_queue (abs_half w x) = ring_bytes (pair_data x w)" "hf_queue (abs_half w y) = ring_bytes (pair_data y w)"
    "hf_cap (abs_half w x) = pr_size (pair_data x w)" "hf_closed (abs_half w x) = pr_closed (pair_data x w)"
    "hf_closed (abs_half w y) = pr_closed (pair_data y w)" "hf_request (abs_half w x) = pr_request (pair_data x w)"
    "hf_close (abs_half w x) = bio_shutdown (obj w x)" by (simp_all add: abs_half_def)
  note defs = bio_ctrl_def spec_ctrl_def Let_def abs
  show ?thesis
  proof (cases "cmd = BIO_C_RESET_READ_REQUEST \<or> cmd = BIO_C_SHUTDOWN_WR \<or> cmd = BIO_CTRL_SET_CLOSE")
    case True
    note cmds = BIO_C_GET_WRITE_BUF_SIZE_def BIO_C_GET_WRITE_GUARANTEE_def BIO_C_GET_READ_REQUEST_def BIO_C_RESET_READ_REQUEST_def
      BIO_C_SHUTDOWN_WR_def BIO_CTRL_GET_CLOSE_def BIO_CTRL_SET_CLOSE_def
    from True show ?thesis using spec set1 unfolding ctrl by (elim disjE) (auto simp: defs cmds)
  next
    case False
    then have "bio_ctrl x cmd larg (Some y) w = Some (fst (spec_ctrl cmd larg (abs_half w x) (abs_half w y)), w)"
      and "snd (spec_ctrl cmd larg (abs_half w x) (abs_half w y)) = abs_half w x"
      using x(2,4,5) by (simp_all add: defs of_nat_diff del: not_None_eq)
    then show ?thesis using keep spec unfolding ctrl by simp
  qed
qed

lemma pair_call_ok:
  assumes ok: "pair_ok x y w" and spec: "spec_call op (abs_half w x, abs_half w y) = (r, hx, hy)"
  shows "\<exists>w'. pair_call al x y op w = Some (r, w') \<and> effect_ok x y hx hy w w'"
proof (cases op)
  case (PWrite d)
  obtain ret bs retry where s: "spec_write d (abs_half w x) = ((ret, bs, retry), hx)" "r = (ret, bs, retry)" "hy = abs_half w y"
    using spec PWrite by (cases r) (auto simp: spec_call_def split: prod.splits)
  show ?thesis using BIO_write_ok [OF ok s(1), of al] spec_write_shape [OF s(1)] by (auto simp: pair_call_def PWrite s)
next
  case (PRead n)
  obtain ret bs retry where s: "spec_read n (abs_half w y) = ((ret, bs, retry), hy)" "r = (ret, bs, retry)" "hx = abs_half w x"
    using spec PRead by (cases r) (auto simp: spec_call_def split: prod.splits)
  have "take (nat ret) (mem_write 0 bs (replicate n 0)) = bs"
    using spec_read_length [OF s(1)] spec_read_bound [OF s(1)] by (cases "ret < 0") (simp_all add: mem_write_def)
  then show ?thesis using BIO_read_ok [OF ok _ s(1), of "replicate n 0" al] by (auto simp: pair_call_def PRead s)
next
  case (PCtrl cmd larg)
  obtain ret where s: "spec_ctrl cmd larg (abs_half w x) (abs_half w y) = (ret, hx)" "r = (ret, [], False)" "hy = abs_half w y"
    using spec PCtrl by (cases r) (auto simp: spec_call_def split: prod.splits)
  show ?thesis using BIO_ctrl_ok [OF ok s(1), of al] by (auto simp: pair_call_def PCtrl s)
qed

lemma pair_step_ok:
  assumes ok: "pair_ok x y w" and step: "pair_step al x y e w = (r, w')"
  shows "pair_ok x y w' \<and> spec_step e (abs_pair x y w) = (r, abs_pair x y w') \<and> (\<forall>c. c \<noteq> x \<and> c \<noteq> y \<longrightarrow> bios w' c = bios w c)"
proof (cases "fst e")
  case True
  obtain q hx hy where s: "spec_call (snd e) (abs_half w x, abs_half w y) = (q, hx, hy)" by (cases "spec_call (snd e) (abs_half w x, abs_half w y)")
  show ?thesis using pair_call_ok [OF ok s, of al] step True s by (auto simp: pair_step_def spec_step_def abs_pair_def effect_ok_def)
next
  case False
  obtain q hx hy where s: "spec_call (snd e) (abs_half w y, abs_half w x) = (q, hy, hx)" by (cases "spec_call (snd e) (abs_half w y, abs_half w x)")
  show ?thesis using pair_call_ok [OF ok [unfolded pair_ok_commute [of x y]] s, of al] step False s
    by (auto simp: pair_step_def spec_step_def abs_pair_def effect_ok_def pair_ok_commute [of y x])
qed

interpretation pair: refinement "pair_step al x y" "pair_ok x y" "abs_pair x y" "\<lambda>e a r a'. spec_step e a = (r, a')" for al x y
  using pair_step_ok by unfold_locales blast+

lemma history_functional: "history (\<lambda>e a r a'. f e a = (r, a')) ops a rs a' \<longleftrightarrow> run f ops a = (rs, a')"
proof (induction ops arbitrary: a rs)
  case Nil
  show ?case by (cases rs) auto
next
  case (Cons e ops)
  show ?case by (cases rs) (auto simp: Cons.IH split: prod.splits)
qed

section \<open>Making and freeing pairs\<close>

text \<open>No object has an address of an allocation to come.\<close>

definition fresh :: "'p world \<Rightarrow> bool" where
  "fresh w \<longleftrightarrow> (\<forall>k \<ge> serial w. bios w k = None)"

text \<open>An object of the kind that is not joined to another.\<close>

definition single :: "nat \<Rightarrow> pair_world \<Rightarrow> bool" where
  "single b w \<longleftrightarrow>
     bios w b \<noteq> None \<and> bio_method (obj w b) = Some bio_s_bio \<and> bio_references (obj w b) = 1 \<and> bio_next (obj w b) = None \<and>
     bio_ptr (obj w b) \<noteq> None \<and> pr_peer (pair_data b w) = None \<and> bio_shutdown (obj w b) = 1"

text \<open>The allocator grants the two blocks of an object, and the six of a pair, in the order they are asked for from allocation \<open>k\<close> on.\<close>

definition bio_room :: "allocator \<Rightarrow> nat \<Rightarrow> bool" where
  "bio_room al k \<longleftrightarrow> al_ok al k sizeof_BIO \<and> al_ok al (k + 1) sizeof_bio_bio"

definition asked_size :: "nat \<Rightarrow> nat" where
  "asked_size n = (if n = 0 then 17 * 1024 else n)"

definition pair_room :: "allocator \<Rightarrow> nat \<Rightarrow> nat \<Rightarrow> nat \<Rightarrow> bool" where
  "pair_room al n1 n2 k \<longleftrightarrow> bio_room al k \<and> bio_room al (k + 2)
     \<and> al_ok al (k + 4) (asked_size n1) \<and> al_ok al (k + 5) (asked_size n2)"

lemma BIO_new_single:
  assumes "fresh w"
  shows "(\<exists>w'. BIO_new (pair_methods al) al bio_s_bio w = Some (None, w') \<and> bios w' = bios w \<and> fresh w' \<and> \<not> bio_room al (serial w)) \<or>
    (\<exists>w'. BIO_new (pair_methods al) al bio_s_bio w = Some (Some (serial w), w') \<and> single (serial w) w' \<and> serial w' = serial w + 2 \<and> fresh w' \<and>
       bio_room al (serial w) \<and>
       pr_buf (pair_data (serial w) w') = None \<and> pr_size (pair_data (serial w) w') = 17 * 1024 \<and>
       (\<forall>c. c \<noteq> serial w \<longrightarrow> bios w' c = bios w c))"
proof -
  have n: "bios w (serial w) = None" using assms by (simp add: fresh_def)
  then have undo: "(bios w)(serial w \<mapsto> v, serial w := None) = bios w" for v by auto
  show ?thesis
    using assms n
    by (cases "al_ok al (serial w) sizeof_BIO"; cases "al_ok al (Suc (serial w)) sizeof_bio_bio")
      (auto simp: BIO_new_def allocate_def bio_new_def new_bio_def fresh_def single_def pair_data_def obj_def undo Let_def upd_def bio_room_def)
qed

lemma BIO_free_single:
  assumes "single b w"
  shows "\<exists>w'. BIO_free (pair_methods al) (Some b) w = Some (1, w') \<and> bios w' = (bios w)(b := None)"
proof -
  have refs: "CRYPTO_refcount_dec_and_test_zero 1 = Some (True, 0)"
    by (simp add: CRYPTO_refcount_dec_and_test_zero_def CRYPTO_REFCOUNT_MAX_def)
  have "BIO_free (pair_methods al) None w2 = Some (1, w2)" for w2 :: pair_world by (subst BIO_free.simps) simp
  then show ?thesis using assms
    by (subst BIO_free.simps) (auto simp: single_def refs BIO_pop_def bio_free_def pair_data_def Let_def)
qed

lemma pair_buffer_single:
  assumes "single b w" and "pr_buf (pair_data b w) = None" and "pr_size (pair_data b w) = 17 * 1024" and "pair_buffer al b n w = (ok, w')"
  shows "single b w' \<and> (\<forall>c. c \<noteq> b \<longrightarrow> bios w' c = bios w c) \<and>
    (ok \<longleftrightarrow> al_ok al (serial w) (asked_size n)) \<and> serial w' = serial w + 1 \<and>
    (ok \<longrightarrow> ring_ok (pair_data b w') \<and> pr_len (pair_data b w') = 0 \<and> pr_size (pair_data b w') = (if n = 0 then 17 * 1024 else n))"
proof -
  let ?w = "if n \<noteq> 0 then set_pair b (\<lambda>r. r\<lparr>pr_size := n\<rparr>) w else w"
  have w: "single b ?w" "\<forall>c. c \<noteq> b \<longrightarrow> bios ?w c = bios w c" "pr_size (pair_data b ?w) = (if n = 0 then 17 * 1024 else n)" "serial ?w = serial w"
    using assms(1,3) by (simp_all add: single_def set_pair_def pair_data_def)
  have e: "pair_buffer al b n w =
      (case allocate_bytes al (pr_size (pair_data b ?w)) ?w of
         (None, w) \<Rightarrow> (False, w)
       | (Some buf, w) \<Rightarrow> (True, set_pair b (\<lambda>r. r\<lparr>pr_buf := Some buf, pr_len := 0, pr_offset := 0\<rparr>) w))"
    unfolding pair_buffer_def Let_def using assms(2) by simp
  show ?thesis
    using assms(4) w unfolding e
    by (auto simp: asked_size_def allocate_bytes_def single_def ring_ok_def set_pair_def pair_data_def obj_def upd_def split: if_splits)
qed

definition empty_half :: "nat \<Rightarrow> half" where
  "empty_half n = \<lparr>hf_queue = [], hf_cap = (if n = 0 then 17 * 1024 else n), hf_closed = False, hf_request = 0, hf_close = 1\<rparr>"

lemma bio_make_pair_singles:
  assumes s: "single x w" "single y w" "x \<noteq> y"
    and new: "pr_buf (pair_data x w) = None" "pr_size (pair_data x w) = 17 * 1024" "pr_buf (pair_data y w) = None" "pr_size (pair_data y w) = 17 * 1024"
    and r: "bio_make_pair al x y n1 n2 w = (ok, w')"
  shows "(\<forall>c. c \<noteq> x \<and> c \<noteq> y \<longrightarrow> bios w' c = bios w c) \<and>
    (ok = 1 \<longleftrightarrow> al_ok al (serial w) (asked_size n1) \<and> al_ok al (serial w + 1) (asked_size n2)) \<and>
    (ok = 0 \<and> single x w' \<and> single y w' \<or> ok = 1 \<and> pair_ok x y w' \<and> abs_pair x y w' = (empty_half n1, empty_half n2))"
proof -
  have other: "single c v'" "pair_data c v' = pair_data c v" if "single c v" "bios v' c = bios v c" for c and v v' :: pair_world
    using that by (simp_all add: single_def pair_data_def obj_def)
  obtain ok1 w1 where b1: "pair_buffer al x n1 w = (ok1, w1)" by fastforce
  note p1 = pair_buffer_single [OF s(1) new(1,2) b1]
  have y1: "single y w1" "pair_data y w1 = pair_data y w" using other [OF s(2), of w1] p1 s(3) by simp_all
  have start: "pr_peer (pair_data x w) = None" "pr_peer (pair_data y w) = None" using s by (simp_all add: single_def)
  show ?thesis
  proof (cases ok1)
    case False
    then have "ok = 0" "w' = w1" using r b1 start by (simp_all add: bio_make_pair_def)
    then show ?thesis using p1 y1 False by simp
  next
    case True
    obtain ok2 w2 where b2: "pair_buffer al y n2 w1 = (ok2, w2)" by fastforce
    note p2 = pair_buffer_single [OF y1(1) _ _ b2, unfolded y1(2), OF new(3,4)]
    have x2: "single x w2" "pair_data x w2 = pair_data x w1" using other [of x w1 w2] p1 p2 s(3) by simp_all
    show ?thesis
    proof (cases ok2)
      case False
      then have "ok = 0" "w' = w2" using r b1 b2 True start by (simp_all add: bio_make_pair_def)
      then show ?thesis using p1 p2 x2 False by simp
    next
      case ok2: True
      let ?w = "upd y (\<lambda>x. x\<lparr>bio_init := True\<rparr>) (upd x (\<lambda>x. x\<lparr>bio_init := True\<rparr>)
        (set_pair y (\<lambda>r. r\<lparr>pr_peer := Some x, pr_closed := False, pr_request := 0\<rparr>)
          (set_pair x (\<lambda>r. r\<lparr>pr_peer := Some y, pr_closed := False, pr_request := 0\<rparr>) w2)))"
      have res: "ok = 1" "w' = ?w" using r b1 b2 True ok2 start by (simp_all add: bio_make_pair_def Let_def)
      have data: "pair_data y ?w = (pair_data y w2)\<lparr>pr_peer := Some x, pr_closed := False, pr_request := 0\<rparr>"
        "pair_data x ?w = (pair_data x w2)\<lparr>pr_peer := Some y, pr_closed := False, pr_request := 0\<rparr>"
        using s(3) by (simp_all add: pair_data_def set_pair_def)
      have rings: "ring_ok (pair_data x ?w)" "ring_ok (pair_data y ?w)" "ring_bytes (pair_data x ?w) = []" "ring_bytes (pair_data y ?w) = []"
        "pr_size (pair_data x ?w) = (if n1 = 0 then 17 * 1024 else n1)" "pr_size (pair_data y ?w) = (if n2 = 0 then 17 * 1024 else n2)"
        using p1 p2 x2(2) True ok2 unfolding data by simp_all
      have objs: "bios ?w x \<noteq> None" "bio_method (obj ?w x) = Some bio_s_bio" "bio_init (obj ?w x)" "bio_ptr (obj ?w x) \<noteq> None" "bio_shutdown (obj ?w x) = 1"
        "bios ?w y \<noteq> None" "bio_method (obj ?w y) = Some bio_s_bio" "bio_init (obj ?w y)" "bio_ptr (obj ?w y) \<noteq> None" "bio_shutdown (obj ?w y) = 1"
        using x2(1) p2 s(3) by (simp_all add: single_def set_pair_def)
      have "pair_ok x y ?w" using s(3) objs rings(1,2) data by (simp add: pair_ok_def half_ok_def)
      moreover have "abs_pair x y ?w = (empty_half n1, empty_half n2)"
        using objs rings(3-6) by (simp add: abs_pair_def abs_half_def empty_half_def data)
      moreover have "\<forall>c. c \<noteq> x \<and> c \<noteq> y \<longrightarrow> bios ?w c = bios w c" using p1 p2 by (simp add: set_pair_def)
      ultimately show ?thesis using res p1 p2 True ok2 by simp
    qed
  qed
qed

text \<open>All or nothing, depending on the allocations.\<close>

lemma BIO_new_bio_pair_room:
  assumes "fresh w"
  shows "if pair_room al n1 n2 (serial w)
    then \<exists>w'. BIO_new_bio_pair al n1 n2 w = Some (1, Some (serial w), Some (serial w + 2), w') \<and> pair_ok (serial w) (serial w + 2) w' \<and>
       abs_pair (serial w) (serial w + 2) w' = (empty_half n1, empty_half n2) \<and> (\<forall>c. c \<noteq> serial w \<and> c \<noteq> serial w + 2 \<longrightarrow> bios w' c = bios w c)
    else \<exists>w'. BIO_new_bio_pair al n1 n2 w = Some (0, None, None, w') \<and> bios w' = bios w"
proof -
  let ?M = "pair_methods al"
  have free_none: "BIO_free ?M None v = Some (1, v)" for v by (subst BIO_free.simps) simp
  have other: "single c v'" "pair_data c v' = pair_data c v" if "single c v" "bios v' c = bios v c" for c and v v' :: pair_world
    using that by (simp_all add: single_def pair_data_def obj_def)
  consider w1 where "BIO_new ?M al bio_s_bio w = Some (None, w1)" "bios w1 = bios w" "fresh w1" "\<not> bio_room al (serial w)"
    | w1 where "BIO_new ?M al bio_s_bio w = Some (Some (serial w), w1)" "single (serial w) w1" "serial w1 = serial w + 2" "fresh w1" "bio_room al (serial w)"
       "pr_buf (pair_data (serial w) w1) = None" "pr_size (pair_data (serial w) w1) = 17 * 1024" "\<forall>c. c \<noteq> serial w \<longrightarrow> bios w1 c = bios w c"
    using BIO_new_single [OF assms, of al] by blast
  then show ?thesis
  proof cases
    case 1
    show ?thesis
    proof (cases rule: BIO_new_single [OF 1(3), of al, THEN disjE])
      case 1
      note one = \<open>BIO_new ?M al bio_s_bio w = Some (None, w1)\<close> \<open>bios w1 = bios w\<close> \<open>\<not> bio_room al (serial w)\<close>
      from 1 obtain w2 where "BIO_new ?M al bio_s_bio w1 = Some (None, w2)" "bios w2 = bios w1" by blast
      then show ?thesis using one by (simp add: BIO_new_bio_pair_def free_none pair_room_def)
    next
      case 2
      note one = \<open>BIO_new ?M al bio_s_bio w = Some (None, w1)\<close> \<open>bios w1 = bios w\<close> \<open>fresh w1\<close> \<open>\<not> bio_room al (serial w)\<close>
      from 2 obtain w2 where two: "BIO_new ?M al bio_s_bio w1 = Some (Some (serial w1), w2)" "single (serial w1) w2"
          "\<forall>c. c \<noteq> serial w1 \<longrightarrow> bios w2 c = bios w1 c" by blast
      obtain w3 where w3: "BIO_free ?M (Some (serial w1)) w2 = Some (1, w3)" "bios w3 = (bios w2)(serial w1 := None)"
        using BIO_free_single [OF two(2), of al] by blast
      have "bios w3 = bios w" using w3(2) two(3) one(2,3) by (auto simp: fun_eq_iff fresh_def)
      then show ?thesis using one two w3(1) by (simp add: BIO_new_bio_pair_def free_none pair_room_def)
    qed
  next
    case 2
    note one = 2
    let ?x = "serial w"
    have fx: "bios w ?x = None" using assms by (simp add: fresh_def)
    show ?thesis
    proof (cases rule: BIO_new_single [OF one(4), of al, THEN disjE])
      case 1
      then obtain w2 where two: "BIO_new ?M al bio_s_bio w1 = Some (None, w2)" "bios w2 = bios w1" "\<not> bio_room al (serial w + 2)"
        unfolding one(3) by blast
      have "single ?x w2" using other(1) [OF one(2)] two(2) by simp
      then obtain w3 where w3: "BIO_free ?M (Some ?x) w2 = Some (1, w3)" "bios w3 = (bios w2)(?x := None)"
        using BIO_free_single by blast
      have "bios w3 = bios w" using w3(2) two(2) one(8) fx by (auto simp: fun_eq_iff)
      then show ?thesis using one(1) two(1,3) w3(1) by (simp add: BIO_new_bio_pair_def free_none pair_room_def)
    next
      case 2
      let ?y = "serial w + 2"
      obtain w2 where two: "BIO_new ?M al bio_s_bio w1 = Some (Some ?y, w2)" "single ?y w2"
          "pr_buf (pair_data ?y w2) = None" "pr_size (pair_data ?y w2) = 17 * 1024" "\<forall>c. c \<noteq> ?y \<longrightarrow> bios w2 c = bios w1 c"
          "serial w2 = serial w + 4" "bio_room al ?y"
        using 2 unfolding one(3) by auto
      have xy: "?x \<noteq> ?y" by simp
      have fy: "bios w ?y = None" using assms by (simp add: fresh_def)
      have x2: "single ?x w2" "pair_data ?x w2 = pair_data ?x w1" using other [OF one(2), of w2] two(5) xy by simp_all
      obtain ok w3 where mp: "bio_make_pair al ?x ?y n1 n2 w2 = (ok, w3)" by fastforce
      note m = bio_make_pair_singles [OF x2(1) two(2) xy, unfolded x2(2), OF one(6,7) two(3,4) mp]
      have frame: "\<forall>c. c \<noteq> ?x \<and> c \<noteq> ?y \<longrightarrow> bios w3 c = bios w c" using m two(5) one(8) by simp
      have room: "ok = 1 \<longleftrightarrow> pair_room al n1 n2 ?x" using m one(5) two(6,7) by (simp add: pair_room_def add.commute [of _ "serial w"])
      show ?thesis
      proof (cases "ok = 0")
        case True
        then have s3: "single ?x w3" "single ?y w3" using m by auto
        obtain w4 where w4: "BIO_free ?M (Some ?x) w3 = Some (1, w4)" "bios w4 = (bios w3)(?x := None)"
          using BIO_free_single [OF s3(1)] by blast
        have "single ?y w4" using other(1) [OF s3(2)] w4(2) xy by simp
        then obtain w5 where w5: "BIO_free ?M (Some ?y) w4 = Some (1, w5)" "bios w5 = (bios w4)(?y := None)"
          using BIO_free_single by blast
        have "bios w5 = bios w" using w5(2) w4(2) frame fx fy by (auto simp: fun_eq_iff)
        then show ?thesis using one(1) two(1) mp True w4(1) w5(1) room by (simp add: BIO_new_bio_pair_def)
      next
        case False
        then have "ok = 1" "pair_ok ?x ?y w3" "abs_pair ?x ?y w3 = (empty_half n1, empty_half n2)" using m by auto
        moreover from this have "BIO_new_bio_pair al n1 n2 w = Some (1, Some ?x, Some ?y, w3)"
          using one(1) two(1) mp by (simp add: BIO_new_bio_pair_def)
        ultimately show ?thesis using frame room by simp
      qed
    qed
  qed
qed

lemma BIO_new_bio_pair_cases:
  assumes "fresh w"
  shows "(\<exists>w'. BIO_new_bio_pair al n1 n2 w = Some (0, None, None, w') \<and> bios w' = bios w) \<or>
    (\<exists>x y w'. BIO_new_bio_pair al n1 n2 w = Some (1, Some x, Some y, w') \<and> pair_ok x y w' \<and>
       abs_pair x y w' = (empty_half n1, empty_half n2) \<and> (\<forall>c. c \<noteq> x \<and> c \<noteq> y \<longrightarrow> bios w' c = bios w c))"
  using BIO_new_bio_pair_room [OF assms, of al n1 n2] by (auto split: if_splits)

definition example_allocator :: allocator where
  "example_allocator = \<lparr>al_ok = (\<lambda>_ _. True), al_junk = (\<lambda>_ _. 7)\<rparr>"

definition empty_world :: pair_world where
  "empty_world = \<lparr>bios = (\<lambda>_. None), serial = 0\<rparr>"

lemma empty_world_fresh: "fresh empty_world"
  by (simp add: fresh_def empty_world_def)

lemma example_pair: "\<exists>w. BIO_new_bio_pair example_allocator 3 0 empty_world = Some (1, Some 0, Some 2, w)"
  by (simp add: BIO_new_bio_pair_def BIO_new_def bio_new_def allocate_def allocate_bytes_def example_allocator_def empty_world_def
      new_bio_def bio_make_pair_def pair_buffer_def pair_data_def set_pair_def obj_def upd_def Let_def)

section \<open>Properties\<close>

text \<open>
  C28. Making a pair succeeds exactly if the allocator grants the six blocks it takes: two for each object and the two buffers, whose
  sizes are those asked for, or 17 KiB where 0 is. Then there are two new objects, at addresses that held none, joined to each other, open,
  with empty buffers of those sizes, and nothing else has changed. If any of the six allocations fails, no object is left behind.
\<close>

theorem bio_pair_all_or_nothing:
  assumes "fresh w"
  shows "if pair_room al n1 n2 (serial w)
    then \<exists>w'. BIO_new_bio_pair al n1 n2 w = Some (1, Some (serial w), Some (serial w + 2), w') \<and>
       bios w (serial w) = None \<and> bios w (serial w + 2) = None \<and> pair_ok (serial w) (serial w + 2) w' \<and>
       abs_pair (serial w) (serial w + 2) w' = (empty_half n1, empty_half n2) \<and>
       (\<forall>c. c \<noteq> serial w \<and> c \<noteq> serial w + 2 \<longrightarrow> bios w' c = bios w c)
    else \<exists>w'. BIO_new_bio_pair al n1 n2 w = Some (0, None, None, w') \<and> bios w' = bios w"
  using BIO_new_bio_pair_room [OF assms, of al n1 n2] assms by (auto simp: fresh_def split: if_splits)

text \<open>Once with all the memory it needs, and once with an allocator that refuses the second buffer.\<close>

theorem bio_pair_all_or_nothing_witness:
  "(\<exists>w'. BIO_new_bio_pair example_allocator 3 0 empty_world = Some (1, Some 0, Some 2, w') \<and> pair_ok 0 2 w' \<and>
      abs_pair 0 2 w' = (empty_half 3, empty_half 0)) \<and>
   (\<exists>w'. BIO_new_bio_pair \<lparr>al_ok = (\<lambda>k n. k \<noteq> 5), al_junk = (\<lambda>_ _. 7)\<rparr> 3 0 empty_world = Some (0, None, None, w') \<and>
      bios w' = bios empty_world)"
proof
  have "pair_room example_allocator 3 0 0" by (simp add: pair_room_def bio_room_def example_allocator_def)
  then show "\<exists>w'. BIO_new_bio_pair example_allocator 3 0 empty_world = Some (1, Some 0, Some 2, w') \<and> pair_ok 0 2 w' \<and>
      abs_pair 0 2 w' = (empty_half 3, empty_half 0)"
    using bio_pair_all_or_nothing [OF empty_world_fresh, of example_allocator 3 0] by (auto simp: empty_world_def numeral_2_eq_2)
  have "\<not> pair_room \<lparr>al_ok = (\<lambda>k n. k \<noteq> 5), al_junk = (\<lambda>_ _. 7)\<rparr> 3 0 0" by (simp add: pair_room_def)
  then show "\<exists>w'. BIO_new_bio_pair \<lparr>al_ok = (\<lambda>k n. k \<noteq> 5), al_junk = (\<lambda>_ _. 7)\<rparr> 3 0 empty_world = Some (0, None, None, w') \<and>
      bios w' = bios empty_world"
    using bio_pair_all_or_nothing [OF empty_world_fresh, of "\<lparr>al_ok = (\<lambda>k n. k \<noteq> 5), al_junk = (\<lambda>_ _. 7)\<rparr>" 3 0]
    by (simp add: empty_world_def)
qed

text \<open>
  C27. Any history of reads, writes and controls on the two sides of a new pair has the results the same history has on two
  bounded queues: the bytes, the counts, the errors and the advice to try again. Every call returns, and no
  other object is touched.
\<close>

theorem bio_pair_refines_queues:
  assumes "fresh w" and "BIO_new_bio_pair al n1 n2 w = Some (1, Some x, Some y, w0)" and "run (pair_step al x y) ops w0 = (rs, w')"
  shows "run spec_step ops (empty_half n1, empty_half n2) = (rs, abs_pair x y w') \<and> None \<notin> set rs \<and>
    (\<forall>c. c \<noteq> x \<and> c \<noteq> y \<longrightarrow> bios w' c = bios w c)"
proof -
  have new: "pair_ok x y w0" "abs_pair x y w0 = (empty_half n1, empty_half n2)" "\<forall>c. c \<noteq> x \<and> c \<noteq> y \<longrightarrow> bios w0 c = bios w c"
    using BIO_new_bio_pair_cases [OF assms(1), of al n1 n2] assms(2) by auto
  have spec: "run spec_step ops (empty_half n1, empty_half n2) = (rs, abs_pair x y w')"
    using pair.run_history [OF new(1) assms(3)] new(2) by (simp add: history_functional)
  have "None \<notin> set rs" if "run spec_step ops a = (rs, a')" for rs a a'
    using that by (induction ops arbitrary: a rs) (auto simp: spec_step_def split: prod.splits if_splits)
  moreover have "\<forall>c. c \<noteq> x \<and> c \<noteq> y \<longrightarrow> bios w' c = bios w c"
    using assms(3) new(1,3)
  proof (induction ops arbitrary: w0 rs)
    case (Cons e ops)
    obtain r w1 rs1 where "pair_step al x y e w0 = (r, w1)" "run (pair_step al x y) ops w1 = (rs1, w')"
      using Cons.prems(1) by (auto split: prod.splits)
    then show ?case using Cons.IH [of w1 rs1] pair_step_ok [OF Cons.prems(2)] Cons.prems(3) by simp
  qed simp
  ultimately show ?thesis using spec by blast
qed

theorem bio_pair_refines_queues_witness:
  "\<exists>w0. fst (run (pair_step example_allocator 0 2)
      [(True, PWrite [1, 2]), (False, PRead 1), (True, PWrite [3, 4, 5]), (True, PWrite [6]), (False, PRead 9), (False, PRead 9)] w0) =
    [Some (2, [], False), Some (1, [1], False), Some (2, [], False), Some (- 1, [], True), Some (3, [2, 3, 4], False), Some (- 1, [], True)]"
proof -
  let ?ops = "[(True, PWrite [1, 2]), (False, PRead 1), (True, PWrite [3, 4, 5]), (True, PWrite [6]), (False, PRead 9), (False, PRead 9)]"
  obtain w0 where w0: "BIO_new_bio_pair example_allocator 3 0 empty_world = Some (1, Some 0, Some 2, w0)" using example_pair by blast
  obtain rs w' where r: "run (pair_step example_allocator 0 2) ?ops w0 = (rs, w')" by fastforce
  have "run spec_step ?ops (empty_half 3, empty_half 0) = (rs, abs_pair 0 2 w')"
    using bio_pair_refines_queues [OF empty_world_fresh w0 r] by simp
  then have "rs = [Some (2, [], False), Some (1, [1], False), Some (2, [], False), Some (- 1, [], True), Some (3, [2, 3, 4], False), Some (- 1, [], True)]"
    by (simp add: spec_step_def spec_call_def spec_write_def spec_read_def empty_half_def Let_def)
  then show ?thesis using r by (intro exI [of _ w0]) simp
qed

end
