(* ===== verification/Bio_Stream.thy ===== *)
theory Bio_Stream
  imports Bio_Pair
begin

text \<open>
  A stream through a pair of \<^verbatim>\<open>crypto/bio/pair.c\<close>: one side keeps offering what it has not yet got rid of, the other keeps
  reading, in any order and in pieces of any sizes. Whatever the schedule, as long as neither side
  is forgotten for ever, everything arrives.
\<close>

section \<open>Turns\<close>

datatype side_turn = Send nat | Recv nat

text \<open>
  The state of the pipe, what is still to be sent and what has been received; a turn that does not return has no successor.
\<close>

definition pipe_turn ::
  "(u8 list \<Rightarrow> 's \<Rightarrow> (nat \<times> 's) option) \<Rightarrow> (nat \<Rightarrow> 's \<Rightarrow> (u8 list \<times> 's) option) \<Rightarrow> side_turn \<Rightarrow>
     's \<times> u8 list \<times> u8 list \<Rightarrow> ('s \<times> u8 list \<times> u8 list) option" where
  "pipe_turn send recv u = (\<lambda>(s, todo, got).
     (case u of
        Send n \<Rightarrow> do { (k, s) \<leftarrow> send (take n todo) s; Some (s, drop k todo, got) }
      | Recv n \<Rightarrow> do { (bs, s) \<leftarrow> recv n s; Some (s, todo, got @ bs) }))"

primrec pipe_run ::
  "(u8 list \<Rightarrow> 's \<Rightarrow> (nat \<times> 's) option) \<Rightarrow> (nat \<Rightarrow> 's \<Rightarrow> (u8 list \<times> 's) option) \<Rightarrow> (nat \<Rightarrow> side_turn) \<Rightarrow> nat \<Rightarrow>
     's \<times> u8 list \<times> u8 list \<Rightarrow> ('s \<times> u8 list \<times> u8 list) option" where
  "pipe_run send recv turns 0 c = Some c"
| "pipe_run send recv turns (Suc t) c = do { c \<leftarrow> pipe_run send recv turns t c; pipe_turn send recv (turns t) c }"

text \<open>Each side has its turn again and again, and asks for at least a byte then.\<close>

definition fair :: "(nat \<Rightarrow> side_turn) \<Rightarrow> bool" where
  "fair turns \<longleftrightarrow> (\<forall>t. \<exists>t' \<ge> t. \<exists>n > 0. turns t' = Send n) \<and> (\<forall>t. \<exists>t' \<ge> t. \<exists>n > 0. turns t' = Recv n)"

section \<open>Pipes\<close>

text \<open>
  What the two ends rely on: a send takes what there is room for, a receive hands out what is held, in order.
\<close>

locale byte_pipe =
  fixes send :: "u8 list \<Rightarrow> 's \<Rightarrow> (nat \<times> 's) option" and recv :: "nat \<Rightarrow> 's \<Rightarrow> (u8 list \<times> 's) option"
    and inv :: "'s \<Rightarrow> bool" and held :: "'s \<Rightarrow> u8 list" and cap :: nat
  assumes room: "0 < cap" and bounded: "inv s \<Longrightarrow> length (held s) \<le> cap"
    and send: "inv s \<Longrightarrow> \<exists>s'. send d s = Some (min (length d) (cap - length (held s)), s') \<and> inv s' \<and>
      held s' = held s @ take (cap - length (held s)) d"
    and recv: "inv s \<Longrightarrow> \<exists>s'. recv n s = Some (take n (held s), s') \<and> inv s' \<and> held s' = drop n (held s)"
begin

text \<open>Twice the bytes to send and the bytes held: a byte that moves makes it smaller.\<close>

definition left :: "'s \<times> u8 list \<times> u8 list \<Rightarrow> nat" where
  "left c = (case c of (s, todo, got) \<Rightarrow> 2 * length todo + length (held s))"

definition same :: "'s \<times> u8 list \<times> u8 list \<Rightarrow> 's \<times> u8 list \<times> u8 list \<Rightarrow> bool" where
  "same c c' = (case c of (s, todo, got) \<Rightarrow> case c' of (s', todo', got') \<Rightarrow> held s' = held s \<and> todo' = todo)"

definition good :: "u8 list \<Rightarrow> 's \<times> u8 list \<times> u8 list \<Rightarrow> bool" where
  "good all c = (case c of (s, todo, got) \<Rightarrow> inv s \<and> got @ held s @ todo = all)"

lemma turn_send:
  assumes "good all (s, todo, got)"
  shows "\<exists>c'. pipe_turn send recv (Send n) (s, todo, got) = Some c' \<and> good all c' \<and> left c' \<le> left (s, todo, got) \<and>
    (left c' = left (s, todo, got) \<longrightarrow> same (s, todo, got) c') \<and>
    (0 < n \<and> todo \<noteq> [] \<and> length (held s) < cap \<longrightarrow> left c' < left (s, todo, got))"
proof -
  let ?d = "take n todo"
  define k where "k = min (length ?d) (cap - length (held s))"
  have inv: "inv s" using assms by (simp add: good_def)
  obtain s' where s': "send ?d s = Some (k, s')" "inv s'" "held s' = held s @ take (cap - length (held s)) ?d"
    using send [OF inv] unfolding k_def by blast
  have tk: "take (cap - length (held s)) ?d = take k todo" by (simp add: k_def min_def)
  have step: "pipe_turn send recv (Send n) (s, todo, got) = Some (s', drop k todo, got)"
    using s'(1) by (simp add: pipe_turn_def)
  have k: "k \<le> length todo" by (simp add: k_def)
  have h: "held s' = held s @ take k todo" using s'(3) tk by simp
  have "good all (s', drop k todo, got)" using assms s'(2) h by (simp add: good_def)
  moreover have l: "left (s', drop k todo, got) + k = left (s, todo, got)" using k h by (simp add: left_def diff_mult_distrib2)
  moreover have "same (s, todo, got) (s', drop k todo, got)" if "k = 0" using that h by (simp add: same_def)
  moreover have "0 < k" if "0 < n \<and> todo \<noteq> [] \<and> length (held s) < cap" using that by (simp add: k_def)
  ultimately show ?thesis unfolding step by fastforce
qed

lemma turn_recv:
  assumes "good all (s, todo, got)"
  shows "\<exists>c'. pipe_turn send recv (Recv n) (s, todo, got) = Some c' \<and> good all c' \<and> left c' \<le> left (s, todo, got) \<and>
    (left c' = left (s, todo, got) \<longrightarrow> same (s, todo, got) c') \<and>
    (0 < n \<and> held s \<noteq> [] \<longrightarrow> left c' < left (s, todo, got))"
proof -
  have inv: "inv s" using assms by (simp add: good_def)
  obtain s' where s': "recv n s = Some (take n (held s), s')" "inv s'" "held s' = drop n (held s)"
    using recv [OF inv] by blast
  have "pipe_turn send recv (Recv n) (s, todo, got) = Some (s', todo, got @ take n (held s))"
    using s'(1) by (simp add: pipe_turn_def)
  moreover have "good all (s', todo, got @ take n (held s))"
    using assms s' by (simp add: good_def) (metis append_assoc append_take_drop_id)
  moreover have "left (s', todo, got @ take n (held s)) = 2 * length todo + (length (held s) - n)" using s'(3) by (simp add: left_def)
  moreover have "same (s, todo, got) (s', todo, got @ take n (held s))" if "length (held s) - n = length (held s)"
    using that s'(3) by (cases n; cases "held s") (auto simp: same_def)
  ultimately show ?thesis by (auto simp: left_def)
qed

lemma turn_any:
  assumes "good all c"
  shows "\<exists>c'. pipe_turn send recv u c = Some c' \<and> good all c' \<and> left c' \<le> left c \<and> (left c' = left c \<longrightarrow> same c c')"
proof -
  obtain s todo got where c: "c = (s, todo, got)" by (cases c)
  show ?thesis using turn_send [OF assms [unfolded c]] turn_recv [OF assms [unfolded c]] unfolding c by (cases u) blast+
qed

lemma run_good: "good all c \<Longrightarrow> \<exists>c'. pipe_run send recv turns t c = Some c' \<and> good all c'"
proof (induction t)
  case (Suc t)
  then obtain c' where "pipe_run send recv turns t c = Some c'" "good all c'" by blast
  then show ?case using turn_any [of all c' "turns t"] by auto
qed simp

lemma run_add: "pipe_run send recv turns (t + k) c = Option.bind (pipe_run send recv turns t c) (pipe_run send recv (\<lambda>i. turns (t + i)) k)"
  by (induction k) (simp_all add: Option.bind_assoc [symmetric] del: Option.bind_assoc)

text \<open>From any point on, either something has moved by the next turn of a kind, or all is as it was.\<close>

lemma run_left:
  "good all c \<Longrightarrow> \<exists>c'. pipe_run send recv turns k c = Some c' \<and> good all c' \<and> left c' \<le> left c \<and> (left c' = left c \<longrightarrow> same c c')"
proof (induction k)
  case (Suc k)
  then obtain c1 where c1: "pipe_run send recv turns k c = Some c1" "good all c1" "left c1 \<le> left c" "left c1 = left c \<longrightarrow> same c c1" by blast
  obtain c2 where c2: "pipe_turn send recv (turns k) c1 = Some c2" "good all c2" "left c2 \<le> left c1" "left c2 = left c1 \<longrightarrow> same c1 c2"
    using turn_any [OF c1(2)] by blast
  have "left c2 = left c \<longrightarrow> same c c2"
    using c1(3,4) c2(3,4) by (auto simp: same_def split: prod.splits)
  then show ?case using c1 c2 by auto
qed (auto simp: same_def)

lemma progress:
  assumes f: "fair turns" and c: "good all c" "left c \<noteq> 0"
  shows "\<exists>k c'. pipe_run send recv turns k c = Some c' \<and> good all c' \<and> left c' < left c"
proof -
  obtain s todo got where ce: "c = (s, todo, got)" by (cases c)
  have key: "\<exists>k c'. pipe_run send recv turns k c = Some c' \<and> good all c' \<and> left c' < left c"
    if moves: "\<And>s1 got1. good all (s1, todo, got1) \<Longrightarrow> held s1 = held s \<Longrightarrow>
          \<exists>c'. pipe_turn send recv (turns t) (s1, todo, got1) = Some c' \<and> good all c' \<and> left c' < left (s1, todo, got1)" for t
  proof -
    obtain c1 where c1: "pipe_run send recv turns t c = Some c1" "good all c1" "left c1 \<le> left c" "left c1 = left c \<longrightarrow> same c c1"
      using run_left [OF c(1)] by blast
    show ?thesis
    proof (cases "left c1 = left c")
      case True
      obtain s1 got1 where e: "c1 = (s1, todo, got1)" "held s1 = held s" using True c1(4) ce by (cases c1) (auto simp: same_def)
      obtain c2 where "pipe_turn send recv (turns t) c1 = Some c2" "good all c2" "left c2 < left c1" using moves c1(2) e by blast
      then have "pipe_run send recv turns (Suc t) c = Some c2" "good all c2" "left c2 < left c" using c1(1) True by simp_all
      then show ?thesis by blast
    next
      case False
      then show ?thesis using c1 by (meson le_neq_implies_less)
    qed
  qed
  show ?thesis
  proof (cases "todo \<noteq> [] \<and> length (held s) < cap")
    case True
    obtain t n where "turns t = Send n" "0 < n" using f by (auto simp: fair_def)
    note t = this
    show ?thesis
    proof (rule key [of t])
      fix s1 got1 assume "good all (s1, todo, got1)" "held s1 = held s"
      then show "\<exists>c'. pipe_turn send recv (turns t) (s1, todo, got1) = Some c' \<and> good all c' \<and> left c' < left (s1, todo, got1)"
        using turn_send [of all s1 todo got1 n] t True by auto
    qed
  next
    case False
    have "inv s" using c(1) ce by (simp add: good_def)
    then have "held s \<noteq> []" using False c(2) ce bounded [of s] room by (auto simp: left_def)
    obtain t n where t: "turns t = Recv n" "0 < n" using f by (auto simp: fair_def)
    show ?thesis
    proof (rule key [of t])
      fix s1 got1 assume "good all (s1, todo, got1)" "held s1 = held s"
      then show "\<exists>c'. pipe_turn send recv (turns t) (s1, todo, got1) = Some c' \<and> good all c' \<and> left c' < left (s1, todo, got1)"
        using turn_recv [of all s1 todo got1 n] t \<open>held s \<noteq> []\<close> by auto
    qed
  qed
qed

lemma fair_shift: "fair turns \<Longrightarrow> fair (\<lambda>i. turns (t + i))"
proof -
  assume f: "fair turns"
  have "\<exists>t'\<ge>i. P (turns (t + t'))" if ev: "\<forall>t. \<exists>t'\<ge>t. P (turns t')" for P i
  proof -
    obtain t' where "t + i \<le> t'" "P (turns t')" using ev by blast
    moreover from this have "i \<le> t' - t" "t + (t' - t) = t'" by linarith+
    ultimately have "i \<le> t' - t" "P (turns (t + (t' - t)))" by (simp_all only:)
    then show ?thesis by blast
  qed
  from this [of "\<lambda>u. \<exists>n>0. u = Send n"] this [of "\<lambda>u. \<exists>n>0. u = Recv n"] f
  show ?thesis unfolding fair_def by blast
qed

theorem delivers:
  assumes "fair turns" and "good all c"
  shows "\<exists>t s. pipe_run send recv turns t c = Some (s, [], all) \<and> inv s \<and> held s = []"
  using assms
proof (induction "left c" arbitrary: c turns rule: less_induct)
  case less
  show ?case
  proof (cases "left c = 0")
    case True
    then have "pipe_run send recv turns 0 c = Some (fst c, [], all)" "inv (fst c)" "held (fst c) = []"
      using less.prems(2) by (auto simp: left_def good_def split: prod.splits)
    then show ?thesis by blast
  next
    case False
    obtain k c1 where c1: "pipe_run send recv turns k c = Some c1" "good all c1" "left c1 < left c"
      using progress [OF less.prems False] by blast
    obtain t s where "pipe_run send recv (\<lambda>i. turns (k + i)) t c1 = Some (s, [], all)" "inv s" "held s = []"
      using less.hyps [OF c1(3) fair_shift [OF less.prems(1)] c1(2)] by blast
    then show ?thesis using c1(1) run_add [of turns k t c] by auto
  qed
qed

end

section \<open>A pair is a pipe\<close>

definition pair_send :: "allocator \<Rightarrow> nat \<Rightarrow> u8 list \<Rightarrow> pair_world \<Rightarrow> (nat \<times> pair_world) option" where
  "pair_send al x d w = do { (r, w) \<leftarrow> BIO_write (pair_methods al) (Some x) (Some d) (int (length d)) w; Some (nat r, w) }"

definition pair_recv :: "allocator \<Rightarrow> nat \<Rightarrow> nat \<Rightarrow> pair_world \<Rightarrow> (u8 list \<times> pair_world) option" where
  "pair_recv al y n w =
     do { (r, buf, w) \<leftarrow> BIO_read (pair_methods al) (Some y) (Some (replicate n 0)) (int n) w; Some (take (nat r) (the buf), w) }"

definition open_pipe :: "nat \<Rightarrow> nat \<Rightarrow> nat \<Rightarrow> pair_world \<Rightarrow> bool" where
  "open_pipe x y cap w \<longleftrightarrow> pair_ok x y w \<and> hf_cap (abs_half w x) = cap \<and> \<not> hf_closed (abs_half w x)"

lemma pair_send_pipe:
  assumes "open_pipe x y cap w"
  shows "\<exists>w'. pair_send al x d w = Some (min (length d) (cap - length (hf_queue (abs_half w x))), w') \<and> open_pipe x y cap w' \<and>
    hf_queue (abs_half w' x) = hf_queue (abs_half w x) @ take (cap - length (hf_queue (abs_half w x))) d"
proof -
  obtain ret bs retry hx where s: "spec_write d (abs_half w x) = ((ret, bs, retry), hx)" by (metis prod.exhaust)
  have "nat ret = min (length d) (cap - length (hf_queue (abs_half w x))) \<and> hf_cap hx = cap \<and> \<not> hf_closed hx \<and>
      hf_queue hx = hf_queue (abs_half w x) @ take (cap - length (hf_queue (abs_half w x))) d"
    using s assms by (auto simp: spec_write_def open_pipe_def Let_def min_def split: if_splits)
  then show ?thesis using BIO_write_ok [OF _ s, of y al] assms
    by (fastforce simp: pair_send_def open_pipe_def effect_ok_def)
qed

lemma pair_recv_pipe:
  assumes "open_pipe x y cap w"
  shows "\<exists>w'. pair_recv al y n w = Some (take n (hf_queue (abs_half w x)), w') \<and> open_pipe x y cap w' \<and>
    hf_queue (abs_half w' x) = drop n (hf_queue (abs_half w x))"
proof -
  have ok: "pair_ok y x w" using assms pair_ok_commute by (simp add: open_pipe_def)
  obtain ret bs retry hx where s: "spec_read n (abs_half w x) = ((ret, bs, retry), hx)" by (metis prod.exhaust)
  have h: "bs = take n (hf_queue (abs_half w x)) \<and> hf_cap hx = cap \<and> \<not> hf_closed hx \<and> hf_queue hx = drop n (hf_queue (abs_half w x))"
    using s assms by (auto simp: spec_read_def open_pipe_def Let_def min_def split: if_splits)
  have "take (nat ret) (mem_write 0 bs (replicate n 0)) = bs"
    using spec_read_length [OF s] spec_read_bound [OF s] by (cases "ret < 0") (simp_all add: mem_write_def)
  then show ?thesis using BIO_read_ok [OF ok _ s, of "replicate n 0" al] h pair_ok_commute
    by (fastforce simp: pair_recv_def open_pipe_def effect_ok_def)
qed

text \<open>The capacity of a pair is not zero; a pipe over one of no capacity does not exist.\<close>

interpretation pair_pipe: byte_pipe "pair_send al x" "pair_recv al y" "open_pipe x y (Suc cap)" "\<lambda>w. hf_queue (abs_half w x)" "Suc cap"
  for al x y cap
proof unfold_locales
  show "length (hf_queue (abs_half w x)) \<le> Suc cap" if "open_pipe x y (Suc cap) w" for w
    using that by (auto simp: open_pipe_def pair_ok_def half_ok_def ring_ok_def abs_half_def)
qed (use pair_send_pipe pair_recv_pipe in \<open>blast | simp\<close>)+

section \<open>Properties\<close>

text \<open>
  C26. A message offered to one side of a new pair arrives at the other: whatever the size of the buffer and of the pieces, and
  in whatever order the two sides have their turns, if each has its turn again and again there comes
  a time when all has been received. Before that, what was received, is held and is still to
  send are the message, and no call fails to return.
\<close>

theorem bio_pair_delivers:
  assumes "fresh w" and "BIO_new_bio_pair al n1 n2 w = Some (1, Some x, Some y, w0)" and "fair turns"
  shows "(\<exists>t w'. pipe_run (pair_send al x) (pair_recv al y) turns t (w0, msg, []) = Some (w', [], msg)) \<and>
    (\<forall>t. \<exists>w' todo got. pipe_run (pair_send al x) (pair_recv al y) turns t (w0, msg, []) = Some (w', todo, got) \<and>
       got @ hf_queue (abs_half w' x) @ todo = msg)"
proof -
  obtain cap where cap: "hf_cap (empty_half n1) = Suc cap" by (cases n1) (auto simp: empty_half_def)
  have "pair_ok x y w0" "abs_half w0 x = empty_half n1"
    using BIO_new_bio_pair_cases [OF assms(1), of al n1 n2] assms(2) by (auto simp: abs_pair_def)
  then have "pair_pipe.good x y cap msg (w0, msg, [])"
    using cap by (simp add: pair_pipe.good_def open_pipe_def empty_half_def)
  then show ?thesis
    using pair_pipe.delivers [OF assms(3), of x y cap msg "(w0, msg, [])" al]
      pair_pipe.run_good [of x y cap msg "(w0, msg, [])" al turns]
    by (fastforce simp: pair_pipe.good_def)
qed

theorem bio_pair_delivers_witness:
  "\<exists>w0 t w'. pipe_run (pair_send example_allocator 0) (pair_recv example_allocator 2) (\<lambda>t. if even t then Send 4 else Recv 1) t
     (w0, [1, 2, 3, 4, 5], []) = Some (w', [], [1, 2, 3, 4, 5])"
proof -
  obtain w0 where w0: "BIO_new_bio_pair example_allocator 3 0 empty_world = Some (1, Some 0, Some 2, w0)" using example_pair by blast
  have "\<exists>t'\<ge>t. even t'" "\<exists>t'\<ge>t. odd t'" for t :: nat by presburger+
  then have "fair (\<lambda>t. if even t then Send 4 else Recv 1)" by (auto simp: fair_def)
  then show ?thesis using bio_pair_delivers [OF empty_world_fresh w0] by blast
qed

end
