(* ===== verification/Uv_Inet.thy ===== *)
theory Uv_Inet
  imports Uv_Timer Number_Text Crypto_Mem
begin

text \<open>
  \<^verbatim>\<open>libuv: src/inet.c\<close> with \<^verbatim>\<open>src/strscpy.c\<close>: the texts of IPv4 and IPv6 addresses. A C string that is read is the list
  of its characters before the NUL; a buffer that is written is a list of bytes. A parser returns the error code, or the
  bytes it stores at its output pointer.
\<close>

section \<open>The code\<close>

definition UV_E2BIG :: int where "UV_E2BIG = -7"

definition UV_ENOSPC :: int where "UV_ENOSPC = -28"

definition UV_EAFNOSUPPORT :: int where "UV_EAFNOSUPPORT = -47"

text \<open>The address families of the socket interface of the Apple targets.\<close>

definition AF_INET :: int where "AF_INET = 2"

definition AF_INET6 :: int where "AF_INET6 = 30"

definition UV__INET_ADDRSTRLEN :: nat where "UV__INET_ADDRSTRLEN = 16"

definition UV__INET6_ADDRSTRLEN :: nat where "UV__INET6_ADDRSTRLEN = 46"

definition SSIZE_MAX :: nat where "SSIZE_MAX = 9223372036854775807"

function strscpy_loop :: "u8 list \<Rightarrow> u8 list \<Rightarrow> nat \<Rightarrow> nat \<Rightarrow> u8 list \<times> int" where
  "strscpy_loop d s n i =
     (if i < n
      then (let d1 = d[i := s ! i]
            in if s ! i = 0 then (d1, if i > SSIZE_MAX then UV_E2BIG else int i) else strscpy_loop d1 s n (i + 1))
      else if i = 0 then (d, 0)
      else (d[i - 1 := 0], UV_E2BIG))"
  by pat_completeness auto

termination strscpy_loop
  by (relation "measure (\<lambda>(_, _, n, i). n - i)") auto

definition uv__strscpy :: "u8 list \<Rightarrow> u8 list \<Rightarrow> nat \<Rightarrow> u8 list \<times> int" where
  "uv__strscpy d s n = strscpy_loop d s n 0"

text \<open>\<^verbatim>\<open>snprintf\<close> fills \<^verbatim>\<open>tmp\<close> with the text, cut to its size, and returns the length of the whole text.\<close>

definition inet_ntop4 :: "u8 list \<Rightarrow> u8 list \<Rightarrow> nat \<Rightarrow> int \<times> u8 list" where
  "inet_ntop4 src dst sz =
     (let text = decimal (unat (src ! 0)) @ 0x2e # decimal (unat (src ! 1)) @ 0x2e # decimal (unat (src ! 2))
        @ 0x2e # decimal (unat (src ! 3));
          tmp = take (UV__INET_ADDRSTRLEN - 1) text @ [0];
          l = List.length text
      in if l \<le> 0 \<or> l \<ge> sz then (UV_ENOSPC, dst)
         else (0, fst (uv__strscpy dst tmp sz)))"

record zero_run =
  run_base :: int
  run_len :: int

definition inet6_words :: "u8 list \<Rightarrow> u32 list" where
  "inet6_words src =
     fold (\<lambda>i words. words[i div 2 := words ! (i div 2) OR push_bit ((1 - i mod 2) * 8) (ucast (src ! i))])
       [0..<16] (replicate 8 0)"

definition better_run :: "zero_run \<Rightarrow> zero_run \<Rightarrow> zero_run" where
  "better_run best cur = (if run_base best = -1 \<or> run_len cur > run_len best then cur else best)"

fun scan_words :: "u32 list \<Rightarrow> int \<Rightarrow> zero_run \<Rightarrow> zero_run \<Rightarrow> zero_run \<times> zero_run" where
  "scan_words [] i best cur = (best, cur)"
| "scan_words (w # ws) i best cur =
     (if w = 0
      then (if run_base cur = -1 then scan_words ws (i + 1) best \<lparr>run_base = i, run_len = 1\<rparr>
            else scan_words ws (i + 1) best (cur\<lparr>run_len := run_len cur + 1\<rparr>))
      else if run_base cur \<noteq> -1 then scan_words ws (i + 1) (better_run best cur) (cur\<lparr>run_base := -1\<rparr>)
      else scan_words ws (i + 1) best cur)"

definition best_run :: "u32 list \<Rightarrow> zero_run" where
  "best_run words =
     (let (best, cur) = scan_words words 0 \<lparr>run_base = -1, run_len = 0\<rparr> \<lparr>run_base = -1, run_len = 0\<rparr>;
          best1 = (if run_base cur \<noteq> -1 then better_run best cur else best)
      in if run_base best1 \<noteq> -1 \<and> run_len best1 < 2 then best1\<lparr>run_base := -1\<rparr> else best1)"

text \<open>
  \<^verbatim>\<open>tmp\<close> is the text written so far, \<^verbatim>\<open>tp\<close> its end; what follows in the array has not been written.
\<close>

fun format_words :: "u8 list \<Rightarrow> u32 list \<Rightarrow> zero_run \<Rightarrow> nat \<Rightarrow> u32 list \<Rightarrow> u8 list \<Rightarrow> int + u8 list" where
  "format_words src words best i [] tmp = Inr tmp"
| "format_words src words best i (w # ws) tmp =
     (if run_base best \<noteq> -1 \<and> int i \<ge> run_base best \<and> int i < run_base best + run_len best
      then format_words src words best (i + 1) ws (if int i = run_base best then tmp @ [0x3a] else tmp)
      else
        (let tmp1 = (if i \<noteq> 0 then tmp @ [0x3a] else tmp)
         in if i = 6 \<and> run_base best = 0
               \<and> (run_len best = 6 \<or> run_len best = 7 \<and> words ! 7 \<noteq> 1 \<or> run_len best = 5 \<and> words ! 5 = 0xffff)
            then (let room = UV__INET6_ADDRSTRLEN - List.length tmp1
                  in case inet_ntop4 (drop 12 src) (replicate room 0) room of
                       (err, d) \<Rightarrow> if err \<noteq> 0 then Inl err else Inr (tmp1 @ cstr d))
            else format_words src words best (i + 1) ws (tmp1 @ hexadecimal (unat w))))"

definition inet_ntop6 :: "u8 list \<Rightarrow> u8 list \<Rightarrow> nat \<Rightarrow> int \<times> u8 list" where
  "inet_ntop6 src dst sz =
     (let words = inet6_words src;
          best = best_run words
      in case format_words src words best 0 words [] of
           Inl err \<Rightarrow> (err, dst)
         | Inr tmp \<Rightarrow>
             (let tmp1 = (if run_base best \<noteq> -1 \<and> run_base best + run_len best = 8 then tmp @ [0x3a] else tmp);
                  (dst1, r) = uv__strscpy dst (tmp1 @ [0]) sz
              in if UV_E2BIG = r then (UV_ENOSPC, dst1) else (0, dst1)))"

definition uv_inet_ntop :: "int \<Rightarrow> u8 list \<Rightarrow> u8 list \<Rightarrow> nat \<Rightarrow> int \<times> u8 list" where
  "uv_inet_ntop af src dst sz =
     (if af = AF_INET then inet_ntop4 src dst sz
      else if af = AF_INET6 then inet_ntop6 src dst sz
      else (UV_EAFNOSUPPORT, dst))"

text \<open>The index of a character in a string that contains it.\<close>

fun strchr :: "u8 list \<Rightarrow> u8 \<Rightarrow> nat option" where
  "strchr [] ch = None"
| "strchr (c # s) ch = (if c = ch then Some 0 else map_option Suc (strchr s ch))"

definition digits :: "u8 list" where
  "digits = [0x30, 0x31, 0x32, 0x33, 0x34, 0x35, 0x36, 0x37, 0x38, 0x39]"

text \<open>\<^verbatim>\<open>tmp\<close> holds the octets begun so far, \<^verbatim>\<open>tp\<close> points to the last of them.\<close>

fun pton4_loop :: "u8 list \<Rightarrow> bool \<Rightarrow> nat \<Rightarrow> u8 list \<Rightarrow> int + u8 list" where
  "pton4_loop [] saw_digit octets tmp = (if octets < 4 then Inl UV_EINVAL else Inr tmp)"
| "pton4_loop (ch # src) saw_digit octets tmp =
     (case strchr digits ch of
        Some pch \<Rightarrow>
          (let nw = ucast (last tmp) * 10 + of_nat pch :: u32
           in if saw_digit \<and> last tmp = 0 then Inl UV_EINVAL
              else if nw > 255 then Inl UV_EINVAL
              else (let tmp1 = butlast tmp @ [ucast nw]
                    in if \<not> saw_digit
                       then (if octets + 1 > 4 then Inl UV_EINVAL else pton4_loop src True (octets + 1) tmp1)
                       else pton4_loop src True octets tmp1))
      | None \<Rightarrow>
          (if ch = 0x2e \<and> saw_digit
           then (if octets = 4 then Inl UV_EINVAL else pton4_loop src False octets (tmp @ [0]))
           else Inl UV_EINVAL))"

definition inet_pton4 :: "u8 list \<Rightarrow> int + u8 list" where
  "inet_pton4 src = pton4_loop src False 0 [0]"

definition xdigits_l :: "u8 list" where
  "xdigits_l = digits @ [0x61, 0x62, 0x63, 0x64, 0x65, 0x66]"

definition xdigits_u :: "u8 list" where
  "xdigits_u = digits @ [0x41, 0x42, 0x43, 0x44, 0x45, 0x46]"

text \<open>The variables of \<^verbatim>\<open>inet_pton6\<close>; \<^verbatim>\<open>tp\<close> and \<^verbatim>\<open>colonp\<close> are indices into \<^verbatim>\<open>tmp\<close>, which has 16 bytes.\<close>

record pton6 =
  p6_tmp :: "u8 list"
  p6_tp :: nat
  p6_colonp :: "nat option"
  p6_seen :: nat
  p6_val :: u32

definition pton6_put :: "pton6 \<Rightarrow> pton6" where
  "pton6_put s = s\<lparr>p6_tmp := (p6_tmp s)[p6_tp s := ucast (drop_bit 8 (p6_val s)), p6_tp s + 1 := ucast (p6_val s)],
     p6_tp := p6_tp s + 2\<rparr>"

fun pton6_loop :: "u8 list \<Rightarrow> u8 list \<Rightarrow> pton6 \<Rightarrow> int + pton6" where
  "pton6_loop [] curtok s = Inr s"
| "pton6_loop (ch # src) curtok s =
     (case (case strchr xdigits_l ch of Some pch \<Rightarrow> Some pch | None \<Rightarrow> strchr xdigits_u ch) of
        Some pch \<Rightarrow>
          (let s1 = s\<lparr>p6_val := push_bit 4 (p6_val s) OR of_nat pch, p6_seen := p6_seen s + 1\<rparr>
           in if p6_seen s1 > 4 then Inl UV_EINVAL else pton6_loop src curtok s1)
      | None \<Rightarrow>
          (if ch = 0x3a
           then (if p6_seen s = 0
                 then (if p6_colonp s \<noteq> None then Inl UV_EINVAL else pton6_loop src src (s\<lparr>p6_colonp := Some (p6_tp s)\<rparr>))
                 else if src = [] then Inl UV_EINVAL
                 else if p6_tp s + 2 > 16 then Inl UV_EINVAL
                 else pton6_loop src src ((pton6_put s)\<lparr>p6_seen := 0, p6_val := 0\<rparr>))
           else if ch = 0x2e \<and> p6_tp s + 4 \<le> 16
           then (case inet_pton4 curtok of
                   Inr octets \<Rightarrow>
                     Inr (s\<lparr>p6_tmp := mem_write (p6_tp s) octets (p6_tmp s), p6_tp := p6_tp s + 4, p6_seen := 0\<rparr>)
                 | Inl err \<Rightarrow> Inl UV_EINVAL)
           else Inl UV_EINVAL))"

text \<open>The shift of what follows the double colon to the end of the address, by hand as in the code.\<close>

definition pton6_shift :: "nat \<Rightarrow> nat \<Rightarrow> u8 list \<Rightarrow> u8 list" where
  "pton6_shift colonp n tmp =
     fold (\<lambda>i t. (t[16 - i := t ! (colonp + (n - i))])[colonp + (n - i) := 0]) [1..<n + 1] tmp"

definition pton6_finish :: "pton6 \<Rightarrow> int + u8 list" where
  "pton6_finish s =
     (if p6_seen s \<noteq> 0 \<and> p6_tp s + 2 > 16 then Inl UV_EINVAL
      else
        (let s1 = (if p6_seen s \<noteq> 0 then pton6_put s else s)
         in case p6_colonp s1 of
              Some colonp \<Rightarrow>
                (if p6_tp s1 = 16 then Inl UV_EINVAL
                 else Inr (pton6_shift colonp (p6_tp s1 - colonp) (p6_tmp s1)))
            | None \<Rightarrow> if p6_tp s1 \<noteq> 16 then Inl UV_EINVAL else Inr (p6_tmp s1)))"

definition pton6_start :: pton6 where
  "pton6_start = \<lparr>p6_tmp = replicate 16 0, p6_tp = 0, p6_colonp = None, p6_seen = 0, p6_val = 0\<rparr>"

definition inet_pton6 :: "u8 list \<Rightarrow> int + u8 list" where
  "inet_pton6 src =
     (if src \<noteq> [] \<and> hd src = 0x3a \<and> \<not> (tl src \<noteq> [] \<and> hd (tl src) = 0x3a) then Inl UV_EINVAL
      else
        (let src1 = (if src \<noteq> [] \<and> hd src = 0x3a then tl src else src)
         in case pton6_loop src1 src1 pton6_start of
              Inl err \<Rightarrow> Inl err
            | Inr s \<Rightarrow> pton6_finish s))"

text \<open>A null \<^verbatim>\<open>src\<close> is \<open>None\<close>; the output pointer is not null.\<close>

definition uv_inet_pton :: "int \<Rightarrow> u8 list option \<Rightarrow> int + u8 list" where
  "uv_inet_pton af src =
     (case src of
        None \<Rightarrow> Inl UV_EINVAL
      | Some s \<Rightarrow>
          if af = AF_INET then inet_pton4 s
          else if af = AF_INET6
          then (case strchr s 0x25 of
                  Some len \<Rightarrow>
                    (if len > UV__INET6_ADDRSTRLEN - 1 then Inl UV_EINVAL else inet_pton6 (take len s))
                | None \<Rightarrow> inet_pton6 s)
          else Inl UV_EAFNOSUPPORT)"

section \<open>Copying a text\<close>

lemma strscpy_loop_eq:
  assumes "0 \<notin> set text" and "n \<le> List.length d" and "List.length text \<le> SSIZE_MAX"
    and "i \<le> n" and "i \<le> List.length text" and "take i d = take i text"
  shows "strscpy_loop d (text @ [0]) n i =
    (if List.length text < n then (text @ 0 # drop (Suc (List.length text)) d, int (List.length text))
     else if n = 0 then (d, 0) else (take (n - 1) text @ 0 # drop n d, UV_E2BIG))"
  using assms(2,4-6)
proof (induction "n - i" arbitrary: i d)
  case 0
  then have "i = n" by simp
  then show ?case using 0 by (cases n) (simp_all add: upd_conv_take_nth_drop take_Suc_conv_app_nth min_def)
next
  case (Suc k)
  then have i: "i < n" by simp
  show ?case
  proof (cases "i = List.length text")
    case True
    then show ?thesis using Suc.prems i assms(3) by (simp add: upd_conv_take_nth_drop)
  next
    case False
    then have l: "i < List.length text" using Suc.prems by simp
    let ?d = "d[i := text ! i]"
    have nz: "(text @ [0]) ! i = text ! i" "text ! i \<noteq> 0"
      using l assms(1) by (simp_all add: nth_append) (metis nth_mem)
    have "take (Suc i) ?d = take (Suc i) text"
      using Suc.prems i l by (simp add: take_Suc_conv_app_nth upd_conv_take_nth_drop)
    moreover have "k = n - Suc i" using Suc.hyps(2) by simp
    ultimately show ?thesis using Suc.hyps(1) [of "Suc i" ?d] Suc.prems i l nz by simp
  qed
qed

lemma uv__strscpy_eq:
  assumes "0 \<notin> set text" and "n \<le> List.length d" and "List.length text \<le> SSIZE_MAX"
  shows "uv__strscpy d (text @ [0]) n =
    (if List.length text < n then (text @ 0 # drop (Suc (List.length text)) d, int (List.length text))
     else if n = 0 then (d, 0) else (take (n - 1) text @ 0 # drop n d, UV_E2BIG))"
  unfolding uv__strscpy_def using assms by (intro strscpy_loop_eq) simp_all

section \<open>IPv4\<close>

lemma strchr_digits:
  assumes "d < 10"
  shows "strchr digits (of_nat (48 + d)) = Some d"
proof -
  have "d = 0 \<or> d = 1 \<or> d = 2 \<or> d = 3 \<or> d = 4 \<or> d = 5 \<or> d = 6 \<or> d = 7 \<or> d = 8 \<or> d = 9"
    using assms by presburger
  then show ?thesis by (elim disjE) (simp_all add: digits_def)
qed

lemma strchr_digitsD:
  assumes "strchr digits ch = Some p"
  shows "p < 10 \<and> ch = of_nat (48 + p)"
  using assms by (auto simp: digits_def split: if_splits)

lemma strchr_digits_dot [simp]: "strchr digits 0x2e = None"
  by (simp add: digits_def)

text \<open>The text the parser has read, from the octets it has begun.\<close>

definition pton4_read :: "bool \<Rightarrow> u8 list \<Rightarrow> u8 list" where
  "pton4_read saw tmp = concat (map (\<lambda>b. decimal (unat b) @ [0x2e]) (butlast tmp)) @ (if saw then decimal (unat (last tmp)) else [])"

definition pton4_ok :: "bool \<Rightarrow> nat \<Rightarrow> u8 list \<Rightarrow> bool" where
  "pton4_ok saw octets tmp \<longleftrightarrow> tmp \<noteq> [] \<and> octets \<le> 4 \<and> List.length tmp = octets + (if saw then 0 else 1) \<and>
     (\<not> saw \<longrightarrow> last tmp = 0 \<and> octets < 4)"

lemma dotted_groups:
  "dotted (ns @ [n]) = concat (map (\<lambda>m. decimal m @ [0x2e]) ns) @ decimal n"
  by (induction ns) (simp_all add: dotted_Cons)

lemma octet_step:
  fixes b :: u8 assumes "p < 10"
  shows "ucast b * 10 + of_nat p > (255 :: u32) \<longleftrightarrow> unat b * 10 + p > 255"
    and "unat b * 10 + p \<le> 255 \<Longrightarrow> ucast (ucast b * 10 + of_nat p :: u32) = (of_nat (unat b * 10 + p) :: u8)"
proof -
  have u: "unat (ucast b * 10 + of_nat p :: u32) = unat b * 10 + p"
    using assms unat_u8_less [of b] by (simp add: unat_word_ariths unat_ucast_up unsigned_of_nat take_bit_eq_mod del: unat_u8_less)
  show "ucast b * 10 + of_nat p > (255 :: u32) \<longleftrightarrow> unat b * 10 + p > 255"
    by (simp add: word_less_nat_alt u)
  show "ucast (ucast b * 10 + of_nat p :: u32) = (of_nat (unat b * 10 + p) :: u8)"
    if "unat b * 10 + p \<le> 255"
    by (rule word_eq_of_natI) (use that in \<open>simp add: unat_ucast_u8 u\<close>)
qed

lemma pton4_loop_sound:
  "pton4_loop src saw octets tmp = Inr r \<Longrightarrow> pton4_ok saw octets tmp \<Longrightarrow>
     List.length r = 4 \<and> pton4_read saw tmp @ src = dotted (map unat r)"
proof (induction src saw octets tmp rule: pton4_loop.induct)
  case (1 saw octets tmp)
  then have r: "r = tmp" "octets = 4" by (auto simp: pton4_ok_def split: if_splits)
  with 1 have saw and l: "List.length tmp = 4" "tmp \<noteq> []" by (auto simp: pton4_ok_def)
  moreover from l(2) obtain xs x where "tmp = xs @ [x]" by (metis append_butlast_last_id)
  ultimately show ?case using r dotted_groups [of "map unat xs" "unat x"] by (simp add: pton4_read_def comp_def)
next
  case (2 ch src saw octets tmp)
  from 2(5) have ne: "tmp \<noteq> []" and o4: "octets \<le> 4" and z: "\<not> saw \<Longrightarrow> last tmp = 0 \<and> octets < 4"
    and lt: "List.length tmp = octets + (if saw then 0 else 1)" by (auto simp: pton4_ok_def)
  show ?case
  proof (cases "strchr digits ch")
    case None
    with 2(4) have dot: "ch = 0x2e" "saw" "octets \<noteq> 4" "pton4_loop src False octets (tmp @ [0]) = Inr r"
      by (auto split: if_splits)
    have "pton4_ok False octets (tmp @ [0])" using dot o4 lt by (simp add: pton4_ok_def)
    from 2(1) [OF None _ dot(3,4) this] dot(1,2)
    have "List.length r = 4 \<and> pton4_read False (tmp @ [0]) @ src = dotted (map unat r)" by simp
    moreover have "pton4_read False (tmp @ [0]) = pton4_read saw tmp @ [0x2e]"
      using dot(2) ne by (cases tmp rule: rev_cases) (simp_all add: pton4_read_def butlast_append)
    ultimately show ?thesis using dot(1) by simp
  next
    case (Some p)
    then have p: "p < 10" "ch = of_nat (48 + p)" using strchr_digitsD by auto
    let ?nw = "ucast (last tmp) * 10 + of_nat p :: u32"
    let ?tmp = "butlast tmp @ [ucast ?nw]"
    from 2(4) Some have g: "\<not> (saw \<and> last tmp = 0)" "\<not> ?nw > 255"
      and rec: "pton4_loop src True (if saw then octets else octets + 1) ?tmp = Inr r"
      by (auto simp: Let_def simp del: of_nat_add split: if_splits)
    have b: "unat (last tmp) * 10 + p \<le> 255" using g(2) octet_step(1) [OF p(1), of "last tmp"] by simp
    have nw: "unat (ucast ?nw :: u8) = unat (last tmp) * 10 + p" unfolding octet_step(2) [OF p(1) b] using b by (intro unat_of_nat_eq) simp
    have ok: "pton4_ok True (if saw then octets else octets + 1) ?tmp"
      using ne o4 z lt by (auto simp: pton4_ok_def)
    have "List.length r = 4 \<and> pton4_read True ?tmp @ src = dotted (map unat r)"
      using 2(2) [OF Some refl g refl] 2(3) [OF Some refl g refl] rec ok z by (cases saw) auto
    moreover have "pton4_read True ?tmp = pton4_read saw tmp @ [ch]"
    proof (cases saw)
      case True
      then have "unat (last tmp) \<noteq> 0" using g(1) by (simp add: unsigned_eq_0_iff)
      from decimal_snoc [OF this p(1)] show ?thesis using True by (simp add: pton4_read_def nw p(2) del: of_nat_add)
    next
      case False
      then show ?thesis using z decimal_digit [OF p(1)] nw by (simp add: pton4_read_def p(2) del: of_nat_add)
    qed
    ultimately show ?thesis by simp
  qed
qed

lemma pton4_digit:
  assumes "d < 10" and "\<not> (saw \<and> b = 0)" and "unat b * 10 + d \<le> 255" and "saw \<or> octets < 4"
  shows "pton4_loop (of_nat (48 + d) # src) saw octets (tmp @ [b]) =
    pton4_loop src True (if saw then octets else octets + 1) (tmp @ [of_nat (unat b * 10 + d)])"
proof -
  have "\<not> ucast b * 10 + of_nat d > (255 :: u32)" using octet_step(1) [OF assms(1), of b] assms(3) by simp
  then show ?thesis using strchr_digits [OF assms(1)] octet_step(2) [OF assms(1,3)] assms(2,4)
    by (auto simp: Let_def simp del: of_nat_add)
qed

lemma pton4_decimal:
  "n < 256 \<Longrightarrow> octets < 4 \<Longrightarrow>
     pton4_loop (decimal n @ src) False octets (tmp @ [0]) = pton4_loop src True (octets + 1) (tmp @ [of_nat n])"
proof (induction n arbitrary: src rule: decimal.induct)
  case (1 n)
  show ?case
  proof (cases "n < 10")
    case True
    then show ?thesis using pton4_digit [of n False 0 octets src tmp] 1(3) by (simp add: decimal_digit del: of_nat_add)
  next
    case False
    let ?q = "n div 10"
    have q: "?q < 256" "?q \<noteq> 0" "unat (of_nat ?q :: u8) = ?q" using False 1(2) by (simp_all add: div_eq_0_iff)
    have nz: "of_nat ?q \<noteq> (0 :: u8)" using q(2,3) by (metis unsigned_0)
    have "decimal n = decimal ?q @ [of_nat (48 + n mod 10)]" using decimal_snoc [of ?q "n mod 10"] q(2) by simp
    then have "pton4_loop (decimal n @ src) False octets (tmp @ [0]) =
        pton4_loop (of_nat (48 + n mod 10) # src) True (octets + 1) (tmp @ [of_nat ?q])"
      using 1(1) [OF False q(1) 1(3), of "of_nat (48 + n mod 10) # src"] by simp
    also have "\<dots> = pton4_loop src True (octets + 1) (tmp @ [of_nat (unat (of_nat ?q :: u8) * 10 + n mod 10)])"
      using pton4_digit [of "n mod 10" True "of_nat ?q" "octets + 1" src tmp] nz q(3) 1(2) by simp
    also have "unat (of_nat ?q :: u8) * 10 + n mod 10 = n" using q(3) by simp
    finally show ?thesis by simp
  qed
qed

lemma pton4_dot: "octets < 4 \<Longrightarrow> pton4_loop (0x2e # src) True octets tmp = pton4_loop src False octets (tmp @ [0])"
  by simp

lemma inet_pton4_complete:
  assumes "List.length r = 4"
  shows "inet_pton4 (dotted (map unat r)) = Inr r"
proof -
  obtain a b c d where r: "r = [a, b, c, d]" using assms by (auto simp: length_Suc_conv numeral_eq_Suc)
  have "dotted (map unat r) = decimal (unat a) @ 0x2e # decimal (unat b) @ 0x2e # decimal (unat c) @ 0x2e # decimal (unat d)"
    by (simp add: r)
  then show ?thesis
    using pton4_decimal [of "unat a" 0 _ "[]"] pton4_decimal [of "unat b" "Suc 0" _ "[a]"]
      pton4_decimal [of "unat c" "Suc (Suc 0)" _ "[a, b]"] pton4_decimal [of "unat d" "Suc (Suc (Suc 0))" "[]" "[a, b, c]"]
    by (simp add: inet_pton4_def pton4_dot r del: pton4_loop.simps(2))
qed

lemma inet_pton4_iff: "inet_pton4 src = Inr r \<longleftrightarrow> List.length r = 4 \<and> src = dotted (map unat r)"
proof
  assume "inet_pton4 src = Inr r"
  then show "List.length r = 4 \<and> src = dotted (map unat r)"
    using pton4_loop_sound [of src False 0 "[0]" r] by (simp add: inet_pton4_def pton4_ok_def pton4_read_def)
qed (auto simp: inet_pton4_complete)

section \<open>Parsing IPv6\<close>

lemma strchr_xdigits:
  assumes "d < 16"
  shows "strchr xdigits_l (hex_digit d) = Some d"
proof -
  have "d = 0 \<or> d = 1 \<or> d = 2 \<or> d = 3 \<or> d = 4 \<or> d = 5 \<or> d = 6 \<or> d = 7 \<or> d = 8 \<or> d = 9 \<or>
      d = 10 \<or> d = 11 \<or> d = 12 \<or> d = 13 \<or> d = 14 \<or> d = 15"
    using assms by presburger
  then show ?thesis by (elim disjE) (simp_all add: digits_def xdigits_l_def hex_digit_def)
qed

lemma strchr_xdigits_punctuation [simp]:
  "strchr xdigits_l 0x3a = None" "strchr xdigits_u 0x3a = None" "strchr xdigits_l 0x2e = None" "strchr xdigits_u 0x2e = None"
  by (simp_all add: digits_def xdigits_l_def xdigits_u_def)

lemma pton6_xdigit:
  assumes "d < 16" and "p6_seen s < 4"
  shows "pton6_loop (hex_digit d # rest) ct s =
    pton6_loop rest ct (s\<lparr>p6_val := push_bit 4 (p6_val s) OR of_nat d, p6_seen := p6_seen s + 1\<rparr>)"
  using assms(2) by (simp add: strchr_xdigits [OF assms(1)] Let_def)

lemma of_nat_xdigit:
  assumes "q < 2 ^ 28" and "d < 16"
  shows "push_bit 4 (of_nat q) OR of_nat d = (of_nat (q * 16 + d) :: u32)"
proof (rule word_eq_of_natI)
  have u: "unat (of_nat q :: u32) = q" "unat (of_nat d :: u32) = d"
    using assms by (auto intro!: unat_of_nat_eq)
  show "unat (push_bit 4 (of_nat q) OR of_nat d :: u32) = q * 16 + d"
    using unat_push_or [of "of_nat d :: u32" 4 "of_nat q"] assms by (simp add: u)
qed

lemma pton6_hexadecimal:
  "w < 65536 \<Longrightarrow> p6_seen s = 0 \<Longrightarrow> p6_val s = 0 \<Longrightarrow>
     pton6_loop (hexadecimal w @ rest) ct s =
     pton6_loop rest ct (s\<lparr>p6_val := of_nat w, p6_seen := List.length (hexadecimal w)\<rparr>)"
proof (induction w arbitrary: rest rule: hexadecimal.induct)
  case (1 w)
  show ?case
  proof (cases "w < 16")
    case True
    then have "hexadecimal w = [hex_digit w]" by (simp add: hexadecimal.simps)
    then show ?thesis using pton6_xdigit [of w s rest ct] True 1(3,4) by simp
  next
    case False
    let ?q = "w div 16"
    have h: "hexadecimal w = hexadecimal ?q @ [hex_digit (w mod 16)]" using False by (simp add: hexadecimal.simps)
    have "?q < 16 ^ Suc 2" using 1(2) by (simp add: less_mult_imp_div_less)
    then have l: "List.length (hexadecimal ?q) < 4" using hexadecimal_length [of ?q 2] by simp
    have v: "push_bit 4 (of_nat ?q) OR of_nat (w mod 16) = (of_nat w :: u32)"
      using of_nat_xdigit [of ?q "w mod 16"] 1(2) by (simp add: less_mult_imp_div_less div_mult_mod_eq del: of_nat_add)
    show ?thesis
      using 1(1) [OF False _ 1(3,4), of "hex_digit (w mod 16) # rest"] 1(2) h v
        pton6_xdigit [of "w mod 16" "s\<lparr>p6_val := of_nat ?q, p6_seen := List.length (hexadecimal ?q)\<rparr>" rest ct] l
      by (simp add: less_mult_imp_div_less)
  qed
qed

text \<open>The state of the parser between groups.\<close>

definition p6_state :: "nat list \<Rightarrow> nat option \<Rightarrow> pton6" where
  "p6_state ns c =
     \<lparr>p6_tmp = concat (map (be_bytes 2) ns) @ replicate (16 - 2 * List.length ns) 0, p6_tp = 2 * List.length ns,
      p6_colonp = map_option ((*) 2) c, p6_seen = 0, p6_val = 0\<rparr>"

lemma length_groups [simp]: "List.length (concat (map (be_bytes k) ns)) = k * List.length ns"
  by (induction ns) simp_all

lemma be_bytes_2: "be_bytes 2 w = [of_nat (w div 256), of_nat w]"
  by (simp add: numeral_2_eq_2)

lemma pton6_put_state:
  assumes "List.length ns < 8" and "w < 65536"
  shows "(pton6_put ((p6_state ns c)\<lparr>p6_val := of_nat w, p6_seen := k\<rparr>))\<lparr>p6_seen := 0, p6_val := 0\<rparr> = p6_state (ns @ [w]) c"
proof -
  define m where "m = 14 - 2 * List.length ns"
  have m: "16 - 2 * List.length ns = Suc (Suc m)" "16 - 2 * Suc (List.length ns) = m" 
    using assms(1) unfolding m_def by presburger+
  have "unat (of_nat w :: u32) = w" using assms(2) by (intro unat_of_nat_eq) simp
  then have v: "ucast (drop_bit 8 (of_nat w :: u32)) = (of_nat (w div 256) :: u8)" "ucast (of_nat w :: u32) = (of_nat w :: u8)"
    by (simp_all add: word_unat_eq_iff unat_ucast_u8 unat_drop_bit)
  show ?thesis
    by (simp add: p6_state_def pton6_put_def m m_def [symmetric] v be_bytes_2 list_update_append)
qed

definition text_groups :: "nat list \<Rightarrow> u8 list" where
  "text_groups ns = concat (map (\<lambda>n. hexadecimal n @ [0x3a]) ns)"

definition text_joined :: "nat list \<Rightarrow> u8 list" where
  "text_joined ns = (if ns = [] then [] else text_groups (butlast ns) @ hexadecimal (last ns))"

lemma p6_state_clear [simp]: "p6_seen (p6_state ns c) = 0" "p6_val (p6_state ns c) = 0"
    "p6_tp (p6_state ns c) = 2 * List.length ns" "p6_colonp (p6_state ns c) = map_option ((*) 2) c"
  by (simp_all add: p6_state_def)

lemma pton6_group:
  assumes "List.length ns < 8" and "w < 65536" and "rest \<noteq> []"
  shows "pton6_loop (hexadecimal w @ 0x3a # rest) ct (p6_state ns c) = pton6_loop rest rest (p6_state (ns @ [w]) c)"
  using assms pton6_put_state [OF assms(1,2), where c = c and k = "List.length (hexadecimal w)"]
  by (simp add: pton6_hexadecimal)

lemma pton6_groups:
  "List.length ns + List.length us \<le> 8 \<Longrightarrow> \<forall>u\<in>set us. u < 65536 \<Longrightarrow> rest \<noteq> [] \<Longrightarrow> us \<noteq> [] \<Longrightarrow>
     pton6_loop (text_groups us @ rest) ct (p6_state ns c) = pton6_loop rest rest (p6_state (ns @ us) c)"
proof (induction us arbitrary: ns ct)
  case (Cons u us)
  have g: "text_groups (u # us) @ rest = hexadecimal u @ 0x3a # text_groups us @ rest" by (simp add: text_groups_def)
  have "pton6_loop (text_groups (u # us) @ rest) ct (p6_state ns c) =
      pton6_loop (text_groups us @ rest) (text_groups us @ rest) (p6_state (ns @ [u]) c)"
    unfolding g using Cons.prems by (intro pton6_group) simp_all
  then show ?case using Cons.IH [of "ns @ [u]"] Cons.prems by (cases "us = []") (simp_all add: text_groups_def)
qed simp

text \<open>What is done with a parsed text: the result of the loop and the code behind it.\<close>

definition pton6_done :: "int + pton6 \<Rightarrow> int + u8 list" where
  "pton6_done r = (case r of Inl err \<Rightarrow> Inl err | Inr s \<Rightarrow> pton6_finish s)"

lemma pton6_finish_group:
  assumes "List.length ns < 8" and "w < 65536"
  shows "pton6_finish ((p6_state ns c)\<lparr>p6_val := of_nat w, p6_seen := Suc k\<rparr>) = pton6_finish (p6_state (ns @ [w]) c)"
proof -
  let ?s = "(p6_state ns c)\<lparr>p6_val := of_nat w, p6_seen := Suc k\<rparr>"
  have p: "(pton6_put ?s)\<lparr>p6_seen := 0, p6_val := 0\<rparr> = p6_state (ns @ [w]) c" by (rule pton6_put_state [OF assms])
  have f: "p6_tmp (pton6_put ?s) = p6_tmp (p6_state (ns @ [w]) c)" "p6_tp (pton6_put ?s) = p6_tp (p6_state (ns @ [w]) c)"
    "p6_colonp (pton6_put ?s) = p6_colonp (p6_state (ns @ [w]) c)"
    using arg_cong [OF p, of p6_tmp] arg_cong [OF p, of p6_tp] arg_cong [OF p, of p6_colonp] by simp_all
  show ?thesis using assms(1) f by (cases c) (simp_all add: pton6_finish_def Let_def)
qed

lemma pton6_joined:
  assumes "List.length ns + List.length us \<le> 8" and "\<forall>u\<in>set us. u < 65536"
  shows "pton6_done (pton6_loop (text_joined us) ct (p6_state ns c)) = pton6_finish (p6_state (ns @ us) c)"
proof (cases "us = []")
  case False
  then obtain vs w where us: "us = vs @ [w]" by (metis append_butlast_last_id)
  have t: "text_joined us = text_groups vs @ hexadecimal w" by (simp add: us text_joined_def)
  have "\<exists>ct'. pton6_loop (text_joined us) ct (p6_state ns c) = pton6_loop (hexadecimal w) ct' (p6_state (ns @ vs) c)"
  proof (cases "vs = []")
    case False
    then show ?thesis using pton6_groups [of ns vs "hexadecimal w" ct c] assms unfolding t by (auto simp: us)
  qed (auto simp: t text_groups_def)
  then obtain ct' where
    "pton6_loop (text_joined us) ct (p6_state ns c) = pton6_loop (hexadecimal w) ct' (p6_state (ns @ vs) c)" ..
  moreover have "pton6_loop (hexadecimal w) ct' (p6_state (ns @ vs) c) =
      Inr ((p6_state (ns @ vs) c)\<lparr>p6_val := of_nat w, p6_seen := List.length (hexadecimal w)\<rparr>)"
    using pton6_hexadecimal [of w "p6_state (ns @ vs) c" "[]"] assms us by simp
  moreover obtain k where "List.length (hexadecimal w) = Suc k" by (metis hexadecimal_ne list.size(3) not0_implies_Suc length_0_conv)
  ultimately show ?thesis using pton6_finish_group [of "ns @ vs" w, where c = c and k = k] assms us by (simp add: pton6_done_def)
qed (simp add: text_joined_def pton6_done_def)

lemma pton6_dotted_skip:
  "set ds \<subseteq> {of_nat (48 + d) | d. d < 10} \<Longrightarrow> p6_seen s + List.length ds \<le> 4 \<Longrightarrow>
     \<exists>v k. pton6_loop (ds @ rest) ct s = pton6_loop rest ct (s\<lparr>p6_val := v, p6_seen := k\<rparr>)"
proof (induction ds arbitrary: s)
  case Nil
  then show ?case by (metis append_Nil pton6.surjective pton6.update_convs(4,5))
next
  case (Cons c ds)
  then obtain d where d: "d < 10" "c = of_nat (48 + d)" by auto
  then have c: "c = hex_digit d" by (simp add: hex_digit_def)
  show ?case
    using Cons.IH [of "s\<lparr>p6_val := push_bit 4 (p6_val s) OR of_nat d, p6_seen := p6_seen s + 1\<rparr>"] Cons.prems d(1)
      pton6_xdigit [of d s "ds @ rest" ct] unfolding c by auto
qed

lemma pton6_dotted:
  fixes a b :: nat assumes "List.length ns \<le> 6"
  defines "t \<equiv> dotted (map unat (be_bytes 2 a @ be_bytes 2 b))"
  shows "pton6_done (pton6_loop t t (p6_state ns c)) = pton6_finish (p6_state (ns @ [a, b]) c)"
proof -
  define x where "x = unat (of_nat (a div 256) :: u8)"
  define rest where "rest = dotted (map unat [of_nat a :: u8, of_nat (b div 256), of_nat b])"
  have t: "t = decimal x @ 0x2e # rest" by (simp add: t_def x_def rest_def be_bytes_2)
  have "x < 10 ^ Suc 2" unfolding x_def using unat_u8_less [of "of_nat (a div 256)"] by (simp del: unat_u8_less)
  then have "List.length (decimal x) \<le> 4" using decimal_length [of x 2] by simp
  then have "p6_seen (p6_state ns c) + List.length (decimal x) \<le> 4" by simp
  moreover have digits': "set (decimal x) \<subseteq> {of_nat (48 + d) | d. d < 10}" using decimal_bound [of _ x] by auto
  ultimately obtain v k where skip: "pton6_loop t t (p6_state ns c) = pton6_loop (0x2e # rest) t ((p6_state ns c)\<lparr>p6_val := v, p6_seen := k\<rparr>)"
    using pton6_dotted_skip [OF digits', of "p6_state ns c" "0x2e # rest" t] unfolding t by (auto simp del: pton6_loop.simps)
  define m where "m = 12 - 2 * List.length ns"
  have m: "16 - 2 * List.length ns = 4 + m" "16 - 2 * (List.length ns + 2) = m" 
    using assms(1) unfolding m_def by presburger+
  have "inet_pton4 t = Inr (be_bytes 2 a @ be_bytes 2 b)" unfolding t_def by (rule inet_pton4_complete) simp
  moreover have "mem_write (2 * List.length ns) (be_bytes 2 a @ be_bytes 2 b) (p6_tmp (p6_state ns c)) = p6_tmp (p6_state (ns @ [a, b]) c)"
    by (simp add: p6_state_def mem_write_def m m_def [symmetric])
  moreover have four: "n + 4 = Suc (Suc (Suc (Suc n)))" for n :: nat by simp
  ultimately show ?thesis using assms(1) unfolding skip by (cases c) (simp_all add: pton6_done_def pton6_finish_def Let_def four)
qed

lemma pton6_shift_step:
  assumes "List.length A = p" and "List.length T = k" and "p + k + 2 + m + List.length R = 16"
  shows "((A @ T @ b # replicate m 0 @ 0 # R)[p + k + m + 1 := b])[p + k := 0] = A @ T @ replicate (m + 1) 0 @ b # R"
proof -
  have "(A @ T @ b # replicate m 0 @ 0 # R)[p + k + m + 1 := b] = A @ T @ b # replicate m 0 @ b # R"
    using assms(1,2) by (simp add: list_update_append)
  then show ?thesis using assms(1,2) by (simp add: list_update_append replicate_app_Cons_same)
qed

lemma pton6_shift_eq:
  assumes "List.length A = p" and "List.length B = n" and "p + n + Suc m = 16"
  shows "pton6_shift p n (A @ B @ replicate (Suc m) 0) = A @ replicate (Suc m) 0 @ B"
proof -
  let ?step = "\<lambda>i t. (t[16 - i := t ! (p + (n - i))])[p + (n - i) := 0 :: u8]"
  have "i \<le> n \<Longrightarrow> fold ?step [1..<i + 1] (A @ B @ replicate (Suc m) 0) =
      A @ take (n - i) B @ replicate (Suc m) 0 @ drop (n - i) B" for i
  proof (induction i)
    case 0
    then show ?case using assms(2) by simp
  next
    case (Suc i)
    let ?k = "n - Suc i"
    have k: "n - i = Suc ?k" "?k < n" "p + ?k + m + 1 = 16 - Suc i" using Suc.prems assms(3) by simp_all
    let ?b = "B ! ?k"
    let ?t = "A @ take ?k B @ ?b # replicate m 0 @ 0 # drop (n - i) B"
    have "fold ?step [1..<Suc i + 1] (A @ B @ replicate (Suc m) 0) = ?step (Suc i) ?t"
      using Suc k assms(2) by (simp add: take_Suc_conv_app_nth replicate_app_Cons_same)
    also have "\<dots> = (?t[p + ?k + m + 1 := ?b])[p + ?k := 0]"
      using k(2,3) assms(1,2) by (simp add: nth_append)
    also have "\<dots> = A @ take ?k B @ replicate (m + 1) 0 @ ?b # drop (n - i) B"
      using k(1,2) assms by (intro pton6_shift_step) simp_all
    also have "?b # drop (n - i) B = drop ?k B" using k(1,2) assms(2) by (simp add: Cons_nth_drop_Suc)
    finally show ?case by simp
  qed
  from this [of n] show ?thesis by (simp add: pton6_shift_def)
qed

lemma be_bytes_2_zeros: "concat (replicate m (be_bytes 2 0)) = replicate (2 * m) 0"
  by (induction m) (simp_all add: be_bytes_2)

lemma pton6_finish_run:
  assumes "List.length us + List.length vs < 8"
  shows "pton6_finish (p6_state (us @ vs) (Some (List.length us))) =
    Inr (concat (map (be_bytes 2) (us @ replicate (8 - (List.length us + List.length vs)) 0 @ vs)))"
proof -
  let ?m = "16 - 2 * (List.length us + List.length vs)"
  obtain m where m: "?m = Suc m" using assms by (cases ?m) auto
  have "pton6_shift (2 * List.length us) (2 * List.length vs)
      (concat (map (be_bytes 2) us) @ concat (map (be_bytes 2) vs) @ replicate (Suc m) 0) =
      concat (map (be_bytes 2) us) @ replicate (Suc m) 0 @ concat (map (be_bytes 2) vs)"
    using m by (intro pton6_shift_eq) simp_all
  moreover have "Suc m = 2 * (8 - (List.length us + List.length vs))" using m assms by simp
  ultimately show ?thesis using assms m
    by (simp add: pton6_finish_def p6_state_def be_bytes_2_zeros Let_def del: replicate_Suc)
qed

lemma hexadecimal_first: "\<exists>d<16. hd (hexadecimal n) = hex_digit d"
proof (induction n rule: hexadecimal.induct)
  case (1 n)
  then show ?case by (cases "n < 16") (auto simp: hexadecimal.simps [of n])
qed

lemma hexadecimal_no_colon: "hd (hexadecimal n) \<noteq> 0x3a"
  using hexadecimal_first [of n] strchr_xdigits strchr_xdigits_punctuation(1) by (metis option.distinct(1))

lemma pton6_start_state: "pton6_start = p6_state [] None"
  by (simp add: pton6_start_def p6_state_def)

lemma p6_state_colon: "(p6_state ns None)\<lparr>p6_colonp := Some (2 * List.length ns)\<rparr> = p6_state ns (Some (List.length ns))"
  by (simp add: p6_state_def)

lemma inet_pton6_direct:
  "s \<noteq> [] \<Longrightarrow> hd s \<noteq> 0x3a \<Longrightarrow> inet_pton6 s = pton6_done (pton6_loop s s (p6_state [] None))"
  by (simp add: inet_pton6_def pton6_start_state pton6_done_def)

text \<open>An address with a run of zero groups cut out, whatever follows the double colon.\<close>

lemma inet_pton6_run:
  assumes "pton6_done (pton6_loop t t (p6_state us (Some (List.length us)))) = pton6_finish (p6_state (us @ vs) (Some (List.length us)))"
    and "List.length us + List.length vs < 8" and "\<forall>u\<in>set us. u < 65536"
  shows "inet_pton6 ((if us = [] then [0x3a] else text_groups us) @ 0x3a # t) =
    Inr (concat (map (be_bytes 2) (us @ replicate (8 - (List.length us + List.length vs)) 0 @ vs)))"
proof -
  have colon: "pton6_loop (0x3a # t) ct (p6_state us None) = pton6_loop t t (p6_state us (Some (List.length us)))" for ct
    by (simp add: p6_state_colon)
  have "inet_pton6 ((if us = [] then [0x3a] else text_groups us) @ 0x3a # t) =
      pton6_done (pton6_loop t t (p6_state us (Some (List.length us))))"
  proof (cases "us = []")
    case True
    then show ?thesis using colon [of "0x3a # t"]
      by (simp add: inet_pton6_def pton6_start_state pton6_done_def del: pton6_loop.simps)
  next
    case False
    then obtain u us' where "us = u # us'" by (cases us) auto
    then have "text_groups us \<noteq> []" "hd (text_groups us) \<noteq> 0x3a" by (simp_all add: text_groups_def hexadecimal_no_colon)
    moreover have "pton6_loop (text_groups us @ 0x3a # t) ct (p6_state [] None) = pton6_loop (0x3a # t) (0x3a # t) (p6_state us None)" for ct
      using pton6_groups [of "[]" us "0x3a # t" ct None] assms(2,3) False by simp
    ultimately show ?thesis using False colon by (simp add: inet_pton6_direct del: pton6_loop.simps)
  qed
  then show ?thesis using assms(1) pton6_finish_run [OF assms(2)] by simp
qed

lemma inet_pton6_full:
  assumes "List.length ws = 8" and "\<forall>u\<in>set ws. u < 65536"
  shows "inet_pton6 (text_joined ws) = Inr (concat (map (be_bytes 2) ws))"
proof -
  obtain w ws' where w: "ws = w # ws'" using assms(1) by (cases ws) auto
  then have "text_joined ws \<noteq> [] \<and> hd (text_joined ws) \<noteq> 0x3a"
    by (cases ws') (simp_all add: text_joined_def text_groups_def hexadecimal_no_colon)
  then have "inet_pton6 (text_joined ws) = pton6_finish (p6_state ([] @ ws) None)"
    using pton6_joined [of "[]" ws "text_joined ws" None] assms by (simp add: inet_pton6_direct)
  then show ?thesis using assms(1) by (simp add: pton6_finish_def p6_state_def)
qed

section \<open>The longest run of zero words\<close>

definition zeros :: "u32 list \<Rightarrow> nat \<Rightarrow> nat \<Rightarrow> bool" where
  "zeros ws b l \<longleftrightarrow> b + l \<le> List.length ws \<and> (\<forall>j\<in>{b..<b + l}. ws ! j = 0)"

text \<open>The first of the longest runs among the words before \<open>k\<close>.\<close>

definition longest_before :: "u32 list \<Rightarrow> nat \<Rightarrow> zero_run \<Rightarrow> bool" where
  "longest_before ws k r \<longleftrightarrow>
     (if run_base r = -1 then \<forall>b l. zeros ws b l \<and> b + l \<le> k \<longrightarrow> l = 0
      else \<exists>b l. r = \<lparr>run_base = int b, run_len = int l\<rparr> \<and> 0 < l \<and> zeros ws b l \<and> b + l \<le> k \<and>
        (\<forall>b' l'. zeros ws b' l' \<and> b' + l' \<le> k \<longrightarrow> l' < l \<or> l' = l \<and> b \<le> b'))"

text \<open>The run being scanned, which ends before \<open>i\<close> and starts at \<open>k\<close> behind a word that is not zero.\<close>

definition current_run :: "u32 list \<Rightarrow> nat \<Rightarrow> nat \<Rightarrow> zero_run \<Rightarrow> bool" where
  "current_run ws i k cur \<longleftrightarrow> k \<le> i \<and> (k = 0 \<or> ws ! (k - 1) \<noteq> 0) \<and>
     (if run_base cur = -1 then k = i
      else cur = \<lparr>run_base = int k, run_len = int (i - k)\<rparr> \<and> k < i \<and> zeros ws k (i - k))"

lemma zeros_word: "zeros ws b l \<Longrightarrow> b \<le> j \<Longrightarrow> j < b + l \<Longrightarrow> ws ! j = 0"
  by (simp add: zeros_def)

lemma longest_extend:
  assumes "longest_before ws k best" and "current_run ws i k cur" and "i \<le> List.length ws"
  shows "longest_before ws i (if run_base cur \<noteq> -1 then better_run best cur else best)"
proof (cases "run_base cur = -1")
  case True
  then show ?thesis using assms by (auto simp: current_run_def)
next
  case False
  then have "k < i" and edge: "k = 0 \<or> ws ! (k - 1) \<noteq> 0" using assms(2) by (auto simp: current_run_def)
  then obtain n where n: "0 < n" "i = k + n" using less_imp_add_positive by blast
  have cur: "cur = \<lparr>run_base = int k, run_len = int n\<rparr>" "zeros ws k n" using assms(2) False n(2) by (auto simp: current_run_def)
  have split: "b + l \<le> k \<or> k \<le> b" if "zeros ws b l" "0 < l" "b + l \<le> i" for b l
  proof (rule ccontr)
    assume "\<not> (b + l \<le> k \<or> k \<le> b)"
    then have "k \<noteq> 0" "b \<le> k - 1" "k - 1 < b + l" by linarith+
    then show False using zeros_word [OF that(1), of "k - 1"] edge by simp
  qed
  consider (none) "run_base best = -1" "\<And>b l. zeros ws b l \<Longrightarrow> b + l \<le> k \<Longrightarrow> l = 0"
    | (some) b l where "best = \<lparr>run_base = int b, run_len = int l\<rparr>" "0 < l" "zeros ws b l" "b + l \<le> k"
        "\<And>b' l'. zeros ws b' l' \<Longrightarrow> b' + l' \<le> k \<Longrightarrow> l' < l \<or> l' = l \<and> b \<le> b'"
    using assms(1) unfolding longest_before_def by (auto split: if_splits)
  then show ?thesis
  proof cases
    case none
    have "l' < n \<or> l' = n \<and> k \<le> b'" if "zeros ws b' l'" "b' + l' \<le> i" for b' l'
      using none(2) [of b' l'] split [OF that(1) _ that(2)] that n by (cases "l' = 0") auto
    then show ?thesis using none(1) cur n False by (auto simp: better_run_def longest_before_def)
  next
    case some
    show ?thesis
    proof (cases "n > l")
      case True
      have "l' < n \<or> l' = n \<and> k \<le> b'" if "zeros ws b' l'" "b' + l' \<le> i" for b' l'
        using some(5) [of b' l'] split [OF that(1) _ that(2)] that n True by (cases "l' = 0") auto
      then show ?thesis using some cur n False True by (auto simp: better_run_def longest_before_def)
    next
      case False
      have "l' < l \<or> l' = l \<and> b \<le> b'" if "zeros ws b' l'" "b' + l' \<le> i" for b' l'
        using some(2,4) some(5) [of b' l'] split [OF that(1) _ that(2)] that False n by (cases "l' = 0") auto
      then show ?thesis using some cur n False \<open>run_base cur \<noteq> -1\<close> by (fastforce simp: better_run_def longest_before_def)
    qed
  qed
qed

lemma longest_step:
  assumes "longest_before ws i r" and "\<And>b l. zeros ws b l \<Longrightarrow> b + l \<le> Suc i \<Longrightarrow> \<not> b + l \<le> i \<Longrightarrow> l = 0"
  shows "longest_before ws (Suc i) r"
proof (cases "run_base r = -1")
  case True
  then show ?thesis using assms unfolding longest_before_def by (metis (no_types))
next
  case False
  then obtain b l where bl: "r = \<lparr>run_base = int b, run_len = int l\<rparr>" "0 < l" "zeros ws b l" "b + l \<le> i"
      "\<And>b' l'. zeros ws b' l' \<and> b' + l' \<le> i \<Longrightarrow> l' < l \<or> l' = l \<and> b \<le> b'"
    using assms(1) unfolding longest_before_def by auto
  have "l' < l \<or> l' = l \<and> b \<le> b'" if "zeros ws b' l' \<and> b' + l' \<le> Suc i" for b' l'
    using assms(2) [of b' l'] bl(5) [of b' l'] bl(2) that by auto
  then show ?thesis unfolding bl(1) longest_before_def using bl(2-4) by auto
qed

lemma scan_words_longest:
  "i + List.length us = List.length ws \<Longrightarrow> us = drop i ws \<Longrightarrow> longest_before ws k best \<Longrightarrow> current_run ws i k cur \<Longrightarrow>
     scan_words us (int i) best cur = (best', cur') \<Longrightarrow>
     \<exists>k'. longest_before ws k' best' \<and> current_run ws (List.length ws) k' cur'"
proof (induction us arbitrary: i k best cur)
  case (Cons w us)
  have il: "i < List.length ws" using Cons.prems(1) by simp
  have i: "i < List.length ws" "w = ws ! i" "us = drop (Suc i) ws"
    using il Cons.prems(2) Cons_nth_drop_Suc [OF il] by (simp, metis list.inject, metis list.inject)
  have len: "Suc i + List.length us = List.length ws" using Cons.prems(1) by simp
  note IH = Cons.IH [OF len i(3)]
  show ?case
  proof (cases "w = 0")
    case True
    let ?cur = "if run_base cur = -1 then \<lparr>run_base = int i, run_len = 1\<rparr> else cur\<lparr>run_len := run_len cur + 1\<rparr>"
    have "zeros ws k (Suc i - k)"
      using Cons.prems(4) i(1,2) True by (auto simp: current_run_def zeros_def less_Suc_eq split: if_splits)
    then have c: "current_run ws (Suc i) k ?cur"
      using Cons.prems(4) by (auto simp: current_run_def Suc_diff_le split: if_splits)
    have "scan_words us (int (Suc i)) best ?cur = (best', cur')" using Cons.prems(5) True by (auto simp: add.commute)
    then show ?thesis by (rule IH [OF Cons.prems(3) c])
  next
    case False
    let ?best = "if run_base cur \<noteq> -1 then better_run best cur else best"
    let ?cur = "cur\<lparr>run_base := -1\<rparr>"
    have l: "longest_before ws i ?best" by (rule longest_extend [OF Cons.prems(3,4)]) (use i(1) in simp)
    have "l = 0" if "zeros ws b l" "b + l \<le> Suc i" "\<not> b + l \<le> i" for b l
      using zeros_word [OF that(1), of i] that False i(2) by (cases l) auto
    then have b: "longest_before ws (Suc i) ?best" by (rule longest_step [OF l])
    have c: "current_run ws (Suc i) (Suc i) ?cur" using False i(2) by (simp add: current_run_def)
    have "scan_words us (int (Suc i)) ?best ?cur = (best', cur')"
    proof (cases "run_base cur = -1")
      case True
      then have same: "?cur = cur" by simp
      show ?thesis unfolding same using Cons.prems(5) False True by (simp add: add.commute)
    qed (use Cons.prems(5) False in \<open>simp add: add.commute\<close>)
    then show ?thesis by (rule IH [OF b c])
  qed
qed auto

lemma best_run_cases:
  assumes "best_run ws = r"
  obtains (none) "run_base r = -1" "\<And>b l. zeros ws b l \<Longrightarrow> l < 2"
    | (run) b l where "r = \<lparr>run_base = int b, run_len = int l\<rparr>" "2 \<le> l" "zeros ws b l"
        "\<And>b' l'. zeros ws b' l' \<Longrightarrow> l' < l \<or> l' = l \<and> b \<le> b'"
proof -
  let ?start = "\<lparr>run_base = -1, run_len = 0\<rparr>"
  obtain best cur where s: "scan_words ws (int 0) ?start ?start = (best, cur)" by fastforce
  have "longest_before ws 0 ?start" "current_run ws 0 0 ?start" by (simp_all add: longest_before_def current_run_def)
  then obtain k where k: "longest_before ws k best" "current_run ws (List.length ws) k cur"
    using scan_words_longest [of 0 ws ws 0 ?start ?start best cur] s by auto
  let ?best = "if run_base cur \<noteq> -1 then better_run best cur else best"
  have l: "longest_before ws (List.length ws) ?best" by (rule longest_extend [OF k]) simp
  have r: "r = (if run_base ?best \<noteq> -1 \<and> run_len ?best < 2 then ?best\<lparr>run_base := -1\<rparr> else ?best)"
    using assms s by (simp add: best_run_def Let_def)
  have inside: "b + l \<le> List.length ws" if "zeros ws b l" for b l using that by (simp add: zeros_def)
  show thesis
  proof (cases "run_base ?best = -1")
    case True
    then have "l = 0" if "zeros ws b l" for b l using l inside [OF that] that by (auto simp: longest_before_def)
    then show ?thesis using none True r by fastforce
  next
    case False
    then obtain b l where bl: "?best = \<lparr>run_base = int b, run_len = int l\<rparr>" "0 < l" "zeros ws b l"
        "\<And>b' l'. zeros ws b' l' \<Longrightarrow> l' < l \<or> l' = l \<and> b \<le> b'"
      using l inside unfolding longest_before_def by (auto split: if_split_asm)
    show ?thesis
    proof (cases "l < 2")
      case True
      then have "l' < 2" if "zeros ws b' l'" for b' l' using bl(4) [OF that] by auto
      then show ?thesis using none r bl(1) True by simp
    next
      case False
      then show ?thesis using run [of b l] r bl by simp
    qed
  qed
qed

section \<open>Printing IPv6\<close>

definition address_words :: "u8 list \<Rightarrow> nat list" where
  "address_words a = map (\<lambda>j. be_val [a ! (2 * j), a ! (2 * j + 1)]) [0..<8]"

lemma address_words_bounds: "n \<in> set (address_words a) \<Longrightarrow> n < 65536"
  using be_val_less [of "[x, y]" for x y] by (fastforce simp: address_words_def simp del: be_val.simps)

lemma address_words_bytes:
  assumes "List.length a = 16"
  shows "concat (map (be_bytes 2) (address_words a)) = a"
proof -
  have "be_bytes 2 (be_val [x, y]) = [x, y]" for x y using be_bytes_be_val [of "[x, y]"] by (simp add: numeral_2_eq_2 del: be_val.simps be_bytes.simps)
  then have "concat (map (be_bytes 2) (address_words a)) = concat (map (\<lambda>j. [a ! (2 * j), a ! (2 * j + 1)]) [0..<8])"
    by (simp add: address_words_def comp_def)
  also have "\<dots> = map ((!) a) [0..<16]" by (simp add: upt_rec, simp add: numeral_eq_Suc)
  also have "\<dots> = a" using assms map_nth [of a] by simp
  finally show ?thesis .
qed

lemma inet6_words_eq:
  shows "map unat (inet6_words a) = address_words a"
proof -
  have w: "unat (push_bit 8 (ucast x) OR ucast y :: u32) = be_val [x, y]" for x y :: u8
  proof -
    have "unat (ucast x :: u32) = unat x" "unat (ucast y :: u32) = unat y" by (simp_all add: unat_ucast_up)
    then show ?thesis
      using unat_push_or [of "ucast y :: u32" 8 "ucast x"] unat_u8_less [of x] unat_u8_less [of y] by simp
  qed
  have "inet6_words a = map (\<lambda>j. push_bit 8 (ucast (a ! (2 * j))) OR ucast (a ! (2 * j + 1))) [0..<8]"
  proof -
    have i: "[0..<16] = [0, 1, 2, 3, 4, 5, 6, 7, 8, 9, 10, 11, 12, 13, 14, 15]" by (simp add: upt_rec)
    have j: "[0..<8] = [0, 1, 2, 3, 4, 5, 6, 7]" by (simp add: upt_rec)
    have z: "replicate 8 (0 :: u32) = [0, 0, 0, 0, 0, 0, 0, 0]" by (simp add: numeral_eq_Suc)
    show ?thesis unfolding inet6_words_def i j z by simp
  qed
  then show ?thesis by (simp add: address_words_def w comp_def del: be_val.simps)
qed

lemma text_joined_Cons: "text_joined (u # us) = hexadecimal u @ concat (map (\<lambda>n. 0x3a # hexadecimal n) us)"
proof (induction us arbitrary: u)
  case (Cons v us)
  then show ?case by (simp add: text_joined_def text_groups_def)
qed (simp add: text_joined_def text_groups_def)

lemma text_joined_colons:
  "us \<noteq> [] \<Longrightarrow> concat (map (\<lambda>n. 0x3a # hexadecimal n) us) = 0x3a # text_joined us"
  by (cases us) (simp_all add: text_joined_Cons)

lemma text_joined_groups: "us \<noteq> [] \<Longrightarrow> text_joined us @ [0x3a] = text_groups us"
  by (cases us rule: rev_cases) (simp_all add: text_joined_def text_groups_def)

lemma colons_groups: "concat (map (\<lambda>n. 0x3a # hexadecimal n) us) @ [0x3a] = 0x3a # text_groups us"
  by (induction us) (simp_all add: text_groups_def)

text \<open>The text of an address: whole, or with a run of \<open>l\<close> zero words at \<open>b\<close> cut out.\<close>

definition embeds_ipv4 :: "nat list \<Rightarrow> nat \<Rightarrow> nat \<Rightarrow> bool" where
  "embeds_ipv4 ns b l \<longleftrightarrow> b = 0 \<and> (l = 6 \<or> l = 5 \<and> ns ! 5 = 0xffff)"

definition cut_text :: "nat list \<Rightarrow> nat \<Rightarrow> nat \<Rightarrow> u8 list" where
  "cut_text ns b l =
     (if b = 0 then [0x3a] else text_groups (take b ns)) @ 0x3a #
     (if embeds_ipv4 ns b l
      then text_groups (take (6 - l) (drop l ns)) @ dotted (map unat (concat (map (be_bytes 2) (drop 6 ns))))
      else text_joined (drop (b + l) ns))"

definition outside :: "zero_run \<Rightarrow> nat \<Rightarrow> bool" where
  "outside best i \<longleftrightarrow> \<not> (run_base best \<noteq> -1 \<and> int i \<ge> run_base best \<and> int i < run_base best + run_len best)"

definition embedding :: "u32 list \<Rightarrow> zero_run \<Rightarrow> bool" where
  "embedding words best \<longleftrightarrow> run_base best = 0
     \<and> (run_len best = 6 \<or> run_len best = 7 \<and> words ! 7 \<noteq> 1 \<or> run_len best = 5 \<and> words ! 5 = 0xffff)"

lemma format_word:
  assumes "outside best i" and "\<not> (i = 6 \<and> embedding words best)"
  shows "format_words src words best i (w # ws) tmp =
    format_words src words best (Suc i) ws ((if i = 0 then tmp else tmp @ [0x3a]) @ hexadecimal (unat w))"
  using assms unfolding outside_def embedding_def
  by (subst format_words.simps, subst if_not_P, simp, unfold Let_def, subst if_not_P) simp_all

lemma format_octets:
  assumes "outside best 6" and "embedding words best"
  shows "format_words src words best 6 (w # ws) tmp =
    (let room = UV__INET6_ADDRSTRLEN - List.length (tmp @ [0x3a])
     in case inet_ntop4 (drop 12 src) (replicate room 0) room of
          (err, d) \<Rightarrow> if err \<noteq> 0 then Inl err else Inr (tmp @ 0x3a # cstr d))"
  using assms unfolding outside_def embedding_def
  by (subst format_words.simps, subst if_not_P, simp, unfold Let_def, subst if_P) (simp_all split: prod.splits)

lemma format_colons:
  "0 < i \<Longrightarrow> \<forall>j\<in>{i..<i + List.length us}. outside best j \<and> \<not> (j = 6 \<and> embedding words best) \<Longrightarrow>
     format_words src words best i (us @ vs) tmp =
     format_words src words best (i + List.length us) vs (tmp @ concat (map (\<lambda>n. 0x3a # hexadecimal n) (map unat us)))"
proof (induction us arbitrary: i tmp)
  case (Cons u us)
  have "outside best i \<and> \<not> (i = 6 \<and> embedding words best)" using Cons.prems(2) by (rule bspec) simp
  then have o': "outside best i" "\<not> (i = 6 \<and> embedding words best)" by blast+
  show ?case using Cons.IH [of "Suc i" "tmp @ 0x3a # hexadecimal (unat u)"] Cons.prems
    by (simp add: format_word [OF o'] del: format_words.simps(2))
qed simp

lemma format_first:
  assumes "\<forall>j\<in>{0..<List.length us}. outside best j \<and> \<not> (j = 6 \<and> embedding words best)"
  shows "format_words src words best 0 (us @ vs) [] = format_words src words best (List.length us) vs (text_joined (map unat us))"
proof (cases us)
  case (Cons u us')
  have "outside best 0" using assms Cons by simp
  then have "format_words src words best 0 (u # us' @ vs) [] = format_words src words best 1 (us' @ vs) (hexadecimal (unat u))"
    by (simp add: format_word del: format_words.simps(2))
  then show ?thesis using format_colons [of 1 us' best words src vs "hexadecimal (unat u)"] assms Cons
    by (simp add: text_joined_Cons)
qed (simp add: text_joined_def)

lemma format_run:
  "\<forall>j\<in>{i..<i + List.length zs}. \<not> outside best j \<and> (int j = run_base best \<longleftrightarrow> j = i \<and> first) \<Longrightarrow> zs \<noteq> [] \<Longrightarrow>
     format_words src words best i (zs @ vs) tmp =
     format_words src words best (i + List.length zs) vs (if first then tmp @ [0x3a] else tmp)"
proof (induction zs arbitrary: i tmp first)
  case (Cons z zs)
  have o: "\<not> outside best i" "int i = run_base best \<longleftrightarrow> first" using Cons.prems(1) by auto
  have "\<forall>j\<in>{Suc i..<Suc i + List.length zs}. \<not> outside best j \<and> (int j = run_base best \<longleftrightarrow> j = Suc i \<and> False)"
    using Cons.prems(1) by auto
  from Cons.IH [OF this, of "if first then tmp @ [0x3a] else tmp"] show ?case
    using o by (cases "zs = []") (auto simp: outside_def)
qed simp

lemma inet_ntop4_text:
  assumes "List.length b = 4" and "sz \<le> List.length dst"
  shows "inet_ntop4 b dst sz =
    (if List.length (dotted (map unat b)) < sz
     then (0, dotted (map unat b) @ 0 # drop (Suc (List.length (dotted (map unat b)))) dst) else (UV_ENOSPC, dst))"
    and "List.length (dotted (map unat b)) \<le> 15" and "0 \<notin> set (dotted (map unat b))" and "0x25 \<notin> set (dotted (map unat b))"
proof -
  obtain b0 b1 b2 b3 where b: "b = [b0, b1, b2, b3]" using assms(1) by (auto simp: length_Suc_conv numeral_eq_Suc)
  let ?t = "dotted (map unat b)"
  have t: "?t = decimal (unat (b ! 0)) @ 0x2e # decimal (unat (b ! 1)) @ 0x2e # decimal (unat (b ! 2)) @ 0x2e # decimal (unat (b ! 3))"
    by (simp add: b)
  have d: "List.length (decimal (unat (x :: u8))) \<le> 3" for x
    using decimal_length [of "unat x" 2] unat_u8_less [of x] by (simp del: unat_u8_less)
  show l: "List.length ?t \<le> 15" using d [of b0] d [of b1] d [of b2] d [of b3] by (simp add: b)
  show z: "0 \<notin> set ?t" using decimal_no_zero by (auto simp: t)
  have "0x25 \<notin> set (decimal n)" for n
  proof
    assume "0x25 \<in> set (decimal n)"
    then obtain d where d: "d < 10" "0x25 = (of_nat (48 + d) :: u8)" using decimal_bound by blast
    have "unat (of_nat (48 + d) :: u8) = 48 + d" by (rule unat_digit [OF d(1)])
    moreover have "unat (0x25 :: u8) = 37" by simp
    ultimately show False unfolding d(2) [symmetric] by simp
  qed
  then show "0x25 \<notin> set ?t" by (auto simp: t)
  have "uv__strscpy dst (?t @ [0]) sz = (?t @ 0 # drop (Suc (List.length ?t)) dst, int (List.length ?t))" if "List.length ?t < sz"
    using uv__strscpy_eq [OF z assms(2)] that l by (simp add: SSIZE_MAX_def)
  moreover have "0 < List.length ?t" by (simp add: t)
  ultimately show "inet_ntop4 b dst sz =
      (if List.length ?t < sz then (0, ?t @ 0 # drop (Suc (List.length ?t)) dst) else (UV_ENOSPC, dst))"
    unfolding inet_ntop4_def UV__INET_ADDRSTRLEN_def t [symmetric] Let_def using l by (simp add: not_less)
qed

lemma format_whole:
  assumes "run_base best = -1"
  shows "format_words src words best 0 ws [] = Inr (text_joined (map unat ws))"
  using format_first [of ws best words src "[]"] assms by (simp add: outside_def embedding_def)

text \<open>The loop on an address with a run, up to the end of the run.\<close>

lemma format_to_run:
  assumes "best = \<lparr>run_base = int b, run_len = int l\<rparr>" and "2 \<le> l" and "b + l \<le> List.length ws"
  shows "format_words src words best 0 ws [] =
    format_words src words best (b + l) (drop (b + l) ws) (text_joined (map unat (take b ws)) @ [0x3a])"
proof -
  have ws: "ws = take b ws @ take l (drop b ws) @ drop (b + l) ws"
    by (metis add.commute append_take_drop_id drop_drop)
  have e: "\<not> (j = 6 \<and> embedding words best)" if "j < b" for j using that assms(1) by (auto simp: embedding_def)
  have "format_words src words best 0 ws [] =
      format_words src words best b (take l (drop b ws) @ drop (b + l) ws) (text_joined (map unat (take b ws)))"
    using format_first [of "take b ws" best words src "take l (drop b ws) @ drop (b + l) ws"] assms(1,3) e ws
    by (simp add: outside_def)
  also have "\<dots> = format_words src words best (b + l) (drop (b + l) ws) (text_joined (map unat (take b ws)) @ [0x3a])"
    using format_run [of b "take l (drop b ws)" best True src words "drop (b + l) ws"] assms
    by (simp add: outside_def)
  finally show ?thesis .
qed

lemma format_after_run:
  assumes "best = \<lparr>run_base = int b, run_len = int l\<rparr>" and "2 \<le> l" and "b + l \<le> 6 \<Longrightarrow> \<not> embedding words best"
  shows "format_words src words best (b + l) vs tmp = Inr (tmp @ concat (map (\<lambda>n. 0x3a # hexadecimal n) (map unat vs)))"
  using format_colons [of "b + l" vs best words src "[]" tmp] assms by (auto simp: outside_def)

lemma format_embedded:
  assumes "best = \<lparr>run_base = 0, run_len = int l\<rparr>" and "embedding words best" and "l \<le> 6" and "2 \<le> l"
    and "List.length a = 16" and "List.length us = 6 - l" and "vs \<noteq> []" and "List.length tmp = 1"
  shows "format_words a words best l (us @ vs) tmp =
    Inr (tmp @ concat (map (\<lambda>n. 0x3a # hexadecimal n) (map unat us)) @ 0x3a # dotted (map unat (drop 12 a)))"
proof -
  let ?t = "tmp @ concat (map (\<lambda>n. 0x3a # hexadecimal n) (map unat us))"
  have l: "l = 5 \<or> l = 6" using assms(1-4) by (auto simp: embedding_def)
  have f: "format_words a words best l (us @ vs) tmp = format_words a words best 6 vs ?t"
    using format_colons [of l us best words a vs tmp] assms(1,3,4,6) by (auto simp: outside_def)
  have u: "List.length us \<le> 1" using l assms(6) by auto
  have h: "List.length (hexadecimal (unat w)) \<le> 8" for w :: u32
    using hexadecimal_length [of "unat w" 7] unat_u32_less [of w] by simp
  have len: "List.length ?t \<le> 10" using u assms(8) h by (cases us) auto
  obtain v vs' where v: "vs = v # vs'" using assms(7) by (cases vs) auto
  let ?room = "UV__INET6_ADDRSTRLEN - List.length (?t @ [0x3a])"
  let ?d = "dotted (map unat (drop 12 a))"
  have d: "List.length (drop 12 a) = 4" using assms(5) by simp
  have "inet_ntop4 (drop 12 a) (replicate ?room 0) ?room = (0, ?d @ 0 # drop (Suc (List.length ?d)) (replicate ?room 0))"
    using inet_ntop4_text(1) [OF d, of ?room "replicate ?room 0"] inet_ntop4_text(2) [OF d, of 0 "[]"] len
    by (simp add: UV__INET6_ADDRSTRLEN_def)
  moreover have "cstr (?d @ 0 # drop (Suc (List.length ?d)) (replicate ?room 0)) = ?d"
    by (rule cstr_append_0 [OF inet_ntop4_text(3) [OF d, of 0 "[]"]]) simp
  moreover have "outside best 6" using l assms(1) by (auto simp: outside_def)
  ultimately show ?thesis unfolding f unfolding v using assms(2) by (simp add: format_octets Let_def del: format_words.simps(2))
qed

text \<open>The text the code writes, before it is copied to the caller's buffer.\<close>

definition inet6_tmp :: "u8 list \<Rightarrow> u8 list option" where
  "inet6_tmp a =
     (let words = inet6_words a; best = best_run words
      in case format_words a words best 0 words [] of
           Inl err \<Rightarrow> None
         | Inr tmp \<Rightarrow> Some (if run_base best \<noteq> -1 \<and> run_base best + run_len best = 8 then tmp @ [0x3a] else tmp))"

lemma length_inet6_words [simp]: "List.length (inet6_words a) = 8"
  using arg_cong [OF inet6_words_eq, of List.length a] by (simp add: address_words_def)

lemma nth_address_words: "j < 8 \<Longrightarrow> address_words a ! j = unat (inet6_words a ! j)"
  using inet6_words_eq [of a] by (metis length_inet6_words nth_map)

lemma drop_address_words: "List.length a = 16 \<Longrightarrow> drop 12 a = concat (map (be_bytes 2) (drop 6 (address_words a)))"
proof -
  assume a: "List.length a = 16"
  have l: "List.length (address_words a) = 8" by (simp add: address_words_def)
  have "a = concat (map (be_bytes 2) (take 6 (address_words a))) @ concat (map (be_bytes 2) (drop 6 (address_words a)))"
    using address_words_bytes [OF a] by (metis append_take_drop_id concat_append map_append)
  moreover have "List.length (concat (map (be_bytes 2) (take 6 (address_words a)))) = 12" using l by simp
  ultimately show ?thesis by (metis append_eq_conv_conj)
qed

lemma cut_after:
  assumes "b + l \<le> List.length ns"
  shows "concat (map (\<lambda>n. 0x3a # hexadecimal n) (drop (b + l) ns)) @ (if b + l = List.length ns then [0x3a] else []) =
    0x3a # text_joined (drop (b + l) ns)"
proof (cases "b + l = List.length ns")
  case False
  then have "drop (b + l) ns \<noteq> []" using assms by simp
  then show ?thesis using False text_joined_colons by simp
qed (simp add: text_joined_def)

lemma cut_before: "text_joined (take b ns) @ [0x3a] = (if b = 0 then [0x3a] else text_groups (take b ns))" if "b \<le> List.length ns"
  using text_joined_groups [of "take b ns"] that by (cases "b = 0") (auto simp: text_joined_def)

lemma inet6_tmp_run:
  assumes "List.length a = 16" and "best_run (inet6_words a) = \<lparr>run_base = int b, run_len = int l\<rparr>"
    and "2 \<le> l" and "b + l \<le> 8"
  shows "inet6_tmp a = Some (cut_text (address_words a) b l)"
proof -
  let ?w = "inet6_words a" and ?ns = "address_words a"
  let ?best = "\<lparr>run_base = int b, run_len = int l\<rparr>"
  have len: "List.length ?ns = 8" by (simp add: address_words_def)
  have t: "map unat (take b ?w) = take b ?ns" "map unat (drop k ?w) = drop k ?ns" for k
    by (simp_all add: take_map [symmetric] drop_map [symmetric] inet6_words_eq)
  have start: "format_words a ?w ?best 0 ?w [] =
      format_words a ?w ?best (b + l) (drop (b + l) ?w) ((if b = 0 then [0x3a] else text_groups (take b ?ns)))"
    using format_to_run [of ?best b l ?w a] assms(3,4) cut_before [of b ?ns] len by (simp add: t)
  have f5: "?w ! 5 = 0xffff \<longleftrightarrow> ?ns ! 5 = 0xffff" using nth_address_words [of 5 a] by (simp add: word_unat_eq_iff)
  show ?thesis
  proof (cases "embeds_ipv4 ?ns b l")
    case True
    then have b: "b = 0" and l: "l = 6 \<or> l = 5 \<and> ?ns ! 5 = 0xffff" by (auto simp: embeds_ipv4_def)
    let ?us = "take (6 - l) (drop l ?w)" and ?vs = "drop 6 ?w"
    have "drop (6 - l) (drop l ?w) = ?vs" using l by auto
    then have us: "drop l ?w = ?us @ ?vs" "List.length ?us = 6 - l" "?vs \<noteq> []"
      using l append_take_drop_id [of "6 - l" "drop l ?w"] by auto
    have e: "embedding ?w ?best" using l f5 by (auto simp: embedding_def b)
    have m: "map unat ?us = take (6 - l) (drop l ?ns)" by (simp add: take_map [symmetric] drop_map [symmetric] inet6_words_eq)
    have "format_words a ?w ?best l (?us @ ?vs) [0x3a] =
        Inr ([0x3a] @ concat (map (\<lambda>n. 0x3a # hexadecimal n) (map unat ?us)) @ 0x3a # dotted (map unat (drop 12 a)))"
      using l us e assms(1,3) by (intro format_embedded) (auto simp: b)
    moreover have "concat (map (\<lambda>n. 0x3a # hexadecimal n) (map unat ?us)) @ [0x3a] = 0x3a # text_groups (take (6 - l) (drop l ?ns))"
      unfolding m by (rule colons_groups)
    ultimately have "format_words a ?w ?best l (?us @ ?vs) [0x3a] =
        Inr ([0x3a, 0x3a] @ text_groups (take (6 - l) (drop l ?ns)) @ dotted (map unat (drop 12 a)))" by simp
    then show ?thesis using start l True us(1) by (auto simp: inet6_tmp_def assms(2) b cut_text_def drop_address_words [OF assms(1)])
  next
    case False
    then have "b + l \<le> 6 \<Longrightarrow> \<not> embedding ?w ?best" using assms(3) f5 by (auto simp: embeds_ipv4_def embedding_def)
    then have "format_words a ?w ?best 0 ?w [] = Inr ((if b = 0 then [0x3a] else text_groups (take b ?ns)) @
        concat (map (\<lambda>n. 0x3a # hexadecimal n) (drop (b + l) ?ns)))"
      unfolding start using assms(3) by (subst format_after_run [of ?best b l]) (simp_all add: t)
    moreover have "int b + int l = 8 \<longleftrightarrow> b + l = List.length ?ns" unfolding len by linarith
    ultimately show ?thesis using cut_after [of b l ?ns] assms(4) len False
      by (cases "b + l = List.length ?ns") (simp_all add: inet6_tmp_def assms(2) cut_text_def Let_def)
  qed
qed

lemma inet6_tmp_whole:
  assumes "run_base (best_run (inet6_words a)) = -1"
  shows "inet6_tmp a = Some (text_joined (address_words a))"
  using assms by (simp add: inet6_tmp_def Let_def format_whole inet6_words_eq)

section \<open>What is printed is what is parsed\<close>

lemma pton6_cut_text:
  assumes "List.length ns = 8" and "\<forall>n\<in>set ns. n < 65536" and "2 \<le> l" and "b + l \<le> 8"
    and "\<And>j. b \<le> j \<Longrightarrow> j < b + l \<Longrightarrow> ns ! j = 0"
  shows "inet_pton6 (cut_text ns b l) = Inr (concat (map (be_bytes 2) ns))"
proof -
  let ?us = "take b ns" and ?vs = "drop (b + l) ns"
  have bounds: "\<forall>u\<in>set ?us. u < 65536" "\<forall>u\<in>set ?vs. u < 65536"
    using assms(2) by (auto dest: in_set_takeD in_set_dropD)
  have lens: "List.length ?us = b" "List.length ?us + List.length ?vs = 8 - l" using assms(1,4) by simp_all
  have z: "take l (drop b ns) = replicate l 0"
    using assms(1,4,5) by (intro nth_equalityI) simp_all
  have ns: "?us @ replicate (8 - (List.length ?us + List.length ?vs)) 0 @ ?vs = ns"
    using z lens(2) assms(3,4) by (metis add.commute append_take_drop_id drop_drop diff_diff_cancel le_add2 order_trans)
  let ?tail = "if embeds_ipv4 ns b l
      then text_groups (take (6 - l) (drop l ns)) @ dotted (map unat (concat (map (be_bytes 2) (drop 6 ns))))
      else text_joined ?vs"
  have tail: "pton6_done (pton6_loop ?tail ?tail (p6_state ?us (Some (List.length ?us)))) =
      pton6_finish (p6_state (?us @ ?vs) (Some (List.length ?us)))"
  proof (cases "embeds_ipv4 ns b l")
    case False
    then show ?thesis using pton6_joined [of ?us ?vs] lens(2) assms(3) bounds(2) by simp
  next
    case True
    then have b: "b = 0" and l: "l = 6 \<or> l = 5" by (auto simp: embeds_ipv4_def)
    let ?gs = "take (6 - l) (drop l ns)"
    have d: "drop l ns = ?gs @ drop 6 ns" using l append_take_drop_id [of "6 - l" "drop l ns"] by auto
    have two: "\<exists>x y. zs = [x, y]" if "List.length zs = 2" for zs :: "nat list"
      using that by (auto simp: length_Suc_conv numeral_2_eq_2)
    obtain x y where xy: "drop 6 ns = [x, y]" using two [of "drop 6 ns"] assms(1) by auto
    let ?t = "dotted (map unat (be_bytes 2 x @ be_bytes 2 y))"
    have ne: "?t \<noteq> []" by (simp add: be_bytes_2)
    have gl: "List.length ?gs = 6 - l" "\<forall>u\<in>set ?gs. u < 65536"
      using assms(1,2) l by (auto dest: in_set_takeD in_set_dropD)
    have "pton6_loop (text_groups ?gs @ ?t) (text_groups ?gs @ ?t) (p6_state [] (Some 0)) = pton6_loop ?t ?t (p6_state ?gs (Some 0))"
      using pton6_groups [of "[]" ?gs ?t _ "Some 0"] gl ne l by (cases "?gs = []") (auto simp: text_groups_def)
    moreover have "pton6_done (pton6_loop ?t ?t (p6_state ?gs (Some 0))) = pton6_finish (p6_state (?gs @ [x, y]) (Some 0))"
      using gl(1) l by (intro pton6_dotted) auto
    ultimately show ?thesis using True b d xy by simp
  qed
  have "inet_pton6 (cut_text ns b l) = inet_pton6 ((if ?us = [] then [0x3a] else text_groups ?us) @ 0x3a # ?tail)"
    using assms(1) by (auto simp: cut_text_def)
  also have "\<dots> = Inr (concat (map (be_bytes 2) ns))"
    using inet_pton6_run [OF tail _ bounds(1)] lens(2) assms(3) unfolding ns by simp
  finally show ?thesis .
qed

text \<open>The characters of an address: no NUL ends the text early and no percent sign cuts it.\<close>

definition plain_text :: "u8 list \<Rightarrow> bool" where
  "plain_text t \<longleftrightarrow> 0 \<notin> set t \<and> 0x25 \<notin> set t"

lemma plain_text_simps [simp]:
  "plain_text []" "plain_text (c # t) \<longleftrightarrow> c \<noteq> 0 \<and> c \<noteq> 0x25 \<and> plain_text t"
  "plain_text (t @ u) \<longleftrightarrow> plain_text t \<and> plain_text u"
  by (auto simp: plain_text_def)

lemma plain_hexadecimal [simp]: "plain_text (hexadecimal n)"
proof (induction n rule: hexadecimal.induct)
  case (1 n)
  have "hex_digit d \<noteq> 0 \<and> hex_digit d \<noteq> 0x25" if "d < 16" for d
    using strchr_xdigits [OF that] by (auto simp: xdigits_l_def digits_def)
  then show ?case using 1 by (cases "n < 16") (simp_all add: hexadecimal.simps [of n])
qed

lemma plain_groups [simp]: "plain_text (text_groups us)"
  by (induction us) (simp_all add: text_groups_def)

lemma plain_joined [simp]: "plain_text (text_joined us)"
  by (simp add: text_joined_def)

lemma hexadecimal_short: "n < 65536 \<Longrightarrow> List.length (hexadecimal n) \<le> 4"
  using hexadecimal_length [of n 3] by simp

lemma length_text_groups: "\<forall>u\<in>set us. u < 65536 \<Longrightarrow> List.length (text_groups us) \<le> 5 * List.length us"
proof (induction us)
  case (Cons u us)
  then show ?case using hexadecimal_short [of u] by (simp add: text_groups_def)
qed (simp add: text_groups_def)

lemma length_text_joined:
  assumes "\<forall>u\<in>set us. u < 65536"
  shows "List.length (text_joined us) \<le> 5 * List.length us"
proof (cases us rule: rev_cases)
  case (snoc vs v)
  then show ?thesis using assms length_text_groups [of vs] hexadecimal_short [of v] by (simp add: text_joined_def)
qed (simp add: text_joined_def)

text \<open>What the printed text is, that it fits the array of the code, and that it is parsed back.\<close>

lemma inet6_tmp_ok:
  assumes "List.length a = 16"
  obtains t where "inet6_tmp a = Some t" and "List.length t \<le> 45" and "plain_text t" and "inet_pton6 t = Inr a"
proof -
  let ?ns = "address_words a"
  have len: "List.length ?ns = 8" by (simp add: address_words_def)
  have bounds: "\<forall>n\<in>set ?ns. n < 65536" using address_words_bounds by blast
  show thesis
  proof (cases rule: best_run_cases [OF refl, of "inet6_words a"])
    case 1
    note none = this
    have "inet_pton6 (text_joined ?ns) = Inr a"
      using inet_pton6_full [OF len bounds] address_words_bytes [OF assms] by simp
    then show ?thesis using that inet6_tmp_whole [OF none(1)] length_text_joined [OF bounds] len by simp
  next
    case (2 b l)
    note run = this
    then have bl: "b + l \<le> 8" by (simp add: zeros_def)
    have z: "?ns ! j = 0" if "b \<le> j" "j < b + l" for j
      using zeros_word [OF run(3) that] that(2) bl by (simp add: nth_address_words)
    have "inet_pton6 (cut_text ?ns b l) = Inr a"
      using pton6_cut_text [OF len bounds run(2) bl z] address_words_bytes [OF assms] by simp
    moreover have "List.length (cut_text ?ns b l) \<le> 45"
    proof -
      have g: "List.length (text_groups (take b ?ns)) \<le> 5 * b" 
        using length_text_groups [of "take b ?ns"] bounds len bl by (auto dest: in_set_takeD)
      have j: "List.length (text_joined (drop (b + l) ?ns)) \<le> 5 * (8 - (b + l))"
        using length_text_joined [of "drop (b + l) ?ns"] bounds len by (auto dest: in_set_dropD)
      have "List.length (text_groups (take (6 - l) (drop l ?ns))) \<le> 5 * (6 - l)"
        using length_text_groups [of "take (6 - l) (drop l ?ns)"] bounds len by (auto dest: in_set_takeD in_set_dropD)
      moreover have "List.length (dotted (map unat (drop 12 a))) \<le> 15"
        using inet_ntop4_text(2) [of "drop 12 a" 0 "[]"] assms by simp
      ultimately show ?thesis
        using g j bl run(2) by (auto simp: cut_text_def embeds_ipv4_def drop_address_words [OF assms, symmetric])
    qed
    moreover have "plain_text (dotted (map unat (drop 12 a)))"
      using inet_ntop4_text(3,4) [of "drop 12 a" 0 "[]"] assms by (simp add: plain_text_def)
    then have "plain_text (cut_text ?ns b l)" by (simp add: cut_text_def drop_address_words [OF assms, symmetric])
    ultimately show ?thesis using that inet6_tmp_run [OF assms run(1,2) bl] by simp
  qed
qed

lemma inet_ntop6_eq:
  assumes "inet6_tmp a = Some t" and "plain_text t" and "List.length t \<le> 45" and "sz \<le> List.length dst"
  shows "inet_ntop6 a dst sz =
    (if List.length t < sz then (0, t @ 0 # drop (Suc (List.length t)) dst)
     else if sz = 0 then (0, dst) else (UV_ENOSPC, take (sz - 1) t @ 0 # drop sz dst))"
proof -
  have z: "0 \<notin> set t" using assms(2) by (simp add: plain_text_def)
  obtain tmp where tmp: "format_words a (inet6_words a) (best_run (inet6_words a)) 0 (inet6_words a) [] = Inr tmp"
      "t = (let best = best_run (inet6_words a)
            in if run_base best \<noteq> -1 \<and> run_base best + run_len best = 8 then tmp @ [0x3a] else tmp)"
    using assms(1) by (auto simp: inet6_tmp_def Let_def split: sum.splits)
  have "inet_ntop6 a dst sz =
      (let (dst1, r) = uv__strscpy dst (t @ [0]) sz in if UV_E2BIG = r then (UV_ENOSPC, dst1) else (0, dst1))"
    by (simp add: inet_ntop6_def tmp Let_def)
  then show ?thesis using uv__strscpy_eq [OF z assms(4)] assms(3) by (simp add: SSIZE_MAX_def UV_E2BIG_def)
qed

lemma strchr_None: "strchr s c = None \<longleftrightarrow> c \<notin> set s"
  by (induction s) auto

lemma uv_inet_ntop6:
  assumes "List.length a = 16"
  obtains t where "inet6_tmp a = Some t" and "List.length t \<le> 45" and "0 \<notin> set t"
    and "uv_inet_pton AF_INET6 (Some t) = Inr a"
    and "\<And>sz dst. sz \<le> List.length dst \<Longrightarrow> uv_inet_ntop AF_INET6 a dst sz =
      (if List.length t < sz then (0, t @ 0 # drop (Suc (List.length t)) dst)
       else if sz = 0 then (0, dst) else (UV_ENOSPC, take (sz - 1) t @ 0 # drop sz dst))"
proof -
  obtain t where t: "inet6_tmp a = Some t" "List.length t \<le> 45" "plain_text t" "inet_pton6 t = Inr a"
    using inet6_tmp_ok [OF assms] .
  have "uv_inet_pton AF_INET6 (Some t) = Inr a"
    using t(3,4) strchr_None [of t "0x25"] by (simp add: uv_inet_pton_def plain_text_def AF_INET_def AF_INET6_def)
  moreover have "uv_inet_ntop AF_INET6 a dst sz =
      (if List.length t < sz then (0, t @ 0 # drop (Suc (List.length t)) dst)
       else if sz = 0 then (0, dst) else (UV_ENOSPC, take (sz - 1) t @ 0 # drop sz dst))" if "sz \<le> List.length dst" for sz dst
    using inet_ntop6_eq [OF t(1,3,2) that] by (simp add: uv_inet_ntop_def AF_INET_def AF_INET6_def)
  ultimately show ?thesis using that t by (simp add: plain_text_def)
qed

section \<open>Properties\<close>

text \<open>
  C29. An address printed by \<open>uv_inet_ntop\<close> into a buffer that is large enough for its family is read back by
  \<open>uv_inet_pton\<close> as the same bytes, for every IPv6 and every IPv4 address.
\<close>

theorem inet_text_roundtrip:
  assumes "List.length a = 16" and "List.length b = 4" and "46 \<le> sz" and "sz \<le> List.length dst"
  shows "(\<exists>d. uv_inet_ntop AF_INET6 a dst sz = (0, d) \<and> uv_inet_pton AF_INET6 (Some (cstr d)) = Inr a) \<and>
    (\<exists>d. uv_inet_ntop AF_INET b dst sz = (0, d) \<and> uv_inet_pton AF_INET (Some (cstr d)) = Inr b)"
proof
  obtain t where t: "List.length t \<le> 45" "0 \<notin> set t" "uv_inet_pton AF_INET6 (Some t) = Inr a"
      "uv_inet_ntop AF_INET6 a dst sz = (if List.length t < sz then (0, t @ 0 # drop (Suc (List.length t)) dst)
       else if sz = 0 then (0, dst) else (UV_ENOSPC, take (sz - 1) t @ 0 # drop sz dst))"
    using uv_inet_ntop6 [OF assms(1)] assms(4) by metis
  then show "\<exists>d. uv_inet_ntop AF_INET6 a dst sz = (0, d) \<and> uv_inet_pton AF_INET6 (Some (cstr d)) = Inr a"
    using assms(3) by (simp add: cstr_append_0)
  have "inet_pton4 (dotted (map unat b)) = Inr b" using assms(2) by (simp add: inet_pton4_iff)
  then show "\<exists>d. uv_inet_ntop AF_INET b dst sz = (0, d) \<and> uv_inet_pton AF_INET (Some (cstr d)) = Inr b"
    using inet_ntop4_text(1-3) [OF assms(2,4)] assms(3) by (simp add: uv_inet_ntop_def uv_inet_pton_def cstr_append_0)
qed

theorem inet_text_roundtrip_witness:
  "(\<exists>d. uv_inet_ntop AF_INET6 (replicate 15 0 @ [1]) (replicate 46 0) 46 = (0, d) \<and>
     uv_inet_pton AF_INET6 (Some (cstr d)) = Inr (replicate 15 0 @ [1])) \<and>
   (\<exists>d. uv_inet_ntop AF_INET [127, 0, 0, 1] (replicate 46 0) 46 = (0, d) \<and>
     uv_inet_pton AF_INET (Some (cstr d)) = Inr [127, 0, 0, 1])"
  by (rule inet_text_roundtrip) simp_all

text \<open>
  C30. \<open>uv_inet_pton\<close> accepts as an IPv4 address exactly the dotted texts of four octets, in decimal and without leading
  zeros, and stores those octets; so an address has one text.
\<close>

theorem inet_pton4_canonical:
  "uv_inet_pton AF_INET (Some s) = Inr r \<longleftrightarrow> List.length r = 4 \<and> s = dotted (map unat r)"
  by (simp add: uv_inet_pton_def inet_pton4_iff)

text \<open>
  C31. The text of an IPv6 address is the eight words in hexadecimal when no two neighbouring words are zero; otherwise the
  first of the longest runs of zero words is cut out, and the last two words are printed as an IPv4 address when the run is the
  first six words, or the first five in front of \<open>ffff\<close>.
\<close>

theorem inet6_cuts_longest_run:
  assumes "List.length a = 16" and "46 \<le> sz" and "sz \<le> List.length dst"
  shows "\<exists>d. uv_inet_ntop AF_INET6 a dst sz = (0, d) \<and>
    ((\<forall>b l. zeros (inet6_words a) b l \<longrightarrow> l < 2) \<and> cstr d = text_joined (address_words a) \<or>
     (\<exists>b l. 2 \<le> l \<and> zeros (inet6_words a) b l \<and>
        (\<forall>b' l'. zeros (inet6_words a) b' l' \<longrightarrow> l' < l \<or> l' = l \<and> b \<le> b') \<and> cstr d = cut_text (address_words a) b l))"
proof -
  obtain t where t: "inet6_tmp a = Some t" "List.length t \<le> 45" "0 \<notin> set t"
      "uv_inet_ntop AF_INET6 a dst sz = (if List.length t < sz then (0, t @ 0 # drop (Suc (List.length t)) dst)
       else if sz = 0 then (0, dst) else (UV_ENOSPC, take (sz - 1) t @ 0 # drop sz dst))"
    using uv_inet_ntop6 [OF assms(1)] assms(3) by metis
  then have d: "uv_inet_ntop AF_INET6 a dst sz = (0, t @ 0 # drop (Suc (List.length t)) dst)"
      "cstr (t @ 0 # drop (Suc (List.length t)) dst) = t"
    using assms(2) by (simp_all add: cstr_append_0)
  show ?thesis
  proof (cases rule: best_run_cases [OF refl, of "inet6_words a"])
    case 1
    then show ?thesis using d t(1) inet6_tmp_whole [OF 1(1)] by auto
  next
    case (2 b l)
    then have "t = cut_text (address_words a) b l"
      using t(1) inet6_tmp_run [OF assms(1) 2(1,2)] by (simp add: zeros_def)
    then show ?thesis using d 2(2-4) by blast
  qed
qed

theorem inet6_cuts_longest_run_witness:
  "\<exists>d. uv_inet_ntop AF_INET6 (replicate 15 0 @ [1]) (replicate 46 0) 46 = (0, d) \<and>
    ((\<forall>b l. zeros (inet6_words (replicate 15 0 @ [1])) b l \<longrightarrow> l < 2) \<and>
       cstr d = text_joined (address_words (replicate 15 0 @ [1])) \<or>
     (\<exists>b l. 2 \<le> l \<and> zeros (inet6_words (replicate 15 0 @ [1])) b l \<and>
        (\<forall>b' l'. zeros (inet6_words (replicate 15 0 @ [1])) b' l' \<longrightarrow> l' < l \<or> l' = l \<and> b \<le> b') \<and>
        cstr d = cut_text (address_words (replicate 15 0 @ [1])) b l))"
  by (rule inet6_cuts_longest_run) simp_all

text \<open>
  C32. A buffer that is too small: the IPv4 printer reports \<open>UV_ENOSPC\<close> and leaves the buffer alone; the IPv6 printer reports it
  too, but has written as much as fits, and it reports success without writing anything when the buffer has no bytes at all.
\<close>

theorem inet_ntop_short_buffer:
  assumes "List.length a = 16" and "List.length b = 4"
  shows "\<exists>t. inet6_tmp a = Some t \<and> List.length t \<le> 45 \<and>
    (\<forall>sz dst. sz \<le> List.length t \<and> sz \<le> List.length dst \<longrightarrow>
       uv_inet_ntop AF_INET6 a dst sz = (if sz = 0 then (0, dst) else (UV_ENOSPC, take (sz - 1) t @ 0 # drop sz dst))) \<and>
    (\<forall>sz dst. sz \<le> List.length (dotted (map unat b)) \<and> sz \<le> List.length dst \<longrightarrow>
       uv_inet_ntop AF_INET b dst sz = (UV_ENOSPC, dst))"
proof -
  obtain t where t: "inet6_tmp a = Some t" "List.length t \<le> 45"
      "\<And>sz dst. sz \<le> List.length dst \<Longrightarrow> uv_inet_ntop AF_INET6 a dst sz =
        (if List.length t < sz then (0, t @ 0 # drop (Suc (List.length t)) dst)
         else if sz = 0 then (0, dst) else (UV_ENOSPC, take (sz - 1) t @ 0 # drop sz dst))"
    using uv_inet_ntop6 [OF assms(1)] by metis
  have "uv_inet_ntop AF_INET b dst sz = (UV_ENOSPC, dst)"
    if "sz \<le> List.length (dotted (map unat b))" "sz \<le> List.length dst" for sz dst
    using inet_ntop4_text(1) [OF assms(2) that(2)] that(1) by (simp add: uv_inet_ntop_def)
  then show ?thesis using t by (intro exI [of _ t]) simp
qed

theorem inet_ntop_short_buffer_witness:
  "\<exists>t. inet6_tmp (replicate 16 1) = Some t \<and> List.length t \<le> 45 \<and>
    (\<forall>sz dst. sz \<le> List.length t \<and> sz \<le> List.length dst \<longrightarrow>
       uv_inet_ntop AF_INET6 (replicate 16 1) dst sz = (if sz = 0 then (0, dst) else (UV_ENOSPC, take (sz - 1) t @ 0 # drop sz dst))) \<and>
    (\<forall>sz dst. sz \<le> List.length (dotted (map unat [127, 0, 0, 1 :: u8])) \<and> sz \<le> List.length dst \<longrightarrow>
       uv_inet_ntop AF_INET [127, 0, 0, 1] dst sz = (UV_ENOSPC, dst))"
  by (rule inet_ntop_short_buffer) simp_all

end
