(* ===== verification/Bn_Words.thy ===== *)
theory Bn_Words
  imports Crypto_Mem Byte_Memory
begin

text \<open>
  \<^verbatim>\<open>crypto/fipsmodule/bn/generic.c\<close>: the word loops under the big numbers, as they are compiled for the 64-bit targets without
  assembly, with \<^verbatim>\<open>BN_ULLONG\<close> a 128-bit integer. A \<^verbatim>\<open>BIGNUM\<close> lives at an address of a store, together with its array of words, so
  that the functions can be called with the same number as an input and as the result.
\<close>

section \<open>Numbers in a store\<close>

type_synonym u128 = "128 word"

text \<open>\<^verbatim>\<open>dmax\<close> is the length of the array \<open>bn_d\<close>; \<^verbatim>\<open>neg\<close> is 0 or 1.\<close>

record bignum =
  bn_d :: "u64 list"
  bn_width :: nat
  bn_neg :: bool
  bn_flags :: u32

type_synonym bn_store = "nat \<Rightarrow> bignum"

definition wd :: "bn_store \<Rightarrow> nat \<Rightarrow> nat \<Rightarrow> u64" where
  "wd S p i = bn_d (S p) ! i"

definition set_wd :: "nat \<Rightarrow> nat \<Rightarrow> u64 \<Rightarrow> bn_store \<Rightarrow> bn_store" where
  "set_wd p i w S = S(p := (S p)\<lparr>bn_d := (bn_d (S p))[i := w]\<rparr>)"

section \<open>The loops\<close>

text \<open>The loops take four words at a time while four are left, then one.\<close>

function words_loop :: "(nat \<Rightarrow> 's \<Rightarrow> 's) \<Rightarrow> nat \<Rightarrow> nat \<Rightarrow> 's \<Rightarrow> 's" where
  "words_loop step i n s =
     (if n \<ge> 4 then words_loop step (i + 4) (n - 4) (step (i + 3) (step (i + 2) (step (i + 1) (step i s))))
      else if n \<noteq> 0 then words_loop step (i + 1) (n - 1) (step i s)
      else s)"
  by pat_completeness auto

termination words_loop
  by (relation "measure (\<lambda>(_, _, n, _). n)") auto

definition Lw :: "u128 \<Rightarrow> u64" where "Lw t = ucast t"

definition Hw :: "u128 \<Rightarrow> u64" where "Hw t = ucast (drop_bit 64 t)"

definition mul_add_step :: "nat \<Rightarrow> nat \<Rightarrow> nat \<Rightarrow> u64 \<Rightarrow> nat \<Rightarrow> u64 \<times> bn_store \<Rightarrow> u64 \<times> bn_store" where
  "mul_add_step r off a w i = (\<lambda>(c, S).
     let t = ucast w * ucast (wd S a i) + ucast (wd S r (off + i)) + ucast c :: u128
     in (Hw t, set_wd r (off + i) (Lw t) S))"

definition mul_step :: "nat \<Rightarrow> nat \<Rightarrow> u64 \<Rightarrow> nat \<Rightarrow> u64 \<times> bn_store \<Rightarrow> u64 \<times> bn_store" where
  "mul_step r a w i = (\<lambda>(c, S).
     let t = ucast w * ucast (wd S a i) + ucast c :: u128
     in (Hw t, set_wd r i (Lw t) S))"

definition add_step :: "nat \<Rightarrow> nat \<Rightarrow> nat \<Rightarrow> nat \<Rightarrow> u128 \<times> bn_store \<Rightarrow> u128 \<times> bn_store" where
  "add_step r a b i = (\<lambda>(ll, S).
     let ll1 = ll + (ucast (wd S a i) + ucast (wd S b i))
     in (drop_bit 64 ll1, set_wd r i (ucast ll1) S))"

definition sub_step :: "nat \<Rightarrow> nat \<Rightarrow> nat \<Rightarrow> nat \<Rightarrow> u64 \<times> bn_store \<Rightarrow> u64 \<times> bn_store" where
  "sub_step r a b i = (\<lambda>(c, S).
     let t1 = wd S a i; t2 = wd S b i
     in (if t1 \<noteq> t2 then (if t1 < t2 then 1 else 0) else c, set_wd r i (t1 - t2 - c) S))"

text \<open>The result is written behind the first \<open>off\<close> words of \<open>r\<close>.\<close>

definition bn_mul_add_words :: "nat \<Rightarrow> nat \<Rightarrow> nat \<Rightarrow> nat \<Rightarrow> u64 \<Rightarrow> bn_store \<Rightarrow> u64 \<times> bn_store" where
  "bn_mul_add_words r off a n w S = (if n = 0 then (0, S) else words_loop (mul_add_step r off a w) 0 n (0, S))"

definition bn_mul_words :: "nat \<Rightarrow> nat \<Rightarrow> nat \<Rightarrow> u64 \<Rightarrow> bn_store \<Rightarrow> u64 \<times> bn_store" where
  "bn_mul_words r a n w S = (if n = 0 then (0, S) else words_loop (mul_step r a w) 0 n (0, S))"

definition bn_add_words :: "nat \<Rightarrow> nat \<Rightarrow> nat \<Rightarrow> nat \<Rightarrow> bn_store \<Rightarrow> u64 \<times> bn_store" where
  "bn_add_words r a b n S =
     (if n = 0 then (0, S)
      else (let (ll, S1) = words_loop (add_step r a b) 0 n (0, S) in (ucast ll, S1)))"

definition bn_sub_words :: "nat \<Rightarrow> nat \<Rightarrow> nat \<Rightarrow> nat \<Rightarrow> bn_store \<Rightarrow> u64 \<times> bn_store" where
  "bn_sub_words r a b n S = (if n = 0 then (0, S) else words_loop (sub_step r a b) 0 n (0, S))"

section \<open>The value of words\<close>

primrec words_val :: "u64 list \<Rightarrow> nat" where
  "words_val [] = 0"
| "words_val (w # ws) = unat w + 2 ^ 64 * words_val ws"

lemma words_val_append: "words_val (xs @ ys) = words_val xs + 2 ^ (64 * List.length xs) * words_val ys"
  by (induction xs) (simp_all add: algebra_simps power_add)

lemma words_val_less: "words_val ws < 2 ^ (64 * List.length ws)"
proof (induction ws)
  case (Cons w ws)
  have "unat w + 2 ^ 64 * words_val ws < 2 ^ 64 * (words_val ws + 1)" using unat_u64_less [of w] by simp
  also have "\<dots> \<le> 2 ^ 64 * 2 ^ (64 * List.length ws)" using Cons by (intro mult_left_mono) simp_all
  finally show ?case by (simp add: power_add)
qed simp

lemma words_val_zeros [simp]: "words_val (replicate n 0) = 0"
  by (induction n) simp_all

lemma words_val_eq_0: "words_val ws = 0 \<longleftrightarrow> set ws \<subseteq> {0}"
  by (induction ws) (auto simp: unsigned_eq_0_iff)

lemma words_val_split: "k \<le> List.length ws \<Longrightarrow> words_val ws = words_val (take k ws) + 2 ^ (64 * k) * words_val (drop k ws)"
  using words_val_append [of "take k ws" "drop k ws"] by simp

section \<open>What a loop over words does\<close>

lemma words_loop_fold: "words_loop step i n s = fold step [i..<i + n] s"
proof (induction step i n s rule: words_loop.induct)
  case (1 step i n s)
  show ?case
  proof (cases "n \<ge> 4")
    case True
    then obtain m where m: "n = 4 + m" using le_Suc_ex by blast
    have "[i..<i + n] = i # (i + 1) # (i + 2) # (i + 3) # [i + 4..<i + 4 + m]"
      unfolding m by (simp add: upt_conv_Cons numeral_eq_Suc)
    then show ?thesis using 1(1) [OF True] by (subst words_loop.simps) (simp add: m True)
  next
    case False
    then show ?thesis using 1(2) [OF False] by (subst words_loop.simps) (auto simp: upt_rec [of i])
  qed
qed

declare words_loop.simps [simp del]

text \<open>The words a step function computes one after the other, passing on a carry.\<close>

fun word_chain :: "(u64 \<Rightarrow> u64 \<Rightarrow> u64 \<Rightarrow> 'c \<Rightarrow> u64 \<times> 'c) \<Rightarrow> u64 list \<Rightarrow> u64 list \<Rightarrow> u64 list \<Rightarrow> 'c \<Rightarrow> u64 list \<times> 'c" where
  "word_chain f (x # xs) (y # ys) (z # zs) c =
     (let (w, c1) = f x y z c; (ws, c2) = word_chain f xs ys zs c1 in (w # ws, c2))"
| "word_chain f xs ys zs c = ([], c)"

lemma length_word_chain:
  "List.length ys = List.length xs \<Longrightarrow> List.length zs = List.length xs \<Longrightarrow>
     List.length (fst (word_chain f xs ys zs c)) = List.length xs"
proof (induction f xs ys zs c rule: word_chain.induct)
  case (1 f x xs y ys z zs c)
  then show ?case by (cases "f x y z c"; cases "word_chain f xs ys zs (snd (f x y z c))") (simp; metis fst_conv)
qed simp_all

definition with_words :: "nat \<Rightarrow> u64 list \<Rightarrow> bn_store \<Rightarrow> bn_store" where
  "with_words r ws S = S(r := (S r)\<lparr>bn_d := ws\<rparr>)"

lemma with_words_set [simp]: "with_words r u (set_wd r i w S) = with_words r u S"
  by (simp add: with_words_def set_wd_def)

lemma word_chain_Cons:
  assumes "word_chain f (x # xs) (y # ys) (z # zs) c = (ws, c2)"
  obtains w c1 ws' where "f x y z c = (w, c1)" and "word_chain f xs ys zs c1 = (ws', c2)" and "ws = w # ws'"
  using assms by (auto split: prod.splits)

lemma fold_word_chain:
  assumes step: "\<And>i c S. step i (c, S) =
      (let (w, c1) = f (wd S a i) (wd S b i) (wd S r (off + i)) c in (c1, set_wd r (off + i) w S))"
    and apart: "off = 0 \<or> r \<noteq> a \<and> r \<noteq> b"
  shows "i + n \<le> List.length (bn_d (S a)) \<Longrightarrow> i + n \<le> List.length (bn_d (S b)) \<Longrightarrow> off + i + n \<le> List.length (bn_d (S r)) \<Longrightarrow>
    fold step [i..<i + n] (c, S) =
    (let (ws, c1) = word_chain f (take n (drop i (bn_d (S a)))) (take n (drop i (bn_d (S b)))) (take n (drop (off + i) (bn_d (S r)))) c
     in (c1, with_words r (take (off + i) (bn_d (S r)) @ ws @ drop (off + i + n) (bn_d (S r))) S))"
proof (induction n arbitrary: i c S)
  case 0
  have "with_words r (bn_d (S r)) S = S" by (simp add: with_words_def)
  then show ?case by simp
next
  case (Suc n)
  let ?d = "bn_d (S r)" and ?k = "off + i"
  obtain w c1 where w: "f (wd S a i) (wd S b i) (wd S r ?k) c = (w, c1)" by fastforce
  let ?S = "set_wd r ?k w S"
  have arr: "bn_d (?S p) = (if p = r then ?d[?k := w] else bn_d (S p))" for p by (simp add: set_wd_def)
  have rest: "drop (Suc i) (bn_d (?S p)) = drop (Suc i) (bn_d (S p))" if "off = 0 \<or> r \<noteq> p" for p using that by (auto simp: arr)
  have split: "take (Suc n) (drop j xs) = xs ! j # take n (drop (Suc j) xs)" if "j + Suc n \<le> List.length xs" for j and xs :: "u64 list"
    using that by (simp add: Cons_nth_drop_Suc [symmetric])
  have "fold step [i..<i + Suc n] (c, S) = fold step [Suc i..<Suc i + n] (c1, ?S)"
    by (simp add: upt_conv_Cons step w del: upt_Suc)
  also have "\<dots> = (let (ws, c2) = word_chain f (take n (drop (Suc i) (bn_d (S a)))) (take n (drop (Suc i) (bn_d (S b))))
        (take n (drop (Suc ?k) ?d)) c1
     in (c2, with_words r (take (Suc ?k) (?d[?k := w]) @ ws @ drop (Suc ?k + n) ?d) ?S))"
    using Suc.IH [of "Suc i" ?S c1] Suc.prems apart rest [of a] rest [of b] by (auto simp: arr)
  also have "take (Suc ?k) (?d[?k := w]) = take ?k ?d @ [w]"
    using Suc.prems by (simp add: take_Suc_conv_app_nth)
  finally show ?case
    using Suc.prems w by (simp add: with_words_set split wd_def add.commute [of n] split: prod.splits)
qed

lemma word_chain_store:
  assumes step: "\<And>i c S. step i (c, S) =
      (let (w, c1) = f (wd S a i) (wd S b i) (wd S r (off + i)) c in (c1, set_wd r (off + i) w S))"
    and "off = 0 \<or> r \<noteq> a \<and> r \<noteq> b" and "i + n \<le> List.length (bn_d (S a))" and "i + n \<le> List.length (bn_d (S b))"
    and "off + i + n \<le> List.length (bn_d (S r))"
  obtains ws c1 where
    "word_chain f (take n (drop i (bn_d (S a)))) (take n (drop i (bn_d (S b)))) (take n (drop (off + i) (bn_d (S r)))) c = (ws, c1)"
    and "fold step [i..<i + n] (c, S) = (c1, with_words r (take (off + i) (bn_d (S r)) @ ws @ drop (off + i + n) (bn_d (S r))) S)"
    and "List.length ws = n"
proof -
  let ?ch = "word_chain f (take n (drop i (bn_d (S a)))) (take n (drop i (bn_d (S b)))) (take n (drop (off + i) (bn_d (S r)))) c"
  have "List.length (fst ?ch) = n" using assms(3-5) by (subst length_word_chain) simp_all
  then show thesis
    using that [of "fst ?ch" "snd ?ch"] fold_word_chain [of step f, OF step assms(2-5)] by (simp add: case_prod_beta)
qed

section \<open>The arithmetic of the loops\<close>

lemma unat_u128_low: "unat (ucast (t :: u128) :: u64) = unat t mod 2 ^ 64"
  by (simp add: unsigned_ucast_eq take_bit_eq_mod)

lemma unat_u128_up: "unat (ucast (w :: u64) :: u128) = unat w"
  by (simp add: unat_ucast_up)

lemma unat_u128_high: "unat (ucast (drop_bit 64 (t :: u128)) :: u64) = unat t div 2 ^ 64"
proof -
  have "unat t div 2 ^ 64 < 2 ^ 64" using unsigned_less [of t] by (intro less_mult_imp_div_less) simp
  then show ?thesis by (simp add: unat_u128_low unat_drop_bit)
qed

lemma mul_add_bound:
  "(a :: nat) < 2 ^ 64 \<Longrightarrow> w < 2 ^ 64 \<Longrightarrow> r < 2 ^ 64 \<Longrightarrow> c < 2 ^ 64 \<Longrightarrow> w * a + r + c < 2 ^ 128"
proof -
  assume b: "a < 2 ^ 64" "w < 2 ^ 64" "r < 2 ^ 64" "c < 2 ^ 64"
  have "w * a \<le> (2 ^ 64 - 1) * (2 ^ 64 - 1)" using b by (intro mult_mono) simp_all
  then show ?thesis using b by simp
qed

lemma unat_mul_add:
  "unat (ucast (w :: u64) * ucast (a :: u64) + ucast (r :: u64) + ucast (c :: u64) :: u128) = unat w * unat a + unat r + unat c"
  using mul_add_bound [of "unat a" "unat w" "unat r" "unat c"]
  by (simp add: unat_word_ariths unat_u128_up unat_u64_less)

definition mul_add_words :: "u64 \<Rightarrow> u64 \<Rightarrow> u64 \<Rightarrow> u64 \<Rightarrow> u64 \<Rightarrow> u64 \<times> u64" where
  "mul_add_words w x y z c = (let t = ucast w * ucast x + ucast z + ucast c :: u128 in (Lw t, Hw t))"

definition add_words2 :: "u64 \<Rightarrow> u64 \<Rightarrow> u64 \<Rightarrow> u128 \<Rightarrow> u64 \<times> u128" where
  "add_words2 x y z c = (let t = c + (ucast x + ucast y) in (ucast t, drop_bit 64 t))"

definition sub_words2 :: "u64 \<Rightarrow> u64 \<Rightarrow> u64 \<Rightarrow> u64 \<Rightarrow> u64 \<times> u64" where
  "sub_words2 x y z c = (x - y - c, if x \<noteq> y then (if x < y then 1 else 0) else c)"

lemma chain_mul_add:
  "List.length ys = List.length xs \<Longrightarrow> List.length zs = List.length xs \<Longrightarrow> word_chain (mul_add_words w) xs ys zs c = (ws, c1) \<Longrightarrow>
     words_val ws + 2 ^ (64 * List.length xs) * unat c1 = unat w * words_val xs + words_val zs + unat c"
proof (induction xs arbitrary: ys zs c ws)
  case (Cons x xs)
  obtain y ys' z zs' where l: "ys = y # ys'" "zs = z # zs'" using Cons.prems(1,2) by (cases ys; cases zs) auto
  let ?t = "ucast w * ucast x + ucast z + ucast c :: u128"
  obtain v c' ws' where o': "mul_add_words w x y z c = (v, c')" "word_chain (mul_add_words w) xs ys' zs' c' = (ws', c1)" "ws = v # ws'"
    by (rule word_chain_Cons [OF Cons.prems(3) [unfolded l]])
  have "v = Lw ?t" "c' = Hw ?t" using o'(1) by (simp_all add: mul_add_words_def Let_def)
  with o' have r: "word_chain (mul_add_words w) xs ys' zs' (Hw ?t) = (ws', c1)" "ws = Lw ?t # ws'" by simp_all
  have IH: "words_val ws' + 2 ^ (64 * List.length xs) * unat c1 = unat w * words_val xs + words_val zs' + unat (Hw ?t)"
    using Cons.IH [OF _ _ r(1)] Cons.prems(1,2) by (simp add: l)
  have t: "unat (Lw ?t) + 2 ^ 64 * unat (Hw ?t) = unat w * unat x + unat z + unat c"
  proof -
    have "unat (Hw ?t) = (unat w * unat x + unat z + unat c) div 2 ^ 64" by (simp only: Hw_def unat_u128_high unat_mul_add)
    moreover have "unat (Lw ?t) = (unat w * unat x + unat z + unat c) mod 2 ^ 64"
      by (simp only: Lw_def unat_u128_low unat_mul_add)
    ultimately show ?thesis by simp
  qed
  have "words_val ws + 2 ^ (64 * List.length (x # xs)) * unat c1 =
      unat (Lw ?t) + 2 ^ 64 * (words_val ws' + 2 ^ (64 * List.length xs) * unat c1)"
    by (simp add: r(2) power_add algebra_simps)
  also have "\<dots> = unat w * unat x + unat z + unat c + 2 ^ 64 * (unat w * words_val xs + words_val zs')"
    unfolding IH using t by (simp add: algebra_simps)
  finally show ?case by (simp add: l algebra_simps)
qed simp


lemma unat_add_pair:
  assumes "unat c \<le> 1"
  shows "unat (c + (ucast (x :: u64) + ucast (y :: u64)) :: u128) = unat x + unat y + unat c"
  using assms unat_u64_less [of x] unat_u64_less [of y] by (simp add: unat_word_ariths unat_u128_up)

lemma chain_add:
  "List.length ys = List.length xs \<Longrightarrow> List.length zs = List.length xs \<Longrightarrow> unat c \<le> 1 \<Longrightarrow>
     word_chain add_words2 xs ys zs c = (ws, c1) \<Longrightarrow>
     words_val ws + 2 ^ (64 * List.length xs) * unat c1 = words_val xs + words_val ys + unat c \<and> unat c1 \<le> 1"
proof (induction xs arbitrary: ys zs c ws)
  case (Cons x xs)
  obtain y ys' z zs' where l: "ys = y # ys'" "zs = z # zs'" using Cons.prems(1,2) by (cases ys; cases zs) auto
  let ?t = "c + (ucast x + ucast y) :: u128"
  obtain v c' ws' where o': "add_words2 x y z c = (v, c')" "word_chain add_words2 xs ys' zs' c' = (ws', c1)" "ws = v # ws'"
    by (rule word_chain_Cons [OF Cons.prems(4) [unfolded l]])
  have "v = ucast ?t" "c' = drop_bit 64 ?t" using o'(1) by (simp_all add: add_words2_def Let_def)
  with o' have r: "word_chain add_words2 xs ys' zs' (drop_bit 64 ?t) = (ws', c1)" "ws = ucast ?t # ws'" by simp_all
  have u: "unat ?t = unat x + unat y + unat c" by (rule unat_add_pair [OF Cons.prems(3)])
  then have "unat ?t < 2 * 2 ^ 64" using unat_u64_less [of x] unat_u64_less [of y] Cons.prems(3) by simp
  then have c: "unat (drop_bit 64 ?t) \<le> 1" by (simp add: unat_drop_bit less_Suc_eq_le [symmetric] less_mult_imp_div_less)
  have IH: "words_val ws' + 2 ^ (64 * List.length xs) * unat c1 = words_val xs + words_val ys' + unat (drop_bit 64 ?t) \<and> unat c1 \<le> 1"
    using Cons.IH [OF _ _ c r(1)] Cons.prems(1,2) by (simp add: l)
  have t: "unat (ucast ?t :: u64) + 2 ^ 64 * unat (drop_bit 64 ?t) = unat x + unat y + unat c"
    by (simp add: unat_u128_low unat_drop_bit u)
  have "words_val ws + 2 ^ (64 * List.length (x # xs)) * unat c1 =
      unat (ucast ?t :: u64) + 2 ^ 64 * (words_val ws' + 2 ^ (64 * List.length xs) * unat c1)"
    by (simp add: r(2) power_add algebra_simps)
  also have "\<dots> = unat x + unat y + unat c + 2 ^ 64 * (words_val xs + words_val ys')"
    using IH t by (simp add: algebra_simps)
  finally show ?case using IH by (simp add: l algebra_simps)
qed simp

lemma uint_sub_borrow:
  fixes x y c :: u64
  shows "uint (x - y - c) = (uint x - uint y - uint c) mod 2 ^ 64"
  by (simp add: uint_word_ariths mod_diff_left_eq)

lemma sub_words2_value:
  assumes "uint c \<le> 1" and "sub_words2 x y z c = (v, c1)"
  shows "uint v - 2 ^ 64 * uint c1 = uint x - uint y - uint c" and "uint c1 \<le> 1"
proof -
  have v: "uint v = (uint x - uint y - uint c) mod 2 ^ 64" and c1: "c1 = (if x \<noteq> y then (if x < y then 1 else 0) else c)"
    using assms(2) uint_sub_borrow [of x y c] by (simp_all add: sub_words2_def)
  have b: "0 \<le> uint x" "uint x < 2 ^ 64" "0 \<le> uint y" "uint y < 2 ^ 64" "0 \<le> uint c"
    using uint_bounded [of x] uint_bounded [of y] by simp_all
  have low: "t mod 2 ^ 64 = t + 2 ^ 64" if "- (2 ^ 64) \<le> t" "t < 0" for t :: int
    using that mod_add_self2 [of t "2 ^ 64"] by (metis add.commute add.right_inverse add_less_cancel_right add_mono_thms_linordered_semiring(2) add_0 mod_pos_pos_trivial)
  consider "x = y" "uint c = 0" | "x = y" "uint c = 1" | "x < y" | "y < x" using assms(1) b(5) by fastforce
  then show "uint v - 2 ^ 64 * uint c1 = uint x - uint y - uint c"
  proof cases
    case 3
    then have "uint x < uint y" by (simp add: word_less_def)
    then have "- (2 ^ 64) \<le> uint x - uint y - uint c" "uint x - uint y - uint c < 0" using b assms(1) by linarith+
    then show ?thesis using low 3 by (auto simp: v c1)
  next
    case 4
    then have "uint y < uint x" by (simp add: word_less_def)
    then have "0 \<le> uint x - uint y - uint c" "uint x - uint y - uint c < 2 ^ 64" using b assms(1) by linarith+
    then have "uint v = uint x - uint y - uint c" unfolding v by (rule mod_pos_pos_trivial)
    then show ?thesis using 4 by (auto simp: c1)
  qed (simp_all add: v c1)
  show "uint c1 \<le> 1" using assms(1) by (simp add: c1)
qed

lemma chain_sub:
  "List.length ys = List.length xs \<Longrightarrow> List.length zs = List.length xs \<Longrightarrow> uint c \<le> 1 \<Longrightarrow>
     word_chain sub_words2 xs ys zs c = (ws, c1) \<Longrightarrow>
     int (words_val ws) - 2 ^ (64 * List.length xs) * uint c1 = int (words_val xs) - int (words_val ys) - uint c \<and> uint c1 \<le> 1"
proof (induction xs arbitrary: ys zs c ws)
  case (Cons x xs)
  obtain y ys' z zs' where l: "ys = y # ys'" "zs = z # zs'" using Cons.prems(1,2) by (cases ys; cases zs) auto
  obtain v c' ws' where r: "sub_words2 x y z c = (v, c')" "word_chain sub_words2 xs ys' zs' c' = (ws', c1)" "ws = v # ws'"
    by (rule word_chain_Cons [OF Cons.prems(4) [unfolded l]])
  note v = sub_words2_value [OF Cons.prems(3) r(1)]
  have IH: "int (words_val ws') - 2 ^ (64 * List.length xs) * uint c1 = int (words_val xs) - int (words_val ys') - uint c' \<and> uint c1 \<le> 1"
    using Cons.IH [OF _ _ v(2) r(2)] Cons.prems(1,2) by (simp add: l)
  have "int (words_val ws) - 2 ^ (64 * List.length (x # xs)) * uint c1 =
      uint v + 2 ^ 64 * (int (words_val ws') - 2 ^ (64 * List.length xs) * uint c1)"
    by (simp add: r(3) power_add algebra_simps)
  also have "\<dots> = uint x - uint y - uint c + 2 ^ 64 * (int (words_val xs) - int (words_val ys'))"
    using IH v(1) by (simp add: algebra_simps)
  finally show ?case using IH by (simp add: l algebra_simps)
qed simp

section \<open>The functions\<close>

lemma chain_mul:
  "List.length ys = List.length xs \<Longrightarrow> List.length zs = List.length xs \<Longrightarrow>
     word_chain (\<lambda>x y z. mul_add_words w x y 0) xs ys zs c = word_chain (mul_add_words w) xs ys (replicate (List.length xs) 0) c"
proof (induction xs arbitrary: ys zs c)
  case (Cons x xs)
  then obtain y ys' z zs' where "ys = y # ys'" "zs = z # zs'" by (cases ys; cases zs) auto
  then show ?case using Cons by (simp split: prod.splits)
qed simp

lemma bn_add_words_spec:
  assumes "n \<le> List.length (bn_d (S a))" and "n \<le> List.length (bn_d (S b))" and "n \<le> List.length (bn_d (S r))"
  obtains ws c where "bn_add_words r a b n S = (c, with_words r (ws @ drop n (bn_d (S r))) S)" and "List.length ws = n"
    and "words_val ws + 2 ^ (64 * n) * unat c = words_val (take n (bn_d (S a))) + words_val (take n (bn_d (S b)))" and "unat c \<le> 1"
proof -
  have step: "add_step r a b i (c, S) =
      (let (w, c1) = add_words2 (wd S a i) (wd S b i) (wd S r (0 + i)) c in (c1, set_wd r (0 + i) w S))" for i c S
    by (simp add: add_step_def add_words2_def Let_def)
  obtain ws c1 where r: "word_chain add_words2 (take n (drop 0 (bn_d (S a)))) (take n (drop 0 (bn_d (S b)))) (take n (drop (0 + 0) (bn_d (S r)))) 0 = (ws, c1)"
    "fold (add_step r a b) [0..<0 + n] (0, S) = (c1, with_words r (take (0 + 0) (bn_d (S r)) @ ws @ drop (0 + 0 + n) (bn_d (S r))) S)"
    "List.length ws = n"
    by (rule word_chain_store [of "add_step r a b" add_words2 a b r 0 0 n S 0, OF step]) (use assms in simp_all)
  have v: "words_val ws + 2 ^ (64 * n) * unat c1 = words_val (take n (bn_d (S a))) + words_val (take n (bn_d (S b))) \<and> unat c1 \<le> 1"
    using chain_add [OF _ _ _ r(1)] assms by simp
  have "bn_add_words r a b n S = (ucast c1, with_words r (ws @ drop n (bn_d (S r))) S)"
    using r(2,3) by (cases "n = 0") (simp_all add: bn_add_words_def words_loop_fold with_words_def)
  moreover have "unat (ucast c1 :: u64) = unat c1" using v by (simp add: unat_u128_low)
  ultimately show thesis using that v r(3) by metis
qed

lemma bn_sub_words_spec:
  assumes "n \<le> List.length (bn_d (S a))" and "n \<le> List.length (bn_d (S b))" and "n \<le> List.length (bn_d (S r))"
  obtains ws c where "bn_sub_words r a b n S = (c, with_words r (ws @ drop n (bn_d (S r))) S)" and "List.length ws = n"
    and "int (words_val ws) - 2 ^ (64 * n) * uint c = int (words_val (take n (bn_d (S a)))) - int (words_val (take n (bn_d (S b))))"
    and "uint c \<le> 1"
proof -
  have step: "sub_step r a b i (c, S) =
      (let (w, c1) = sub_words2 (wd S a i) (wd S b i) (wd S r (0 + i)) c in (c1, set_wd r (0 + i) w S))" for i c S
    by (simp add: sub_step_def sub_words2_def Let_def)
  obtain ws c1 where r: "word_chain sub_words2 (take n (drop 0 (bn_d (S a)))) (take n (drop 0 (bn_d (S b)))) (take n (drop (0 + 0) (bn_d (S r)))) 0 = (ws, c1)"
    "fold (sub_step r a b) [0..<0 + n] (0, S) = (c1, with_words r (take (0 + 0) (bn_d (S r)) @ ws @ drop (0 + 0 + n) (bn_d (S r))) S)"
    "List.length ws = n"
    by (rule word_chain_store [of "sub_step r a b" sub_words2 a b r 0 0 n S 0, OF step]) (use assms in simp_all)
  have "bn_sub_words r a b n S = (c1, with_words r (ws @ drop n (bn_d (S r))) S)"
    using r by (cases "n = 0") (simp_all add: bn_sub_words_def words_loop_fold with_words_def)
  then show thesis using that [of c1 ws] chain_sub [OF _ _ _ r(1)] assms r(3) by simp
qed

lemma bn_mul_words_spec:
  assumes "n \<le> List.length (bn_d (S a))" and "n \<le> List.length (bn_d (S r))"
  obtains ws c where "bn_mul_words r a n w S = (c, with_words r (ws @ drop n (bn_d (S r))) S)" and "List.length ws = n"
    and "words_val ws + 2 ^ (64 * n) * unat c = unat w * words_val (take n (bn_d (S a)))"
proof -
  let ?f = "\<lambda>x y z. mul_add_words w x y 0"
  have step: "mul_step r a w i (c, S) =
      (let (v, c1) = ?f (wd S a i) (wd S a i) (wd S r (0 + i)) c in (c1, set_wd r (0 + i) v S))" for i c S
    by (simp add: mul_step_def mul_add_words_def Let_def)
  obtain ws c1 where r: "word_chain ?f (take n (drop 0 (bn_d (S a)))) (take n (drop 0 (bn_d (S a)))) (take n (drop (0 + 0) (bn_d (S r)))) 0 = (ws, c1)"
    "fold (mul_step r a w) [0..<0 + n] (0, S) = (c1, with_words r (take (0 + 0) (bn_d (S r)) @ ws @ drop (0 + 0 + n) (bn_d (S r))) S)"
    "List.length ws = n"
    by (rule word_chain_store [of "mul_step r a w" ?f a a r 0 0 n S 0, OF step]) (use assms in simp_all)
  have "word_chain (mul_add_words w) (take n (bn_d (S a))) (take n (bn_d (S a))) (replicate n 0) 0 = (ws, c1)"
    using r(1) assms by (subst (asm) chain_mul) simp_all
  then have "words_val ws + 2 ^ (64 * n) * unat c1 = unat w * words_val (take n (bn_d (S a)))"
    using chain_mul_add [of "take n (bn_d (S a))" "take n (bn_d (S a))" "replicate n 0" w 0 ws c1] assms by simp
  moreover have "bn_mul_words r a n w S = (c1, with_words r (ws @ drop n (bn_d (S r))) S)"
    using r by (cases "n = 0") (simp_all add: bn_mul_words_def words_loop_fold with_words_def)
  ultimately show thesis using that r(3) by blast
qed

lemma bn_mul_add_words_spec:
  assumes "n \<le> List.length (bn_d (S a))" and "off + n \<le> List.length (bn_d (S r))" and "off = 0 \<or> r \<noteq> a"
  obtains ws c where
    "bn_mul_add_words r off a n w S = (c, with_words r (take off (bn_d (S r)) @ ws @ drop (off + n) (bn_d (S r))) S)"
    and "List.length ws = n"
    and "words_val ws + 2 ^ (64 * n) * unat c = unat w * words_val (take n (bn_d (S a))) + words_val (take n (drop off (bn_d (S r))))"
proof -
  have step: "mul_add_step r off a w i (c, S) =
      (let (v, c1) = mul_add_words w (wd S a i) (wd S a i) (wd S r (off + i)) c in (c1, set_wd r (off + i) v S))" for i c S
    by (simp add: mul_add_step_def mul_add_words_def Let_def)
  obtain ws c1 where r: "word_chain (mul_add_words w) (take n (drop 0 (bn_d (S a)))) (take n (drop 0 (bn_d (S a)))) (take n (drop (off + 0) (bn_d (S r)))) 0 = (ws, c1)"
    "fold (mul_add_step r off a w) [0..<0 + n] (0, S) =
      (c1, with_words r (take (off + 0) (bn_d (S r)) @ ws @ drop (off + 0 + n) (bn_d (S r))) S)"
    "List.length ws = n"
    by (rule word_chain_store [of "mul_add_step r off a w" "mul_add_words w" a a r off 0 n S 0, OF step]) (use assms in simp_all)
  have "bn_mul_add_words r off a n w S = (c1, with_words r (take off (bn_d (S r)) @ ws @ drop (off + n) (bn_d (S r))) S)"
    using r by (cases "n = 0") (simp_all add: bn_mul_add_words_def words_loop_fold with_words_def)
  then show thesis using that [of c1 ws] chain_mul_add [OF _ _ r(1)] assms r(3) by simp
qed

end
