(* ===== verification/Bn.thy ===== *)
theory Bn
  imports Bn_Words Constant_Time
begin

text \<open>
  \<^verbatim>\<open>crypto/fipsmodule/bn/bn.c\<close>, \<^verbatim>\<open>add.c\<close> and \<^verbatim>\<open>cmp.c\<close>: big integers of any size as sign and magnitude. A function that may fail
  returns whether it succeeded and the store afterwards, on both outcomes. The results are shown to be those of integer
  arithmetic, also when the result is stored in one of the operands.
\<close>

section \<open>Fields and space\<close>

definition BN_BITS2 :: nat where "BN_BITS2 = 64"

definition BN_BYTES :: nat where "BN_BYTES = 8"

definition BN_FLG_STATIC_DATA :: u32 where "BN_FLG_STATIC_DATA = 2"

definition set_width :: "nat \<Rightarrow> nat \<Rightarrow> bn_store \<Rightarrow> bn_store" where
  "set_width p n S = S(p := (S p)\<lparr>bn_width := n\<rparr>)"

definition set_neg :: "nat \<Rightarrow> bool \<Rightarrow> bn_store \<Rightarrow> bn_store" where
  "set_neg p n S = S(p := (S p)\<lparr>bn_neg := n\<rparr>)"

text \<open>A fresh block of memory read as words.\<close>

definition block_words :: "u8 list \<Rightarrow> u64 list" where
  "block_words blk = map (\<lambda>i. le_load (take 8 (drop (8 * i) blk))) [0..<List.length blk div 8]"

definition bn_wexpand :: "sys_alloc \<Rightarrow> nat \<Rightarrow> nat \<Rightarrow> bn_store \<Rightarrow> bool \<times> bn_store" where
  "bn_wexpand al bn words S =
     (if words \<le> List.length (bn_d (S bn)) then (True, S)
      else if words > 2147483647 div (4 * BN_BITS2) then (False, S)
      else if bn_flags (S bn) AND BN_FLG_STATIC_DATA \<noteq> 0 then (False, S)
      else case OPENSSL_malloc al (8 * words) of
             None \<Rightarrow> (False, S)
           | Some a \<Rightarrow> (True, with_words bn (take (bn_width (S bn)) (bn_d (S bn)) @ drop (bn_width (S bn)) (block_words a)) S))"

definition bn_expand :: "sys_alloc \<Rightarrow> nat \<Rightarrow> nat \<Rightarrow> bn_store \<Rightarrow> bool \<times> bn_store" where
  "bn_expand al bn bits S =
     (if (bits + BN_BITS2 - 1) mod SIZE_LIMIT < bits then (False, S)
      else bn_wexpand al bn ((bits + BN_BITS2 - 1) mod SIZE_LIMIT div BN_BITS2) S)"

text \<open>The rest of a function behind a call that has to succeed.\<close>

definition bn_then :: "bool \<times> bn_store \<Rightarrow> (bn_store \<Rightarrow> bool \<times> bn_store) \<Rightarrow> bool \<times> bn_store" where
  "bn_then res k = (case res of (ret, S) \<Rightarrow> if ret then k S else (False, S))"

definition BN_init :: "nat \<Rightarrow> bn_store \<Rightarrow> bn_store" where
  "BN_init bn S = S(bn := \<lparr>bn_d = [], bn_width = 0, bn_neg = False, bn_flags = 0\<rparr>)"

definition BN_copy :: "sys_alloc \<Rightarrow> nat \<Rightarrow> nat \<Rightarrow> bn_store \<Rightarrow> bool \<times> bn_store" where
  "BN_copy al dest src S =
     (if src = dest then (True, S)
      else bn_then (bn_wexpand al dest (bn_width (S src)) S) (\<lambda>S.
        (let n = bn_width (S src);
             S1 = with_words dest (take n (bn_d (S src)) @ drop n (bn_d (S dest))) S
         in (True, set_neg dest (bn_neg (S src)) (set_width dest n S1)))))"

definition BN_clear :: "nat \<Rightarrow> bn_store \<Rightarrow> bn_store" where
  "BN_clear bn S =
     set_neg bn False (set_width bn 0 (with_words bn (replicate (List.length (bn_d (S bn))) 0) S))"

definition BN_zero :: "nat \<Rightarrow> bn_store \<Rightarrow> bn_store" where
  "BN_zero bn S = set_width bn 0 (set_neg bn False S)"

definition BN_set_word :: "sys_alloc \<Rightarrow> nat \<Rightarrow> u64 \<Rightarrow> bn_store \<Rightarrow> bool \<times> bn_store" where
  "BN_set_word al bn v S =
     (if v = 0 then (True, BN_zero bn S)
      else bn_then (bn_wexpand al bn 1 S) (\<lambda>S. (True, set_width bn 1 (set_wd bn 0 v (set_neg bn False S)))))"

definition BN_one :: "sys_alloc \<Rightarrow> nat \<Rightarrow> bn_store \<Rightarrow> bool \<times> bn_store" where
  "BN_one al bn S = BN_set_word al bn 1 S"

definition BN_set_u64 :: "sys_alloc \<Rightarrow> nat \<Rightarrow> u64 \<Rightarrow> bn_store \<Rightarrow> bool \<times> bn_store" where
  "BN_set_u64 al bn v S = BN_set_word al bn v S"

definition bn_set_words :: "sys_alloc \<Rightarrow> nat \<Rightarrow> u64 list \<Rightarrow> bn_store \<Rightarrow> bool \<times> bn_store" where
  "bn_set_words al bn words S =
     bn_then (bn_wexpand al bn (List.length words) S) (\<lambda>S.
       (True, set_neg bn False (set_width bn (List.length words)
          (with_words bn (words @ drop (List.length words) (bn_d (S bn))) S))))"

definition bn_fits_in_words :: "bignum \<Rightarrow> nat \<Rightarrow> bool" where
  "bn_fits_in_words b n \<longleftrightarrow> fold (\<lambda>i m. m OR bn_d b ! i) [n..<bn_width b] 0 = 0"

text \<open>The words copied out, or \<open>None\<close> for the zero return.\<close>

definition bn_copy_words :: "nat \<Rightarrow> bignum \<Rightarrow> u64 list option" where
  "bn_copy_words n b =
     (if bn_neg b then None
      else if bn_width b > n \<and> \<not> bn_fits_in_words b n then None
      else (let width = (if bn_width b > n then n else bn_width b)
            in Some (take width (bn_d b) @ replicate (n - width) 0)))"

definition BN_is_negative :: "bignum \<Rightarrow> bool" where
  "BN_is_negative b \<longleftrightarrow> bn_neg b"

definition BN_is_zero :: "bignum \<Rightarrow> bool" where
  "BN_is_zero b \<longleftrightarrow> bn_fits_in_words b 0"

definition BN_set_negative :: "nat \<Rightarrow> bool \<Rightarrow> bn_store \<Rightarrow> bn_store" where
  "BN_set_negative bn sign S = set_neg bn (sign \<and> \<not> BN_is_zero (S bn)) S"

definition bn_resize_words :: "sys_alloc \<Rightarrow> nat \<Rightarrow> nat \<Rightarrow> bn_store \<Rightarrow> bool \<times> bn_store" where
  "bn_resize_words al bn words S =
     (if bn_width (S bn) \<le> words
      then bn_then (bn_wexpand al bn words S) (\<lambda>S.
        (let d = bn_d (S bn); n = bn_width (S bn)
         in (True, set_width bn words (with_words bn (take n d @ replicate (words - n) 0 @ drop words d) S))))
      else if \<not> bn_fits_in_words (S bn) words then (False, S)
      else (True, set_width bn words S))"

fun minimal_width_loop :: "u64 list \<Rightarrow> nat \<Rightarrow> nat" where
  "minimal_width_loop d 0 = 0"
| "minimal_width_loop d (Suc k) = (if d ! k = 0 then minimal_width_loop d k else Suc k)"

definition bn_minimal_width :: "bignum \<Rightarrow> nat" where
  "bn_minimal_width b = minimal_width_loop (bn_d b) (bn_width b)"

definition bn_set_minimal_width :: "nat \<Rightarrow> bn_store \<Rightarrow> bn_store" where
  "bn_set_minimal_width bn S =
     (let S1 = set_width bn (bn_minimal_width (S bn)) S
      in if bn_width (S1 bn) = 0 then set_neg bn False S1 else S1)"

section \<open>Counting bits\<close>

text \<open>One of the blocks of \<^verbatim>\<open>BN_num_bits_word\<close>, for the upper \<open>k\<close> of \<open>2 * k\<close> bits.\<close>

definition bits_block :: "nat \<Rightarrow> nat \<times> u64 \<Rightarrow> nat \<times> u64" where
  "bits_block k = (\<lambda>(bits, l).
     let x = drop_bit k l;
         m0 = 0 - x;
         m = 0 - drop_bit (BN_BITS2 - 1) m0
     in (bits + unat (of_nat k AND m), l XOR ((x XOR l) AND m)))"

definition BN_num_bits_word :: "u64 \<Rightarrow> nat" where
  "BN_num_bits_word l =
     fst (bits_block 1 (bits_block 2 (bits_block 4 (bits_block 8 (bits_block 16 (bits_block 32 (if l \<noteq> 0 then 1 else 0, l)))))))"

definition BN_num_bits :: "bignum \<Rightarrow> nat" where
  "BN_num_bits b =
     (let width = bn_minimal_width b
      in if width = 0 then 0 else (width - 1) * BN_BITS2 + BN_num_bits_word (bn_d b ! (width - 1)))"

definition BN_num_bytes :: "bignum \<Rightarrow> nat" where
  "BN_num_bytes b = (BN_num_bits b + 7) div 8"

section \<open>Comparison\<close>

definition bn_cmp_words_consttime :: "u64 list \<Rightarrow> nat \<Rightarrow> u64 list \<Rightarrow> nat \<Rightarrow> int" where
  "bn_cmp_words_consttime a a_len b b_len =
     (let mn = (if a_len < b_len then a_len else b_len);
          ret = fold (\<lambda>i ret.
            let eq = constant_time_eq_w (a ! i) (b ! i);
                lt = constant_time_lt_w (a ! i) (b ! i)
            in constant_time_select_int eq ret (constant_time_select_int lt (-1) 1)) [0..<mn] 0
      in if a_len < b_len
         then constant_time_select_int (constant_time_is_zero_w (fold (\<lambda>i m. m OR b ! i) [a_len..<b_len] 0)) ret (-1)
         else if b_len < a_len
         then constant_time_select_int (constant_time_is_zero_w (fold (\<lambda>i m. m OR a ! i) [b_len..<a_len] 0)) ret 1
         else ret)"

definition BN_ucmp :: "bignum \<Rightarrow> bignum \<Rightarrow> int" where
  "BN_ucmp a b = bn_cmp_words_consttime (bn_d a) (bn_width a) (bn_d b) (bn_width b)"

text \<open>A null pointer is \<open>None\<close>.\<close>

definition BN_cmp :: "bignum option \<Rightarrow> bignum option \<Rightarrow> int" where
  "BN_cmp a b =
     (case (a, b) of
        (Some a, Some b) \<Rightarrow>
          if bn_neg a \<noteq> bn_neg b then (if bn_neg a then -1 else 1)
          else (let ret = BN_ucmp a b in if bn_neg a then - ret else ret)
      | (Some _, None) \<Rightarrow> -1
      | (None, Some _) \<Rightarrow> 1
      | (None, None) \<Rightarrow> 0)"

definition bn_less_than_words :: "u64 list \<Rightarrow> u64 list \<Rightarrow> nat \<Rightarrow> bool" where
  "bn_less_than_words a b n \<longleftrightarrow> bn_cmp_words_consttime a n b n < 0"

definition BN_abs_is_word :: "bignum \<Rightarrow> u64 \<Rightarrow> bool" where
  "BN_abs_is_word b w =
     (if bn_width b = 0 then w = 0
      else fold (\<lambda>i m. m OR bn_d b ! i) [1..<bn_width b] (bn_d b ! 0 XOR w) = 0)"

definition BN_cmp_word :: "bignum \<Rightarrow> u64 \<Rightarrow> int" where
  "BN_cmp_word a w =
     BN_cmp (Some a) (Some \<lparr>bn_d = [w], bn_width = (if w > 0 then 1 else 0), bn_neg = False, bn_flags = BN_FLG_STATIC_DATA\<rparr>)"

definition BN_is_one :: "bignum \<Rightarrow> bool" where
  "BN_is_one b \<longleftrightarrow> \<not> bn_neg b \<and> BN_abs_is_word b 1"

definition BN_is_word :: "bignum \<Rightarrow> u64 \<Rightarrow> bool" where
  "BN_is_word b w \<longleftrightarrow> BN_abs_is_word b w \<and> (w = 0 \<or> \<not> bn_neg b)"

definition BN_is_odd :: "bignum \<Rightarrow> bool" where
  "BN_is_odd b \<longleftrightarrow> bn_width b > 0 \<and> bn_d b ! 0 AND 1 = 1"

definition BN_is_pow2 :: "bignum \<Rightarrow> bool" where
  "BN_is_pow2 b =
     (let width = bn_minimal_width b
      in if width = 0 \<or> bn_neg b then False
         else if list_ex (\<lambda>i. bn_d b ! i \<noteq> 0) [0..<width - 1] then False
         else bn_d b ! (width - 1) AND (bn_d b ! (width - 1) - 1) = 0)"

definition BN_equal_consttime :: "bignum \<Rightarrow> bignum \<Rightarrow> bool" where
  "BN_equal_consttime a b =
     (let m1 = fold (\<lambda>i m. m OR bn_d b ! i) [bn_width a..<bn_width b] 0;
          m2 = fold (\<lambda>i m. m OR bn_d a ! i) [bn_width b..<bn_width a] m1;
          mn = (if bn_width a < bn_width b then bn_width a else bn_width b);
          m3 = fold (\<lambda>i m. m OR (bn_d a ! i XOR bn_d b ! i)) [0..<mn] m2;
          m4 = m3 OR (if bn_neg a \<noteq> bn_neg b then 1 else 0)
      in m4 = 0)"

section \<open>The number a record stands for\<close>

definition bn_mag :: "bignum \<Rightarrow> nat" where
  "bn_mag b = words_val (take (bn_width b) (bn_d b))"

definition bn_val :: "bignum \<Rightarrow> int" where
  "bn_val b = (if bn_neg b then - int (bn_mag b) else int (bn_mag b))"

text \<open>The words of the number are in its array, and zero is not negative.\<close>

definition bn_ok :: "bignum \<Rightarrow> bool" where
  "bn_ok b \<longleftrightarrow> bn_width b \<le> List.length (bn_d b) \<and> (bn_neg b \<longrightarrow> bn_mag b \<noteq> 0)"

lemma store_simps [simp]:
  "set_width p n S q = (if q = p then (S q)\<lparr>bn_width := n\<rparr> else S q)"
  "set_neg p s S q = (if q = p then (S q)\<lparr>bn_neg := s\<rparr> else S q)"
  "with_words p ws S q = (if q = p then (S q)\<lparr>bn_d := ws\<rparr> else S q)"
  "set_wd p i w S q = (if q = p then (S q)\<lparr>bn_d := (bn_d (S q))[i := w]\<rparr> else S q)"
  by (simp_all add: set_width_def set_neg_def with_words_def set_wd_def)

lemma bn_then_simps [simp]: "bn_then (True, S) k = k S" "bn_then (False, S) k = (False, S)"
  by (simp_all add: bn_then_def)

lemma words_val_snoc: "words_val (xs @ [w]) = words_val xs + 2 ^ (64 * List.length xs) * unat w"
  by (simp add: words_val_append)

lemma words_val_take_Suc: "k < List.length xs \<Longrightarrow> words_val (take (Suc k) xs) = words_val (take k xs) + 2 ^ (64 * k) * unat (xs ! k)"
  by (simp add: take_Suc_conv_app_nth words_val_snoc)

lemma fold_or_eq_0: "fold (\<lambda>i m. m OR f i) is c = (0 :: u64) \<longleftrightarrow> c = 0 \<and> (\<forall>i\<in>set is. f i = 0)"
proof (induction "is" arbitrary: c)
  case (Cons i "is")
  have "c OR f i = 0 \<longleftrightarrow> c = 0 \<and> f i = 0" by (simp add: word_or_eq_0_iff)
  then show ?case using Cons by auto
qed simp

lemma words_val_drop_eq_0:
  assumes "w \<le> List.length d"
  shows "words_val (drop n (take w d)) = 0 \<longleftrightarrow> (\<forall>i\<in>{n..<w}. d ! i = 0)"
proof -
  have "drop n (take w d) = map ((!) d) [n..<w]" using assms by (intro nth_equalityI) simp_all
  then show ?thesis by (auto simp: words_val_eq_0)
qed

lemma bn_fits_in_words_iff:
  assumes "bn_width b \<le> List.length (bn_d b)"
  shows "bn_fits_in_words b n \<longleftrightarrow> words_val (drop n (take (bn_width b) (bn_d b))) = 0"
  using words_val_drop_eq_0 [OF assms, of n] by (simp add: bn_fits_in_words_def fold_or_eq_0)

lemma bn_fits_value:
  assumes "bn_width b \<le> List.length (bn_d b)" and "n \<le> bn_width b"
  shows "bn_fits_in_words b n \<longleftrightarrow> bn_mag b = words_val (take n (bn_d b))"
  using words_val_split [of n "take (bn_width b) (bn_d b)"] assms
  by (simp add: bn_fits_in_words_iff bn_mag_def min_def)

lemma BN_is_zero_iff: "bn_width b \<le> List.length (bn_d b) \<Longrightarrow> BN_is_zero b \<longleftrightarrow> bn_mag b = 0"
  by (simp add: BN_is_zero_def bn_fits_in_words_iff bn_mag_def)

lemma minimal_width_loop_spec:
  "k \<le> List.length d \<Longrightarrow> minimal_width_loop d k \<le> k \<and> words_val (take (minimal_width_loop d k) d) = words_val (take k d) \<and>
     (minimal_width_loop d k \<noteq> 0 \<longrightarrow> d ! (minimal_width_loop d k - 1) \<noteq> 0)"
  by (induction d k rule: minimal_width_loop.induct) (auto simp: words_val_take_Suc)

lemma bn_set_minimal_width_spec:
  assumes "bn_width (S p) \<le> List.length (bn_d (S p))"
  shows "\<exists>n s. bn_set_minimal_width p S p = (S p)\<lparr>bn_width := n, bn_neg := s\<rparr> \<and> n \<le> bn_width (S p) \<and>
      bn_mag (bn_set_minimal_width p S p) = bn_mag (S p) \<and> (bn_mag (S p) = 0 \<longrightarrow> \<not> s) \<and> (bn_mag (S p) \<noteq> 0 \<longrightarrow> s = bn_neg (S p))"
proof -
  note m = minimal_width_loop_spec [OF assms]
  let ?n = "minimal_width_loop (bn_d (S p)) (bn_width (S p))"
  have "bn_mag (S p) \<noteq> 0" if "?n \<noteq> 0"
  proof -
    define k where "k = ?n - 1"
    have k: "?n = Suc k" using that by (simp add: k_def)
    have "k < List.length (bn_d (S p))" using m k assms by simp
    then have "words_val (take ?n (bn_d (S p))) = words_val (take k (bn_d (S p))) + 2 ^ (64 * k) * unat (bn_d (S p) ! k)"
      unfolding k by (rule words_val_take_Suc)
    moreover have "bn_d (S p) ! k \<noteq> 0" using m that by (simp add: k_def)
    ultimately show ?thesis using m by (auto simp: bn_mag_def unsigned_eq_0_iff)
  qed
  moreover have "bn_mag (S p) = 0" if "?n = 0" using m that by (simp add: bn_mag_def)
  ultimately show ?thesis
    using m by (cases "?n = 0") (auto simp: bn_set_minimal_width_def bn_minimal_width_def Let_def bn_mag_def)
qed

lemma bn_set_minimal_width_other [simp]: "q \<noteq> p \<Longrightarrow> bn_set_minimal_width p S q = S q"
  by (simp add: bn_set_minimal_width_def Let_def)

text \<open>Making room keeps the number, fails without effect, and touches nothing else.\<close>

lemma bn_wexpand_cases:
  assumes "bn_width (S p) \<le> List.length (bn_d (S p))"
  obtains "bn_wexpand al p n S = (False, S)"
  | d where "bn_wexpand al p n S = (True, with_words p d S)" and "n \<le> List.length d"
      and "take (bn_width (S p)) d = take (bn_width (S p)) (bn_d (S p))" and "bn_width (S p) \<le> List.length d"
proof (cases "n \<le> List.length (bn_d (S p))")
  case True
  moreover have "with_words p (bn_d (S p)) S = S" by (simp add: with_words_def)
  ultimately show ?thesis using that(2) [of "bn_d (S p)"] assms by (simp add: bn_wexpand_def)
next
  case False
  show ?thesis
  proof (cases "bn_wexpand al p n S = (False, S)")
    case True
    then show ?thesis by (rule that(1))
  next
    case nf: False
    then obtain a where a: "OPENSSL_malloc al (8 * n) = Some a"
        "bn_wexpand al p n S = (True, with_words p (take (bn_width (S p)) (bn_d (S p)) @ drop (bn_width (S p)) (block_words a)) S)"
      using False by (auto simp: bn_wexpand_def split: option.splits if_splits)
    have "List.length (block_words a) = n" using OPENSSL_malloc_length [OF a(1)] by (simp add: block_words_def)
    then show ?thesis using that(2) [OF a(2)] assms False by simp
  qed
qed

section \<open>Comparison and size\<close>

lemma compare_top:
  fixes x y u v M :: nat assumes "x < M" and "y < M"
  shows "sgn (int (x + M * u) - int (y + M * v)) = (if u = v then sgn (int x - int y) else if u < v then -1 else 1)"
proof -
  have less: "x' + M * u' < y' + M * v'" if "x' < M" "u' < v'" for x' y' u' v'
  proof -
    have "M * u' + M \<le> M * v'" using that(2) mult_le_mono2 [of "Suc u'" v' M] by simp
    then show ?thesis using that(1) by linarith
  qed
  consider "u = v" | "u < v" | "v < u" by linarith
  then show ?thesis
  proof cases
    case 2
    from less [OF assms(1) this, of y] show ?thesis using 2 by (simp add: sgn_if del: of_nat_add of_nat_mult)
  next
    case 3
    from less [OF assms(2) this, of x] show ?thesis using 3 by (simp add: sgn_if del: of_nat_add of_nat_mult)
  qed simp
qed

lemma cmp_fold:
  "k \<le> List.length a \<Longrightarrow> k \<le> List.length b \<Longrightarrow>
     fold (\<lambda>i ret.
       let eq = constant_time_eq_w (a ! i) (b ! i); lt = constant_time_lt_w (a ! i) (b ! i)
       in constant_time_select_int eq ret (constant_time_select_int lt (-1) 1)) [0..<k] 0 =
     sgn (int (words_val (take k a)) - int (words_val (take k b)))"
proof (induction k)
  case (Suc k)
  let ?r = "sgn (int (words_val (take k a)) - int (words_val (take k b)))"
  have r: "- (2 ^ 31) \<le> ?r" "?r < 2 ^ 31" by (simp_all add: sgn_if)
  have "words_val (take k a) < 2 ^ (64 * k)" "words_val (take k b) < 2 ^ (64 * k)"
    using words_val_less [of "take k a"] words_val_less [of "take k b"] Suc.prems by simp_all
  from compare_top [OF this, of "unat (a ! k)" "unat (b ! k)"] show ?case
    using Suc r by (simp add: words_val_take_Suc constant_time_masks constant_time_select_int_mask Let_def word_less_nat_alt
        word_unat_eq_iff del: of_nat_add of_nat_mult)
qed simp

lemma compare_longer:
  assumes "n \<le> m" and "m \<le> List.length b" and "x < 2 ^ (64 * n)"
  shows "sgn (int x - int (words_val (take m b))) =
    (if \<forall>i\<in>{n..<m}. b ! i = 0 then sgn (int x - int (words_val (take n b))) else -1)"
proof -
  have "words_val (take m b) = words_val (take n b) + 2 ^ (64 * n) * words_val (drop n (take m b))"
    using words_val_split [of n "take m b"] assms(1,2) by (simp add: min_def)
  moreover have "words_val (take n b) < 2 ^ (64 * n)" using words_val_less [of "take n b"] assms(1,2) by simp
  ultimately show ?thesis
    using compare_top [OF assms(3), of "words_val (take n b)" 0 "words_val (drop n (take m b))"] words_val_drop_eq_0 [OF assms(2), of n] by auto
qed

lemma bn_cmp_words_consttime_sgn:
  assumes "n \<le> List.length a" and "m \<le> List.length b"
  shows "bn_cmp_words_consttime a n b m = sgn (int (words_val (take n a)) - int (words_val (take m b)))"
proof -
  let ?mn = "if n < m then n else m"
  let ?r = "sgn (int (words_val (take ?mn a)) - int (words_val (take ?mn b)))"
  have r: "- (2 ^ 31) \<le> ?r" "?r < 2 ^ 31" by (simp_all add: sgn_if)
  note c = cmp_fold [of ?mn a b]
  have x: "words_val (take k c) < 2 ^ (64 * k)" if "k \<le> List.length c" for k c using words_val_less [of "take k c"] that by simp
  consider "n < m" | "m < n" | "n = m" by linarith
  then show ?thesis
  proof cases
    case 1
    then show ?thesis using c r assms compare_longer [of n m b "words_val (take n a)"] x [of n a]
      by (simp add: bn_cmp_words_consttime_def Let_def constant_time_masks constant_time_select_int_mask fold_or_eq_0)
  next
    case 2
    have flip: "sgn (int u - int v) = - sgn (int v - int u)" for u v by (simp add: sgn_if)
    note f = flip [of "words_val (take n a)" "words_val (take m b)"] flip [of "words_val (take m a)" "words_val (take m b)"]
    show ?thesis using 2 c r assms compare_longer [of m n a "words_val (take m b)"] x [of m b] f
      by (simp add: bn_cmp_words_consttime_def Let_def constant_time_masks constant_time_select_int_mask fold_or_eq_0)
  next
    case 3
    then show ?thesis using c assms by (simp add: bn_cmp_words_consttime_def Let_def)
  qed
qed

lemma BN_ucmp_sgn:
  assumes "bn_width a \<le> List.length (bn_d a)" and "bn_width b \<le> List.length (bn_d b)"
  shows "BN_ucmp a b = sgn (int (bn_mag a) - int (bn_mag b))"
  using bn_cmp_words_consttime_sgn [OF assms] by (simp add: BN_ucmp_def bn_mag_def)

lemma BN_cmp_sgn:
  assumes "bn_ok a" and "bn_ok b"
  shows "BN_cmp (Some a) (Some b) = sgn (bn_val a - bn_val b)"
  using assms BN_ucmp_sgn [of a b] by (auto simp: BN_cmp_def bn_val_def bn_ok_def Let_def sgn_if)

lemma BN_cmp_word_sgn:
  assumes "bn_ok a"
  shows "BN_cmp_word a w = sgn (bn_val a - int (unat w))"
proof -
  let ?b = "\<lparr>bn_d = [w], bn_width = (if w > 0 then 1 else 0), bn_neg = False, bn_flags = BN_FLG_STATIC_DATA\<rparr>"
  have "bn_ok ?b" "bn_val ?b = int (unat w)"
    by (auto simp: bn_ok_def bn_val_def bn_mag_def word_gt_0)
  then show ?thesis using BN_cmp_sgn [OF assms] by (simp add: BN_cmp_word_def)
qed

lemma BN_abs_is_word_iff:
  assumes "bn_width b \<le> List.length (bn_d b)"
  shows "BN_abs_is_word b w \<longleftrightarrow> bn_mag b = unat w"
proof (cases "bn_width b = 0")
  case False
  then obtain x xs where d: "take (bn_width b) (bn_d b) = x # xs" "bn_d b ! 0 = x"
    using assms by (cases "bn_d b"; cases "bn_width b") auto
  have "fold (\<lambda>i m. m OR bn_d b ! i) [1..<bn_width b] (x XOR w) = 0 \<longleftrightarrow> x = w \<and> words_val xs = 0"
    using words_val_drop_eq_0 [OF assms, of 1] d(1) by (simp add: fold_or_eq_0 word_xor_eq_0_iff)
  moreover have "unat x + 2 ^ 64 * words_val xs = unat w \<longleftrightarrow> x = w \<and> words_val xs = 0"
  proof
    assume e: "unat x + 2 ^ 64 * words_val xs = unat w"
    then have "words_val xs = 0" using unat_u64_less [of w] by (cases "words_val xs") simp_all
    then show "x = w \<and> words_val xs = 0" using e by (simp add: word_unat_eq_iff)
  qed simp
  ultimately show ?thesis using False d by (simp add: BN_abs_is_word_def bn_mag_def)
qed (auto simp: BN_abs_is_word_def bn_mag_def unsigned_eq_0_iff)

lemma BN_is_word_iff: "bn_ok b \<Longrightarrow> BN_is_word b w \<longleftrightarrow> bn_val b = int (unat w)"
  using BN_abs_is_word_iff [of b w]
  by (auto simp: bn_ok_def BN_is_word_def bn_val_def unsigned_eq_0_iff simp del: of_nat_unat)

lemma BN_is_odd_iff:
  assumes "bn_width b \<le> List.length (bn_d b)"
  shows "BN_is_odd b \<longleftrightarrow> odd (bn_mag b)"
proof (cases "bn_width b = 0")
  case False
  then obtain x xs where d: "take (bn_width b) (bn_d b) = x # xs" "bn_d b ! 0 = x"
    using assms by (cases "bn_d b"; cases "bn_width b") auto
  have "x AND 1 = 1 \<longleftrightarrow> odd (unat x)" by (simp add: and_one_eq odd_iff_mod_2_eq_one word_unat_eq_iff unsigned_of_nat unat_mod)
  then show ?thesis using False d by (simp add: BN_is_odd_def bn_mag_def)
qed (simp add: BN_is_odd_def bn_mag_def)

lemma words_val_inject: "List.length xs = List.length ys \<Longrightarrow> words_val xs = words_val ys \<longleftrightarrow> xs = ys"
proof (induction xs arbitrary: ys)
  case (Cons x xs)
  then obtain y ys' where ys: "ys = y # ys'" by (cases ys) auto
  have "unat x + 2 ^ 64 * words_val xs = unat y + 2 ^ 64 * words_val ys' \<longleftrightarrow> unat x = unat y \<and> words_val xs = words_val ys'"
    using compare_top [of "unat x" "2 ^ 64" "unat y" "words_val xs" "words_val ys'"] unat_u64_less [of x] unat_u64_less [of y]
    by (auto simp: sgn_if split: if_splits)
  then show ?case using Cons.IH [of ys'] Cons.prems by (simp add: ys word_unat_eq_iff)
qed simp

text \<open>The number of bits of a number.\<close>

fun nbits :: "nat \<Rightarrow> nat" where
  "nbits x = (if x = 0 then 0 else Suc (nbits (x div 2)))"

declare nbits.simps [simp del]

lemma nbits_shift: "2 ^ k \<le> x \<Longrightarrow> nbits x = k + nbits (x div 2 ^ k)"
proof (induction k arbitrary: x)
  case (Suc k)
  have "2 ^ k \<le> x div 2" using Suc.prems by (simp add: less_eq_div_iff_mult_less_eq mult.commute)
  moreover have "x \<noteq> 0" using Suc.prems zero_less_power [of "2 :: nat" "Suc k"] by linarith
  ultimately show ?case using Suc.IH [of "x div 2"] by (subst nbits.simps) (simp add: div_mult2_eq [symmetric])
qed simp

lemma nbits_0 [simp]: "nbits 0 = 0"
  by (simp add: nbits.simps)

lemma nbits_1 [simp]: "nbits (Suc 0) = 1"
  by (simp add: nbits.simps)

lemma nbits_le_iff: "nbits x \<le> n \<longleftrightarrow> x < 2 ^ n"
proof (induction n arbitrary: x)
  case 0
  then show ?case by (subst nbits.simps) simp
next
  case (Suc n)
  show ?case
  proof (cases "x = 0")
    case False
    then have "nbits x = Suc (nbits (x div 2))" by (subst nbits.simps) simp
    then show ?thesis using Suc.IH [of "x div 2"] by (simp add: div_less_iff_less_mult mult.commute)
  qed simp
qed

lemma bits_block_step:
  assumes "unat l < 2 ^ (2 * k)" and "0 < k" and "k \<le> 32"
  shows "bits_block k (bits, l) = (if 2 ^ k \<le> unat l then (bits + k, drop_bit k l) else (bits, l))"
proof -
  let ?x = "drop_bit k l"
  have x: "unat ?x = unat l div 2 ^ k" by (rule unat_drop_bit)
  have "unat l div 2 ^ k < 2 ^ k" using assms(1) by (simp add: less_mult_imp_div_less mult_2 power_add)
  moreover have "(2 :: nat) ^ k \<le> 2 ^ 32" using assms(3) by (rule power_increasing) simp
  ultimately have s: "unat ?x < 2 ^ 32" unfolding x by linarith
  have nz: "?x = 0 \<longleftrightarrow> \<not> 2 ^ k \<le> unat l" using x by (simp add: word_unat_eq_iff div_eq_0_iff not_le)
  have "drop_bit 63 (0 - ?x) = (if ?x = 0 then 0 else 1)"
  proof (cases "?x = 0")
    case False
    then have "unat (0 - ?x) = 2 ^ 64 - unat ?x"
      by (subst unat_minus_wrap) (simp add: unsigned_eq_0_iff)
    moreover have "unat ?x \<noteq> 0" using False by (simp add: unsigned_eq_0_iff)
    ultimately have "unat (0 - ?x) div 2 ^ 63 = 1" using s by simp
    then have "unat (drop_bit 63 (0 - ?x)) = 1" by (simp only: unat_drop_bit)
    then show ?thesis using False by (simp add: word_unat_eq_iff)
  qed simp
  then have m: "0 - drop_bit (BN_BITS2 - 1) (0 - ?x) = mask_if (2 ^ k \<le> unat l)"
    using nz by (simp add: BN_BITS2_def mask_if_def)
  have "unat (of_nat k :: u64) = k" using assms(3) by (intro unat_of_nat_eq) simp
  moreover have "- drop_bit (BN_BITS2 - Suc 0) (- ?x) = mask_if (2 ^ k \<le> unat l)" using m by simp
  moreover have "l XOR (?x XOR l) = ?x" by (simp add: xor.commute xor.left_commute)
  ultimately show ?thesis by (simp add: bits_block_def Let_def mask_if_def)
qed

text \<open>One block keeps the number of bits still to come plus those counted.\<close>

lemma bits_block_nbits:
  assumes "unat l < 2 ^ (2 * k)" and "0 < k" and "k \<le> 32"
  obtains b' l' where "bits_block k (b, l) = (b', l')" and "unat l' < 2 ^ k" and "b' + nbits (unat l') = b + nbits (unat l)"
    and "l' = 0 \<longleftrightarrow> l = 0"
proof (cases "2 ^ k \<le> unat l")
  case True
  have d: "unat (drop_bit k l) = unat l div 2 ^ k" by (rule unat_drop_bit)
  then have "unat (drop_bit k l) < 2 ^ k" using assms(1) by (simp add: less_mult_imp_div_less mult_2 power_add)
  moreover have "nbits (unat l) = k + nbits (unat (drop_bit k l))" unfolding d by (rule nbits_shift [OF True])
  moreover have "drop_bit k l \<noteq> 0" using True d by (simp add: word_unat_eq_iff div_eq_0_iff not_less)
  moreover from this have "l \<noteq> 0" by auto
  ultimately show ?thesis using that [of "b + k" "drop_bit k l"] bits_block_step [OF assms] True by simp
next
  case False
  then show ?thesis using that [of b l] bits_block_step [OF assms] by simp
qed

lemma BN_num_bits_word_eq: "BN_num_bits_word l = nbits (unat l)"
proof -
  let ?b = "if l \<noteq> 0 then 1 else 0 :: nat"
  have "unat l < 2 ^ (2 * 32)" using unat_u64_less [of l] by simp
  then obtain b5 l5 where 5: "bits_block 32 (?b, l) = (b5, l5)" "unat l5 < 2 ^ 32" "b5 + nbits (unat l5) = ?b + nbits (unat l)" "l5 = 0 \<longleftrightarrow> l = 0"
    using bits_block_nbits [of l 32 ?b] by auto
  obtain b4 l4 where 4: "bits_block 16 (b5, l5) = (b4, l4)" "unat l4 < 2 ^ 16" "b4 + nbits (unat l4) = b5 + nbits (unat l5)" "l4 = 0 \<longleftrightarrow> l5 = 0"
    using bits_block_nbits [of l5 16 b5] 5(2) by auto
  obtain b3 l3 where 3: "bits_block 8 (b4, l4) = (b3, l3)" "unat l3 < 2 ^ 8" "b3 + nbits (unat l3) = b4 + nbits (unat l4)" "l3 = 0 \<longleftrightarrow> l4 = 0"
    using bits_block_nbits [of l4 8 b4] 4(2) by auto
  obtain b2 l2 where 2: "bits_block 4 (b3, l3) = (b2, l2)" "unat l2 < 2 ^ 4" "b2 + nbits (unat l2) = b3 + nbits (unat l3)" "l2 = 0 \<longleftrightarrow> l3 = 0"
    using bits_block_nbits [of l3 4 b3] 3(2) by auto
  obtain b1 l1 where 1: "bits_block 2 (b2, l2) = (b1, l1)" "unat l1 < 2 ^ 2" "b1 + nbits (unat l1) = b2 + nbits (unat l2)" "l1 = 0 \<longleftrightarrow> l2 = 0"
    using bits_block_nbits [of l2 2 b2] 2(2) by auto
  obtain b0 l0 where 0: "bits_block 1 (b1, l1) = (b0, l0)" "unat l0 < 2 ^ 1" "b0 + nbits (unat l0) = b1 + nbits (unat l1)" "l0 = 0 \<longleftrightarrow> l1 = 0"
    using bits_block_nbits [of l1 1 b1] 1(2) by auto
  have "nbits (unat l0) = ?b"
  proof (cases "l0 = 0")
    case False
    then have "unat l0 = Suc 0" using 0(2) by (simp add: unsigned_eq_0_iff less_2_cases_iff)
    moreover have "l \<noteq> 0" using False 0(4) 1(4) 2(4) 3(4) 4(4) 5(4) by blast
    ultimately show ?thesis by simp
  next
    case True
    then have "l = 0" using 0(4) 1(4) 2(4) 3(4) 4(4) 5(4) by blast
    then show ?thesis using True by simp
  qed
  then have "b0 = nbits (unat l)" using 0(3) 1(3) 2(3) 3(3) 4(3) 5(3) by linarith
  then show ?thesis using 0(1) by (simp add: BN_num_bits_word_def 1(1) 2(1) 3(1) 4(1) 5(1))
qed

lemma bn_mag_minimal:
  assumes "bn_width b \<le> List.length (bn_d b)"
  shows "bn_minimal_width b \<le> bn_width b" and "bn_mag b = words_val (take (bn_minimal_width b) (bn_d b))"
    and "bn_minimal_width b \<noteq> 0 \<Longrightarrow> bn_d b ! (bn_minimal_width b - 1) \<noteq> 0"
  using minimal_width_loop_spec [OF assms] by (simp_all add: bn_minimal_width_def bn_mag_def)

text \<open>The number as its top word and the rest.\<close>

lemma bn_mag_top:
  assumes "bn_width b \<le> List.length (bn_d b)" and "bn_minimal_width b = Suc k"
  obtains r where "bn_mag b = r + 2 ^ (64 * k) * unat (bn_d b ! k)" and "r < 2 ^ (64 * k)" and "bn_d b ! k \<noteq> 0"
    and "r = words_val (take k (bn_d b))" and "k < List.length (bn_d b)"
proof -
  note m = bn_mag_minimal [OF assms(1)]
  have k: "k < List.length (bn_d b)" using m(1) assms by simp
  have "bn_mag b = words_val (take k (bn_d b)) + 2 ^ (64 * k) * unat (bn_d b ! k)"
    unfolding m(2) assms(2) by (rule words_val_take_Suc [OF k])
  moreover have "words_val (take k (bn_d b)) < 2 ^ (64 * k)" using words_val_less [of "take k (bn_d b)"] k by simp
  moreover have "bn_d b ! k \<noteq> 0" using m(3) assms(2) by simp
  ultimately show thesis using that k by simp
qed

lemma BN_num_bits_eq:
  assumes "bn_width b \<le> List.length (bn_d b)"
  shows "BN_num_bits b = nbits (bn_mag b)"
proof (cases "bn_minimal_width b")
  case 0
  then show ?thesis using bn_mag_minimal(2) [OF assms] by (simp add: BN_num_bits_def)
next
  case (Suc k)
  obtain r where r: "bn_mag b = r + 2 ^ (64 * k) * unat (bn_d b ! k)" "r < 2 ^ (64 * k)" "bn_d b ! k \<noteq> 0"
    using bn_mag_top [OF assms Suc] by metis
  have "0 < unat (bn_d b ! k)" using r(3) by (simp add: unsigned_eq_0_iff neq0_conv [symmetric] del: neq0_conv)
  then have "2 ^ (64 * k) \<le> 2 ^ (64 * k) * unat (bn_d b ! k)" by simp
  then have "2 ^ (64 * k) \<le> bn_mag b" using r(1) by linarith
  moreover have "bn_mag b div 2 ^ (64 * k) = unat (bn_d b ! k)" using r(1,2) by simp
  ultimately have "nbits (bn_mag b) = 64 * k + nbits (unat (bn_d b ! k))" using nbits_shift [of "64 * k" "bn_mag b"] by simp
  then show ?thesis using Suc by (simp add: BN_num_bits_def BN_num_bits_word_eq BN_BITS2_def)
qed

section \<open>Equality and powers of two\<close>

lemma two_parts_eq:
  fixes x y u v M :: nat assumes "x < M" and "y < M"
  shows "x + M * u = y + M * v \<longleftrightarrow> x = y \<and> u = v"
proof
  assume e: "x + M * u = y + M * v"
  have "(x + M * u) mod M = x" "(y + M * v) mod M = y" "(x + M * u) div M = u" "(y + M * v) div M = v" using assms by simp_all
  then show "x = y \<and> u = v" unfolding e by simp
qed simp

lemma BN_equal_consttime_iff:
  assumes "bn_ok a" and "bn_ok b"
  shows "BN_equal_consttime a b \<longleftrightarrow> bn_val a = bn_val b"
proof -
  let ?m = "min (bn_width a) (bn_width b)"
  let ?x = "take ?m (bn_d a)" and ?y = "take ?m (bn_d b)"
  have fits: "bn_width a \<le> List.length (bn_d a)" "bn_width b \<le> List.length (bn_d b)" using assms by (simp_all add: bn_ok_def)
  have or1: "c OR (if p then 1 else 0) = 0 \<longleftrightarrow> c = 0 \<and> \<not> p" for c :: u64 and p by (simp add: word_or_eq_0_iff)
  have code: "BN_equal_consttime a b \<longleftrightarrow> (\<forall>i\<in>{bn_width a..<bn_width b}. bn_d b ! i = 0) \<and> (\<forall>i\<in>{bn_width b..<bn_width a}. bn_d a ! i = 0)
      \<and> (\<forall>i<?m. bn_d a ! i = bn_d b ! i) \<and> bn_neg a = bn_neg b"
    by (auto simp: BN_equal_consttime_def Let_def or1 fold_or_eq_0 word_xor_eq_0_iff)
  have low: "(\<forall>i<?m. bn_d a ! i = bn_d b ! i) \<longleftrightarrow> words_val ?x = words_val ?y"
    using fits by (subst words_val_inject) (auto simp: list_eq_iff_nth_eq)
  have split: "bn_mag c = words_val (take ?m (bn_d c)) + 2 ^ (64 * ?m) * words_val (drop ?m (take (bn_width c) (bn_d c)))"
    if "?m \<le> bn_width c" "bn_width c \<le> List.length (bn_d c)" for c
    using words_val_split [of ?m "take (bn_width c) (bn_d c)"] that by (simp add: bn_mag_def min_def)
  have high: "words_val (drop ?m (take (bn_width c) (bn_d c))) = 0 \<longleftrightarrow> (\<forall>i\<in>{?m..<bn_width c}. bn_d c ! i = 0)"
    if "bn_width c \<le> List.length (bn_d c)" for c by (rule words_val_drop_eq_0 [OF that])
  have "words_val ?x < 2 ^ (64 * ?m)" "words_val ?y < 2 ^ (64 * ?m)"
    using words_val_less [of ?x] words_val_less [of ?y] fits by simp_all
  from two_parts_eq [OF this] have "bn_mag a = bn_mag b \<longleftrightarrow> words_val ?x = words_val ?y \<and>
      words_val (drop ?m (take (bn_width a) (bn_d a))) = words_val (drop ?m (take (bn_width b) (bn_d b)))"
    unfolding split [of a, OF min.cobounded1 fits(1)] split [of b, OF min.cobounded2 fits(2)] by blast
  also have "\<dots> \<longleftrightarrow> words_val ?x = words_val ?y \<and> (\<forall>i\<in>{bn_width a..<bn_width b}. bn_d b ! i = 0) \<and> (\<forall>i\<in>{bn_width b..<bn_width a}. bn_d a ! i = 0)"
    using high [OF fits(1)] high [OF fits(2)] by (cases "bn_width a \<le> bn_width b") (simp_all add: min_def eq_commute [of 0])
  finally have "BN_equal_consttime a b \<longleftrightarrow> bn_mag a = bn_mag b \<and> bn_neg a = bn_neg b" unfolding code low by blast
  then show ?thesis using assms by (auto simp: bn_val_def bn_ok_def)
qed

lemma nat_pow2_iff: "0 < n \<Longrightarrow> n AND (n - 1) = 0 \<longleftrightarrow> (\<exists>j. n = 2 ^ j)" for n :: nat
proof (induction n rule: less_induct)
  case (less n)
  show ?case
  proof (cases "even n")
    case True
    then obtain m where m: "n = 2 * m" "0 < m" using less.prems by (auto elim!: evenE)
    have "(2 * m - 1) div 2 = m - 1" using m(2) by simp
    then have "n AND (n - 1) = 2 * (m AND (m - 1))" using and_nat_rec [of "2 * m" "2 * m - 1"] by (simp add: m(1))
    moreover have "(\<exists>j. n = 2 ^ j) \<longleftrightarrow> (\<exists>j. m = 2 ^ j)"
    proof
      assume "\<exists>j. n = 2 ^ j"
      then obtain j where j: "n = 2 ^ j" by blast
      then obtain i where "j = Suc i" using True by (cases j) simp_all
      then show "\<exists>j. m = 2 ^ j" using j m(1) by auto
    qed (use m in \<open>auto intro: exI [of _ "Suc _"]\<close>)
    ultimately show ?thesis using less.IH [of m] m by simp
  next
    case False
    then obtain m where m: "n = 2 * m + 1" by (elim oddE)
    have "n AND (n - 1) = 2 * m" using and_nat_rec [of "2 * m + 1" "2 * m"] by (simp add: m)
    moreover have "(\<exists>j. n = 2 ^ j) \<longleftrightarrow> m = 0"
    proof
      assume "\<exists>j. n = 2 ^ j"
      then obtain j where j: "2 * m + 1 = 2 ^ j" using m by auto
      then have "j = 0" using False m by (cases j) simp_all
      then show "m = 0" using j by simp
    qed (use m in \<open>auto intro: exI [of _ 0]\<close>)
    ultimately show ?thesis by simp
  qed
qed

lemma word_pow2_iff:
  assumes "u \<noteq> (0 :: u64)"
  shows "u AND (u - 1) = 0 \<longleftrightarrow> (\<exists>j. unat u = 2 ^ j)"
proof -
  have u: "0 < unat u" using assms by (simp add: unsigned_eq_0_iff flip: neq0_conv)
  then have "unat (u - 1) = unat u - 1" by (simp add: unat_minus_wrap unat_minus_one assms)
  then have "u AND (u - 1) = 0 \<longleftrightarrow> unat u AND (unat u - 1) = 0" by (metis unsigned_and_eq unsigned_eq_0_iff)
  then show ?thesis using nat_pow2_iff [OF u] by simp
qed

lemma BN_is_pow2_iff:
  assumes "bn_width b \<le> List.length (bn_d b)"
  shows "BN_is_pow2 b \<longleftrightarrow> (\<exists>j. bn_val b = 2 ^ j)"
proof -
  have neg: "bn_val b \<noteq> 2 ^ j" if "bn_neg b" for j
  proof -
    have "bn_val b \<le> 0" using that by (simp add: bn_val_def)
    moreover have "(0 :: int) < 2 ^ j" by simp
    ultimately show ?thesis by linarith
  qed
  have pos: "(\<exists>j. bn_val b = 2 ^ j) \<longleftrightarrow> (\<exists>j. bn_mag b = 2 ^ j)" if "\<not> bn_neg b"
    using that by (simp add: bn_val_def)
  show ?thesis
  proof (cases "bn_minimal_width b")
    case 0
    then show ?thesis using bn_mag_minimal(2) [OF assms] neg pos by (cases "bn_neg b") (auto simp: BN_is_pow2_def)
  next
    case (Suc k)
    obtain r where r: "bn_mag b = r + 2 ^ (64 * k) * unat (bn_d b ! k)" "r < 2 ^ (64 * k)" "bn_d b ! k \<noteq> 0"
        "r = words_val (take k (bn_d b))" "k < List.length (bn_d b)"
      using bn_mag_top [OF assms Suc] by metis
    have zeros: "list_ex (\<lambda>i. bn_d b ! i \<noteq> 0) [0..<k] \<longleftrightarrow> r \<noteq> 0"
      using words_val_drop_eq_0 [of k "bn_d b" 0] r(4,5) by (auto simp: list_ex_iff)
    have "(\<exists>j. bn_mag b = 2 ^ j) \<longleftrightarrow> r = 0 \<and> (\<exists>j. unat (bn_d b ! k) = 2 ^ j)"
    proof
      assume "\<exists>j. bn_mag b = 2 ^ j"
      then obtain j where j: "bn_mag b = 2 ^ j" by blast
      have "1 \<le> unat (bn_d b ! k)" using r(3) by (simp add: unsigned_eq_0_iff Suc_le_eq flip: neq0_conv)
      then have "2 ^ (64 * k) \<le> 2 ^ (64 * k) * unat (bn_d b ! k)" by simp
      then have "(2 :: nat) ^ (64 * k) \<le> 2 ^ j" using r(1) j by linarith
      then have le: "64 * k \<le> j" by simp
      then have e: "bn_mag b = 2 ^ (64 * k) * 2 ^ (j - 64 * k)" unfolding j by (simp flip: power_add)
      have "r = bn_mag b mod 2 ^ (64 * k)" "unat (bn_d b ! k) = bn_mag b div 2 ^ (64 * k)" using r(1,2) by simp_all
      then show "r = 0 \<and> (\<exists>j. unat (bn_d b ! k) = 2 ^ j)" unfolding e by auto
    next
      assume "r = 0 \<and> (\<exists>j. unat (bn_d b ! k) = 2 ^ j)"
      then show "\<exists>j. bn_mag b = 2 ^ j" using r(1) by (auto simp flip: power_add)
    qed
    then show ?thesis using Suc neg pos word_pow2_iff [OF r(3)] zeros
      by (cases "bn_neg b") (auto simp: BN_is_pow2_def)
  qed
qed

lemma BN_is_one_iff: "bn_ok b \<Longrightarrow> BN_is_one b \<longleftrightarrow> bn_val b = 1"
  using BN_abs_is_word_iff [of b 1] by (auto simp: bn_ok_def BN_is_one_def bn_val_def)

section \<open>Properties\<close>

text \<open>
  C35: the predicates and comparisons agree with the integers for well-formed numbers of any widths, trimmed or not, although most of them
  look at every word of both numbers with masks instead of branches: \<^verbatim>\<open>BN_cmp\<close> and \<^verbatim>\<open>BN_cmp_word\<close> return the sign of the
  difference, \<^verbatim>\<open>BN_ucmp\<close> that of the absolute values, and \<^verbatim>\<open>BN_num_bits\<close> is the least number of bits that holds the absolute
  value.
\<close>

theorem BN_compare_correct:
  assumes "bn_ok a" and "bn_ok b"
  shows "BN_cmp (Some a) (Some b) = sgn (bn_val a - bn_val b) \<and> BN_ucmp a b = sgn (\<bar>bn_val a\<bar> - \<bar>bn_val b\<bar>)
    \<and> BN_cmp_word a w = sgn (bn_val a - int (unat w)) \<and> (BN_equal_consttime a b \<longleftrightarrow> bn_val a = bn_val b)
    \<and> (BN_is_zero a \<longleftrightarrow> bn_val a = 0) \<and> (BN_is_one a \<longleftrightarrow> bn_val a = 1) \<and> (BN_is_word a w \<longleftrightarrow> bn_val a = int (unat w))
    \<and> (BN_is_odd a \<longleftrightarrow> odd (bn_val a)) \<and> (BN_is_pow2 a \<longleftrightarrow> (\<exists>j. bn_val a = 2 ^ j))
    \<and> (BN_num_bits a \<le> n \<longleftrightarrow> \<bar>bn_val a\<bar> < 2 ^ n)"
proof -
  have f: "bn_width a \<le> List.length (bn_d a)" "bn_width b \<le> List.length (bn_d b)" using assms by (simp_all add: bn_ok_def)
  have mag: "\<bar>bn_val c\<bar> = int (bn_mag c)" for c by (simp add: bn_val_def)
  have "bn_mag a < 2 ^ n \<longleftrightarrow> int (bn_mag a) < 2 ^ n" using of_nat_less_iff [where 'a = int, of "bn_mag a" "2 ^ n"] by simp
  then have bits: "BN_num_bits a \<le> n \<longleftrightarrow> int (bn_mag a) < 2 ^ n"
    unfolding BN_num_bits_eq [OF f(1)] nbits_le_iff .
  have zero: "BN_is_zero a \<longleftrightarrow> bn_val a = 0" "BN_is_odd a \<longleftrightarrow> odd (bn_val a)"
    using BN_is_zero_iff [OF f(1)] BN_is_odd_iff [OF f(1)] by (simp_all add: bn_val_def)
  show ?thesis unfolding mag
    by (intro conjI BN_cmp_sgn [OF assms] BN_ucmp_sgn [OF f] BN_cmp_word_sgn [OF assms(1)] BN_equal_consttime_iff [OF assms] zero
      BN_is_one_iff [OF assms(1)] BN_is_word_iff [OF assms(1)] BN_is_pow2_iff [OF f(1)] bits)
qed

theorem BN_compare_correct_witness:
  "let a = \<lparr>bn_d = [8, 0, 5], bn_width = 2, bn_neg = False, bn_flags = 0\<rparr>; b = \<lparr>bn_d = [0, 1], bn_width = 2, bn_neg = True, bn_flags = 0\<rparr>
   in BN_cmp (Some a) (Some b) = 1 \<and> BN_ucmp a b = -1 \<and> BN_cmp_word a 9 = -1 \<and> \<not> BN_equal_consttime a b \<and> BN_is_pow2 a \<and> BN_num_bits a \<le> 4"
proof -
  let ?a = "\<lparr>bn_d = [8, 0, 5], bn_width = 2, bn_neg = False, bn_flags = 0\<rparr>"
  let ?b = "\<lparr>bn_d = [0, 1], bn_width = 2, bn_neg = True, bn_flags = 0\<rparr>"
  have ok: "bn_ok ?a" "bn_ok ?b" and v: "bn_val ?a = 8" "bn_val ?b = - 18446744073709551616"
    by (simp_all add: bn_ok_def bn_val_def bn_mag_def)
  have p: "(\<exists>j. (8 :: int) = 2 ^ j) = True" by (simp add: exI [of _ 3])
  have w: "int (unat (9 :: u64)) = 9" by simp
  from BN_compare_correct [OF ok, of 9 4, unfolded v p w] show ?thesis unfolding Let_def by simp
qed

end
