(* ===== verification/Bn_Add.thy ===== *)
theory Bn_Add
  imports Bn
begin

text \<open>
  \<^verbatim>\<open>crypto/fipsmodule/bn/add.c\<close>: addition and subtraction of big integers and of words, with the result in a number that may be one
  of the operands. They are shown to be the operations of the integers, and to fail only when no room for the result can be made.
\<close>

section \<open>The code\<close>

definition carry_step :: "nat \<Rightarrow> nat \<Rightarrow> nat \<Rightarrow> u64 \<times> bn_store \<Rightarrow> u64 \<times> bn_store" where
  "carry_step r a i = (\<lambda>(carry, S).
     let tmp = carry + wd S a i
     in (if tmp < wd S a i then 1 else 0, set_wd r i tmp S))"

definition bn_uadd_consttime :: "sys_alloc \<Rightarrow> nat \<Rightarrow> nat \<Rightarrow> nat \<Rightarrow> bn_store \<Rightarrow> bool \<times> bn_store" where
  "bn_uadd_consttime al r a0 b0 S =
     (let (a, b) = (if bn_width (S a0) < bn_width (S b0) then (b0, a0) else (a0, b0));
          mx = bn_width (S a);
          mn = bn_width (S b)
      in bn_then (bn_wexpand al r (mx + 1) S) (\<lambda>S.
           (let S1 = set_width r (mx + 1) S;
                (carry, S2) = bn_add_words r a b mn S1;
                (carry2, S3) = fold (carry_step r a) [mn..<mx] (carry, S2)
            in (True, set_wd r mx carry2 S3))))"

definition BN_uadd :: "sys_alloc \<Rightarrow> nat \<Rightarrow> nat \<Rightarrow> nat \<Rightarrow> bn_store \<Rightarrow> bool \<times> bn_store" where
  "BN_uadd al r a b S = bn_then (bn_uadd_consttime al r a b S) (\<lambda>S. (True, bn_set_minimal_width r S))"

definition borrow_step :: "nat \<Rightarrow> nat \<Rightarrow> nat \<Rightarrow> u64 \<times> bn_store \<Rightarrow> u64 \<times> bn_store" where
  "borrow_step r a i = (\<lambda>(borrow, S).
     let tmp = wd S a i;
         stored = wd S a i - borrow
     in (if tmp < stored then 1 else 0, set_wd r i stored S))"

definition bn_usub_consttime :: "sys_alloc \<Rightarrow> nat \<Rightarrow> nat \<Rightarrow> nat \<Rightarrow> bn_store \<Rightarrow> bool \<times> bn_store" where
  "bn_usub_consttime al r a b S =
     (if bn_width (S b) > bn_width (S a) \<and> \<not> bn_fits_in_words (S b) (bn_width (S a)) then (False, S)
      else (let b_width = (if bn_width (S b) > bn_width (S a) then bn_width (S a) else bn_width (S b))
            in bn_then (bn_wexpand al r (bn_width (S a)) S) (\<lambda>S.
                 (let (borrow, S1) = bn_sub_words r a b b_width S;
                      (borrow2, S2) = fold (borrow_step r a) [b_width..<bn_width (S1 a)] (borrow, S1)
                  in if borrow2 \<noteq> 0 then (False, S2)
                     else (True, set_neg r False (set_width r (bn_width (S2 a)) S2))))))"

definition BN_usub :: "sys_alloc \<Rightarrow> nat \<Rightarrow> nat \<Rightarrow> nat \<Rightarrow> bn_store \<Rightarrow> bool \<times> bn_store" where
  "BN_usub al r a b S = bn_then (bn_usub_consttime al r a b S) (\<lambda>S. (True, bn_set_minimal_width r S))"

definition BN_add :: "sys_alloc \<Rightarrow> nat \<Rightarrow> nat \<Rightarrow> nat \<Rightarrow> bn_store \<Rightarrow> bool \<times> bn_store" where
  "BN_add al r a0 b0 S =
     (let a_neg = bn_neg (S a0)
      in if a_neg \<noteq> bn_neg (S b0)
         then (let (a, b) = (if a_neg then (b0, a0) else (a0, b0))
               in if BN_ucmp (S a) (S b) < 0
                  then bn_then (BN_usub al r b a S) (\<lambda>S. (True, set_neg r True S))
                  else bn_then (BN_usub al r a b S) (\<lambda>S. (True, set_neg r False S)))
         else (let (ret, S1) = BN_uadd al r a0 b0 S in (ret, set_neg r a_neg S1)))"

definition BN_sub :: "sys_alloc \<Rightarrow> nat \<Rightarrow> nat \<Rightarrow> nat \<Rightarrow> bn_store \<Rightarrow> bool \<times> bn_store" where
  "BN_sub al r a0 b0 S =
     (let (a, b, add, neg) =
        (if bn_neg (S a0)
         then (if bn_neg (S b0) then (b0, a0, False, False) else (a0, b0, True, True))
         else (if bn_neg (S b0) then (a0, b0, True, False) else (a0, b0, False, False)))
      in if add then bn_then (BN_uadd al r a b S) (\<lambda>S. (True, set_neg r neg S))
         else if BN_ucmp (S a) (S b) < 0
         then bn_then (BN_usub al r b a S) (\<lambda>S. (True, set_neg r True S))
         else bn_then (BN_usub al r a b S) (\<lambda>S. (True, set_neg r False S)))"

text \<open>The loop of \<^verbatim>\<open>BN_add_word\<close> over the words \<open>i, \<dots>\<close>, with \<open>k\<close> words to go.\<close>

fun add_word_loop :: "nat \<Rightarrow> nat \<Rightarrow> u64 \<Rightarrow> u64 list \<Rightarrow> nat \<times> u64 \<times> u64 list" where
  "add_word_loop i 0 w d = (i, w, d)"
| "add_word_loop i (Suc k) w d =
     (if w \<noteq> 0
      then (let l = d ! i + w in add_word_loop (i + 1) k (if w > l then 1 else 0) (d[i := l]))
      else (i, w, d))"

text \<open>The endless loop of \<^verbatim>\<open>BN_sub_word\<close>; \<open>None\<close> is a step past the words of the number.\<close>

fun sub_word_loop :: "nat \<Rightarrow> nat \<Rightarrow> u64 \<Rightarrow> u64 list \<Rightarrow> (nat \<times> u64 list) option" where
  "sub_word_loop i 0 w d = None"
| "sub_word_loop i (Suc k) w d =
     (if d ! i \<ge> w then Some (i, d[i := d ! i - w]) else sub_word_loop (i + 1) k 1 (d[i := d ! i - w]))"

function BN_add_word :: "sys_alloc \<Rightarrow> nat \<Rightarrow> u64 \<Rightarrow> bn_store \<Rightarrow> (bool \<times> bn_store) option"
  and BN_sub_word :: "sys_alloc \<Rightarrow> nat \<Rightarrow> u64 \<Rightarrow> bn_store \<Rightarrow> (bool \<times> bn_store) option" where
  "BN_add_word al a w S =
     (if w = 0 then Some (True, S)
      else if BN_is_zero (S a) then Some (BN_set_word al a w S)
      else if bn_neg (S a)
      then (case BN_sub_word al a w (set_neg a False S) of
              None \<Rightarrow> None
            | Some (i, S1) \<Rightarrow> Some (i, if \<not> BN_is_zero (S1 a) then set_neg a (\<not> bn_neg (S1 a)) S1 else S1))
      else
        (case add_word_loop 0 (bn_width (S a)) w (bn_d (S a)) of
           (i, w1, d) \<Rightarrow>
             (let S1 = with_words a d S
              in if w1 \<noteq> 0 \<and> i = bn_width (S1 a)
                 then Some (bn_then (bn_wexpand al a (bn_width (S1 a) + 1) S1) (\<lambda>S.
                        (True, set_wd a i w1 (set_width a (bn_width (S a) + 1) S))))
                 else Some (True, S1))))"
| "BN_sub_word al a w S =
     (if w = 0 then Some (True, S)
      else if BN_is_zero (S a)
      then (let (i, S1) = BN_set_word al a w S in Some (i, if i then BN_set_negative a True S1 else S1))
      else if bn_neg (S a)
      then (case BN_add_word al a w (set_neg a False S) of
              None \<Rightarrow> None
            | Some (i, S1) \<Rightarrow> Some (i, set_neg a True S1))
      else if bn_minimal_width (S a) = 1 \<and> bn_d (S a) ! 0 < w
      then Some (True, set_neg a True (set_wd a 0 (w - bn_d (S a) ! 0) S))
      else
        (case sub_word_loop 0 (bn_width (S a)) w (bn_d (S a)) of
           None \<Rightarrow> None
         | Some (i, d) \<Rightarrow>
             (let S1 = with_words a d S
              in Some (True, if wd S1 a i = 0 \<and> i = bn_width (S1 a) - 1
                             then set_width a (bn_width (S1 a) - 1) S1 else S1))))"
  by pat_completeness auto

termination
  by (relation "measure (\<lambda>x. case x of Inl (_, a, _, S) \<Rightarrow> if bn_neg (S a) then 1 else 0
      | Inr (_, a, _, S) \<Rightarrow> if bn_neg (S a) then 1 else 0)") auto

section \<open>Carries and borrows\<close>

definition carry_word :: "u64 \<Rightarrow> u64 \<Rightarrow> u64 \<Rightarrow> u64 \<Rightarrow> u64 \<times> u64" where
  "carry_word x y z c = (c + x, if c + x < x then 1 else 0)"

definition borrow_word :: "u64 \<Rightarrow> u64 \<Rightarrow> u64 \<Rightarrow> u64 \<Rightarrow> u64 \<times> u64" where
  "borrow_word x y z c = (x - c, if x < x - c then 1 else 0)"

lemma carry_word_value:
  assumes "unat c \<le> 1" and "carry_word x y z c = (v, c1)"
  shows "unat v + 2 ^ 64 * unat c1 = unat x + unat c" and "unat c1 \<le> 1"
proof -
  have v: "v = c + x" "c1 = (if c + x < x then 1 else 0)" using assms(2) by (auto simp: carry_word_def)
  show "unat v + 2 ^ 64 * unat c1 = unat x + unat c"
  proof (cases "unat c + unat x < 2 ^ 64")
    case True
    then have "unat (c + x) = unat c + unat x" by (simp add: unat_word_ariths)
    then show ?thesis by (simp add: v word_less_nat_alt)
  next
    case False
    then have "unat c = 1" "unat x = 2 ^ 64 - 1" using assms(1) unat_u64_less [of x] by simp_all
    moreover from this have "unat (c + x) = 0" by (simp add: unat_word_ariths)
    ultimately show ?thesis by (simp add: v word_less_nat_alt)
  qed
  show "unat c1 \<le> 1" by (simp add: v)
qed

lemma borrow_word_value:
  assumes "uint c \<le> 1" and "borrow_word x y z c = (v, c1)"
  shows "uint v - 2 ^ 64 * uint c1 = uint x - uint c" and "uint c1 \<le> 1"
proof -
  have v: "v = x - c" "c1 = (if x < x - c then 1 else 0)" using assms(2) by (auto simp: borrow_word_def)
  have u: "unat (x - c) = (if unat c \<le> unat x then unat x - unat c else 2 ^ 64 + unat x - unat c)" by (rule unat_minus_wrap)
  have "int (unat c) \<le> 1" using assms(1) by simp
  then have c: "unat c \<le> 1" by linarith
  have "int (unat v) - 2 ^ 64 * int (unat c1) = int (unat x) - int (unat c)"
  proof (cases "unat c \<le> unat x")
    case True
    then have "unat (x - c) = unat x - unat c" using u by simp
    then show ?thesis using True by (simp add: v word_less_nat_alt of_nat_diff del: of_nat_unat)
  next
    case False
    then have "unat c = 1" "unat x = 0" using c by simp_all
    moreover from this have "unat (x - c) = 2 ^ 64 - 1" using u by simp
    ultimately show ?thesis by (simp add: v word_less_nat_alt del: of_nat_unat)
  qed
  then show "uint v - 2 ^ 64 * uint c1 = uint x - uint c" by simp
  show "uint c1 \<le> 1" by (simp add: v)
qed

lemma chain_carry:
  "List.length ys = List.length xs \<Longrightarrow> List.length zs = List.length xs \<Longrightarrow> unat c \<le> 1 \<Longrightarrow>
     word_chain carry_word xs ys zs c = (ws, c1) \<Longrightarrow>
     words_val ws + 2 ^ (64 * List.length xs) * unat c1 = words_val xs + unat c \<and> unat c1 \<le> 1"
proof (induction xs arbitrary: ys zs c ws)
  case (Cons x xs)
  obtain y ys' z zs' where l: "ys = y # ys'" "zs = z # zs'" using Cons.prems(1,2) by (cases ys; cases zs) auto
  obtain v c' ws' where r: "carry_word x y z c = (v, c')" "word_chain carry_word xs ys' zs' c' = (ws', c1)" "ws = v # ws'"
    by (rule word_chain_Cons [OF Cons.prems(4) [unfolded l]])
  note v = carry_word_value [OF Cons.prems(3) r(1)]
  have IH: "words_val ws' + 2 ^ (64 * List.length xs) * unat c1 = words_val xs + unat c' \<and> unat c1 \<le> 1"
    using Cons.IH [OF _ _ v(2) r(2)] Cons.prems(1,2) by (simp add: l)
  have "words_val ws + 2 ^ (64 * List.length (x # xs)) * unat c1 =
      unat v + 2 ^ 64 * (words_val ws' + 2 ^ (64 * List.length xs) * unat c1)"
    by (simp add: r(3) power_add algebra_simps)
  also have "\<dots> = unat x + unat c + 2 ^ 64 * words_val xs" using IH v(1) by (simp add: algebra_simps)
  finally show ?case using IH by (simp add: algebra_simps)
qed simp

lemma chain_borrow:
  "List.length ys = List.length xs \<Longrightarrow> List.length zs = List.length xs \<Longrightarrow> uint c \<le> 1 \<Longrightarrow>
     word_chain borrow_word xs ys zs c = (ws, c1) \<Longrightarrow>
     int (words_val ws) - 2 ^ (64 * List.length xs) * uint c1 = int (words_val xs) - uint c \<and> uint c1 \<le> 1"
proof (induction xs arbitrary: ys zs c ws)
  case (Cons x xs)
  obtain y ys' z zs' where l: "ys = y # ys'" "zs = z # zs'" using Cons.prems(1,2) by (cases ys; cases zs) auto
  obtain v c' ws' where r: "borrow_word x y z c = (v, c')" "word_chain borrow_word xs ys' zs' c' = (ws', c1)" "ws = v # ws'"
    by (rule word_chain_Cons [OF Cons.prems(4) [unfolded l]])
  note v = borrow_word_value [OF Cons.prems(3) r(1)]
  have IH: "int (words_val ws') - 2 ^ (64 * List.length xs) * uint c1 = int (words_val xs) - uint c' \<and> uint c1 \<le> 1"
    using Cons.IH [OF _ _ v(2) r(2)] Cons.prems(1,2) by (simp add: l)
  have "int (words_val ws) - 2 ^ (64 * List.length (x # xs)) * uint c1 =
      uint v + 2 ^ 64 * (int (words_val ws') - 2 ^ (64 * List.length xs) * uint c1)"
    by (simp add: r(3) power_add algebra_simps)
  also have "\<dots> = uint x - uint c + 2 ^ 64 * int (words_val xs)" using IH v(1) by (simp add: algebra_simps)
  finally show ?case using IH by (simp add: algebra_simps)
qed simp

lemma carry_loop:
  assumes "k + n \<le> List.length (bn_d (S a))" and "k + n \<le> List.length (bn_d (S r))" and "unat c \<le> 1"
  obtains ws c1 where
    "fold (carry_step r a) [k..<k + n] (c, S) = (c1, with_words r (take k (bn_d (S r)) @ ws @ drop (k + n) (bn_d (S r))) S)"
    and "List.length ws = n" and "words_val ws + 2 ^ (64 * n) * unat c1 = words_val (take n (drop k (bn_d (S a)))) + unat c"
    and "unat c1 \<le> 1"
proof -
  have step: "carry_step r a i (c, S) =
      (let (w, c1) = carry_word (wd S a i) (wd S a i) (wd S r (0 + i)) c in (c1, set_wd r (0 + i) w S))" for i c S
    by (simp add: carry_step_def carry_word_def Let_def)
  obtain ws c1 where r: "word_chain carry_word (take n (drop k (bn_d (S a)))) (take n (drop k (bn_d (S a)))) (take n (drop (0 + k) (bn_d (S r)))) c = (ws, c1)"
    "fold (carry_step r a) [k..<k + n] (c, S) = (c1, with_words r (take (0 + k) (bn_d (S r)) @ ws @ drop (0 + k + n) (bn_d (S r))) S)"
    "List.length ws = n"
    by (rule word_chain_store [of "carry_step r a" carry_word a a r 0 k n S c, OF step]) (use assms in simp_all)
  show thesis using that [of c1 ws] r chain_carry [OF _ _ assms(3) r(1)] assms(1,2) by simp
qed

lemma borrow_loop:
  assumes "k + n \<le> List.length (bn_d (S a))" and "k + n \<le> List.length (bn_d (S r))" and "uint c \<le> 1"
  obtains ws c1 where
    "fold (borrow_step r a) [k..<k + n] (c, S) = (c1, with_words r (take k (bn_d (S r)) @ ws @ drop (k + n) (bn_d (S r))) S)"
    and "List.length ws = n"
    and "int (words_val ws) - 2 ^ (64 * n) * uint c1 = int (words_val (take n (drop k (bn_d (S a))))) - uint c" and "uint c1 \<le> 1"
proof -
  have step: "borrow_step r a i (c, S) =
      (let (w, c1) = borrow_word (wd S a i) (wd S a i) (wd S r (0 + i)) c in (c1, set_wd r (0 + i) w S))" for i c S
    by (simp add: borrow_step_def borrow_word_def Let_def)
  obtain ws c1 where r: "word_chain borrow_word (take n (drop k (bn_d (S a)))) (take n (drop k (bn_d (S a)))) (take n (drop (0 + k) (bn_d (S r)))) c = (ws, c1)"
    "fold (borrow_step r a) [k..<k + n] (c, S) = (c1, with_words r (take (0 + k) (bn_d (S r)) @ ws @ drop (0 + k + n) (bn_d (S r))) S)"
    "List.length ws = n"
    by (rule word_chain_store [of "borrow_step r a" borrow_word a a r 0 k n S c, OF step]) (use assms in simp_all)
  show thesis using that [of c1 ws] r chain_borrow [OF _ _ assms(3) r(1)] assms(1,2) by simp
qed

section \<open>Magnitudes\<close>

abbreviation bn_room :: "sys_alloc \<Rightarrow> nat \<Rightarrow> nat \<Rightarrow> bn_store \<Rightarrow> bool" where
  "bn_room al p n S \<equiv> \<forall>m\<le>n. fst (bn_wexpand al p m S)"

abbreviation bn_fits :: "bignum \<Rightarrow> bool" where
  "bn_fits b \<equiv> bn_width b \<le> List.length (bn_d b)"

text \<open>The addition with the operands in order of their widths.\<close>

lemma uadd_ordered:
  assumes "bn_fits (S a)" and "bn_fits (S b)" and "bn_fits (S r)" and "bn_width (S b) \<le> bn_width (S a)"
    and "bn_wexpand al r (bn_width (S a) + 1) S = (True, T)"
  obtains ws where "(let S1 = set_width r (bn_width (S a) + 1) T;
                (carry, S2) = bn_add_words r a b (bn_width (S b)) S1;
                (carry2, S3) = fold (carry_step r a) [bn_width (S b)..<bn_width (S a)] (carry, S2)
            in (True, set_wd r (bn_width (S a)) carry2 S3)) =
          (True, S(r := (S r)\<lparr>bn_width := bn_width (S a) + 1, bn_d := ws\<rparr>))"
    and "bn_width (S a) + 1 \<le> List.length ws" and "words_val (take (bn_width (S a) + 1) ws) = bn_mag (S a) + bn_mag (S b)"
proof -
  let ?mx = "bn_width (S a)" and ?mn = "bn_width (S b)"
  obtain d where d: "T = with_words r d S" "?mx + 1 \<le> List.length d" "take (bn_width (S r)) d = take (bn_width (S r)) (bn_d (S r))"
    using assms(5) bn_wexpand_cases [where S = S and p = r and al = al and n = "?mx + 1", OF assms(3)] by (metis Pair_inject)
  let ?S1 = "set_width r (?mx + 1) T"
  have w: "take (bn_width (S p)) (bn_d (?S1 p)) = take (bn_width (S p)) (bn_d (S p))" "bn_width (S p) \<le> List.length (bn_d (?S1 p))"
    if "p = a \<or> p = b" for p
    using that d assms(1,2,4) by auto
  have r1: "bn_d (?S1 r) = d" by (simp add: d(1))
  have la: "?mx \<le> List.length (bn_d (?S1 a))" using w(2) [of a] by simp
  obtain ws1 c1 where s1: "bn_add_words r a b ?mn ?S1 = (c1, with_words r (ws1 @ drop ?mn d) ?S1)" "List.length ws1 = ?mn"
      "words_val ws1 + 2 ^ (64 * ?mn) * unat c1 = words_val (take ?mn (bn_d (?S1 a))) + words_val (take ?mn (bn_d (?S1 b)))" "unat c1 \<le> 1"
    by (rule bn_add_words_spec [of ?mn ?S1 a b r, unfolded r1]) (use la w(2) [of b] assms(4) d(2) in simp_all)
  let ?S2 = "with_words r (ws1 @ drop ?mn d) ?S1" and ?n = "?mx - ?mn"
  have drop2: "drop ?mn (bn_d (?S2 a)) = drop ?mn (bn_d (?S1 a))" using s1(2) r1 by (cases "a = r") simp_all
  have len2: "List.length (bn_d (?S2 a)) = List.length (bn_d (?S1 a))" using s1(2) r1 d(2) assms(4) by (cases "a = r") simp_all
  have r2: "bn_d (?S2 r) = ws1 @ drop ?mn d" by simp
  obtain ws2 c2 where s2: "fold (carry_step r a) [?mn..<?mn + ?n] (c1, ?S2) =
        (c2, with_words r (take ?mn (ws1 @ drop ?mn d) @ ws2 @ drop (?mn + ?n) (ws1 @ drop ?mn d)) ?S2)" "List.length ws2 = ?n"
      "words_val ws2 + 2 ^ (64 * ?n) * unat c2 = words_val (take ?n (drop ?mn (bn_d (?S2 a)))) + unat c1" "unat c2 \<le> 1"
    by (rule carry_loop [of ?mn ?n ?S2 a r c1, unfolded r2]) (use len2 la s1 assms(4) d(2) in simp_all)
  have n: "?mn + ?n = ?mx" using assms(4) by simp
  have tail: "drop ?mx (ws1 @ drop ?mn d) = drop ?mx d" using s1(2) assms(4) by simp
  have "take ?mn (ws1 @ drop ?mn d) = ws1" using s1(2) by simp
  note s2' = s2(1) [unfolded n tail this]
  let ?ws = "(ws1 @ ws2 @ drop ?mx d)[?mx := c2]"
  have ws: "?ws = ws1 @ ws2 @ c2 # drop (Suc ?mx) d"
    using s1(2) s2(2) n d(2) by (simp add: list_update_append Cons_nth_drop_Suc [symmetric])
  have A: "bn_mag (S a) = words_val (take ?mn (bn_d (?S1 a))) + 2 ^ (64 * ?mn) * words_val (take ?n (drop ?mn (bn_d (?S1 a))))"
    using words_val_split [of ?mn "take ?mx (bn_d (?S1 a))"] w [of a] assms(1,4) n
    by (simp add: bn_mag_def min_def drop_take)
  have B: "bn_mag (S b) = words_val (take ?mn (bn_d (?S1 b)))" using w(1) [of b] by (simp add: bn_mag_def)
  have "words_val (take (?mx + 1) ?ws) = words_val ws1 + 2 ^ (64 * ?mn) * (words_val ws2 + 2 ^ (64 * ?n) * unat c2)"
    using s1(2) s2(2) n unfolding ws by (simp add: words_val_append)
  also have "\<dots> = bn_mag (S a) + bn_mag (S b)"
    using s1(3) unfolding s2(3) drop2 A B by (simp add: algebra_simps)
  finally have V: "words_val (take (?mx + 1) ?ws) = bn_mag (S a) + bn_mag (S b)" .
  have "(let S1 = ?S1; (carry, S2) = bn_add_words r a b ?mn S1; (carry2, S3) = fold (carry_step r a) [?mn..<?mx] (carry, S2)
            in (True, set_wd r ?mx carry2 S3)) = (True, S(r := (S r)\<lparr>bn_width := ?mx + 1, bn_d := ?ws\<rparr>))"
    unfolding Let_def s1(1) prod.case s2' by (simp add: d(1) set_wd_def with_words_def set_width_def)
  then show thesis using that [of ?ws] V d(2) s1(2) s2(2) n by simp
qed

lemma bn_uadd_consttime_cases:
  assumes "bn_fits (S a)" and "bn_fits (S b)" and "bn_fits (S r)"
  obtains (fail) "bn_uadd_consttime al r a b S = (False, S)" and "\<not> bn_room al r (max (bn_width (S a)) (bn_width (S b)) + 1) S"
  | (ok) ws where "bn_uadd_consttime al r a b S =
        (True, S(r := (S r)\<lparr>bn_width := max (bn_width (S a)) (bn_width (S b)) + 1, bn_d := ws\<rparr>))"
      and "max (bn_width (S a)) (bn_width (S b)) + 1 \<le> List.length ws"
      and "words_val (take (max (bn_width (S a)) (bn_width (S b)) + 1) ws) = bn_mag (S a) + bn_mag (S b)"
proof -
  define x where "x = (if bn_width (S a) < bn_width (S b) then b else a)"
  define y where "y = (if bn_width (S a) < bn_width (S b) then a else b)"
  have xy: "(if bn_width (S a) < bn_width (S b) then (b, a) else (a, b)) = (x, y)"
      "bn_fits (S x)" "bn_fits (S y)" "bn_width (S y) \<le> bn_width (S x)" "bn_mag (S x) + bn_mag (S y) = bn_mag (S a) + bn_mag (S b)"
    using assms by (simp_all add: x_def y_def)
  have mx: "max (bn_width (S a)) (bn_width (S b)) = bn_width (S x)" by (simp add: x_def)
  let ?mx = "bn_width (S x)"
  show thesis
  proof (rule bn_wexpand_cases [where S = S and p = r and al = al and n = "?mx + 1", OF assms(3)])
    assume f: "bn_wexpand al r (?mx + 1) S = (False, S)"
    have "bn_uadd_consttime al r a b S = (False, S)"
      unfolding bn_uadd_consttime_def xy(1) using f by simp
    then show thesis using fail f unfolding mx by fastforce
  next
    fix d assume d: "bn_wexpand al r (?mx + 1) S = (True, with_words r d S)"
    show thesis
    proof (rule uadd_ordered [OF xy(2,3) assms(3) xy(4) d])
      fix ws assume ws: "(let S1 = set_width r (?mx + 1) (with_words r d S); (carry, S2) = bn_add_words r x y (bn_width (S y)) S1;
            (carry2, S3) = fold (carry_step r x) [bn_width (S y)..<?mx] (carry, S2)
          in (True, set_wd r ?mx carry2 S3)) = (True, S(r := (S r)\<lparr>bn_width := ?mx + 1, bn_d := ws\<rparr>))"
        "?mx + 1 \<le> List.length ws" "words_val (take (?mx + 1) ws) = bn_mag (S x) + bn_mag (S y)"
      have "bn_uadd_consttime al r a b S = (True, S(r := (S r)\<lparr>bn_width := ?mx + 1, bn_d := ws\<rparr>))"
        unfolding bn_uadd_consttime_def xy(1) Let_def prod.case d bn_then_simps using ws(1) [unfolded Let_def] .
      then show thesis using ok [of ws] ws(2,3) xy(5) unfolding mx by simp
    qed
  qed
qed

lemma bn_usub_consttime_cases:
  assumes "bn_fits (S a)" and "bn_fits (S b)" and "bn_fits (S r)" and "bn_mag (S b) \<le> bn_mag (S a)"
  obtains (fail) "bn_usub_consttime al r a b S = (False, S)" and "\<not> bn_room al r (bn_width (S a)) S"
  | (ok) ws where "bn_usub_consttime al r a b S =
        (True, S(r := (S r)\<lparr>bn_d := ws, bn_width := bn_width (S a), bn_neg := False\<rparr>))"
      and "bn_width (S a) \<le> List.length ws"
      and "int (words_val (take (bn_width (S a)) ws)) = int (bn_mag (S a)) - int (bn_mag (S b))"
proof -
  let ?wa = "bn_width (S a)" and ?wb = "bn_width (S b)"
  define bw where "bw = (if ?wb > ?wa then ?wa else ?wb)"
  have bw: "bw \<le> ?wa" "bw \<le> ?wb" by (auto simp: bw_def)
  have "bn_mag (S a) < 2 ^ (64 * ?wa)" using words_val_less [of "take ?wa (bn_d (S a))"] assms(1) by (simp add: bn_mag_def)
  have fits: "bn_fits_in_words (S b) ?wa" if "?wb > ?wa"
  proof -
    have "bn_mag (S b) = words_val (take ?wa (bn_d (S b))) + 2 ^ (64 * ?wa) * words_val (drop ?wa (take ?wb (bn_d (S b))))"
      using words_val_split [of ?wa "take ?wb (bn_d (S b))"] that assms(2) by (simp add: bn_mag_def min_def)
    then have "2 ^ (64 * ?wa) * words_val (drop ?wa (take ?wb (bn_d (S b)))) < 2 ^ (64 * ?wa) * 1"
      using \<open>bn_mag (S a) < 2 ^ (64 * ?wa)\<close> assms(4) by linarith
    then show ?thesis using bn_fits_in_words_iff [OF assms(2), of ?wa] by simp
  qed
  have B: "bn_mag (S b) = words_val (take bw (bn_d (S b)))"
    using bn_fits_value [OF assms(2), of ?wa] fits by (cases "?wb > ?wa") (simp_all add: bw_def bn_mag_def)
  show thesis
  proof (rule bn_wexpand_cases [where S = S and p = r and al = al and n = ?wa, OF assms(3)])
    assume f: "bn_wexpand al r ?wa S = (False, S)"
    have "bn_usub_consttime al r a b S = (False, S)"
      unfolding bn_usub_consttime_def bw_def [symmetric] using f fits by simp
    then show thesis using fail f by fastforce
  next
    fix d assume d: "bn_wexpand al r ?wa S = (True, with_words r d S)" "?wa \<le> List.length d"
      "take (bn_width (S r)) d = take (bn_width (S r)) (bn_d (S r))" "bn_width (S r) \<le> List.length d"
    let ?T = "with_words r d S"
    have w: "take (bn_width (S p)) (bn_d (?T p)) = take (bn_width (S p)) (bn_d (S p))" "bn_width (S p) \<le> List.length (bn_d (?T p))"
      if "p = a \<or> p = b" for p
      using that d assms(1,2) by auto
    have r1: "bn_d (?T r) = d" by simp
    have la: "?wa \<le> List.length (bn_d (?T a))" using w(2) [of a] by simp
    obtain ws1 c1 where s1: "bn_sub_words r a b bw ?T = (c1, with_words r (ws1 @ drop bw d) ?T)" "List.length ws1 = bw"
        "int (words_val ws1) - 2 ^ (64 * bw) * uint c1 = int (words_val (take bw (bn_d (?T a)))) - int (words_val (take bw (bn_d (?T b))))"
        "uint c1 \<le> 1"
      by (rule bn_sub_words_spec [of bw ?T a b r, unfolded r1]) (use la w(2) [of b] bw d(2) in simp_all)
    let ?S1 = "with_words r (ws1 @ drop bw d) ?T" and ?n = "?wa - bw"
    have drop2: "drop bw (bn_d (?S1 a)) = drop bw (bn_d (?T a))" using s1(2) r1 by (cases "a = r") simp_all
    have len2: "List.length (bn_d (?S1 a)) = List.length (bn_d (?T a))" using s1(2) r1 d(2) bw by (cases "a = r") simp_all
    have r2: "bn_d (?S1 r) = ws1 @ drop bw d" by simp
    obtain ws2 c2 where s2: "fold (borrow_step r a) [bw..<bw + ?n] (c1, ?S1) =
          (c2, with_words r (take bw (ws1 @ drop bw d) @ ws2 @ drop (bw + ?n) (ws1 @ drop bw d)) ?S1)" "List.length ws2 = ?n"
        "int (words_val ws2) - 2 ^ (64 * ?n) * uint c2 = int (words_val (take ?n (drop bw (bn_d (?S1 a))))) - uint c1" "uint c2 \<le> 1"
      by (rule borrow_loop [of bw ?n ?S1 a r c1, unfolded r2]) (use len2 la s1 bw d(2) in simp_all)
    have n: "bw + ?n = ?wa" using bw by simp
    have tail: "drop ?wa (ws1 @ drop bw d) = drop ?wa d" using s1(2) bw by simp
    have "take bw (ws1 @ drop bw d) = ws1" using s1(2) by simp
    note s2' = s2(1) [unfolded n tail this]
    let ?ws = "ws1 @ ws2 @ drop ?wa d"
    have A: "bn_mag (S a) = words_val (take bw (bn_d (?T a))) + 2 ^ (64 * bw) * words_val (take ?n (drop bw (bn_d (?T a))))"
      using words_val_split [of bw "take ?wa (bn_d (?T a))"] w [of a] assms(1) bw n by (simp add: bn_mag_def min_def drop_take)
    have B': "bn_mag (S b) = words_val (take bw (bn_d (?T b)))"
      using B arg_cong [OF w(1) [of b], of "take bw"] bw(2) by (simp add: min_absorb1)
    have V: "int (words_val (ws1 @ ws2)) - 2 ^ (64 * ?wa) * uint c2 = int (bn_mag (S a)) - int (bn_mag (S b))"
    proof -
      have p: "(2 :: int) ^ (64 * ?wa) = 2 ^ (64 * bw) * 2 ^ (64 * ?n)" using n by (metis add_mult_distrib2 power_add)
      have "int (words_val (ws1 @ ws2)) - 2 ^ (64 * ?wa) * uint c2 =
          int (words_val ws1) + 2 ^ (64 * bw) * (int (words_val ws2) - 2 ^ (64 * ?n) * uint c2)"
        using s1(2) unfolding p by (simp add: words_val_append algebra_simps)
      also have "\<dots> = int (bn_mag (S a)) - int (bn_mag (S b))"
        using s1(3) unfolding s2(3) drop2 A B' by (simp add: algebra_simps)
      finally show ?thesis .
    qed
    have "int (words_val (ws1 @ ws2)) < 2 ^ (64 * ?wa)"
    proof -
      have "words_val (ws1 @ ws2) < 2 ^ (64 * ?wa)" using words_val_less [of "ws1 @ ws2"] s1(2) s2(2) n by simp
      then show ?thesis by (metis of_nat_less_iff of_nat_numeral of_nat_power)
    qed
    moreover have "0 \<le> int (bn_mag (S a)) - int (bn_mag (S b))" using assms(4) by simp
    ultimately have "2 ^ (64 * ?wa) * uint c2 < 2 ^ (64 * ?wa) * 1" using V by linarith
    then have "uint c2 < 1" by (simp only: mult_less_cancel_left_pos zero_less_power zero_less_numeral)
    then have c2: "uint c2 = 0" using uint_ge_0 [of c2] by linarith
    have "bn_usub_consttime al r a b S =
        (True, set_neg r False (set_width r ?wa (with_words r ?ws ?S1)))"
    proof -
      have k: "bn_width (?S1 a) = ?wa" "bn_width (with_words r ?ws ?S1 a) = ?wa" by simp_all
      show ?thesis unfolding bn_usub_consttime_def bw_def [symmetric] using fits d(1) s1(1) s2' c2 k
        by (simp add: Let_def unsigned_eq_0_iff del: store_simps)
    qed
    also have "\<dots> = (True, S(r := (S r)\<lparr>bn_d := ?ws, bn_width := ?wa, bn_neg := False\<rparr>))"
      by (simp add: with_words_def set_width_def set_neg_def)
    finally show thesis using ok [of ?ws] V c2 s1(2) s2(2) n d(2) by simp
  qed
qed

section \<open>Integers\<close>

text \<open>
  What an operation promises: only \<open>r\<close> changes; on success it is a well-formed number with the value \<open>v\<close>; it fails only
  if the array of \<open>r\<close> cannot be made large enough.
\<close>

definition bn_computes :: "sys_alloc \<Rightarrow> nat \<Rightarrow> nat \<Rightarrow> int \<Rightarrow> bn_store \<Rightarrow> bool \<times> bn_store \<Rightarrow> bool" where
  "bn_computes al r n v S res \<longleftrightarrow>
     (\<forall>q. q \<noteq> r \<longrightarrow> snd res q = S q) \<and>
     (if fst res then bn_ok (snd res r) \<and> bn_val (snd res r) = v else \<not> bn_room al r n S)"

lemma bn_computes_mono: "bn_computes al r n v S res \<Longrightarrow> n \<le> m \<Longrightarrow> bn_computes al r m v S res"
  by (auto simp: bn_computes_def) (meson le_trans)+

text \<open>Trimming the words behind an operation on magnitudes, and setting the sign.\<close>

lemma trimmed:
  assumes "bn_fits (S r)" and "bn_mag (S r) = n" and "s \<longrightarrow> n \<noteq> 0"
  shows "bn_ok (set_neg r s (bn_set_minimal_width r S) r) \<and> bn_val (set_neg r s (bn_set_minimal_width r S) r) = (if s then - int n else int n)"
proof -
  obtain w t where "bn_set_minimal_width r S r = (S r)\<lparr>bn_width := w, bn_neg := t\<rparr>" "w \<le> bn_width (S r)"
      "bn_mag (bn_set_minimal_width r S r) = bn_mag (S r)"
    using bn_set_minimal_width_spec [where S = S and p = r, OF assms(1)] by blast
  then show ?thesis using assms by (auto simp: bn_ok_def bn_val_def bn_mag_def)
qed

lemma BN_uadd_computes:
  assumes "bn_fits (S a)" and "bn_fits (S b)" and "bn_fits (S r)" and "s \<longrightarrow> bn_mag (S a) + bn_mag (S b) \<noteq> 0"
  shows "bn_computes al r (max (bn_width (S a)) (bn_width (S b)) + 1)
    (if s then - (int (bn_mag (S a)) + int (bn_mag (S b))) else int (bn_mag (S a)) + int (bn_mag (S b))) S
    (fst (BN_uadd al r a b S), set_neg r s (snd (BN_uadd al r a b S)))"
proof (rule bn_uadd_consttime_cases [where S = S and a = a and b = b and r = r and al = al, OF assms(1-3)])
  assume "bn_uadd_consttime al r a b S = (False, S)" "\<not> bn_room al r (max (bn_width (S a)) (bn_width (S b)) + 1) S"
  then show ?thesis by (simp add: BN_uadd_def bn_computes_def)
next
  fix ws
  let ?S = "S(r := (S r)\<lparr>bn_width := max (bn_width (S a)) (bn_width (S b)) + 1, bn_d := ws\<rparr>)"
  assume ok: "bn_uadd_consttime al r a b S = (True, ?S)" "max (bn_width (S a)) (bn_width (S b)) + 1 \<le> List.length ws"
    "words_val (take (max (bn_width (S a)) (bn_width (S b)) + 1) ws) = bn_mag (S a) + bn_mag (S b)"
  have "bn_ok (set_neg r s (bn_set_minimal_width r ?S) r) \<and> bn_val (set_neg r s (bn_set_minimal_width r ?S) r) =
      (if s then - int (bn_mag (S a) + bn_mag (S b)) else int (bn_mag (S a) + bn_mag (S b)))"
    using ok(2,3) assms(4) by (intro trimmed) (simp_all add: bn_mag_def)
  then show ?thesis using ok(1) by (simp add: BN_uadd_def bn_computes_def)
qed

lemma BN_usub_computes:
  assumes "bn_fits (S a)" and "bn_fits (S b)" and "bn_fits (S r)" and "bn_mag (S b) \<le> bn_mag (S a)"
    and "s \<longrightarrow> bn_mag (S b) \<noteq> bn_mag (S a)"
  shows "bn_computes al r (bn_width (S a))
    (if s then int (bn_mag (S b)) - int (bn_mag (S a)) else int (bn_mag (S a)) - int (bn_mag (S b))) S
    (bn_then (BN_usub al r a b S) (\<lambda>S. (True, set_neg r s S)))"
proof (rule bn_usub_consttime_cases [where S = S and a = a and b = b and r = r and al = al, OF assms(1-4)])
  assume "bn_usub_consttime al r a b S = (False, S)" "\<not> bn_room al r (bn_width (S a)) S"
  then show ?thesis by (simp add: BN_usub_def bn_computes_def)
next
  fix ws
  let ?S = "S(r := (S r)\<lparr>bn_d := ws, bn_width := bn_width (S a), bn_neg := False\<rparr>)"
  assume ok: "bn_usub_consttime al r a b S = (True, ?S)" "bn_width (S a) \<le> List.length ws"
    "int (words_val (take (bn_width (S a)) ws)) = int (bn_mag (S a)) - int (bn_mag (S b))"
  then have v: "words_val (take (bn_width (S a)) ws) = bn_mag (S a) - bn_mag (S b)" using assms(4) by linarith
  have "bn_ok (set_neg r s (bn_set_minimal_width r ?S) r) \<and> bn_val (set_neg r s (bn_set_minimal_width r ?S) r) =
      (if s then - int (bn_mag (S a) - bn_mag (S b)) else int (bn_mag (S a) - bn_mag (S b)))"
    using ok(2) v assms(4,5) by (intro trimmed) (auto simp: bn_mag_def)
  then show ?thesis using ok(1) assms(4) by (auto simp: BN_usub_def bn_computes_def of_nat_diff)
qed

lemma bn_ok_fits: "bn_ok b \<Longrightarrow> bn_fits b"
  by (simp add: bn_ok_def)

text \<open>The comparison of magnitudes that decides which way round to subtract.\<close>

lemma subtract_computes:
  assumes "bn_fits (S a)" and "bn_fits (S b)" and "bn_fits (S r)"
  shows "bn_computes al r (max (bn_width (S a)) (bn_width (S b)) + 1) (int (bn_mag (S a)) - int (bn_mag (S b))) S
    (if BN_ucmp (S a) (S b) < 0 then bn_then (BN_usub al r b a S) (\<lambda>S. (True, set_neg r True S))
     else bn_then (BN_usub al r a b S) (\<lambda>S. (True, set_neg r False S)))"
proof (cases "bn_mag (S a) < bn_mag (S b)")
  case True
  then have "BN_ucmp (S a) (S b) < 0" using BN_ucmp_sgn [OF assms(1,2)] by simp
  moreover have "bn_computes al r (bn_width (S b)) (int (bn_mag (S a)) - int (bn_mag (S b))) S
      (bn_then (BN_usub al r b a S) (\<lambda>S. (True, set_neg r True S)))"
    using BN_usub_computes [OF assms(2,1,3), of True al] True by simp
  ultimately show ?thesis by (simp add: bn_computes_mono)
next
  case False
  then have "\<not> BN_ucmp (S a) (S b) < 0" using BN_ucmp_sgn [OF assms(1,2)] by (simp add: sgn_if)
  moreover have "bn_computes al r (bn_width (S a)) (int (bn_mag (S a)) - int (bn_mag (S b))) S
      (bn_then (BN_usub al r a b S) (\<lambda>S. (True, set_neg r False S)))"
    using BN_usub_computes [OF assms(1-3), of False al] False by simp
  ultimately show ?thesis by (simp add: bn_computes_mono)
qed

lemma BN_add_computes:
  assumes "bn_ok (S a)" and "bn_ok (S b)" and "bn_ok (S r)"
  shows "bn_computes al r (max (bn_width (S a)) (bn_width (S b)) + 1) (bn_val (S a) + bn_val (S b)) S (BN_add al r a b S)"
proof (cases "bn_neg (S a) = bn_neg (S b)")
  case True
  have "bn_neg (S a) \<longrightarrow> bn_mag (S a) + bn_mag (S b) \<noteq> 0" using assms(1) by (simp add: bn_ok_def)
  from BN_uadd_computes [OF assms [THEN bn_ok_fits] this, of al] show ?thesis
    using True by (simp add: BN_add_def bn_val_def case_prod_beta split: if_splits)
next
  case False
  note sub = subtract_computes [OF assms(1,2,3) [THEN bn_ok_fits], of al] subtract_computes [OF assms(2,1,3) [THEN bn_ok_fits], of al]
  show ?thesis
  proof (cases "bn_neg (S a)")
    case True
    then show ?thesis using sub(2) False by (simp add: BN_add_def bn_val_def max.commute)
  next
    case 2: False
    then show ?thesis using sub(1) False by (simp add: BN_add_def bn_val_def)
  qed
qed

lemma BN_sub_computes:
  assumes "bn_ok (S a)" and "bn_ok (S b)" and "bn_ok (S r)"
  shows "bn_computes al r (max (bn_width (S a)) (bn_width (S b)) + 1) (bn_val (S a) - bn_val (S b)) S (BN_sub al r a b S)"
proof -
  note fits = assms [THEN bn_ok_fits]
  note sub = subtract_computes [OF fits, of al] subtract_computes [OF fits(2,1,3), of al]
  have add: "bn_computes al r (max (bn_width (S a)) (bn_width (S b)) + 1)
      (if s then - (int (bn_mag (S a)) + int (bn_mag (S b))) else int (bn_mag (S a)) + int (bn_mag (S b))) S
      (bn_then (BN_uadd al r a b S) (\<lambda>S. (True, set_neg r s S)))" if "s \<longrightarrow> bn_mag (S a) \<noteq> 0" for s
  proof -
    have "bn_computes al r (max (bn_width (S a)) (bn_width (S b)) + 1)
        (if s then - (int (bn_mag (S a)) + int (bn_mag (S b))) else int (bn_mag (S a)) + int (bn_mag (S b))) S
        (fst (BN_uadd al r a b S), set_neg r s (snd (BN_uadd al r a b S)))"
      using that by (intro BN_uadd_computes [OF fits]) simp
    then show ?thesis by (cases "BN_uadd al r a b S") (auto simp: bn_computes_def bn_then_def)
  qed
  show ?thesis
  proof (cases "bn_neg (S a)")
    case True
    then show ?thesis using sub(2) add [of True] assms(1)
      by (cases "bn_neg (S b)") (simp_all add: BN_sub_def bn_val_def bn_ok_def max.commute)
  next
    case False
    then show ?thesis using sub(1) add [of False] by (cases "bn_neg (S b)") (simp_all add: BN_sub_def bn_val_def)
  qed
qed

section \<open>Adding and subtracting a word\<close>

lemma words_val_update:
  assumes "i < n" and "n \<le> List.length d"
  shows "words_val (take n (d[i := w])) + 2 ^ (64 * i) * unat (d ! i) = words_val (take n d) + 2 ^ (64 * i) * unat w"
proof -
  have s: "words_val xs = words_val (take i xs) + 2 ^ (64 * i) * (unat (xs ! i) + 2 ^ 64 * words_val (drop (Suc i) xs))"
    if "i < List.length xs" for xs :: "u64 list"
    using words_val_split [of i xs] Cons_nth_drop_Suc [OF that, symmetric] that by simp
  have "words_val (take n (d[i := w])) = words_val (take i d) + 2 ^ (64 * i) * (unat w + 2 ^ 64 * words_val (drop (Suc i) (take n d)))"
    by (subst s) (use assms in \<open>simp_all add: take_update_swap list_update_beyond min_def\<close>)
  moreover have "words_val (take n d) = words_val (take i d) + 2 ^ (64 * i) * (unat (d ! i) + 2 ^ 64 * words_val (drop (Suc i) (take n d)))"
    by (subst s) (use assms in \<open>simp_all add: min_def\<close>)
  ultimately show ?thesis by (simp only: distrib_left)
qed

lemma add_word_loop_spec:
  "i + k \<le> List.length d \<Longrightarrow> add_word_loop i k w d = (j, w1, d1) \<Longrightarrow>
     List.length d1 = List.length d \<and> (w1 \<noteq> 0 \<longrightarrow> j = i + k) \<and>
     words_val (take (i + k) d) + 2 ^ (64 * i) * unat w = words_val (take (i + k) d1) + 2 ^ (64 * (i + k)) * unat w1"
proof (induction i k w d rule: add_word_loop.induct)
  case (2 i k w d)
  show ?case
  proof (cases "w = 0")
    case True
    then show ?thesis using 2(3) by auto
  next
    case False
    let ?l = "d ! i + w" and ?c = "if w > d ! i + w then 1 else 0 :: u64"
    have rec: "add_word_loop (i + 1) k ?c (d[i := ?l]) = (j, w1, d1)" using 2(3) False by (simp add: Let_def)
    have IH: "List.length d1 = List.length d" "w1 \<noteq> 0 \<longrightarrow> j = i + Suc k"
        "words_val (take (i + Suc k) (d[i := ?l])) + 2 ^ (64 * (i + 1)) * unat ?c =
         words_val (take (i + Suc k) d1) + 2 ^ (64 * (i + Suc k)) * unat w1"
      using 2(1) [OF False refl _ rec] 2(2) by simp_all
    have u: "unat ?l = (unat (d ! i) + unat w) mod 2 ^ 64" by (simp add: unat_word_ariths)
    have l: "unat ?l + 2 ^ 64 * unat ?c = unat (d ! i) + unat w"
      using unat_u64_less [of w] unat_u64_less [of "d ! i"] u
      by (cases "unat (d ! i) + unat w < 2 ^ 64") (auto simp: word_less_nat_alt le_mod_geq)
    have "words_val (take (i + Suc k) (d[i := ?l])) + 2 ^ (64 * i) * unat (d ! i) = words_val (take (i + Suc k) d) + 2 ^ (64 * i) * unat ?l"
      using 2(2) by (intro words_val_update) simp_all
    moreover have "2 ^ (64 * i) * unat ?l + 2 ^ (64 * (i + 1)) * unat ?c = 2 ^ (64 * i) * unat (d ! i) + 2 ^ (64 * i) * unat w"
    proof -
      have "2 ^ (64 * i) * unat ?l + 2 ^ (64 * (i + 1)) * unat ?c = 2 ^ (64 * i) * (unat ?l + 2 ^ 64 * unat ?c)"
        by (simp add: power_add algebra_simps)
      then show ?thesis unfolding l by (simp add: algebra_simps)
    qed
    ultimately show ?thesis using IH by linarith
  qed
qed auto

lemma sub_word_loop_spec:
  "i + k \<le> List.length d \<Longrightarrow> unat w \<le> words_val (drop i (take (i + k) d)) \<Longrightarrow> 0 < k \<Longrightarrow>
     \<exists>j d1. sub_word_loop i k w d = Some (j, d1) \<and> j < i + k \<and> List.length d1 = List.length d \<and>
       words_val (take (i + k) d1) + 2 ^ (64 * i) * unat w = words_val (take (i + k) d)"
proof (induction i k w d rule: sub_word_loop.induct)
  case (2 i k w d)
  let ?v = "d ! i - w" and ?n = "i + Suc k"
  have upd: "words_val (take ?n (d[i := ?v])) + 2 ^ (64 * i) * unat (d ! i) = words_val (take ?n d) + 2 ^ (64 * i) * unat ?v"
    using 2(2) by (intro words_val_update) simp_all
  show ?case
  proof (cases "d ! i \<ge> w")
    case True
    then have "unat ?v + unat w = unat (d ! i)" by (simp add: unat_minus_wrap word_le_nat_alt)
    then have "2 ^ (64 * i) * unat ?v + 2 ^ (64 * i) * unat w = 2 ^ (64 * i) * unat (d ! i)" by (metis distrib_left)
    then show ?thesis using True upd by auto
  next
    case False
    then have lt: "unat (d ! i) < unat w" by (simp add: word_le_nat_alt)
    then have v: "unat ?v + unat w = 2 ^ 64 + unat (d ! i)" using unat_u64_less [of w] by (simp add: unat_minus_wrap)
    have split: "drop i (take ?n d) = d ! i # drop (Suc i) (take ?n d)"
      using 2(2) by (simp add: Cons_nth_drop_Suc [symmetric])
    have ge: "0 < words_val (drop (Suc i) (take ?n d))" using 2(3) lt unfolding split by (cases "words_val (drop (Suc i) (take ?n d))") simp_all
    then have k: "0 < k" by (cases k) simp_all
    have same: "drop (i + 1) (take (i + 1 + k) (d[i := ?v])) = drop (Suc i) (take ?n d)" by (simp add: take_update_swap)
    have one: "unat (1 :: u64) \<le> words_val (drop (i + 1) (take (i + 1 + k) (d[i := ?v])))" using ge unfolding same by simp
    obtain j d1 where IH: "sub_word_loop (i + 1) k 1 (d[i := ?v]) = Some (j, d1)" "j < ?n" "List.length d1 = List.length d"
        "words_val (take ?n d1) + 2 ^ (64 * (i + 1)) = words_val (take ?n (d[i := ?v]))"
      using 2(1) [OF False _ one k] 2(2) by auto
    have "2 ^ (64 * i) * unat ?v + 2 ^ (64 * i) * unat w = 2 ^ (64 * i) * 2 ^ 64 + 2 ^ (64 * i) * unat (d ! i)"
      using v by (metis distrib_left)
    moreover have "(2 :: nat) ^ (64 * (i + 1)) = 2 ^ (64 * i) * 2 ^ 64" by (simp add: power_add)
    ultimately have "words_val (take ?n d1) + 2 ^ (64 * i) * unat w = words_val (take ?n d)" using IH(4) upd by linarith
    then show ?thesis using IH(1-3) False by auto
  qed
qed simp

declare BN_add_word.simps [simp del] BN_sub_word.simps [simp del]

lemma bn_wexpand_same_room:
  "List.length (bn_d (S' p)) = List.length (bn_d (S p)) \<Longrightarrow> bn_flags (S' p) = bn_flags (S p) \<Longrightarrow>
     fst (bn_wexpand al p m S') = fst (bn_wexpand al p m S)"
  by (simp add: bn_wexpand_def split: option.splits)

lemma BN_set_word_computes:
  assumes "bn_fits (S a)"
  shows "bn_computes al a 1 (int (unat w)) S (BN_set_word al a w S)"
proof (cases "w = 0")
  case True
  then show ?thesis by (simp add: BN_set_word_def BN_zero_def bn_computes_def bn_ok_def bn_val_def bn_mag_def)
next
  case False
  from assms show ?thesis
  proof (cases rule: bn_wexpand_cases [where al = al and n = 1 and p = a and S = S])
    case 1
    then show ?thesis using False by (auto simp: BN_set_word_def bn_computes_def intro!: exI [of _ 1])
  next
    case (2 d)
    then obtain x xs where "d = x # xs" by (cases d) simp_all
    then show ?thesis using 2 False by (simp add: BN_set_word_def bn_computes_def bn_ok_def bn_val_def bn_mag_def)
  qed
qed

lemma BN_add_word_nonneg:
  assumes "bn_fits (S a)" and "\<not> bn_neg (S a)"
  obtains res where "BN_add_word al a w S = Some res"
    and "bn_computes al a (bn_width (S a) + 1) (int (bn_mag (S a)) + int (unat w)) S res"
proof (cases "w = 0 \<or> bn_mag (S a) = 0")
  case True
  have "bn_computes al a (bn_width (S a) + 1) (int (unat w)) S (BN_set_word al a w S)"
    using BN_set_word_computes [of S a al w] assms(1) by (blast intro: bn_computes_mono le_add2)
  moreover have "bn_computes al a (bn_width (S a) + 1) (int (bn_mag (S a))) S (True, S)"
    using assms by (simp add: bn_computes_def bn_ok_def bn_val_def)
  ultimately show thesis using True that [of "if w = 0 then (True, S) else BN_set_word al a w S"] assms BN_is_zero_iff [of "S a"]
    by (cases "w = 0") (simp_all add: BN_add_word.simps [of al a _ S])
next
  case False
  let ?n = "bn_width (S a)" and ?S = "\<lambda>d. with_words a d S"
  obtain j w1 d where l: "add_word_loop 0 ?n w (bn_d (S a)) = (j, w1, d)" by (metis prod_cases3)
  from add_word_loop_spec [OF _ this] assms(1)
  have d: "List.length d = List.length (bn_d (S a))" "w1 \<noteq> 0 \<longrightarrow> j = ?n"
      "bn_mag (S a) + unat w = words_val (take ?n d) + 2 ^ (64 * ?n) * unat w1"
    by (simp_all add: bn_mag_def)
  have run: "BN_add_word al a w S = Some (if w1 \<noteq> 0
      then bn_then (bn_wexpand al a (?n + 1) (?S d)) (\<lambda>S. (True, set_wd a j w1 (set_width a (bn_width (S a) + 1) S)))
      else (True, ?S d))"
    using False assms d(2) BN_is_zero_iff [of "S a"] l by (simp add: BN_add_word.simps [of al a _ S] Let_def)
  show thesis
  proof (cases "w1 = 0")
    case True
    then have "int (bn_mag (S a)) + int (unat w) = int (words_val (take ?n d))" using d(3) by (simp del: of_nat_unat flip: of_nat_add)
    then have "bn_computes al a (?n + 1) (int (bn_mag (S a)) + int (unat w)) S (True, ?S d)"
      using d(1) assms by (simp only:) (simp add: bn_computes_def bn_ok_def bn_val_def bn_mag_def)
    then show thesis using that run True by simp
  next
    case nz: False
    have e: "int (bn_mag (S a)) + int (unat w) = int (words_val (take ?n d) + 2 ^ (64 * ?n) * unat w1)"
      unfolding d(3) [symmetric] by (simp del: of_nat_unat)
    have fit: "bn_fits (?S d a)" using d(1) assms(1) by simp
    then show thesis
    proof (cases rule: bn_wexpand_cases [where al = al and n = "?n + 1" and p = a and S = "?S d"])
      case 1
      then have "\<not> fst (bn_wexpand al a (?n + 1) S)"
        using bn_wexpand_same_room [of "?S d" a S al "?n + 1"] d(1) by simp
      then have "bn_computes al a (?n + 1) (int (bn_mag (S a)) + int (unat w)) S (False, ?S d)"
        by (auto simp: bn_computes_def)
      then show thesis using that run nz 1 by simp
    next
      case (2 d2)
      then have "take (Suc ?n) (d2[?n := w1]) = take ?n d @ [w1]" by (simp add: take_Suc_conv_app_nth)
      then have "bn_computes al a (?n + 1) (int (bn_mag (S a)) + int (unat w)) S
          (True, set_wd a ?n w1 (set_width a (?n + 1) (with_words a d2 (?S d))))"
        using 2 d(1) assms e by (simp only:) (simp add: bn_computes_def bn_ok_def bn_val_def bn_mag_def words_val_snoc)
      then show thesis using that run nz 2 d(2) by simp
    qed
  qed
qed

lemma BN_sub_word_nonneg:
  assumes "bn_fits (S a)" and "\<not> bn_neg (S a)"
  obtains res where "BN_sub_word al a w S = Some res"
    and "bn_computes al a (bn_width (S a) + 1) (int (bn_mag (S a)) - int (unat w)) S res"
proof -
  let ?n = "bn_width (S a)" and ?d = "bn_d (S a)"
  consider (none) "w = 0" | (zero) "w \<noteq> 0" "bn_mag (S a) = 0"
    | (turn) "w \<noteq> 0" "bn_mag (S a) \<noteq> 0" "bn_minimal_width (S a) = 1" "?d ! 0 < w"
    | (loop) "w \<noteq> 0" "bn_mag (S a) \<noteq> 0" "\<not> (bn_minimal_width (S a) = 1 \<and> ?d ! 0 < w)" by blast
  then show thesis
  proof cases
    case none
    then show thesis using that [of "(True, S)"] assms by (simp add: BN_sub_word.simps [of al a _ S] bn_computes_def bn_ok_def bn_val_def)
  next
    case zero
    let ?r = "BN_set_word al a w S"
    have c: "bn_computes al a (?n + 1) (int (unat w)) S ?r"
      using BN_set_word_computes [of S a al w] assms(1) by (blast intro: bn_computes_mono le_add2)
    then have "bn_computes al a (?n + 1) (- int (unat w)) S (if fst ?r then (True, BN_set_negative a True (snd ?r)) else ?r)"
    proof (cases "fst ?r")
      case True
      then have r: "bn_ok (snd ?r a)" "bn_val (snd ?r a) = int (unat w)" "\<forall>q. q \<noteq> a \<longrightarrow> snd ?r q = S q"
        using c by (simp_all add: bn_computes_def)
      moreover have "unat w \<noteq> 0" using zero(1) by (simp add: unsigned_eq_0_iff)
      ultimately have "\<not> bn_neg (snd ?r a) \<and> int (bn_mag (snd ?r a)) = int (unat w) \<and> bn_mag (snd ?r a) \<noteq> 0"
        by (auto simp: bn_val_def simp del: of_nat_unat split: if_splits)
      then show ?thesis using True r BN_is_zero_iff [of "snd ?r a"]
        by (auto simp: bn_computes_def bn_ok_def bn_val_def bn_mag_def BN_set_negative_def)
    qed (use c in \<open>simp add: bn_computes_def\<close>)
    then show thesis using that [of "if fst ?r then (True, BN_set_negative a True (snd ?r)) else ?r"] zero assms BN_is_zero_iff [of "S a"]
      by (cases ?r) (simp add: BN_sub_word.simps [of al a _ S])
  next
    case turn
    let ?v = "w - ?d ! 0"
    note m = bn_mag_minimal [OF assms(1)]
    have "0 < ?n" using m(1) turn(3) by simp
    then have l: "0 < ?n" "0 < List.length ?d" using assms(1) by linarith+
    have "bn_minimal_width (S a) = Suc 0" using turn(3) by simp
    from bn_mag_top [OF assms(1) this] have mag: "bn_mag (S a) = unat (?d ! 0)" by (metis less_one mult_0_right power_0 add_0 mult_1)
    have v: "unat ?v = unat w - unat (?d ! 0)" "unat (?d ! 0) < unat w"
      using turn(4) by (simp_all add: unat_minus_wrap word_less_nat_alt unat_sub word_le_nat_alt)
    have "words_val (take ?n (?d[0 := ?v])) + unat (?d ! 0) = bn_mag (S a) + unat ?v"
      using words_val_update [of 0 ?n ?d ?v] l assms(1) by (simp add: bn_mag_def)
    then have "words_val (take ?n (?d[0 := ?v])) = unat w - unat (?d ! 0)" using mag v by simp
    then have "bn_computes al a (?n + 1) (int (bn_mag (S a)) - int (unat w)) S (True, set_neg a True (set_wd a 0 ?v S))"
      using assms mag v(2) by (simp add: bn_computes_def bn_ok_def bn_val_def bn_mag_def of_nat_diff del: of_nat_unat)
    then show thesis using that turn assms BN_is_zero_iff [of "S a"] by (simp add: BN_sub_word.simps [of al a _ S])
  next
    case loop
    note m = bn_mag_minimal [OF assms(1)]
    have n: "0 < ?n" using loop(2) by (cases ?n) (simp_all add: bn_mag_def)
    have "unat w \<le> bn_mag (S a)"
    proof (cases "bn_minimal_width (S a)")
      case 0
      then show ?thesis using m(2) loop(2) by simp
    next
      case (Suc k)
      obtain r where r: "bn_mag (S a) = r + 2 ^ (64 * k) * unat (?d ! k)" "?d ! k \<noteq> 0"
        using bn_mag_top [OF assms(1) Suc] by metis
      show ?thesis
      proof (cases k)
        case 0
        then show ?thesis using r(1) loop(3) Suc by (simp add: word_le_nat_alt not_less)
      next
        case (Suc i)
        have "1 \<le> unat (?d ! k)" using r(2) by (simp add: unsigned_eq_0_iff Suc_le_eq neq0_conv [symmetric] del: neq0_conv)
        then have "2 ^ (64 * k) \<le> 2 ^ (64 * k) * unat (?d ! k)" by simp
        moreover have "(2 :: nat) ^ 64 \<le> 2 ^ (64 * k)" unfolding Suc by (intro power_increasing) simp_all
        ultimately have "2 ^ 64 \<le> bn_mag (S a)" unfolding r(1) by (meson le_trans le_add2)
        then show ?thesis using unat_u64_less [of w] by simp
      qed
    qed
    then obtain j d where l: "sub_word_loop 0 ?n w ?d = Some (j, d)" "j < ?n" "List.length d = List.length ?d"
        "words_val (take ?n d) + unat w = bn_mag (S a)"
      using sub_word_loop_spec [of 0 ?n ?d w] assms(1) n by (auto simp: bn_mag_def)
    let ?T = "with_words a d S"
    let ?U = "if d ! j = 0 \<and> j = ?n - 1 then set_width a (?n - 1) ?T else ?T"
    have "words_val (take (?n - 1) d) = words_val (take ?n d)" if "d ! (?n - 1) = 0"
      using words_val_take_Suc [of "?n - 1" d] n that l(3) assms(1) by simp
    then have "bn_fits (?U a) \<and> bn_mag (?U a) + unat w = bn_mag (S a) \<and> \<not> bn_neg (?U a)"
      using l(3,4) assms by (auto simp: bn_mag_def)
    then have "bn_computes al a (?n + 1) (int (bn_mag (S a)) - int (unat w)) S (True, ?U)"
      by (auto simp: bn_computes_def bn_ok_def bn_val_def simp del: of_nat_unat)
    moreover have "BN_sub_word al a w S = Some (True, ?U)"
      using loop assms BN_is_zero_iff [of "S a"] l(1)
      by (cases "bn_minimal_width (S a) = 1") (auto simp: BN_sub_word.simps [of al a _ S] Let_def wd_def)
    ultimately show thesis using that by blast
  qed
qed

text \<open>With a negative number each of the two calls the other on the magnitude.\<close>

lemma computes_opposite:
  assumes "bn_computes al a n v (set_neg a False S) res" and "\<And>T. bn_ok (T a) \<Longrightarrow> bn_val (T a) = v \<Longrightarrow> bn_ok (f T a) \<and> bn_val (f T a) = u"
    and "\<And>T q. q \<noteq> a \<Longrightarrow> f T q = T q"
  shows "bn_computes al a n u S (fst res, f (snd res))"
proof -
  have "fst (bn_wexpand al a m (set_neg a False S)) = fst (bn_wexpand al a m S)" for m
    by (rule bn_wexpand_same_room) simp_all
  then show ?thesis using assms by (auto simp: bn_computes_def)
qed

lemma BN_add_word_computes:
  assumes "bn_ok (S a)"
  obtains res where "BN_add_word al a w S = Some res" and "bn_computes al a (bn_width (S a) + 1) (bn_val (S a) + int (unat w)) S res"
proof (cases "bn_neg (S a) \<and> w \<noteq> 0")
  case False
  have "bn_computes al a (bn_width (S a) + 1) (bn_val (S a)) S (True, S)" using assms by (simp add: bn_computes_def)
  then show thesis using False that BN_add_word_nonneg [of S a al w] assms
    by (cases "w = 0") (auto simp: BN_add_word.simps [of al a _ S] bn_ok_def bn_val_def)
next
  case True
  then have mag: "bn_mag (S a) \<noteq> 0" using assms by (simp add: bn_ok_def)
  let ?S = "set_neg a False S"
  let ?f = "\<lambda>T. if \<not> BN_is_zero (T a) then set_neg a (\<not> bn_neg (T a)) T else T"
  have fits: "bn_fits (?S a)" "\<not> bn_neg (?S a)" using assms by (simp_all add: bn_ok_def)
  obtain res where res: "BN_sub_word al a w ?S = Some res"
      "bn_computes al a (bn_width (S a) + 1) (int (bn_mag (S a)) - int (unat w)) ?S res"
    using BN_sub_word_nonneg [where S = ?S and a = a and al = al and w = w, OF fits] by (auto simp: bn_mag_def)
  have "bn_computes al a (bn_width (S a) + 1) (bn_val (S a) + int (unat w)) S (fst res, ?f (snd res))"
  proof (rule computes_opposite [OF res(2)])
    fix T assume "bn_ok (T a)" "bn_val (T a) = int (bn_mag (S a)) - int (unat w)"
    then show "bn_ok (?f T a) \<and> bn_val (?f T a) = bn_val (S a) + int (unat w)"
      using True BN_is_zero_iff [of "T a"] by (auto simp: bn_ok_def bn_val_def bn_mag_def simp del: of_nat_unat)
  qed simp
  then show thesis using that True mag assms res(1) BN_is_zero_iff [of "S a"]
    by (simp add: BN_add_word.simps [of al a _ S] bn_ok_def case_prod_beta)
qed

lemma BN_sub_word_computes:
  assumes "bn_ok (S a)"
  obtains res where "BN_sub_word al a w S = Some res" and "bn_computes al a (bn_width (S a) + 1) (bn_val (S a) - int (unat w)) S res"
proof (cases "bn_neg (S a) \<and> w \<noteq> 0")
  case False
  have "bn_computes al a (bn_width (S a) + 1) (bn_val (S a)) S (True, S)" using assms by (simp add: bn_computes_def)
  then show thesis using False that BN_sub_word_nonneg [of S a al w] assms
    by (cases "w = 0") (auto simp: BN_sub_word.simps [of al a _ S] bn_ok_def bn_val_def)
next
  case True
  then have mag: "bn_mag (S a) \<noteq> 0" using assms by (simp add: bn_ok_def)
  let ?S = "set_neg a False S"
  have fits: "bn_fits (?S a)" "\<not> bn_neg (?S a)" using assms by (simp_all add: bn_ok_def)
  obtain res where res: "BN_add_word al a w ?S = Some res"
      "bn_computes al a (bn_width (S a) + 1) (int (bn_mag (S a)) + int (unat w)) ?S res"
    using BN_add_word_nonneg [where S = ?S and a = a and al = al and w = w, OF fits] by (auto simp: bn_mag_def)
  have "bn_computes al a (bn_width (S a) + 1) (bn_val (S a) - int (unat w)) S (fst res, set_neg a True (snd res))"
  proof (rule computes_opposite [OF res(2)])
    fix T assume "bn_ok (T a)" "bn_val (T a) = int (bn_mag (S a)) + int (unat w)"
    then show "bn_ok (set_neg a True T a) \<and> bn_val (set_neg a True T a) = bn_val (S a) - int (unat w)"
      using True mag by (auto simp: bn_ok_def bn_val_def bn_mag_def simp del: of_nat_unat split: if_splits)
  qed simp
  then show thesis using that True mag assms res(1) BN_is_zero_iff [of "S a"]
    by (simp add: BN_sub_word.simps [of al a _ S] bn_ok_def case_prod_beta)
qed

section \<open>Properties\<close>

text \<open>
  C33: \<^verbatim>\<open>BN_add\<close> and \<^verbatim>\<open>BN_sub\<close> are addition and subtraction of integers. For numbers of any width and sign, whether or not
  the words are trimmed, and also when the result is stored in one or both of the operands: a call that succeeds leaves the exact sum or
  difference in \<open>r\<close> as a well-formed number, no other number changes, and a call fails only if the array of \<open>r\<close> could not be made
  as long as the wider operand and one word more.
\<close>

theorem BN_add_sub_correct:
  assumes "bn_ok (S a)" and "bn_ok (S b)" and "bn_ok (S r)"
  shows "bn_computes al r (max (bn_width (S a)) (bn_width (S b)) + 1) (bn_val (S a) + bn_val (S b)) S (BN_add al r a b S)
    \<and> bn_computes al r (max (bn_width (S a)) (bn_width (S b)) + 1) (bn_val (S a) - bn_val (S b)) S (BN_sub al r a b S)"
  using BN_add_computes [where S = S and a = a and b = b and r = r and al = al, OF assms]
    BN_sub_computes [where S = S and a = a and b = b and r = r and al = al, OF assms] by blast

text \<open>The largest word and minus one, with an unused zero word.\<close>

definition bn_example :: bn_store where
  "bn_example p = \<lparr>bn_d = (if p = 0 then [0xFFFFFFFFFFFFFFFF] else [1, 0]), bn_width = (if p = 0 then 1 else 2), bn_neg = (p = 1), bn_flags = 0\<rparr>"

lemma bn_example_ok: "bn_ok (bn_example p)" "bn_val (bn_example 0) = 2 ^ 64 - 1" "bn_val (bn_example 1) = -1"
  by (auto simp: bn_example_def bn_ok_def bn_val_def bn_mag_def)

lemma bn_example_room: "bn_room example_alloc p 3 bn_example"
  by (auto simp: bn_wexpand_def bn_example_def OPENSSL_malloc_def example_alloc_def OPENSSL_MALLOC_PREFIX_def BN_BITS2_def)

theorem BN_add_sub_correct_witness:
  "bn_val (snd (BN_add example_alloc 0 0 1 bn_example) 0) = 2 ^ 64 - 2 \<and> bn_val (snd (BN_sub example_alloc 0 0 1 bn_example) 0) = 2 ^ 64"
proof -
  have w: "max (bn_width (bn_example 0)) (bn_width (bn_example 1)) + 1 = 3" by (simp add: bn_example_def)
  show ?thesis
    using BN_add_sub_correct [where S = bn_example and a = 0 and b = 1 and r = 0 and al = example_alloc, OF bn_example_ok(1) bn_example_ok(1) bn_example_ok(1)]
      bn_example_room unfolding bn_computes_def w bn_example_ok(2,3)
    by (simp split: if_splits)
qed

text \<open>
  C34: \<^verbatim>\<open>BN_add_word\<close> and \<^verbatim>\<open>BN_sub_word\<close> end, and never leave the words of the number: the endless loop in \<^verbatim>\<open>BN_sub_word\<close> finds a word
  it need not borrow for. They compute the exact sum and difference for every well-formed number, also where the sign changes.
\<close>

theorem BN_word_arithmetic_correct:
  assumes "bn_ok (S a)"
  shows "\<exists>add sub. BN_add_word al a w S = Some add \<and> BN_sub_word al a w S = Some sub
    \<and> bn_computes al a (bn_width (S a) + 1) (bn_val (S a) + int (unat w)) S add
    \<and> bn_computes al a (bn_width (S a) + 1) (bn_val (S a) - int (unat w)) S sub"
  using BN_add_word_computes [where S = S and a = a and al = al and w = w, OF assms]
    BN_sub_word_computes [where S = S and a = a and al = al and w = w, OF assms] by metis

theorem BN_word_arithmetic_correct_witness:
  "\<exists>add sub. BN_add_word example_alloc 1 5 bn_example = Some add \<and> BN_sub_word example_alloc 0 7 bn_example = Some sub
    \<and> bn_val (snd add 1) = 4 \<and> bn_val (snd sub 0) = 2 ^ 64 - 8"
proof -
  have w: "bn_width (bn_example 0) + 1 \<le> 3" "bn_width (bn_example 1) + 1 \<le> 3" by (simp_all add: bn_example_def)
  note c = BN_word_arithmetic_correct [where S = bn_example and al = example_alloc, OF bn_example_ok(1)]
  obtain add sub where r: "BN_add_word example_alloc 1 5 bn_example = Some add" "BN_sub_word example_alloc 0 7 bn_example = Some sub"
      "bn_computes example_alloc 1 3 (- 1 + int (unat (5 :: u64))) bn_example add"
      "bn_computes example_alloc 0 3 (2 ^ 64 - 1 - int (unat (7 :: u64))) bn_example sub"
    using c [where a = 1 and w = 5] c [where a = 0 and w = 7] bn_computes_mono [OF _ w(1)] bn_computes_mono [OF _ w(2)]
    unfolding bn_example_ok(2,3) by metis
  then show ?thesis using bn_example_room unfolding bn_computes_def by (auto split: if_splits)
qed

end
