(* ===== verification/Bn_Shift.thy ===== *)
theory Bn_Shift
  imports Bn_Add
begin

text \<open>
  \<^verbatim>\<open>crypto/fipsmodule/bn/shift.c\<close>: shifts of big integers, with the result in the operand or elsewhere, and single bits. Shifts are shown
  to multiply and divide the absolute value by powers of two. The shift by a secret number, which needs scratch numbers from a
  \<^verbatim>\<open>BN_CTX\<close>, is left out.
\<close>

section \<open>The code\<close>

definition lshift_step :: "nat \<Rightarrow> nat \<Rightarrow> nat \<Rightarrow> nat \<Rightarrow> nat \<Rightarrow> bn_store \<Rightarrow> bn_store" where
  "lshift_step r a nw lb i S =
     (let l = wd S a i;
          S1 = set_wd r (nw + i + 1) (wd S r (nw + i + 1) OR drop_bit (BN_BITS2 - lb) l) S
      in set_wd r (nw + i) (push_bit lb l) S1)"

definition BN_lshift :: "sys_alloc \<Rightarrow> nat \<Rightarrow> nat \<Rightarrow> int \<Rightarrow> bn_store \<Rightarrow> bool \<times> bn_store" where
  "BN_lshift al r a n S =
     (if n < 0 then (False, S)
      else
        (let S = set_neg r (bn_neg (S a)) S;
             nw = nat n div BN_BITS2
         in bn_then (bn_wexpand al r (bn_width (S a) + nw + 1) S) (\<lambda>S.
              (let lb = nat n mod BN_BITS2;
                   w = bn_width (S a);
                   S1 = set_wd r (w + nw) 0 S;
                   S2 = (if lb = 0 then fold (\<lambda>i S. set_wd r (nw + i) (wd S a i) S) (rev [0..<w]) S1
                         else fold (lshift_step r a nw lb) (rev [0..<w]) S1);
                   S3 = fold (\<lambda>i. set_wd r i 0) [0..<nw] S2
               in (True, bn_set_minimal_width r (set_width r (w + nw + 1) S3))))))"

definition lshift1_step :: "nat \<Rightarrow> nat \<Rightarrow> nat \<Rightarrow> u64 \<times> bn_store \<Rightarrow> u64 \<times> bn_store" where
  "lshift1_step r a i = (\<lambda>(c, S).
     let t = wd S a i
     in (drop_bit (BN_BITS2 - 1) t, set_wd r i (push_bit 1 t OR c) S))"

definition BN_lshift1 :: "sys_alloc \<Rightarrow> nat \<Rightarrow> nat \<Rightarrow> bn_store \<Rightarrow> bool \<times> bn_store" where
  "BN_lshift1 al r a S =
     bn_then (if r \<noteq> a then bn_then (bn_wexpand al r (bn_width (S a) + 1) (set_neg r (bn_neg (S a)) S))
                                (\<lambda>S. (True, set_width r (bn_width (S a)) S))
              else bn_wexpand al r (bn_width (S a) + 1) S)
       (\<lambda>S. (let w = bn_width (S a);
                 (c, S1) = fold (lshift1_step r a) [0..<w] (0, S)
             in (True, if c \<noteq> 0 then set_width r (bn_width (S1 r) + 1) (set_wd r w 1 S1) else S1)))"

definition rshift_step :: "nat \<Rightarrow> nat \<Rightarrow> nat \<Rightarrow> nat \<Rightarrow> nat \<Rightarrow> bn_store \<Rightarrow> bn_store" where
  "rshift_step r a shift_words shift_bits i S =
     set_wd r (i - shift_words) (drop_bit shift_bits (wd S a i) OR push_bit (BN_BITS2 - shift_bits) (wd S a (i + 1))) S"

definition bn_rshift_words :: "nat \<Rightarrow> nat \<Rightarrow> nat \<Rightarrow> nat \<Rightarrow> bn_store \<Rightarrow> bn_store" where
  "bn_rshift_words r a shift num S =
     (let shift_bits = shift mod BN_BITS2;
          shift_words = shift div BN_BITS2
      in if shift_words \<ge> num then with_words r (replicate num 0 @ drop num (bn_d (S r))) S
         else
           (let S1 = (if shift_bits = 0
                      then with_words r (take (num - shift_words) (drop shift_words (bn_d (S a))) @ drop (num - shift_words) (bn_d (S r))) S
                      else (let S1 = fold (rshift_step r a shift_words shift_bits) [shift_words..<num - 1] S
                            in set_wd r (num - 1 - shift_words) (drop_bit shift_bits (wd S1 a (num - 1))) S1))
            in with_words r (take (num - shift_words) (bn_d (S1 r)) @ replicate shift_words 0 @ drop num (bn_d (S1 r))) S1))"

definition BN_rshift :: "sys_alloc \<Rightarrow> nat \<Rightarrow> nat \<Rightarrow> int \<Rightarrow> bn_store \<Rightarrow> bool \<times> bn_store" where
  "BN_rshift al r a n S =
     (if n < 0 then (False, S)
      else bn_then (bn_wexpand al r (bn_width (S a)) S) (\<lambda>S.
        (let S1 = bn_rshift_words r a (nat n) (bn_width (S a)) S;
             S2 = set_neg r (bn_neg (S1 a)) S1;
             S3 = set_width r (bn_width (S2 a)) S2
         in (True, bn_set_minimal_width r S3))))"

definition bn_rshift1_words :: "nat \<Rightarrow> nat \<Rightarrow> nat \<Rightarrow> bn_store \<Rightarrow> bn_store" where
  "bn_rshift1_words r a num S =
     (if num = 0 then S
      else (let S1 = fold (\<lambda>i S. set_wd r i (drop_bit 1 (wd S a i) OR push_bit (BN_BITS2 - 1) (wd S a (i + 1))) S) [0..<num - 1] S
            in set_wd r (num - 1) (drop_bit 1 (wd S1 a (num - 1))) S1))"

definition BN_rshift1 :: "sys_alloc \<Rightarrow> nat \<Rightarrow> nat \<Rightarrow> bn_store \<Rightarrow> bool \<times> bn_store" where
  "BN_rshift1 al r a S =
     bn_then (bn_wexpand al r (bn_width (S a)) S) (\<lambda>S.
       (let S1 = bn_rshift1_words r a (bn_width (S a)) S;
            S2 = set_width r (bn_width (S1 a)) S1;
            S3 = set_neg r (bn_neg (S2 a)) S2
        in (True, bn_set_minimal_width r S3)))"

definition BN_set_bit :: "sys_alloc \<Rightarrow> nat \<Rightarrow> int \<Rightarrow> bn_store \<Rightarrow> bool \<times> bn_store" where
  "BN_set_bit al a n S =
     (if n < 0 then (False, S)
      else
        (let i = nat n div BN_BITS2;
             j = nat n mod BN_BITS2
         in bn_then (if bn_width (S a) \<le> i
                     then bn_then (bn_wexpand al a (i + 1) S) (\<lambda>S.
                       (True, set_width a (i + 1) (fold (\<lambda>k. set_wd a k 0) [bn_width (S a)..<i + 1] S)))
                     else (True, S))
              (\<lambda>S. (True, set_wd a i (wd S a i OR push_bit j 1) S))))"

definition BN_clear_bit :: "nat \<Rightarrow> int \<Rightarrow> bn_store \<Rightarrow> bool \<times> bn_store" where
  "BN_clear_bit a n S =
     (if n < 0 then (False, S)
      else
        (let i = nat n div BN_BITS2;
             j = nat n mod BN_BITS2
         in if bn_width (S a) \<le> i then (False, S)
            else (True, bn_set_minimal_width a (set_wd a i (wd S a i AND NOT (push_bit j 1)) S))))"

definition bn_is_bit_set_words :: "u64 list \<Rightarrow> nat \<Rightarrow> nat \<Rightarrow> bool" where
  "bn_is_bit_set_words a num b =
     (let i = b div BN_BITS2;
          j = b mod BN_BITS2
      in if i \<ge> num then False else drop_bit j (a ! i) AND 1 = 1)"

definition BN_is_bit_set :: "bignum \<Rightarrow> int \<Rightarrow> bool" where
  "BN_is_bit_set b n \<longleftrightarrow> (if n < 0 then False else bn_is_bit_set_words (bn_d b) (bn_width b) (nat n))"

definition BN_mask_bits :: "nat \<Rightarrow> int \<Rightarrow> bn_store \<Rightarrow> bool \<times> bn_store" where
  "BN_mask_bits a n S =
     (if n < 0 then (False, S)
      else
        (let w = nat n div BN_BITS2;
             b = nat n mod BN_BITS2
         in if w \<ge> bn_width (S a) then (True, S)
            else
              (let S1 = (if b = 0 then set_width a w S
                         else (let S1 = set_width a (w + 1) S in set_wd a w (wd S1 a w AND NOT (push_bit b (-1))) S1))
               in (True, bn_set_minimal_width a S1))))"

section \<open>Shifting left\<close>

lemma shifted_word:
  fixes l :: u64
  assumes "lb < 64"
  shows "unat (push_bit lb l) + 2 ^ 64 * (unat l div 2 ^ (64 - lb)) = unat l * 2 ^ lb"
proof -
  have "unat (push_bit lb l) = unat l * 2 ^ lb mod 2 ^ 64"
    by (subst unsigned_push_bit_eq) (simp add: push_bit_eq_mult take_bit_eq_mod)
  moreover have "unat l * 2 ^ lb div 2 ^ 64 = unat l div 2 ^ (64 - lb)"
  proof -
    have e: "(2 :: nat) ^ 64 = 2 ^ lb * 2 ^ (64 - lb)" using assms by (simp flip: power_add)
    show ?thesis unfolding e by (simp add: mult.commute [of "unat l"])
  qed
  ultimately show ?thesis using mod_mult_div_eq [of "unat l * 2 ^ lb" "2 ^ 64"] by simp
qed

text \<open>
  The words behind \<open>nw + k\<close> hold the upper words of \<open>A\<close>, shifted. Where source and destination are the same, the words still to
  be read lie below those written.
\<close>

lemma lshift_fold:
  assumes "\<And>i S. step i S = with_words r ((bn_d (S r))[nw + i + 1 := bn_d (S r) ! (nw + i + 1) OR v (wd S a i), nw + i := push_bit lb (wd S a i)]) S"
    and "\<And>l. unat (v l) = unat l div 2 ^ (64 - lb)" and "lb < 64"
  shows "k \<le> List.length A \<Longrightarrow> nw + List.length A + 1 \<le> List.length (bn_d (T r)) \<Longrightarrow> (\<forall>i<k. wd T a i = A ! i) \<Longrightarrow>
      words_val (take (List.length A + 1 - k) (drop (nw + k) (bn_d (T r)))) = words_val (drop k A) * 2 ^ lb \<Longrightarrow>
      \<exists>d. fold step (rev [0..<k]) T = with_words r d T \<and> List.length d = List.length (bn_d (T r)) \<and>
        words_val (take (List.length A + 1) (drop nw d)) = words_val A * 2 ^ lb"
proof (induction k arbitrary: T)
  case 0
  then show ?case by (intro exI [of _ "bn_d (T r)"]) (simp add: with_words_def)
next
  case (Suc k)
  let ?d = "bn_d (T r)" and ?l = "A ! k" and ?m = "List.length A - k - 1"
  have l: "wd T a k = ?l" using Suc.prems(3) by simp
  let ?d1 = "?d[nw + k + 1 := ?d ! (nw + k + 1) OR v ?l, nw + k := push_bit lb ?l]"
  let ?h = "?d ! (nw + Suc k)" and ?rest = "take ?m (drop (Suc (nw + Suc k)) ?d)"
  define U where "U = with_words r ?d1 T"
  have T1: "step k T = U" by (simp add: assms(1) l U_def)
  have U: "bn_d (U r) = ?d1" by (simp add: U_def)
  have len: "nw + Suc k < List.length ?d" using Suc.prems(1,2) by simp
  have "drop (nw + Suc k) ?d = ?h # drop (Suc (nw + Suc k)) ?d" using len by (simp add: Cons_nth_drop_Suc)
  moreover have "List.length A + 1 - Suc k = Suc ?m" using Suc.prems(1) by simp
  ultimately have up: "unat ?h + 2 ^ 64 * words_val ?rest = words_val (drop (Suc k) A) * 2 ^ lb" using Suc.prems(4) by simp
  have "(2 :: nat) ^ lb dvd 2 ^ 64" using assms(3) by (intro le_imp_power_dvd) simp
  then have "2 ^ lb dvd unat ?h" using up by (metis dvd_add_left_iff dvd_mult2 dvd_triv_right)
  moreover have "unat (v ?l) < 2 ^ lb"
  proof -
    have "unat ?l < 2 ^ lb * 2 ^ (64 - lb)" using unat_u64_less [of ?l] assms(3) by (simp flip: power_add)
    then show ?thesis unfolding assms(2) by (rule less_mult_imp_div_less)
  qed
  ultimately have h: "unat (?h OR v ?l) = unat ?h + unat ?l div 2 ^ (64 - lb)" using unat_or_disjoint [of lb ?h "v ?l"] assms(2) by simp
  have "drop (nw + k) ?d1 = push_bit lb ?l # (?h OR v ?l) # drop (Suc (nw + Suc k)) ?d"
    using len by (simp add: drop_update_swap Cons_nth_drop_Suc [symmetric])
  moreover have "List.length A + 1 - k = Suc (Suc ?m)" using Suc.prems(1) by simp
  ultimately have "words_val (take (List.length A + 1 - k) (drop (nw + k) ?d1)) =
      unat (push_bit lb ?l) + 2 ^ 64 * (unat ?h + unat ?l div 2 ^ (64 - lb) + 2 ^ 64 * words_val ?rest)"
    using h by simp
  also have "\<dots> = unat ?l * 2 ^ lb + 2 ^ 64 * (words_val (drop (Suc k) A) * 2 ^ lb)"
    unfolding up [symmetric] shifted_word [OF assms(3), symmetric] by (simp add: algebra_simps)
  also have "\<dots> = words_val (drop k A) * 2 ^ lb" using Suc.prems(1) by (simp add: Cons_nth_drop_Suc [symmetric] algebra_simps)
  finally have "words_val (take (List.length A + 1 - k) (drop (nw + k) (bn_d (U r)))) = words_val (drop k A) * 2 ^ lb"
    unfolding U .
  moreover have "\<forall>i<k. wd U a i = A ! i" using Suc.prems(3) by (auto simp: U_def wd_def)
  moreover have "k \<le> List.length A" "nw + List.length A + 1 \<le> List.length (bn_d (U r))" using Suc.prems(1,2) by (simp_all add: U)
  ultimately obtain d where d: "fold step (rev [0..<k]) U = with_words r d U" "List.length d = List.length (bn_d (U r))"
      "words_val (take (List.length A + 1) (drop nw d)) = words_val A * 2 ^ lb"
    using Suc.IH [of U] by blast
  have "with_words r d U = with_words r d T" by (simp add: U_def with_words_def)
  then show ?case using d by (intro exI [of _ d]) (simp add: T1 U)
qed

lemma minimal_width_ok:
  assumes "bn_fits (S r)"
  shows "bn_ok (bn_set_minimal_width r S r) \<and> bn_val (bn_set_minimal_width r S r) = bn_val (S r)"
proof -
  obtain w t where "bn_set_minimal_width r S r = (S r)\<lparr>bn_width := w, bn_neg := t\<rparr>" "w \<le> bn_width (S r)"
      "bn_mag (bn_set_minimal_width r S r) = bn_mag (S r)" "bn_mag (S r) = 0 \<longrightarrow> \<not> t" "bn_mag (S r) \<noteq> 0 \<longrightarrow> t = bn_neg (S r)"
    using bn_set_minimal_width_spec [where S = S and p = r, OF assms] by (elim exE conjE) (rule that)
  then show ?thesis using assms by (auto simp: bn_ok_def bn_val_def)
qed

lemma minimal_width_computes:
  assumes "bn_fits (U r)" and "bn_val (U r) = v" and "\<And>q. q \<noteq> r \<Longrightarrow> U q = S q"
  shows "bn_computes al r n v S (True, bn_set_minimal_width r U)"
  using minimal_width_ok [where S = U and r = r, OF assms(1)] assms(2,3) by (simp add: bn_computes_def)

lemma clear_words:
  "n \<le> List.length (bn_d (S r)) \<Longrightarrow> fold (\<lambda>i. set_wd r i 0) [0..<n] S = with_words r (replicate n 0 @ drop n (bn_d (S r))) S"
proof (induction n)
  case 0
  then show ?case by (simp add: with_words_def)
next
  case (Suc n)
  have set: "set_wd r n 0 (with_words r ws S) = with_words r (ws[n := 0]) S" for ws by (simp add: set_wd_def with_words_def)
  have "drop n (bn_d (S r)) = bn_d (S r) ! n # drop (Suc n) (bn_d (S r))" using Suc.prems by (simp add: Cons_nth_drop_Suc)
  then have "(replicate n 0 @ drop n (bn_d (S r)))[n := 0] = replicate (Suc n) 0 @ drop (Suc n) (bn_d (S r))"
    by (simp add: list_update_append replicate_app_Cons_same)
  moreover have "fold (\<lambda>i. set_wd r i 0) [0..<n] S = with_words r (replicate n 0 @ drop n (bn_d (S r))) S"
    using Suc.prems by (intro Suc.IH) simp
  ultimately show ?case by (simp only: upt_Suc zero_le if_True fold_append fold_simps comp_def set simp_thms)
qed

lemma BN_lshift_computes:
  assumes "bn_ok (S a)" and "bn_ok (S r)" and "0 \<le> n"
  shows "bn_computes al r (bn_width (S a) + nat n div 64 + 1) (bn_val (S a) * 2 ^ nat n) S (BN_lshift al r a n S)"
proof -
  let ?W = "bn_width (S a)" and ?nw = "nat n div 64" and ?lb = "nat n mod 64" and ?S = "set_neg r (bn_neg (S a)) S"
  let ?A = "take ?W (bn_d (S a))"
  have fits: "bn_fits (S a)" "bn_fits (?S r)" using assms by (simp_all add: bn_ok_def)
  have W: "bn_width (?S a) = ?W" by simp
  define body where "body = (\<lambda>S. let S1 = set_wd r (?W + ?nw) 0 S;
                   S2 = (if ?lb = 0 then fold (\<lambda>i S. set_wd r (?nw + i) (wd S a i) S) (rev [0..<?W]) S1
                         else fold (lshift_step r a ?nw ?lb) (rev [0..<?W]) S1);
                   S3 = fold (\<lambda>i. set_wd r i 0) [0..<?nw] S2
               in (True, bn_set_minimal_width r (set_width r (?W + ?nw + 1) S3)))"
  have code: "BN_lshift al r a n S = (case bn_wexpand al r (?W + ?nw + 1) ?S of (ok, T) \<Rightarrow> if ok then body T else (False, T))"
    if "\<And>T. bn_wexpand al r (?W + ?nw + 1) ?S = (True, T) \<Longrightarrow> bn_width (T a) = ?W"
    using that assms(3) by (auto simp: BN_lshift_def Let_def BN_BITS2_def bn_then_def body_def split: prod.splits)
  from fits(2) show ?thesis
  proof (cases rule: bn_wexpand_cases [where al = al and n = "?W + ?nw + 1" and p = r and S = ?S])
    case 1
    have "fst (bn_wexpand al r (?W + ?nw + 1) ?S) = fst (bn_wexpand al r (?W + ?nw + 1) S)"
      by (rule bn_wexpand_same_room) simp_all
    then have "\<not> fst (bn_wexpand al r (?W + ?nw + 1) S)" using 1 by simp
    moreover have "BN_lshift al r a n S = (False, ?S)" using code 1 by simp
    ultimately show ?thesis by (auto simp: bn_computes_def)
  next
    case (2 d)
    let ?T = "with_words r d ?S" and ?d1 = "d[?W + ?nw := 0]"
    let ?T1 = "set_wd r (?W + ?nw) 0 ?T"
    have "bn_width (?T a) = ?W" by simp
    then have run: "BN_lshift al r a n S = body ?T" using code 2(1) by simp
    have lA: "List.length ?A = ?W" using fits(1) by simp
    have low: "wd ?T1 a i = ?A ! i" if "i < ?W" for i
    proof (cases "a = r")
      case True
      then have "take ?W d = ?A" using 2(3) by simp
      then have "d ! i = ?A ! i" using that by (metis nth_take)
      then show ?thesis using True that by (simp add: wd_def)
    next
      case False
      then show ?thesis using that by (simp add: wd_def)
    qed
    have top: "take (List.length ?A + 1 - ?W) (drop (?nw + ?W) ?d1) = [0]"
    proof -
      have "?nw + ?W < List.length ?d1" using 2(2) by simp
      then have "drop (?nw + ?W) ?d1 = ?d1 ! (?nw + ?W) # drop (Suc (?nw + ?W)) ?d1" by (rule Cons_nth_drop_Suc [symmetric])
      then show ?thesis using 2(2) lA by (simp add: add.commute [of ?W])
    qed
    have bound: "?nw + List.length ?A + 1 \<le> List.length (bn_d (?T1 r))" using 2(2) lA by simp
    obtain d2 where d2: "(if ?lb = 0 then fold (\<lambda>i S. set_wd r (?nw + i) (wd S a i) S) (rev [0..<?W]) ?T1
          else fold (lshift_step r a ?nw ?lb) (rev [0..<?W]) ?T1) = with_words r d2 ?T1" "List.length d2 = List.length d"
        "words_val (take (?W + 1) (drop ?nw d2)) = words_val ?A * 2 ^ ?lb"
    proof (cases "?lb = 0")
      case True
      have "\<exists>d2. fold (\<lambda>i S. set_wd r (?nw + i) (wd S a i) S) (rev [0..<?W]) ?T1 = with_words r d2 ?T1 \<and>
          List.length d2 = List.length (bn_d (?T1 r)) \<and> words_val (take (List.length ?A + 1) (drop ?nw d2)) = words_val ?A * 2 ^ 0"
      proof (rule lshift_fold [where v = "\<lambda>_. 0" and lb = 0])
        show "set_wd r (?nw + i) (wd S a i) S = with_words r
            ((bn_d (S r))[?nw + i + 1 := bn_d (S r) ! (?nw + i + 1) OR 0, ?nw + i := push_bit 0 (wd S a i)]) S" for i S
          by (simp add: set_wd_def with_words_def)
        show "unat (0 :: u64) = unat l div 2 ^ (64 - 0)" for l :: u64 using unat_u64_less [of l] by simp
      qed (use lA bound low top in simp_all)
      then show thesis using that True lA by auto
    next
      case False
      have "\<exists>d2. fold (lshift_step r a ?nw ?lb) (rev [0..<?W]) ?T1 = with_words r d2 ?T1 \<and>
          List.length d2 = List.length (bn_d (?T1 r)) \<and> words_val (take (List.length ?A + 1) (drop ?nw d2)) = words_val ?A * 2 ^ ?lb"
      proof (rule lshift_fold [where v = "drop_bit (64 - ?lb)" and lb = ?lb])
        show "lshift_step r a ?nw ?lb i S = with_words r
            ((bn_d (S r))[?nw + i + 1 := bn_d (S r) ! (?nw + i + 1) OR drop_bit (64 - ?lb) (wd S a i), ?nw + i := push_bit ?lb (wd S a i)]) S" for i S
          by (simp add: lshift_step_def Let_def BN_BITS2_def set_wd_def with_words_def wd_def)
        show "unat (drop_bit (64 - ?lb) l) = unat l div 2 ^ (64 - ?lb)" for l :: u64 by (rule unat_drop_bit)
      qed (use lA bound low top in simp_all)
      then show thesis using that False lA by auto
    qed
    let ?d3 = "replicate ?nw 0 @ drop ?nw d2"
    have clear: "fold (\<lambda>i. set_wd r i 0) [0..<?nw] (with_words r d2 ?T1) = with_words r ?d3 (with_words r d2 ?T1)"
      using clear_words [of ?nw "with_words r d2 ?T1" r] 2(2) d2(2) by simp
    let ?U = "set_width r (?W + ?nw + 1) (with_words r ?d3 (with_words r d2 ?T1))"
    have res: "BN_lshift al r a n S = (True, bn_set_minimal_width r ?U)"
      unfolding run body_def Let_def d2(1) clear ..
    have "take (?W + ?nw + 1) ?d3 = replicate ?nw 0 @ take (?W + 1) (drop ?nw d2)" by simp
    then have "words_val (take (?W + ?nw + 1) ?d3) = 2 ^ (64 * ?nw) * (words_val ?A * 2 ^ ?lb)"
      using d2(3) by (simp add: words_val_append)
    also have "\<dots> = bn_mag (S a) * 2 ^ nat n"
    proof -
      have "nat n = 64 * ?nw + ?lb" by simp
      then have "(2 :: nat) ^ nat n = 2 ^ (64 * ?nw) * 2 ^ ?lb" by (metis power_add)
      then show ?thesis by (simp add: bn_mag_def)
    qed
    finally have mag: "bn_mag (?U r) = bn_mag (S a) * 2 ^ nat n" by (simp add: bn_mag_def)
    have "bn_neg (?U r) = bn_neg (S a)" by simp
    then have v: "bn_val (?U r) = bn_val (S a) * 2 ^ nat n" unfolding bn_val_def mag by simp
    have fits: "bn_fits (?U r)" using 2(2) d2(2) by simp
    show ?thesis unfolding res by (rule minimal_width_computes [where U = ?U and r = r, OF fits v]) simp
  qed
qed

section \<open>Shifting right\<close>

text \<open>The words of a number, each with the low bits of the next moved in.\<close>

definition shr :: "nat \<Rightarrow> u64 list \<Rightarrow> nat \<Rightarrow> u64" where
  "shr s A i = drop_bit s (A ! i) OR push_bit (64 - s) (A ! (i + 1))"

lemma shr_value:
  assumes "0 < s" and "s < 64"
  shows "B \<noteq> [] \<Longrightarrow> words_val (map (shr s B) [0..<List.length B - 1] @ [drop_bit s (B ! (List.length B - 1))]) = words_val B div 2 ^ s"
proof (induction B)
  case (Cons x B)
  show ?case
  proof (cases "B = []")
    case True
    then show ?thesis by (simp add: unat_drop_bit)
  next
    case False
    then obtain y ys where B: "B = y # ys" by (cases B) auto
    let ?w = "drop_bit s x OR push_bit (64 - s) y"
    have e: "(2 :: nat) ^ 64 = 2 ^ s * 2 ^ (64 - s)" using assms by (simp flip: power_add)
    have "unat x < 2 ^ (64 - s) * 2 ^ s" using unat_u64_less [of x] e by (simp add: mult.commute)
    then have low: "unat x div 2 ^ s < 2 ^ (64 - s)" by (rule less_mult_imp_div_less)
    have up: "unat (push_bit (64 - s) y) = unat y mod 2 ^ s * 2 ^ (64 - s)"
      by (subst unsigned_push_bit_eq) (simp add: push_bit_eq_mult take_bit_eq_mod e [simplified] mod_mult_mult2 [symmetric] del: mod_mult_mult2)
    have w: "unat ?w = unat x div 2 ^ s + unat y mod 2 ^ s * 2 ^ (64 - s)"
      using unat_or_disjoint [of "64 - s" "push_bit (64 - s) y" "drop_bit s x"] low up by (simp add: unat_drop_bit or.commute add.commute)
    have "map (shr s (x # B)) [0..<List.length B] = ?w # map (shr s B) [0..<List.length B - 1]"
      by (simp add: B upt_conv_Cons shr_def map_Suc_upt [symmetric] del: map_Suc_upt upt_Suc)
    then have "words_val (map (shr s (x # B)) [0..<List.length (x # B) - 1] @ [drop_bit s ((x # B) ! (List.length (x # B) - 1))]) =
        unat ?w + 2 ^ 64 * (words_val B div 2 ^ s)"
      using Cons.IH False by (simp add: B)
    also have "\<dots> = unat x div 2 ^ s + 2 ^ (64 - s) * words_val B"
    proof -
      have "words_val B = unat y + 2 ^ s * (2 ^ (64 - s) * words_val ys)" unfolding B words_val.simps e by (simp only: mult.assoc)
      then have "unat y mod 2 ^ s = words_val B mod 2 ^ s" by (simp only: mod_mult_self2)
      moreover have "c + m * p + 2 ^ s * p * q = c + p * (m + 2 ^ s * q)" for c m p q :: nat by (simp add: algebra_simps)
      ultimately have "unat ?w + 2 ^ 64 * (words_val B div 2 ^ s) =
          unat x div 2 ^ s + 2 ^ (64 - s) * (words_val B mod 2 ^ s + 2 ^ s * (words_val B div 2 ^ s))"
        unfolding w e by (simp only:)
      then show ?thesis by (simp only: mod_mult_div_eq)
    qed
    also have "\<dots> = words_val (x # B) div 2 ^ s"
    proof -
      have "words_val (x # B) = unat x + 2 ^ s * (2 ^ (64 - s) * words_val B)" unfolding words_val.simps e by (simp only: mult.assoc)
      moreover have "(unat x + 2 ^ s * t) div 2 ^ s = t + unat x div 2 ^ s" for t by (rule div_mult_self2) simp
      ultimately show ?thesis by (simp only: add.commute)
    qed
    finally show ?thesis .
  qed
qed simp

text \<open>The loop writes at or below the words it still has to read.\<close>

lemma rshift_fold:
  assumes "\<And>i S. step i S = set_wd r (i - sw) (drop_bit s (wd S a i) OR push_bit (64 - s) (wd S a (i + 1))) S"
  shows "sw + k < List.length A \<Longrightarrow> List.length A \<le> List.length (bn_d (T a)) \<Longrightarrow> take (List.length A) (bn_d (T a)) = A \<Longrightarrow>
      List.length A \<le> List.length (bn_d (T r)) \<Longrightarrow>
      fold step [sw..<sw + k] T = with_words r (map (shr s (drop sw A)) [0..<k] @ drop k (bn_d (T r))) T"
proof (induction k)
  case 0
  then show ?case by (simp add: with_words_def)
next
  case (Suc k)
  let ?ws = "map (shr s (drop sw A)) [0..<k] @ drop k (bn_d (T r))"
  have IH: "fold step [sw..<sw + k] T = with_words r ?ws T" by (rule Suc.IH) (use Suc.prems in simp_all)
  have read: "wd (with_words r ?ws T) a i = A ! i" if "sw + k \<le> i" "i < List.length A" for i
  proof (cases "a = r")
    case True
    then have "wd (with_words r ?ws T) a i = bn_d (T a) ! i" using that Suc.prems by (simp add: wd_def nth_append)
    also have "\<dots> = A ! i" using that(2) Suc.prems(3) by (metis nth_take)
    finally show ?thesis .
  next
    case False
    then have "wd (with_words r ?ws T) a i = bn_d (T a) ! i" by (simp add: wd_def)
    also have "\<dots> = A ! i" using that(2) Suc.prems(3) by (metis nth_take)
    finally show ?thesis .
  qed
  have "step (sw + k) (with_words r ?ws T) = set_wd r k (shr s (drop sw A) k) (with_words r ?ws T)"
    using read [of "sw + k"] read [of "sw + k + 1"] Suc.prems(1) by (simp add: assms(1) shr_def)
  also have "\<dots> = with_words r (?ws[k := shr s (drop sw A) k]) T" by (simp add: set_wd_def with_words_def)
  also have "?ws[k := shr s (drop sw A) k] = map (shr s (drop sw A)) [0..<Suc k] @ drop (Suc k) (bn_d (T r))"
    using Suc.prems(1,4) by (simp add: list_update_append Cons_nth_drop_Suc [symmetric])
  finally have "step (sw + k) (fold step [sw..<sw + k] T) = with_words r (map (shr s (drop sw A)) [0..<Suc k] @ drop (Suc k) (bn_d (T r))) T"
    unfolding IH .
  moreover have "[sw..<sw + Suc k] = [sw..<sw + k] @ [sw + k]" by simp
  ultimately show ?case by (simp only: fold_append fold_simps comp_def)
qed

lemma bn_rshift_words_spec:
  assumes "take num (bn_d (T a)) = A" and "List.length A = num" and "num \<le> List.length (bn_d (T r))"
  shows "\<exists>d. bn_rshift_words r a n num T = with_words r d T \<and> List.length d = List.length (bn_d (T r)) \<and>
    words_val (take num d) = words_val A div 2 ^ n"
proof (cases "n div 64 \<ge> num")
  case True
  have "words_val A < 2 ^ (64 * num)" using words_val_less [of A] assms(2) by simp
  also have "\<dots> \<le> 2 ^ n" using True by (intro power_increasing) simp_all
  finally show ?thesis using True assms(3)
    by (intro exI [of _ "replicate num 0 @ drop num (bn_d (T r))"]) (simp add: bn_rshift_words_def Let_def BN_BITS2_def)
next
  case False
  let ?sw = "n div 64" and ?s = "n mod 64" and ?D = "bn_d (T r)"
  let ?B = "drop ?sw A" and ?m = "num - n div 64"
  have m: "?m \<le> num" "0 < ?m" "List.length ?B = ?m" "?sw \<le> num" using False assms(2) by simp_all
  have la: "num \<le> List.length (bn_d (T a))" using assms(1,2) by (metis length_take min.cobounded2 nat_le_linear take_all)
  obtain L where L: "(if ?s = 0 then with_words r (take ?m (drop ?sw (bn_d (T a))) @ drop ?m ?D) T
        else (let S1 = fold (rshift_step r a ?sw ?s) [?sw..<num - 1] T
              in set_wd r (num - 1 - ?sw) (drop_bit ?s (wd S1 a (num - 1))) S1)) = with_words r (L @ drop ?m ?D) T"
      "List.length L = ?m" "words_val L = words_val ?B div 2 ^ ?s"
  proof (cases "?s = 0")
    case True
    have "take ?m (drop ?sw (bn_d (T a))) = ?B" using assms(1) m(4) by (metis drop_take)
    then show thesis using that [of ?B] True m(3) by simp
  next
    case s: False
    let ?M = "map (shr ?s ?B) [0..<?m - 1]"
    have k: "num - 1 = ?sw + (?m - 1)" using m by simp
    have "fold (rshift_step r a ?sw ?s) [?sw..<?sw + (?m - 1)] T = with_words r (map (shr ?s (drop ?sw A)) [0..<?m - 1] @ drop (?m - 1) ?D) T"
    proof (rule rshift_fold)
      show "rshift_step r a ?sw ?s i S =
          set_wd r (i - ?sw) (drop_bit ?s (wd S a i) OR push_bit (64 - ?s) (wd S a (i + 1))) S" for i S
        by (simp only: rshift_step_def BN_BITS2_def)
      show "?sw + (?m - 1) < List.length A" unfolding assms(2) k [symmetric] using m(1,2) by simp
      show "take (List.length A) (bn_d (T a)) = A" unfolding assms(2) by (rule assms(1))
    qed (simp_all only: assms(2,3) la)
    then have fold: "fold (rshift_step r a ?sw ?s) [?sw..<num - 1] T = with_words r (?M @ drop (?m - 1) ?D) T" unfolding k .
    let ?S1 = "with_words r (?M @ drop (?m - 1) ?D) T"
    have last: "wd ?S1 a (num - 1) = ?B ! (?m - 1)"
    proof -
      have "(map f [0..<p] @ drop p D) ! q = D ! q" if "p \<le> q" "q < List.length D" for f p q and D :: "u64 list"
        using that by (simp add: nth_append)
      moreover have "?m - 1 \<le> num - 1" "num - 1 < List.length ?D" using m(1,2) assms(3) by linarith+
      ultimately have "wd ?S1 a (num - 1) = bn_d (T a) ! (num - 1)" by (simp add: wd_def)
      also have "\<dots> = A ! (num - 1)" using assms(1,2) m by (metis diff_less less_le_trans nth_take zero_less_one)
      also have "\<dots> = ?B ! (?m - 1)" using m assms(2) by simp
      finally show ?thesis .
    qed
    let ?L = "?M @ [drop_bit ?s (?B ! (?m - 1))]"
    have "drop (?m - 1) ?D = ?D ! (?m - 1) # drop ?m ?D"
    proof -
      have "?m - 1 < List.length ?D" "Suc (?m - 1) = ?m" using m(1,2) assms(3) by linarith+
      then show ?thesis using Cons_nth_drop_Suc [of "?m - 1" ?D] by metis
    qed
    then have "(?M @ drop (?m - 1) ?D)[num - 1 - ?sw := drop_bit ?s (?B ! (?m - 1))] = ?L @ drop ?m ?D"
      using m by (simp add: list_update_append)
    moreover have "set_wd r i w (with_words r ws T) = with_words r (ws[i := w]) T" for i w ws by (simp add: set_wd_def with_words_def)
    ultimately have "(let S1 = fold (rshift_step r a ?sw ?s) [?sw..<num - 1] T
          in set_wd r (num - 1 - ?sw) (drop_bit ?s (wd S1 a (num - 1))) S1) = with_words r (?L @ drop ?m ?D) T"
      unfolding Let_def fold last by (simp only:)
    moreover have "words_val ?L = words_val ?B div 2 ^ ?s"
    proof (rule shr_value [of ?s ?B, unfolded m(3)])
      show "?B \<noteq> []" using m(2,3) by (metis less_numeral_extra(3) list.size(3))
    qed (use s in simp_all)
    moreover have "List.length ?L = ?m" using m(2) by simp
    ultimately show thesis using s by (intro that [of ?L]) (simp_all only: if_False)
  qed
  let ?d = "L @ replicate ?sw 0 @ drop num ?D"
  have "with_words r (take ?m (bn_d (with_words r (L @ drop ?m ?D) T r)) @ replicate ?sw 0 @ drop num (bn_d (with_words r (L @ drop ?m ?D) T r)))
      (with_words r (L @ drop ?m ?D) T) = with_words r ?d T"
    using L(2) m by (simp add: with_words_def)
  then have "bn_rshift_words r a n num T = with_words r ?d T"
    using False L(1) unfolding bn_rshift_words_def Let_def BN_BITS2_def by simp
  moreover have "List.length ?d = List.length ?D" using L(2) m assms(3) by simp
  moreover have "words_val (take num ?d) = words_val A div 2 ^ n"
  proof -
    have "take num ?d = L @ replicate ?sw 0" using L(2) m by simp
    then have "words_val (take num ?d) = words_val ?B div 2 ^ ?s" by (simp add: words_val_append L(3))
    also have "words_val ?B = words_val A div 2 ^ (64 * ?sw)"
    proof -
      have "words_val (take ?sw A) < 2 ^ (64 * ?sw)" using words_val_less [of "take ?sw A"] m assms(2) by simp
      then show ?thesis using words_val_split [of ?sw A] m assms(2) by simp
    qed
    also have "words_val A div 2 ^ (64 * ?sw) div 2 ^ ?s = words_val A div 2 ^ (64 * ?sw + ?s)" by (simp only: div_mult2_eq power_add)
    finally show ?thesis by simp
  qed
  ultimately show ?thesis by blast
qed

lemma bn_rshift1_words_spec:
  assumes "take num (bn_d (T a)) = A" and "List.length A = num" and "num \<le> List.length (bn_d (T r))"
  shows "\<exists>d. bn_rshift1_words r a num T = with_words r d T \<and> List.length d = List.length (bn_d (T r)) \<and>
    words_val (take num d) = words_val A div 2"
proof (cases "num = 0")
  case True
  then show ?thesis using assms by (intro exI [of _ "bn_d (T r)"]) (simp add: bn_rshift1_words_def with_words_def)
next
  case False
  have "bn_rshift1_words r a num T = bn_rshift_words r a 1 num T"
  proof -
    have clear: "with_words r (take num (bn_d (U r)) @ replicate 0 0 @ drop num (bn_d (U r))) U = U" for U
      by (simp add: with_words_def)
    have step: "rshift_step r a 0 1 = (\<lambda>i S. set_wd r i (drop_bit 1 (wd S a i) OR push_bit (BN_BITS2 - 1) (wd S a (i + 1))) S)"
      by (intro ext) (simp add: rshift_step_def)
    have n: "1 mod BN_BITS2 = 1" "1 div BN_BITS2 = 0" "(num \<le> 0) = False" "((1 :: nat) = 0) = False" using False by (simp_all add: BN_BITS2_def)
    have nf: "(num = 0) = False" using False by simp
    show ?thesis unfolding bn_rshift_words_def bn_rshift1_words_def Let_def
      by (simp only: nf n if_False diff_zero step clear)
  qed
  then show ?thesis using bn_rshift_words_spec [OF assms, of 1] by simp
qed

text \<open>Both right shifts, from the loop on.\<close>

lemma right_shift_computes:
  assumes "bn_ok (S a)" and "bn_ok (S r)"
    and "\<And>T A. bn_width (T a) = bn_width (S a) \<Longrightarrow> take (bn_width (S a)) (bn_d (T a)) = A \<Longrightarrow> List.length A = bn_width (S a) \<Longrightarrow> bn_width (S a) \<le> List.length (bn_d (T r)) \<Longrightarrow>
      \<exists>d. shift T = with_words r d T \<and> List.length d = List.length (bn_d (T r)) \<and> words_val (take (bn_width (S a)) d) = words_val A div m"
    and "\<And>U. bn_width (U a) = bn_width (S a) \<Longrightarrow> bn_neg (U a) = bn_neg (S a) \<Longrightarrow>
      k U = bn_set_minimal_width r (set_neg r (bn_neg (S a)) (set_width r (bn_width (S a)) U))"
  shows "bn_computes al r (bn_width (S a)) (sgn (bn_val (S a)) * (\<bar>bn_val (S a)\<bar> div int m)) S
    (bn_then (bn_wexpand al r (bn_width (S a)) S)
      (\<lambda>S'. (True, k (shift S'))))"
proof -
  let ?W = "bn_width (S a)" and ?A = "take (bn_width (S a)) (bn_d (S a))"
  have fits: "bn_fits (S a)" "bn_fits (S r)" using assms by (simp_all add: bn_ok_def)
  from fits(2) show ?thesis
  proof (cases rule: bn_wexpand_cases [where al = al and n = ?W and p = r and S = S])
    case 1
    then show ?thesis by (auto simp: bn_computes_def)
  next
    case (2 d)
    let ?T = "with_words r d S"
    have "bn_width (?T a) = ?W" by simp
    moreover have "take ?W (bn_d (?T a)) = ?A" using 2(3) by (cases "a = r") simp_all
    moreover have "List.length ?A = ?W" using fits(1) by simp
    moreover have "?W \<le> List.length (bn_d (?T r))" using 2(2) by simp
    ultimately have "\<exists>d2. shift ?T = with_words r d2 ?T \<and> List.length d2 = List.length (bn_d (?T r)) \<and>
        words_val (take ?W d2) = words_val ?A div m" by (rule assms(3))
    then obtain d2 where d2: "shift ?T = with_words r d2 ?T" "List.length d2 = List.length d" "words_val (take ?W d2) = words_val ?A div m"
      by auto
    let ?U = "set_neg r (bn_neg (S a)) (set_width r ?W (with_words r d2 ?T))"
    have mag: "bn_mag (?U r) = bn_mag (S a) div m" using d2(3) by (simp add: bn_mag_def)
    have neg: "bn_neg (?U r) = bn_neg (S a)" by simp
    have "bn_val (?U r) = sgn (bn_val (S a)) * (\<bar>bn_val (S a)\<bar> div int m)"
      unfolding bn_val_def [of "?U r"] mag neg by (auto simp: bn_val_def sgn_if zdiv_int)
    moreover have "bn_fits (?U r)" using 2(2) d2(2) by simp
    moreover have k: "k (with_words r d2 ?T) = bn_set_minimal_width r ?U" by (rule assms(4)) simp_all
    ultimately show ?thesis unfolding 2(1) bn_then_simps d2(1) k by (intro minimal_width_computes [where U = ?U]) simp_all
  qed
qed

lemma set_width_neg: "set_width r w (set_neg r s S) = set_neg r s (set_width r w S)"
  by (cases "S r") (simp add: set_width_def set_neg_def)

lemma BN_rshift_computes:
  assumes "bn_ok (S a)" and "bn_ok (S r)" and "0 \<le> n"
  shows "bn_computes al r (bn_width (S a)) (sgn (bn_val (S a)) * (\<bar>bn_val (S a)\<bar> div 2 ^ nat n)) S (BN_rshift al r a n S)"
proof -
  let ?k = "\<lambda>S1. let S2 = set_neg r (bn_neg (S1 a)) S1 in bn_set_minimal_width r (set_width r (bn_width (S2 a)) S2)"
  have "bn_computes al r (bn_width (S a)) (sgn (bn_val (S a)) * (\<bar>bn_val (S a)\<bar> div int (2 ^ nat n))) S
      (bn_then (bn_wexpand al r (bn_width (S a)) S) (\<lambda>S'. (True, ?k (bn_rshift_words r a (nat n) (bn_width (S' a)) S'))))"
  proof (rule right_shift_computes [where k = ?k and shift = "\<lambda>S'. bn_rshift_words r a (nat n) (bn_width (S' a)) S'", OF assms(1,2)])
    fix T :: bn_store and A
    assume "bn_width (T a) = bn_width (S a)" "take (bn_width (S a)) (bn_d (T a)) = A" "List.length A = bn_width (S a)"
      "bn_width (S a) \<le> List.length (bn_d (T r))"
    then show "\<exists>d. bn_rshift_words r a (nat n) (bn_width (T a)) T = with_words r d T \<and> List.length d = List.length (bn_d (T r)) \<and>
        words_val (take (bn_width (S a)) d) = words_val A div 2 ^ nat n"
      using bn_rshift_words_spec [of "bn_width (S a)" T a A r "nat n"] by (simp only:)
  next
    fix U :: bn_store
    assume "bn_width (U a) = bn_width (S a)" "bn_neg (U a) = bn_neg (S a)"
    moreover have "bn_width (set_neg r x U a) = bn_width (U a)" for x by simp
    ultimately show "?k U = bn_set_minimal_width r (set_neg r (bn_neg (S a)) (set_width r (bn_width (S a)) U))"
      unfolding Let_def by (simp only: set_width_neg)
  qed
  then show ?thesis using assms(3) by (simp add: BN_rshift_def Let_def)
qed

lemma BN_rshift1_computes:
  assumes "bn_ok (S a)" and "bn_ok (S r)"
  shows "bn_computes al r (bn_width (S a)) (sgn (bn_val (S a)) * (\<bar>bn_val (S a)\<bar> div 2)) S (BN_rshift1 al r a S)"
proof -
  let ?k = "\<lambda>S1. let S2 = set_width r (bn_width (S1 a)) S1 in bn_set_minimal_width r (set_neg r (bn_neg (S2 a)) S2)"
  have "bn_computes al r (bn_width (S a)) (sgn (bn_val (S a)) * (\<bar>bn_val (S a)\<bar> div int 2)) S
      (bn_then (bn_wexpand al r (bn_width (S a)) S) (\<lambda>S'. (True, ?k (bn_rshift1_words r a (bn_width (S' a)) S'))))"
  proof (rule right_shift_computes [where k = ?k and shift = "\<lambda>S'. bn_rshift1_words r a (bn_width (S' a)) S'", OF assms])
    fix T :: bn_store and A
    assume "bn_width (T a) = bn_width (S a)" "take (bn_width (S a)) (bn_d (T a)) = A" "List.length A = bn_width (S a)"
      "bn_width (S a) \<le> List.length (bn_d (T r))"
    then show "\<exists>d. bn_rshift1_words r a (bn_width (T a)) T = with_words r d T \<and> List.length d = List.length (bn_d (T r)) \<and>
        words_val (take (bn_width (S a)) d) = words_val A div 2"
      using bn_rshift1_words_spec [of "bn_width (S a)" T a A r] by (simp only:)
  next
    fix U :: bn_store
    assume "bn_width (U a) = bn_width (S a)" "bn_neg (U a) = bn_neg (S a)"
    moreover have "bn_neg (set_width r x U a) = bn_neg (U a)" for x by simp
    ultimately show "?k U = bn_set_minimal_width r (set_neg r (bn_neg (S a)) (set_width r (bn_width (S a)) U))"
      unfolding Let_def by (simp only:)
  qed
  then show ?thesis by (simp add: BN_rshift1_def Let_def)
qed

section \<open>Shifting left by one\<close>

definition lshift1_word :: "u64 \<Rightarrow> u64 \<Rightarrow> u64 \<Rightarrow> u64 \<Rightarrow> u64 \<times> u64" where
  "lshift1_word x y z c = (push_bit 1 x OR c, drop_bit 63 x)"

lemma chain_lshift1:
  "List.length ys = List.length xs \<Longrightarrow> List.length zs = List.length xs \<Longrightarrow> unat c \<le> 1 \<Longrightarrow> word_chain lshift1_word xs ys zs c = (ws, c1) \<Longrightarrow>
     words_val ws + 2 ^ (64 * List.length xs) * unat c1 = 2 * words_val xs + unat c \<and> unat c1 \<le> 1"
proof (induction xs arbitrary: ys zs c ws)
  case (Cons x xs)
  obtain y ys' z zs' where e: "ys = y # ys'" "zs = z # zs'" using Cons.prems(1,2) by (cases ys; cases zs) auto
  obtain ws' where ws: "word_chain lshift1_word xs ys' zs' (drop_bit 63 x) = (ws', c1)" "ws = (push_bit 1 x OR c) # ws'"
    using Cons.prems(4) lshift1_word_def [of x y z c] by (auto simp: e split: prod.splits)
  have up: "unat (push_bit 1 x) + 2 ^ 64 * (unat x div 2 ^ 63) = unat x * 2" using shifted_word [of 1 x] by simp
  have hi: "unat (drop_bit 63 x) = unat x div 2 ^ 63" by (rule unat_drop_bit)
  have "unat x div 2 ^ 63 < 2" using unat_u64_less [of x] by (intro less_mult_imp_div_less) simp
  then have IH: "words_val ws' + 2 ^ (64 * List.length xs) * unat c1 = 2 * words_val xs + unat x div 2 ^ 63" "unat c1 \<le> 1"
    using Cons.IH [OF _ _ _ ws(1)] Cons.prems(1,2) e hi by simp_all
  have "even (unat (push_bit 1 x) + 2 ^ 64 * (unat x div 2 ^ 63))" unfolding up by simp
  then have "2 dvd unat (push_bit 1 x)" by simp
  then have "unat (push_bit 1 x OR c) = unat (push_bit 1 x) + unat c"
    using unat_or_disjoint [of 1 "push_bit 1 x" c] Cons.prems(3) by simp
  then have "words_val ws + 2 ^ 64 * (2 ^ (64 * List.length xs) * unat c1) = unat x * 2 + unat c + 2 ^ 64 * (2 * words_val xs)"
    using up IH(1) unfolding ws(2) by simp
  then show ?case using IH(2) by (simp add: power_add)
qed simp

lemma BN_lshift1_computes:
  assumes "bn_ok (S a)" and "bn_ok (S r)"
  shows "bn_computes al r (bn_width (S a) + 1) (bn_val (S a) * 2) S (BN_lshift1 al r a S)"
proof -
  let ?W = "bn_width (S a)" and ?A = "take (bn_width (S a)) (bn_d (S a))"
  let ?S = "if r \<noteq> a then set_neg r (bn_neg (S a)) S else S"
  have fits: "bn_fits (S a)" "bn_fits (?S r)" using assms by (simp_all add: bn_ok_def)
  define body where "body = (\<lambda>S. let w = bn_width (S a); (c, S1) = fold (lshift1_step r a) [0..<w] (0, S)
             in (True, if c \<noteq> 0 then set_width r (bn_width (S1 r) + 1) (set_wd r w 1 S1) else S1))"
  have code: "BN_lshift1 al r a S = bn_then (bn_wexpand al r (?W + 1) ?S) (\<lambda>T. body (if r \<noteq> a then set_width r ?W T else T))"
    if "\<And>T. bn_wexpand al r (?W + 1) ?S = (True, T) \<Longrightarrow> bn_width (T a) = ?W"
    using that by (cases "bn_wexpand al r (?W + 1) ?S") (auto simp: BN_lshift1_def body_def bn_then_def split: if_splits)
  from fits(2) show ?thesis
  proof (cases rule: bn_wexpand_cases [where al = al and n = "?W + 1" and p = r and S = ?S])
    case 1
    have "fst (bn_wexpand al r (?W + 1) ?S) = fst (bn_wexpand al r (?W + 1) S)" by (rule bn_wexpand_same_room) simp_all
    then have "\<not> fst (bn_wexpand al r (?W + 1) S)" using 1 by simp
    moreover have "BN_lshift1 al r a S = (False, ?S)" using code 1 by simp
    moreover have "?S q = S q" if "q \<noteq> r" for q using that by simp
    ultimately show ?thesis unfolding bn_computes_def by auto
  next
    case (2 d)
    let ?T0 = "with_words r d ?S"
    define T where "T = (if r \<noteq> a then set_width r ?W ?T0 else ?T0)"
    have "bn_width (?T0 a) = ?W" by simp
    then have run: "BN_lshift1 al r a S = body T" using code 2(1) by (simp add: T_def)
    have T: "bn_d (T r) = d" "bn_width (T a) = ?W" "bn_width (T r) = ?W" "bn_neg (T r) = bn_neg (S a)" "take ?W (bn_d (T a)) = ?A"
      "\<And>q. q \<noteq> r \<Longrightarrow> T q = S q" "?W \<le> List.length (bn_d (T a))"
      using 2 fits(1) by (auto simp: T_def)
    have step: "lshift1_step r a i (c, S) =
        (let (w, c1) = lshift1_word (wd S a i) (wd S a i) (wd S r (0 + i)) c in (c1, set_wd r (0 + i) w S))" for i c S
      by (simp add: lshift1_step_def lshift1_word_def BN_BITS2_def Let_def)
    obtain ws c where chain: "word_chain lshift1_word (take ?W (drop 0 (bn_d (T a)))) (take ?W (drop 0 (bn_d (T a)))) (take ?W (drop (0 + 0) (bn_d (T r)))) 0 = (ws, c)"
        "fold (lshift1_step r a) [0..<0 + ?W] (0, T) = (c, with_words r (take (0 + 0) (bn_d (T r)) @ ws @ drop (0 + 0 + ?W) (bn_d (T r))) T)"
        "List.length ws = ?W"
      by (rule word_chain_store [of "lshift1_step r a" lshift1_word a a r 0 0 ?W T 0, OF step]) (use T 2(2) in simp_all)
    have val: "words_val ws + 2 ^ (64 * ?W) * unat c = 2 * bn_mag (S a)" "unat c \<le> 1"
      using chain_lshift1 [OF _ _ _ chain(1)] T 2(2) fits(1) by (simp_all add: bn_mag_def min_def)
    let ?U = "with_words r (ws @ drop ?W d) T"
    have fold: "fold (lshift1_step r a) [0..<?W] (0, T) = (c, ?U)" using chain(2) T(1) by simp
    have body: "body T = (True, if c \<noteq> 0 then set_width r (?W + 1) (set_wd r ?W 1 ?U) else ?U)"
      unfolding body_def T(2) Let_def fold prod.case using T(3) by simp
    let ?V = "if c \<noteq> 0 then set_width r (?W + 1) (set_wd r ?W 1 ?U) else ?U"
    have "bn_fits (?V r) \<and> bn_mag (?V r) = 2 * bn_mag (S a) \<and> bn_neg (?V r) = bn_neg (S a)"
    proof (cases "c = 0")
      case True
      then show ?thesis using val(1) chain(3) T(3,4) 2(2) by (simp add: bn_mag_def)
    next
      case False
      then have "unat c = 1" using val(2) by (simp add: unsigned_eq_0_iff le_Suc_eq)
      moreover have "(ws @ drop ?W d)[?W := 1] = ws @ 1 # drop (Suc ?W) d"
        using chain(3) 2(2) by (simp add: list_update_append Cons_nth_drop_Suc [symmetric])
      ultimately show ?thesis using False val(1) chain(3) T(4) 2(2) by (simp add: bn_mag_def words_val_append)
    qed
    moreover have "?V q = S q" if "q \<noteq> r" for q using that T(6) by simp
    ultimately have "bn_ok (?V r) \<and> bn_val (?V r) = bn_val (S a) * 2 \<and> (\<forall>q. q \<noteq> r \<longrightarrow> ?V q = S q)"
      using assms(1) by (simp only: bn_ok_def bn_val_def) auto
    then show ?thesis unfolding run body bn_computes_def fst_conv snd_conv if_True by blast
  qed
qed

section \<open>Single bits\<close>

lemma bit_words_val: "bit (words_val ws) n \<longleftrightarrow> n div 64 < List.length ws \<and> bit (ws ! (n div 64)) (n mod 64)"
proof (induction ws arbitrary: n)
  case (Cons w ws)
  have "words_val (w # ws) = push_bit 64 (words_val ws) + take_bit 64 (unat w)"
    using unat_u64_less [of w] by (simp add: push_bit_eq_mult take_bit_nat_eq_self)
  also have "\<dots> = push_bit 64 (words_val ws) OR take_bit 64 (unat w)"
    by (rule disjunctive_add) (auto simp: bit_push_bit_iff bit_take_bit_iff)
  finally have v: "bit (words_val (w # ws)) n \<longleftrightarrow> 64 \<le> n \<and> bit (words_val ws) (n - 64) \<or> n < 64 \<and> bit w n"
    by (simp only: bit_or_iff bit_push_bit_iff bit_take_bit_iff bit_unsigned_iff) auto
  show ?case
  proof (cases "n < 64")
    case False
    then have "n div 64 = Suc ((n - 64) div 64)" "(n - 64) mod 64 = n mod 64" by (simp_all add: le_div_geq le_mod_geq)
    then show ?thesis unfolding v using False Cons.IH [of "n - 64"] by simp
  next
    case True
    then show ?thesis unfolding v by simp
  qed
qed simp

lemma bit_mag: "bn_fits b \<Longrightarrow> bit (bn_mag b) n \<longleftrightarrow> n div 64 < bn_width b \<and> bit (bn_d b ! (n div 64)) (n mod 64)"
  by (auto simp: bn_mag_def bit_words_val)

lemma same_position: "m = n \<longleftrightarrow> m div 64 = n div 64 \<and> m mod 64 = n mod (64 :: nat)"
  by (metis div_mult_mod_eq)

lemma BN_is_bit_set_iff:
  assumes "bn_fits b" and "0 \<le> n"
  shows "BN_is_bit_set b n \<longleftrightarrow> bit (bn_mag b) (nat n)"
proof -
  have "drop_bit j x AND 1 = 1 \<longleftrightarrow> bit x j" for x :: u64 and j
    by (simp add: and_one_eq bit_iff_odd_drop_bit odd_iff_mod_2_eq_one)
  then show ?thesis using assms by (auto simp: BN_is_bit_set_def bn_is_bit_set_words_def Let_def BN_BITS2_def bit_mag)
qed

text \<open>Changing one word of a number changes those bits.\<close>

lemma bit_mag_update:
  assumes "bn_fits b" and "i < bn_width b"
  shows "bit (bn_mag (b\<lparr>bn_d := (bn_d b)[i := x]\<rparr>)) n \<longleftrightarrow> (if n div 64 = i then bit x (n mod 64) else bit (bn_mag b) n)"
  using assms by (auto simp: bit_mag)

lemma BN_clear_bit_mag:
  assumes "bn_fits (S a)" and "0 \<le> n" and "nat n div 64 < bn_width (S a)"
  shows "bn_mag ((S a)\<lparr>bn_d := (bn_d (S a))[nat n div 64 := bn_d (S a) ! (nat n div 64) AND NOT (push_bit (nat n mod 64) 1)]\<rparr>) =
    unset_bit (nat n) (bn_mag (S a))"
proof (rule bit_eqI)
  fix m
  have "bit (bn_d (S a) ! (nat n div 64) AND NOT (push_bit (nat n mod 64) 1)) (m mod 64) \<longleftrightarrow>
      bit (bn_d (S a) ! (nat n div 64)) (m mod 64) \<and> m mod 64 \<noteq> nat n mod 64"
    by (simp only: bit_and_iff bit_not_iff bit_push_bit_iff bit_1_iff possible_bit_word) auto
  then show "bit (bn_mag ((S a)\<lparr>bn_d := (bn_d (S a))[nat n div 64 := bn_d (S a) ! (nat n div 64) AND NOT (push_bit (nat n mod 64) 1)]\<rparr>)) m \<longleftrightarrow>
      bit (unset_bit (nat n) (bn_mag (S a))) m"
    using assms by (simp only: bit_mag_update bit_unset_bit_iff) (auto simp: bit_mag same_position [of "nat n" m])
qed

lemma BN_clear_bit_computes:
  assumes "bn_ok (S a)" and "0 \<le> n" and "nat n div 64 < bn_width (S a)"
  shows "bn_computes al a k (sgn (bn_val (S a)) * int (unset_bit (nat n) (nat \<bar>bn_val (S a)\<bar>))) S (BN_clear_bit a n S)" and "fst (BN_clear_bit a n S)"
proof -
  let ?i = "nat n div 64"
  let ?U = "set_wd a ?i (wd S a ?i AND NOT (push_bit (nat n mod 64) 1)) S"
  have f: "bn_fits (S a)" using assms(1) by (simp add: bn_ok_def)
  have run: "BN_clear_bit a n S = (True, bn_set_minimal_width a ?U)" using assms(2,3) by (simp add: BN_clear_bit_def Let_def BN_BITS2_def)
  have "bn_mag (?U a) = unset_bit (nat n) (bn_mag (S a))" using BN_clear_bit_mag [where S = S and a = a and n = n, OF f assms(2,3)] by (simp only: wd_def set_wd_def fun_upd_same)
  moreover have "bn_neg (?U a) = bn_neg (S a)" by simp
  moreover have "unset_bit m (0 :: nat) = 0" for m by (simp add: unset_bit_0 bit_eq_iff bit_unset_bit_iff)
  ultimately have "bn_val (?U a) = sgn (bn_val (S a)) * int (unset_bit (nat n) (nat \<bar>bn_val (S a)\<bar>))"
    by (simp only: bn_val_def) (auto simp: sgn_if)
  moreover have "bn_fits (?U a)" using f by simp
  ultimately show "bn_computes al a k (sgn (bn_val (S a)) * int (unset_bit (nat n) (nat \<bar>bn_val (S a)\<bar>))) S (BN_clear_bit a n S)"
    unfolding run by (intro minimal_width_computes [where U = ?U]) simp_all
  show "fst (BN_clear_bit a n S)" by (simp add: run)
qed

lemma bit_masked_word: "bit (x AND NOT (push_bit b (-1))) k \<longleftrightarrow> bit x k \<and> k < b" for x :: u64
  by (simp only: bit_and_iff bit_not_iff bit_push_bit_iff bit_minus_1_iff possible_bit_word) (auto dest: bit_imp_le_length)

lemma masked_top:
  fixes d :: "u64 list"
  assumes "w < n" and "n \<le> List.length d"
  shows "q < w + 1 \<and> bit (d[w := d ! w AND NOT (push_bit b (-1))] ! q) k \<longleftrightarrow> (q < w \<or> q = w \<and> k < b) \<and> q < n \<and> bit (d ! q) k"
  using assms by (cases "q = w") (auto simp: bit_and_iff bit_mask_iff dest: bit_imp_le_length)

lemma BN_mask_bits_computes:
  assumes "bn_ok (S a)" and "0 \<le> n"
  shows "bn_computes al a k (sgn (bn_val (S a)) * (\<bar>bn_val (S a)\<bar> mod 2 ^ nat n)) S (BN_mask_bits a n S)" and "fst (BN_mask_bits a n S)"
proof -
  let ?w = "nat n div 64" and ?b = "nat n mod 64" and ?W = "bn_width (S a)"
  have f: "bn_fits (S a)" using assms(1) by (simp add: bn_ok_def)
  have val: "bn_val b = sgn (bn_val (S a)) * (\<bar>bn_val (S a)\<bar> mod 2 ^ nat n)"
    if "bn_mag b = take_bit (nat n) (bn_mag (S a))" "bn_neg b = bn_neg (S a)" for b
    using that by (auto simp: bn_val_def sgn_if take_bit_eq_mod zmod_int)
  show "bn_computes al a k (sgn (bn_val (S a)) * (\<bar>bn_val (S a)\<bar> mod 2 ^ nat n)) S (BN_mask_bits a n S)"
  proof (cases "?w \<ge> ?W")
    case True
    have "bn_mag (S a) < 2 ^ (64 * ?W)" using words_val_less [of "take ?W (bn_d (S a))"] f by (simp add: bn_mag_def)
    also have "\<dots> \<le> 2 ^ nat n" using True by (intro power_increasing) simp_all
    finally have "bn_mag (S a) = take_bit (nat n) (bn_mag (S a))" by (simp add: take_bit_nat_eq_self)
    then show ?thesis using True assms val [of "S a"] by (simp add: BN_mask_bits_def Let_def BN_BITS2_def bn_computes_def)
  next
    case False
    define U where "U = (if ?b = 0 then set_width a ?w S
                         else (let S1 = set_width a (?w + 1) S in set_wd a ?w (wd S1 a ?w AND NOT (push_bit ?b (-1))) S1))"
    have run: "BN_mask_bits a n S = (True, bn_set_minimal_width a U)"
      using False assms(2) by (simp add: BN_mask_bits_def Let_def BN_BITS2_def U_def)
    have fits: "bn_fits (U a)" using False f by (auto simp: U_def Let_def)
    have n: "nat n = 64 * ?w + ?b" by simp
    have mag: "bn_mag (U a) = take_bit (nat n) (bn_mag (S a))"
    proof (rule bit_eqI)
      fix m
      have pos: "m < nat n \<longleftrightarrow> m div 64 < ?w \<or> m div 64 = ?w \<and> m mod 64 < ?b"
      proof -
        have "m = 64 * (m div 64) + m mod 64" "m mod 64 < 64" "?b < 64" by simp_all
        then show ?thesis using n by linarith
      qed
      show "bit (bn_mag (U a)) m \<longleftrightarrow> bit (take_bit (nat n) (bn_mag (S a))) m"
      proof (cases "?b = 0")
        case True
        then show ?thesis using fits f False pos unfolding bit_take_bit_iff by (auto simp: bit_mag U_def)
      next
        case b: False
        have "bn_width (U a) = ?w + 1" "bn_d (U a) = (bn_d (S a))[?w := bn_d (S a) ! ?w AND NOT (push_bit ?b (-1))]"
          using b by (simp_all add: U_def Let_def wd_def)
        then show ?thesis unfolding bit_take_bit_iff bit_mag [OF fits] bit_mag [OF f] pos
          using masked_top [of ?w ?W "bn_d (S a)"] False f by simp
      qed
    qed
    have neg: "bn_neg (U a) = bn_neg (S a)" by (simp add: U_def Let_def)
    show ?thesis unfolding run
    proof (rule minimal_width_computes [where U = U and r = a, OF fits val [OF mag neg]])
      show "U q = S q" if "q \<noteq> a" for q using that by (simp add: U_def Let_def)
    qed
  qed
  show "fst (BN_mask_bits a n S)" using assms(2) by (simp add: BN_mask_bits_def Let_def)
qed

lemma clear_from:
  "n \<le> m \<Longrightarrow> m \<le> List.length (bn_d (S r)) \<Longrightarrow>
     fold (\<lambda>i. set_wd r i 0) [n..<m] S = with_words r (take n (bn_d (S r)) @ replicate (m - n) 0 @ drop m (bn_d (S r))) S"
proof (induction m)
  case (Suc m)
  show ?case
  proof (cases "n = Suc m")
    case True
    then show ?thesis by (simp add: with_words_def)
  next
    case False
    let ?ws = "take n (bn_d (S r)) @ replicate (m - n) 0 @ drop m (bn_d (S r))"
    have "drop m (bn_d (S r)) = bn_d (S r) ! m # drop (Suc m) (bn_d (S r))" using Suc.prems by (simp add: Cons_nth_drop_Suc)
    then have "?ws[m := 0] = take n (bn_d (S r)) @ replicate (Suc m - n) 0 @ drop (Suc m) (bn_d (S r))"
      using False Suc.prems by (simp add: list_update_append Suc_diff_le replicate_app_Cons_same)
    moreover have "fold (\<lambda>i. set_wd r i 0) [n..<m] S = with_words r ?ws S" by (rule Suc.IH) (use Suc.prems False in simp_all)
    moreover have "set_wd r m 0 (with_words r ?ws S) = with_words r (?ws[m := 0]) S" by (simp add: set_wd_def with_words_def)
    moreover have "[n..<Suc m] = [n..<m] @ [m]" using False Suc.prems by simp
    ultimately show ?thesis by (simp only: fold_append fold_simps comp_def)
  qed
qed (simp add: with_words_def)

lemma BN_set_bit_computes:
  assumes "bn_ok (S a)" and "0 \<le> n"
  shows "bn_computes al a (nat n div 64 + 1)
    ((if bn_val (S a) < 0 then -1 else 1) * int (set_bit (nat n) (nat \<bar>bn_val (S a)\<bar>))) S (BN_set_bit al a n S)"
proof -
  let ?i = "nat n div 64" and ?j = "nat n mod 64" and ?W = "bn_width (S a)"
  let ?f = "\<lambda>S. (True, set_wd a ?i (wd S a ?i OR push_bit ?j 1) S)"
  have f: "bn_fits (S a)" using assms(1) by (simp add: bn_ok_def)
  have last: "bn_computes al a (?i + 1) ((if bn_val (S a) < 0 then -1 else 1) * int (set_bit (nat n) (nat \<bar>bn_val (S a)\<bar>))) S (?f T)"
    if T: "bn_fits (T a)" "?i < bn_width (T a)" "bn_mag (T a) = bn_mag (S a)" "bn_neg (T a) = bn_neg (S a)" "\<And>q. q \<noteq> a \<Longrightarrow> T q = S q" for T
  proof -
    let ?b = "(T a)\<lparr>bn_d := (bn_d (T a))[?i := bn_d (T a) ! ?i OR push_bit ?j 1]\<rparr>"
    have mag: "bn_mag ?b = set_bit (nat n) (bn_mag (S a))"
    proof (rule bit_eqI)
      fix m
      have "bit (bn_d (T a) ! ?i OR push_bit ?j 1) (m mod 64) \<longleftrightarrow> bit (bn_d (T a) ! ?i) (m mod 64) \<or> m mod 64 = ?j"
        by (simp only: bit_or_iff bit_push_bit_iff bit_1_iff) auto
      then show "bit (bn_mag ?b) m \<longleftrightarrow> bit (set_bit (nat n) (bn_mag (S a))) m"
        using T(1,2) unfolding T(3) [symmetric]
        by (simp only: bit_mag_update bit_set_bit_iff) (auto simp: bit_mag same_position [of "nat n" m])
    qed
    moreover have "set_bit (nat n) (bn_mag (S a)) \<noteq> 0"
    proof
      assume "set_bit (nat n) (bn_mag (S a)) = 0"
      then have "\<not> bit (set_bit (nat n) (bn_mag (S a))) (nat n)" by simp
      then show False by (simp add: bit_set_bit_iff)
    qed
    ultimately have "bn_ok ?b" "bn_val ?b = (if bn_val (S a) < 0 then -1 else 1) * int (set_bit (nat n) (nat \<bar>bn_val (S a)\<bar>))"
      using T(1,4) assms(1) unfolding bn_ok_def bn_val_def mag by auto
    moreover have "set_wd a ?i (wd T a ?i OR push_bit ?j 1) T = T(a := ?b)" by (simp add: set_wd_def wd_def)
    ultimately show ?thesis using T(5) by (simp add: bn_computes_def)
  qed
  show ?thesis
  proof (cases "?W \<le> ?i")
    case False
    then have "BN_set_bit al a n S = ?f S" using assms(2) by (simp add: BN_set_bit_def Let_def BN_BITS2_def)
    then show ?thesis using last [of S] f False by simp
  next
    case True
    from f show ?thesis
    proof (cases rule: bn_wexpand_cases [where al = al and n = "?i + 1" and p = a and S = S])
      case 1
      then show ?thesis using assms(2) True by (auto simp: BN_set_bit_def Let_def BN_BITS2_def bn_computes_def)
    next
      case (2 d)
      let ?ws = "take ?W d @ replicate (?i + 1 - ?W) 0 @ drop (?i + 1) d"
      let ?T = "set_width a (?i + 1) (with_words a ?ws S)"
      have "fold (\<lambda>k. set_wd a k 0) [?W..<?i + 1] (with_words a d S) = with_words a ?ws (with_words a d S)"
        using clear_from [of ?W "?i + 1" "with_words a d S" a] True 2(2) by simp
      also have "\<dots> = with_words a ?ws S" by (simp add: with_words_def)
      finally have run: "BN_set_bit al a n S = ?f ?T"
        using assms(2) True 2(1) by (simp add: BN_set_bit_def Let_def BN_BITS2_def)
      have mag: "bn_mag (?T a) = bn_mag (S a)" and fits: "bn_fits (?T a)"
        using 2(2,3,4) True f by (simp_all add: bn_mag_def words_val_append min_def)
      have lt: "?i < bn_width (?T a)" and neg: "bn_neg (?T a) = bn_neg (S a)" by simp_all
      show ?thesis unfolding run
      proof (rule last [where T = ?T, OF fits lt mag neg])
        show "?T q = S q" if "q \<noteq> a" for q using that by simp
      qed
    qed
  qed
qed

section \<open>Properties\<close>

text \<open>
  C36: the shifts multiply by a power of two, or divide the absolute value by one and keep the sign, for operands of any width and sign and
  also in place, where the loops read and write the same array. Nothing but \<open>r\<close> changes, and only a lack of room makes them fail.
\<close>

theorem BN_shift_correct:
  assumes "bn_ok (S a)" and "bn_ok (S r)" and "0 \<le> n"
  shows "bn_computes al r (bn_width (S a) + nat n div 64 + 1) (bn_val (S a) * 2 ^ nat n) S (BN_lshift al r a n S)
    \<and> bn_computes al r (bn_width (S a) + 1) (bn_val (S a) * 2) S (BN_lshift1 al r a S)
    \<and> bn_computes al r (bn_width (S a)) (sgn (bn_val (S a)) * (\<bar>bn_val (S a)\<bar> div 2 ^ nat n)) S (BN_rshift al r a n S)
    \<and> bn_computes al r (bn_width (S a)) (sgn (bn_val (S a)) * (\<bar>bn_val (S a)\<bar> div 2)) S (BN_rshift1 al r a S)"
  by (intro conjI BN_lshift_computes BN_lshift1_computes BN_rshift_computes BN_rshift1_computes assms)

theorem BN_shift_correct_witness:
  "bn_val (snd (BN_lshift example_alloc 0 0 3 bn_example) 0) = 2 ^ 67 - 8 \<and> bn_val (snd (BN_rshift example_alloc 1 0 60 bn_example) 1) = 15"
proof -
  have room: "fst (bn_wexpand example_alloc p m bn_example)" if "m \<le> 3" for p m using bn_example_room [of p] that by blast
  have w: "bn_width (bn_example 0) = 1" by (simp add: bn_example_def)
  have e: "bn_ok (bn_example 0)" "bn_ok (bn_example 1)" by (rule bn_example_ok)+
  have c: "bn_computes example_alloc 0 3 (bn_val (bn_example 0) * 2 ^ 3) bn_example (BN_lshift example_alloc 0 0 3 bn_example)"
    using BN_shift_correct [where S = bn_example and a = 0 and r = 0 and n = 3 and al = example_alloc, OF e(1) e(1)] w
    by (auto intro: bn_computes_mono)
  have d: "bn_computes example_alloc 1 3 (sgn (bn_val (bn_example 0)) * (\<bar>bn_val (bn_example 0)\<bar> div 2 ^ 60)) bn_example
      (BN_rshift example_alloc 1 0 60 bn_example)"
    using BN_shift_correct [where S = bn_example and a = 0 and r = 1 and n = 60 and al = example_alloc, OF e] w
    by (auto intro: bn_computes_mono)
  show ?thesis using c d room unfolding bn_computes_def bn_example_ok by (auto split: if_splits)
qed

text \<open>
  C37: the operations on single bits are those on the bits of the absolute value. \<^verbatim>\<open>BN_set_bit\<close> makes the number as long as it needs to
  be, and fails only without room; \<^verbatim>\<open>BN_clear_bit\<close> clears any bit in the words of the number; \<^verbatim>\<open>BN_mask_bits\<close> keeps the lower bits
  and succeeds. A sign is kept unless the number becomes zero. For a bit behind the words, which is not set, \<^verbatim>\<open>BN_clear_bit\<close> returns zero,
  though the number is what it should be: \<^verbatim>\<open>bn.h\<close> says that it does so only when an allocation fails, and it makes none. Negative
  numbers of bits are refused by all, without effect.
\<close>

theorem BN_bits_correct:
  assumes "bn_ok (S a)"
  shows "if n < 0 then \<not> BN_is_bit_set (S a) n \<and> BN_set_bit al a n S = (False, S) \<and> BN_clear_bit a n S = (False, S)
      \<and> BN_mask_bits a n S = (False, S)
    else (BN_is_bit_set (S a) n \<longleftrightarrow> bit (nat \<bar>bn_val (S a)\<bar>) (nat n))
    \<and> bn_computes al a (nat n div 64 + 1) ((if bn_val (S a) < 0 then -1 else 1) * int (set_bit (nat n) (nat \<bar>bn_val (S a)\<bar>))) S (BN_set_bit al a n S)
    \<and> (if nat n div 64 < bn_width (S a)
       then fst (BN_clear_bit a n S) \<and> bn_computes al a 0 (sgn (bn_val (S a)) * int (unset_bit (nat n) (nat \<bar>bn_val (S a)\<bar>))) S (BN_clear_bit a n S)
       else BN_clear_bit a n S = (False, S) \<and> \<not> BN_is_bit_set (S a) n)
    \<and> fst (BN_mask_bits a n S) \<and> bn_computes al a 0 (sgn (bn_val (S a)) * (\<bar>bn_val (S a)\<bar> mod 2 ^ nat n)) S (BN_mask_bits a n S)"
proof (cases "n < 0")
  case True
  then show ?thesis by (simp add: BN_is_bit_set_def BN_set_bit_def BN_clear_bit_def BN_mask_bits_def)
next
  case False
  then have n: "0 \<le> n" by simp
  have f: "bn_fits (S a)" and mag: "nat \<bar>bn_val (S a)\<bar> = bn_mag (S a)" using assms by (simp_all add: bn_ok_def bn_val_def)
  have "BN_clear_bit a n S = (False, S) \<and> \<not> BN_is_bit_set (S a) n" if "\<not> nat n div 64 < bn_width (S a)"
    using that n BN_is_bit_set_iff [OF f n] bit_mag [OF f, of "nat n"] by (simp add: BN_clear_bit_def Let_def BN_BITS2_def)
  moreover have "BN_is_bit_set (S a) n \<longleftrightarrow> bit (nat \<bar>bn_val (S a)\<bar>) (nat n)" unfolding mag by (rule BN_is_bit_set_iff [OF f n])
  ultimately show ?thesis unfolding if_not_P [OF False]
    using BN_set_bit_computes [where S = S and a = a and n = n, OF assms n]
      BN_clear_bit_computes [where S = S and a = a and n = n, OF assms n]
      BN_mask_bits_computes [where S = S and a = a and n = n, OF assms n] by (cases "nat n div 64 < bn_width (S a)") simp_all
qed

theorem BN_bits_correct_witness:
  "BN_is_bit_set (bn_example 0) 63 \<and> \<not> BN_is_bit_set (bn_example 0) 64 \<and> \<not> fst (BN_clear_bit 0 64 bn_example)
    \<and> bn_val (snd (BN_mask_bits 0 10 bn_example) 0) = 1023"
proof -
  note c = BN_bits_correct [where S = bn_example and a = 0 and al = example_alloc, OF bn_example_ok(1)]
  have m: "\<bar>bn_val (bn_example 0)\<bar> = 2 ^ 64 - 1" "bn_width (bn_example 0) = 1" by (simp_all add: bn_example_ok(2)) (simp add: bn_example_def)
  have bits: "bit (nat (2 ^ 64 - 1)) 63" by (simp add: bit_iff_odd)
  show ?thesis using c [of 63] c [of 64] c [of 10] bits unfolding m bn_computes_def by (auto simp: bn_example_ok(2) split: if_splits)
qed

end
