(* ===== verification/Bn_Mod.thy ===== *)
theory Bn_Mod
  imports Bn
begin

text \<open>
  \<^verbatim>\<open>crypto/fipsmodule/bn/div_extra.c\<close>, the remainder by a 16-bit divisor without division on secret values, and \<^verbatim>\<open>BN_mod_word\<close> of
  \<^verbatim>\<open>div.c\<close>, compiled with the division of 128-bit integers. Both are shown to be the remainder of the absolute value.
\<close>

section \<open>The code\<close>

definition mod_u16 :: "u32 \<Rightarrow> u16 \<Rightarrow> u32 \<Rightarrow> u32 \<Rightarrow> u16" where
  "mod_u16 n d p m =
     (let q = ucast (drop_bit 32 (ucast m * ucast n :: u64)) :: u32;
          t = drop_bit 1 (n - q) + q;
          t1 = drop_bit (unat (p - 1)) t
      in ucast (n - ucast d * t1))"

definition shift_and_add_mod_u16 :: "u16 \<Rightarrow> u32 \<Rightarrow> u16 \<Rightarrow> u32 \<Rightarrow> u32 \<Rightarrow> u16" where
  "shift_and_add_mod_u16 r a d p m =
     (let t = push_bit 16 (ucast r) OR drop_bit 16 a;
          t1 = ucast (mod_u16 t d p m) :: u32;
          t2 = push_bit 16 t1 OR (a AND 0xffff)
      in mod_u16 t2 d p m)"

definition bn_mod_u16_consttime :: "bignum \<Rightarrow> u16 \<Rightarrow> u16" where
  "bn_mod_u16_consttime bn d =
     (if d \<le> 1 then 0
      else
        (let p = of_nat (BN_num_bits_word (ucast d - 1)) :: u32;
             m = ucast ((push_bit (32 + unat p) 1 + ucast d - 1) div ucast d :: u64) :: u32
         in fold (\<lambda>i ret.
              shift_and_add_mod_u16
                (shift_and_add_mod_u16 ret (ucast (drop_bit 32 (bn_d bn ! i))) d p m)
                (ucast (bn_d bn ! i AND 0xffffffff)) d p m)
            (rev [0..<bn_width bn]) 0))"

definition BN_mod_word :: "bignum \<Rightarrow> u64 \<Rightarrow> u64" where
  "BN_mod_word a w =
     (if w = 0 then -1
      else ucast (fold (\<lambda>i ret. (push_bit 64 ret OR ucast (bn_d a ! i)) mod ucast w) (rev [0..<bn_width a]) (0 :: u128)))"

section \<open>Division by a magic number\<close>

text \<open>The step from the rounded-up reciprocal \<open>M\<close> of \<open>d\<close>, with \<open>e\<close> the rounding, to the exact quotient.\<close>

lemma reciprocal_quotient:
  fixes M K d e n :: nat
  assumes "M * d = K + e" and "e * n < K" and "0 < d" and "0 < K"
  shows "M * n div K = n div d"
proof (rule div_nat_eqI)
  have Mn: "M * n * d = K * n + e * n" using assms(1) by (metis add_mult_distrib mult.assoc mult.commute)
  have "d * (n div d) \<le> n" by simp
  then have "K * (d * (n div d)) \<le> K * n" by simp
  then have "K * (d * (n div d)) \<le> M * n * d" using Mn by linarith
  then have "d * (K * (n div d)) \<le> d * (M * n)" by (simp add: ac_simps)
  then show "K * (n div d) \<le> M * n" using assms(3) by simp
  have "n + 1 \<le> d * (n div d + 1)" using dividend_less_times_div [OF assms(3), of n] by simp
  then have "K * (n + 1) \<le> K * (d * (n div d + 1))" by (rule mult_le_mono2)
  moreover have "M * n * d < K * (n + 1)" using Mn assms(2) by simp
  ultimately have "M * n * d < K * (d * (n div d + 1))" by linarith
  then have "d * (M * n) < d * (K * Suc (n div d))" by (simp only: ac_simps Suc_eq_plus1)
  then show "M * n < K * Suc (n div d)" by simp
qed

text \<open>The conditions on the numbers \<open>p\<close> and \<open>m\<close> the code passes along.\<close>

definition magic :: "nat \<Rightarrow> u32 \<Rightarrow> u32 \<Rightarrow> bool" where
  "magic d p m \<longleftrightarrow> 1 \<le> unat p \<and> unat p \<le> 16 \<and> 2 \<le> d \<and> d < 2 ^ 16
     \<and> (\<exists>e. (2 ^ 32 + unat m) * d = 2 ^ (32 + unat p) + e \<and> e < 2 ^ unat p)"

lemma mod_u16_eq:
  assumes "magic (unat d) p m"
  shows "unat (mod_u16 n d p m) = unat n mod unat d"
proof -
  obtain e where e: "(2 ^ 32 + unat m) * unat d = 2 ^ (32 + unat p) + e" "e < 2 ^ unat p"
      and p: "1 \<le> unat p" "unat p \<le> 16" and d: "2 \<le> unat d" "unat d < 2 ^ 16"
    using assms by (auto simp: magic_def)
  have up: "unat (ucast x :: u64) = unat x" "unat (ucast y :: u32) = unat y" for x :: u32 and y :: u16
    by (simp_all add: unat_ucast_up)
  let ?n = "unat n" and ?q = "unat m * unat n div 2 ^ 32"
  have m32: "unat m < 2 ^ 32" and n32: "?n < 2 ^ 32" using unsigned_less [of m] unsigned_less [of n] by simp_all
  have "unat m * ?n \<le> 2 ^ 32 * ?n" using m32 by (intro mult_le_mono1) simp
  then have qn: "?q \<le> ?n" by (metis div_le_mono nonzero_mult_div_cancel_left power_not_zero zero_neq_numeral)
  have "unat m * ?n < 2 ^ 32 * 2 ^ 32" using m32 n32 by (intro mult_strict_mono) simp_all
  then have prod: "unat (ucast m * ucast n :: u64) = unat m * ?n"
    by (simp add: unat_word_ariths up)
  have q: "unat (ucast (drop_bit 32 (ucast m * ucast n :: u64)) :: u32) = ?q"
    using qn n32 by (simp add: unsigned_ucast_eq unat_drop_bit prod take_bit_nat_eq_self)
  let ?Q = "ucast (drop_bit 32 (ucast m * ucast n :: u64)) :: u32"
  have s: "unat (n - ?Q) = ?n - ?q" using qn q by (simp add: unat_sub word_le_nat_alt)
  have half: "unat (drop_bit 1 (n - ?Q)) = (?n - ?q) div 2" by (simp only: unat_drop_bit s) simp
  have t: "unat (drop_bit 1 (n - ?Q) + ?Q) = (?n + ?q) div 2"
  proof -
    have "(x - y) div 2 + y = (x + y) div 2" if "y \<le> x" for x y :: nat using that by presburger
    from this [OF qn] have "(?n - ?q) div 2 + ?q = (?n + ?q) div 2" .
    moreover have "(?n + ?q) div 2 < 2 ^ 32" using qn n32 by linarith
    ultimately show ?thesis using half q by (simp add: unat_word_ariths)
  qed
  have p1: "unat (p - 1) = unat p - 1" using p by (simp add: unat_sub word_le_nat_alt)
  have "unat (drop_bit (unat (p - 1)) (drop_bit 1 (n - ?Q) + ?Q)) = (?n + ?q) div 2 div 2 ^ (unat p - 1)"
    by (simp only: unat_drop_bit t p1)
  also have "\<dots> = (?n + ?q) div 2 ^ unat p"
    using p(1) by (simp add: div_mult2_eq [symmetric] flip: power_Suc)
  also have "?n + ?q = (2 ^ 32 + unat m) * ?n div 2 ^ 32" by (simp add: add_mult_distrib)
  also have "\<dots> div 2 ^ unat p = (2 ^ 32 + unat m) * ?n div 2 ^ (32 + unat p)" by (simp add: div_mult2_eq power_add)
  also have "\<dots> = ?n div unat d"
  proof (rule reciprocal_quotient [OF e(1)])
    have "e * ?n < 2 ^ unat p * 2 ^ 32" using e(2) n32 by (intro mult_strict_mono) simp_all
    then show "e * ?n < 2 ^ (32 + unat p)" by (simp add: power_add mult.commute)
  qed (use d in simp_all)
  finally have t1: "unat (drop_bit (unat (p - 1)) (drop_bit 1 (n - ?Q) + ?Q)) = ?n div unat d" .
  define T where "T = drop_bit (unat (p - 1)) (drop_bit 1 (n - ?Q) + ?Q)"
  have T: "unat T = ?n div unat d" unfolding T_def by (rule t1)
  have le: "unat d * (?n div unat d) \<le> ?n" by simp
  have prod2: "unat (ucast d * T) = unat d * (?n div unat d)"
    using le_less_trans [OF le n32] by (simp add: unat_word_ariths T up)
  then have "unat (n - ucast d * T) = ?n mod unat d"
    using le by (simp add: unat_sub word_le_nat_alt minus_mult_div_eq_mod)
  moreover have "?n mod unat d < 2 ^ 16" using d by (meson less_trans mod_less_divisor less_le_trans zero_less_numeral)
  ultimately have "unat (ucast (n - ucast d * T) :: u16) = ?n mod unat d"
    by (simp add: unsigned_ucast_eq take_bit_nat_eq_self)
  then show ?thesis by (simp add: mod_u16_def Let_def T_def)
qed

text \<open>Two 16-bit chunks bring a 32-bit chunk into the remainder, and two of these a word.\<close>

lemma unat_less_length: "unat w < 2 ^ LENGTH('a)" for w :: "'a::len word"
  by (rule unsigned_less)

lemma mod_step: "(x mod d * 2 ^ k + y) mod d = (x * 2 ^ k + y) mod d" for x d y :: nat
  by (metis mod_add_left_eq mod_mult_left_eq)

lemma shift_and_add_mod_u16_eq:
  assumes "magic (unat d) p m" and "r = x mod unat d" and "unat r' = r"
  shows "unat (shift_and_add_mod_u16 r' a d p m) = (x * 2 ^ 32 + unat a) mod unat d"
proof -
  have r: "r < 2 ^ 16" using assms(3) unat_less_length [of r'] by simp
  have up: "unat (ucast y :: u32) = unat y" for y :: u16 by (simp add: unat_ucast_up)
  have hi: "unat (drop_bit 16 a) = unat a div 2 ^ 16" by (rule unat_drop_bit)
  have lo: "unat (a AND 0xffff) = unat a mod 2 ^ 16"
  proof -
    have "a AND 0xffff = take_bit 16 a" by (simp add: take_bit_eq_mask mask_eq_exp_minus_1)
    moreover have "unat (take_bit 16 a) = unat a mod 2 ^ 16" by (subst unsigned_take_bit_eq) (rule take_bit_eq_mod)
    ultimately show ?thesis by simp
  qed
  have "unat a div 2 ^ 16 < 2 ^ 16" using unat_less_length [of a] by (intro less_mult_imp_div_less) simp
  then have t: "unat (push_bit 16 (ucast r') OR drop_bit 16 a) = r * 2 ^ 16 + unat a div 2 ^ 16"
    using unat_push_or [of "drop_bit 16 a" 16 "ucast r' :: u32"] r by (simp add: up assms(3) hi)
  define s where "s = mod_u16 (push_bit 16 (ucast r') OR drop_bit 16 a) d p m"
  have s: "unat s = (r * 2 ^ 16 + unat a div 2 ^ 16) mod unat d" unfolding s_def mod_u16_eq [OF assms(1)] t ..
  have "unat (push_bit 16 (ucast s) OR (a AND 0xffff)) = unat s * 2 ^ 16 + unat a mod 2 ^ 16"
    using unat_push_or [of "a AND 0xffff" 16 "ucast s :: u32"] unat_less_length [of s] by (simp add: up lo)
  then have "unat (shift_and_add_mod_u16 r' a d p m) = (unat s * 2 ^ 16 + unat a mod 2 ^ 16) mod unat d"
    by (simp add: shift_and_add_mod_u16_def s_def mod_u16_eq [OF assms(1)])
  also have "\<dots> = ((x * 2 ^ 16 + unat a div 2 ^ 16) * 2 ^ 16 + unat a mod 2 ^ 16) mod unat d"
    unfolding s assms(2) mod_step ..
  also have "(x * 2 ^ 16 + unat a div 2 ^ 16) * 2 ^ 16 + unat a mod 2 ^ 16 = x * 2 ^ 32 + unat a"
    using div_mult_mod_eq [of "unat a" "2 ^ 16"] by (simp add: algebra_simps)
  finally show ?thesis .
qed

text \<open>A fold from the top word down, with a step that brings one word into the remainder.\<close>

lemma mod_fold:
  assumes "\<And>r x w. val r = x mod d \<Longrightarrow> val (step w r) = (x * 2 ^ 64 + unat w) mod d" and "val r0 = 0" and "n \<le> List.length ws"
  shows "val (fold (\<lambda>i. step (ws ! i)) (rev [0..<n]) r0) = words_val (take n ws) mod d"
proof -
  have "val (fold (\<lambda>i. step (ws ! i)) (rev [0..<k]) r) = (x * 2 ^ (64 * k) + words_val (take k ws)) mod d"
    if "k \<le> n" "val r = x mod d" for k r x
    using that
  proof (induction k arbitrary: r x)
    case (Suc k)
    have "val (step (ws ! k) r) = (x * 2 ^ 64 + unat (ws ! k)) mod d" using Suc.prems(2) by (rule assms(1))
    from Suc.IH [OF _ this] Suc.prems(1)
    have "val (fold (\<lambda>i. step (ws ! i)) (rev [0..<k]) (step (ws ! k) r)) =
        ((x * 2 ^ 64 + unat (ws ! k)) * 2 ^ (64 * k) + words_val (take k ws)) mod d" by simp
    moreover have "(x * 2 ^ 64 + unat (ws ! k)) * 2 ^ (64 * k) + words_val (take k ws) = x * 2 ^ (64 * Suc k) + words_val (take (Suc k) ws)"
      using Suc.prems(1) assms(3) by (simp add: words_val_take_Suc power_add algebra_simps)
    ultimately show ?case by simp
  qed simp
  from this [of n r0 0] show ?thesis using assms(2) by simp
qed

lemma magic_numbers:
  assumes "1 < d"
  defines "p \<equiv> of_nat (BN_num_bits_word (ucast d - 1)) :: u32"
  shows "magic (unat (d :: u16)) p (ucast ((push_bit (32 + unat p) 1 + ucast d - 1) div ucast d :: u64))"
proof -
  let ?d = "unat d" and ?b = "nbits (unat d - 1)"
  have d: "2 \<le> ?d" "?d < 2 ^ 16" using assms(1) unat_less_length [of d] by (simp_all add: word_less_nat_alt)
  have up: "unat (ucast d :: u64) = ?d" by (simp add: unat_ucast_up)
  have "unat (ucast d - 1 :: u64) = ?d - 1" using d by (simp add: unat_sub word_le_nat_alt up)
  then have b: "BN_num_bits_word (ucast d - 1) = ?b" by (simp add: BN_num_bits_word_eq)
  have b16: "?b \<le> 16" using d by (simp add: nbits_le_iff)
  have b1: "1 \<le> ?b" using d nbits_le_iff [of "?d - 1" 0] by simp
  have p: "unat p = ?b" using b16 unfolding p_def b by (intro unat_of_nat_eq) simp
  have hi: "?d \<le> 2 ^ ?b" using nbits_le_iff [of "?d - 1" ?b] by simp
  have lo: "2 ^ ?b \<le> 2 * (?d - 1)"
  proof -
    obtain k where k: "?b = Suc k" using b1 by (cases ?b) simp_all
    then have "\<not> ?d - 1 < 2 ^ k" unfolding nbits_le_iff [symmetric] by simp
    then show ?thesis unfolding k power_Suc by linarith
  qed
  let ?K = "2 ^ (32 + ?b) :: nat"
  have K48: "?K \<le> 2 ^ 48" using b16 by (intro power_increasing) simp_all
  have N: "unat (push_bit (32 + ?b) 1 + ucast d - 1 :: u64) = ?K + ?d - 1"
  proof -
    have one: "unat (push_bit (32 + ?b) 1 :: u64) = ?K"
    proof -
      have "unat (1 :: u64) * ?K < 2 ^ LENGTH(64)" using K48 by simp
      from unat_push_or [OF _ this, of 0] show ?thesis by simp
    qed
    have sum: "unat (push_bit (32 + ?b) 1 + ucast d :: u64) = ?K + ?d" using K48 d by (simp only: unat_word_ariths one up) simp
    then show ?thesis using d by (simp add: unat_sub word_le_nat_alt)
  qed
  define M where "M = (?K + ?d - 1) div ?d"
  define e where "e = ?d - 1 - (?K + ?d - 1) mod ?d"
  have mod: "(?K + ?d - 1) mod ?d < ?d" using d by simp
  have Md: "M * ?d = ?K + e"
    using div_mult_mod_eq [of "?K + ?d - 1" ?d] mod unfolding M_def e_def by linarith
  have e: "e < 2 ^ ?b" using hi d unfolding e_def by linarith
  have "2 ^ 32 * ?d \<le> ?K" using hi by (simp add: power_add)
  then have "2 ^ 32 * ?d \<le> M * ?d" using Md by linarith
  then have M1: "2 ^ 32 \<le> M" using d by simp
  have "?K \<le> 2 ^ 32 * (2 * (?d - 1))" using lo by (simp only: power_add mult_le_mono2)
  then have "?K + ?d \<le> 2 ^ 33 * ?d" using d by simp
  moreover have "e < ?d" using d unfolding e_def by linarith
  ultimately have "M * ?d < 2 ^ 33 * ?d" using Md by linarith
  then have M2: "M < 2 ^ 33" by simp
  have "unat ((push_bit (32 + ?b) 1 + ucast d - 1) div ucast d :: u64) = M" by (simp only: unat_div N up M_def)
  then have "unat (ucast ((push_bit (32 + ?b) 1 + ucast d - 1) div ucast d :: u64) :: u32) = M mod 2 ^ 32"
    by (simp only: unsigned_ucast_eq) (simp add: take_bit_eq_mod)
  also have "\<dots> = M - 2 ^ 32" using M1 M2 by (simp add: le_mod_geq)
  finally have "(2 ^ 32 + unat (ucast ((push_bit (32 + ?b) 1 + ucast d - 1) div ucast d :: u64) :: u32)) * ?d = ?K + e"
    using M1 Md by simp
  then show ?thesis unfolding magic_def p using d b1 b16 e by blast
qed

lemma bn_mod_u16_consttime_eq:
  assumes "bn_width b \<le> List.length (bn_d b)"
  shows "unat (bn_mod_u16_consttime b d) = bn_mag b mod unat d \<or> d = 0 \<and> bn_mod_u16_consttime b d = 0"
proof (cases "d \<le> 1")
  case True
  then have "d = 0 \<or> d = 1" by (auto simp: word_le_nat_alt word_unat_eq_iff)
  then show ?thesis by (auto simp: bn_mod_u16_consttime_def)
next
  case False
  define p where "p = (of_nat (BN_num_bits_word (ucast d - 1)) :: u32)"
  define m where "m = (ucast ((push_bit (32 + unat p) 1 + ucast d - 1) div ucast d :: u64) :: u32)"
  have magic: "magic (unat d) p m" unfolding m_def p_def by (rule magic_numbers) (use False in simp)
  let ?step = "\<lambda>w ret. shift_and_add_mod_u16 (shift_and_add_mod_u16 ret (ucast (drop_bit 32 w)) d p m) (ucast (w AND 0xffffffff)) d p m"
  have step: "unat (?step w r) = (x * 2 ^ 64 + unat w) mod unat d" if "unat r = x mod unat d" for r x and w :: u64
  proof -
    have "unat w div 2 ^ 32 < 2 ^ 32" using unat_less_length [of w] by (intro less_mult_imp_div_less) simp
    then have hi: "unat (ucast (drop_bit 32 w) :: u32) = unat w div 2 ^ 32"
      by (simp add: unsigned_ucast_eq unat_drop_bit take_bit_nat_eq_self)
    have "w AND 0xffffffff = take_bit 32 w" by (simp add: take_bit_eq_mask mask_eq_exp_minus_1)
    moreover have "unat (take_bit 32 w) = unat w mod 2 ^ 32" by (subst unsigned_take_bit_eq) (rule take_bit_eq_mod)
    ultimately have lo: "unat (ucast (w AND 0xffffffff) :: u32) = unat w mod 2 ^ 32"
      by (simp add: unsigned_ucast_eq take_bit_eq_mod)
    have one: "unat (shift_and_add_mod_u16 r (ucast (drop_bit 32 w)) d p m) = (x * 2 ^ 32 + unat w div 2 ^ 32) mod unat d"
      by (simp only: shift_and_add_mod_u16_eq [OF magic refl that] hi)
    have "unat (?step w r) = ((x * 2 ^ 32 + unat w div 2 ^ 32) * 2 ^ 32 + unat w mod 2 ^ 32) mod unat d"
      by (simp only: shift_and_add_mod_u16_eq [OF magic refl one] lo)
    also have "(x * 2 ^ 32 + unat w div 2 ^ 32) * 2 ^ 32 + unat w mod 2 ^ 32 = x * 2 ^ 64 + unat w"
      using div_mult_mod_eq [of "unat w" "2 ^ 32"] by (simp add: algebra_simps)
    finally show ?thesis .
  qed
  have "bn_mod_u16_consttime b d = fold (\<lambda>i. ?step (bn_d b ! i)) (rev [0..<bn_width b]) 0"
    using False by (simp add: bn_mod_u16_consttime_def Let_def p_def m_def)
  then show ?thesis using mod_fold [where val = unat and step = ?step, OF step _ assms] by (simp add: bn_mag_def)
qed

lemma BN_mod_word_eq:
  assumes "bn_width b \<le> List.length (bn_d b)" and "w \<noteq> 0"
  shows "unat (BN_mod_word b w) = bn_mag b mod unat w"
proof -
  let ?step = "\<lambda>(v :: u64) ret. (push_bit 64 ret OR ucast v) mod ucast w :: u128"
  have w: "0 < unat w" "unat w < 2 ^ 64" "unat (ucast w :: u128) = unat w"
    using assms(2) unat_less_length [of w] by (simp_all add: unat_u128_up unsigned_eq_0_iff flip: neq0_conv)
  have step: "unat (?step v r) = (x * 2 ^ 64 + unat v) mod unat w" if "unat r = x mod unat w" for v r x
  proof -
    have "unat r < 2 ^ 64" using that w by (metis less_trans mod_less_divisor)
    then have "unat (push_bit 64 r OR ucast v :: u128) = unat r * 2 ^ 64 + unat v"
      using unat_push_or [of "ucast v" 64 r] unat_less_length [of v] by (simp add: unat_u128_up)
    then have "unat (?step v r) = (unat r * 2 ^ 64 + unat v) mod unat w" by (simp only: unat_mod w(3))
    then show ?thesis unfolding that mod_step .
  qed
  have "unat (fold (\<lambda>i. ?step (bn_d b ! i)) (rev [0..<bn_width b]) 0) = bn_mag b mod unat w"
    using mod_fold [where val = unat and step = ?step, OF step _ assms(1), of 0] by (simp add: bn_mag_def)
  moreover have "bn_mag b mod unat w < 2 ^ 64" using w by (meson less_trans mod_less_divisor)
  ultimately show ?thesis using assms(2) by (simp add: BN_mod_word_def unsigned_ucast_eq take_bit_nat_eq_self)
qed

text \<open>
  C40: the remainder by a 16-bit divisor that \<^verbatim>\<open>bn_mod_u16_consttime\<close> computes with multiplications by a 32-bit reciprocal is the
  remainder of division, and so is that of \<^verbatim>\<open>BN_mod_word\<close>, for every number and every divisor; zero divisors give 0 and all ones.
\<close>

theorem bn_mod_word_correct:
  assumes "bn_ok b"
  shows "unat (bn_mod_u16_consttime b d) = (if d = 0 then 0 else nat \<bar>bn_val b\<bar> mod unat d)
    \<and> unat (BN_mod_word b w) = (if w = 0 then 2 ^ 64 - 1 else nat \<bar>bn_val b\<bar> mod unat w)"
proof -
  have f: "bn_width b \<le> List.length (bn_d b)" using assms by (simp add: bn_ok_def)
  have "nat \<bar>bn_val b\<bar> = bn_mag b" by (simp add: bn_val_def)
  then show ?thesis using bn_mod_u16_consttime_eq [OF f, of d] BN_mod_word_eq [OF f, of w]
    by (auto simp: BN_mod_word_def bn_mod_u16_consttime_def unsigned_minus_1_eq_mask mask_eq_exp_minus_1)
qed

theorem bn_mod_word_correct_witness:
  "let b = \<lparr>bn_d = [5, 1], bn_width = 2, bn_neg = True, bn_flags = 0\<rparr>
   in unat (bn_mod_u16_consttime b 1000) = 621 \<and> unat (BN_mod_word b 10) = 1"
proof -
  let ?b = "\<lparr>bn_d = [5, 1], bn_width = 2, bn_neg = True, bn_flags = 0\<rparr>"
  have "bn_ok ?b" "nat \<bar>bn_val ?b\<bar> = 18446744073709551621" by (simp_all add: bn_ok_def bn_val_def bn_mag_def)
  then show ?thesis using bn_mod_word_correct [of ?b 1000 10] by simp
qed

end
