(* ===== verification/Bn_Bytes.thy ===== *)
theory Bn_Bytes
  imports Bn
begin

text \<open>
  \<^verbatim>\<open>crypto/fipsmodule/bn/bytes.c\<close>: big integers from and to strings of bytes. The array of words is little-endian in memory, and
  \<^verbatim>\<open>ret\<close> is a number that exists: the calls with a null pointer, which allocate one, are not modelled.
\<close>

section \<open>The code\<close>

definition words_bytes :: "u64 list \<Rightarrow> u8 list" where
  "words_bytes d = concat (map le_bytes8 d)"

fun bin2bn_loop :: "u8 list \<Rightarrow> nat \<Rightarrow> u64 \<Rightarrow> nat \<Rightarrow> u64 list \<Rightarrow> u64 list" where
  "bin2bn_loop [] m word num_words d = d"
| "bin2bn_loop (x # xs) m word num_words d =
     (let word1 = push_bit 8 word OR ucast x
      in if m = 0 then bin2bn_loop xs (BN_BYTES - 1) 0 (num_words - 1) (d[num_words - 1 := word1])
         else bin2bn_loop xs (m - 1) word1 num_words d)"

definition BN_bin2bn :: "sys_alloc \<Rightarrow> u8 list \<Rightarrow> nat \<Rightarrow> bn_store \<Rightarrow> bool \<times> bn_store" where
  "BN_bin2bn al inp ret S =
     (let len = List.length inp
      in if len = 0 then (True, set_width ret 0 S)
         else (let num_words = (len - 1) div BN_BYTES + 1;
                   m = (len - 1) mod BN_BYTES
               in bn_then (bn_wexpand al ret num_words S) (\<lambda>S.
                    (let S1 = set_neg ret False (set_width ret num_words S)
                     in (True, with_words ret (bin2bn_loop inp m 0 num_words (bn_d (S1 ret))) S1)))))"

definition BN_le2bn :: "sys_alloc \<Rightarrow> u8 list \<Rightarrow> nat \<Rightarrow> bn_store \<Rightarrow> bool \<times> bn_store" where
  "BN_le2bn al inp ret S =
     (let len = List.length inp
      in if len = 0 then (True, set_neg ret False (set_width ret 0 S))
         else (let num_words = (len - 1) div BN_BYTES + 1
               in bn_then (bn_wexpand al ret num_words S) (\<lambda>S.
                    (let S1 = set_wd ret (num_words - 1) 0 (set_width ret num_words S);
                         mem = words_bytes (bn_d (S1 ret))
                     in (True, with_words ret (block_words (inp @ drop len mem)) S1)))))"

definition BN_bn2bin :: "bignum \<Rightarrow> u8 list" where
  "BN_bn2bin b = map (\<lambda>i. ucast (drop_bit (8 * (i mod BN_BYTES)) (bn_d b ! (i div BN_BYTES))) AND 0xff) (rev [0..<BN_num_bytes b])"

definition fits_in_bytes :: "u8 list \<Rightarrow> nat \<Rightarrow> nat \<Rightarrow> bool" where
  "fits_in_bytes bytes num_bytes len \<longleftrightarrow> fold (\<lambda>i mask. mask OR bytes ! i) [len..<num_bytes] 0 = 0"

text \<open>The buffer afterwards, with the return value.\<close>

definition BN_bn2le_padded :: "u8 list \<Rightarrow> nat \<Rightarrow> bignum \<Rightarrow> bool \<times> u8 list" where
  "BN_bn2le_padded out len b =
     (let bytes = words_bytes (bn_d b);
          num_bytes = bn_width b * BN_BYTES
      in if len < num_bytes \<and> \<not> fits_in_bytes bytes num_bytes len then (False, out)
         else (let num_bytes = (if len < num_bytes then len else num_bytes)
               in (True, mem_write num_bytes (replicate (len - num_bytes) 0) (mem_write 0 (take num_bytes bytes) out))))"

definition BN_bn2bin_padded :: "u8 list \<Rightarrow> nat \<Rightarrow> bignum \<Rightarrow> bool \<times> u8 list" where
  "BN_bn2bin_padded out len b =
     (let bytes = words_bytes (bn_d b);
          num_bytes = bn_width b * BN_BYTES
      in if len < num_bytes \<and> \<not> fits_in_bytes bytes num_bytes len then (False, out)
         else (let num_bytes = (if len < num_bytes then len else num_bytes);
                   out1 = fold (\<lambda>i out. out[len - i - 1 := bytes ! i]) [0..<num_bytes] out
               in (True, mem_write 0 (replicate (len - num_bytes) 0) out1)))"

definition BN_get_word :: "bignum \<Rightarrow> u64" where
  "BN_get_word b =
     (case bn_minimal_width b of 0 \<Rightarrow> 0 | Suc 0 \<Rightarrow> bn_d b ! 0 | _ \<Rightarrow> -1)"

definition BN_get_u64 :: "bignum \<Rightarrow> u64 option" where
  "BN_get_u64 b =
     (case bn_minimal_width b of 0 \<Rightarrow> Some 0 | Suc 0 \<Rightarrow> Some (bn_d b ! 0) | _ \<Rightarrow> None)"

section \<open>Words in memory\<close>

lemma length_le_bytes8 [simp]: "List.length (le_bytes8 w) = 8"
  by (simp add: le_bytes8_def)

lemma words_bytes_simps [simp]:
  "words_bytes [] = []" "words_bytes (w # ws) = le_bytes8 w @ words_bytes ws" "words_bytes (xs @ ys) = words_bytes xs @ words_bytes ys"
  by (simp_all add: words_bytes_def)

lemma length_words_bytes [simp]: "List.length (words_bytes d) = 8 * List.length d"
  by (induction d) simp_all

lemma take_words_bytes: "take (8 * n) (words_bytes d) = words_bytes (take n d)"
proof (induction d arbitrary: n)
  case (Cons w d)
  then show ?case by (cases n) simp_all
qed simp

lemma drop_words_bytes: "drop (8 * n) (words_bytes d) = words_bytes (drop n d)"
proof (induction d arbitrary: n)
  case (Cons w d)
  then show ?case by (cases n) simp_all
qed simp

lemma ucast_drop_bit_byte: "ucast (drop_bit (8 * k) w) = (of_nat (unat (w :: u64) div 256 ^ k) :: u8)"
proof -
  have "unat (drop_bit (8 * k) w) = unat w div 256 ^ k" by (simp add: unat_drop_bit power_mult)
  then show ?thesis by (metis of_nat_unat)
qed

lemma rev_le_bytes8: "rev (le_bytes8 w) = be_bytes 8 (unat w)"
  unfolding be_bytes_8 le_bytes8_def ucast_drop_bit_byte by (simp add: upt_rec)

lemma be_val_words_bytes: "be_val (rev (words_bytes d)) = words_val d"
proof (induction d)
  case (Cons w d)
  have "unat w mod 256 ^ 8 = unat w" using unat_u64_less [of w] by simp
  then show ?case using Cons by (simp add: be_val_append rev_le_bytes8 be_val_be_bytes)
qed simp

lemma words_bytes_block_words:
  assumes "List.length bs = 8 * n"
  shows "words_bytes (block_words bs) = bs"
proof -
  have "concat (map (\<lambda>i. le_bytes8 (le_load (take 8 (drop (8 * i) bs)))) [0..<n]) = take (8 * n) bs"
    if "8 * n \<le> List.length bs" for n
    using that
  proof (induction n)
    case (Suc n)
    then have "le_bytes8 (le_load (take 8 (drop (8 * n) bs))) = take 8 (drop (8 * n) bs)" by (intro le_bytes8_load) simp
    then show ?case using Suc by (simp add: take_add add.commute [of 8])
  qed simp
  from this [of n] show ?thesis using assms by (simp add: words_bytes_def block_words_def comp_def)
qed

section \<open>Reading\<close>

lemma bin2bn_loop_spec:
  "List.length bs + 7 = 8 * n + m \<Longrightarrow> m < 8 \<Longrightarrow> unat w < 256 ^ (7 - m) \<Longrightarrow> n \<le> List.length d \<Longrightarrow>
     List.length (bin2bn_loop bs m w n d) = List.length d \<and> drop n (bin2bn_loop bs m w n d) = drop n d \<and>
     words_val (take n (bin2bn_loop bs m w n d)) = unat w * 256 ^ List.length bs + be_val bs"
proof (induction bs m w n d rule: bin2bn_loop.induct)
  case (1 m w n d)
  then have n: "n = 0" by simp
  then have "m = 7" using 1 by simp
  with n show ?case using 1 by simp
next
  case (2 x xs m w n d)
  have step: "unat (push_bit 8 w OR ucast x) = unat w * 256 + unat x"
  proof -
    have "unat w * 256 < 256 ^ (7 - m) * 256" using 2(5) by simp
    also have "\<dots> = 256 ^ (8 - m)"
    proof -
      have "8 - m = Suc (7 - m)" using 2(4) by linarith
      then show ?thesis by simp
    qed
    also have "\<dots> \<le> 256 ^ 8" by (intro power_increasing) simp_all
    finally have "unat w * 2 ^ 8 < 2 ^ LENGTH(64)" by simp
    moreover have "unat (ucast x :: u64) = unat x" "unat x < 2 ^ 8" using unat_u8_less [of x] by (simp_all add: unat_ucast_up)
    ultimately show ?thesis using unat_push_or [of "ucast x :: u64" 8 w] by simp
  qed
  show ?case
  proof (cases "m = 0")
    case True
    let ?d = "d[n - 1 := push_bit 8 w OR ucast x]"
    obtain k where n: "n = Suc k" using 2(3) True by (cases n) simp_all
    have len: "List.length xs = 8 * k" using 2(3) True n by simp
    let ?r = "bin2bn_loop xs 7 0 k ?d"
    have IH: "List.length ?r = List.length d" "drop k ?r = drop k ?d" "words_val (take k ?r) = be_val xs"
      using 2(1) [OF refl True] len 2(6) n by (simp_all add: BN_BYTES_def)
    have k: "k < List.length d" using 2(6) n by simp
    have "?r ! k = drop k ?r ! 0" using IH(1) k by simp
    also have "\<dots> = push_bit 8 w OR ucast x" unfolding IH(2) using k n by simp
    finally have "words_val (take n ?r) = be_val xs + 2 ^ (64 * k) * (unat w * 256 + unat x)"
      using words_val_take_Suc [of k ?r] IH(1,3) k step by (simp add: n)
    moreover have "(2 :: nat) ^ (64 * k) = 256 ^ List.length xs" unfolding len by (simp add: power_mult)
    moreover have "drop n ?r = drop n d"
    proof -
      have "drop n ?r = drop 1 (drop k ?r)" by (simp add: n)
      then show ?thesis unfolding IH(2) by (simp add: n)
    qed
    ultimately show ?thesis using True IH(1) n by (simp add: BN_BYTES_def algebra_simps)
  next
    case False
    then obtain j where m: "m = Suc j" by (cases m) simp_all
    have "(unat w + 1) * 256 \<le> 256 ^ (7 - m) * 256" using 2(5) by (intro mult_le_mono1) simp
    moreover have "u * 256 + v < 256 * p" if "(u + 1) * 256 \<le> p * 256" "v < 256" for u v p :: nat using that by simp
    ultimately have "unat w * 256 + unat x < 256 * 256 ^ (7 - m)" using unat_u8_less [of x] by blast
    also have "\<dots> = 256 ^ (7 - j)" using 2(4) m by (simp add: Suc_diff_Suc flip: power_Suc)
    finally have "unat w * 256 + unat x < 256 ^ (7 - j)" .
    then have "List.length (bin2bn_loop xs j (push_bit 8 w OR ucast x) n d) = List.length d \<and>
        drop n (bin2bn_loop xs j (push_bit 8 w OR ucast x) n d) = drop n d \<and>
        words_val (take n (bin2bn_loop xs j (push_bit 8 w OR ucast x) n d)) = (unat w * 256 + unat x) * 256 ^ List.length xs + be_val xs"
      using 2(2) [OF refl False] 2(3-6) m step by simp
    then show ?thesis using False m by (simp add: algebra_simps)
  qed
qed

lemma words_of_bytes:
  assumes "0 < (len :: nat)"
  obtains n where "(len - 1) div BN_BYTES + 1 = n" and "8 * (n - 1) < len" and "len \<le> 8 * n" and "0 < n"
    and "len + 7 = 8 * n + (len - 1) mod BN_BYTES"
proof -
  define q r where "q = (len - 1) div 8" and "r = (len - 1) mod 8"
  have "8 * q + r = len - 1" "r < 8" by (simp_all add: q_def r_def)
  moreover obtain l where "len = Suc l" using assms by (cases len) simp_all
  ultimately have "8 * q < len" "len \<le> 8 * (q + 1)" "len + 7 = 8 * (q + 1) + r" by simp_all
  then show thesis using that [of "q + 1"] by (simp add: BN_BYTES_def q_def r_def)
qed

text \<open>Reading changes only \<open>ret\<close>, and fails without effect, if there is no room for the number.\<close>

lemma BN_bin2bn_cases:
  assumes "bn_width (S ret) \<le> List.length (bn_d (S ret))"
  obtains "BN_bin2bn al inp ret S = (False, S)" and "\<not> fst (bn_wexpand al ret ((List.length inp + 7) div 8) S)"
  | b where "BN_bin2bn al inp ret S = (True, S(ret := b))" and "bn_width b \<le> List.length (bn_d b)" and "bn_mag b = be_val inp"
      and "bn_neg b \<longleftrightarrow> inp = [] \<and> bn_neg (S ret)"
proof (cases "inp = []")
  case True
  have "set_width ret 0 S = S(ret := (S ret)\<lparr>bn_width := 0\<rparr>)" by (simp add: set_width_def)
  then show thesis using True that(2) [of "(S ret)\<lparr>bn_width := 0\<rparr>"] by (simp add: BN_bin2bn_def bn_mag_def)
next
  case False
  then have pos: "0 < List.length inp" by simp
  then obtain n where n: "(List.length inp - 1) div BN_BYTES + 1 = n" "0 < n"
      "List.length inp + 7 = 8 * n + (List.length inp - 1) mod BN_BYTES" by (rule words_of_bytes)
  have m: "(List.length inp - 1) mod BN_BYTES < 8" by (simp add: BN_BYTES_def)
  have n8: "n = (List.length inp + 7) div 8" using n(3) m by simp
  have run: "BN_bin2bn al inp ret S = bn_then (bn_wexpand al ret n S) (\<lambda>S.
      (let S1 = set_neg ret False (set_width ret n S)
       in (True, with_words ret (bin2bn_loop inp ((List.length inp - 1) mod BN_BYTES) 0 n (bn_d (S1 ret))) S1)))"
    using pos unfolding BN_bin2bn_def Let_def n(1) by simp
  from assms show thesis
  proof (cases rule: bn_wexpand_cases [where al = al and n = n and p = ret and S = S])
    case 1
    then show thesis using that(1) run n8 by simp
  next
    case (2 d)
    let ?d = "bin2bn_loop inp ((List.length inp - 1) mod BN_BYTES) 0 n d"
    have l: "List.length ?d = List.length d" "words_val (take n ?d) = be_val inp"
      using bin2bn_loop_spec [OF n(3) m _ 2(2), of 0] by simp_all
    let ?b = "(S ret)\<lparr>bn_width := n, bn_neg := False, bn_d := ?d\<rparr>"
    have "BN_bin2bn al inp ret S = (True, S(ret := ?b))"
      using 2(1) by (auto simp: run fun_eq_iff)
    then show thesis using that(2) [of ?b] l 2(2) False by (simp add: bn_mag_def)
  qed
qed

lemma BN_le2bn_cases:
  assumes "bn_width (S ret) \<le> List.length (bn_d (S ret))"
  obtains "BN_le2bn al inp ret S = (False, S)" and "\<not> fst (bn_wexpand al ret ((List.length inp + 7) div 8) S)"
  | b where "BN_le2bn al inp ret S = (True, S(ret := b))" and "bn_width b \<le> List.length (bn_d b)" and "bn_mag b = be_val (rev inp)"
      and "bn_neg b \<longleftrightarrow> inp \<noteq> [] \<and> bn_neg (S ret)"
proof (cases "inp = []")
  case True
  have "set_neg ret False (set_width ret 0 S) = S(ret := (S ret)\<lparr>bn_width := 0, bn_neg := False\<rparr>)"
    by (simp add: set_width_def set_neg_def)
  then show thesis using True that(2) [of "(S ret)\<lparr>bn_width := 0, bn_neg := False\<rparr>"] by (simp add: BN_le2bn_def bn_mag_def)
next
  case False
  then have pos: "0 < List.length inp" by simp
  let ?l = "List.length inp"
  obtain n where n: "(?l - 1) div BN_BYTES + 1 = n" "8 * (n - 1) < ?l" "?l \<le> 8 * n" "0 < n"
      "?l + 7 = 8 * n + (?l - 1) mod BN_BYTES" using pos by (rule words_of_bytes)
  have "(?l - 1) mod BN_BYTES < 8" by (simp add: BN_BYTES_def)
  then have n8: "n = (?l + 7) div 8" using n(5) by simp
  have run: "BN_le2bn al inp ret S = bn_then (bn_wexpand al ret n S) (\<lambda>S.
      (let S1 = set_wd ret (n - 1) 0 (set_width ret n S); mem = words_bytes (bn_d (S1 ret))
       in (True, with_words ret (block_words (inp @ drop ?l mem)) S1)))"
    using pos unfolding BN_le2bn_def Let_def n(1) by simp
  from assms show thesis
  proof (cases rule: bn_wexpand_cases [where al = al and n = n and p = ret and S = S])
    case 1
    then show thesis using that(1) run n8 by simp
  next
    case (2 d)
    let ?m = "words_bytes (d[n - 1 := 0])"
    let ?d = "block_words (inp @ drop ?l ?m)"
    have len: "List.length (inp @ drop ?l ?m) = 8 * List.length d" using n(3) 2(2) by simp
    have ld: "List.length ?d = List.length d" unfolding block_words_def using len by simp
    have zeros: "take (8 * n - ?l) (drop ?l ?m) = replicate (8 * n - ?l) 0"
    proof (rule nth_equalityI)
      fix i assume "i < List.length (take (8 * n - ?l) (drop ?l ?m))"
      then have i: "i < 8 * n - ?l" by simp
      then have i: "i < 8 * n - ?l" "?l + i < 8 * List.length d" using n(3) 2(2) by linarith+
      have "drop (8 * (n - 1)) (take (8 * n) ?m) = words_bytes [0]"
        unfolding take_words_bytes drop_words_bytes using n(4) 2(2)
        by (cases n) (simp_all add: take_Suc_conv_app_nth)
      then have z: "drop (8 * (n - 1)) (take (8 * n) ?m) = replicate 8 0" by (simp add: le_bytes8_def map_replicate_const)
      have "?m ! (?l + i) = drop (8 * (n - 1)) (take (8 * n) ?m) ! (?l + i - 8 * (n - 1))" using i n(2) 2(2) by simp
      also have "\<dots> = 0" unfolding z using i n(2,4) by simp
      finally show "take (8 * n - ?l) (drop ?l ?m) ! i = replicate (8 * n - ?l) 0 ! i" using i 2(2) by simp
    qed (use n(3) 2(2) in simp)
    have "words_bytes ?d = inp @ drop ?l ?m" by (rule words_bytes_block_words [OF len])
    then have "words_bytes (take n ?d) = inp @ replicate (8 * n - ?l) 0"
      using zeros n(3) by (simp flip: take_words_bytes)
    then have v: "words_val (take n ?d) = be_val (rev inp)"
      by (metis be_val_words_bytes rev_append rev_replicate be_val_replicate_0)
    let ?b = "(S ret)\<lparr>bn_width := n, bn_d := ?d\<rparr>"
    have "BN_le2bn al inp ret S = (True, S(ret := ?b))"
      using 2(1) by (auto simp: run fun_eq_iff)
    then show thesis using that(2) [of ?b] ld 2(2) False v by (simp add: bn_mag_def)
  qed
qed

section \<open>Writing\<close>

lemma nth_words_bytes:
  assumes "i < 8 * List.length d"
  shows "words_bytes d ! i = ucast (drop_bit (8 * (i mod 8)) (d ! (i div 8)))"
  using assms
proof (induction d arbitrary: i)
  case (Cons w d)
  show ?case
  proof (cases "i < 8")
    case True
    then show ?thesis by (simp add: nth_append) (simp add: le_bytes8_def)
  next
    case False
    then have "i div 8 = Suc ((i - 8) div 8)" "(i - 8) mod 8 = i mod 8" by (simp_all add: le_div_geq le_mod_geq)
    then show ?thesis using Cons.IH [of "i - 8"] Cons.prems False by (simp add: nth_append)
  qed
qed simp

text \<open>The low bytes of the array, when the others of the number are zero.\<close>

lemma low_bytes:
  assumes "bn_width b \<le> List.length (bn_d b)" and "bn_mag b < 256 ^ n" and "n \<le> 8 * bn_width b"
  shows "rev (take n (words_bytes (bn_d b))) = be_bytes n (bn_mag b)"
proof -
  let ?ws = "take (bn_width b) (bn_d b)"
  have "rev (words_bytes ?ws) = be_bytes (8 * bn_width b) (bn_mag b)"
    using assms(1) by (intro be_bytes_unique) (simp_all add: be_val_words_bytes bn_mag_def)
  also have "\<dots> = be_bytes (8 * bn_width b - n) (bn_mag b div 256 ^ n) @ be_bytes n (bn_mag b)"
    using be_bytes_split [of "8 * bn_width b - n" n "bn_mag b"] assms(3) by simp
  finally have "drop (8 * bn_width b - n) (rev (words_bytes ?ws)) = be_bytes n (bn_mag b)" by simp
  moreover have "drop (8 * bn_width b - n) (rev (words_bytes ?ws)) = rev (take n (words_bytes ?ws))"
    using assms(1,3) by (simp add: drop_rev)
  moreover have "take n (words_bytes ?ws) = take n (words_bytes (bn_d b))"
    using assms(3) by (simp add: min_def flip: take_words_bytes)
  ultimately show ?thesis by simp
qed

lemma be_val_eq_0: "be_val bs = 0 \<longleftrightarrow> set bs \<subseteq> {0}"
  by (induction bs) (auto simp: unsigned_eq_0_iff)

lemma fold_or_u8_eq_0: "fold (\<lambda>i m. m OR f i) is c = (0 :: u8) \<longleftrightarrow> c = 0 \<and> (\<forall>i\<in>set is. f i = 0)"
proof (induction "is" arbitrary: c)
  case (Cons i "is")
  have "c OR f i = 0 \<longleftrightarrow> c = 0 \<and> f i = 0" by (simp add: word_or_eq_0_iff)
  then show ?case using Cons by auto
qed simp

lemma fits_in_bytes_iff:
  assumes "bn_width b \<le> List.length (bn_d b)" and "len \<le> 8 * bn_width b"
  shows "fits_in_bytes (words_bytes (bn_d b)) (8 * bn_width b) len \<longleftrightarrow> bn_mag b < 256 ^ len"
proof -
  let ?bs = "words_bytes (take (bn_width b) (bn_d b))"
  have l: "List.length ?bs = 8 * bn_width b" using assms(1) by simp
  have mag: "bn_mag b = be_val (rev (drop len ?bs)) * 256 ^ len + be_val (rev (take len ?bs))"
  proof -
    have "rev ?bs = rev (drop len ?bs) @ rev (take len ?bs)" by (metis append_take_drop_id rev_append)
    then have "be_val (rev ?bs) = be_val (rev (drop len ?bs)) * 256 ^ List.length (rev (take len ?bs)) + be_val (rev (take len ?bs))"
      by (metis be_val_append)
    moreover have "List.length (rev (take len ?bs)) = len" using assms(2) l by simp
    ultimately show ?thesis unfolding bn_mag_def be_val_words_bytes by simp
  qed
  have "be_val (rev (take len ?bs)) < 256 ^ len" using be_val_less [of "rev (take len ?bs)"] assms(2) l by simp
  then have "bn_mag b < 256 ^ len \<longleftrightarrow> be_val (rev (drop len ?bs)) = 0"
    unfolding mag by (cases "be_val (rev (drop len ?bs))") simp_all
  also have "\<dots> \<longleftrightarrow> (\<forall>i\<in>{len..<8 * bn_width b}. ?bs ! i = 0)"
  proof -
    have "drop len ?bs = map ((!) ?bs) [len..<8 * bn_width b]" using l by (intro nth_equalityI) simp_all
    then show ?thesis by (auto simp: be_val_eq_0)
  qed
  also have "\<dots> \<longleftrightarrow> (\<forall>i\<in>{len..<8 * bn_width b}. words_bytes (bn_d b) ! i = 0)"
    by (auto simp: take_words_bytes [symmetric])
  finally show ?thesis by (simp add: fits_in_bytes_def fold_or_u8_eq_0)
qed

lemma padded_bytes:
  assumes "bn_width b \<le> List.length (bn_d b)" and "bn_mag b < 256 ^ len" and "n = min len (8 * bn_width b)"
  shows "be_bytes len (bn_mag b) = replicate (len - n) 0 @ rev (take n (words_bytes (bn_d b)))"
proof -
  have mag: "bn_mag b < 256 ^ n"
  proof (cases "len \<le> 8 * bn_width b")
    case False
    have "bn_mag b < 2 ^ (64 * bn_width b)" using words_val_less [of "take (bn_width b) (bn_d b)"] assms(1) by (simp add: bn_mag_def)
    then show ?thesis using False assms(3) by (simp add: power_mult)
  qed (use assms in simp)
  then have low: "rev (take n (words_bytes (bn_d b))) = be_bytes n (bn_mag b)"
    by (intro low_bytes) (use assms in simp_all)
  show ?thesis unfolding low
    using assms(2,3) mag by (intro be_bytes_unique [symmetric]) (simp_all add: be_val_replicate_0 be_val_be_bytes)
qed

lemma BN_bn2le_padded_eq:
  assumes "bn_width b \<le> List.length (bn_d b)" and "List.length out = len"
  shows "BN_bn2le_padded out len b = (if bn_mag b < 256 ^ len then (True, rev (be_bytes len (bn_mag b))) else (False, out))"
proof (cases "bn_mag b < 256 ^ len")
  case True
  let ?n = "min len (8 * bn_width b)"
  have n: "(if len < bn_width b * BN_BYTES then len else bn_width b * BN_BYTES) = ?n" by (simp add: BN_BYTES_def)
  have "\<not> (len < bn_width b * BN_BYTES \<and> \<not> fits_in_bytes (words_bytes (bn_d b)) (bn_width b * BN_BYTES) len)"
    using fits_in_bytes_iff [OF assms(1), of len] True by (auto simp: BN_BYTES_def mult.commute)
  then have "BN_bn2le_padded out len b = (True, mem_write ?n (replicate (len - ?n) 0) (mem_write 0 (take ?n (words_bytes (bn_d b))) out))"
    unfolding BN_bn2le_padded_def Let_def n by simp
  also have "mem_write ?n (replicate (len - ?n) 0) (mem_write 0 (take ?n (words_bytes (bn_d b))) out) =
      take ?n (words_bytes (bn_d b)) @ replicate (len - ?n) 0"
    using assms by (simp add: mem_write_def min_def)
  also have "\<dots> = rev (be_bytes len (bn_mag b))" using padded_bytes [OF assms(1) True refl] by simp
  finally show ?thesis using True by simp
next
  case False
  have "len < 8 * bn_width b"
  proof (rule ccontr)
    assume "\<not> len < 8 * bn_width b"
    then have "(256 :: nat) ^ (8 * bn_width b) \<le> 256 ^ len" by (intro power_increasing) simp_all
    moreover have "bn_mag b < 2 ^ (64 * bn_width b)" using words_val_less [of "take (bn_width b) (bn_d b)"] assms(1) by (simp add: bn_mag_def)
    ultimately show False using False by (simp add: power_mult)
  qed
  then show ?thesis using fits_in_bytes_iff [OF assms(1), of len] False
    by (simp add: BN_bn2le_padded_def BN_BYTES_def Let_def mult.commute)
qed

lemma fold_reverse_copy:
  "n \<le> List.length out \<Longrightarrow> len = List.length out \<Longrightarrow>
     fold (\<lambda>i out. out[len - i - 1 := bytes ! i]) [0..<n] out = take (len - n) out @ rev (map ((!) bytes) [0..<n])"
proof (induction n)
  case (Suc n)
  define k where "k = len - Suc n"
  have k: "len - n = Suc k" "k < List.length out" using Suc.prems by (simp_all add: k_def)
  then have "take (len - n) out = take k out @ [out ! k]" by (simp add: take_Suc_conv_app_nth)
  moreover have "fold (\<lambda>i out. out[len - i - 1 := bytes ! i]) [0..<n] out = take (len - n) out @ rev (map ((!) bytes) [0..<n])"
    using Suc by simp
  moreover have "len - n - 1 = k" using k(1) by simp
  ultimately show ?case using k(2) unfolding k_def [symmetric] by (simp add: list_update_append)
qed simp

lemma BN_bn2bin_padded_eq:
  assumes "bn_width b \<le> List.length (bn_d b)" and "List.length out = len"
  shows "BN_bn2bin_padded out len b = (if bn_mag b < 256 ^ len then (True, be_bytes len (bn_mag b)) else (False, out))"
proof -
  let ?n = "min len (8 * bn_width b)" and ?bs = "words_bytes (bn_d b)"
  have n: "(if len < bn_width b * BN_BYTES then len else bn_width b * BN_BYTES) = ?n" by (simp add: BN_BYTES_def)
  have le: "?n \<le> List.length ?bs" using assms(1) by (simp add: min_def)
  have copied: "map ((!) ?bs) [0..<?n] = take ?n ?bs" using le by (intro nth_equalityI) simp_all
  have "?n \<le> List.length out" using assms(2) by simp
  then have "fold (\<lambda>i out. out[len - i - 1 := ?bs ! i]) [0..<?n] out = take (len - ?n) out @ rev (take ?n ?bs)"
    unfolding copied [symmetric] by (rule fold_reverse_copy) (rule assms(2) [symmetric])
  then have m: "mem_write 0 (replicate (len - ?n) 0) (fold (\<lambda>i out. out[len - i - 1 := ?bs ! i]) [0..<?n] out) =
      replicate (len - ?n) 0 @ rev (take ?n ?bs)"
    using assms(2) by (simp add: mem_write_def)
  let ?bad = "len < bn_width b * BN_BYTES \<and> \<not> fits_in_bytes ?bs (bn_width b * BN_BYTES) len"
  have "fst (BN_bn2le_padded out len b) = (\<not> ?bad)" unfolding BN_bn2le_padded_def Let_def by (cases ?bad) simp_all
  moreover have "BN_bn2bin_padded out len b = (if ?bad then (False, out) else (True, replicate (len - ?n) 0 @ rev (take ?n ?bs)))"
    unfolding BN_bn2bin_padded_def Let_def n m by (rule refl)
  ultimately have run: "BN_bn2bin_padded out len b =
      (if fst (BN_bn2le_padded out len b) then (True, replicate (len - ?n) 0 @ rev (take ?n ?bs)) else (False, out))"
    by (cases ?bad) simp_all
  show ?thesis
  proof (cases "bn_mag b < 256 ^ len")
    case True
    then have "BN_bn2bin_padded out len b = (True, replicate (len - ?n) 0 @ rev (take ?n ?bs))"
      using run BN_bn2le_padded_eq [OF assms] by simp
    then show ?thesis using True padded_bytes [OF assms(1) True refl] by simp
  next
    case False
    then show ?thesis using run BN_bn2le_padded_eq [OF assms] by simp
  qed
qed

lemma BN_bn2bin_eq:
  assumes "bn_width b \<le> List.length (bn_d b)"
  shows "BN_bn2bin b = be_bytes (BN_num_bytes b) (bn_mag b)" and "bn_mag b < 256 ^ BN_num_bytes b"
    and "bn_mag b \<noteq> 0 \<Longrightarrow> 256 ^ (BN_num_bytes b - 1) \<le> bn_mag b" and "bn_mag b = 0 \<Longrightarrow> BN_num_bytes b = 0"
proof -
  let ?n = "BN_num_bytes b"
  have n: "?n = (nbits (bn_mag b) + 7) div 8" by (simp add: BN_num_bytes_def BN_num_bits_eq [OF assms])
  then have "nbits (bn_mag b) \<le> 8 * ?n" by linarith
  then show mag: "bn_mag b < 256 ^ ?n" by (simp add: nbits_le_iff power_mult)
  show "256 ^ (?n - 1) \<le> bn_mag b" if "bn_mag b \<noteq> 0"
  proof (rule ccontr)
    assume "\<not> 256 ^ (?n - 1) \<le> bn_mag b"
    then have "nbits (bn_mag b) \<le> 8 * (?n - 1)" by (simp add: nbits_le_iff power_mult)
    moreover have "nbits (bn_mag b) \<noteq> 0" using that nbits_le_iff [of "bn_mag b" 0] by simp
    ultimately show False using n by linarith
  qed
  show "bn_mag b = 0 \<Longrightarrow> ?n = 0" using n by simp
  have le: "?n \<le> 8 * bn_width b"
  proof -
    have "bn_mag b < 2 ^ (64 * bn_width b)" using words_val_less [of "take (bn_width b) (bn_d b)"] assms by (simp add: bn_mag_def)
    then have "nbits (bn_mag b) \<le> 64 * bn_width b" by (simp add: nbits_le_iff)
    then show ?thesis using n by linarith
  qed
  have "BN_bn2bin b = map ((!) (words_bytes (bn_d b))) (rev [0..<?n])"
    unfolding BN_bn2bin_def
  proof (rule map_cong [OF refl])
    fix i assume "i \<in> set (rev [0..<?n])"
    then have "i < 8 * List.length (bn_d b)" using le assms by simp
    moreover have "x AND 0xff = x" for x :: u8
    proof -
      have "(0xff :: u8) = -1" by simp
      then show ?thesis by (simp only: and.right_neutral)
    qed
    ultimately show "ucast (drop_bit (8 * (i mod BN_BYTES)) (bn_d b ! (i div BN_BYTES))) AND 0xff = words_bytes (bn_d b) ! i"
      by (simp add: nth_words_bytes BN_BYTES_def)
  qed
  also have "\<dots> = rev (take ?n (words_bytes (bn_d b)))"
  proof -
    have "map ((!) (words_bytes (bn_d b))) [0..<?n] = take ?n (words_bytes (bn_d b))" using le assms by (intro nth_equalityI) simp_all
    then show ?thesis unfolding rev_map [symmetric] by (rule arg_cong)
  qed
  also have "\<dots> = be_bytes ?n (bn_mag b)" by (rule low_bytes [OF assms mag le])
  finally show "BN_bn2bin b = be_bytes ?n (bn_mag b)" .
qed

section \<open>Properties\<close>

text \<open>A string without leading zeros is determined by its value.\<close>

lemma shortest_bytes:
  assumes "bs = [] \<or> hd bs \<noteq> 0" and "be_val bs < 256 ^ n" and "be_val bs \<noteq> 0 \<Longrightarrow> 256 ^ (n - 1) \<le> be_val bs"
    and "be_val bs = 0 \<Longrightarrow> n = 0"
  shows "bs = be_bytes n (be_val bs)"
proof (rule be_bytes_unique [OF _ refl])
  show "List.length bs = n"
  proof (cases "bs = []")
    case True
    then show ?thesis using assms(4) by simp
  next
    case False
    then have lo: "256 ^ (List.length bs - 1) \<le> be_val bs" using assms(1) by (intro be_val_lower) simp_all
    moreover have "(0 :: nat) < 256 ^ (List.length bs - 1)" by simp
    ultimately have nz: "be_val bs \<noteq> 0" by linarith
    have "(256 :: nat) ^ (List.length bs - 1) < 256 ^ n" using lo assms(2) by linarith
    moreover have "(256 :: nat) ^ (n - 1) < 256 ^ List.length bs" using assms(3) [OF nz] be_val_less [of bs] by linarith
    ultimately have "List.length bs - 1 < n" "n - 1 < List.length bs" by (simp_all only: power_strict_increasing_iff)
    then show ?thesis by linarith
  qed
qed

lemma BN_bn2bin_iff:
  assumes "bn_width b \<le> List.length (bn_d b)"
  shows "BN_bn2bin b = bs \<longleftrightarrow> be_val bs = bn_mag b \<and> (bs = [] \<or> hd bs \<noteq> 0)"
proof
  note e = BN_bn2bin_eq [OF assms]
  let ?n = "BN_num_bytes b"
  assume bs: "BN_bn2bin b = bs"
  have "hd bs \<noteq> 0" if "bs \<noteq> []"
  proof
    assume z: "hd bs = 0"
    have "be_val bs = be_val (tl bs)" using z that by (cases bs) simp_all
    also have "\<dots> < 256 ^ List.length (tl bs)" by (rule be_val_less)
    finally have "bn_mag b < 256 ^ (?n - 1)" using bs e(1,2) by (auto simp: be_val_be_bytes)
    moreover have "bn_mag b \<noteq> 0"
    proof
      assume "bn_mag b = 0"
      then have "BN_bn2bin b = []" using e(1,4) by simp
      then show False using that bs by simp
    qed
    ultimately show False using e(3) by simp
  qed
  then show "be_val bs = bn_mag b \<and> (bs = [] \<or> hd bs \<noteq> 0)" using bs e(1,2) by (auto simp: be_val_be_bytes)
next
  note e = BN_bn2bin_eq [OF assms]
  assume "be_val bs = bn_mag b \<and> (bs = [] \<or> hd bs \<noteq> 0)"
  then show "BN_bn2bin b = bs" using shortest_bytes [of bs "BN_num_bytes b"] e by simp
qed

text \<open>
  C38: the bytes of a number and back. \<^verbatim>\<open>BN_bn2bin\<close> writes the one big-endian string without leading zeros for the absolute value.
  \<^verbatim>\<open>BN_bin2bn\<close> reads any string, of any length, as its value, most significant byte first. \<^verbatim>\<open>BN_le2bn\<close>, for the other order, gets the absolute
  value right but leaves the sign of \<open>ret\<close>: read into a negative number, a string gives minus its value, where \<^verbatim>\<open>bn.h\<close> promises the value.
  Both change nothing but \<open>ret\<close>, and fail without any effect only if there is no room. Written again, a number that was read is the
  string without its leading zeros. An empty string read with \<^verbatim>\<open>BN_bin2bn\<close> leaves the sign too, on a zero.
\<close>

theorem BN_bytes_roundtrip:
  assumes "bn_ok b" and "bn_ok (S ret)"
  shows "(\<forall>bs. BN_bn2bin b = bs \<longleftrightarrow> be_val bs = nat \<bar>bn_val b\<bar> \<and> (bs = [] \<or> hd bs \<noteq> 0))
    \<and> (\<forall>inp. (\<exists>c. BN_bin2bn al inp ret S = (True, S(ret := c)) \<and> bn_val c = int (be_val inp) \<and> BN_bn2bin c = dropWhile (\<lambda>x. x = 0) inp
            \<and> (bn_neg c \<longleftrightarrow> inp = [] \<and> bn_neg (S ret)))
        \<or> BN_bin2bn al inp ret S = (False, S) \<and> \<not> fst (bn_wexpand al ret ((List.length inp + 7) div 8) S))
    \<and> (\<forall>inp. (\<exists>c. BN_le2bn al inp ret S = (True, S(ret := c))
            \<and> bn_val c = (if bn_neg (S ret) then - int (be_val (rev inp)) else int (be_val (rev inp))) \<and> BN_bn2bin c = dropWhile (\<lambda>x. x = 0) (rev inp)
            \<and> (bn_neg c \<longleftrightarrow> inp \<noteq> [] \<and> bn_neg (S ret)))
        \<or> BN_le2bn al inp ret S = (False, S) \<and> \<not> fst (bn_wexpand al ret ((List.length inp + 7) div 8) S))"
proof -
  have f: "bn_width b \<le> List.length (bn_d b)" "bn_width (S ret) \<le> List.length (bn_d (S ret))" using assms by (simp_all add: bn_ok_def)
  have mag: "nat \<bar>bn_val b\<bar> = bn_mag b" by (simp add: bn_val_def)
  have strip: "BN_bn2bin c = dropWhile (\<lambda>x. x = 0) inp" if "bn_width c \<le> List.length (bn_d c)" "bn_mag c = be_val inp" for c inp
    using that hd_dropWhile [of "\<lambda>x. x = 0" inp] by (auto simp: BN_bn2bin_iff be_val_dropWhile_0)
  have exact: "bn_val c = int (be_val inp)" if "bn_mag c = be_val inp" "bn_neg c \<longleftrightarrow> inp = [] \<and> q" for c inp q
    using that by (cases "inp = []") (simp_all add: bn_val_def)
  have sign: "bn_val c = (if q then - int (be_val (rev inp)) else int (be_val (rev inp)))"
    if "bn_mag c = be_val (rev inp)" "bn_neg c \<longleftrightarrow> inp \<noteq> [] \<and> q" for c inp q
    using that by (cases "inp = []") (simp_all add: bn_val_def)
  show ?thesis unfolding mag
  proof (intro conjI allI)
    show "BN_bn2bin b = bs \<longleftrightarrow> be_val bs = bn_mag b \<and> (bs = [] \<or> hd bs \<noteq> 0)" for bs by (rule BN_bn2bin_iff [OF f(1)])
  next
    fix inp
    from f(2) show "(\<exists>c. BN_bin2bn al inp ret S = (True, S(ret := c)) \<and> bn_val c = int (be_val inp) \<and> BN_bn2bin c = dropWhile (\<lambda>x. x = 0) inp
            \<and> (bn_neg c \<longleftrightarrow> inp = [] \<and> bn_neg (S ret)))
        \<or> BN_bin2bn al inp ret S = (False, S) \<and> \<not> fst (bn_wexpand al ret ((List.length inp + 7) div 8) S)"
      by (rule BN_bin2bn_cases [where al = al and inp = inp]) (use strip exact in blast)+
  next
    fix inp
    from f(2) show "(\<exists>c. BN_le2bn al inp ret S = (True, S(ret := c))
            \<and> bn_val c = (if bn_neg (S ret) then - int (be_val (rev inp)) else int (be_val (rev inp))) \<and> BN_bn2bin c = dropWhile (\<lambda>x. x = 0) (rev inp)
            \<and> (bn_neg c \<longleftrightarrow> inp \<noteq> [] \<and> bn_neg (S ret)))
        \<or> BN_le2bn al inp ret S = (False, S) \<and> \<not> fst (bn_wexpand al ret ((List.length inp + 7) div 8) S)"
      by (rule BN_le2bn_cases [where al = al and inp = inp]) (use strip sign in blast)+
  qed
qed

theorem BN_bytes_roundtrip_witness:
  "let b = \<lparr>bn_d = [0x1234, 0], bn_width = 2, bn_neg = True, bn_flags = 0\<rparr>
   in BN_bn2bin b = [0x12, 0x34]
      \<and> (\<exists>c. BN_bin2bn example_alloc [0, 0x12, 0x34] 0 (\<lambda>_. b) = (True, (\<lambda>_. b)(0 := c)) \<and> bn_val c = 0x1234)
      \<and> (\<exists>c. BN_le2bn example_alloc [0x34, 0x12] 0 (\<lambda>_. b) = (True, (\<lambda>_. b)(0 := c)) \<and> bn_val c = - 0x1234)"
proof -
  let ?b = "\<lparr>bn_d = [0x1234, 0], bn_width = 2, bn_neg = True, bn_flags = 0\<rparr>"
  have b: "bn_ok ?b" "nat \<bar>bn_val ?b\<bar> = 0x1234" by (simp_all add: bn_ok_def bn_val_def bn_mag_def)
  have room: "fst (bn_wexpand example_alloc 0 1 (\<lambda>_. ?b))" by (simp add: bn_wexpand_def)
  note r = BN_bytes_roundtrip [where b = ?b and S = "\<lambda>_. ?b" and ret = 0 and al = example_alloc, OF b(1) b(1)]
  have "BN_bn2bin ?b = [0x12, 0x34]" using r [THEN conjunct1, THEN spec, of "[0x12, 0x34]"] b(2) by simp
  moreover have "\<exists>c. BN_bin2bn example_alloc [0, 0x12, 0x34] 0 (\<lambda>_. ?b) = (True, (\<lambda>_. ?b)(0 := c)) \<and> bn_val c = 0x1234"
    using r [THEN conjunct2, THEN conjunct1, THEN spec, of "[0, 0x12, 0x34]"] room by auto
  moreover have "\<exists>c. BN_le2bn example_alloc [0x34, 0x12] 0 (\<lambda>_. ?b) = (True, (\<lambda>_. ?b)(0 := c)) \<and> bn_val c = - 0x1234"
    using r [THEN conjunct2, THEN conjunct2, THEN spec, of "[0x34, 0x12]"] room by auto
  ultimately show ?thesis unfolding Let_def by blast
qed

text \<open>
  C39: the fixed-length writers fill the whole buffer with the absolute value, most significant byte first or last, exactly if it fits in the
  bytes of the buffer, whatever the width of the number; otherwise they return zero and leave the buffer alone.
\<close>

theorem BN_padded_exact:
  assumes "bn_ok b"
  shows "BN_bn2bin_padded out (List.length out) b =
      (if nat \<bar>bn_val b\<bar> < 256 ^ List.length out then (True, be_bytes (List.length out) (nat \<bar>bn_val b\<bar>)) else (False, out))
    \<and> BN_bn2le_padded out (List.length out) b =
      (if nat \<bar>bn_val b\<bar> < 256 ^ List.length out then (True, rev (be_bytes (List.length out) (nat \<bar>bn_val b\<bar>))) else (False, out))"
proof -
  have f: "bn_width b \<le> List.length (bn_d b)" and mag: "nat \<bar>bn_val b\<bar> = bn_mag b" using assms by (simp_all add: bn_ok_def bn_val_def)
  show ?thesis unfolding mag using BN_bn2bin_padded_eq [OF f refl] BN_bn2le_padded_eq [OF f refl] by blast
qed

theorem BN_padded_exact_witness:
  "let b = \<lparr>bn_d = [0x1234, 0], bn_width = 2, bn_neg = False, bn_flags = 0\<rparr>
   in BN_bn2bin_padded [9, 9, 9] 3 b = (True, [0, 0x12, 0x34]) \<and> BN_bn2le_padded [9] 1 b = (False, [9])"
proof -
  let ?b = "\<lparr>bn_d = [0x1234, 0], bn_width = 2, bn_neg = False, bn_flags = 0\<rparr>"
  have b: "bn_ok ?b" "nat \<bar>bn_val ?b\<bar> = 0x1234" by (simp_all add: bn_ok_def bn_val_def bn_mag_def)
  have "be_bytes 3 0x1234 = [0, 0x12, 0x34]" by (simp add: numeral_3_eq_3)
  moreover have "List.length [9 :: u8, 9, 9] = 3" "List.length [9 :: u8] = 1" by simp_all
  ultimately show ?thesis
    using BN_padded_exact [OF b(1), of "[9, 9, 9]"] BN_padded_exact [OF b(1), of "[9]"] unfolding b(2) Let_def by (simp only:) simp
qed

end
