(* ===== verification/Spec2Isabelle.thy ===== *)
theory Spec2Isabelle
  imports Bytestring_Properties Bytestring_Unicode Bytestring_Ber Bytestring_Set Bytestring_Oid Base64 Stack Lhash Uv_Timer
    Stream_Modes Feedback_Modes Cbc_Mode Sha512 Sha1 Md4_Md5 Bio_Stream Uv_Inet Bn_Add Bn_Shift Bn_Mod Bn_Bytes
begin

text \<open>
  The C code of the homebank repository. The application itself is a Flutter user interface in Dart; the C code the
  repository carries is that of the libraries its iOS build links, kept under \<^verbatim>\<open>src/ios/Pods\<close>. Of these this development
  models the routines of BoringSSL (\<^verbatim>\<open>BoringSSL-GRPC/src\<close>, below the crypto tree) and of libuv (\<^verbatim>\<open>Libuv-gRPC\<close>, below the uv
  tree) that have a state, a format or a bound to get wrong, and that the rest of the libraries rests on. File names below
  are relative to those two trees.

  Conventions. A \<^verbatim>\<open>size_t\<close> is a natural number below \<open>SIZE_LIMIT\<close>, for a 64-bit target; an integer whose wrap-around matters is
  a word of its width. A pointer into a buffer is the list of bytes that starts there, or, where buffers may overlap
  (the cipher modes), an index into one memory. Pointers to nodes (heap, BIO objects) are addresses in an explicit store,
  and NULL is \<open>None\<close>. A C function that returns zero or NULL on failure returns \<open>None\<close>, and its state afterwards beside it. A
  function pointer the caller supplies is a parameter with its documented contract as a locale: \<open>comparator\<close> and \<open>qsort_ok\<close> in
  Comparison, \<open>block_ok\<close> in Byte_Memory, the block function of \<open>md32_hash\<close> in Md32. Whether an allocation succeeds, and what
  a fresh block holds, are parameters too.

  Foundations.
  \<^item> Byte_Prelude: the integer types, big-endian values of byte strings (\<open>be_val\<close>, \<open>be_bytes\<close>) and the lemmas that turn
    shifts and masks into arithmetic.
  \<^item> Crypto_Mem (crypto/mem.c): the allocation wrappers \<open>OPENSSL_malloc\<close>, \<open>OPENSSL_realloc\<close>, \<open>OPENSSL_memdup\<close> and the string helpers
    \<open>OPENSSL_strnlen\<close>, \<open>OPENSSL_strlcpy\<close>, \<open>CRYPTO_memcmp\<close>, with what each returns.
  \<^item> Constant_Time (crypto/internal.h): the branch-free comparisons; \<open>constant_time_comparisons\<close> says each computes
    the comparison it is named after, for all operands.
  \<^item> Comparison: the contracts of comparison functions and of \<^verbatim>\<open>qsort\<close>, and \<open>refinement\<close>, the simulation locale by which a
    component's history of operations is shown to be a history of its specification.
  \<^item> Number_Text: decimal, dotted and hexadecimal texts of numbers, with the lemmas on how they begin and end.

  The byte-string library (crypto/bytestring).
  \<^item> Bytestring_Reader (cbs.c): the record \<open>CBS\<close> and every reader, down to dates and strings of ASN.1.
  \<^item> Bytestring_Codecs: the locale \<open>codec\<close>, a reader that accepts exactly what an encoding produces, interpreted on the
    fixed-width integers, base-128 integers, identifier octets and DER elements; \<open>der_reader_canonical\<close> and
    \<open>element_reader_stays_in_window\<close> (Bytestring_Properties) rest on it.
  \<^item> Bytestring_Writer (cbb.c): the builder, its buffer and its chain of pending children, every operation.
  \<^item> Bytestring_Emit: \<open>emits\<close>, the contract of an operation of the builder, and its composition over the sequencing of the
    code and over nested elements. \<open>uint64_document_roundtrip\<close>, \<open>nested_element_roundtrip\<close> and \<open>length_prefixed_roundtrip\<close> read
    back what was written.
  \<^item> Bytestring_Asn1: the typed readers against the typed writers.
  \<^item> Bytestring_Ber (ber.c): the search for BER and the conversion to DER. Both recursions are proved total, so there is no
    fuel; the limit of 2048 levels is the code's own. \<open>ber_to_der_converts\<close> says exactly when the input is converted and that
    the result is then DER; \<open>ber_to_der_keeps_der\<close> is the case of DER input. The search forgets BER inside an element that is
    not the last (\<open>ber_to_der_misses_ber\<close>), so that such an input is returned as it is.
  \<^item> Bytestring_Set (cbb.c): \<open>CBB_flush_asn1_set_of\<close> sorts (\<open>set_of_sorts_elements\<close>) or refuses (\<open>set_of_refuses_malformed\<close>).
  \<^item> Bytestring_Oid (cbb.c, cbs.c, asn1_compat.c): dotted text and octets of object identifiers, both directions.
  \<^item> Bytestring_Unicode (unicode.c): UTF-8, Latin-1, UCS-2 and UTF-32; \<open>utf8_canonical\<close>.
  \<^item> Base64 (crypto/base64/base64.c): block and streaming codecs; the text does not depend on how the input was cut
    (\<open>base64_encode_chunking\<close>) and decodes to the input (\<open>base64_stream_roundtrip\<close>, \<open>base64_block_roundtrip\<close>) within the bound the
    caller gave (\<open>base64_decode_in_bounds\<close>).

  Containers.
  \<^item> Stack (crypto/stack/stack.c): the growable array with its mark for sortedness. \<open>stack_refines_list\<close> is a simulation of
    any history by one on lists; \<open>sk_find_finds_first\<close> covers both searches; \<open>sk_set_keeps_stale_mark\<close> is the case where
    the mark is wrong; \<open>sk_deep_copy_all_or_nothing\<close> is the error path of copying.
  \<^item> Lhash (crypto/lhash/lhash.c): the chained hash table with resizing, as a collection with one entry per key.
  \<^item> Uv_Heap (libuv src/heap-inl.h): the pointer heap, on a store of nodes. \<open>heap_repr\<close> relates the store to a complete
    binary tree. The loops are partial functions in the option monad; that they return is part of each theorem.
  \<^item> Uv_Timer (libuv src/timer.c, the handle macros of src/uv-common.h): start, stop, again, the timeout of the next poll
    and the run of the due timers. Their callbacks may make any calls of these functions, on any handles; the run is proved to
    end, and to run the timers in order, if none of the calls asks for a delay of zero and the 64-bit numbering does not run out.

  Network addresses.
  \<^item> Uv_Inet (libuv src/inet.c, src/strscpy.c): printing and parsing of IPv4 and IPv6 addresses. Every address survives the way
    through its text (\<open>inet_text_roundtrip\<close>), the IPv4 parser accepts the canonical texts only, the IPv6 printer cuts the first
    longest run of zeros (\<open>inet6_cuts_longest_run\<close>), and \<open>inet_ntop_short_buffer\<close> says what a buffer that is too small gets.

  Big numbers (crypto/fipsmodule/bn). A number is sign and magnitude over an array of 64-bit words, at an address of a store, so
  that operands and result may be the same number.
  \<^item> Bn_Words (generic.c): the word loops, as folds that pass on a carry, with the value of the words they leave.
  \<^item> Bn (bn.c, cmp.c): space, copies, width, comparison and bit count. \<open>bn_val\<close> is the integer a record stands for, \<open>bn_ok\<close> the
    well-formed records; \<open>BN_compare_correct\<close> relates every predicate to the integer.
  \<^item> Bn_Add (add.c): \<open>bn_computes\<close> is the contract of an operation with an integer as its result; \<open>BN_add_sub_correct\<close> and
    \<open>BN_word_arithmetic_correct\<close> show it for every operation of the file that takes signs into account.
  \<^item> Bn_Shift (shift.c): shifts by any number of places, also in place (\<open>BN_shift_correct\<close>), and single bits
    (\<open>BN_bits_correct\<close>), under the same contract; clearing a bit that the number has no word for fails.
  \<^item> Bn_Bytes (bytes.c): strings of bytes, big- and little-endian, shortest (\<open>BN_bytes_roundtrip\<close>; the little-endian reader keeps the old sign) and padded to a length
    (\<open>BN_padded_exact\<close>).
  \<^item> Bn_Mod (div_extra.c, \<^verbatim>\<open>BN_mod_word\<close> of div.c): remainders by words, one of them by a rounded reciprocal.

  Cipher modes (crypto/fipsmodule/modes).
  \<^item> Byte_Memory: the shared memory, word and byte XOR loops, and \<open>processes\<close>: a mode that works in words and blocks does
    what its reference does one byte at a time.
  \<^item> Stream_Modes (ofb.c, ctr.c), Feedback_Modes (cfb.c), Cbc_Mode (cbc.c): every function of the four files, with the
    overlap of buffers the code allows. Counter mode is compared with the key stream of the standard, the 32-bit counter
    variant with the plain one, the others with their inverses.

  Hash functions (crypto/fipsmodule).
  \<^item> Md32 (digest/md32_common.h, the rotations of crypto/internal.h): the locale \<open>md32_hash\<close>, in which update and final over
    any pieces are the chain of a compression function over the padded message.
  \<^item> Sha256 (sha/sha256.c), Sha1 (sha/sha1.c) and Md4_Md5 (md5/md5.c, md4/md4.c): the block functions with their rotating
    register names and rings of schedule words, each shown equal to its standard's compression function and then
    interpreted in the locale. The theorem below joins the three older hashes.
  \<^item> Sha512 (sha/sha512.c): a collector of its own, whose buffer keeps stale bytes, with the same result.

  Input and output (crypto/bio).
  \<^item> Bio (bio.c, refcount_lock.c): objects at addresses of a \<open>world\<close>, method tables, dispatch, flags, chains, reference counts.
    Freeing and pushing follow chains, so they are partial functions.
  \<^item> Bio_Pair (pair.c): two ring buffers. \<open>bio_pair_refines_queues\<close> is a simulation by two bounded queues;
    \<open>bio_pair_all_or_nothing\<close> says from its six allocations whether the constructor succeeds, and covers each one that fails.
  \<^item> Bio_Stream: the composition of a sender and a receiver over a pair, as a locale \<open>byte_pipe\<close> interpreted on the code;
    \<open>bio_pair_delivers\<close> is the liveness of a transfer under fair scheduling.

  How the parts interact. The builder and the readers share only byte strings; the stack and the set-of encoder both rely
  on \<open>qsort_ok\<close>; the dotted texts of object identifiers and of addresses share Number_Text; addition and subtraction of big
  numbers compare magnitudes with the comparison of cmp.c and make room with \<^verbatim>\<open>bn_wexpand\<close>, which allocates; the timers call the heap and rely only on its specification; the hashes plug their block functions into one
  collector; the pair plugs its methods into the dispatch of bio.c, and the stream uses the pair through \<^verbatim>\<open>BIO_read\<close> and
  \<^verbatim>\<open>BIO_write\<close> only.

  Not modelled. The error queue (\<^verbatim>\<open>OPENSSL_PUT_ERROR\<close>): what is pushed to it is not part of any state here. Threads, locks
  and atomic counters: reference counts are plain counters, as in the build without threads. Assembly: the modes and
  hashes are the portable C code, and the block functions that replace it on some targets, the i386 variant of the
  SHA-512 block function among them, are not. \<^verbatim>\<open>OPENSSL_cleanse\<close> and \<^verbatim>\<open>free\<close>, where no modelled caller sees their effect. Of bio.c the
  line reader, the printing helpers, the reader of ASN.1 elements and the setters of method tables. Of lhash.c the
  freeing of the table, of base64.c the allocation of contexts, of timer.c the queue of handles. Of the big numbers the
  allocation of the record itself, the constant-time selection, the shift by a secret number, the count of low zero bits,
  squares and comba products, long division, and the 32-bit and assembly variants. Of libuv the conversion of host names (idna.c). The remaining code of the repository: the
  exponentiation, RSA and elliptic curve code of BoringSSL, which rests on assembly and tables; its X.509, PEM and
  TLS layers, the latter in C++; the event loop, file and network code of libuv, which is system calls; its thread pool;
  the generated protobuf accessors; the C++ and Objective-C pods; and the Dart application.
\<close>

text \<open>
  C25. SHA-1, MD5 and MD4 over the shared collector give, for a message fed in any pieces, the hash FIPS 180-4, RFC 1321 and
  RFC 1320 define for the whole of it; the one-shot functions are the case of a single piece.
\<close>

theorem legacy_hashes_are_standard:
  "fst (SHA1_Final (foldl SHA1_Update SHA1_Init chunks)) = sha1_hash (concat chunks) \<and>
   fst (MD5_Final (foldl MD5_Update MD5_Init chunks)) = rfc_hash rfc1321_compress (concat chunks) \<and>
   fst (MD4_Final (foldl MD4_Update MD4_Init chunks)) = rfc_hash rfc1320_compress (concat chunks) \<and>
   SHA1 msg = sha1_hash msg \<and> MD5 msg = rfc_hash rfc1321_compress msg \<and> MD4 msg = rfc_hash rfc1320_compress msg"
  using sha1_stream [of chunks] md5_stream [of chunks] md4_stream [of chunks] sha1_stream [of "[msg]"] md5_stream [of "[msg]"]
    md4_stream [of "[msg]"]
  by (simp add: SHA1_def MD5_def MD4_def)

end
